(* ===== verification/Prelude.thy ===== *)
theory Prelude
  imports Main "HOL-Library.Word" "HOL-Library.Monad_Syntax"
begin

text \<open>
  Shared vocabulary of the development: the C integer types of \<^verbatim>\<open>include/rtdef.h\<close> as words,
  the error codes, the alignment macros, and the generic lemmas on lists and words that the
  component theories use.

  \<^item> \<open>rt_uint8_t\<close>, \<open>rt_uint16_t\<close>, \<open>rt_uint32_t\<close>, \<open>rt_tick_t\<close>, \<open>rt_size_t\<close> are words of
    8, 16 and 32 bits (the ports in the tree are 32-bit ARM Cortex-M).
  \<^item> \<open>rt_err_t\<close> is an \<open>int\<close>: the code only returns \<open>RT_EOK\<close> and negated error codes.
  \<^item> A failing \<open>RT_ASSERT\<close> never returns (\<open>rt_assert_handler\<close> spins), so an operation that
    asserts has an \<open>option\<close> result and \<open>None\<close> is "the assertion stopped the system".
\<close>

unbundle bit_operations_syntax

type_synonym u8 = "8 word"
type_synonym u16 = "16 word"
type_synonym u32 = "32 word"
type_synonym tick = "32 word"
type_synonym addr = nat

named_theorems list_simps \<open>rewriting the linked-list operations on their abstract lists\<close>
named_theorems frame \<open>what an operation leaves unchanged\<close>

subsection \<open>Error codes\<close>

abbreviation (input) RT_EOK :: int where "RT_EOK \<equiv> 0"
abbreviation (input) RT_ERROR :: int where "RT_ERROR \<equiv> 1"
abbreviation (input) RT_ETIMEOUT :: int where "RT_ETIMEOUT \<equiv> 2"
abbreviation (input) RT_EFULL :: int where "RT_EFULL \<equiv> 3"
abbreviation (input) RT_EEMPTY :: int where "RT_EEMPTY \<equiv> 4"
abbreviation (input) RT_ENOMEM :: int where "RT_ENOMEM \<equiv> 5"
abbreviation (input) RT_ENOSYS :: int where "RT_ENOSYS \<equiv> 6"
abbreviation (input) RT_EBUSY :: int where "RT_EBUSY \<equiv> 7"
abbreviation (input) RT_EINTR :: int where "RT_EINTR \<equiv> 9"

subsection \<open>Assertions\<close>

definition rt_assert :: "bool \<Rightarrow> unit option" where
  "rt_assert b = (if b then Some () else None)"

lemma rt_assert_simps [simp]: "rt_assert True = Some ()" "rt_assert False = None"
  by (simp_all add: rt_assert_def)

lemma rt_assert_eq_Some [simp]: "rt_assert b = Some u \<longleftrightarrow> b"
  by (simp add: rt_assert_def)

lemma rt_assert_bind [simp]: "rt_assert b \<bind> f = (if b then f () else None)"
  by (simp add: rt_assert_def)

subsection \<open>Lists\<close>

lemma remove1_append_notin [list_simps]:
  "x \<notin> set xs \<Longrightarrow> remove1 x (xs @ ys) = xs @ remove1 x ys"
  by (simp add: remove1_append)

lemma remove1_split [list_simps]:
  "x \<notin> set xs \<Longrightarrow> remove1 x (xs @ x # ys) = xs @ ys"
  by (simp add: remove1_append)

lemma take_drop_split3:
  "i \<le> j \<Longrightarrow> take j xs = take i xs @ take (j - i) (drop i xs)"
  by (metis le_add_diff_inverse take_add)

lemma find_SomeD: "List.find P xs = Some x \<Longrightarrow> x \<in> set xs \<and> P x"
  by (auto simp: find_Some_iff)

end
