(* ===== verification/RtList.thy ===== *)
theory RtList
  imports Prelude
begin

text \<open>
  The intrusive linked lists of \<^verbatim>\<open>include/rtservice.h\<close>. A store maps the address of every
  embedded node to its \<open>next\<close>/\<open>prev\<close> fields, and each operation performs the pointer writes
  of the C function, in its order, on that store. \<open>dlist h l xs\<close> says that the circular
  doubly linked list with head \<open>l\<close> holds exactly the nodes \<open>xs\<close>, in order; the lemmas show
  what every operation does to \<open>xs\<close> and that it leaves the other lists alone. The kernel
  theories work on these abstract lists; the locale \<open>list_provider\<close> is the contract they
  rely on, interpreted here on the pointer operations.
\<close>

subsection \<open>Nodes and their store\<close>

record rt_list_node =
  nx :: addr
  pv :: addr

type_synonym store = "addr \<Rightarrow> rt_list_node"

definition set_next :: "addr \<Rightarrow> addr \<Rightarrow> store \<Rightarrow> store" where
  "set_next a v h = h(a := (h a)\<lparr>nx := v\<rparr>)"

definition set_prev :: "addr \<Rightarrow> addr \<Rightarrow> store \<Rightarrow> store" where
  "set_prev a v h = h(a := (h a)\<lparr>pv := v\<rparr>)"

lemma nx_set_next [simp]: "nx (set_next a v h b) = (if b = a then v else nx (h b))"
  by (simp add: set_next_def)

lemma pv_set_next [simp]: "pv (set_next a v h b) = pv (h b)"
  by (simp add: set_next_def)

lemma nx_set_prev [simp]: "nx (set_prev a v h b) = nx (h b)"
  by (simp add: set_prev_def)

lemma pv_set_prev [simp]: "pv (set_prev a v h b) = (if b = a then v else pv (h b))"
  by (simp add: set_prev_def)

subsection \<open>The operations on doubly linked lists\<close>

definition rt_list_init :: "addr \<Rightarrow> store \<Rightarrow> store" where
  "rt_list_init l h = set_next l l (set_prev l l h)"

definition rt_list_insert_after :: "addr \<Rightarrow> addr \<Rightarrow> store \<Rightarrow> store" where
  "rt_list_insert_after l n h =
     (let h = set_prev (nx (h l)) n h;
          h = set_next n (nx (h l)) h;
          h = set_next l n h
      in set_prev n l h)"

definition rt_list_insert_before :: "addr \<Rightarrow> addr \<Rightarrow> store \<Rightarrow> store" where
  "rt_list_insert_before l n h =
     (let h = set_next (pv (h l)) n h;
          h = set_prev n (pv (h l)) h;
          h = set_prev l n h
      in set_next n l h)"

definition rt_list_remove :: "addr \<Rightarrow> store \<Rightarrow> store" where
  "rt_list_remove n h =
     (let h = set_prev (nx (h n)) (pv (h n)) h;
          h = set_next (pv (h n)) (nx (h n)) h
      in set_next n n (set_prev n n h))"

definition rt_list_isempty :: "addr \<Rightarrow> store \<Rightarrow> bool" where
  "rt_list_isempty l h \<longleftrightarrow> nx (h l) = l"

partial_function (option) rt_list_len_loop :: "store \<Rightarrow> addr \<Rightarrow> addr \<Rightarrow> u32 \<Rightarrow> u32 option" where
  "rt_list_len_loop h l p len =
     (if nx (h p) \<noteq> l then rt_list_len_loop h l (nx (h p)) (len + 1) else Some len)"

definition rt_list_len :: "store \<Rightarrow> addr \<Rightarrow> u32 option" where
  "rt_list_len h l = rt_list_len_loop h l l 0"

subsection \<open>Segments\<close>

definition linked :: "store \<Rightarrow> addr \<Rightarrow> addr \<Rightarrow> bool" where
  "linked h a b \<longleftrightarrow> nx (h a) = b \<and> pv (h b) = a"

fun path :: "store \<Rightarrow> addr \<Rightarrow> addr list \<Rightarrow> addr \<Rightarrow> bool" where
  "path h p [] q = linked h p q"
| "path h p (x # xs) q = (linked h p x \<and> path h x xs q)"

definition dlist :: "store \<Rightarrow> addr \<Rightarrow> addr list \<Rightarrow> bool" where
  "dlist h l xs \<longleftrightarrow> path h l xs l \<and> distinct (l # xs)"

lemma path_append: "path h p (xs @ y # ys) q \<longleftrightarrow> path h p xs y \<and> path h y ys q"
  by (induction xs arbitrary: p) auto

lemma path_cong:
  "\<lbrakk>\<And>a. a \<in> set (p # xs) \<Longrightarrow> nx (h' a) = nx (h a);
    \<And>b. b \<in> set (xs @ [q]) \<Longrightarrow> pv (h' b) = pv (h b)\<rbrakk>
   \<Longrightarrow> path h' p xs q = path h p xs q"
  by (induction xs arbitrary: p) (auto simp: linked_def)

lemma path_next: "path h p xs q \<Longrightarrow> nx (h p) = hd (xs @ [q])"
  by (cases xs) (auto simp: linked_def)

lemma path_prev: "path h p xs q \<Longrightarrow> pv (h q) = last (p # xs)"
  by (induction xs arbitrary: p) (auto simp: linked_def)

subsection \<open>What the operations do to a segment\<close>

lemma rt_list_insert_after_nx:
  "n \<noteq> a \<Longrightarrow> nx (rt_list_insert_after a n h b) =
     (if b = a then n else if b = n then nx (h a) else nx (h b))"
  by (auto simp: rt_list_insert_after_def Let_def)

lemma rt_list_insert_after_pv:
  "n \<noteq> a \<Longrightarrow> pv (rt_list_insert_after a n h b) =
     (if b = n then a else if b = nx (h a) then n else pv (h b))"
  by (auto simp: rt_list_insert_after_def Let_def)

lemma rt_list_insert_before_nx:
  "n \<noteq> a \<Longrightarrow> nx (rt_list_insert_before a n h b) =
     (if b = n then a else if b = pv (h a) then n else nx (h b))"
  by (auto simp: rt_list_insert_before_def Let_def)

lemma rt_list_insert_before_pv:
  "n \<noteq> a \<Longrightarrow> pv (rt_list_insert_before a n h b) =
     (if b = a then n else if b = n then pv (h a) else pv (h b))"
  by (auto simp: rt_list_insert_before_def Let_def)

text \<open>Inserting before a node is inserting after its predecessor.\<close>

lemma insert_before_after:
  assumes "linked h a b" "n \<noteq> a" "n \<noteq> b"
  shows "rt_list_insert_before b n h = rt_list_insert_after a n h"
proof (rule ext, rule rt_list_node.equality)
  fix c
  show "nx (rt_list_insert_before b n h c) = nx (rt_list_insert_after a n h c)"
    using assms by (simp add: rt_list_insert_after_nx rt_list_insert_before_nx linked_def)
  show "pv (rt_list_insert_before b n h c) = pv (rt_list_insert_after a n h c)"
    using assms by (simp add: rt_list_insert_after_pv rt_list_insert_before_pv linked_def)
qed simp_all

lemma rt_list_remove_nx:
  "linked h a n \<Longrightarrow> linked h n b \<Longrightarrow> nx (rt_list_remove n h c) =
     (if c = n then n else if c = a then b else nx (h c))"
  by (auto simp: rt_list_remove_def Let_def linked_def)

lemma rt_list_remove_pv:
  "linked h a n \<Longrightarrow> linked h n b \<Longrightarrow> pv (rt_list_remove n h c) =
     (if c = n then n else if c = b then a else pv (h c))"
  by (auto simp: rt_list_remove_def Let_def linked_def)

subsection \<open>The operations on whole lists\<close>

lemma rt_list_init_dlist: "dlist (rt_list_init l h) l []"
  by (simp add: rt_list_init_def dlist_def linked_def)

lemma dlist_insert_at:
  assumes d: "dlist h l (xs @ ys)" and n: "n \<notin> set (l # xs @ ys)" and a: "a = last (l # xs)"
  shows "dlist (rt_list_insert_after a n h) l (xs @ n # ys)"
proof -
  let ?h = "rt_list_insert_after a n h"
  have al: "a \<in> set (l # xs)" unfolding a by (rule last_in_set) simp
  have na: "n \<noteq> a" using n al by auto
  have nxt: "nx (h a) = hd (ys @ [l])"
  proof (cases xs rule: rev_cases)
    case Nil
    with d a show ?thesis by (auto simp: dlist_def dest: path_next)
  next
    case (snoc us u)
    with d a show ?thesis by (auto simp: dlist_def path_append dest: path_next)
  qed
  have "path ?h l xs n"
  proof (cases xs rule: rev_cases)
    case Nil
    with a na show ?thesis by (simp add: linked_def rt_list_insert_after_nx rt_list_insert_after_pv)
  next
    case (snoc us u)
    have "path h l us u" using d snoc by (auto simp: dlist_def path_append)
    moreover have "path ?h l us u = path h l us u"
      using d n snoc a na nxt by (intro path_cong)
        (auto simp: rt_list_insert_after_nx rt_list_insert_after_pv dlist_def neq_Nil_conv
         split: if_splits, (cases ys; auto)+)
    moreover have "linked ?h u n" using snoc a na
      by (simp add: linked_def rt_list_insert_after_nx rt_list_insert_after_pv)
    ultimately show ?thesis using snoc by (simp add: path_append)
  qed
  moreover have "path ?h n ys l"
  proof (cases ys)
    case Nil
    with n na nxt show ?thesis by (auto simp: linked_def rt_list_insert_after_nx rt_list_insert_after_pv)
  next
    case (Cons y zs)
    have "path h y zs l" using d Cons by (auto simp: dlist_def path_append)
    moreover have "path ?h y zs l = path h y zs l"
      using d n Cons al na nxt by (intro path_cong)
        (auto simp: rt_list_insert_after_nx rt_list_insert_after_pv dlist_def split: if_splits)
    moreover have "linked ?h n y" using n Cons na nxt
      by (auto simp: linked_def rt_list_insert_after_nx rt_list_insert_after_pv)
    ultimately show ?thesis using Cons by simp
  qed
  ultimately show ?thesis using d n by (auto simp: dlist_def path_append)
qed
lemma dlist_insert_after_head:
  "\<lbrakk>dlist h l xs; n \<notin> set (l # xs)\<rbrakk> \<Longrightarrow> dlist (rt_list_insert_after l n h) l (n # xs)"
  using dlist_insert_at [of h l "[]" xs n l] by simp

lemma dlist_insert_before_at:
  assumes d: "dlist h l (xs @ ys)" and n: "n \<notin> set (l # xs @ ys)" and b: "b = hd (ys @ [l])"
  shows "dlist (rt_list_insert_before b n h) l (xs @ n # ys)"
proof -
  let ?a = "last (l # xs)"
  have "linked h ?a b"
  proof (cases ys)
    case Nil
    with d b show ?thesis
      by (cases xs rule: rev_cases) (auto simp: dlist_def path_append linked_def)
  next
    case (Cons y zs)
    with d b show ?thesis
      by (cases xs rule: rev_cases) (auto simp: dlist_def path_append)
  qed
  moreover have "?a \<in> set (l # xs)" by (rule last_in_set) simp
  moreover have "b \<in> set (ys @ [l])" unfolding b by (rule hd_in_set) simp
  ultimately have "rt_list_insert_before b n h = rt_list_insert_after ?a n h"
    using n by (intro insert_before_after) auto
  with dlist_insert_at [OF d n refl] show ?thesis by simp
qed

lemma dlist_insert_before_head:
  "\<lbrakk>dlist h l xs; n \<notin> set (l # xs)\<rbrakk> \<Longrightarrow> dlist (rt_list_insert_before l n h) l (xs @ [n])"
  using dlist_insert_before_at [of h l xs "[]" n l] by simp

lemma dlist_neighbours:
  assumes "dlist h l (xs @ n # ys)"
  shows "linked h (last (l # xs)) n" "linked h n (hd (ys @ [l]))"
  using assms by (cases xs rule: rev_cases; auto simp: dlist_def path_append)
    (cases ys; use assms in \<open>auto simp: dlist_def path_append\<close>)

lemma dlist_remove:
  assumes d: "dlist h l (xs @ n # ys)"
  shows "dlist (rt_list_remove n h) l (xs @ ys)"
proof -
  let ?h = "rt_list_remove n h"
  let ?a = "last (l # xs)" and ?b = "hd (ys @ [l])"
  note nb = dlist_neighbours [OF d]
  have al: "?a \<in> set (l # xs)" by (rule last_in_set) simp
  have bl: "?b \<in> set (ys @ [l])" by (rule hd_in_set) simp
  have dd: "distinct (l # xs @ n # ys)" using d by (simp add: dlist_def)
  have ab: "linked ?h ?a ?b"
    using nb al bl dd by (auto simp: linked_def rt_list_remove_nx rt_list_remove_pv)
  have 1: "path ?h l xs ?b"
  proof (cases xs rule: rev_cases)
    case Nil
    with ab show ?thesis by simp
  next
    case (snoc us u)
    have "path h l us u" using d snoc by (auto simp: dlist_def path_append)
    moreover have "path ?h l us u = path h l us u"
      using dd snoc bl nb by (intro path_cong)
        (auto simp: rt_list_remove_nx [OF nb] rt_list_remove_pv [OF nb])
    ultimately show ?thesis using snoc ab by (simp add: path_append)
  qed
  show ?thesis
  proof (cases ys)
    case Nil
    with 1 dd show ?thesis by (simp add: dlist_def)
  next
    case (Cons y zs)
    have "path h y zs l" using d Cons by (auto simp: dlist_def path_append)
    moreover have "path ?h y zs l = path h y zs l"
      using dd Cons al nb by (intro path_cong)
        (auto simp: rt_list_remove_nx [OF nb] rt_list_remove_pv [OF nb])
    ultimately show ?thesis using Cons 1 dd by (simp add: dlist_def path_append)
  qed
qed

lemma dlist_isempty: "dlist h l xs \<Longrightarrow> rt_list_isempty l h \<longleftrightarrow> xs = []"
  by (cases xs) (auto simp: dlist_def rt_list_isempty_def linked_def)

lemma dlist_first: "dlist h l xs \<Longrightarrow> xs \<noteq> [] \<Longrightarrow> nx (h l) = hd xs"
  by (cases xs) (auto simp: dlist_def linked_def)

text \<open>A list none of whose nodes is touched keeps its contents.\<close>

lemma dlist_frame:
  assumes "dlist h l xs" and "\<And>a. a \<in> set (l # xs) \<Longrightarrow> h' a = h a"
  shows "dlist h' l xs"
proof -
  have "path h' l xs l = path h l xs l" using assms(2) by (intro path_cong) auto
  with assms(1) show ?thesis by (simp add: dlist_def)
qed

lemma rt_list_len_loop_path:
  "\<lbrakk>path h p xs l; l \<notin> set xs\<rbrakk> \<Longrightarrow> rt_list_len_loop h l p n = Some (n + of_nat (length xs))"
proof (induction xs arbitrary: p n)
  case Nil
  then show ?case by (subst rt_list_len_loop.simps) (simp add: linked_def)
next
  case (Cons x xs)
  then show ?case by (subst rt_list_len_loop.simps) (auto simp: linked_def algebra_simps)
qed

lemma rt_list_len_correct: "dlist h l xs \<Longrightarrow> rt_list_len h l = Some (of_nat (length xs))"
  using rt_list_len_loop_path [of h l xs l 0] by (simp add: rt_list_len_def dlist_def)

subsection \<open>Families of lists\<close>

text \<open>
  The kernel keeps many lists over the same nodes (a thread's \<open>tlist\<close> node is in the ready
  queue of its priority, in the waiting list of one object, or in none). The abstract
  operations act on the whole family \<open>L\<close>: \<open>rt_list_remove\<close> unlinks a node from whichever
  list holds it, without naming that list.
\<close>

definition l_push :: "'l \<Rightarrow> addr \<Rightarrow> ('l \<Rightarrow> addr list) \<Rightarrow> 'l \<Rightarrow> addr list" where
  "l_push l n L = L(l := n # L l)"

definition l_append :: "'l \<Rightarrow> addr \<Rightarrow> ('l \<Rightarrow> addr list) \<Rightarrow> 'l \<Rightarrow> addr list" where
  "l_append l n L = L(l := L l @ [n])"

fun insert_before_elem :: "addr \<Rightarrow> addr \<Rightarrow> addr list \<Rightarrow> addr list" where
  "insert_before_elem x n [] = []"
| "insert_before_elem x n (y # ys) = (if y = x then n # y # ys else y # insert_before_elem x n ys)"

definition l_insert_before :: "addr \<Rightarrow> addr \<Rightarrow> ('l \<Rightarrow> addr list) \<Rightarrow> 'l \<Rightarrow> addr list" where
  "l_insert_before x n L = (\<lambda>l. insert_before_elem x n (L l))"

definition l_unlink :: "addr \<Rightarrow> ('l \<Rightarrow> addr list) \<Rightarrow> 'l \<Rightarrow> addr list" where
  "l_unlink n L = (\<lambda>l. remove1 n (L l))"

definition unlinked :: "addr \<Rightarrow> ('l \<Rightarrow> addr list) \<Rightarrow> bool" where
  "unlinked n L \<longleftrightarrow> (\<forall>l. n \<notin> set (L l))"

lemma insert_before_elem_split [list_simps]:
  "x \<notin> set xs \<Longrightarrow> insert_before_elem x n (xs @ x # ys) = xs @ n # x # ys"
  by (induction xs) auto

lemma insert_before_elem_notin [list_simps]:
  "x \<notin> set xs \<Longrightarrow> insert_before_elem x n xs = xs"
  by (induction xs) auto

lemma set_insert_before_elem:
  "set (insert_before_elem x n xs) = (if x \<in> set xs then insert n (set xs) else set xs)"
  by (induction xs) auto

text \<open>
  \<open>lists_rel H N h L\<close>: the store \<open>h\<close> holds, for every head in \<open>H\<close>, the list \<open>L\<close> gives it;
  the lists are over the nodes \<open>N\<close>, share none, and every node in no list points to itself
  (as \<open>rt_list_init\<close> and \<open>rt_list_remove\<close> leave it).
\<close>

definition lists_rel :: "addr set \<Rightarrow> addr set \<Rightarrow> store \<Rightarrow> (addr \<Rightarrow> addr list) \<Rightarrow> bool" where
  "lists_rel H N h L \<longleftrightarrow>
     H \<inter> N = {} \<and>
     (\<forall>l \<in> H. dlist h l (L l) \<and> set (L l) \<subseteq> N) \<and>
     (\<forall>l. l \<notin> H \<longrightarrow> L l = []) \<and>
     (\<forall>l l'. l \<noteq> l' \<longrightarrow> set (L l) \<inter> set (L l') = {}) \<and>
     (\<forall>n \<in> N. unlinked n L \<longrightarrow> nx (h n) = n \<and> pv (h n) = n)"

text \<open>One list of the family changes; the writes stay within its old and new nodes.\<close>

lemma lists_rel_update:
  assumes R: "lists_rel H N h L" and l: "l \<in> H"
    and d: "dlist h' l xs'" and N: "set xs' \<subseteq> N"
    and dis: "\<And>l'. l' \<noteq> l \<Longrightarrow> set xs' \<inter> set (L l') = {}"
    and fr: "\<And>a. a \<notin> set (l # L l @ xs') \<Longrightarrow> h' a = h a"
    and self: "\<And>m. m \<in> set (L l) - set xs' \<Longrightarrow> nx (h' m) = m \<and> pv (h' m) = m"
  shows "lists_rel H N h' (L(l := xs'))"
proof -
  have HN: "H \<inter> N = {}" and old: "\<And>k. k \<in> H \<Longrightarrow> dlist h k (L k) \<and> set (L k) \<subseteq> N"
    and out: "\<And>k. k \<notin> H \<Longrightarrow> L k = []"
    and dj: "\<And>k k'. k \<noteq> k' \<Longrightarrow> set (L k) \<inter> set (L k') = {}"
    and free: "\<And>n. n \<in> N \<Longrightarrow> unlinked n L \<Longrightarrow> nx (h n) = n \<and> pv (h n) = n"
    using R by (auto simp: lists_rel_def)
  have other: "dlist h' k (L k)" if "k \<in> H" "k \<noteq> l" for k
  proof (rule dlist_frame)
    show "dlist h k (L k)" using old that by blast
    show "h' a = h a" if "a \<in> set (k # L k)" for a
      using that \<open>k \<in> H\<close> \<open>k \<noteq> l\<close> HN old [OF \<open>k \<in> H\<close>] old [OF l] dj [of k l] dis [of k] N l
      by (intro fr) auto
  qed
  moreover have "nx (h' n) = n \<and> pv (h' n) = n" if "n \<in> N" "unlinked n (L(l := xs'))" for n
  proof (cases "n \<in> set (L l)")
    case True
    moreover have "n \<notin> set xs'" using that(2) by (auto simp: unlinked_def dest: spec [of _ l])
    ultimately show ?thesis using self by blast
  next
    case False
    with that have "unlinked n L" and "n \<notin> set (l # L l @ xs')"
      using HN l by (auto simp: unlinked_def split: if_splits)
    then show ?thesis using free fr that by metis
  qed
  moreover have "set ((L(l := xs')) k) \<inter> set ((L(l := xs')) k') = {}" if "k \<noteq> k'" for k k'
    using dj [OF that] dis [of k] dis [of k'] that by auto
  ultimately show ?thesis
    using HN old out d N l by (simp add: lists_rel_def)
qed

lemma insert_after_touches:
  "a \<notin> {n, l, nx (h l)} \<Longrightarrow> rt_list_insert_after l n h a = h a"
  by (auto simp: rt_list_insert_after_def Let_def set_next_def set_prev_def)

lemma insert_before_touches:
  "a \<notin> {n, l, pv (h l)} \<Longrightarrow> rt_list_insert_before l n h a = h a"
  by (auto simp: rt_list_insert_before_def Let_def set_next_def set_prev_def)

lemma remove_touches:
  "a \<notin> {n, pv (h n), nx (h n)} \<Longrightarrow> rt_list_remove n h a = h a"
  by (auto simp: rt_list_remove_def Let_def set_next_def set_prev_def)

lemma dlist_nx_in: "dlist h l xs \<Longrightarrow> a \<in> set (l # xs) \<Longrightarrow> nx (h a) \<in> set (l # xs) \<and> pv (h a) \<in> set (l # xs)"
proof -
  assume d: "dlist h l xs" and a: "a \<in> set (l # xs)"
  show ?thesis
  proof (cases "a = l")
    case True
    with d have "nx (h a) = hd (xs @ [l])" "pv (h a) = last (l # xs)"
      by (auto simp: dlist_def dest: path_next path_prev)
    moreover have "hd (xs @ [l]) \<in> set (l # xs)" by (cases xs) auto
    moreover have "last (l # xs) \<in> set (l # xs)" by (rule last_in_set) simp
    ultimately show ?thesis by simp
  next
    case False
    then obtain us vs where xs: "xs = us @ a # vs" using a by (auto simp: in_set_conv_decomp)
    note nb = dlist_neighbours [OF d [unfolded xs]]
    have "last (l # us) \<in> set (l # us)" by (rule last_in_set) simp
    moreover have "hd (vs @ [l]) \<in> set (l # vs)" by (cases vs) auto
    ultimately show ?thesis using nb xs by (auto simp: linked_def)
  qed
qed

lemma lists_rel_dlist: "lists_rel H N h L \<Longrightarrow> l \<in> H \<Longrightarrow> dlist h l (L l)"
  by (simp add: lists_rel_def)

lemma lists_rel_sub: "lists_rel H N h L \<Longrightarrow> set (L l) \<subseteq> N"
  unfolding lists_rel_def by (metis empty_subsetI list.set(1))

lemma lists_rel_fresh:
  "\<lbrakk>lists_rel H N h L; l \<in> H; n \<in> N; unlinked n L\<rbrakk> \<Longrightarrow> n \<notin> set (l # L l)"
  by (auto simp: lists_rel_def unlinked_def)

lemma lists_rel_append:
  assumes R: "lists_rel H N h L" and l: "l \<in> H" and n: "n \<in> N" "unlinked n L"
  shows "lists_rel H N (rt_list_insert_before l n h) (l_append l n L)"
  unfolding l_append_def
proof (rule lists_rel_update [OF R l])
  note d = lists_rel_dlist [OF R l] and fr = lists_rel_fresh [OF R l n]
  show "dlist (rt_list_insert_before l n h) l (L l @ [n])" using d fr by (rule dlist_insert_before_head)
  show "set (L l @ [n]) \<subseteq> N" using R l n by (auto simp: lists_rel_def)
  show "set (L l @ [n]) \<inter> set (L l') = {}" if "l' \<noteq> l" for l'
    using R n that by (auto simp: lists_rel_def unlinked_def)
  show "rt_list_insert_before l n h a = h a" if "a \<notin> set (l # L l @ L l @ [n])" for a
    using dlist_nx_in [OF d, of l] that by (intro insert_before_touches) auto
qed auto

lemma lists_rel_push:
  assumes R: "lists_rel H N h L" and l: "l \<in> H" and n: "n \<in> N" "unlinked n L"
  shows "lists_rel H N (rt_list_insert_after l n h) (l_push l n L)"
  unfolding l_push_def
proof (rule lists_rel_update [OF R l])
  note d = lists_rel_dlist [OF R l] and fr = lists_rel_fresh [OF R l n]
  show "dlist (rt_list_insert_after l n h) l (n # L l)" using d fr by (rule dlist_insert_after_head)
  show "set (n # L l) \<subseteq> N" using R l n by (auto simp: lists_rel_def)
  show "set (n # L l) \<inter> set (L l') = {}" if "l' \<noteq> l" for l'
    using R n that by (auto simp: lists_rel_def unlinked_def)
  show "rt_list_insert_after l n h a = h a" if "a \<notin> set (l # L l @ n # L l)" for a
    using dlist_nx_in [OF d, of l] that by (intro insert_after_touches) auto
qed auto

text \<open>For operations at a node: the node is in exactly one list of the family.\<close>

lemma lists_rel_unique:
  "\<lbrakk>lists_rel H N h L; x \<in> set (L l)\<rbrakk> \<Longrightarrow> l \<in> H \<and> (\<forall>l'. l' \<noteq> l \<longrightarrow> x \<notin> set (L l'))"
  unfolding lists_rel_def by (metis disjoint_iff empty_iff list.set(1))

lemma lists_rel_insert_before:
  assumes R: "lists_rel H N h L" and x: "x \<in> set (L l)" and n: "n \<in> N" "unlinked n L"
  shows "lists_rel H N (rt_list_insert_before x n h) (l_insert_before x n L)"
proof -
  have l: "l \<in> H" and other: "\<And>l'. l' \<noteq> l \<Longrightarrow> x \<notin> set (L l')"
    using lists_rel_unique [OF R x] by auto
  obtain us vs where xs: "L l = us @ x # vs" and u: "x \<notin> set us"
    using x by (metis split_list_first)
  note d = lists_rel_dlist [OF R l] and fr = lists_rel_fresh [OF R l n]
  have eq: "l_insert_before x n L = L(l := us @ n # x # vs)"
    using other xs u by (auto simp: l_insert_before_def fun_eq_iff list_simps)
  show ?thesis unfolding eq
  proof (rule lists_rel_update [OF R l])
    show "dlist (rt_list_insert_before x n h) l (us @ n # x # vs)"
      using d fr xs by (intro dlist_insert_before_at) auto
    show "set (us @ n # x # vs) \<subseteq> N" using lists_rel_sub [OF R, of l] n xs by auto
    show "set (us @ n # x # vs) \<inter> set (L l') = {}" if "l' \<noteq> l" for l'
    proof -
      have "set (L l) \<inter> set (L l') = {}" "n \<notin> set (L l')"
        using R n that by (auto simp: lists_rel_def unlinked_def)
      then show ?thesis using xs by auto
    qed
    show "rt_list_insert_before x n h a = h a" if "a \<notin> set (l # L l @ us @ n # x # vs)" for a
      using dlist_nx_in [OF d, of x] that xs by (intro insert_before_touches) auto
  qed (use xs in auto)
qed

lemma rt_list_remove_unlinked:
  "\<lbrakk>lists_rel H N h L; n \<in> N; unlinked n L\<rbrakk> \<Longrightarrow> rt_list_remove n h = h"
  by (auto simp: lists_rel_def rt_list_remove_def Let_def set_next_def set_prev_def fun_eq_iff)

lemma lists_rel_unlink:
  assumes R: "lists_rel H N h L" and n: "n \<in> N"
  shows "lists_rel H N (rt_list_remove n h) (l_unlink n L)"
proof (cases "unlinked n L")
  case True
  then have "l_unlink n L = L" by (auto simp: l_unlink_def unlinked_def remove1_idem)
  with True show ?thesis using R n by (simp add: rt_list_remove_unlinked)
next
  case False
  then obtain l where x: "n \<in> set (L l)" by (auto simp: unlinked_def)
  have l: "l \<in> H" and other: "\<And>l'. l' \<noteq> l \<Longrightarrow> n \<notin> set (L l')"
    using lists_rel_unique [OF R x] by auto
  obtain us vs where xs: "L l = us @ n # vs" and u: "n \<notin> set us"
    using x by (metis split_list_first)
  note d = lists_rel_dlist [OF R l]
  have eq: "l_unlink n L = L(l := us @ vs)"
    using other xs u by (auto simp: l_unlink_def fun_eq_iff remove1_idem list_simps)
  show ?thesis unfolding eq
  proof (rule lists_rel_update [OF R l])
    show "dlist (rt_list_remove n h) l (us @ vs)" using d xs by (intro dlist_remove) simp
    show "set (us @ vs) \<subseteq> N" using lists_rel_sub [OF R, of l] xs by auto
    show "set (us @ vs) \<inter> set (L l') = {}" if "l' \<noteq> l" for l'
    proof -
      have "set (L l) \<inter> set (L l') = {}" using R that by (auto simp: lists_rel_def)
      then show ?thesis using xs by auto
    qed
    show "rt_list_remove n h a = h a" if "a \<notin> set (l # L l @ us @ vs)" for a
      using dlist_nx_in [OF d, of n] that xs by (intro remove_touches) auto
    show "nx (rt_list_remove n h m) = m \<and> pv (rt_list_remove n h m) = m"
      if "m \<in> set (L l) - set (us @ vs)" for m
      using that xs dlist_neighbours [OF d [unfolded xs]]
      by (auto simp: rt_list_remove_nx rt_list_remove_pv)
  qed
qed

subsection \<open>The contract the kernel relies on\<close>

text \<open>
  A provider of linked lists over \<open>nodes\<close> with heads \<open>heads\<close>: an abstraction relation \<open>R\<close>
  to the family of lists, and the five operations the kernel calls.
\<close>

locale list_provider =
  fixes R :: "'h \<Rightarrow> (addr \<Rightarrow> addr list) \<Rightarrow> bool"
    and heads :: "addr set" and nodes :: "addr set"
    and ins_after :: "addr \<Rightarrow> addr \<Rightarrow> 'h \<Rightarrow> 'h"
    and ins_before :: "addr \<Rightarrow> addr \<Rightarrow> 'h \<Rightarrow> 'h"
    and unlink :: "addr \<Rightarrow> 'h \<Rightarrow> 'h"
    and isempty :: "addr \<Rightarrow> 'h \<Rightarrow> bool"
    and first :: "addr \<Rightarrow> 'h \<Rightarrow> addr"
  assumes push: "\<lbrakk>R h L; l \<in> heads; n \<in> nodes; unlinked n L\<rbrakk> \<Longrightarrow> R (ins_after l n h) (l_push l n L)"
    and append: "\<lbrakk>R h L; l \<in> heads; n \<in> nodes; unlinked n L\<rbrakk> \<Longrightarrow> R (ins_before l n h) (l_append l n L)"
    and insert_before: "\<lbrakk>R h L; x \<in> set (L l); n \<in> nodes; unlinked n L\<rbrakk>
      \<Longrightarrow> R (ins_before x n h) (l_insert_before x n L)"
    and unlink: "\<lbrakk>R h L; n \<in> nodes\<rbrakk> \<Longrightarrow> R (unlink n h) (l_unlink n L)"
    and isempty: "\<lbrakk>R h L; l \<in> heads\<rbrakk> \<Longrightarrow> isempty l h \<longleftrightarrow> L l = []"
    and first: "\<lbrakk>R h L; l \<in> heads; L l \<noteq> []\<rbrakk> \<Longrightarrow> first l h = hd (L l)"
    and in_nodes: "R h L \<Longrightarrow> set (L l) \<subseteq> nodes"
    and disjoint: "R h L \<Longrightarrow> l \<noteq> l' \<Longrightarrow> set (L l) \<inter> set (L l') = {}"
    and distinct: "R h L \<Longrightarrow> distinct (L l)"
begin

lemma unlink_unlinked: "R h L \<Longrightarrow> unlinked n (l_unlink n L)"
  using distinct by (auto simp: unlinked_def l_unlink_def set_remove1_eq)

text \<open>Moving a node to the end of a list, whichever list it was in.\<close>

lemma move_to_tail:
  assumes "R h L" "l \<in> heads" "n \<in> nodes"
  shows "R (ins_before l n (unlink n h)) (l_append l n (l_unlink n L))"
  using assms unlink_unlinked by (intro append unlink) auto

text \<open>Queue discipline: nodes appended to a list are taken from its front in arrival order.\<close>

lemma first_after_append:
  assumes "R h L" "l \<in> heads" "n \<in> nodes" "unlinked n L"
  shows "first l (ins_before l n h) = (if L l = [] then n else first l h)"
proof -
  have "R (ins_before l n h) (l_append l n L)" using assms by (rule append)
  from first [OF this \<open>l \<in> heads\<close>] first [OF assms(1,2)] show ?thesis
    by (auto simp: l_append_def)
qed

lemma dequeue_front:
  assumes "R h L" "l \<in> heads" "L l = n # ns"
  shows "first l h = n" and "R (unlink (first l h) h) (L(l := ns))"
proof -
  show f: "first l h = n" using first [OF assms(1,2)] assms(3) by simp
  have "n \<notin> set (L k)" if "k \<noteq> l" for k
    using disjoint [OF assms(1) that] assms(3) by auto
  then have "l_unlink n L = L(l := ns)"
    using assms(3) by (auto simp: l_unlink_def fun_eq_iff remove1_idem)
  moreover have "n \<in> nodes" using in_nodes [OF assms(1), of l] assms(3) by auto
  ultimately show "R (unlink (first l h) h) (L(l := ns))"
    using unlink [OF assms(1)] f by metis
qed

end

interpretation ptr: list_provider "lists_rel H N" H N rt_list_insert_after rt_list_insert_before
  rt_list_remove rt_list_isempty "\<lambda>l h. nx (h l)" for H N
proof
  show "set (L l) \<subseteq> N" if "lists_rel H N h L" for h L l using that by (rule lists_rel_sub)
  show "set (L l) \<inter> set (L l') = {}" if "lists_rel H N h L" "l \<noteq> l'" for h L l l'
    using that by (auto simp: lists_rel_def)
  show "distinct (L l)" if "lists_rel H N h L" for h L l
    using that by (cases "l \<in> H") (auto simp: lists_rel_def dlist_def)
  show "rt_list_isempty l h = (L l = [])" if "lists_rel H N h L" "l \<in> H" for h L l
    using dlist_isempty [OF lists_rel_dlist [OF that]] .
qed (auto intro: lists_rel_push lists_rel_append lists_rel_insert_before lists_rel_unlink
  dlist_first [OF lists_rel_dlist])

subsection \<open>Singly linked lists\<close>

definition NULL :: addr where "NULL = 0"

definition rt_slist_init :: "addr \<Rightarrow> store \<Rightarrow> store" where
  "rt_slist_init l h = set_next l NULL h"

partial_function (option) slist_last :: "store \<Rightarrow> addr \<Rightarrow> addr option" where
  "slist_last h node = (if nx (h node) \<noteq> NULL then slist_last h (nx (h node)) else Some node)"

definition rt_slist_append :: "addr \<Rightarrow> addr \<Rightarrow> store \<Rightarrow> store option" where
  "rt_slist_append l n h = do {
     node \<leftarrow> slist_last h l;
     Some (set_next n NULL (set_next node n h)) }"

definition rt_slist_insert :: "addr \<Rightarrow> addr \<Rightarrow> store \<Rightarrow> store" where
  "rt_slist_insert l n h = (let h = set_next n (nx (h l)) h in set_next l n h)"

partial_function (option) slist_len_loop :: "store \<Rightarrow> addr \<Rightarrow> u32 \<Rightarrow> u32 option" where
  "slist_len_loop h list len =
     (if list \<noteq> NULL then slist_len_loop h (nx (h list)) (len + 1) else Some len)"

definition rt_slist_len :: "store \<Rightarrow> addr \<Rightarrow> u32 option" where
  "rt_slist_len h l = slist_len_loop h (nx (h l)) 0"

partial_function (option) slist_find_prev :: "store \<Rightarrow> addr \<Rightarrow> addr \<Rightarrow> addr option" where
  "slist_find_prev h n node =
     (if nx (h node) \<noteq> NULL \<and> nx (h node) \<noteq> n then slist_find_prev h n (nx (h node)) else Some node)"

definition rt_slist_remove :: "addr \<Rightarrow> addr \<Rightarrow> store \<Rightarrow> store option" where
  "rt_slist_remove l n h = do {
     node \<leftarrow> slist_find_prev h n l;
     Some (if nx (h node) \<noteq> NULL then set_next node (nx (h (nx (h node)))) h else h) }"

definition rt_slist_first :: "store \<Rightarrow> addr \<Rightarrow> addr" where
  "rt_slist_first h l = nx (h l)"

definition rt_slist_tail :: "store \<Rightarrow> addr \<Rightarrow> addr option" where
  "rt_slist_tail h l = slist_last h l"

definition rt_slist_isempty :: "store \<Rightarrow> addr \<Rightarrow> bool" where
  "rt_slist_isempty h l \<longleftrightarrow> nx (h l) = NULL"

fun slist :: "store \<Rightarrow> addr \<Rightarrow> addr list \<Rightarrow> bool" where
  "slist h l [] = (nx (h l) = NULL)"
| "slist h l (x # xs) = (nx (h l) = x \<and> x \<noteq> NULL \<and> slist h x xs)"

lemma slist_cong: "(\<And>a. a \<in> set (l # xs) \<Longrightarrow> nx (h' a) = nx (h a)) \<Longrightarrow> slist h' l xs = slist h l xs"
  by (induction xs arbitrary: l) auto

lemma slist_last_correct: "slist h l xs \<Longrightarrow> slist_last h l = Some (last (l # xs))"
  by (induction xs arbitrary: l; subst slist_last.simps) auto

lemma slist_upd_last:
  "\<lbrakk>slist h l xs; distinct (l # xs); n \<notin> set (l # xs); n \<noteq> NULL\<rbrakk>
   \<Longrightarrow> slist (set_next n NULL (set_next (last (l # xs)) n h)) l (xs @ [n])"
proof (induction xs arbitrary: l)
  case (Cons x xs)
  have "last (x # xs) \<noteq> l" using Cons.prems(2) last_in_set [of "x # xs"] by auto
  moreover have "slist (set_next n NULL (set_next (last (x # xs)) n h)) x (xs @ [n])"
    using Cons.prems by (intro Cons.IH) auto
  ultimately show ?case using Cons.prems by auto
qed simp

lemma rt_slist_append_correct:
  "\<lbrakk>slist h l xs; distinct (l # xs); n \<notin> set (l # xs); n \<noteq> NULL\<rbrakk>
   \<Longrightarrow> \<exists>h'. rt_slist_append l n h = Some h' \<and> slist h' l (xs @ [n])"
  using slist_upd_last [of h l xs n]
  by (simp only: rt_slist_append_def slist_last_correct bind.bind_lunit option.inject) auto

lemma rt_slist_insert_correct:
  assumes "slist h l xs" "n \<notin> set (l # xs)" "l \<notin> set xs" "n \<noteq> NULL"
  shows "slist (rt_slist_insert l n h) l (n # xs)"
proof (cases xs)
  case Nil
  with assms show ?thesis by (simp add: rt_slist_insert_def)
next
  case (Cons y ys)
  with assms have "slist (rt_slist_insert l n h) y ys"
    by (subst slist_cong [of _ _ _ h]) (auto simp: rt_slist_insert_def)
  with Cons assms show ?thesis by (simp add: rt_slist_insert_def)
qed

lemma slist_len_loop_correct:
  "slist h l xs \<Longrightarrow> slist_len_loop h (nx (h l)) k = Some (k + of_nat (length xs))"
  by (induction xs arbitrary: l k; subst slist_len_loop.simps) (auto simp: NULL_def algebra_simps)

lemma rt_slist_len_correct: "slist h l xs \<Longrightarrow> rt_slist_len h l = Some (of_nat (length xs))"
  by (simp add: rt_slist_len_def slist_len_loop_correct)

lemma rt_slist_tail_correct: "slist h l xs \<Longrightarrow> rt_slist_tail h l = Some (last (l # xs))"
  unfolding rt_slist_tail_def by (rule slist_last_correct)

lemma rt_slist_isempty_correct: "slist h l xs \<Longrightarrow> rt_slist_isempty h l \<longleftrightarrow> xs = []"
  by (cases xs) (auto simp: rt_slist_isempty_def)

lemma slist_remove_aux:
  "\<lbrakk>slist h l xs; distinct (l # xs)\<rbrakk> \<Longrightarrow>
   \<exists>p. slist_find_prev h n l = Some p \<and> p \<in> set (l # xs) \<and>
     slist (if nx (h p) \<noteq> NULL then set_next p (nx (h (nx (h p)))) h else h) l (remove1 n xs)"
proof (induction xs arbitrary: l)
  case Nil
  then show ?case by (subst slist_find_prev.simps) auto
next
  case (Cons x xs)
  show ?case
  proof (cases "x = n")
    case True
    have "slist (set_next l (nx (h x)) h) l xs"
    proof (cases xs)
      case (Cons y ys)
      with Cons.prems have "slist h y ys" "l \<notin> set (y # ys)" by auto
      then have "slist (set_next l (nx (h x)) h) y ys" by (subst slist_cong [of _ _ _ h]) auto
      with Cons Cons.prems show ?thesis by auto
    qed (use Cons.prems in auto)
    with Cons.prems True show ?thesis by (subst slist_find_prev.simps) auto
  next
    case False
    with Cons.prems Cons.IH [of x] obtain p where p: "slist_find_prev h n x = Some p" "p \<in> set (x # xs)"
      "slist (if nx (h p) \<noteq> NULL then set_next p (nx (h (nx (h p)))) h else h) x (remove1 n xs)"
      by auto
    moreover have "p \<noteq> l" using p(2) Cons.prems(2) by auto
    ultimately show ?thesis using False Cons.prems by (subst slist_find_prev.simps) auto
  qed
qed

lemma rt_slist_remove_correct:
  assumes "slist h l xs" "distinct (l # xs)"
  shows "\<exists>h'. rt_slist_remove l n h = Some h' \<and> slist h' l (remove1 n xs)"
  using slist_remove_aux [OF assms, of n] by (auto simp: rt_slist_remove_def)

end
