(* ===== verification/Ffs.thy ===== *)
theory Ffs
  imports Prelude
begin

unbundle bit_operations_syntax

text \<open>
  The software find-first-set of \<^verbatim>\<open>src/kservice.c\<close>, which the scheduler uses to pick the
  highest ready priority out of the ready group.
\<close>

definition lowest_bit_bitmap :: "nat list" where
  "lowest_bit_bitmap =
    [0, 0, 1, 0, 2, 0, 1, 0, 3, 0, 1, 0, 2, 0, 1, 0,
     4, 0, 1, 0, 2, 0, 1, 0, 3, 0, 1, 0, 2, 0, 1, 0,
     5, 0, 1, 0, 2, 0, 1, 0, 3, 0, 1, 0, 2, 0, 1, 0,
     4, 0, 1, 0, 2, 0, 1, 0, 3, 0, 1, 0, 2, 0, 1, 0,
     6, 0, 1, 0, 2, 0, 1, 0, 3, 0, 1, 0, 2, 0, 1, 0,
     4, 0, 1, 0, 2, 0, 1, 0, 3, 0, 1, 0, 2, 0, 1, 0,
     5, 0, 1, 0, 2, 0, 1, 0, 3, 0, 1, 0, 2, 0, 1, 0,
     4, 0, 1, 0, 2, 0, 1, 0, 3, 0, 1, 0, 2, 0, 1, 0,
     7, 0, 1, 0, 2, 0, 1, 0, 3, 0, 1, 0, 2, 0, 1, 0,
     4, 0, 1, 0, 2, 0, 1, 0, 3, 0, 1, 0, 2, 0, 1, 0,
     5, 0, 1, 0, 2, 0, 1, 0, 3, 0, 1, 0, 2, 0, 1, 0,
     4, 0, 1, 0, 2, 0, 1, 0, 3, 0, 1, 0, 2, 0, 1, 0,
     6, 0, 1, 0, 2, 0, 1, 0, 3, 0, 1, 0, 2, 0, 1, 0,
     4, 0, 1, 0, 2, 0, 1, 0, 3, 0, 1, 0, 2, 0, 1, 0,
     5, 0, 1, 0, 2, 0, 1, 0, 3, 0, 1, 0, 2, 0, 1, 0,
     4, 0, 1, 0, 2, 0, 1, 0, 3, 0, 1, 0, 2, 0, 1, 0]"

definition rt_ffs :: "u32 \<Rightarrow> nat" where
  "rt_ffs value =
     (if value = 0 then 0
      else if value AND 0xff \<noteq> 0 then lowest_bit_bitmap ! unat (value AND 0xff) + 1
      else if value AND 0xff00 \<noteq> 0 then lowest_bit_bitmap ! unat (drop_bit 8 (value AND 0xff00)) + 9
      else if value AND 0xff0000 \<noteq> 0 then lowest_bit_bitmap ! unat (drop_bit 16 (value AND 0xff0000)) + 17
      else lowest_bit_bitmap ! unat (drop_bit 24 (value AND 0xff000000)) + 25)"

text \<open>The table holds the index of the lowest set bit of every non-zero byte.\<close>

definition lowest_bit_ok :: "nat \<Rightarrow> nat \<Rightarrow> bool" where
  "lowest_bit_ok v b \<longleftrightarrow> odd (v div 2 ^ b) \<and> v mod 2 ^ b = 0"

lemma lowest_bit_bitmap_ok: "0 < i \<Longrightarrow> i < 256 \<Longrightarrow> lowest_bit_ok i (lowest_bit_bitmap ! i)"
proof -
  have len: "length lowest_bit_bitmap = 256" by (simp add: lowest_bit_bitmap_def)
  have "list_all2 lowest_bit_ok (1 # [2..<256]) (tl lowest_bit_bitmap)"
    by (simp add: lowest_bit_bitmap_def lowest_bit_ok_def)
  moreover assume "0 < i" "i < 256"
  moreover from this have "(1 # [2..<256]) ! (i - 1) = i" by (auto simp: nth_Cons' simp del: upt_rec_numeral)
  ultimately have "lowest_bit_ok i (tl lowest_bit_bitmap ! (i - 1))"
    using len by (auto simp: list_all2_conv_all_nth simp del: upt_rec_numeral dest: spec [of _ "i - 1"])
  with len \<open>0 < i\<close> \<open>i < 256\<close> show "lowest_bit_ok i (lowest_bit_bitmap ! i)"
    by (simp add: nth_tl)
qed

lemma lowest_bit_ok_bits:
  assumes "lowest_bit_ok v b"
  shows "bit v b" "j < b \<Longrightarrow> \<not> bit v j"
proof -
  show "bit v b" using assms by (simp add: lowest_bit_ok_def bit_iff_odd)
  have "take_bit b v = 0" using assms by (simp add: lowest_bit_ok_def take_bit_eq_mod)
  then show "j < b \<Longrightarrow> \<not> bit v j" by (metis bit_take_bit_iff bit_0_eq bot_apply bot_bool_def)
qed

text \<open>One byte of the value, looked up in the table.\<close>

lemma ffs_byte:
  fixes w :: u32
  assumes "take_bit s w = 0" "take_bit 8 (drop_bit s w) \<noteq> 0" "s + 8 \<le> 32"
  defines "b \<equiv> lowest_bit_bitmap ! unat (take_bit 8 (drop_bit s w)) + s"
  shows "bit w b \<and> (\<forall>j<b. \<not> bit w j)"
proof -
  let ?v = "unat (take_bit 8 (drop_bit s w))"
  let ?i = "lowest_bit_bitmap ! ?v"
  have "0 < ?v" using assms(2) by (simp add: unat_gt_0)
  moreover have "?v < 256" by (simp add: take_bit_eq_mod unat_mod)
  ultimately have ok: "lowest_bit_ok ?v ?i" by (rule lowest_bit_bitmap_ok)
  have v: "bit ?v n \<longleftrightarrow> n < 8 \<and> n < 32 \<and> bit w (s + n)" for n
    using assms(3) by (auto simp: bit_simps bit_imp_le_length dest: bit_imp_le_length)
  have lo: "\<not> bit w j" if "j < s" for j
    using assms(1) that by (metis bit_take_bit_iff bit_0_eq bot_apply bot_bool_def)
  have "\<not> bit w j" if "j < ?i + s" for j
  proof (cases "j < s")
    case False
    then have "\<not> bit ?v (j - s)" using lowest_bit_ok_bits(2) [OF ok, of "j - s"] that by simp
    moreover have "?i < 8" using lowest_bit_ok_bits(1) [OF ok] v by blast
    ultimately show ?thesis using v [of "j - s"] False that by simp
  qed (simp add: lo)
  moreover have "bit w (?i + s)" using lowest_bit_ok_bits(1) [OF ok] v [of ?i] by (simp add: add.commute)
  ultimately show ?thesis by (simp add: b_def)
qed

lemma masked_byte:
  "(w :: u32) AND 0xff = take_bit 8 w"
  "drop_bit 8 ((w :: u32) AND 0xff00) = take_bit 8 (drop_bit 8 w)"
  "drop_bit 16 ((w :: u32) AND 0xff0000) = take_bit 8 (drop_bit 16 w)"
  "drop_bit 24 ((w :: u32) AND 0xff000000) = take_bit 8 (drop_bit 24 w)"
proof -
  have m: "(0xff :: u32) = mask 8" "(0xff00 :: u32) = push_bit 8 (mask 8)"
    "(0xff0000 :: u32) = push_bit 16 (mask 8)" "(0xff000000 :: u32) = push_bit 24 (mask 8)"
    by (simp_all add: mask_eq_exp_minus_1 push_bit_eq_mult)
  show "w AND 0xff = take_bit 8 w" "drop_bit 8 (w AND 0xff00) = take_bit 8 (drop_bit 8 w)"
    "drop_bit 16 (w AND 0xff0000) = take_bit 8 (drop_bit 16 w)"
    "drop_bit 24 (w AND 0xff000000) = take_bit 8 (drop_bit 24 w)"
    unfolding m by (auto intro!: bit_eqI simp: bit_simps)
qed

lemma masked_byte_zero:
  "(w :: u32) AND 0xff00 = 0 \<longleftrightarrow> take_bit 8 (drop_bit 8 w) = 0"
  "(w :: u32) AND 0xff0000 = 0 \<longleftrightarrow> take_bit 8 (drop_bit 16 w) = 0"
proof -
  have m: "(0xff00 :: u32) = push_bit 8 (mask 8)" "(0xff0000 :: u32) = push_bit 16 (mask 8)"
    by (simp_all add: mask_eq_exp_minus_1 push_bit_eq_mult)
  have z: "w AND push_bit s (mask 8) = 0 \<longleftrightarrow> take_bit 8 (drop_bit s w) = 0" if "s + 8 \<le> 32" for s
  proof
    assume "w AND push_bit s (mask 8) = 0"
    then have H: "\<not> (bit w n \<and> bit (push_bit s (mask 8) :: u32) n)" for n
      by (metis bit_and_iff bit_0_eq bot_apply bot_bool_def)
    have "\<not> bit w (s + n)" if "n < 8" for n
      using H [of "s + n"] that \<open>s + 8 \<le> 32\<close> by (auto simp: bit_simps)
    then show "take_bit 8 (drop_bit s w) = 0" by (auto intro!: bit_eqI simp: bit_simps)
  next
    assume z: "take_bit 8 (drop_bit s w) = 0"
    have "\<not> bit w n" if "s \<le> n" "n < s + 8" for n
      using z that bit_take_bit_iff [of 8 "drop_bit s w" "n - s"] by (auto simp: bit_drop_bit_eq)
    then have "\<not> bit (w AND push_bit s (mask 8)) n" for n
      by (cases "s \<le> n \<and> n < s + 8") (auto simp: bit_simps)
    then show "w AND push_bit s (mask 8) = 0" by (intro bit_eqI) simp
  qed
  from z [of 8] z [of 16] show "w AND 0xff00 = 0 \<longleftrightarrow> take_bit 8 (drop_bit 8 w) = 0"
    "w AND 0xff0000 = 0 \<longleftrightarrow> take_bit 8 (drop_bit 16 w) = 0"
    unfolding m by simp_all
qed

lemma take_bit_split: "take_bit (s + 8) (w :: u32) = 0 \<longleftrightarrow> take_bit s w = 0 \<and> take_bit 8 (drop_bit s w) = 0"
proof
  assume z: "take_bit (s + 8) w = 0"
  then have "take_bit s (take_bit (s + 8) w) = 0" "drop_bit s (take_bit (s + 8) w) = 0" by simp_all
  then show "take_bit s w = 0 \<and> take_bit 8 (drop_bit s w) = 0"
    by (simp add: take_bit_take_bit drop_bit_take_bit)
next
  assume z: "take_bit s w = 0 \<and> take_bit 8 (drop_bit s w) = 0"
  have "\<not> bit w n" if "n < s + 8" for n
    using z that bit_take_bit_iff [of s w n] bit_take_bit_iff [of 8 "drop_bit s w" "n - s"]
    by (cases "n < s") (auto simp: bit_drop_bit_eq)
  then show "take_bit (s + 8) w = 0" by (auto intro!: bit_eqI simp: bit_take_bit_iff)
qed

lemma rt_ffs_lowest:
  assumes "w \<noteq> 0"
  shows "0 < rt_ffs w \<and> bit w (rt_ffs w - 1) \<and> (\<forall>j<rt_ffs w - 1. \<not> bit w j)"
proof -
  have l: "take_bit 32 w = w" by (rule bit_eqI) (auto simp: bit_take_bit_iff dest: bit_imp_le_length)
  have z: "take_bit 8 w = 0 \<Longrightarrow> take_bit 8 (drop_bit 8 w) = 0 \<Longrightarrow> take_bit 16 w = 0"
    "take_bit 16 w = 0 \<Longrightarrow> take_bit 8 (drop_bit 16 w) = 0 \<Longrightarrow> take_bit 24 w = 0"
    "take_bit 24 w = 0 \<Longrightarrow> take_bit 8 (drop_bit 24 w) = 0 \<Longrightarrow> w = 0"
    using take_bit_split [of 8 w] take_bit_split [of 16 w] take_bit_split [of 24 w]
    by (auto simp: l)
  consider "take_bit 8 w \<noteq> 0" | "take_bit 8 w = 0" "take_bit 8 (drop_bit 8 w) \<noteq> 0"
    | "take_bit 8 w = 0" "take_bit 8 (drop_bit 8 w) = 0" "take_bit 8 (drop_bit 16 w) \<noteq> 0"
    | "take_bit 8 w = 0" "take_bit 8 (drop_bit 8 w) = 0" "take_bit 8 (drop_bit 16 w) = 0"
      "take_bit 8 (drop_bit 24 w) \<noteq> 0"
    using z assms by blast
  then show ?thesis
  proof cases
    case 1
    with assms ffs_byte [of 0 w] show ?thesis
      unfolding rt_ffs_def masked_byte masked_byte_zero
      by (simp add: add.commute)
  next
    case 2
    with assms ffs_byte [of 8 w] show ?thesis unfolding rt_ffs_def masked_byte masked_byte_zero
      by (simp add: add.commute)
  next
    case 3
    with assms z ffs_byte [of 16 w] show ?thesis unfolding rt_ffs_def masked_byte masked_byte_zero
      by (simp add: add.commute)
  next
    case 4
    with assms z ffs_byte [of 24 w] show ?thesis unfolding rt_ffs_def masked_byte masked_byte_zero
      by (simp add: add.commute)
  qed
qed

lemma rt_ffs_less: "w \<noteq> 0 \<Longrightarrow> rt_ffs w - 1 < 32"
  using rt_ffs_lowest [of w] bit_imp_le_length by fastforce

end
