(* ===== verification/Kernel.thy ===== *)
theory Kernel
  imports RtList Ffs
begin

text \<open>
  The state of the kernel: thread control blocks, the lists their \<open>tlist\<close> nodes are in, the
  ready group, the timers and the interrupt and scheduler counters
  (\<^verbatim>\<open>include/rtdef.h\<close> and the globals of \<^verbatim>\<open>src/scheduler.c\<close>, \<^verbatim>\<open>src/timer.c\<close>, \<^verbatim>\<open>src/clock.c\<close>,
  \<^verbatim>\<open>src/irq.c\<close>), and the invariant every operation keeps.

  Threads are named by their address. A list head is a \<open>list_id\<close>; the family of lists is acted
  on by the abstract operations that \<^theory_text>\<open>RtList\<close> proves of the pointer code. A dereferenced
  null pointer, an access outside an array and a failed \<open>RT_ASSERT\<close> (which stops the system)
  are \<open>None\<close>. C inheritance from \<open>struct rt_object\<close> is record extension. Operations are
  polymorphic in the fields that the IPC objects add to the state.
\<close>

subsection \<open>Objects\<close>

definition RT_Object_Class_Thread :: u8 where "RT_Object_Class_Thread = 1"
definition RT_Object_Class_Semaphore :: u8 where "RT_Object_Class_Semaphore = 2"
definition RT_Object_Class_Mutex :: u8 where "RT_Object_Class_Mutex = 3"
definition RT_Object_Class_Event :: u8 where "RT_Object_Class_Event = 4"
definition RT_Object_Class_MailBox :: u8 where "RT_Object_Class_MailBox = 5"
definition RT_Object_Class_MessageQueue :: u8 where "RT_Object_Class_MessageQueue = 6"
definition RT_Object_Class_Timer :: u8 where "RT_Object_Class_Timer = 10"
definition RT_Object_Class_Static :: u8 where "RT_Object_Class_Static = 0x80"

definition RT_NAME_MAX :: nat where "RT_NAME_MAX = 8"

record rt_object =
  oname :: string
  otype :: u8
  oflag :: u8

subsection \<open>Timers\<close>

type_synonym tid = addr

datatype timer_id = Thread_timer tid | Timer nat

datatype timeout_fn = No_timeout | Rt_thread_timeout tid | User_timeout nat

definition RT_TIMER_FLAG_ACTIVATED :: u8 where "RT_TIMER_FLAG_ACTIVATED = 1"
definition RT_TIMER_FLAG_PERIODIC :: u8 where "RT_TIMER_FLAG_PERIODIC = 2"
definition RT_TICK_MAX :: tick where "RT_TICK_MAX = 0xffffffff"

record rt_timer =
  timeout_func :: timeout_fn
  timer_init_tick :: tick
  timeout_tick :: tick

subsection \<open>Threads\<close>

definition RT_THREAD_PRIORITY_MAX :: nat where "RT_THREAD_PRIORITY_MAX = 32"

definition RT_THREAD_INIT :: u8 where "RT_THREAD_INIT = 0"
definition RT_THREAD_READY :: u8 where "RT_THREAD_READY = 1"
definition RT_THREAD_SUSPEND :: u8 where "RT_THREAD_SUSPEND = 2"
definition RT_THREAD_RUNNING :: u8 where "RT_THREAD_RUNNING = 3"
definition RT_THREAD_CLOSE :: u8 where "RT_THREAD_CLOSE = 4"
definition RT_THREAD_STAT_MASK :: u8 where "RT_THREAD_STAT_MASK = 7"
definition RT_THREAD_STAT_YIELD :: u8 where "RT_THREAD_STAT_YIELD = 8"
definition RT_THREAD_STAT_SIGNAL_PENDING :: u8 where "RT_THREAD_STAT_SIGNAL_PENDING = 0x40"

record rt_thread =
  error :: int
  stat :: u8
  current_priority :: nat
  init_priority :: nat
  number_mask :: u32
  event_set :: u32
  event_info :: u8
  init_tick :: u32
  remaining_tick :: u32
  has_cleanup :: bool

definition th_stat :: "'a rt_thread_scheme \<Rightarrow> u8" where
  "th_stat t = stat t AND RT_THREAD_STAT_MASK"

definition set_stat :: "u8 \<Rightarrow> 'a rt_thread_scheme \<Rightarrow> 'a rt_thread_scheme" where
  "set_stat s t = t\<lparr>stat := s OR (stat t AND NOT RT_THREAD_STAT_MASK)\<rparr>"

lemmas thread_states = RT_THREAD_INIT_def RT_THREAD_READY_def RT_THREAD_SUSPEND_def
  RT_THREAD_RUNNING_def RT_THREAD_CLOSE_def

lemma states_distinct [simp]:
  "RT_THREAD_INIT \<noteq> RT_THREAD_READY" "RT_THREAD_INIT \<noteq> RT_THREAD_SUSPEND"
  "RT_THREAD_INIT \<noteq> RT_THREAD_RUNNING" "RT_THREAD_INIT \<noteq> RT_THREAD_CLOSE"
  "RT_THREAD_READY \<noteq> RT_THREAD_INIT" "RT_THREAD_READY \<noteq> RT_THREAD_SUSPEND"
  "RT_THREAD_READY \<noteq> RT_THREAD_RUNNING" "RT_THREAD_READY \<noteq> RT_THREAD_CLOSE"
  "RT_THREAD_SUSPEND \<noteq> RT_THREAD_INIT" "RT_THREAD_SUSPEND \<noteq> RT_THREAD_READY"
  "RT_THREAD_SUSPEND \<noteq> RT_THREAD_RUNNING" "RT_THREAD_SUSPEND \<noteq> RT_THREAD_CLOSE"
  "RT_THREAD_RUNNING \<noteq> RT_THREAD_INIT" "RT_THREAD_RUNNING \<noteq> RT_THREAD_READY"
  "RT_THREAD_RUNNING \<noteq> RT_THREAD_SUSPEND" "RT_THREAD_RUNNING \<noteq> RT_THREAD_CLOSE"
  "RT_THREAD_CLOSE \<noteq> RT_THREAD_INIT" "RT_THREAD_CLOSE \<noteq> RT_THREAD_READY"
  "RT_THREAD_CLOSE \<noteq> RT_THREAD_SUSPEND" "RT_THREAD_CLOSE \<noteq> RT_THREAD_RUNNING"
  by (simp_all add: thread_states)

text \<open>A whole status byte that is just a state, and the state bits under the flag bits.\<close>

lemma state_of_state [simp]:
  "RT_THREAD_INIT AND RT_THREAD_STAT_MASK = RT_THREAD_INIT"
  "RT_THREAD_READY AND RT_THREAD_STAT_MASK = RT_THREAD_READY"
  "RT_THREAD_SUSPEND AND RT_THREAD_STAT_MASK = RT_THREAD_SUSPEND"
  "RT_THREAD_RUNNING AND RT_THREAD_STAT_MASK = RT_THREAD_RUNNING"
  "RT_THREAD_CLOSE AND RT_THREAD_STAT_MASK = RT_THREAD_CLOSE"
  by (simp_all add: thread_states RT_THREAD_STAT_MASK_def)

lemma th_stat_set_stat [simp]:
  "s AND RT_THREAD_STAT_MASK = s \<Longrightarrow> th_stat (set_stat s t) = s"
  by (auto intro!: bit_eqI simp: th_stat_def set_stat_def bit_simps bit_eq_iff)

lemma set_stat_frame [simp]:
  "current_priority (set_stat s t) = current_priority t" "number_mask (set_stat s t) = number_mask t"
  "error (set_stat s t) = error t"
  "init_priority (set_stat s t) = init_priority t" "event_set (set_stat s t) = event_set t"
  "event_info (set_stat s t) = event_info t" "has_cleanup (set_stat s t) = has_cleanup t"
  "init_tick (set_stat s t) = init_tick t" "remaining_tick (set_stat s t) = remaining_tick t"
  by (simp_all add: set_stat_def)

lemma set_stat_same [simp]: "th_stat t = s \<Longrightarrow> set_stat s t = t"
proof -
  have "(stat t AND RT_THREAD_STAT_MASK) OR (stat t AND NOT RT_THREAD_STAT_MASK) = stat t"
    by (rule bit_eqI) (auto simp: bit_simps)
  then show "th_stat t = s \<Longrightarrow> set_stat s t = t" by (auto simp: set_stat_def th_stat_def)
qed

lemma th_stat_flags [simp]:
  "RT_THREAD_STAT_MASK AND f = 0 \<Longrightarrow> th_stat (t\<lparr>stat := stat t AND NOT f\<rparr>) = th_stat t"
  "RT_THREAD_STAT_MASK AND f = 0 \<Longrightarrow> th_stat (t\<lparr>stat := stat t OR f\<rparr>) = th_stat t"
proof -
  have "bit (RT_THREAD_STAT_MASK AND f) n = (bit RT_THREAD_STAT_MASK n \<and> bit f n)" for n by (simp add: bit_and_iff)
  then show "RT_THREAD_STAT_MASK AND f = 0 \<Longrightarrow> th_stat (t\<lparr>stat := stat t AND NOT f\<rparr>) = th_stat t"
    "RT_THREAD_STAT_MASK AND f = 0 \<Longrightarrow> th_stat (t\<lparr>stat := stat t OR f\<rparr>) = th_stat t"
    by (auto intro!: bit_eqI simp: th_stat_def bit_simps)
qed

lemma mask_flags [simp]:
  "RT_THREAD_STAT_MASK AND RT_THREAD_STAT_YIELD = 0"
  "RT_THREAD_STAT_MASK AND RT_THREAD_STAT_SIGNAL_PENDING = 0"
  by (simp_all add: RT_THREAD_STAT_MASK_def RT_THREAD_STAT_YIELD_def RT_THREAD_STAT_SIGNAL_PENDING_def)

subsection \<open>The kernel state\<close>

datatype list_id = ReadyQ nat | SuspendQ nat | SenderQ nat | Defunct

datatype hw_event = Switch_to tid | Switch tid tid | Switch_interrupt tid tid

datatype obj_ref = Obj_thread tid | Obj_timer timer_id | Obj_ipc nat

record kernel =
  objs :: "obj_ref \<Rightarrow> rt_object"
  objects :: "u8 \<Rightarrow> obj_ref list"
  thr :: "tid \<Rightarrow> rt_thread"
  tlists :: "list_id \<Rightarrow> tid list"
  rt_thread_ready_priority_group :: u32
  rt_scheduler_lock_nest :: int
  rt_current_thread :: "tid option"
  rt_current_priority :: nat
  rt_interrupt_nest :: u8
  rt_tick :: tick
  timers :: "timer_id \<Rightarrow> rt_timer"
  rt_timer_list :: "timer_id list"
  hw_trace :: "hw_event list"

definition upd_obj :: "obj_ref \<Rightarrow> (rt_object \<Rightarrow> rt_object) \<Rightarrow> 'a kernel_scheme \<Rightarrow> 'a kernel_scheme" where
  "upd_obj r f k = k\<lparr>objs := (objs k)(r := f (objs k r))\<rparr>"

definition upd_thr :: "tid \<Rightarrow> (rt_thread \<Rightarrow> rt_thread) \<Rightarrow> 'a kernel_scheme \<Rightarrow> 'a kernel_scheme" where
  "upd_thr t f k = k\<lparr>thr := (thr k)(t := f (thr k t))\<rparr>"

definition upd_timer :: "timer_id \<Rightarrow> (rt_timer \<Rightarrow> rt_timer) \<Rightarrow> 'a kernel_scheme \<Rightarrow> 'a kernel_scheme" where
  "upd_timer i f k = k\<lparr>timers := (timers k)(i := f (timers k i))\<rparr>"

definition unlink :: "tid \<Rightarrow> 'a kernel_scheme \<Rightarrow> 'a kernel_scheme" where
  "unlink t k = k\<lparr>tlists := l_unlink t (tlists k)\<rparr>"

definition rt_object_get_type :: "obj_ref \<Rightarrow> 'a kernel_scheme \<Rightarrow> u8" where
  "rt_object_get_type r k = otype (objs k r) AND NOT RT_Object_Class_Static"

definition rt_object_is_systemobject :: "obj_ref \<Rightarrow> 'a kernel_scheme \<Rightarrow> bool" where
  "rt_object_is_systemobject r k \<longleftrightarrow> otype (objs k r) AND RT_Object_Class_Static \<noteq> 0"

definition timer_active :: "timer_id \<Rightarrow> 'a kernel_scheme \<Rightarrow> bool" where
  "timer_active i k \<longleftrightarrow> oflag (objs k (Obj_timer i)) AND RT_TIMER_FLAG_ACTIVATED \<noteq> 0"

definition timer_periodic :: "timer_id \<Rightarrow> 'a kernel_scheme \<Rightarrow> bool" where
  "timer_periodic i k \<longleftrightarrow> oflag (objs k (Obj_timer i)) AND RT_TIMER_FLAG_PERIODIC \<noteq> 0"

abbreviation state_of :: "'a kernel_scheme \<Rightarrow> tid \<Rightarrow> u8" where
  "state_of k t \<equiv> th_stat (thr k t)"

abbreviation prio_of :: "'a kernel_scheme \<Rightarrow> tid \<Rightarrow> nat" where
  "prio_of k t \<equiv> current_priority (thr k t)"

text \<open>\<open>rt_list_entry(head.next)\<close> of a list of threads; the entry of an empty list is no thread.\<close>

definition first_entry :: "list_id \<Rightarrow> 'a kernel_scheme \<Rightarrow> tid option" where
  "first_entry l k = (case tlists k l of [] \<Rightarrow> None | t # _ \<Rightarrow> Some t)"

definition priority_mask :: "nat \<Rightarrow> u32" where
  "priority_mask p = push_bit p 1"

lemma bit_priority_mask [simp]: "bit (priority_mask p) q \<longleftrightarrow> q = p \<and> p < 32"
  by (auto simp: priority_mask_def bit_simps)

subsection \<open>The invariant\<close>

definition lists_ok :: "(list_id \<Rightarrow> tid list) \<Rightarrow> bool" where
  "lists_ok L \<longleftrightarrow> (\<forall>l. distinct (L l)) \<and> (\<forall>t l l'. t \<in> set (L l) \<longrightarrow> t \<in> set (L l') \<longrightarrow> l = l')"

definition ready_ok :: "'a kernel_scheme \<Rightarrow> bool" where
  "ready_ok k \<longleftrightarrow> (\<forall>p t. t \<in> set (tlists k (ReadyQ p)) \<longleftrightarrow> state_of k t = RT_THREAD_READY \<and> prio_of k t = p)"

definition wait_ok :: "'a kernel_scheme \<Rightarrow> bool" where
  "wait_ok k \<longleftrightarrow>
     (\<forall>ob t. t \<in> set (tlists k (SuspendQ ob)) \<longrightarrow> state_of k t = RT_THREAD_SUSPEND) \<and>
     (\<forall>ob t. t \<in> set (tlists k (SenderQ ob)) \<longrightarrow> state_of k t = RT_THREAD_SUSPEND) \<and>
     (\<forall>t. t \<in> set (tlists k Defunct) \<longrightarrow> state_of k t = RT_THREAD_CLOSE)"

definition prio_ok :: "'a kernel_scheme \<Rightarrow> bool" where
  "prio_ok k \<longleftrightarrow> (\<forall>t. state_of k t \<in> {RT_THREAD_READY, RT_THREAD_RUNNING, RT_THREAD_SUSPEND} \<longrightarrow>
     prio_of k t < RT_THREAD_PRIORITY_MAX \<and> number_mask (thr k t) = priority_mask (prio_of k t))"

definition group_ok :: "'a kernel_scheme \<Rightarrow> bool" where
  "group_ok k \<longleftrightarrow> (\<forall>p. bit (rt_thread_ready_priority_group k) p \<longleftrightarrow> tlists k (ReadyQ p) \<noteq> [])"

definition current_ok :: "'a kernel_scheme \<Rightarrow> bool" where
  "current_ok k \<longleftrightarrow>
     (\<forall>t. state_of k t = RT_THREAD_RUNNING \<longrightarrow> rt_current_thread k = Some t) \<and>
     (\<forall>t. rt_current_thread k = Some t \<longrightarrow> state_of k t \<noteq> RT_THREAD_READY)"

definition timer_ok :: "'a kernel_scheme \<Rightarrow> bool" where
  "timer_ok k \<longleftrightarrow> distinct (rt_timer_list k) \<and>
     (\<forall>i \<in> set (rt_timer_list k). timer_active i k) \<and>
     (\<forall>t. Thread_timer t \<in> set (rt_timer_list k) \<longrightarrow> state_of k t = RT_THREAD_SUSPEND)"

text \<open>
  Linked threads and active timers are registered, so a second \<open>rt_object_init\<close> of one is
  stopped by its assertion; a live thread has its type and an embedded timer object.
\<close>

definition thread_object_ok :: "tid \<Rightarrow> 'a kernel_scheme \<Rightarrow> bool" where
  "thread_object_ok t k \<longleftrightarrow>
     rt_object_get_type (Obj_thread t) k = RT_Object_Class_Thread \<and>
     Obj_thread t \<in> set (objects k RT_Object_Class_Thread) \<and>
     rt_object_get_type (Obj_timer (Thread_timer t)) k = RT_Object_Class_Timer \<and>
     rt_object_is_systemobject (Obj_timer (Thread_timer t)) k \<and>
     Obj_timer (Thread_timer t) \<in> set (objects k RT_Object_Class_Timer) \<and>
     timeout_func (timers k (Thread_timer t)) = Rt_thread_timeout t"

definition object_ok :: "'a kernel_scheme \<Rightarrow> bool" where
  "object_ok k \<longleftrightarrow>
     (\<forall>l t. t \<in> set (tlists k l) \<longrightarrow> Obj_thread t \<in> set (objects k RT_Object_Class_Thread)) \<and>
     (\<forall>i \<in> set (rt_timer_list k). Obj_timer i \<in> set (objects k RT_Object_Class_Timer)) \<and>
     (\<forall>t. state_of k t \<in> {RT_THREAD_READY, RT_THREAD_RUNNING, RT_THREAD_SUSPEND} \<longrightarrow> thread_object_ok t k)"

definition kinv :: "'a kernel_scheme \<Rightarrow> bool" where
  "kinv k \<longleftrightarrow> lists_ok (tlists k) \<and> ready_ok k \<and> wait_ok k \<and> prio_ok k \<and> group_ok k \<and>
     current_ok k \<and> timer_ok k \<and> object_ok k"

lemmas kinv_defs = kinv_def ready_ok_def wait_ok_def prio_ok_def group_ok_def current_ok_def
  timer_ok_def object_ok_def

lemma kinv_lists: "kinv k \<Longrightarrow> lists_ok (tlists k)"
  and kinv_ready: "kinv k \<Longrightarrow> t \<in> set (tlists k (ReadyQ p)) \<longleftrightarrow> state_of k t = RT_THREAD_READY \<and> prio_of k t = p"
  and kinv_suspendq: "kinv k \<Longrightarrow> t \<in> set (tlists k (SuspendQ ob)) \<Longrightarrow> state_of k t = RT_THREAD_SUSPEND"
  and kinv_senderq: "kinv k \<Longrightarrow> t \<in> set (tlists k (SenderQ ob)) \<Longrightarrow> state_of k t = RT_THREAD_SUSPEND"
  and kinv_defunct: "kinv k \<Longrightarrow> t \<in> set (tlists k Defunct) \<Longrightarrow> state_of k t = RT_THREAD_CLOSE"
  and kinv_group: "kinv k \<Longrightarrow> bit (rt_thread_ready_priority_group k) p \<longleftrightarrow> tlists k (ReadyQ p) \<noteq> []"
  and kinv_running: "kinv k \<Longrightarrow> state_of k t = RT_THREAD_RUNNING \<Longrightarrow> rt_current_thread k = Some t"
  and kinv_current: "kinv k \<Longrightarrow> rt_current_thread k = Some t \<Longrightarrow> state_of k t \<noteq> RT_THREAD_READY"
  and kinv_registered: "kinv k \<Longrightarrow> t \<in> set (tlists k l) \<Longrightarrow> Obj_thread t \<in> set (objects k RT_Object_Class_Thread)"
  and kinv_timer_suspended: "kinv k \<Longrightarrow> Thread_timer t \<in> set (rt_timer_list k) \<Longrightarrow> state_of k t = RT_THREAD_SUSPEND"
  and kinv_timer_registered: "kinv k \<Longrightarrow> i \<in> set (rt_timer_list k) \<Longrightarrow> Obj_timer i \<in> set (objects k RT_Object_Class_Timer)"
  and kinv_timers_distinct: "kinv k \<Longrightarrow> distinct (rt_timer_list k)"
  by (simp_all add: kinv_defs)

definition live :: "u8 \<Rightarrow> bool" where
  "live s \<longleftrightarrow> s = RT_THREAD_READY \<or> s = RT_THREAD_RUNNING \<or> s = RT_THREAD_SUSPEND"

definition runnable :: "u8 \<Rightarrow> bool" where
  "runnable s \<longleftrightarrow> s = RT_THREAD_READY \<or> s = RT_THREAD_RUNNING"

lemma runnable_simps [simp]:
  "runnable RT_THREAD_READY" "runnable RT_THREAD_RUNNING" "\<not> runnable RT_THREAD_SUSPEND"
  "\<not> runnable RT_THREAD_INIT" "\<not> runnable RT_THREAD_CLOSE"
  by (simp_all add: runnable_def)

lemma live_simps [simp]:
  "live RT_THREAD_READY" "live RT_THREAD_RUNNING" "live RT_THREAD_SUSPEND"
  "\<not> live RT_THREAD_INIT" "\<not> live RT_THREAD_CLOSE"
  by (simp_all add: live_def)

lemma kinv_live:
  assumes "kinv k" "live (state_of k t)"
  shows "prio_of k t < RT_THREAD_PRIORITY_MAX" "number_mask (thr k t) = priority_mask (prio_of k t)"
    "rt_object_get_type (Obj_thread t) k = RT_Object_Class_Thread"
    "rt_object_get_type (Obj_timer (Thread_timer t)) k = RT_Object_Class_Timer"
    "Obj_thread t \<in> set (objects k RT_Object_Class_Thread)"
    "thread_object_ok t k"
  using assms by (auto simp: kinv_defs live_def thread_object_ok_def)

lemma kinv_linked:
  assumes "kinv k" "t \<in> set (tlists k l)"
  shows "case l of ReadyQ p \<Rightarrow> state_of k t = RT_THREAD_READY \<and> prio_of k t = p
    | Defunct \<Rightarrow> state_of k t = RT_THREAD_CLOSE | _ \<Rightarrow> state_of k t = RT_THREAD_SUSPEND"
  using assms by (auto simp: kinv_ready kinv_suspendq kinv_senderq kinv_defunct split: list_id.splits)

lemma kinv_unlinked:
  "\<lbrakk>kinv k; state_of k t \<noteq> RT_THREAD_READY; state_of k t \<noteq> RT_THREAD_SUSPEND; state_of k t \<noteq> RT_THREAD_CLOSE\<rbrakk>
   \<Longrightarrow> unlinked t (tlists k)"
  unfolding unlinked_def
proof
  fix l
  assume "kinv k" "state_of k t \<noteq> RT_THREAD_READY" "state_of k t \<noteq> RT_THREAD_SUSPEND"
    "state_of k t \<noteq> RT_THREAD_CLOSE"
  then show "t \<notin> set (tlists k l)" using kinv_linked [of k t l] by (cases l) auto
qed

text \<open>To show the invariant, one part at a time.\<close>

lemma kinvI:
  assumes lists: "lists_ok (tlists k)"
    and ready: "\<And>p t. t \<in> set (tlists k (ReadyQ p)) \<longleftrightarrow> state_of k t = RT_THREAD_READY \<and> prio_of k t = p"
    and wait: "\<And>l t. t \<in> set (tlists k l) \<Longrightarrow> case l of ReadyQ p \<Rightarrow> True
      | Defunct \<Rightarrow> state_of k t = RT_THREAD_CLOSE | _ \<Rightarrow> state_of k t = RT_THREAD_SUSPEND"
    and group: "\<And>p. bit (rt_thread_ready_priority_group k) p \<longleftrightarrow> tlists k (ReadyQ p) \<noteq> []"
    and prio: "\<And>t. live (state_of k t) \<Longrightarrow> prio_of k t < RT_THREAD_PRIORITY_MAX \<and>
      number_mask (thr k t) = priority_mask (prio_of k t)"
    and running: "\<And>t. state_of k t = RT_THREAD_RUNNING \<Longrightarrow> rt_current_thread k = Some t"
    and current: "\<And>t. rt_current_thread k = Some t \<Longrightarrow> state_of k t \<noteq> RT_THREAD_READY"
    and timer: "timer_ok k"
    and reg: "\<And>l t. t \<in> set (tlists k l) \<Longrightarrow> Obj_thread t \<in> set (objects k RT_Object_Class_Thread)"
    and treg: "\<And>i. i \<in> set (rt_timer_list k) \<Longrightarrow> Obj_timer i \<in> set (objects k RT_Object_Class_Timer)"
    and types: "\<And>t. live (state_of k t) \<Longrightarrow> thread_object_ok t k"
  shows "kinv k"
  unfolding kinv_def
proof (intro conjI)
  show "lists_ok (tlists k)" "timer_ok k" by fact+
  show "ready_ok k" using ready by (simp add: ready_ok_def)
  have "state_of k t = RT_THREAD_SUSPEND" if "t \<in> set (tlists k (SuspendQ ob))" for ob t
    using wait [OF that] by simp
  moreover have "state_of k t = RT_THREAD_SUSPEND" if "t \<in> set (tlists k (SenderQ ob))" for ob t
    using wait [OF that] by simp
  moreover have "state_of k t = RT_THREAD_CLOSE" if "t \<in> set (tlists k Defunct)" for t
    using wait [OF that] by simp
  ultimately show "wait_ok k" by (simp add: wait_ok_def)
  show "prio_ok k" using prio by (auto simp: prio_ok_def live_def)
  show "group_ok k" using group by (simp add: group_ok_def)
  show "current_ok k" using running current by (simp add: current_ok_def)
  show "object_ok k" unfolding object_ok_def using reg treg types by (auto simp: live_def)
qed

subsection \<open>Reading the state after an update\<close>

lemma upd_thr_sel [simp]:
  "thr (upd_thr t f k) = (thr k)(t := f (thr k t))" "tlists (upd_thr t f k) = tlists k"
  "rt_thread_ready_priority_group (upd_thr t f k) = rt_thread_ready_priority_group k"
  "rt_scheduler_lock_nest (upd_thr t f k) = rt_scheduler_lock_nest k"
  "rt_current_thread (upd_thr t f k) = rt_current_thread k"
  "rt_current_priority (upd_thr t f k) = rt_current_priority k"
  "rt_interrupt_nest (upd_thr t f k) = rt_interrupt_nest k" "rt_tick (upd_thr t f k) = rt_tick k"
  "timers (upd_thr t f k) = timers k" "rt_timer_list (upd_thr t f k) = rt_timer_list k"
  "objs (upd_thr t f k) = objs k" "objects (upd_thr t f k) = objects k" "hw_trace (upd_thr t f k) = hw_trace k" "kernel.more (upd_thr t f k) = kernel.more k"
  by (simp_all add: upd_thr_def)

lemma upd_thr_upd_thr: "upd_thr t f (upd_thr t g k) = upd_thr t (\<lambda>x. f (g x)) k"
  by (simp add: upd_thr_def)

lemma upd_timer_sel [simp]:
  "timers (upd_timer i g k) = (timers k)(i := g (timers k i))" "tlists (upd_timer i g k) = tlists k"
  "rt_thread_ready_priority_group (upd_timer i g k) = rt_thread_ready_priority_group k"
  "rt_scheduler_lock_nest (upd_timer i g k) = rt_scheduler_lock_nest k"
  "rt_current_thread (upd_timer i g k) = rt_current_thread k"
  "rt_current_priority (upd_timer i g k) = rt_current_priority k"
  "rt_interrupt_nest (upd_timer i g k) = rt_interrupt_nest k" "rt_tick (upd_timer i g k) = rt_tick k"
  "thr (upd_timer i g k) = thr k" "rt_timer_list (upd_timer i g k) = rt_timer_list k"
  "objs (upd_timer i g k) = objs k" "objects (upd_timer i g k) = objects k" "hw_trace (upd_timer i g k) = hw_trace k" "kernel.more (upd_timer i g k) = kernel.more k"
  by (simp_all add: upd_timer_def)

lemma upd_obj_sel [simp]:
  "objs (upd_obj r g k) = (objs k)(r := g (objs k r))" "tlists (upd_obj r g k) = tlists k"
  "rt_thread_ready_priority_group (upd_obj r g k) = rt_thread_ready_priority_group k"
  "rt_scheduler_lock_nest (upd_obj r g k) = rt_scheduler_lock_nest k"
  "rt_current_thread (upd_obj r g k) = rt_current_thread k"
  "rt_current_priority (upd_obj r g k) = rt_current_priority k"
  "rt_interrupt_nest (upd_obj r g k) = rt_interrupt_nest k" "rt_tick (upd_obj r g k) = rt_tick k"
  "thr (upd_obj r g k) = thr k" "rt_timer_list (upd_obj r g k) = rt_timer_list k"
  "timers (upd_obj r g k) = timers k"
  "objects (upd_obj r g k) = objects k" "hw_trace (upd_obj r g k) = hw_trace k"
  "kernel.more (upd_obj r g k) = kernel.more k"
  by (simp_all add: upd_obj_def)

text \<open>What depends on the object headers only.\<close>

lemma object_cong:
  "objs k' = objs k \<Longrightarrow> rt_object_get_type r k' = rt_object_get_type r k"
  "objs k' = objs k \<Longrightarrow> rt_object_is_systemobject r k' = rt_object_is_systemobject r k"
  "objs k' = objs k \<Longrightarrow> timer_active i k' = timer_active i k"
  "objs k' = objs k \<Longrightarrow> timer_periodic i k' = timer_periodic i k"
  by (simp_all add: rt_object_get_type_def rt_object_is_systemobject_def timer_active_def timer_periodic_def)

lemma thread_object_ok_cong:
  assumes "\<And>r. otype (objs k' r) = otype (objs k r)" "objects k' = objects k"
    "\<And>i. timeout_func (timers k' i) = timeout_func (timers k i)"
  shows "thread_object_ok t k' = thread_object_ok t k"
  using assms by (simp add: thread_object_ok_def rt_object_get_type_def rt_object_is_systemobject_def)

lemma thread_object_ok_upd [simp]:
  "thread_object_ok x (upd_thr t f k) = thread_object_ok x k"
  "thread_object_ok x (unlink t k) = thread_object_ok x k"
  "thread_object_ok x (k\<lparr>hw_trace := tr\<rparr>) = thread_object_ok x k"
  "thread_object_ok x (k\<lparr>thr := th, tlists := L, rt_thread_ready_priority_group := g\<rparr>) = thread_object_ok x k"
  by (rule thread_object_ok_cong; simp add: upd_thr_def unlink_def)+

lemmas object_defs = rt_object_get_type_def rt_object_is_systemobject_def timer_active_def timer_periodic_def

lemma unlink_sel [simp]:
  "tlists (unlink t k) = l_unlink t (tlists k)" "thr (unlink t k) = thr k"
  "rt_thread_ready_priority_group (unlink t k) = rt_thread_ready_priority_group k"
  "rt_scheduler_lock_nest (unlink t k) = rt_scheduler_lock_nest k"
  "rt_current_thread (unlink t k) = rt_current_thread k"
  "rt_current_priority (unlink t k) = rt_current_priority k"
  "rt_interrupt_nest (unlink t k) = rt_interrupt_nest k" "rt_tick (unlink t k) = rt_tick k"
  "timers (unlink t k) = timers k" "rt_timer_list (unlink t k) = rt_timer_list k"
  "objs (unlink t k) = objs k" "objects (unlink t k) = objects k" "hw_trace (unlink t k) = hw_trace k" "kernel.more (unlink t k) = kernel.more k"
  by (simp_all add: unlink_def)

lemma first_entry_Some: "first_entry l k = Some t \<longleftrightarrow> (\<exists>ts. tlists k l = t # ts)"
  by (simp add: first_entry_def split: list.splits)

subsection \<open>Lists of threads under the list operations\<close>

lemma in_unlink: "lists_ok L \<Longrightarrow> x \<in> set (l_unlink t L l) \<longleftrightarrow> x \<in> set (L l) \<and> x \<noteq> t"
  by (auto simp: l_unlink_def lists_ok_def)

lemma unlink_notin: "t \<notin> set (L l) \<Longrightarrow> l_unlink t L l = L l"
  by (simp add: l_unlink_def remove1_idem)

lemma in_append: "x \<in> set (l_append l t L l') \<longleftrightarrow> x \<in> set (L l') \<or> (x = t \<and> l' = l)"
  by (auto simp: l_append_def)

lemma in_push: "x \<in> set (l_push l t L l') \<longleftrightarrow> x \<in> set (L l') \<or> (x = t \<and> l' = l)"
  by (auto simp: l_push_def)

lemma lists_ok_unlink: "lists_ok L \<Longrightarrow> lists_ok (l_unlink t L)"
  by (auto simp: lists_ok_def l_unlink_def)

lemma lists_ok_append: "lists_ok L \<Longrightarrow> unlinked t L \<Longrightarrow> lists_ok (l_append l t L)"
  by (auto simp: lists_ok_def l_append_def unlinked_def)

lemma lists_ok_push: "lists_ok L \<Longrightarrow> unlinked t L \<Longrightarrow> lists_ok (l_push l t L)"
  by (auto simp: lists_ok_def l_push_def unlinked_def)

lemma unlinked_unlink: "lists_ok L \<Longrightarrow> unlinked t (l_unlink t L)"
  by (auto simp: unlinked_def in_unlink)

lemma distinct_insert_before_elem:
  "distinct xs \<Longrightarrow> n \<notin> set xs \<Longrightarrow> distinct (insert_before_elem x n xs)"
  by (induction xs) (auto simp: set_insert_before_elem)

lemma lists_ok_insert_before:
  "\<lbrakk>lists_ok L; unlinked t L\<rbrakk> \<Longrightarrow> lists_ok (l_insert_before x t L)"
  by (auto simp: lists_ok_def l_insert_before_def unlinked_def set_insert_before_elem
      distinct_insert_before_elem split: if_splits)

end
