(* ===== verification/Scheduler.thy ===== *)
theory Scheduler
  imports Kernel
begin

text \<open>
  The scheduler (\<^verbatim>\<open>src/scheduler.c\<close>, single core) and the interrupt nesting counter
  (\<^verbatim>\<open>src/irq.c\<close>). \<open>rt_schedule\<close> changes \<open>rt_current_thread\<close> and records the context switch it
  asks the port for in \<open>hw_trace\<close>; what the outgoing thread does when it runs again is a later
  step, \<open>rt_schedule_return\<close>. Hooks, log output and the stack check only observe the state and
  are left out.
\<close>

subsection \<open>Operations\<close>

definition rt_interrupt_enter :: "'a kernel_scheme \<Rightarrow> 'a kernel_scheme" where
  "rt_interrupt_enter k = k\<lparr>rt_interrupt_nest := rt_interrupt_nest k + 1\<rparr>"

definition rt_interrupt_leave :: "'a kernel_scheme \<Rightarrow> 'a kernel_scheme" where
  "rt_interrupt_leave k = k\<lparr>rt_interrupt_nest := rt_interrupt_nest k - 1\<rparr>"

definition rt_interrupt_get_nest :: "'a kernel_scheme \<Rightarrow> u8" where
  "rt_interrupt_get_nest k = rt_interrupt_nest k"

definition RT_DEBUG_NOT_IN_INTERRUPT :: "'a kernel_scheme \<Rightarrow> unit option" where
  "RT_DEBUG_NOT_IN_INTERRUPT k = rt_assert (rt_interrupt_get_nest k = 0)"

definition rt_thread_self :: "'a kernel_scheme \<Rightarrow> tid option" where
  "rt_thread_self k = rt_current_thread k"

definition RT_DEBUG_IN_THREAD_CONTEXT :: "'a kernel_scheme \<Rightarrow> unit option" where
  "RT_DEBUG_IN_THREAD_CONTEXT k = do {
     rt_assert (rt_thread_self k \<noteq> None);
     RT_DEBUG_NOT_IN_INTERRUPT k }"

definition get_highest_priority_thread :: "'a kernel_scheme \<Rightarrow> (tid \<times> nat) option" where
  "get_highest_priority_thread k =
     (let highest_ready_priority = rt_ffs (rt_thread_ready_priority_group k) - 1 in do {
        rt_assert (rt_thread_ready_priority_group k \<noteq> 0);
        t \<leftarrow> first_entry (ReadyQ highest_ready_priority) k;
        Some (t, highest_ready_priority) })"

definition rt_system_scheduler_init :: "'a kernel_scheme \<Rightarrow> 'a kernel_scheme" where
  "rt_system_scheduler_init k =
     k\<lparr>rt_scheduler_lock_nest := 0,
       tlists := (\<lambda>l. case l of ReadyQ p \<Rightarrow> if p < RT_THREAD_PRIORITY_MAX then [] else tlists k l
                     | Defunct \<Rightarrow> [] | _ \<Rightarrow> tlists k l),
       rt_thread_ready_priority_group := 0\<rparr>"

definition rt_schedule_insert_thread :: "tid \<Rightarrow> 'a kernel_scheme \<Rightarrow> 'a kernel_scheme option" where
  "rt_schedule_insert_thread t k =
     (if rt_current_thread k = Some t then Some (upd_thr t (set_stat RT_THREAD_RUNNING) k)
      else let k = upd_thr t (set_stat RT_THREAD_READY) k in do {
        rt_assert (prio_of k t < RT_THREAD_PRIORITY_MAX);
        Some (k\<lparr>tlists := l_append (ReadyQ (prio_of k t)) t (tlists k),
          rt_thread_ready_priority_group := rt_thread_ready_priority_group k OR number_mask (thr k t)\<rparr>) })"

definition rt_schedule_remove_thread :: "tid \<Rightarrow> 'a kernel_scheme \<Rightarrow> 'a kernel_scheme option" where
  "rt_schedule_remove_thread t k =
     (let k = unlink t k in do {
        rt_assert (prio_of k t < RT_THREAD_PRIORITY_MAX);
        Some (if tlists k (ReadyQ (prio_of k t)) = []
          then k\<lparr>rt_thread_ready_priority_group :=
            rt_thread_ready_priority_group k AND NOT (number_mask (thr k t))\<rparr>
          else k) })"

definition rt_system_scheduler_start :: "'a kernel_scheme \<Rightarrow> 'a kernel_scheme option" where
  "rt_system_scheduler_start k = do {
     (t, _) \<leftarrow> get_highest_priority_thread k;
     let k = k\<lparr>rt_current_thread := Some t\<rparr>;
     k \<leftarrow> rt_schedule_remove_thread t k;
     let k = upd_thr t (\<lambda>c. c\<lparr>stat := RT_THREAD_RUNNING\<rparr>) k;
     Some (k\<lparr>hw_trace := hw_trace k @ [Switch_to t]\<rparr>) }"

text \<open>
  The choice of the next thread (lines 437--454): the thread, whether the current thread has to
  go back to its ready queue, and the state with the yield flag cleared in that case.
\<close>

definition choose_next :: "tid \<Rightarrow> 'a kernel_scheme \<Rightarrow> (tid \<times> nat \<times> bool \<times> 'a kernel_scheme) option" where
  "choose_next c k = do {
     (t, hp) \<leftarrow> get_highest_priority_thread k;
     Some (if state_of k c = RT_THREAD_RUNNING
       then if prio_of k c < hp then (c, hp, False, k)
         else if prio_of k c = hp \<and> stat (thr k c) AND RT_THREAD_STAT_YIELD = 0 then (c, hp, False, k)
         else (t, hp, True, upd_thr c (\<lambda>x. x\<lparr>stat := stat x AND NOT RT_THREAD_STAT_YIELD\<rparr>) k)
       else (t, hp, False, k)) }"

definition context_switch :: "tid \<Rightarrow> tid \<Rightarrow> 'a kernel_scheme \<Rightarrow> 'a kernel_scheme" where
  "context_switch from to k = k\<lparr>hw_trace := hw_trace k @
     [if rt_interrupt_nest k = 0 then Switch from to else Switch_interrupt from to]\<rparr>"

definition rt_schedule :: "'a kernel_scheme \<Rightarrow> 'a kernel_scheme option" where
  "rt_schedule k =
     (if rt_scheduler_lock_nest k = 0 \<and> rt_thread_ready_priority_group k \<noteq> 0 then do {
        c \<leftarrow> rt_current_thread k;
        (t, hp, need_insert_from_thread, k) \<leftarrow> choose_next c k;
        if t \<noteq> c then do {
          let k = k\<lparr>rt_current_priority := hp mod 256, rt_current_thread := Some t\<rparr>;
          k \<leftarrow> (if need_insert_from_thread then rt_schedule_insert_thread c k else Some k);
          k \<leftarrow> rt_schedule_remove_thread t k;
          let k = upd_thr t (set_stat RT_THREAD_RUNNING) k;
          Some (context_switch c t k) }
        else do {
          k \<leftarrow> rt_schedule_remove_thread c k;
          Some (upd_thr c (set_stat RT_THREAD_RUNNING) k) } }
      else Some k)"

text \<open>
  Lines 494--513: the outgoing thread runs again after its context switch. The result says
  whether it now handles its signals.
\<close>

definition rt_schedule_return :: "'a kernel_scheme \<Rightarrow> (bool \<times> 'a kernel_scheme) option" where
  "rt_schedule_return k = do {
     c \<leftarrow> rt_current_thread k;
     Some (if stat (thr k c) AND RT_THREAD_STAT_SIGNAL_PENDING \<noteq> 0
       then (True, upd_thr c (\<lambda>x. x\<lparr>stat := stat x AND NOT RT_THREAD_STAT_SIGNAL_PENDING\<rparr>) k)
       else (False, k)) }"

text \<open>The lock count is an \<open>rt_int16_t\<close>.\<close>

definition rt_enter_critical :: "'a kernel_scheme \<Rightarrow> 'a kernel_scheme" where
  "rt_enter_critical k =
     k\<lparr>rt_scheduler_lock_nest := signed_take_bit 15 (rt_scheduler_lock_nest k + 1)\<rparr>"

definition rt_exit_critical :: "'a kernel_scheme \<Rightarrow> 'a kernel_scheme option" where
  "rt_exit_critical k =
     (let k = k\<lparr>rt_scheduler_lock_nest := signed_take_bit 15 (rt_scheduler_lock_nest k - 1)\<rparr> in
      if rt_scheduler_lock_nest k \<le> 0 then
        let k = k\<lparr>rt_scheduler_lock_nest := 0\<rparr> in
        if rt_current_thread k \<noteq> None then rt_schedule k else Some k
      else Some k)"

definition rt_critical_level :: "'a kernel_scheme \<Rightarrow> u16" where
  "rt_critical_level k = word_of_int (rt_scheduler_lock_nest k)"

subsection \<open>Inserting and removing\<close>

text \<open>A thread about to be made ready: suspended, in no list and without a running timer.\<close>

definition floating :: "tid \<Rightarrow> 'a kernel_scheme \<Rightarrow> bool" where
  "floating t k \<longleftrightarrow> state_of k t = RT_THREAD_SUSPEND \<and> unlinked t (tlists k) \<and>
     Thread_timer t \<notin> set (rt_timer_list k)"

lemma rt_schedule_insert_thread_other:
  assumes "kinv k" "floating t k" "rt_current_thread k \<noteq> Some t"
  shows "rt_schedule_insert_thread t k = Some (k\<lparr>thr := (thr k)(t := set_stat RT_THREAD_READY (thr k t)),
    tlists := l_append (ReadyQ (prio_of k t)) t (tlists k),
    rt_thread_ready_priority_group := rt_thread_ready_priority_group k OR priority_mask (prio_of k t)\<rparr>)"
  using assms by (simp add: rt_schedule_insert_thread_def Let_def floating_def kinv_def prio_ok_def
      upd_thr_def)

lemma rt_schedule_insert_thread_kinv:
  assumes k: "kinv k" and f: "floating t k"
  shows "\<exists>k'. rt_schedule_insert_thread t k = Some k' \<and> kinv k' \<and> kernel.more k' = kernel.more k"
proof (cases "rt_current_thread k = Some t")
  case True
  let ?k = "upd_thr t (set_stat RT_THREAD_RUNNING) k"
  have u: "t \<notin> set (tlists k l)" for l using f by (simp add: floating_def unlinked_def)
  have st: "state_of ?k x = (if x = t then RT_THREAD_RUNNING else state_of k x)"
    "prio_of ?k x = prio_of k x" "number_mask (thr ?k x) = number_mask (thr k x)" for x by simp_all
  have t: "live (state_of k t)" using f by (simp add: floating_def)
  have "kinv ?k"
  proof (rule kinvI)
    show "x \<in> set (tlists ?k (ReadyQ p)) \<longleftrightarrow> state_of ?k x = RT_THREAD_READY \<and> prio_of ?k x = p" for p x
      unfolding st using u kinv_ready [OF k] by auto
    show "case l of ReadyQ p \<Rightarrow> True | Defunct \<Rightarrow> state_of ?k x = RT_THREAD_CLOSE
      | _ \<Rightarrow> state_of ?k x = RT_THREAD_SUSPEND" if "x \<in> set (tlists ?k l)" for l x
      using that u kinv_linked [OF k, of x l] unfolding st by (auto split: list_id.splits)
    show "timer_ok ?k" using kinv_timers_distinct [OF k] kinv_timer_suspended [OF k] k f
      unfolding timer_ok_def st by (auto simp: floating_def kinv_def timer_ok_def object_defs)
    show "prio_of ?k x < RT_THREAD_PRIORITY_MAX \<and> number_mask (thr ?k x) = priority_mask (prio_of ?k x)"
      if "live (state_of ?k x)" for x
      using that kinv_live(1,2) [OF k, of x] kinv_live(1,2) [OF k t] unfolding st by (cases "x = t") auto
    show "thread_object_ok x ?k" if "live (state_of ?k x)" for x
      using that kinv_live(6) [OF k, of x] kinv_live(6) [OF k t] unfolding st by (cases "x = t") auto
    show "rt_current_thread ?k = Some x" if "state_of ?k x = RT_THREAD_RUNNING" for x
      using that kinv_running [OF k, of x] True unfolding st by (auto split: if_splits)
    show "state_of ?k x \<noteq> RT_THREAD_READY" if "rt_current_thread ?k = Some x" for x
      using that True unfolding st by auto
  qed (use kinv_lists [OF k] kinv_group [OF k] kinv_registered [OF k] kinv_timer_registered [OF k] in auto)
  with True show ?thesis by (simp add: rt_schedule_insert_thread_def)
next
  case False
  let ?k = "k\<lparr>thr := (thr k)(t := set_stat RT_THREAD_READY (thr k t)),
    tlists := l_append (ReadyQ (prio_of k t)) t (tlists k),
    rt_thread_ready_priority_group := rt_thread_ready_priority_group k OR priority_mask (prio_of k t)\<rparr>"
  have u: "unlinked t (tlists k)" "t \<notin> set (tlists k l)" for l
    using f by (simp_all add: floating_def unlinked_def)
  have st: "live (state_of k t)" "state_of k t = RT_THREAD_SUSPEND" using f by (simp_all add: floating_def)
  have "kinv ?k"
  proof (rule kinvI)
    show "lists_ok (tlists ?k)" using kinv_lists [OF k] u by (simp add: lists_ok_append)
    show "x \<in> set (tlists ?k (ReadyQ p)) \<longleftrightarrow> state_of ?k x = RT_THREAD_READY \<and> prio_of ?k x = p" for p x
      using u by (auto simp: in_append kinv_ready [OF k])
    show "case l of ReadyQ p \<Rightarrow> True | Defunct \<Rightarrow> state_of ?k x = RT_THREAD_CLOSE
      | _ \<Rightarrow> state_of ?k x = RT_THREAD_SUSPEND" if "x \<in> set (tlists ?k l)" for l x
      using that u kinv_linked [OF k, of x l] by (auto simp: in_append split: list_id.splits)
    show "bit (rt_thread_ready_priority_group ?k) p \<longleftrightarrow> tlists ?k (ReadyQ p) \<noteq> []" for p
      using kinv_live [OF k st(1)]
      by (auto simp: kinv_group [OF k] bit_or_iff l_append_def RT_THREAD_PRIORITY_MAX_def)
    show "timer_ok ?k" using k f by (auto simp: kinv_defs floating_def object_defs)
  qed (use kinv_live [OF k] st kinv_running [OF k] kinv_current [OF k] kinv_registered [OF k] kinv_timer_registered [OF k] f False
      in \<open>auto simp: in_append floating_def object_defs split: if_splits\<close>)
  then show ?thesis using rt_schedule_insert_thread_other [OF k f False] by simp
qed

subsection \<open>The scheduling decision\<close>

lemma get_highest_priority_thread_correct:
  assumes k: "kinv k" and ne: "rt_thread_ready_priority_group k \<noteq> 0"
  obtains t p where "get_highest_priority_thread k = Some (t, p)" "hd (tlists k (ReadyQ p)) = t"
    "state_of k t = RT_THREAD_READY" "prio_of k t = p" "p < RT_THREAD_PRIORITY_MAX"
    "\<forall>u. state_of k u = RT_THREAD_READY \<longrightarrow> p \<le> prio_of k u"
proof -
  let ?g = "rt_thread_ready_priority_group k"
  let ?p = "rt_ffs ?g - 1"
  have g: "bit ?g p \<longleftrightarrow> tlists k (ReadyQ p) \<noteq> []" for p using k by (simp add: kinv_def group_ok_def)
  have rd: "t \<in> set (tlists k (ReadyQ p)) \<longleftrightarrow> state_of k t = RT_THREAD_READY \<and> prio_of k t = p" for t p
    using k by (simp add: kinv_def ready_ok_def)
  obtain t ts where t: "tlists k (ReadyQ ?p) = t # ts"
    using rt_ffs_lowest [OF ne] g by (cases "tlists k (ReadyQ ?p)") auto
  then have rt: "state_of k t = RT_THREAD_READY" "prio_of k t = ?p" using rd [of t ?p] by auto
  have "?p \<le> prio_of k u" if "state_of k u = RT_THREAD_READY" for u
  proof -
    have "tlists k (ReadyQ (prio_of k u)) \<noteq> []" using rd [of u "prio_of k u"] that by auto
    then show ?thesis using rt_ffs_lowest [OF ne] g by (meson not_less)
  qed
  with that [of t ?p] t rt ne rt_ffs_less [OF ne] show ?thesis
    by (simp add: get_highest_priority_thread_def first_entry_def RT_THREAD_PRIORITY_MAX_def)
qed

lemma no_ready: "kinv k \<Longrightarrow> rt_thread_ready_priority_group k = 0 \<longleftrightarrow> (\<forall>t. state_of k t \<noteq> RT_THREAD_READY)"
proof
  assume k: "kinv k"
  have rd: "t \<in> set (tlists k (ReadyQ p)) \<longleftrightarrow> state_of k t = RT_THREAD_READY \<and> prio_of k t = p"
    and g: "bit (rt_thread_ready_priority_group k) p \<longleftrightarrow> tlists k (ReadyQ p) \<noteq> []" for t p
    using k by (simp_all add: kinv_def group_ok_def ready_ok_def)
  show "rt_thread_ready_priority_group k = 0 \<Longrightarrow> \<forall>t. state_of k t \<noteq> RT_THREAD_READY"
    using g rd by (metis bit_0_eq bot_apply bot_bool_def empty_iff empty_set)
  show "\<forall>t. state_of k t \<noteq> RT_THREAD_READY \<Longrightarrow> rt_thread_ready_priority_group k = 0"
  proof (rule bit_eqI)
    fix n
    assume "\<forall>t. state_of k t \<noteq> RT_THREAD_READY"
    then have "tlists k (ReadyQ n) = []" using rd by (metis list.set_intros(1) neq_Nil_conv)
    then show "bit (rt_thread_ready_priority_group k) n \<longleftrightarrow> bit (0 :: u32) n" using g by simp
  qed
qed

text \<open>The state after the switch from \<open>c\<close> to the ready thread \<open>t\<close> of priority \<open>p\<close>.\<close>

definition requeued :: "tid \<Rightarrow> 'a kernel_scheme \<Rightarrow> 'a kernel_scheme" where
  "requeued c k = (if state_of k c = RT_THREAD_RUNNING then
     k\<lparr>thr := (thr k)(c := set_stat RT_THREAD_READY ((thr k c)\<lparr>stat := stat (thr k c) AND NOT RT_THREAD_STAT_YIELD\<rparr>)),
       tlists := l_append (ReadyQ (prio_of k c)) c (tlists k),
       rt_thread_ready_priority_group := rt_thread_ready_priority_group k OR priority_mask (prio_of k c)\<rparr>
     else k)"

definition dispatched :: "tid \<Rightarrow> 'a kernel_scheme \<Rightarrow> 'a kernel_scheme" where
  "dispatched t k =
     k\<lparr>thr := (thr k)(t := set_stat RT_THREAD_RUNNING (thr k t)),
       tlists := l_unlink t (tlists k), rt_current_thread := Some t,
       rt_current_priority := prio_of k t,
       rt_thread_ready_priority_group :=
         (if l_unlink t (tlists k) (ReadyQ (prio_of k t)) = []
          then rt_thread_ready_priority_group k AND NOT (priority_mask (prio_of k t))
          else rt_thread_ready_priority_group k)\<rparr>"

text \<open>A running thread keeps the processor against lower priorities, and against its own
  priority until its time slice is over.\<close>

definition keeps_cpu :: "'a kernel_scheme \<Rightarrow> tid \<Rightarrow> nat \<Rightarrow> bool" where
  "keeps_cpu k c p \<longleftrightarrow> state_of k c = RT_THREAD_RUNNING \<and>
     (prio_of k c < p \<or> prio_of k c = p \<and> stat (thr k c) AND RT_THREAD_STAT_YIELD = 0)"

lemma remove_running:
  assumes k: "kinv k" and c: "state_of k c = RT_THREAD_RUNNING"
  shows "rt_schedule_remove_thread c k = Some k"
proof -
  have n: "c \<notin> set (tlists k l)" for l
    using k c by (cases l) (auto simp: kinv_def ready_ok_def wait_ok_def)
  then have u: "l_unlink c (tlists k) = tlists k" by (intro ext) (simp add: unlink_notin)
  then have "unlink c k = k" by (simp add: unlink_def)
  moreover have "rt_thread_ready_priority_group k AND NOT (priority_mask (prio_of k c)) = rt_thread_ready_priority_group k"
    if "tlists k (ReadyQ (prio_of k c)) = []"
    using k that by (intro bit_eqI) (auto simp: kinv_def group_ok_def bit_and_iff bit_not_iff)
  ultimately show ?thesis using k c
    by (simp add: rt_schedule_remove_thread_def Let_def kinv_def prio_ok_def)
qed

lemma rt_schedule_keeps:
  assumes "kinv k" "rt_current_thread k = Some c" "get_highest_priority_thread k = Some (t, p)"
    "keeps_cpu k c p"
  shows "rt_schedule k = Some k"
  using assms remove_running [of k c]
  by (auto simp: rt_schedule_def choose_next_def keeps_cpu_def upd_thr_def)

lemma dispatch_kinv:
  assumes k: "kinv k" and c: "rt_current_thread k = Some c" and t: "state_of k t = RT_THREAD_READY"
  shows "kinv (dispatched t (requeued c k))"
proof -
  have tc: "t \<noteq> c" using kinv_current [OF k c] t by auto
  let ?r = "state_of k c = RT_THREAD_RUNNING"
  let ?m = "requeued c k" and ?k = "dispatched t (requeued c k)"
  have uc: "unlinked c (tlists k)" if ?r using kinv_unlinked [OF k, of c] that by simp
  have lo: "lists_ok (tlists ?m)"
    using kinv_lists [OF k] uc by (simp add: requeued_def lists_ok_append)
  have in_m: "x \<in> set (tlists ?m l) \<longleftrightarrow> x \<in> set (tlists k l) \<or> (?r \<and> x = c \<and> l = ReadyQ (prio_of k c))" for x l
    by (simp add: requeued_def in_append)
  have in_k: "x \<in> set (tlists ?k l) \<longleftrightarrow> x \<noteq> t \<and> x \<in> set (tlists ?m l)" for x l
    using in_unlink [OF lo] by (auto simp: dispatched_def)
  have st: "state_of ?k x = (if x = t then RT_THREAD_RUNNING else if ?r \<and> x = c then RT_THREAD_READY else state_of k x)" for x
    using tc by (simp add: dispatched_def requeued_def)
  have same: "prio_of ?k x = prio_of k x" "number_mask (thr ?k x) = number_mask (thr k x)"
    "rt_object_get_type r ?k = rt_object_get_type r k"
    "rt_object_is_systemobject r ?k = rt_object_is_systemobject r k" for x r
    by (simp_all add: dispatched_def requeued_def object_defs)
  have cur: "rt_current_thread ?k = Some t" "timers ?k = timers k" "rt_timer_list ?k = rt_timer_list k"
    "objects ?k = objects k" by (simp_all add: dispatched_def requeued_def)
  have tl: "live (state_of k t)" and cl: "?r \<Longrightarrow> live (state_of k c)" using t by simp_all
  show ?thesis
  proof (rule kinvI)
    show "lists_ok (tlists ?k)" using lists_ok_unlink [OF lo] by (simp add: dispatched_def)
    show "x \<in> set (tlists ?k (ReadyQ p)) \<longleftrightarrow> state_of ?k x = RT_THREAD_READY \<and> prio_of ?k x = p" for p x
      unfolding in_k in_m st same using tc kinv_ready [OF k] by auto
    show "case l of ReadyQ p \<Rightarrow> True | Defunct \<Rightarrow> state_of ?k x = RT_THREAD_CLOSE
      | _ \<Rightarrow> state_of ?k x = RT_THREAD_SUSPEND" if "x \<in> set (tlists ?k l)" for l x
      using that kinv_linked [OF k, of x l] unfolding in_k in_m st by (auto split: list_id.splits)
    have g: "bit (rt_thread_ready_priority_group ?m) p \<longleftrightarrow> tlists ?m (ReadyQ p) \<noteq> []" for p
      using kinv_live [OF k cl]
      by (auto simp: requeued_def kinv_group [OF k] bit_or_iff l_append_def RT_THREAD_PRIORITY_MAX_def)
    have pm: "prio_of ?m t = prio_of k t" using tc by (simp add: requeued_def)
    have ut: "l_unlink t (tlists ?m) (ReadyQ p) = tlists ?m (ReadyQ p)" if "p \<noteq> prio_of k t" for p
      using that in_m [of t "ReadyQ p"] tc kinv_ready [OF k, of t p] by (intro unlink_notin) auto
    have gb: "bit (rt_thread_ready_priority_group ?k) p \<Longrightarrow> p < 32" for p
      using bit_imp_le_length by fastforce
    have sub: "l_unlink t (tlists ?m) l \<noteq> [] \<Longrightarrow> tlists ?m l \<noteq> []" for l by (auto simp: l_unlink_def)
    show "bit (rt_thread_ready_priority_group ?k) p \<longleftrightarrow> tlists ?k (ReadyQ p) \<noteq> []" for p
    proof (cases "p = prio_of k t")
      case True
      then show ?thesis using kinv_live [OF k tl] sub [of "ReadyQ (prio_of k t)"] pm
        by (auto simp: dispatched_def bit_and_iff bit_not_iff g RT_THREAD_PRIORITY_MAX_def)
    next
      case False
      then have "bit (rt_thread_ready_priority_group ?k) p \<longleftrightarrow> bit (rt_thread_ready_priority_group ?m) p"
        using pm by (auto simp: dispatched_def bit_and_iff bit_not_iff dest: bit_imp_le_length)
      then show ?thesis using g [of p] ut [OF False] by (simp add: dispatched_def)
    qed
    show "timer_ok ?k" using k t tc by (auto simp: kinv_defs dispatched_def requeued_def object_defs)
    show "prio_of ?k x < RT_THREAD_PRIORITY_MAX \<and> number_mask (thr ?k x) = priority_mask (prio_of ?k x)"
      if "live (state_of ?k x)" for x
      using that kinv_live [OF k, of x] tl cl unfolding st same by (auto split: if_splits)
    have "thread_object_ok x ?k = thread_object_ok x k" for x
      by (rule thread_object_ok_cong) (simp_all add: dispatched_def requeued_def)
    then show "thread_object_ok x ?k" if "live (state_of ?k x)" for x
      using that kinv_live [OF k, of x] tl cl kinv_live [OF k tl] kinv_live [OF k cl] unfolding st
      by (auto split: if_splits)
    show "rt_current_thread ?k = Some x" if "state_of ?k x = RT_THREAD_RUNNING" for x
      using that kinv_running [OF k, of x] c unfolding st cur by (auto split: if_splits)
    show "state_of ?k x \<noteq> RT_THREAD_READY" if "rt_current_thread ?k = Some x" for x
      using that unfolding st cur by simp
    show "Obj_thread x \<in> set (objects ?k RT_Object_Class_Thread)" if "x \<in> set (tlists ?k l)" for l x
      using that kinv_registered [OF k, of x l] kinv_live(5) [OF k cl] unfolding in_k in_m cur by auto
    show "Obj_timer i \<in> set (objects ?k RT_Object_Class_Timer)" if "i \<in> set (rt_timer_list ?k)" for i
      using that kinv_timer_registered [OF k] unfolding cur by simp
  qed
qed

lemma rt_schedule_switch:
  assumes k: "kinv k" and lk: "rt_scheduler_lock_nest k = 0" and c: "rt_current_thread k = Some c"
    and h: "get_highest_priority_thread k = Some (t, p)" "state_of k t = RT_THREAD_READY" "prio_of k t = p"
    "p < RT_THREAD_PRIORITY_MAX"
    and n: "\<not> keeps_cpu k c p"
  shows "rt_schedule k = Some (context_switch c t (dispatched t (requeued c k)))"
proof -
  have tc: "t \<noteq> c" using kinv_current [OF k c] h(2) by auto
  have g: "rt_thread_ready_priority_group k \<noteq> 0"
    using h(1) by (auto simp: get_highest_priority_thread_def Let_def split: if_splits)
  have mt: "number_mask (thr k t) = priority_mask (prio_of k t)" using kinv_live [OF k, of t] h(2) by simp
  show ?thesis
  proof (cases "state_of k c = RT_THREAD_RUNNING")
    case True
    then have mc: "number_mask (thr k c) = priority_mask (prio_of k c)" "prio_of k c < RT_THREAD_PRIORITY_MAX"
      using kinv_live [OF k, of c] by simp_all
    have "choose_next c k = Some (t, p, True, upd_thr c (\<lambda>x. x\<lparr>stat := stat x AND NOT RT_THREAD_STAT_YIELD\<rparr>) k)"
      using True n h(1) by (auto simp: choose_next_def keeps_cpu_def)
    moreover have "p mod 256 = p" using h(4) by (simp add: RT_THREAD_PRIORITY_MAX_def)
    ultimately show ?thesis using True h g lk c tc mc mt
      by (simp add: rt_schedule_def rt_schedule_insert_thread_def
          rt_schedule_remove_thread_def Let_def requeued_def dispatched_def context_switch_def upd_thr_def unlink_def
          fun_upd_twist)
  next
    case False
    have "p mod 256 = p" using h(4) by (simp add: RT_THREAD_PRIORITY_MAX_def)
    with False n h g lk c tc mt show ?thesis
      by (simp add: rt_schedule_def choose_next_def
          rt_schedule_remove_thread_def Let_def requeued_def dispatched_def context_switch_def upd_thr_def unlink_def)
  qed
qed

lemma context_switch_kinv [simp]: "kinv (context_switch c t k) = kinv k"
  by (simp add: kinv_defs context_switch_def object_defs)

text \<open>
  What \<open>rt_schedule\<close> does on every state the kernel reaches: nothing while the scheduler is
  locked, nothing is ready or the running thread keeps the processor; otherwise it requeues the
  running thread and dispatches the head of the highest non-empty ready queue.
\<close>

lemma rt_schedule_cases:
  assumes k: "kinv k" and c: "rt_current_thread k = Some c"
  obtains (stay) "rt_schedule k = Some k"
      "rt_scheduler_lock_nest k \<noteq> 0 \<or> rt_thread_ready_priority_group k = 0 \<or>
       (\<exists>t p. get_highest_priority_thread k = Some (t, p) \<and> keeps_cpu k c p)"
  | (switch) t p where "rt_scheduler_lock_nest k = 0" "get_highest_priority_thread k = Some (t, p)"
      "hd (tlists k (ReadyQ p)) = t" "state_of k t = RT_THREAD_READY" "prio_of k t = p" "\<not> keeps_cpu k c p"
      "\<forall>u. state_of k u = RT_THREAD_READY \<longrightarrow> p \<le> prio_of k u"
      "rt_schedule k = Some (context_switch c t (dispatched t (requeued c k)))"
proof (cases "rt_scheduler_lock_nest k = 0 \<and> rt_thread_ready_priority_group k \<noteq> 0")
  case False
  then show ?thesis using stay by (auto simp: rt_schedule_def)
next
  case True
  then have g: "rt_thread_ready_priority_group k \<noteq> 0" by simp
  obtain t p where h: "get_highest_priority_thread k = Some (t, p)" "hd (tlists k (ReadyQ p)) = t"
    "state_of k t = RT_THREAD_READY" "prio_of k t = p" "p < RT_THREAD_PRIORITY_MAX"
    "\<forall>u. state_of k u = RT_THREAD_READY \<longrightarrow> p \<le> prio_of k u"
    using get_highest_priority_thread_correct [OF k g] by blast
  show ?thesis
  proof (cases "keeps_cpu k c p")
    case True
    with rt_schedule_keeps [OF k c h(1)] h(1) stay show ?thesis by blast
  next
    case False
    from True have "rt_scheduler_lock_nest k = 0" by simp
    from switch [OF this h(1-4) False h(6) rt_schedule_switch [OF k this c h(1,3-5) False]]
    show ?thesis .
  qed
qed

text \<open>
  What the scheduler leaves alone: objects, timers, the tick, every list that is not a ready
  queue, and of a thread everything but its status byte, which changes only
  between ready and running.
\<close>

definition sched_frame :: "'a kernel_scheme \<Rightarrow> 'a kernel_scheme \<Rightarrow> bool" where
  "sched_frame k k' \<longleftrightarrow>
     objs k' = objs k \<and> objects k' = objects k \<and> timers k' = timers k \<and>
     rt_timer_list k' = rt_timer_list k \<and> rt_tick k' = rt_tick k \<and>
     rt_scheduler_lock_nest k' = rt_scheduler_lock_nest k \<and>
     rt_interrupt_nest k' = rt_interrupt_nest k \<and> kernel.more k' = kernel.more k \<and>
     (\<forall>l. (\<forall>p. l \<noteq> ReadyQ p) \<longrightarrow> tlists k' l = tlists k l) \<and>
     (\<forall>t. (\<exists>s. thr k' t = (thr k t)\<lparr>stat := s\<rparr>) \<and> (runnable (state_of k' t) \<longleftrightarrow> runnable (state_of k t)) \<and>
        (\<not> runnable (state_of k t) \<longrightarrow> thr k' t = thr k t))"

lemma sched_frame_refl: "sched_frame k k"
proof -
  have "\<exists>s. thr k t = (thr k t)\<lparr>stat := s\<rparr>" for t
    by (rule exI [of _ "stat (thr k t)"]) (cases "thr k t", simp)
  then show ?thesis by (simp add: sched_frame_def)
qed

lemma set_stat_exists: "\<exists>s'. set_stat s t = t\<lparr>stat := s'\<rparr>"
  by (auto simp: set_stat_def)

lemma dispatch_frame:
  assumes k: "kinv k" and t: "state_of k t = RT_THREAD_READY"
  shows "sched_frame k (context_switch c t (dispatched t (requeued c k)))"
proof -
  have "l_unlink t (tlists (requeued c k)) l = tlists k l" if "\<forall>p. l \<noteq> ReadyQ p" for l
  proof -
    have "tlists (requeued c k) l = tlists k l" using that by (simp add: requeued_def l_append_def)
    moreover have "t \<notin> set (tlists k l)" using that kinv_linked [OF k, of t l] t by (cases l) auto
    ultimately show ?thesis by (simp add: unlink_notin)
  qed
  moreover have "\<exists>s. thr (dispatched t (requeued c k)) x = (thr k x)\<lparr>stat := s\<rparr>" for x
    by (auto simp: dispatched_def requeued_def set_stat_def intro: exI [of _ "stat (thr k x)"])
  moreover have "(runnable (state_of (dispatched t (requeued c k)) x) \<longleftrightarrow> runnable (state_of k x)) \<and>
      (\<not> runnable (state_of k x) \<longrightarrow> thr (dispatched t (requeued c k)) x = thr k x)" for x
    using t by (auto simp: dispatched_def requeued_def)
  ultimately show ?thesis
    by (simp add: sched_frame_def context_switch_def) (simp add: dispatched_def requeued_def)
qed

lemma rt_schedule_kinv:
  assumes k: "kinv k" and c: "rt_current_thread k = Some c"
  shows "\<exists>k'. rt_schedule k = Some k' \<and> kinv k' \<and> sched_frame k k'"
proof (rule rt_schedule_cases [OF k c])
  fix t p
  assume t: "state_of k t = RT_THREAD_READY"
    and s: "rt_schedule k = Some (context_switch c t (dispatched t (requeued c k)))"
  then show ?thesis using dispatch_kinv [OF k c t] dispatch_frame [OF k t] by simp
qed (simp add: k sched_frame_refl)

text \<open>
  The thread that has the processor after \<open>rt_schedule\<close>: it is running, and no ready thread has
  a higher priority (a smaller number).
\<close>

lemma rt_schedule_highest:
  assumes k: "kinv k" and c: "rt_current_thread k = Some c" and lk: "rt_scheduler_lock_nest k = 0"
    and some: "state_of k c = RT_THREAD_RUNNING \<or> rt_thread_ready_priority_group k \<noteq> 0"
    and s: "rt_schedule k = Some k'"
  shows "\<exists>d. rt_current_thread k' = Some d \<and> state_of k' d = RT_THREAD_RUNNING \<and>
    (\<forall>u. state_of k' u = RT_THREAD_READY \<longrightarrow> prio_of k' d \<le> prio_of k' u)"
proof (rule rt_schedule_cases [OF k c])
  assume st: "rt_schedule k = Some k"
    and why: "rt_scheduler_lock_nest k \<noteq> 0 \<or> rt_thread_ready_priority_group k = 0 \<or>
       (\<exists>t p. get_highest_priority_thread k = Some (t, p) \<and> keeps_cpu k c p)"
  show ?thesis
  proof (cases "rt_thread_ready_priority_group k = 0")
    case True
    with st s some c no_ready [OF k] show ?thesis by auto
  next
    case False
    with why lk obtain t p where "get_highest_priority_thread k = Some (t, p)" "keeps_cpu k c p" by auto
    moreover obtain t' p' where "get_highest_priority_thread k = Some (t', p')"
      "\<forall>u. state_of k u = RT_THREAD_READY \<longrightarrow> p' \<le> prio_of k u"
      using get_highest_priority_thread_correct [OF k False] by blast
    ultimately show ?thesis using st s c by (auto simp: keeps_cpu_def intro: order_trans less_imp_le)
  qed
next
  fix t p
  assume t: "state_of k t = RT_THREAD_READY" "prio_of k t = p" "\<not> keeps_cpu k c p"
    "\<forall>u. state_of k u = RT_THREAD_READY \<longrightarrow> p \<le> prio_of k u"
    and st: "rt_schedule k = Some (context_switch c t (dispatched t (requeued c k)))"
  let ?k = "dispatched t (requeued c k)"
  have tc: "t \<noteq> c" using kinv_current [OF k c] t(1) by auto
  have pr: "prio_of ?k u = prio_of k u" for u by (simp add: dispatched_def requeued_def)
  have "p \<le> prio_of k u" if "state_of ?k u = RT_THREAD_READY" for u
  proof (cases "u = c \<and> state_of k c = RT_THREAD_RUNNING")
    case True
    then show ?thesis using t(3) by (auto simp: keeps_cpu_def)
  next
    case False
    then have "state_of k u = RT_THREAD_READY" using that tc
      by (auto simp: dispatched_def requeued_def split: if_splits)
    then show ?thesis using t(4) by simp
  qed
  moreover have "state_of ?k t = RT_THREAD_RUNNING" "rt_current_thread ?k = Some t"
    by (simp_all add: dispatched_def)
  ultimately show ?thesis using st s t(2) pr by (auto simp: context_switch_def)
qed

text \<open>
  A running thread whose time slice is over goes to the tail of its ready queue, so the threads
  of one priority take turns.
\<close>

lemma rt_schedule_round_robin:
  assumes k: "kinv k" and c: "rt_current_thread k = Some c" "state_of k c = RT_THREAD_RUNNING"
    and y: "stat (thr k c) AND RT_THREAD_STAT_YIELD \<noteq> 0" and lk: "rt_scheduler_lock_nest k = 0"
    and q: "tlists k (ReadyQ (prio_of k c)) = t # ts"
    and top: "\<forall>p<prio_of k c. tlists k (ReadyQ p) = []"
  shows "\<exists>k'. rt_schedule k = Some k' \<and> rt_current_thread k' = Some t \<and>
    tlists k' (ReadyQ (prio_of k c)) = ts @ [c] \<and> stat (thr k' c) AND RT_THREAD_STAT_YIELD = 0"
proof -
  let ?p = "prio_of k c"
  have t: "state_of k t = RT_THREAD_READY" "prio_of k t = ?p"
    using kinv_ready [OF k, of t ?p] q by auto
  have g: "rt_thread_ready_priority_group k \<noteq> 0" using no_ready [OF k] t(1) by blast
  obtain t' p' where h: "get_highest_priority_thread k = Some (t', p')" "hd (tlists k (ReadyQ p')) = t'"
    "state_of k t' = RT_THREAD_READY" "prio_of k t' = p'" "p' < RT_THREAD_PRIORITY_MAX"
    "\<forall>u. state_of k u = RT_THREAD_READY \<longrightarrow> p' \<le> prio_of k u"
    using get_highest_priority_thread_correct [OF k g] by blast
  have "p' \<le> ?p" using h(6) t by auto
  moreover have "\<not> p' < ?p" using top kinv_ready [OF k, of t' p'] h(3,4) by auto
  ultimately have p': "p' = ?p" "t' = t" using h(2) q by auto
  have n: "\<not> keeps_cpu k c p'" using y p' by (simp add: keeps_cpu_def)
  have tc: "t \<noteq> c" using t(1) c(2) by auto
  have s: "rt_schedule k = Some (context_switch c t (dispatched t (requeued c k)))"
    using rt_schedule_switch [OF k lk c(1) h(1,3,4,5) n] p' by simp
  have "stat (set_stat RT_THREAD_READY ((thr k c)\<lparr>stat := stat (thr k c) AND NOT RT_THREAD_STAT_YIELD\<rparr>)) AND RT_THREAD_STAT_YIELD = 0"
    by (auto intro!: bit_eqI simp: set_stat_def bit_simps RT_THREAD_READY_def RT_THREAD_STAT_YIELD_def)
  then show ?thesis using s q c tc
    by (simp add: context_switch_def dispatched_def requeued_def l_unlink_def l_append_def)
qed

end
