(* ===== verification/KObject.thy ===== *)
theory KObject
  imports Scheduler
begin

text \<open>
  The object containers of \<^verbatim>\<open>src/object.c\<close>: one list of objects per class, newest first. An
  object is named by an \<open>obj_ref\<close>, its header (\<open>struct rt_object\<close>) is \<open>objs k\<close> at that name.
  The dynamic memory behind \<open>rt_object_allocate\<close> is an argument: the object the allocator
  returned, or \<open>None\<close> for \<open>RT_NULL\<close>.
\<close>

subsection \<open>Operations\<close>

definition object_classes :: "u8 list" where
  "object_classes = [RT_Object_Class_Thread, RT_Object_Class_Semaphore, RT_Object_Class_Mutex,
     RT_Object_Class_Event, RT_Object_Class_MailBox, RT_Object_Class_MessageQueue, 7, 8, 9,
     RT_Object_Class_Timer, 12]"

definition rt_object_get_information :: "u8 \<Rightarrow> 'a kernel_scheme \<Rightarrow> obj_ref list option" where
  "rt_object_get_information ty k = (if ty \<in> set object_classes then Some (objects k ty) else None)"

definition rt_object_get_length :: "u8 \<Rightarrow> 'a kernel_scheme \<Rightarrow> nat" where
  "rt_object_get_length ty k =
     (case rt_object_get_information ty k of None \<Rightarrow> 0 | Some xs \<Rightarrow> length xs)"

definition rt_object_get_pointers :: "u8 \<Rightarrow> int \<Rightarrow> 'a kernel_scheme \<Rightarrow> obj_ref list" where
  "rt_object_get_pointers ty maxlen k =
     (if maxlen \<le> 0 then []
      else case rt_object_get_information ty k of None \<Rightarrow> [] | Some xs \<Rightarrow> take (nat maxlen) xs)"

definition container_insert :: "u8 \<Rightarrow> obj_ref \<Rightarrow> 'a kernel_scheme \<Rightarrow> 'a kernel_scheme" where
  "container_insert ty r k = k\<lparr>objects := (objects k)(ty := r # objects k ty)\<rparr>"

definition container_remove :: "obj_ref \<Rightarrow> 'a kernel_scheme \<Rightarrow> 'a kernel_scheme" where
  "container_remove r k = k\<lparr>objects := (\<lambda>ty. remove1 r (objects k ty))\<rparr>"

definition rt_object_init :: "obj_ref \<Rightarrow> u8 \<Rightarrow> string \<Rightarrow> 'a kernel_scheme \<Rightarrow> 'a kernel_scheme option" where
  "rt_object_init r ty name k = do {
     information \<leftarrow> rt_object_get_information ty k;
     let k = rt_enter_critical k;
     rt_assert (r \<notin> set information);
     k \<leftarrow> rt_exit_critical k;
     let k = upd_obj r (\<lambda>ob. ob\<lparr>otype := ty OR RT_Object_Class_Static, oname := take RT_NAME_MAX name\<rparr>) k;
     Some (container_insert ty r k) }"

definition rt_object_detach :: "obj_ref \<Rightarrow> 'a kernel_scheme \<Rightarrow> 'a kernel_scheme" where
  "rt_object_detach r k = container_remove r (upd_obj r (\<lambda>ob. ob\<lparr>otype := 0\<rparr>) k)"

text \<open>The \<open>rt_memset\<close> of a new thread or timer object.\<close>

definition zero_thread :: rt_thread where
  "zero_thread = \<lparr>error = 0, stat = 0, current_priority = 0, init_priority = 0, number_mask = 0,
     event_set = 0, event_info = 0, init_tick = 0, remaining_tick = 0, has_cleanup = False\<rparr>"

definition zero_timer :: rt_timer where
  "zero_timer = \<lparr>timeout_func = No_timeout, timer_init_tick = 0, timeout_tick = 0\<rparr>"

definition clear_object :: "obj_ref \<Rightarrow> 'a kernel_scheme \<Rightarrow> 'a kernel_scheme" where
  "clear_object r k =
     (case r of
        Obj_thread t \<Rightarrow> upd_thr t (\<lambda>_. zero_thread) (upd_timer (Thread_timer t) (\<lambda>_. zero_timer)
          (upd_obj (Obj_timer (Thread_timer t)) (\<lambda>_. \<lparr>oname = [], otype = 0, oflag = 0\<rparr>) k))
      | Obj_timer i \<Rightarrow> upd_timer i (\<lambda>_. zero_timer) k
      | Obj_ipc _ \<Rightarrow> k)"

definition rt_object_allocate ::
  "u8 \<Rightarrow> string \<Rightarrow> obj_ref option \<Rightarrow> 'a kernel_scheme \<Rightarrow> (obj_ref option \<times> 'a kernel_scheme) option" where
  "rt_object_allocate ty name malloc k = do {
     RT_DEBUG_NOT_IN_INTERRUPT k;
     _ \<leftarrow> rt_object_get_information ty k;
     case malloc of None \<Rightarrow> Some (None, k)
     | Some r \<Rightarrow>
         let k = upd_obj r (\<lambda>_. \<lparr>oname = take RT_NAME_MAX name, otype = ty, oflag = 0\<rparr>) (clear_object r k)
         in Some (Some r, container_insert ty r k) }"

definition rt_object_delete :: "obj_ref \<Rightarrow> 'a kernel_scheme \<Rightarrow> 'a kernel_scheme option" where
  "rt_object_delete r k = do {
     rt_assert (otype (objs k r) AND RT_Object_Class_Static = 0);
     Some (rt_object_detach r k) }"

text \<open>\<open>rt_strncmp(object->name, name, RT_NAME_MAX) == 0\<close> on names without the final 0.\<close>

definition name_matches :: "string \<Rightarrow> string \<Rightarrow> bool" where
  "name_matches a b \<longleftrightarrow> take RT_NAME_MAX a = take RT_NAME_MAX b"

fun find_by_name :: "(obj_ref \<Rightarrow> rt_object) \<Rightarrow> string \<Rightarrow> obj_ref list \<Rightarrow> obj_ref option" where
  "find_by_name h name [] = None"
| "find_by_name h name (r # rs) = (if name_matches (oname (h r)) name then Some r else find_by_name h name rs)"

definition rt_object_find :: "string \<Rightarrow> u8 \<Rightarrow> 'a kernel_scheme \<Rightarrow> (obj_ref option \<times> 'a kernel_scheme) option" where
  "rt_object_find name ty k =
     (case rt_object_get_information ty k of None \<Rightarrow> Some (None, k)
      | Some information \<Rightarrow> do {
          RT_DEBUG_NOT_IN_INTERRUPT k;
          let k = rt_enter_critical k;
          let r = find_by_name (objs k) name information;
          k \<leftarrow> rt_exit_critical k;
          Some (r, k) })"

subsection \<open>Critical sections\<close>

text \<open>
  Entering and leaving a critical section from a nesting depth the counter can hold gives back
  the depth; leaving the outermost one is a call of the scheduler.
\<close>

lemma signed_take_bit_16: "- 32768 \<le> i \<Longrightarrow> i \<le> 32767 \<Longrightarrow> signed_take_bit 15 i = (i :: int)"
  by (intro signed_take_bit_int_eq_self) simp_all

lemma lock_nest_same: "rt_scheduler_lock_nest k = n \<Longrightarrow> k\<lparr>rt_scheduler_lock_nest := n\<rparr> = k"
  by (cases k) auto

lemma enter_exit_critical:
  assumes "0 \<le> rt_scheduler_lock_nest k" "rt_scheduler_lock_nest k < 32767"
  shows "rt_exit_critical (rt_enter_critical k) =
    (if rt_scheduler_lock_nest k = 0 \<and> rt_current_thread k \<noteq> None then rt_schedule k else Some k)"
proof -
  have "signed_take_bit 15 (rt_scheduler_lock_nest k + 1) = rt_scheduler_lock_nest k + 1"
    "signed_take_bit 15 (rt_scheduler_lock_nest k) = rt_scheduler_lock_nest k"
    using assms by (simp_all add: signed_take_bit_16)
  then show ?thesis using assms
    by (auto simp: rt_exit_critical_def rt_enter_critical_def Let_def lock_nest_same)
qed

definition lock_ok :: "'a kernel_scheme \<Rightarrow> bool" where
  "lock_ok k \<longleftrightarrow> 0 \<le> rt_scheduler_lock_nest k \<and> rt_scheduler_lock_nest k < 32767"

lemma critical_section_kinv:
  assumes k: "kinv k" and l: "lock_ok k"
  shows "\<exists>k'. rt_exit_critical (rt_enter_critical k) = Some k' \<and> kinv k' \<and> sched_frame k k'"
proof (cases "rt_scheduler_lock_nest k = 0 \<and> rt_current_thread k \<noteq> None")
  case True
  then obtain c where "rt_current_thread k = Some c" by auto
  with rt_schedule_kinv [OF k this] True l show ?thesis by (simp add: enter_exit_critical lock_ok_def)
next
  case False
  with l have "rt_exit_critical (rt_enter_critical k) = Some k"
    by (auto simp: enter_exit_critical lock_ok_def)
  with k show ?thesis by (simp add: sched_frame_refl)
qed

subsection \<open>Registering and finding\<close>

lemma find_by_name_correct: "find_by_name h name rs = List.find (\<lambda>r. name_matches (oname (h r)) name) rs"
  by (induction rs) simp_all

lemma find_by_name_None: "find_by_name h name rs = None \<longleftrightarrow> (\<forall>x \<in> set rs. \<not> name_matches (oname (h x)) name)"
  by (induction rs) auto

end
