(* ===== verification/RtTimer.thy ===== *)
theory RtTimer
  imports KObject
begin

text \<open>
  The timers of \<^verbatim>\<open>src/timer.c\<close>, configured as in \<^verbatim>\<open>bsp/stm32/stm32f429-fire-challenger/rtconfig.h\<close>:
  hard timers only and a skip list of one level, so \<open>rt_timer_list\<close> is one list ordered by
  expiry. Ticks are 32-bit words and wrap; two ticks are compared by their difference, which is
  right while they are less than half the range apart. The timeout function that
  \<open>rt_timer_check\<close> calls is an argument (\<open>fire\<close>); the clock supplies it.
\<close>

subsection \<open>Operations\<close>

definition RT_TICK_HALF :: tick where "RT_TICK_HALF = RT_TICK_MAX div 2"

definition timer_remove :: "timer_id \<Rightarrow> 'a kernel_scheme \<Rightarrow> 'a kernel_scheme" where
  "timer_remove i k = k\<lparr>rt_timer_list := remove1 i (rt_timer_list k)\<rparr>"

definition clear_flag :: "u8 \<Rightarrow> timer_id \<Rightarrow> 'a kernel_scheme \<Rightarrow> 'a kernel_scheme" where
  "clear_flag f i k = upd_obj (Obj_timer i) (\<lambda>ob. ob\<lparr>oflag := oflag ob AND NOT f\<rparr>) k"

definition set_flag :: "u8 \<Rightarrow> timer_id \<Rightarrow> 'a kernel_scheme \<Rightarrow> 'a kernel_scheme" where
  "set_flag f i k = upd_obj (Obj_timer i) (\<lambda>ob. ob\<lparr>oflag := oflag ob OR f\<rparr>) k"

definition timer_init_fields ::
  "timer_id \<Rightarrow> timeout_fn \<Rightarrow> tick \<Rightarrow> u8 \<Rightarrow> 'a kernel_scheme \<Rightarrow> 'a kernel_scheme" where
  "timer_init_fields i fn time flag k =
     upd_timer i (\<lambda>_. \<lparr>timeout_func = fn, timer_init_tick = time, timeout_tick = 0\<rparr>)
       (clear_flag RT_TIMER_FLAG_ACTIVATED i (upd_obj (Obj_timer i) (\<lambda>ob. ob\<lparr>oflag := flag\<rparr>) k))"

definition rt_timer_init ::
  "timer_id \<Rightarrow> string \<Rightarrow> timeout_fn \<Rightarrow> tick \<Rightarrow> u8 \<Rightarrow> 'a kernel_scheme \<Rightarrow> 'a kernel_scheme option" where
  "rt_timer_init i name fn time flag k = do {
     k \<leftarrow> rt_object_init (Obj_timer i) RT_Object_Class_Timer name k;
     Some (timer_init_fields i fn time flag k) }"

definition rt_timer_detach :: "timer_id \<Rightarrow> 'a kernel_scheme \<Rightarrow> (int \<times> 'a kernel_scheme) option" where
  "rt_timer_detach i k = do {
     rt_assert (rt_object_get_type (Obj_timer i) k = RT_Object_Class_Timer);
     rt_assert (rt_object_is_systemobject (Obj_timer i) k);
     let k = timer_remove i k;
     Some (RT_EOK, rt_object_detach (Obj_timer i) k) }"

definition rt_timer_create ::
  "string \<Rightarrow> timeout_fn \<Rightarrow> tick \<Rightarrow> u8 \<Rightarrow> timer_id option \<Rightarrow> 'a kernel_scheme \<Rightarrow>
   (timer_id option \<times> 'a kernel_scheme) option" where
  "rt_timer_create name fn time flag malloc k = do {
     (r, k) \<leftarrow> rt_object_allocate RT_Object_Class_Timer name (map_option Obj_timer malloc) k;
     case malloc of None \<Rightarrow> Some (None, k)
     | Some i \<Rightarrow> Some (Some i, timer_init_fields i fn time flag k) }"

definition rt_timer_delete :: "timer_id \<Rightarrow> 'a kernel_scheme \<Rightarrow> (int \<times> 'a kernel_scheme) option" where
  "rt_timer_delete i k = do {
     rt_assert (rt_object_get_type (Obj_timer i) k = RT_Object_Class_Timer);
     rt_assert (\<not> rt_object_is_systemobject (Obj_timer i) k);
     let k = timer_remove i k;
     k \<leftarrow> rt_object_delete (Obj_timer i) k;
     Some (RT_EOK, k) }"

text \<open>
  The walk of lines 354--376: past every timer that expires earlier or at the same tick, and the
  insertion after it.
\<close>

fun timer_insert :: "(timer_id \<Rightarrow> tick) \<Rightarrow> timer_id \<Rightarrow> timer_id list \<Rightarrow> timer_id list" where
  "timer_insert to i [] = [i]"
| "timer_insert to i (t # ts) =
     (if to t - to i = 0 then t # timer_insert to i ts
      else if to t - to i < RT_TICK_HALF then i # t # ts
      else t # timer_insert to i ts)"

definition rt_tick_get :: "'a kernel_scheme \<Rightarrow> tick" where
  "rt_tick_get k = rt_tick k"

definition rt_timer_start :: "timer_id \<Rightarrow> 'a kernel_scheme \<Rightarrow> (int \<times> 'a kernel_scheme) option" where
  "rt_timer_start i k = do {
     rt_assert (rt_object_get_type (Obj_timer i) k = RT_Object_Class_Timer);
     let k = clear_flag RT_TIMER_FLAG_ACTIVATED i (timer_remove i k);
     rt_assert (timer_init_tick (timers k i) < RT_TICK_HALF);
     let k = upd_timer i (\<lambda>t. t\<lparr>timeout_tick := rt_tick_get k + timer_init_tick t\<rparr>) k;
     let k = k\<lparr>rt_timer_list := timer_insert (\<lambda>j. timeout_tick (timers k j)) i (rt_timer_list k)\<rparr>;
     Some (RT_EOK, set_flag RT_TIMER_FLAG_ACTIVATED i k) }"

definition rt_timer_stop :: "timer_id \<Rightarrow> 'a kernel_scheme \<Rightarrow> (int \<times> 'a kernel_scheme) option" where
  "rt_timer_stop i k = do {
     rt_assert (rt_object_get_type (Obj_timer i) k = RT_Object_Class_Timer);
     if \<not> timer_active i k then Some (- RT_ERROR, k)
     else Some (RT_EOK, clear_flag RT_TIMER_FLAG_ACTIVATED i (timer_remove i k)) }"

datatype timer_cmd = TIMER_CTRL_SET_TIME tick | TIMER_CTRL_GET_TIME | TIMER_CTRL_SET_ONESHOT
  | TIMER_CTRL_SET_PERIODIC | TIMER_CTRL_GET_STATE | TIMER_CTRL_OTHER

text \<open>The result carries what the command stores through \<open>arg\<close>, if anything.\<close>

definition rt_timer_control ::
  "timer_id \<Rightarrow> timer_cmd \<Rightarrow> 'a kernel_scheme \<Rightarrow> (int \<times> tick option \<times> 'a kernel_scheme) option" where
  "rt_timer_control i cmd k = do {
     rt_assert (rt_object_get_type (Obj_timer i) k = RT_Object_Class_Timer);
     Some (case cmd of
        TIMER_CTRL_GET_TIME \<Rightarrow> (RT_EOK, Some (timer_init_tick (timers k i)), k)
      | TIMER_CTRL_SET_TIME v \<Rightarrow> (RT_EOK, None, upd_timer i (\<lambda>t. t\<lparr>timer_init_tick := v\<rparr>) k)
      | TIMER_CTRL_SET_ONESHOT \<Rightarrow> (RT_EOK, None, clear_flag RT_TIMER_FLAG_PERIODIC i k)
      | TIMER_CTRL_SET_PERIODIC \<Rightarrow> (RT_EOK, None, set_flag RT_TIMER_FLAG_PERIODIC i k)
      | TIMER_CTRL_GET_STATE \<Rightarrow> (RT_EOK, Some (if timer_active i k then 1 else 0), k)
      | TIMER_CTRL_OTHER \<Rightarrow> (RT_EOK, None, k)) }"

definition rt_timer_list_next_timeout :: "'a kernel_scheme \<Rightarrow> tick" where
  "rt_timer_list_next_timeout k =
     (case rt_timer_list k of [] \<Rightarrow> RT_TICK_MAX | i # _ \<Rightarrow> timeout_tick (timers k i))"

definition rt_timer_next_timeout_tick :: "'a kernel_scheme \<Rightarrow> tick" where
  "rt_timer_next_timeout_tick k = rt_timer_list_next_timeout k"

definition rt_system_timer_init :: "'a kernel_scheme \<Rightarrow> 'a kernel_scheme" where
  "rt_system_timer_init k = k\<lparr>rt_timer_list := []\<rparr>"

definition expired :: "tick \<Rightarrow> timer_id \<Rightarrow> 'a kernel_scheme \<Rightarrow> bool" where
  "expired now i k \<longleftrightarrow> now - timeout_tick (timers k i) < RT_TICK_HALF"

text \<open>Lines 543--565 for the timer at the head of the list.\<close>

definition fire_timer ::
  "(timeout_fn \<Rightarrow> 'a kernel_scheme \<Rightarrow> 'a kernel_scheme option) \<Rightarrow> timer_id \<Rightarrow> 'a kernel_scheme \<Rightarrow>
   'a kernel_scheme option" where
  "fire_timer fire i k = do {
     let k = timer_remove i k;
     k \<leftarrow> fire (timeout_func (timers k i)) k;
     if timer_periodic i k \<and> timer_active i k then do {
       (_, k) \<leftarrow> rt_timer_start i (clear_flag RT_TIMER_FLAG_ACTIVATED i k);
       Some k }
     else Some (clear_flag RT_TIMER_FLAG_ACTIVATED i k) }"

partial_function (option) rt_timer_check_loop ::
  "(timeout_fn \<Rightarrow> 'a kernel_scheme \<Rightarrow> 'a kernel_scheme option) \<Rightarrow> tick \<Rightarrow> 'a kernel_scheme \<Rightarrow>
   'a kernel_scheme option" where
  "rt_timer_check_loop fire now k =
     (case rt_timer_list k of [] \<Rightarrow> Some k
      | i # _ \<Rightarrow>
          if expired now i k then do {
            k \<leftarrow> fire_timer fire i k;
            rt_timer_check_loop fire (rt_tick_get k) k }
          else Some k)"

definition rt_timer_check ::
  "(timeout_fn \<Rightarrow> 'a kernel_scheme \<Rightarrow> 'a kernel_scheme option) \<Rightarrow> 'a kernel_scheme \<Rightarrow>
   'a kernel_scheme option" where
  "rt_timer_check fire k = rt_timer_check_loop fire (rt_tick_get k) k"

subsection \<open>Ticks\<close>

text \<open>The time from \<open>base\<close> to the expiry of a timer, as a natural number.\<close>

definition offset :: "tick \<Rightarrow> tick \<Rightarrow> nat" where
  "offset base t = unat (t - base)"

lemma half: "unat RT_TICK_HALF = 2 ^ 31 - 1"
  by (simp add: RT_TICK_HALF_def RT_TICK_MAX_def unat_div)

lemma unat_diff:
  "unat (a - b :: u32) = (if unat b \<le> unat a then unat a - unat b else unat a + 2 ^ 32 - unat b)"
  by (simp add: unat_sub_if' word_le_nat_alt)

lemma tick_after:
  assumes "offset base a < 2 ^ 31 - 1" "offset base b < 2 ^ 31 - 1"
  shows "a - b \<noteq> 0 \<and> a - b < RT_TICK_HALF \<longleftrightarrow> offset base b < offset base a"
    and "b - a < RT_TICK_HALF \<longleftrightarrow> offset base a \<le> offset base b"
proof -
  define x y where "x = offset base a" and "y = offset base b"
  have d: "unat (a - b) = (if y \<le> x then x - y else x + 2 ^ 32 - y)"
    "unat (b - a) = (if x \<le> y then y - x else y + 2 ^ 32 - x)"
    using unat_diff [of "a - base" "b - base"] unat_diff [of "b - base" "a - base"]
    by (simp_all add: x_def y_def offset_def)
  have z: "a - b \<noteq> 0 \<longleftrightarrow> unat (a - b) \<noteq> 0" by (simp add: unat_eq_0)
  have xy: "x < 2 ^ 31 - 1" "y < 2 ^ 31 - 1" using assms by (simp_all add: x_def y_def)
  show "a - b \<noteq> 0 \<and> a - b < RT_TICK_HALF \<longleftrightarrow> offset base b < offset base a"
    using xy unfolding z word_less_nat_alt half d x_def [symmetric] y_def [symmetric]
    by (cases "y \<le> x") auto
  show "b - a < RT_TICK_HALF \<longleftrightarrow> offset base a \<le> offset base b"
    using xy unfolding word_less_nat_alt half d x_def [symmetric] y_def [symmetric]
    by (cases "x \<le> y") auto
qed

subsection \<open>The list is ordered by expiry\<close>

definition timers_sorted :: "tick \<Rightarrow> (timer_id \<Rightarrow> tick) \<Rightarrow> timer_id list \<Rightarrow> bool" where
  "timers_sorted base to ts \<longleftrightarrow>
     sorted_wrt (\<lambda>i j. offset base (to i) \<le> offset base (to j)) ts \<and>
     (\<forall>i \<in> set ts. offset base (to i) < 2 ^ 31 - 1)"

lemma set_timer_insert [simp]: "set (timer_insert to i ts) = insert i (set ts)"
  by (induction ts) auto

lemma distinct_timer_insert: "distinct ts \<Longrightarrow> i \<notin> set ts \<Longrightarrow> distinct (timer_insert to i ts)"
  by (induction ts) auto

lemma timer_insert_sorted:
  assumes "timers_sorted base to ts" "offset base (to i) < 2 ^ 31 - 1"
  shows "timers_sorted base to (timer_insert to i ts)"
  using assms
proof (induction ts)
  case Nil
  then show ?case by (simp add: timers_sorted_def)
next
  case (Cons t ts)
  have t: "offset base (to t) < 2 ^ 31 - 1" using Cons.prems(1) by (simp add: timers_sorted_def)
  note after = tick_after(1) [OF t Cons.prems(2)]
  have IH: "timers_sorted base to (timer_insert to i ts)" using Cons by (simp add: timers_sorted_def)
  show ?case
  proof (cases "offset base (to i) < offset base (to t)")
    case True
    with after Cons.prems show ?thesis
      by (auto simp: timers_sorted_def intro: order_trans less_imp_le)
  next
    case False
    with after have "timer_insert to i (t # ts) = t # timer_insert to i ts" by auto
    with IH False Cons.prems show ?thesis by (auto simp: timers_sorted_def)
  qed
qed

text \<open>Insertion is stable: a timer goes after those that expire at the same tick.\<close>

lemma timer_insert_split:
  assumes "timers_sorted base to ts" "offset base (to i) < 2 ^ 31 - 1"
  shows "timer_insert to i ts =
    filter (\<lambda>t. offset base (to t) \<le> offset base (to i)) ts @ i #
    filter (\<lambda>t. offset base (to i) < offset base (to t)) ts"
  using assms
proof (induction ts)
  case Nil
  then show ?case by simp
next
  case (Cons t ts)
  have t: "offset base (to t) < 2 ^ 31 - 1" and s: "timers_sorted base to ts"
    using Cons.prems(1) by (simp_all add: timers_sorted_def)
  note after = tick_after(1) [OF t Cons.prems(2)]
  show ?case
  proof (cases "offset base (to i) < offset base (to t)")
    case True
    moreover from this have "\<forall>u\<in>set ts. offset base (to i) < offset base (to u)"
      using Cons.prems(1) by (fastforce simp: timers_sorted_def)
    ultimately show ?thesis using after by (auto simp: filter_empty_conv filter_id_conv)
  next
    case False
    with after have "timer_insert to i (t # ts) = t # timer_insert to i ts" by auto
    then show ?thesis using Cons.IH [OF s Cons.prems(2)] False by simp
  qed
qed

lemma expired_offset:
  assumes "offset base (to i) < 2 ^ 31 - 1" "offset base now < 2 ^ 31 - 1"
  shows "now - to i < RT_TICK_HALF \<longleftrightarrow> offset base (to i) \<le> offset base now"
  using tick_after(2) [OF assms] .

lemma sorted_filter_takeWhile:
  assumes "timers_sorted base to ts"
  shows "filter (\<lambda>i. offset base (to i) \<le> n) ts = takeWhile (\<lambda>i. offset base (to i) \<le> n) ts"
  using assms
proof (induction ts)
  case (Cons t ts)
  show ?case
  proof (cases "offset base (to t) \<le> n")
    case True
    with Cons show ?thesis by (simp add: timers_sorted_def)
  next
    case False
    then have "\<forall>u\<in>set ts. \<not> offset base (to u) \<le> n"
      using Cons.prems by (fastforce simp: timers_sorted_def)
    with False show ?thesis by (simp add: filter_empty_conv)
  qed
qed simp

subsection \<open>Starting and stopping\<close>

lemma timer_flags [simp]:
  "timer_active i (set_flag RT_TIMER_FLAG_ACTIVATED j k) \<longleftrightarrow> i = j \<or> timer_active i k"
  "timer_active i (clear_flag RT_TIMER_FLAG_ACTIVATED j k) \<longleftrightarrow> i \<noteq> j \<and> timer_active i k"
  "timer_periodic i (set_flag RT_TIMER_FLAG_ACTIVATED j k) \<longleftrightarrow> timer_periodic i k"
  "timer_periodic i (clear_flag RT_TIMER_FLAG_ACTIVATED j k) \<longleftrightarrow> timer_periodic i k"
proof -
  have b: "(w AND RT_TIMER_FLAG_ACTIVATED \<noteq> 0) = bit w 0" "(w AND RT_TIMER_FLAG_PERIODIC \<noteq> 0) = bit w 1" for w :: u8
    using and_exp_eq_0_iff_not_bit [of w 0] and_exp_eq_0_iff_not_bit [of w 1]
    by (simp_all add: RT_TIMER_FLAG_ACTIVATED_def RT_TIMER_FLAG_PERIODIC_def)
  show "timer_active i (set_flag RT_TIMER_FLAG_ACTIVATED j k) \<longleftrightarrow> i = j \<or> timer_active i k"
    "timer_active i (clear_flag RT_TIMER_FLAG_ACTIVATED j k) \<longleftrightarrow> i \<noteq> j \<and> timer_active i k"
    "timer_periodic i (set_flag RT_TIMER_FLAG_ACTIVATED j k) \<longleftrightarrow> timer_periodic i k"
    "timer_periodic i (clear_flag RT_TIMER_FLAG_ACTIVATED j k) \<longleftrightarrow> timer_periodic i k"
    unfolding timer_active_def timer_periodic_def b
    by (auto simp: set_flag_def clear_flag_def bit_simps RT_TIMER_FLAG_ACTIVATED_def)
qed

text \<open>
  The timer operations change flags, timer fields and the timer list only; the invariant then
  only has the timer list to look at.
\<close>

definition timer_frame :: "'a kernel_scheme \<Rightarrow> 'a kernel_scheme \<Rightarrow> bool" where
  "timer_frame k k' \<longleftrightarrow>
     thr k' = thr k \<and> tlists k' = tlists k \<and> objects k' = objects k \<and>
     rt_thread_ready_priority_group k' = rt_thread_ready_priority_group k \<and>
     rt_scheduler_lock_nest k' = rt_scheduler_lock_nest k \<and>
     rt_current_thread k' = rt_current_thread k \<and> rt_current_priority k' = rt_current_priority k \<and>
     rt_interrupt_nest k' = rt_interrupt_nest k \<and> rt_tick k' = rt_tick k \<and>
     hw_trace k' = hw_trace k \<and> kernel.more k' = kernel.more k \<and>
     (\<forall>r. otype (objs k' r) = otype (objs k r)) \<and>
     (\<forall>n. objs k' (Obj_thread n) = objs k (Obj_thread n) \<and> objs k' (Obj_ipc n) = objs k (Obj_ipc n)) \<and>
     (\<forall>i. timeout_func (timers k' i) = timeout_func (timers k i))"

lemma timer_frame_refl [simp]: "timer_frame k k"
  by (simp add: timer_frame_def)

lemma timer_frame_trans: "timer_frame a b \<Longrightarrow> timer_frame b c \<Longrightarrow> timer_frame a c"
  by (simp add: timer_frame_def)

lemma timer_frame_steps [simp]:
  "timer_frame k (timer_remove i k)"
  "timer_frame k (set_flag f i k)" "timer_frame k (clear_flag f i k)"
  "timer_frame k (upd_timer i (\<lambda>t. t\<lparr>timer_init_tick := v\<rparr>) k)"
  "timer_frame k (upd_timer i (\<lambda>t. t\<lparr>timeout_tick := g t\<rparr>) k)"
  "timer_frame k (k\<lparr>rt_timer_list := ts\<rparr>)"
  by (simp_all add: timer_frame_def timer_remove_def set_flag_def clear_flag_def)

lemma timer_frame_compose:
  "timer_frame k0 k \<Longrightarrow> timer_frame k0 (timer_remove i k)"
  "timer_frame k0 k \<Longrightarrow> timer_frame k0 (set_flag f i k)"
  "timer_frame k0 k \<Longrightarrow> timer_frame k0 (clear_flag f i k)"
  "timer_frame k0 k \<Longrightarrow> timer_frame k0 (upd_timer i (\<lambda>t. t\<lparr>timer_init_tick := v\<rparr>) k)"
  "timer_frame k0 k \<Longrightarrow> timer_frame k0 (upd_timer i (\<lambda>t. t\<lparr>timeout_tick := g t\<rparr>) k)"
  "timer_frame k0 k \<Longrightarrow> timer_frame k0 (k\<lparr>rt_timer_list := ts\<rparr>)"
  by (erule timer_frame_trans, simp)+

lemma timer_list_steps [simp]:
  "rt_timer_list (timer_remove i k) = remove1 i (rt_timer_list k)"
  "rt_timer_list (set_flag f i k) = rt_timer_list k"
  "rt_timer_list (clear_flag f i k) = rt_timer_list k"
  "timers (timer_remove i k) = timers k" "timers (set_flag f i k) = timers k"
  "timers (clear_flag f i k) = timers k"
  "timer_active j (timer_remove i k) = timer_active j k"
  "timer_periodic j (timer_remove i k) = timer_periodic j k"
  "timer_active j (upd_timer i h k) = timer_active j k"
  "timer_active j (k\<lparr>rt_timer_list := ts\<rparr>) = timer_active j k"
  "timer_periodic j (upd_timer i h k) = timer_periodic j k"
  "timer_periodic j (k\<lparr>rt_timer_list := ts\<rparr>) = timer_periodic j k"
  by (simp_all add: timer_remove_def set_flag_def clear_flag_def timer_active_def timer_periodic_def)

lemma timer_frame_type: "timer_frame k k' \<Longrightarrow> rt_object_get_type r k' = rt_object_get_type r k"
  "timer_frame k k' \<Longrightarrow> rt_object_is_systemobject r k' = rt_object_is_systemobject r k"
  by (simp_all add: timer_frame_def rt_object_get_type_def rt_object_is_systemobject_def)

lemma timer_frame_kinv:
  assumes k: "kinv k" and f: "timer_frame k k'"
    and d: "distinct (rt_timer_list k')"
    and new: "\<And>i. i \<in> set (rt_timer_list k') \<Longrightarrow> timer_active i k' \<and>
      Obj_timer i \<in> set (objects k RT_Object_Class_Timer) \<and>
      (\<forall>t. i = Thread_timer t \<longrightarrow> state_of k t = RT_THREAD_SUSPEND)"
  shows "kinv k'"
proof (rule kinvI)
  note eq = f [unfolded timer_frame_def]
  note ty = timer_frame_type [OF f]
  show "lists_ok (tlists k')" using kinv_lists [OF k] eq by simp
  show "t \<in> set (tlists k' (ReadyQ p)) \<longleftrightarrow> state_of k' t = RT_THREAD_READY \<and> prio_of k' t = p" for p t
    using kinv_ready [OF k] eq by simp
  show "case l of ReadyQ p \<Rightarrow> True | Defunct \<Rightarrow> state_of k' t = RT_THREAD_CLOSE
    | _ \<Rightarrow> state_of k' t = RT_THREAD_SUSPEND" if "t \<in> set (tlists k' l)" for l t
    using that kinv_linked [OF k, of t l] eq by (auto split: list_id.splits)
  show "bit (rt_thread_ready_priority_group k') p \<longleftrightarrow> tlists k' (ReadyQ p) \<noteq> []" for p
    using kinv_group [OF k] eq by simp
  show "timer_ok k'" using d new eq by (auto simp: timer_ok_def)
  show "prio_of k' t < RT_THREAD_PRIORITY_MAX \<and> number_mask (thr k' t) = priority_mask (prio_of k' t)"
    if "live (state_of k' t)" for t using that kinv_live(1,2) [OF k, of t] eq by simp
  have "thread_object_ok t k' = thread_object_ok t k" for t
    using eq by (intro thread_object_ok_cong) simp_all
  then show "thread_object_ok t k'" if "live (state_of k' t)" for t
    using that kinv_live(6) [OF k, of t] eq by simp
qed (use kinv_running [OF k] kinv_current [OF k] kinv_registered [OF k] f new
    in \<open>auto simp: timer_frame_def\<close>)

lemma kinv_timer_active: "kinv k \<Longrightarrow> i \<in> set (rt_timer_list k) \<Longrightarrow> timer_active i k"
  by (simp add: kinv_def timer_ok_def)

lemma rt_timer_stop_kinv:
  assumes k: "kinv k" and ty: "rt_object_get_type (Obj_timer i) k = RT_Object_Class_Timer"
  shows "\<exists>r k'. rt_timer_stop i k = Some (r, k') \<and> kinv k' \<and> timer_frame k k' \<and>
    rt_timer_list k' = remove1 i (rt_timer_list k) \<and> timers k' = timers k \<and>
    i \<notin> set (rt_timer_list k') \<and> \<not> timer_active i k'"
proof (cases "timer_active i k")
  case False
  then have "i \<notin> set (rt_timer_list k)" using k by (auto simp: kinv_def timer_ok_def)
  with False k ty show ?thesis by (simp add: rt_timer_stop_def remove1_idem)
next
  case True
  let ?k = "clear_flag RT_TIMER_FLAG_ACTIVATED i (timer_remove i k)"
  have f: "timer_frame k ?k" by (intro timer_frame_compose timer_frame_refl)
  have d: "distinct (rt_timer_list k)" by (rule kinv_timers_distinct [OF k])
  have "kinv ?k"
    by (rule timer_frame_kinv [OF k f])
      (use d kinv_timer_active [OF k] kinv_timer_registered [OF k] kinv_timer_suspended [OF k] in auto)
  with True f d ty show ?thesis by (simp add: rt_timer_stop_def)
qed

text \<open>
  A start puts the timer, armed for \<open>init_tick\<close> ticks from now, where the order of expiry wants it.
\<close>

definition restarted :: "timer_id \<Rightarrow> 'a kernel_scheme \<Rightarrow> 'a kernel_scheme" where
  "restarted i k =
     (let k = clear_flag RT_TIMER_FLAG_ACTIVATED i (timer_remove i k);
          k = upd_timer i (\<lambda>t. t\<lparr>timeout_tick := rt_tick k + timer_init_tick t\<rparr>) k in
      set_flag RT_TIMER_FLAG_ACTIVATED i
        (k\<lparr>rt_timer_list := timer_insert (\<lambda>j. timeout_tick (timers k j)) i (rt_timer_list k)\<rparr>))"

lemma rt_timer_start_restarted:
  assumes "rt_object_get_type (Obj_timer i) k = RT_Object_Class_Timer" "timer_init_tick (timers k i) < RT_TICK_HALF"
  shows "rt_timer_start i k = Some (RT_EOK, restarted i k)"
  using assms by (simp add: rt_timer_start_def restarted_def rt_tick_get_def Let_def)

lemma restarted_frame: "timer_frame k (restarted i k)"
  unfolding restarted_def Let_def by (intro timer_frame_compose timer_frame_refl)

lemma restarted_sel:
  "timers (restarted i k) = (timers k)(i := (timers k i)\<lparr>timeout_tick := rt_tick k + timer_init_tick (timers k i)\<rparr>)"
  "rt_timer_list (restarted i k) = timer_insert (\<lambda>j. timeout_tick (timers (restarted i k) j)) i (remove1 i (rt_timer_list k))"
  "timer_active j (restarted i k) \<longleftrightarrow> j = i \<or> timer_active j k"
proof -
  have tick: "rt_tick (clear_flag RT_TIMER_FLAG_ACTIVATED i (timer_remove i k)) = rt_tick k"
    by (simp add: clear_flag_def timer_remove_def)
  show t: "timers (restarted i k) = (timers k)(i := (timers k i)\<lparr>timeout_tick := rt_tick k + timer_init_tick (timers k i)\<rparr>)"
    by (simp add: restarted_def Let_def tick)
  show "rt_timer_list (restarted i k) = timer_insert (\<lambda>j. timeout_tick (timers (restarted i k) j)) i (remove1 i (rt_timer_list k))"
    unfolding t by (simp add: restarted_def Let_def tick cong: if_cong)
  show "timer_active j (restarted i k) \<longleftrightarrow> j = i \<or> timer_active j k"
    by (auto simp: restarted_def Let_def)
qed

lemma rt_timer_start_kinv:
  assumes k: "kinv k" and ty: "rt_object_get_type (Obj_timer i) k = RT_Object_Class_Timer"
    and reg: "Obj_timer i \<in> set (objects k RT_Object_Class_Timer)"
    and init: "timer_init_tick (timers k i) < RT_TICK_HALF"
    and susp: "\<And>t. i = Thread_timer t \<Longrightarrow> state_of k t = RT_THREAD_SUSPEND"
  shows "rt_timer_start i k = Some (RT_EOK, restarted i k)" "kinv (restarted i k)"
proof -
  show "rt_timer_start i k = Some (RT_EOK, restarted i k)" by (rule rt_timer_start_restarted [OF ty init])
  have d: "distinct (rt_timer_list k)" by (rule kinv_timers_distinct [OF k])
  show "kinv (restarted i k)"
  proof (rule timer_frame_kinv [OF k restarted_frame])
    show "distinct (rt_timer_list (restarted i k))"
      using d unfolding restarted_sel(2) by (intro distinct_timer_insert) auto
    show "timer_active j (restarted i k) \<and> Obj_timer j \<in> set (objects k RT_Object_Class_Timer) \<and>
      (\<forall>t. j = Thread_timer t \<longrightarrow> state_of k t = RT_THREAD_SUSPEND)"
      if "j \<in> set (rt_timer_list (restarted i k))" for j
      using that d reg susp kinv_timer_active [OF k] kinv_timer_registered [OF k] kinv_timer_suspended [OF k]
      unfolding restarted_sel(2) set_timer_insert restarted_sel(3) by auto
  qed
qed

lemma restarted_sorted:
  assumes k: "kinv k" and s: "timers_sorted base (\<lambda>i. timeout_tick (timers k i)) (rt_timer_list k)"
    and o: "offset base (rt_tick k + timer_init_tick (timers k i)) < 2 ^ 31 - 1"
  shows "timers_sorted base (\<lambda>j. timeout_tick (timers (restarted i k) j)) (rt_timer_list (restarted i k))"
proof -
  let ?to = "\<lambda>j. timeout_tick (timers (restarted i k) j)"
  have d: "distinct (rt_timer_list k)" by (rule kinv_timers_distinct [OF k])
  have same: "?to j = timeout_tick (timers k j)" if "j \<in> set (remove1 i (rt_timer_list k))" for j
    using that d unfolding restarted_sel(1) by auto
  have "timers_sorted base (\<lambda>i. timeout_tick (timers k i)) (remove1 i (rt_timer_list k))"
    using s d by (auto simp: timers_sorted_def distinct_remove1_removeAll removeAll_filter_not_eq
        sorted_wrt_filter)
  then have s': "sorted_wrt (\<lambda>i j. offset base (timeout_tick (timers k i)) \<le> offset base (timeout_tick (timers k j)))
      (remove1 i (rt_timer_list k))"
    and b: "\<forall>j \<in> set (remove1 i (rt_timer_list k)). offset base (timeout_tick (timers k j)) < 2 ^ 31 - 1"
    by (simp_all add: timers_sorted_def)
  have "sorted_wrt (\<lambda>i j. offset base (?to i) \<le> offset base (?to j)) (remove1 i (rt_timer_list k))"
    by (rule sorted_wrt_mono_rel [OF _ s']) (simp add: same)
  with b same have "timers_sorted base ?to (remove1 i (rt_timer_list k))"
    by (simp add: timers_sorted_def)
  moreover have "offset base (?to i) < 2 ^ 31 - 1" using o unfolding restarted_sel(1) by simp
  ultimately show ?thesis unfolding restarted_sel(2) by (rule timer_insert_sorted)
qed

subsection \<open>The timer check fires exactly the expired timers, in order of expiry\<close>

text \<open>
  A timeout function is passive when it leaves the timers alone, as the one of every thread timer
  does. For such functions the loop of \<open>rt_timer_check\<close> is a fold over the expired timers.
\<close>

definition timer_passive :: "(timeout_fn \<Rightarrow> 'a kernel_scheme \<Rightarrow> 'a kernel_scheme option) \<Rightarrow> bool" where
  "timer_passive fire \<longleftrightarrow> (\<forall>fn k k'. fire fn k = Some k' \<longrightarrow>
     timers k' = timers k \<and> rt_timer_list k' = rt_timer_list k \<and> rt_tick k' = rt_tick k \<and>
     objs k' = objs k)"

fun fire_seq ::
  "(timeout_fn \<Rightarrow> 'a kernel_scheme \<Rightarrow> 'a kernel_scheme option) \<Rightarrow> timer_id list \<Rightarrow> 'a kernel_scheme \<Rightarrow>
   'a kernel_scheme option" where
  "fire_seq fire [] k = Some k"
| "fire_seq fire (i # ts) k = do { k \<leftarrow> fire_timer fire i k; fire_seq fire ts k }"

abbreviation expiry :: "'a kernel_scheme \<Rightarrow> timer_id \<Rightarrow> tick" where
  "expiry k i \<equiv> timeout_tick (timers k i)"

definition check_inv :: "tick \<Rightarrow> 'a kernel_scheme \<Rightarrow> bool" where
  "check_inv base k \<longleftrightarrow>
     timers_sorted base (expiry k) (rt_timer_list k) \<and> distinct (rt_timer_list k) \<and>
     offset base (rt_tick k) < 2 ^ 31 - 1 \<and>
     (\<forall>i \<in> set (rt_timer_list k). timer_periodic i k \<longrightarrow>
        rt_object_get_type (Obj_timer i) k = RT_Object_Class_Timer \<and> 0 < timer_init_tick (timers k i) \<and>
        offset base (rt_tick k) + unat (timer_init_tick (timers k i)) < 2 ^ 31 - 1)"

lemma expired_iff:
  assumes "check_inv base k" "i \<in> set (rt_timer_list k)"
  shows "expired (rt_tick k) i k \<longleftrightarrow> offset base (expiry k i) \<le> offset base (rt_tick k)"
  using assms tick_after(2) [of base "expiry k i" "rt_tick k"]
  by (auto simp: check_inv_def timers_sorted_def expired_def)

lemma expired_head:
  assumes c: "check_inv base k" and l: "rt_timer_list k = i # ts"
  shows "expired (rt_tick k) i k \<longleftrightarrow> filter (\<lambda>j. expired (rt_tick k) j k) (i # ts) \<noteq> []"
proof -
  have "offset base (expiry k i) \<le> offset base (expiry k j)" if "j \<in> set ts" for j
    using c l that by (auto simp: check_inv_def timers_sorted_def)
  then have "expired (rt_tick k) i k" if "j \<in> set ts" "expired (rt_tick k) j k" for j
    using that expired_iff [OF c, of j] expired_iff [OF c, of i] l by (auto intro: order_trans)
  then show ?thesis by (auto simp: filter_empty_conv)
qed

lemma filter_timer_insert: "\<not> P i \<Longrightarrow> filter P (timer_insert to i ts) = filter P ts"
  by (induction ts) auto

lemma offset_add:
  assumes "offset base now + unat d < 2 ^ 31 - 1"
  shows "offset base (now + d) = offset base now + unat d"
proof -
  have e: "now + d - base = (now - base) + d" by simp
  have "unat ((now - base) + d) = unat (now - base) + unat d"
    using assms by (intro unat_plus_simple [THEN iffD1]) (simp add: offset_def no_olen_add_nat)
  then show ?thesis unfolding offset_def e .
qed

lemma fire_timer_check_inv:
  assumes p: "timer_passive fire" and c: "check_inv base k" and l: "rt_timer_list k = i # ts"
    and x: "expired (rt_tick k) i k" and f: "fire_timer fire i k = Some k'"
  shows "check_inv base k'" "rt_tick k' = rt_tick k"
    "filter (\<lambda>j. expired (rt_tick k') j k') (rt_timer_list k') = filter (\<lambda>j. expired (rt_tick k) j k) ts"
proof -
  have d: "i \<notin> set ts" "distinct ts" using c l by (auto simp: check_inv_def)
  have sts: "timers_sorted base (expiry k) ts" using c l by (auto simp: check_inv_def timers_sorted_def)
  obtain k1 where k1: "fire (timeout_func (timers k i)) (timer_remove i k) = Some k1"
    using f by (auto simp: fire_timer_def Let_def split: bind_splits)
  have s1: "timers k1 = timers k" "rt_timer_list k1 = ts" "rt_tick k1 = rt_tick k" "objs k1 = objs k"
    using p k1 l unfolding timer_passive_def by (fastforce simp: timer_remove_def)+
  note f1 = object_cong [OF s1(4)]
  have per: "\<forall>j \<in> set ts. timer_periodic j k \<longrightarrow> rt_object_get_type (Obj_timer j) k = RT_Object_Class_Timer \<and>
      0 < timer_init_tick (timers k j) \<and> offset base (rt_tick k) + unat (timer_init_tick (timers k j)) < 2 ^ 31 - 1"
    using c l by (simp add: check_inv_def)
  have tk: "offset base (rt_tick k) < 2 ^ 31 - 1" using c by (simp add: check_inv_def)
  have st: "timers_sorted base to ts" if "\<And>j. j \<in> set ts \<Longrightarrow> to j = expiry k j" for to
  proof -
    have "sorted_wrt (\<lambda>i j. offset base (expiry k i) \<le> offset base (expiry k j)) ts"
      using sts by (simp add: timers_sorted_def)
    then have "sorted_wrt (\<lambda>i j. offset base (to i) \<le> offset base (to j)) ts"
      by (rule sorted_wrt_mono_rel [rotated]) (simp add: that)
    then show ?thesis using sts that by (simp add: timers_sorted_def)
  qed
  have goals: "check_inv base k' \<and> rt_tick k' = rt_tick k \<and>
    filter (\<lambda>j. expired (rt_tick k) j k') (rt_timer_list k') = filter (\<lambda>j. expired (rt_tick k) j k) ts"
  proof (cases "timer_periodic i k1 \<and> timer_active i k1")
    case False
    then have k': "k' = clear_flag RT_TIMER_FLAG_ACTIVATED i k1"
      using f k1 by (auto simp: fire_timer_def Let_def)
    have "rt_tick k' = rt_tick k" "timers k' = timers k" "rt_timer_list k' = ts"
      using s1 by (simp_all add: k' clear_flag_def)
    moreover have "rt_object_get_type r k' = rt_object_get_type r k" for r
      using s1(4) by (simp add: k' clear_flag_def rt_object_get_type_def)
    moreover have "timer_periodic j k' = timer_periodic j k" for j by (simp add: k' f1)
    ultimately show ?thesis using sts d per tk by (simp add: check_inv_def expired_def)
  next
    case True
    then have pi: "timer_periodic i k" by (simp add: f1)
    then have ip: "rt_object_get_type (Obj_timer i) k = RT_Object_Class_Timer"
      "0 < timer_init_tick (timers k i)" "offset base (rt_tick k) + unat (timer_init_tick (timers k i)) < 2 ^ 31 - 1"
      using c l by (simp_all add: check_inv_def)
    let ?k2 = "clear_flag RT_TIMER_FLAG_ACTIVATED i k1"
    have ty2: "rt_object_get_type r ?k2 = rt_object_get_type r k" for r
      using s1(4) by (simp add: clear_flag_def rt_object_get_type_def)
    have tk2: "rt_tick ?k2 = rt_tick k" using s1 by (simp add: clear_flag_def)
    have "timer_init_tick (timers k i) < RT_TICK_HALF"
      using ip(3) by (simp add: word_less_nat_alt half)
    then have "rt_timer_start i ?k2 = Some (RT_EOK, restarted i ?k2)"
      using rt_timer_start_restarted [of i ?k2] ip(1) ty2 s1 by simp
    then have k': "k' = restarted i ?k2" using f k1 True by (auto simp: fire_timer_def Let_def)
    have tm: "timers k' = (timers k)(i := (timers k i)\<lparr>timeout_tick := rt_tick k + timer_init_tick (timers k i)\<rparr>)"
      unfolding k' restarted_sel(1) using s1 tk2 by simp
    have ls: "rt_timer_list k' = timer_insert (expiry k') i ts"
      unfolding k' restarted_sel(2) [of i ?k2] using s1 d by (simp add: remove1_idem)
    have tck: "rt_tick k' = rt_tick k" using restarted_frame [of ?k2 i] tk2 by (simp add: timer_frame_def k')
    have ty: "rt_object_get_type r k' = rt_object_get_type r k" for r
      using timer_frame_type(1) [OF restarted_frame [of ?k2 i]] ty2 by (simp add: k')
    have pr: "timer_periodic j k' = timer_periodic j k" for j
      by (simp add: k' restarted_def Let_def f1)
    have oi: "offset base (expiry k' i) = offset base (rt_tick k) + unat (timer_init_tick (timers k i))"
      using offset_add [OF ip(3)] by (simp add: tm)
    have "timers_sorted base (expiry k') ts" using d by (intro st) (auto simp: tm)
    then have "timers_sorted base (expiry k') (timer_insert (expiry k') i ts)"
      using oi ip(3) by (intro timer_insert_sorted) simp_all
    moreover have "\<not> expired (rt_tick k) i k'"
    proof -
      have "0 < unat (timer_init_tick (timers k i))" using ip(2) by (simp add: unat_gt_0)
      then show ?thesis using tick_after(2) [of base "expiry k' i" "rt_tick k"] oi ip(3) tk
        by (simp add: expired_def)
    qed
    moreover have "expired (rt_tick k) j k' = expired (rt_tick k) j k" if "j \<in> set ts" for j
      using that d by (auto simp: expired_def tm)
    moreover have "distinct (timer_insert (expiry k') i ts)" using d by (simp add: distinct_timer_insert)
    moreover have "\<forall>j \<in> set (i # ts). timer_periodic j k' \<longrightarrow> rt_object_get_type (Obj_timer j) k' = RT_Object_Class_Timer \<and>
      0 < timer_init_tick (timers k' j) \<and> offset base (rt_tick k') + unat (timer_init_tick (timers k' j)) < 2 ^ 31 - 1"
      using per ip d by (auto simp: ty pr tck tm)
    ultimately show ?thesis using tk tck ls
      by (simp add: check_inv_def filter_timer_insert cong: filter_cong)
  qed
  then show "check_inv base k'" "rt_tick k' = rt_tick k"
    "filter (\<lambda>j. expired (rt_tick k') j k') (rt_timer_list k') = filter (\<lambda>j. expired (rt_tick k) j k) ts"
    by auto
qed

lemma rt_timer_check_loop_fold:
  assumes p: "timer_passive fire" and c: "check_inv base k"
    and e: "filter (\<lambda>j. expired (rt_tick k) j k) (rt_timer_list k) = ts"
  shows "rt_timer_check_loop fire (rt_tick k) k = fire_seq fire ts k \<and>
    (\<forall>k'. fire_seq fire ts k = Some k' \<longrightarrow> check_inv base k' \<and> rt_tick k' = rt_tick k \<and>
       (\<forall>j \<in> set (rt_timer_list k'). \<not> expired (rt_tick k) j k'))"
  using c e
proof (induction ts arbitrary: k)
  case Nil
  show ?case
  proof (cases "rt_timer_list k")
    case (Cons i us)
    with expired_head [OF Nil.prems(1) Cons] Nil.prems show ?thesis
      by (subst rt_timer_check_loop.simps) (auto simp: filter_empty_conv)
  qed (use Nil.prems in \<open>subst rt_timer_check_loop.simps, simp\<close>)
next
  case (Cons i ts)
  obtain us where l: "rt_timer_list k = i # us" and x: "expired (rt_tick k) i k"
  proof (cases "rt_timer_list k")
    case (Cons j us)
    with expired_head [OF Cons.prems(1) Cons] Cons.prems(2) that show ?thesis by auto
  qed (use Cons.prems in simp)
  have us: "filter (\<lambda>j. expired (rt_tick k) j k) us = ts" using Cons.prems(2) l x by simp
  have step: "rt_timer_check_loop fire (rt_tick k) k =
    do { k \<leftarrow> fire_timer fire i k; rt_timer_check_loop fire (rt_tick_get k) k }"
    by (subst rt_timer_check_loop.simps) (simp add: l x)
  show ?case
  proof (cases "fire_timer fire i k")
    case None
    then show ?thesis by (simp add: step)
  next
    case (Some k1)
    note inv = fire_timer_check_inv [OF p Cons.prems(1) l x Some]
    have "filter (\<lambda>j. expired (rt_tick k1) j k1) (rt_timer_list k1) = ts" using inv us by simp
    from Cons.IH [OF inv(1) this] show ?thesis using Some inv(2) by (simp add: step rt_tick_get_def)
  qed
qed

end
