(* ===== verification/KThread.thy ===== *)
theory KThread
  imports RtTimer
begin

text \<open>
  Threads: \<^verbatim>\<open>src/thread.c\<close>. The stack, the entry point and the port's \<open>rt_hw_stack_init\<close> are not
  part of the state; neither are the user's hooks. A call that blocks is split where
  \<open>rt_schedule\<close> gives the processor away: the part up to and with that call is the operation,
  the part after it, which runs when the thread has the processor again, is the operation with
  the suffix \<open>_resumed\<close>.
\<close>

subsection \<open>Suspend, resume, time out\<close>

definition rt_thread_suspend :: "tid \<Rightarrow> 'a kernel_scheme \<Rightarrow> (int \<times> 'a kernel_scheme) option" where
  "rt_thread_suspend t k = do {
     rt_assert (rt_object_get_type (Obj_thread t) k = RT_Object_Class_Thread);
     let st = state_of k t;
     if st \<noteq> RT_THREAD_READY \<and> st \<noteq> RT_THREAD_RUNNING then Some (- RT_ERROR, k)
     else do {
       rt_assert (st = RT_THREAD_RUNNING \<longrightarrow> rt_thread_self k = Some t);
       k \<leftarrow> rt_schedule_remove_thread t k;
       let k = upd_thr t (set_stat RT_THREAD_SUSPEND) k;
       (_, k) \<leftarrow> rt_timer_stop (Thread_timer t) k;
       Some (RT_EOK, k) } }"

definition rt_thread_resume :: "tid \<Rightarrow> 'a kernel_scheme \<Rightarrow> (int \<times> 'a kernel_scheme) option" where
  "rt_thread_resume t k = do {
     rt_assert (rt_object_get_type (Obj_thread t) k = RT_Object_Class_Thread);
     if state_of k t \<noteq> RT_THREAD_SUSPEND then Some (- RT_ERROR, k)
     else do {
       let k = unlink t k;
       (_, k) \<leftarrow> rt_timer_stop (Thread_timer t) k;
       k \<leftarrow> rt_schedule_insert_thread t k;
       Some (RT_EOK, k) } }"

definition set_error :: "int \<Rightarrow> rt_thread \<Rightarrow> rt_thread" where
  "set_error e t = t\<lparr>error := e\<rparr>"

definition rt_thread_timeout :: "tid \<Rightarrow> 'a kernel_scheme \<Rightarrow> 'a kernel_scheme option" where
  "rt_thread_timeout t k = do {
     rt_assert (state_of k t = RT_THREAD_SUSPEND);
     rt_assert (rt_object_get_type (Obj_thread t) k = RT_Object_Class_Thread);
     let k = upd_thr t (set_error (- RT_ETIMEOUT)) k;
     let k = unlink t k;
     k \<leftarrow> rt_schedule_insert_thread t k;
     rt_schedule k }"

subsection \<open>Life cycle\<close>

definition defunct :: "tid \<Rightarrow> 'a kernel_scheme \<Rightarrow> 'a kernel_scheme" where
  "defunct t k = k\<lparr>tlists := l_push Defunct t (tlists k)\<rparr>"

definition rt_thread_exit :: "'a kernel_scheme \<Rightarrow> 'a kernel_scheme option" where
  "rt_thread_exit k = do {
     t \<leftarrow> rt_thread_self k;
     k \<leftarrow> rt_schedule_remove_thread t k;
     let k = upd_thr t (\<lambda>c. c\<lparr>stat := RT_THREAD_CLOSE\<rparr>) k;
     (_, k) \<leftarrow> rt_timer_detach (Thread_timer t) k;
     let k = (if rt_object_is_systemobject (Obj_thread t) k \<and> \<not> has_cleanup (thr k t)
       then rt_object_detach (Obj_thread t) k else defunct t k);
     rt_schedule k }"

definition thread_init_fields ::
  "tid \<Rightarrow> string \<Rightarrow> nat \<Rightarrow> u32 \<Rightarrow> 'a kernel_scheme \<Rightarrow> 'a kernel_scheme option" where
  "thread_init_fields t name priority tick k = do {
     rt_assert (priority < RT_THREAD_PRIORITY_MAX);
     let k = upd_thr t (\<lambda>c. c\<lparr>init_priority := priority, current_priority := priority, number_mask := 0,
       init_tick := tick, remaining_tick := tick, error := RT_EOK, stat := RT_THREAD_INIT,
       has_cleanup := False\<rparr>) k;
     rt_timer_init (Thread_timer t) name (Rt_thread_timeout t) 0 0 k }"

definition rt_thread_init ::
  "tid \<Rightarrow> string \<Rightarrow> nat \<Rightarrow> u32 \<Rightarrow> 'a kernel_scheme \<Rightarrow> (int \<times> 'a kernel_scheme) option" where
  "rt_thread_init t name priority tick k = do {
     k \<leftarrow> rt_object_init (Obj_thread t) RT_Object_Class_Thread name k;
     k \<leftarrow> thread_init_fields t name priority tick k;
     Some (RT_EOK, k) }"

definition rt_thread_startup :: "tid \<Rightarrow> 'a kernel_scheme \<Rightarrow> (int \<times> 'a kernel_scheme) option" where
  "rt_thread_startup t k = do {
     rt_assert (state_of k t = RT_THREAD_INIT);
     rt_assert (rt_object_get_type (Obj_thread t) k = RT_Object_Class_Thread);
     let k = upd_thr t (\<lambda>c. c\<lparr>current_priority := init_priority c,
       number_mask := priority_mask (init_priority c), stat := RT_THREAD_SUSPEND\<rparr>) k;
     (_, k) \<leftarrow> rt_thread_resume t k;
     k \<leftarrow> (if rt_thread_self k \<noteq> None then rt_schedule k else Some k);
     Some (RT_EOK, k) }"

definition rt_thread_detach :: "tid \<Rightarrow> 'a kernel_scheme \<Rightarrow> (int \<times> 'a kernel_scheme) option" where
  "rt_thread_detach t k = do {
     rt_assert (rt_object_get_type (Obj_thread t) k = RT_Object_Class_Thread);
     rt_assert (rt_object_is_systemobject (Obj_thread t) k);
     if state_of k t = RT_THREAD_CLOSE then Some (RT_EOK, k)
     else do {
       k \<leftarrow> (if state_of k t \<noteq> RT_THREAD_INIT then rt_schedule_remove_thread t k else Some k);
       (_, k) \<leftarrow> rt_timer_detach (Thread_timer t) k;
       let k = upd_thr t (\<lambda>c. c\<lparr>stat := RT_THREAD_CLOSE\<rparr>) k;
       Some (RT_EOK, if rt_object_is_systemobject (Obj_thread t) k \<and> \<not> has_cleanup (thr k t)
         then rt_object_detach (Obj_thread t) k else defunct t k) } }"

text \<open>The two allocations are arguments: the thread object and whether the stack could be had.\<close>

definition rt_thread_create ::
  "string \<Rightarrow> nat \<Rightarrow> u32 \<Rightarrow> tid option \<Rightarrow> bool \<Rightarrow> 'a kernel_scheme \<Rightarrow> (tid option \<times> 'a kernel_scheme) option" where
  "rt_thread_create name priority tick malloc stack_ok k = do {
     (_, k) \<leftarrow> rt_object_allocate RT_Object_Class_Thread name (map_option Obj_thread malloc) k;
     case malloc of None \<Rightarrow> Some (None, k)
     | Some t \<Rightarrow>
         if \<not> stack_ok then do {
           k \<leftarrow> rt_object_delete (Obj_thread t) k;
           Some (None, k) }
         else do {
           k \<leftarrow> thread_init_fields t name priority tick k;
           Some (Some t, k) } }"

definition rt_thread_delete :: "tid \<Rightarrow> 'a kernel_scheme \<Rightarrow> (int \<times> 'a kernel_scheme) option" where
  "rt_thread_delete t k = do {
     rt_assert (rt_object_get_type (Obj_thread t) k = RT_Object_Class_Thread);
     rt_assert (\<not> rt_object_is_systemobject (Obj_thread t) k);
     if state_of k t = RT_THREAD_CLOSE then Some (RT_EOK, k)
     else do {
       k \<leftarrow> (if state_of k t \<noteq> RT_THREAD_INIT then rt_schedule_remove_thread t k else Some k);
       (_, k) \<leftarrow> rt_timer_detach (Thread_timer t) k;
       let k = upd_thr t (\<lambda>c. c\<lparr>stat := RT_THREAD_CLOSE\<rparr>) k;
       Some (RT_EOK, defunct t k) } }"

definition rt_thread_yield :: "'a kernel_scheme \<Rightarrow> (int \<times> 'a kernel_scheme) option" where
  "rt_thread_yield k = do { k \<leftarrow> rt_schedule k; Some (RT_EOK, k) }"

subsection \<open>Sleeping\<close>

text \<open>Suspend the thread \<open>t\<close> and arm its timer (lines 508--512, 567--571).\<close>

definition arm_timer :: "tid \<Rightarrow> tick \<Rightarrow> 'a kernel_scheme \<Rightarrow> 'a kernel_scheme option" where
  "arm_timer t tick k = do {
     (_, _, k) \<leftarrow> rt_timer_control (Thread_timer t) (TIMER_CTRL_SET_TIME tick) k;
     (_, k) \<leftarrow> rt_timer_start (Thread_timer t) k;
     Some k }"

definition rt_thread_sleep :: "tick \<Rightarrow> 'a kernel_scheme \<Rightarrow> 'a kernel_scheme option" where
  "rt_thread_sleep tick k = do {
     t \<leftarrow> rt_thread_self k;
     rt_assert (rt_object_get_type (Obj_thread t) k = RT_Object_Class_Thread);
     (_, k) \<leftarrow> rt_thread_suspend t k;
     k \<leftarrow> arm_timer t tick k;
     rt_schedule k }"

definition rt_thread_sleep_resumed :: "tid \<Rightarrow> 'a kernel_scheme \<Rightarrow> int \<times> 'a kernel_scheme" where
  "rt_thread_sleep_resumed t k =
     (RT_EOK, if error (thr k t) = - RT_ETIMEOUT then upd_thr t (set_error RT_EOK) k else k)"

definition rt_thread_delay :: "tick \<Rightarrow> 'a kernel_scheme \<Rightarrow> 'a kernel_scheme option" where
  "rt_thread_delay tick k = rt_thread_sleep tick k"

text \<open>
  \<open>rt_thread_delay_until\<close>: the first component says whether the thread sleeps; the second is
  what \<open>*tick\<close> holds meanwhile. When it does not sleep the function goes straight to its end.
\<close>

definition rt_thread_delay_until :: "tick \<Rightarrow> tick \<Rightarrow> 'a kernel_scheme \<Rightarrow> (bool \<times> tick \<times> 'a kernel_scheme) option" where
  "rt_thread_delay_until tick inc_tick k = do {
     t \<leftarrow> rt_thread_self k;
     rt_assert (rt_object_get_type (Obj_thread t) k = RT_Object_Class_Thread);
     if rt_tick_get k - tick < inc_tick then do {
       let tick = rt_tick_get k - tick + inc_tick;
       (_, k) \<leftarrow> rt_thread_suspend t k;
       k \<leftarrow> arm_timer t tick k;
       k \<leftarrow> rt_schedule k;
       Some (True, tick, k) }
     else Some (False, tick, k) }"

definition rt_thread_delay_until_resumed ::
  "bool \<Rightarrow> tid \<Rightarrow> 'a kernel_scheme \<Rightarrow> int \<times> tick \<times> 'a kernel_scheme" where
  "rt_thread_delay_until_resumed slept t k =
     (let k = (if slept \<and> error (thr k t) = - RT_ETIMEOUT then upd_thr t (set_error RT_EOK) k else k) in
      (RT_EOK, rt_tick_get k, k))"

definition RT_TICK_PER_SECOND :: int where "RT_TICK_PER_SECOND = 1000"

definition rt_tick_from_millisecond :: "int \<Rightarrow> tick" where
  "rt_tick_from_millisecond ms =
     (if ms < 0 then word_of_int (- 1)
      else word_of_int (RT_TICK_PER_SECOND * (ms div 1000)) +
        word_of_int ((RT_TICK_PER_SECOND * (ms mod 1000) + 999) div 1000))"

definition rt_thread_mdelay :: "int \<Rightarrow> 'a kernel_scheme \<Rightarrow> 'a kernel_scheme option" where
  "rt_thread_mdelay ms k = rt_thread_sleep (rt_tick_from_millisecond ms) k"

subsection \<open>Control and lookup\<close>

datatype thread_cmd = THREAD_CTRL_STARTUP | THREAD_CTRL_CLOSE | THREAD_CTRL_CHANGE_PRIORITY nat | THREAD_CTRL_OTHER

text \<open>A new priority outside the table would index past it (or shift by too much): \<open>None\<close>.\<close>

definition set_priority :: "nat \<Rightarrow> rt_thread \<Rightarrow> rt_thread" where
  "set_priority p t = t\<lparr>current_priority := p, number_mask := priority_mask p\<rparr>"

definition rt_thread_control :: "tid \<Rightarrow> thread_cmd \<Rightarrow> 'a kernel_scheme \<Rightarrow> (int \<times> 'a kernel_scheme) option" where
  "rt_thread_control t cmd k = do {
     rt_assert (rt_object_get_type (Obj_thread t) k = RT_Object_Class_Thread);
     case cmd of
       THREAD_CTRL_CHANGE_PRIORITY p \<Rightarrow> do {
         rt_assert (p < RT_THREAD_PRIORITY_MAX);
         k \<leftarrow> (if state_of k t = RT_THREAD_READY then do {
             k \<leftarrow> rt_schedule_remove_thread t k;
             rt_schedule_insert_thread t (upd_thr t (set_priority p) k) }
           else Some (upd_thr t (set_priority p) k));
         Some (RT_EOK, k) }
     | THREAD_CTRL_STARTUP \<Rightarrow> rt_thread_startup t k
     | THREAD_CTRL_CLOSE \<Rightarrow> rt_thread_delete t k
     | THREAD_CTRL_OTHER \<Rightarrow> Some (RT_EOK, k) }"

definition rt_thread_find :: "string \<Rightarrow> 'a kernel_scheme \<Rightarrow> (obj_ref option \<times> 'a kernel_scheme) option" where
  "rt_thread_find name k = do {
     let k = (if rt_thread_self k \<noteq> None then rt_enter_critical k else k);
     information \<leftarrow> rt_object_get_information RT_Object_Class_Thread k;
     let r = find_by_name (objs k) name information;
     k \<leftarrow> (if rt_thread_self k \<noteq> None then rt_exit_critical k else Some k);
     Some (r, k) }"

subsection \<open>Changes of one thread\<close>

lemma object_upd_thr [simp]:
  "rt_object_get_type r (upd_thr t f k) = rt_object_get_type r k"
  "rt_object_is_systemobject r (upd_thr t f k) = rt_object_is_systemobject r k"
  "timer_active i (upd_thr t f k) = timer_active i k"
  by (simp_all add: object_defs)

lemma object_unlink [simp]:
  "rt_object_get_type r (unlink t k) = rt_object_get_type r k"
  "rt_object_is_systemobject r (unlink t k) = rt_object_is_systemobject r k"
  "timer_active i (unlink t k) = timer_active i k"
  by (simp_all add: object_defs)

text \<open>Fields other than the state and the priority do not matter to the invariant.\<close>

lemma upd_thr_kinv:
  assumes k: "kinv k" and f: "th_stat (f (thr k t)) = state_of k t"
    "state_of k t = RT_THREAD_READY \<Longrightarrow> current_priority (f (thr k t)) = prio_of k t"
    "live (state_of k t) \<Longrightarrow> current_priority (f (thr k t)) < RT_THREAD_PRIORITY_MAX \<and>
       number_mask (f (thr k t)) = priority_mask (current_priority (f (thr k t)))"
  shows "kinv (upd_thr t f k)"
proof -
  have st: "state_of (upd_thr t f k) x = state_of k x" for x using f by simp
  have pr: "prio_of (upd_thr t f k) x = (if x = t then current_priority (f (thr k t)) else prio_of k x)" for x
    by simp
  show ?thesis
  proof (rule kinvI)
    show "x \<in> set (tlists (upd_thr t f k) (ReadyQ p)) \<longleftrightarrow>
      state_of (upd_thr t f k) x = RT_THREAD_READY \<and> prio_of (upd_thr t f k) x = p" for x p
      unfolding st pr using f(2) kinv_ready [OF k] by auto
    show "case l of ReadyQ p \<Rightarrow> True | Defunct \<Rightarrow> state_of (upd_thr t f k) x = RT_THREAD_CLOSE
      | _ \<Rightarrow> state_of (upd_thr t f k) x = RT_THREAD_SUSPEND" if "x \<in> set (tlists (upd_thr t f k) l)" for l x
      using that kinv_linked [OF k, of x l] unfolding st by (auto split: list_id.splits)
    show "timer_ok (upd_thr t f k)"
      using kinv_timers_distinct [OF k] kinv_timer_active [OF k] kinv_timer_suspended [OF k]
      unfolding timer_ok_def st by simp
    show "thread_object_ok x (upd_thr t f k)" if "live (state_of (upd_thr t f k) x)" for x
      using that kinv_live(6) [OF k, of x] unfolding st by simp
    show "prio_of (upd_thr t f k) x < RT_THREAD_PRIORITY_MAX \<and>
      number_mask (thr (upd_thr t f k) x) = priority_mask (prio_of (upd_thr t f k) x)"
      if "live (state_of (upd_thr t f k) x)" for x
      using that kinv_live(1,2) [OF k, of x] f(3) unfolding st pr by (cases "x = t") auto
  qed (use kinv_lists [OF k] kinv_group [OF k] kinv_running [OF k] kinv_current [OF k]
      kinv_registered [OF k] kinv_timer_registered [OF k] in \<open>unfold st, auto\<close>)
qed

lemma upd_thr_kinv':
  assumes "kinv k" "th_stat (f (thr k t)) = state_of k t"
    "current_priority (f (thr k t)) = prio_of k t" "number_mask (f (thr k t)) = number_mask (thr k t)"
  shows "kinv (upd_thr t f k)"
  using assms kinv_live [OF assms(1)] by (intro upd_thr_kinv) auto

lemma set_error_sel [simp]:
  "th_stat (set_error e t) = th_stat t" "current_priority (set_error e t) = current_priority t"
  "number_mask (set_error e t) = number_mask t" "error (set_error e t) = e" "stat (set_error e t) = stat t"
  by (simp_all add: set_error_def th_stat_def)

lemma set_error_kinv [simp]: "kinv k \<Longrightarrow> kinv (upd_thr t (set_error e) k)"
  by (intro upd_thr_kinv') simp_all

text \<open>A thread that is not ready can be unlinked.\<close>

lemma unlink_kinv:
  assumes k: "kinv k" and t: "state_of k t \<noteq> RT_THREAD_READY"
  shows "kinv (unlink t k)"
proof (rule kinvI)
  have n: "t \<notin> set (tlists k (ReadyQ p))" for p using kinv_ready [OF k] t by simp
  have i: "x \<in> set (tlists (unlink t k) l) \<longleftrightarrow> x \<in> set (tlists k l) \<and> x \<noteq> t" for x l
    using in_unlink [OF kinv_lists [OF k]] by simp
  show "lists_ok (tlists (unlink t k))" using lists_ok_unlink [OF kinv_lists [OF k]] by simp
  show "x \<in> set (tlists (unlink t k) (ReadyQ p)) \<longleftrightarrow> state_of (unlink t k) x = RT_THREAD_READY \<and> prio_of (unlink t k) x = p" for x p
    unfolding i using kinv_ready [OF k] t by auto
  show "case l of ReadyQ p \<Rightarrow> True | Defunct \<Rightarrow> state_of (unlink t k) x = RT_THREAD_CLOSE
    | _ \<Rightarrow> state_of (unlink t k) x = RT_THREAD_SUSPEND" if "x \<in> set (tlists (unlink t k) l)" for l x
    using that kinv_linked [OF k, of x l] unfolding i by (auto split: list_id.splits)
  show "bit (rt_thread_ready_priority_group (unlink t k)) p \<longleftrightarrow> tlists (unlink t k) (ReadyQ p) \<noteq> []" for p
    using kinv_group [OF k] unlink_notin [of t "tlists k" "ReadyQ p"] n by simp
  show "timer_ok (unlink t k)"
    using kinv_timers_distinct [OF k] kinv_timer_active [OF k] kinv_timer_suspended [OF k]
    unfolding timer_ok_def by simp
  show "Obj_thread x \<in> set (objects (unlink t k) RT_Object_Class_Thread)"
    if "x \<in> set (tlists (unlink t k) l)" for x l
    using that kinv_registered [OF k] unfolding i by auto
next
  have "thread_object_ok x (unlink t k) = thread_object_ok x k" for x
    by (rule thread_object_ok_cong) simp_all
  then show "thread_object_ok x (unlink t k)" if "live (state_of (unlink t k) x)" for x
    using that kinv_live(6) [OF k, of x] by simp
qed (use kinv_live [OF k] kinv_running [OF k] kinv_current [OF k] kinv_timer_registered [OF k] in auto)

text \<open>Leaving the ready state or the processor: the thread in no list, changed by \<open>f\<close>.\<close>

definition withdrawn :: "(rt_thread \<Rightarrow> rt_thread) \<Rightarrow> tid \<Rightarrow> 'a kernel_scheme \<Rightarrow> 'a kernel_scheme" where
  "withdrawn f t k =
     (let L = l_unlink t (tlists k) in
      k\<lparr>thr := (thr k)(t := f (thr k t)), tlists := L,
        rt_thread_ready_priority_group :=
          (if L (ReadyQ (prio_of k t)) = [] then rt_thread_ready_priority_group k AND NOT (priority_mask (prio_of k t))
           else rt_thread_ready_priority_group k)\<rparr>)"

lemma withdrawn_remove:
  assumes "kinv k" "live (state_of k t)"
  shows "\<exists>k1. rt_schedule_remove_thread t k = Some k1 \<and> upd_thr t f k1 = withdrawn f t k"
  using kinv_live [OF assms]
  by (simp add: rt_schedule_remove_thread_def withdrawn_def Let_def upd_thr_def unlink_def)

lemma withdrawn_sel [simp]:
  "thr (withdrawn f t k) = (thr k)(t := f (thr k t))"
  "tlists (withdrawn f t k) = l_unlink t (tlists k)"
  "rt_scheduler_lock_nest (withdrawn f t k) = rt_scheduler_lock_nest k"
  "rt_current_thread (withdrawn f t k) = rt_current_thread k"
  "rt_current_priority (withdrawn f t k) = rt_current_priority k"
  "rt_interrupt_nest (withdrawn f t k) = rt_interrupt_nest k" "rt_tick (withdrawn f t k) = rt_tick k"
  "timers (withdrawn f t k) = timers k" "rt_timer_list (withdrawn f t k) = rt_timer_list k"
  "objs (withdrawn f t k) = objs k" "objects (withdrawn f t k) = objects k"
  "hw_trace (withdrawn f t k) = hw_trace k" "kernel.more (withdrawn f t k) = kernel.more k"
  "rt_object_get_type r (withdrawn f t k) = rt_object_get_type r k"
  "rt_object_is_systemobject r (withdrawn f t k) = rt_object_is_systemobject r k"
  "timer_active i (withdrawn f t k) = timer_active i k"
  by (simp_all add: withdrawn_def Let_def object_defs)

lemma withdrawn_kinv:
  assumes k: "kinv k" and t: "live (state_of k t)"
    and f: "th_stat (f (thr k t)) = RT_THREAD_SUSPEND \<or>
      th_stat (f (thr k t)) = RT_THREAD_CLOSE \<and> Thread_timer t \<notin> set (rt_timer_list k)"
    "current_priority (f (thr k t)) < RT_THREAD_PRIORITY_MAX"
    "number_mask (f (thr k t)) = priority_mask (current_priority (f (thr k t)))"
  shows "kinv (withdrawn f t k)"
proof (rule kinvI)
  let ?k = "withdrawn f t k"
  let ?s = "th_stat (f (thr k t))"
  have s: "?s = RT_THREAD_SUSPEND \<or> ?s = RT_THREAD_CLOSE" using f(1) by auto
  have i: "x \<in> set (tlists ?k l) \<longleftrightarrow> x \<in> set (tlists k l) \<and> x \<noteq> t" for x l
    using in_unlink [OF kinv_lists [OF k]] by simp
  have st: "state_of ?k x = (if x = t then ?s else state_of k x)"
    "prio_of ?k x = (if x = t then current_priority (f (thr k t)) else prio_of k x)" for x
    by simp_all
  show "lists_ok (tlists ?k)" using lists_ok_unlink [OF kinv_lists [OF k]] by simp
  show "x \<in> set (tlists ?k (ReadyQ p)) \<longleftrightarrow> state_of ?k x = RT_THREAD_READY \<and> prio_of ?k x = p" for x p
    unfolding i st using kinv_ready [OF k] s by auto
  show "case l of ReadyQ p \<Rightarrow> True | Defunct \<Rightarrow> state_of ?k x = RT_THREAD_CLOSE
    | _ \<Rightarrow> state_of ?k x = RT_THREAD_SUSPEND" if "x \<in> set (tlists ?k l)" for l x
    using that kinv_linked [OF k, of x l] unfolding i st by (auto split: list_id.splits)
  show "bit (rt_thread_ready_priority_group ?k) p \<longleftrightarrow> tlists ?k (ReadyQ p) \<noteq> []" for p
  proof (cases "p = prio_of k t")
    case True
    then show ?thesis using kinv_group [OF k, of p] kinv_live(1) [OF k t]
      by (auto simp: withdrawn_def Let_def bit_and_iff bit_not_iff RT_THREAD_PRIORITY_MAX_def l_unlink_def)
  next
    case False
    then have "t \<notin> set (tlists k (ReadyQ p))" using kinv_ready [OF k] by simp
    then have "l_unlink t (tlists k) (ReadyQ p) = tlists k (ReadyQ p)" by (rule unlink_notin)
    with False show ?thesis using kinv_group [OF k, of p]
      by (auto simp: withdrawn_def Let_def bit_and_iff bit_not_iff dest: bit_imp_le_length)
  qed
  show "timer_ok ?k"
    using kinv_timers_distinct [OF k] kinv_timer_active [OF k] kinv_timer_suspended [OF k] f(1)
    unfolding timer_ok_def st by auto
  show "Obj_thread x \<in> set (objects ?k RT_Object_Class_Thread)" if "x \<in> set (tlists ?k l)" for x l
    using that kinv_registered [OF k] unfolding i by auto
  show "prio_of ?k x < RT_THREAD_PRIORITY_MAX \<and> number_mask (thr ?k x) = priority_mask (prio_of ?k x)"
    if "live (state_of ?k x)" for x
    using that kinv_live(1,2) [OF k, of x] f(2,3) unfolding st by (cases "x = t") auto
  have "thread_object_ok x ?k = thread_object_ok x k" for x
    by (rule thread_object_ok_cong) simp_all
  then show "thread_object_ok x ?k" if "live (state_of ?k x)" for x
    using that kinv_live(6) [OF k, of x] kinv_live(6) [OF k t] unfolding st by (cases "x = t") auto
  show "rt_current_thread ?k = Some x" if "state_of ?k x = RT_THREAD_RUNNING" for x
    using that kinv_running [OF k, of x] s unfolding st by (auto split: if_splits)
  show "state_of ?k x \<noteq> RT_THREAD_READY" if "rt_current_thread ?k = Some x" for x
    using that kinv_current [OF k, of x] s unfolding st by auto
qed (use kinv_timer_registered [OF k] in simp)

subsection \<open>Suspending and resuming\<close>

text \<open>
  The frame of suspend and resume: nothing but the given thread, its timer and the lists change.
\<close>

definition thread_frame :: "tid \<Rightarrow> 'a kernel_scheme \<Rightarrow> 'a kernel_scheme \<Rightarrow> bool" where
  "thread_frame t k k' \<longleftrightarrow>
     (\<forall>u. u \<noteq> t \<longrightarrow> thr k' u = thr k u) \<and> (\<exists>s. thr k' t = (thr k t)\<lparr>stat := s\<rparr>) \<and>
     rt_scheduler_lock_nest k' = rt_scheduler_lock_nest k \<and> rt_current_thread k' = rt_current_thread k \<and>
     rt_interrupt_nest k' = rt_interrupt_nest k \<and> rt_tick k' = rt_tick k \<and> timers k' = timers k \<and>
     rt_timer_list k' = remove1 (Thread_timer t) (rt_timer_list k) \<and>
     (\<forall>r. otype (objs k' r) = otype (objs k r)) \<and> objects k' = objects k \<and>
     (\<forall>n. objs k' (Obj_ipc n) = objs k (Obj_ipc n)) \<and>
     hw_trace k' = hw_trace k \<and> kernel.more k' = kernel.more k"

lemma rt_thread_suspend_kinv:
  assumes k: "kinv k" and st: "state_of k t = RT_THREAD_READY \<or> state_of k t = RT_THREAD_RUNNING"
  shows "\<exists>k'. rt_thread_suspend t k = Some (RT_EOK, k') \<and> kinv k' \<and> floating t k' \<and> thread_frame t k k' \<and>
    tlists k' = l_unlink t (tlists k)"
proof -
  have lv: "live (state_of k t)" using st by auto
  let ?f = "set_stat RT_THREAD_SUSPEND"
  obtain k1 where k1: "rt_schedule_remove_thread t k = Some k1" "upd_thr t ?f k1 = withdrawn ?f t k"
    using withdrawn_remove [OF k lv] by blast
  have w: "kinv (withdrawn ?f t k)" by (rule withdrawn_kinv [OF k lv]) (simp_all add: kinv_live [OF k lv])
  have "rt_object_get_type (Obj_timer (Thread_timer t)) (withdrawn ?f t k) = RT_Object_Class_Timer"
    using kinv_live(4) [OF k lv] by simp
  from rt_timer_stop_kinv [OF w this] obtain r k' where s: "rt_timer_stop (Thread_timer t) (withdrawn ?f t k) = Some (r, k')"
    "kinv k'" "timer_frame (withdrawn ?f t k) k'" "timers k' = timers k"
    "rt_timer_list k' = remove1 (Thread_timer t) (rt_timer_list k)" "Thread_timer t \<notin> set (rt_timer_list k')"
    by auto
  have "rt_thread_self k = Some t" if "state_of k t = RT_THREAD_RUNNING"
    using kinv_running [OF k that] by (simp add: rt_thread_self_def)
  then have "rt_thread_suspend t k = Some (RT_EOK, k')"
    using st k1 s(1) kinv_live(3) [OF k lv] by (auto simp: rt_thread_suspend_def Let_def)
  moreover have "floating t k'"
    using s(3,6) unlinked_unlink [OF kinv_lists [OF k]] by (simp add: floating_def timer_frame_def)
  moreover have "\<exists>s. ?f (thr k t) = (thr k t)\<lparr>stat := s\<rparr>" by (rule set_stat_exists)
  then have "thread_frame t k k'" using s(3,4,5) by (simp add: thread_frame_def timer_frame_def)
  moreover have "tlists k' = l_unlink t (tlists k)" using s(3) by (simp add: timer_frame_def)
  ultimately show ?thesis using s(2) by blast
qed

lemma insert_frame:
  assumes k: "kinv k" and f: "floating t k" and s: "rt_schedule_insert_thread t k = Some k'"
  shows "tlists k' = (if rt_current_thread k = Some t then tlists k else l_append (ReadyQ (prio_of k t)) t (tlists k))"
    "thr k' = (thr k)(t := set_stat (if rt_current_thread k = Some t then RT_THREAD_RUNNING else RT_THREAD_READY) (thr k t))"
    "rt_scheduler_lock_nest k' = rt_scheduler_lock_nest k" "rt_current_thread k' = rt_current_thread k"
    "rt_interrupt_nest k' = rt_interrupt_nest k" "rt_tick k' = rt_tick k" "timers k' = timers k"
    "rt_timer_list k' = rt_timer_list k" "objs k' = objs k" "objects k' = objects k"
    "hw_trace k' = hw_trace k" "kernel.more k' = kernel.more k"
  using s rt_schedule_insert_thread_other [OF k f]
  by (cases "rt_current_thread k = Some t"; auto simp: rt_schedule_insert_thread_def)+

lemma rt_thread_resume_kinv:
  assumes k: "kinv k" and st: "state_of k t = RT_THREAD_SUSPEND"
  shows "\<exists>k'. rt_thread_resume t k = Some (RT_EOK, k') \<and> kinv k' \<and> thread_frame t k k' \<and>
    state_of k' t = (if rt_current_thread k = Some t then RT_THREAD_RUNNING else RT_THREAD_READY) \<and>
    tlists k' = (if rt_current_thread k = Some t then l_unlink t (tlists k)
      else l_append (ReadyQ (prio_of k t)) t (l_unlink t (tlists k)))"
proof -
  have lv: "live (state_of k t)" using st by simp
  have u: "kinv (unlink t k)" using unlink_kinv [OF k] st by simp
  have "rt_object_get_type (Obj_timer (Thread_timer t)) (unlink t k) = RT_Object_Class_Timer"
    using kinv_live(4) [OF k lv] by simp
  from rt_timer_stop_kinv [OF u this] obtain r k1 where s: "rt_timer_stop (Thread_timer t) (unlink t k) = Some (r, k1)"
    "kinv k1" "timer_frame (unlink t k) k1" "timers k1 = timers k"
    "rt_timer_list k1 = remove1 (Thread_timer t) (rt_timer_list k)" "Thread_timer t \<notin> set (rt_timer_list k1)"
    by auto
  have f: "floating t k1"
    using s(3,6) st unlinked_unlink [OF kinv_lists [OF k]] by (simp add: floating_def timer_frame_def)
  obtain k' where i: "rt_schedule_insert_thread t k1 = Some k'" "kinv k'"
    using rt_schedule_insert_thread_kinv [OF s(2) f] by blast
  note fr = insert_frame [OF s(2) f i(1)]
  have e: "thr k1 = thr k" "tlists k1 = l_unlink t (tlists k)" "rt_current_thread k1 = rt_current_thread k"
    using s(3) by (simp_all add: timer_frame_def)
  have "rt_thread_resume t k = Some (RT_EOK, k')"
    using st s(1) i(1) kinv_live(3) [OF k lv] by (simp add: rt_thread_resume_def)
  moreover have "\<exists>s. set_stat s' (thr k t) = (thr k t)\<lparr>stat := s\<rparr>" for s' by (rule set_stat_exists)
  then have "thread_frame t k k'" using s(3,4,5) unfolding thread_frame_def fr e by (simp add: timer_frame_def)
  ultimately show ?thesis using i(2) fr(1,2) e by (intro exI [of _ k']) simp
qed

subsection \<open>Timeouts, priorities, sleeping\<close>

lemma rt_thread_timeout_kinv:
  assumes k: "kinv k" and st: "state_of k t = RT_THREAD_SUSPEND" and tm: "Thread_timer t \<notin> set (rt_timer_list k)"
    and c: "rt_current_thread k = Some c"
  shows "\<exists>k'. rt_thread_timeout t k = Some k' \<and> kinv k' \<and> error (thr k' t) = - RT_ETIMEOUT \<and>
    runnable (state_of k' t) \<and> timers k' = timers k \<and>
    rt_timer_list k' = rt_timer_list k \<and> rt_tick k' = rt_tick k \<and> objs k' = objs k \<and>
    (\<forall>ob. tlists k' (SuspendQ ob) = remove1 t (tlists k (SuspendQ ob)) \<and>
          tlists k' (SenderQ ob) = remove1 t (tlists k (SenderQ ob))) \<and>
    (\<forall>u. u \<noteq> t \<longrightarrow> (runnable (state_of k' u) \<longleftrightarrow> runnable (state_of k u)) \<and> error (thr k' u) = error (thr k u))"
proof -
  let ?k = "unlink t (upd_thr t (set_error (- RT_ETIMEOUT)) k)"
  have u: "kinv ?k" using k st by (intro unlink_kinv) simp_all
  have f: "floating t ?k"
    using st tm unlinked_unlink [OF kinv_lists [OF k]] by (simp add: floating_def)
  obtain k1 where i: "rt_schedule_insert_thread t ?k = Some k1" "kinv k1"
    using rt_schedule_insert_thread_kinv [OF u f] by blast
  note fr = insert_frame [OF u f i(1)]
  have c1: "rt_current_thread k1 = Some c" using fr(4) c by simp
  obtain k' where s: "rt_schedule k1 = Some k'" "kinv k'" "sched_frame k1 k'"
    using rt_schedule_kinv [OF i(2) c1] by blast
  have "rt_thread_timeout t k = Some k'"
    using st kinv_live(3) [OF k, of t] i(1) s(1) by (simp add: rt_thread_timeout_def)
  moreover have "runnable (state_of k' t)"
  proof -
    have "runnable (state_of k1 t)" using fr(2) by simp
    then show ?thesis using s(3) by (simp add: sched_frame_def)
  qed
  moreover have "error (thr k' t) = - RT_ETIMEOUT"
  proof -
    obtain s' where "thr k' t = (thr k1 t)\<lparr>stat := s'\<rparr>" using s(3) unfolding sched_frame_def by blast
    then show ?thesis using fr(2) by simp
  qed
  moreover have "tlists k' (SuspendQ ob) = remove1 t (tlists k (SuspendQ ob))"
    "tlists k' (SenderQ ob) = remove1 t (tlists k (SenderQ ob))" for ob
    using s(3) fr(1) by (simp_all add: sched_frame_def l_append_def l_unlink_def)
  moreover have "(runnable (state_of k' u) \<longleftrightarrow> runnable (state_of k u)) \<and> error (thr k' u) = error (thr k u)"
    if "u \<noteq> t" for u
  proof -
    have "thr k1 u = thr k u" using fr(2) that by simp
    moreover obtain s' where "thr k' u = (thr k1 u)\<lparr>stat := s'\<rparr>" using s(3) unfolding sched_frame_def by blast
    moreover have "runnable (state_of k' u) \<longleftrightarrow> runnable (state_of k1 u)" using s(3) by (simp add: sched_frame_def)
    ultimately show ?thesis by simp
  qed
  moreover have "timers k' = timers k" "rt_timer_list k' = rt_timer_list k" "rt_tick k' = rt_tick k" "objs k' = objs k"
    using s(3) fr by (simp_all add: sched_frame_def)
  ultimately show ?thesis using s(2) by blast
qed

lemma rt_thread_control_priority_kinv:
  assumes k: "kinv k" and ty: "rt_object_get_type (Obj_thread t) k = RT_Object_Class_Thread"
    and p: "p < RT_THREAD_PRIORITY_MAX"
  shows "\<exists>k'. rt_thread_control t (THREAD_CTRL_CHANGE_PRIORITY p) k = Some (RT_EOK, k') \<and> kinv k' \<and>
    prio_of k' t = p \<and> state_of k' t = state_of k t \<and>
    (state_of k t = RT_THREAD_READY \<longrightarrow> tlists k' = l_append (ReadyQ p) t (l_unlink t (tlists k))) \<and>
    (state_of k t \<noteq> RT_THREAD_READY \<longrightarrow> k' = upd_thr t (set_priority p) k)"
proof (cases "state_of k t = RT_THREAD_READY")
  case False
  have "kinv (upd_thr t (set_priority p) k)"
    using False p by (intro upd_thr_kinv [OF k]) (simp_all add: set_priority_def th_stat_def)
  with False ty p show ?thesis by (simp add: rt_thread_control_def set_priority_def th_stat_def)
next
  case True
  then have lv: "live (state_of k t)" by simp
  have nc: "rt_current_thread k \<noteq> Some t" using kinv_current [OF k] True by blast
  let ?f = "\<lambda>x. set_stat RT_THREAD_SUSPEND (set_priority p x)"
  have w: "kinv (withdrawn ?f t k)"
    using p by (intro withdrawn_kinv [OF k lv]) (simp_all add: set_priority_def)
  have fl: "floating t (withdrawn ?f t k)"
    using unlinked_unlink [OF kinv_lists [OF k]] kinv_timer_suspended [OF k, of t] True
    by (auto simp: floating_def)
  obtain k1 where k1: "rt_schedule_remove_thread t k = Some k1" "upd_thr t ?f k1 = withdrawn ?f t k"
    using withdrawn_remove [OF k lv] by blast
  obtain k' where i: "rt_schedule_insert_thread t (withdrawn ?f t k) = Some k'" "kinv k'"
    using rt_schedule_insert_thread_kinv [OF w fl] by blast
  note fr = insert_frame [OF w fl i(1)]
  have ss: "set_stat RT_THREAD_READY (set_stat RT_THREAD_SUSPEND x) = set_stat RT_THREAD_READY x" for x :: rt_thread
    by (cases x) (auto simp: set_stat_def intro!: bit_eqI simp: bit_simps RT_THREAD_SUSPEND_def RT_THREAD_STAT_MASK_def)
  have "rt_schedule_insert_thread t (upd_thr t (set_priority p) k1) = rt_schedule_insert_thread t (upd_thr t ?f k1)"
  proof -
    have "rt_current_thread k1 \<noteq> Some t"
      using nc arg_cong [OF k1(2), of rt_current_thread] by simp
    then show ?thesis
      by (simp add: rt_schedule_insert_thread_def Let_def upd_thr_upd_thr ss)
  qed
  then have "rt_thread_control t (THREAD_CTRL_CHANGE_PRIORITY p) k = Some (RT_EOK, k')"
    using True ty p k1 i(1) by (simp add: rt_thread_control_def)
  moreover have "prio_of k' t = p" "state_of k' t = RT_THREAD_READY"
    using nc by (simp_all add: fr(2) set_priority_def)
  moreover have "tlists k' = l_append (ReadyQ p) t (l_unlink t (tlists k))"
    using nc by (simp add: fr(1) set_priority_def)
  ultimately show ?thesis using True i(2) by simp
qed

text \<open>A thread that is neither live nor linked nor timed can change its objects freely.\<close>

definition unused :: "tid \<Rightarrow> 'a kernel_scheme \<Rightarrow> bool" where
  "unused t k \<longleftrightarrow> \<not> live (state_of k t) \<and> unlinked t (tlists k) \<and> Thread_timer t \<notin> set (rt_timer_list k)"

text \<open>
  A change of the objects and timers of unused threads, and of the containers as far as no linked
  thread, live thread or running timer is concerned.
\<close>

lemma objects_kinv:
  assumes k: "kinv k"
    and same: "thr k' = thr k" "tlists k' = tlists k" "rt_current_thread k' = rt_current_thread k"
    "rt_thread_ready_priority_group k' = rt_thread_ready_priority_group k" "rt_timer_list k' = rt_timer_list k"
    and act: "\<And>i. i \<in> set (rt_timer_list k) \<Longrightarrow> timer_active i k' \<and> Obj_timer i \<in> set (objects k' RT_Object_Class_Timer)"
    and lnk: "\<And>l t. t \<in> set (tlists k l) \<Longrightarrow> Obj_thread t \<in> set (objects k' RT_Object_Class_Thread)"
    and lve: "\<And>t. live (state_of k t) \<Longrightarrow> thread_object_ok t k'"
  shows "kinv k'"
proof (rule kinvI)
  show "case l of ReadyQ p \<Rightarrow> True | Defunct \<Rightarrow> state_of k' t = RT_THREAD_CLOSE
    | _ \<Rightarrow> state_of k' t = RT_THREAD_SUSPEND" if "t \<in> set (tlists k' l)" for l t
    using that kinv_linked [OF k, of t l] same by (auto split: list_id.splits)
  show "timer_ok k'"
    using act kinv_timers_distinct [OF k] kinv_timer_suspended [OF k] same by (auto simp: timer_ok_def)
qed (use kinv_lists [OF k] kinv_ready [OF k] kinv_group [OF k] kinv_live [OF k] kinv_running [OF k]
    kinv_current [OF k] same act lnk lve in auto)

lemma object_detach_sel [simp]:
  "thr (rt_object_detach r k) = thr k" "tlists (rt_object_detach r k) = tlists k"
  "rt_current_thread (rt_object_detach r k) = rt_current_thread k"
  "rt_thread_ready_priority_group (rt_object_detach r k) = rt_thread_ready_priority_group k"
  "rt_timer_list (rt_object_detach r k) = rt_timer_list k" "timers (rt_object_detach r k) = timers k"
  "rt_scheduler_lock_nest (rt_object_detach r k) = rt_scheduler_lock_nest k"
  "rt_interrupt_nest (rt_object_detach r k) = rt_interrupt_nest k"
  "rt_tick (rt_object_detach r k) = rt_tick k" "kernel.more (rt_object_detach r k) = kernel.more k"
  "objects (rt_object_detach r k) = (\<lambda>ty. remove1 r (objects k ty))"
  "objs (rt_object_detach r k) = (objs k)(r := (objs k r)\<lparr>otype := 0\<rparr>)"
  by (simp_all add: rt_object_detach_def container_remove_def)

lemma detach_thread_objects_kinv:
  assumes k: "kinv k" and u: "unused t k" and r: "r = Obj_thread t \<or> r = Obj_timer (Thread_timer t)"
  shows "kinv (rt_object_detach r k)"
proof (rule objects_kinv [OF k])
  show "timer_active i (rt_object_detach r k) \<and> Obj_timer i \<in> set (objects (rt_object_detach r k) RT_Object_Class_Timer)"
    if "i \<in> set (rt_timer_list k)" for i
  proof -
    have n: "Obj_timer i \<noteq> r" using that r u by (auto simp: unused_def)
    then have "objs (rt_object_detach r k) (Obj_timer i) = objs k (Obj_timer i)" by simp
    then show ?thesis using that n kinv_timer_active [OF k that] kinv_timer_registered [OF k that]
      by (auto simp: timer_active_def)
  qed
  show "Obj_thread x \<in> set (objects (rt_object_detach r k) RT_Object_Class_Thread)" if "x \<in> set (tlists k l)" for l x
  proof -
    have "Obj_thread x \<noteq> r" using that r u by (auto simp: unused_def unlinked_def)
    then show ?thesis using kinv_registered [OF k that] by auto
  qed
  show "thread_object_ok x (rt_object_detach r k)" if "live (state_of k x)" for x
  proof -
    have "Obj_thread x \<noteq> r" "Obj_timer (Thread_timer x) \<noteq> r" using that r u by (auto simp: unused_def)
    then show ?thesis using kinv_live(6) [OF k that]
      by (auto simp: thread_object_ok_def rt_object_get_type_def rt_object_is_systemobject_def)
  qed
qed simp_all

lemma defunct_kinv:
  assumes k: "kinv k" and c: "state_of k t = RT_THREAD_CLOSE" and u: "unlinked t (tlists k)"
    and r: "Obj_thread t \<in> set (objects k RT_Object_Class_Thread)"
  shows "kinv (defunct t k)"
proof (rule kinvI)
  have i: "x \<in> set (tlists (defunct t k) l) \<longleftrightarrow> x \<in> set (tlists k l) \<or> (x = t \<and> l = Defunct)" for x l
    by (simp add: defunct_def in_push)
  have same: "thr (defunct t k) = thr k" "rt_current_thread (defunct t k) = rt_current_thread k"
    "rt_thread_ready_priority_group (defunct t k) = rt_thread_ready_priority_group k"
    "rt_timer_list (defunct t k) = rt_timer_list k" "objects (defunct t k) = objects k"
    "objs (defunct t k) = objs k" "timers (defunct t k) = timers k" by (simp_all add: defunct_def)
  show "lists_ok (tlists (defunct t k))" using lists_ok_push [OF kinv_lists [OF k] u] by (simp add: defunct_def)
  show "x \<in> set (tlists (defunct t k) (ReadyQ p)) \<longleftrightarrow> state_of (defunct t k) x = RT_THREAD_READY \<and> prio_of (defunct t k) x = p" for x p
    unfolding i same using kinv_ready [OF k] by auto
  show "case l of ReadyQ p \<Rightarrow> True | Defunct \<Rightarrow> state_of (defunct t k) x = RT_THREAD_CLOSE
    | _ \<Rightarrow> state_of (defunct t k) x = RT_THREAD_SUSPEND" if "x \<in> set (tlists (defunct t k) l)" for l x
    using that kinv_linked [OF k, of x l] c unfolding i same by (auto split: list_id.splits)
  show "timer_ok (defunct t k)"
    using kinv_timers_distinct [OF k] kinv_timer_suspended [OF k] kinv_timer_active [OF k]
    by (simp add: timer_ok_def same object_cong(3) [OF same(6)])
  have "thread_object_ok x (defunct t k) = thread_object_ok x k" for x
    by (rule thread_object_ok_cong) (simp_all add: same)
  then show "thread_object_ok x (defunct t k)" if "live (state_of (defunct t k) x)" for x
    using that kinv_live(6) [OF k, of x] by (simp add: same)
  show "bit (rt_thread_ready_priority_group (defunct t k)) p \<longleftrightarrow> tlists (defunct t k) (ReadyQ p) \<noteq> []" for p
    using kinv_group [OF k] by (simp add: same) (simp add: defunct_def l_push_def)
  show "Obj_thread x \<in> set (objects (defunct t k) RT_Object_Class_Thread)" if "x \<in> set (tlists (defunct t k) l)" for l x
    using that kinv_registered [OF k] r unfolding i same by auto
qed (use kinv_live [OF k] kinv_running [OF k] kinv_current [OF k] kinv_timer_registered [OF k] in
    \<open>simp_all add: defunct_def\<close>)

lemma upd_unused_kinv:
  assumes k: "kinv k" and u: "unused t k"
    and f: "th_stat (f (thr k t)) = RT_THREAD_INIT \<or> th_stat (f (thr k t)) = RT_THREAD_CLOSE \<or>
      th_stat (f (thr k t)) = RT_THREAD_SUSPEND \<and> thread_object_ok t k \<and>
      current_priority (f (thr k t)) < RT_THREAD_PRIORITY_MAX \<and>
      number_mask (f (thr k t)) = priority_mask (current_priority (f (thr k t)))"
  shows "kinv (upd_thr t f k)"
proof (rule kinvI)
  let ?k = "upd_thr t f k"
  let ?s = "th_stat (f (thr k t))"
  have st: "state_of ?k x = (if x = t then ?s else state_of k x)"
    "prio_of ?k x = (if x = t then current_priority (f (thr k t)) else prio_of k x)" for x by simp_all
  have n: "t \<notin> set (tlists k l)" for l using u by (simp add: unused_def unlinked_def)
  have s: "\<not> runnable ?s" using f by auto
  show "x \<in> set (tlists ?k (ReadyQ p)) \<longleftrightarrow> state_of ?k x = RT_THREAD_READY \<and> prio_of ?k x = p" for x p
    unfolding st using n [of "ReadyQ p"] kinv_ready [OF k] s by (auto simp: runnable_def)
  show "case l of ReadyQ p \<Rightarrow> True | Defunct \<Rightarrow> state_of ?k x = RT_THREAD_CLOSE
    | _ \<Rightarrow> state_of ?k x = RT_THREAD_SUSPEND" if "x \<in> set (tlists ?k l)" for l x
    using that n [of l] kinv_linked [OF k, of x l] unfolding st by (auto split: list_id.splits)
  show "timer_ok ?k"
    using kinv_timers_distinct [OF k] kinv_timer_active [OF k] kinv_timer_suspended [OF k] u
    unfolding timer_ok_def st by (auto simp: unused_def)
  show "prio_of ?k x < RT_THREAD_PRIORITY_MAX \<and> number_mask (thr ?k x) = priority_mask (prio_of ?k x)"
    if "live (state_of ?k x)" for x
    using that kinv_live(1,2) [OF k, of x] f unfolding st by (cases "x = t") auto
  show "thread_object_ok x ?k" if "live (state_of ?k x)" for x
    using that kinv_live(6) [OF k, of x] f unfolding st by (cases "x = t") auto
  show "rt_current_thread ?k = Some x" if "state_of ?k x = RT_THREAD_RUNNING" for x
    using that kinv_running [OF k, of x] s unfolding st by (auto split: if_splits)
  show "state_of ?k x \<noteq> RT_THREAD_READY" if "rt_current_thread ?k = Some x" for x
    using that kinv_current [OF k, of x] s unfolding st by (auto simp: runnable_def)
qed (use kinv_lists [OF k] kinv_group [OF k] kinv_registered [OF k] kinv_timer_registered [OF k] in simp_all)

lemma timer_remove_kinv: "kinv k \<Longrightarrow> kinv (timer_remove i k)"
  by (rule timer_frame_kinv [OF _ timer_frame_steps(1)])
    (auto simp: kinv_timers_distinct kinv_timer_active kinv_timer_registered kinv_timer_suspended
      intro: distinct_remove1 dest: notin_set_remove1)

abbreviation close_stat :: "rt_thread \<Rightarrow> rt_thread" where
  "close_stat c \<equiv> c\<lparr>stat := RT_THREAD_CLOSE\<rparr>"

lemma th_stat_close [simp]: "th_stat (close_stat c) = RT_THREAD_CLOSE"
  by (simp add: th_stat_def)

text \<open>The thread closed and its timer object detached; what is left is its own object.\<close>

definition closed :: "tid \<Rightarrow> 'a kernel_scheme \<Rightarrow> 'a kernel_scheme" where
  "closed t k = rt_object_detach (Obj_timer (Thread_timer t))
     (withdrawn close_stat t (timer_remove (Thread_timer t) k))"

lemma closed_sel [simp]:
  "thr (closed t k) = (thr k)(t := close_stat (thr k t))" "tlists (closed t k) = l_unlink t (tlists k)"
  "rt_current_thread (closed t k) = rt_current_thread k"
  "rt_timer_list (closed t k) = remove1 (Thread_timer t) (rt_timer_list k)"
  "objs (closed t k) (Obj_thread n) = objs k (Obj_thread n)"
  by (simp_all add: closed_def) (simp_all add: timer_remove_def)

lemma closed_kinv:
  assumes k: "kinv k" and l: "live (state_of k t)"
  shows "kinv (closed t k)" "unused t (closed t k)" "Obj_thread t \<in> set (objects (closed t k) RT_Object_Class_Thread)"
proof -
  let ?T = "Thread_timer t"
  have k1: "kinv (timer_remove ?T k)" by (rule timer_remove_kinv [OF k])
  have l1: "live (state_of (timer_remove ?T k) t)" using l by (simp add: timer_remove_def)
  have nt: "?T \<notin> set (rt_timer_list (timer_remove ?T k))" using kinv_timers_distinct [OF k] by simp
  have w: "kinv (withdrawn close_stat t (timer_remove ?T k))"
    using nt kinv_live [OF k1 l1] by (intro withdrawn_kinv [OF k1 l1]) simp_all
  have u: "unused t (withdrawn close_stat t (timer_remove ?T k))"
    using nt unlinked_unlink [OF kinv_lists [OF k1]] by (simp add: unused_def)
  show "kinv (closed t k)" unfolding closed_def by (rule detach_thread_objects_kinv [OF w u]) simp
  show "unused t (closed t k)" using u by (simp add: unused_def closed_def)
  show "Obj_thread t \<in> set (objects (closed t k) RT_Object_Class_Thread)"
    using kinv_live(5) [OF k1 l1] by (simp add: closed_def)
qed

text \<open>What is done with the thread object in the end.\<close>

lemma finish_close_kinv:
  assumes "kinv k" "unused t k" "state_of k t = RT_THREAD_CLOSE"
    "Obj_thread t \<in> set (objects k RT_Object_Class_Thread)"
  shows "kinv (if b then rt_object_detach (Obj_thread t) k else defunct t k)"
  using detach_thread_objects_kinv [OF assms(1,2), of "Obj_thread t"] defunct_kinv [OF assms(1,3) _ assms(4)] assms(2)
  by (simp add: unused_def)

lemma remove_then_close:
  assumes k: "kinv k" and l: "live (state_of k t)" and s: "rt_object_is_systemobject (Obj_timer (Thread_timer t)) k"
  obtains k1 k2 where "rt_schedule_remove_thread t k = Some k1"
    "rt_timer_detach (Thread_timer t) k1 = Some (RT_EOK, k2)" "upd_thr t close_stat k2 = closed t k"
    "rt_timer_detach (Thread_timer t) (upd_thr t close_stat k1) = Some (RT_EOK, closed t k)"
proof -
  obtain k1 where k1: "rt_schedule_remove_thread t k = Some k1" using withdrawn_remove [OF k l] by blast
  have e: "rt_object_get_type r k1 = rt_object_get_type r k"
    "rt_object_is_systemobject r k1 = rt_object_is_systemobject r k" for r
    using k1 by (auto simp: rt_schedule_remove_thread_def Let_def object_defs split: if_splits)
  have "upd_thr t close_stat (rt_object_detach (Obj_timer (Thread_timer t)) (timer_remove (Thread_timer t) k1)) = closed t k"
    "rt_object_detach (Obj_timer (Thread_timer t)) (timer_remove (Thread_timer t) (upd_thr t close_stat k1)) = closed t k"
    using k1 kinv_live(1,2) [OF k l]
    by (auto simp: rt_schedule_remove_thread_def Let_def closed_def withdrawn_def upd_thr_def unlink_def
        rt_object_detach_def container_remove_def upd_obj_def timer_remove_def)
  with k1 kinv_live(4) [OF k l] s e show ?thesis by (intro that [OF k1]) (simp_all add: rt_timer_detach_def)
qed

lemma rt_thread_exit_kinv:
  assumes k: "kinv k" and c: "rt_current_thread k = Some t" "live (state_of k t)"
  shows "\<exists>k'. rt_thread_exit k = Some k' \<and> kinv k'"
proof -
  have s: "rt_object_is_systemobject (Obj_timer (Thread_timer t)) k"
    using kinv_live(6) [OF k c(2)] by (simp add: thread_object_ok_def)
  obtain k1 where k1: "rt_schedule_remove_thread t k = Some k1"
    "rt_timer_detach (Thread_timer t) (upd_thr t close_stat k1) = Some (RT_EOK, closed t k)"
    by (rule remove_then_close [OF k c(2) s])
  note cl = closed_kinv [OF k c(2)]
  define k2 where "k2 = (if rt_object_is_systemobject (Obj_thread t) (closed t k) \<and> \<not> has_cleanup (thr (closed t k) t)
    then rt_object_detach (Obj_thread t) (closed t k) else defunct t (closed t k))"
  have fk: "kinv k2" unfolding k2_def by (rule finish_close_kinv [OF cl(1,2) _ cl(3)]) simp
  have "rt_current_thread k2 = Some t" using c(1) by (simp add: k2_def defunct_def)
  then obtain k' where s: "rt_schedule k2 = Some k'" "kinv k'" using rt_schedule_kinv [OF fk] by blast
  have "rt_thread_exit k = rt_schedule k2"
    unfolding rt_thread_exit_def rt_thread_self_def c(1) k2_def using k1 by simp
  with s show ?thesis by simp
qed

text \<open>
  Deleting and detaching: a thread in any state. An initialised thread that was never started
  has to have its timer object, as \<open>_rt_thread_init\<close> left it.
\<close>

lemma delete_steps:
  assumes k: "kinv k" and o: "thread_object_ok t k" and n: "state_of k t \<noteq> RT_THREAD_CLOSE"
    and u: "state_of k t = RT_THREAD_INIT \<Longrightarrow> unused t k"
    and v: "live (state_of k t) \<or> state_of k t = RT_THREAD_INIT"
  obtains k1 k2 where
    "(if state_of k t \<noteq> RT_THREAD_INIT then rt_schedule_remove_thread t k else Some k) = Some k1"
    "rt_timer_detach (Thread_timer t) k1 = Some (RT_EOK, k2)" "kinv (upd_thr t close_stat k2)"
    "unused t (upd_thr t close_stat k2)"
    "Obj_thread t \<in> set (objects (upd_thr t close_stat k2) RT_Object_Class_Thread)"
proof (cases "live (state_of k t)")
  case True
  have s: "rt_object_is_systemobject (Obj_timer (Thread_timer t)) k" using o by (simp add: thread_object_ok_def)
  obtain k1 k2 where "rt_schedule_remove_thread t k = Some k1"
    "rt_timer_detach (Thread_timer t) k1 = Some (RT_EOK, k2)" "upd_thr t close_stat k2 = closed t k"
    using remove_then_close [OF k True s] by metis
  moreover have "state_of k t \<noteq> RT_THREAD_INIT" using True by auto
  ultimately show ?thesis using closed_kinv [OF k True] by (intro that [of k1 k2]) simp_all
next
  case False
  with v have i: "state_of k t = RT_THREAD_INIT" by simp
  let ?T = "Thread_timer t"
  let ?k = "rt_object_detach (Obj_timer ?T) (timer_remove ?T k)"
  note ui = u [OF i]
  have d: "rt_timer_detach ?T k = Some (RT_EOK, ?k)"
    using o by (simp add: rt_timer_detach_def thread_object_ok_def)
  have k1: "kinv (timer_remove ?T k)" by (rule timer_remove_kinv [OF k])
  have u1: "unused t (timer_remove ?T k)"
    using ui kinv_timers_distinct [OF k] by (simp add: unused_def) (simp add: timer_remove_def)
  have k2: "kinv ?k" by (rule detach_thread_objects_kinv [OF k1 u1]) simp
  have u2: "unused t ?k" using u1 by (simp add: unused_def)
  have "kinv (upd_thr t close_stat ?k)" by (rule upd_unused_kinv [OF k2 u2]) simp
  moreover have "unused t (upd_thr t close_stat ?k)" using u2 by (simp add: unused_def)
  moreover have "Obj_thread t \<in> set (objects ?k RT_Object_Class_Thread)"
    using o by (simp add: thread_object_ok_def timer_remove_def)
  ultimately show ?thesis using that [of k ?k] d i by simp
qed

lemma rt_thread_delete_kinv:
  assumes k: "kinv k" and o: "thread_object_ok t k" and dyn: "\<not> rt_object_is_systemobject (Obj_thread t) k"
    and n: "state_of k t \<noteq> RT_THREAD_CLOSE" and u: "state_of k t = RT_THREAD_INIT \<Longrightarrow> unused t k"
    and v: "live (state_of k t) \<or> state_of k t = RT_THREAD_INIT"
  shows "\<exists>k'. rt_thread_delete t k = Some (RT_EOK, k') \<and> kinv k' \<and> state_of k' t = RT_THREAD_CLOSE \<and>
    t \<in> set (tlists k' Defunct)"
proof -
  obtain k1 k2 where s:
    "(if state_of k t \<noteq> RT_THREAD_INIT then rt_schedule_remove_thread t k else Some k) = Some k1"
    "rt_timer_detach (Thread_timer t) k1 = Some (RT_EOK, k2)" "kinv (upd_thr t close_stat k2)"
    "unused t (upd_thr t close_stat k2)"
    "Obj_thread t \<in> set (objects (upd_thr t close_stat k2) RT_Object_Class_Thread)"
    using delete_steps [OF k o n u v] by blast
  have "kinv (defunct t (upd_thr t close_stat k2))"
    using s(4) by (intro defunct_kinv [OF s(3) _ _ s(5)]) (simp_all add: unused_def)
  moreover have "rt_thread_delete t k = Some (RT_EOK, defunct t (upd_thr t close_stat k2))"
    unfolding rt_thread_delete_def using s(1,2) n dyn o by (simp add: thread_object_ok_def)
  ultimately show ?thesis by (simp add: defunct_def l_push_def)
qed

lemma rt_thread_detach_kinv:
  assumes k: "kinv k" and o: "thread_object_ok t k" and stc: "rt_object_is_systemobject (Obj_thread t) k"
    and n: "state_of k t \<noteq> RT_THREAD_CLOSE" and u: "state_of k t = RT_THREAD_INIT \<Longrightarrow> unused t k"
    and v: "live (state_of k t) \<or> state_of k t = RT_THREAD_INIT"
  shows "\<exists>k'. rt_thread_detach t k = Some (RT_EOK, k') \<and> kinv k' \<and> state_of k' t = RT_THREAD_CLOSE"
proof -
  obtain k1 k2 where s:
    "(if state_of k t \<noteq> RT_THREAD_INIT then rt_schedule_remove_thread t k else Some k) = Some k1"
    "rt_timer_detach (Thread_timer t) k1 = Some (RT_EOK, k2)" "kinv (upd_thr t close_stat k2)"
    "unused t (upd_thr t close_stat k2)"
    "Obj_thread t \<in> set (objects (upd_thr t close_stat k2) RT_Object_Class_Thread)"
    using delete_steps [OF k o n u v] by blast
  define k3 where "k3 = upd_thr t close_stat k2"
  define k4 where "k4 = (if rt_object_is_systemobject (Obj_thread t) k3 \<and> \<not> has_cleanup (thr k3 t)
    then rt_object_detach (Obj_thread t) k3 else defunct t k3)"
  have "kinv k4" unfolding k4_def
    by (rule finish_close_kinv) (use s(3-5) in \<open>simp_all add: k3_def\<close>)
  moreover have "rt_thread_detach t k = Some (RT_EOK, k4)"
    unfolding rt_thread_detach_def k4_def k3_def Let_def using s(1,2) n stc o by (simp add: thread_object_ok_def)
  moreover have "state_of k4 t = RT_THREAD_CLOSE" by (simp add: k4_def k3_def defunct_def)
  ultimately show ?thesis by blast
qed

subsection \<open>Sleeping\<close>

lemma arm_timer_kinv:
  assumes k: "kinv k" and s: "state_of k t = RT_THREAD_SUSPEND" and tick: "tick < RT_TICK_HALF"
  shows "\<exists>k'. arm_timer t tick k = Some k' \<and> kinv k' \<and> timer_frame k k' \<and>
    expiry k' (Thread_timer t) = rt_tick k + tick \<and> Thread_timer t \<in> set (rt_timer_list k')"
proof -
  let ?T = "Thread_timer t"
  let ?k = "upd_timer ?T (\<lambda>x. x\<lparr>timer_init_tick := tick\<rparr>) k"
  have o: "thread_object_ok t k" using kinv_live(6) [OF k, of t] s by simp
  have f: "timer_frame k ?k" by simp
  have k1: "kinv ?k"
    by (rule timer_frame_kinv [OF k f])
      (auto simp: kinv_timers_distinct [OF k] kinv_timer_active [OF k] kinv_timer_registered [OF k] kinv_timer_suspended [OF k])
  have ty: "rt_object_get_type (Obj_timer ?T) ?k = RT_Object_Class_Timer"
    using o timer_frame_type(1) [OF f] by (simp add: thread_object_ok_def)
  have st: "rt_timer_start ?T ?k = Some (RT_EOK, restarted ?T ?k)" "kinv (restarted ?T ?k)"
    using rt_timer_start_kinv [OF k1 ty] o tick s by (simp_all add: thread_object_ok_def)
  have "arm_timer t tick k = Some (restarted ?T ?k)"
    using o st(1) by (simp add: arm_timer_def rt_timer_control_def thread_object_ok_def)
  moreover have "timer_frame k (restarted ?T ?k)" by (rule timer_frame_trans [OF f restarted_frame])
  ultimately show ?thesis using st(2) restarted_sel(1) [of ?T ?k] restarted_sel(2) [of ?T ?k] by simp
qed

text \<open>
  \<open>rt_thread_sleep\<close> takes the caller off the processor with a timer that expires \<open>tick\<close> ticks
  from now.
\<close>

lemma rt_thread_sleep_kinv:
  assumes k: "kinv k" and c: "rt_current_thread k = Some t" "state_of k t = RT_THREAD_RUNNING"
    and tick: "tick < RT_TICK_HALF"
  shows "\<exists>k'. rt_thread_sleep tick k = Some k' \<and> kinv k' \<and> state_of k' t = RT_THREAD_SUSPEND \<and>
    Thread_timer t \<in> set (rt_timer_list k') \<and> expiry k' (Thread_timer t) = rt_tick k + tick"
proof -
  obtain k1 where s1: "rt_thread_suspend t k = Some (RT_EOK, k1)" "kinv k1" "floating t k1" "thread_frame t k k1"
    using rt_thread_suspend_kinv [OF k] c(2) by blast
  obtain k2 where s2: "arm_timer t tick k1 = Some k2" "kinv k2" "timer_frame k1 k2"
    "expiry k2 (Thread_timer t) = rt_tick k1 + tick" "Thread_timer t \<in> set (rt_timer_list k2)"
    using arm_timer_kinv [OF s1(2) _ tick] s1(3) unfolding floating_def by blast
  have "rt_current_thread k2 = Some t" using s1(4) s2(3) c(1) by (simp add: thread_frame_def timer_frame_def)
  then obtain k3 where s3: "rt_schedule k2 = Some k3" "kinv k3" "sched_frame k2 k3"
    using rt_schedule_kinv [OF s2(2)] by blast
  have "rt_thread_sleep tick k = Some k3"
    using c s1(1) s2(1) s3(1) kinv_live(3) [OF k, of t] by (simp add: rt_thread_sleep_def rt_thread_self_def)
  moreover have "state_of k2 t = RT_THREAD_SUSPEND" using s1(3) s2(3) by (simp add: floating_def timer_frame_def)
  then have "thr k3 t = thr k2 t" using s3(3) by (simp add: sched_frame_def)
  ultimately show ?thesis using s3 s2 s1(4) \<open>state_of k2 t = RT_THREAD_SUSPEND\<close>
    by (simp add: sched_frame_def thread_frame_def)
qed

subsection \<open>Creating and starting threads\<close>

definition free_ref :: "obj_ref \<Rightarrow> 'a kernel_scheme \<Rightarrow> bool" where
  "free_ref r k \<longleftrightarrow> (case r of Obj_thread t \<Rightarrow> unused t k | Obj_timer (Thread_timer t) \<Rightarrow> unused t k
     | Obj_timer (Timer n) \<Rightarrow> Timer n \<notin> set (rt_timer_list k) | Obj_ipc n \<Rightarrow> True)"

lemma free_ref_facts:
  assumes "kinv k" "free_ref r k"
  shows "t \<in> set (tlists k l) \<Longrightarrow> r \<noteq> Obj_thread t" "i \<in> set (rt_timer_list k) \<Longrightarrow> r \<noteq> Obj_timer i"
    "live (state_of k t) \<Longrightarrow> r \<noteq> Obj_thread t \<and> r \<noteq> Obj_timer (Thread_timer t)"
  using assms(2) by (auto simp: free_ref_def unused_def unlinked_def split: obj_ref.splits timer_id.splits)

lemma sched_frame_unused:
  assumes "kinv k'" "sched_frame k k'" "unused t k"
  shows "unused t k'"
proof -
  have nr: "\<not> runnable (state_of k t)" using assms(3) by (auto simp: unused_def live_def runnable_def)
  then have th: "thr k' t = thr k t" using assms(2) by (simp add: sched_frame_def)
  have "t \<notin> set (tlists k' l)" for l
  proof (cases "\<forall>p. l \<noteq> ReadyQ p")
    case True
    then show ?thesis using assms(2,3) by (simp add: sched_frame_def unused_def unlinked_def)
  next
    case False
    then obtain p where "l = ReadyQ p" by blast
    then show ?thesis using kinv_ready [OF assms(1), of t p] th nr by (auto simp: runnable_def)
  qed
  then show ?thesis using assms(2,3) th by (simp add: unused_def unlinked_def sched_frame_def)
qed

lemma sched_frame_free_ref:
  assumes "kinv k'" "sched_frame k k'" "free_ref r k"
  shows "free_ref r k'"
  using assms sched_frame_unused [OF assms(1,2)]
  by (auto simp: free_ref_def sched_frame_def split: obj_ref.splits timer_id.splits)

definition registered :: "u8 \<Rightarrow> obj_ref \<Rightarrow> string \<Rightarrow> 'a kernel_scheme \<Rightarrow> 'a kernel_scheme" where
  "registered ty r name k = container_insert ty r
     (upd_obj r (\<lambda>ob. ob\<lparr>otype := ty OR RT_Object_Class_Static, oname := take RT_NAME_MAX name\<rparr>) k)"

lemma registered_sel [simp]:
  "thr (registered ty r name k) = thr k" "tlists (registered ty r name k) = tlists k"
  "rt_current_thread (registered ty r name k) = rt_current_thread k"
  "rt_thread_ready_priority_group (registered ty r name k) = rt_thread_ready_priority_group k"
  "rt_timer_list (registered ty r name k) = rt_timer_list k" "timers (registered ty r name k) = timers k"
  "rt_scheduler_lock_nest (registered ty r name k) = rt_scheduler_lock_nest k"
  "rt_tick (registered ty r name k) = rt_tick k" "kernel.more (registered ty r name k) = kernel.more k"
  "objects (registered ty r name k) = (objects k)(ty := r # objects k ty)"
  "objs (registered ty r name k) =
     (objs k)(r := (objs k r)\<lparr>otype := ty OR RT_Object_Class_Static, oname := take RT_NAME_MAX name\<rparr>)"
  by (simp_all add: registered_def container_insert_def)

lemma registered_kinv:
  assumes k: "kinv k" and f: "free_ref r k"
  shows "kinv (registered ty r name k)"
proof (rule objects_kinv [OF k])
  note ff = free_ref_facts [OF k f]
  show "timer_active i (registered ty r name k) \<and>
    Obj_timer i \<in> set (objects (registered ty r name k) RT_Object_Class_Timer)" if "i \<in> set (rt_timer_list k)" for i
    using ff(2) [OF that] kinv_timer_active [OF k that] kinv_timer_registered [OF k that]
    by (auto simp: timer_active_def)
  show "Obj_thread t \<in> set (objects (registered ty r name k) RT_Object_Class_Thread)" if "t \<in> set (tlists k l)" for l t
    using kinv_registered [OF k that] by auto
  show "thread_object_ok t (registered ty r name k)" if "live (state_of k t)" for t
    using ff(3) [OF that] kinv_live(6) [OF k that]
    by (auto simp: thread_object_ok_def rt_object_get_type_def rt_object_is_systemobject_def)
qed simp_all

lemma rt_object_init_kinv:
  assumes k: "kinv k" and l: "lock_ok k" and f: "free_ref r k" and ty: "ty \<in> set object_classes"
    and n: "r \<notin> set (objects k ty)"
  shows "\<exists>k1. rt_object_init r ty name k = Some (registered ty r name k1) \<and> kinv k1 \<and> sched_frame k k1 \<and>
    kinv (registered ty r name k1)"
proof -
  obtain k1 where c: "rt_exit_critical (rt_enter_critical k) = Some k1" "kinv k1" "sched_frame k k1"
    using critical_section_kinv [OF k l] by blast
  have "rt_object_init r ty name k = Some (registered ty r name k1)"
    using c(1) ty n by (simp add: rt_object_init_def rt_object_get_information_def registered_def)
  moreover have "kinv (registered ty r name k1)"
    by (rule registered_kinv [OF c(2) sched_frame_free_ref [OF c(2,3) f]])
  ultimately show ?thesis using c by blast
qed

lemma classes_configured [simp]:
  "RT_Object_Class_Thread \<in> set object_classes" "RT_Object_Class_Timer \<in> set object_classes"
  "RT_Object_Class_Semaphore \<in> set object_classes" "RT_Object_Class_Mutex \<in> set object_classes"
  "RT_Object_Class_Event \<in> set object_classes" "RT_Object_Class_MailBox \<in> set object_classes"
  "RT_Object_Class_MessageQueue \<in> set object_classes"
  by (simp_all add: object_classes_def)

lemma static_type [simp]:
  "(RT_Object_Class_Thread OR RT_Object_Class_Static) AND NOT RT_Object_Class_Static = RT_Object_Class_Thread"
  "(RT_Object_Class_Timer OR RT_Object_Class_Static) AND NOT RT_Object_Class_Static = RT_Object_Class_Timer"
  "(ty OR RT_Object_Class_Static) AND RT_Object_Class_Static \<noteq> 0"
proof -
  show "(RT_Object_Class_Thread OR RT_Object_Class_Static) AND NOT RT_Object_Class_Static = RT_Object_Class_Thread"
    "(RT_Object_Class_Timer OR RT_Object_Class_Static) AND NOT RT_Object_Class_Static = RT_Object_Class_Timer"
    by (simp_all add: RT_Object_Class_Thread_def RT_Object_Class_Timer_def RT_Object_Class_Static_def)
  have "(ty OR RT_Object_Class_Static) AND RT_Object_Class_Static = RT_Object_Class_Static"
    by (rule bit_eqI) (auto simp: bit_simps)
  then show "(ty OR RT_Object_Class_Static) AND RT_Object_Class_Static \<noteq> 0"
    by (simp add: RT_Object_Class_Static_def)
qed

text \<open>
  Initialising a thread object that is not in use: it comes out registered, in the initial state,
  with a timer object of its own, and nothing else is disturbed but for the scheduling that
  \<open>rt_object_init\<close> does when it leaves its critical section.
\<close>

lemma rt_thread_init_kinv:
  assumes k: "kinv k" and l: "lock_ok k" and u: "unused t k" and p: "priority < RT_THREAD_PRIORITY_MAX"
    and n: "Obj_thread t \<notin> set (objects k RT_Object_Class_Thread)"
    "Obj_timer (Thread_timer t) \<notin> set (objects k RT_Object_Class_Timer)"
  shows "\<exists>k'. rt_thread_init t name priority tick k = Some (RT_EOK, k') \<and> kinv k' \<and> unused t k' \<and>
    state_of k' t = RT_THREAD_INIT \<and> init_priority (thr k' t) = priority \<and> thread_object_ok t k'"
proof -
  let ?T = "Thread_timer t"
  let ?f = "\<lambda>c. c\<lparr>init_priority := priority, current_priority := priority, number_mask := 0,
       init_tick := tick, remaining_tick := tick, error := RT_EOK, stat := RT_THREAD_INIT, has_cleanup := False\<rparr>"
  obtain k1 where s1: "rt_object_init (Obj_thread t) RT_Object_Class_Thread name k =
      Some (registered RT_Object_Class_Thread (Obj_thread t) name k1)" "kinv k1" "sched_frame k k1"
      "kinv (registered RT_Object_Class_Thread (Obj_thread t) name k1)"
    using rt_object_init_kinv [OF k l, of "Obj_thread t" RT_Object_Class_Thread name] u n by (auto simp: free_ref_def)
  let ?k1 = "registered RT_Object_Class_Thread (Obj_thread t) name k1"
  have u1: "unused t ?k1" using sched_frame_unused [OF s1(2,3) u] by (simp add: unused_def)
  let ?k2 = "upd_thr t ?f ?k1"
  have st2: "th_stat (?f c) = RT_THREAD_INIT" for c :: rt_thread by (simp add: th_stat_def)
  have k2: "kinv ?k2" by (rule upd_unused_kinv [OF s1(4) u1]) (simp add: st2)
  have u2: "unused t ?k2" using u1 by (simp add: unused_def st2)
  have l2: "lock_ok ?k2" using l s1(3) by (simp add: lock_ok_def sched_frame_def)
  have n2: "Obj_timer ?T \<notin> set (objects ?k2 RT_Object_Class_Timer)"
    using n s1(3) by (simp add: sched_frame_def RT_Object_Class_Timer_def RT_Object_Class_Thread_def)
  obtain k3 where s3: "rt_object_init (Obj_timer ?T) RT_Object_Class_Timer name ?k2 =
      Some (registered RT_Object_Class_Timer (Obj_timer ?T) name k3)" "kinv k3" "sched_frame ?k2 k3"
      "kinv (registered RT_Object_Class_Timer (Obj_timer ?T) name k3)"
    using rt_object_init_kinv [OF k2 l2 _ _ n2, of name] u2 by (auto simp: free_ref_def)
  let ?k3 = "registered RT_Object_Class_Timer (Obj_timer ?T) name k3"
  have u3: "unused t ?k3" using sched_frame_unused [OF s3(2,3) u2] by (simp add: unused_def)
  have th3: "thr k3 t = ?f (thr k1 t)"
  proof -
    have "\<not> runnable (state_of ?k2 t)" by (simp add: st2)
    then have "thr k3 t = thr ?k2 t" using s3(3) unfolding sched_frame_def by blast
    then show ?thesis by simp
  qed
  let ?k = "timer_init_fields ?T (Rt_thread_timeout t) 0 0 ?k3"
  have same: "thr ?k = thr ?k3" "tlists ?k = tlists ?k3" "rt_current_thread ?k = rt_current_thread ?k3"
    "rt_thread_ready_priority_group ?k = rt_thread_ready_priority_group ?k3" "rt_timer_list ?k = rt_timer_list ?k3"
    "objects ?k = objects ?k3"
    "\<And>r. otype (objs ?k r) = otype (objs ?k3 r)" "\<And>r. r \<noteq> Obj_timer ?T \<Longrightarrow> objs ?k r = objs ?k3 r"
    "\<And>i. i \<noteq> ?T \<Longrightarrow> timers ?k i = timers ?k3 i" "timeout_func (timers ?k ?T) = Rt_thread_timeout t"
    by (simp_all add: timer_init_fields_def clear_flag_def)
  have "kinv ?k"
  proof (rule objects_kinv [OF s3(4)])
    show "timer_active i ?k \<and> Obj_timer i \<in> set (objects ?k RT_Object_Class_Timer)"
      if "i \<in> set (rt_timer_list ?k3)" for i
    proof -
      have "i \<noteq> ?T" using that u3 by (auto simp: unused_def)
      then have "timer_active i ?k = timer_active i ?k3" using same(8) by (simp add: timer_active_def)
      then show ?thesis using kinv_timer_active [OF s3(4) that] kinv_timer_registered [OF s3(4) that] same(6)
        by simp
    qed
    show "Obj_thread x \<in> set (objects ?k RT_Object_Class_Thread)" if "x \<in> set (tlists ?k3 l)" for l x
      using kinv_registered [OF s3(4) that] same(6) by simp
    show "thread_object_ok x ?k" if "live (state_of ?k3 x)" for x
    proof -
      have "x \<noteq> t" using that u3 by (auto simp: unused_def)
      then have "timers ?k (Thread_timer x) = timers ?k3 (Thread_timer x)" using same(9) by simp
      then show ?thesis using kinv_live(6) [OF s3(4) that] same(6,7)
        by (simp add: thread_object_ok_def rt_object_get_type_def rt_object_is_systemobject_def)
    qed
  qed (use same in simp_all)
  moreover have "unused t ?k" using u3 same by (simp add: unused_def)
  moreover have "thread_object_ok t ?k"
    using s3(3) same(6,7,10)
    by (simp add: thread_object_ok_def rt_object_get_type_def rt_object_is_systemobject_def sched_frame_def
        RT_Object_Class_Timer_def RT_Object_Class_Thread_def)
      (simp add: RT_Object_Class_Static_def)
  moreover have "rt_thread_init t name priority tick k = Some (RT_EOK, ?k)"
    using s1(1) s3(1) p by (simp add: rt_thread_init_def thread_init_fields_def rt_timer_init_def)
  ultimately show ?thesis using same(1) th3 by (intro exI [of _ ?k]) (simp add: th_stat_def)
qed

lemma rt_thread_startup_kinv:
  assumes k: "kinv k" and i: "state_of k t = RT_THREAD_INIT" and u: "unused t k" and o: "thread_object_ok t k"
    and p: "init_priority (thr k t) < RT_THREAD_PRIORITY_MAX"
  shows "\<exists>k'. rt_thread_startup t k = Some (RT_EOK, k') \<and> kinv k' \<and> runnable (state_of k' t) \<and>
    prio_of k' t = init_priority (thr k t)"
proof -
  let ?f = "\<lambda>c. c\<lparr>current_priority := init_priority c, number_mask := priority_mask (init_priority c),
    stat := RT_THREAD_SUSPEND\<rparr>"
  have st: "th_stat (?f c) = RT_THREAD_SUSPEND" for c :: rt_thread by (simp add: th_stat_def)
  let ?k = "upd_thr t ?f k"
  have k1: "kinv ?k" by (rule upd_unused_kinv [OF k u]) (simp add: st o p)
  obtain k2 where r: "rt_thread_resume t ?k = Some (RT_EOK, k2)" "kinv k2" "thread_frame t ?k k2"
    "state_of k2 t = (if rt_current_thread ?k = Some t then RT_THREAD_RUNNING else RT_THREAD_READY)"
    using rt_thread_resume_kinv [OF k1, of t] st by auto
  have run: "runnable (state_of k2 t)" using r(4) by simp
  have pr: "prio_of k2 t = init_priority (thr k t)" using r(3) by (auto simp: thread_frame_def)
  have top: "rt_thread_startup t k = do {
     k \<leftarrow> (if rt_thread_self k2 \<noteq> None then rt_schedule k2 else Some k2); Some (RT_EOK, k) }"
    using i o r(1) by (simp add: rt_thread_startup_def thread_object_ok_def)
  show ?thesis
  proof (cases "rt_current_thread k2")
    case None
    then show ?thesis using top r(2) run pr by (simp add: rt_thread_self_def)
  next
    case (Some c)
    then obtain k3 where s: "rt_schedule k2 = Some k3" "kinv k3" "sched_frame k2 k3"
      using rt_schedule_kinv [OF r(2)] by blast
    have "\<exists>s. thr k3 t = (thr k2 t)\<lparr>stat := s\<rparr>" "runnable (state_of k3 t)"
      using s(3) run by (simp_all add: sched_frame_def)
    then show ?thesis using top Some s(1,2) pr by (auto simp: rt_thread_self_def)
  qed
qed

subsection \<open>Time conversion and periodic delays\<close>

lemma rt_tick_from_millisecond_correct:
  assumes "0 \<le> ms" "ms < 2 ^ 31"
  shows "rt_tick_from_millisecond ms = word_of_int ms"
proof -
  have "RT_TICK_PER_SECOND * (ms div 1000) + (RT_TICK_PER_SECOND * (ms mod 1000) + 999) div 1000 = ms"
    by (simp add: RT_TICK_PER_SECOND_def)
  then show ?thesis using assms unfolding rt_tick_from_millisecond_def wi_hom_add by simp
qed

text \<open>
  \<open>rt_thread_delay_until (&tick, inc)\<close> is documented to sleep until \<open>tick + inc\<close>. The timer it
  arms expires at \<open>now + (now - tick) + inc\<close>: the time already spent is added to the delay
  where it should be subtracted.
\<close>

lemma rt_thread_delay_until_wakes_at:
  assumes k: "kinv k" and c: "rt_current_thread k = Some t" "state_of k t = RT_THREAD_RUNNING"
    and late: "rt_tick k - tick < inc" and small: "rt_tick k - tick + inc < RT_TICK_HALF"
  shows "\<exists>k'. rt_thread_delay_until tick inc k = Some (True, rt_tick k - tick + inc, k') \<and> kinv k' \<and>
    expiry k' (Thread_timer t) = (tick + inc) + 2 * (rt_tick k - tick)"
proof -
  have e: "rt_tick k + (rt_tick k - tick + inc) = (tick + inc) + 2 * (rt_tick k - tick)"
    by (simp add: algebra_simps)
  have "rt_thread_delay_until tick inc k = do {
      k' \<leftarrow> rt_thread_sleep (rt_tick k - tick + inc) k; Some (True, rt_tick k - tick + inc, k') }"
    using c late kinv_live(3) [OF k, of t]
    by (simp add: rt_thread_delay_until_def rt_thread_sleep_def rt_tick_get_def rt_thread_self_def split: bind_splits)
  moreover obtain k' where "rt_thread_sleep (rt_tick k - tick + inc) k = Some k'" "kinv k'"
    "expiry k' (Thread_timer t) = rt_tick k + (rt_tick k - tick + inc)"
    using rt_thread_sleep_kinv [OF k c small] by blast
  ultimately show ?thesis using e by simp
qed

end
