(* ===== verification/Clock.thy ===== *)
theory Clock
  imports KThread
begin

text \<open>
  The system tick (\<^verbatim>\<open>src/clock.c\<close>) and the idle thread (\<^verbatim>\<open>src/idle.c\<close>). The tick interrupt ends
  the time slice of the running thread and fires the expired timers; the timeout functions of user
  timers are an argument, \<open>cb n\<close> being the one with parameter \<open>n\<close>.
\<close>

subsection \<open>The tick\<close>

definition rt_tick_set :: "tick \<Rightarrow> 'a kernel_scheme \<Rightarrow> 'a kernel_scheme" where
  "rt_tick_set t k = k\<lparr>rt_tick := t\<rparr>"

definition fire_timeout ::
  "(nat \<Rightarrow> 'a kernel_scheme \<Rightarrow> 'a kernel_scheme option) \<Rightarrow> timeout_fn \<Rightarrow> 'a kernel_scheme \<Rightarrow>
   'a kernel_scheme option" where
  "fire_timeout cb fn k =
     (case fn of No_timeout \<Rightarrow> None
      | Rt_thread_timeout t \<Rightarrow> rt_thread_timeout t k
      | User_timeout n \<Rightarrow> cb n k)"

definition rt_tick_increase ::
  "(nat \<Rightarrow> 'a kernel_scheme \<Rightarrow> 'a kernel_scheme option) \<Rightarrow> 'a kernel_scheme \<Rightarrow> 'a kernel_scheme option" where
  "rt_tick_increase cb k = do {
     let k = k\<lparr>rt_tick := rt_tick k + 1\<rparr>;
     t \<leftarrow> rt_thread_self k;
     let k = upd_thr t (\<lambda>c. c\<lparr>remaining_tick := remaining_tick c - 1\<rparr>) k;
     k \<leftarrow> (if remaining_tick (thr k t) = 0 then do {
         let k = upd_thr t (\<lambda>c. c\<lparr>remaining_tick := init_tick c, stat := stat c OR RT_THREAD_STAT_YIELD\<rparr>) k;
         (_, k) \<leftarrow> rt_thread_yield k;
         Some k }
       else Some k);
     rt_timer_check (fire_timeout cb) k }"

subsection \<open>The idle thread\<close>

text \<open>
  The idle hooks are a fixed array of function pointers, \<open>None\<close> for \<open>RT_NULL\<close>.
\<close>

definition RT_IDLE_HOOK_LIST_SIZE :: nat where "RT_IDLE_HOOK_LIST_SIZE = 4"

fun idle_replace :: "'h option \<Rightarrow> 'h option \<Rightarrow> 'h option list \<Rightarrow> ('h option list) option" where
  "idle_replace old new [] = None"
| "idle_replace old new (h # hs) = (if h = old then Some (new # hs) else map_option ((#) h) (idle_replace old new hs))"

definition rt_thread_idle_sethook :: "'h \<Rightarrow> 'h option list \<Rightarrow> int \<times> 'h option list" where
  "rt_thread_idle_sethook hook hs =
     (case idle_replace None (Some hook) hs of None \<Rightarrow> (- RT_EFULL, hs) | Some hs' \<Rightarrow> (RT_EOK, hs'))"

definition rt_thread_idle_delhook :: "'h \<Rightarrow> 'h option list \<Rightarrow> int \<times> 'h option list" where
  "rt_thread_idle_delhook hook hs =
     (case idle_replace (Some hook) None hs of None \<Rightarrow> (- RT_ENOSYS, hs) | Some hs' \<Rightarrow> (RT_EOK, hs'))"

definition has_defunct_thread :: "'a kernel_scheme \<Rightarrow> bool" where
  "has_defunct_thread k \<longleftrightarrow> tlists k Defunct \<noteq> []"

text \<open>
  One round of the loop of \<open>rt_thread_idle_excute\<close>: the result says whether the function returns
  here (the early \<open>return\<close> after a static thread). The cleanup function of the thread is an
  argument; freeing the stack and the object is left to the allocator.
\<close>

definition idle_reap ::
  "(tid \<Rightarrow> 'a kernel_scheme \<Rightarrow> 'a kernel_scheme option) \<Rightarrow> 'a kernel_scheme \<Rightarrow>
   (bool \<times> 'a kernel_scheme) option" where
  "idle_reap cleanup k = do {
     RT_DEBUG_NOT_IN_INTERRUPT k;
     t \<leftarrow> first_entry Defunct k;
     let k = unlink t k;
     let k = rt_enter_critical k;
     k \<leftarrow> (if has_cleanup (thr k t) then cleanup t k else Some k);
     if rt_object_is_systemobject (Obj_thread t) k then do {
       let k = rt_object_detach (Obj_thread t) k;
       k \<leftarrow> rt_exit_critical k;
       Some (True, k) }
     else do {
       k \<leftarrow> rt_exit_critical k;
       k \<leftarrow> rt_object_delete (Obj_thread t) k;
       Some (False, k) } }"

partial_function (option) rt_thread_idle_excute ::
  "(tid \<Rightarrow> 'a kernel_scheme \<Rightarrow> 'a kernel_scheme option) \<Rightarrow> 'a kernel_scheme \<Rightarrow> 'a kernel_scheme option" where
  "rt_thread_idle_excute cleanup k =
     (if \<not> has_defunct_thread k then Some k
      else do {
        (ret, k) \<leftarrow> idle_reap cleanup k;
        if ret then Some k else rt_thread_idle_excute cleanup k })"

subsection \<open>Thread timeouts leave the timers alone\<close>

definition quiet :: "'a kernel_scheme \<Rightarrow> 'a kernel_scheme \<Rightarrow> bool" where
  "quiet k k' \<longleftrightarrow> timers k' = timers k \<and> rt_timer_list k' = rt_timer_list k \<and> rt_tick k' = rt_tick k \<and>
     objs k' = objs k \<and> objects k' = objects k"

lemma insert_quiet: "rt_schedule_insert_thread t k = Some k' \<Longrightarrow> quiet k k'"
  by (auto simp: rt_schedule_insert_thread_def quiet_def Let_def split: if_splits)

lemma remove_quiet: "rt_schedule_remove_thread t k = Some k' \<Longrightarrow> quiet k k'"
  by (auto simp: rt_schedule_remove_thread_def quiet_def Let_def split: if_splits)

lemma quiet_trans: "quiet a b \<Longrightarrow> quiet b c \<Longrightarrow> quiet a c"
  by (simp add: quiet_def)

lemma choose_quiet: "choose_next c k = Some (t, p, b, k') \<Longrightarrow> quiet k k'"
  by (auto simp: choose_next_def quiet_def split: if_splits bind_splits)

lemma rt_schedule_quiet:
  assumes "rt_schedule k = Some k'"
  shows "quiet k k'"
proof (cases "rt_scheduler_lock_nest k = 0 \<and> rt_thread_ready_priority_group k \<noteq> 0")
  case False
  with assms show ?thesis by (auto simp: rt_schedule_def quiet_def)
next
  case True
  with assms obtain c t p b k1 where c: "rt_current_thread k = Some c" "choose_next c k = Some (t, p, b, k1)"
    by (auto simp: rt_schedule_def split: bind_splits prod.splits)
  note q1 = choose_quiet [OF c(2)]
  show ?thesis
  proof (cases "t = c")
    case t: True
    with assms True c obtain k2 where "rt_schedule_remove_thread c k1 = Some k2"
      "k' = upd_thr c (set_stat RT_THREAD_RUNNING) k2"
      by (auto simp: rt_schedule_def split: bind_splits)
    then show ?thesis using q1 remove_quiet [of c k1 k2] by (auto simp: quiet_def)
  next
    case t: False
    let ?k1 = "k1\<lparr>rt_current_priority := p mod 256, rt_current_thread := Some t\<rparr>"
    from assms True c t obtain k2 k3 where
      "(if b then rt_schedule_insert_thread c ?k1 else Some ?k1) = Some k2"
      "rt_schedule_remove_thread t k2 = Some k3" "k' = context_switch c t (upd_thr t (set_stat RT_THREAD_RUNNING) k3)"
      by (auto simp: rt_schedule_def Let_def split: bind_splits)
    then show ?thesis using q1 remove_quiet [of t k2 k3] insert_quiet [of c ?k1 k2]
      by (auto simp: quiet_def context_switch_def split: if_splits)
  qed
qed

lemma rt_thread_timeout_quiet:
  assumes "rt_thread_timeout t k = Some k'"
  shows "quiet k k'"
proof -
  obtain k1 where "rt_schedule_insert_thread t (unlink t (upd_thr t (set_error (- RT_ETIMEOUT)) k)) = Some k1"
    "rt_schedule k1 = Some k'"
    using assms by (auto simp: rt_thread_timeout_def Let_def split: if_splits bind_splits)
  then show ?thesis using insert_quiet rt_schedule_quiet by (fastforce simp: quiet_def)
qed

text \<open>What is asked of the timeout functions of user timers.\<close>

definition woken_stay :: "'a kernel_scheme \<Rightarrow> 'a kernel_scheme \<Rightarrow> bool" where
  "woken_stay k k' \<longleftrightarrow> (\<forall>t. runnable (state_of k t) \<longrightarrow> runnable (state_of k' t) \<and> error (thr k' t) = error (thr k t))"

lemma woken_stay_trans: "woken_stay a b \<Longrightarrow> woken_stay b c \<Longrightarrow> woken_stay a c"
  by (simp add: woken_stay_def)

definition callbacks_ok :: "(nat \<Rightarrow> 'a kernel_scheme \<Rightarrow> 'a kernel_scheme option) \<Rightarrow> bool" where
  "callbacks_ok cb \<longleftrightarrow>
     (\<forall>n k k'. cb n k = Some k' \<longrightarrow> quiet k k') \<and>
     (\<forall>n k. kinv k \<and> rt_current_thread k \<noteq> None \<longrightarrow>
        (\<exists>k'. cb n k = Some k' \<and> kinv k' \<and> rt_current_thread k' \<noteq> None \<and> woken_stay k k'))"

lemma fire_timeout_passive: "callbacks_ok cb \<Longrightarrow> timer_passive (fire_timeout cb)"
  using rt_thread_timeout_quiet
  by (fastforce simp: timer_passive_def fire_timeout_def callbacks_ok_def quiet_def split: timeout_fn.splits)

subsection \<open>A tick of the clock\<close>

lemma rt_schedule_current:
  "kinv k \<Longrightarrow> rt_current_thread k = Some c \<Longrightarrow> rt_schedule k = Some k' \<Longrightarrow> rt_current_thread k' \<noteq> None"
  by (erule (1) rt_schedule_cases) (auto simp: context_switch_def dispatched_def)

lemma insert_current: "rt_schedule_insert_thread t k = Some k' \<Longrightarrow> rt_current_thread k' = rt_current_thread k"
  by (auto simp: rt_schedule_insert_thread_def Let_def split: if_splits)

lemma rt_thread_timeout_current:
  assumes k: "kinv k" and st: "state_of k t = RT_THREAD_SUSPEND" and tm: "Thread_timer t \<notin> set (rt_timer_list k)"
    and c: "rt_current_thread k = Some c" and s: "rt_thread_timeout t k = Some k'"
  shows "rt_current_thread k' \<noteq> None"
proof -
  let ?k = "unlink t (upd_thr t (set_error (- RT_ETIMEOUT)) k)"
  have u: "kinv ?k" using k st by (intro unlink_kinv) simp_all
  have f: "floating t ?k" using st tm unlinked_unlink [OF kinv_lists [OF k]] by (simp add: floating_def)
  obtain k1 where i: "rt_schedule_insert_thread t ?k = Some k1" "kinv k1"
    using rt_schedule_insert_thread_kinv [OF u f] by blast
  have "rt_schedule k1 = Some k'"
    using s i(1) by (simp add: rt_thread_timeout_def split: if_splits)
  then show ?thesis using rt_schedule_current [OF i(2)] insert_current [OF i(1)] c by simp
qed

text \<open>
  Thread timers are one-shot; the periodic user timers have a period that is positive and short
  enough to be told from a time in the past.
\<close>

definition one_shot :: "'a kernel_scheme \<Rightarrow> bool" where
  "one_shot k \<longleftrightarrow> (\<forall>t. \<not> timer_periodic (Thread_timer t) k)"

lemma fire_timer_thread:
  assumes k: "kinv k" and c: "rt_current_thread k \<noteq> None" and o: "one_shot k"
    and i: "Thread_timer t \<in> set (rt_timer_list k)"
  shows "\<exists>k'. fire_timer (fire_timeout cb) (Thread_timer t) k = Some k' \<and> kinv k' \<and>
    rt_current_thread k' \<noteq> None \<and> runnable (state_of k' t) \<and> error (thr k' t) = - RT_ETIMEOUT \<and>
    woken_stay k k'"
proof -
  let ?T = "Thread_timer t"
  let ?k = "timer_remove ?T k"
  have st: "state_of k t = RT_THREAD_SUSPEND" by (rule kinv_timer_suspended [OF k i])
  have k1: "kinv ?k" by (rule timer_remove_kinv [OF k])
  have s1: "state_of ?k t = RT_THREAD_SUSPEND" using st by (simp add: timer_remove_def)
  have n1: "?T \<notin> set (rt_timer_list ?k)" using kinv_timers_distinct [OF k] by simp
  obtain cc where c1: "rt_current_thread ?k = Some cc" using c by (auto simp: timer_remove_def)
  obtain k2 where f: "rt_thread_timeout t ?k = Some k2" "kinv k2" "error (thr k2 t) = - RT_ETIMEOUT"
    "runnable (state_of k2 t)"
    "\<forall>u. u \<noteq> t \<longrightarrow> (runnable (state_of k2 u) \<longleftrightarrow> runnable (state_of ?k u)) \<and> error (thr k2 u) = error (thr ?k u)"
    using rt_thread_timeout_kinv [OF k1 s1 n1 c1] by blast
  have c2: "rt_current_thread k2 \<noteq> None" by (rule rt_thread_timeout_current [OF k1 s1 n1 c1 f(1)])
  have q: "quiet ?k k2" by (rule rt_thread_timeout_quiet [OF f(1)])
  have np: "\<not> timer_periodic ?T k2"
    using o q object_cong(4) [of k2 ?k] by (simp add: one_shot_def quiet_def)
  have fn: "timeout_func (timers ?k ?T) = Rt_thread_timeout t"
    using kinv_live(6) [OF k, of t] st by (simp add: thread_object_ok_def)
  have e: "fire_timer (fire_timeout cb) ?T k = Some (clear_flag RT_TIMER_FLAG_ACTIVATED ?T k2)"
    using f(1) np fn by (simp add: fire_timer_def fire_timeout_def)
  have "?T \<notin> set (rt_timer_list k2)" using n1 q by (simp add: quiet_def)
  then have "kinv (clear_flag RT_TIMER_FLAG_ACTIVATED ?T k2)"
    by (intro timer_frame_kinv [OF f(2) timer_frame_steps(3)])
      (auto simp: kinv_timers_distinct [OF f(2)] kinv_timer_active [OF f(2)] kinv_timer_registered [OF f(2)]
        kinv_timer_suspended [OF f(2)])
  moreover have "woken_stay k (clear_flag RT_TIMER_FLAG_ACTIVATED ?T k2)"
  proof -
    have "runnable (state_of k2 u) \<and> error (thr k2 u) = error (thr k u)" if "runnable (state_of k u)" for u
    proof -
      have "u \<noteq> t" using that st by auto
      then show ?thesis using f(5) that by (simp add: timer_remove_def)
    qed
    then show ?thesis by (simp add: woken_stay_def clear_flag_def)
  qed
  ultimately show ?thesis using e c2 f(3,4) by (simp add: clear_flag_def)
qed

lemma fire_timer_user:
  assumes k: "kinv k" and c: "rt_current_thread k \<noteq> None" and cb: "callbacks_ok cb"
    and i: "Timer n \<in> set (rt_timer_list k)" and fn: "timeout_func (timers k (Timer n)) = User_timeout m"
    and p: "timer_periodic (Timer n) k \<Longrightarrow> rt_object_get_type (Obj_timer (Timer n)) k = RT_Object_Class_Timer \<and>
      timer_init_tick (timers k (Timer n)) < RT_TICK_HALF"
  shows "\<exists>k'. fire_timer (fire_timeout cb) (Timer n) k = Some k' \<and> kinv k' \<and> rt_current_thread k' \<noteq> None \<and>
    woken_stay k k'"
proof -
  let ?T = "Timer n"
  let ?k = "timer_remove ?T k"
  have k1: "kinv ?k" by (rule timer_remove_kinv [OF k])
  have c1: "rt_current_thread ?k \<noteq> None" using c by (simp add: timer_remove_def)
  have n1: "?T \<notin> set (rt_timer_list ?k)" using kinv_timers_distinct [OF k] by simp
  obtain k2 where f: "cb m ?k = Some k2" "kinv k2" "rt_current_thread k2 \<noteq> None" "quiet ?k k2" "woken_stay ?k k2"
    using cb k1 c1 unfolding callbacks_ok_def by metis
  have w: "woken_stay k (clear_flag RT_TIMER_FLAG_ACTIVATED ?T k2)"
    using f(5) by (simp add: woken_stay_def clear_flag_def timer_remove_def)
  have n2: "?T \<notin> set (rt_timer_list k2)" using n1 f(4) by (simp add: quiet_def)
  let ?c = "clear_flag RT_TIMER_FLAG_ACTIVATED ?T k2"
  have kc: "kinv ?c"
    using n2 by (intro timer_frame_kinv [OF f(2) timer_frame_steps(3)])
      (auto simp: kinv_timers_distinct [OF f(2)] kinv_timer_active [OF f(2)] kinv_timer_registered [OF f(2)]
        kinv_timer_suspended [OF f(2)])
  have cc: "rt_current_thread ?c \<noteq> None" using f(3) by (simp add: clear_flag_def)
  have o: "objs k2 = objs k" "timers k2 = timers k" "objects k2 = objects k"
    using f(4) by (simp_all add: quiet_def) (simp_all add: timer_remove_def)
  show ?thesis
  proof (cases "timer_periodic ?T k2 \<and> timer_active ?T k2")
    case False
    then show ?thesis using f(1) fn kc cc w by (auto simp: fire_timer_def fire_timeout_def)
  next
    case True
    then have pp: "rt_object_get_type (Obj_timer ?T) k = RT_Object_Class_Timer" "timer_init_tick (timers k ?T) < RT_TICK_HALF"
      using p object_cong(4) [OF o(1)] by auto
    have ty: "rt_object_get_type (Obj_timer ?T) ?c = RT_Object_Class_Timer"
      using pp(1) o(1) by (simp add: rt_object_get_type_def clear_flag_def)
    have reg: "Obj_timer ?T \<in> set (objects ?c RT_Object_Class_Timer)"
      using kinv_timer_registered [OF k i] o(3) by (simp add: clear_flag_def)
    have init: "timer_init_tick (timers ?c ?T) < RT_TICK_HALF" using pp(2) o(2) by simp
    note s = rt_timer_start_kinv [OF kc ty reg init]
    have "fire_timer (fire_timeout cb) ?T k = Some (restarted ?T ?c)"
      using True f(1) fn s(1) by (simp add: fire_timer_def fire_timeout_def)
    moreover have "rt_current_thread (restarted ?T ?c) \<noteq> None"
      using cc restarted_frame [of ?c ?T] by (simp add: timer_frame_def)
    moreover have "woken_stay k (restarted ?T ?c)"
      using w restarted_frame [of ?c ?T] by (simp add: woken_stay_def timer_frame_def)
    ultimately show ?thesis using s(2) by simp
  qed
qed

lemma fire_timer_keeps:
  assumes p: "timer_passive fire" and f: "fire_timer fire i k = Some k'"
  shows "timer_periodic j k' = timer_periodic j k" "timeout_func (timers k' j) = timeout_func (timers k j)"
    "set (rt_timer_list k') \<subseteq> insert i (set (rt_timer_list k))"
proof -
  obtain k1 where k1: "fire (timeout_func (timers k i)) (timer_remove i k) = Some k1"
    using f by (auto simp: fire_timer_def Let_def split: bind_splits)
  have s1: "timers k1 = timers k" "rt_timer_list k1 = remove1 i (rt_timer_list k)" "objs k1 = objs k"
    using p k1 unfolding timer_passive_def by (fastforce simp: timer_remove_def)+
  note f1 = object_cong [OF s1(3)]
  have sub: "set (remove1 i (rt_timer_list k)) \<subseteq> set (rt_timer_list k)" by (rule set_remove1_subset)
  have "timer_periodic j k' = timer_periodic j k \<and> timeout_func (timers k' j) = timeout_func (timers k j) \<and>
    set (rt_timer_list k') \<subseteq> insert i (set (rt_timer_list k))"
  proof (cases "timer_periodic i k1 \<and> timer_active i k1")
    case False
    then have k': "k' = clear_flag RT_TIMER_FLAG_ACTIVATED i k1"
      using f k1 by (auto simp: fire_timer_def Let_def)
    have "timer_periodic j k' = timer_periodic j k" by (simp add: k' f1)
    moreover have "timers k' = timers k" "rt_timer_list k' = remove1 i (rt_timer_list k)"
      using s1 by (simp_all add: k' clear_flag_def)
    ultimately show ?thesis using sub by auto
  next
    case True
    let ?k2 = "clear_flag RT_TIMER_FLAG_ACTIVATED i k1"
    obtain r where r: "rt_timer_start i ?k2 = Some (r, k')"
      using f k1 True by (auto simp: fire_timer_def Let_def split: bind_splits)
    have "rt_object_get_type (Obj_timer i) ?k2 = RT_Object_Class_Timer" "timer_init_tick (timers ?k2 i) < RT_TICK_HALF"
      using r by (auto simp: rt_timer_start_def Let_def split: bind_splits if_splits)
    from rt_timer_start_restarted [OF this] r have k': "k' = restarted i ?k2" by simp
    have l: "rt_timer_list ?k2 = remove1 i (rt_timer_list k)" using s1(2) by (simp add: clear_flag_def)
    have "timer_periodic j k' = timer_periodic j k" unfolding k' restarted_def Let_def by (simp add: f1)
    moreover have "timeout_func (timers k' j) = timeout_func (timers k j)"
      using restarted_frame [of ?k2 i] s1(1) by (simp add: timer_frame_def k' clear_flag_def)
    moreover have "set (rt_timer_list k') \<subseteq> insert i (set (rt_timer_list k))"
      unfolding k' restarted_sel(2) set_timer_insert l using sub set_remove1_subset by fastforce
    ultimately show ?thesis by simp
  qed
  then show "timer_periodic j k' = timer_periodic j k" "timeout_func (timers k' j) = timeout_func (timers k j)"
    "set (rt_timer_list k') \<subseteq> insert i (set (rt_timer_list k))" by simp_all
qed

definition user_timers_ok :: "'a kernel_scheme \<Rightarrow> bool" where
  "user_timers_ok k \<longleftrightarrow>
     (\<forall>n. Timer n \<in> set (rt_timer_list k) \<longrightarrow> (\<exists>m. timeout_func (timers k (Timer n)) = User_timeout m))"

text \<open>What a round of the timer check keeps, and what it does for the threads.\<close>

definition tick_ok :: "'a kernel_scheme \<Rightarrow> bool" where
  "tick_ok k \<longleftrightarrow> kinv k \<and> rt_current_thread k \<noteq> None \<and> one_shot k \<and> user_timers_ok k"

lemma fire_timer_tick_ok:
  assumes t: "tick_ok k" and cb: "callbacks_ok cb" and c: "check_inv base k" and i: "i \<in> set (rt_timer_list k)"
  shows "\<exists>k'. fire_timer (fire_timeout cb) i k = Some k' \<and> tick_ok k' \<and> woken_stay k k' \<and>
    (\<forall>t. i = Thread_timer t \<longrightarrow> runnable (state_of k' t) \<and> error (thr k' t) = - RT_ETIMEOUT)"
proof -
  have t': "kinv k" "rt_current_thread k \<noteq> None" "one_shot k" "user_timers_ok k" using t by (simp_all add: tick_ok_def)
  have "\<exists>k'. fire_timer (fire_timeout cb) i k = Some k' \<and> kinv k' \<and> rt_current_thread k' \<noteq> None \<and> woken_stay k k' \<and>
    (\<forall>t. i = Thread_timer t \<longrightarrow> runnable (state_of k' t) \<and> error (thr k' t) = - RT_ETIMEOUT)"
  proof (cases i)
    case (Thread_timer t)
    then show ?thesis using fire_timer_thread [OF t'(1-3), of t cb] i by auto
  next
    case (Timer n)
    obtain m where m: "timeout_func (timers k (Timer n)) = User_timeout m"
      using t'(4) i Timer by (auto simp: user_timers_ok_def)
    have "rt_object_get_type (Obj_timer (Timer n)) k = RT_Object_Class_Timer \<and>
      timer_init_tick (timers k (Timer n)) < RT_TICK_HALF" if "timer_periodic (Timer n) k"
      using c i that by (auto simp: Timer check_inv_def word_less_nat_alt half)
    from fire_timer_user [OF t'(1,2) cb _ m this] show ?thesis using i Timer by auto
  qed
  then obtain k' where k': "fire_timer (fire_timeout cb) i k = Some k'" "kinv k'" "rt_current_thread k' \<noteq> None"
    "woken_stay k k'" "\<forall>t. i = Thread_timer t \<longrightarrow> runnable (state_of k' t) \<and> error (thr k' t) = - RT_ETIMEOUT" by blast
  note keep = fire_timer_keeps [OF fire_timeout_passive [OF cb] k'(1)]
  have "one_shot k'" using t'(3) keep(1) by (simp add: one_shot_def)
  moreover have "user_timers_ok k'" using t'(4) keep(2) keep(3) i unfolding user_timers_ok_def by auto
  ultimately show ?thesis using k' by (auto simp: tick_ok_def)
qed

lemma fire_seq_wakes:
  assumes "tick_ok k" and cb: "callbacks_ok cb" and "check_inv base k"
    and "filter (\<lambda>j. expired (rt_tick k) j k) (rt_timer_list k) = ts"
  shows "\<exists>k'. fire_seq (fire_timeout cb) ts k = Some k' \<and> tick_ok k' \<and> woken_stay k k' \<and>
    (\<forall>t. Thread_timer t \<in> set ts \<longrightarrow> runnable (state_of k' t) \<and> error (thr k' t) = - RT_ETIMEOUT)"
  using assms(1,3,4)
proof (induction ts arbitrary: k)
  case Nil
  then show ?case by (simp add: woken_stay_def)
next
  case (Cons i ts)
  obtain us where l: "rt_timer_list k = i # us" and x: "expired (rt_tick k) i k"
  proof (cases "rt_timer_list k")
    case (Cons j us)
    with expired_head [OF Cons.prems(2) Cons] Cons.prems(3) that show ?thesis by auto
  qed (use Cons.prems in simp)
  have us: "filter (\<lambda>j. expired (rt_tick k) j k) us = ts" using Cons.prems(3) l x by simp
  have "i \<in> set (rt_timer_list k)" by (simp add: l)
  from fire_timer_tick_ok [OF Cons.prems(1) cb Cons.prems(2) this] obtain k1 where
    k1: "fire_timer (fire_timeout cb) i k = Some k1" "tick_ok k1" "woken_stay k k1"
    "\<forall>t. i = Thread_timer t \<longrightarrow> runnable (state_of k1 t) \<and> error (thr k1 t) = - RT_ETIMEOUT" by blast
  note inv = fire_timer_check_inv [OF fire_timeout_passive [OF cb] Cons.prems(2) l x k1(1)]
  have "filter (\<lambda>j. expired (rt_tick k1) j k1) (rt_timer_list k1) = ts" using inv(2,3) us by simp
  from Cons.IH [OF k1(2) inv(1) this] obtain k' where k': "fire_seq (fire_timeout cb) ts k1 = Some k'" "tick_ok k'"
    "woken_stay k1 k'" "\<forall>t. Thread_timer t \<in> set ts \<longrightarrow> runnable (state_of k' t) \<and> error (thr k' t) = - RT_ETIMEOUT"
    by blast
  have "runnable (state_of k' t) \<and> error (thr k' t) = - RT_ETIMEOUT" if "i = Thread_timer t" for t
    using k1(4) k'(3) that by (simp add: woken_stay_def)
  then show ?case using k1(1) k' woken_stay_trans [OF k1(3) k'(3)] by auto
qed

lemma rt_timer_check_wakes:
  assumes t: "tick_ok k" and cb: "callbacks_ok cb" and c: "check_inv base k"
  shows "\<exists>k'. rt_timer_check (fire_timeout cb) k = Some k' \<and> tick_ok k' \<and> check_inv base k' \<and> rt_tick k' = rt_tick k \<and>
    (\<forall>i \<in> set (rt_timer_list k'). \<not> expired (rt_tick k) i k') \<and> woken_stay k k' \<and>
    (\<forall>t. Thread_timer t \<in> set (rt_timer_list k) \<and> expired (rt_tick k) (Thread_timer t) k \<longrightarrow>
       runnable (state_of k' t) \<and> error (thr k' t) = - RT_ETIMEOUT)"
proof -
  let ?ts = "filter (\<lambda>j. expired (rt_tick k) j k) (rt_timer_list k)"
  obtain k' where k': "fire_seq (fire_timeout cb) ?ts k = Some k'" "tick_ok k'" "woken_stay k k'"
    "\<forall>t. Thread_timer t \<in> set ?ts \<longrightarrow> runnable (state_of k' t) \<and> error (thr k' t) = - RT_ETIMEOUT"
    using fire_seq_wakes [OF t cb c refl] by blast
  have "rt_timer_check (fire_timeout cb) k = Some k' \<and> check_inv base k' \<and> rt_tick k' = rt_tick k \<and>
    (\<forall>j \<in> set (rt_timer_list k'). \<not> expired (rt_tick k) j k')"
    using rt_timer_check_loop_fold [OF fire_timeout_passive [OF cb] c refl] k'(1)
    by (simp add: rt_timer_check_def rt_tick_get_def)
  then show ?thesis using k' by auto
qed

subsection \<open>The tick interrupt\<close>

text \<open>The time slice of the running thread, up to the call of \<open>rt_timer_check\<close>.\<close>

lemma rt_tick_increase_slice:
  assumes k: "kinv k" and c: "rt_current_thread k = Some t"
  shows "\<exists>k1. rt_tick_increase cb k = rt_timer_check (fire_timeout cb) k1 \<and> kinv k1 \<and>
    rt_current_thread k1 \<noteq> None \<and> rt_tick k1 = rt_tick k + 1 \<and> objs k1 = objs k \<and> timers k1 = timers k \<and>
    rt_timer_list k1 = rt_timer_list k \<and> woken_stay k k1 \<and>
    remaining_tick (thr k1 t) = (if remaining_tick (thr k t) = 1 then init_tick (thr k t) else remaining_tick (thr k t) - 1) \<and>
    (remaining_tick (thr k t) \<noteq> 1 \<longrightarrow> rt_current_thread k1 = Some t)"
proof -
  let ?k1 = "k\<lparr>rt_tick := rt_tick k + 1\<rparr>"
  let ?dec = "\<lambda>c. c\<lparr>remaining_tick := remaining_tick c - 1\<rparr>"
  let ?k2 = "upd_thr t ?dec ?k1"
  let ?slice = "\<lambda>c. c\<lparr>remaining_tick := init_tick c, stat := stat c OR RT_THREAD_STAT_YIELD\<rparr>"
  let ?k3 = "upd_thr t ?slice ?k2"
  have k1: "kinv ?k1"
  proof (rule objects_kinv [OF k])
    show "timer_active i ?k1 \<and> Obj_timer i \<in> set (objects ?k1 RT_Object_Class_Timer)" if "i \<in> set (rt_timer_list k)" for i
      using that kinv_timer_active [OF k] kinv_timer_registered [OF k] by (simp add: timer_active_def)
    show "thread_object_ok x ?k1" if "live (state_of k x)" for x
      using kinv_live(6) [OF k that] by (simp add: thread_object_ok_def object_defs)
  qed (use kinv_registered [OF k] in simp_all)
  have d: "th_stat (?dec x) = th_stat x" for x :: rt_thread by (simp add: th_stat_def)
  have sl: "th_stat (?slice x) = th_stat x" for x :: rt_thread
  proof -
    have "th_stat (?slice x) = th_stat (x\<lparr>stat := stat x OR RT_THREAD_STAT_YIELD\<rparr>)" by (simp add: th_stat_def)
    then show ?thesis by simp
  qed
  have k2: "kinv ?k2" by (rule upd_thr_kinv' [OF k1]) (simp_all add: d)
  show ?thesis
  proof (cases "remaining_tick (thr k t) = 1")
    case False
    then have "rt_tick_increase cb k = rt_timer_check (fire_timeout cb) ?k2"
      using c by (simp add: rt_tick_increase_def rt_thread_self_def Let_def)
    then show ?thesis using k2 c False by (intro exI [of _ ?k2]) (simp add: woken_stay_def d)
  next
    case True
    have k3: "kinv ?k3" by (rule upd_thr_kinv' [OF k2]) (simp_all add: sl d)
    have c3: "rt_current_thread ?k3 = Some t" using c by simp
    obtain k4 where s: "rt_schedule ?k3 = Some k4" "kinv k4" "sched_frame ?k3 k4"
      using rt_schedule_kinv [OF k3 c3] by blast
    have "rt_tick_increase cb k = rt_timer_check (fire_timeout cb) k4"
      using c True s(1) by (simp add: rt_tick_increase_def rt_thread_self_def rt_thread_yield_def Let_def)
    moreover have "rt_current_thread k4 \<noteq> None" by (rule rt_schedule_current [OF k3 c3 s(1)])
    moreover have e: "runnable (state_of k4 u) = runnable (state_of ?k3 u) \<and> error (thr k4 u) = error (thr ?k3 u) \<and>
      remaining_tick (thr k4 u) = remaining_tick (thr ?k3 u)" for u
    proof -
      obtain x where "thr k4 u = (thr ?k3 u)\<lparr>stat := x\<rparr>" using s(3) unfolding sched_frame_def by blast
      moreover have "runnable (state_of k4 u) = runnable (state_of ?k3 u)" using s(3) by (simp add: sched_frame_def)
      ultimately show ?thesis by simp
    qed
    moreover have "woken_stay k k4" using e by (simp add: woken_stay_def d sl)
    ultimately show ?thesis using s True by (intro exI [of _ k4]) (simp add: sched_frame_def)
  qed
qed

lemma rt_tick_increase_wakes:
  assumes t: "tick_ok k" and cb: "callbacks_ok cb" and c: "check_inv base (k\<lparr>rt_tick := rt_tick k + 1\<rparr>)"
  shows "\<exists>k'. rt_tick_increase cb k = Some k' \<and> tick_ok k' \<and> rt_tick k' = rt_tick k + 1 \<and>
    (\<forall>i \<in> set (rt_timer_list k'). \<not> expired (rt_tick k') i k') \<and>
    (\<forall>t. Thread_timer t \<in> set (rt_timer_list k) \<and> expired (rt_tick k + 1) (Thread_timer t) k \<longrightarrow>
       runnable (state_of k' t) \<and> error (thr k' t) = - RT_ETIMEOUT)"
proof -
  from t obtain u where u: "kinv k" "rt_current_thread k = Some u" by (auto simp: tick_ok_def)
  obtain k1 where k1: "rt_tick_increase cb k = rt_timer_check (fire_timeout cb) k1" "kinv k1"
    "rt_current_thread k1 \<noteq> None" "rt_tick k1 = rt_tick k + 1" "objs k1 = objs k" "timers k1 = timers k"
    "rt_timer_list k1 = rt_timer_list k" using rt_tick_increase_slice [OF u] by blast
  have "tick_ok k1"
    using t k1 by (simp add: tick_ok_def one_shot_def user_timers_ok_def object_cong(4) [OF k1(5)])
  moreover have "check_inv base k1"
    using c k1 by (simp add: check_inv_def object_cong(1,4) [OF k1(5)]) (simp add: object_defs timer_periodic_def)
  ultimately show ?thesis using rt_timer_check_wakes [of k1 cb base] cb k1 by (auto simp: expired_def)
qed

subsection \<open>The idle thread reaps every deleted thread\<close>

definition reapable :: "'a kernel_scheme \<Rightarrow> bool" where
  "reapable k \<longleftrightarrow> (\<forall>t \<in> set (tlists k Defunct).
     \<not> rt_object_is_systemobject (Obj_thread t) k \<and> \<not> has_cleanup (thr k t))"

lemma idle_reap_kinv:
  assumes k: "kinv k" and l: "lock_ok k" and n: "rt_interrupt_nest k = 0" and r: "reapable k"
    and d: "tlists k Defunct = t # ts"
  shows "\<exists>k'. idle_reap cleanup k = Some (False, k') \<and> kinv k' \<and> lock_ok k' \<and> rt_interrupt_nest k' = 0 \<and>
    reapable k' \<and> tlists k' Defunct = ts \<and> objects k' = (\<lambda>ty. remove1 (Obj_thread t) (objects k ty))"
proof -
  let ?k = "unlink t k"
  have cl: "state_of k t = RT_THREAD_CLOSE" using kinv_defunct [OF k, of t] d by simp
  have k1: "kinv ?k" by (rule unlink_kinv [OF k]) (simp add: cl)
  have l1: "lock_ok ?k" using l by (simp add: lock_ok_def)
  obtain k2 where c: "rt_exit_critical (rt_enter_critical ?k) = Some k2" "kinv k2" "sched_frame ?k k2"
    using critical_section_kinv [OF k1 l1] by blast
  have u: "unused t ?k"
    using cl kinv_timer_suspended [OF k, of t] unlinked_unlink [OF kinv_lists [OF k]] by (auto simp: unused_def)
  have u2: "unused t k2" by (rule sched_frame_unused [OF c(2,3) u])
  have dyn: "\<not> rt_object_is_systemobject (Obj_thread x) k" "\<not> has_cleanup (thr k x)" if "x \<in> set (t # ts)" for x
    using r d that by (auto simp: reapable_def)
  have o2: "objs k2 = objs k" "objects k2 = objects k" "tlists k2 Defunct = ts" "rt_interrupt_nest k2 = 0" "lock_ok k2"
    using c(3) d n l by (simp_all add: sched_frame_def l_unlink_def lock_ok_def)
  have s2: "otype (objs k2 (Obj_thread t)) AND RT_Object_Class_Static = 0"
    using dyn(1) [of t] o2(1) by (simp add: rt_object_is_systemobject_def)
  let ?k' = "rt_object_detach (Obj_thread t) k2"
  have k': "kinv ?k'" by (rule detach_thread_objects_kinv [OF c(2) u2]) simp
  have hc: "has_cleanup (thr k2 x) = has_cleanup (thr k x)" for x
  proof -
    obtain y where "thr k2 x = (thr k x)\<lparr>stat := y\<rparr>" using c(3) unfolding sched_frame_def by fastforce
    then show ?thesis by simp
  qed
  have dist: "t \<notin> set ts" using kinv_lists [OF k] d unfolding lists_ok_def by (metis distinct.simps(2))
  have r': "reapable ?k'"
    unfolding reapable_def
  proof
    fix x
    assume "x \<in> set (tlists ?k' Defunct)"
    then have x: "x \<in> set ts" "x \<noteq> t" using o2(3) dist by auto
    show "\<not> rt_object_is_systemobject (Obj_thread x) ?k' \<and> \<not> has_cleanup (thr ?k' x)"
      using x dyn [of x] hc o2(1) by (simp add: rt_object_is_systemobject_def)
  qed
  have same: "has_cleanup (thr (rt_enter_critical ?k) t) = has_cleanup (thr k t)"
    "rt_object_is_systemobject r (rt_enter_critical ?k) = rt_object_is_systemobject r k" for r
    by (simp_all add: rt_enter_critical_def rt_object_is_systemobject_def)
  have "idle_reap cleanup k = Some (False, ?k')"
    using n d dyn [of t] c(1) s2 by (simp add: idle_reap_def first_entry_def same rt_object_delete_def
      RT_DEBUG_NOT_IN_INTERRUPT_def rt_interrupt_get_nest_def)
  then show ?thesis using k' r' o2 by (simp add: lock_ok_def)
qed

lemma rt_thread_idle_excute_kinv:
  assumes "kinv k" "lock_ok k" "rt_interrupt_nest k = 0" "reapable k"
  shows "\<exists>k'. rt_thread_idle_excute cleanup k = Some k' \<and> kinv k' \<and> tlists k' Defunct = [] \<and>
    objects k' = (\<lambda>ty. fold (\<lambda>t. remove1 (Obj_thread t)) (tlists k Defunct) (objects k ty))"
  using assms
proof (induction "tlists k Defunct" arbitrary: k)
  case Nil
  then show ?case by (subst rt_thread_idle_excute.simps) (simp add: has_defunct_thread_def flip: Nil.hyps)
next
  case (Cons t ts)
  obtain k1 where k1: "idle_reap cleanup k = Some (False, k1)" "kinv k1" "lock_ok k1" "rt_interrupt_nest k1 = 0"
    "reapable k1" "tlists k1 Defunct = ts" "objects k1 = (\<lambda>ty. remove1 (Obj_thread t) (objects k ty))"
    using idle_reap_kinv [OF Cons.prems Cons.hyps(2) [symmetric]] by blast
  have "rt_thread_idle_excute cleanup k = rt_thread_idle_excute cleanup k1"
    by (subst rt_thread_idle_excute.simps) (simp add: has_defunct_thread_def k1(1) flip: Cons.hyps(2))
  with Cons.hyps(1) [OF k1(6) [symmetric] k1(2-5)] show ?case
    using k1(6,7) Cons.hyps(2) [symmetric] by simp
qed

end
