(* ===== verification/IpcBase.thy ===== *)
theory IpcBase
  imports Clock
begin

text \<open>
  What the inter-process communication objects of \<^verbatim>\<open>src/ipc.c\<close> share: their state, the queue of
  waiting threads that each of them has, and the ways into and out of that queue. The waiting list
  of object \<open>n\<close> is \<open>SuspendQ n\<close>, the list of threads waiting to send to it is \<open>SenderQ n\<close>.
\<close>

subsection \<open>The objects\<close>

record rt_semaphore =
  sem_value :: u16

record rt_mutex =
  mutex_value :: u16
  original_priority :: nat
  hold :: u8
  owner :: "tid option"

record rt_event =
  events :: u32

record rt_mailbox =
  mb_pool :: "u32 list"
  mb_size :: u16
  mb_entry :: u16
  in_offset :: u16
  out_offset :: u16

text \<open>
  A message slot is named by its index in the pool: \<open>mq_next\<close> is its \<open>next\<close> pointer,
  \<open>mq_data\<close> the \<open>msg_size\<close> bytes behind its header.
\<close>

record rt_messagequeue =
  mq_next :: "nat \<Rightarrow> nat option"
  mq_data :: "nat \<Rightarrow> u8 list"
  msg_size :: u16
  max_msgs :: u16
  mq_entry :: u16
  msg_queue_head :: "nat option"
  msg_queue_tail :: "nat option"
  msg_queue_free :: "nat option"

record ipc = kernel +
  sems :: "nat \<Rightarrow> rt_semaphore"
  mutexes :: "nat \<Rightarrow> rt_mutex"
  event_objs :: "nat \<Rightarrow> rt_event"
  mailboxes :: "nat \<Rightarrow> rt_mailbox"
  mqs :: "nat \<Rightarrow> rt_messagequeue"

definition RT_IPC_FLAG_FIFO :: u8 where "RT_IPC_FLAG_FIFO = 0"
definition RT_IPC_FLAG_PRIO :: u8 where "RT_IPC_FLAG_PRIO = 1"
definition RT_IPC_CMD_RESET :: int where "RT_IPC_CMD_RESET = 1"

text \<open>
  A call that may block either returns, or gives the processor away and keeps what its local
  variables hold for the time it runs again.
\<close>

datatype ('v, 'w) outcome = Returns 'v | Blocks 'w

definition ipc_flag :: "nat \<Rightarrow> 'a kernel_scheme \<Rightarrow> u8" where
  "ipc_flag n k = oflag (objs k (Obj_ipc n))"

definition set_ipc_flag :: "nat \<Rightarrow> u8 \<Rightarrow> 'a kernel_scheme \<Rightarrow> 'a kernel_scheme" where
  "set_ipc_flag n f k = upd_obj (Obj_ipc n) (\<lambda>ob. ob\<lparr>oflag := f\<rparr>) k"

subsection \<open>The queue of waiting threads\<close>

definition rt_ipc_object_init :: "list_id \<Rightarrow> 'a kernel_scheme \<Rightarrow> int \<times> 'a kernel_scheme" where
  "rt_ipc_object_init l k = (RT_EOK, k\<lparr>tlists := (tlists k)(l := [])\<rparr>)"

text \<open>The loop of \<open>RT_IPC_FLAG_PRIO\<close>: the first thread that is less urgent.\<close>

fun first_lower :: "('t \<Rightarrow> nat) \<Rightarrow> nat \<Rightarrow> 't list \<Rightarrow> 't option" where
  "first_lower prio p [] = None"
| "first_lower prio p (s # ss) = (if p < prio s then Some s else first_lower prio p ss)"

definition rt_ipc_list_suspend ::
  "list_id \<Rightarrow> tid \<Rightarrow> u8 \<Rightarrow> 'a kernel_scheme \<Rightarrow> (int \<times> 'a kernel_scheme) option" where
  "rt_ipc_list_suspend l t flag k = do {
     (_, k) \<leftarrow> rt_thread_suspend t k;
     Some (RT_EOK,
       if flag = RT_IPC_FLAG_FIFO then k\<lparr>tlists := l_append l t (tlists k)\<rparr>
       else if flag = RT_IPC_FLAG_PRIO then
         case first_lower (prio_of k) (prio_of k t) (tlists k l) of
           Some s \<Rightarrow> k\<lparr>tlists := l_insert_before s t (tlists k)\<rparr>
         | None \<Rightarrow> k\<lparr>tlists := l_append l t (tlists k)\<rparr>
       else k) }"

definition rt_ipc_list_resume :: "list_id \<Rightarrow> 'a kernel_scheme \<Rightarrow> (int \<times> 'a kernel_scheme) option" where
  "rt_ipc_list_resume l k = do {
     t \<leftarrow> first_entry l k;
     (_, k) \<leftarrow> rt_thread_resume t k;
     Some (RT_EOK, k) }"

partial_function (option) rt_ipc_list_resume_all ::
  "list_id \<Rightarrow> 'a kernel_scheme \<Rightarrow> (int \<times> 'a kernel_scheme) option" where
  "rt_ipc_list_resume_all l k =
     (if tlists k l = [] then Some (RT_EOK, k)
      else do {
        t \<leftarrow> first_entry l k;
        let k = upd_thr t (set_error (- RT_ERROR)) k;
        (_, k) \<leftarrow> rt_thread_resume t k;
        rt_ipc_list_resume_all l k })"

text \<open>
  What every blocking call does to wait: into the queue, a timer when there is a timeout, and away
  with the processor. And what every call that lets a waiter go does: the first one is resumed and
  the scheduler runs.
\<close>

definition ipc_wait :: "list_id \<Rightarrow> tid \<Rightarrow> u8 \<Rightarrow> int \<Rightarrow> 'a kernel_scheme \<Rightarrow> 'a kernel_scheme option" where
  "ipc_wait l t flag time k = do {
     (_, k) \<leftarrow> rt_ipc_list_suspend l t flag k;
     k \<leftarrow> (if 0 < time then arm_timer t (word_of_int time) k else Some k);
     rt_schedule k }"

definition ipc_wake :: "list_id \<Rightarrow> 'a kernel_scheme \<Rightarrow> 'a kernel_scheme option" where
  "ipc_wake l k = do {
     (_, k) \<leftarrow> rt_ipc_list_resume l k;
     rt_schedule k }"

subsection \<open>What waiting and waking leave alone\<close>

definition waiting_list :: "list_id \<Rightarrow> bool" where
  "waiting_list l \<longleftrightarrow> (\<exists>n. l = SuspendQ n \<or> l = SenderQ n)"

lemma waiting_list_simps [simp]:
  "waiting_list (SuspendQ n)" "waiting_list (SenderQ n)" "\<not> waiting_list (ReadyQ p)" "\<not> waiting_list Defunct"
  by (simp_all add: waiting_list_def)

definition ipc_frame :: "'a kernel_scheme \<Rightarrow> 'a kernel_scheme \<Rightarrow> bool" where
  "ipc_frame k k' \<longleftrightarrow>
     rt_scheduler_lock_nest k' = rt_scheduler_lock_nest k \<and> rt_interrupt_nest k' = rt_interrupt_nest k \<and>
     rt_tick k' = rt_tick k \<and> objects k' = objects k \<and> kernel.more k' = kernel.more k \<and>
     (\<forall>r. otype (objs k' r) = otype (objs k r)) \<and> (\<forall>n. objs k' (Obj_ipc n) = objs k (Obj_ipc n)) \<and>
     (\<forall>t. event_set (thr k' t) = event_set (thr k t) \<and> event_info (thr k' t) = event_info (thr k t) \<and>
        prio_of k' t = prio_of k t \<and> init_priority (thr k' t) = init_priority (thr k t))"

lemma ipc_frame_refl [simp]: "ipc_frame k k"
  by (simp add: ipc_frame_def)

lemma ipc_frame_trans [trans]: "ipc_frame a b \<Longrightarrow> ipc_frame b c \<Longrightarrow> ipc_frame a c"
  by (simp add: ipc_frame_def)

lemma ipc_frame_obj:
  assumes "ipc_frame k k'"
  shows "rt_object_get_type r k' = rt_object_get_type r k" "ipc_flag n k' = ipc_flag n k"
    "rt_object_is_systemobject r k' = rt_object_is_systemobject r k"
    "kernel.more k' = kernel.more k" "rt_tick k' = rt_tick k" "rt_interrupt_nest k' = rt_interrupt_nest k"
    "prio_of k' t = prio_of k t" "event_set (thr k' t) = event_set (thr k t)"
    "event_info (thr k' t) = event_info (thr k t)"
  using assms by (simp_all add: ipc_frame_def ipc_flag_def object_defs)

lemma ipc_frame_lists [simp]: "ipc_frame k (k\<lparr>tlists := L\<rparr>)"
  by (simp add: ipc_frame_def)

lemma thread_frame_ipc: "thread_frame t k k' \<Longrightarrow> ipc_frame k k'"
proof -
  assume f: "thread_frame t k k'"
  then obtain s where s: "thr k' t = (thr k t)\<lparr>stat := s\<rparr>" by (auto simp: thread_frame_def)
  have "event_set (thr k' u) = event_set (thr k u) \<and> event_info (thr k' u) = event_info (thr k u) \<and>
    prio_of k' u = prio_of k u \<and> init_priority (thr k' u) = init_priority (thr k u)" for u
    using f s by (cases "u = t") (auto simp: thread_frame_def)
  then show ?thesis using f by (simp add: ipc_frame_def thread_frame_def)
qed

lemma timer_frame_ipc: "timer_frame k k' \<Longrightarrow> ipc_frame k k'"
  by (simp add: timer_frame_def ipc_frame_def)

lemma sched_frame_ipc: "sched_frame k k' \<Longrightarrow> ipc_frame k k'"
proof -
  assume f: "sched_frame k k'"
  have "event_set (thr k' u) = event_set (thr k u) \<and> event_info (thr k' u) = event_info (thr k u) \<and>
    prio_of k' u = prio_of k u \<and> init_priority (thr k' u) = init_priority (thr k u)" for u
  proof -
    obtain s where "thr k' u = (thr k u)\<lparr>stat := s\<rparr>" using f unfolding sched_frame_def by blast
    then show ?thesis by simp
  qed
  then show ?thesis using f by (simp add: ipc_frame_def sched_frame_def)
qed

lemma sched_frame_error: "sched_frame k k' \<Longrightarrow> error (thr k' t) = error (thr k t)"
proof -
  assume "sched_frame k k'"
  then obtain s where "thr k' t = (thr k t)\<lparr>stat := s\<rparr>" unfolding sched_frame_def by blast
  then show ?thesis by simp
qed

lemma thread_frame_error: "thread_frame t k k' \<Longrightarrow> error (thr k' u) = error (thr k u)"
  by (cases "u = t") (auto simp: thread_frame_def)

lemma set_error_ipc [simp]: "ipc_frame k (upd_thr t (set_error e) k)"
  by (simp add: ipc_frame_def) (simp add: set_error_def)

subsection \<open>Entering the queue\<close>

fun prio_insert :: "('t \<Rightarrow> nat) \<Rightarrow> 't \<Rightarrow> 't list \<Rightarrow> 't list" where
  "prio_insert prio t [] = [t]"
| "prio_insert prio t (s # ss) = (if prio t < prio s then t # s # ss else s # prio_insert prio t ss)"

definition queued :: "u8 \<Rightarrow> ('t \<Rightarrow> nat) \<Rightarrow> 't \<Rightarrow> 't list \<Rightarrow> 't list" where
  "queued flag prio t ts = (if flag = RT_IPC_FLAG_FIFO then ts @ [t] else prio_insert prio t ts)"

lemma set_prio_insert [simp]: "set (prio_insert prio t ts) = insert t (set ts)"
  by (induction ts) auto

lemma set_queued [simp]: "set (queued flag prio t ts) = insert t (set ts)"
  by (simp add: queued_def)

lemma queued_ne [simp]: "queued flag prio t ts \<noteq> []"
  by (cases ts) (simp_all add: queued_def)

lemma length_queued [simp]: "length (queued flag prio t ts) = Suc (length ts)"
proof -
  have "length (prio_insert prio t ts) = Suc (length ts)" by (induction ts) auto
  then show ?thesis by (simp add: queued_def)
qed

lemma prio_insert_cong:
  "(\<And>s. s \<in> insert t (set ts) \<Longrightarrow> p s = p' s) \<Longrightarrow> prio_insert p t ts = prio_insert p' t ts"
  by (induction ts) auto

lemma queued_cong:
  assumes "\<And>s. s \<in> insert t (set ts) \<Longrightarrow> p s = p' s"
  shows "queued f p t ts = queued f p' t ts"
proof -
  have "prio_insert p t ts = prio_insert p' t ts" by (rule prio_insert_cong) (rule assms)
  then show ?thesis by (simp only: queued_def)
qed

text \<open>Among waiters in order of priority a new one comes behind those at least as urgent.\<close>

lemma prio_insert_sorted:
  "sorted (map prio ts) \<Longrightarrow> sorted (map prio (prio_insert prio t ts))"
  by (induction ts) auto

lemma prio_insert_split:
  "sorted (map prio ts) \<Longrightarrow>
   prio_insert prio t ts = filter (\<lambda>s. prio s \<le> prio t) ts @ t # filter (\<lambda>s. prio t < prio s) ts"
proof (induction ts)
  case (Cons s ss)
  then show ?case
  proof (cases "prio t < prio s")
    case True
    then have "\<forall>x \<in> set ss. prio t < prio x" using Cons.prems by auto
    then have "filter (\<lambda>s. prio s \<le> prio t) ss = []" "filter (\<lambda>s. prio t < prio s) ss = ss"
      by (auto simp: filter_empty_conv intro: filter_True)
    then show ?thesis using True by simp
  qed (use Cons in auto)
qed simp

lemma first_lower_set: "first_lower prio p ts = Some s \<Longrightarrow> s \<in> set ts"
  by (induction ts) (auto split: if_splits)

lemma first_lower_insert:
  "distinct ts \<Longrightarrow> prio_insert prio t ts =
     (case first_lower prio (prio t) ts of Some s \<Rightarrow> insert_before_elem s t ts | None \<Rightarrow> ts @ [t])"
proof (induction ts)
  case (Cons s ss)
  then show ?case
    by (auto split: option.splits dest: first_lower_set)
qed simp

lemma enqueue_kinv:
  assumes k: "kinv k" and f: "floating t k" and w: "waiting_list l" and ok: "lists_ok L"
    and same: "\<And>l'. l' \<noteq> l \<Longrightarrow> L l' = tlists k l'" and new: "set (L l) = insert t (set (tlists k l))"
  shows "kinv (k\<lparr>tlists := L\<rparr>)"
proof (rule kinvI)
  let ?k = "k\<lparr>tlists := L\<rparr>"
  have st: "state_of k t = RT_THREAD_SUSPEND" using f by (simp add: floating_def)
  have r: "L (ReadyQ p) = tlists k (ReadyQ p)" for p using w by (intro same) auto
  have i: "x \<in> set (L l') \<longleftrightarrow> x \<in> set (tlists k l') \<or> (x = t \<and> l' = l)" for x l'
    using same new by (cases "l' = l") auto
  show "lists_ok (tlists ?k)" using ok by simp
  show "x \<in> set (tlists ?k (ReadyQ p)) \<longleftrightarrow> state_of ?k x = RT_THREAD_READY \<and> prio_of ?k x = p" for x p
    using kinv_ready [OF k] by (simp add: r)
  show "case l' of ReadyQ p \<Rightarrow> True | Defunct \<Rightarrow> state_of ?k x = RT_THREAD_CLOSE
    | _ \<Rightarrow> state_of ?k x = RT_THREAD_SUSPEND" if "x \<in> set (tlists ?k l')" for l' x
    using that kinv_linked [OF k, of x l'] st w by (auto simp: i split: list_id.splits)
  show "bit (rt_thread_ready_priority_group ?k) p \<longleftrightarrow> tlists ?k (ReadyQ p) \<noteq> []" for p
    using kinv_group [OF k] by (simp add: r)
  show "timer_ok ?k"
    using kinv_timers_distinct [OF k] kinv_timer_active [OF k] kinv_timer_suspended [OF k]
    by (simp add: timer_ok_def timer_active_def)
  show "Obj_thread x \<in> set (objects ?k RT_Object_Class_Thread)" if "x \<in> set (tlists ?k l')" for x l'
    using that kinv_registered [OF k] kinv_live(5) [OF k, of t] st by (auto simp: i)
  show "thread_object_ok x ?k" if "live (state_of ?k x)" for x
    using that kinv_live(6) [OF k, of x] by (simp add: thread_object_ok_def object_defs)
qed (use kinv_live [OF k] kinv_running [OF k] kinv_current [OF k] kinv_timer_registered [OF k] in auto)

lemma rt_ipc_list_suspend_kinv:
  assumes k: "kinv k" and st: "state_of k t = RT_THREAD_READY \<or> state_of k t = RT_THREAD_RUNNING"
    and w: "waiting_list l" and fl: "flag = RT_IPC_FLAG_FIFO \<or> flag = RT_IPC_FLAG_PRIO"
  shows "\<exists>k'. rt_ipc_list_suspend l t flag k = Some (RT_EOK, k') \<and> kinv k' \<and> thread_frame t k k' \<and>
    state_of k' t = RT_THREAD_SUSPEND \<and> Thread_timer t \<notin> set (rt_timer_list k') \<and>
    tlists k' = (l_unlink t (tlists k))(l := queued flag (prio_of k) t (tlists k l))"
proof -
  obtain k1 where s: "rt_thread_suspend t k = Some (RT_EOK, k1)" "kinv k1" "floating t k1" "thread_frame t k k1"
    "tlists k1 = l_unlink t (tlists k)" using rt_thread_suspend_kinv [OF k st] by blast
  note ok = kinv_lists [OF s(2)]
  have u: "unlinked t (tlists k1)" using s(3) by (simp add: floating_def)
  have pr: "prio_of k1 = prio_of k" using ipc_frame_obj(7) [OF thread_frame_ipc [OF s(4)]] by blast
  have nl: "t \<notin> set (tlists k l)"
    using st w kinv_linked [OF k, of t l] by (auto simp: waiting_list_def)
  have l1: "tlists k1 l = tlists k l" using nl by (simp add: s(5) unlink_notin)
  have d: "distinct (tlists k l)" using kinv_lists [OF k] by (simp add: lists_ok_def)
  let ?L = "(tlists k1)(l := queued flag (prio_of k) t (tlists k l))"
  have eq: "rt_ipc_list_suspend l t flag k = Some (RT_EOK, k1\<lparr>tlists := ?L\<rparr>) \<and> lists_ok ?L"
  proof (cases "flag = RT_IPC_FLAG_FIFO")
    case True
    then have "?L = l_append l t (tlists k1)" by (simp add: queued_def l_append_def l1)
    then show ?thesis using True s(1) lists_ok_append [OF ok u] by (simp add: rt_ipc_list_suspend_def)
  next
    case False
    then have p: "flag = RT_IPC_FLAG_PRIO" "queued flag (prio_of k) t (tlists k l) = prio_insert (prio_of k) t (tlists k l)"
      using fl by (simp_all add: queued_def)
    note fli = first_lower_insert [OF d, of "prio_of k" t]
    show ?thesis
    proof (cases "first_lower (prio_of k) (prio_of k t) (tlists k l)")
      case None
      then have L: "?L = l_append l t (tlists k1)" using p(2) fli by (simp add: l_append_def l1)
      have "rt_ipc_list_suspend l t flag k = Some (RT_EOK, k1\<lparr>tlists := l_append l t (tlists k1)\<rparr>)"
        using False p(1) None s(1) pr fun_cong [OF pr, of t] l1 by (simp add: rt_ipc_list_suspend_def)
      then show ?thesis unfolding L using lists_ok_append [OF ok u] by simp
    next
      case (Some x)
      have x: "x \<in> set (tlists k1 l)" using first_lower_set [OF Some] l1 by simp
      have "l_insert_before x t (tlists k1) l' = ?L l'" for l'
      proof (cases "l' = l")
        case True
        then show ?thesis using p(2) fli Some l1 by (simp add: l_insert_before_def)
      next
        case False
        then have "x \<notin> set (tlists k1 l')" using x ok unfolding lists_ok_def by blast
        then show ?thesis using False by (simp add: l_insert_before_def insert_before_elem_notin)
      qed
      then have L: "?L = l_insert_before x t (tlists k1)" by (simp add: fun_eq_iff)
      have "rt_ipc_list_suspend l t flag k = Some (RT_EOK, k1\<lparr>tlists := l_insert_before x t (tlists k1)\<rparr>)"
        using False p(1) Some s(1) pr fun_cong [OF pr, of t] l1 by (simp add: rt_ipc_list_suspend_def)
      then show ?thesis unfolding L using lists_ok_insert_before [OF ok u] by simp
    qed
  qed
  have "kinv (k1\<lparr>tlists := ?L\<rparr>)"
    by (rule enqueue_kinv [OF s(2,3) w]) (use eq l1 in simp_all)
  moreover have "thread_frame t k (k1\<lparr>tlists := ?L\<rparr>)" using s(4) by (simp add: thread_frame_def)
  moreover have "state_of k1 t = RT_THREAD_SUSPEND" "Thread_timer t \<notin> set (rt_timer_list k1)"
    using s(3) by (simp_all add: floating_def)
  ultimately show ?thesis using eq s(5) by (intro exI [of _ "k1\<lparr>tlists := ?L\<rparr>"]) simp
qed

subsection \<open>Leaving the queue\<close>

text \<open>
  \<open>wakes l T k k'\<close>: from \<open>k\<close> to \<open>k'\<close> the threads \<open>T\<close> became runnable and no other, and of the
  waiting lists only \<open>l\<close> changed.
\<close>

definition wakes :: "list_id \<Rightarrow> tid set \<Rightarrow> 'a kernel_scheme \<Rightarrow> 'a kernel_scheme \<Rightarrow> bool" where
  "wakes l T k k' \<longleftrightarrow> ipc_frame k k' \<and>
     (\<forall>l'. waiting_list l' \<and> l' \<noteq> l \<longrightarrow> tlists k' l' = tlists k l') \<and>
     (\<forall>u. runnable (state_of k' u) \<longleftrightarrow> runnable (state_of k u) \<or> u \<in> T) \<and>
     (\<forall>u. \<not> runnable (state_of k' u) \<longrightarrow> thr k' u = thr k u)"

lemma wakes_frame: "wakes l T k k' \<Longrightarrow> ipc_frame k k'"
  and wakes_runnable: "wakes l T k k' \<Longrightarrow> runnable (state_of k' u) \<longleftrightarrow> runnable (state_of k u) \<or> u \<in> T"
  and wakes_other: "wakes l T k k' \<Longrightarrow> waiting_list l' \<Longrightarrow> l' \<noteq> l \<Longrightarrow> tlists k' l' = tlists k l'"
  and wakes_thr: "wakes l T k k' \<Longrightarrow> \<not> runnable (state_of k' u) \<Longrightarrow> thr k' u = thr k u"
  unfolding wakes_def by blast+

lemma wakesI:
  assumes "ipc_frame k k'" "\<And>l'. waiting_list l' \<Longrightarrow> l' \<noteq> l \<Longrightarrow> tlists k' l' = tlists k l'"
    "\<And>u. runnable (state_of k' u) \<longleftrightarrow> runnable (state_of k u) \<or> u \<in> T"
    "\<And>u. \<not> runnable (state_of k' u) \<Longrightarrow> thr k' u = thr k u"
  shows "wakes l T k k'"
  unfolding wakes_def using assms by blast

lemma wakes_refl [simp]: "wakes l {} k k"
  by (simp add: wakes_def)

lemma wakes_trans:
  assumes a: "wakes l T a b" and b: "wakes l U b c"
  shows "wakes l (T \<union> U) a c"
proof (rule wakesI)
  show "ipc_frame a c" by (rule ipc_frame_trans [OF wakes_frame [OF a] wakes_frame [OF b]])
  show "tlists c l' = tlists a l'" if "waiting_list l'" "l' \<noteq> l" for l'
    using wakes_other [OF a that] wakes_other [OF b that] by simp
  show r: "runnable (state_of c u) \<longleftrightarrow> runnable (state_of a u) \<or> u \<in> T \<union> U" for u
    using wakes_runnable [OF a, of u] wakes_runnable [OF b, of u] by simp
  show "thr c u = thr a u" if "\<not> runnable (state_of c u)" for u
  proof -
    have "\<not> runnable (state_of b u)" using wakes_runnable [OF b, of u] that by simp
    then show ?thesis using wakes_thr [OF a, of u] wakes_thr [OF b that] by simp
  qed
qed

lemma sched_frame_waiting: "sched_frame k k' \<Longrightarrow> waiting_list l' \<Longrightarrow> tlists k' l' = tlists k l'"
  by (auto simp: sched_frame_def waiting_list_def)

lemma sched_frame_wakes:
  assumes f: "sched_frame k k'"
  shows "wakes l {} k k'"
proof (rule wakesI)
  show "ipc_frame k k'" by (rule sched_frame_ipc [OF f])
  show "tlists k' l' = tlists k l'" if "waiting_list l'" for l' by (rule sched_frame_waiting [OF f that])
  show r: "runnable (state_of k' u) \<longleftrightarrow> runnable (state_of k u) \<or> u \<in> {}" for u
    using f by (simp add: sched_frame_def)
  show "thr k' u = thr k u" if "\<not> runnable (state_of k' u)" for u
    using f r [of u] that by (simp add: sched_frame_def)
qed

lemma rt_thread_resume_waiter:
  assumes k: "kinv k" and w: "waiting_list l" and q: "t \<in> set (tlists k l)"
  shows "\<exists>k'. rt_thread_resume t k = Some (RT_EOK, k') \<and> kinv k' \<and> tlists k' l = remove1 t (tlists k l) \<and>
    wakes l {t} k k' \<and> thread_frame t k k'"
proof -
  have st: "state_of k t = RT_THREAD_SUSPEND"
    using kinv_linked [OF k, of t l] w q by (auto simp: waiting_list_def)
  obtain k' where r: "rt_thread_resume t k = Some (RT_EOK, k')" "kinv k'" "thread_frame t k k'"
    "state_of k' t = (if rt_current_thread k = Some t then RT_THREAD_RUNNING else RT_THREAD_READY)"
    "tlists k' = (if rt_current_thread k = Some t then l_unlink t (tlists k)
      else l_append (ReadyQ (prio_of k t)) t (l_unlink t (tlists k)))"
    using rt_thread_resume_kinv [OF k st] by blast
  have l': "tlists k' l' = remove1 t (tlists k l')" if "waiting_list l'" for l'
    using that r(5) by (auto simp: l_append_def l_unlink_def)
  have other: "tlists k' l' = tlists k l'" if "waiting_list l'" "l' \<noteq> l" for l'
  proof -
    have "t \<notin> set (tlists k l')" using kinv_lists [OF k] q that(2) by (auto simp: lists_ok_def)
    then show ?thesis using l' [OF that(1)] by (simp add: remove1_idem)
  qed
  have run: "runnable (state_of k' u) \<longleftrightarrow> runnable (state_of k u) \<or> u \<in> {t}" for u
    using r(3,4) by (cases "u = t") (simp_all add: thread_frame_def)
  have "thr k' u = thr k u" if "\<not> runnable (state_of k' u)" for u
  proof -
    have "u \<noteq> t" using run [of u] that by auto
    then show ?thesis using r(3) by (simp add: thread_frame_def)
  qed
  then have "wakes l {t} k k'" using run other by (intro wakesI thread_frame_ipc [OF r(3)])
  then show ?thesis using r(1-3) l' [OF w] by blast
qed

lemma rt_ipc_list_resume_kinv:
  assumes k: "kinv k" and w: "waiting_list l" and q: "tlists k l = t # ts"
  shows "\<exists>k'. rt_ipc_list_resume l k = Some (RT_EOK, k') \<and> rt_thread_resume t k = Some (RT_EOK, k') \<and> kinv k' \<and>
    tlists k' l = ts \<and> wakes l {t} k k' \<and> thread_frame t k k'"
  using rt_thread_resume_waiter [OF k w, of t] q by (auto simp: rt_ipc_list_resume_def first_entry_def)

lemma schedule_wakes:
  assumes k: "kinv k" and c: "rt_current_thread k \<noteq> None"
  shows "\<exists>k'. rt_schedule k = Some k' \<and> kinv k' \<and> rt_current_thread k' \<noteq> None \<and> wakes l {} k k' \<and>
    (\<forall>l'. waiting_list l' \<longrightarrow> tlists k' l' = tlists k l') \<and> rt_timer_list k' = rt_timer_list k \<and>
    timers k' = timers k \<and> (\<forall>u. error (thr k' u) = error (thr k u))"
proof -
  obtain t where t: "rt_current_thread k = Some t" using c by auto
  obtain k' where s: "rt_schedule k = Some k'" "kinv k'" "sched_frame k k'" using rt_schedule_kinv [OF k t] by blast
  have "tlists k' l' = tlists k l'" if "waiting_list l'" for l'
    by (rule sched_frame_waiting [OF s(3) that])
  moreover have "rt_timer_list k' = rt_timer_list k" "timers k' = timers k" using s(3) by (simp_all add: sched_frame_def)
  ultimately show ?thesis
    using s sched_frame_wakes [OF s(3)] rt_schedule_current [OF k t s(1)] sched_frame_error [OF s(3)] by blast
qed

lemma ipc_wake_kinv:
  assumes k: "kinv k" and c: "rt_current_thread k \<noteq> None" and w: "waiting_list l" and q: "tlists k l = t # ts"
  shows "\<exists>k'. ipc_wake l k = Some k' \<and> kinv k' \<and> rt_current_thread k' \<noteq> None \<and> tlists k' l = ts \<and>
    wakes l {t} k k' \<and> (\<forall>u. error (thr k' u) = error (thr k u))"
proof -
  obtain k1 where r: "rt_ipc_list_resume l k = Some (RT_EOK, k1)" "kinv k1" "tlists k1 l = ts" "wakes l {t} k k1"
    "thread_frame t k k1" using rt_ipc_list_resume_kinv [OF k w q] by blast
  have c1: "rt_current_thread k1 \<noteq> None" using c r(5) by (simp add: thread_frame_def)
  obtain k2 where s: "rt_schedule k1 = Some k2" "kinv k2" "rt_current_thread k2 \<noteq> None" "wakes l {} k1 k2"
    "\<forall>l'. waiting_list l' \<longrightarrow> tlists k2 l' = tlists k1 l'" "\<forall>u. error (thr k2 u) = error (thr k1 u)"
    using schedule_wakes [OF r(2) c1] by blast
  have "wakes l {t} k k2" using wakes_trans [OF r(4) s(4)] by simp
  then show ?thesis using r s w thread_frame_error [OF r(5)] by (simp add: ipc_wake_def)
qed

lemma rt_ipc_list_resume_all_kinv:
  assumes "kinv k" "waiting_list l" "tlists k l = ts"
  shows "\<exists>k'. rt_ipc_list_resume_all l k = Some (RT_EOK, k') \<and> kinv k' \<and>
    rt_current_thread k' = rt_current_thread k \<and> tlists k' l = [] \<and> wakes l (set ts) k k' \<and>
    (\<forall>u. error (thr k' u) = (if u \<in> set ts then - RT_ERROR else error (thr k u)))"
  using assms
proof (induction ts arbitrary: k)
  case Nil
  then show ?case by (subst rt_ipc_list_resume_all.simps) simp
next
  case (Cons t ts)
  let ?k = "upd_thr t (set_error (- RT_ERROR)) k"
  have k1: "kinv ?k" using Cons.prems(1) by simp
  have q1: "tlists ?k l = t # ts" using Cons.prems(3) by simp
  obtain k2 where r: "rt_thread_resume t ?k = Some (RT_EOK, k2)" "kinv k2" "tlists k2 l = ts" "wakes l {t} ?k k2"
    "thread_frame t ?k k2" using rt_ipc_list_resume_kinv [OF k1 Cons.prems(2) q1] by blast
  obtain k3 where i: "rt_ipc_list_resume_all l k2 = Some (RT_EOK, k3)" "kinv k3"
    "rt_current_thread k3 = rt_current_thread k2" "tlists k3 l = []" "wakes l (set ts) k2 k3"
    "\<forall>u. error (thr k3 u) = (if u \<in> set ts then - RT_ERROR else error (thr k2 u))"
    using Cons.IH [OF r(2) Cons.prems(2) r(3)] by blast
  have f: "wakes l {t} k k2"
  proof (rule wakesI)
    show "ipc_frame k k2" by (rule ipc_frame_trans [OF set_error_ipc wakes_frame [OF r(4)]])
    show "tlists k2 l' = tlists k l'" if "waiting_list l'" "l' \<noteq> l" for l' using wakes_other [OF r(4) that] by simp
    show "runnable (state_of k2 u) = (runnable (state_of k u) \<or> u \<in> {t})" for u
      using wakes_runnable [OF r(4), of u] by (cases "u = t") simp_all
    show "thr k2 u = thr k u" if "\<not> runnable (state_of k2 u)" for u
    proof -
      have "u \<noteq> t" using wakes_runnable [OF r(4), of u] that by auto
      then show ?thesis using wakes_thr [OF r(4) that] by simp
    qed
  qed
  have "rt_ipc_list_resume_all l k = Some (RT_EOK, k3)"
    using Cons.prems(3) r(1) i(1)
    by (subst rt_ipc_list_resume_all.simps) (simp add: first_entry_def)
  moreover have "wakes l (set (t # ts)) k k3" using wakes_trans [OF f i(5)] by simp
  moreover have "error (thr k3 u) = (if u \<in> set (t # ts) then - RT_ERROR else error (thr k u))" for u
    using i(6) thread_frame_error [OF r(5), of u] by (cases "u = t") simp_all
  moreover have "rt_current_thread k3 = rt_current_thread k" using i(3) r(5) by (simp add: thread_frame_def)
  ultimately show ?case using i(2,4) by blast
qed

subsection \<open>Waiting\<close>

lemma timeout_small: "time < 2 ^ 31 - 1 \<Longrightarrow> 0 \<le> time \<Longrightarrow> (word_of_int time :: tick) < RT_TICK_HALF"
proof -
  assume "time < 2 ^ 31 - 1" "0 \<le> time"
  then have "uint (word_of_int time :: tick) = time" by (simp add: uint_word_of_int)
  then show ?thesis using \<open>time < 2 ^ 31 - 1\<close>
    by (simp add: word_less_alt RT_TICK_HALF_def RT_TICK_MAX_def)
qed

definition waits :: "list_id \<Rightarrow> tid \<Rightarrow> 'a kernel_scheme \<Rightarrow> 'a kernel_scheme \<Rightarrow> bool" where
  "waits l t k k' \<longleftrightarrow> ipc_frame k k' \<and>
     (\<forall>l'. waiting_list l' \<and> l' \<noteq> l \<longrightarrow> tlists k' l' = tlists k l') \<and>
     (\<forall>u. runnable (state_of k' u) \<longleftrightarrow> runnable (state_of k u) \<and> u \<noteq> t) \<and>
     (\<forall>u. u \<noteq> t \<longrightarrow> \<not> runnable (state_of k' u) \<longrightarrow> thr k' u = thr k u) \<and>
     (\<forall>u. error (thr k' u) = error (thr k u))"

lemma waits_frame: "waits l t k k' \<Longrightarrow> ipc_frame k k'"
  and waits_other: "waits l t k k' \<Longrightarrow> waiting_list l' \<Longrightarrow> l' \<noteq> l \<Longrightarrow> tlists k' l' = tlists k l'"
  and waits_runnable: "waits l t k k' \<Longrightarrow> runnable (state_of k' u) \<longleftrightarrow> runnable (state_of k u) \<and> u \<noteq> t"
  and waits_thr: "waits l t k k' \<Longrightarrow> u \<noteq> t \<Longrightarrow> \<not> runnable (state_of k' u) \<Longrightarrow> thr k' u = thr k u"
  and waits_error: "waits l t k k' \<Longrightarrow> error (thr k' u) = error (thr k u)"
  unfolding waits_def by blast+

lemma waitsI:
  assumes "ipc_frame k k'" "\<And>l'. waiting_list l' \<Longrightarrow> l' \<noteq> l \<Longrightarrow> tlists k' l' = tlists k l'"
    "\<And>u. runnable (state_of k' u) \<longleftrightarrow> runnable (state_of k u) \<and> u \<noteq> t"
    "\<And>u. u \<noteq> t \<Longrightarrow> \<not> runnable (state_of k' u) \<Longrightarrow> thr k' u = thr k u"
    "\<And>u. error (thr k' u) = error (thr k u)"
  shows "waits l t k k'"
  unfolding waits_def using assms by blast

text \<open>A thread that is suspended and linked in its queue starts its timer and gives the processor away.\<close>

lemma suspended_waits:
  assumes k: "kinv k" and c: "rt_current_thread k = Some t" "state_of k t = RT_THREAD_RUNNING"
    and w: "waiting_list l" and time: "time < 2 ^ 31 - 1"
    and s: "kinv k1" "thread_frame t k k1" "state_of k1 t = RT_THREAD_SUSPEND" "Thread_timer t \<notin> set (rt_timer_list k1)"
      "tlists k1 = (l_unlink t (tlists k))(l := ts)"
  shows "\<exists>k'. do { k \<leftarrow> (if 0 < time then arm_timer t (word_of_int time) k1 else Some k1); rt_schedule k } = Some k' \<and>
    kinv k' \<and> rt_current_thread k' \<noteq> None \<and>
    state_of k' t = RT_THREAD_SUSPEND \<and> tlists k' l = ts \<and> waits l t k k' \<and>
    (Thread_timer t \<in> set (rt_timer_list k') \<longleftrightarrow> 0 < time) \<and>
    (0 < time \<longrightarrow> expiry k' (Thread_timer t) = rt_tick k + word_of_int time)"
proof -
  have "unlinked t (tlists k)" using kinv_unlinked [OF k, of t] c(2) by simp
  then have q1: "tlists k1 = (tlists k)(l := ts)" using s(5) unlink_notin by (fastforce simp: unlinked_def)
  obtain k2 where a: "(if 0 < time then arm_timer t (word_of_int time) k1 else Some k1) = Some k2" "kinv k2"
    "timer_frame k1 k2" "Thread_timer t \<in> set (rt_timer_list k2) \<longleftrightarrow> 0 < time"
    "0 < time \<longrightarrow> expiry k2 (Thread_timer t) = rt_tick k + word_of_int time"
  proof (cases "0 < time")
    case True
    have "rt_tick k1 = rt_tick k" using s(2) by (simp add: thread_frame_def)
    with True arm_timer_kinv [OF s(1,3), of "word_of_int time"] timeout_small [OF time] that show ?thesis by auto
  next
    case False
    with s that [of k1] show ?thesis by simp
  qed
  have e: "thr k2 = thr k1" "tlists k2 = tlists k1" "rt_current_thread k2 = Some t"
    using a(3) s(2) c(1) by (simp_all add: timer_frame_def thread_frame_def)
  obtain k3 where r: "rt_schedule k2 = Some k3" "kinv k3" "rt_current_thread k3 \<noteq> None" "wakes l {} k2 k3"
    "\<forall>l'. waiting_list l' \<longrightarrow> tlists k3 l' = tlists k2 l'" "rt_timer_list k3 = rt_timer_list k2" "timers k3 = timers k2"
    "\<forall>u. error (thr k3 u) = error (thr k2 u)" using schedule_wakes [OF a(2)] e(3) by blast
  have run: "runnable (state_of k3 u) \<longleftrightarrow> runnable (state_of k u) \<and> u \<noteq> t" for u
    using wakes_runnable [OF r(4), of u] s(2,3) e(1) by (cases "u = t") (simp_all add: thread_frame_def)
  have "thr k3 t = thr k2 t" using wakes_thr [OF r(4), of t] run [of t] by simp
  then have st: "state_of k3 t = RT_THREAD_SUSPEND" using s(3) e(1) by simp
  have f: "ipc_frame k k3"
    using ipc_frame_trans [OF ipc_frame_trans [OF thread_frame_ipc [OF s(2)] timer_frame_ipc [OF a(3)]] wakes_frame [OF r(4)]] .
  have "waits l t k k3"
  proof (rule waitsI)
    show "tlists k3 l' = tlists k l'" if "waiting_list l'" "l' \<noteq> l" for l' using r(5) that e(2) q1 by simp
    show "thr k3 u = thr k u" if "u \<noteq> t" "\<not> runnable (state_of k3 u)" for u
      using wakes_thr [OF r(4) that(2)] e(1) s(2) that(1) by (simp add: thread_frame_def)
    show "error (thr k3 u) = error (thr k u)" for u using r(8) e(1) thread_frame_error [OF s(2)] by simp
  qed (use f run in simp_all)
  moreover have "tlists k3 l = ts" using r(5) w e(2) q1 by simp
  ultimately show ?thesis using a(1) r(1,2,3,6,7) st a(4,5) by simp
qed

lemma ipc_wait_kinv:
  assumes k: "kinv k" and c: "rt_current_thread k = Some t" "state_of k t = RT_THREAD_RUNNING"
    and w: "waiting_list l" and fl: "flag = RT_IPC_FLAG_FIFO \<or> flag = RT_IPC_FLAG_PRIO"
    and time: "time < 2 ^ 31 - 1"
  shows "\<exists>k'. ipc_wait l t flag time k = Some k' \<and> kinv k' \<and> rt_current_thread k' \<noteq> None \<and>
    state_of k' t = RT_THREAD_SUSPEND \<and> tlists k' l = queued flag (prio_of k) t (tlists k l) \<and> waits l t k k' \<and>
    (Thread_timer t \<in> set (rt_timer_list k') \<longleftrightarrow> 0 < time) \<and>
    (0 < time \<longrightarrow> expiry k' (Thread_timer t) = rt_tick k + word_of_int time)"
proof -
  obtain k1 where s: "rt_ipc_list_suspend l t flag k = Some (RT_EOK, k1)" "kinv k1" "thread_frame t k k1"
    "state_of k1 t = RT_THREAD_SUSPEND" "Thread_timer t \<notin> set (rt_timer_list k1)"
    "tlists k1 = (l_unlink t (tlists k))(l := queued flag (prio_of k) t (tlists k l))"
    using rt_ipc_list_suspend_kinv [OF k _ w fl] c(2) by blast
  show ?thesis using suspended_waits [OF k c w time s(2-6)] s(1) by (simp add: ipc_wait_def)
qed

subsection \<open>The contract of a waiting room\<close>

text \<open>
  What the objects rely on: a wake takes the first thread of the queue, makes it runnable and
  changes nothing else that counts; a broadcast empties the queue.
\<close>

fun iter_opt :: "('k \<Rightarrow> 'k option) \<Rightarrow> nat \<Rightarrow> 'k \<Rightarrow> 'k option" where
  "iter_opt f 0 k = Some k"
| "iter_opt f (Suc n) k = do { k \<leftarrow> f k; iter_opt f n k }"

lemma iter_opt_add: "iter_opt f (m + n) k = do { k \<leftarrow> iter_opt f m k; iter_opt f n k }"
  by (induction m arbitrary: k) (simp_all add: bind_eq_Some_conv split: bind_split)

locale waiting_room =
  fixes inv :: "'k \<Rightarrow> bool"
    and queue :: "'k \<Rightarrow> 't list"
    and running :: "'k \<Rightarrow> 't \<Rightarrow> bool"
    and wake :: "'k \<Rightarrow> 'k option"
    and wake_all :: "'k \<Rightarrow> 'k option"
  assumes wake: "\<lbrakk>inv k; queue k = t # ts\<rbrakk> \<Longrightarrow>
      \<exists>k'. wake k = Some k' \<and> inv k' \<and> queue k' = ts \<and> (\<forall>u. running k' u \<longleftrightarrow> running k u \<or> u = t)"
    and wake_all: "inv k \<Longrightarrow>
      \<exists>k'. wake_all k = Some k' \<and> inv k' \<and> queue k' = [] \<and>
        (\<forall>u. running k' u \<longleftrightarrow> running k u \<or> u \<in> set (queue k))"
begin

lemma wake_prefix:
  "\<lbrakk>inv k; n \<le> length (queue k)\<rbrakk> \<Longrightarrow>
   \<exists>k'. iter_opt wake n k = Some k' \<and> inv k' \<and> queue k' = drop n (queue k) \<and>
     (\<forall>u. running k' u \<longleftrightarrow> running k u \<or> u \<in> set (take n (queue k)))"
proof (induction n arbitrary: k)
  case (Suc n)
  then obtain t ts where q: "queue k = t # ts" by (cases "queue k") auto
  obtain k1 where k1: "wake k = Some k1" "inv k1" "queue k1 = ts" "\<forall>u. running k1 u \<longleftrightarrow> running k u \<or> u = t"
    using wake [OF Suc.prems(1) q] by blast
  have "n \<le> length (queue k1)" using Suc.prems(2) q k1(3) by simp
  from Suc.IH [OF k1(2) this] show ?case using k1 q by auto
qed simp

text \<open>Waking everyone is waking one after the other.\<close>

lemma wake_all_like_wakes:
  assumes "inv k"
  shows "\<exists>k1 k2. iter_opt wake (length (queue k)) k = Some k1 \<and> wake_all k = Some k2 \<and>
    queue k1 = queue k2 \<and> (\<forall>u. running k1 u \<longleftrightarrow> running k2 u)"
  using wake_prefix [OF assms, of "length (queue k)"] wake_all [OF assms] by auto

end

text \<open>A counting semaphore over a waiting room: \<open>give\<close> wakes when somebody waits and counts otherwise.\<close>

locale counting_semaphore = waiting_room inv queue running wake wake_all
  for inv :: "'k \<Rightarrow> bool" and queue :: "'k \<Rightarrow> 't list" and running wake wake_all +
  fixes count :: "'k \<Rightarrow> nat" and cap :: nat and give :: "'k \<Rightarrow> 'k option"
  assumes give_wake: "\<lbrakk>inv k; queue k \<noteq> []\<rbrakk> \<Longrightarrow> give k = wake k"
    and wake_count: "wake k = Some k' \<Longrightarrow> inv k \<Longrightarrow> count k' = count k"
    and give_count: "\<lbrakk>inv k; queue k = []; count k < cap\<rbrakk> \<Longrightarrow>
      \<exists>k'. give k = Some k' \<and> inv k' \<and> queue k' = [] \<and> count k' = Suc (count k) \<and>
        (\<forall>u. running k' u \<longleftrightarrow> running k u)"
begin

lemma give_many:
  "\<lbrakk>inv k; count k + (n - length (queue k)) \<le> cap\<rbrakk> \<Longrightarrow>
   \<exists>k'. iter_opt give n k = Some k' \<and> inv k' \<and> queue k' = drop n (queue k) \<and>
     count k' = count k + (n - length (queue k)) \<and>
     (\<forall>u. running k' u \<longleftrightarrow> running k u \<or> u \<in> set (take n (queue k)))"
proof (induction n arbitrary: k)
  case (Suc n)
  show ?case
  proof (cases "queue k")
    case (Cons t ts)
    obtain k1 where k1: "wake k = Some k1" "inv k1" "queue k1 = ts" "\<forall>u. running k1 u \<longleftrightarrow> running k u \<or> u = t"
      using wake [OF Suc.prems(1) Cons] by blast
    have "give k = Some k1" "count k1 = count k"
      using give_wake [OF Suc.prems(1)] Cons k1(1) wake_count [OF k1(1) Suc.prems(1)] by simp_all
    then show ?thesis using Suc.IH [OF k1(2)] Suc.prems(2) k1 Cons by auto
  next
    case Nil
    then obtain k1 where k1: "give k = Some k1" "inv k1" "queue k1 = []" "count k1 = Suc (count k)"
      "\<forall>u. running k1 u \<longleftrightarrow> running k u" using give_count [OF Suc.prems(1) Nil] Suc.prems(2) by auto
    then show ?thesis using Suc.IH [OF k1(2)] Suc.prems(2) Nil by auto
  qed
qed simp

end

text \<open>The queues of the kernel are waiting rooms.\<close>

definition ipc_inv :: "'a kernel_scheme \<Rightarrow> bool" where
  "ipc_inv k \<longleftrightarrow> kinv k \<and> rt_current_thread k \<noteq> None"

definition wake_everyone :: "list_id \<Rightarrow> 'a kernel_scheme \<Rightarrow> 'a kernel_scheme option" where
  "wake_everyone l k = do { (_, k) \<leftarrow> rt_ipc_list_resume_all l k; Some k }"

interpretation room: waiting_room "\<lambda>k. ipc_inv k \<and> rt_object_get_type r k = ty" "\<lambda>k. tlists k (SuspendQ n)"
  "\<lambda>k u. runnable (state_of k u)" "ipc_wake (SuspendQ n)" "wake_everyone (SuspendQ n)" for r ty n
proof
  fix k :: "'a kernel_scheme" and t ts
  assume k: "ipc_inv k \<and> rt_object_get_type r k = ty" and q: "tlists k (SuspendQ n) = t # ts"
  then obtain k' where "ipc_wake (SuspendQ n) k = Some k'" "kinv k'" "rt_current_thread k' \<noteq> None"
    "tlists k' (SuspendQ n) = ts" "wakes (SuspendQ n) {t} k k'"
    using ipc_wake_kinv [of k "SuspendQ n" t ts] by (auto simp: ipc_inv_def)
  then show "\<exists>k'. ipc_wake (SuspendQ n) k = Some k' \<and> (ipc_inv k' \<and> rt_object_get_type r k' = ty) \<and>
    tlists k' (SuspendQ n) = ts \<and> (\<forall>u. runnable (state_of k' u) \<longleftrightarrow> runnable (state_of k u) \<or> u = t)"
    using k wakes_runnable [of "SuspendQ n" "{t}" k k'] ipc_frame_obj(1) [OF wakes_frame, of "SuspendQ n" "{t}" k k' r]
    by (auto simp: ipc_inv_def)
next
  fix k :: "'a kernel_scheme"
  assume k: "ipc_inv k \<and> rt_object_get_type r k = ty"
  then obtain k' where "rt_ipc_list_resume_all (SuspendQ n) k = Some (RT_EOK, k')" "kinv k'"
    "rt_current_thread k' = rt_current_thread k" "tlists k' (SuspendQ n) = []"
    "wakes (SuspendQ n) (set (tlists k (SuspendQ n))) k k'"
    using rt_ipc_list_resume_all_kinv [of k "SuspendQ n"] by (auto simp: ipc_inv_def)
  then show "\<exists>k'. wake_everyone (SuspendQ n) k = Some k' \<and> (ipc_inv k' \<and> rt_object_get_type r k' = ty) \<and>
    tlists k' (SuspendQ n) = [] \<and>
    (\<forall>u. runnable (state_of k' u) \<longleftrightarrow> runnable (state_of k u) \<or> u \<in> set (tlists k (SuspendQ n)))"
    using k wakes_runnable [of "SuspendQ n" _ k k'] ipc_frame_obj(1) [OF wakes_frame, of "SuspendQ n" _ k k' r]
    by (auto simp: ipc_inv_def wake_everyone_def)
qed

end
