(* ===== verification/IpcState.thy ===== *)
theory IpcState
  imports IpcBase
begin

text \<open>
  Reading the state after a change of an IPC object, and the life cycle the five kinds of object
  share: initialising, detaching, creating and deleting.
\<close>

subsection \<open>The invariant looks at the kernel fields only\<close>

lemma kinv_cong:
  assumes "thr k' = thr k" "tlists k' = tlists k" "rt_current_thread k' = rt_current_thread k"
    "rt_thread_ready_priority_group k' = rt_thread_ready_priority_group k" "rt_timer_list k' = rt_timer_list k"
    "objs k' = objs k" "objects k' = objects k" "timers k' = timers k"
  shows "kinv k' = kinv k"
  unfolding kinv_defs thread_object_ok_def object_defs using assms by simp

subsection \<open>Changing one object\<close>

definition upd_sem :: "nat \<Rightarrow> (rt_semaphore \<Rightarrow> rt_semaphore) \<Rightarrow> 'a ipc_scheme \<Rightarrow> 'a ipc_scheme" where
  "upd_sem n f k = k\<lparr>sems := (sems k)(n := f (sems k n))\<rparr>"

definition upd_mutex :: "nat \<Rightarrow> (rt_mutex \<Rightarrow> rt_mutex) \<Rightarrow> 'a ipc_scheme \<Rightarrow> 'a ipc_scheme" where
  "upd_mutex n f k = k\<lparr>mutexes := (mutexes k)(n := f (mutexes k n))\<rparr>"

definition upd_event :: "nat \<Rightarrow> (rt_event \<Rightarrow> rt_event) \<Rightarrow> 'a ipc_scheme \<Rightarrow> 'a ipc_scheme" where
  "upd_event n f k = k\<lparr>event_objs := (event_objs k)(n := f (event_objs k n))\<rparr>"

definition upd_mb :: "nat \<Rightarrow> (rt_mailbox \<Rightarrow> rt_mailbox) \<Rightarrow> 'a ipc_scheme \<Rightarrow> 'a ipc_scheme" where
  "upd_mb n f k = k\<lparr>mailboxes := (mailboxes k)(n := f (mailboxes k n))\<rparr>"

definition upd_mq :: "nat \<Rightarrow> (rt_messagequeue \<Rightarrow> rt_messagequeue) \<Rightarrow> 'a ipc_scheme \<Rightarrow> 'a ipc_scheme" where
  "upd_mq n f k = k\<lparr>mqs := (mqs k)(n := f (mqs k n))\<rparr>"

lemma upd_sem_sel [simp]:
  "thr (upd_sem n f k) = thr k" "tlists (upd_sem n f k) = tlists k"
  "rt_thread_ready_priority_group (upd_sem n f k) = rt_thread_ready_priority_group k"
  "rt_scheduler_lock_nest (upd_sem n f k) = rt_scheduler_lock_nest k"
  "rt_current_thread (upd_sem n f k) = rt_current_thread k"
  "rt_current_priority (upd_sem n f k) = rt_current_priority k"
  "rt_interrupt_nest (upd_sem n f k) = rt_interrupt_nest k" "rt_tick (upd_sem n f k) = rt_tick k"
  "timers (upd_sem n f k) = timers k" "rt_timer_list (upd_sem n f k) = rt_timer_list k"
  "objs (upd_sem n f k) = objs k" "objects (upd_sem n f k) = objects k"
  "hw_trace (upd_sem n f k) = hw_trace k" "mutexes (upd_sem n f k) = mutexes k"
  "event_objs (upd_sem n f k) = event_objs k" "mailboxes (upd_sem n f k) = mailboxes k"
  "mqs (upd_sem n f k) = mqs k" "sems (upd_sem n f k) = (sems k)(n := f (sems k n))"
  "kinv (upd_sem n f k) = kinv k" "rt_object_get_type r (upd_sem n f k) = rt_object_get_type r k"
  "rt_object_is_systemobject r (upd_sem n f k) = rt_object_is_systemobject r k"
  "ipc_flag m (upd_sem n f k) = ipc_flag m k" "ipc_inv (upd_sem n f k) = ipc_inv k"
proof -
  show "kinv (upd_sem n f k) = kinv k" by (rule kinv_cong) (simp_all add: upd_sem_def)
  then show "ipc_inv (upd_sem n f k) = ipc_inv k" by (simp add: ipc_inv_def upd_sem_def)
qed (simp_all add: upd_sem_def object_defs ipc_flag_def)

lemma upd_mutex_sel [simp]:
  "thr (upd_mutex n f k) = thr k" "tlists (upd_mutex n f k) = tlists k"
  "rt_thread_ready_priority_group (upd_mutex n f k) = rt_thread_ready_priority_group k"
  "rt_scheduler_lock_nest (upd_mutex n f k) = rt_scheduler_lock_nest k"
  "rt_current_thread (upd_mutex n f k) = rt_current_thread k"
  "rt_current_priority (upd_mutex n f k) = rt_current_priority k"
  "rt_interrupt_nest (upd_mutex n f k) = rt_interrupt_nest k" "rt_tick (upd_mutex n f k) = rt_tick k"
  "timers (upd_mutex n f k) = timers k" "rt_timer_list (upd_mutex n f k) = rt_timer_list k"
  "objs (upd_mutex n f k) = objs k" "objects (upd_mutex n f k) = objects k"
  "hw_trace (upd_mutex n f k) = hw_trace k" "sems (upd_mutex n f k) = sems k"
  "event_objs (upd_mutex n f k) = event_objs k" "mailboxes (upd_mutex n f k) = mailboxes k"
  "mqs (upd_mutex n f k) = mqs k" "mutexes (upd_mutex n f k) = (mutexes k)(n := f (mutexes k n))"
  "kinv (upd_mutex n f k) = kinv k" "rt_object_get_type r (upd_mutex n f k) = rt_object_get_type r k"
  "rt_object_is_systemobject r (upd_mutex n f k) = rt_object_is_systemobject r k"
  "ipc_flag m (upd_mutex n f k) = ipc_flag m k" "ipc_inv (upd_mutex n f k) = ipc_inv k"
proof -
  show "kinv (upd_mutex n f k) = kinv k" by (rule kinv_cong) (simp_all add: upd_mutex_def)
  then show "ipc_inv (upd_mutex n f k) = ipc_inv k" by (simp add: ipc_inv_def upd_mutex_def)
qed (simp_all add: upd_mutex_def object_defs ipc_flag_def)

lemma upd_event_sel [simp]:
  "thr (upd_event n f k) = thr k" "tlists (upd_event n f k) = tlists k"
  "rt_thread_ready_priority_group (upd_event n f k) = rt_thread_ready_priority_group k"
  "rt_scheduler_lock_nest (upd_event n f k) = rt_scheduler_lock_nest k"
  "rt_current_thread (upd_event n f k) = rt_current_thread k"
  "rt_current_priority (upd_event n f k) = rt_current_priority k"
  "rt_interrupt_nest (upd_event n f k) = rt_interrupt_nest k" "rt_tick (upd_event n f k) = rt_tick k"
  "timers (upd_event n f k) = timers k" "rt_timer_list (upd_event n f k) = rt_timer_list k"
  "objs (upd_event n f k) = objs k" "objects (upd_event n f k) = objects k"
  "hw_trace (upd_event n f k) = hw_trace k" "sems (upd_event n f k) = sems k"
  "mutexes (upd_event n f k) = mutexes k" "mailboxes (upd_event n f k) = mailboxes k"
  "mqs (upd_event n f k) = mqs k"
  "event_objs (upd_event n f k) = (event_objs k)(n := f (event_objs k n))"
  "kinv (upd_event n f k) = kinv k" "rt_object_get_type r (upd_event n f k) = rt_object_get_type r k"
  "rt_object_is_systemobject r (upd_event n f k) = rt_object_is_systemobject r k"
  "ipc_flag m (upd_event n f k) = ipc_flag m k" "ipc_inv (upd_event n f k) = ipc_inv k"
proof -
  show "kinv (upd_event n f k) = kinv k" by (rule kinv_cong) (simp_all add: upd_event_def)
  then show "ipc_inv (upd_event n f k) = ipc_inv k" by (simp add: ipc_inv_def upd_event_def)
qed (simp_all add: upd_event_def object_defs ipc_flag_def)

lemma upd_mb_sel [simp]:
  "thr (upd_mb n f k) = thr k" "tlists (upd_mb n f k) = tlists k"
  "rt_thread_ready_priority_group (upd_mb n f k) = rt_thread_ready_priority_group k"
  "rt_scheduler_lock_nest (upd_mb n f k) = rt_scheduler_lock_nest k"
  "rt_current_thread (upd_mb n f k) = rt_current_thread k"
  "rt_current_priority (upd_mb n f k) = rt_current_priority k"
  "rt_interrupt_nest (upd_mb n f k) = rt_interrupt_nest k" "rt_tick (upd_mb n f k) = rt_tick k"
  "timers (upd_mb n f k) = timers k" "rt_timer_list (upd_mb n f k) = rt_timer_list k"
  "objs (upd_mb n f k) = objs k" "objects (upd_mb n f k) = objects k"
  "hw_trace (upd_mb n f k) = hw_trace k" "sems (upd_mb n f k) = sems k"
  "mutexes (upd_mb n f k) = mutexes k" "event_objs (upd_mb n f k) = event_objs k"
  "mqs (upd_mb n f k) = mqs k" "mailboxes (upd_mb n f k) = (mailboxes k)(n := f (mailboxes k n))"
  "kinv (upd_mb n f k) = kinv k" "rt_object_get_type r (upd_mb n f k) = rt_object_get_type r k"
  "rt_object_is_systemobject r (upd_mb n f k) = rt_object_is_systemobject r k"
  "ipc_flag m (upd_mb n f k) = ipc_flag m k" "ipc_inv (upd_mb n f k) = ipc_inv k"
proof -
  show "kinv (upd_mb n f k) = kinv k" by (rule kinv_cong) (simp_all add: upd_mb_def)
  then show "ipc_inv (upd_mb n f k) = ipc_inv k" by (simp add: ipc_inv_def upd_mb_def)
qed (simp_all add: upd_mb_def object_defs ipc_flag_def)

lemma upd_mq_sel [simp]:
  "thr (upd_mq n f k) = thr k" "tlists (upd_mq n f k) = tlists k"
  "rt_thread_ready_priority_group (upd_mq n f k) = rt_thread_ready_priority_group k"
  "rt_scheduler_lock_nest (upd_mq n f k) = rt_scheduler_lock_nest k"
  "rt_current_thread (upd_mq n f k) = rt_current_thread k"
  "rt_current_priority (upd_mq n f k) = rt_current_priority k"
  "rt_interrupt_nest (upd_mq n f k) = rt_interrupt_nest k" "rt_tick (upd_mq n f k) = rt_tick k"
  "timers (upd_mq n f k) = timers k" "rt_timer_list (upd_mq n f k) = rt_timer_list k"
  "objs (upd_mq n f k) = objs k" "objects (upd_mq n f k) = objects k"
  "hw_trace (upd_mq n f k) = hw_trace k" "sems (upd_mq n f k) = sems k"
  "mutexes (upd_mq n f k) = mutexes k" "event_objs (upd_mq n f k) = event_objs k"
  "mailboxes (upd_mq n f k) = mailboxes k" "mqs (upd_mq n f k) = (mqs k)(n := f (mqs k n))"
  "kinv (upd_mq n f k) = kinv k" "rt_object_get_type r (upd_mq n f k) = rt_object_get_type r k"
  "rt_object_is_systemobject r (upd_mq n f k) = rt_object_is_systemobject r k"
  "ipc_flag m (upd_mq n f k) = ipc_flag m k" "ipc_inv (upd_mq n f k) = ipc_inv k"
proof -
  show "kinv (upd_mq n f k) = kinv k" by (rule kinv_cong) (simp_all add: upd_mq_def)
  then show "ipc_inv (upd_mq n f k) = ipc_inv k" by (simp add: ipc_inv_def upd_mq_def)
qed (simp_all add: upd_mq_def object_defs ipc_flag_def)

text \<open>What keeps the fields beyond the kernel keeps the objects.\<close>

lemma same_objects:
  fixes k k' :: "'a ipc_scheme"
  assumes "kernel.more k' = kernel.more k"
  shows "sems k' = sems k" "mutexes k' = mutexes k" "event_objs k' = event_objs k" "mailboxes k' = mailboxes k"
    "mqs k' = mqs k"
  using assms by (cases k; cases k'; simp)+

lemma frame_objects:
  fixes k k' :: "'a ipc_scheme"
  assumes "ipc_frame k k'"
  shows "sems k' = sems k" "mutexes k' = mutexes k" "event_objs k' = event_objs k" "mailboxes k' = mailboxes k"
    "mqs k' = mqs k"
  using same_objects [of k' k] assms by (simp_all add: ipc_frame_def)

lemma upd_thr_objects [simp]:
  fixes k :: "'a ipc_scheme"
  shows "sems (upd_thr t f k) = sems k" "mutexes (upd_thr t f k) = mutexes k"
    "event_objs (upd_thr t f k) = event_objs k" "mailboxes (upd_thr t f k) = mailboxes k" "mqs (upd_thr t f k) = mqs k"
  by (simp_all add: upd_thr_def)

lemma ipc_flag_upd_thr [simp]: "ipc_flag n (upd_thr t f k) = ipc_flag n k"
  by (simp add: ipc_flag_def)

subsection \<open>Life cycle\<close>

lemma set_ipc_flag_sel [simp]:
  "thr (set_ipc_flag n f k) = thr k" "tlists (set_ipc_flag n f k) = tlists k"
  "rt_current_thread (set_ipc_flag n f k) = rt_current_thread k" "objects (set_ipc_flag n f k) = objects k"
  "ipc_flag n (set_ipc_flag n f k) = f" "kernel.more (set_ipc_flag n f k) = kernel.more k"
  "rt_object_get_type r (set_ipc_flag n f k) = rt_object_get_type r k"
  "rt_object_is_systemobject r (set_ipc_flag n f k) = rt_object_is_systemobject r k"
  by (simp_all add: set_ipc_flag_def ipc_flag_def object_defs)

lemma set_ipc_flag_objects [simp]:
  fixes k :: "'a ipc_scheme"
  shows "sems (set_ipc_flag n f k) = sems k" "mutexes (set_ipc_flag n f k) = mutexes k"
    "event_objs (set_ipc_flag n f k) = event_objs k" "mailboxes (set_ipc_flag n f k) = mailboxes k"
    "mqs (set_ipc_flag n f k) = mqs k"
  by (simp_all add: set_ipc_flag_def upd_obj_def)

lemma objects_irrelevant_kinv:
  assumes k: "kinv k"
    and same: "thr k' = thr k" "tlists k' = tlists k" "rt_current_thread k' = rt_current_thread k"
      "rt_thread_ready_priority_group k' = rt_thread_ready_priority_group k" "rt_timer_list k' = rt_timer_list k"
      "timers k' = timers k"
    and objs: "\<And>t. objs k' (Obj_thread t) = objs k (Obj_thread t)" "\<And>i. objs k' (Obj_timer i) = objs k (Obj_timer i)"
    and cont: "\<And>ty t. Obj_thread t \<in> set (objects k' ty) \<longleftrightarrow> Obj_thread t \<in> set (objects k ty)"
      "\<And>ty i. Obj_timer i \<in> set (objects k' ty) \<longleftrightarrow> Obj_timer i \<in> set (objects k ty)"
  shows "kinv k'"
proof (rule objects_kinv [OF k same(1-5)])
  show "timer_active i k' \<and> Obj_timer i \<in> set (objects k' RT_Object_Class_Timer)" if "i \<in> set (rt_timer_list k)" for i
    using that kinv_timer_active [OF k that] kinv_timer_registered [OF k that] objs cont by (simp add: timer_active_def)
  show "Obj_thread t \<in> set (objects k' RT_Object_Class_Thread)" if "t \<in> set (tlists k l)" for l t
    using kinv_registered [OF k that] cont by simp
  show "thread_object_ok t k'" if "live (state_of k t)" for t
    using kinv_live(6) [OF k that] objs cont same(6) by (simp add: thread_object_ok_def object_defs)
qed

lemma set_ipc_flag_kinv [simp]: "kinv k \<Longrightarrow> kinv (set_ipc_flag n f k)"
  by (rule objects_irrelevant_kinv [of k]) (simp_all add: set_ipc_flag_def)

lemma detach_ipc_kinv [simp]: "kinv k \<Longrightarrow> kinv (rt_object_detach (Obj_ipc n) k)"
  by (rule objects_irrelevant_kinv [of k])
    (simp_all add: rt_object_detach_def container_remove_def in_set_remove1)

lemma registered_ipc_kinv [simp]: "kinv k \<Longrightarrow> kinv (registered ty (Obj_ipc n) name k)"
  by (rule objects_irrelevant_kinv [of k]) (auto simp: registered_def container_insert_def)

text \<open>The invariant only asks of a waiting list that its threads are suspended.\<close>

lemma relist_kinv:
  assumes k: "kinv k" and ok: "lists_ok L" and same: "\<And>l. \<not> waiting_list l \<Longrightarrow> L l = tlists k l"
    and sub: "\<And>l t. waiting_list l \<Longrightarrow> t \<in> set (L l) \<Longrightarrow> \<exists>l'. waiting_list l' \<and> t \<in> set (tlists k l')"
  shows "kinv (k\<lparr>tlists := L\<rparr>)"
proof -
  let ?k = "k\<lparr>tlists := L\<rparr>"
  have r: "L (ReadyQ p) = tlists k (ReadyQ p)" for p by (rule same) simp
  have somewhere: "\<exists>l'. t \<in> set (tlists k l')" if "t \<in> set (L l)" for t l
    using sub [of l t] same [of l] that by (cases "waiting_list l") auto
  have susp: "state_of k t = RT_THREAD_SUSPEND" if "waiting_list l" "t \<in> set (L l)" for l t
    using sub [OF that] kinv_linked [OF k] by (fastforce simp: waiting_list_def)
  show ?thesis
  proof (rule kinvI)
    show "lists_ok (tlists ?k)" using ok by simp
    show "x \<in> set (tlists ?k (ReadyQ p)) \<longleftrightarrow> state_of ?k x = RT_THREAD_READY \<and> prio_of ?k x = p" for x p
      using kinv_ready [OF k] r by simp
    show "case l' of ReadyQ p \<Rightarrow> True | Defunct \<Rightarrow> state_of ?k x = RT_THREAD_CLOSE
      | _ \<Rightarrow> state_of ?k x = RT_THREAD_SUSPEND" if "x \<in> set (tlists ?k l')" for l' x
      using that susp [of l' x] same [of Defunct] kinv_linked [OF k, of x Defunct] by (cases l') auto
    show "bit (rt_thread_ready_priority_group ?k) p \<longleftrightarrow> tlists ?k (ReadyQ p) \<noteq> []" for p
      using kinv_group [OF k] r by simp
    show "timer_ok ?k"
      using kinv_timers_distinct [OF k] kinv_timer_active [OF k] kinv_timer_suspended [OF k]
      by (simp add: timer_ok_def timer_active_def)
    show "Obj_thread x \<in> set (objects ?k RT_Object_Class_Thread)" if "x \<in> set (tlists ?k l')" for x l'
      using that somewhere [of x l'] kinv_registered [OF k] by auto
    show "thread_object_ok x ?k" if "live (state_of ?k x)" for x
      using that kinv_live(6) [OF k, of x] by (simp add: thread_object_ok_def object_defs)
  qed (use kinv_live [OF k] kinv_running [OF k] kinv_current [OF k] kinv_timer_registered [OF k] in auto)
qed

lemma rt_ipc_object_init_kinv:
  assumes k: "kinv k" and w: "waiting_list l"
  shows "kinv (snd (rt_ipc_object_init l k))"
proof -
  have "kinv (k\<lparr>tlists := (tlists k)(l := [])\<rparr>)"
    using kinv_lists [OF k] w by (intro relist_kinv [OF k]) (auto simp: lists_ok_def split: if_splits)
  then show ?thesis by (simp add: rt_ipc_object_init_def)
qed

lemma rt_ipc_object_init_sel [simp]:
  "thr (snd (rt_ipc_object_init l k)) = thr k" "objs (snd (rt_ipc_object_init l k)) = objs k"
  "objects (snd (rt_ipc_object_init l k)) = objects k"
  "rt_current_thread (snd (rt_ipc_object_init l k)) = rt_current_thread k"
  "tlists (snd (rt_ipc_object_init l k)) = (tlists k)(l := [])"
  "kernel.more (snd (rt_ipc_object_init l k)) = kernel.more k" "fst (rt_ipc_object_init l k) = RT_EOK"
  "rt_object_get_type r (snd (rt_ipc_object_init l k)) = rt_object_get_type r k"
  "rt_object_is_systemobject r (snd (rt_ipc_object_init l k)) = rt_object_is_systemobject r k"
  by (simp_all add: rt_ipc_object_init_def object_defs)

lemma rt_object_init_ipc:
  assumes k: "kinv k" and l: "lock_ok k" and ty: "ty \<in> set object_classes" and n: "Obj_ipc n \<notin> set (objects k ty)"
  shows "\<exists>k1. rt_object_init (Obj_ipc n) ty name k = Some (registered ty (Obj_ipc n) name k1) \<and> kinv k1 \<and>
    sched_frame k k1"
  using rt_object_init_kinv [OF k l _ ty n] by (auto simp: free_ref_def)

lemma rt_object_allocate_ipc:
  assumes k: "kinv k" and i: "rt_interrupt_nest k = 0" and ty: "ty \<in> set object_classes"
  shows "\<exists>k'. rt_object_allocate ty name (Some (Obj_ipc n)) k = Some (Some (Obj_ipc n), k') \<and> kinv k' \<and>
    thr k' = thr k \<and> tlists k' = tlists k \<and> kernel.more k' = kernel.more k \<and>
    objs k' (Obj_ipc n) = \<lparr>oname = take RT_NAME_MAX name, otype = ty, oflag = 0\<rparr> \<and>
    objects k' = (objects k)(ty := Obj_ipc n # objects k ty)"
proof -
  let ?k = "container_insert ty (Obj_ipc n) (upd_obj (Obj_ipc n) (\<lambda>_. \<lparr>oname = take RT_NAME_MAX name, otype = ty, oflag = 0\<rparr>) k)"
  have "kinv ?k" by (rule objects_irrelevant_kinv [OF k]) (auto simp: container_insert_def)
  moreover have "rt_object_allocate ty name (Some (Obj_ipc n)) k = Some (Some (Obj_ipc n), ?k)"
    using i ty by (simp add: rt_object_allocate_def RT_DEBUG_NOT_IN_INTERRUPT_def rt_interrupt_get_nest_def
        rt_object_get_information_def clear_object_def)
  ultimately show ?thesis by (intro exI [of _ ?k]) (simp add: container_insert_def)
qed

lemma ipc_static_type [simp]:
  "(RT_Object_Class_Semaphore OR RT_Object_Class_Static) AND NOT RT_Object_Class_Static = RT_Object_Class_Semaphore"
  "(RT_Object_Class_Mutex OR RT_Object_Class_Static) AND NOT RT_Object_Class_Static = RT_Object_Class_Mutex"
  "(RT_Object_Class_Event OR RT_Object_Class_Static) AND NOT RT_Object_Class_Static = RT_Object_Class_Event"
  "(RT_Object_Class_MailBox OR RT_Object_Class_Static) AND NOT RT_Object_Class_Static = RT_Object_Class_MailBox"
  "(RT_Object_Class_MessageQueue OR RT_Object_Class_Static) AND NOT RT_Object_Class_Static = RT_Object_Class_MessageQueue"
  by (simp_all add: RT_Object_Class_Semaphore_def RT_Object_Class_Mutex_def RT_Object_Class_Event_def
      RT_Object_Class_MailBox_def RT_Object_Class_MessageQueue_def RT_Object_Class_Static_def)

lemma ipc_object_init_kinv [simp]: "kinv k \<Longrightarrow> waiting_list l \<Longrightarrow> kinv (snd (rt_ipc_object_init l k))"
  by (rule rt_ipc_object_init_kinv)

lemma registered_type [simp]:
  "rt_object_get_type r (registered ty r name k) = (ty OR RT_Object_Class_Static) AND NOT RT_Object_Class_Static"
  "rt_object_is_systemobject r (registered ty r name k)"
  by (simp add: object_defs) (use static_type(3) [of ty] in \<open>simp add: object_defs\<close>)

lemma prio_set_error: "prio_of (upd_thr t (set_error e) k) = prio_of k"
  by (rule ext) simp

lemma unat_Suc16:
  fixes w :: u16
  assumes "w \<noteq> 0xffff"
  shows "unat (w + 1) = Suc (unat w)"
proof -
  have "1 + w \<noteq> 0"
  proof
    assume "1 + w = 0"
    then have "w = - 1" by (simp add: eq_neg_iff_add_eq_0 add.commute)
    then show False using assms by simp
  qed
  then show ?thesis using unatSuc [of w] by (simp add: add.commute)
qed

text \<open>The end of an object: everyone who waits is let go with an error, and the object leaves its container.\<close>

lemma rt_object_delete_ipc:
  "\<not> rt_object_is_systemobject (Obj_ipc n) k \<Longrightarrow>
   rt_object_delete (Obj_ipc n) k = Some (rt_object_detach (Obj_ipc n) k)"
  by (simp add: rt_object_delete_def rt_object_is_systemobject_def)

definition dissolved :: "nat \<Rightarrow> tid set \<Rightarrow> 'a kernel_scheme \<Rightarrow> 'a kernel_scheme \<Rightarrow> bool" where
  "dissolved n T k k' \<longleftrightarrow>
     (\<forall>ty. Obj_ipc n \<in> set (objects k ty) \<longrightarrow> distinct (objects k ty) \<longrightarrow> Obj_ipc n \<notin> set (objects k' ty)) \<and>
     (\<forall>t \<in> T. runnable (state_of k' t) \<and> error (thr k' t) = - RT_ERROR) \<and>
     (\<forall>t. t \<notin> T \<longrightarrow> (runnable (state_of k' t) \<longleftrightarrow> runnable (state_of k t)) \<and> error (thr k' t) = error (thr k t))"

lemma resume_all_detach:
  assumes k: "kinv k"
  shows "\<exists>k1. rt_ipc_list_resume_all (SuspendQ n) k = Some (RT_EOK, k1) \<and> kinv k1 \<and> ipc_frame k k1 \<and>
    rt_current_thread k1 = rt_current_thread k \<and> tlists k1 (SuspendQ n) = [] \<and>
    tlists k1 (SenderQ n) = tlists k (SenderQ n) \<and>
    kinv (rt_object_detach (Obj_ipc n) k1) \<and>
    dissolved n (set (tlists k (SuspendQ n))) k (rt_object_detach (Obj_ipc n) k1)"
proof -
  obtain k1 where r: "rt_ipc_list_resume_all (SuspendQ n) k = Some (RT_EOK, k1)" "kinv k1"
    "rt_current_thread k1 = rt_current_thread k" "tlists k1 (SuspendQ n) = []"
    "wakes (SuspendQ n) (set (tlists k (SuspendQ n))) k k1"
    "\<forall>u. error (thr k1 u) = (if u \<in> set (tlists k (SuspendQ n)) then - RT_ERROR else error (thr k u))"
    using rt_ipc_list_resume_all_kinv [OF k, of "SuspendQ n"] by auto
  have "objects k1 = objects k" using wakes_frame [OF r(5)] by (simp add: ipc_frame_def)
  then have "dissolved n (set (tlists k (SuspendQ n))) k (rt_object_detach (Obj_ipc n) k1)"
    using wakes_runnable [OF r(5)] r(6) by (auto simp: dissolved_def)
  moreover have "tlists k1 (SenderQ n) = tlists k (SenderQ n)" using wakes_other [OF r(5), of "SenderQ n"] by simp
  ultimately show ?thesis using r wakes_frame [OF r(5)] by auto
qed

subsection \<open>The calling thread\<close>

definition caller :: "tid \<Rightarrow> 'a kernel_scheme \<Rightarrow> bool" where
  "caller t k \<longleftrightarrow> rt_current_thread k = Some t \<and> state_of k t = RT_THREAD_RUNNING \<and> rt_interrupt_nest k = 0"

lemma caller_context [simp]:
  "caller t k \<Longrightarrow> RT_DEBUG_IN_THREAD_CONTEXT k = Some ()" "caller t k \<Longrightarrow> rt_thread_self k = Some t"
  by (simp_all add: caller_def RT_DEBUG_IN_THREAD_CONTEXT_def RT_DEBUG_NOT_IN_INTERRUPT_def
      rt_interrupt_get_nest_def rt_thread_self_def)

lemma caller_upd_thr [simp]: "caller t (upd_thr u (set_error e) k) = caller t k"
  by (simp add: caller_def)

lemma caller_not_waiting: "kinv k \<Longrightarrow> caller t k \<Longrightarrow> t \<notin> set (tlists k (SuspendQ n))"
  using kinv_suspendq [of k t n] by (auto simp: caller_def)

lemma unat_Suc8:
  fixes w :: u8
  assumes "w \<noteq> 0xff"
  shows "unat (w + 1) = Suc (unat w)" "w + 1 \<noteq> 0"
proof -
  show ne: "w + 1 \<noteq> 0"
  proof
    assume "w + 1 = 0"
    then have "w = - 1" by (simp add: eq_neg_iff_add_eq_0)
    then show False using assms by simp
  qed
  then show "unat (w + 1) = Suc (unat w)" using unatSuc [of w] by (simp add: add.commute)
qed

end
