(* ===== verification/RingBuffer.thy ===== *)
theory RingBuffer
  imports Prelude
begin

text \<open>
  The byte ring buffer of \<^verbatim>\<open>components/drivers/src/ringbuffer.c\<close>. Every read and write of the
  pool and of the caller's buffers goes through \<open>memcpy\<close> on lists with explicit bounds, so
  \<open>None\<close> is an access outside an object; the lemmas show it does not happen on a well-formed
  buffer. \<open>contents\<close> lifts a buffer to the list of bytes it holds, oldest first, and every
  operation is shown to be the queue operation on that list. The contract a client sees is
  the locale \<open>byte_fifo\<close>.

  The one-bit mirror fields are booleans, on which \<open>~\<close> is negation; the 15-bit index fields
  are naturals whose writes are reduced modulo \<open>2 ^ 15\<close>; \<open>rt_size_t\<close> results are reduced
  modulo \<open>2 ^ 32\<close> and the \<open>rt_uint16_t\<close> locals modulo \<open>2 ^ 16\<close>.
\<close>

subsection \<open>Copying between byte arrays\<close>

definition segment :: "nat \<Rightarrow> nat \<Rightarrow> 'a list \<Rightarrow> 'a list" where
  "segment i j xs = take (j - i) (drop i xs)"

text \<open>\<open>memcpy dst i src j n\<close>: \<open>n\<close> bytes from \<open>src + j\<close> to \<open>dst + i\<close>.\<close>

definition memcpy :: "'a list \<Rightarrow> nat \<Rightarrow> 'a list \<Rightarrow> nat \<Rightarrow> nat \<Rightarrow> 'a list option" where
  "memcpy dst i src j n =
     (if i + n \<le> length dst \<and> j + n \<le> length src
      then Some (take i dst @ segment j (j + n) src @ drop (i + n) dst) else None)"

definition array_get :: "'a list \<Rightarrow> nat \<Rightarrow> 'a option" where
  "array_get xs i = (if i < length xs then Some (xs ! i) else None)"

definition array_set :: "'a list \<Rightarrow> nat \<Rightarrow> 'a \<Rightarrow> 'a list option" where
  "array_set xs i v = (if i < length xs then Some (xs[i := v]) else None)"

lemma segment_simps [simp]:
  "segment i i xs = []" "segment 0 j xs = take j xs"
  "length (segment i j xs) = min (j - i) (length xs - i)"
  by (auto simp: segment_def)

lemma segment_append:
  assumes "i \<le> m" "m \<le> j"
  shows "segment i j xs = segment i m xs @ segment m j xs"
proof -
  have "j - i = (m - i) + (j - m)" using assms by simp
  then have "take (j - i) (drop i xs) = take (m - i) (drop i xs) @ take (j - m) (drop (m - i) (drop i xs))"
    by (simp add: take_add)
  with assms show ?thesis by (simp add: segment_def)
qed

lemma segment_take: "segment i j (take k xs) = segment i (min j k) xs"
  by (simp add: segment_def drop_take min_def)

lemma segment_drop: "segment i j (drop k xs) = segment (i + k) (j + k) xs"
  by (simp add: segment_def add.commute)

lemma drop_segment: "drop k (segment i j xs) = segment (i + k) j xs"
  by (simp add: segment_def drop_take add.commute)

lemma take_segment: "i + k \<le> j \<Longrightarrow> take k (segment i j xs) = segment i (i + k) xs"
  by (simp add: segment_def)

text \<open>What a copy leaves and what it writes.\<close>

lemma segment_copy_below:
  "\<lbrakk>b \<le> i; i \<le> length d\<rbrakk> \<Longrightarrow> segment a b (take i d @ e) = segment a b d"
  by (auto simp: segment_def min_def drop_take)

lemma segment_copy_above:
  "\<lbrakk>i + length s \<le> length d; i + length s \<le> a\<rbrakk>
   \<Longrightarrow> segment a b (take i d @ s @ drop (i + length s) d) = segment a b d"
  by (simp add: segment_def)

lemma segment_copy_at:
  "\<lbrakk>i \<le> length d; b = i + length s\<rbrakk> \<Longrightarrow> segment i b (take i d @ s @ e) = s"
  by (simp add: segment_def)

subsection \<open>The buffer\<close>

record rt_ringbuffer =
  buffer_ptr :: "u8 list"
  read_mirror :: bool
  read_index :: nat
  write_mirror :: bool
  write_index :: nat
  buffer_size :: nat

datatype rt_ringbuffer_state = RT_RINGBUFFER_EMPTY | RT_RINGBUFFER_FULL | RT_RINGBUFFER_HALFFULL

definition RT_ALIGN_SIZE :: nat where "RT_ALIGN_SIZE = 4"

definition rt_align_down :: "nat \<Rightarrow> nat" where
  "rt_align_down n = n - n mod RT_ALIGN_SIZE"

definition rt_ringbuffer_status :: "rt_ringbuffer \<Rightarrow> rt_ringbuffer_state" where
  "rt_ringbuffer_status rb =
     (if read_index rb = write_index rb
      then if read_mirror rb = write_mirror rb then RT_RINGBUFFER_EMPTY else RT_RINGBUFFER_FULL
      else RT_RINGBUFFER_HALFFULL)"

definition rt_ringbuffer_data_len :: "rt_ringbuffer \<Rightarrow> nat" where
  "rt_ringbuffer_data_len rb =
     (case rt_ringbuffer_status rb of
        RT_RINGBUFFER_EMPTY \<Rightarrow> 0
      | RT_RINGBUFFER_FULL \<Rightarrow> buffer_size rb
      | RT_RINGBUFFER_HALFFULL \<Rightarrow>
          if read_index rb < write_index rb then write_index rb - read_index rb
          else nat ((int (buffer_size rb) - (int (read_index rb) - int (write_index rb))) mod 2 ^ 32))"

definition rt_ringbuffer_space_len :: "rt_ringbuffer \<Rightarrow> nat" where
  "rt_ringbuffer_space_len rb =
     nat ((int (buffer_size rb) - int (rt_ringbuffer_data_len rb)) mod 2 ^ 32)"

definition rt_ringbuffer_init :: "rt_ringbuffer \<Rightarrow> u8 list \<Rightarrow> int \<Rightarrow> rt_ringbuffer option" where
  "rt_ringbuffer_init rb pool sz = do {
     rt_assert (sz > 0);
     Some (rb\<lparr>read_mirror := False, read_index := 0, write_mirror := False, write_index := 0,
       buffer_ptr := pool, buffer_size := rt_align_down (nat sz)\<rparr>) }"

definition rt_ringbuffer_put :: "rt_ringbuffer \<Rightarrow> u8 list \<Rightarrow> nat \<Rightarrow> (nat \<times> rt_ringbuffer) option" where
  "rt_ringbuffer_put rb ptr len =
     (let sz = rt_ringbuffer_space_len rb mod 2 ^ 16 in
      if sz = 0 then Some (0, rb)
      else
        let len = (if sz < len then sz else len) in
        if int (buffer_size rb) - int (write_index rb) > int len then do {
          pool \<leftarrow> memcpy (buffer_ptr rb) (write_index rb) ptr 0 len;
          Some (len, rb\<lparr>buffer_ptr := pool, write_index := (write_index rb + len) mod 2 ^ 15\<rparr>) }
        else
          let room = buffer_size rb - write_index rb in do {
          pool \<leftarrow> memcpy (buffer_ptr rb) (write_index rb) ptr 0 room;
          pool \<leftarrow> memcpy pool 0 ptr room (len - room);
          Some (len, rb\<lparr>buffer_ptr := pool, write_mirror := \<not> write_mirror rb,
            write_index := (len - room) mod 2 ^ 15\<rparr>) })"

definition rt_ringbuffer_put_force ::
  "rt_ringbuffer \<Rightarrow> u8 list \<Rightarrow> nat \<Rightarrow> (nat \<times> rt_ringbuffer) option" where
  "rt_ringbuffer_put_force rb ptr len =
     (let space_length = rt_ringbuffer_space_len rb mod 2 ^ 16;
          skip = (if len > buffer_size rb then len - buffer_size rb else 0);
          len = (if len > buffer_size rb then buffer_size rb else len) in
      if int (buffer_size rb) - int (write_index rb) > int len then do {
        pool \<leftarrow> memcpy (buffer_ptr rb) (write_index rb) ptr skip len;
        let w = (write_index rb + len) mod 2 ^ 15;
        Some (len, rb\<lparr>buffer_ptr := pool, write_index := w,
          read_index := (if len > space_length then w else read_index rb)\<rparr>) }
      else
        let room = buffer_size rb - write_index rb in do {
        pool \<leftarrow> memcpy (buffer_ptr rb) (write_index rb) ptr skip room;
        pool \<leftarrow> memcpy pool 0 ptr (skip + room) (len - room);
        let w = (len - room) mod 2 ^ 15;
        let rb = rb\<lparr>buffer_ptr := pool, write_mirror := \<not> write_mirror rb, write_index := w\<rparr>;
        Some (len, if len > space_length
          then rb\<lparr>read_mirror := \<not> read_mirror rb, read_index := w\<rparr> else rb) })"

definition rt_ringbuffer_get ::
  "rt_ringbuffer \<Rightarrow> u8 list \<Rightarrow> nat \<Rightarrow> (nat \<times> u8 list \<times> rt_ringbuffer) option" where
  "rt_ringbuffer_get rb ptr len =
     (let sz = rt_ringbuffer_data_len rb in
      if sz = 0 then Some (0, ptr, rb)
      else
        let len = (if sz < len then sz mod 2 ^ 16 else len) in
        if int (buffer_size rb) - int (read_index rb) > int len then do {
          ptr \<leftarrow> memcpy ptr 0 (buffer_ptr rb) (read_index rb) len;
          Some (len, ptr, rb\<lparr>read_index := (read_index rb + len) mod 2 ^ 15\<rparr>) }
        else
          let room = buffer_size rb - read_index rb in do {
          ptr \<leftarrow> memcpy ptr 0 (buffer_ptr rb) (read_index rb) room;
          ptr \<leftarrow> memcpy ptr room (buffer_ptr rb) 0 (len - room);
          Some (len, ptr, rb\<lparr>read_mirror := \<not> read_mirror rb,
            read_index := (len - room) mod 2 ^ 15\<rparr>) })"

definition rt_ringbuffer_putchar :: "rt_ringbuffer \<Rightarrow> u8 \<Rightarrow> (nat \<times> rt_ringbuffer) option" where
  "rt_ringbuffer_putchar rb ch =
     (if rt_ringbuffer_space_len rb = 0 then Some (0, rb)
      else do {
        pool \<leftarrow> array_set (buffer_ptr rb) (write_index rb) ch;
        let rb = rb\<lparr>buffer_ptr := pool\<rparr>;
        Some (1, if int (write_index rb) = int (buffer_size rb) - 1
          then rb\<lparr>write_mirror := \<not> write_mirror rb, write_index := 0\<rparr>
          else rb\<lparr>write_index := (write_index rb + 1) mod 2 ^ 15\<rparr>) })"

definition rt_ringbuffer_putchar_force :: "rt_ringbuffer \<Rightarrow> u8 \<Rightarrow> (nat \<times> rt_ringbuffer) option" where
  "rt_ringbuffer_putchar_force rb ch =
     (let old_state = rt_ringbuffer_status rb in do {
        pool \<leftarrow> array_set (buffer_ptr rb) (write_index rb) ch;
        let rb = rb\<lparr>buffer_ptr := pool\<rparr>;
        Some (1,
          if int (write_index rb) = int (buffer_size rb) - 1
          then let rb = rb\<lparr>write_mirror := \<not> write_mirror rb, write_index := 0\<rparr> in
            if old_state = RT_RINGBUFFER_FULL
            then rb\<lparr>read_mirror := \<not> read_mirror rb, read_index := write_index rb\<rparr> else rb
          else let rb = rb\<lparr>write_index := (write_index rb + 1) mod 2 ^ 15\<rparr> in
            if old_state = RT_RINGBUFFER_FULL then rb\<lparr>read_index := write_index rb\<rparr> else rb) })"

definition rt_ringbuffer_getchar :: "rt_ringbuffer \<Rightarrow> (nat \<times> u8 option \<times> rt_ringbuffer) option" where
  "rt_ringbuffer_getchar rb =
     (if rt_ringbuffer_data_len rb = 0 then Some (0, None, rb)
      else do {
        ch \<leftarrow> array_get (buffer_ptr rb) (read_index rb);
        Some (1, Some ch, if int (read_index rb) = int (buffer_size rb) - 1
          then rb\<lparr>read_mirror := \<not> read_mirror rb, read_index := 0\<rparr>
          else rb\<lparr>read_index := (read_index rb + 1) mod 2 ^ 15\<rparr>) })"

definition rt_ringbuffer_reset :: "rt_ringbuffer \<Rightarrow> rt_ringbuffer" where
  "rt_ringbuffer_reset rb =
     rb\<lparr>read_mirror := False, read_index := 0, write_mirror := False, write_index := 0\<rparr>"

text \<open>
  \<open>rt_ringbuffer_create\<close> allocates the control block and the pool; the two \<open>rt_malloc\<close> results
  are arguments, each the fresh object or \<open>None\<close> for \<open>RT_NULL\<close>. The third component of the
  result says whether the control block was given back with \<open>rt_free\<close>.
\<close>

definition rt_ringbuffer_create ::
  "nat \<Rightarrow> rt_ringbuffer option \<Rightarrow> (nat \<Rightarrow> u8 list option) \<Rightarrow> (rt_ringbuffer option \<times> bool) option" where
  "rt_ringbuffer_create sz malloc_rb malloc_pool = do {
     rt_assert (sz > 0);
     let sz = rt_align_down sz;
     case malloc_rb of None \<Rightarrow> Some (None, False)
     | Some rb \<Rightarrow>
         (case malloc_pool sz of None \<Rightarrow> Some (None, True)
          | Some pool \<Rightarrow> do {
              rb \<leftarrow> rt_ringbuffer_init rb pool (if sz < 2 ^ 15 then int sz else int sz - 2 ^ 16);
              Some (Some rb, False) }) }"

subsection \<open>Well-formed buffers and their contents\<close>

definition rb_wf :: "rt_ringbuffer \<Rightarrow> bool" where
  "rb_wf rb \<longleftrightarrow>
     0 < buffer_size rb \<and> buffer_size rb < 2 ^ 15 \<and> buffer_size rb \<le> length (buffer_ptr rb) \<and>
     read_index rb < buffer_size rb \<and> write_index rb < buffer_size rb \<and>
     (if read_mirror rb = write_mirror rb then read_index rb \<le> write_index rb
      else write_index rb \<le> read_index rb)"

definition contents :: "rt_ringbuffer \<Rightarrow> u8 list" where
  "contents rb =
     (if read_mirror rb = write_mirror rb
      then segment (read_index rb) (write_index rb) (buffer_ptr rb)
      else segment (read_index rb) (buffer_size rb) (buffer_ptr rb) @ segment 0 (write_index rb) (buffer_ptr rb))"

lemma length_contents: "rb_wf rb \<Longrightarrow> length (contents rb) = rt_ringbuffer_data_len rb"
  by (auto simp: rb_wf_def contents_def rt_ringbuffer_data_len_def rt_ringbuffer_status_def
      split: if_splits)

lemma length_contents_le: "rb_wf rb \<Longrightarrow> length (contents rb) \<le> buffer_size rb"
  by (auto simp: rb_wf_def contents_def)

lemma space_len: "rb_wf rb \<Longrightarrow> rt_ringbuffer_space_len rb = buffer_size rb - length (contents rb)"
  using length_contents_le [of rb]
  by (auto simp: rt_ringbuffer_space_len_def length_contents [symmetric] rb_wf_def)

lemma memcpy_Some:
  "\<lbrakk>i + n \<le> length dst; j + n \<le> length src\<rbrakk>
   \<Longrightarrow> memcpy dst i src j n = Some (take i dst @ segment j (j + n) src @ drop (i + n) dst)"
  by (simp add: memcpy_def)

lemma buffer_size_mod: "rb_wf rb \<Longrightarrow> n \<le> buffer_size rb \<Longrightarrow> n mod 2 ^ 15 = n \<and> n mod 2 ^ 16 = n"
  by (simp add: rb_wf_def)

text \<open>The two copies of a write that wraps, as one update of the pool.\<close>

lemma wrap_copy:
  assumes "w < sz" "sz \<le> length p" "sz - w \<le> n" "n - (sz - w) \<le> w" "j + n \<le> length src"
  obtains q where "memcpy p w src j (sz - w) = Some q"
    and "memcpy q 0 src (j + (sz - w)) (n - (sz - w)) =
      Some (segment (j + (sz - w)) (j + n) src @ segment (n - (sz - w)) w p @ segment j (j + (sz - w)) src @ drop sz p)"
proof
  show "memcpy p w src j (sz - w) = Some (take w p @ segment j (j + (sz - w)) src @ drop sz p)"
    using assms by (simp add: memcpy_Some)
  show "memcpy (take w p @ segment j (j + (sz - w)) src @ drop sz p) 0 src (j + (sz - w)) (n - (sz - w)) =
      Some (segment (j + (sz - w)) (j + n) src @ segment (n - (sz - w)) w p @ segment j (j + (sz - w)) src @ drop sz p)"
    using assms by (simp add: memcpy_Some segment_def drop_take)
qed

lemma segment_append_left: "j \<le> length xs \<Longrightarrow> segment i j (xs @ ys) = segment i j xs"
  by (auto simp: segment_def)

lemma segment_append_right: "length xs \<le> i \<Longrightarrow> segment i j (xs @ ys) = segment (i - length xs) (j - length xs) ys"
  by (simp add: segment_def)

lemma segment_wrapped:
  assumes "length a = m" "m \<le> r" "r \<le> w" "w \<le> sz" "sz \<le> length p" "length c = sz - w"
  shows "segment r sz (a @ segment m w p @ c @ d) = segment r w p @ c"
  using assms by (simp add: segment_def drop_take)

lemma rt_ringbuffer_put_correct:
  assumes wf: "rb_wf rb" and n: "n \<le> length ptr"
  defines "k \<equiv> min n (buffer_size rb - length (contents rb))"
  shows "\<exists>rb'. rt_ringbuffer_put rb ptr n = Some (k, rb') \<and> rb_wf rb' \<and>
    buffer_size rb' = buffer_size rb \<and> contents rb' = contents rb @ take k ptr"
proof -
  let ?sz = "buffer_size rb" and ?w = "write_index rb" and ?r = "read_index rb" and ?p = "buffer_ptr rb"
  have sp: "rt_ringbuffer_space_len rb mod 2 ^ 16 = ?sz - length (contents rb)"
    using space_len [OF wf] buffer_size_mod [OF wf] by simp
  note lc = length_contents_le [OF wf]
  have kn: "(if ?sz - length (contents rb) < n then ?sz - length (contents rb) else n) = k"
    by (auto simp: k_def min_def)
  have w: "?w < ?sz" "?r < ?sz" "?sz < 2 ^ 15" "?sz \<le> length ?p" using wf by (auto simp: rb_wf_def)
  show ?thesis
  proof (cases "?sz - length (contents rb) = 0")
    case True
    with wf sp show ?thesis by (simp add: rt_ringbuffer_put_def k_def)
  next
    case False
    show ?thesis
    proof (cases "k < ?sz - ?w")
      case fits: True
      let ?q = "take ?w ?p @ segment 0 k ptr @ drop (?w + k) ?p"
      have ic: "int k < int ?sz - int ?w" using fits by linarith
      have "memcpy ?p ?w ptr 0 k = Some ?q" using fits w n by (simp add: memcpy_Some k_def)
      then have put: "rt_ringbuffer_put rb ptr n =
        Some (k, rb\<lparr>buffer_ptr := ?q, write_index := (?w + k) mod 2 ^ 15\<rparr>)"
        using False ic sp kn by (simp add: rt_ringbuffer_put_def Let_def)
      let ?rb = "rb\<lparr>buffer_ptr := ?q, write_index := ?w + k\<rparr>"
      have lq: "length ?q = length ?p" using fits w n by (simp add: k_def)
      have sp_ok: "?w + k \<le> ?r" if "read_mirror rb \<noteq> write_mirror rb"
        using that wf w by (auto simp: k_def contents_def rb_wf_def)
      have "rb_wf ?rb" using wf fits lq sp_ok by (auto simp: rb_wf_def)
      moreover have "contents ?rb = contents rb @ take k ptr"
      proof (cases "read_mirror rb = write_mirror rb")
        case True
        then have "?r \<le> ?w" using wf by (simp add: rb_wf_def)
        with True w fits n segment_append [of ?r ?w "?w + k" ?q] show ?thesis
          by (simp add: contents_def segment_copy_below segment_copy_at k_def)
      next
        case False
        have "segment ?r ?sz ?q = segment ?r ?sz ?p"
          using sp_ok [OF False] fits w n segment_copy_above [of ?w "segment 0 k ptr" ?p ?r ?sz]
          by (simp add: k_def)
        moreover have "take (?w + k) ?q = take ?w ?p @ take k ptr"
          using w fits n by (simp add: k_def)
        ultimately show ?thesis using False by (simp add: contents_def)
      qed
      moreover have "(?w + k) mod 2 ^ 15 = ?w + k" using fits w by simp
      ultimately show ?thesis using put by (intro exI [of _ ?rb]) simp
    next
      case wraps: False
      have same: "read_mirror rb = write_mirror rb" and bound: "k - (?sz - ?w) \<le> ?r"
        using wraps wf w False by (auto simp: k_def contents_def rb_wf_def split: if_splits)
      let ?m = "k - (?sz - ?w)"
      let ?q = "segment (?sz - ?w) k ptr @ segment ?m ?w ?p @ segment 0 (?sz - ?w) ptr @ drop ?sz ?p"
      have rw: "?r \<le> ?w" using same wf by (simp add: rb_wf_def)
      have ic: "\<not> int k < int ?sz - int ?w" using wraps w by linarith
      have kl: "k \<le> length ptr" using n by (simp add: k_def)
      obtain q where q: "memcpy ?p ?w ptr 0 (?sz - ?w) = Some q"
        "memcpy q 0 ptr (?sz - ?w) ?m = Some ?q"
        using wrap_copy [of ?w ?sz ?p k 0 ptr] w wraps bound rw kl by auto
      then have put: "rt_ringbuffer_put rb ptr n = Some (k, rb\<lparr>buffer_ptr := ?q,
          write_mirror := \<not> write_mirror rb, write_index := ?m mod 2 ^ 15\<rparr>)"
        using False wraps sp kn ic by (simp add: rt_ringbuffer_put_def Let_def)
      let ?rb = "rb\<lparr>buffer_ptr := ?q, write_mirror := \<not> write_mirror rb, write_index := ?m\<rparr>"
      have la: "length (segment (?sz - ?w) k ptr) = ?m" and lc': "length (take (?sz - ?w) ptr) = ?sz - ?w"
        using kl wraps by auto
      have lq: "length ?q = length ?p" proof -
        have "length (segment ?m ?w ?p) = ?w - ?m" using w by simp
        moreover have "length (segment 0 (?sz - ?w) ptr) = ?sz - ?w" using lc' by simp
        ultimately show ?thesis using la w bound rw unfolding length_append length_drop by linarith
      qed
      have wf': "rb_wf (rb\<lparr>buffer_ptr := q', write_mirror := \<not> write_mirror rb, write_index := ?m\<rparr>)"
        if "length q' = length ?p" for q' using that wf same bound w by (simp add: rb_wf_def)
      have "rb_wf ?rb" by (rule wf' [OF lq])
      have seg: "segment ?r ?sz ?q = segment ?r ?w ?p @ take (?sz - ?w) ptr"
        using segment_wrapped [OF la bound rw _ _ lc'] w by simp
      have tm: "take ?m ?q = segment (?sz - ?w) k ptr" using la by simp
      have cat: "take (?sz - ?w) ptr @ segment (?sz - ?w) k ptr = take k ptr"
        using wraps segment_append [of 0 "?sz - ?w" k ptr] by simp
      have "contents (rb\<lparr>buffer_ptr := q', write_mirror := \<not> write_mirror rb, write_index := m\<rparr>) =
          segment ?r ?sz q' @ take m q'" for q' m
        using same by (simp add: contents_def)
      from this [where q' = ?q and m = ?m] have "contents ?rb = segment ?r ?sz ?q @ take ?m ?q" .
      also have "\<dots> = contents rb @ take k ptr"
        unfolding seg tm append_assoc cat using same by (simp add: contents_def)
      finally have "rb_wf ?rb \<and> contents ?rb = contents rb @ take k ptr"
        using \<open>rb_wf ?rb\<close> by simp
      moreover have "?m mod 2 ^ 15 = ?m" using bound w by simp
      ultimately show ?thesis using put by (intro exI [of _ ?rb]) simp
    qed
  qed
qed

lemma rt_ringbuffer_get_correct:
  assumes wf: "rb_wf rb" and n: "n \<le> length ptr" "n < 2 ^ 16"
  defines "k \<equiv> min n (length (contents rb))"
  shows "\<exists>rb'. rt_ringbuffer_get rb ptr n = Some (k, take k (contents rb) @ drop k ptr, rb') \<and>
    rb_wf rb' \<and> buffer_size rb' = buffer_size rb \<and> contents rb' = drop k (contents rb)"
proof -
  let ?sz = "buffer_size rb" and ?w = "write_index rb" and ?r = "read_index rb" and ?p = "buffer_ptr rb"
  note lc = length_contents_le [OF wf]
  have w: "?w < ?sz" "?r < ?sz" "?sz < 2 ^ 15" "?sz \<le> length ?p" using wf by (auto simp: rb_wf_def)
  have dl: "rt_ringbuffer_data_len rb = length (contents rb)" using length_contents [OF wf] by simp
  have kn: "(if length (contents rb) < n then length (contents rb) mod 2 ^ 16 else n) = k"
    using lc w by (auto simp: k_def min_def)
  show ?thesis
  proof (cases "contents rb = []")
    case True
    with wf dl show ?thesis by (simp add: rt_ringbuffer_get_def k_def)
  next
    case False
    have cont: "contents rb = segment ?r (if read_mirror rb = write_mirror rb then ?w else ?sz) ?p @
        (if read_mirror rb = write_mirror rb then [] else take ?w ?p)"
      by (simp add: contents_def)
    show ?thesis
    proof (cases "k < ?sz - ?r")
      case fits: True
      let ?j = "if read_mirror rb = write_mirror rb then ?w else ?sz"
      have ll: "length (segment ?r ?j ?p) = ?j - ?r" using w by simp
      have kj: "?r + k \<le> ?j" using fits w wf by (auto simp: k_def contents_def rb_wf_def)
      have "memcpy ptr 0 ?p ?r k = Some (segment ?r (?r + k) ?p @ drop k ptr)"
        using fits w n by (simp add: memcpy_Some k_def)
      moreover have "take k (contents rb) = segment ?r (?r + k) ?p"
        using kj ll by (simp add: cont take_segment)
      moreover have "drop k (contents rb) = contents (rb\<lparr>read_index := ?r + k\<rparr>)"
        using kj ll by (cases "read_mirror rb = write_mirror rb") (simp_all add: contents_def drop_segment)
      moreover have "rb_wf (rb\<lparr>read_index := ?r + k\<rparr>)"
        using wf fits by (auto simp: k_def contents_def rb_wf_def)
      moreover have "(?r + k) mod 2 ^ 15 = ?r + k" and "int k < int ?sz - int ?r"
        using fits w by auto
      ultimately show ?thesis using False kn dl
        by (intro exI [of _ "rb\<lparr>read_index := ?r + k\<rparr>"]) (simp add: rt_ringbuffer_get_def Let_def)
    next
      case wraps: False
      have diff: "read_mirror rb \<noteq> write_mirror rb" and kle: "k - (?sz - ?r) \<le> ?w"
        using wraps wf w False by (auto simp: k_def contents_def rb_wf_def split: if_splits)
      let ?m = "k - (?sz - ?r)"
      have ks: "?sz - ?r \<le> k" "k \<le> n" using wraps unfolding k_def by linarith+
      have m1: "memcpy ptr 0 ?p ?r (?sz - ?r) = Some (segment ?r ?sz ?p @ drop (?sz - ?r) ptr)"
        using ks w n by (simp add: memcpy_Some)
      have m2: "memcpy (segment ?r ?sz ?p @ drop (?sz - ?r) ptr) (?sz - ?r) ?p 0 ?m =
          Some (segment ?r ?sz ?p @ take ?m ?p @ drop k ptr)"
        using ks w n kle by (simp add: memcpy_Some)
      have ls: "length (segment ?r ?sz ?p) = ?sz - ?r" using w by simp
      have cd: "contents rb = segment ?r ?sz ?p @ take ?w ?p" using diff by (simp add: contents_def)
      have tk: "take k (contents rb) = segment ?r ?sz ?p @ take ?m ?p"
        unfolding cd take_append ls using ks ls kle by (simp add: min_def)
      have dk: "drop k (contents rb) = segment ?m ?w ?p"
        unfolding cd drop_append ls using ks ls by (simp add: segment_def drop_take)
      let ?rb = "rb\<lparr>read_mirror := \<not> read_mirror rb, read_index := ?m\<rparr>"
      have "rb_wf ?rb" using wf diff kle w by (auto simp: rb_wf_def)
      moreover have "contents ?rb = drop k (contents rb)" using dk diff by (simp add: contents_def)
      moreover have "?m mod 2 ^ 15 = ?m" and "\<not> int k < int ?sz - int ?r" using kle w wraps by auto
      ultimately show ?thesis using False kn dl m1 m2 tk
        by (intro exI [of _ ?rb]) (simp add: rt_ringbuffer_get_def Let_def)
    qed
  qed
qed

text \<open>The single-character operations.\<close>

lemma rt_ringbuffer_putchar_correct:
  assumes wf: "rb_wf rb"
  shows "\<exists>rb'. rt_ringbuffer_putchar rb ch =
      Some (if length (contents rb) < buffer_size rb then 1 else 0, rb') \<and> rb_wf rb' \<and>
    buffer_size rb' = buffer_size rb \<and>
    contents rb' = (if length (contents rb) < buffer_size rb then contents rb @ [ch] else contents rb)"
proof (cases "length (contents rb) < buffer_size rb")
  case True
  let ?w = "write_index rb" and ?p = "buffer_ptr rb" and ?sz = "buffer_size rb" and ?r = "read_index rb"
  have w: "?w < ?sz" "?r < ?sz" "?sz < 2 ^ 15" "?sz \<le> length ?p" using wf by (auto simp: rb_wf_def)
  have sp: "rt_ringbuffer_space_len rb \<noteq> 0" using True space_len [OF wf] by simp
  have snoc: "segment ?r (Suc ?w) (?p[?w := ch]) = segment ?r ?w ?p @ [ch]" if "?r \<le> ?w"
    using that w by (simp add: segment_def drop_update_swap take_Suc_conv_app_nth Suc_diff_le)
  have rest: "segment ?r ?sz (?p[?w := ch]) = segment ?r ?sz ?p" if "?w < ?r"
    using that by (simp add: segment_def)
  have end0: "take (Suc ?w) (?p[?w := ch]) = take ?w ?p @ [ch]"
    using w by (simp add: take_Suc_conv_app_nth)
  have lt: "read_mirror rb \<noteq> write_mirror rb \<Longrightarrow> ?w < ?r"
    using True wf by (auto simp: contents_def rb_wf_def)
  show ?thesis
  proof (cases "Suc ?w = ?sz")
    case True
    then show ?thesis using wf w sp snoc lt True \<open>length (contents rb) < ?sz\<close>
      by (auto simp: rt_ringbuffer_putchar_def array_set_def rb_wf_def contents_def)
  next
    case False
    then show ?thesis using wf w sp snoc lt rest end0 \<open>length (contents rb) < ?sz\<close>
      by (auto simp: rt_ringbuffer_putchar_def array_set_def rb_wf_def contents_def)
  qed
next
  case False
  then have "rt_ringbuffer_space_len rb = 0" using space_len [OF wf] by simp
  with False wf show ?thesis by (simp add: rt_ringbuffer_putchar_def)
qed

lemma rt_ringbuffer_getchar_correct:
  assumes wf: "rb_wf rb"
  shows "case contents rb of
      [] \<Rightarrow> rt_ringbuffer_getchar rb = Some (0, None, rb)
    | c # cs \<Rightarrow> \<exists>rb'. rt_ringbuffer_getchar rb = Some (1, Some c, rb') \<and> rb_wf rb' \<and>
        buffer_size rb' = buffer_size rb \<and> contents rb' = cs"
proof (cases "contents rb")
  case Nil
  with length_contents [OF wf] show ?thesis by (simp add: rt_ringbuffer_getchar_def)
next
  case (Cons c cs)
  let ?w = "write_index rb" and ?p = "buffer_ptr rb" and ?sz = "buffer_size rb" and ?r = "read_index rb"
  have w: "?w < ?sz" "?r < ?sz" "?sz < 2 ^ 15" "?sz \<le> length ?p" using wf by (auto simp: rb_wf_def)
  have hd: "segment ?r j ?p = ?p ! ?r # segment (Suc ?r) j ?p" if "?r < j" for j
    using that w by (simp add: segment_def Cons_nth_drop_Suc [symmetric] Suc_diff_Suc take_Cons')
  have lt: "read_mirror rb = write_mirror rb \<Longrightarrow> ?r < ?w"
    using Cons wf by (cases "?r = ?w") (auto simp: contents_def rb_wf_def)
  have cc: "c = ?p ! ?r" and cs: "cs = (if read_mirror rb = write_mirror rb
      then segment (Suc ?r) ?w ?p else segment (Suc ?r) ?sz ?p @ take ?w ?p)"
    using Cons hd [of ?w] hd [of ?sz] w lt by (auto simp: contents_def split: if_splits)
  have dl: "rt_ringbuffer_data_len rb \<noteq> 0" using length_contents [OF wf] Cons by simp
  have "\<exists>rb'. rt_ringbuffer_getchar rb = Some (1, Some c, rb') \<and> rb_wf rb' \<and>
        buffer_size rb' = buffer_size rb \<and> contents rb' = cs"
  proof (cases "Suc ?r = ?sz")
    case True
    then have "segment (Suc ?r) ?sz ?p = []" by (simp add: segment_def)
    with True show ?thesis using wf w dl lt cc cs
      by (auto simp: rt_ringbuffer_getchar_def array_get_def rb_wf_def contents_def)
  next
    case False
    then show ?thesis using wf w dl lt cc cs
      by (auto simp: rt_ringbuffer_getchar_def array_get_def rb_wf_def contents_def)
  qed
  with Cons show ?thesis by simp
qed

text \<open>
  Forced writes drop the oldest bytes. \<open>rt_ringbuffer_put_force\<close> keeps the newest
  \<open>buffer_size\<close> bytes when the data fits or when the mirrors differ.
\<close>

lemma put_force_fits:
  assumes wf: "rb_wf rb" and n: "0 < n" "n \<le> buffer_size rb - length (contents rb)"
  shows "rt_ringbuffer_put_force rb ptr n = rt_ringbuffer_put rb ptr n"
proof -
  have "rt_ringbuffer_space_len rb mod 2 ^ 16 = buffer_size rb - length (contents rb)"
    using space_len [OF wf] buffer_size_mod [OF wf] by simp
  moreover have "\<not> buffer_size rb < n" "\<not> buffer_size rb - length (contents rb) < n"
    "buffer_size rb - length (contents rb) \<noteq> 0" "\<not> buffer_size rb \<le> length (contents rb)" using n by auto
  ultimately show ?thesis
    unfolding rt_ringbuffer_put_force_def rt_ringbuffer_put_def Let_def by simp
qed

lemma put_force_fits':
  assumes wf: "rb_wf rb" and n: "n \<le> length ptr" "n \<le> buffer_size rb - length (contents rb)"
  shows "\<exists>rb'. rt_ringbuffer_put_force rb ptr n = Some (n, rb') \<and> rb_wf rb' \<and>
    buffer_size rb' = buffer_size rb \<and> contents rb' = contents rb @ take n ptr"
proof (cases "n = 0")
  case True
  have "int 0 < int (buffer_size rb) - int (write_index rb)" using wf by (simp add: rb_wf_def)
  with True wf show ?thesis by (simp add: rt_ringbuffer_put_force_def memcpy_def rb_wf_def)
next
  case False
  then show ?thesis
    using rt_ringbuffer_put_correct [OF wf n(1)] put_force_fits [OF wf _ n(2)] n(2) by (simp add: min_def)
qed

lemma drop_over: "\<lbrakk>length b = m; i = m + d\<rbrakk> \<Longrightarrow> drop i (b @ c) = drop d c"
  by simp

lemma segment_split_lengths:
  assumes "s + k = n" "n \<le> length ptr" "d \<le> k"
  shows "length (segment (s + d) n ptr) = k - d" "length (segment s (s + d) ptr) = d"
  using assms by auto

lemma put_force_over:
  assumes wf: "rb_wf rb" and n: "n \<le> length ptr" and diff: "read_mirror rb \<noteq> write_mirror rb"
    and over: "buffer_size rb < length (contents rb) + n"
  defines "all \<equiv> contents rb @ take n ptr"
  shows "\<exists>rb'. rt_ringbuffer_put_force rb ptr n = Some (min n (buffer_size rb), rb') \<and> rb_wf rb' \<and>
    buffer_size rb' = buffer_size rb \<and> contents rb' = drop (length all - buffer_size rb) all"
proof -
  let ?sz = "buffer_size rb" and ?w = "write_index rb" and ?r = "read_index rb" and ?p = "buffer_ptr rb"
  let ?k = "min n ?sz" and ?s = "n - ?sz"
  have w: "?w < ?sz" "?r < ?sz" "?sz < 2 ^ 15" "?sz \<le> length ?p" "?w \<le> ?r"
    using wf diff by (auto simp: rb_wf_def)
  have lr: "length (segment ?r ?sz ?p) = ?sz - ?r" and lw: "length (take ?w ?p) = ?w" using w by auto
  have lc: "length (contents rb) = ?sz - ?r + ?w"
    using diff lr lw by (simp add: contents_def)
  have sp: "rt_ringbuffer_space_len rb mod 2 ^ 16 = ?sz - length (contents rb)"
    using space_len [OF wf] buffer_size_mod [OF wf] by simp
  have kk: "(if ?sz < n then n - ?sz else 0) = ?s" "(if ?sz < n then ?sz else n) = ?k" by auto
  have rw: "?r < ?w + n" using over lc w by linarith
  have big: "?sz - length (contents rb) < ?k" using over lc w by linarith
  have all: "all = segment ?r ?sz ?p @ take ?w ?p @ take n ptr" using diff by (simp add: all_def contents_def)
  have lall: "length all - ?sz = ?w + n - ?r" using w n lr unfolding all by simp
  show ?thesis
  proof (cases "?k < ?sz - ?w")
    case fits: True
    then have kn: "?k = n" "?s = 0" by auto
    let ?q = "take ?w ?p @ segment 0 n ptr @ drop (?w + n) ?p"
    let ?rb = "rb\<lparr>buffer_ptr := ?q, write_index := ?w + n, read_index := ?w + n\<rparr>"
    have cp: "memcpy ?p ?w ptr 0 n = Some ?q" using fits kn w n by (simp add: memcpy_Some)
    have ic: "int n < int ?sz - int ?w" and md: "(?w + n) mod 2 ^ 15 = ?w + n" using fits kn w by auto
    have "rt_ringbuffer_put_force rb ptr n = Some (?k, ?rb)"
      using cp ic md kk sp big kn by (simp add: rt_ringbuffer_put_force_def Let_def)
    moreover have "length ?q = length ?p" "?w + n < ?sz" using fits kn w n by auto
    then have "rb_wf ?rb" using wf diff by (simp add: rb_wf_def del: length_append segment_simps)
    moreover have "contents ?rb = drop (length all - ?sz) all"
    proof -
      have "segment (?w + n) ?sz ?q = segment (?w + n) ?sz ?p"
        using segment_copy_above [of ?w "segment 0 n ptr" ?p "?w + n" ?sz] fits kn w n by simp
      moreover have "take (?w + n) ?q = take ?w ?p @ take n ptr" using w n by simp
      moreover have "drop (?w + n - ?r) all = segment (?w + n) ?sz ?p @ take ?w ?p @ take n ptr"
        using fits kn w rw lr unfolding all drop_append lr by (simp add: drop_segment)
      ultimately show ?thesis using diff unfolding lall contents_def by simp
    qed
    ultimately show ?thesis by (intro exI [of _ ?rb]) simp
  next
    case wraps: False
    let ?m = "?k - (?sz - ?w)"
    have mw: "?m \<le> ?w" and sk: "?s + ?k \<le> length ptr" "?s + ?k = n" using w n by auto
    obtain q where q: "memcpy ?p ?w ptr ?s (?sz - ?w) = Some q"
      "memcpy q 0 ptr (?s + (?sz - ?w)) ?m = Some (segment (?s + (?sz - ?w)) n ptr @
         segment ?m ?w ?p @ segment ?s (?s + (?sz - ?w)) ptr @ drop ?sz ?p)"
      using wrap_copy [of ?w ?sz ?p ?k ?s ptr] w wraps mw sk by (metis leI)
    let ?a = "segment (?s + (?sz - ?w)) n ptr" and ?c = "segment ?s (?s + (?sz - ?w)) ptr"
    let ?q = "?a @ segment ?m ?w ?p @ ?c @ drop ?sz ?p"
    let ?rb = "rb\<lparr>buffer_ptr := ?q, write_mirror := \<not> write_mirror rb, write_index := ?m,
        read_mirror := \<not> read_mirror rb, read_index := ?m\<rparr>"
    have ic: "\<not> int ?k < int ?sz - int ?w" and md: "?m mod 2 ^ 15 = ?m" using wraps mw w by auto
    have put: "rt_ringbuffer_put_force rb ptr n = Some (?k, ?rb)"
      unfolding rt_ringbuffer_put_force_def Let_def kk sp using q ic md big
      by (simp only: if_True if_False bind.bind_lunit of_nat_less_iff) simp
    have lac: "length ?a = ?m" "length ?c = ?sz - ?w"
      using segment_split_lengths [OF sk(2) n, of "?sz - ?w"] wraps by (simp_all only: not_less)
    have "length (segment ?m ?w ?p) = ?w - ?m" using w by simp
    then have lq: "length ?q = length ?p"
      using lac w mw unfolding length_append length_drop by linarith
    have wf': "rb_wf (rb\<lparr>buffer_ptr := q', write_mirror := \<not> write_mirror rb, write_index := m,
        read_mirror := \<not> read_mirror rb, read_index := m\<rparr>)"
      if "length q' = length ?p" "m \<le> ?w" for q' m using that wf diff w by (simp add: rb_wf_def)
    have "rb_wf ?rb" by (rule wf' [OF lq mw])
    moreover have "contents ?rb = drop (length all - ?sz) all"
    proof -
      have "segment ?m ?sz ?q = segment ?m ?w ?p @ ?c"
        using segment_wrapped [OF lac(1) order_refl mw _ _ lac(2)] w by simp
      moreover have "take ?m ?q = ?a" using lac(1) by simp
      moreover have "drop (?w + n - ?r) all = segment ?m ?w ?p @ segment ?s n ptr"
        using wraps w rw lr lw sk unfolding all drop_append lr
        by (cases "n \<le> ?sz") (simp_all add: segment_def drop_take min_def add.commute)
      moreover have "?c @ ?a = segment ?s n ptr"
        using segment_append [of ?s "?s + (?sz - ?w)" n ptr] wraps sk by simp
      moreover have "contents (rb\<lparr>buffer_ptr := q', write_mirror := \<not> write_mirror rb,
          write_index := m, read_mirror := \<not> read_mirror rb, read_index := m\<rparr>) =
          segment m ?sz q' @ take m q'" for q' m
        using diff by (simp add: contents_def)
      ultimately show ?thesis unfolding lall by (metis append_assoc)
    qed
    ultimately show ?thesis using put by (intro exI [of _ ?rb]) simp
  qed
qed

text \<open>
  With equal mirrors, non-empty contents and more data than the free space, the second branch
  flips the read mirror although the write mirror has just been flipped to differ from it: the
  buffer is left empty instead of full, and the bytes just written are lost.
\<close>

lemma put_force_loses:
  assumes wf: "rb_wf rb" and n: "n \<le> length ptr" and same: "read_mirror rb = write_mirror rb"
    and over: "contents rb \<noteq> []" "buffer_size rb < length (contents rb) + n"
  shows "\<exists>rb'. rt_ringbuffer_put_force rb ptr n = Some (min n (buffer_size rb), rb') \<and> contents rb' = []"
proof -
  let ?sz = "buffer_size rb" and ?w = "write_index rb" and ?r = "read_index rb" and ?p = "buffer_ptr rb"
  let ?k = "min n ?sz" and ?s = "n - ?sz"
  have w: "?w < ?sz" "?r < ?sz" "?sz < 2 ^ 15" "?sz \<le> length ?p" "?r \<le> ?w"
    using wf same by (auto simp: rb_wf_def)
  have lc: "length (contents rb) = ?w - ?r" using same w by (simp add: contents_def)
  have sp: "rt_ringbuffer_space_len rb mod 2 ^ 16 = ?sz - length (contents rb)"
    using space_len [OF wf] buffer_size_mod [OF wf] by simp
  have kk: "(if ?sz < n then n - ?sz else 0) = ?s" "(if ?sz < n then ?sz else n) = ?k" by auto
  have rw: "?r < ?w" using over(1) lc by (cases "contents rb") auto
  have wraps: "\<not> ?k < ?sz - ?w" and big: "?sz - length (contents rb) < ?k"
    using over(2) lc w rw by linarith+
  let ?m = "?k - (?sz - ?w)"
  have mw: "?m \<le> ?w" and sk: "?s + ?k \<le> length ptr" using w n by auto
  obtain q q' where q: "memcpy ?p ?w ptr ?s (?sz - ?w) = Some q"
      "memcpy q 0 ptr (?s + (?sz - ?w)) ?m = Some q'"
    using wrap_copy [of ?w ?sz ?p ?k ?s ptr] w wraps mw sk by (metis leI)
  have ic: "\<not> int ?k < int ?sz - int ?w" and md: "?m mod 2 ^ 15 = ?m" using wraps mw w by auto
  let ?rb = "rb\<lparr>buffer_ptr := q', write_mirror := \<not> write_mirror rb, write_index := ?m,
        read_mirror := \<not> read_mirror rb, read_index := ?m\<rparr>"
  have "rt_ringbuffer_put_force rb ptr n = Some (?k, ?rb)"
    using q ic md kk sp big by (simp add: rt_ringbuffer_put_force_def Let_def)
  moreover have "contents ?rb = []" using same by (simp add: contents_def)
  ultimately show ?thesis by blast
qed

lemma rt_ringbuffer_putchar_force_correct:
  assumes wf: "rb_wf rb"
  shows "\<exists>rb'. rt_ringbuffer_putchar_force rb ch = Some (1, rb') \<and> rb_wf rb' \<and>
    buffer_size rb' = buffer_size rb \<and>
    contents rb' = (if length (contents rb) < buffer_size rb then contents rb else tl (contents rb)) @ [ch]"
proof (cases "length (contents rb) < buffer_size rb")
  case True
  then have "rt_ringbuffer_status rb \<noteq> RT_RINGBUFFER_FULL" "rt_ringbuffer_space_len rb \<noteq> 0"
    using space_len [OF wf] length_contents [OF wf]
    by (auto simp: rt_ringbuffer_data_len_def)
  then have "rt_ringbuffer_putchar_force rb ch = rt_ringbuffer_putchar rb ch"
    unfolding rt_ringbuffer_putchar_force_def rt_ringbuffer_putchar_def Let_def
    by (cases "int (write_index rb) = int (buffer_size rb) - 1") simp_all
  with rt_ringbuffer_putchar_correct [OF wf, of ch] True show ?thesis by simp
next
  case False
  let ?w = "write_index rb" and ?p = "buffer_ptr rb" and ?sz = "buffer_size rb" and ?r = "read_index rb"
  have w: "?w < ?sz" "?r < ?sz" "?sz < 2 ^ 15" "?sz \<le> length ?p" using wf by (auto simp: rb_wf_def)
  have full: "read_mirror rb \<noteq> write_mirror rb" "?r = ?w"
    using False wf by (auto simp: contents_def rb_wf_def split: if_splits)
  have hd: "segment ?w ?sz ?p = ?p ! ?w # segment (Suc ?w) ?sz ?p"
    using w by (simp add: segment_def Cons_nth_drop_Suc [symmetric] Suc_diff_Suc take_Cons')
  have rest: "segment (Suc ?w) ?sz (?p[?w := ch]) = segment (Suc ?w) ?sz ?p"
    by (simp add: segment_def)
  have end0: "take (Suc ?w) (?p[?w := ch]) = take ?w ?p @ [ch]"
    using w by (simp add: take_Suc_conv_app_nth)
  have st: "rt_ringbuffer_status rb = RT_RINGBUFFER_FULL" using full by (simp add: rt_ringbuffer_status_def)
  show ?thesis
  proof (cases "Suc ?w = ?sz")
    case True
    then have "segment (Suc ?w) ?sz ?p = []" by (simp add: segment_def)
    with True show ?thesis using wf w full hd end0 st \<open>\<not> length (contents rb) < ?sz\<close>
      by (auto simp: rt_ringbuffer_putchar_force_def array_set_def rb_wf_def contents_def)
  next
    case False
    then show ?thesis using wf w full hd rest end0 st \<open>\<not> length (contents rb) < ?sz\<close>
      by (auto simp: rt_ringbuffer_putchar_force_def array_set_def rb_wf_def contents_def)
  qed
qed

lemma rt_ringbuffer_reset_correct:
  "rb_wf rb \<Longrightarrow> rb_wf (rt_ringbuffer_reset rb) \<and> contents (rt_ringbuffer_reset rb) = []"
  by (simp add: rb_wf_def contents_def rt_ringbuffer_reset_def)

lemma rt_ringbuffer_init_correct:
  assumes "4 \<le> sz" "sz < 2 ^ 15" "nat sz \<le> length pool"
  shows "\<exists>rb'. rt_ringbuffer_init rb pool sz = Some rb' \<and> rb_wf rb' \<and> contents rb' = [] \<and>
    buffer_size rb' = nat sz - nat sz mod 4"
proof -
  have "nat sz - nat sz mod 4 \<le> nat sz" "0 < nat sz - nat sz mod 4" "nat sz < 2 ^ 15"
    using assms by (auto simp: mod_less_eq_dividend)
  with assms show ?thesis
    by (auto simp: rt_ringbuffer_init_def rb_wf_def contents_def rt_align_down_def RT_ALIGN_SIZE_def)
qed

subsection \<open>The contract: a bounded byte queue\<close>

text \<open>
  A client trace is a list of puts and gets. \<open>fifo_run\<close> runs it and collects the bytes that
  were accepted and the bytes that were delivered.
\<close>

datatype 'a fifo_op = Put "'a list" nat | Get "'a list" nat

fun fifo_run ::
  "('s \<Rightarrow> 'a list \<Rightarrow> nat \<Rightarrow> (nat \<times> 's) option) \<Rightarrow> ('s \<Rightarrow> 'a list \<Rightarrow> nat \<Rightarrow> (nat \<times> 'a list \<times> 's) option) \<Rightarrow>
   's \<Rightarrow> 'a fifo_op list \<Rightarrow> ('a list \<times> 'a list \<times> 's) option" where
  "fifo_run put get s [] = Some ([], [], s)"
| "fifo_run put get s (Put xs n # ops) = do {
     (k, s) \<leftarrow> put s xs n;
     (acc, del, s) \<leftarrow> fifo_run put get s ops;
     Some (take k xs @ acc, del, s) }"
| "fifo_run put get s (Get xs n # ops) = do {
     (k, ys, s) \<leftarrow> get s xs n;
     (acc, del, s) \<leftarrow> fifo_run put get s ops;
     Some (acc, take k ys @ del, s) }"

fun fifo_op_ok :: "'a fifo_op \<Rightarrow> bool" where
  "fifo_op_ok (Put xs n) \<longleftrightarrow> n \<le> length xs"
| "fifo_op_ok (Get xs n) \<longleftrightarrow> n \<le> length xs \<and> n < 2 ^ 16"

locale byte_fifo =
  fixes inv :: "'s \<Rightarrow> bool" and cap :: "'s \<Rightarrow> nat" and held :: "'s \<Rightarrow> 'a list"
    and put :: "'s \<Rightarrow> 'a list \<Rightarrow> nat \<Rightarrow> (nat \<times> 's) option"
    and get :: "'s \<Rightarrow> 'a list \<Rightarrow> nat \<Rightarrow> (nat \<times> 'a list \<times> 's) option"
  assumes held_le: "inv s \<Longrightarrow> length (held s) \<le> cap s"
    and put_law: "\<lbrakk>inv s; n \<le> length xs\<rbrakk> \<Longrightarrow>
      \<exists>s'. put s xs n = Some (min n (cap s - length (held s)), s') \<and> inv s' \<and> cap s' = cap s \<and>
        held s' = held s @ take (min n (cap s - length (held s))) xs"
    and get_law: "\<lbrakk>inv s; n \<le> length xs; n < 2 ^ 16\<rbrakk> \<Longrightarrow>
      \<exists>s'. get s xs n = Some (min n (length (held s)),
          take (min n (length (held s))) (held s) @ drop (min n (length (held s))) xs, s') \<and>
        inv s' \<and> cap s' = cap s \<and> held s' = drop (min n (length (held s))) (held s)"
begin

lemma run_fifo:
  assumes "inv s" "list_all fifo_op_ok ops"
  shows "\<exists>acc del s'. fifo_run put get s ops = Some (acc, del, s') \<and> inv s' \<and> cap s' = cap s \<and>
    held s @ acc = del @ held s'"
  using assms
proof (induction ops arbitrary: s)
  case Nil
  then show ?case by simp
next
  case (Cons op ops)
  show ?case
  proof (cases op)
    case (Put xs n)
    let ?k = "min n (cap s - length (held s))"
    from Put Cons.prems obtain s1 where p: "put s xs n = Some (?k, s1)" "inv s1" "cap s1 = cap s"
      "held s1 = held s @ take ?k xs" using put_law [of s n xs] by auto
    from Cons.IH [OF p(2)] Cons.prems obtain acc del s' where
      "fifo_run put get s1 ops = Some (acc, del, s')" "inv s'" "cap s' = cap s1" "held s1 @ acc = del @ held s'"
      by auto
    with p Put show ?thesis by simp
  next
    case (Get xs n)
    let ?k = "min n (length (held s))"
    from Get Cons.prems obtain s1 where p: "get s xs n = Some (?k, take ?k (held s) @ drop ?k xs, s1)"
      "inv s1" "cap s1 = cap s" "held s1 = drop ?k (held s)" using get_law [of s n xs] by auto
    from Cons.IH [OF p(2)] Cons.prems obtain acc del s' where r:
      "fifo_run put get s1 ops = Some (acc, del, s')" "inv s'" "cap s' = cap s1" "held s1 @ acc = del @ held s'"
      by auto
    have "held s @ acc = take ?k (held s) @ del @ held s'"
      using r(4) p(4) by (metis append_assoc append_take_drop_id)
    with r p Get show ?thesis by simp
  qed
qed

lemma run_conserves:
  assumes "inv s" "list_all fifo_op_ok ops" "fifo_run put get s ops = Some (acc, del, s')"
  shows "length del + length (held s') = length (held s) + length acc" "length (held s') \<le> cap s"
proof -
  from run_fifo [OF assms(1,2)] assms(3)
  have r: "inv s'" "cap s' = cap s" "held s @ acc = del @ held s'" by auto
  from arg_cong [where f = length, OF r(3)]
  show "length del + length (held s') = length (held s) + length acc" by simp
  show "length (held s') \<le> cap s" using held_le [OF r(1)] r(2) by simp
qed

end

interpretation rbq: byte_fifo rb_wf buffer_size contents rt_ringbuffer_put rt_ringbuffer_get
  by unfold_locales (auto intro: length_contents_le rt_ringbuffer_put_correct rt_ringbuffer_get_correct)

end
