(* ===== verification/Demo.thy ===== *)
theory Demo
  imports IpcState RingBuffer
begin

text \<open>
  A small running system: the idle thread 1 and the thread 3 are ready, 2 runs, 4 waits for the
  semaphore 1 with a timeout. It satisfies the invariant, so the hypotheses of the properties about
  the kernel can all hold.
\<close>

definition demo_thread :: "tid \<Rightarrow> rt_thread" where
  "demo_thread t =
     (let p = (if t = 1 then 31 else if t = 4 then 5 else 10);
          s = (if t = 1 \<or> t = 3 then RT_THREAD_READY else if t = 2 then RT_THREAD_RUNNING
               else if t = 4 then RT_THREAD_SUSPEND else RT_THREAD_INIT) in
      \<lparr>error = 0, stat = s, current_priority = p, init_priority = p, number_mask = priority_mask p,
       event_set = 0, event_info = 0, init_tick = 5, remaining_tick = 5, has_cleanup = False\<rparr>)"

definition demo_object :: "obj_ref \<Rightarrow> rt_object" where
  "demo_object r = (case r of
      Obj_thread t \<Rightarrow> \<lparr>oname = ''t'', otype = (if t \<in> {1, 2, 3, 4} then RT_Object_Class_Thread OR RT_Object_Class_Static else 0), oflag = 0\<rparr>
    | Obj_timer (Thread_timer t) \<Rightarrow> \<lparr>oname = ''t'',
        otype = (if t \<in> {1, 2, 3, 4} then RT_Object_Class_Timer OR RT_Object_Class_Static else 0),
        oflag = (if t = 4 then RT_TIMER_FLAG_ACTIVATED else 0)\<rparr>
    | Obj_timer (Timer n) \<Rightarrow> \<lparr>oname = ''u'', otype = 0, oflag = 0\<rparr>
    | Obj_ipc n \<Rightarrow> \<lparr>oname = ''i'', otype = (if n \<in> {1, 2, 3, 4, 5} then of_nat (n + 1) OR RT_Object_Class_Static else 0), oflag = 0\<rparr>)"

definition demo_objects :: "u8 \<Rightarrow> obj_ref list" where
  "demo_objects ty =
     (if ty = RT_Object_Class_Thread then map Obj_thread [1, 2, 3, 4]
      else if ty = RT_Object_Class_Timer then map (\<lambda>t. Obj_timer (Thread_timer t)) [1, 2, 3, 4]
      else if ty \<in> {2, 3, 4, 5, 6} then [Obj_ipc (unat ty - 1)]
      else [])"

definition demo_lists :: "list_id \<Rightarrow> tid list" where
  "demo_lists l = (if l = ReadyQ 31 then [1] else if l = ReadyQ 10 then [3] else if l = SuspendQ 1 then [4] else [])"

definition demo :: ipc where
  "demo = \<lparr>objs = demo_object, objects = demo_objects, thr = demo_thread, tlists = demo_lists,
     rt_thread_ready_priority_group = priority_mask 31 OR priority_mask 10,
     rt_scheduler_lock_nest = 0, rt_current_thread = Some 2, rt_current_priority = 10,
     rt_interrupt_nest = 0, rt_tick = 90,
     timers = (\<lambda>i. case i of
        Thread_timer t \<Rightarrow> \<lparr>timeout_func = Rt_thread_timeout t, timer_init_tick = 50, timeout_tick = 100\<rparr>
      | Timer n \<Rightarrow> \<lparr>timeout_func = User_timeout n, timer_init_tick = 50, timeout_tick = 0\<rparr>),
     rt_timer_list = [Thread_timer 4], hw_trace = [],
     sems = (\<lambda>_. \<lparr>sem_value = 0\<rparr>),
     mutexes = (\<lambda>_. \<lparr>mutex_value = 1, original_priority = 255, hold = 0, owner = None\<rparr>),
     event_objs = (\<lambda>_. \<lparr>events = 0\<rparr>),
     mailboxes = (\<lambda>_. \<lparr>mb_pool = [0, 0], mb_size = 2, mb_entry = 0, in_offset = 0, out_offset = 0\<rparr>),
     mqs = (\<lambda>_. \<lparr>mq_next = (\<lambda>i. if i = 1 then Some 0 else None), mq_data = (\<lambda>_. [0, 0, 0, 0]), msg_size = 4,
       max_msgs = 2, mq_entry = 0, msg_queue_head = None, msg_queue_tail = None, msg_queue_free = Some 1\<rparr>)\<rparr>"

lemma demo_sel [simp]:
  "objs demo = demo_object" "objects demo = demo_objects" "thr demo = demo_thread" "tlists demo = demo_lists"
  "rt_current_thread demo = Some 2" "rt_tick demo = 90" "rt_timer_list demo = [Thread_timer 4]"
  "rt_interrupt_nest demo = 0" "rt_scheduler_lock_nest demo = 0"
  "rt_thread_ready_priority_group demo = priority_mask 31 OR priority_mask 10"
  by (simp_all add: demo_def)

lemma demo_state: "state_of demo t = (if t = 1 \<or> t = 3 then RT_THREAD_READY else if t = 2 then RT_THREAD_RUNNING
    else if t = 4 then RT_THREAD_SUSPEND else RT_THREAD_INIT)"
  by (simp add: demo_thread_def th_stat_def Let_def)

lemma demo_prio: "prio_of demo t = (if t = 1 then 31 else if t = 4 then 5 else 10)"
  by (simp add: demo_thread_def Let_def)

lemma demo_mask: "number_mask (thr demo t) = priority_mask (prio_of demo t)"
  by (simp add: demo_thread_def Let_def)

lemma demo_timer_func [simp]: "timeout_func (timers demo (Thread_timer t)) = Rt_thread_timeout t"
  by (simp add: demo_def)

lemma demo_expiry [simp]: "expiry demo (Thread_timer t) = 100"
  by (simp add: demo_def)

lemma demo_live: "live (state_of demo t) \<longleftrightarrow> t \<in> {1, 2, 3, 4}"
  unfolding demo_state by simp

lemma demo_object_ok: "t \<in> {1, 2, 3, 4} \<Longrightarrow> thread_object_ok t demo"
  by (auto simp: thread_object_ok_def demo_object_def demo_objects_def object_defs
      RT_Object_Class_Thread_def RT_Object_Class_Timer_def RT_Object_Class_Static_def)

lemma kinv_demo: "kinv demo"
proof (rule kinvI)
  show "lists_ok (tlists demo)" by (simp add: lists_ok_def demo_lists_def)
  show "t \<in> set (tlists demo (ReadyQ p)) \<longleftrightarrow> state_of demo t = RT_THREAD_READY \<and> prio_of demo t = p" for t p
    unfolding demo_state demo_prio by (auto simp: demo_lists_def)
  show "case l of ReadyQ p \<Rightarrow> True | Defunct \<Rightarrow> state_of demo t = RT_THREAD_CLOSE
    | _ \<Rightarrow> state_of demo t = RT_THREAD_SUSPEND" if "t \<in> set (tlists demo l)" for t l
    using that unfolding demo_state by (auto simp: demo_lists_def split: if_splits)
  show "bit (rt_thread_ready_priority_group demo) p \<longleftrightarrow> tlists demo (ReadyQ p) \<noteq> []" for p
    by (auto simp: demo_lists_def bit_or_iff)
  show "prio_of demo t < RT_THREAD_PRIORITY_MAX \<and> number_mask (thr demo t) = priority_mask (prio_of demo t)" for t
    unfolding demo_mask demo_prio by (simp add: RT_THREAD_PRIORITY_MAX_def)
  show "rt_current_thread demo = Some t" if "state_of demo t = RT_THREAD_RUNNING" for t
    using that unfolding demo_state by (auto split: if_splits)
  show "state_of demo t \<noteq> RT_THREAD_READY" if "rt_current_thread demo = Some t" for t
    using that unfolding demo_state by auto
  show "timer_ok demo"
    unfolding timer_ok_def demo_state by (auto simp: timer_active_def demo_object_def RT_TIMER_FLAG_ACTIVATED_def)
  show "Obj_thread t \<in> set (objects demo RT_Object_Class_Thread)" if "t \<in> set (tlists demo l)" for t l
    using that by (auto simp: demo_lists_def demo_objects_def split: if_splits)
  show "Obj_timer i \<in> set (objects demo RT_Object_Class_Timer)" if "i \<in> set (rt_timer_list demo)" for i
    using that by (auto simp: demo_objects_def RT_Object_Class_Timer_def RT_Object_Class_Thread_def)
  show "thread_object_ok t demo" if "live (state_of demo t)" for t
    using that demo_object_ok unfolding demo_live by blast
qed

lemma ipc_inv_demo: "ipc_inv demo"
  by (simp add: ipc_inv_def kinv_demo)

lemma demo_types:
  "rt_object_get_type (Obj_ipc 1) demo = RT_Object_Class_Semaphore"
  "rt_object_get_type (Obj_ipc 2) demo = RT_Object_Class_Mutex"
  "rt_object_get_type (Obj_ipc 3) demo = RT_Object_Class_Event"
  "rt_object_get_type (Obj_ipc 4) demo = RT_Object_Class_MailBox"
  "rt_object_get_type (Obj_ipc 5) demo = RT_Object_Class_MessageQueue"
  by (simp_all add: demo_object_def object_defs RT_Object_Class_Static_def RT_Object_Class_Semaphore_def
      RT_Object_Class_Mutex_def RT_Object_Class_Event_def RT_Object_Class_MailBox_def RT_Object_Class_MessageQueue_def)

lemma demo_flag: "ipc_flag n demo = RT_IPC_FLAG_FIFO"
  by (simp add: ipc_flag_def demo_object_def RT_IPC_FLAG_FIFO_def)

subsection \<open>Variations\<close>

lemma demo_static: "rt_object_is_systemobject (Obj_thread 4) demo"
  by (simp add: demo_object_def object_defs RT_Object_Class_Static_def RT_Object_Class_Thread_def)

lemma demo_check_inv: "check_inv 50 demo"
  by (simp add: check_inv_def timers_sorted_def offset_def timer_periodic_def demo_object_def
      RT_TIMER_FLAG_ACTIVATED_def RT_TIMER_FLAG_PERIODIC_def)

text \<open>The moment before the timer of thread 4 expires.\<close>

definition demo_late :: ipc where
  "demo_late = demo\<lparr>rt_tick := 99\<rparr>"

lemma demo_late_check_inv: "check_inv 50 (demo_late\<lparr>rt_tick := rt_tick demo_late + 1\<rparr>)"
  by (simp add: demo_late_def check_inv_def timers_sorted_def offset_def timer_periodic_def demo_object_def
      RT_TIMER_FLAG_ACTIVATED_def RT_TIMER_FLAG_PERIODIC_def)

lemma demo_late_ok: "tick_ok demo_late"
proof -
  have "kinv demo_late = kinv demo" by (rule kinv_cong) (simp_all add: demo_late_def)
  moreover have "one_shot demo_late"
    by (simp add: one_shot_def timer_periodic_def demo_late_def demo_object_def RT_TIMER_FLAG_ACTIVATED_def
        RT_TIMER_FLAG_PERIODIC_def)
  ultimately show ?thesis using kinv_demo by (simp add: tick_ok_def user_timers_ok_def) (simp add: demo_late_def)
qed

lemma demo_callbacks_ok: "callbacks_ok (\<lambda>_ k. Some k)"
  by (simp add: callbacks_ok_def quiet_def woken_stay_def)

text \<open>Thread 2 has used its time slice up.\<close>

definition demo_yield :: ipc where
  "demo_yield = upd_thr 2 (\<lambda>c. c\<lparr>stat := stat c OR RT_THREAD_STAT_YIELD\<rparr>) demo"

lemma kinv_demo_yield: "kinv demo_yield"
  unfolding demo_yield_def by (rule upd_thr_kinv' [OF kinv_demo]) simp_all

lemma demo_yield_facts:
  "rt_current_thread demo_yield = Some 2" "state_of demo_yield 2 = RT_THREAD_RUNNING"
  "stat (thr demo_yield 2) AND RT_THREAD_STAT_YIELD \<noteq> 0" "rt_scheduler_lock_nest demo_yield = 0"
  "prio_of demo_yield 2 = 10" "tlists demo_yield (ReadyQ 10) = [3]" "\<forall>p < 10. tlists demo_yield (ReadyQ p) = []"
proof -
  have "state_of demo 2 = RT_THREAD_RUNNING" unfolding demo_state by simp
  then show "state_of demo_yield 2 = RT_THREAD_RUNNING" by (simp add: demo_yield_def)
  have "prio_of demo 2 = 10" unfolding demo_prio by simp
  then show "prio_of demo_yield 2 = 10" by (simp add: demo_yield_def)
qed (simp_all add: demo_yield_def demo_thread_def demo_lists_def RT_THREAD_STAT_YIELD_def RT_THREAD_RUNNING_def)

text \<open>A store with an empty list at 10 and two free nodes, and two ring buffers of four bytes.\<close>

definition demo_store :: store where
  "demo_store a = \<lparr>nx = a, pv = a\<rparr>"

definition demo_rb :: rt_ringbuffer where
  "demo_rb = \<lparr>buffer_ptr = [1, 2, 3, 4], read_mirror = False, read_index = 0, write_mirror = False, write_index = 2,
     buffer_size = 4\<rparr>"

definition demo_rb_full :: rt_ringbuffer where
  "demo_rb_full = \<lparr>buffer_ptr = [1, 2, 3, 4], read_mirror = False, read_index = 1, write_mirror = True, write_index = 1,
     buffer_size = 4\<rparr>"

lemma demo_rb_wf: "rb_wf demo_rb" and demo_rb_facts:
  "contents demo_rb = [1, 2]" "read_mirror demo_rb = write_mirror demo_rb" "buffer_size demo_rb = 4"
  by (simp_all add: rb_wf_def demo_rb_def contents_def segment_def)

lemma demo_rb_full_facts:
  "rb_wf demo_rb_full" "contents demo_rb_full = [2, 3, 4, 1]" "read_mirror demo_rb_full \<noteq> write_mirror demo_rb_full"
  "buffer_size demo_rb_full = 4"
  by (simp_all add: rb_wf_def demo_rb_full_def contents_def segment_def)

end
