(* ===== verification/Semaphore.thy ===== *)
theory Semaphore
  imports IpcState
begin

text \<open>
  Semaphores (\<^verbatim>\<open>src/ipc.c\<close>, \<open>rt_sem_*\<close>): the operations, their effect on every branch, the
  refinement of a counter with a queue, and what several releases do together.
\<close>

subsection \<open>Operations\<close>

definition rt_sem_init ::
  "nat \<Rightarrow> string \<Rightarrow> u32 \<Rightarrow> u8 \<Rightarrow> 'a ipc_scheme \<Rightarrow> (int \<times> 'a ipc_scheme) option" where
  "rt_sem_init n name value flag k = do {
     rt_assert (value < 0x10000);
     k \<leftarrow> rt_object_init (Obj_ipc n) RT_Object_Class_Semaphore name k;
     let k = snd (rt_ipc_object_init (SuspendQ n) k);
     let k = upd_sem n (\<lambda>s. s\<lparr>sem_value := ucast value\<rparr>) k;
     Some (RT_EOK, set_ipc_flag n flag k) }"

definition rt_sem_detach :: "nat \<Rightarrow> 'a ipc_scheme \<Rightarrow> (int \<times> 'a ipc_scheme) option" where
  "rt_sem_detach n k = do {
     rt_assert (rt_object_get_type (Obj_ipc n) k = RT_Object_Class_Semaphore);
     rt_assert (rt_object_is_systemobject (Obj_ipc n) k);
     (_, k) \<leftarrow> rt_ipc_list_resume_all (SuspendQ n) k;
     Some (RT_EOK, rt_object_detach (Obj_ipc n) k) }"

text \<open>The memory for the object is an argument: \<open>None\<close> when the allocation fails.\<close>

definition rt_sem_create ::
  "string \<Rightarrow> u32 \<Rightarrow> u8 \<Rightarrow> nat option \<Rightarrow> 'a ipc_scheme \<Rightarrow> (nat option \<times> 'a ipc_scheme) option" where
  "rt_sem_create name value flag malloc k = do {
     RT_DEBUG_NOT_IN_INTERRUPT k;
     rt_assert (value < 0x10000);
     (_, k) \<leftarrow> rt_object_allocate RT_Object_Class_Semaphore name (map_option Obj_ipc malloc) k;
     case malloc of None \<Rightarrow> Some (None, k)
     | Some n \<Rightarrow>
         let k = snd (rt_ipc_object_init (SuspendQ n) k);
             k = upd_sem n (\<lambda>s. s\<lparr>sem_value := ucast value\<rparr>) k
         in Some (Some n, set_ipc_flag n flag k) }"

definition rt_sem_delete :: "nat \<Rightarrow> 'a ipc_scheme \<Rightarrow> (int \<times> 'a ipc_scheme) option" where
  "rt_sem_delete n k = do {
     RT_DEBUG_NOT_IN_INTERRUPT k;
     rt_assert (rt_object_get_type (Obj_ipc n) k = RT_Object_Class_Semaphore);
     rt_assert (\<not> rt_object_is_systemobject (Obj_ipc n) k);
     (_, k) \<leftarrow> rt_ipc_list_resume_all (SuspendQ n) k;
     k \<leftarrow> rt_object_delete (Obj_ipc n) k;
     Some (RT_EOK, k) }"

definition rt_sem_take ::
  "nat \<Rightarrow> int \<Rightarrow> 'a ipc_scheme \<Rightarrow> ((int, tid) outcome \<times> 'a ipc_scheme) option" where
  "rt_sem_take n time k = do {
     rt_assert (rt_object_get_type (Obj_ipc n) k = RT_Object_Class_Semaphore);
     if 0 < sem_value (sems k n) then
       Some (Returns RT_EOK, upd_sem n (\<lambda>s. s\<lparr>sem_value := sem_value s - 1\<rparr>) k)
     else if time = 0 then Some (Returns (- RT_ETIMEOUT), k)
     else do {
       RT_DEBUG_IN_THREAD_CONTEXT k;
       t \<leftarrow> rt_thread_self k;
       let k = upd_thr t (set_error RT_EOK) k;
       k \<leftarrow> ipc_wait (SuspendQ n) t (ipc_flag n k) time k;
       Some (Blocks t, k) } }"

definition rt_sem_take_resumed :: "tid \<Rightarrow> 'a ipc_scheme \<Rightarrow> int" where
  "rt_sem_take_resumed t k = (if error (thr k t) \<noteq> RT_EOK then error (thr k t) else RT_EOK)"

definition rt_sem_trytake :: "nat \<Rightarrow> 'a ipc_scheme \<Rightarrow> ((int, tid) outcome \<times> 'a ipc_scheme) option" where
  "rt_sem_trytake n k = rt_sem_take n 0 k"

definition rt_sem_release :: "nat \<Rightarrow> 'a ipc_scheme \<Rightarrow> (int \<times> 'a ipc_scheme) option" where
  "rt_sem_release n k = do {
     rt_assert (rt_object_get_type (Obj_ipc n) k = RT_Object_Class_Semaphore);
     if tlists k (SuspendQ n) \<noteq> [] then do {
       k \<leftarrow> ipc_wake (SuspendQ n) k;
       Some (RT_EOK, k) }
     else Some (RT_EOK, upd_sem n (\<lambda>s. s\<lparr>sem_value := sem_value s + 1\<rparr>) k) }"

definition rt_sem_control :: "nat \<Rightarrow> int \<Rightarrow> u32 \<Rightarrow> 'a ipc_scheme \<Rightarrow> (int \<times> 'a ipc_scheme) option" where
  "rt_sem_control n cmd arg k = do {
     rt_assert (rt_object_get_type (Obj_ipc n) k = RT_Object_Class_Semaphore);
     if cmd = RT_IPC_CMD_RESET then do {
       (_, k) \<leftarrow> rt_ipc_list_resume_all (SuspendQ n) k;
       let k = upd_sem n (\<lambda>s. s\<lparr>sem_value := ucast arg\<rparr>) k;
       k \<leftarrow> rt_schedule k;
       Some (RT_EOK, k) }
     else Some (- RT_ERROR, k) }"

subsection \<open>The abstract semaphore\<close>

text \<open>A counter and the queue of those who wait; \<open>place\<close> says where a newcomer queues.\<close>

datatype sem_answer = Got | Not_now | Queued

definition asem_take ::
  "(tid list \<Rightarrow> tid list) \<Rightarrow> bool \<Rightarrow> nat \<times> tid list \<Rightarrow> sem_answer \<times> nat \<times> tid list" where
  "asem_take place willing s = (case s of (v, ws) \<Rightarrow>
     if 0 < v then (Got, v - 1, ws) else if willing then (Queued, v, place ws) else (Not_now, v, ws))"

definition asem_release :: "nat \<times> tid list \<Rightarrow> nat \<times> tid list" where
  "asem_release s = (case s of (v, []) \<Rightarrow> (v + 1, []) | (v, _ # ws) \<Rightarrow> (v, ws))"

definition sem_abs :: "nat \<Rightarrow> 'a ipc_scheme \<Rightarrow> nat \<times> tid list" where
  "sem_abs n k = (unat (sem_value (sems k n)), tlists k (SuspendQ n))"

definition answer_of :: "(int, tid) outcome \<Rightarrow> sem_answer" where
  "answer_of r = (case r of Returns e \<Rightarrow> if e = RT_EOK then Got else Not_now | Blocks _ \<Rightarrow> Queued)"

text \<open>Nobody waits for a semaphore that could be had.\<close>

definition sem_ok :: "nat \<Rightarrow> 'a ipc_scheme \<Rightarrow> bool" where
  "sem_ok n k \<longleftrightarrow> ipc_inv k \<and> rt_object_get_type (Obj_ipc n) k = RT_Object_Class_Semaphore \<and>
     (ipc_flag n k = RT_IPC_FLAG_FIFO \<or> ipc_flag n k = RT_IPC_FLAG_PRIO) \<and>
     (sem_value (sems k n) \<noteq> 0 \<longrightarrow> tlists k (SuspendQ n) = [])"

subsection \<open>Taking\<close>

lemma sem_ok_upd:
  assumes "sem_ok n k" "sem_value (f (sems k n)) \<noteq> 0 \<Longrightarrow> tlists k (SuspendQ n) = []"
  shows "sem_ok n (upd_sem n f k)"
  using assms by (simp add: sem_ok_def)

lemma sem_ok_frame:
  assumes "sem_ok n k" "kinv k'" "rt_current_thread k' \<noteq> None" "ipc_frame k k'"
    and "sem_value (sems k n) \<noteq> 0 \<Longrightarrow> tlists k' (SuspendQ n) = []"
  shows "sem_ok n k'"
  using assms ipc_frame_obj [OF assms(4)] frame_objects [OF assms(4)] by (simp add: sem_ok_def ipc_inv_def)

lemma rt_sem_take_refines:
  assumes ok: "sem_ok n k"
    and ctx: "\<lbrakk>sem_value (sems k n) = 0; time \<noteq> 0\<rbrakk> \<Longrightarrow>
      rt_current_thread k = Some t \<and> state_of k t = RT_THREAD_RUNNING \<and> rt_interrupt_nest k = 0"
    and time: "time < 2 ^ 31 - 1"
  shows "\<exists>r k'. rt_sem_take n time k = Some (r, k') \<and> sem_ok n k' \<and>
    (answer_of r, sem_abs n k') = asem_take (queued (ipc_flag n k) (prio_of k) t) (time \<noteq> 0) (sem_abs n k)"
proof (cases "sem_value (sems k n) = 0")
  case False
  then have v: "unat (sem_value (sems k n) - 1) = unat (sem_value (sems k n)) - 1" "0 < sem_value (sems k n)"
    "0 < unat (sem_value (sems k n))"
    by (simp_all add: unat_minus_one word_neq_0_conv unat_gt_0)
  have "sem_ok n (upd_sem n (\<lambda>s. s\<lparr>sem_value := sem_value s - 1\<rparr>) k)"
    using ok False by (intro sem_ok_upd) (simp_all add: sem_ok_def)
  then show ?thesis using ok v by (simp add: rt_sem_take_def sem_ok_def sem_abs_def asem_take_def answer_of_def)
next
  case True
  show ?thesis
  proof (cases "time = 0")
    case t0: True
    then show ?thesis using ok True by (simp add: rt_sem_take_def sem_ok_def sem_abs_def asem_take_def answer_of_def)
  next
    case nz: False
    let ?k = "upd_thr t (set_error RT_EOK) k"
    have c: "rt_current_thread k = Some t" "state_of k t = RT_THREAD_RUNNING" "rt_interrupt_nest k = 0"
      using ctx [OF True nz] by simp_all
    have ki: "kinv k" "ipc_flag n k = RT_IPC_FLAG_FIFO \<or> ipc_flag n k = RT_IPC_FLAG_PRIO"
      and ty: "rt_object_get_type (Obj_ipc n) k = RT_Object_Class_Semaphore"
      using ok by (simp_all add: sem_ok_def ipc_inv_def)
    have "kinv ?k" "rt_current_thread ?k = Some t" "state_of ?k t = RT_THREAD_RUNNING" using ki(1) c by simp_all
    from ipc_wait_kinv [OF this waiting_list_simps(1) ki(2) time] obtain k' where
      w: "ipc_wait (SuspendQ n) t (ipc_flag n k) time ?k = Some k'" "kinv k'" "rt_current_thread k' \<noteq> None"
      "tlists k' (SuspendQ n) = queued (ipc_flag n k) (prio_of ?k) t (tlists ?k (SuspendQ n))" "waits (SuspendQ n) t ?k k'"
      by blast
    have f: "ipc_frame k k'" by (rule ipc_frame_trans [OF set_error_ipc waits_frame [OF w(5)]])
    have q: "tlists k' (SuspendQ n) = queued (ipc_flag n k) (prio_of k) t (tlists k (SuspendQ n))"
      unfolding w(4) prio_set_error by simp
    have "rt_sem_take n time k = Some (Blocks t, k')"
      using True nz c ty w(1) by (simp add: rt_sem_take_def RT_DEBUG_IN_THREAD_CONTEXT_def RT_DEBUG_NOT_IN_INTERRUPT_def
          rt_interrupt_get_nest_def rt_thread_self_def)
    moreover have "sem_ok n k'" using True by (intro sem_ok_frame [OF ok w(2,3) f]) simp
    ultimately show ?thesis using True nz q frame_objects(1) [OF f]
      by (simp add: sem_abs_def asem_take_def answer_of_def)
  qed
qed

subsection \<open>Releasing\<close>

lemma rt_sem_release_refines:
  assumes ok: "sem_ok n k" and room: "tlists k (SuspendQ n) = [] \<Longrightarrow> sem_value (sems k n) \<noteq> 0xffff"
  shows "\<exists>k'. rt_sem_release n k = Some (RT_EOK, k') \<and> sem_ok n k' \<and> sem_abs n k' = asem_release (sem_abs n k) \<and>
    (\<forall>u. runnable (state_of k' u) \<longleftrightarrow> runnable (state_of k u) \<or> u \<in> set (take 1 (tlists k (SuspendQ n))))"
proof (cases "tlists k (SuspendQ n)")
  case Nil
  have "unat (sem_value (sems k n) + 1) = Suc (unat (sem_value (sems k n)))" by (rule unat_Suc16 [OF room [OF Nil]])
  moreover have "sem_ok n (upd_sem n (\<lambda>s. s\<lparr>sem_value := sem_value s + 1\<rparr>) k)"
    using ok Nil by (intro sem_ok_upd) simp_all
  ultimately show ?thesis using ok Nil
    by (simp add: rt_sem_release_def sem_ok_def sem_abs_def asem_release_def)
next
  case (Cons t ts)
  have k: "kinv k" "rt_current_thread k \<noteq> None" using ok by (simp_all add: sem_ok_def ipc_inv_def)
  obtain k' where w: "ipc_wake (SuspendQ n) k = Some k'" "kinv k'" "rt_current_thread k' \<noteq> None"
    "tlists k' (SuspendQ n) = ts" "wakes (SuspendQ n) {t} k k'"
    using ipc_wake_kinv [OF k waiting_list_simps(1) Cons] by blast
  have v: "sem_value (sems k n) = 0" using ok Cons by (auto simp: sem_ok_def)
  have "sem_ok n k'" using v by (intro sem_ok_frame [OF ok w(2,3) wakes_frame [OF w(5)]]) simp
  moreover have "sem_abs n k' = asem_release (sem_abs n k)"
    using frame_objects(1) [OF wakes_frame [OF w(5)]] v w(4) Cons by (simp add: sem_abs_def asem_release_def)
  moreover have "rt_sem_release n k = Some (RT_EOK, k')"
    using ok Cons w(1) by (simp add: rt_sem_release_def sem_ok_def)
  ultimately show ?thesis using wakes_runnable [OF w(5)] Cons by auto
qed

text \<open>The counter is 16 bits wide and nothing stops it from wrapping.\<close>

lemma rt_sem_release_wraps:
  assumes "sem_ok n k" "tlists k (SuspendQ n) = []" "sem_value (sems k n) = 0xffff"
  shows "\<exists>k'. rt_sem_release n k = Some (RT_EOK, k') \<and> sem_abs n k' = (0, [])"
  using assms by (simp add: rt_sem_release_def sem_ok_def sem_abs_def)

subsection \<open>Several releases\<close>

definition sem_give :: "nat \<Rightarrow> 'a ipc_scheme \<Rightarrow> 'a ipc_scheme option" where
  "sem_give n k = map_option snd (rt_sem_release n k)"

interpretation semq: counting_semaphore
  "\<lambda>k. ipc_inv k \<and> rt_object_get_type (Obj_ipc n) k = RT_Object_Class_Semaphore" "\<lambda>k. tlists k (SuspendQ n)"
  "\<lambda>k u. runnable (state_of k u)" "ipc_wake (SuspendQ n)" "wake_everyone (SuspendQ n)"
  "\<lambda>k. unat (sem_value (sems k n))" 65535 "sem_give n" for n
proof (intro counting_semaphore.intro room.waiting_room_axioms counting_semaphore_axioms.intro)
  fix k :: "'a ipc_scheme"
  assume k: "ipc_inv k \<and> rt_object_get_type (Obj_ipc n) k = RT_Object_Class_Semaphore"
  show "sem_give n k = ipc_wake (SuspendQ n) k" if "tlists k (SuspendQ n) \<noteq> []"
    using k that by (cases "ipc_wake (SuspendQ n) k") (simp_all add: sem_give_def rt_sem_release_def)
  show "unat (sem_value (sems k' n)) = unat (sem_value (sems k n))" if w: "ipc_wake (SuspendQ n) k = Some k'" for k'
  proof (cases "tlists k (SuspendQ n)")
    case Nil
    then show ?thesis using w by (simp add: ipc_wake_def rt_ipc_list_resume_def first_entry_def)
  next
    case (Cons t ts)
    obtain k2 where "ipc_wake (SuspendQ n) k = Some k2" "wakes (SuspendQ n) {t} k k2"
      using ipc_wake_kinv [of k "SuspendQ n" t ts] k Cons by (auto simp: ipc_inv_def)
    then show ?thesis using w frame_objects(1) [OF wakes_frame, of "SuspendQ n" "{t}" k k'] by simp
  qed
  show "\<exists>k'. sem_give n k = Some k' \<and> (ipc_inv k' \<and> rt_object_get_type (Obj_ipc n) k' = RT_Object_Class_Semaphore) \<and>
    tlists k' (SuspendQ n) = [] \<and> unat (sem_value (sems k' n)) = Suc (unat (sem_value (sems k n))) \<and>
    (\<forall>u. runnable (state_of k' u) \<longleftrightarrow> runnable (state_of k u))"
    if q: "tlists k (SuspendQ n) = []" and c: "unat (sem_value (sems k n)) < 65535"
  proof -
    have "sem_value (sems k n) \<noteq> 0xffff" using c by auto
    then have "unat (sem_value (sems k n) + 1) = Suc (unat (sem_value (sems k n)))" by (rule unat_Suc16)
    then show ?thesis using k q by (simp add: sem_give_def rt_sem_release_def)
  qed
qed

subsection \<open>Reset, creation and destruction\<close>

lemma rt_sem_control_reset:
  assumes ok: "sem_ok n k"
  shows "\<exists>k'. rt_sem_control n RT_IPC_CMD_RESET arg k = Some (RT_EOK, k') \<and> sem_ok n k' \<and>
    sem_abs n k' = (unat (ucast arg :: u16), []) \<and>
    (\<forall>t \<in> set (tlists k (SuspendQ n)). runnable (state_of k' t) \<and> error (thr k' t) = - RT_ERROR)"
proof -
  have k: "kinv k" "rt_current_thread k \<noteq> None" using ok by (simp_all add: sem_ok_def ipc_inv_def)
  obtain k1 where r: "rt_ipc_list_resume_all (SuspendQ n) k = Some (RT_EOK, k1)" "kinv k1"
    "rt_current_thread k1 = rt_current_thread k" "tlists k1 (SuspendQ n) = []"
    "wakes (SuspendQ n) (set (tlists k (SuspendQ n))) k k1"
    "\<forall>u. error (thr k1 u) = (if u \<in> set (tlists k (SuspendQ n)) then - RT_ERROR else error (thr k u))"
    using rt_ipc_list_resume_all_kinv [OF k(1) waiting_list_simps(1) refl, of n] by blast
  let ?k = "upd_sem n (\<lambda>s. s\<lparr>sem_value := ucast arg\<rparr>) k1"
  have "kinv ?k" "rt_current_thread ?k \<noteq> None" using r(2,3) k(2) by simp_all
  from schedule_wakes [OF this, of "SuspendQ n"] obtain k2 where s: "rt_schedule ?k = Some k2" "kinv k2"
    "rt_current_thread k2 \<noteq> None" "wakes (SuspendQ n) {} ?k k2" "\<forall>l'. waiting_list l' \<longrightarrow> tlists k2 l' = tlists ?k l'"
    "\<forall>u. error (thr k2 u) = error (thr ?k u)" by blast
  have "sem_ok n k1" using r(4) k(2) r(3) by (intro sem_ok_frame [OF ok r(2) _ wakes_frame [OF r(5)]]) simp_all
  then have u: "sem_ok n ?k" by (rule sem_ok_upd) (simp add: r(4))
  have q2: "tlists k2 (SuspendQ n) = []" using s(5) r(4) by simp
  then have "sem_ok n k2" by (intro sem_ok_frame [OF u s(2,3) wakes_frame [OF s(4)]])
  moreover have "sem_abs n k2 = (unat (ucast arg :: u16), [])"
    using q2 frame_objects(1) [OF wakes_frame [OF s(4)]] by (simp add: sem_abs_def)
  moreover have "runnable (state_of k2 t) \<and> error (thr k2 t) = - RT_ERROR" if "t \<in> set (tlists k (SuspendQ n))" for t
    using that wakes_runnable [OF r(5), of t] wakes_runnable [OF s(4), of t] r(6) s(6) by simp
  moreover have "rt_sem_control n RT_IPC_CMD_RESET arg k = Some (RT_EOK, k2)"
    using ok r(1) s(1) by (simp add: rt_sem_control_def sem_ok_def)
  ultimately show ?thesis by blast
qed

lemma value16: "(value :: u32) < 0x10000 \<Longrightarrow> unat (ucast value :: u16) = unat value"
  by (simp add: word_less_nat_alt unsigned_ucast_eq take_bit_nat_eq_self)

lemma rt_sem_init_kinv:
  assumes k: "kinv k" and l: "lock_ok k" and v: "value < 0x10000"
    and n: "Obj_ipc n \<notin> set (objects k RT_Object_Class_Semaphore)"
  shows "\<exists>k'. rt_sem_init n name value flag k = Some (RT_EOK, k') \<and> kinv k' \<and>
    rt_object_get_type (Obj_ipc n) k' = RT_Object_Class_Semaphore \<and> ipc_flag n k' = flag \<and>
    sem_abs n k' = (unat value, [])"
proof -
  obtain k1 where i: "rt_object_init (Obj_ipc n) RT_Object_Class_Semaphore name k =
    Some (registered RT_Object_Class_Semaphore (Obj_ipc n) name k1)" "kinv k1"
    using rt_object_init_ipc [OF k l _ n] by auto
  then show ?thesis using v by (simp add: rt_sem_init_def sem_abs_def value16)
qed

lemma rt_sem_create_kinv:
  assumes k: "kinv k" and i: "rt_interrupt_nest k = 0" and v: "value < 0x10000"
  shows "\<exists>k'. rt_sem_create name value flag (Some n) k = Some (Some n, k') \<and> kinv k' \<and>
    ipc_flag n k' = flag \<and> sem_abs n k' = (unat value, [])"
proof -
  obtain k1 where a: "rt_object_allocate RT_Object_Class_Semaphore name (Some (Obj_ipc n)) k = Some (Some (Obj_ipc n), k1)"
    "kinv k1" using rt_object_allocate_ipc [OF k i, of RT_Object_Class_Semaphore name n] by auto
  then show ?thesis using v i
    by (simp add: rt_sem_create_def sem_abs_def value16 RT_DEBUG_NOT_IN_INTERRUPT_def rt_interrupt_get_nest_def)
qed

lemma rt_sem_detach_kinv:
  assumes k: "kinv k" and ty: "rt_object_get_type (Obj_ipc n) k = RT_Object_Class_Semaphore"
    and s: "rt_object_is_systemobject (Obj_ipc n) k"
  shows "\<exists>k'. rt_sem_detach n k = Some (RT_EOK, k') \<and> kinv k' \<and> dissolved n (set (tlists k (SuspendQ n))) k k'"
  using resume_all_detach [OF k, of n] ty s by (auto simp: rt_sem_detach_def)

lemma rt_sem_delete_kinv:
  assumes k: "kinv k" and ty: "rt_object_get_type (Obj_ipc n) k = RT_Object_Class_Semaphore"
    and s: "\<not> rt_object_is_systemobject (Obj_ipc n) k" and i: "rt_interrupt_nest k = 0"
  shows "\<exists>k'. rt_sem_delete n k = Some (RT_EOK, k') \<and> kinv k' \<and> dissolved n (set (tlists k (SuspendQ n))) k k'"
proof -
  obtain k1 where r: "rt_ipc_list_resume_all (SuspendQ n) k = Some (RT_EOK, k1)" "ipc_frame k k1"
    "kinv (rt_object_detach (Obj_ipc n) k1)" "dissolved n (set (tlists k (SuspendQ n))) k (rt_object_detach (Obj_ipc n) k1)"
    using resume_all_detach [OF k, of n] by blast
  have "\<not> rt_object_is_systemobject (Obj_ipc n) k1" using s ipc_frame_obj(3) [OF r(2)] by simp
  from rt_object_delete_ipc [OF this] show ?thesis using r ty s i
    by (simp add: rt_sem_delete_def RT_DEBUG_NOT_IN_INTERRUPT_def rt_interrupt_get_nest_def)
qed

end
