(* ===== verification/Mutex.thy ===== *)
theory Mutex
  imports IpcState
begin

text \<open>
  Mutexes (\<^verbatim>\<open>src/ipc.c\<close>, \<open>rt_mutex_*\<close>): recursive locking, hand-over to the first waiter, and the
  inheritance of the waiter's priority by the owner.
\<close>

subsection \<open>Operations\<close>

definition mutex_reset :: "rt_mutex \<Rightarrow> rt_mutex" where
  "mutex_reset m = m\<lparr>mutex_value := 1, owner := None, original_priority := 0xFF, hold := 0\<rparr>"

definition rt_mutex_init :: "nat \<Rightarrow> string \<Rightarrow> u8 \<Rightarrow> 'a ipc_scheme \<Rightarrow> (int \<times> 'a ipc_scheme) option" where
  "rt_mutex_init n name flag k = do {
     k \<leftarrow> rt_object_init (Obj_ipc n) RT_Object_Class_Mutex name k;
     let k = snd (rt_ipc_object_init (SuspendQ n) k);
     let k = upd_mutex n mutex_reset k;
     Some (RT_EOK, set_ipc_flag n flag k) }"

definition rt_mutex_detach :: "nat \<Rightarrow> 'a ipc_scheme \<Rightarrow> (int \<times> 'a ipc_scheme) option" where
  "rt_mutex_detach n k = do {
     rt_assert (rt_object_get_type (Obj_ipc n) k = RT_Object_Class_Mutex);
     rt_assert (rt_object_is_systemobject (Obj_ipc n) k);
     (_, k) \<leftarrow> rt_ipc_list_resume_all (SuspendQ n) k;
     Some (RT_EOK, rt_object_detach (Obj_ipc n) k) }"

definition rt_mutex_create ::
  "string \<Rightarrow> u8 \<Rightarrow> nat option \<Rightarrow> 'a ipc_scheme \<Rightarrow> (nat option \<times> 'a ipc_scheme) option" where
  "rt_mutex_create name flag malloc k = do {
     RT_DEBUG_NOT_IN_INTERRUPT k;
     (_, k) \<leftarrow> rt_object_allocate RT_Object_Class_Mutex name (map_option Obj_ipc malloc) k;
     case malloc of None \<Rightarrow> Some (None, k)
     | Some n \<Rightarrow>
         let k = upd_mutex n mutex_reset (snd (rt_ipc_object_init (SuspendQ n) k))
         in Some (Some n, set_ipc_flag n flag k) }"

definition rt_mutex_delete :: "nat \<Rightarrow> 'a ipc_scheme \<Rightarrow> (int \<times> 'a ipc_scheme) option" where
  "rt_mutex_delete n k = do {
     RT_DEBUG_NOT_IN_INTERRUPT k;
     rt_assert (rt_object_get_type (Obj_ipc n) k = RT_Object_Class_Mutex);
     rt_assert (\<not> rt_object_is_systemobject (Obj_ipc n) k);
     (_, k) \<leftarrow> rt_ipc_list_resume_all (SuspendQ n) k;
     k \<leftarrow> rt_object_delete (Obj_ipc n) k;
     Some (RT_EOK, k) }"

definition change_priority :: "tid \<Rightarrow> nat \<Rightarrow> 'a kernel_scheme \<Rightarrow> 'a kernel_scheme option" where
  "change_priority t p k = do {
     (_, k) \<leftarrow> rt_thread_control t (THREAD_CTRL_CHANGE_PRIORITY p) k;
     Some k }"

text \<open>From the label \<open>__again\<close> on.\<close>

definition mutex_again ::
  "nat \<Rightarrow> tid \<Rightarrow> int \<Rightarrow> 'a ipc_scheme \<Rightarrow> ((int, tid) outcome \<times> 'a ipc_scheme) option" where
  "mutex_again n t time k =
     (if 0 < mutex_value (mutexes k n) then
        Some (Returns RT_EOK, upd_mutex n (\<lambda>m. m\<lparr>mutex_value := mutex_value m - 1, owner := Some t,
          original_priority := prio_of k t, hold := hold m + 1\<rparr>) k)
      else if time = 0 then Some (Returns (- RT_ETIMEOUT), upd_thr t (set_error (- RT_ETIMEOUT)) k)
      else do {
        ow \<leftarrow> owner (mutexes k n);
        k \<leftarrow> (if prio_of k t < prio_of k ow then change_priority ow (prio_of k t) k else Some k);
        k \<leftarrow> ipc_wait (SuspendQ n) t (ipc_flag n k) time k;
        Some (Blocks t, k) })"

definition rt_mutex_take ::
  "nat \<Rightarrow> int \<Rightarrow> 'a ipc_scheme \<Rightarrow> ((int, tid) outcome \<times> 'a ipc_scheme) option" where
  "rt_mutex_take n time k = do {
     RT_DEBUG_IN_THREAD_CONTEXT k;
     rt_assert (rt_object_get_type (Obj_ipc n) k = RT_Object_Class_Mutex);
     t \<leftarrow> rt_thread_self k;
     let k = upd_thr t (set_error RT_EOK) k;
     if owner (mutexes k n) = Some t then
       Some (Returns RT_EOK, upd_mutex n (\<lambda>m. m\<lparr>hold := hold m + 1\<rparr>) k)
     else mutex_again n t time k }"

text \<open>A thread interrupted by a signal tries again; an owner has been handed the mutex.\<close>

definition rt_mutex_take_resumed ::
  "nat \<Rightarrow> tid \<Rightarrow> int \<Rightarrow> 'a ipc_scheme \<Rightarrow> ((int, tid) outcome \<times> 'a ipc_scheme) option" where
  "rt_mutex_take_resumed n t time k =
     (if error (thr k t) \<noteq> RT_EOK then
        if error (thr k t) = - RT_EINTR then mutex_again n t time k
        else Some (Returns (error (thr k t)), k)
      else Some (Returns RT_EOK, k))"

definition rt_mutex_release :: "nat \<Rightarrow> 'a ipc_scheme \<Rightarrow> (int \<times> 'a ipc_scheme) option" where
  "rt_mutex_release n k = do {
     rt_assert (rt_object_get_type (Obj_ipc n) k = RT_Object_Class_Mutex);
     RT_DEBUG_IN_THREAD_CONTEXT k;
     t \<leftarrow> rt_thread_self k;
     if owner (mutexes k n) \<noteq> Some t then Some (- RT_ERROR, upd_thr t (set_error (- RT_ERROR)) k)
     else do {
       let k = upd_mutex n (\<lambda>m. m\<lparr>hold := hold m - 1\<rparr>) k;
       if hold (mutexes k n) = 0 then do {
         k \<leftarrow> (if original_priority (mutexes k n) \<noteq> prio_of k t
           then change_priority t (original_priority (mutexes k n)) k else Some k);
         if tlists k (SuspendQ n) \<noteq> [] then do {
           w \<leftarrow> first_entry (SuspendQ n) k;
           let k = upd_mutex n (\<lambda>m. m\<lparr>owner := Some w, original_priority := prio_of k w, hold := hold m + 1\<rparr>) k;
           k \<leftarrow> ipc_wake (SuspendQ n) k;
           Some (RT_EOK, k) }
         else Some (RT_EOK, upd_mutex n (\<lambda>m. m\<lparr>mutex_value := mutex_value m + 1, owner := None,
           original_priority := 0xFF\<rparr>) k) }
       else Some (RT_EOK, k) } }"

definition rt_mutex_control :: "nat \<Rightarrow> int \<Rightarrow> 'a ipc_scheme \<Rightarrow> (int \<times> 'a ipc_scheme) option" where
  "rt_mutex_control n cmd k = do {
     rt_assert (rt_object_get_type (Obj_ipc n) k = RT_Object_Class_Mutex);
     Some (- RT_ERROR, k) }"

subsection \<open>Changing the priority of a thread\<close>

lemma change_priority_kinv:
  assumes k: "kinv k" and lv: "live (state_of k t)" and p: "p < RT_THREAD_PRIORITY_MAX"
  shows "\<exists>k'. change_priority t p k = Some k' \<and> kinv k' \<and> prio_of k' t = p \<and> (\<forall>u. state_of k' u = state_of k u) \<and>
    (\<forall>u. u \<noteq> t \<longrightarrow> thr k' u = thr k u) \<and> (\<forall>u. error (thr k' u) = error (thr k u)) \<and>
    (\<forall>l. waiting_list l \<longrightarrow> tlists k' l = tlists k l) \<and> kernel.more k' = kernel.more k \<and>
    rt_current_thread k' = rt_current_thread k \<and> objs k' = objs k \<and> rt_interrupt_nest k' = rt_interrupt_nest k"
proof -
  have ty: "rt_object_get_type (Obj_thread t) k = RT_Object_Class_Thread" by (rule kinv_live(3) [OF k lv])
  obtain k' where c: "rt_thread_control t (THREAD_CTRL_CHANGE_PRIORITY p) k = Some (RT_EOK, k')" "kinv k'"
    "prio_of k' t = p" "state_of k' t = state_of k t"
    "state_of k t = RT_THREAD_READY \<longrightarrow> tlists k' = l_append (ReadyQ p) t (l_unlink t (tlists k))"
    "state_of k t \<noteq> RT_THREAD_READY \<longrightarrow> k' = upd_thr t (set_priority p) k"
    using rt_thread_control_priority_kinv [OF k ty p] by blast
  have fr: "(\<forall>u. u \<noteq> t \<longrightarrow> thr k' u = thr k u) \<and> error (thr k' t) = error (thr k t) \<and> kernel.more k' = kernel.more k \<and>
    rt_current_thread k' = rt_current_thread k \<and> objs k' = objs k \<and> rt_interrupt_nest k' = rt_interrupt_nest k"
    using c(1) by (auto simp: rt_thread_control_def rt_schedule_remove_thread_def rt_schedule_insert_thread_def Let_def
        set_priority_def unlink_def split: if_splits bind_splits)
  have ls: "tlists k' l = tlists k l" if w: "waiting_list l" for l
  proof (cases "state_of k t = RT_THREAD_READY")
    case True
    then have "t \<notin> set (tlists k l)" using w kinv_linked [OF k, of t l] by (auto simp: waiting_list_def)
    then show ?thesis using True c(5) w by (auto simp: l_append_def unlink_notin)
  qed (use c(6) in simp)
  have "state_of k' u = state_of k u" "error (thr k' u) = error (thr k u)" for u
    using fr c(4) by (cases "u = t"; simp)+
  then show ?thesis using c(1,2,3) fr ls by (simp add: change_priority_def)
qed

subsection \<open>The abstract mutex\<close>

text \<open>The owner with its depth, if there is one, and the queue of those who wait.\<close>

datatype mutex_answer = Locked | Would_block | Parked

fun amutex_take ::
  "(tid list \<Rightarrow> tid list) \<Rightarrow> tid \<Rightarrow> bool \<Rightarrow> (tid \<times> nat) option \<times> tid list \<Rightarrow>
   mutex_answer \<times> (tid \<times> nat) option \<times> tid list" where
  "amutex_take place t willing (None, ws) = (Locked, Some (t, 1), ws)"
| "amutex_take place t willing (Some (ow, d), ws) =
     (if ow = t then (Locked, Some (ow, Suc d), ws)
      else if willing then (Parked, Some (ow, d), place ws) else (Would_block, Some (ow, d), ws))"

fun amutex_release :: "tid \<Rightarrow> (tid \<times> nat) option \<times> tid list \<Rightarrow> bool \<times> (tid \<times> nat) option \<times> tid list" where
  "amutex_release t (None, ws) = (False, None, ws)"
| "amutex_release t (Some (ow, d), ws) =
     (if ow \<noteq> t then (False, Some (ow, d), ws)
      else if 1 < d then (True, Some (ow, d - 1), ws)
      else case ws of [] \<Rightarrow> (True, None, []) | w # ws' \<Rightarrow> (True, Some (w, 1), ws'))"

definition mutex_abs :: "nat \<Rightarrow> 'a ipc_scheme \<Rightarrow> (tid \<times> nat) option \<times> tid list" where
  "mutex_abs n k = (map_option (\<lambda>ow. (ow, unat (hold (mutexes k n)))) (owner (mutexes k n)), tlists k (SuspendQ n))"

definition mutex_answer_of :: "(int, tid) outcome \<Rightarrow> mutex_answer" where
  "mutex_answer_of r = (case r of Returns e \<Rightarrow> if e = RT_EOK then Locked else Would_block | Blocks _ \<Rightarrow> Parked)"

definition mutex_fields_ok :: "rt_mutex \<Rightarrow> tid list \<Rightarrow> bool" where
  "mutex_fields_ok m ws \<longleftrightarrow>
     (case owner m of
        None \<Rightarrow> mutex_value m = 1 \<and> hold m = 0 \<and> original_priority m = 0xFF \<and> ws = []
      | Some ow \<Rightarrow> mutex_value m = 0 \<and> hold m \<noteq> 0 \<and> original_priority m < RT_THREAD_PRIORITY_MAX \<and> ow \<notin> set ws)"

text \<open>A free mutex has no waiters; an owned one is held, by a live thread that does not wait for it.\<close>

definition mutex_ok :: "nat \<Rightarrow> 'a ipc_scheme \<Rightarrow> bool" where
  "mutex_ok n k \<longleftrightarrow> ipc_inv k \<and> rt_object_get_type (Obj_ipc n) k = RT_Object_Class_Mutex \<and>
     (ipc_flag n k = RT_IPC_FLAG_FIFO \<or> ipc_flag n k = RT_IPC_FLAG_PRIO) \<and>
     mutex_fields_ok (mutexes k n) (tlists k (SuspendQ n)) \<and>
     (\<forall>ow. owner (mutexes k n) = Some ow \<longrightarrow> live (state_of k ow))"

subsection \<open>Taking\<close>

lemma mutex_ok_upd:
  assumes "mutex_ok n k" "mutex_fields_ok (f (mutexes k n)) (tlists k (SuspendQ n))"
    and "\<And>ow. owner (f (mutexes k n)) = Some ow \<Longrightarrow> live (state_of k ow)"
  shows "mutex_ok n (upd_mutex n f k)"
  using assms by (simp add: mutex_ok_def)

lemma mutex_ok_set_error [simp]: "mutex_ok n (upd_thr t (set_error e) k) = mutex_ok n k"
proof -
  have "kinv (upd_thr t (set_error e) k) = kinv k"
  proof
    assume a: "kinv (upd_thr t (set_error e) k)"
    have "upd_thr t (set_error (error (thr k t))) (upd_thr t (set_error e) k) = k"
      by (simp add: upd_thr_def set_error_def)
    then show "kinv k" using set_error_kinv [OF a, of t "error (thr k t)"] by simp
  qed simp
  moreover have "state_of (upd_thr t (set_error e) k) u = state_of k u" for u by simp
  ultimately show ?thesis unfolding mutex_ok_def ipc_inv_def by simp
qed

lemma mutex_abs_set_error [simp]: "mutex_abs n (upd_thr t (set_error e) k) = mutex_abs n k"
  by (simp add: mutex_abs_def)

lemma mutex_again_free:
  assumes ok: "mutex_ok n k" and c: "caller t k" and fr: "owner (mutexes k n) = None"
  shows "\<exists>k'. mutex_again n t time k = Some (Returns RT_EOK, k') \<and> mutex_ok n k' \<and> thr k' = thr k \<and>
    mutex_abs n k' = (Some (t, 1), tlists k (SuspendQ n)) \<and> original_priority (mutexes k' n) = prio_of k t"
proof -
  have k: "kinv k" using ok by (simp add: mutex_ok_def ipc_inv_def)
  have st: "live (state_of k t)" using c by (simp add: caller_def)
  have m: "mutex_value (mutexes k n) = 1" "hold (mutexes k n) = 0" "tlists k (SuspendQ n) = []"
    using ok fr by (simp_all add: mutex_ok_def mutex_fields_ok_def)
  have "mutex_ok n (upd_mutex n (\<lambda>m. m\<lparr>mutex_value := mutex_value m - 1, owner := Some t,
          original_priority := prio_of k t, hold := hold m + 1\<rparr>) k)"
    using m st kinv_live(1) [OF k st] by (intro mutex_ok_upd [OF ok]) (simp_all add: mutex_fields_ok_def)
  then show ?thesis using m by (simp add: mutex_again_def mutex_abs_def)
qed

lemma mutex_again_contended:
  assumes ok: "mutex_ok n k" and c: "caller t k" and ow: "owner (mutexes k n) = Some ow" "ow \<noteq> t"
    and time: "time \<noteq> 0" "time < 2 ^ 31 - 1"
  shows "\<exists>k'. mutex_again n t time k = Some (Blocks t, k') \<and> mutex_ok n k' \<and>
    mutexes k' n = mutexes k n \<and> tlists k' (SuspendQ n) = queued (ipc_flag n k) ((prio_of k)(ow := min (prio_of k ow) (prio_of k t))) t (tlists k (SuspendQ n)) \<and>
    prio_of k' ow = min (prio_of k ow) (prio_of k t) \<and> (\<forall>u. u \<noteq> ow \<longrightarrow> prio_of k' u = prio_of k u) \<and>
    state_of k' t = RT_THREAD_SUSPEND \<and> error (thr k' t) = error (thr k t)"
proof -
  have ki: "kinv k" "rt_current_thread k = Some t" "state_of k t = RT_THREAD_RUNNING"
    and fl: "ipc_flag n k = RT_IPC_FLAG_FIFO \<or> ipc_flag n k = RT_IPC_FLAG_PRIO"
    using ok c by (simp_all add: mutex_ok_def ipc_inv_def caller_def)
  have lv: "live (state_of k ow)" using ok ow by (simp add: mutex_ok_def)
  have v: "mutex_value (mutexes k n) = 0" "ow \<notin> set (tlists k (SuspendQ n))"
    using ok ow by (simp_all add: mutex_ok_def mutex_fields_ok_def)
  have pt: "prio_of k t < RT_THREAD_PRIORITY_MAX" using kinv_live(1) [OF ki(1), of t] ki(3) by simp
  obtain k1 where c1: "(if prio_of k t < prio_of k ow then change_priority ow (prio_of k t) k else Some k) = Some k1"
    "kinv k1" "prio_of k1 ow = min (prio_of k ow) (prio_of k t)" "\<forall>u. state_of k1 u = state_of k u"
    "\<forall>u. u \<noteq> ow \<longrightarrow> thr k1 u = thr k u" "\<forall>u. error (thr k1 u) = error (thr k u)"
    "\<forall>l. waiting_list l \<longrightarrow> tlists k1 l = tlists k l" "kernel.more k1 = kernel.more k"
    "rt_current_thread k1 = rt_current_thread k" "objs k1 = objs k" "rt_interrupt_nest k1 = rt_interrupt_nest k"
  proof (cases "prio_of k t < prio_of k ow")
    case True
    with change_priority_kinv [OF ki(1) lv pt] that show ?thesis by auto
  next
    case False
    with ki(1) that [of k] show ?thesis by simp
  qed
  have fl1: "ipc_flag n k1 = ipc_flag n k" using c1(10) by (simp add: ipc_flag_def)
  have p1: "prio_of k1 = (prio_of k)(ow := min (prio_of k ow) (prio_of k t))"
    using c1(3,5) by (auto simp: fun_eq_iff)
  have "rt_current_thread k1 = Some t" "state_of k1 t = RT_THREAD_RUNNING" using c1(4,9) ki by simp_all
  from ipc_wait_kinv [OF c1(2) this waiting_list_simps(1) fl time(2)] obtain k2 where
    w: "ipc_wait (SuspendQ n) t (ipc_flag n k) time k1 = Some k2" "kinv k2" "rt_current_thread k2 \<noteq> None"
    "state_of k2 t = RT_THREAD_SUSPEND"
    "tlists k2 (SuspendQ n) = queued (ipc_flag n k) (prio_of k1) t (tlists k1 (SuspendQ n))" "waits (SuspendQ n) t k1 k2"
    by blast
  note f = waits_frame [OF w(6)]
  have m: "mutexes k2 n = mutexes k n" using frame_objects(2) [OF f] same_objects(2) [OF c1(8)] by simp
  have lv2: "live (state_of k2 ow)"
  proof -
    have "runnable (state_of k2 ow) \<longleftrightarrow> runnable (state_of k ow)" using w(6) ow(2) c1(4) by (simp add: waits_def)
    moreover have "live (state_of k2 ow)" if "\<not> runnable (state_of k ow)"
    proof -
      have "state_of k ow = RT_THREAD_SUSPEND" using that lv by (auto simp: live_def runnable_def)
      moreover have "\<not> runnable (state_of k2 ow)" using waits_runnable [OF w(6), of ow] that c1(4) by simp
      ultimately show ?thesis using waits_thr [OF w(6), of ow] ow(2) c1(4) by simp
    qed
    ultimately show ?thesis by (auto simp: live_def runnable_def)
  qed
  have "mutex_again n t time k = Some (Blocks t, k2)"
    using v(1) time(1) ow(1) c1(1) w(1) fl1 by (simp add: mutex_again_def)
  moreover have "mutex_ok n k2"
    unfolding mutex_ok_def ipc_inv_def m
    using ok w(2,3) ipc_frame_obj(1,2) [OF f] c1(10) lv2 w(5) c1(7) ow v fl1 object_cong(1) [OF c1(10)]
    by (auto simp: mutex_ok_def mutex_fields_ok_def)
  moreover have "prio_of k2 u = prio_of k1 u" for u by (rule ipc_frame_obj(7) [OF f])
  moreover have "error (thr k2 t) = error (thr k t)" using w(6) c1(6) by (simp add: waits_def)
  ultimately show ?thesis using m w(4,5) p1 c1(3,5,7) by simp
qed

lemma rt_mutex_take_refines:
  assumes ok: "mutex_ok n k" and c: "caller t k" and time: "time < 2 ^ 31 - 1"
    and deep: "owner (mutexes k n) = Some t \<Longrightarrow> hold (mutexes k n) \<noteq> 0xff"
  shows "\<exists>r k'. rt_mutex_take n time k = Some (r, k') \<and> mutex_ok n k' \<and>
    (mutex_answer_of r, mutex_abs n k') =
      amutex_take (queued (ipc_flag n k) (\<lambda>u. if owner (mutexes k n) = Some u then min (prio_of k u) (prio_of k t)
        else prio_of k u) t) t (time \<noteq> 0) (mutex_abs n k)"
proof -
  let ?k = "upd_thr t (set_error RT_EOK) k"
  have ok1: "mutex_ok n ?k" and c1: "caller t ?k" using ok c by simp_all
  have ty: "rt_object_get_type (Obj_ipc n) k = RT_Object_Class_Mutex" using ok by (simp add: mutex_ok_def)
  show ?thesis
  proof (cases "owner (mutexes k n)")
    case None
    obtain k' where "mutex_again n t time ?k = Some (Returns RT_EOK, k')" "mutex_ok n k'"
      "mutex_abs n k' = (Some (t, 1), tlists k (SuspendQ n))"
      using mutex_again_free [OF ok1 c1, of time] None by auto
    then show ?thesis using None ty c
      by (simp add: rt_mutex_take_def mutex_abs_def mutex_answer_of_def)
  next
    case (Some ow)
    show ?thesis
    proof (cases "ow = t")
      case True
      let ?f = "\<lambda>m. m\<lparr>hold := hold m + 1\<rparr>"
      have h: "unat (hold (mutexes k n) + 1) = Suc (unat (hold (mutexes k n)))" "hold (mutexes k n) + 1 \<noteq> 0"
        using unat_Suc8 [of "hold (mutexes k n)"] deep Some True by simp_all
      have "mutex_ok n (upd_mutex n ?f ?k)"
      proof (rule mutex_ok_upd [OF ok1])
        show "mutex_fields_ok (?f (mutexes ?k n)) (tlists ?k (SuspendQ n))"
          using ok Some h(2) by (simp add: mutex_ok_def mutex_fields_ok_def)
        show "live (state_of ?k o')" if "owner (?f (mutexes ?k n)) = Some o'" for o'
          using ok that by (auto simp: mutex_ok_def)
      qed
      then show ?thesis using Some True ty c h(1)
        by (simp add: rt_mutex_take_def mutex_abs_def mutex_answer_of_def)
    next
      case False
      show ?thesis
      proof (cases "time = 0")
        case True
        have "mutex_value (mutexes k n) = 0" using ok Some by (simp add: mutex_ok_def mutex_fields_ok_def)
        then have "rt_mutex_take n time k = Some (Returns (- RT_ETIMEOUT), upd_thr t (set_error (- RT_ETIMEOUT)) ?k)"
          using Some False True ty c by (simp add: rt_mutex_take_def mutex_again_def)
        then show ?thesis using Some False True ok
          by (simp add: mutex_answer_of_def) (simp add: mutex_abs_def)
      next
        case nz: False
        have ow: "owner (mutexes ?k n) = Some ow" using Some by simp
        obtain k' where w: "mutex_again n t time ?k = Some (Blocks t, k')" "mutex_ok n k'" "mutexes k' n = mutexes ?k n"
          "tlists k' (SuspendQ n) = queued (ipc_flag n ?k) ((prio_of ?k)(ow := min (prio_of ?k ow) (prio_of ?k t))) t
             (tlists ?k (SuspendQ n))"
          using mutex_again_contended [OF ok1 c1 ow False nz time] by blast
        have p: "(prio_of ?k)(ow := min (prio_of ?k ow) (prio_of ?k t)) =
          (\<lambda>u. if owner (mutexes k n) = Some u then min (prio_of k u) (prio_of k t) else prio_of k u)"
          unfolding prio_set_error using Some by (auto simp: fun_eq_iff)
        have "tlists k' (SuspendQ n) = queued (ipc_flag n k)
          (\<lambda>u. if owner (mutexes k n) = Some u then min (prio_of k u) (prio_of k t) else prio_of k u) t (tlists k (SuspendQ n))"
          using w(4) unfolding p by simp
        then show ?thesis using Some False nz ty c w(1-3)
          by (simp add: rt_mutex_take_def mutex_abs_def mutex_answer_of_def)
      qed
    qed
  qed
qed

text \<open>The depth is 8 bits wide: the 256th nested take of the owner leaves it at 0.\<close>

lemma rt_mutex_take_wraps:
  assumes ok: "mutex_ok n k" and c: "caller t k" and ow: "owner (mutexes k n) = Some t" "hold (mutexes k n) = 0xff"
  shows "\<exists>k'. rt_mutex_take n time k = Some (Returns RT_EOK, k') \<and> mutex_abs n k' = (Some (t, 0), tlists k (SuspendQ n))"
  using ok c ow by (simp add: rt_mutex_take_def mutex_ok_def mutex_abs_def)

subsection \<open>Releasing\<close>

lemma rt_mutex_release_refines:
  assumes ok: "mutex_ok n k" and c: "caller t k"
  shows "\<exists>e k'. rt_mutex_release n k = Some (e, k') \<and> mutex_ok n k' \<and>
    (e = RT_EOK, mutex_abs n k') = amutex_release t (mutex_abs n k) \<and>
    (owner (mutexes k n) = Some t \<and> hold (mutexes k n) = 1 \<longrightarrow> prio_of k' t = original_priority (mutexes k n)) \<and>
    (\<forall>w. owner (mutexes k n) = Some t \<and> owner (mutexes k' n) = Some w \<and> w \<noteq> t \<longrightarrow> runnable (state_of k' w))"
proof -
  have k: "kinv k" "rt_current_thread k = Some t" "state_of k t = RT_THREAD_RUNNING"
    and ty: "rt_object_get_type (Obj_ipc n) k = RT_Object_Class_Mutex"
    using ok c by (simp_all add: mutex_ok_def ipc_inv_def caller_def)
  show ?thesis
  proof (cases "owner (mutexes k n) = Some t")
    case False
    then have "rt_mutex_release n k = Some (- RT_ERROR, upd_thr t (set_error (- RT_ERROR)) k)"
      using ty c by (simp add: rt_mutex_release_def)
    moreover have "amutex_release t (mutex_abs n k) = (False, mutex_abs n k)"
      using False by (cases "owner (mutexes k n)") (auto simp: mutex_abs_def)
    ultimately show ?thesis using ok False by simp
  next
    case ow: True
    let ?k = "upd_mutex n (\<lambda>m. m\<lparr>hold := hold m - 1\<rparr>) k"
    have h: "hold (mutexes k n) \<noteq> 0" "mutex_value (mutexes k n) = 0"
      "original_priority (mutexes k n) < RT_THREAD_PRIORITY_MAX" "t \<notin> set (tlists k (SuspendQ n))"
      using ok ow by (simp_all add: mutex_ok_def mutex_fields_ok_def)
    have u: "unat (hold (mutexes k n) - 1) = unat (hold (mutexes k n)) - 1" using h(1) by (rule unat_minus_one)
    have un: "0 < unat (hold (mutexes k n))" using h(1) by (simp add: unat_gt_0)
    show ?thesis
    proof (cases "hold (mutexes k n) = 1")
      case False
      have n1: "unat (hold (mutexes k n)) \<noteq> 1" using False by (metis unat_1 word_unat_eq_iff)
      have n0: "hold (mutexes k n) - 1 \<noteq> 0" using False by simp
      have "mutex_ok n ?k"
      proof (rule mutex_ok_upd [OF ok])
        show "mutex_fields_ok ((mutexes k n)\<lparr>hold := hold (mutexes k n) - 1\<rparr>) (tlists k (SuspendQ n))"
          using ow h n0 by (simp add: mutex_fields_ok_def)
        show "live (state_of k w)" if "owner ((mutexes k n)\<lparr>hold := hold (mutexes k n) - 1\<rparr>) = Some w" for w
          using ok that by (simp add: mutex_ok_def)
      qed
      moreover have "rt_mutex_release n k = Some (RT_EOK, ?k)"
        using ty c ow n0 by (simp add: rt_mutex_release_def)
      moreover have "mutex_abs n ?k = (Some (t, unat (hold (mutexes k n)) - 1), tlists k (SuspendQ n))"
        using ow u by (simp add: mutex_abs_def)
      moreover have "1 < unat (hold (mutexes k n))" using un n1 by simp
      ultimately show ?thesis using ow False by (simp add: mutex_abs_def)
    next
      case one: True
      have "kinv ?k" "live (state_of ?k t)" using k by simp_all
      have "\<exists>k1. (if original_priority (mutexes ?k n) \<noteq> prio_of ?k t
           then change_priority t (original_priority (mutexes ?k n)) ?k else Some ?k) = Some k1 \<and> kinv k1 \<and>
        prio_of k1 t = original_priority (mutexes k n) \<and> (\<forall>u. state_of k1 u = state_of k u) \<and>
        (\<forall>u. u \<noteq> t \<longrightarrow> thr k1 u = thr k u) \<and> (\<forall>l. waiting_list l \<longrightarrow> tlists k1 l = tlists k l) \<and>
        kernel.more k1 = kernel.more ?k \<and> rt_current_thread k1 = Some t \<and> objs k1 = objs k"
        using change_priority_kinv [OF \<open>kinv ?k\<close> \<open>live (state_of ?k t)\<close>, of "original_priority (mutexes k n)"] h(3) k
        by (cases "original_priority (mutexes k n) = prio_of k t") auto
      then obtain k1 where k1: "(if original_priority (mutexes ?k n) \<noteq> prio_of ?k t
           then change_priority t (original_priority (mutexes ?k n)) ?k else Some ?k) = Some k1" "kinv k1"
        "prio_of k1 t = original_priority (mutexes k n)" "\<forall>u. state_of k1 u = state_of k u"
        "\<forall>u. u \<noteq> t \<longrightarrow> thr k1 u = thr k u" "\<forall>l. waiting_list l \<longrightarrow> tlists k1 l = tlists k l"
        "kernel.more k1 = kernel.more ?k" "rt_current_thread k1 = Some t" "objs k1 = objs k" by blast
      have m1: "mutexes k1 n = (mutexes k n)\<lparr>hold := 0\<rparr>" using same_objects(2) [OF k1(7)] one by simp
      have q1: "tlists k1 (SuspendQ n) = tlists k (SuspendQ n)" using k1(6) by simp
      have ty1: "rt_object_get_type (Obj_ipc n) k1 = RT_Object_Class_Mutex" "ipc_flag n k1 = ipc_flag n k"
        using ty object_cong(1) [OF k1(9)] k1(9) by (simp_all add: ipc_flag_def)
      have fl: "ipc_flag n k = RT_IPC_FLAG_FIFO \<or> ipc_flag n k = RT_IPC_FLAG_PRIO" using ok by (simp add: mutex_ok_def)
      show ?thesis
      proof (cases "tlists k (SuspendQ n)")
        case Nil
        let ?k' = "upd_mutex n (\<lambda>m. m\<lparr>mutex_value := mutex_value m + 1, owner := None, original_priority := 0xFF\<rparr>) k1"
        have "rt_mutex_release n k = Some (RT_EOK, ?k')"
          using ty c ow one k1(1) q1 Nil by (simp add: rt_mutex_release_def)
        moreover have "mutex_ok n ?k'"
          using k1(2,8) ty1 fl Nil q1 m1 h(2) by (simp add: mutex_ok_def ipc_inv_def mutex_fields_ok_def)
        ultimately show ?thesis using ow one Nil q1 m1 k1(3) by (simp add: mutex_abs_def)
      next
        case (Cons w ws)
        let ?f = "\<lambda>m. m\<lparr>owner := Some w, original_priority := prio_of k1 w, hold := hold m + 1\<rparr>"
        let ?k2 = "upd_mutex n ?f k1"
        have wt: "w \<noteq> t" using h(4) Cons by auto
        have "distinct (w # ws)" using kinv_lists [OF k(1)] Cons by (metis lists_ok_def)
        then have dw: "w \<notin> set ws" by simp
        have sw: "state_of k1 w = RT_THREAD_SUSPEND" using kinv_suspendq [OF k1(2), of w n] q1 Cons by simp
        have "kinv ?k2" "rt_current_thread ?k2 \<noteq> None" "tlists ?k2 (SuspendQ n) = w # ws"
          using k1(2,8) q1 Cons by simp_all
        from ipc_wake_kinv [OF this(1,2) waiting_list_simps(1) this(3)] obtain k3 where
          w3: "ipc_wake (SuspendQ n) ?k2 = Some k3" "kinv k3" "rt_current_thread k3 \<noteq> None" "tlists k3 (SuspendQ n) = ws"
          "wakes (SuspendQ n) {w} ?k2 k3" by blast
        note f = wakes_frame [OF w3(5)]
        have m3: "mutexes k3 n = (mutexes k n)\<lparr>owner := Some w, original_priority := prio_of k w, hold := 1\<rparr>"
          using frame_objects(2) [OF f] m1 k1(5) wt by simp
        have rw: "runnable (state_of k3 w)" using wakes_runnable [OF w3(5), of w] by simp
        have "rt_mutex_release n k = Some (RT_EOK, k3)"
          using ty c ow one k1(1) q1 Cons w3(1) by (simp add: rt_mutex_release_def first_entry_def)
        moreover have "mutex_ok n k3"
          unfolding mutex_ok_def ipc_inv_def m3
          using w3(2-4) ipc_frame_obj(1,2) [OF f] ty1 fl dw rw h(2) kinv_live(1) [OF k1(2), of w] sw k1(5) wt
          by (auto simp: mutex_fields_ok_def live_def runnable_def)
        moreover have "prio_of k3 t = original_priority (mutexes k n)" using ipc_frame_obj(7) [OF f, of t] k1(3) by simp
        ultimately show ?thesis using ow one Cons m3 w3(4) rw by (simp add: mutex_abs_def)
      qed
    qed
  qed
qed

subsection \<open>Creation and destruction\<close>

lemma mutex_reset_ok [simp]: "mutex_fields_ok (mutex_reset m) []" "owner (mutex_reset m) = None"
  by (simp_all add: mutex_reset_def mutex_fields_ok_def)

lemma rt_mutex_init_kinv:
  assumes k: "kinv k" and l: "lock_ok k" and n: "Obj_ipc n \<notin> set (objects k RT_Object_Class_Mutex)"
  shows "\<exists>k'. rt_mutex_init n name flag k = Some (RT_EOK, k') \<and> kinv k' \<and>
    rt_object_get_type (Obj_ipc n) k' = RT_Object_Class_Mutex \<and> ipc_flag n k' = flag \<and>
    mutex_fields_ok (mutexes k' n) (tlists k' (SuspendQ n)) \<and> mutex_abs n k' = (None, [])"
proof -
  obtain k1 where "rt_object_init (Obj_ipc n) RT_Object_Class_Mutex name k =
    Some (registered RT_Object_Class_Mutex (Obj_ipc n) name k1)" "kinv k1"
    using rt_object_init_ipc [OF k l _ n] by auto
  then show ?thesis by (simp add: rt_mutex_init_def mutex_abs_def)
qed

lemma rt_mutex_create_kinv:
  assumes k: "kinv k" and i: "rt_interrupt_nest k = 0"
  shows "\<exists>k'. rt_mutex_create name flag (Some n) k = Some (Some n, k') \<and> kinv k' \<and> ipc_flag n k' = flag \<and>
    mutex_abs n k' = (None, [])"
proof -
  obtain k1 where a: "rt_object_allocate RT_Object_Class_Mutex name (Some (Obj_ipc n)) k = Some (Some (Obj_ipc n), k1)"
    "kinv k1" using rt_object_allocate_ipc [OF k i, of RT_Object_Class_Mutex name n] by auto
  then show ?thesis using i
    by (simp add: rt_mutex_create_def mutex_abs_def RT_DEBUG_NOT_IN_INTERRUPT_def rt_interrupt_get_nest_def)
qed

lemma rt_mutex_detach_kinv:
  assumes k: "kinv k" and ty: "rt_object_get_type (Obj_ipc n) k = RT_Object_Class_Mutex"
    and s: "rt_object_is_systemobject (Obj_ipc n) k"
  shows "\<exists>k'. rt_mutex_detach n k = Some (RT_EOK, k') \<and> kinv k' \<and> dissolved n (set (tlists k (SuspendQ n))) k k'"
  using resume_all_detach [OF k, of n] ty s by (auto simp: rt_mutex_detach_def)

end
