(* ===== verification/Event.thy ===== *)
theory Event
  imports IpcState
begin

text \<open>
  Event sets (\<^verbatim>\<open>src/ipc.c\<close>, \<open>rt_event_*\<close>): threads wait for all or for any of a set of bits, a
  sender walks the queue and lets go everybody whose wait is satisfied.
\<close>

subsection \<open>Operations\<close>

definition RT_EVENT_FLAG_AND :: u8 where "RT_EVENT_FLAG_AND = 1"
definition RT_EVENT_FLAG_OR :: u8 where "RT_EVENT_FLAG_OR = 2"
definition RT_EVENT_FLAG_CLEAR :: u8 where "RT_EVENT_FLAG_CLEAR = 4"

definition rt_event_init :: "nat \<Rightarrow> string \<Rightarrow> u8 \<Rightarrow> 'a ipc_scheme \<Rightarrow> (int \<times> 'a ipc_scheme) option" where
  "rt_event_init n name flag k = do {
     k \<leftarrow> rt_object_init (Obj_ipc n) RT_Object_Class_Event name k;
     let k = set_ipc_flag n flag k;
     let k = snd (rt_ipc_object_init (SuspendQ n) k);
     Some (RT_EOK, upd_event n (\<lambda>e. e\<lparr>events := 0\<rparr>) k) }"

definition rt_event_detach :: "nat \<Rightarrow> 'a ipc_scheme \<Rightarrow> (int \<times> 'a ipc_scheme) option" where
  "rt_event_detach n k = do {
     rt_assert (rt_object_get_type (Obj_ipc n) k = RT_Object_Class_Event);
     rt_assert (rt_object_is_systemobject (Obj_ipc n) k);
     (_, k) \<leftarrow> rt_ipc_list_resume_all (SuspendQ n) k;
     Some (RT_EOK, rt_object_detach (Obj_ipc n) k) }"

definition rt_event_create ::
  "string \<Rightarrow> u8 \<Rightarrow> nat option \<Rightarrow> 'a ipc_scheme \<Rightarrow> (nat option \<times> 'a ipc_scheme) option" where
  "rt_event_create name flag malloc k = do {
     RT_DEBUG_NOT_IN_INTERRUPT k;
     (_, k) \<leftarrow> rt_object_allocate RT_Object_Class_Event name (map_option Obj_ipc malloc) k;
     case malloc of None \<Rightarrow> Some (None, k)
     | Some n \<Rightarrow>
         let k = snd (rt_ipc_object_init (SuspendQ n) (set_ipc_flag n flag k))
         in Some (Some n, upd_event n (\<lambda>e. e\<lparr>events := 0\<rparr>) k) }"

definition rt_event_delete :: "nat \<Rightarrow> 'a ipc_scheme \<Rightarrow> (int \<times> 'a ipc_scheme) option" where
  "rt_event_delete n k = do {
     rt_assert (rt_object_get_type (Obj_ipc n) k = RT_Object_Class_Event);
     rt_assert (\<not> rt_object_is_systemobject (Obj_ipc n) k);
     RT_DEBUG_NOT_IN_INTERRUPT k;
     (_, k) \<leftarrow> rt_ipc_list_resume_all (SuspendQ n) k;
     k \<leftarrow> rt_object_delete (Obj_ipc n) k;
     Some (RT_EOK, k) }"

text \<open>The test of lines 1064--1082 and what \<open>event_set\<close> of the thread becomes.\<close>

definition event_match :: "u8 \<Rightarrow> u32 \<Rightarrow> u32 \<Rightarrow> bool" where
  "event_match info want s =
     (if info AND RT_EVENT_FLAG_AND \<noteq> 0 then want AND s = want
      else if info AND RT_EVENT_FLAG_OR \<noteq> 0 then want AND s \<noteq> 0
      else False)"

definition event_got :: "u8 \<Rightarrow> u32 \<Rightarrow> u32 \<Rightarrow> u32" where
  "event_got info want s = (if info AND RT_EVENT_FLAG_AND \<noteq> 0 then want else want AND s)"

text \<open>
  The walk over the queue. A step unlinks no thread but the one it looks at, and takes \<open>n->next\<close>
  before, so the walk is over the queue as it was.
\<close>

fun event_send_loop ::
  "nat \<Rightarrow> tid list \<Rightarrow> bool \<Rightarrow> 'a ipc_scheme \<Rightarrow> (bool \<times> 'a ipc_scheme) option" where
  "event_send_loop n [] need k = Some (need, k)"
| "event_send_loop n (t # ts) need k =
     (let info = event_info (thr k t); want = event_set (thr k t); s = events (event_objs k n) in
      if event_match info want s then do {
        let k = upd_thr t (\<lambda>c. c\<lparr>event_set := event_got info want s\<rparr>) k;
        let k = (if info AND RT_EVENT_FLAG_CLEAR \<noteq> 0
          then upd_event n (\<lambda>e. e\<lparr>events := events e AND NOT (event_set (thr k t))\<rparr>) k else k);
        (_, k) \<leftarrow> rt_thread_resume t k;
        event_send_loop n ts True k }
      else event_send_loop n ts need k)"

definition rt_event_send :: "nat \<Rightarrow> u32 \<Rightarrow> 'a ipc_scheme \<Rightarrow> (int \<times> 'a ipc_scheme) option" where
  "rt_event_send n s k = do {
     rt_assert (rt_object_get_type (Obj_ipc n) k = RT_Object_Class_Event);
     if s = 0 then Some (- RT_ERROR, k)
     else do {
       let k = upd_event n (\<lambda>e. e\<lparr>events := events e OR s\<rparr>) k;
       (need, k) \<leftarrow> (if tlists k (SuspendQ n) \<noteq> [] then event_send_loop n (tlists k (SuspendQ n)) False k
         else Some (False, k));
       k \<leftarrow> (if need then rt_schedule k else Some k);
       Some (RT_EOK, k) } }"

text \<open>What is stored through \<open>recved\<close> is the second component of the answer.\<close>

definition rt_event_recv ::
  "nat \<Rightarrow> u32 \<Rightarrow> u8 \<Rightarrow> int \<Rightarrow> 'a ipc_scheme \<Rightarrow> ((int \<times> u32 option, tid) outcome \<times> 'a ipc_scheme) option" where
  "rt_event_recv n s option timeout k = do {
     RT_DEBUG_IN_THREAD_CONTEXT k;
     rt_assert (rt_object_get_type (Obj_ipc n) k = RT_Object_Class_Event);
     if s = 0 then Some (Returns (- RT_ERROR, None), k)
     else do {
       t \<leftarrow> rt_thread_self k;
       let k = upd_thr t (set_error RT_EOK) k;
       rt_assert (option AND RT_EVENT_FLAG_AND \<noteq> 0 \<or> option AND RT_EVENT_FLAG_OR \<noteq> 0);
       if event_match option s (events (event_objs k n)) then
         Some (Returns (error (thr k t), Some (events (event_objs k n) AND s)),
           if option AND RT_EVENT_FLAG_CLEAR \<noteq> 0
           then upd_event n (\<lambda>e. e\<lparr>events := events e AND NOT s\<rparr>) k else k)
       else if timeout = 0 then
         Some (Returns (- RT_ETIMEOUT, None), upd_thr t (set_error (- RT_ETIMEOUT)) k)
       else do {
         let k = upd_thr t (\<lambda>c. c\<lparr>event_set := s, event_info := option\<rparr>) k;
         k \<leftarrow> ipc_wait (SuspendQ n) t (ipc_flag n k) timeout k;
         Some (Blocks t, k) } } }"

definition rt_event_recv_resumed :: "tid \<Rightarrow> 'a ipc_scheme \<Rightarrow> int \<times> u32 option" where
  "rt_event_recv_resumed t k =
     (if error (thr k t) \<noteq> RT_EOK then (error (thr k t), None) else (error (thr k t), Some (event_set (thr k t))))"

definition rt_event_control :: "nat \<Rightarrow> int \<Rightarrow> 'a ipc_scheme \<Rightarrow> (int \<times> 'a ipc_scheme) option" where
  "rt_event_control n cmd k = do {
     rt_assert (rt_object_get_type (Obj_ipc n) k = RT_Object_Class_Event);
     if cmd = RT_IPC_CMD_RESET then do {
       (_, k) \<leftarrow> rt_ipc_list_resume_all (SuspendQ n) k;
       let k = upd_event n (\<lambda>e. e\<lparr>events := 0\<rparr>) k;
       k \<leftarrow> rt_schedule k;
       Some (RT_EOK, k) }
     else Some (- RT_ERROR, k) }"

subsection \<open>Who a set of bits lets go\<close>

text \<open>
  A wish and the set are sets of bit numbers: a thread waits for all of its bits or for any of them.
\<close>

definition bits :: "u32 \<Rightarrow> nat set" where
  "bits w = {i. bit w i}"

definition wish_met :: "u8 \<Rightarrow> u32 \<Rightarrow> u32 \<Rightarrow> bool" where
  "wish_met info want s =
     (if info AND RT_EVENT_FLAG_AND \<noteq> 0 then bits want \<subseteq> bits s
      else info AND RT_EVENT_FLAG_OR \<noteq> 0 \<and> bits want \<inter> bits s \<noteq> {})"

lemma event_match_met: "event_match info want s = wish_met info want s"
proof -
  have "want AND s = want \<longleftrightarrow> bits want \<subseteq> bits s"
    using bit_imp_le_length [of want] unfolding bits_def bit_eq_iff by (auto simp: bit_and_iff)
  moreover have "want AND s = 0 \<longleftrightarrow> bits want \<inter> bits s = {}"
    using bit_imp_le_length [of want] unfolding bits_def bit_eq_iff by (auto simp: bit_and_iff)
  ultimately show ?thesis by (simp add: event_match_def wish_met_def)
qed

lemma event_got_met: "event_match info want s \<Longrightarrow> event_got info want s = want AND s"
  by (auto simp: event_match_def event_got_def)

text \<open>The walk on the wishes of the waiters alone: who leaves with which bits, who stays, what is left.\<close>

fun event_walk :: "(tid \<Rightarrow> u8 \<times> u32) \<Rightarrow> tid list \<Rightarrow> u32 \<Rightarrow> (tid \<times> u32) list \<times> tid list \<times> u32" where
  "event_walk wish [] s = ([], [], s)"
| "event_walk wish (t # ts) s =
     (case wish t of (info, want) \<Rightarrow>
        if wish_met info want s then
          let got = want AND s;
              (woken, stay, s') = event_walk wish ts (if info AND RT_EVENT_FLAG_CLEAR \<noteq> 0 then s AND NOT got else s)
          in ((t, got) # woken, stay, s')
        else let (woken, stay, s') = event_walk wish ts s in (woken, t # stay, s'))"

declare event_walk.simps(2) [simp del]

lemma event_walk_Cons [simp]:
  "event_walk wish (t # ts) s =
     (case wish t of (info, want) \<Rightarrow>
        if event_match info want s then
          let got = event_got info want s;
              (woken, stay, s') = event_walk wish ts (if info AND RT_EVENT_FLAG_CLEAR \<noteq> 0 then s AND NOT got else s)
          in ((t, got) # woken, stay, s')
        else let (woken, stay, s') = event_walk wish ts s in (woken, t # stay, s'))"
  by (simp add: event_walk.simps(2) event_got_met cong: if_cong flip: event_match_met split: prod.split)

definition wish_of :: "'a kernel_scheme \<Rightarrow> tid \<Rightarrow> u8 \<times> u32" where
  "wish_of k t = (event_info (thr k t), event_set (thr k t))"

lemma event_match_mono:
  assumes "event_match info want (s AND m)"
  shows "event_match info want s"
proof -
  have "want AND s = want" if h: "want AND (s AND m) = want"
  proof (rule bit_eqI)
    fix i
    have "bit (want AND (s AND m)) i = bit want i" by (simp only: h)
    then show "bit (want AND s) i = bit want i" by (auto simp: bit_and_iff)
  qed
  moreover have "want AND s \<noteq> 0" if h: "want AND (s AND m) \<noteq> 0"
  proof
    assume "want AND s = 0"
    then have "(want AND s) AND m = 0" by simp
    then show False using h by (simp only: and.assoc)
  qed
  ultimately show ?thesis using assms by (auto simp: event_match_def split: if_splits)
qed

lemma event_walk_left: "event_walk wish ts s = (woken, stay, s') \<Longrightarrow> \<exists>m. s' = s AND m"
proof (induction ts arbitrary: s woken stay s')
  case Nil
  then show ?case by (intro exI [of _ s]) simp
next
  case (Cons t ts)
  obtain info want where w: "wish t = (info, want)" by (cases "wish t")
  show ?case
  proof (cases "event_match info want s")
    case False
    then show ?thesis using Cons w by (auto split: prod.splits)
  next
    case True
    let ?s = "if info AND RT_EVENT_FLAG_CLEAR \<noteq> 0 then s AND NOT (event_got info want s) else s"
    obtain wk where "event_walk wish ts ?s = (wk, stay, s')"
      using Cons.prems w True by (auto simp: Let_def split: prod.splits)
    from Cons.IH [OF this] obtain m where "s' = ?s AND m" by blast
    then show ?thesis by (auto simp: and.assoc split: if_splits)
  qed
qed

lemma event_walk_stay:
  "event_walk wish ts s = (woken, stay, s') \<Longrightarrow> t \<in> set stay \<Longrightarrow> \<not> event_match (fst (wish t)) (snd (wish t)) s'"
proof (induction ts arbitrary: s woken stay s')
  case (Cons u ts)
  obtain info want where w: "wish u = (info, want)" by (cases "wish u")
  show ?case
  proof (cases "event_match info want s")
    case True
    then show ?thesis using Cons w by (auto simp: Let_def split: prod.splits)
  next
    case False
    then obtain st where st: "event_walk wish ts s = (woken, st, s')" "stay = u # st"
      using Cons.prems w by (auto split: prod.splits)
    obtain m where "s' = s AND m" using event_walk_left [OF st(1)] by blast
    then have "\<not> event_match info want s'" using False event_match_mono by blast
    then show ?thesis using Cons.IH [OF st(1)] st(2) Cons.prems(2) w by auto
  qed
qed simp

lemma event_walk_cong:
  "(\<And>t. t \<in> set ts \<Longrightarrow> w t = w' t) \<Longrightarrow> event_walk w ts s = event_walk w' ts s"
  by (induction ts arbitrary: s) (auto simp: Let_def split: prod.splits)

lemma event_walk_parts:
  "event_walk wish ts s = (woken, stay, s') \<Longrightarrow> set ts = fst ` set woken \<union> set stay \<and>
   length ts = length woken + length stay"
  by (induction ts arbitrary: s woken stay s') (auto simp: Let_def split: prod.splits if_splits)

subsection \<open>Sending\<close>

lemma set_event_kinv: "kinv k \<Longrightarrow> kinv (upd_thr t (\<lambda>c. c\<lparr>event_set := g\<rparr>) k)"
  by (rule upd_thr_kinv') (simp_all add: th_stat_def)

lemma event_send_loop_walk:
  assumes "kinv k" "tlists k (SuspendQ n) = pre @ ts"
    and "event_walk (wish_of k) ts (events (event_objs k n)) = (woken, stay, s')"
  shows "\<exists>k'. event_send_loop n ts need k = Some (need \<or> woken \<noteq> [], k') \<and> kinv k' \<and>
    tlists k' (SuspendQ n) = pre @ stay \<and> events (event_objs k' n) = s' \<and>
    rt_current_thread k' = rt_current_thread k \<and> (\<forall>r. otype (objs k' r) = otype (objs k r)) \<and>
    ipc_flag n k' = ipc_flag n k \<and>
    (\<forall>u. runnable (state_of k' u) \<longleftrightarrow> runnable (state_of k u) \<or> u \<in> fst ` set woken) \<and>
    (\<forall>u. u \<notin> fst ` set woken \<longrightarrow> wish_of k' u = wish_of k u) \<and>
    (\<forall>(u, g) \<in> set woken. event_set (thr k' u) = g) \<and> (\<forall>u. error (thr k' u) = error (thr k u))"
  using assms
proof (induction ts arbitrary: k pre woken stay need)
  case Nil
  then show ?case by simp
next
  case (Cons t ts)
  let ?s = "events (event_objs k n)"
  define info want where iw: "info = event_info (thr k t)" "want = event_set (thr k t)"
  have w: "wish_of k t = (info, want)" by (simp add: wish_of_def iw)
  have "distinct (tlists k (SuspendQ n))" using kinv_lists [OF Cons.prems(1)] by (simp add: lists_ok_def)
  then have d: "t \<notin> set pre" "t \<notin> set ts" using Cons.prems(2) by auto
  show ?case
  proof (cases "event_match info want ?s")
    case False
    then obtain st where st: "event_walk (wish_of k) ts ?s = (woken, st, s')" "stay = t # st"
      using Cons.prems(3) w by (auto split: prod.splits)
    have q: "tlists k (SuspendQ n) = (pre @ [t]) @ ts" using Cons.prems(2) by simp
    have "event_send_loop n (t # ts) need k = event_send_loop n ts need k"
      using False by (simp add: Let_def flip: iw)
    then show ?thesis using Cons.IH [OF Cons.prems(1) q st(1), of need] st(2) by simp
  next
    case True
    let ?g = "event_got info want ?s"
    let ?s1 = "if info AND RT_EVENT_FLAG_CLEAR \<noteq> 0 then ?s AND NOT ?g else ?s"
    obtain wk where wk: "event_walk (wish_of k) ts ?s1 = (wk, stay, s')" "woken = (t, ?g) # wk"
      using Cons.prems(3) w True by (auto simp: Let_def split: prod.splits)
    let ?k1 = "upd_thr t (\<lambda>c. c\<lparr>event_set := ?g\<rparr>) k"
    let ?k2 = "if info AND RT_EVENT_FLAG_CLEAR \<noteq> 0
      then upd_event n (\<lambda>e. e\<lparr>events := events e AND NOT (event_set (thr ?k1 t))\<rparr>) ?k1 else ?k1"
    have k2: "kinv ?k2" using set_event_kinv [OF Cons.prems(1)] by simp
    have s2: "events (event_objs ?k2 n) = ?s1" "tlists ?k2 = tlists k" "rt_current_thread ?k2 = rt_current_thread k"
      "objs ?k2 = objs k" "thr ?k2 = thr ?k1" by simp_all
    have "t \<in> set (tlists ?k2 (SuspendQ n))" using Cons.prems(2) s2(2) by simp
    from rt_thread_resume_waiter [OF k2 waiting_list_simps(1) this] obtain k3 where
      r: "rt_thread_resume t ?k2 = Some (RT_EOK, k3)" "kinv k3"
      "tlists k3 (SuspendQ n) = remove1 t (tlists ?k2 (SuspendQ n))" "wakes (SuspendQ n) {t} ?k2 k3" "thread_frame t ?k2 k3"
      by blast
    note f = wakes_frame [OF r(4)]
    have q3: "tlists k3 (SuspendQ n) = pre @ ts" using r(3) s2(2) Cons.prems(2) d by (simp add: remove1_append)
    have e3: "events (event_objs k3 n) = ?s1" using frame_objects(3) [OF f] s2(1) by simp
    have w3: "wish_of k3 u = (if u = t then (info, ?g) else wish_of k u)" for u
      using ipc_frame_obj(8,9) [OF f, of u] s2(5) by (simp add: wish_of_def iw)
    have "event_walk (wish_of k3) ts ?s1 = event_walk (wish_of k) ts ?s1"
      by (rule event_walk_cong) (use w3 d in auto)
    then have walk3: "event_walk (wish_of k3) ts (events (event_objs k3 n)) = (wk, stay, s')" using wk(1) e3 by simp
    obtain k' where i: "event_send_loop n ts True k3 = Some (True, k')" "kinv k'"
      "tlists k' (SuspendQ n) = pre @ stay" "events (event_objs k' n) = s'"
      "rt_current_thread k' = rt_current_thread k3" "\<forall>r. otype (objs k' r) = otype (objs k3 r)"
      "ipc_flag n k' = ipc_flag n k3"
      "\<forall>u. runnable (state_of k' u) \<longleftrightarrow> runnable (state_of k3 u) \<or> u \<in> fst ` set wk"
      "\<forall>u. u \<notin> fst ` set wk \<longrightarrow> wish_of k' u = wish_of k3 u"
      "\<forall>(u, g) \<in> set wk. event_set (thr k' u) = g" "\<forall>u. error (thr k' u) = error (thr k3 u)"
      using Cons.IH [OF r(2) q3 walk3, of True] by auto
    have loop: "event_send_loop n (t # ts) need k = Some (True, k')"
      using True r(1) i(1) by (simp add: Let_def flip: iw)
    have nt: "t \<notin> fst ` set wk" using event_walk_parts [OF wk(1)] d(2) by auto
    have "wish_of k' t = (info, ?g)" using i(9) nt w3 [of t] by simp
    then have g: "event_set (thr k' t) = ?g" by (simp add: wish_of_def)
    have run: "runnable (state_of k' u) \<longleftrightarrow> runnable (state_of k u) \<or> u \<in> fst ` set woken" for u
    proof -
      have "runnable (state_of ?k2 u) = runnable (state_of k u)" using s2(5) by (simp add: th_stat_def)
      then show ?thesis using i(8) wakes_runnable [OF r(4), of u] wk(2) by auto
    qed
    have wish: "wish_of k' u = wish_of k u" if "u \<notin> fst ` set woken" for u
      using that i(9) w3 [of u] wk(2) by auto
    have err: "error (thr k' u) = error (thr k u)" for u
      using i(11) thread_frame_error [OF r(5), of u] s2(5) by simp
    have cur: "rt_current_thread k' = rt_current_thread k" using i(5) r(5) s2(3) by (simp add: thread_frame_def)
    have ty: "otype (objs k' x) = otype (objs k x)" for x
    proof -
      have "otype (objs k3 x) = otype (objs ?k2 x)" using f unfolding ipc_frame_def by blast
      then show ?thesis using i(6) s2(4) by simp
    qed
    have fl: "ipc_flag n k' = ipc_flag n k" using i(7) ipc_frame_obj(2) [OF f, of n] s2(4) by (simp add: ipc_flag_def)
    show ?thesis using loop i(2-4,10) wk(2) g run wish err cur ty fl by (intro exI [of _ k']) auto
  qed
qed

text \<open>Nobody waits for what is there.\<close>

definition event_ok :: "nat \<Rightarrow> 'a ipc_scheme \<Rightarrow> bool" where
  "event_ok n k \<longleftrightarrow> ipc_inv k \<and> rt_object_get_type (Obj_ipc n) k = RT_Object_Class_Event \<and>
     (ipc_flag n k = RT_IPC_FLAG_FIFO \<or> ipc_flag n k = RT_IPC_FLAG_PRIO) \<and>
     (\<forall>t \<in> set (tlists k (SuspendQ n)).
        \<not> event_match (event_info (thr k t)) (event_set (thr k t)) (events (event_objs k n)))"

lemma event_okI:
  assumes "kinv k'" "rt_current_thread k' \<noteq> None" "rt_object_get_type (Obj_ipc n) k' = RT_Object_Class_Event"
    "ipc_flag n k' = RT_IPC_FLAG_FIFO \<or> ipc_flag n k' = RT_IPC_FLAG_PRIO"
    "\<And>t. t \<in> set (tlists k' (SuspendQ n)) \<Longrightarrow>
       \<not> event_match (fst (wish_of k' t)) (snd (wish_of k' t)) (events (event_objs k' n))"
  shows "event_ok n k'"
  using assms by (simp add: event_ok_def ipc_inv_def wish_of_def)

lemma event_okD:
  assumes "event_ok n k"
  shows "kinv k" "rt_current_thread k \<noteq> None" "rt_object_get_type (Obj_ipc n) k = RT_Object_Class_Event"
    "ipc_flag n k = RT_IPC_FLAG_FIFO \<or> ipc_flag n k = RT_IPC_FLAG_PRIO"
    "t \<in> set (tlists k (SuspendQ n)) \<Longrightarrow>
       \<not> event_match (fst (wish_of k t)) (snd (wish_of k t)) (events (event_objs k n))"
  using assms by (auto simp: event_ok_def ipc_inv_def wish_of_def)

lemma rt_event_send_walk:
  assumes ok: "event_ok n k" and s: "s \<noteq> 0"
    and w: "event_walk (wish_of k) (tlists k (SuspendQ n)) (events (event_objs k n) OR s) = (woken, stay, s')"
  shows "\<exists>k'. rt_event_send n s k = Some (RT_EOK, k') \<and> event_ok n k' \<and> tlists k' (SuspendQ n) = stay \<and>
    events (event_objs k' n) = s' \<and> (\<forall>u. error (thr k' u) = error (thr k u)) \<and>
    (\<forall>(u, g) \<in> set woken. runnable (state_of k' u) \<and> event_set (thr k' u) = g)"
proof -
  note d = event_okD [OF ok]
  let ?k = "upd_event n (\<lambda>e. e\<lparr>events := events e OR s\<rparr>) k"
  let ?q = "tlists k (SuspendQ n)"
  have wk: "wish_of ?k = wish_of k" by (simp add: wish_of_def fun_eq_iff)
  have "kinv ?k" "tlists ?k (SuspendQ n) = [] @ ?q" using d(1) by simp_all
  moreover have "event_walk (wish_of ?k) ?q (events (event_objs ?k n)) = (woken, stay, s')" using w wk by simp
  ultimately obtain k1 where l: "event_send_loop n ?q False ?k = Some (woken \<noteq> [], k1)" "kinv k1"
    "tlists k1 (SuspendQ n) = [] @ stay" "events (event_objs k1 n) = s'" "rt_current_thread k1 = rt_current_thread ?k"
    "\<forall>r. otype (objs k1 r) = otype (objs ?k r)" "ipc_flag n k1 = ipc_flag n ?k"
    "\<forall>u. runnable (state_of k1 u) \<longleftrightarrow> runnable (state_of ?k u) \<or> u \<in> fst ` set woken"
    "\<forall>u. u \<notin> fst ` set woken \<longrightarrow> wish_of k1 u = wish_of ?k u"
    "\<forall>(u, g) \<in> set woken. event_set (thr k1 u) = g" "\<forall>u. error (thr k1 u) = error (thr ?k u)"
    using event_send_loop_walk [of ?k n "[]" ?q woken stay s' False] by auto
  have c1: "rt_current_thread k1 \<noteq> None" using l(5) d(2) by simp
  obtain k2 where s2: "(if woken \<noteq> [] then rt_schedule k1 else Some k1) = Some k2" "kinv k2" "rt_current_thread k2 \<noteq> None"
    "wakes (SuspendQ n) {} k1 k2" "tlists k2 (SuspendQ n) = stay" "\<forall>u. error (thr k2 u) = error (thr k1 u)"
  proof (cases "woken = []")
    case True
    then show ?thesis using that [of k1] l(2,3) c1 by simp
  next
    case False
    then show ?thesis using schedule_wakes [OF l(2) c1, of "SuspendQ n"] l(3) that by auto
  qed
  note f = wakes_frame [OF s2(4)]
  have w2: "wish_of k2 u = wish_of k1 u" for u using ipc_frame_obj(8,9) [OF f, of u] by (simp add: wish_of_def)
  have e2: "events (event_objs k2 n) = s'" using frame_objects(3) [OF f] l(4) by simp
  have disj: "u \<notin> fst ` set woken" if "u \<in> set stay" for u
  proof -
    have "u \<in> set (tlists k1 (SuspendQ n))" using l(3) that by simp
    then have "\<not> runnable (state_of k1 u)" using kinv_suspendq [OF l(2), of u n] by simp
    then show ?thesis using l(8) by simp
  qed
  have "rt_event_send n s k = Some (RT_EOK, k2)"
    using d(3) s l(1) s2(1) by (cases "?q = []") (auto simp: rt_event_send_def split: if_splits)
  moreover have "event_ok n k2"
  proof (rule event_okI [OF s2(2,3)])
    show "rt_object_get_type (Obj_ipc n) k2 = RT_Object_Class_Event"
      using d(3) l(6) ipc_frame_obj(1) [OF f] by (simp add: rt_object_get_type_def)
    show "ipc_flag n k2 = RT_IPC_FLAG_FIFO \<or> ipc_flag n k2 = RT_IPC_FLAG_PRIO"
      using d(4) l(7) ipc_frame_obj(2) [OF f] by simp
    fix u
    assume "u \<in> set (tlists k2 (SuspendQ n))"
    then have u: "u \<in> set stay" using s2(5) by simp
    have "wish_of k2 u = wish_of k u" using w2 [of u] l(9) disj [OF u] wk by simp
    then show "\<not> event_match (fst (wish_of k2 u)) (snd (wish_of k2 u)) (events (event_objs k2 n))"
      using event_walk_stay [OF w u] e2 by simp
  qed
  moreover have "runnable (state_of k2 u) \<and> event_set (thr k2 u) = g" if "(u, g) \<in> set woken" for u g
  proof -
    have "u \<in> fst ` set woken" using that by force
    then have "runnable (state_of k2 u)" using l(8) wakes_runnable [OF s2(4), of u] by simp
    moreover have "event_set (thr k2 u) = g" using l(10) that ipc_frame_obj(8) [OF f, of u] by auto
    ultimately show ?thesis by simp
  qed
  ultimately show ?thesis using s2(5,6) e2 l(11) by (intro exI [of _ k2]) auto
qed

subsection \<open>Receiving\<close>

lemma rt_event_recv_ready:
  assumes ok: "event_ok n k" and c: "caller t k" and s: "s \<noteq> 0"
    and m: "event_match option s (events (event_objs k n))"
  shows "\<exists>k'. rt_event_recv n s option timeout k =
      Some (Returns (RT_EOK, Some (events (event_objs k n) AND s)), k') \<and> event_ok n k' \<and>
    events (event_objs k' n) =
      (if option AND RT_EVENT_FLAG_CLEAR \<noteq> 0 then events (event_objs k n) AND NOT s else events (event_objs k n))"
proof -
  note d = event_okD [OF ok]
  let ?k = "upd_thr t (set_error RT_EOK) k"
  let ?k' = "if option AND RT_EVENT_FLAG_CLEAR \<noteq> 0 then upd_event n (\<lambda>e. e\<lparr>events := events e AND NOT s\<rparr>) ?k else ?k"
  have o: "option AND RT_EVENT_FLAG_AND \<noteq> 0 \<or> option AND RT_EVENT_FLAG_OR \<noteq> 0"
    using m by (auto simp: event_match_def split: if_splits)
  have "rt_event_recv n s option timeout k = Some (Returns (RT_EOK, Some (events (event_objs k n) AND s)), ?k')"
    using c d(3) s m o by (simp add: rt_event_recv_def)
  moreover have "event_ok n ?k'"
  proof (rule event_okI)
    fix u
    assume "u \<in> set (tlists ?k' (SuspendQ n))"
    then have "u \<in> set (tlists k (SuspendQ n))" by (simp split: if_splits)
    note b = d(5) [OF this]
    have "wish_of ?k' u = wish_of k u" by (simp add: wish_of_def set_error_def)
    moreover have "\<not> event_match (fst (wish_of k u)) (snd (wish_of k u)) (events (event_objs k n) AND NOT s)"
      using b event_match_mono by blast
    ultimately show "\<not> event_match (fst (wish_of ?k' u)) (snd (wish_of ?k' u)) (events (event_objs ?k' n))"
      using b by simp
  qed (use d(1-4) in simp_all)
  ultimately show ?thesis by (intro exI [of _ ?k']) simp
qed

lemma set_wish_kinv: "kinv k \<Longrightarrow> kinv (upd_thr t (\<lambda>c. c\<lparr>event_set := g, event_info := i\<rparr>) k)"
  by (rule upd_thr_kinv') (simp_all add: th_stat_def)

lemma rt_event_recv_waits:
  assumes ok: "event_ok n k" and c: "caller t k" and s: "s \<noteq> 0"
    and o: "option AND RT_EVENT_FLAG_AND \<noteq> 0 \<or> option AND RT_EVENT_FLAG_OR \<noteq> 0"
    and m: "\<not> event_match option s (events (event_objs k n))" and time: "timeout \<noteq> 0" "timeout < 2 ^ 31 - 1"
  shows "\<exists>k'. rt_event_recv n s option timeout k = Some (Blocks t, k') \<and> event_ok n k' \<and>
    tlists k' (SuspendQ n) = queued (ipc_flag n k) (prio_of k) t (tlists k (SuspendQ n)) \<and>
    wish_of k' t = (option, s) \<and> event_objs k' n = event_objs k n \<and> error (thr k' t) = RT_EOK"
proof -
  note d = event_okD [OF ok]
  let ?k = "upd_thr t (\<lambda>c. c\<lparr>event_set := s, event_info := option\<rparr>) (upd_thr t (set_error RT_EOK) k)"
  have k1: "kinv ?k" by (rule set_wish_kinv) (simp add: d(1))
  have st: "th_stat (c\<lparr>event_set := s, event_info := option\<rparr>) = th_stat c" for c :: rt_thread by (simp add: th_stat_def)
  have c1: "rt_current_thread ?k = Some t" "state_of ?k t = RT_THREAD_RUNNING" using c by (simp_all add: caller_def st)
  have p: "prio_of ?k = prio_of k" by (rule ext) simp
  obtain k' where w: "ipc_wait (SuspendQ n) t (ipc_flag n k) timeout ?k = Some k'" "kinv k'" "rt_current_thread k' \<noteq> None"
    "tlists k' (SuspendQ n) = queued (ipc_flag n k) (prio_of ?k) t (tlists ?k (SuspendQ n))" "waits (SuspendQ n) t ?k k'"
    using ipc_wait_kinv [OF k1 c1 waiting_list_simps(1) d(4) time(2)] by blast
  note f = waits_frame [OF w(5)]
  have wish: "wish_of k' u = (if u = t then (option, s) else wish_of k u)" for u
    using ipc_frame_obj(8,9) [OF f, of u] by (simp add: wish_of_def)
  have e: "event_objs k' n = event_objs k n" using frame_objects(3) [OF f] by simp
  have q: "tlists k' (SuspendQ n) = queued (ipc_flag n k) (prio_of k) t (tlists k (SuspendQ n))"
    using w(4) unfolding p by simp
  have "rt_event_recv n s option timeout k = Some (Blocks t, k')"
    using c d(3) s m o time(1) w(1) by (simp add: rt_event_recv_def)
  moreover have "event_ok n k'"
    using w(2,3) d(3,4) ipc_frame_obj(1,2) [OF f] wish e m d(5) by (intro event_okI) (auto simp: q)
  moreover have "error (thr k' t) = RT_EOK" using waits_error [OF w(5), of t] by simp
  ultimately show ?thesis using q wish e by simp
qed

subsection \<open>Reset, creation and destruction\<close>

lemma rt_event_control_reset:
  assumes ok: "event_ok n k"
  shows "\<exists>k'. rt_event_control n RT_IPC_CMD_RESET k = Some (RT_EOK, k') \<and> event_ok n k' \<and>
    tlists k' (SuspendQ n) = [] \<and> events (event_objs k' n) = 0 \<and>
    (\<forall>t \<in> set (tlists k (SuspendQ n)). runnable (state_of k' t) \<and> error (thr k' t) = - RT_ERROR)"
proof -
  note d = event_okD [OF ok]
  obtain k1 where r: "rt_ipc_list_resume_all (SuspendQ n) k = Some (RT_EOK, k1)" "kinv k1"
    "rt_current_thread k1 = rt_current_thread k" "tlists k1 (SuspendQ n) = []"
    "wakes (SuspendQ n) (set (tlists k (SuspendQ n))) k k1"
    "\<forall>u. error (thr k1 u) = (if u \<in> set (tlists k (SuspendQ n)) then - RT_ERROR else error (thr k u))"
    using rt_ipc_list_resume_all_kinv [OF d(1) waiting_list_simps(1) refl, of n] by blast
  let ?k = "upd_event n (\<lambda>e. e\<lparr>events := 0\<rparr>) k1"
  have "kinv ?k" "rt_current_thread ?k \<noteq> None" using r(2,3) d(2) by simp_all
  from schedule_wakes [OF this, of "SuspendQ n"] obtain k2 where s: "rt_schedule ?k = Some k2" "kinv k2"
    "rt_current_thread k2 \<noteq> None" "wakes (SuspendQ n) {} ?k k2" "\<forall>l'. waiting_list l' \<longrightarrow> tlists k2 l' = tlists ?k l'"
    "\<forall>u. error (thr k2 u) = error (thr ?k u)" by blast
  have q2: "tlists k2 (SuspendQ n) = []" using s(5) r(4) by simp
  have "event_ok n k2"
    using s(2,3) d(3,4) ipc_frame_obj(1,2) [OF wakes_frame [OF s(4)]] ipc_frame_obj(1,2) [OF wakes_frame [OF r(5)]] q2
    by (intro event_okI) simp_all
  moreover have "events (event_objs k2 n) = 0" using frame_objects(3) [OF wakes_frame [OF s(4)]] by simp
  moreover have "runnable (state_of k2 t) \<and> error (thr k2 t) = - RT_ERROR" if "t \<in> set (tlists k (SuspendQ n))" for t
    using that wakes_runnable [OF r(5), of t] wakes_runnable [OF s(4), of t] r(6) s(6) by simp
  moreover have "rt_event_control n RT_IPC_CMD_RESET k = Some (RT_EOK, k2)"
    using d(3) r(1) s(1) by (simp add: rt_event_control_def)
  ultimately show ?thesis using q2 by blast
qed

lemma rt_event_init_kinv:
  assumes k: "kinv k" and l: "lock_ok k" and n: "Obj_ipc n \<notin> set (objects k RT_Object_Class_Event)"
  shows "\<exists>k'. rt_event_init n name flag k = Some (RT_EOK, k') \<and> kinv k' \<and>
    rt_object_get_type (Obj_ipc n) k' = RT_Object_Class_Event \<and> tlists k' (SuspendQ n) = [] \<and> events (event_objs k' n) = 0"
proof -
  obtain k1 where "rt_object_init (Obj_ipc n) RT_Object_Class_Event name k =
    Some (registered RT_Object_Class_Event (Obj_ipc n) name k1)" "kinv k1"
    using rt_object_init_ipc [OF k l _ n] by auto
  then show ?thesis by (simp add: rt_event_init_def)
qed

lemma rt_event_detach_kinv:
  assumes k: "kinv k" and ty: "rt_object_get_type (Obj_ipc n) k = RT_Object_Class_Event"
    and s: "rt_object_is_systemobject (Obj_ipc n) k"
  shows "\<exists>k'. rt_event_detach n k = Some (RT_EOK, k') \<and> kinv k' \<and> dissolved n (set (tlists k (SuspendQ n))) k k'"
  using resume_all_detach [OF k, of n] ty s by (auto simp: rt_event_detach_def)

end
