(* ===== verification/Handover.thy ===== *)
theory Handover
  imports IpcState
begin

text \<open>
  What mailboxes and message queues share: the contract of a bounded first-in first-out queue and
  what follows from it, the arithmetic of the remaining time when a thread has to wait again, and
  the two queues of waiting threads, receivers (\<open>SuspendQ\<close>) and senders (\<open>SenderQ\<close>).
\<close>

subsection \<open>Bounded queues\<close>

datatype 'v queue_op = Enqueue 'v | Dequeue
datatype 'v queue_answer = Stored | Refused | Got_item 'v | Nothing

fun put_all :: "('v \<Rightarrow> 's \<Rightarrow> 's option) \<Rightarrow> 'v list \<Rightarrow> 's \<Rightarrow> 's option" where
  "put_all put [] s = Some s"
| "put_all put (v # vs) s = do { s \<leftarrow> put v s; put_all put vs s }"

fun get_all :: "('s \<Rightarrow> ('v \<times> 's) option) \<Rightarrow> nat \<Rightarrow> 's \<Rightarrow> ('v list \<times> 's) option" where
  "get_all get 0 s = Some ([], s)"
| "get_all get (Suc n) s = do { (v, s) \<leftarrow> get s; (vs, s) \<leftarrow> get_all get n s; Some (v # vs, s) }"

text \<open>A sequence of operations; one that is refused leaves the queue as it was.\<close>

fun queue_run ::
  "('v \<Rightarrow> 's \<Rightarrow> 's option) \<Rightarrow> ('s \<Rightarrow> ('v \<times> 's) option) \<Rightarrow> 'v queue_op list \<Rightarrow> 's \<Rightarrow> 'v queue_answer list \<times> 's" where
  "queue_run put get [] s = ([], s)"
| "queue_run put get (Enqueue v # ops) s = (case put v s of
      None \<Rightarrow> apfst (Cons Refused) (queue_run put get ops s)
    | Some s' \<Rightarrow> apfst (Cons Stored) (queue_run put get ops s'))"
| "queue_run put get (Dequeue # ops) s = (case get s of
      None \<Rightarrow> apfst (Cons Nothing) (queue_run put get ops s)
    | Some (v, s') \<Rightarrow> apfst (Cons (Got_item v)) (queue_run put get ops s'))"

text \<open>The same on a plain list of at most \<open>c\<close> items.\<close>

fun list_run :: "nat \<Rightarrow> 'v queue_op list \<Rightarrow> 'v list \<Rightarrow> 'v queue_answer list \<times> 'v list" where
  "list_run c [] vs = ([], vs)"
| "list_run c (Enqueue v # ops) vs =
     (if length vs < c then apfst (Cons Stored) (list_run c ops (vs @ [v])) else apfst (Cons Refused) (list_run c ops vs))"
| "list_run c (Dequeue # ops) [] = apfst (Cons Nothing) (list_run c ops [])"
| "list_run c (Dequeue # ops) (v # vs) = apfst (Cons (Got_item v)) (list_run c ops vs)"

locale bounded_queue =
  fixes inv :: "'s \<Rightarrow> bool"
    and items :: "'s \<Rightarrow> 'v list"
    and cap :: "'s \<Rightarrow> nat"
    and fits :: "'s \<Rightarrow> 'v \<Rightarrow> bool"
    and put :: "'v \<Rightarrow> 's \<Rightarrow> 's option"
    and get :: "'s \<Rightarrow> ('v \<times> 's) option"
  assumes bounded: "inv s \<Longrightarrow> length (items s) \<le> cap s"
    and put_room: "\<lbrakk>inv s; fits s v; length (items s) < cap s\<rbrakk> \<Longrightarrow>
      \<exists>s'. put v s = Some s' \<and> inv s' \<and> items s' = items s @ [v] \<and> cap s' = cap s \<and> fits s' = fits s"
    and put_full: "\<lbrakk>inv s; fits s v; length (items s) = cap s\<rbrakk> \<Longrightarrow> put v s = None"
    and get_item: "\<lbrakk>inv s; items s = v # vs\<rbrakk> \<Longrightarrow>
      \<exists>s'. get s = Some (v, s') \<and> inv s' \<and> items s' = vs \<and> cap s' = cap s \<and> fits s' = fits s"
    and get_empty: "\<lbrakk>inv s; items s = []\<rbrakk> \<Longrightarrow> get s = None"
begin

lemma put_all_items:
  "\<lbrakk>inv s; \<forall>v \<in> set vs. fits s v; length (items s) + length vs \<le> cap s\<rbrakk> \<Longrightarrow>
   \<exists>s'. put_all put vs s = Some s' \<and> inv s' \<and> items s' = items s @ vs \<and> cap s' = cap s \<and> fits s' = fits s"
proof (induction vs arbitrary: s)
  case (Cons v vs)
  obtain s1 where s1: "put v s = Some s1" "inv s1" "items s1 = items s @ [v]" "cap s1 = cap s" "fits s1 = fits s"
    using put_room [of s v] Cons.prems by auto
  then show ?case using Cons.IH [OF s1(2)] Cons.prems by auto
qed simp

lemma put_all_too_many:
  "\<lbrakk>inv s; \<forall>v \<in> set vs. fits s v; cap s < length (items s) + length vs\<rbrakk> \<Longrightarrow> put_all put vs s = None"
proof (induction vs arbitrary: s)
  case Nil
  then show ?case using bounded [of s] by simp
next
  case (Cons v vs)
  show ?case
  proof (cases "length (items s) = cap s")
    case True
    then show ?thesis using put_full [of s v] Cons.prems by simp
  next
    case False
    then obtain s1 where "put v s = Some s1" "inv s1" "items s1 = items s @ [v]" "cap s1 = cap s" "fits s1 = fits s"
      using put_room [of s v] bounded [of s] Cons.prems by auto
    then show ?thesis using Cons.IH [of s1] Cons.prems by simp
  qed
qed

lemma get_all_items:
  "\<lbrakk>inv s; n \<le> length (items s)\<rbrakk> \<Longrightarrow>
   \<exists>s'. get_all get n s = Some (take n (items s), s') \<and> inv s' \<and> items s' = drop n (items s) \<and> cap s' = cap s"
proof (induction n arbitrary: s)
  case (Suc n)
  then obtain v vs where q: "items s = v # vs" by (cases "items s") auto
  obtain s1 where s1: "get s = Some (v, s1)" "inv s1" "items s1 = vs" "cap s1 = cap s"
    using get_item [OF Suc.prems(1) q] by blast
  have "n \<le> length (items s1)" using Suc.prems(2) q s1(3) by simp
  from Suc.IH [OF s1(2) this] show ?case using s1 q by auto
qed simp

text \<open>Round trip: what was put in comes out, behind what was there, in the same order.\<close>

lemma fifo_roundtrip:
  assumes "inv s" "\<forall>v \<in> set vs. fits s v" "length (items s) + length vs \<le> cap s"
  shows "\<exists>s1 s2. put_all put vs s = Some s1 \<and> get_all get (length (items s) + length vs) s1 = Some (items s @ vs, s2) \<and>
    items s2 = [] \<and> inv s2"
proof -
  obtain s1 where s1: "put_all put vs s = Some s1" "inv s1" "items s1 = items s @ vs"
    using put_all_items [OF assms] by blast
  show ?thesis using get_all_items [OF s1(2), of "length (items s) + length vs"] s1 by auto
qed

text \<open>Refinement: any sequence of operations answers as the list does.\<close>

lemma queue_run_refines:
  "\<lbrakk>inv s; \<forall>v. Enqueue v \<in> set ops \<longrightarrow> fits s v\<rbrakk> \<Longrightarrow>
   fst (queue_run put get ops s) = fst (list_run (cap s) ops (items s)) \<and>
   items (snd (queue_run put get ops s)) = snd (list_run (cap s) ops (items s)) \<and> inv (snd (queue_run put get ops s))"
proof (induction ops arbitrary: s)
  case (Cons a ops)
  show ?case
  proof (cases a)
    case (Enqueue v)
    have v: "fits s v" "\<forall>v. Enqueue v \<in> set ops \<longrightarrow> fits s v" using Cons.prems(2) Enqueue by auto
    show ?thesis
    proof (cases "length (items s) = cap s")
      case True
      then show ?thesis using put_full [OF Cons.prems(1) v(1)] Cons.IH [OF Cons.prems(1) v(2)] Enqueue by simp
    next
      case False
      then have r: "length (items s) < cap s" using bounded [OF Cons.prems(1)] by simp
      obtain s1 where "put v s = Some s1" "inv s1" "items s1 = items s @ [v]" "cap s1 = cap s" "fits s1 = fits s"
        using put_room [OF Cons.prems(1) v(1) r] by blast
      then show ?thesis using Cons.IH [of s1] v(2) Enqueue r by simp
    qed
  next
    case Dequeue
    have p: "\<forall>v. Enqueue v \<in> set ops \<longrightarrow> fits s v" using Cons.prems(2) by auto
    show ?thesis
    proof (cases "items s")
      case Nil
      then show ?thesis using get_empty [OF Cons.prems(1) Nil] Cons.IH [OF Cons.prems(1) p] Dequeue by simp
    next
      case (Cons v vs)
      obtain s1 where "get s = Some (v, s1)" "inv s1" "items s1 = vs" "cap s1 = cap s" "fits s1 = fits s"
        using get_item [OF Cons.prems(1) Cons] by blast
      then show ?thesis using Cons.IH [of s1] p Dequeue Cons by simp
    qed
  qed
qed simp

end

subsection \<open>The time that is left\<close>

text \<open>
  A thread that is resumed and finds nothing waits again, for the time it has not used up. \<open>d\<close> is the
  number of ticks it has waited; the subtraction is in 32 bits, the test is on the signed value.
\<close>

definition time_left :: "int \<Rightarrow> tick \<Rightarrow> int" where
  "time_left timeout d =
     (if 0 < timeout then let left = sint (word_of_int timeout - d :: tick) in if left < 0 then 0 else left
      else timeout)"

lemma time_left_forever [simp]: "time_left timeout d = timeout" if "timeout \<le> 0"
  using that by (simp add: time_left_def)

lemma time_left_nat:
  assumes "0 < timeout" "timeout < 2 ^ 31" "uint d < 2 ^ 31"
  shows "time_left timeout d = max 0 (timeout - uint d)"
proof -
  have "uint (word_of_int timeout :: tick) = timeout" using assms by (simp add: uint_word_of_int)
  then have t: "sint (word_of_int timeout :: tick) = timeout"
    using assms(1,2) by (simp add: sint_uint signed_take_bit_int_eq_self)
  have "signed_take_bit 31 (uint d) = uint d"
    by (rule signed_take_bit_int_eq_self) (use assms(3) uint_ge_0 [of d] in linarith)+
  then have d: "sint d = uint d" by (simp add: sint_uint)
  have "sint (word_of_int timeout - d) = signed_take_bit 31 (timeout - uint d)"
    using t d sint_word_ariths(2) [of "word_of_int timeout :: tick" d] by simp
  moreover have "signed_take_bit 31 (timeout - uint d) = timeout - uint d"
    by (rule signed_take_bit_int_eq_self) (use assms uint_ge_0 [of d] in linarith)+
  ultimately show ?thesis using assms(1) by (simp add: time_left_def)
qed

text \<open>Waiting again does not move the deadline.\<close>

lemma time_left_deadline:
  assumes "0 < timeout" "timeout < 2 ^ 31" "uint (now - start) < timeout"
  shows "now + word_of_int (time_left timeout (now - start)) = start + word_of_int timeout"
proof -
  have "time_left timeout (now - start) = timeout - uint (now - start)"
    using time_left_nat [of timeout "now - start"] assms by simp
  moreover have "word_of_int (uint (now - start)) = now - start" by simp
  ultimately have "word_of_int (time_left timeout (now - start)) = word_of_int timeout - (now - start)"
    by (metis of_int_diff)
  then show ?thesis by simp
qed

lemma time_left_small: "timeout < 2 ^ 31 - 1 \<Longrightarrow> uint d < 2 ^ 31 \<Longrightarrow> time_left timeout d < 2 ^ 31 - 1"
  using time_left_nat [of timeout d] uint_ge_0 [of d] by (cases "0 < timeout") (linarith, simp)

subsection \<open>Senders and receivers\<close>

lemma ipc_object_init_objects [simp]:
  fixes k :: "'a ipc_scheme"
  shows "mailboxes (snd (rt_ipc_object_init l k)) = mailboxes k" "mqs (snd (rt_ipc_object_init l k)) = mqs k"
    "ipc_flag n (snd (rt_ipc_object_init l k)) = ipc_flag n k"
  by (simp_all add: rt_ipc_object_init_def ipc_flag_def)

lemma registered_objects [simp]:
  fixes k :: "'a ipc_scheme"
  shows "mailboxes (registered ty r name k) = mailboxes k" "mqs (registered ty r name k) = mqs k"
  by (simp_all add: registered_def container_insert_def upd_obj_def)

definition waiters :: "nat \<Rightarrow> 'a kernel_scheme \<Rightarrow> tid set" where
  "waiters n k = set (tlists k (SuspendQ n)) \<union> set (tlists k (SenderQ n))"

text \<open>Detaching, deleting and resetting let both queues go, with an error.\<close>

lemma resume_both:
  assumes k: "kinv k"
  shows "\<exists>k1 k2. rt_ipc_list_resume_all (SuspendQ n) k = Some (RT_EOK, k1) \<and>
    rt_ipc_list_resume_all (SenderQ n) k1 = Some (RT_EOK, k2) \<and> kinv k2 \<and> ipc_frame k k2 \<and>
    rt_current_thread k2 = rt_current_thread k \<and> tlists k2 (SuspendQ n) = [] \<and> tlists k2 (SenderQ n) = [] \<and>
    (\<forall>u. runnable (state_of k2 u) \<longleftrightarrow> runnable (state_of k u) \<or> u \<in> waiters n k) \<and>
    (\<forall>u. error (thr k2 u) = (if u \<in> waiters n k then - RT_ERROR else error (thr k u)))"
proof -
  obtain k1 where r: "rt_ipc_list_resume_all (SuspendQ n) k = Some (RT_EOK, k1)" "kinv k1"
    "rt_current_thread k1 = rt_current_thread k" "tlists k1 (SuspendQ n) = []"
    "wakes (SuspendQ n) (set (tlists k (SuspendQ n))) k k1"
    "\<forall>u. error (thr k1 u) = (if u \<in> set (tlists k (SuspendQ n)) then - RT_ERROR else error (thr k u))"
    using rt_ipc_list_resume_all_kinv [OF k waiting_list_simps(1) refl, of n] by blast
  obtain k2 where q: "rt_ipc_list_resume_all (SenderQ n) k1 = Some (RT_EOK, k2)" "kinv k2"
    "rt_current_thread k2 = rt_current_thread k1" "tlists k2 (SenderQ n) = []"
    "wakes (SenderQ n) (set (tlists k1 (SenderQ n))) k1 k2"
    "\<forall>u. error (thr k2 u) = (if u \<in> set (tlists k1 (SenderQ n)) then - RT_ERROR else error (thr k1 u))"
    using rt_ipc_list_resume_all_kinv [OF r(2) waiting_list_simps(2) refl, of n] by blast
  have s1: "tlists k1 (SenderQ n) = tlists k (SenderQ n)" using wakes_other [OF r(5), of "SenderQ n"] by simp
  have "tlists k2 (SuspendQ n) = []" using wakes_other [OF q(5), of "SuspendQ n"] r(4) by simp
  moreover have "ipc_frame k k2" by (rule ipc_frame_trans [OF wakes_frame [OF r(5)] wakes_frame [OF q(5)]])
  moreover have "runnable (state_of k2 u) \<longleftrightarrow> runnable (state_of k u) \<or> u \<in> waiters n k" for u
    using wakes_runnable [OF r(5), of u] wakes_runnable [OF q(5), of u] s1 by (simp add: waiters_def)
  moreover have "error (thr k2 u) = (if u \<in> waiters n k then - RT_ERROR else error (thr k u))" for u
    using r(6) q(6) s1 by (simp add: waiters_def)
  ultimately show ?thesis using r(1,3) q(1-4) by simp
qed

lemma detach_dissolved:
  assumes f: "ipc_frame k k2"
    and r: "\<And>u. runnable (state_of k2 u) \<longleftrightarrow> runnable (state_of k u) \<or> u \<in> T"
    and e: "\<And>u. error (thr k2 u) = (if u \<in> T then - RT_ERROR else error (thr k u))"
  shows "dissolved n T k (rt_object_detach (Obj_ipc n) k2)"
proof -
  have "objects k2 = objects k" using f by (simp add: ipc_frame_def)
  then show ?thesis using r e by (auto simp: dissolved_def)
qed

text \<open>The calling thread waits, for \<open>timeout\<close> ticks when that is positive.\<close>

lemma block_self:
  assumes k: "kinv k" and fl: "ipc_flag n k = RT_IPC_FLAG_FIFO \<or> ipc_flag n k = RT_IPC_FLAG_PRIO"
    and c: "caller t k" and w: "waiting_list l" and time: "timeout < 2 ^ 31 - 1"
  shows "\<exists>k'. ipc_wait l t (ipc_flag n k) timeout (upd_thr t (set_error RT_EOK) k) = Some k' \<and> kinv k' \<and>
    rt_current_thread k' \<noteq> None \<and> ipc_frame k k' \<and> state_of k' t = RT_THREAD_SUSPEND \<and>
    tlists k' l = queued (ipc_flag n k) (prio_of k) t (tlists k l) \<and> error (thr k' t) = RT_EOK \<and>
    (Thread_timer t \<in> set (rt_timer_list k') \<longleftrightarrow> 0 < timeout) \<and>
    (0 < timeout \<longrightarrow> expiry k' (Thread_timer t) = rt_tick k + word_of_int timeout)"
proof -
  let ?k = "upd_thr t (set_error RT_EOK) k"
  have "kinv ?k" "rt_current_thread ?k = Some t" "state_of ?k t = RT_THREAD_RUNNING"
    using k c by (simp_all add: caller_def)
  from ipc_wait_kinv [OF this w fl time] obtain k' where i: "ipc_wait l t (ipc_flag n k) timeout ?k = Some k'" "kinv k'"
    "rt_current_thread k' \<noteq> None" "state_of k' t = RT_THREAD_SUSPEND"
    "tlists k' l = queued (ipc_flag n k) (prio_of ?k) t (tlists ?k l)" "waits l t ?k k'"
    "Thread_timer t \<in> set (rt_timer_list k') \<longleftrightarrow> 0 < timeout"
    "0 < timeout \<longrightarrow> expiry k' (Thread_timer t) = rt_tick ?k + word_of_int timeout" by blast
  have "ipc_frame k k'" by (rule ipc_frame_trans [OF set_error_ipc waits_frame [OF i(6)]])
  moreover have "tlists k' l = queued (ipc_flag n k) (prio_of k) t (tlists k l)" using i(5) unfolding prio_set_error by simp
  ultimately show ?thesis using i waits_error [OF i(6), of t] by simp
qed

text \<open>Letting the first waiter go, if there is one.\<close>

lemma wake_first:
  assumes k: "kinv k" and c: "rt_current_thread k \<noteq> None" and w: "waiting_list l"
  shows "\<exists>k'. (if tlists k l \<noteq> [] then ipc_wake l k else Some k) = Some k' \<and> kinv k' \<and>
    rt_current_thread k' \<noteq> None \<and> ipc_frame k k' \<and> tlists k' l = drop 1 (tlists k l) \<and>
    (\<forall>l'. waiting_list l' \<and> l' \<noteq> l \<longrightarrow> tlists k' l' = tlists k l') \<and>
    (\<forall>u. runnable (state_of k' u) \<longleftrightarrow> runnable (state_of k u) \<or> u \<in> set (take 1 (tlists k l))) \<and>
    (\<forall>u. error (thr k' u) = error (thr k u))"
proof (cases "tlists k l")
  case Nil
  then show ?thesis using k c by simp
next
  case (Cons t ts)
  obtain k' where i: "ipc_wake l k = Some k'" "kinv k'" "rt_current_thread k' \<noteq> None" "tlists k' l = ts" "wakes l {t} k k'"
    "\<forall>u. error (thr k' u) = error (thr k u)" using ipc_wake_kinv [OF k c w Cons] by blast
  show ?thesis
    using i Cons wakes_frame [OF i(5)] wakes_other [OF i(5)] wakes_runnable [OF i(5)]
    by (intro exI [of _ k']) simp
qed

end
