(* ===== verification/Mailbox.thy ===== *)
theory Mailbox
  imports Handover
begin

text \<open>
  Mailboxes (\<^verbatim>\<open>src/ipc.c\<close>, \<open>rt_mb_*\<close>): a ring of words, threads that wait for mail and threads
  that wait for room. The ring holds a list, first in first out; a thread that has to wait again
  keeps its deadline.
\<close>

subsection \<open>The ring\<close>

text \<open>An access outside of the pool is \<open>None\<close>.\<close>

definition mb_put :: "u32 \<Rightarrow> rt_mailbox \<Rightarrow> rt_mailbox option" where
  "mb_put value mb =
     (if unat (in_offset mb) < length (mb_pool mb) then
        Some (mb\<lparr>mb_pool := (mb_pool mb)[unat (in_offset mb) := value],
          in_offset := (if mb_size mb \<le> in_offset mb + 1 then 0 else in_offset mb + 1),
          mb_entry := mb_entry mb + 1\<rparr>)
      else None)"

definition mb_get :: "rt_mailbox \<Rightarrow> (u32 \<times> rt_mailbox) option" where
  "mb_get mb =
     (if unat (out_offset mb) < length (mb_pool mb) then
        Some (mb_pool mb ! unat (out_offset mb),
          mb\<lparr>out_offset := (if mb_size mb \<le> out_offset mb + 1 then 0 else out_offset mb + 1),
            mb_entry := mb_entry mb - 1\<rparr>)
      else None)"

definition mb_reset :: "rt_mailbox \<Rightarrow> rt_mailbox" where
  "mb_reset mb = mb\<lparr>mb_entry := 0, in_offset := 0, out_offset := 0\<rparr>"

subsection \<open>Operations\<close>

definition rt_mb_init ::
  "nat \<Rightarrow> string \<Rightarrow> u32 list \<Rightarrow> u32 \<Rightarrow> u8 \<Rightarrow> 'a ipc_scheme \<Rightarrow> (int \<times> 'a ipc_scheme) option" where
  "rt_mb_init n name msgpool sz flag k = do {
     k \<leftarrow> rt_object_init (Obj_ipc n) RT_Object_Class_MailBox name k;
     let k = set_ipc_flag n flag k;
     let k = snd (rt_ipc_object_init (SuspendQ n) k);
     let k = upd_mb n (\<lambda>mb. mb_reset (mb\<lparr>mb_pool := msgpool, mb_size := ucast sz\<rparr>)) k;
     Some (RT_EOK, snd (rt_ipc_object_init (SenderQ n) k)) }"

definition rt_mb_detach :: "nat \<Rightarrow> 'a ipc_scheme \<Rightarrow> (int \<times> 'a ipc_scheme) option" where
  "rt_mb_detach n k = do {
     rt_assert (rt_object_get_type (Obj_ipc n) k = RT_Object_Class_MailBox);
     rt_assert (rt_object_is_systemobject (Obj_ipc n) k);
     (_, k) \<leftarrow> rt_ipc_list_resume_all (SuspendQ n) k;
     (_, k) \<leftarrow> rt_ipc_list_resume_all (SenderQ n) k;
     Some (RT_EOK, rt_object_detach (Obj_ipc n) k) }"

text \<open>Both allocations are arguments: the object, and the pool with whatever the memory holds.\<close>

definition rt_mb_create ::
  "string \<Rightarrow> u32 \<Rightarrow> u8 \<Rightarrow> nat option \<Rightarrow> u32 list option \<Rightarrow> 'a ipc_scheme \<Rightarrow> (nat option \<times> 'a ipc_scheme) option" where
  "rt_mb_create name sz flag malloc pool k = do {
     RT_DEBUG_NOT_IN_INTERRUPT k;
     (_, k) \<leftarrow> rt_object_allocate RT_Object_Class_MailBox name (map_option Obj_ipc malloc) k;
     case malloc of None \<Rightarrow> Some (None, k)
     | Some n \<Rightarrow> do {
         let k = snd (rt_ipc_object_init (SuspendQ n) (set_ipc_flag n flag k));
         let k = upd_mb n (\<lambda>mb. mb\<lparr>mb_size := ucast sz\<rparr>) k;
         case pool of
           None \<Rightarrow> do { k \<leftarrow> rt_object_delete (Obj_ipc n) k; Some (None, k) }
         | Some p \<Rightarrow>
             let k = upd_mb n (\<lambda>mb. mb_reset (mb\<lparr>mb_pool := p\<rparr>)) k
             in Some (Some n, snd (rt_ipc_object_init (SenderQ n) k)) } }"

definition rt_mb_delete :: "nat \<Rightarrow> 'a ipc_scheme \<Rightarrow> (int \<times> 'a ipc_scheme) option" where
  "rt_mb_delete n k = do {
     RT_DEBUG_NOT_IN_INTERRUPT k;
     rt_assert (rt_object_get_type (Obj_ipc n) k = RT_Object_Class_MailBox);
     rt_assert (\<not> rt_object_is_systemobject (Obj_ipc n) k);
     (_, k) \<leftarrow> rt_ipc_list_resume_all (SuspendQ n) k;
     (_, k) \<leftarrow> rt_ipc_list_resume_all (SenderQ n) k;
     k \<leftarrow> rt_object_delete (Obj_ipc n) k;
     Some (RT_EOK, k) }"

text \<open>
  From the test of the \<open>while\<close> loop on. A thread that blocks keeps itself, the tick it began to wait
  at and its timeout.
\<close>

definition mb_send_loop ::
  "nat \<Rightarrow> u32 \<Rightarrow> tid option \<Rightarrow> tick \<Rightarrow> int \<Rightarrow> 'a ipc_scheme \<Rightarrow>
    ((int, tid \<times> tick \<times> int) outcome \<times> 'a ipc_scheme) option" where
  "mb_send_loop n value thread tick_delta timeout k =
     (if mb_entry (mailboxes k n) = mb_size (mailboxes k n) then do {
        t \<leftarrow> thread;
        let k = upd_thr t (set_error RT_EOK) k;
        if timeout = 0 then Some (Returns (- RT_EFULL), k)
        else do {
          RT_DEBUG_IN_THREAD_CONTEXT k;
          k' \<leftarrow> ipc_wait (SenderQ n) t (ipc_flag n k) timeout k;
          Some (Blocks (t, if 0 < timeout then rt_tick_get k else tick_delta, timeout), k') } }
      else do {
        mb \<leftarrow> mb_put value (mailboxes k n);
        let k = upd_mb n (\<lambda>_. mb) k;
        k \<leftarrow> (if tlists k (SuspendQ n) \<noteq> [] then ipc_wake (SuspendQ n) k else Some k);
        Some (Returns RT_EOK, k) })"

definition rt_mb_send_wait ::
  "nat \<Rightarrow> u32 \<Rightarrow> int \<Rightarrow> 'a ipc_scheme \<Rightarrow> ((int, tid \<times> tick \<times> int) outcome \<times> 'a ipc_scheme) option" where
  "rt_mb_send_wait n value timeout k = do {
     rt_assert (rt_object_get_type (Obj_ipc n) k = RT_Object_Class_MailBox);
     if mb_entry (mailboxes k n) = mb_size (mailboxes k n) \<and> timeout = 0 then Some (Returns (- RT_EFULL), k)
     else mb_send_loop n value (rt_thread_self k) 0 timeout k }"

definition rt_mb_send_wait_resumed ::
  "nat \<Rightarrow> u32 \<Rightarrow> tid \<times> tick \<times> int \<Rightarrow> 'a ipc_scheme \<Rightarrow> ((int, tid \<times> tick \<times> int) outcome \<times> 'a ipc_scheme) option" where
  "rt_mb_send_wait_resumed n value w k = (case w of (t, tick_delta, timeout) \<Rightarrow>
     if error (thr k t) \<noteq> RT_EOK then Some (Returns (error (thr k t)), k)
     else mb_send_loop n value (Some t) (if 0 < timeout then rt_tick_get k - tick_delta else tick_delta)
       (time_left timeout (rt_tick_get k - tick_delta)) k)"

definition rt_mb_send :: "nat \<Rightarrow> u32 \<Rightarrow> 'a ipc_scheme \<Rightarrow> ((int, tid \<times> tick \<times> int) outcome \<times> 'a ipc_scheme) option" where
  "rt_mb_send n value k = rt_mb_send_wait n value 0 k"

definition mb_recv_loop ::
  "nat \<Rightarrow> tid option \<Rightarrow> tick \<Rightarrow> int \<Rightarrow> 'a ipc_scheme \<Rightarrow>
    ((int \<times> u32 option, tid \<times> tick \<times> int) outcome \<times> 'a ipc_scheme) option" where
  "mb_recv_loop n thread tick_delta timeout k =
     (if mb_entry (mailboxes k n) = 0 then do {
        t \<leftarrow> thread;
        let k = upd_thr t (set_error RT_EOK) k;
        if timeout = 0 then Some (Returns (- RT_ETIMEOUT, None), upd_thr t (set_error (- RT_ETIMEOUT)) k)
        else do {
          RT_DEBUG_IN_THREAD_CONTEXT k;
          k' \<leftarrow> ipc_wait (SuspendQ n) t (ipc_flag n k) timeout k;
          Some (Blocks (t, if 0 < timeout then rt_tick_get k else tick_delta, timeout), k') } }
      else do {
        (value, mb) \<leftarrow> mb_get (mailboxes k n);
        let k = upd_mb n (\<lambda>_. mb) k;
        k \<leftarrow> (if tlists k (SenderQ n) \<noteq> [] then ipc_wake (SenderQ n) k else Some k);
        Some (Returns (RT_EOK, Some value), k) })"

definition rt_mb_recv ::
  "nat \<Rightarrow> int \<Rightarrow> 'a ipc_scheme \<Rightarrow> ((int \<times> u32 option, tid \<times> tick \<times> int) outcome \<times> 'a ipc_scheme) option" where
  "rt_mb_recv n timeout k = do {
     rt_assert (rt_object_get_type (Obj_ipc n) k = RT_Object_Class_MailBox);
     if mb_entry (mailboxes k n) = 0 \<and> timeout = 0 then Some (Returns (- RT_ETIMEOUT, None), k)
     else mb_recv_loop n (rt_thread_self k) 0 timeout k }"

definition rt_mb_recv_resumed ::
  "nat \<Rightarrow> tid \<times> tick \<times> int \<Rightarrow> 'a ipc_scheme \<Rightarrow>
    ((int \<times> u32 option, tid \<times> tick \<times> int) outcome \<times> 'a ipc_scheme) option" where
  "rt_mb_recv_resumed n w k = (case w of (t, tick_delta, timeout) \<Rightarrow>
     if error (thr k t) \<noteq> RT_EOK then Some (Returns (error (thr k t), None), k)
     else mb_recv_loop n (Some t) (if 0 < timeout then rt_tick_get k - tick_delta else tick_delta)
       (time_left timeout (rt_tick_get k - tick_delta)) k)"

definition rt_mb_control :: "nat \<Rightarrow> int \<Rightarrow> 'a ipc_scheme \<Rightarrow> (int \<times> 'a ipc_scheme) option" where
  "rt_mb_control n cmd k = do {
     rt_assert (rt_object_get_type (Obj_ipc n) k = RT_Object_Class_MailBox);
     if cmd = RT_IPC_CMD_RESET then do {
       (_, k) \<leftarrow> rt_ipc_list_resume_all (SuspendQ n) k;
       (_, k) \<leftarrow> rt_ipc_list_resume_all (SenderQ n) k;
       k \<leftarrow> rt_schedule (upd_mb n mb_reset k);
       Some (RT_EOK, k) }
     else Some (- RT_ERROR, k) }"

subsection \<open>The ring holds a list\<close>

definition mb_ring_ok :: "rt_mailbox \<Rightarrow> bool" where
  "mb_ring_ok mb \<longleftrightarrow> length (mb_pool mb) = unat (mb_size mb) \<and> 0 < mb_size mb \<and>
     out_offset mb < mb_size mb \<and> mb_entry mb \<le> mb_size mb \<and>
     unat (in_offset mb) = (unat (out_offset mb) + unat (mb_entry mb)) mod unat (mb_size mb)"

definition mb_items :: "rt_mailbox \<Rightarrow> u32 list" where
  "mb_items mb = map (\<lambda>i. mb_pool mb ! ((unat (out_offset mb) + i) mod unat (mb_size mb))) [0..<unat (mb_entry mb)]"

lemma length_mb_items [simp]: "length (mb_items mb) = unat (mb_entry mb)"
  by (simp add: mb_items_def)

lemma unat_Suc16_less:
  fixes i s :: u16
  assumes "unat i < unat s"
  shows "unat (i + 1) = Suc (unat i)"
proof (rule unat_Suc16)
  have "unat s < 2 ^ 16" using unsigned_less [where 'a = nat, of s] by simp
  then show "i \<noteq> 0xffff" using assms by auto
qed

lemma step_wrap:
  fixes i s :: u16
  assumes "i < s"
  shows "unat (if s \<le> i + 1 then 0 else i + 1) = Suc (unat i) mod unat s"
    "(if s \<le> i + 1 then 0 else i + 1) < s"
proof -
  have i: "unat (i + 1) = Suc (unat i)" using assms by (intro unat_Suc16_less) (simp add: word_less_nat_alt)
  have "unat i < unat s" using assms by (simp add: word_less_nat_alt)
  moreover have "s \<le> i + 1 \<longleftrightarrow> unat s \<le> Suc (unat i)" by (simp add: word_le_nat_alt i)
  ultimately show "unat (if s \<le> i + 1 then 0 else i + 1) = Suc (unat i) mod unat s"
    by (cases "Suc (unat i) = unat s") (auto simp: i)
  show "(if s \<le> i + 1 then 0 else i + 1) < s"
    using assms \<open>unat i < unat s\<close> by (auto simp: word_less_nat_alt word_le_nat_alt)
qed

lemma mod_add_inj:
  fixes i :: nat
  assumes "i < n" "j < n" "(a + i) mod n = (a + j) mod n"
  shows "i = j"
proof -
  have le: "i = j" if "i \<le> j" "j < n" "(a + j) mod n = (a + i) mod n" for i j
  proof -
    have "n dvd (a + j) - (a + i)" using that by (subst mod_eq_dvd_iff_nat [symmetric]) simp_all
    then have "n dvd j - i" by simp
    then show ?thesis using that by (auto dest: dvd_imp_le)
  qed
  show ?thesis using le [of i j] le [of j i] assms by (cases "i \<le> j") auto
qed

lemma mb_put_items:
  assumes ok: "mb_ring_ok mb" and r: "mb_entry mb \<noteq> mb_size mb"
  shows "\<exists>mb'. mb_put v mb = Some mb' \<and> mb_ring_ok mb' \<and> mb_items mb' = mb_items mb @ [v] \<and> mb_size mb' = mb_size mb"
proof -
  let ?s = "unat (mb_size mb)" and ?o = "unat (out_offset mb)" and ?e = "unat (mb_entry mb)"
  have w: "length (mb_pool mb) = ?s" "0 < ?s" "?o < ?s" "?e < ?s" "unat (in_offset mb) = (?o + ?e) mod ?s"
    using ok r by (simp_all add: mb_ring_ok_def word_less_nat_alt word_le_nat_alt unat_eq_zero)
      (metis le_neq_implies_less word_unat_eq_iff)
  have i: "in_offset mb < mb_size mb" using w(2,5) by (simp add: word_less_nat_alt)
  have e: "unat (mb_entry mb + 1) = Suc ?e" using w(4) by (rule unat_Suc16_less)
  have ne: "(?o + ?e) mod ?s \<noteq> (?o + i) mod ?s" if "i < ?e" for i
    using mod_add_inj [of i ?s ?e ?o] that w(4) by auto
  define mb' where "mb' = mb\<lparr>mb_pool := (mb_pool mb)[unat (in_offset mb) := v],
    in_offset := (if mb_size mb \<le> in_offset mb + 1 then 0 else in_offset mb + 1), mb_entry := mb_entry mb + 1\<rparr>"
  have "mb_put v mb = Some mb'" using w i by (simp add: mb_put_def mb'_def word_less_nat_alt)
  moreover have "mb_items mb' = mb_items mb @ [v]"
    using w by (auto simp: mb_items_def mb'_def e nth_list_update dest: ne)
  moreover have "mb_ring_ok mb'"
    using w e step_wrap(1) [OF i] ok by (simp add: mb_ring_ok_def mb'_def mod_Suc_eq word_le_nat_alt)
  ultimately show ?thesis by (auto simp: mb'_def)
qed

lemma mb_get_items:
  assumes ok: "mb_ring_ok mb" and r: "mb_entry mb \<noteq> 0"
  shows "\<exists>v mb'. mb_get mb = Some (v, mb') \<and> mb_ring_ok mb' \<and> mb_items mb = v # mb_items mb' \<and> mb_size mb' = mb_size mb"
proof -
  let ?s = "unat (mb_size mb)" and ?o = "unat (out_offset mb)" and ?e = "unat (mb_entry mb)"
  have w: "length (mb_pool mb) = ?s" "0 < ?s" "?o < ?s" "?e \<le> ?s" "unat (in_offset mb) = (?o + ?e) mod ?s"
    using ok by (simp_all add: mb_ring_ok_def word_less_nat_alt word_le_nat_alt)
  obtain e where e: "?e = Suc e" using r by (metis not0_implies_Suc unat_eq_zero)
  have e1: "unat (mb_entry mb - 1) = e" using e r by (simp add: unat_minus_one)
  have o: "out_offset mb < mb_size mb" and s0: "0 < mb_size mb" using ok by (simp_all add: mb_ring_ok_def)
  define mb' where "mb' = mb\<lparr>out_offset := (if mb_size mb \<le> out_offset mb + 1 then 0 else out_offset mb + 1),
    mb_entry := mb_entry mb - 1\<rparr>"
  have o1: "unat (out_offset mb') = Suc ?o mod ?s" "out_offset mb' < mb_size mb" using step_wrap [OF o] by (simp_all add: mb'_def)
  have "mb_get mb = Some (mb_pool mb ! ?o, mb')" using w by (simp add: mb_get_def mb'_def)
  moreover have "(Suc ?o mod ?s + i) mod ?s = (?o + Suc i) mod ?s" for i by (simp add: mod_simps)
  then have "mb_items mb = (mb_pool mb ! ?o) # mb_items mb'"
    using w o1 e e1 unfolding mb_items_def by (simp add: upt_conv_Cons map_Suc_upt [symmetric] mb'_def del: upt_Suc)
  moreover have "mb_ring_ok mb'"
    using w o1 e e1 s0 by (simp add: mb_ring_ok_def mb'_def word_le_nat_alt mod_simps)
  ultimately show ?thesis by (auto simp: mb'_def)
qed

lemma mb_reset_items: "length (mb_pool mb) = unat (mb_size mb) \<Longrightarrow> 0 < mb_size mb \<Longrightarrow>
  mb_ring_ok (mb_reset mb) \<and> mb_items (mb_reset mb) = []"
  by (simp add: mb_ring_ok_def mb_reset_def mb_items_def)

subsection \<open>Sending and receiving\<close>

definition mb_ok :: "nat \<Rightarrow> 'a ipc_scheme \<Rightarrow> bool" where
  "mb_ok n k \<longleftrightarrow> ipc_inv k \<and> rt_object_get_type (Obj_ipc n) k = RT_Object_Class_MailBox \<and>
     (ipc_flag n k = RT_IPC_FLAG_FIFO \<or> ipc_flag n k = RT_IPC_FLAG_PRIO) \<and> mb_ring_ok (mailboxes k n)"

definition mb_mail :: "nat \<Rightarrow> 'a ipc_scheme \<Rightarrow> u32 list" where
  "mb_mail n k = mb_items (mailboxes k n)"

definition mb_room :: "nat \<Rightarrow> 'a ipc_scheme \<Rightarrow> nat" where
  "mb_room n k = unat (mb_size (mailboxes k n))"

lemma mb_okD:
  assumes "mb_ok n k"
  shows "kinv k" "rt_current_thread k \<noteq> None" "rt_object_get_type (Obj_ipc n) k = RT_Object_Class_MailBox"
    "ipc_flag n k = RT_IPC_FLAG_FIFO \<or> ipc_flag n k = RT_IPC_FLAG_PRIO" "mb_ring_ok (mailboxes k n)"
  using assms by (auto simp: mb_ok_def ipc_inv_def)

lemma mb_ok_frame:
  assumes "mb_ok n k" "kinv k'" "rt_current_thread k' \<noteq> None" "ipc_frame k k'"
  shows "mb_ok n k'" "mb_mail n k' = mb_mail n k" "mb_room n k' = mb_room n k"
  using assms ipc_frame_obj [OF assms(4)] frame_objects(4) [OF assms(4)]
  by (simp_all add: mb_ok_def ipc_inv_def mb_mail_def mb_room_def)

lemma mb_full: "mb_entry (mailboxes k n) = mb_size (mailboxes k n) \<longleftrightarrow> length (mb_mail n k) = mb_room n k"
  and mb_empty: "mb_entry (mailboxes k n) = 0 \<longleftrightarrow> mb_mail n k = []"
proof -
  show "mb_entry (mailboxes k n) = mb_size (mailboxes k n) \<longleftrightarrow> length (mb_mail n k) = mb_room n k"
    by (simp add: mb_mail_def mb_room_def word_unat_eq_iff)
  have "mb_mail n k = [] \<longleftrightarrow> length (mb_mail n k) = 0" by simp
  then show "mb_entry (mailboxes k n) = 0 \<longleftrightarrow> mb_mail n k = []" by (simp add: mb_mail_def unat_eq_zero)
qed

lemma mb_bounded: "mb_ok n k \<Longrightarrow> length (mb_mail n k) \<le> mb_room n k"
  by (simp add: mb_ok_def mb_mail_def mb_room_def mb_ring_ok_def word_le_nat_alt)

text \<open>When there is room a letter goes behind the others and the first receiver is let go.\<close>

lemma upd_mb_ok:
  assumes "mb_ok n k" "mb_ring_ok mb"
  shows "mb_ok n (upd_mb n (\<lambda>_. mb) k)" "mb_mail n (upd_mb n (\<lambda>_. mb) k) = mb_items mb"
    "mb_room n (upd_mb n (\<lambda>_. mb) k) = unat (mb_size mb)"
  using assms by (simp_all add: mb_ok_def mb_mail_def mb_room_def)

lemma mb_send_loop_stores:
  assumes ok: "mb_ok n k" and r: "length (mb_mail n k) < mb_room n k"
  shows "\<exists>k'. mb_send_loop n v self d timeout k = Some (Returns RT_EOK, k') \<and> mb_ok n k' \<and>
    mb_mail n k' = mb_mail n k @ [v] \<and> mb_room n k' = mb_room n k \<and>
    tlists k' (SuspendQ n) = drop 1 (tlists k (SuspendQ n)) \<and> tlists k' (SenderQ n) = tlists k (SenderQ n) \<and>
    (\<forall>u. runnable (state_of k' u) \<longleftrightarrow> runnable (state_of k u) \<or> u \<in> set (take 1 (tlists k (SuspendQ n)))) \<and>
    (\<forall>u. error (thr k' u) = error (thr k u))"
proof -
  have nf: "mb_entry (mailboxes k n) \<noteq> mb_size (mailboxes k n)" using r mb_full [where n = n and k = k] by simp
  obtain mb where mb: "mb_put v (mailboxes k n) = Some mb" "mb_ring_ok mb" "mb_items mb = mb_mail n k @ [v]"
    "unat (mb_size mb) = mb_room n k"
    using mb_put_items [OF mb_okD(5) [OF ok] nf, of v] by (auto simp: mb_mail_def mb_room_def)
  let ?k = "upd_mb n (\<lambda>_. mb) k"
  note u = upd_mb_ok [OF ok mb(2)]
  obtain k' where w: "(if tlists ?k (SuspendQ n) \<noteq> [] then ipc_wake (SuspendQ n) ?k else Some ?k) = Some k'" "kinv k'"
    "rt_current_thread k' \<noteq> None" "ipc_frame ?k k'" "tlists k' (SuspendQ n) = drop 1 (tlists ?k (SuspendQ n))"
    "\<forall>l'. waiting_list l' \<and> l' \<noteq> SuspendQ n \<longrightarrow> tlists k' l' = tlists ?k l'"
    "\<forall>u. runnable (state_of k' u) \<longleftrightarrow> runnable (state_of ?k u) \<or> u \<in> set (take 1 (tlists ?k (SuspendQ n)))"
    "\<forall>u. error (thr k' u) = error (thr ?k u)"
    using wake_first [OF mb_okD(1,2) [OF u(1)] waiting_list_simps(1), of n] by blast
  note f = mb_ok_frame [OF u(1) w(2-4)]
  have "mb_send_loop n v self d timeout k = Some (Returns RT_EOK, k')"
    using nf mb(1) w(1) by (simp add: mb_send_loop_def split: if_splits)
  then show ?thesis using w(5-8) f u(2,3) mb(3,4) by simp
qed

lemma mb_recv_loop_takes:
  assumes ok: "mb_ok n k" and r: "mb_mail n k = v # vs"
  shows "\<exists>k'. mb_recv_loop n self d timeout k = Some (Returns (RT_EOK, Some v), k') \<and> mb_ok n k' \<and>
    mb_mail n k' = vs \<and> mb_room n k' = mb_room n k \<and>
    tlists k' (SenderQ n) = drop 1 (tlists k (SenderQ n)) \<and> tlists k' (SuspendQ n) = tlists k (SuspendQ n) \<and>
    (\<forall>u. runnable (state_of k' u) \<longleftrightarrow> runnable (state_of k u) \<or> u \<in> set (take 1 (tlists k (SenderQ n)))) \<and>
    (\<forall>u. error (thr k' u) = error (thr k u))"
proof -
  have ne: "mb_entry (mailboxes k n) \<noteq> 0" using r mb_empty [where n = n and k = k] by simp
  obtain mb where mb: "mb_get (mailboxes k n) = Some (v, mb)" "mb_ring_ok mb" "mb_items mb = vs"
    "unat (mb_size mb) = mb_room n k"
    using mb_get_items [OF mb_okD(5) [OF ok] ne] r by (auto simp: mb_mail_def mb_room_def)
  let ?k = "upd_mb n (\<lambda>_. mb) k"
  note u = upd_mb_ok [OF ok mb(2)]
  obtain k' where w: "(if tlists ?k (SenderQ n) \<noteq> [] then ipc_wake (SenderQ n) ?k else Some ?k) = Some k'" "kinv k'"
    "rt_current_thread k' \<noteq> None" "ipc_frame ?k k'" "tlists k' (SenderQ n) = drop 1 (tlists ?k (SenderQ n))"
    "\<forall>l'. waiting_list l' \<and> l' \<noteq> SenderQ n \<longrightarrow> tlists k' l' = tlists ?k l'"
    "\<forall>u. runnable (state_of k' u) \<longleftrightarrow> runnable (state_of ?k u) \<or> u \<in> set (take 1 (tlists ?k (SenderQ n)))"
    "\<forall>u. error (thr k' u) = error (thr ?k u)"
    using wake_first [OF mb_okD(1,2) [OF u(1)] waiting_list_simps(2), of n] by blast
  note f = mb_ok_frame [OF u(1) w(2-4)]
  have "mb_recv_loop n self d timeout k = Some (Returns (RT_EOK, Some v), k')"
    using ne mb(1) w(1) by (simp add: mb_recv_loop_def split: if_splits)
  then show ?thesis using w(5-8) f u(2,3) mb(3,4) by simp
qed

lemma rt_mb_send_wait_room:
  "mb_ok n k \<Longrightarrow> length (mb_mail n k) < mb_room n k \<Longrightarrow>
   rt_mb_send_wait n v timeout k = mb_send_loop n v (rt_thread_self k) 0 timeout k"
  using mb_full [where n = n and k = k] by (simp add: rt_mb_send_wait_def mb_okD(3))

lemma rt_mb_send_wait_full:
  "mb_ok n k \<Longrightarrow> length (mb_mail n k) = mb_room n k \<Longrightarrow> rt_mb_send_wait n v 0 k = Some (Returns (- RT_EFULL), k)"
  using mb_full [where n = n and k = k] by (simp add: rt_mb_send_wait_def mb_okD(3))

lemma rt_mb_recv_mail:
  "mb_ok n k \<Longrightarrow> mb_mail n k \<noteq> [] \<Longrightarrow> rt_mb_recv n timeout k = mb_recv_loop n (rt_thread_self k) 0 timeout k"
  using mb_empty [where n = n and k = k] by (simp add: rt_mb_recv_def mb_okD(3))

lemma rt_mb_recv_empty:
  "mb_ok n k \<Longrightarrow> mb_mail n k = [] \<Longrightarrow> rt_mb_recv n 0 k = Some (Returns (- RT_ETIMEOUT, None), k)"
  using mb_empty [where n = n and k = k] by (simp add: rt_mb_recv_def mb_okD(3))

subsection \<open>First in, first out\<close>

definition mb_post :: "nat \<Rightarrow> u32 \<Rightarrow> 'a ipc_scheme \<Rightarrow> 'a ipc_scheme option" where
  "mb_post n v k = (case rt_mb_send n v k of
      Some (Returns e, k') \<Rightarrow> if e = RT_EOK then Some k' else None | _ \<Rightarrow> None)"

definition mb_fetch :: "nat \<Rightarrow> 'a ipc_scheme \<Rightarrow> (u32 \<times> 'a ipc_scheme) option" where
  "mb_fetch n k = (case rt_mb_recv n 0 k of Some (Returns (e, Some v), k') \<Rightarrow> Some (v, k') | _ \<Rightarrow> None)"

interpretation mbq: bounded_queue "mb_ok n" "mb_mail n" "mb_room n" "\<lambda>_ _. True" "mb_post n" "mb_fetch n" for n
proof
  fix k :: "'a ipc_scheme" and v vs
  assume ok: "mb_ok n k"
  show "length (mb_mail n k) \<le> mb_room n k" by (rule mb_bounded [OF ok])
  show "\<exists>k'. mb_post n v k = Some k' \<and> mb_ok n k' \<and> mb_mail n k' = mb_mail n k @ [v] \<and>
    mb_room n k' = mb_room n k \<and> (\<lambda>_. True) = (\<lambda>_. True)" if r: "length (mb_mail n k) < mb_room n k"
    using mb_send_loop_stores [OF ok r, of v "rt_thread_self k" 0 0]
    by (auto simp: mb_post_def rt_mb_send_def rt_mb_send_wait_room [OF ok r])
  show "mb_post n v k = None" if "length (mb_mail n k) = mb_room n k"
    by (simp add: mb_post_def rt_mb_send_def rt_mb_send_wait_full [OF ok that])
  show "\<exists>k'. mb_fetch n k = Some (v, k') \<and> mb_ok n k' \<and> mb_mail n k' = vs \<and>
    mb_room n k' = mb_room n k \<and> (\<lambda>_. True) = (\<lambda>_. True)" if r: "mb_mail n k = v # vs"
    using mb_recv_loop_takes [OF ok r, of "rt_thread_self k" 0 0]
    by (auto simp: mb_fetch_def rt_mb_recv_mail [OF ok, unfolded r])
  show "mb_fetch n k = None" if "mb_mail n k = []"
    by (simp add: mb_fetch_def rt_mb_recv_empty [OF ok that])
qed

subsection \<open>Waiting\<close>

text \<open>
  A call that has to wait, first or again: the thread queues and its timer expires at the deadline.
\<close>

lemma mb_send_loop_waits:
  assumes ok: "mb_ok n k" and c: "caller t k" and full: "length (mb_mail n k) = mb_room n k"
    and time: "timeout \<noteq> 0" "timeout < 2 ^ 31 - 1"
  shows "\<exists>k'. mb_send_loop n v (Some t) d timeout k =
      Some (Blocks (t, if 0 < timeout then rt_tick k else d, timeout), k') \<and> mb_ok n k' \<and>
    mb_mail n k' = mb_mail n k \<and> state_of k' t = RT_THREAD_SUSPEND \<and>
    tlists k' (SenderQ n) = queued (ipc_flag n k) (prio_of k) t (tlists k (SenderQ n)) \<and>
    (Thread_timer t \<in> set (rt_timer_list k') \<longleftrightarrow> 0 < timeout) \<and>
    (0 < timeout \<longrightarrow> expiry k' (Thread_timer t) = rt_tick k + word_of_int timeout)"
proof -
  have f: "mb_entry (mailboxes k n) = mb_size (mailboxes k n)" using full mb_full [where n = n and k = k] by simp
  from block_self [OF mb_okD(1,4) [OF ok] c waiting_list_simps(2) time(2), of n] mb_ok_frame [OF ok] f c time(1) show ?thesis
    by (auto simp: mb_send_loop_def rt_tick_get_def)
qed

lemma mb_recv_loop_waits:
  assumes ok: "mb_ok n k" and c: "caller t k" and empty: "mb_mail n k = []"
    and time: "timeout \<noteq> 0" "timeout < 2 ^ 31 - 1"
  shows "\<exists>k'. mb_recv_loop n (Some t) d timeout k =
      Some (Blocks (t, if 0 < timeout then rt_tick k else d, timeout), k') \<and> mb_ok n k' \<and>
    mb_mail n k' = [] \<and> state_of k' t = RT_THREAD_SUSPEND \<and>
    tlists k' (SuspendQ n) = queued (ipc_flag n k) (prio_of k) t (tlists k (SuspendQ n)) \<and>
    (Thread_timer t \<in> set (rt_timer_list k') \<longleftrightarrow> 0 < timeout) \<and>
    (0 < timeout \<longrightarrow> expiry k' (Thread_timer t) = rt_tick k + word_of_int timeout)"
proof -
  have f: "mb_entry (mailboxes k n) = 0" using empty mb_empty [where n = n and k = k] by simp
  from block_self [OF mb_okD(1,4) [OF ok] c waiting_list_simps(1) time(2), of n] mb_ok_frame [OF ok] f c time(1) empty show ?thesis
    by (auto simp: mb_recv_loop_def rt_tick_get_def)
qed

text \<open>
  The sender that was resumed: an error is passed on, room is used, and otherwise it waits again and
  its timer expires when it would have the first time; when the time is up it gives up.
\<close>

lemma rt_mb_send_wait_resumed_again:
  assumes ok: "mb_ok n k" and c: "caller t k" and full: "length (mb_mail n k) = mb_room n k"
    and e: "error (thr k t) = RT_EOK" and time: "0 < timeout" "timeout < 2 ^ 31 - 1" "uint (rt_tick k - start) < timeout"
  shows "\<exists>w k'. rt_mb_send_wait_resumed n v (t, start, timeout) k = Some (Blocks w, k') \<and> mb_ok n k' \<and>
    mb_mail n k' = mb_mail n k \<and> t \<in> set (tlists k' (SenderQ n)) \<and> Thread_timer t \<in> set (rt_timer_list k') \<and>
    expiry k' (Thread_timer t) = start + word_of_int timeout"
proof -
  let ?left = "time_left timeout (rt_tick k - start)"
  have l: "?left = timeout - uint (rt_tick k - start)" using time_left_nat [of timeout "rt_tick k - start"] time by simp
  have pos: "0 < ?left" using l time(3) by simp
  moreover have "?left < 2 ^ 31 - 1" using l time(2) uint_ge_0 [of "rt_tick k - start"] by linarith
  ultimately obtain k' where "mb_send_loop n v (Some t) (rt_tick k - start) ?left k = Some (Blocks (t, rt_tick k, ?left), k')"
    "mb_ok n k'" "mb_mail n k' = mb_mail n k"
    "tlists k' (SenderQ n) = queued (ipc_flag n k) (prio_of k) t (tlists k (SenderQ n))"
    "Thread_timer t \<in> set (rt_timer_list k')" "expiry k' (Thread_timer t) = rt_tick k + word_of_int ?left"
    using mb_send_loop_waits [OF ok c full, of ?left v "rt_tick k - start"] by auto
  moreover have "rt_tick k + word_of_int ?left = start + word_of_int timeout"
    by (rule time_left_deadline) (use time in simp_all)
  ultimately show ?thesis using e time(1) by (auto simp: rt_mb_send_wait_resumed_def rt_tick_get_def)
qed

lemma rt_mb_send_wait_resumed_late:
  assumes ok: "mb_ok n k" and full: "length (mb_mail n k) = mb_room n k"
    and e: "error (thr k t) = RT_EOK" and time: "0 < timeout" "timeout < 2 ^ 31" "timeout \<le> uint (rt_tick k - start)"
      "uint (rt_tick k - start) < 2 ^ 31"
  shows "\<exists>k'. rt_mb_send_wait_resumed n v (t, start, timeout) k = Some (Returns (- RT_EFULL), k') \<and> mb_ok n k' \<and>
    mb_mail n k' = mb_mail n k"
proof -
  have f: "mb_entry (mailboxes k n) = mb_size (mailboxes k n)" using full mb_full [where n = n and k = k] by simp
  have "time_left timeout (rt_tick k - start) = 0" using time_left_nat [of timeout "rt_tick k - start"] time by simp
  moreover have "mb_ok n (upd_thr t (set_error RT_EOK) k)"
    using mb_okD [OF ok] by (simp add: mb_ok_def ipc_inv_def)
  ultimately show ?thesis using e f time(1)
    by (simp add: rt_mb_send_wait_resumed_def mb_send_loop_def rt_tick_get_def mb_mail_def)
qed

text \<open>What is sent to a waiting receiver is what it gets when it runs.\<close>

lemma mb_handover:
  assumes ok: "mb_ok n k" and e: "mb_mail n k = []" and q: "tlists k (SuspendQ n) = r # rs"
    and er: "error (thr k r) = RT_EOK"
  shows "\<exists>k1 k2. rt_mb_send n v k = Some (Returns RT_EOK, k1) \<and> runnable (state_of k1 r) \<and>
    rt_mb_recv_resumed n (r, start, timeout) k1 = Some (Returns (RT_EOK, Some v), k2) \<and> mb_ok n k2 \<and> mb_mail n k2 = [] \<and>
    tlists k2 (SuspendQ n) = rs"
proof -
  have r: "length (mb_mail n k) < mb_room n k"
    using mb_okD(5) [OF ok] e by (simp add: mb_ring_ok_def mb_room_def word_less_nat_alt)
  obtain k1 where s: "mb_send_loop n v (rt_thread_self k) 0 0 k = Some (Returns RT_EOK, k1)" "mb_ok n k1"
    "mb_mail n k1 = [v]" "tlists k1 (SuspendQ n) = rs" "runnable (state_of k1 r)" "error (thr k1 r) = RT_EOK"
    using mb_send_loop_stores [OF ok r, of v "rt_thread_self k" 0 0] q e er by auto
  show ?thesis using s mb_recv_loop_takes [OF s(2,3)]
    by (fastforce simp: rt_mb_send_def rt_mb_send_wait_room [OF ok r] rt_mb_recv_resumed_def)
qed

subsection \<open>Creation, reset and destruction\<close>

lemma rt_mb_control_reset:
  assumes ok: "mb_ok n k"
  shows "\<exists>k'. rt_mb_control n RT_IPC_CMD_RESET k = Some (RT_EOK, k') \<and> mb_ok n k' \<and> mb_mail n k' = [] \<and>
    mb_room n k' = mb_room n k \<and> waiters n k' = {} \<and>
    (\<forall>t \<in> waiters n k. runnable (state_of k' t) \<and> error (thr k' t) = - RT_ERROR)"
proof -
  note d = mb_okD [OF ok]
  obtain k1 k2 where r: "rt_ipc_list_resume_all (SuspendQ n) k = Some (RT_EOK, k1)"
    "rt_ipc_list_resume_all (SenderQ n) k1 = Some (RT_EOK, k2)" "kinv k2" "ipc_frame k k2"
    "rt_current_thread k2 = rt_current_thread k" "tlists k2 (SuspendQ n) = []" "tlists k2 (SenderQ n) = []"
    "\<forall>u. runnable (state_of k2 u) \<longleftrightarrow> runnable (state_of k u) \<or> u \<in> waiters n k"
    "\<forall>u. error (thr k2 u) = (if u \<in> waiters n k then - RT_ERROR else error (thr k u))"
    using resume_both [OF d(1), of n] by blast
  have "rt_current_thread k2 \<noteq> None" using r(5) d(2) by simp
  note k2 = mb_ok_frame [OF ok r(3) this r(4)]
  let ?k = "upd_mb n (\<lambda>_. mb_reset (mailboxes k2 n)) k2"
  have eq: "upd_mb n mb_reset k2 = ?k" by (simp add: upd_mb_def)
  have ring: "mb_ring_ok (mb_reset (mailboxes k2 n)) \<and> mb_items (mb_reset (mailboxes k2 n)) = []"
    by (rule mb_reset_items) (use mb_okD(5) [OF k2(1)] in \<open>simp_all add: mb_ring_ok_def\<close>)
  note u = upd_mb_ok [OF k2(1) conjunct1 [OF ring]]
  obtain k3 where s: "rt_schedule ?k = Some k3" "kinv k3" "rt_current_thread k3 \<noteq> None" "wakes (SuspendQ n) {} ?k k3"
    "\<forall>l'. waiting_list l' \<longrightarrow> tlists k3 l' = tlists ?k l'" "\<forall>u. error (thr k3 u) = error (thr ?k u)"
    using schedule_wakes [OF mb_okD(1,2) [OF u(1)], of "SuspendQ n"] by blast
  note k3 = mb_ok_frame [OF u(1) s(2,3) wakes_frame [OF s(4)]]
  have "rt_mb_control n RT_IPC_CMD_RESET k = Some (RT_EOK, k3)"
    using d(3) r(1,2) s(1) by (simp add: rt_mb_control_def eq)
  moreover have "waiters n k3 = {}" using s(5) r(6,7) by (simp add: waiters_def)
  moreover have "runnable (state_of k3 t) \<and> error (thr k3 t) = - RT_ERROR" if "t \<in> waiters n k" for t
    using that r(8,9) s(6) wakes_runnable [OF s(4), of t] by simp
  moreover have "mb_room n k3 = mb_room n k" using k3(3) k2(3) by (simp add: mb_room_def mb_reset_def)
  ultimately show ?thesis using k3 u(2) ring by simp
qed

lemma rt_mb_init_kinv:
  assumes k: "kinv k" and l: "lock_ok k" and n: "Obj_ipc n \<notin> set (objects k RT_Object_Class_MailBox)"
  shows "\<exists>k'. rt_mb_init n name msgpool sz flag k = Some (RT_EOK, k') \<and> kinv k' \<and>
    rt_object_get_type (Obj_ipc n) k' = RT_Object_Class_MailBox \<and> ipc_flag n k' = flag \<and> waiters n k' = {} \<and>
    mb_mail n k' = [] \<and> mb_room n k' = unat sz mod 2 ^ 16 \<and>
    (0 < sz \<and> sz < 0x10000 \<and> length msgpool = unat sz \<longrightarrow> mb_ring_ok (mailboxes k' n))"
proof -
  obtain k1 where i: "rt_object_init (Obj_ipc n) RT_Object_Class_MailBox name k =
    Some (registered RT_Object_Class_MailBox (Obj_ipc n) name k1)" "kinv k1"
    using rt_object_init_ipc [OF k l _ n] by auto
  let ?mb = "mb_reset (mailboxes k1 n\<lparr>mb_pool := msgpool, mb_size := ucast sz\<rparr>)"
  have s: "unat (ucast sz :: u16) = unat sz mod 2 ^ 16" by (simp add: unsigned_ucast_eq take_bit_eq_mod)
  have "mb_items ?mb = []" by (simp add: mb_items_def mb_reset_def)
  moreover have "mb_ring_ok ?mb" if "0 < sz" "sz < 0x10000" "length msgpool = unat sz"
  proof -
    have "unat sz mod 2 ^ 16 = unat sz" using that(2) by (simp add: word_less_nat_alt)
    then show ?thesis using that s by (simp add: mb_ring_ok_def mb_reset_def word_less_nat_alt)
  qed
  ultimately show ?thesis using i s
    by (simp add: rt_mb_init_def mb_mail_def mb_room_def waiters_def mb_reset_def)
qed

lemma rt_mb_detach_kinv:
  assumes k: "kinv k" and ty: "rt_object_get_type (Obj_ipc n) k = RT_Object_Class_MailBox"
    and s: "rt_object_is_systemobject (Obj_ipc n) k"
  shows "\<exists>k'. rt_mb_detach n k = Some (RT_EOK, k') \<and> kinv k' \<and> dissolved n (waiters n k) k k'"
proof -
  obtain k1 k2 where r: "rt_ipc_list_resume_all (SuspendQ n) k = Some (RT_EOK, k1)"
    "rt_ipc_list_resume_all (SenderQ n) k1 = Some (RT_EOK, k2)" "kinv k2" "ipc_frame k k2"
    "\<forall>u. runnable (state_of k2 u) \<longleftrightarrow> runnable (state_of k u) \<or> u \<in> waiters n k"
    "\<forall>u. error (thr k2 u) = (if u \<in> waiters n k then - RT_ERROR else error (thr k u))"
    using resume_both [OF k, of n] by blast
  then show ?thesis using ty s detach_dissolved [OF r(4)] by (simp add: rt_mb_detach_def)
qed

lemma rt_mb_delete_kinv:
  assumes k: "kinv k" and ty: "rt_object_get_type (Obj_ipc n) k = RT_Object_Class_MailBox"
    and s: "\<not> rt_object_is_systemobject (Obj_ipc n) k" and i: "rt_interrupt_nest k = 0"
  shows "\<exists>k'. rt_mb_delete n k = Some (RT_EOK, k') \<and> kinv k' \<and> dissolved n (waiters n k) k k'"
proof -
  obtain k1 k2 where r: "rt_ipc_list_resume_all (SuspendQ n) k = Some (RT_EOK, k1)"
    "rt_ipc_list_resume_all (SenderQ n) k1 = Some (RT_EOK, k2)" "kinv k2" "ipc_frame k k2"
    "\<forall>u. runnable (state_of k2 u) \<longleftrightarrow> runnable (state_of k u) \<or> u \<in> waiters n k"
    "\<forall>u. error (thr k2 u) = (if u \<in> waiters n k then - RT_ERROR else error (thr k u))"
    using resume_both [OF k, of n] by blast
  have "\<not> rt_object_is_systemobject (Obj_ipc n) k2" using s ipc_frame_obj(3) [OF r(4)] by simp
  from rt_object_delete_ipc [OF this] show ?thesis using r(1-3) ty s i detach_dissolved [OF r(4)] r(5,6)
    by (simp add: rt_mb_delete_def RT_DEBUG_NOT_IN_INTERRUPT_def rt_interrupt_get_nest_def)
qed

end
