(* ===== verification/Align.thy ===== *)
theory Align
  imports Prelude
begin

text \<open>
  The alignment macros of \<^verbatim>\<open>include/rtdef.h\<close> on 32-bit sizes.
\<close>

definition RT_ALIGN :: "u32 \<Rightarrow> u32 \<Rightarrow> u32" where
  "RT_ALIGN sz align = (sz + align - 1) AND NOT (align - 1)"

definition RT_ALIGN_DOWN :: "u32 \<Rightarrow> u32 \<Rightarrow> u32" where
  "RT_ALIGN_DOWN sz align = sz AND NOT (align - 1)"

abbreviation (input) RT_ALIGN_SIZE :: u32 where "RT_ALIGN_SIZE \<equiv> 4"

lemma and_not_mask_uint: "uint (x AND NOT (mask a)) = uint x div 2 ^ a * 2 ^ a" for x :: u32
proof -
  have "x AND NOT (mask a) = push_bit a (drop_bit a x)"
    by (rule bit_word_eqI) (auto simp: bit_simps)
  moreover have "uint (push_bit a (drop_bit a x)) = take_bit 32 (push_bit a (drop_bit a (uint x)))"
    unfolding unsigned_push_bit_eq unsigned_drop_bit_eq by (simp add: take_bit_int_eq_self [OF uint_ge_0] unsigned_less [where 'a = int and 'b = 32, simplified])
  ultimately have "uint (x AND NOT (mask a)) = take_bit 32 (uint x div 2 ^ a * 2 ^ a)"
    by (simp add: push_bit_eq_mult [of a "uint x div 2 ^ a"] drop_bit_eq_div [of a "uint x"])
  moreover have "uint x div 2 ^ a * 2 ^ a < 2 ^ 32"
  proof -
    have "uint x div 2 ^ a * 2 ^ a \<le> uint x" by (simp add: minus_mod_eq_div_mult [symmetric])
    also have "uint x < 2 ^ 32" using unsigned_less [where 'a = int, of x] by simp
    finally show ?thesis .
  qed
  moreover have "0 \<le> uint x div 2 ^ a * 2 ^ a" by (simp add: pos_imp_zdiv_nonneg_iff)
  ultimately show ?thesis by (simp add: take_bit_int_eq_self)
qed

text \<open>For a power of two, as long as nothing overflows, the next multiple; the overflow wraps.\<close>

lemma RT_ALIGN_DOWN_uint: "uint (RT_ALIGN_DOWN sz (2 ^ a)) = uint sz div 2 ^ a * 2 ^ a"
  using and_not_mask_uint [of sz a] by (simp add: RT_ALIGN_DOWN_def mask_eq_exp_minus_1)

lemma RT_ALIGN_uint:
  assumes a: "a < 32" and o: "uint sz + 2 ^ a - 1 < 2 ^ 32"
  shows "uint (RT_ALIGN sz (2 ^ a)) = (uint sz + 2 ^ a - 1) div 2 ^ a * 2 ^ a"
proof -
  have "uint (sz + 2 ^ a - 1) = uint sz + 2 ^ a - 1"
  proof -
    have "sz + 2 ^ a - 1 = word_of_int (uint sz + 2 ^ a - 1)" by simp
    moreover have "0 \<le> uint sz + 2 ^ a - 1" using uint_ge_0 [of sz] by (smt (verit) zero_less_power)
    ultimately show ?thesis using o by (simp only: uint_word_of_int) (simp add: take_bit_int_eq_self)
  qed
  then show ?thesis using and_not_mask_uint [of "sz + 2 ^ a - 1" a] by (simp add: RT_ALIGN_def mask_eq_exp_minus_1)
qed

lemma RT_ALIGN_bounds:
  assumes a: "a < 32" and o: "uint sz + 2 ^ a - 1 < 2 ^ 32"
  shows "uint sz \<le> uint (RT_ALIGN sz (2 ^ a))" "uint (RT_ALIGN sz (2 ^ a)) < uint sz + 2 ^ a"
    "2 ^ a dvd uint (RT_ALIGN sz (2 ^ a))"
proof -
  note u = RT_ALIGN_uint [OF a o]
  have "(uint sz + 2 ^ a - 1) mod 2 ^ a < 2 ^ a" "0 \<le> (uint sz + 2 ^ a - 1) mod 2 ^ a" by simp_all
  moreover have "(uint sz + 2 ^ a - 1) div 2 ^ a * 2 ^ a = (uint sz + 2 ^ a - 1) - (uint sz + 2 ^ a - 1) mod 2 ^ a"
    by (simp add: minus_mod_eq_div_mult)
  ultimately show "uint sz \<le> uint (RT_ALIGN sz (2 ^ a))" "uint (RT_ALIGN sz (2 ^ a)) < uint sz + 2 ^ a"
    unfolding u by linarith+
  show "2 ^ a dvd uint (RT_ALIGN sz (2 ^ a))" unfolding u by simp
qed

end
