(* ===== verification/MsgPool.thy ===== *)
theory MsgPool
  imports IpcState Align
begin

text \<open>
  The pool of a message queue (\<^verbatim>\<open>src/ipc.c\<close>): slots linked through their headers in a list of
  messages and a list of free slots. A sender takes a slot, fills it with interrupts enabled, and
  links it; a receiver unlinks a slot, copies the message with interrupts enabled and gives the slot
  back. Each of these critical sections is a definition, and any interleaving of them keeps every
  slot in exactly one place.
\<close>

subsection \<open>The critical sections\<close>

definition set_next :: "nat \<Rightarrow> nat option \<Rightarrow> rt_messagequeue \<Rightarrow> rt_messagequeue" where
  "set_next m p mq = mq\<lparr>mq_next := (mq_next mq)(m := p)\<rparr>"

text \<open>\<open>memcpy(msg + 1, buffer, size)\<close>: the rest of the slot keeps its bytes.\<close>

definition mq_write :: "nat \<Rightarrow> u8 list \<Rightarrow> rt_messagequeue \<Rightarrow> rt_messagequeue" where
  "mq_write m buf mq = mq\<lparr>mq_data := (mq_data mq)(m := buf @ drop (length buf) (mq_data mq m))\<rparr>"

definition mq_grab :: "rt_messagequeue \<Rightarrow> (nat \<times> rt_messagequeue) option" where
  "mq_grab mq = (case msg_queue_free mq of None \<Rightarrow> None
     | Some m \<Rightarrow> Some (m, mq\<lparr>msg_queue_free := mq_next mq m\<rparr>))"

definition mq_fill :: "nat \<Rightarrow> u8 list \<Rightarrow> rt_messagequeue \<Rightarrow> rt_messagequeue" where
  "mq_fill m buf mq = mq_write m buf (set_next m None mq)"

definition mq_link :: "nat \<Rightarrow> rt_messagequeue \<Rightarrow> rt_messagequeue" where
  "mq_link m mq =
     (let mq = (case msg_queue_tail mq of Some l \<Rightarrow> set_next l (Some m) mq | None \<Rightarrow> mq);
          mq = mq\<lparr>msg_queue_tail := Some m\<rparr>;
          mq = (if msg_queue_head mq = None then mq\<lparr>msg_queue_head := Some m\<rparr> else mq)
      in mq\<lparr>mq_entry := mq_entry mq + 1\<rparr>)"

definition mq_link_first :: "nat \<Rightarrow> rt_messagequeue \<Rightarrow> rt_messagequeue" where
  "mq_link_first m mq =
     (let mq = set_next m (msg_queue_head mq) mq;
          mq = mq\<lparr>msg_queue_head := Some m\<rparr>;
          mq = (if msg_queue_tail mq = None then mq\<lparr>msg_queue_tail := Some m\<rparr> else mq)
      in mq\<lparr>mq_entry := mq_entry mq + 1\<rparr>)"

text \<open>Only called with a message in the queue: a null head would be dereferenced.\<close>

definition mq_unlink :: "rt_messagequeue \<Rightarrow> (nat \<times> rt_messagequeue) option" where
  "mq_unlink mq = (case msg_queue_head mq of None \<Rightarrow> None
     | Some m \<Rightarrow> Some (m, mq\<lparr>msg_queue_head := mq_next mq m,
         msg_queue_tail := (if msg_queue_tail mq = Some m then None else msg_queue_tail mq),
         mq_entry := mq_entry mq - 1\<rparr>))"

definition mq_read :: "nat \<Rightarrow> nat \<Rightarrow> rt_messagequeue \<Rightarrow> u8 list" where
  "mq_read m sz mq = take (if unat (msg_size mq) < sz then unat (msg_size mq) else sz) (mq_data mq m)"

definition mq_give_back :: "nat \<Rightarrow> rt_messagequeue \<Rightarrow> rt_messagequeue" where
  "mq_give_back m mq = (set_next m (msg_queue_free mq) mq)\<lparr>msg_queue_free := Some m\<rparr>"

text \<open>The loop of a reset. It ends when the list of messages ends.\<close>

partial_function (option) mq_drain :: "rt_messagequeue \<Rightarrow> rt_messagequeue option" where
  "mq_drain mq = (case msg_queue_head mq of None \<Rightarrow> Some mq
     | Some m \<Rightarrow>
         let mq = mq\<lparr>msg_queue_head := mq_next mq m\<rparr>;
             mq = (if msg_queue_tail mq = Some m then mq\<lparr>msg_queue_tail := None\<rparr> else mq)
         in mq_drain (mq_give_back m mq))"

text \<open>The pool is threaded into the free list from its first slot on.\<close>

definition mq_thread :: "rt_messagequeue \<Rightarrow> rt_messagequeue" where
  "mq_thread mq = fold mq_give_back [0..<unat (max_msgs mq)]
     (mq\<lparr>msg_queue_head := None, msg_queue_tail := None, msg_queue_free := None\<rparr>)\<lparr>mq_entry := 0\<rparr>"

subsection \<open>Chains\<close>

fun mq_chain :: "(nat \<Rightarrow> nat option) \<Rightarrow> nat option \<Rightarrow> nat list \<Rightarrow> bool" where
  "mq_chain nxt p [] \<longleftrightarrow> p = None"
| "mq_chain nxt p (m # ms) \<longleftrightarrow> p = Some m \<and> mq_chain nxt (nxt m) ms"

fun mq_walk :: "(nat \<Rightarrow> nat option) \<Rightarrow> nat option \<Rightarrow> nat \<Rightarrow> nat list" where
  "mq_walk nxt None n = []"
| "mq_walk nxt (Some m) 0 = []"
| "mq_walk nxt (Some m) (Suc n) = m # mq_walk nxt (nxt m) n"

lemma mq_chain_walk: "mq_chain nxt p ms \<Longrightarrow> length ms \<le> n \<Longrightarrow> mq_walk nxt p n = ms"
proof (induction ms arbitrary: p n)
  case (Cons m ms)
  then show ?case by (cases n) auto
qed simp

lemma mq_chain_cong: "(\<And>m. m \<in> set ms \<Longrightarrow> nxt m = nxt' m) \<Longrightarrow> mq_chain nxt p ms \<longleftrightarrow> mq_chain nxt' p ms"
  by (induction ms arbitrary: p) auto

lemma mq_chain_upd [simp]: "m \<notin> set ms \<Longrightarrow> mq_chain (nxt(m := q)) p ms \<longleftrightarrow> mq_chain nxt p ms"
  by (rule mq_chain_cong) auto

lemma mq_chain_append_last:
  assumes "mq_chain nxt p ms" "ms \<noteq> []" "distinct ms" "m \<notin> set ms" "nxt m = None"
  shows "mq_chain (nxt(last ms := Some m)) p (ms @ [m])"
  using assms
proof (induction ms arbitrary: p)
  case (Cons a ms)
  show ?case
  proof (cases "ms = []")
    case True
    then show ?thesis using Cons.prems by auto
  next
    case False
    then have "last ms \<noteq> a" using Cons.prems(3) by auto
    then show ?thesis using Cons False by (auto simp: fun_upd_apply)
  qed
qed simp

lemma mq_chain_head: "mq_chain nxt p ms \<Longrightarrow> p = None \<longleftrightarrow> ms = []"
  by (cases ms) auto

subsection \<open>Every slot in one place\<close>

text \<open>\<open>us\<close> are the slots of the messages, in order, \<open>fs\<close> the free ones, \<open>G\<close> those somebody works on.\<close>

definition mq_wf :: "rt_messagequeue \<Rightarrow> nat list \<Rightarrow> nat list \<Rightarrow> nat set \<Rightarrow> bool" where
  "mq_wf mq us fs G \<longleftrightarrow> mq_chain (mq_next mq) (msg_queue_head mq) us \<and> mq_chain (mq_next mq) (msg_queue_free mq) fs \<and>
     msg_queue_tail mq = (if us = [] then None else Some (last us)) \<and>
     distinct (us @ fs) \<and> G \<inter> (set us \<union> set fs) = {} \<and> G \<union> set us \<union> set fs = {0..<unat (max_msgs mq)} \<and>
     unat (mq_entry mq) = length us \<and> (\<forall>m < unat (max_msgs mq). length (mq_data mq m) = unat (msg_size mq))"

lemma mq_wfD:
  assumes "mq_wf mq us fs G"
  shows "mq_chain (mq_next mq) (msg_queue_head mq) us" "mq_chain (mq_next mq) (msg_queue_free mq) fs"
    "msg_queue_tail mq = (if us = [] then None else Some (last us))" "distinct us" "distinct fs"
    "set us \<inter> set fs = {}" "G \<inter> (set us \<union> set fs) = {}" "G \<union> set us \<union> set fs = {0..<unat (max_msgs mq)}"
    "unat (mq_entry mq) = length us" "\<forall>m < unat (max_msgs mq). length (mq_data mq m) = unat (msg_size mq)"
  using assms by (auto simp: mq_wf_def)

lemma mq_wf_count:
  assumes "mq_wf mq us fs G"
  shows "card G + length us + length fs = unat (max_msgs mq)" "finite G" "length us \<le> unat (max_msgs mq)"
    "length fs \<le> unat (max_msgs mq)"
proof -
  note w = mq_wfD [OF assms]
  show f: "finite G" using w(8) by (metis finite_Un finite_atLeastLessThan)
  have "card (G \<union> (set us \<union> set fs)) = card G + card (set us \<union> set fs)"
    by (rule card_Un_disjoint) (use f w(7) in auto)
  also have "card (set us \<union> set fs) = length us + length fs"
    using w(4-6) by (simp add: card_Un_disjoint distinct_card)
  finally show c: "card G + length us + length fs = unat (max_msgs mq)" using w(8) by (simp add: Un_assoc)
  then show "length us \<le> unat (max_msgs mq)" "length fs \<le> unat (max_msgs mq)" by linarith+
qed

lemma mq_grab_wf:
  assumes "mq_wf mq us (m # fs) G"
  shows "\<exists>mq'. mq_grab mq = Some (m, mq') \<and> mq_wf mq' us fs (insert m G) \<and> mq_data mq' = mq_data mq \<and>
    max_msgs mq' = max_msgs mq \<and> msg_size mq' = msg_size mq"
  using mq_wfD [OF assms] by (auto simp: mq_grab_def mq_wf_def)

lemma mq_grab_none: "mq_wf mq us [] G \<Longrightarrow> mq_grab mq = None"
  by (simp add: mq_wf_def mq_grab_def)

lemma set_next_wf:
  assumes "mq_wf mq us fs G" "m \<in> G"
  shows "mq_wf (set_next m p mq) us fs G"
proof -
  have "m \<notin> set us" "m \<notin> set fs" using mq_wfD(7) [OF assms(1)] assms(2) by auto
  then show ?thesis using assms(1) by (simp add: mq_wf_def set_next_def)
qed

lemma mq_write_wf:
  assumes "mq_wf mq us fs G" "m \<in> G" "length buf \<le> unat (msg_size mq)"
  shows "mq_wf (mq_write m buf mq) us fs G"
proof -
  have "m < unat (max_msgs mq)" using mq_wfD(8) [OF assms(1)] assms(2) by auto
  then show ?thesis using assms(1,3) by (simp add: mq_wf_def mq_write_def)
qed

lemma mq_fill_wf:
  assumes "mq_wf mq us fs G" "m \<in> G" "length buf \<le> unat (msg_size mq)"
  shows "mq_wf (mq_fill m buf mq) us fs G" "mq_next (mq_fill m buf mq) m = None"
    "mq_data (mq_fill m buf mq) = (mq_data mq)(m := buf @ drop (length buf) (mq_data mq m))"
    "max_msgs (mq_fill m buf mq) = max_msgs mq" "msg_size (mq_fill m buf mq) = msg_size mq"
  using mq_write_wf [OF set_next_wf [OF assms(1,2)] assms(2)] assms(3)
  by (simp_all add: mq_fill_def mq_write_def set_next_def)

lemma entry_Suc:
  assumes "mq_wf mq us fs G" "m \<in> G"
  shows "unat (mq_entry mq + 1) = Suc (length us)"
proof -
  have "0 < card G" using mq_wf_count(2) [OF assms(1)] assms(2) by (auto simp: card_gt_0_iff)
  then have "length us < unat (max_msgs mq)" using mq_wf_count(1) [OF assms(1)] by linarith
  moreover have "unat (max_msgs mq) < 2 ^ 16" using unsigned_less [where 'a = nat, of "max_msgs mq"] by simp
  ultimately have "mq_entry mq \<noteq> 0xffff" using mq_wfD(9) [OF assms(1)] by auto
  then show ?thesis using mq_wfD(9) [OF assms(1)] by (simp add: unat_Suc16)
qed

lemma mq_link_wf:
  assumes wf: "mq_wf mq us fs G" and m: "m \<in> G" and n: "mq_next mq m = None"
  shows "mq_wf (mq_link m mq) (us @ [m]) fs (G - {m})" "mq_data (mq_link m mq) = mq_data mq"
    "max_msgs (mq_link m mq) = max_msgs mq" "msg_size (mq_link m mq) = msg_size mq"
proof -
  note w = mq_wfD [OF wf]
  have d: "m \<notin> set us" "m \<notin> set fs" using w(7) m by auto
  have e: "unat (mq_entry mq + 1) = Suc (length us)" by (rule entry_Suc [OF wf m])
  have s: "(G - {m}) \<union> insert m (set us) \<union> set fs = {0..<unat (max_msgs mq)}" using w(8) m by auto
  show "mq_wf (mq_link m mq) (us @ [m]) fs (G - {m})"
  proof (cases "us = []")
    case True
    then have "msg_queue_head mq = None" using w(1) by simp
    then show ?thesis using True w d e s n by (auto simp: mq_wf_def mq_link_def Let_def)
  next
    case False
    have h: "msg_queue_head mq \<noteq> None" using mq_chain_head [OF w(1)] False by simp
    have l: "last us \<notin> set fs" using last_in_set [OF False] w(6) by blast
    have "mq_chain ((mq_next mq)(last us := Some m)) (msg_queue_head mq) (us @ [m])"
      by (rule mq_chain_append_last) (use w d n False in auto)
    then show ?thesis using False h w d e s l by (auto simp: mq_wf_def mq_link_def Let_def set_next_def)
  qed
  show "mq_data (mq_link m mq) = mq_data mq" "max_msgs (mq_link m mq) = max_msgs mq"
    "msg_size (mq_link m mq) = msg_size mq"
    by (simp_all add: mq_link_def Let_def set_next_def split: option.splits)
qed

lemma mq_link_first_wf:
  assumes wf: "mq_wf mq us fs G" and m: "m \<in> G"
  shows "mq_wf (mq_link_first m mq) (m # us) fs (G - {m})" "mq_data (mq_link_first m mq) = mq_data mq"
    "max_msgs (mq_link_first m mq) = max_msgs mq" "msg_size (mq_link_first m mq) = msg_size mq"
proof -
  note w = mq_wfD [OF wf]
  have d: "m \<notin> set us" "m \<notin> set fs" using w(7) m by auto
  have e: "unat (mq_entry mq + 1) = Suc (length us)" by (rule entry_Suc [OF wf m])
  have s: "(G - {m}) \<union> insert m (set us) \<union> set fs = {0..<unat (max_msgs mq)}" using w(8) m by auto
  show "mq_wf (mq_link_first m mq) (m # us) fs (G - {m})"
    using w d e s by (auto simp: mq_wf_def mq_link_first_def Let_def set_next_def)
  show "mq_data (mq_link_first m mq) = mq_data mq" "max_msgs (mq_link_first m mq) = max_msgs mq"
    "msg_size (mq_link_first m mq) = msg_size mq"
    by (simp_all add: mq_link_first_def Let_def set_next_def)
qed

lemma mq_unlink_wf:
  assumes wf: "mq_wf mq (m # us) fs G"
  shows "\<exists>mq'. mq_unlink mq = Some (m, mq') \<and> mq_wf mq' us fs (insert m G) \<and> mq_data mq' = mq_data mq \<and>
    max_msgs mq' = max_msgs mq \<and> msg_size mq' = msg_size mq"
proof -
  note w = mq_wfD [OF wf]
  have e: "unat (mq_entry mq - 1) = length us" using w(9) by (subst unat_minus_one) auto
  have "us \<noteq> [] \<Longrightarrow> last us \<noteq> m" using w(4) by auto
  then show ?thesis using w e by (auto simp: mq_unlink_def mq_wf_def)
qed

lemma mq_give_back_wf:
  assumes wf: "mq_wf mq us fs G" and m: "m \<in> G"
  shows "mq_wf (mq_give_back m mq) us (m # fs) (G - {m})" "mq_data (mq_give_back m mq) = mq_data mq"
    "max_msgs (mq_give_back m mq) = max_msgs mq" "msg_size (mq_give_back m mq) = msg_size mq"
proof -
  note w = mq_wfD [OF wf]
  have d: "m \<notin> set us" "m \<notin> set fs" using w(7) m by auto
  have s: "(G - {m}) \<union> set us \<union> insert m (set fs) = {0..<unat (max_msgs mq)}" using w(8) m by auto
  show "mq_wf (mq_give_back m mq) us (m # fs) (G - {m})"
    using w d s by (auto simp: mq_wf_def mq_give_back_def set_next_def)
  show "mq_data (mq_give_back m mq) = mq_data mq" "max_msgs (mq_give_back m mq) = max_msgs mq"
    "msg_size (mq_give_back m mq) = msg_size mq"
    by (simp_all add: mq_give_back_def set_next_def)
qed

lemma mq_drain_chain:
  assumes "mq_chain (mq_next mq) (msg_queue_head mq) us" "mq_chain (mq_next mq) (msg_queue_free mq) fs"
    "msg_queue_tail mq = (if us = [] then None else Some (last us))" "distinct us" "set us \<inter> set fs = {}"
  shows "\<exists>mq'. mq_drain mq = Some mq' \<and> msg_queue_head mq' = None \<and> msg_queue_tail mq' = None \<and>
    mq_chain (mq_next mq') (msg_queue_free mq') (rev us @ fs) \<and> (\<forall>m. m \<notin> set us \<longrightarrow> mq_next mq' m = mq_next mq m) \<and>
    mq_data mq' = mq_data mq \<and> max_msgs mq' = max_msgs mq \<and> msg_size mq' = msg_size mq"
  using assms
proof (induction us arbitrary: mq fs)
  case Nil
  then show ?case by (subst mq_drain.simps) simp
next
  case (Cons m us)
  define mq1 where "mq1 = mq\<lparr>msg_queue_head := mq_next mq m\<rparr>"
  define mq2 where "mq2 = mq_give_back m (if msg_queue_tail mq1 = Some m then mq1\<lparr>msg_queue_tail := None\<rparr> else mq1)"
  have h: "msg_queue_head mq = Some m" "mq_chain (mq_next mq) (mq_next mq m) us" using Cons.prems(1) by simp_all
  have d: "m \<notin> set us" "m \<notin> set fs" "distinct us" "us \<noteq> [] \<Longrightarrow> last us \<noteq> m" using Cons.prems(4,5) by auto
  have e: "mq_drain mq = mq_drain mq2" using h(1) by (subst mq_drain.simps) (simp add: mq2_def mq1_def Let_def)
  have "mq_chain (mq_next mq2) (msg_queue_head mq2) us" "mq_chain (mq_next mq2) (msg_queue_free mq2) (m # fs)"
    using h(2) d Cons.prems(2) by (simp_all add: mq2_def mq1_def mq_give_back_def set_next_def)
  moreover have "msg_queue_tail mq2 = (if us = [] then None else Some (last us))"
    using Cons.prems(3) d(4) by (auto simp: mq2_def mq1_def mq_give_back_def set_next_def)
  moreover have "set us \<inter> set (m # fs) = {}" using d Cons.prems(5) by auto
  ultimately obtain mq' where i: "mq_drain mq2 = Some mq'" "msg_queue_head mq' = None" "msg_queue_tail mq' = None"
    "mq_chain (mq_next mq') (msg_queue_free mq') (rev us @ m # fs)"
    "\<forall>m. m \<notin> set us \<longrightarrow> mq_next mq' m = mq_next mq2 m" "mq_data mq' = mq_data mq2" "max_msgs mq' = max_msgs mq2"
    "msg_size mq' = msg_size mq2" using Cons.IH [of mq2 "m # fs"] d(3) by blast
  have n: "mq_next mq2 x = mq_next mq x" if "x \<noteq> m" for x
    using that by (simp add: mq2_def mq1_def mq_give_back_def set_next_def)
  have "mq_data mq2 = mq_data mq" "max_msgs mq2 = max_msgs mq" "msg_size mq2 = msg_size mq"
    by (simp_all add: mq2_def mq1_def mq_give_back_def set_next_def)
  then show ?case using i e n by simp
qed

lemma mq_drain_wf:
  assumes "mq_wf mq us fs G"
  shows "\<exists>mq'. mq_drain mq = Some mq' \<and> mq_wf (mq'\<lparr>mq_entry := 0\<rparr>) [] (rev us @ fs) G \<and>
    (\<forall>m \<in> G. mq_next mq' m = mq_next mq m) \<and> max_msgs mq' = max_msgs mq \<and> msg_size mq' = msg_size mq"
proof -
  note w = mq_wfD [OF assms]
  obtain mq' where d: "mq_drain mq = Some mq'" "msg_queue_head mq' = None" "msg_queue_tail mq' = None"
    "mq_chain (mq_next mq') (msg_queue_free mq') (rev us @ fs)" "\<forall>m. m \<notin> set us \<longrightarrow> mq_next mq' m = mq_next mq m"
    "mq_data mq' = mq_data mq" "max_msgs mq' = max_msgs mq" "msg_size mq' = msg_size mq"
    using mq_drain_chain [OF w(1-4,6)] by blast
  have "mq_wf (mq'\<lparr>mq_entry := 0\<rparr>) [] (rev us @ fs) G" using w d by (auto simp: mq_wf_def)
  moreover have "\<forall>m \<in> G. mq_next mq' m = mq_next mq m" using d(5) w(7) by auto
  ultimately show ?thesis using d by blast
qed

lemma mq_give_back_sel:
  "mq_next (mq_give_back m mq) = (mq_next mq)(m := msg_queue_free mq)" "msg_queue_free (mq_give_back m mq) = Some m"
  "msg_queue_head (mq_give_back m mq) = msg_queue_head mq" "msg_queue_tail (mq_give_back m mq) = msg_queue_tail mq"
  "mq_data (mq_give_back m mq) = mq_data mq" "max_msgs (mq_give_back m mq) = max_msgs mq"
  "msg_size (mq_give_back m mq) = msg_size mq"
  by (simp_all add: mq_give_back_def set_next_def)

lemma mq_chain_give_back:
  "m \<notin> set ms \<Longrightarrow> mq_chain (mq_next mq) (msg_queue_free mq) ms \<Longrightarrow>
   mq_chain (mq_next (mq_give_back m mq)) (msg_queue_free (mq_give_back m mq)) (m # ms)"
  by (simp add: mq_give_back_def set_next_def)

lemma mq_thread_wf:
  assumes "\<forall>m < unat (max_msgs mq). length (mq_data mq m) = unat (msg_size mq)"
  shows "mq_wf (mq_thread mq) [] (rev [0..<unat (max_msgs mq)]) {}" "mq_data (mq_thread mq) = mq_data mq"
    "max_msgs (mq_thread mq) = max_msgs mq" "msg_size (mq_thread mq) = msg_size mq"
proof -
  let ?mq = "mq\<lparr>msg_queue_head := None, msg_queue_tail := None, msg_queue_free := None\<rparr>"
  have f: "mq_chain (mq_next (fold mq_give_back [0..<n] ?mq)) (msg_queue_free (fold mq_give_back [0..<n] ?mq)) (rev [0..<n]) \<and>
    msg_queue_head (fold mq_give_back [0..<n] ?mq) = None \<and> msg_queue_tail (fold mq_give_back [0..<n] ?mq) = None \<and>
    mq_data (fold mq_give_back [0..<n] ?mq) = mq_data mq \<and> max_msgs (fold mq_give_back [0..<n] ?mq) = max_msgs mq \<and>
    msg_size (fold mq_give_back [0..<n] ?mq) = msg_size mq" for n
  proof (induction n)
    case (Suc n)
    have "n \<notin> set (rev [0..<n])" by simp
    from mq_chain_give_back [OF this conjunct1 [OF Suc]] Suc show ?case by (simp add: mq_give_back_sel(3-))
  qed simp
  note g = f [of "unat (max_msgs mq)"]
  show "mq_wf (mq_thread mq) [] (rev [0..<unat (max_msgs mq)]) {}"
    using g assms by (simp add: mq_wf_def mq_thread_def)
  show "mq_data (mq_thread mq) = mq_data mq" "max_msgs (mq_thread mq) = max_msgs mq" "msg_size (mq_thread mq) = msg_size mq"
    using g by (simp_all add: mq_thread_def)
qed

subsection \<open>Interleaving\<close>

text \<open>
  Several threads in their critical sections in any order. What is in the hands of a thread is a
  map from slots to how far the thread has come.
\<close>

datatype flight = Grabbed | Filled | Written | Taken

inductive mq_step :: "rt_messagequeue \<times> (nat \<rightharpoonup> flight) \<Rightarrow> rt_messagequeue \<times> (nat \<rightharpoonup> flight) \<Rightarrow> bool" where
  grab: "mq_grab mq = Some (m, mq') \<Longrightarrow> mq_step (mq, F) (mq', F(m \<mapsto> Grabbed))"
| fill: "\<lbrakk>F m = Some Grabbed; length buf \<le> unat (msg_size mq)\<rbrakk> \<Longrightarrow> mq_step (mq, F) (mq_fill m buf mq, F(m \<mapsto> Filled))"
| link: "F m = Some Filled \<Longrightarrow> mq_step (mq, F) (mq_link m mq, F(m := None))"
| store: "\<lbrakk>F m = Some Grabbed; length buf \<le> unat (msg_size mq)\<rbrakk> \<Longrightarrow> mq_step (mq, F) (mq_write m buf mq, F(m \<mapsto> Written))"
| link_first: "F m = Some Written \<Longrightarrow> mq_step (mq, F) (mq_link_first m mq, F(m := None))"
| unlink: "\<lbrakk>mq_entry mq \<noteq> 0; mq_unlink mq = Some (m, mq')\<rbrakk> \<Longrightarrow> mq_step (mq, F) (mq', F(m \<mapsto> Taken))"
| give_back: "F m = Some Taken \<Longrightarrow> mq_step (mq, F) (mq_give_back m mq, F(m := None))"
| reset: "mq_drain mq = Some mq' \<Longrightarrow> mq_step (mq, F) (mq'\<lparr>mq_entry := 0\<rparr>, F)"

inductive_cases mq_stepE: "mq_step s s'"

definition pool_inv :: "rt_messagequeue \<times> (nat \<rightharpoonup> flight) \<Rightarrow> bool" where
  "pool_inv s \<longleftrightarrow> (\<exists>us fs. mq_wf (fst s) us fs (dom (snd s))) \<and>
     (\<forall>m. snd s m = Some Filled \<longrightarrow> mq_next (fst s) m = None)"

lemma pool_invI: "mq_wf mq us fs (dom F) \<Longrightarrow> (\<And>m. F m = Some Filled \<Longrightarrow> mq_next mq m = None) \<Longrightarrow> pool_inv (mq, F)"
  by (auto simp: pool_inv_def)

lemma pool_inv_step: "mq_step s s' \<Longrightarrow> pool_inv s \<Longrightarrow> pool_inv s'"
proof (induction rule: mq_step.induct)
  case (grab mq m mq' F)
  then obtain us fs where wf: "mq_wf mq us fs (dom F)" and n: "\<And>m. F m = Some Filled \<Longrightarrow> mq_next mq m = None"
    by (auto simp: pool_inv_def)
  obtain fs' where fs: "fs = m # fs'"
    using grab(1) mq_wfD(2) [OF wf] by (cases fs) (auto simp: mq_grab_def split: option.splits)
  have "mq_next mq' = mq_next mq" using grab(1) by (auto simp: mq_grab_def split: option.splits)
  then show ?case using mq_grab_wf [of mq us m fs'] wf fs grab(1) n by (intro pool_invI [of _ us fs']) (auto split: if_splits)
next
  case (fill F m buf mq)
  then obtain us fs where wf: "mq_wf mq us fs (dom F)" and n: "\<And>m. F m = Some Filled \<Longrightarrow> mq_next mq m = None"
    by (auto simp: pool_inv_def)
  have m: "m \<in> dom F" using fill(1) by auto
  show ?case
  proof (rule pool_invI)
    show "mq_wf (mq_fill m buf mq) us fs (dom (F(m \<mapsto> Filled)))"
      using mq_fill_wf(1) [OF wf m fill(2)] m by (simp add: insert_absorb)
    show "mq_next (mq_fill m buf mq) x = None" if "(F(m \<mapsto> Filled)) x = Some Filled" for x
      using that n [of x] by (cases "x = m") (simp_all add: mq_fill_def mq_write_def set_next_def)
  qed
next
  case (link F m mq)
  then obtain us fs where wf: "mq_wf mq us fs (dom F)" and n: "\<And>m. F m = Some Filled \<Longrightarrow> mq_next mq m = None"
    by (auto simp: pool_inv_def)
  have m: "m \<in> dom F" using link(1) by auto
  show ?case
  proof (rule pool_invI)
    show "mq_wf (mq_link m mq) (us @ [m]) fs (dom (F(m := None)))"
      using mq_link_wf(1) [OF wf m n [OF link(1)]] by simp
    fix x
    assume x: "(F(m := None)) x = Some Filled"
    then have "x \<notin> set us" using mq_wfD(7) [OF wf] by (auto split: if_splits)
    then have "msg_queue_tail mq \<noteq> Some x" using mq_wfD(3) [OF wf] by (auto split: if_splits)
    then show "mq_next (mq_link m mq) x = None"
      using x n [of x] by (auto simp: mq_link_def Let_def set_next_def split: option.splits if_splits)
  qed
next
  case (store F m buf mq)
  then obtain us fs where wf: "mq_wf mq us fs (dom F)" and n: "\<And>m. F m = Some Filled \<Longrightarrow> mq_next mq m = None"
    by (auto simp: pool_inv_def)
  have m: "m \<in> dom F" using store(1) by auto
  show ?case
    using mq_write_wf [OF wf m store(2)] m n
    by (intro pool_invI [of _ us fs]) (auto simp: insert_absorb mq_write_def split: if_splits)
next
  case (link_first F m mq)
  then obtain us fs where wf: "mq_wf mq us fs (dom F)" and n: "\<And>m. F m = Some Filled \<Longrightarrow> mq_next mq m = None"
    by (auto simp: pool_inv_def)
  have m: "m \<in> dom F" using link_first(1) by auto
  show ?case
    using mq_link_first_wf(1) [OF wf m] n
    by (intro pool_invI [of _ "m # us" fs]) (auto simp: mq_link_first_def Let_def set_next_def split: if_splits)
next
  case (unlink mq m mq' F)
  then obtain us fs where wf: "mq_wf mq us fs (dom F)" and n: "\<And>m. F m = Some Filled \<Longrightarrow> mq_next mq m = None"
    by (auto simp: pool_inv_def)
  obtain us' where us: "us = m # us'"
    using unlink(2) mq_wfD(1) [OF wf] by (cases us) (auto simp: mq_unlink_def split: option.splits)
  have "mq_next mq' = mq_next mq" using unlink(2) by (auto simp: mq_unlink_def split: option.splits)
  then show ?case using mq_unlink_wf [of mq m us' fs] wf us unlink(2) n by (intro pool_invI [of _ us' fs]) (auto split: if_splits)
next
  case (give_back F m mq)
  then obtain us fs where wf: "mq_wf mq us fs (dom F)" and n: "\<And>m. F m = Some Filled \<Longrightarrow> mq_next mq m = None"
    by (auto simp: pool_inv_def)
  have m: "m \<in> dom F" using give_back(1) by auto
  show ?case
    using mq_give_back_wf(1) [OF wf m] n
    by (intro pool_invI [of _ us "m # fs"]) (auto simp: mq_give_back_def set_next_def split: if_splits)
next
  case (reset mq mq' F)
  then obtain us fs where wf: "mq_wf mq us fs (dom F)" and n: "\<And>m. F m = Some Filled \<Longrightarrow> mq_next mq m = None"
    by (auto simp: pool_inv_def)
  have d: "mq_wf (mq'\<lparr>mq_entry := 0\<rparr>) [] (rev us @ fs) (dom F)" "\<forall>m \<in> dom F. mq_next mq' m = mq_next mq m"
    using mq_drain_wf [OF wf] reset(1) by auto
  show ?case
  proof (rule pool_invI [OF d(1)])
    fix m
    assume "F m = Some Filled"
    then show "mq_next (mq'\<lparr>mq_entry := 0\<rparr>) m = None" using d(2) n [of m] by (simp add: domI)
  qed
qed

lemma pool_inv_reachable: "mq_step\<^sup>*\<^sup>* s s' \<Longrightarrow> pool_inv s \<Longrightarrow> pool_inv s'"
  by (induction rule: rtranclp_induct) (auto intro: pool_inv_step)

subsection \<open>The messages\<close>

definition mq_used :: "rt_messagequeue \<Rightarrow> nat list" where
  "mq_used mq = mq_walk (mq_next mq) (msg_queue_head mq) (unat (max_msgs mq))"

definition mq_unused :: "rt_messagequeue \<Rightarrow> nat list" where
  "mq_unused mq = mq_walk (mq_next mq) (msg_queue_free mq) (unat (max_msgs mq))"

definition mq_msgs :: "rt_messagequeue \<Rightarrow> u8 list list" where
  "mq_msgs mq = map (mq_data mq) (mq_used mq)"

definition mq_pool_ok :: "rt_messagequeue \<Rightarrow> bool" where
  "mq_pool_ok mq \<longleftrightarrow> mq_wf mq (mq_used mq) (mq_unused mq) {}"

lemma mq_wf_used: "mq_wf mq us fs G \<Longrightarrow> mq_used mq = us" "mq_wf mq us fs G \<Longrightarrow> mq_unused mq = fs"
  using mq_chain_walk mq_wfD(1,2) mq_wf_count(3,4) unfolding mq_used_def mq_unused_def by metis+

lemma mq_wf_pool_ok: "mq_wf mq us fs {} \<Longrightarrow> mq_pool_ok mq"
  using mq_wf_used [of mq us fs "{}"] by (simp add: mq_pool_ok_def)

lemma mq_wf_msgs: "mq_wf mq us fs G \<Longrightarrow> mq_msgs mq = map (mq_data mq) us"
  using mq_wf_used(1) by (simp add: mq_msgs_def)

lemma mq_wf_full: "mq_wf mq us fs {} \<Longrightarrow> fs = [] \<longleftrightarrow> length us = unat (max_msgs mq)"
  using mq_wf_count(1) by fastforce

text \<open>A whole send, an urgent send and a receive, on the messages.\<close>

lemma mq_send_msgs:
  assumes ok: "mq_pool_ok mq" and r: "length (mq_msgs mq) < unat (max_msgs mq)" and b: "length buf \<le> unat (msg_size mq)"
  shows "\<exists>m mq' pad. mq_grab mq = Some (m, mq') \<and> mq_pool_ok (mq_link m (mq_fill m buf mq')) \<and>
    mq_msgs (mq_link m (mq_fill m buf mq')) = mq_msgs mq @ [buf @ pad] \<and> length (buf @ pad) = unat (msg_size mq) \<and>
    max_msgs (mq_link m (mq_fill m buf mq')) = max_msgs mq \<and> msg_size (mq_link m (mq_fill m buf mq')) = msg_size mq"
proof -
  obtain us fs where wf: "mq_wf mq us fs {}" using ok by (auto simp: mq_pool_ok_def)
  then have "fs \<noteq> []" using r mq_wf_full [OF wf] by (simp add: mq_wf_msgs [OF wf])
  then obtain m fs' where fs: "fs = m # fs'" by (cases fs) auto
  obtain mq1 where g: "mq_grab mq = Some (m, mq1)" "mq_wf mq1 us fs' {m}" "mq_data mq1 = mq_data mq"
    "max_msgs mq1 = max_msgs mq" "msg_size mq1 = msg_size mq" using mq_grab_wf [of mq us m fs' "{}"] wf fs by auto
  have b1: "length buf \<le> unat (msg_size mq1)" using b g(5) by simp
  note f = mq_fill_wf [OF g(2) singletonI b1]
  note l = mq_link_wf [OF f(1) singletonI f(2)]
  have wl: "mq_wf (mq_link m (mq_fill m buf mq1)) (us @ [m]) fs' {}" using l(1) by simp
  have m: "m \<notin> set us" "m < unat (max_msgs mq)" using mq_wfD(7,8) [OF g(2)] g(4) by auto
  have "mq_msgs (mq_link m (mq_fill m buf mq1)) = mq_msgs mq @ [buf @ drop (length buf) (mq_data mq m)]"
    unfolding mq_wf_msgs [OF wl] mq_wf_msgs [OF wf] using m(1) by (simp add: l(2) f(3) g(3))
  moreover have "length (buf @ drop (length buf) (mq_data mq m)) = unat (msg_size mq)"
    using mq_wfD(10) [OF wf] m(2) b by simp
  ultimately show ?thesis using g(1) mq_wf_pool_ok [OF wl] l(3,4) f(4,5) g(4,5)
    by (intro exI [of _ m] exI [of _ mq1] exI [of _ "drop (length buf) (mq_data mq m)"]) simp
qed

lemma mq_urgent_msgs:
  assumes ok: "mq_pool_ok mq" and r: "length (mq_msgs mq) < unat (max_msgs mq)" and b: "length buf \<le> unat (msg_size mq)"
  shows "\<exists>m mq' pad. mq_grab mq = Some (m, mq') \<and> mq_pool_ok (mq_link_first m (mq_write m buf mq')) \<and>
    mq_msgs (mq_link_first m (mq_write m buf mq')) = (buf @ pad) # mq_msgs mq \<and> length (buf @ pad) = unat (msg_size mq) \<and>
    max_msgs (mq_link_first m (mq_write m buf mq')) = max_msgs mq \<and>
    msg_size (mq_link_first m (mq_write m buf mq')) = msg_size mq"
proof -
  obtain us fs where wf: "mq_wf mq us fs {}" using ok by (auto simp: mq_pool_ok_def)
  then have "fs \<noteq> []" using r mq_wf_full [OF wf] by (simp add: mq_wf_msgs [OF wf])
  then obtain m fs' where fs: "fs = m # fs'" by (cases fs) auto
  obtain mq1 where g: "mq_grab mq = Some (m, mq1)" "mq_wf mq1 us fs' {m}" "mq_data mq1 = mq_data mq"
    "max_msgs mq1 = max_msgs mq" "msg_size mq1 = msg_size mq" using mq_grab_wf [of mq us m fs' "{}"] wf fs by auto
  have b1: "length buf \<le> unat (msg_size mq1)" using b g(5) by simp
  note l = mq_link_first_wf [OF mq_write_wf [OF g(2) singletonI b1] singletonI]
  have wl: "mq_wf (mq_link_first m (mq_write m buf mq1)) (m # us) fs' {}" using l(1) by simp
  have m: "m \<notin> set us" "m < unat (max_msgs mq)" using mq_wfD(7,8) [OF g(2)] g(4) by auto
  have "mq_msgs (mq_link_first m (mq_write m buf mq1)) = (buf @ drop (length buf) (mq_data mq m)) # mq_msgs mq"
    unfolding mq_wf_msgs [OF wl] mq_wf_msgs [OF wf] l(2) using m(1) by (simp add: mq_write_def g(3))
  moreover have "length (buf @ drop (length buf) (mq_data mq m)) = unat (msg_size mq)"
    using mq_wfD(10) [OF wf] m(2) b by simp
  ultimately show ?thesis using g(1) mq_wf_pool_ok [OF wl] l(3,4) g(4,5)
    by (intro exI [of _ m] exI [of _ mq1] exI [of _ "drop (length buf) (mq_data mq m)"]) (simp add: mq_write_def)
qed

lemma mq_recv_msgs:
  assumes ok: "mq_pool_ok mq" and r: "mq_msgs mq = v # vs"
  shows "\<exists>m mq'. mq_unlink mq = Some (m, mq') \<and> mq_pool_ok (mq_give_back m mq') \<and>
    mq_read m sz mq' = take sz v \<and> mq_msgs (mq_give_back m mq') = vs \<and>
    max_msgs (mq_give_back m mq') = max_msgs mq \<and> msg_size (mq_give_back m mq') = msg_size mq"
proof -
  obtain us fs where wf: "mq_wf mq us fs {}" using ok by (auto simp: mq_pool_ok_def)
  obtain m us' where us: "us = m # us'" "mq_data mq m = v" "map (mq_data mq) us' = vs"
    using r by (auto simp: mq_wf_msgs [OF wf])
  obtain mq1 where g: "mq_unlink mq = Some (m, mq1)" "mq_wf mq1 us' fs {m}" "mq_data mq1 = mq_data mq"
    "max_msgs mq1 = max_msgs mq" "msg_size mq1 = msg_size mq" using mq_unlink_wf [of mq m us' fs "{}"] wf us by auto
  note l = mq_give_back_wf [OF g(2) singletonI]
  have wl: "mq_wf (mq_give_back m mq1) us' (m # fs) {}" using l(1) by simp
  have "m < unat (max_msgs mq)" using mq_wfD(8) [OF wf] us(1) by auto
  then have "length v = unat (msg_size mq)" using mq_wfD(10) [OF wf] us(2) by blast
  then have "mq_read m sz mq1 = take sz v" using us(2) g(3,5) by (simp add: mq_read_def)
  then show ?thesis using g mq_wf_pool_ok [OF wl] l mq_wf_msgs [OF wl] us(3) by simp
qed

lemma mq_pool_empty: "mq_pool_ok mq \<Longrightarrow> mq_entry mq = 0 \<longleftrightarrow> mq_msgs mq = []"
  using mq_wfD(9) [of mq "mq_used mq" "mq_unused mq" "{}"] by (auto simp: mq_pool_ok_def mq_msgs_def unat_eq_zero)

lemma mq_pool_full: "mq_pool_ok mq \<Longrightarrow> msg_queue_free mq = None \<longleftrightarrow> length (mq_msgs mq) = unat (max_msgs mq)"
  using mq_wf_full [of mq "mq_used mq" "mq_unused mq"] mq_chain_head mq_wfD(2) [of mq "mq_used mq" "mq_unused mq" "{}"]
  by (auto simp: mq_pool_ok_def mq_msgs_def)

lemma mq_pool_bounded: "mq_pool_ok mq \<Longrightarrow> length (mq_msgs mq) \<le> unat (max_msgs mq)"
  using mq_wf_count(3) [of mq "mq_used mq" "mq_unused mq" "{}"] by (simp add: mq_pool_ok_def mq_msgs_def)

end
