(* ===== verification/MsgQueue.thy ===== *)
theory MsgQueue
  imports Handover MsgPool
begin

text \<open>
  Message queues (\<^verbatim>\<open>src/ipc.c\<close>, \<open>rt_mq_*\<close>) on the pool of slots: the operations, first in first
  out with urgent messages in front, and the threads that wait for a message or for a slot.
  The bytes of a message are a list, so its size is the length of the list.
\<close>

subsection \<open>Operations\<close>

definition rt_mq_init ::
  "nat \<Rightarrow> string \<Rightarrow> (nat \<Rightarrow> u8 list) \<Rightarrow> u32 \<Rightarrow> u32 \<Rightarrow> u8 \<Rightarrow> 'a ipc_scheme \<Rightarrow> (int \<times> 'a ipc_scheme) option" where
  "rt_mq_init n name msgpool msize pool_size flag k = do {
     k \<leftarrow> rt_object_init (Obj_ipc n) RT_Object_Class_MessageQueue name k;
     let k = set_ipc_flag n flag k;
     let k = snd (rt_ipc_object_init (SuspendQ n) k);
     let aligned = (ucast (RT_ALIGN msize RT_ALIGN_SIZE) :: u16);
     let k = upd_mq n (\<lambda>mq. mq_thread (mq\<lparr>mq_data := msgpool, msg_size := aligned,
       max_msgs := ucast (pool_size div (ucast aligned + 4))\<rparr>)) k;
     Some (RT_EOK, snd (rt_ipc_object_init (SenderQ n) k)) }"

definition rt_mq_detach :: "nat \<Rightarrow> 'a ipc_scheme \<Rightarrow> (int \<times> 'a ipc_scheme) option" where
  "rt_mq_detach n k = do {
     rt_assert (rt_object_get_type (Obj_ipc n) k = RT_Object_Class_MessageQueue);
     rt_assert (rt_object_is_systemobject (Obj_ipc n) k);
     (_, k) \<leftarrow> rt_ipc_list_resume_all (SuspendQ n) k;
     (_, k) \<leftarrow> rt_ipc_list_resume_all (SenderQ n) k;
     Some (RT_EOK, rt_object_detach (Obj_ipc n) k) }"

definition rt_mq_create ::
  "string \<Rightarrow> u32 \<Rightarrow> u32 \<Rightarrow> u8 \<Rightarrow> nat option \<Rightarrow> (nat \<Rightarrow> u8 list) option \<Rightarrow> 'a ipc_scheme \<Rightarrow>
    (nat option \<times> 'a ipc_scheme) option" where
  "rt_mq_create name msize msgs flag malloc pool k = do {
     RT_DEBUG_NOT_IN_INTERRUPT k;
     (_, k) \<leftarrow> rt_object_allocate RT_Object_Class_MessageQueue name (map_option Obj_ipc malloc) k;
     case malloc of None \<Rightarrow> Some (None, k)
     | Some n \<Rightarrow> do {
         let k = snd (rt_ipc_object_init (SuspendQ n) (set_ipc_flag n flag k));
         let k = upd_mq n (\<lambda>mq. mq\<lparr>msg_size := ucast (RT_ALIGN msize RT_ALIGN_SIZE), max_msgs := ucast msgs\<rparr>) k;
         case pool of
           None \<Rightarrow> do { k \<leftarrow> rt_object_delete (Obj_ipc n) k; Some (None, k) }
         | Some p \<Rightarrow>
             let k = upd_mq n (\<lambda>mq. mq_thread (mq\<lparr>mq_data := p\<rparr>)) k
             in Some (Some n, snd (rt_ipc_object_init (SenderQ n) k)) } }"

definition rt_mq_delete :: "nat \<Rightarrow> 'a ipc_scheme \<Rightarrow> (int \<times> 'a ipc_scheme) option" where
  "rt_mq_delete n k = do {
     RT_DEBUG_NOT_IN_INTERRUPT k;
     rt_assert (rt_object_get_type (Obj_ipc n) k = RT_Object_Class_MessageQueue);
     rt_assert (\<not> rt_object_is_systemobject (Obj_ipc n) k);
     (_, k) \<leftarrow> rt_ipc_list_resume_all (SuspendQ n) k;
     (_, k) \<leftarrow> rt_ipc_list_resume_all (SenderQ n) k;
     k \<leftarrow> rt_object_delete (Obj_ipc n) k;
     Some (RT_EOK, k) }"

definition mq_send_loop ::
  "nat \<Rightarrow> u8 list \<Rightarrow> tid option \<Rightarrow> tick \<Rightarrow> int \<Rightarrow> 'a ipc_scheme \<Rightarrow>
    ((int, tid \<times> tick \<times> int) outcome \<times> 'a ipc_scheme) option" where
  "mq_send_loop n buffer thread tick_delta timeout k =
     (case mq_grab (mqs k n) of
        None \<Rightarrow> do {
          t \<leftarrow> thread;
          let k = upd_thr t (set_error RT_EOK) k;
          if timeout = 0 then Some (Returns (- RT_EFULL), k)
          else do {
            RT_DEBUG_IN_THREAD_CONTEXT k;
            k' \<leftarrow> ipc_wait (SenderQ n) t (ipc_flag n k) timeout k;
            Some (Blocks (t, if 0 < timeout then rt_tick_get k else tick_delta, timeout), k') } }
      | Some (m, mq) \<Rightarrow> do {
          let k = upd_mq n (\<lambda>_. mq_link m (mq_fill m buffer mq)) k;
          k \<leftarrow> (if tlists k (SuspendQ n) \<noteq> [] then ipc_wake (SuspendQ n) k else Some k);
          Some (Returns RT_EOK, k) })"

definition rt_mq_send_wait ::
  "nat \<Rightarrow> u8 list \<Rightarrow> int \<Rightarrow> 'a ipc_scheme \<Rightarrow> ((int, tid \<times> tick \<times> int) outcome \<times> 'a ipc_scheme) option" where
  "rt_mq_send_wait n buffer timeout k = do {
     rt_assert (rt_object_get_type (Obj_ipc n) k = RT_Object_Class_MessageQueue);
     rt_assert (length buffer \<noteq> 0);
     if unat (msg_size (mqs k n)) < length buffer then Some (Returns (- RT_ERROR), k)
     else if msg_queue_free (mqs k n) = None \<and> timeout = 0 then Some (Returns (- RT_EFULL), k)
     else mq_send_loop n buffer (rt_thread_self k) 0 timeout k }"

definition rt_mq_send_wait_resumed ::
  "nat \<Rightarrow> u8 list \<Rightarrow> tid \<times> tick \<times> int \<Rightarrow> 'a ipc_scheme \<Rightarrow>
    ((int, tid \<times> tick \<times> int) outcome \<times> 'a ipc_scheme) option" where
  "rt_mq_send_wait_resumed n buffer w k = (case w of (t, tick_delta, timeout) \<Rightarrow>
     if error (thr k t) \<noteq> RT_EOK then Some (Returns (error (thr k t)), k)
     else mq_send_loop n buffer (Some t) (if 0 < timeout then rt_tick_get k - tick_delta else tick_delta)
       (time_left timeout (rt_tick_get k - tick_delta)) k)"

definition rt_mq_send ::
  "nat \<Rightarrow> u8 list \<Rightarrow> 'a ipc_scheme \<Rightarrow> ((int, tid \<times> tick \<times> int) outcome \<times> 'a ipc_scheme) option" where
  "rt_mq_send n buffer k = rt_mq_send_wait n buffer 0 k"

definition rt_mq_urgent :: "nat \<Rightarrow> u8 list \<Rightarrow> 'a ipc_scheme \<Rightarrow> (int \<times> 'a ipc_scheme) option" where
  "rt_mq_urgent n buffer k = do {
     rt_assert (rt_object_get_type (Obj_ipc n) k = RT_Object_Class_MessageQueue);
     rt_assert (length buffer \<noteq> 0);
     if unat (msg_size (mqs k n)) < length buffer then Some (- RT_ERROR, k)
     else (case mq_grab (mqs k n) of
        None \<Rightarrow> Some (- RT_EFULL, k)
      | Some (m, mq) \<Rightarrow> do {
          let k = upd_mq n (\<lambda>_. mq_link_first m (mq_write m buffer mq)) k;
          k \<leftarrow> (if tlists k (SuspendQ n) \<noteq> [] then ipc_wake (SuspendQ n) k else Some k);
          Some (RT_EOK, k) }) }"

text \<open>What is copied into the buffer of the receiver is part of the answer.\<close>

definition mq_recv_loop ::
  "nat \<Rightarrow> nat \<Rightarrow> tid option \<Rightarrow> tick \<Rightarrow> int \<Rightarrow> 'a ipc_scheme \<Rightarrow>
    ((int \<times> u8 list option, tid \<times> tick \<times> int) outcome \<times> 'a ipc_scheme) option" where
  "mq_recv_loop n sz thread tick_delta timeout k =
     (if mq_entry (mqs k n) = 0 then do {
        RT_DEBUG_IN_THREAD_CONTEXT k;
        t \<leftarrow> thread;
        let k = upd_thr t (set_error RT_EOK) k;
        if timeout = 0 then Some (Returns (- RT_ETIMEOUT, None), upd_thr t (set_error (- RT_ETIMEOUT)) k)
        else do {
          k' \<leftarrow> ipc_wait (SuspendQ n) t (ipc_flag n k) timeout k;
          Some (Blocks (t, if 0 < timeout then rt_tick_get k else tick_delta, timeout), k') } }
      else do {
        (m, mq) \<leftarrow> mq_unlink (mqs k n);
        let msg = mq_read m sz mq;
        let k = upd_mq n (\<lambda>_. mq_give_back m mq) k;
        k \<leftarrow> (if tlists k (SenderQ n) \<noteq> [] then ipc_wake (SenderQ n) k else Some k);
        Some (Returns (RT_EOK, Some msg), k) })"

definition rt_mq_recv ::
  "nat \<Rightarrow> nat \<Rightarrow> int \<Rightarrow> 'a ipc_scheme \<Rightarrow>
    ((int \<times> u8 list option, tid \<times> tick \<times> int) outcome \<times> 'a ipc_scheme) option" where
  "rt_mq_recv n sz timeout k = do {
     rt_assert (rt_object_get_type (Obj_ipc n) k = RT_Object_Class_MessageQueue);
     rt_assert (sz \<noteq> 0);
     if mq_entry (mqs k n) = 0 \<and> timeout = 0 then Some (Returns (- RT_ETIMEOUT, None), k)
     else mq_recv_loop n sz (rt_thread_self k) 0 timeout k }"

definition rt_mq_recv_resumed ::
  "nat \<Rightarrow> nat \<Rightarrow> tid \<times> tick \<times> int \<Rightarrow> 'a ipc_scheme \<Rightarrow>
    ((int \<times> u8 list option, tid \<times> tick \<times> int) outcome \<times> 'a ipc_scheme) option" where
  "rt_mq_recv_resumed n sz w k = (case w of (t, tick_delta, timeout) \<Rightarrow>
     if error (thr k t) \<noteq> RT_EOK then Some (Returns (error (thr k t), None), k)
     else mq_recv_loop n sz (Some t) (if 0 < timeout then rt_tick_get k - tick_delta else tick_delta)
       (time_left timeout (rt_tick_get k - tick_delta)) k)"

definition rt_mq_control :: "nat \<Rightarrow> int \<Rightarrow> 'a ipc_scheme \<Rightarrow> (int \<times> 'a ipc_scheme) option" where
  "rt_mq_control n cmd k = do {
     rt_assert (rt_object_get_type (Obj_ipc n) k = RT_Object_Class_MessageQueue);
     if cmd = RT_IPC_CMD_RESET then do {
       (_, k) \<leftarrow> rt_ipc_list_resume_all (SuspendQ n) k;
       (_, k) \<leftarrow> rt_ipc_list_resume_all (SenderQ n) k;
       mq \<leftarrow> mq_drain (mqs k n);
       k \<leftarrow> rt_schedule (upd_mq n (\<lambda>_. mq\<lparr>mq_entry := 0\<rparr>) k);
       Some (RT_EOK, k) }
     else Some (- RT_ERROR, k) }"

subsection \<open>Sending and receiving\<close>

definition mq_ok :: "nat \<Rightarrow> 'a ipc_scheme \<Rightarrow> bool" where
  "mq_ok n k \<longleftrightarrow> ipc_inv k \<and> rt_object_get_type (Obj_ipc n) k = RT_Object_Class_MessageQueue \<and>
     (ipc_flag n k = RT_IPC_FLAG_FIFO \<or> ipc_flag n k = RT_IPC_FLAG_PRIO) \<and> mq_pool_ok (mqs k n) \<and> 0 < msg_size (mqs k n)"

definition mq_mail :: "nat \<Rightarrow> 'a ipc_scheme \<Rightarrow> u8 list list" where
  "mq_mail n k = mq_msgs (mqs k n)"

definition mq_room :: "nat \<Rightarrow> 'a ipc_scheme \<Rightarrow> nat" where
  "mq_room n k = unat (max_msgs (mqs k n))"

definition mq_width :: "nat \<Rightarrow> 'a ipc_scheme \<Rightarrow> nat" where
  "mq_width n k = unat (msg_size (mqs k n))"

lemma mq_okD:
  assumes "mq_ok n k"
  shows "kinv k" "rt_current_thread k \<noteq> None" "rt_object_get_type (Obj_ipc n) k = RT_Object_Class_MessageQueue"
    "ipc_flag n k = RT_IPC_FLAG_FIFO \<or> ipc_flag n k = RT_IPC_FLAG_PRIO" "mq_pool_ok (mqs k n)" "0 < mq_width n k"
  using assms by (auto simp: mq_ok_def ipc_inv_def mq_width_def word_less_nat_alt)

lemma mq_ok_frame:
  assumes "mq_ok n k" "kinv k'" "rt_current_thread k' \<noteq> None" "ipc_frame k k'"
  shows "mq_ok n k'" "mq_mail n k' = mq_mail n k" "mq_room n k' = mq_room n k" "mq_width n k' = mq_width n k"
  using assms ipc_frame_obj [OF assms(4)] frame_objects(5) [OF assms(4)]
  by (simp_all add: mq_ok_def ipc_inv_def mq_mail_def mq_room_def mq_width_def)

lemma upd_mq_ok:
  assumes "mq_ok n k" "mq_pool_ok mq" "msg_size mq = msg_size (mqs k n)" "max_msgs mq = max_msgs (mqs k n)"
  shows "mq_ok n (upd_mq n (\<lambda>_. mq) k)" "mq_mail n (upd_mq n (\<lambda>_. mq) k) = mq_msgs mq"
    "mq_room n (upd_mq n (\<lambda>_. mq) k) = mq_room n k" "mq_width n (upd_mq n (\<lambda>_. mq) k) = mq_width n k"
  using assms by (simp_all add: mq_ok_def mq_mail_def mq_room_def mq_width_def)

lemma mq_full: "mq_ok n k \<Longrightarrow> msg_queue_free (mqs k n) = None \<longleftrightarrow> length (mq_mail n k) = mq_room n k"
  and mq_empty: "mq_ok n k \<Longrightarrow> mq_entry (mqs k n) = 0 \<longleftrightarrow> mq_mail n k = []"
  and mq_bounded: "mq_ok n k \<Longrightarrow> length (mq_mail n k) \<le> mq_room n k"
  using mq_pool_full mq_pool_empty mq_pool_bounded mq_okD(5) unfolding mq_mail_def mq_room_def by blast+

lemma mq_grab_free: "mq_grab mq = None \<longleftrightarrow> msg_queue_free mq = None"
  by (simp add: mq_grab_def split: option.splits)

text \<open>The same last step of all transfers: the first thread of a queue is let go.\<close>

lemma mq_then_wake:
  assumes ok: "mq_ok n k" and p: "mq_pool_ok mq" "msg_size mq = msg_size (mqs k n)" "max_msgs mq = max_msgs (mqs k n)"
    and w: "waiting_list l"
  shows "\<exists>k'. (if tlists k l \<noteq> [] then ipc_wake l (upd_mq n (\<lambda>_. mq) k) else Some (upd_mq n (\<lambda>_. mq) k)) = Some k' \<and>
    mq_ok n k' \<and> mq_mail n k' = mq_msgs mq \<and> mq_room n k' = mq_room n k \<and> mq_width n k' = mq_width n k \<and>
    tlists k' l = drop 1 (tlists k l) \<and> (\<forall>l'. waiting_list l' \<and> l' \<noteq> l \<longrightarrow> tlists k' l' = tlists k l') \<and>
    (\<forall>u. runnable (state_of k' u) \<longleftrightarrow> runnable (state_of k u) \<or> u \<in> set (take 1 (tlists k l))) \<and>
    (\<forall>u. error (thr k' u) = error (thr k u))"
proof -
  note u = upd_mq_ok [OF ok p]
  let ?k = "upd_mq n (\<lambda>_. mq) k"
  obtain k' where i: "(if tlists ?k l \<noteq> [] then ipc_wake l ?k else Some ?k) = Some k'" "kinv k'"
    "rt_current_thread k' \<noteq> None" "ipc_frame ?k k'" "tlists k' l = drop 1 (tlists ?k l)"
    "\<forall>l'. waiting_list l' \<and> l' \<noteq> l \<longrightarrow> tlists k' l' = tlists ?k l'"
    "\<forall>v. runnable (state_of k' v) \<longleftrightarrow> runnable (state_of ?k v) \<or> v \<in> set (take 1 (tlists ?k l))"
    "\<forall>v. error (thr k' v) = error (thr ?k v)"
    using wake_first [OF mq_okD(1,2) [OF u(1)] w] by blast
  note f = mq_ok_frame [OF u(1) i(2-4)]
  have e: "(if tlists k l \<noteq> [] then ipc_wake l ?k else Some ?k) = Some k'" using i(1) by simp
  show ?thesis
    by (rule exI [of _ k']) (use e i(5-8) f u in simp)
qed

lemma mq_send_loop_stores:
  assumes ok: "mq_ok n k" and r: "length (mq_mail n k) < mq_room n k" and b: "length buf \<le> mq_width n k"
  shows "\<exists>k' pad. mq_send_loop n buf self d timeout k = Some (Returns RT_EOK, k') \<and> mq_ok n k' \<and>
    mq_mail n k' = mq_mail n k @ [buf @ pad] \<and> length (buf @ pad) = mq_width n k \<and>
    mq_room n k' = mq_room n k \<and> mq_width n k' = mq_width n k \<and>
    tlists k' (SuspendQ n) = drop 1 (tlists k (SuspendQ n)) \<and> tlists k' (SenderQ n) = tlists k (SenderQ n) \<and>
    (\<forall>u. runnable (state_of k' u) \<longleftrightarrow> runnable (state_of k u) \<or> u \<in> set (take 1 (tlists k (SuspendQ n)))) \<and>
    (\<forall>u. error (thr k' u) = error (thr k u))"
proof -
  obtain m mq pad where g: "mq_grab (mqs k n) = Some (m, mq)" "mq_pool_ok (mq_link m (mq_fill m buf mq))"
    "mq_msgs (mq_link m (mq_fill m buf mq)) = mq_mail n k @ [buf @ pad]" "length (buf @ pad) = mq_width n k"
    "max_msgs (mq_link m (mq_fill m buf mq)) = max_msgs (mqs k n)" "msg_size (mq_link m (mq_fill m buf mq)) = msg_size (mqs k n)"
    using mq_send_msgs [OF mq_okD(5) [OF ok], of buf] r b unfolding mq_mail_def mq_room_def mq_width_def by blast
  from mq_then_wake [OF ok g(2,6,5) waiting_list_simps(1), of n] g show ?thesis
    by (auto simp: mq_send_loop_def)
qed

lemma mq_recv_loop_takes:
  assumes ok: "mq_ok n k" and r: "mq_mail n k = v # vs"
  shows "\<exists>k'. mq_recv_loop n sz self d timeout k = Some (Returns (RT_EOK, Some (take sz v)), k') \<and> mq_ok n k' \<and>
    mq_mail n k' = vs \<and> mq_room n k' = mq_room n k \<and> mq_width n k' = mq_width n k \<and>
    tlists k' (SenderQ n) = drop 1 (tlists k (SenderQ n)) \<and> tlists k' (SuspendQ n) = tlists k (SuspendQ n) \<and>
    (\<forall>u. runnable (state_of k' u) \<longleftrightarrow> runnable (state_of k u) \<or> u \<in> set (take 1 (tlists k (SenderQ n)))) \<and>
    (\<forall>u. error (thr k' u) = error (thr k u))"
proof -
  have ne: "mq_entry (mqs k n) \<noteq> 0" using r mq_empty [OF ok] by simp
  obtain m mq where g: "mq_unlink (mqs k n) = Some (m, mq)" "mq_pool_ok (mq_give_back m mq)" "mq_read m sz mq = take sz v"
    "mq_msgs (mq_give_back m mq) = vs" "max_msgs (mq_give_back m mq) = max_msgs (mqs k n)"
    "msg_size (mq_give_back m mq) = msg_size (mqs k n)"
    using mq_recv_msgs [OF mq_okD(5) [OF ok], of v vs sz] r unfolding mq_mail_def by blast
  from mq_then_wake [OF ok g(2,6,5) waiting_list_simps(2), of n] g ne show ?thesis
    by (auto simp: mq_recv_loop_def)
qed

lemma rt_mq_urgent_first:
  assumes ok: "mq_ok n k" and r: "length (mq_mail n k) < mq_room n k" and b: "buf \<noteq> []" "length buf \<le> mq_width n k"
  shows "\<exists>k' pad. rt_mq_urgent n buf k = Some (RT_EOK, k') \<and> mq_ok n k' \<and>
    mq_mail n k' = (buf @ pad) # mq_mail n k \<and> length (buf @ pad) = mq_width n k \<and>
    tlists k' (SuspendQ n) = drop 1 (tlists k (SuspendQ n)) \<and>
    (\<forall>u. runnable (state_of k' u) \<longleftrightarrow> runnable (state_of k u) \<or> u \<in> set (take 1 (tlists k (SuspendQ n))))"
proof -
  obtain m mq pad where g: "mq_grab (mqs k n) = Some (m, mq)" "mq_pool_ok (mq_link_first m (mq_write m buf mq))"
    "mq_msgs (mq_link_first m (mq_write m buf mq)) = (buf @ pad) # mq_mail n k" "length (buf @ pad) = mq_width n k"
    "max_msgs (mq_link_first m (mq_write m buf mq)) = max_msgs (mqs k n)"
    "msg_size (mq_link_first m (mq_write m buf mq)) = msg_size (mqs k n)"
    using mq_urgent_msgs [OF mq_okD(5) [OF ok], of buf] r b unfolding mq_mail_def mq_room_def mq_width_def by blast
  from mq_then_wake [OF ok g(2,6,5) waiting_list_simps(1), of n] g b mq_okD(3) [OF ok] show ?thesis
    by (auto simp: rt_mq_urgent_def mq_width_def)
qed

lemma rt_mq_urgent_full:
  assumes "mq_ok n k" "length (mq_mail n k) = mq_room n k" "buf \<noteq> []" "length buf \<le> mq_width n k"
  shows "rt_mq_urgent n buf k = Some (- RT_EFULL, k)"
  using assms mq_full [OF assms(1)] mq_okD(3) [OF assms(1)]
  by (simp add: rt_mq_urgent_def mq_grab_def mq_width_def split: option.splits)

lemma rt_mq_send_wait_room:
  assumes ok: "mq_ok n k" and r: "length (mq_mail n k) < mq_room n k" and b: "buf \<noteq> []" "length buf \<le> mq_width n k"
  shows "rt_mq_send_wait n buf timeout k = mq_send_loop n buf (rt_thread_self k) 0 timeout k"
  using mq_full [OF ok] r b mq_okD(3) [OF ok] by (auto simp: rt_mq_send_wait_def mq_width_def)

lemma rt_mq_send_wait_full:
  assumes ok: "mq_ok n k" and r: "length (mq_mail n k) = mq_room n k" and b: "buf \<noteq> []" "length buf \<le> mq_width n k"
  shows "rt_mq_send_wait n buf 0 k = Some (Returns (- RT_EFULL), k)"
  using mq_full [OF ok] r b mq_okD(3) [OF ok] by (simp add: rt_mq_send_wait_def mq_width_def)

text \<open>A message that does not fit is refused before anything is touched.\<close>

lemma rt_mq_send_wait_too_long:
  "mq_ok n k \<Longrightarrow> mq_width n k < length buf \<Longrightarrow> rt_mq_send_wait n buf timeout k = Some (Returns (- RT_ERROR), k)"
  by (auto simp: rt_mq_send_wait_def mq_width_def mq_okD(3))

lemma rt_mq_recv_mail:
  "mq_ok n k \<Longrightarrow> mq_mail n k \<noteq> [] \<Longrightarrow> sz \<noteq> 0 \<Longrightarrow>
   rt_mq_recv n sz timeout k = mq_recv_loop n sz (rt_thread_self k) 0 timeout k"
  by (simp add: rt_mq_recv_def mq_okD(3) mq_empty)

lemma rt_mq_recv_empty:
  "mq_ok n k \<Longrightarrow> mq_mail n k = [] \<Longrightarrow> sz \<noteq> 0 \<Longrightarrow> rt_mq_recv n sz 0 k = Some (Returns (- RT_ETIMEOUT, None), k)"
  by (simp add: rt_mq_recv_def mq_okD(3) mq_empty)

subsection \<open>First in, first out\<close>

text \<open>For messages that fill their slots, received with a buffer of that size.\<close>

definition mq_post :: "nat \<Rightarrow> u8 list \<Rightarrow> 'a ipc_scheme \<Rightarrow> 'a ipc_scheme option" where
  "mq_post n v k = (case rt_mq_send n v k of
      Some (Returns e, k') \<Rightarrow> if e = RT_EOK then Some k' else None | _ \<Rightarrow> None)"

definition mq_fetch :: "nat \<Rightarrow> 'a ipc_scheme \<Rightarrow> (u8 list \<times> 'a ipc_scheme) option" where
  "mq_fetch n k = (case rt_mq_recv n (unat (msg_size (mqs k n))) 0 k of
      Some (Returns (e, Some v), k') \<Rightarrow> Some (v, k') | _ \<Rightarrow> None)"

definition mq_fits :: "nat \<Rightarrow> 'a ipc_scheme \<Rightarrow> u8 list \<Rightarrow> bool" where
  "mq_fits n k v \<longleftrightarrow> length v = mq_width n k"

lemma mq_mail_width:
  assumes "mq_ok n k" "v \<in> set (mq_mail n k)"
  shows "length v = mq_width n k"
proof -
  have wf: "mq_wf (mqs k n) (mq_used (mqs k n)) (mq_unused (mqs k n)) {}"
    using mq_okD(5) [OF assms(1)] by (simp add: mq_pool_ok_def)
  obtain m where "m \<in> set (mq_used (mqs k n))" "v = mq_data (mqs k n) m"
    using assms(2) by (auto simp: mq_mail_def mq_msgs_def)
  moreover from this(1) have "m < unat (max_msgs (mqs k n))" using mq_wfD(8) [OF wf] by auto
  ultimately show ?thesis using mq_wfD(10) [OF wf] by (simp add: mq_width_def)
qed

interpretation mqq: bounded_queue "mq_ok n" "mq_mail n" "mq_room n" "mq_fits n" "mq_post n" "mq_fetch n" for n
proof
  fix k :: "'a ipc_scheme" and v vs
  assume ok: "mq_ok n k"
  note pos = mq_okD(6) [OF ok]
  show "length (mq_mail n k) \<le> mq_room n k" by (rule mq_bounded [OF ok])
  show "\<exists>k'. mq_post n v k = Some k' \<and> mq_ok n k' \<and> mq_mail n k' = mq_mail n k @ [v] \<and>
    mq_room n k' = mq_room n k \<and> mq_fits n k' = mq_fits n k" if f: "mq_fits n k v" and r: "length (mq_mail n k) < mq_room n k"
  proof -
    have b: "v \<noteq> []" "length v \<le> mq_width n k" using f pos by (auto simp: mq_fits_def)
    obtain k' pad where s: "mq_send_loop n v (rt_thread_self k) 0 0 k = Some (Returns RT_EOK, k')" "mq_ok n k'"
      "mq_mail n k' = mq_mail n k @ [v @ pad]" "length (v @ pad) = mq_width n k" "mq_room n k' = mq_room n k"
      "mq_width n k' = mq_width n k" using mq_send_loop_stores [OF ok r b(2)] by blast
    have "pad = []" using s(4) f by (simp add: mq_fits_def)
    then show ?thesis using s
      by (simp add: mq_post_def rt_mq_send_def rt_mq_send_wait_room [OF ok r b] mq_fits_def fun_eq_iff)
  qed
  show "mq_post n v k = None" if f: "mq_fits n k v" and r: "length (mq_mail n k) = mq_room n k"
  proof -
    have "v \<noteq> []" "length v \<le> mq_width n k" using f pos by (auto simp: mq_fits_def)
    from rt_mq_send_wait_full [OF ok r this] show ?thesis by (simp add: mq_post_def rt_mq_send_def)
  qed
  show "\<exists>k'. mq_fetch n k = Some (v, k') \<and> mq_ok n k' \<and> mq_mail n k' = vs \<and>
    mq_room n k' = mq_room n k \<and> mq_fits n k' = mq_fits n k" if r: "mq_mail n k = v # vs"
  proof -
    obtain k' where s: "mq_recv_loop n (mq_width n k) (rt_thread_self k) 0 0 k =
        Some (Returns (RT_EOK, Some (take (mq_width n k) v)), k')" "mq_ok n k'" "mq_mail n k' = vs"
      "mq_room n k' = mq_room n k" "mq_width n k' = mq_width n k" using mq_recv_loop_takes [OF ok r] by blast
    have "take (mq_width n k) v = v" using mq_mail_width [OF ok, of v] r by simp
    moreover have "rt_mq_recv n (mq_width n k) 0 k = mq_recv_loop n (mq_width n k) (rt_thread_self k) 0 0 k"
      using r pos by (intro rt_mq_recv_mail [OF ok]) simp_all
    ultimately show ?thesis using s by (simp add: mq_fetch_def mq_fits_def fun_eq_iff flip: mq_width_def)
  qed
  show "mq_fetch n k = None" if "mq_mail n k = []"
    using rt_mq_recv_empty [OF ok that, of "mq_width n k"] pos by (simp add: mq_fetch_def flip: mq_width_def)
qed

subsection \<open>Waiting\<close>

lemma mq_send_loop_waits:
  assumes ok: "mq_ok n k" and c: "caller t k" and full: "length (mq_mail n k) = mq_room n k"
    and time: "timeout \<noteq> 0" "timeout < 2 ^ 31 - 1"
  shows "\<exists>k'. mq_send_loop n buf (Some t) d timeout k =
      Some (Blocks (t, if 0 < timeout then rt_tick k else d, timeout), k') \<and> mq_ok n k' \<and>
    mq_mail n k' = mq_mail n k \<and> state_of k' t = RT_THREAD_SUSPEND \<and>
    tlists k' (SenderQ n) = queued (ipc_flag n k) (prio_of k) t (tlists k (SenderQ n)) \<and>
    (Thread_timer t \<in> set (rt_timer_list k') \<longleftrightarrow> 0 < timeout) \<and>
    (0 < timeout \<longrightarrow> expiry k' (Thread_timer t) = rt_tick k + word_of_int timeout)"
proof -
  have f: "mq_grab (mqs k n) = None" using full mq_full [OF ok] by (simp add: mq_grab_free)
  from block_self [OF mq_okD(1,4) [OF ok] c waiting_list_simps(2) time(2), of n] mq_ok_frame [OF ok] f c time(1)
  show ?thesis by (auto simp: mq_send_loop_def rt_tick_get_def)
qed

lemma mq_recv_loop_waits:
  assumes ok: "mq_ok n k" and c: "caller t k" and empty: "mq_mail n k = []"
    and time: "timeout \<noteq> 0" "timeout < 2 ^ 31 - 1"
  shows "\<exists>k'. mq_recv_loop n sz (Some t) d timeout k =
      Some (Blocks (t, if 0 < timeout then rt_tick k else d, timeout), k') \<and> mq_ok n k' \<and>
    mq_mail n k' = [] \<and> state_of k' t = RT_THREAD_SUSPEND \<and>
    tlists k' (SuspendQ n) = queued (ipc_flag n k) (prio_of k) t (tlists k (SuspendQ n)) \<and>
    (Thread_timer t \<in> set (rt_timer_list k') \<longleftrightarrow> 0 < timeout) \<and>
    (0 < timeout \<longrightarrow> expiry k' (Thread_timer t) = rt_tick k + word_of_int timeout)"
proof -
  have f: "mq_entry (mqs k n) = 0" using empty mq_empty [OF ok] by simp
  from block_self [OF mq_okD(1,4) [OF ok] c waiting_list_simps(1) time(2), of n] mq_ok_frame [OF ok] f c time(1) empty
  show ?thesis by (auto simp: mq_recv_loop_def rt_tick_get_def)
qed

text \<open>A receiver that is resumed and finds nothing again keeps its deadline.\<close>

lemma rt_mq_recv_resumed_again:
  assumes ok: "mq_ok n k" and c: "caller t k" and empty: "mq_mail n k = []"
    and e: "error (thr k t) = RT_EOK" and time: "0 < timeout" "timeout < 2 ^ 31 - 1" "uint (rt_tick k - start) < timeout"
  shows "\<exists>w k'. rt_mq_recv_resumed n sz (t, start, timeout) k = Some (Blocks w, k') \<and> mq_ok n k' \<and>
    mq_mail n k' = [] \<and> t \<in> set (tlists k' (SuspendQ n)) \<and> Thread_timer t \<in> set (rt_timer_list k') \<and>
    expiry k' (Thread_timer t) = start + word_of_int timeout"
proof -
  let ?left = "time_left timeout (rt_tick k - start)"
  have l: "?left = timeout - uint (rt_tick k - start)" using time_left_nat [of timeout "rt_tick k - start"] time by simp
  have pos: "0 < ?left" using l time(3) by simp
  moreover have "?left < 2 ^ 31 - 1" using l time(2) uint_ge_0 [of "rt_tick k - start"] by linarith
  ultimately obtain k' where "mq_recv_loop n sz (Some t) (rt_tick k - start) ?left k = Some (Blocks (t, rt_tick k, ?left), k')"
    "mq_ok n k'" "mq_mail n k' = []" "tlists k' (SuspendQ n) = queued (ipc_flag n k) (prio_of k) t (tlists k (SuspendQ n))"
    "Thread_timer t \<in> set (rt_timer_list k')" "expiry k' (Thread_timer t) = rt_tick k + word_of_int ?left"
    using mq_recv_loop_waits [OF ok c empty, of ?left sz "rt_tick k - start"] by auto
  moreover have "rt_tick k + word_of_int ?left = start + word_of_int timeout"
    by (rule time_left_deadline) (use time in simp_all)
  ultimately show ?thesis using e time(1) by (auto simp: rt_mq_recv_resumed_def rt_tick_get_def)
qed

text \<open>What is sent to a waiting receiver is what it gets when it runs, up to the size of its buffer.\<close>

lemma mq_handover:
  assumes ok: "mq_ok n k" and e: "mq_mail n k = []" and q: "tlists k (SuspendQ n) = r # rs"
    and er: "error (thr k r) = RT_EOK" and room: "0 < mq_room n k" and b: "buf \<noteq> []" "length buf \<le> mq_width n k"
  shows "\<exists>k1 k2. rt_mq_send n buf k = Some (Returns RT_EOK, k1) \<and> runnable (state_of k1 r) \<and>
    rt_mq_recv_resumed n (length buf) (r, start, timeout) k1 = Some (Returns (RT_EOK, Some buf), k2) \<and> mq_ok n k2 \<and>
    mq_mail n k2 = [] \<and> tlists k2 (SuspendQ n) = rs"
proof -
  have r: "length (mq_mail n k) < mq_room n k" using e room by simp
  obtain k1 pad where s: "mq_send_loop n buf (rt_thread_self k) 0 0 k = Some (Returns RT_EOK, k1)" "mq_ok n k1"
    "mq_mail n k1 = [buf @ pad]" "tlists k1 (SuspendQ n) = rs" "runnable (state_of k1 r)" "error (thr k1 r) = RT_EOK"
    using mq_send_loop_stores [OF ok r b(2), of "rt_thread_self k" 0 0] q e er by auto
  show ?thesis using s mq_recv_loop_takes [OF s(2,3), of "length buf"]
    by (fastforce simp: rt_mq_send_def rt_mq_send_wait_room [OF ok r b] rt_mq_recv_resumed_def)
qed

subsection \<open>Creation, reset and destruction\<close>

lemma rt_mq_control_reset:
  assumes ok: "mq_ok n k"
  shows "\<exists>k'. rt_mq_control n RT_IPC_CMD_RESET k = Some (RT_EOK, k') \<and> mq_ok n k' \<and> mq_mail n k' = [] \<and>
    mq_room n k' = mq_room n k \<and> waiters n k' = {} \<and>
    (\<forall>t \<in> waiters n k. runnable (state_of k' t) \<and> error (thr k' t) = - RT_ERROR)"
proof -
  note d = mq_okD [OF ok]
  obtain k1 k2 where r: "rt_ipc_list_resume_all (SuspendQ n) k = Some (RT_EOK, k1)"
    "rt_ipc_list_resume_all (SenderQ n) k1 = Some (RT_EOK, k2)" "kinv k2" "ipc_frame k k2"
    "rt_current_thread k2 = rt_current_thread k" "tlists k2 (SuspendQ n) = []" "tlists k2 (SenderQ n) = []"
    "\<forall>u. runnable (state_of k2 u) \<longleftrightarrow> runnable (state_of k u) \<or> u \<in> waiters n k"
    "\<forall>u. error (thr k2 u) = (if u \<in> waiters n k then - RT_ERROR else error (thr k u))"
    using resume_both [OF d(1), of n] by blast
  have "rt_current_thread k2 \<noteq> None" using r(5) d(2) by simp
  note k2 = mq_ok_frame [OF ok r(3) this r(4)]
  have "mq_wf (mqs k2 n) (mq_used (mqs k2 n)) (mq_unused (mqs k2 n)) {}"
    using mq_okD(5) [OF k2(1)] by (simp add: mq_pool_ok_def)
  from mq_drain_wf [OF this] obtain mq where m: "mq_drain (mqs k2 n) = Some mq"
    "mq_wf (mq\<lparr>mq_entry := 0\<rparr>) [] (rev (mq_used (mqs k2 n)) @ mq_unused (mqs k2 n)) {}"
    "max_msgs mq = max_msgs (mqs k2 n)" "msg_size mq = msg_size (mqs k2 n)" by blast
  let ?mq = "mq\<lparr>mq_entry := 0\<rparr>"
  let ?k = "upd_mq n (\<lambda>_. ?mq) k2"
  have "mq_pool_ok ?mq" "msg_size ?mq = msg_size (mqs k2 n)" "max_msgs ?mq = max_msgs (mqs k2 n)"
    using mq_wf_pool_ok [OF m(2)] m(3,4) by simp_all
  note u = upd_mq_ok [OF k2(1) this]
  obtain k3 where s: "rt_schedule ?k = Some k3" "kinv k3" "rt_current_thread k3 \<noteq> None" "wakes (SuspendQ n) {} ?k k3"
    "\<forall>l'. waiting_list l' \<longrightarrow> tlists k3 l' = tlists ?k l'" "\<forall>u. error (thr k3 u) = error (thr ?k u)"
    using schedule_wakes [OF mq_okD(1,2) [OF u(1)], of "SuspendQ n"] by blast
  note k3 = mq_ok_frame [OF u(1) s(2,3) wakes_frame [OF s(4)]]
  have "mqs k2 n = mqs k n" using frame_objects(5) [OF r(4)] by simp
  then have "rt_mq_control n RT_IPC_CMD_RESET k = Some (RT_EOK, k3)"
    using d(3) r(1,2) m(1) s(1) by (simp add: rt_mq_control_def)
  moreover have "waiters n k3 = {}" using s(5) r(6,7) by (simp add: waiters_def)
  moreover have "runnable (state_of k3 t) \<and> error (thr k3 t) = - RT_ERROR" if "t \<in> waiters n k" for t
    using that r(8,9) s(6) wakes_runnable [OF s(4), of t] by simp
  ultimately show ?thesis using k3 u(2,3) k2(3) mq_wf_msgs [OF m(2)] by simp
qed

text \<open>The header and the aligned message of every slot lie in the pool.\<close>

lemma rt_mq_init_kinv:
  assumes k: "kinv k" and l: "lock_ok k" and n: "Obj_ipc n \<notin> set (objects k RT_Object_Class_MessageQueue)"
    and m: "msize < 0xfff0" and p: "pool_size < 0x10000"
    and mem: "\<And>i. length (msgpool i) = unat (RT_ALIGN msize RT_ALIGN_SIZE)"
  shows "\<exists>k'. rt_mq_init n name msgpool msize pool_size flag k = Some (RT_EOK, k') \<and> kinv k' \<and>
    rt_object_get_type (Obj_ipc n) k' = RT_Object_Class_MessageQueue \<and> ipc_flag n k' = flag \<and> waiters n k' = {} \<and>
    mq_pool_ok (mqs k' n) \<and> mq_mail n k' = [] \<and> unat msize \<le> mq_width n k' \<and>
    mq_room n k' * (mq_width n k' + 4) \<le> unat pool_size"
proof -
  let ?al = "RT_ALIGN msize RT_ALIGN_SIZE"
  let ?w = "ucast ?al :: u16"
  let ?c = "ucast (pool_size div (ucast ?w + 4)) :: u16"
  obtain k1 where i: "rt_object_init (Obj_ipc n) RT_Object_Class_MessageQueue name k =
    Some (registered RT_Object_Class_MessageQueue (Obj_ipc n) name k1)" "kinv k1"
    using rt_object_init_ipc [OF k l _ n] by auto
  have "uint msize < 0xfff0" using m by (simp add: word_less_alt)
  then have o: "uint msize + 2 ^ 2 - 1 < 2 ^ 32" by simp
  have four: "(2 :: u32) ^ 2 = 4" by simp
  have b: "uint msize \<le> uint ?al" "uint ?al < uint msize + 4"
    using RT_ALIGN_bounds(1,2) [OF _ o] unfolding four by simp_all
  have nb: "unat msize \<le> unat ?al" "unat ?al < 0xfff4"
    using b \<open>uint msize < 0xfff0\<close> by (simp_all only: unat_eq_nat_uint)
  have w: "unat ?w = unat ?al" using nb(2) by (simp add: unsigned_ucast_eq take_bit_nat_eq_self unsigned_take_bit_eq)
  have w4: "unat (ucast ?w + 4 :: u32) = unat ?al + 4"
  proof -
    have "unat (ucast ?w :: u32) = unat ?al" using w by (simp add: unsigned_ucast_eq take_bit_nat_eq_self unsigned_take_bit_eq)
    then show ?thesis using nb(2) by (subst unat_add_lem [THEN iffD1]) simp_all
  qed
  have c: "unat ?c * (unat ?al + 4) \<le> unat pool_size"
  proof -
    have "unat ?c \<le> unat (pool_size div (ucast ?w + 4))" by (simp add: unsigned_ucast_eq take_bit_nat_less_eq_self unsigned_take_bit_eq)
    also have "\<dots> = unat pool_size div (unat ?al + 4)" using w4 by (simp add: unat_div)
    finally have "unat ?c * (unat ?al + 4) \<le> unat pool_size div (unat ?al + 4) * (unat ?al + 4)" by (rule mult_le_mono1)
    then show ?thesis using div_times_less_eq_dividend le_trans by blast
  qed
  let ?mq = "mqs k1 n\<lparr>mq_data := msgpool, msg_size := ?w, max_msgs := ?c\<rparr>"
  have "\<forall>m < unat (max_msgs ?mq). length (mq_data ?mq m) = unat (msg_size ?mq)" using mem w by simp
  note t = mq_thread_wf [OF this]
  have "mq_msgs (mq_thread ?mq) = []" using mq_wf_msgs [OF t(1)] by simp
  then show ?thesis using i t nb(1) w c mq_wf_pool_ok [OF t(1)]
    by (simp add: rt_mq_init_def Let_def mq_mail_def mq_room_def mq_width_def waiters_def)
qed

lemma rt_mq_detach_kinv:
  assumes k: "kinv k" and ty: "rt_object_get_type (Obj_ipc n) k = RT_Object_Class_MessageQueue"
    and s: "rt_object_is_systemobject (Obj_ipc n) k"
  shows "\<exists>k'. rt_mq_detach n k = Some (RT_EOK, k') \<and> kinv k' \<and> dissolved n (waiters n k) k k'"
proof -
  obtain k1 k2 where r: "rt_ipc_list_resume_all (SuspendQ n) k = Some (RT_EOK, k1)"
    "rt_ipc_list_resume_all (SenderQ n) k1 = Some (RT_EOK, k2)" "kinv k2" "ipc_frame k k2"
    "\<forall>u. runnable (state_of k2 u) \<longleftrightarrow> runnable (state_of k u) \<or> u \<in> waiters n k"
    "\<forall>u. error (thr k2 u) = (if u \<in> waiters n k then - RT_ERROR else error (thr k u))"
    using resume_both [OF k, of n] by blast
  then show ?thesis using ty s detach_dissolved [OF r(4)] by (simp add: rt_mq_detach_def)
qed

end
