(* ===== verification/DemoIpc.thy ===== *)
theory DemoIpc
  imports Demo Semaphore Mutex Event Mailbox MsgQueue
begin

text \<open>
  The objects of the small system: the semaphore 1, for which thread 4 waits, the free mutex 2, the
  event set 3, the empty mailbox 4 and the empty message queue 5 are in order; and variations of it
  in which a thread waits for an event, for mail, for a message, or owns the mutex.
\<close>

lemma demo_caller: "caller 2 demo"
proof -
  have "state_of demo 2 = RT_THREAD_RUNNING" unfolding demo_state by simp
  then show ?thesis by (simp add: caller_def)
qed

lemma demo_objects_sel [simp]:
  "sems demo n = \<lparr>sem_value = 0\<rparr>"
  "mutexes demo n = \<lparr>mutex_value = 1, original_priority = 255, hold = 0, owner = None\<rparr>"
  "event_objs demo n = \<lparr>events = 0\<rparr>"
  "mailboxes demo n = \<lparr>mb_pool = [0, 0], mb_size = 2, mb_entry = 0, in_offset = 0, out_offset = 0\<rparr>"
  "mqs demo n = \<lparr>mq_next = (\<lambda>i. if i = 1 then Some 0 else None), mq_data = (\<lambda>_. [0, 0, 0, 0]), msg_size = 4,
     max_msgs = 2, mq_entry = 0, msg_queue_head = None, msg_queue_tail = None, msg_queue_free = Some 1\<rparr>"
  by (simp_all add: demo_def)

lemma demo_sem_ok: "sem_ok 1 demo"
  using ipc_inv_demo demo_types(1) demo_flag by (simp add: sem_ok_def)

lemma demo_mutex_ok: "mutex_ok 2 demo"
  using ipc_inv_demo demo_types(2) demo_flag by (simp add: mutex_ok_def mutex_fields_ok_def demo_lists_def)

lemma demo_event_ok: "event_ok 3 demo"
  using ipc_inv_demo demo_types(3) demo_flag by (simp add: event_ok_def demo_lists_def)

lemma demo_mb_ok: "mb_ok 4 demo"
  using ipc_inv_demo demo_types(4) demo_flag by (simp add: mb_ok_def mb_ring_ok_def)

lemma demo_mb_mail: "mb_mail 4 demo = []" "mb_room 4 demo = 2"
  by (simp_all add: mb_mail_def mb_items_def mb_room_def)

lemma demo_mq_wf: "mq_wf (mqs demo 5) [] [1, 0] {}"
  by (auto simp: mq_wf_def)

lemma demo_mq_ok: "mq_ok 5 demo"
  using ipc_inv_demo demo_types(5) demo_flag mq_wf_pool_ok [OF demo_mq_wf] by (simp add: mq_ok_def)

lemma demo_mq_mail: "mq_mail 5 demo = []" "mq_room 5 demo = 2" "mq_width 5 demo = 4"
  using mq_wf_msgs [OF demo_mq_wf] by (simp_all add: mq_mail_def mq_room_def mq_width_def)

text \<open>Thread 4 waits for another object instead, without a wish for events.\<close>

definition demo_waiting :: "nat \<Rightarrow> ipc" where
  "demo_waiting n = demo\<lparr>tlists := (demo_lists(SuspendQ 1 := []))(SuspendQ n := [4])\<rparr>"

lemma demo_waiting_sel [simp]:
  "objs (demo_waiting n) = objs demo" "objects (demo_waiting n) = objects demo" "thr (demo_waiting n) = thr demo"
  "rt_current_thread (demo_waiting n) = Some 2" "rt_tick (demo_waiting n) = 90" "timers (demo_waiting n) = timers demo"
  "rt_timer_list (demo_waiting n) = [Thread_timer 4]" "rt_interrupt_nest (demo_waiting n) = 0"
  "rt_thread_ready_priority_group (demo_waiting n) = rt_thread_ready_priority_group demo"
  "sems (demo_waiting n) = sems demo" "mutexes (demo_waiting n) = mutexes demo" "event_objs (demo_waiting n) = event_objs demo"
  "mailboxes (demo_waiting n) = mailboxes demo" "mqs (demo_waiting n) = mqs demo"
  "tlists (demo_waiting n) (SuspendQ n) = [4]" "ipc_flag m (demo_waiting n) = ipc_flag m demo"
  "rt_object_get_type r (demo_waiting n) = rt_object_get_type r demo"
  "rt_object_is_systemobject r (demo_waiting n) = rt_object_is_systemobject r demo"
  by (simp_all add: demo_waiting_def ipc_flag_def object_defs)

lemma kinv_demo_waiting: "kinv (demo_waiting n)"
  unfolding demo_waiting_def
proof (rule relist_kinv [OF kinv_demo])
  show "lists_ok ((demo_lists(SuspendQ 1 := []))(SuspendQ n := [4]))"
    by (auto simp: lists_ok_def demo_lists_def split: if_splits)
  show "((demo_lists(SuspendQ 1 := []))(SuspendQ n := [4])) l = tlists demo l" if "\<not> waiting_list l" for l
  proof -
    have "l \<noteq> SuspendQ 1" "l \<noteq> SuspendQ n" using that by auto
    then show ?thesis by simp
  qed
  fix l t
  assume l: "waiting_list l" and t: "t \<in> set (((demo_lists(SuspendQ 1 := []))(SuspendQ n := [4])) l)"
  have "l \<noteq> ReadyQ p" for p using l by auto
  then have "t = 4" using t by (simp add: demo_lists_def split: if_splits)
  moreover have "4 \<in> set (tlists demo (SuspendQ 1))" by (simp add: demo_lists_def)
  ultimately show "\<exists>l'. waiting_list l' \<and> t \<in> set (tlists demo l')" using waiting_list_simps(1) by blast
qed

lemma demo_waiting_ok:
  "sem_ok 1 (demo_waiting 1)" "event_ok 3 (demo_waiting 3)" "mb_ok 4 (demo_waiting 4)" "mq_ok 5 (demo_waiting 5)"
  "mb_mail 4 (demo_waiting 4) = []" "mq_mail 5 (demo_waiting 5) = []" "mq_room 5 (demo_waiting 5) = 2"
  "mq_width 5 (demo_waiting 5) = 4"
proof -
  have i: "ipc_inv (demo_waiting n)" for n by (simp add: ipc_inv_def kinv_demo_waiting)
  show "sem_ok 1 (demo_waiting 1)" using i demo_sem_ok by (simp add: sem_ok_def)
  show "event_ok 3 (demo_waiting 3)" using i demo_event_ok by (simp add: event_ok_def demo_thread_def event_match_def)
  show "mb_ok 4 (demo_waiting 4)" using i demo_mb_ok by (simp add: mb_ok_def)
  show "mq_ok 5 (demo_waiting 5)" using i demo_mq_ok by (simp add: mq_ok_def)
  show "mb_mail 4 (demo_waiting 4) = []" using demo_mb_mail by (simp add: mb_mail_def)
  show "mq_mail 5 (demo_waiting 5) = []" "mq_room 5 (demo_waiting 5) = 2" "mq_width 5 (demo_waiting 5) = 4"
    using demo_mq_mail by (simp_all add: mq_mail_def mq_room_def mq_width_def)
qed

lemma demo_waiting_error: "error (thr (demo_waiting n) t) = 0"
  by (simp add: demo_thread_def Let_def)

lemma demo_waiting_caller: "caller 2 (demo_waiting n)"
  using demo_caller by (simp add: caller_def)

text \<open>Thread 3, less urgent, owns the mutex 2; or the thread 2 that runs does.\<close>

definition demo_owned :: "tid \<Rightarrow> u8 \<Rightarrow> ipc" where
  "demo_owned ow d = upd_mutex 2 (\<lambda>m. m\<lparr>mutex_value := 0, owner := Some ow, hold := d, original_priority := 10\<rparr>) demo"

lemma demo_owned_ok: "ow \<in> {1, 2, 3} \<Longrightarrow> d \<noteq> 0 \<Longrightarrow> mutex_ok 2 (demo_owned ow d)"
proof -
  assume a: "ow \<in> {1, 2, 3}" "d \<noteq> 0"
  have "live (state_of demo ow)" using a(1) unfolding demo_live by auto
  then show "mutex_ok 2 (demo_owned ow d)" unfolding demo_owned_def
    using a by (intro mutex_ok_upd [OF demo_mutex_ok])
      (simp_all add: mutex_fields_ok_def demo_lists_def RT_THREAD_PRIORITY_MAX_def)
qed

lemma demo_owned_caller: "caller 2 (demo_owned ow d)"
  using demo_caller by (simp add: caller_def demo_owned_def)

text \<open>Thread 4 waits at the event set 3 with a wish, and a mailbox without room.\<close>

definition demo_wish :: "u8 \<Rightarrow> u32 \<Rightarrow> ipc" where
  "demo_wish info want = upd_thr 4 (\<lambda>c. c\<lparr>event_set := want, event_info := info\<rparr>) (demo_waiting 3)"

lemma demo_wish_ok: "event_ok 3 (demo_wish 1 6)"
proof -
  have "kinv (demo_wish 1 6)" unfolding demo_wish_def by (rule set_wish_kinv) (rule kinv_demo_waiting)
  then show ?thesis using demo_waiting_ok(2)
    by (simp add: demo_wish_def event_ok_def ipc_inv_def event_match_def RT_EVENT_FLAG_AND_def)
qed

definition demo_mb_full :: ipc where
  "demo_mb_full = upd_mb 4 (\<lambda>_. \<lparr>mb_pool = [5, 6], mb_size = 2, mb_entry = 2, in_offset = 0, out_offset = 0\<rparr>) demo"

lemma demo_mb_full_ok: "mb_ok 4 demo_mb_full"
  unfolding demo_mb_full_def by (rule upd_mb_ok(1) [OF demo_mb_ok]) (simp add: mb_ring_ok_def)

lemma demo_mb_full_facts:
  "caller 2 demo_mb_full" "length (mb_mail 4 demo_mb_full) = mb_room 4 demo_mb_full" "error (thr demo_mb_full 2) = 0"
  "rt_tick demo_mb_full = 90"
  using demo_caller by (simp_all add: demo_mb_full_def caller_def mb_mail_def mb_room_def demo_thread_def Let_def)

end
