(* ===== verification/Bmem.thy ===== *)
theory Bmem
  imports Prelude
begin

text \<open>
  The allocator behind the shared memory of applications (\<^verbatim>\<open>extends/bin-core/lwt_shm.c\<close>,
  \<open>bmem_*\<close>): one region cut into a list of blocks, whose descriptors come from tables of eight.
  Allocation is first fit and keeps blocks apart; freeing takes the block out of the list, which
  moves every block behind it in the arithmetic of the allocator.
\<close>

subsection \<open>State\<close>

text \<open>
  The descriptor of the whole region is allocated on its own, all others are slots of a table. A
  table is named by the address \<open>rt_calloc\<close> gave for it.
\<close>

datatype block_id = First | Slot nat nat

record bmem_block =
  is_used :: u16
  len :: u16

record bmem =
  start :: u32
  mem_size :: u32
  used_mem_size :: u32
  used_max_mem_size :: u32
  tab_head :: "nat list"
  block_node :: "block_id list"
  used_num :: "nat \<Rightarrow> u32"
  block :: "block_id \<Rightarrow> bmem_block"

abbreviation (input) BLOCK_TAB_SIZE :: nat where "BLOCK_TAB_SIZE \<equiv> 8"

definition upd_block :: "block_id \<Rightarrow> (bmem_block \<Rightarrow> bmem_block) \<Rightarrow> bmem \<Rightarrow> bmem" where
  "upd_block b f m = m\<lparr>block := (block m)(b := f (block m b))\<rparr>"

subsection \<open>Descriptors\<close>

definition free_slots :: "bmem \<Rightarrow> nat \<Rightarrow> nat list" where
  "free_slots m t = (if used_num m t < of_nat BLOCK_TAB_SIZE
     then filter (\<lambda>i. is_used (block m (Slot t i)) = 0) [0..<BLOCK_TAB_SIZE] else [])"

fun find_slot :: "bmem \<Rightarrow> nat list \<Rightarrow> block_id option" where
  "find_slot m [] = None"
| "find_slot m (t # ts) = (case free_slots m t of [] \<Rightarrow> find_slot m ts | i # _ \<Rightarrow> Some (Slot t i))"

definition take_slot :: "block_id \<Rightarrow> bmem \<Rightarrow> bmem" where
  "take_slot b m = (case b of First \<Rightarrow> m | Slot t i \<Rightarrow> m\<lparr>used_num := (used_num m)(t := used_num m t + 1)\<rparr>)"

definition add_tab :: "nat \<Rightarrow> bmem \<Rightarrow> bmem" where
  "add_tab t m = m\<lparr>tab_head := t # tab_head m, used_num := (used_num m)(t := 0),
     block := (\<lambda>b. case b of First \<Rightarrow> block m First
       | Slot u i \<Rightarrow> if u = t then \<lparr>is_used = 0, len = 0\<rparr> else block m b)\<rparr>"

text \<open>
  The \<open>while(1)\<close> loop: when no table has a free slot a zeroed one is put in front, and the next
  round finds its first slot. \<open>tab\<close> is what \<open>rt_calloc\<close> returns.
\<close>

definition get_mem_block :: "nat option \<Rightarrow> bmem \<Rightarrow> block_id option \<times> bmem" where
  "get_mem_block tab m = (case find_slot m (tab_head m) of
     Some b \<Rightarrow> (Some b, take_slot b m)
   | None \<Rightarrow> (case tab of None \<Rightarrow> (None, m)
       | Some t \<Rightarrow> (case find_slot (add_tab t m) (tab_head (add_tab t m)) of
            Some b \<Rightarrow> (Some b, take_slot b (add_tab t m))
          | None \<Rightarrow> (None, add_tab t m))))"

text \<open>
  \<open>put_mem_block\<close> looks through a pointer it has not set (\<open>bmem_block->is_used\<close>); \<open>probe\<close> is what
  it reads there.
\<close>

definition put_mem_block :: "bool \<Rightarrow> block_id \<Rightarrow> bmem \<Rightarrow> int \<times> bmem" where
  "put_mem_block probe b m = (case b of
     Slot t i \<Rightarrow>
       if probe \<and> t \<in> set (tab_head m) \<and> i < BLOCK_TAB_SIZE then
         let m = upd_block b (\<lambda>x. x\<lparr>is_used := 0\<rparr>) m;
             m = m\<lparr>used_num := (used_num m)(t := used_num m t - 1)\<rparr>
         in (RT_EOK, if used_num m t = 0 then m\<lparr>tab_head := remove1 t (tab_head m)\<rparr> else m)
       else (- RT_ERROR, m)
   | First \<Rightarrow> (- RT_ERROR, m))"

subsection \<open>Allocation\<close>

definition bmem_create :: "u32 \<Rightarrow> u32 \<Rightarrow> bmem" where
  "bmem_create st sz = \<lparr>start = st, mem_size = sz, used_mem_size = 0, used_max_mem_size = 0, tab_head = [],
     block_node = [First], used_num = (\<lambda>_. 0), block = (\<lambda>_. \<lparr>is_used = 0, len = ucast sz\<rparr>)\<rparr>"

fun insert_block :: "block_id \<Rightarrow> block_id \<Rightarrow> block_id list \<Rightarrow> block_id list" where
  "insert_block nb b [] = []"
| "insert_block nb b (x # xs) = (if x = b then nb # x # xs else x # insert_block nb b xs)"

definition split_block :: "nat option \<Rightarrow> u32 \<Rightarrow> block_id \<Rightarrow> bmem \<Rightarrow> bmem option \<times> bmem" where
  "split_block tab sz b m =
     (if sz < ucast (len (block m b)) then
        (case get_mem_block tab m of
           (None, m) \<Rightarrow> (None, m)
         | (Some nb, m) \<Rightarrow>
             let m = upd_block nb (\<lambda>_. \<lparr>is_used = 1, len = ucast sz\<rparr>) m;
                 m = upd_block b (\<lambda>x. x\<lparr>len := ucast (ucast (len x) - sz)\<rparr>) m;
                 m = m\<lparr>block_node := insert_block nb b (block_node m)\<rparr>
             in (Some m, m))
      else (Some m, m))"

fun malloc_loop :: "nat option \<Rightarrow> u32 \<Rightarrow> block_id list \<Rightarrow> u32 \<Rightarrow> bmem \<Rightarrow> u32 option \<times> bmem" where
  "malloc_loop tab sz [] off m = (None, m)"
| "malloc_loop tab sz (b # bs) off m =
     (if is_used (block m b) = 0 \<and> sz \<le> ucast (len (block m b)) then
        (case split_block tab sz b m of
           (None, m) \<Rightarrow> (None, m)
         | (Some m, _) \<Rightarrow>
             let m = (if ucast (len (block m b)) = sz then upd_block b (\<lambda>x. x\<lparr>is_used := 1\<rparr>) m else m);
                 m = m\<lparr>used_mem_size := used_mem_size m + sz\<rparr>;
                 m = (if used_max_mem_size m < used_mem_size m then m\<lparr>used_max_mem_size := used_mem_size m\<rparr> else m)
             in (Some (start m + off), m))
      else malloc_loop tab sz bs (off + ucast (len (block m b))) m)"

definition bmem_malloc :: "nat option \<Rightarrow> u32 \<Rightarrow> bmem \<Rightarrow> u32 option \<times> bmem" where
  "bmem_malloc tab sz m = (if sz \<le> mem_size m then malloc_loop tab sz (block_node m) 0 m else (None, m))"

fun free_loop :: "bool \<Rightarrow> u32 \<Rightarrow> block_id list \<Rightarrow> u32 \<Rightarrow> bmem \<Rightarrow> int \<times> bmem" where
  "free_loop probe a [] off m = (- RT_ERROR, m)"
| "free_loop probe a (b # bs) off m =
     (if a = start m + off then
        let m = snd (put_mem_block probe b m)
        in (RT_EOK, m\<lparr>block_node := remove1 b (block_node m)\<rparr>)
      else free_loop probe a bs (off + ucast (len (block m b))) m)"

definition bmem_free :: "bool \<Rightarrow> u32 \<Rightarrow> bmem \<Rightarrow> int \<times> bmem" where
  "bmem_free probe a m = free_loop probe a (block_node m) 0 m"

subsection \<open>What the list says\<close>

text \<open>The allocator knows a block by the lengths of the blocks before it.\<close>

definition blen :: "bmem \<Rightarrow> block_id \<Rightarrow> nat" where
  "blen m b = unat (len (block m b))"

fun ranges :: "bmem \<Rightarrow> block_id list \<Rightarrow> nat \<Rightarrow> (block_id \<times> nat \<times> nat) list" where
  "ranges m [] off = []"
| "ranges m (b # bs) off = (b, off, blen m b) # ranges m bs (off + blen m b)"

definition total :: "bmem \<Rightarrow> block_id list \<Rightarrow> nat" where
  "total m bs = sum_list (map (blen m) bs)"

definition in_use :: "bmem \<Rightarrow> block_id list \<Rightarrow> nat \<Rightarrow> (nat \<times> nat) set" where
  "in_use m bs off = {(off', l). \<exists>b. (b, off', l) \<in> set (ranges m bs off) \<and> is_used (block m b) \<noteq> 0}"

lemma total_simps [simp]:
  "total m [] = 0" "total m (b # bs) = blen m b + total m bs" "total m (xs @ ys) = total m xs + total m ys"
  by (simp_all add: total_def)

lemma in_use_simps [simp]:
  "in_use m [] off = {}"
  "in_use m (b # bs) off = (if is_used (block m b) \<noteq> 0 then {(off, blen m b)} else {}) \<union> in_use m bs (off + blen m b)"
  by (auto simp: in_use_def)

lemma in_use_append [simp]: "in_use m (xs @ ys) off = in_use m xs off \<union> in_use m ys (off + total m xs)"
  by (induction xs arbitrary: off) (auto simp: add.assoc)

lemma in_use_cong: "(\<And>b. b \<in> set bs \<Longrightarrow> block m' b = block m b) \<Longrightarrow> in_use m' bs off = in_use m bs off"
  by (induction bs arbitrary: off) (auto simp: blen_def)

lemma total_cong: "(\<And>b. b \<in> set bs \<Longrightarrow> block m' b = block m b) \<Longrightarrow> total m' bs = total m bs"
  by (simp add: total_def blen_def cong: map_cong)

lemma in_use_bounds: "(o', l) \<in> in_use m bs off \<Longrightarrow> off \<le> o' \<and> o' + l \<le> off + total m bs"
  by (induction bs arbitrary: off) (fastforce split: if_splits)+

definition bmem_ok :: "bmem \<Rightarrow> bool" where
  "bmem_ok m \<longleftrightarrow> distinct (block_node m) \<and> total m (block_node m) = unat (mem_size m) \<and> mem_size m < 0x10000 \<and>
     (\<forall>t i. Slot t i \<in> set (block_node m) \<longrightarrow> t \<in> set (tab_head m) \<and> i < BLOCK_TAB_SIZE \<and> is_used (block m (Slot t i)) \<noteq> 0)"

lemma bmem_create_ok: "sz < 0x10000 \<Longrightarrow> bmem_ok (bmem_create st sz)"
  by (simp add: bmem_ok_def bmem_create_def total_def blen_def unsigned_ucast_eq take_bit_nat_eq_self word_less_nat_alt)

subsection \<open>Descriptors are fresh\<close>

lemma find_slot_Some:
  "find_slot m ts = Some b \<Longrightarrow> \<exists>t i. b = Slot t i \<and> t \<in> set ts \<and> i < BLOCK_TAB_SIZE \<and> is_used (block m b) = 0"
proof (induction ts)
  case (Cons t ts)
  show ?case
  proof (cases "free_slots m t")
    case Nil
    then show ?thesis using Cons by auto
  next
    case (Cons i js)
    then have "i \<in> set (free_slots m t)" by simp
    then have "i < BLOCK_TAB_SIZE" "is_used (block m (Slot t i)) = 0"
      unfolding free_slots_def by (simp_all split: if_splits)
    then show ?thesis using Cons Cons.prems by auto
  qed
qed simp

text \<open>The \<open>while(1)\<close> loop ends in its second round at the latest.\<close>

lemma get_mem_block_total:
  "get_mem_block (Some t) m \<noteq> (None, m')"
proof -
  have "find_slot (add_tab t m) (tab_head (add_tab t m)) = Some (Slot t 0)"
    by (simp add: add_tab_def free_slots_def upt_rec)
  then show ?thesis by (simp add: get_mem_block_def split: option.splits)
qed

lemma get_mem_block_ok:
  assumes ok: "bmem_ok m" and fr: "\<And>t. tab = Some t \<Longrightarrow> t \<notin> set (tab_head m)" and g: "get_mem_block tab m = (r, m1)"
  shows "block_node m1 = block_node m" "start m1 = start m" "mem_size m1 = mem_size m"
    "set (tab_head m) \<subseteq> set (tab_head m1)" "\<And>b. b \<in> set (block_node m) \<Longrightarrow> block m1 b = block m b"
    "\<And>nb. r = Some nb \<Longrightarrow> nb \<notin> set (block_node m) \<and> (\<exists>t i. nb = Slot t i \<and> t \<in> set (tab_head m1) \<and> i < BLOCK_TAB_SIZE)"
proof -
  have ts: "take_slot b m' = m'\<lparr>used_num := used_num (take_slot b m')\<rparr>" for b m'
    by (simp add: take_slot_def split: block_id.splits)
  have sel: "block_node (take_slot b m') = block_node m'" "start (take_slot b m') = start m'"
    "mem_size (take_slot b m') = mem_size m'" "tab_head (take_slot b m') = tab_head m'" "block (take_slot b m') = block m'" for b m'
    by (simp_all add: take_slot_def split: block_id.splits)
  have new: "block (add_tab t m) b = block m b" if "tab = Some t" "b \<in> set (block_node m)" for t b
    using ok fr [OF that(1)] that(2) by (auto simp: add_tab_def bmem_ok_def split: block_id.splits)
  have cases: "(\<exists>b. find_slot m (tab_head m) = Some b \<and> r = Some b \<and> m1 = take_slot b m) \<or>
    (find_slot m (tab_head m) = None \<and> tab = None \<and> r = None \<and> m1 = m) \<or>
    (\<exists>t b. tab = Some t \<and> r = Some b \<and> m1 = take_slot b (add_tab t m) \<and>
       find_slot (add_tab t m) (tab_head (add_tab t m)) = Some b) \<or>
    (\<exists>t. tab = Some t \<and> r = None \<and> m1 = add_tab t m)"
  proof (cases "find_slot m (tab_head m)")
    case n: None
    show ?thesis
    proof (cases tab)
      case None
      then show ?thesis using g n by (simp add: get_mem_block_def)
    next
      case (Some t)
      show ?thesis
      proof (cases "find_slot (add_tab t m) (tab_head (add_tab t m))")
        case None
        then have "r = None" "m1 = add_tab t m" using g n Some by (simp_all add: get_mem_block_def)
        then show ?thesis using Some by blast
      next
        case (Some b)
        then have "r = Some b" "m1 = take_slot b (add_tab t m)" using g n \<open>tab = Some t\<close> by (simp_all add: get_mem_block_def)
        then show ?thesis using Some \<open>tab = Some t\<close> by blast
      qed
    qed
  next
    case (Some b)
    then have "r = Some b" "m1 = take_slot b m" using g by (simp_all add: get_mem_block_def)
    then show ?thesis using Some by blast
  qed
  have at: "block_node (add_tab t m) = block_node m" "start (add_tab t m) = start m" "mem_size (add_tab t m) = mem_size m"
    "tab_head (add_tab t m) = t # tab_head m" for t by (simp_all add: add_tab_def)
  show "block_node m1 = block_node m" "start m1 = start m" "mem_size m1 = mem_size m" "set (tab_head m) \<subseteq> set (tab_head m1)"
    using cases by (auto simp: sel at)
  show "block m1 b = block m b" if "b \<in> set (block_node m)" for b
    using cases new that by (auto simp: sel)
  show "nb \<notin> set (block_node m) \<and> (\<exists>t i. nb = Slot t i \<and> t \<in> set (tab_head m1) \<and> i < BLOCK_TAB_SIZE)" if r: "r = Some nb" for nb
  proof -
    obtain m0 where m0: "find_slot m0 (tab_head m0) = Some nb" "m1 = take_slot nb m0"
      "\<And>b. b \<in> set (block_node m) \<Longrightarrow> block m0 b = block m b"
      using cases r new by auto
    obtain t i where ti: "nb = Slot t i" "t \<in> set (tab_head m0)" "i < BLOCK_TAB_SIZE" "is_used (block m0 nb) = 0"
      using find_slot_Some [OF m0(1)] by blast
    have "nb \<notin> set (block_node m)"
      using ok ti(1,4) m0(3) by (auto simp: bmem_ok_def)
    then show ?thesis using ti m0(2) by (simp add: sel)
  qed
qed

subsection \<open>Allocation keeps blocks apart\<close>

lemma ucast_u16 [simp]: "unat (ucast (w :: u16) :: u32) = unat w"
  by (simp add: unsigned_ucast_eq take_bit_nat_eq_self_iff less_trans [OF unsigned_less])

lemma ucast_small: "(sz :: u32) \<le> ucast (w :: u16) \<Longrightarrow> unat (ucast sz :: u16) = unat sz"
proof -
  assume "sz \<le> ucast w"
  then have "unat sz \<le> unat w" by (simp add: word_le_nat_alt)
  moreover have "unat w < 2 ^ 16" using unsigned_less [where 'a = nat, of w] by simp
  ultimately show ?thesis by (simp add: unsigned_ucast_eq take_bit_nat_eq_self)
qed

lemma insert_block_at: "b \<notin> set xs \<Longrightarrow> insert_block nb b (xs @ b # ys) = xs @ nb # b # ys"
  by (induction xs) auto

text \<open>\<open>held m\<close>: the ranges of the blocks in use.\<close>

definition held :: "bmem \<Rightarrow> (nat \<times> nat) set" where
  "held m = in_use m (block_node m) 0"

definition apart :: "nat \<Rightarrow> nat \<Rightarrow> (nat \<times> nat) set \<Rightarrow> bool" where
  "apart off l R \<longleftrightarrow> (\<forall>(o', l') \<in> R. off + l \<le> o' \<or> o' + l' \<le> off)"

lemma apartI: "(\<And>o' l'. (o', l') \<in> R \<Longrightarrow> off + l \<le> o' \<or> o' + l' \<le> off) \<Longrightarrow> apart off l R"
  by (auto simp: apart_def)

lemma split_block_ok:
  assumes ok: "bmem_ok m" and fr: "\<And>t. tab = Some t \<Longrightarrow> t \<notin> set (tab_head m)" and bn: "block_node m = pre @ b # ys"
    and u: "is_used (block m b) = 0" and l: "sz \<le> ucast (len (block m b))" and s: "split_block tab sz b m = (Some m2, m3)"
  shows "\<exists>mid. block_node m2 = pre @ mid @ ys \<and> distinct (pre @ mid @ ys) \<and> start m2 = start m \<and> mem_size m2 = mem_size m \<and>
    (\<forall>x \<in> set pre \<union> set ys. block m2 x = block m x) \<and> set (tab_head m) \<subseteq> set (tab_head m2) \<and>
    (\<forall>t i. Slot t i \<in> set mid \<and> Slot t i \<noteq> b \<longrightarrow> t \<in> set (tab_head m2) \<and> i < BLOCK_TAB_SIZE \<and> is_used (block m2 (Slot t i)) \<noteq> 0) \<and>
    is_used (block m2 b) = 0 \<and> total m2 mid = blen m b \<and>
    (mid = [b] \<and> blen m2 b = unat sz \<or>
     (\<exists>nb. mid = [nb, b] \<and> blen m2 nb = unat sz \<and> is_used (block m2 nb) \<noteq> 0))"
proof (cases "sz < ucast (len (block m b))")
  case False
  then have "sz = ucast (len (block m b))" using l by simp
  then have "unat sz = blen m b" by (simp add: blen_def)
  moreover have "m2 = m" using s False by (simp add: split_block_def)
  moreover have "\<And>t i. b \<noteq> Slot t i" using ok bn u by (auto simp: bmem_ok_def)
  ultimately show ?thesis using bn u ok by (intro exI [of _ "[b]"]) (auto simp: bmem_ok_def)
next
  case True
  obtain nb m1 where g: "get_mem_block tab m = (Some nb, m1)"
    using s True by (auto simp: split_block_def split: prod.splits option.splits)
  note gb = get_mem_block_ok [OF ok fr g]
  have nb: "nb \<notin> set (pre @ b # ys)" using gb(6) bn by simp
  obtain t i where ti: "nb = Slot t i" "t \<in> set (tab_head m1)" "i < BLOCK_TAB_SIZE" using gb(6) by blast
  have d: "distinct (pre @ b # ys)" using ok bn by (simp add: bmem_ok_def)
  have b1: "block m1 b = block m b" using gb(5) bn by simp
  define lb where "lb = len (block m b)"
  define m' where "m' = upd_block b (\<lambda>x. x\<lparr>len := ucast (ucast (len x) - sz)\<rparr>) (upd_block nb (\<lambda>_. \<lparr>is_used = 1, len = ucast sz\<rparr>) m1)"
  have m2: "m2 = m'\<lparr>block_node := pre @ nb # b # ys\<rparr>"
  proof -
    have "insert_block nb b (block_node m1) = pre @ nb # b # ys" using gb(1) bn d by (simp add: insert_block_at)
    moreover have "b \<noteq> nb" using nb by auto
    ultimately show ?thesis using s True g by (auto simp: split_block_def m'_def upd_block_def Let_def)
  qed
  have sl: "unat sz \<le> unat lb" using l by (simp add: word_le_nat_alt lb_def)
  have sz: "unat (ucast sz :: u16) = unat sz" using l by (rule ucast_small)
  have rest: "unat (ucast (ucast lb - sz :: u32) :: u16) = unat lb - unat sz"
  proof -
    have "unat (ucast lb - sz :: u32) = unat lb - unat sz" using l by (simp add: unat_sub lb_def)
    moreover have "unat lb - unat sz < 2 ^ 16" using unsigned_less [where 'a = nat, of lb] by simp
    ultimately show ?thesis by (simp add: unsigned_ucast_eq take_bit_nat_eq_self)
  qed
  have bl: "block m2 nb = \<lparr>is_used = 1, len = ucast sz\<rparr>" "block m2 b = (block m b)\<lparr>len := ucast (ucast lb - sz)\<rparr>"
  proof -
    have "b \<noteq> nb" "nb \<noteq> b" using nb by auto
    then show "block m2 nb = \<lparr>is_used = 1, len = ucast sz\<rparr>" "block m2 b = (block m b)\<lparr>len := ucast (ucast lb - sz)\<rparr>"
      using b1 by (simp_all add: m2 m'_def upd_block_def lb_def)
  qed
  have same: "block m2 x = block m x" if "x \<in> set pre \<union> set ys" for x
  proof -
    have "x \<noteq> nb" "x \<noteq> b" "x \<in> set (block_node m)" using that nb d bn by auto
    then show ?thesis using gb(5) by (simp add: m2 m'_def upd_block_def)
  qed
  have sel: "start m2 = start m" "mem_size m2 = mem_size m" "tab_head m2 = tab_head m1"
    using gb(2,3) by (simp_all add: m2 m'_def upd_block_def)
  show ?thesis
    using m2 nb d sel gb(4) same bl u ti sz rest sl
    by (intro exI [of _ "[nb, b]"]) (auto simp: blen_def lb_def)
qed

lemma malloc_block:
  assumes ok: "bmem_ok m" and fr: "\<And>t. tab = Some t \<Longrightarrow> t \<notin> set (tab_head m)" and bn: "block_node m = pre @ b # ys"
    and u: "is_used (block m b) = 0" and l: "sz \<le> ucast (len (block m b))" and off: "off = of_nat (total m pre)"
    and r: "malloc_loop tab sz (b # ys) off m = (Some p, m')"
  shows "bmem_ok m' \<and> p = start m + of_nat (total m pre) \<and> total m pre + unat sz \<le> unat (mem_size m) \<and>
    apart (total m pre) (unat sz) (held m) \<and> insert (total m pre, unat sz) (held m) \<subseteq> held m' \<and>
    start m' = start m \<and> mem_size m' = mem_size m"
proof -
  obtain m2 m3 where s: "split_block tab sz b m = (Some m2, m3)"
    using r u l by (auto split: prod.splits option.splits)
  obtain mid where mid: "block_node m2 = pre @ mid @ ys" "distinct (pre @ mid @ ys)" "start m2 = start m" "mem_size m2 = mem_size m"
    "\<forall>x \<in> set pre \<union> set ys. block m2 x = block m x" "set (tab_head m) \<subseteq> set (tab_head m2)"
    "\<forall>t i. Slot t i \<in> set mid \<and> Slot t i \<noteq> b \<longrightarrow> t \<in> set (tab_head m2) \<and> i < BLOCK_TAB_SIZE \<and> is_used (block m2 (Slot t i)) \<noteq> 0"
    "is_used (block m2 b) = 0" "total m2 mid = blen m b"
    "mid = [b] \<and> blen m2 b = unat sz \<or> (\<exists>nb. mid = [nb, b] \<and> blen m2 nb = unat sz \<and> is_used (block m2 nb) \<noteq> 0)"
    using split_block_ok [OF ok fr bn u l s] by blast
  define full where "full = (ucast (len (block m2 b)) = sz)"
  define m4 where "m4 = (if full then upd_block b (\<lambda>x. x\<lparr>is_used := 1\<rparr>) m2 else m2)"
  have p: "p = start m2 + off" "block_node m' = block_node m4" "block m' = block m4" "tab_head m' = tab_head m4"
    "mem_size m' = mem_size m4" "start m' = start m4"
    using r u l s by (auto simp: m4_def full_def upd_block_def Let_def split: if_splits)
  have sel: "block_node m4 = pre @ mid @ ys" "tab_head m4 = tab_head m2" "mem_size m4 = mem_size m" "start m4 = start m"
    using mid(1,3,4) by (simp_all add: m4_def upd_block_def)
  have nb: "\<And>t i. b \<noteq> Slot t i" using ok bn u by (auto simp: bmem_ok_def)
  have bm: "b \<in> set mid" using mid(10) by auto
  have other: "block m' x = block m2 x" if "x \<noteq> b" for x using that by (simp add: p(3) m4_def upd_block_def)
  have lens: "blen m' x = blen m2 x" for x by (simp add: p(3) m4_def blen_def upd_block_def)
  have same: "block m' x = block m x" if "x \<in> set pre \<union> set ys" for x
  proof -
    have "x \<noteq> b" using that mid(2) bm by auto
    then show ?thesis using other mid(5) that by simp
  qed
  have tp: "total m' pre = total m pre" "total m' ys = total m ys" using same by (simp_all cong: total_cong)
  have tm: "total m' mid = blen m b" 
  proof -
    have "blen m' = blen m2" using lens by (intro ext)
    then show ?thesis using mid(9) by (simp add: total_def)
  qed
  have all: "total m pre + blen m b + total m ys = unat (mem_size m)" using ok bn by (simp add: bmem_ok_def)
  have bl: "blen m b = unat (len (block m b))" by (simp add: blen_def)
  have fits: "unat sz \<le> blen m b" using l by (simp add: word_le_nat_alt bl)
  have "bmem_ok m'"
    unfolding bmem_ok_def p(2,4,5) sel
  proof (intro conjI allI impI)
    show "distinct (pre @ mid @ ys)" by (rule mid(2))
    show "total m' (pre @ mid @ ys) = unat (mem_size m)" using tp tm all by simp
    show "mem_size m < 0x10000" using ok by (simp add: bmem_ok_def)
    fix t i
    assume x: "Slot t i \<in> set (pre @ mid @ ys)"
    have "t \<in> set (tab_head m2) \<and> i < BLOCK_TAB_SIZE \<and> is_used (block m' (Slot t i)) \<noteq> 0"
    proof (cases "Slot t i \<in> set mid")
      case True
      moreover have "Slot t i \<noteq> b" using nb by metis
      ultimately show ?thesis using mid(7) other [of "Slot t i"] by auto
    next
      case False
      then have "Slot t i \<in> set pre \<union> set ys" using x by auto
      moreover from this have "Slot t i \<in> set (block_node m)" using bn by auto
      ultimately show ?thesis using same ok mid(6) by (auto simp: bmem_ok_def)
    qed
    then show "t \<in> set (tab_head m2)" "i < BLOCK_TAB_SIZE" "is_used (block m' (Slot t i)) \<noteq> 0" by simp_all
  qed
  moreover have "apart (total m pre) (unat sz) (held m)"
  proof (rule apartI)
    fix o' l'
    assume "(o', l') \<in> held m"
    then have "(o', l') \<in> in_use m pre 0 \<or> (o', l') \<in> in_use m ys (total m pre + blen m b)"
      using u by (simp add: held_def bn)
    then show "total m pre + unat sz \<le> o' \<or> o' + l' \<le> total m pre"
      using in_use_bounds [of o' l' m pre 0] in_use_bounds [of o' l' m ys "total m pre + blen m b"] fits by auto
  qed
  moreover have "held m \<subseteq> held m'"
    using tp tm u by (auto simp: held_def p(2) sel(1) bn in_use_cong [OF same])
  moreover have "(total m pre, unat sz) \<in> held m'"
  proof -
    have "(total m pre, unat sz) \<in> in_use m' mid (total m pre)"
      using mid(10)
    proof
      assume a: "mid = [b] \<and> blen m2 b = unat sz"
      then have "ucast (len (block m2 b)) = sz" by (simp add: blen_def word_unat_eq_iff)
      then have "is_used (block m' b) \<noteq> 0" by (simp add: p(3) m4_def full_def upd_block_def)
      then show ?thesis using a lens by simp
    next
      assume "\<exists>nb. mid = [nb, b] \<and> blen m2 nb = unat sz \<and> is_used (block m2 nb) \<noteq> 0"
      then obtain nb where n: "mid = [nb, b]" "blen m2 nb = unat sz" "is_used (block m2 nb) \<noteq> 0" by blast
      have "nb \<noteq> b" using n(1) mid(2) by auto
      then show ?thesis using n lens other [of nb] by simp
    qed
    then show ?thesis using tp by (simp add: held_def p(2) sel(1))
  qed
  ultimately show ?thesis using p(1,5,6) sel mid(3) off fits all by simp
qed

lemma malloc_loop_ok:
  assumes ok: "bmem_ok m" and fr: "\<And>t. tab = Some t \<Longrightarrow> t \<notin> set (tab_head m)"
    and bn: "block_node m = pre @ bs" and off: "off = of_nat (total m pre)"
    and r: "malloc_loop tab sz bs off m = (Some p, m')"
  shows "\<exists>pos. bmem_ok m' \<and> p = start m + of_nat pos \<and> pos + unat sz \<le> unat (mem_size m) \<and>
    apart pos (unat sz) (held m) \<and> insert (pos, unat sz) (held m) \<subseteq> held m'"
  using bn off r
proof (induction bs arbitrary: pre off)
  case (Cons b bs)
  show ?case
  proof (cases "is_used (block m b) = 0 \<and> sz \<le> ucast (len (block m b))")
    case True
    then show ?thesis using malloc_block [OF ok fr Cons.prems(1) _ _ Cons.prems(2,3)] by blast
  next
    case False
    then have "malloc_loop tab sz bs (off + ucast (len (block m b))) m = (Some p, m')"
      using Cons.prems(3) by (simp split: if_splits)
    moreover have "off + ucast (len (block m b)) = of_nat (total m (pre @ [b]))"
      using Cons.prems(2) by (simp add: blen_def of_nat_unat)
    ultimately show ?thesis using Cons.prems(1) by (intro Cons.IH [of "pre @ [b]"]) simp_all
  qed
qed simp

lemma malloc_finds:
  "fst (malloc_loop (Some t) sz bs off m) = None \<longleftrightarrow> (\<forall>b \<in> set bs. is_used (block m b) \<noteq> 0 \<or> ucast (len (block m b)) < sz)"
proof (induction bs arbitrary: off)
  case (Cons b bs)
  obtain r m1 where "get_mem_block (Some t) m = (r, m1)" by fastforce
  moreover from this obtain nb where "r = Some nb" using get_mem_block_total [of t m m1] by (cases r) auto
  ultimately show ?case using Cons.IH by (auto simp: split_block_def Let_def not_le)
qed simp

lemma malloc_loop_None:
  "malloc_loop tab sz bs off m = (None, m') \<Longrightarrow> m' = m"
proof (induction bs arbitrary: off)
  case (Cons b bs)
  have "get_mem_block tab m = (None, m1) \<Longrightarrow> m1 = m" for m1
    using get_mem_block_total [of _ m m1] by (cases tab) (auto simp: get_mem_block_def split: option.splits)
  then show ?case
    using Cons by (auto simp: split_block_def Let_def split: if_splits prod.splits option.splits)
qed simp

lemma bmem_malloc_Some:
  assumes "bmem_ok m" "\<And>t. tab = Some t \<Longrightarrow> t \<notin> set (tab_head m)" "bmem_malloc tab sz m = (Some p, m')"
  shows "\<exists>pos. bmem_ok m' \<and> p = start m + of_nat pos \<and> pos + unat sz \<le> unat (mem_size m) \<and>
    apart pos (unat sz) (held m) \<and> insert (pos, unat sz) (held m) \<subseteq> held m'"
  using malloc_loop_ok [OF assms(1,2), where pre = "[]" and bs = "block_node m" and off = 0 and sz = sz] assms(3)
  by (simp add: bmem_malloc_def split: if_splits)

lemma bmem_malloc_None:
  assumes "bmem_ok m"
  shows "fst (bmem_malloc (Some t) sz m) = None \<longleftrightarrow>
    (\<forall>b \<in> set (block_node m). is_used (block m b) \<noteq> 0 \<or> ucast (len (block m b)) < sz)"
    "bmem_malloc tab sz m = (None, m') \<Longrightarrow> m' = m"
proof -
  have "ucast (len (block m b)) < sz" if "b \<in> set (block_node m)" "\<not> sz \<le> mem_size m" for b
  proof -
    have "blen m b \<le> total m (block_node m)" unfolding total_def by (rule member_le_sum_list) (use that in auto)
    then show ?thesis using assms that(2) by (simp add: bmem_ok_def word_le_nat_alt word_less_nat_alt blen_def)
  qed
  then show "fst (bmem_malloc (Some t) sz m) = None \<longleftrightarrow>
    (\<forall>b \<in> set (block_node m). is_used (block m b) \<noteq> 0 \<or> ucast (len (block m b)) < sz)"
    by (auto simp: bmem_malloc_def malloc_finds)
  show "bmem_malloc tab sz m = (None, m') \<Longrightarrow> m' = m"
    using malloc_loop_None [of tab sz "block_node m" 0 m m'] by (auto simp: bmem_malloc_def split: if_splits)
qed

subsection \<open>Freeing moves the blocks behind\<close>

lemma free_loop_at:
  assumes "\<And>x. x \<in> set pre \<Longrightarrow> 0 < blen m x" "n + total m pre < 2 ^ 32"
  shows "free_loop pr (start m + of_nat (n + total m pre)) (pre @ b # ys) (of_nat n) m =
    (RT_EOK, (snd (put_mem_block pr b m))\<lparr>block_node := remove1 b (block_node (snd (put_mem_block pr b m)))\<rparr>)"
  using assms
proof (induction pre arbitrary: n)
  case Nil
  then show ?case by (simp add: Let_def)
next
  case (Cons x pre)
  have "(of_nat (n + total m (x # pre)) :: u32) \<noteq> of_nat n"
  proof -
    have un: "unat (of_nat N :: u32) = N" if "N < 2 ^ 32" for N
      using that by (simp add: unsigned_of_nat take_bit_nat_eq_self)
    have "unat (of_nat (n + total m (x # pre)) :: u32) = n + total m (x # pre)" "unat (of_nat n :: u32) = n"
      by (rule un, use Cons.prems(2) in simp)+
    moreover have "0 < blen m x" using Cons.prems(1) by simp
    ultimately show ?thesis by (metis add_cancel_right_right add_is_0 gr_implies_not0 total_simps(2))
  qed
  moreover have "(of_nat n :: u32) + ucast (len (block m x)) = of_nat (n + blen m x)"
    by (simp add: blen_def of_nat_unat)
  ultimately show ?case using Cons.IH [of "n + blen m x"] Cons.prems by (simp add: add.assoc)
qed

lemma put_mem_block_slot:
  assumes "t \<in> set (tab_head m)" "i < BLOCK_TAB_SIZE"
  shows "block (snd (put_mem_block True (Slot t i) m)) = (block m)(Slot t i := (block m (Slot t i))\<lparr>is_used := 0\<rparr>)"
    "block_node (snd (put_mem_block True (Slot t i) m)) = block_node m"
  using assms by (simp_all add: put_mem_block_def upd_block_def Let_def)

lemma bmem_free_at:
  assumes ok: "bmem_ok m" and bn: "block_node m = pre @ Slot t i # ys" and pos: "\<And>x. x \<in> set pre \<Longrightarrow> 0 < blen m x"
  shows "fst (bmem_free True (start m + of_nat (total m pre)) m) = RT_EOK"
    "held (snd (bmem_free True (start m + of_nat (total m pre)) m)) = in_use m pre 0 \<union> in_use m ys (total m pre)"
    "total (snd (bmem_free True (start m + of_nat (total m pre)) m)) (block_node (snd (bmem_free True (start m + of_nat (total m pre)) m))) =
      unat (mem_size m) - blen m (Slot t i)"
proof -
  define m1 where "m1 = snd (put_mem_block True (Slot t i) m)"
  have "total m pre < 2 ^ 32"
    using ok bn unsigned_less [where 'a = nat, of "mem_size m"] by (simp add: bmem_ok_def)
  then have f: "bmem_free True (start m + of_nat (total m pre)) m = (RT_EOK, m1\<lparr>block_node := remove1 (Slot t i) (block_node m1)\<rparr>)"
    using free_loop_at [of pre m 0 True "Slot t i" ys] pos bn by (simp add: bmem_free_def m1_def)
  have "t \<in> set (tab_head m)" "i < BLOCK_TAB_SIZE" "distinct (pre @ Slot t i # ys)" using ok bn by (auto simp: bmem_ok_def)
  note pm = put_mem_block_slot [OF this(1,2)] and d = this(3)
  have rm: "remove1 (Slot t i) (block_node m1) = pre @ ys" using pm d bn by (simp add: m1_def remove1_append)
  have same: "block m1 x = block m x" if "x \<in> set pre \<union> set ys" for x
    using that pm d by (auto simp: m1_def)
  have *: "in_use (m1\<lparr>block_node := bs\<rparr>) xs off = in_use m xs off" "total (m1\<lparr>block_node := bs\<rparr>) xs = total m xs"
    if "set xs \<subseteq> set pre \<union> set ys" for bs xs off
    using that same by (auto intro!: in_use_cong total_cong)
  show "fst (bmem_free True (start m + of_nat (total m pre)) m) = RT_EOK"
    "held (snd (bmem_free True (start m + of_nat (total m pre)) m)) = in_use m pre 0 \<union> in_use m ys (total m pre)"
    using f rm by (simp_all add: held_def *)
  show "total (snd (bmem_free True (start m + of_nat (total m pre)) m)) (block_node (snd (bmem_free True (start m + of_nat (total m pre)) m))) =
      unat (mem_size m) - blen m (Slot t i)"
  proof -
    have "total m pre + (blen m (Slot t i) + total m ys) = unat (mem_size m)" using ok bn by (simp add: bmem_ok_def)
    then show ?thesis using f rm by (simp add: *)
  qed
qed

subsection \<open>An example\<close>

text \<open>Two blocks of 256 bytes in a region at \<open>0x1000\<close>, with their descriptors in table 5.\<close>

definition shm_one :: bmem where
  "shm_one = snd (bmem_malloc (Some 5) 0x100 (bmem_create 0x1000 0x4000))"

definition shm_two :: bmem where
  "shm_two = snd (bmem_malloc (Some 6) 0x100 shm_one)"

lemmas bmem_defs = bmem_malloc_def bmem_create_def split_block_def get_mem_block_def free_slots_def take_slot_def add_tab_def
  upd_block_def upt_rec

lemma shm_one_simps: "block_node shm_one = [Slot 5 0, First]" "tab_head shm_one = [5]" "start shm_one = 0x1000"
  "used_num shm_one 5 = 1" "block shm_one (Slot 5 0) = \<lparr>is_used = 1, len = 0x100\<rparr>"
  "block shm_one First = \<lparr>is_used = 0, len = 0x3f00\<rparr>" "mem_size shm_one = 0x4000"
  "0 < i \<Longrightarrow> block shm_one (Slot 5 i) = \<lparr>is_used = 0, len = 0\<rparr>"
  by (simp_all add: shm_one_def bmem_defs Let_def)

lemma shm_two_simps: "block_node shm_two = [Slot 5 0, Slot 5 (Suc 0), First]" "tab_head shm_two = [5]" "start shm_two = 0x1000"
  "used_num shm_two 5 = 2" "block shm_two (Slot 5 0) = \<lparr>is_used = 1, len = 0x100\<rparr>"
  "block shm_two (Slot 5 (Suc 0)) = \<lparr>is_used = 1, len = 0x100\<rparr>"
  "block shm_two First = \<lparr>is_used = 0, len = 0x3e00\<rparr>" "mem_size shm_two = 0x4000"
  "Suc 0 < i \<Longrightarrow> block shm_two (Slot 5 i) = \<lparr>is_used = 0, len = 0\<rparr>"
  by (simp_all add: shm_two_def shm_one_simps bmem_malloc_def split_block_def get_mem_block_def free_slots_def take_slot_def upd_block_def upt_rec Let_def)

lemma shm_two_ok: "bmem_ok shm_two"
  by (auto simp: bmem_ok_def shm_two_simps blen_def)

lemma shm_two_held: "held shm_two = {(0, 0x100), (0x100, 0x100)}"
  by (auto simp: held_def shm_two_simps blen_def)

lemma shm_two_addresses:
  "fst (bmem_malloc (Some 5) 0x100 (bmem_create 0x1000 0x4000)) = Some 0x1000" "fst (bmem_malloc (Some 6) 0x100 shm_one) = Some 0x1100"
  by (simp_all add: shm_one_simps bmem_defs Let_def)

lemma shm_reuse:
  "fst (bmem_malloc (Some 6) 0x100 (snd (bmem_free True 0x1000 shm_two))) = Some 0x1100"
  by (simp add: bmem_free_def put_mem_block_def shm_two_simps bmem_malloc_def split_block_def get_mem_block_def free_slots_def
      take_slot_def upd_block_def upt_rec Let_def)

end
