(* ===== verification/MemItems.thy ===== *)
theory MemItems
  imports RtList Align
begin

text \<open>
  The items of a memory heap (\<^verbatim>\<open>src/memheap.c\<close>): a header in front of every block, linked with the
  headers before and behind it and, when the block is free, in the list of free blocks. This theory
  has the critical sections of the operations, as updates of a store of headers, and the invariant
  they keep. Header addresses are numbers; sizes and differences of addresses are 32-bit words.
\<close>

lemma unat_add_small: "unat a + unat b < 2 ^ 32 \<Longrightarrow> unat (a + b) = unat a + unat b" for a b :: u32
proof -
  assume "unat a + unat b < 2 ^ 32"
  moreover have "a + b = of_nat (unat a + unat b)" by simp
  ultimately show ?thesis by (simp only: unsigned_of_nat) (simp add: take_bit_nat_eq_self)
qed

subsection \<open>Headers\<close>

definition RT_MEMHEAP_MAGIC :: u32 where "RT_MEMHEAP_MAGIC = 0x1ea01ea0"
definition RT_MEMHEAP_MASK :: u32 where "RT_MEMHEAP_MASK = 0xfffffffe"
definition RT_MEMHEAP_USED :: u32 where "RT_MEMHEAP_USED = 1"

abbreviation (input) RT_MEMHEAP_MINIALLOC :: u32 where "RT_MEMHEAP_MINIALLOC \<equiv> 12"

text \<open>\<open>RT_ALIGN(sizeof(struct rt_memheap_item), RT_ALIGN_SIZE)\<close>: six words.\<close>

abbreviation (input) RT_MEMHEAP_SIZE :: u32 where "RT_MEMHEAP_SIZE \<equiv> 24"

record rt_memheap_item =
  magic :: u32
  pool_ptr :: nat
  item_next :: addr
  item_prev :: addr
  next_free :: addr
  prev_free :: addr

type_synonym items = "addr \<Rightarrow> rt_memheap_item"

record rt_memheap =
  start_addr :: addr
  pool_size :: u32
  available_size :: u32
  max_used_size :: u32
  block_list :: addr
  free_list :: addr
  free_header :: addr
  heap_lock :: nat

definition item_at :: "addr \<Rightarrow> u32 \<Rightarrow> addr" where
  "item_at a off = unat (of_nat a + off)"

definition MEMITEM_SIZE :: "items \<Rightarrow> addr \<Rightarrow> u32" where
  "MEMITEM_SIZE m a = of_nat (item_next (m a)) - of_nat a - RT_MEMHEAP_SIZE"

definition RT_MEMHEAP_IS_USED :: "items \<Rightarrow> addr \<Rightarrow> bool" where
  "RT_MEMHEAP_IS_USED m a \<longleftrightarrow> magic (m a) AND RT_MEMHEAP_USED \<noteq> 0"

definition upd_item :: "addr \<Rightarrow> (rt_memheap_item \<Rightarrow> rt_memheap_item) \<Rightarrow> items \<Rightarrow> items" where
  "upd_item a f m = m(a := f (m a))"

lemma upd_item_at: "upd_item a f m b = (if b = a then f (m a) else m b)"
  by (simp add: upd_item_def)

subsection \<open>Linking\<close>

text \<open>Lines 204--207: the mark of a new header.\<close>

definition fresh_mark :: "nat \<Rightarrow> addr \<Rightarrow> items \<Rightarrow> items" where
  "fresh_mark h n = upd_item n (\<lambda>i. i\<lparr>magic := RT_MEMHEAP_MAGIC, pool_ptr := h\<rparr>)"

text \<open>Lines 210--213: \<open>n\<close> goes behind \<open>p\<close>.\<close>

definition link_block :: "addr \<Rightarrow> addr \<Rightarrow> items \<Rightarrow> items" where
  "link_block p n m =
     (let m = upd_item n (\<lambda>i. i\<lparr>item_prev := p\<rparr>) m;
          m = upd_item n (\<lambda>i. i\<lparr>item_next := item_next (m p)\<rparr>) m;
          m = upd_item (item_next (m p)) (\<lambda>i. i\<lparr>item_prev := n\<rparr>) m
      in upd_item p (\<lambda>i. i\<lparr>item_next := n\<rparr>) m)"

text \<open>Lines 366--367: \<open>n\<close> leaves the list of blocks.\<close>

definition unlink_block :: "addr \<Rightarrow> items \<Rightarrow> items" where
  "unlink_block n m =
     (let m = upd_item (item_next (m n)) (\<lambda>i. i\<lparr>item_prev := item_prev (m n)\<rparr>) m
      in upd_item (item_prev (m n)) (\<lambda>i. i\<lparr>item_next := item_next (m n)\<rparr>) m)"

text \<open>Lines 550--551: the same in the other order.\<close>

definition bypass_block :: "addr \<Rightarrow> items \<Rightarrow> items" where
  "bypass_block n m =
     (let m = upd_item (item_prev (m n)) (\<lambda>i. i\<lparr>item_next := item_next (m n)\<rparr>) m
      in upd_item (item_next (m n)) (\<lambda>i. i\<lparr>item_prev := item_prev (m n)\<rparr>) m)"

text \<open>Lines 572--573: the block behind \<open>p\<close> leaves the list of blocks.\<close>

definition absorb_next :: "addr \<Rightarrow> addr \<Rightarrow> items \<Rightarrow> items" where
  "absorb_next p q m =
     (let m = upd_item (item_next (m q)) (\<lambda>i. i\<lparr>item_prev := p\<rparr>) m
      in upd_item p (\<lambda>i. i\<lparr>item_next := item_next (m q)\<rparr>) m)"

text \<open>Lines 222--225 and 216--219 (with the two fields cleared) or 576--577 (without).\<close>

definition link_free :: "addr \<Rightarrow> addr \<Rightarrow> items \<Rightarrow> items" where
  "link_free fl n m =
     (let m = upd_item n (\<lambda>i. i\<lparr>next_free := next_free (m fl)\<rparr>) m;
          m = upd_item n (\<lambda>i. i\<lparr>prev_free := fl\<rparr>) m;
          m = upd_item (next_free (m fl)) (\<lambda>i. i\<lparr>prev_free := n\<rparr>) m
      in upd_item fl (\<lambda>i. i\<lparr>next_free := n\<rparr>) m)"

definition unlink_free :: "addr \<Rightarrow> items \<Rightarrow> items" where
  "unlink_free n m =
     (let m = upd_item (next_free (m n)) (\<lambda>i. i\<lparr>prev_free := prev_free (m n)\<rparr>) m
      in upd_item (prev_free (m n)) (\<lambda>i. i\<lparr>next_free := next_free (m n)\<rparr>) m)"

definition clear_free :: "addr \<Rightarrow> items \<Rightarrow> items" where
  "clear_free n m = upd_item n (\<lambda>i. i\<lparr>next_free := 0, prev_free := 0\<rparr>) m"

subsection \<open>The critical sections\<close>

text \<open>Line 234: what was used at most.\<close>

definition charge :: "u32 \<Rightarrow> rt_memheap \<Rightarrow> rt_memheap" where
  "charge n H =
     (let H = H\<lparr>available_size := available_size H - n\<rparr>
      in if max_used_size H < pool_size H - available_size H
         then H\<lparr>max_used_size := pool_size H - available_size H\<rparr> else H)"

definition credit :: "u32 \<Rightarrow> rt_memheap \<Rightarrow> rt_memheap" where
  "credit n H = H\<lparr>available_size := available_size H + n\<rparr>"

definition init_pool :: "nat \<Rightarrow> addr \<Rightarrow> u32 \<Rightarrow> rt_memheap \<Rightarrow> items \<Rightarrow> rt_memheap \<times> items" where
  "init_pool h st sz H m =
     (let ps = RT_ALIGN_DOWN sz RT_ALIGN_SIZE;
          av = ps - 2 * RT_MEMHEAP_SIZE;
          H = H\<lparr>start_addr := st, pool_size := ps, available_size := av, max_used_size := ps - av\<rparr>;
          fh = free_header H;
          m = upd_item fh (\<lambda>_. \<lparr>magic = RT_MEMHEAP_MAGIC, pool_ptr = h, item_next = 0, item_prev = 0,
            next_free = fh, prev_free = fh\<rparr>) m;
          H = H\<lparr>free_list := fh\<rparr>;
          m = upd_item st (\<lambda>_. \<lparr>magic = RT_MEMHEAP_MAGIC, pool_ptr = h, item_next = 0, item_prev = 0,
            next_free = st, prev_free = st\<rparr>) m;
          e = item_at st (av + RT_MEMHEAP_SIZE);
          m = upd_item st (\<lambda>i. i\<lparr>item_next := e, item_prev := e\<rparr>) m;
          H = H\<lparr>block_list := st\<rparr>;
          m = link_free (free_list H) st m;
          m = upd_item e (\<lambda>_. \<lparr>magic = RT_MEMHEAP_MAGIC OR RT_MEMHEAP_USED, pool_ptr = h, item_next = st, item_prev = st,
            next_free = 0, prev_free = 0\<rparr>) m
      in (H, m))"

partial_function (option) find_free :: "items \<Rightarrow> addr \<Rightarrow> u32 \<Rightarrow> addr \<Rightarrow> addr option option" where
  "find_free m fl sz p =
     (if p = fl then Some None
      else if sz \<le> MEMITEM_SIZE m p then Some (Some p)
      else find_free m fl sz (next_free (m p)))"

definition take_block :: "nat \<Rightarrow> u32 \<Rightarrow> addr \<Rightarrow> rt_memheap \<Rightarrow> items \<Rightarrow> rt_memheap \<times> items" where
  "take_block h sz p H m =
     (let free_size = MEMITEM_SIZE m p;
          (H, m) = (if sz + RT_MEMHEAP_SIZE + RT_MEMHEAP_MINIALLOC \<le> free_size then
              let n = item_at p (sz + RT_MEMHEAP_SIZE);
                  m = fresh_mark h n m;
                  m = link_block p n m;
                  m = clear_free p (unlink_free p m);
                  m = link_free (free_list H) n m
              in (charge (sz + RT_MEMHEAP_SIZE) H, m)
            else (charge free_size H, clear_free p (unlink_free p m)))
      in (H, upd_item p (\<lambda>i. i\<lparr>magic := magic i OR RT_MEMHEAP_USED\<rparr>) m))"

definition alloc_section ::
  "nat \<Rightarrow> u32 \<Rightarrow> rt_memheap \<Rightarrow> items \<Rightarrow> (addr option \<times> rt_memheap \<times> items) option" where
  "alloc_section h sz H m = do {
     r \<leftarrow> find_free m (free_list H) sz (next_free (m (free_list H)));
     Some (case r of
       None \<Rightarrow> (None, H, m)
     | Some p \<Rightarrow> (let (H, m) = take_block h sz p H m in (Some (item_at p RT_MEMHEAP_SIZE), H, m))) }"

definition free_section :: "addr \<Rightarrow> rt_memheap \<Rightarrow> items \<Rightarrow> rt_memheap \<times> items" where
  "free_section p H m =
     (let m = upd_item p (\<lambda>i. i\<lparr>magic := magic i AND NOT RT_MEMHEAP_USED\<rparr>) m;
          H = credit (MEMITEM_SIZE m p) H;
          (p, insert_header, H, m) =
            (if \<not> RT_MEMHEAP_IS_USED m (item_prev (m p))
             then (let m = bypass_block p m in (item_prev (m p), False, credit RT_MEMHEAP_SIZE H, m))
             else (p, True, H, m));
          (H, m) = (if \<not> RT_MEMHEAP_IS_USED m (item_next (m p))
             then (credit RT_MEMHEAP_SIZE H, unlink_free (item_next (m p)) (absorb_next p (item_next (m p)) m))
             else (H, m))
      in (H, if insert_header then link_free (free_list H) p m else m))"

text \<open>Lines 334--402: the free block behind is moved, if both together are large enough.\<close>

definition grow_section ::
  "nat \<Rightarrow> addr \<Rightarrow> u32 \<Rightarrow> u32 \<Rightarrow> rt_memheap \<Rightarrow> items \<Rightarrow> (bool \<times> rt_memheap \<times> items) option" where
  "grow_section h p oldsize newsize H m =
     (let q = item_next (m p) in
      do {
        rt_assert (p < q);
        Some (if \<not> RT_MEMHEAP_IS_USED m q \<and> newsize + RT_MEMHEAP_MINIALLOC < MEMITEM_SIZE m q + oldsize then
          let H = charge (newsize - oldsize) H;
              m = unlink_block q (unlink_free q m);
              n = item_at (item_at p RT_MEMHEAP_SIZE) newsize;
              m = fresh_mark h n m;
              m = link_block p n m
          in (True, H, link_free (free_list H) n m)
        else (False, H, m)) })"

text \<open>Lines 433--485: the rest of the block becomes a free block, joined with a free one behind.\<close>

definition shrink_section :: "nat \<Rightarrow> addr \<Rightarrow> u32 \<Rightarrow> rt_memheap \<Rightarrow> items \<Rightarrow> rt_memheap \<times> items" where
  "shrink_section h p newsize H m =
     (let n = item_at p (newsize + RT_MEMHEAP_SIZE);
          m = fresh_mark h n m;
          m = link_block p n m;
          (H, m) = (if \<not> RT_MEMHEAP_IS_USED m (item_next (m n)) then
              let q = item_next (m n);
                  H = H\<lparr>available_size := available_size H - MEMITEM_SIZE m q\<rparr>
              in (H, unlink_free q (absorb_next n q m))
            else (H, m));
          m = link_free (free_list H) n m
      in (credit (MEMITEM_SIZE m n) H, m))"

subsection \<open>The two lists in the store\<close>

definition bl :: "items \<Rightarrow> store" where
  "bl m = (\<lambda>a. \<lparr>nx = item_next (m a), pv = item_prev (m a)\<rparr>)"

definition fr :: "items \<Rightarrow> store" where
  "fr m = (\<lambda>a. \<lparr>nx = next_free (m a), pv = prev_free (m a)\<rparr>)"

lemma store_sel [simp]: "nx (bl m a) = item_next (m a)" "pv (bl m a) = item_prev (m a)"
  "nx (fr m a) = next_free (m a)" "pv (fr m a) = prev_free (m a)"
  by (simp_all add: bl_def fr_def)

lemma store_eqI: "(\<And>a. nx (h a) = nx (h' a)) \<Longrightarrow> (\<And>a. pv (h a) = pv (h' a)) \<Longrightarrow> h = (h' :: store)"
  by (rule ext, rule rt_list_node.equality) simp_all

lemmas link_defs = link_block_def unlink_block_def bypass_block_def absorb_next_def link_free_def unlink_free_def clear_free_def

lemma link_marks [simp]:
  "magic (link_block p n m a) = magic (m a)" "magic (unlink_block n m a) = magic (m a)"
  "magic (bypass_block n m a) = magic (m a)" "magic (absorb_next p n m a) = magic (m a)"
  "magic (link_free p n m a) = magic (m a)" "magic (unlink_free n m a) = magic (m a)" "magic (clear_free n m a) = magic (m a)"
  "pool_ptr (link_block p n m a) = pool_ptr (m a)" "pool_ptr (unlink_block n m a) = pool_ptr (m a)"
  "pool_ptr (bypass_block n m a) = pool_ptr (m a)" "pool_ptr (absorb_next p n m a) = pool_ptr (m a)"
  "pool_ptr (link_free p n m a) = pool_ptr (m a)" "pool_ptr (unlink_free n m a) = pool_ptr (m a)"
  "pool_ptr (clear_free n m a) = pool_ptr (m a)"
  by (simp_all add: link_defs upd_item_at Let_def)

lemma link_other_list [simp]:
  "fr (link_block p n m) = fr m" "fr (unlink_block n m) = fr m" "fr (bypass_block n m) = fr m" "fr (absorb_next p n m) = fr m"
  "bl (link_free p n m) = bl m" "bl (unlink_free n m) = bl m" "bl (clear_free n m) = bl m"
  by (rule store_eqI; simp add: link_defs upd_item_at Let_def)+

lemma upd_item_mark [simp]:
  "(\<And>i. item_next (f i) = item_next i) \<Longrightarrow> (\<And>i. item_prev (f i) = item_prev i) \<Longrightarrow> bl (upd_item a f m) = bl m"
  "(\<And>i. next_free (f i) = next_free i) \<Longrightarrow> (\<And>i. prev_free (f i) = prev_free i) \<Longrightarrow> fr (upd_item a f m) = fr m"
  by (rule store_eqI; simp add: upd_item_at)+

lemma MEMITEM_SIZE_bl: "MEMITEM_SIZE m a = of_nat (nx (bl m a)) - of_nat a - RT_MEMHEAP_SIZE"
  by (simp add: MEMITEM_SIZE_def)

lemma bl_link_block:
  "n \<noteq> p \<Longrightarrow> n \<noteq> item_next (m p) \<Longrightarrow> bl (link_block p n m) = rt_list_insert_after p n (bl m)"
  by (rule store_eqI) (auto simp: rt_list_insert_after_nx rt_list_insert_after_pv link_block_def upd_item_at Let_def)

lemma fr_link_free:
  "n \<noteq> p \<Longrightarrow> n \<noteq> next_free (m p) \<Longrightarrow> fr (link_free p n m) = rt_list_insert_after p n (fr m)"
  by (rule store_eqI) (auto simp: rt_list_insert_after_nx rt_list_insert_after_pv link_free_def upd_item_at Let_def)

lemma dlist_drop:
  assumes "dlist h l (xs @ n # ys)" "\<And>a. a \<noteq> n \<Longrightarrow> h' a = rt_list_remove n h a"
  shows "dlist h' l (xs @ ys)"
proof (rule dlist_frame [OF dlist_remove [OF assms(1)]])
  fix a
  assume "a \<in> set (l # xs @ ys)"
  then have "a \<noteq> n" using assms(1) by (auto simp: dlist_def)
  then show "h' a = rt_list_remove n h a" by (rule assms(2))
qed

lemma dlist_ends:
  assumes "dlist h l (xs @ n # ys)"
  shows "pv (h n) = last (l # xs)" "nx (h n) = hd (ys @ [l])" "pv (h n) \<noteq> n" "nx (h n) \<noteq> n"
proof -
  note nb = dlist_neighbours [OF assms]
  show p: "pv (h n) = last (l # xs)" and q: "nx (h n) = hd (ys @ [l])" using nb by (simp_all add: linked_def)
  have "last (l # xs) \<in> set (l # xs)" "hd (ys @ [l]) \<in> set (ys @ [l])" by (rule last_in_set, simp) (rule hd_in_set, simp)
  then show "pv (h n) \<noteq> n" "nx (h n) \<noteq> n" using assms p q by (auto simp: dlist_def)
qed

lemma dlist_unlink_free:
  assumes d: "dlist (fr m) l (xs @ n # ys)"
  shows "dlist (fr (unlink_free n m)) l (xs @ ys)" "dlist (fr (clear_free n (unlink_free n m))) l (xs @ ys)"
proof -
  note e = dlist_ends [OF d]
  have "fr (unlink_free n m) a = rt_list_remove n (fr m) a" "fr (clear_free n (unlink_free n m)) a = rt_list_remove n (fr m) a"
    if "a \<noteq> n" for a
    using that e(3,4) dlist_neighbours [OF d]
    by (auto intro!: rt_list_node.equality simp: rt_list_remove_nx rt_list_remove_pv unlink_free_def clear_free_def upd_item_at Let_def linked_def
      fr_def)
  then show "dlist (fr (unlink_free n m)) l (xs @ ys)" "dlist (fr (clear_free n (unlink_free n m))) l (xs @ ys)"
    using dlist_drop [OF d] by blast+
qed

lemma dlist_unlink_block:
  assumes d: "dlist (bl m) l (xs @ n # ys)"
  shows "dlist (bl (unlink_block n m)) l (xs @ ys)" "dlist (bl (bypass_block n m)) l (xs @ ys)"
    "dlist (bl (absorb_next (last (l # xs)) n m)) l (xs @ ys)"
proof -
  note e = dlist_ends [OF d]
  have "bl (unlink_block n m) a = rt_list_remove n (bl m) a" "bl (bypass_block n m) a = rt_list_remove n (bl m) a"
    "bl (absorb_next (last (l # xs)) n m) a = rt_list_remove n (bl m) a"
    if "a \<noteq> n" for a
    using that e dlist_neighbours [OF d]
    by (auto intro!: rt_list_node.equality simp: rt_list_remove_def set_next_def set_prev_def link_defs upd_item_at Let_def linked_def bl_def)
  then show "dlist (bl (unlink_block n m)) l (xs @ ys)" "dlist (bl (bypass_block n m)) l (xs @ ys)"
    "dlist (bl (absorb_next (last (l # xs)) n m)) l (xs @ ys)"
    using dlist_drop [OF d] by blast+
qed

end
