(* ===== verification/MemInv.thy ===== *)
theory MemInv
  imports MemItems
begin

text \<open>
  The invariant of a memory heap and its abstract view: the blocks in the order of their addresses
  with their sizes, as many as the headers in the store say. Every critical section keeps the
  invariant and does to the view what a list of blocks does.
\<close>

subsection \<open>Blocks in the order of their addresses\<close>

type_synonym layout = "(addr \<times> nat \<times> bool) list"

fun blocks :: "(addr \<Rightarrow> bool) \<Rightarrow> addr list \<Rightarrow> layout" where
  "blocks u (a # b # xs) = (a, b - a - 24, u a) # blocks u (b # xs)"
| "blocks u _ = []"

definition used_of :: "addr \<times> nat \<times> bool \<Rightarrow> bool" where
  "used_of b = snd (snd b)"

lemma used_of_simp [simp]: "used_of (a, s, u) = u"
  by (simp add: used_of_def)

fun coalesced :: "layout \<Rightarrow> bool" where
  "coalesced (x # y # L) \<longleftrightarrow> (used_of x \<or> used_of y) \<and> coalesced (y # L)"
| "coalesced _ \<longleftrightarrow> True"

definition free_bytes :: "layout \<Rightarrow> nat" where
  "free_bytes L = sum_list (map (\<lambda>(a, s, u). if u then 0 else s) L)"

definition spaced :: "addr list \<Rightarrow> bool" where
  "spaced xs \<longleftrightarrow> sorted_wrt (\<lambda>a b. a + 36 \<le> b) xs"

lemma free_bytes_simps [simp]: "free_bytes [] = 0" "free_bytes ((a, s, u) # L) = (if u then 0 else s) + free_bytes L"
  "free_bytes (K @ L) = free_bytes K + free_bytes L"
  by (simp_all add: free_bytes_def)

lemma blocks_split: "blocks u (xs @ a # ys) = blocks u (xs @ [a]) @ blocks u (a # ys)"
proof (induction xs)
  case (Cons x xs)
  then show ?case by (cases xs) simp_all
qed simp

lemma blocks_cong: "(\<And>a. a \<in> set (butlast xs) \<Longrightarrow> u a = u' a) \<Longrightarrow> blocks u xs = blocks u' xs"
  by (induction u xs rule: blocks.induct) auto

lemma blocks_cong_set: "(\<And>a. a \<in> set xs \<Longrightarrow> u a = u' a) \<Longrightarrow> blocks u xs = blocks u' xs"
  by (rule blocks_cong) (auto dest: in_set_butlastD)

lemma blocks_fst: "(a, s, v) \<in> set (blocks u xs) \<Longrightarrow> a \<in> set (butlast xs) \<and> v = u a"
  by (induction u xs rule: blocks.induct) auto

lemma spaced_distinct: "spaced xs \<Longrightarrow> distinct xs"
  by (induction xs) (auto simp: spaced_def)

lemma spaced_simps: "spaced (x # xs) \<longleftrightarrow> (\<forall>y \<in> set xs. x + 36 \<le> y) \<and> spaced xs"
  "spaced (xs @ ys) \<longleftrightarrow> spaced xs \<and> spaced ys \<and> (\<forall>x \<in> set xs. \<forall>y \<in> set ys. x + 36 \<le> y)" "spaced []"
  by (auto simp: spaced_def sorted_wrt_append)

lemma coalesced_append:
  "coalesced (K @ L) \<longleftrightarrow> coalesced K \<and> coalesced L \<and> (K = [] \<or> L = [] \<or> used_of (last K) \<or> used_of (hd L))"
proof (induction K)
  case (Cons x K)
  then show ?case by (cases K; cases L) auto
qed simp

lemma coalesced_Cons: "coalesced (x # L) \<longleftrightarrow> coalesced L \<and> (L = [] \<or> used_of x \<or> used_of (hd L))"
  by (cases L) auto

text \<open>Marking a block free and joining it with its neighbours.\<close>

fun coalesce :: "layout \<Rightarrow> layout" where
  "coalesce ((a, s, u) # (b, t, v) # L) =
     (if u \<or> v then (a, s, u) # coalesce ((b, t, v) # L) else coalesce ((a, s + 24 + t, False) # L))"
| "coalesce L = L"

lemma coalesce_coalesced: "coalesced L \<Longrightarrow> coalesce L = L"
  by (induction L rule: coalesce.induct) auto

lemma coalesced_coalesce: "coalesced (coalesce L)"
proof (induction L rule: coalesce.induct)
  case (1 a s u b t v L)
  have hd: "used_of (hd (coalesce ((b, t, v) # L)))" if v
    using that by (induction "(b, t, v) # L" rule: coalesce.induct) auto
  show ?case
  proof (cases "u \<or> v")
    case True
    then show ?thesis using 1(1) hd by (cases "coalesce ((b, t, v) # L)") auto
  next
    case False
    then show ?thesis using 1(2) by simp
  qed
qed auto

text \<open>Joining only changes what is next to a free block.\<close>

lemma coalesce_used: "coalesce (K @ (a, s, True) # L) = coalesce (K @ [(a, s, True)]) @ coalesce L"
proof (induction K rule: coalesce.induct, goal_cases)
  case (1 b t u c r v K)
  then show ?case by simp
next
  case 2
  show ?case by (cases L) auto
next
  case (3 x)
  obtain b t u where "x = (b, t, u)" by (cases x) auto
  then show ?case by (cases L) auto
qed

subsection \<open>The invariant\<close>

definition marked :: "nat \<Rightarrow> items \<Rightarrow> addr \<Rightarrow> bool" where
  "marked h m a \<longleftrightarrow> magic (m a) AND RT_MEMHEAP_MASK = RT_MEMHEAP_MAGIC \<and> pool_ptr (m a) = h"

abbreviation used :: "items \<Rightarrow> addr \<Rightarrow> bool" where
  "used m \<equiv> RT_MEMHEAP_IS_USED m"

text \<open>
  \<open>bs\<close> are the headers up to the one that closes the pool. First what holds of the list of blocks
  at every step, then what holds between two critical sections: \<open>fs\<close> are the free blocks in the
  order of their list, no two of them are neighbours, and \<open>available_size\<close> is their total size.
\<close>

definition shape_ok :: "nat \<Rightarrow> rt_memheap \<Rightarrow> items \<Rightarrow> addr list \<Rightarrow> bool" where
  "shape_ok h H m bs \<longleftrightarrow>
     free_list H = free_header H \<and> block_list H = start_addr H \<and> 0 < start_addr H \<and>
     start_addr H + unat (pool_size H) < 2 ^ 32 \<and>
     free_header H \<notin> {start_addr H..<start_addr H + unat (pool_size H)} \<and>
     2 \<le> length bs \<and> hd bs = start_addr H \<and> last bs + 24 = start_addr H + unat (pool_size H) \<and> used m (last bs) \<and>
     dlist (bl m) (start_addr H) (tl bs) \<and> spaced bs \<and> (\<forall>a \<in> set bs. 4 dvd a - start_addr H \<and> marked h m a)"

definition pool_ok :: "nat \<Rightarrow> rt_memheap \<Rightarrow> items \<Rightarrow> addr list \<Rightarrow> addr list \<Rightarrow> bool" where
  "pool_ok h H m bs fs \<longleftrightarrow> shape_ok h H m bs \<and>
     dlist (fr m) (free_header H) fs \<and> set fs = {a \<in> set bs. \<not> used m a} \<and>
     coalesced (blocks (used m) bs) \<and> unat (available_size H) = free_bytes (blocks (used m) bs)"

lemma shape_okD:
  assumes "shape_ok h H m bs"
  shows "free_list H = free_header H" "block_list H = start_addr H" "0 < start_addr H"
    "start_addr H + unat (pool_size H) < 2 ^ 32"
    "free_header H \<notin> {start_addr H..<start_addr H + unat (pool_size H)}" "2 \<le> length bs" "hd bs = start_addr H"
    "last bs + 24 = start_addr H + unat (pool_size H)" "used m (last bs)" "dlist (bl m) (start_addr H) (tl bs)"
    "spaced bs" "a \<in> set bs \<Longrightarrow> 4 dvd a - start_addr H" "a \<in> set bs \<Longrightarrow> marked h m a"
  using assms unfolding shape_ok_def by blast+

lemma pool_okD:
  assumes "pool_ok h H m bs fs"
  shows "shape_ok h H m bs" "dlist (fr m) (free_header H) fs" "set fs = {a \<in> set bs. \<not> used m a}"
    "coalesced (blocks (used m) bs)" "unat (available_size H) = free_bytes (blocks (used m) bs)"
  using assms unfolding pool_ok_def by blast+

lemma shape_split:
  assumes "a \<in> set bs" "a \<noteq> last bs"
  obtains pre q post where "bs = pre @ a # q # post"
proof -
  obtain pre rest where bs: "bs = pre @ a # rest" using assms(1) by (meson split_list)
  then obtain q post where "rest = q # post" using assms(2) by (cases rest) auto
  then show ?thesis using bs that by blast
qed

lemma pool_free_split:
  assumes "pool_ok h H m bs fs" "p \<in> set fs"
  obtains pre q post f1 f2 where "bs = pre @ p # q # post" "fs = f1 @ p # f2" "\<not> used m p"
proof -
  have p: "p \<in> set bs" "\<not> used m p" using assms pool_okD(3) by auto
  then have "p \<noteq> last bs" using shape_okD(9) [OF pool_okD(1) [OF assms(1)]] by auto
  then show ?thesis using that shape_split [OF p(1)] split_list [OF assms(2)] p(2) by metis
qed

lemma shape_bounds:
  assumes ok: "shape_ok h H m bs" and a: "a \<in> set bs"
  shows "start_addr H \<le> a" "a \<le> last bs" "a + 24 \<le> start_addr H + unat (pool_size H)" "a + 24 < 2 ^ 32" "a \<noteq> free_header H"
proof -
  note D = shape_okD [OF ok]
  have "bs \<noteq> []" using D(6) by auto
  have 1: "a = start_addr H \<or> start_addr H + 36 \<le> a"
    using D(7,11) a by (cases bs) (auto simp: spaced_simps)
  have 2: "a = last bs \<or> a + 36 \<le> last bs"
    using D(11) a by (cases bs rule: rev_cases) (auto simp: spaced_simps)
  show "start_addr H \<le> a" "a \<le> last bs" using 1 2 by auto
  then show "a + 24 \<le> start_addr H + unat (pool_size H)" "a + 24 < 2 ^ 32" "a \<noteq> free_header H" using D(4,5,8) by auto
qed

lemma shape_neighbours:
  assumes ok: "shape_ok h H m bs" and bs: "bs = pre @ p # q # post"
  shows "item_next (m p) = q" "item_prev (m p) = last (last bs # pre)" "p + 36 \<le> q" "unat (MEMITEM_SIZE m p) = q - p - 24"
    "unat (of_nat p :: u32) = p" "unat (of_nat q :: u32) = q" "q + 24 < 2 ^ 32" "hd bs = hd (pre @ [p])" "distinct bs"
proof -
  note D = shape_okD [OF ok]
  show q: "item_next (m p) = q" and "item_prev (m p) = last (last bs # pre)"
  proof -
    have "item_next (m p) = q \<and> item_prev (m p) = last (last bs # pre)"
    proof (cases pre)
      case Nil
      then have "path (bl m) p (q # post) p" using D(7,10) bs by (simp add: dlist_def)
      then show ?thesis using path_next [of "bl m" p "q # post" p] path_prev [of "bl m" p "q # post" p] Nil bs by simp
    next
      case (Cons x xs)
      then have "dlist (bl m) x (xs @ p # q # post)" using D(7,10) bs by simp
      from dlist_ends [OF this] show ?thesis using Cons by simp
    qed
    then show "item_next (m p) = q" "item_prev (m p) = last (last bs # pre)" by blast+
  qed
  show s: "p + 36 \<le> q" using D(11) bs by (simp add: spaced_simps)
  have "q \<in> set bs" using bs by simp
  then show b: "q + 24 < 2 ^ 32" using shape_bounds(4) [OF ok] by blast
  then show u: "unat (of_nat p :: u32) = p" "unat (of_nat q :: u32) = q"
    using s by (simp_all add: unsigned_of_nat take_bit_nat_eq_self)
  have "(of_nat q - of_nat p - 24 :: u32) = of_nat (q - p - 24)" using s by (simp add: of_nat_diff)
  then show "unat (MEMITEM_SIZE m p) = q - p - 24"
    using q b by (simp add: MEMITEM_SIZE_def unsigned_of_nat take_bit_nat_eq_self)
  show "hd bs = hd (pre @ [p])" using bs by (cases pre) simp_all
  show "distinct bs" by (rule spaced_distinct [OF D(11)])
qed

lemma item_at_small: "a + unat off < 2 ^ 32 \<Longrightarrow> item_at a off = a + unat off"
proof -
  assume l: "a + unat off < 2 ^ 32"
  have "(of_nat a + off :: u32) = of_nat (a + unat off)" by simp
  then show ?thesis using l by (simp only: item_at_def) (simp add: unsigned_of_nat take_bit_nat_eq_self del: of_nat_add)
qed

subsection \<open>Marks\<close>

lemma used_link [simp]:
  "used (link_block p n m) = used m" "used (unlink_block n m) = used m" "used (bypass_block n m) = used m"
  "used (absorb_next p n m) = used m" "used (link_free p n m) = used m" "used (unlink_free n m) = used m"
  "used (clear_free n m) = used m"
  by (simp_all add: RT_MEMHEAP_IS_USED_def fun_eq_iff)

lemma marked_link [simp]:
  "marked h (link_block p n m) = marked h m" "marked h (unlink_block n m) = marked h m" "marked h (bypass_block n m) = marked h m"
  "marked h (absorb_next p n m) = marked h m" "marked h (link_free p n m) = marked h m" "marked h (unlink_free n m) = marked h m"
  "marked h (clear_free n m) = marked h m"
  by (simp_all add: marked_def fun_eq_iff)

lemma used_marks [simp]:
  "used (fresh_mark h n m) = (used m)(n := False)"
  "used (upd_item p (\<lambda>i. i\<lparr>magic := magic i OR RT_MEMHEAP_USED\<rparr>) m) = (used m)(p := True)"
  "used (upd_item p (\<lambda>i. i\<lparr>magic := magic i AND NOT RT_MEMHEAP_USED\<rparr>) m) = (used m)(p := False)"
proof -
  have 1: "(x OR RT_MEMHEAP_USED) AND RT_MEMHEAP_USED = RT_MEMHEAP_USED"
    "(x AND NOT RT_MEMHEAP_USED) AND RT_MEMHEAP_USED = 0" for x :: u32
    by (rule bit_eqI, auto simp: bit_simps)+
  show "used (fresh_mark h n m) = (used m)(n := False)"
    "used (upd_item p (\<lambda>i. i\<lparr>magic := magic i OR RT_MEMHEAP_USED\<rparr>) m) = (used m)(p := True)"
    "used (upd_item p (\<lambda>i. i\<lparr>magic := magic i AND NOT RT_MEMHEAP_USED\<rparr>) m) = (used m)(p := False)"
    unfolding fun_eq_iff RT_MEMHEAP_IS_USED_def fresh_mark_def upd_item_def
    by (auto simp: 1) (simp_all add: RT_MEMHEAP_USED_def RT_MEMHEAP_MAGIC_def)
qed

lemma marked_marks [simp]:
  "marked h (fresh_mark h n m) a \<longleftrightarrow> a = n \<or> marked h m a"
  "marked h (upd_item p (\<lambda>i. i\<lparr>magic := magic i OR RT_MEMHEAP_USED\<rparr>) m) = marked h m"
  "marked h (upd_item p (\<lambda>i. i\<lparr>magic := magic i AND NOT RT_MEMHEAP_USED\<rparr>) m) = marked h m"
proof -
  have 1: "(x OR RT_MEMHEAP_USED) AND RT_MEMHEAP_MASK = x AND RT_MEMHEAP_MASK"
    "(x AND NOT RT_MEMHEAP_USED) AND RT_MEMHEAP_MASK = x AND RT_MEMHEAP_MASK" for x :: u32
  proof -
    have "RT_MEMHEAP_USED AND RT_MEMHEAP_MASK = 0" "NOT RT_MEMHEAP_USED AND RT_MEMHEAP_MASK = RT_MEMHEAP_MASK"
      by (simp_all add: RT_MEMHEAP_USED_def RT_MEMHEAP_MASK_def)
    then show "(x OR RT_MEMHEAP_USED) AND RT_MEMHEAP_MASK = x AND RT_MEMHEAP_MASK"
      "(x AND NOT RT_MEMHEAP_USED) AND RT_MEMHEAP_MASK = x AND RT_MEMHEAP_MASK"
      by (simp_all add: bit.conj_disj_distrib2 and.assoc)
  qed
  show "marked h (fresh_mark h n m) a \<longleftrightarrow> a = n \<or> marked h m a"
    by (auto simp: marked_def fresh_mark_def upd_item_at RT_MEMHEAP_MAGIC_def RT_MEMHEAP_MASK_def)
  show "marked h (upd_item p (\<lambda>i. i\<lparr>magic := magic i OR RT_MEMHEAP_USED\<rparr>) m) = marked h m"
    "marked h (upd_item p (\<lambda>i. i\<lparr>magic := magic i AND NOT RT_MEMHEAP_USED\<rparr>) m) = marked h m"
    unfolding fun_eq_iff marked_def upd_item_def by (auto simp: 1)
qed

lemma fresh_mark_lists [simp]: "bl (fresh_mark h n m) = bl m" "fr (fresh_mark h n m) = fr m"
  by (simp_all add: fresh_mark_def)

lemma charge_sel [simp]:
  "start_addr (charge n H) = start_addr H" "pool_size (charge n H) = pool_size H" "block_list (charge n H) = block_list H"
  "free_list (charge n H) = free_list H" "free_header (charge n H) = free_header H" "heap_lock (charge n H) = heap_lock H"
  "available_size (charge n H) = available_size H - n"
  "start_addr (credit n H) = start_addr H" "pool_size (credit n H) = pool_size H" "block_list (credit n H) = block_list H"
  "free_list (credit n H) = free_list H" "free_header (credit n H) = free_header H" "heap_lock (credit n H) = heap_lock H"
  "available_size (credit n H) = available_size H + n"
  by (simp_all add: charge_def credit_def Let_def)

text \<open>The parameters of a pool, which no critical section changes.\<close>

definition same_pool :: "rt_memheap \<Rightarrow> rt_memheap \<Rightarrow> bool" where
  "same_pool H H' \<longleftrightarrow> start_addr H' = start_addr H \<and> pool_size H' = pool_size H \<and> block_list H' = block_list H \<and>
     free_list H' = free_list H \<and> free_header H' = free_header H \<and> heap_lock H' = heap_lock H"

lemma same_pool_simps [simp]: "same_pool H H" "same_pool H (charge n H)" "same_pool H (credit n H)"
  "same_pool H (H\<lparr>available_size := n\<rparr>)"
  by (simp_all add: same_pool_def)

lemma same_pool_trans: "same_pool a b \<Longrightarrow> same_pool b c \<Longrightarrow> same_pool a c"
  by (simp add: same_pool_def)

lemma shape_same_pool: "shape_ok h H m bs \<Longrightarrow> same_pool H H' \<Longrightarrow> shape_ok h H' m bs"
  by (simp add: shape_ok_def same_pool_def)

lemma shape_marks:
  assumes "shape_ok h H m bs" "bl m' = bl m" "used m' (last bs)" "\<And>a. marked h m a \<Longrightarrow> marked h m' a"
  shows "shape_ok h H m' bs"
  using assms by (simp add: shape_ok_def)

subsection \<open>Linking in the lists of a pool\<close>

lemma list_link_block:
  assumes "dlist (bl m) l (tl (pre @ p # q # post))" "l = hd (pre @ [p])" "n \<notin> set (pre @ p # q # post)"
  shows "dlist (bl (link_block p n m)) l (tl (pre @ p # n # q # post))"
proof -
  let ?xs = "tl (pre @ [p])"
  have t: "tl (pre @ p # q # post) = ?xs @ q # post" "tl (pre @ p # n # q # post) = ?xs @ n # q # post" by (cases pre; simp)+
  have la: "l # ?xs = pre @ [p]" using assms(2) by (cases pre) auto
  have d: "dlist (bl m) l (?xs @ q # post)" using assms(1) t(1) by simp
  have "item_next (m p) = q"
  proof (cases pre)
    case Nil
    then show ?thesis using d assms(2) dlist_first [of "bl m" l "q # post"] by simp
  next
    case (Cons x xs)
    then have "dlist (bl m) l (xs @ p # q # post)" using assms(1) by simp
    from dlist_ends(2) [OF this] show ?thesis by simp
  qed
  then have "bl (link_block p n m) = rt_list_insert_after p n (bl m)" using assms(3) by (intro bl_link_block) auto
  moreover have "dlist (rt_list_insert_after p n (bl m)) l (?xs @ n # q # post)"
  proof (rule dlist_insert_at [OF d])
    have "set (l # ?xs) = insert p (set pre)" using arg_cong [OF la, of set] by simp
    then show "n \<notin> set (l # ?xs @ q # post)" using assms(3) by auto
    show "p = last (l # ?xs)" unfolding la by simp
  qed
  ultimately show ?thesis using t(2) by simp
qed

lemma list_unlink_block:
  assumes "dlist (bl m) l (tl (pre @ p # n # post))" "l = hd (pre @ [p])"
  shows "dlist (bl (absorb_next p n m)) l (tl (pre @ p # post))" "dlist (bl (unlink_block n m)) l (tl (pre @ p # post))"
    "dlist (bl (bypass_block n m)) l (tl (pre @ p # post))"
proof -
  let ?xs = "tl (pre @ [p])"
  have t: "tl (pre @ p # n # post) = ?xs @ n # post" "tl (pre @ p # post) = ?xs @ post" by (cases pre; simp)+
  have la: "last (l # ?xs) = p" using assms(2) by (cases pre) auto
  have d: "dlist (bl m) l (?xs @ n # post)" using assms(1) t(1) by simp
  from dlist_unlink_block [OF d] show "dlist (bl (absorb_next p n m)) l (tl (pre @ p # post))"
    "dlist (bl (unlink_block n m)) l (tl (pre @ p # post))" "dlist (bl (bypass_block n m)) l (tl (pre @ p # post))"
    unfolding la t(2) by simp_all
qed

lemma list_link_free:
  assumes "dlist (fr m) fh fs" "n \<notin> set (fh # fs)"
  shows "dlist (fr (link_free fh n m)) fh (n # fs)"
proof -
  have "next_free (m fh) \<in> set (fh # fs)"
    using assms(1) dlist_nx_in [OF assms(1), of fh] by simp
  then have "fr (link_free fh n m) = rt_list_insert_after fh n (fr m)" using assms(2) by (intro fr_link_free) auto
  then show ?thesis using dlist_insert_after_head [OF assms] by simp
qed

text \<open>A new header between two others, and one less.\<close>

lemma shape_link:
  assumes ok: "shape_ok h H m (pre @ p # q # post)" and n: "p + 36 \<le> n" "n + 36 \<le> q" "4 dvd n - p"
  shows "shape_ok h H (link_block p n (fresh_mark h n m)) (pre @ p # n # q # post)"
    "n \<notin> set (pre @ p # q # post)" "n \<noteq> free_header H"
proof -
  note D = shape_okD [OF ok] and N = shape_neighbours [OF ok refl]
  show new: "n \<notin> set (pre @ p # q # post)" using D(11) n by (auto simp: spaced_simps)
  show "n \<noteq> free_header H" using D(5) shape_bounds(1,3) [OF ok, of p] shape_bounds(3) [OF ok, of q] n by auto
  have sp: "spaced (pre @ p # n # q # post)"
  proof -
    have "spaced pre" "spaced (q # post)" "\<forall>x \<in> set pre. x + 36 \<le> p" "\<forall>x \<in> set pre. \<forall>y \<in> set (q # post). x + 36 \<le> y"
      "\<forall>y \<in> set post. q + 36 \<le> y"
      using D(11) by (auto simp: spaced_simps)
    then show ?thesis using n by (fastforce simp: spaced_simps)
  qed
  have al: "4 dvd n - start_addr H"
  proof -
    have "4 dvd p - start_addr H" "start_addr H \<le> p" using D(12) shape_bounds(1) [OF ok] by auto
    then have "4 dvd (p - start_addr H) + (n - p)" using n(3) by (intro dvd_add)
    then show ?thesis using n(1) \<open>start_addr H \<le> p\<close> by simp
  qed
  have "dlist (bl (link_block p n (fresh_mark h n m))) (start_addr H) (tl (pre @ p # n # q # post))"
    by (rule list_link_block) (use D(7,10) N(8) new in auto)
  moreover have "hd (pre @ p # n # q # post) = start_addr H" using D(7) by (cases pre) simp_all
  moreover have "\<forall>a \<in> set (pre @ p # n # q # post). 4 dvd a - start_addr H \<and> marked h (link_block p n (fresh_mark h n m)) a"
    using D(12,13) al by auto
  moreover have "used (link_block p n (fresh_mark h n m)) (last (pre @ p # n # q # post))" using D(9) new by auto
  ultimately show "shape_ok h H (link_block p n (fresh_mark h n m)) (pre @ p # n # q # post)"
    using D(1-5,8) sp unfolding shape_ok_def by simp
qed

lemma shape_merge:
  assumes ok: "shape_ok h H m (pre @ l # p # q # post)"
  shows "shape_ok h H (bypass_block p m) (pre @ l # q # post)" "shape_ok h H (absorb_next l p m) (pre @ l # q # post)"
    "shape_ok h H (unlink_block p m) (pre @ l # q # post)"
proof -
  note D = shape_okD [OF ok]
  have "start_addr H = hd (pre @ [l])" using D(7) by (cases pre) simp_all
  note L = list_unlink_block [OF D(10) this]
  have "spaced (pre @ l # q # post)" using D(11) by (auto simp: spaced_simps)
  moreover have "hd (pre @ l # q # post) = start_addr H" using D(7) by (cases pre) simp_all
  ultimately show "shape_ok h H (bypass_block p m) (pre @ l # q # post)" "shape_ok h H (absorb_next l p m) (pre @ l # q # post)"
    "shape_ok h H (unlink_block p m) (pre @ l # q # post)"
    using D(1-5,8,9,12,13) L unfolding shape_ok_def by auto
qed

subsection \<open>Taking a block\<close>

fun take_at :: "nat \<Rightarrow> addr \<Rightarrow> layout \<Rightarrow> layout" where
  "take_at sz p [] = []"
| "take_at sz p ((a, s, u) # L) =
     (if a = p then (if sz + 36 \<le> s then [(a, sz, True), (a + 24 + sz, s - sz - 24, False)] else [(a, s, True)]) @ L
      else (a, s, u) # take_at sz p L)"

lemma take_at_split: "p \<notin> fst ` set K \<Longrightarrow> take_at sz p (K @ L) = K @ take_at sz p L"
  by (induction K) (auto split: prod.splits)

lemma blocks_keep:
  assumes "distinct (pre @ p # zs)" "\<And>a. a \<in> set pre \<Longrightarrow> u' a = u a"
  shows "blocks u' (pre @ [p]) = blocks u (pre @ [p])"
  using assms by (intro blocks_cong) auto

lemma blocks_around:
  assumes "distinct (pre @ p # q # post)" "\<And>a. a \<in> set pre \<union> set (q # post) \<Longrightarrow> u' a = u a"
  shows "blocks u' (pre @ p # q # post) = blocks u (pre @ [p]) @ (p, q - p - 24, u' p) # blocks u (q # post)"
proof -
  have "blocks u' (pre @ [p]) = blocks u (pre @ [p])" by (rule blocks_keep [of _ _ "q # post"]) (use assms in auto)
  moreover have "blocks u' (q # post) = blocks u (q # post)" by (rule blocks_cong_set) (use assms in auto)
  ultimately show ?thesis using blocks_split [of u' pre p "q # post"] by simp
qed

lemma take_block_ok:
  assumes ok: "pool_ok h H m bs fs" and p: "p \<in> set fs"
    and sz: "12 \<le> unat sz" "4 dvd unat sz" "sz \<le> MEMITEM_SIZE m p" and t: "take_block h sz p H m = (H', m')"
  shows "\<exists>bs' fs'. pool_ok h H' m' bs' fs' \<and> blocks (used m') bs' = take_at (unat sz) p (blocks (used m) bs)"
    "same_pool H H'" "item_at p RT_MEMHEAP_SIZE = p + 24"
proof -
  note D = pool_okD [OF ok]
  obtain pre q post f1 f2 where bs: "bs = pre @ p # q # post" and fs: "fs = f1 @ p # f2" and u: "\<not> used m p"
    by (rule pool_free_split [OF ok p])
  note sh = D(1) [unfolded bs] and N = shape_neighbours [OF D(1) bs]
  let ?s = "MEMITEM_SIZE m p"
  have p24: "p + 24 < 2 ^ 32" using shape_bounds(4) [OF D(1), of p] bs by simp
  then show "item_at p RT_MEMHEAP_SIZE = p + 24" by (simp add: item_at_small)
  show same: "same_pool H H'" using t by (auto simp: take_block_def Let_def split: if_splits)
  have s: "unat sz \<le> q - p - 24" using sz(3) N(4) by (simp add: word_le_nat_alt)
  have room: "unat (sz + 24) = unat sz + 24" "unat (sz + 24 + 12) = unat sz + 36"
    using s N(7) by (simp_all add: unat_add_small)
  have d: "distinct bs" "distinct (free_header H # fs)" using N(9) D(2) by (simp_all add: dlist_def)
  have pn: "p \<notin> fst ` set (blocks (used m) (pre @ [p]))" using blocks_fst [of _ _ _ "used m" "pre @ [p]"] d(1) bs by force
  let ?L = "blocks (used m) (pre @ [p])" and ?R = "blocks (used m) (q # post)"
  have bb: "blocks (used m) bs = ?L @ (p, q - p - 24, False) # ?R"
    using bs blocks_split [of "used m" pre p "q # post"] u by simp
  have av: "unat (available_size H) = free_bytes ?L + (q - p - 24) + free_bytes ?R" using D(5) bb by simp
  note f = D(2) [unfolded fs]
  show "\<exists>bs' fs'. pool_ok h H' m' bs' fs' \<and> blocks (used m') bs' = take_at (unat sz) p (blocks (used m) bs)"
  proof (cases "sz + RT_MEMHEAP_SIZE + RT_MEMHEAP_MINIALLOC \<le> ?s")
    case True
    then have fits: "unat sz + 36 \<le> q - p - 24" using room N(4) by (simp add: word_le_nat_alt)
    define n where "n = p + 24 + unat sz"
    have n: "item_at p (sz + RT_MEMHEAP_SIZE) = n"
      using item_at_small [of p "sz + RT_MEMHEAP_SIZE"] room(1) s N(3,7) by (simp add: n_def)
    have pn36: "p + 36 \<le> n" "n + 36 \<le> q" "4 dvd n - p" using sz fits by (simp_all add: n_def)
    note S = shape_link [OF sh pn36]
    define m1 where "m1 = link_block p n (fresh_mark h n m)"
    define m2 where "m2 = clear_free p (unlink_free p m1)"
    define m3 where "m3 = link_free (free_list H) n m2"
    have res: "H' = charge (sz + RT_MEMHEAP_SIZE) H" "m' = upd_item p (\<lambda>i. i\<lparr>magic := magic i OR RT_MEMHEAP_USED\<rparr>) m3"
      using t True n by (auto simp: take_block_def Let_def m1_def m2_def m3_def)
    let ?bs = "pre @ p # n # q # post" and ?fs = "n # f1 @ f2"
    have us: "used m' = (used m)(n := False, p := True)" by (simp add: res(2) m3_def m2_def m1_def)
    have new: "n \<notin> set bs" using S(2) bs by simp
    have nfs: "n \<notin> set (f1 @ f2)" using new D(3) fs by auto
    have b': "blocks (used m') ?bs = ?L @ (p, unat sz, True) # (n, q - n - 24, False) # ?R"
    proof -
      have "blocks (used m') (pre @ [p]) = ?L" by (rule blocks_keep [of _ _ "q # post"]) (use us d(1) new bs in auto)
      moreover have "blocks (used m') (q # post) = ?R" by (rule blocks_cong_set) (use us d(1) new bs in auto)
      moreover have "n - p - 24 = unat sz" "n \<noteq> p" using pn36 by (simp_all add: n_def)
      ultimately show ?thesis using blocks_split [of "used m'" pre p "n # q # post"] us by simp
    qed
    have "pool_ok h H' m' ?bs ?fs"
      unfolding pool_ok_def
    proof (intro conjI)
      have "used m (last bs)" "last bs \<noteq> n" using shape_okD(9) [OF D(1)] new bs by (auto simp: last_in_set)
      then have "shape_ok h H m' ?bs"
        by (intro shape_marks [OF S(1)]) (use us bs in \<open>auto simp: res(2) m3_def m2_def m1_def\<close>)
      then show "shape_ok h H' m' ?bs" using same by (rule shape_same_pool)
      have "dlist (fr m2) (free_header H) (f1 @ f2)"
        unfolding m2_def by (rule dlist_unlink_free(2)) (use f in \<open>simp add: m1_def\<close>)
      then show "dlist (fr m') (free_header H') ?fs"
        using list_link_free [of m2 "free_header H" "f1 @ f2" n] S(3) nfs shape_okD(1) [OF D(1)] by (simp add: res m3_def)
      show "set ?fs = {a \<in> set ?bs. \<not> used m' a}" using D(3) fs us d(2) bs new nfs by auto
      show "coalesced (blocks (used m') ?bs)"
        using D(4) unfolding bb b' by (auto simp: coalesced_append coalesced_Cons)
      have "unat (sz + RT_MEMHEAP_SIZE) \<le> unat (available_size H)" using room(1) fits av by simp
      then show "unat (available_size H') = free_bytes (blocks (used m') ?bs)"
        using av room(1) fits pn36 unfolding res(1) charge_sel b' by (simp add: unat_sub word_le_nat_alt n_def)
    qed
    moreover have "q - n - 24 = q - p - 24 - unat sz - 24" using pn36 by (simp add: n_def)
    ultimately show ?thesis using b' bb fits take_at_split [OF pn] by (intro exI [of _ ?bs] exI [of _ ?fs]) (simp add: n_def)
  next
    case False
    then have nfits: "\<not> unat sz + 36 \<le> q - p - 24" using room N(4) by (simp add: word_le_nat_alt)
    define m2 where "m2 = clear_free p (unlink_free p m)"
    have res: "H' = charge ?s H" "m' = upd_item p (\<lambda>i. i\<lparr>magic := magic i OR RT_MEMHEAP_USED\<rparr>) m2"
      using t False by (auto simp: take_block_def Let_def m2_def)
    have us: "used m' = (used m)(p := True)" by (simp add: res(2) m2_def)
    have "blocks (used m') bs = ?L @ (p, q - p - 24, used m' p) # ?R"
      unfolding bs by (rule blocks_around) (use us d(1) bs in auto)
    then have b': "blocks (used m') bs = ?L @ (p, q - p - 24, True) # ?R" using us by simp
    have "pool_ok h H' m' bs (f1 @ f2)"
      unfolding pool_ok_def
    proof (intro conjI)
      have "shape_ok h H m' bs" by (rule shape_marks [OF D(1)]) (use shape_okD(9) [OF D(1)] us in \<open>auto simp: res(2) m2_def\<close>)
      then show "shape_ok h H' m' bs" using same by (rule shape_same_pool)
      show "dlist (fr m') (free_header H') (f1 @ f2)" using dlist_unlink_free(2) [OF f] by (simp add: res m2_def)
      show "set (f1 @ f2) = {a \<in> set bs. \<not> used m' a}" using D(3) fs us d(2) by auto
      show "coalesced (blocks (used m') bs)" using D(4) unfolding bb b' by (auto simp: coalesced_append coalesced_Cons)
      show "unat (available_size H') = free_bytes (blocks (used m') bs)"
        using av N(4) unfolding res(1) charge_sel b' by (simp add: unat_sub word_le_nat_alt)
    qed
    then show ?thesis using b' bb nfits take_at_split [OF pn] by auto
  qed
qed

text \<open>The search is first fit along the list of free blocks, and it ends.\<close>

lemma find_free_walk:
  assumes "dlist (fr m) fl (f1 @ f2)"
  shows "find_free m fl sz (hd (f2 @ [fl])) = Some (List.find (\<lambda>p. sz \<le> MEMITEM_SIZE m p) f2)"
  using assms
proof (induction f2 arbitrary: f1)
  case Nil
  then show ?case by (simp add: find_free.simps)
next
  case (Cons p f2)
  have "next_free (m p) = hd (f2 @ [fl])" using dlist_ends(2) [of "fr m" fl f1 p f2] Cons.prems by simp
  moreover have "p \<noteq> fl" using Cons.prems by (auto simp: dlist_def)
  ultimately show ?case
    using Cons.IH [of "f1 @ [p]"] Cons.prems by (subst find_free.simps) simp
qed

lemma pool_find:
  assumes ok: "pool_ok h H m bs fs"
  shows "find_free m (free_list H) sz (next_free (m (free_list H))) = Some (List.find (\<lambda>p. sz \<le> MEMITEM_SIZE m p) fs)"
proof -
  note D = pool_okD [OF ok]
  have "next_free (m (free_header H)) = hd (fs @ [free_header H])" using D(2) by (cases fs) (auto simp: dlist_def linked_def)
  then show ?thesis using find_free_walk [of m "free_header H" "[]" fs sz] D(2) shape_okD(1) [OF D(1)] by simp
qed

text \<open>The block a pool gives out: the first free one that is large enough, and what the view becomes.\<close>

definition fits :: "items \<Rightarrow> u32 \<Rightarrow> addr list \<Rightarrow> addr option" where
  "fits m sz fs = List.find (\<lambda>p. sz \<le> MEMITEM_SIZE m p) fs"

lemma alloc_section_ok:
  assumes ok: "pool_ok h H m bs fs" and sz: "12 \<le> unat sz" "4 dvd unat sz"
  shows "case fits m sz fs of
      None \<Rightarrow> alloc_section h sz H m = Some (None, H, m)
    | Some p \<Rightarrow> \<exists>H' m' bs' fs'. alloc_section h sz H m = Some (Some (p + 24), H', m') \<and> p \<in> set fs \<and>
        pool_ok h H' m' bs' fs' \<and> same_pool H H' \<and> blocks (used m') bs' = take_at (unat sz) p (blocks (used m) bs)"
proof (cases "fits m sz fs")
  case None
  then show ?thesis using pool_find [OF ok, of sz] by (simp add: fits_def alloc_section_def)
next
  case (Some p)
  then have p: "p \<in> set fs" "sz \<le> MEMITEM_SIZE m p" by (auto simp: fits_def dest: find_SomeD)
  obtain H' m' where t: "take_block h sz p H m = (H', m')" by fastforce
  note T = take_block_ok [OF ok p(1) sz p(2) t]
  have "alloc_section h sz H m = Some (Some (p + 24), H', m')"
    using pool_find [OF ok, of sz] Some t T(3) by (simp add: fits_def alloc_section_def)
  then show ?thesis using T(1,2) p(1) Some by auto
qed

subsection \<open>Giving a block back\<close>

definition release_at :: "addr \<Rightarrow> layout \<Rightarrow> layout" where
  "release_at p L = coalesce (map (\<lambda>(a, s, u). (a, s, u \<and> a \<noteq> p)) L)"

lemma free_bytes_bound: "spaced xs \<Longrightarrow> xs \<noteq> [] \<Longrightarrow> free_bytes (blocks u xs) + hd xs \<le> last xs"
proof (induction u xs rule: blocks.induct)
  case (1 u a b xs)
  then have "free_bytes (blocks u (b # xs)) + b \<le> last (b # xs)" "a + 36 \<le> b" by (auto simp: spaced_simps)
  then show ?case by (auto split: if_splits)
qed auto

lemma shape_free_bytes:
  assumes "shape_ok h H m bs"
  shows "free_bytes (blocks u bs) < 2 ^ 32"
proof -
  note D = shape_okD [OF assms]
  have "bs \<noteq> []" using D(6) by auto
  then show ?thesis using free_bytes_bound [OF D(11), of u] D(4,8) by simp
qed

lemma coalesce_prefix: "coalesced K \<Longrightarrow> K = [] \<or> used_of (last K) \<Longrightarrow> coalesce (K @ X) = K @ coalesce X"
proof (induction K)
  case (Cons x K)
  obtain a s u where x: "x = (a, s, u)" by (cases x)
  show ?case
  proof (cases K)
    case Nil
    then show ?thesis using Cons.prems x by (cases X) auto
  next
    case (Cons y K')
    obtain b t v where y: "y = (b, t, v)" by (cases y)
    have "u \<or> v" "coalesced K" "used_of (last K)" using Cons.prems x y Cons by auto
    then show ?thesis using Cons.IH x y Cons by auto
  qed
qed simp

lemma coalesce_free_used: "coalesced L \<Longrightarrow> L = [] \<or> used_of (hd L) \<Longrightarrow> coalesce ((a, s, False) # L) = (a, s, False) # L"
  by (rule coalesce_coalesced) (auto simp: coalesced_Cons)

lemma coalesce_free_free:
  "coalesced ((b, t, False) # L) \<Longrightarrow> coalesce ((a, s, False) # (b, t, False) # L) = (a, s + 24 + t, False) # L"
  using coalesce_free_used [of L a "s + 24 + t"] by (auto simp: coalesced_Cons)

text \<open>Joining the free block \<open>x\<close> with what is behind it.\<close>

lemma join_right:
  assumes sh: "shape_ok h H m (pre @ x # q # post)" and x: "\<not> used m x"
    and L: "L = blocks (used m) (pre @ [x])" and R: "R = blocks (used m) (q # post)"
    and f: "dlist (fr m) (free_header H) fs" "insert x (set fs) = {a \<in> set (pre @ x # q # post). \<not> used m a}"
    and c: "coalesced L" "coalesced R" "L = [] \<or> used_of (last L)"
    and av: "unat (available_size H) + g = free_bytes (blocks (used m) (pre @ x # q # post))"
    and j: "(if \<not> RT_MEMHEAP_IS_USED m (item_next (m x))
      then (credit RT_MEMHEAP_SIZE H, unlink_free (item_next (m x)) (absorb_next x (item_next (m x)) m)) else (H, m)) = (H', m')"
  shows "\<exists>q' post' fs'. shape_ok h H' m' (pre @ x # q' # post') \<and>
    blocks (used m') (pre @ x # q' # post') = L @ coalesce ((x, q - x - 24, False) # R) \<and>
    dlist (fr m') (free_header H') fs' \<and> insert x (set fs') = {a \<in> set (pre @ x # q' # post'). \<not> used m' a} \<and>
    (x \<in> set fs' \<longleftrightarrow> x \<in> set fs) \<and> coalesced (L @ coalesce ((x, q - x - 24, False) # R)) \<and>
    unat (available_size H') + g = free_bytes (L @ coalesce ((x, q - x - 24, False) # R)) \<and> same_pool H H'"
proof -
  note N = shape_neighbours [OF sh refl]
  have B: "blocks (used m) (pre @ x # q # post) = L @ (x, q - x - 24, False) # R"
    using blocks_split [of "used m" pre x "q # post"] x L R by simp
  show ?thesis
  proof (cases "used m q")
    case True
    have "H' = H" "m' = m" using j True N(1) by simp_all
    moreover have "R = [] \<or> used_of (hd R)" using True R by (cases post) auto
    then have "coalesce ((x, q - x - 24, False) # R) = (x, q - x - 24, False) # R" by (rule coalesce_free_used [OF c(2)])
    moreover have "coalesced (L @ (x, q - x - 24, False) # R)"
      using c \<open>R = [] \<or> used_of (hd R)\<close> by (auto simp: coalesced_append coalesced_Cons)
    ultimately show ?thesis using sh f av B by (intro exI [of _ q] exI [of _ post] exI [of _ fs]) simp
  next
    case False
    then have "q \<noteq> last (pre @ x # q # post)" using shape_okD(9) [OF sh] by auto
    then obtain r rest where post: "post = r # rest" by (cases post) auto
    have sh': "shape_ok h H m ((pre @ [x]) @ q # r # rest)" using sh post by simp
    note N' = shape_neighbours [OF sh' refl]
    have R': "R = (q, r - q - 24, False) # blocks (used m) (r # rest)" using R post False by simp
    define m1 where "m1 = absorb_next x q m"
    have res: "H' = credit RT_MEMHEAP_SIZE H" "m' = unlink_free q m1" using j False N(1) by (simp_all add: m1_def)
    have us: "used m' = used m" by (simp add: res m1_def)
    have sz: "q - x - 24 + 24 + (r - q - 24) = r - x - 24" using N(3) N'(3) by simp
    have co: "coalesce ((x, q - x - 24, False) # R) = (x, r - x - 24, False) # blocks (used m) (r # rest)"
      using coalesce_free_free [of q "r - q - 24" _ x "q - x - 24"] c(2) sz unfolding R' by simp
    have s1: "shape_ok h H m1 (pre @ x # r # rest)" unfolding m1_def by (rule shape_merge) (use sh post in simp)
    have "shape_ok h H m' (pre @ x # r # rest)"
      by (rule shape_marks [OF s1]) (use shape_okD(9) [OF s1] in \<open>auto simp: res(2)\<close>)
    then have s2: "shape_ok h H' m' (pre @ x # r # rest)" by (rule shape_same_pool) (simp add: res(1))
    have B': "blocks (used m') (pre @ x # r # rest) = L @ coalesce ((x, q - x - 24, False) # R)"
      using blocks_split [of "used m" pre x "r # rest"] x L us co by simp
    have "q \<noteq> x" "q \<in> insert x (set fs)" using N(9) f(2) False by auto
    then obtain f1 f2 where fs: "fs = f1 @ q # f2" using split_list by fastforce
    have d: "distinct fs" "distinct (pre @ x # q # post)" using f(1) N(9) by (simp_all add: dlist_def)
    have f': "dlist (fr m') (free_header H') (f1 @ f2)" using dlist_unlink_free(1) [of m1 "free_header H" f1 q f2] f(1) fs
      by (simp add: res m1_def)
    have set': "insert x (set (f1 @ f2)) = {a \<in> set (pre @ x # r # rest). \<not> used m' a}"
      using f(2) d fs \<open>q \<noteq> x\<close> unfolding us post by auto
    have "coalesced (L @ (x, r - x - 24, False) # blocks (used m) (r # rest))"
      using c unfolding R' by (auto simp: coalesced_append coalesced_Cons)
    moreover have "unat (available_size H') + g = free_bytes (L @ (x, r - x - 24, False) # blocks (used m) (r # rest))"
    proof -
      have "unat (available_size H) + g + 24 = free_bytes (L @ (x, r - x - 24, False) # blocks (used m) (r # rest))"
        using av sz unfolding B R' by simp
      moreover have "free_bytes (L @ (x, r - x - 24, False) # blocks (used m) (r # rest)) < 2 ^ 32"
        using shape_free_bytes [OF s2, of "used m'"] B' co by simp
      ultimately show ?thesis by (simp add: res(1) unat_add_small)
    qed
    ultimately show ?thesis
      using s2 B' f' set' co fs d(1) \<open>q \<noteq> x\<close> by (intro exI [of _ r] exI [of _ rest] exI [of _ "f1 @ f2"]) (auto simp: res(1))
  qed
qed

lemma release_at_around:
  assumes "distinct (pre @ p # q # post)"
  shows "release_at p (blocks u (pre @ p # q # post)) =
    coalesce (blocks u (pre @ [p]) @ (p, q - p - 24, False) # blocks u (q # post))"
proof -
  have id: "map (\<lambda>(a, s, v). (a, s, v \<and> a \<noteq> p)) L = L" if "p \<notin> fst ` set L" for L :: layout
    using that by (intro map_idI) force
  have "p \<notin> fst ` set (blocks u (pre @ [p]))" using blocks_fst [of _ _ _ u "pre @ [p]"] assms by force
  moreover have "p \<notin> fst ` set (blocks u (q # post))"
  proof
    assume "p \<in> fst ` set (blocks u (q # post))"
    then have "p \<in> set (butlast (q # post))" using blocks_fst [of _ _ _ u "q # post"] by force
    then show False using assms in_set_butlastD by fastforce
  qed
  ultimately show ?thesis using blocks_split [of u pre p "q # post"] by (simp add: release_at_def id)
qed

lemma free_section_ok:
  assumes ok: "pool_ok h H m bs fs" and p: "p \<in> set bs" "p \<noteq> last bs" "used m p" and t: "free_section p H m = (H', m')"
  shows "\<exists>bs' fs'. pool_ok h H' m' bs' fs' \<and> blocks (used m') bs' = release_at p (blocks (used m) bs)" "same_pool H H'"
proof -
  note D = pool_okD [OF ok]
  obtain pre q post where bs: "bs = pre @ p # q # post" by (rule shape_split [OF p(1,2)])
  note N = shape_neighbours [OF D(1) bs]
  define m1 where "m1 = upd_item p (\<lambda>i. i\<lparr>magic := magic i AND NOT RT_MEMHEAP_USED\<rparr>) m"
  define H1 where "H1 = credit (MEMITEM_SIZE m p) H"
  have us: "used m1 = (used m)(p := False)" by (simp add: m1_def)
  have same: "item_next (m1 a) = item_next (m a)" "item_prev (m1 a) = item_prev (m a)" "MEMITEM_SIZE m1 a = MEMITEM_SIZE m a"
    "bl m1 = bl m" "fr m1 = fr m" for a
    by (simp_all add: m1_def MEMITEM_SIZE_def upd_item_at)
  have last1: "used m1 (last bs)" using shape_okD(9) [OF D(1)] us p(2) by simp
  have sh1: "shape_ok h H m1 bs" by (rule shape_marks [OF D(1) same(4) last1]) (simp add: m1_def)
  let ?L = "blocks (used m) (pre @ [p])" and ?R = "blocks (used m) (q # post)"
  have B: "blocks (used m) bs = ?L @ (p, q - p - 24, True) # ?R"
    using bs blocks_split [of "used m" pre p "q # post"] p(3) by simp
  have B1: "blocks (used m1) bs = ?L @ (p, q - p - 24, False) # ?R"
  proof -
    have "blocks (used m1) bs = ?L @ (p, q - p - 24, used m1 p) # ?R"
      unfolding bs by (rule blocks_around) (use us N(9) bs in auto)
    then show ?thesis using us by simp
  qed
  have rel: "release_at p (blocks (used m) bs) = coalesce (?L @ (p, q - p - 24, False) # ?R)"
    using release_at_around [of pre p q post "used m"] N(9) bs by simp
  have cLR: "coalesced ?L" "coalesced ?R" using D(4) unfolding B by (auto simp: coalesced_append coalesced_Cons)
  have pfs: "p \<notin> set fs" using D(3) p(3) by auto
  have av1: "unat (available_size H1) = free_bytes (blocks (used m1) bs)"
  proof -
    have "unat (available_size H) + (q - p - 24) = free_bytes (blocks (used m1) bs)" using D(5) B B1 by simp
    moreover have "free_bytes (blocks (used m1) bs) < 2 ^ 32" by (rule shape_free_bytes [OF sh1])
    ultimately show ?thesis using N(4) by (simp add: H1_def unat_add_small)
  qed
  show "same_pool H H'" using t by (auto simp: free_section_def Let_def same_pool_def split: if_splits)
  have H1: "shape_ok h H1 m1 bs" by (rule shape_same_pool [OF sh1]) (simp add: H1_def)
  show "\<exists>bs' fs'. pool_ok h H' m' bs' fs' \<and> blocks (used m') bs' = release_at p (blocks (used m) bs)"
  proof (cases "used m1 (item_prev (m1 p))")
    case True
    obtain H3 m3 where j: "(if \<not> RT_MEMHEAP_IS_USED m1 (item_next (m1 p))
      then (credit RT_MEMHEAP_SIZE H1, unlink_free (item_next (m1 p)) (absorb_next p (item_next (m1 p)) m1)) else (H1, m1)) = (H3, m3)"
      by fastforce
    have res: "H' = H3" "m' = link_free (free_list H3) p m3"
      using t True j by (auto simp: free_section_def Let_def H1_def same(3) m1_def [symmetric] split: if_splits)
    have lastL: "?L = [] \<or> used_of (last ?L)"
    proof (cases pre rule: rev_cases)
      case (snoc pre' l)
      then have "used m l" using True N(2,9) same(2) us bs by simp
      then show ?thesis using blocks_split [of "used m" pre' l "[p]"] snoc by simp
    qed simp
    have L1: "?L = blocks (used m1) (pre @ [p])"
      by (rule blocks_keep [symmetric, of _ _ "q # post"]) (use us N(9) bs in auto)
    have R1: "?R = blocks (used m1) (q # post)"
      by (rule blocks_cong_set) (use us N(9) bs in auto)
    have free1: "insert p (set fs) = {a \<in> set (pre @ p # q # post). \<not> used m1 a}" using D(3) us bs by auto
    have f1: "dlist (fr m1) (free_header H1) fs" using D(2) same(5) by (simp add: H1_def)
    have a0: "unat (available_size H1) + 0 = free_bytes (blocks (used m1) (pre @ p # q # post))" using av1 bs by simp
    have np: "\<not> used m1 p" using us by simp
    obtain q' post' fs' where J: "shape_ok h H3 m3 (pre @ p # q' # post')"
      "blocks (used m3) (pre @ p # q' # post') = ?L @ coalesce ((p, q - p - 24, False) # ?R)"
      "dlist (fr m3) (free_header H3) fs'" "insert p (set fs') = {a \<in> set (pre @ p # q' # post'). \<not> used m3 a}"
      "p \<in> set fs' \<longleftrightarrow> p \<in> set fs" "coalesced (?L @ coalesce ((p, q - p - 24, False) # ?R))"
      "unat (available_size H3) + 0 = free_bytes (?L @ coalesce ((p, q - p - 24, False) # ?R))" "same_pool H1 H3"
      using join_right [OF H1 [unfolded bs] np L1 R1 f1 free1 cLR lastL a0 j]
      by (elim exE conjE) (rule that; assumption)
    have "p \<notin> set (free_header H3 # fs')" using J(5) pfs shape_bounds(5) [OF J(1), of p] by auto
    then have fr': "dlist (fr m') (free_header H3) (p # fs')"
      using list_link_free [OF J(3)] shape_okD(1) [OF J(1)] by (simp add: res)
    have "shape_ok h H3 m' (pre @ p # q' # post')"
      by (rule shape_marks [OF J(1)]) (use shape_okD(9) [OF J(1)] in \<open>simp_all add: res\<close>)
    then have "pool_ok h H' m' (pre @ p # q' # post') (p # fs')"
      unfolding pool_ok_def using fr' J(2,4,6,7) by (simp add: res)
    moreover have "blocks (used m') (pre @ p # q' # post') = release_at p (blocks (used m) bs)"
      using J(2) coalesce_prefix [OF cLR(1) lastL] rel by (simp add: res)
    ultimately show ?thesis by blast
  next
    case False
    have "pre \<noteq> []" using False last1 N(2) same(2) by auto
    then obtain pre' l where pre: "pre = pre' @ [l]" by (cases pre rule: rev_cases) auto
    have pl: "item_prev (m1 p) = l" using N(2) same(2) pre by simp
    have nl: "\<not> used m1 l" using False pl by simp
    define m2 where "m2 = bypass_block p m1"
    define H2 where "H2 = credit RT_MEMHEAP_SIZE H1"
    have ne: "p \<noteq> q" "p \<noteq> l" "l \<noteq> q" using N(9) bs pre by auto
    have pp: "item_prev (m2 p) = l"
      using ne N(1) same(1) pl by (simp add: m2_def bypass_block_def upd_item_at Let_def)
    obtain H3 m3 where j: "(if \<not> RT_MEMHEAP_IS_USED m2 (item_next (m2 l))
      then (credit RT_MEMHEAP_SIZE H2, unlink_free (item_next (m2 l)) (absorb_next l (item_next (m2 l)) m2)) else (H2, m2)) = (H3, m3)"
      by fastforce
    have res: "H' = H3" "m' = m3"
      using t False j pp by (auto simp: free_section_def Let_def H1_def H2_def m2_def same(3) m1_def [symmetric] split: if_splits)
    have us2: "used m2 = used m1" by (simp add: m2_def)
    have "shape_ok h H1 m1 (pre' @ l # p # q # post)" using H1 bs pre by simp
    then have "shape_ok h H1 m2 (pre' @ l # q # post)" unfolding m2_def by (rule shape_merge(1))
    then have sh2: "shape_ok h H2 m2 (pre' @ l # q # post)" by (rule shape_same_pool) (simp add: H2_def)
    have shl: "p + 36 \<le> q" "l + 36 \<le> p" using N(3) shape_okD(11) [OF D(1)] bs pre by (auto simp: spaced_simps)
    let ?K = "blocks (used m) (pre' @ [l])"
    have nlm: "\<not> used m l" using nl us ne by simp
    have L: "?L = ?K @ [(l, p - l - 24, False)]" 
      using blocks_split [of "used m" pre' l "[p]"] nlm unfolding pre append.assoc append_Cons append_Nil
      by (simp only: blocks.simps if_False)
    have L2: "?K = blocks (used m2) (pre' @ [l])"
      by (rule blocks_keep [symmetric, of _ _ "p # q # post"]) (use us us2 N(9) bs pre in auto)
    have R2: "?R = blocks (used m2) (q # post)"
      by (rule blocks_cong_set) (use us us2 N(9) bs in auto)
    have c: "coalesced ?K" "?K = [] \<or> used_of (last ?K)" using cLR(1) unfolding L by (auto simp: coalesced_append)
    have f2: "dlist (fr m2) (free_header H2) fs" using D(2) same(5) by (simp add: H2_def H1_def m2_def)
    have free2: "insert l (set fs) = {a \<in> set (pre' @ l # q # post). \<not> used m2 a}"
    proof -
      have "l \<in> set fs" unfolding D(3) bs pre using nlm by simp
      then have "insert l (set fs) = {a \<in> set bs. \<not> used m a}" using D(3) by auto
      also have "\<dots> = {a \<in> set (pre' @ l # q # post). \<not> used m2 a}"
        unfolding us2 us bs pre using p(3) ne N(9) [unfolded bs pre] by auto
      finally show ?thesis .
    qed
    have a2: "unat (available_size H2) + 0 = free_bytes (blocks (used m2) (pre' @ l # q # post))"
    proof -
      have b2: "blocks (used m2) (pre' @ l # q # post) = ?K @ (l, q - l - 24, False) # ?R"
        using blocks_split [of "used m2" pre' l "q # post"] L2 R2 nl us2 by simp
      have "unat (available_size H1) + 24 = free_bytes (blocks (used m2) (pre' @ l # q # post))"
        using av1 shl unfolding b2 B1 L by simp
      moreover have "free_bytes (blocks (used m2) (pre' @ l # q # post)) < 2 ^ 32" by (rule shape_free_bytes [OF sh2])
      ultimately show ?thesis by (simp add: H2_def unat_add_small)
    qed
    have nl2: "\<not> used m2 l" using nl us2 by simp
    obtain q' post' fs' where J: "shape_ok h H3 m3 (pre' @ l # q' # post')"
      "blocks (used m3) (pre' @ l # q' # post') = ?K @ coalesce ((l, q - l - 24, False) # ?R)"
      "dlist (fr m3) (free_header H3) fs'" "insert l (set fs') = {a \<in> set (pre' @ l # q' # post'). \<not> used m3 a}"
      "l \<in> set fs' \<longleftrightarrow> l \<in> set fs" "coalesced (?K @ coalesce ((l, q - l - 24, False) # ?R))"
      "unat (available_size H3) + 0 = free_bytes (?K @ coalesce ((l, q - l - 24, False) # ?R))" "same_pool H2 H3"
      using join_right [OF sh2 nl2 L2 R2 f2 free2 c(1) cLR(2) c(2) a2 j]
      by (elim exE conjE) (rule that; assumption)
    have "l \<in> set fs" using D(3) nlm bs pre by auto
    then have "set fs' = {a \<in> set (pre' @ l # q' # post'). \<not> used m3 a}" using J(4,5) by auto
    then have "pool_ok h H' m' (pre' @ l # q' # post') fs'"
      unfolding pool_ok_def using J(1-3,6,7) by (simp add: res)
    moreover have "blocks (used m') (pre' @ l # q' # post') = release_at p (blocks (used m) bs)"
    proof -
      have "p - l - 24 + 24 + (q - p - 24) = q - l - 24" using shl by simp
      then have "coalesce ((l, p - l - 24, False) # (p, q - p - 24, False) # ?R) = coalesce ((l, q - l - 24, False) # ?R)" by simp
      then show ?thesis using J(2) coalesce_prefix [OF c] rel L by (simp add: res)
    qed
    ultimately show ?thesis by blast
  qed
qed

subsection \<open>Changing the size of a block\<close>

fun shrink_at :: "nat \<Rightarrow> addr \<Rightarrow> layout \<Rightarrow> layout" where
  "shrink_at sz p [] = []"
| "shrink_at sz p ((a, s, u) # L) =
     (if a = p then (a, sz, u) # coalesce ((a + 24 + sz, s - sz - 24, False) # L) else (a, s, u) # shrink_at sz p L)"

fun grow_at :: "nat \<Rightarrow> addr \<Rightarrow> layout \<Rightarrow> layout" where
  "grow_at sz p ((a, s, u) # (b, t, v) # L) =
     (if a = p then (a, sz, u) # (a + 24 + sz, s + t - sz, v) # L else (a, s, u) # grow_at sz p ((b, t, v) # L))"
| "grow_at sz p L = L"

lemma shrink_at_split: "p \<notin> fst ` set K \<Longrightarrow> shrink_at sz p (K @ L) = K @ shrink_at sz p L"
  by (induction K) (auto split: prod.splits)

lemma grow_at_split: "p \<notin> fst ` set K \<Longrightarrow> grow_at sz p (K @ (p, s, u) # L) = K @ grow_at sz p ((p, s, u) # L)"
proof (induction K)
  case (Cons x K)
  then show ?case by (cases x; cases K) (auto split: prod.splits)
qed simp

lemma front_fresh: "distinct (pre @ p # zs) \<Longrightarrow> p \<notin> fst ` set (blocks u (pre @ [p]))"
  using blocks_fst [of _ _ _ u "pre @ [p]"] by force

lemma shrink_section_ok:
  assumes ok: "pool_ok h H m bs fs" and p: "p \<in> set bs" "p \<noteq> last bs" "used m p"
    and sz: "12 \<le> unat sz" "4 dvd unat sz" "unat sz + 36 \<le> unat (MEMITEM_SIZE m p)" and t: "shrink_section h p sz H m = (H', m')"
  shows "\<exists>bs' fs'. pool_ok h H' m' bs' fs' \<and> blocks (used m') bs' = shrink_at (unat sz) p (blocks (used m) bs)" "same_pool H H'"
proof -
  note D = pool_okD [OF ok]
  obtain pre q post where bs: "bs = pre @ p # q # post" by (rule shape_split [OF p(1,2)])
  note N = shape_neighbours [OF D(1) bs] and sh = D(1) [unfolded bs]
  let ?L = "blocks (used m) (pre @ [p])" and ?R = "blocks (used m) (q # post)"
  show same: "same_pool H H'" using t by (auto simp: shrink_section_def Let_def same_pool_def split: if_splits)
  define n where "n = p + 24 + unat sz"
  have room: "unat (sz + 24) = unat sz + 24" using sz(3) N(4,7) by (simp add: unat_add_small)
  have n: "item_at p (sz + RT_MEMHEAP_SIZE) = n"
    using item_at_small [of p "sz + RT_MEMHEAP_SIZE"] room sz(3) N(3,4,7) by (simp add: n_def)
  have pn: "p + 36 \<le> n" "n + 36 \<le> q" "4 dvd n - p" using sz N(4) by (simp_all add: n_def)
  note S = shape_link [OF sh pn]
  define m1 where "m1 = link_block p n (fresh_mark h n m)"
  define H1 where "H1 = credit (MEMITEM_SIZE m1 n) H"
  have us: "used m1 = (used m)(n := False)" by (simp add: m1_def)
  have s1: "shape_ok h H m1 ((pre @ [p]) @ n # q # post)" using S(1) by (simp add: m1_def)
  then have sh1: "shape_ok h H1 m1 ((pre @ [p]) @ n # q # post)" by (rule shape_same_pool) (simp add: H1_def)
  note N1 = shape_neighbours [OF s1 refl]
  obtain H3 m3 where j: "(if \<not> RT_MEMHEAP_IS_USED m1 (item_next (m1 n))
    then (credit RT_MEMHEAP_SIZE H1, unlink_free (item_next (m1 n)) (absorb_next n (item_next (m1 n)) m1)) else (H1, m1)) = (H3, m3)"
    by fastforce
  have res: "H' = H3" "m' = link_free (free_list H) n m3"
  proof -
    have q1: "item_next (m1 n) = q" by (rule N1(1))
    have sec: "shrink_section h p sz H m =
      (let (H, m) = (if \<not> RT_MEMHEAP_IS_USED m1 q
          then (H\<lparr>available_size := available_size H - MEMITEM_SIZE m1 q\<rparr>, unlink_free q (absorb_next n q m1)) else (H, m1));
        m = link_free (free_list H) n m in (credit (MEMITEM_SIZE m n) H, m))"
      by (simp only: shrink_section_def Let_def n m1_def [symmetric] q1)
    have ms: "MEMITEM_SIZE (link_free l n m) n = MEMITEM_SIZE m n" for l m
      by (simp add: MEMITEM_SIZE_bl)
    have "H' = H3 \<and> m' = link_free (free_list H) n m3"
    proof (cases "used m1 q")
      case True
      have "m3 = m1" "H3 = H1" using j True q1 by simp_all
      moreover have "H' = credit (MEMITEM_SIZE (link_free (free_list H) n m1) n) H" "m' = link_free (free_list H) n m1"
        using t True unfolding sec by (auto simp: Let_def)
      ultimately show ?thesis by (simp add: ms H1_def)
    next
      case False
      define m2 where "m2 = unlink_free q (absorb_next n q m1)"
      have m3: "m3 = m2" "H3 = credit RT_MEMHEAP_SIZE H1" using j False q1 by (simp_all add: m2_def)
      have H': "H' = credit (MEMITEM_SIZE (link_free (free_list H) n m2) n) (H\<lparr>available_size := available_size H - MEMITEM_SIZE m1 q\<rparr>)"
        "m' = link_free (free_list H) n m2"
        using t False unfolding sec by (auto simp: Let_def m2_def)
      have "item_next (m2 n) = item_next (m1 q)" using N1(9)
        by (simp add: m2_def unlink_free_def absorb_next_def upd_item_at Let_def)
      then have "MEMITEM_SIZE m2 n = MEMITEM_SIZE m1 n + RT_MEMHEAP_SIZE + MEMITEM_SIZE m1 q"
        using q1 by (simp add: MEMITEM_SIZE_def)
      then have "H' = H3" unfolding H' m3 H1_def credit_def by (simp add: ms algebra_simps)
      then show ?thesis using H'(2) m3 by simp
    qed
    then show "H' = H3" "m' = link_free (free_list H) n m3" by simp_all
  qed
  have d: "distinct bs" "n \<notin> set bs" using N(9) S(2) bs by simp_all
  have B: "blocks (used m) bs = ?L @ (p, q - p - 24, True) # ?R"
    using bs blocks_split [of "used m" pre p "q # post"] p(3) by simp
  let ?K = "?L @ [(p, unat sz, True)]"
  have K: "?K = blocks (used m1) ((pre @ [p]) @ [n])"
  proof -
    have "blocks (used m1) (pre @ [p]) = ?L" by (rule blocks_keep [of _ _ "q # post"]) (use us d bs in auto)
    moreover have "n - p - 24 = unat sz" "used m1 p" using pn us p(3) by (simp_all add: n_def)
    ultimately show ?thesis using blocks_split [of "used m1" pre p "[n]"] by simp
  qed
  have R: "?R = blocks (used m1) (q # post)" by (rule blocks_cong_set) (use us d bs in auto)
  have c: "coalesced ?K" "coalesced ?R" "?K = [] \<or> used_of (last ?K)"
    using D(4) unfolding B by (auto simp: coalesced_append coalesced_Cons)
  have nn: "\<not> used m1 n" using us by simp
  have f: "dlist (fr m1) (free_header H1) fs" using D(2) by (simp add: H1_def m1_def)
  have free: "insert n (set fs) = {a \<in> set ((pre @ [p]) @ n # q # post). \<not> used m1 a}" using D(3) us d bs by auto
  have av: "unat (available_size H1) + 0 = free_bytes (blocks (used m1) ((pre @ [p]) @ n # q # post))"
  proof -
    have "blocks (used m1) ((pre @ [p]) @ n # q # post) = ?K @ (n, q - n - 24, False) # ?R"
      using blocks_split [of "used m1" "pre @ [p]" n "q # post"] K R nn by simp
    then have "unat (available_size H) + (q - n - 24) = free_bytes (blocks (used m1) ((pre @ [p]) @ n # q # post))"
      using D(5) unfolding B by simp
    moreover have "free_bytes (blocks (used m1) ((pre @ [p]) @ n # q # post)) < 2 ^ 32" by (rule shape_free_bytes [OF s1])
    ultimately show ?thesis using N1(4) by (simp add: H1_def unat_add_small)
  qed
  obtain q' post' fs' where J: "shape_ok h H3 m3 ((pre @ [p]) @ n # q' # post')"
    "blocks (used m3) ((pre @ [p]) @ n # q' # post') = ?K @ coalesce ((n, q - n - 24, False) # ?R)"
    "dlist (fr m3) (free_header H3) fs'" "insert n (set fs') = {a \<in> set ((pre @ [p]) @ n # q' # post'). \<not> used m3 a}"
    "n \<in> set fs' \<longleftrightarrow> n \<in> set fs" "coalesced (?K @ coalesce ((n, q - n - 24, False) # ?R))"
    "unat (available_size H3) + 0 = free_bytes (?K @ coalesce ((n, q - n - 24, False) # ?R))" "same_pool H1 H3"
    using join_right [OF sh1 nn K R f free c av j] by (elim exE conjE) (rule that; assumption)
  have "n \<notin> set (free_header H3 # fs')" using J(5) D(3) d(2) shape_bounds(5) [OF J(1), of n] by auto
  moreover have "free_list H = free_header H3" using shape_okD(1) [OF J(1)] J(8) by (simp add: same_pool_def H1_def)
  ultimately have "dlist (fr m') (free_header H3) (n # fs')" using list_link_free [OF J(3)] by (simp add: res)
  moreover have "shape_ok h H3 m' ((pre @ [p]) @ n # q' # post')"
    by (rule shape_marks [OF J(1)]) (use shape_okD(9) [OF J(1)] in \<open>simp_all add: res\<close>)
  ultimately have "pool_ok h H' m' ((pre @ [p]) @ n # q' # post') (n # fs')"
    unfolding pool_ok_def using J(2,4,6,7) by (simp add: res)
  moreover have "blocks (used m') ((pre @ [p]) @ n # q' # post') = shrink_at (unat sz) p (blocks (used m) bs)"
  proof -
    have "q - n - 24 = q - p - 24 - unat sz - 24" using pn by (simp add: n_def)
    moreover have "p \<notin> fst ` set ?L" by (rule front_fresh [of _ _ "q # post"]) (use d bs in simp)
    ultimately show ?thesis using J(2) B shrink_at_split [of p ?L] by (simp add: res n_def)
  qed
  ultimately show "\<exists>bs' fs'. pool_ok h H' m' bs' fs' \<and> blocks (used m') bs' = shrink_at (unat sz) p (blocks (used m) bs)" by blast
qed

lemma grow_section_ok:
  assumes ok: "pool_ok h H m bs fs" and p: "p \<in> set bs" "p \<noteq> last bs" "used m p"
    and sz: "12 \<le> unat sz" "4 dvd unat sz" "unat (MEMITEM_SIZE m p) < unat sz" "unat sz < 2 ^ 32 - 12"
  shows "\<exists>b H' m'. grow_section h p (MEMITEM_SIZE m p) sz H m = Some (b, H', m') \<and> same_pool H H' \<and>
    (b \<longrightarrow> (\<exists>bs' fs'. pool_ok h H' m' bs' fs' \<and> blocks (used m') bs' = grow_at (unat sz) p (blocks (used m) bs))) \<and>
    (\<not> b \<longrightarrow> H' = H \<and> m' = m)"
proof -
  note D = pool_okD [OF ok]
  obtain pre q post where bs: "bs = pre @ p # q # post" by (rule shape_split [OF p(1,2)])
  note N = shape_neighbours [OF D(1) bs]
  have pq: "p < q" using N(3) by simp
  let ?s = "MEMITEM_SIZE m p" and ?t = "MEMITEM_SIZE m q"
  show ?thesis
  proof (cases "\<not> used m q \<and> sz + RT_MEMHEAP_MINIALLOC < ?t + ?s")
    case False
    then have "grow_section h p (MEMITEM_SIZE m p) sz H m = Some (False, H, m)" using pq N(1) by (auto simp: grow_section_def Let_def)
    then show ?thesis by (intro exI [of _ False] exI [of _ H] exI [of _ m]) simp
  next
    case True
    then have "q \<noteq> last bs" using shape_okD(9) [OF D(1)] by auto
    then obtain r rest where post: "post = r # rest" using bs by (cases post) auto
    have bs': "bs = (pre @ [p]) @ q # r # rest" using bs post by simp
    note N' = shape_neighbours [OF D(1) bs']
    have sum: "unat (?t + ?s) = (r - q - 24) + (q - p - 24)"
      using N(3,4) N'(3,4,7) by (simp add: unat_add_small)
    have "unat (sz + RT_MEMHEAP_MINIALLOC) = unat sz + 12" using sz(4) by (simp add: unat_add_small)
    then have fit: "unat sz + 12 < (r - q - 24) + (q - p - 24)" using True sum by (simp add: word_less_nat_alt)
    define n where "n = p + 24 + unat sz"
    have n: "item_at (item_at p RT_MEMHEAP_SIZE) sz = n"
      using item_at_small [of p RT_MEMHEAP_SIZE] item_at_small [of "p + 24" sz] fit N(3) N'(3,7) by (simp add: n_def)
    have pn: "p + 36 \<le> n" "n + 36 \<le> r" "4 dvd n - p" using sz(1,2) fit N(3) N'(3) by (simp_all add: n_def)
    have qn: "q < n" using sz(3) N(3,4) by (simp add: n_def)
    define m1 where "m1 = unlink_block q (unlink_free q m)"
    define m2 where "m2 = link_block p n (fresh_mark h n m1)"
    have g: "grow_section h p (MEMITEM_SIZE m p) sz H m = Some (True, charge (sz - ?s) H, link_free (free_list H) n m2)"
      using True pq N(1) n by (simp add: grow_section_def Let_def m1_def m2_def)
    have "shape_ok h H (unlink_free q m) (pre @ p # q # r # rest)"
      by (rule shape_marks [OF D(1) [unfolded bs post]]) (use shape_okD(9) [OF D(1)] bs post in simp_all)
    then have s1: "shape_ok h H m1 (pre @ p # r # rest)" unfolding m1_def by (rule shape_merge(3))
    note S = shape_link [OF s1 pn]
    let ?bs = "pre @ p # n # r # rest"
    have us: "used m2 = (used m)(n := False)" by (simp add: m2_def m1_def)
    have d: "distinct bs" by (rule N(9))
    have new: "n \<notin> set (pre @ p # r # rest)" by (rule S(2))
    let ?L = "blocks (used m) (pre @ [p])" and ?R = "blocks (used m) (r # rest)"
    have B: "blocks (used m) bs = ?L @ (p, q - p - 24, True) # (q, r - q - 24, False) # ?R"
      using bs post blocks_split [of "used m" pre p "q # r # rest"] p(3) True by simp
    have B': "blocks (used m2) ?bs = ?L @ (p, unat sz, True) # (n, r - n - 24, False) # ?R"
    proof -
      have "blocks (used m2) (pre @ [p]) = ?L" by (rule blocks_keep [of _ _ "r # rest"]) (use us d new bs post in auto)
      moreover have "blocks (used m2) (r # rest) = ?R" by (rule blocks_cong_set) (use us new in auto)
      moreover have "n - p - 24 = unat sz" "used m2 p" "\<not> used m2 n" using pn us p(3) by (simp_all add: n_def)
      ultimately show ?thesis using blocks_split [of "used m2" pre p "n # r # rest"] by simp
    qed
    have "q \<in> set fs" using D(3) True bs by auto
    then obtain f1 f2 where fs: "fs = f1 @ q # f2" by (meson split_list)
    have f: "dlist (fr m2) (free_header H) (f1 @ f2)"
      using dlist_unlink_free(1) [of m "free_header H" f1 q f2] D(2) fs by (simp add: m2_def m1_def)
    have df: "distinct fs" using D(2) by (simp add: dlist_def)
    have nf: "n \<notin> set (f1 @ f2)"
    proof
      assume n': "n \<in> set (f1 @ f2)"
      then have "n \<in> set bs" using D(3) fs by auto
      then show False using new qn bs post by auto
    qed
    have "pool_ok h (charge (sz - ?s) H) (link_free (free_list H) n m2) ?bs (n # f1 @ f2)"
      unfolding pool_ok_def
    proof (intro conjI)
      have "shape_ok h H (link_free (free_list H) n m2) ?bs"
        by (rule shape_marks [OF S(1)]) (use shape_okD(9) [OF S(1)] in \<open>simp_all add: m2_def\<close>)
      then show "shape_ok h (charge (sz - ?s) H) (link_free (free_list H) n m2) ?bs" by (rule shape_same_pool) simp
      show "dlist (fr (link_free (free_list H) n m2)) (free_header (charge (sz - ?s) H)) (n # f1 @ f2)"
        using list_link_free [OF f] nf S(3) shape_okD(1) [OF D(1)] by simp
      show "set (n # f1 @ f2) = {a \<in> set ?bs. \<not> used (link_free (free_list H) n m2) a}"
      proof -
        have "set (f1 @ f2) = {a \<in> set (pre @ p # r # rest). \<not> used m a}"
          using D(3) df d unfolding fs bs post by auto
        then show ?thesis using us new by auto
      qed
      show "coalesced (blocks (used (link_free (free_list H) n m2)) ?bs)"
        using D(4) unfolding used_link B B' by (auto simp: coalesced_append coalesced_Cons)
      have "unat (sz - ?s) = unat sz - (q - p - 24)" using sz(3) N(4) by (simp add: unat_sub word_le_nat_alt)
      moreover have "unat (available_size H) = free_bytes ?L + (r - q - 24) + free_bytes ?R" using D(5) unfolding B by simp
      ultimately have "unat (available_size H - (sz - ?s)) = free_bytes ?L + (r - n - 24) + free_bytes ?R"
        using fit sz(3) N(3,4) N'(3) pn by (subst unat_sub) (simp_all add: word_le_nat_alt n_def)
      then show "unat (available_size (charge (sz - ?s) H)) = free_bytes (blocks (used (link_free (free_list H) n m2)) ?bs)"
        unfolding used_link B' charge_sel by simp
    qed
    moreover have "blocks (used m2) ?bs = grow_at (unat sz) p (blocks (used m) bs)"
    proof -
      have "r - n - 24 = (q - p - 24) + (r - q - 24) - unat sz" using pn N(3) N'(3) sz(3) N(4) by (simp add: n_def)
      moreover have "p \<notin> fst ` set ?L" by (rule front_fresh [of _ _ "q # post"]) (use d bs in simp)
      ultimately show ?thesis using B B' grow_at_split [of p ?L] by (simp add: n_def)
    qed
    ultimately show ?thesis using g by (intro exI conjI) (auto simp: used_link)
  qed
qed

subsection \<open>A new pool\<close>

lemma init_pool_ok:
  assumes st: "0 < st" "st + unat sz < 2 ^ 32" "60 \<le> unat (RT_ALIGN_DOWN sz 4)"
    and fh: "free_header H \<notin> {st..<st + unat sz}" and i: "init_pool h st sz H m = (H', m')"
  shows "pool_ok h H' m' [st, st + unat (RT_ALIGN_DOWN sz 4) - 24] [st]"
    "blocks (used m') [st, st + unat (RT_ALIGN_DOWN sz 4) - 24] = [(st, unat (RT_ALIGN_DOWN sz 4) - 48, False)]"
    "start_addr H' = st" "pool_size H' = RT_ALIGN_DOWN sz 4" "free_header H' = free_header H" "heap_lock H' = heap_lock H"
proof -
  define ps where "ps = RT_ALIGN_DOWN sz 4"
  define e where "e = st + unat ps - 24"
  have ps: "unat ps \<le> unat sz" "4 dvd unat ps"
  proof -
    have u: "uint ps = uint sz div 4 * 4" using RT_ALIGN_DOWN_uint [of sz 2] by (simp add: ps_def)
    then have "uint ps \<le> uint sz" by (simp add: minus_mod_eq_div_mult [symmetric])
    then show "unat ps \<le> unat sz" by (simp flip: word_le_def word_le_nat_alt)
    show "4 dvd unat ps" using u by (metis dvd_triv_right int_dvd_int_iff of_nat_numeral uint_nat)
  qed
  have "unat (ps - 48) = unat ps - 48" using st(3) by (subst unat_sub) (simp_all add: word_le_nat_alt ps_def)
  then have av: "unat (ps - 2 * 24) = unat ps - 48" by simp
  have "unat (ps - 2 * 24 + 24) = unat ps - 24" 
    using av st(2,3) ps(1) by (subst unat_add_small) (simp_all add: ps_def)
  then have e: "item_at st (ps - 2 * 24 + 24) = e"
    using item_at_small [of st "ps - 2 * 24 + 24"] st ps by (simp add: e_def ps_def)
  have ne: "st \<noteq> e" "free_header H \<noteq> st" "free_header H \<noteq> e" "st + 36 \<le> e" using st(1,3) fh ps(1) by (auto simp: e_def ps_def)
  have H': "H' = H\<lparr>start_addr := st, pool_size := ps, available_size := ps - 2 * 24, max_used_size := ps - (ps - 2 * 24),
      free_list := free_header H, block_list := st\<rparr>"
    using i by (auto simp: init_pool_def Let_def ps_def)
  have m': "m' = (m(free_header H := \<lparr>magic = RT_MEMHEAP_MAGIC, pool_ptr = h, item_next = 0, item_prev = 0, next_free = st, prev_free = st\<rparr>,
      st := \<lparr>magic = RT_MEMHEAP_MAGIC, pool_ptr = h, item_next = e, item_prev = e, next_free = free_header H, prev_free = free_header H\<rparr>,
      e := \<lparr>magic = RT_MEMHEAP_MAGIC OR RT_MEMHEAP_USED, pool_ptr = h, item_next = st, item_prev = st, next_free = 0, prev_free = 0\<rparr>))" (is "_ = ?m")
  proof -
    have "m' = snd (init_pool h st sz H m)" using i by simp
    also have "\<dots> = ?m" by (rule ext) (use e ne in \<open>auto simp: init_pool_def Let_def link_free_def upd_item_def simp flip: ps_def\<close>)
    finally show ?thesis .
  qed
  have us: "used m' e" "\<not> used m' st" using ne by (simp_all add: m' RT_MEMHEAP_IS_USED_def RT_MEMHEAP_MAGIC_def RT_MEMHEAP_USED_def)
  have mk: "marked h m' e" "marked h m' st"
    using ne by (simp_all add: m' marked_def RT_MEMHEAP_MAGIC_def RT_MEMHEAP_USED_def RT_MEMHEAP_MASK_def)
  have "dlist (bl m') st [e]" "dlist (fr m') (free_header H) [st]" using ne by (simp_all add: dlist_def linked_def m')
  moreover have "spaced [st, e]" using ne by (simp add: spaced_simps)
  moreover have "4 dvd e - st"
  proof -
    have "e - st = unat ps - 24" using ne by (simp add: e_def)
    moreover have "4 dvd unat ps - 24" using ps(2) by (rule dvd_diff_nat) simp
    ultimately show ?thesis by simp
  qed
  moreover have "e - st - 24 = unat ps - 48" using st(3) by (simp add: e_def ps_def)
  moreover have "free_header H \<notin> {st..<st + unat ps}" using fh ps(1) by auto
  moreover have "e + 24 = st + unat ps" using st(3) by (simp add: e_def ps_def)
  ultimately show "pool_ok h H' m' [st, st + unat (RT_ALIGN_DOWN sz 4) - 24] [st]"
    "blocks (used m') [st, st + unat (RT_ALIGN_DOWN sz 4) - 24] = [(st, unat (RT_ALIGN_DOWN sz 4) - 48, False)]"
    unfolding ps_def [symmetric] e_def [symmetric] pool_ok_def shape_ok_def using us mk av st ps(1) by (auto simp: H')
  show "start_addr H' = st" "pool_size H' = RT_ALIGN_DOWN sz 4" "free_header H' = free_header H" "heap_lock H' = heap_lock H"
    by (simp_all add: H' ps_def)
qed

end
