(* ===== verification/KString.thy ===== *)
theory KString
  imports Prelude "HOL-Library.Sublist"
begin

text \<open>
  Memory and strings of the kernel service library (\<^verbatim>\<open>src/kservice.c\<close>). Memory is a map from
  addresses to bytes, so aliasing and overlap are as in the code. \<open>char\<close> is unsigned and \<open>long\<close> has
  four bytes, as in the configured target. A loop that ends at a NUL is \<open>None\<close> when there is none.
\<close>

type_synonym mem = "addr \<Rightarrow> u8"

subsection \<open>Words in memory\<close>

definition get_word :: "addr \<Rightarrow> mem \<Rightarrow> u32" where
  "get_word a m = ucast (m a) OR push_bit 8 (ucast (m (a + 1))) OR push_bit 16 (ucast (m (a + 2))) OR push_bit 24 (ucast (m (a + 3)))"

definition put_word :: "addr \<Rightarrow> u32 \<Rightarrow> mem \<Rightarrow> mem" where
  "put_word a w m = m(a := ucast w, a + 1 := ucast (drop_bit 8 w), a + 2 := ucast (drop_bit 16 w), a + 3 := ucast (drop_bit 24 w))"

lemma word_bytes:
  "ucast (get_word a m) = m a" "ucast (drop_bit 8 (get_word a m)) = m (a + 1)"
  "ucast (drop_bit 16 (get_word a m)) = m (a + 2)" "ucast (drop_bit 24 (get_word a m)) = m (a + 3)"
  by (rule bit_eqI; auto simp: get_word_def bit_simps dest: bit_imp_le_length)+

text \<open>Copying a word copies its four bytes, all read before the first is written.\<close>

definition copy_word :: "addr \<Rightarrow> addr \<Rightarrow> mem \<Rightarrow> mem" where
  "copy_word d s m = put_word d (get_word s m) m"

lemma copy_word_at: "copy_word d s m a = (if d \<le> a \<and> a < d + 4 then m (s + (a - d)) else m a)"
proof -
  consider "a = d" | "a = d + 1" | "a = d + 2" | "a = d + 3" | "a < d \<or> d + 4 \<le> a" by linarith
  then show ?thesis by cases (auto simp: copy_word_def put_word_def word_bytes)
qed

subsection \<open>Filling, copying, moving\<close>

text \<open>What they are to do.\<close>

definition filled :: "addr \<Rightarrow> u8 \<Rightarrow> nat \<Rightarrow> mem \<Rightarrow> mem" where
  "filled p c n m = (\<lambda>a. if p \<le> a \<and> a < p + n then c else m a)"

definition copied :: "addr \<Rightarrow> addr \<Rightarrow> nat \<Rightarrow> mem \<Rightarrow> mem" where
  "copied d s n m = (\<lambda>a. if d \<le> a \<and> a < d + n then m (s + (a - d)) else m a)"

fun set_bytes :: "nat \<Rightarrow> addr \<Rightarrow> u8 \<Rightarrow> mem \<Rightarrow> mem" where
  "set_bytes 0 p c m = m"
| "set_bytes (Suc n) p c m = set_bytes n (p + 1) c (m(p := c))"

fun set_words4 :: "nat \<Rightarrow> addr \<Rightarrow> u32 \<Rightarrow> mem \<Rightarrow> nat \<times> addr \<times> mem" where
  "set_words4 n p w m =
     (if 16 \<le> n then set_words4 (n - 16) (p + 16) w (put_word (p + 12) w (put_word (p + 8) w (put_word (p + 4) w (put_word p w m))))
      else (n, p, m))"

fun set_words :: "nat \<Rightarrow> addr \<Rightarrow> u32 \<Rightarrow> mem \<Rightarrow> nat \<times> addr \<times> mem" where
  "set_words n p w m = (if 4 \<le> n then set_words (n - 4) (p + 4) w (put_word p w m) else (n, p, m))"

declare set_words4.simps [simp del] set_words.simps [simp del]

definition rt_memset :: "addr \<Rightarrow> int \<Rightarrow> u32 \<Rightarrow> mem \<Rightarrow> mem" where
  "rt_memset s c count m =
     (let d = word_of_int c AND 0xff :: u32;
          (n, p, m) = (if \<not> unat count < 4 \<and> s mod 4 = 0 then
              let buffer = push_bit 8 d OR d;
                  buffer = buffer OR push_bit 16 buffer;
                  (n, p, m) = set_words4 (unat count) s buffer m
              in set_words n p buffer m
            else (unat count, s, m))
      in set_bytes n p (ucast d) m)"

fun copy_up :: "nat \<Rightarrow> addr \<Rightarrow> addr \<Rightarrow> mem \<Rightarrow> mem" where
  "copy_up 0 d s m = m"
| "copy_up (Suc n) d s m = copy_up n (d + 1) (s + 1) (m(d := m s))"

fun copy_down :: "nat \<Rightarrow> addr \<Rightarrow> addr \<Rightarrow> mem \<Rightarrow> mem" where
  "copy_down 0 d s m = m"
| "copy_down (Suc n) d s m = copy_down n (d - 1) (s - 1) (m(d - 1 := m (s - 1)))"

fun copy_words4 :: "nat \<Rightarrow> addr \<Rightarrow> addr \<Rightarrow> mem \<Rightarrow> nat \<times> addr \<times> addr \<times> mem" where
  "copy_words4 n d s m =
     (if 16 \<le> n then copy_words4 (n - 16) (d + 16) (s + 16)
        (copy_word (d + 12) (s + 12) (copy_word (d + 8) (s + 8) (copy_word (d + 4) (s + 4) (copy_word d s m))))
      else (n, d, s, m))"

fun copy_words :: "nat \<Rightarrow> addr \<Rightarrow> addr \<Rightarrow> mem \<Rightarrow> nat \<times> addr \<times> addr \<times> mem" where
  "copy_words n d s m = (if 4 \<le> n then copy_words (n - 4) (d + 4) (s + 4) (copy_word d s m) else (n, d, s, m))"

declare copy_words4.simps [simp del] copy_words.simps [simp del]

definition rt_memcpy :: "addr \<Rightarrow> addr \<Rightarrow> u32 \<Rightarrow> mem \<Rightarrow> mem" where
  "rt_memcpy dst src count m =
     (let (n, d, s, m) = (if \<not> unat count < 16 \<and> src mod 4 = 0 \<and> dst mod 4 = 0 then
          let (n, d, s, m) = copy_words4 (unat count) dst src m in copy_words n d s m
        else (unat count, dst, src, m))
      in copy_up n d s m)"

definition rt_memmove :: "addr \<Rightarrow> addr \<Rightarrow> u32 \<Rightarrow> mem \<Rightarrow> mem" where
  "rt_memmove dest src n m =
     (if src < dest \<and> dest < src + unat n then copy_down (unat n) (dest + unat n) (src + unat n) m
      else copy_up (unat n) dest src m)"

lemma filled_0 [simp]: "filled p c 0 m = m"
  by (auto simp: filled_def fun_eq_iff)

lemma set_bytes_filled: "set_bytes n p c m = filled p c n m"
proof (induction n p c m rule: set_bytes.induct)
  case (2 n p c m)
  show ?case unfolding set_bytes.simps "2.IH" by (auto simp: filled_def fun_eq_iff)
qed simp

lemma filled_filled: "filled (p + n) c k (filled p c n m) = filled p c (n + k) m"
  by (auto simp: filled_def fun_eq_iff)

definition all_bytes :: "u32 \<Rightarrow> u8 \<Rightarrow> bool" where
  "all_bytes w c \<longleftrightarrow> ucast w = c \<and> ucast (drop_bit 8 w) = c \<and> ucast (drop_bit 16 w) = c \<and> ucast (drop_bit 24 w) = c"

lemma put_word_filled: "all_bytes w c \<Longrightarrow> put_word p w m = filled p c 4 m"
proof
  fix a
  assume "all_bytes w c"
  moreover consider "a = p" | "a = p + 1" | "a = p + 2" | "a = p + 3" | "a < p \<or> p + 4 \<le> a" by linarith
  ultimately show "put_word p w m a = filled p c 4 m a" by cases (auto simp: put_word_def filled_def all_bytes_def)
qed

lemma rest_step: "k \<le> n \<Longrightarrow> (n - k) mod k = n mod (k :: nat)" "k \<le> n \<Longrightarrow> k + (n - k - n mod k) = n - n mod k"
proof -
  assume "k \<le> n"
  then show e: "(n - k) mod k = n mod k" by (simp add: le_mod_geq)
  have "(n - k) mod k \<le> n - k" by (rule mod_less_eq_dividend)
  then show "k + (n - k - n mod k) = n - n mod k" using e \<open>k \<le> n\<close> by simp
qed

lemma set_words_filled:
  assumes w: "all_bytes w c"
  shows "set_words n p w m = (n mod 4, p + (n - n mod 4), filled p c (n - n mod 4) m)"
proof (induction n arbitrary: p m rule: less_induct)
  case (less n)
  show ?case
  proof (cases "4 \<le> n")
    case True
    then show ?thesis using less.IH [of "n - 4" "p + 4" "put_word p w m"] rest_step [OF True] filled_filled [of p 4 c "n - 4 - n mod 4" m]
      by (subst set_words.simps) (simp add: put_word_filled [OF w] add.assoc)
  next
    case False
    then show ?thesis by (subst set_words.simps) simp
  qed
qed

lemma set_words4_filled:
  assumes w: "all_bytes w c"
  shows "set_words4 n p w m = (n mod 16, p + (n - n mod 16), filled p c (n - n mod 16) m)"
proof (induction n arbitrary: p m rule: less_induct)
  case (less n)
  show ?case
  proof (cases "16 \<le> n")
    case True
    have "put_word (p + 12) w (put_word (p + 8) w (put_word (p + 4) w (put_word p w m))) = filled p c 16 m"
      unfolding put_word_filled [OF w] by (auto simp: filled_def fun_eq_iff)
    then show ?thesis
      using True less.IH [of "n - 16" "p + 16" "filled p c 16 m"] rest_step [OF True] filled_filled [of p 16 c "n - 16 - n mod 16" m]
      by (subst set_words4.simps) (simp add: add.assoc)
  next
    case False
    then show ?thesis by (subst set_words4.simps) simp
  qed
qed

lemma all_bytes_buffer:
  assumes "d = word_of_int c AND 0xff"
  shows "all_bytes ((push_bit 8 d OR d) OR push_bit 16 (push_bit 8 d OR d)) (word_of_int c)"
proof -
  have "bit d i \<longleftrightarrow> i < 8 \<and> bit c i" for i
  proof -
    have "bit (0xff :: u32) i \<longleftrightarrow> i < 8"
      using bit_mask_iff [where 'a = u32, of 8 i] by (auto simp: mask_eq_exp_minus_1)
    then show ?thesis unfolding assms by (auto simp: bit_simps)
  qed
  then show ?thesis unfolding all_bytes_def by (intro conjI; intro bit_eqI; auto simp: bit_simps)
qed

text \<open>The optimised fill is the plain one, for every address, value and length.\<close>

lemma rt_memset_filled: "rt_memset s c n m = filled s (word_of_int c) (unat n) m"
proof -
  define d where "d = (word_of_int c AND 0xff :: u32)"
  note b = all_bytes_buffer [OF d_def]
  have dc: "ucast d = (word_of_int c :: u8)"
  proof (rule bit_word_eqI)
    fix i
    assume "i < LENGTH(8)"
    moreover have "bit (0xff :: u32) i \<longleftrightarrow> i < 8"
      using bit_mask_iff [where 'a = u32, of 8 i] by (auto simp: mask_eq_exp_minus_1)
    ultimately show "bit (ucast d :: u8) i = bit (word_of_int c :: u8) i" by (auto simp: d_def bit_simps)
  qed
  show ?thesis
  proof (cases "\<not> unat n < 4 \<and> s mod 4 = 0")
    case True
    let ?w = "(push_bit 8 d OR d) OR push_bit 16 (push_bit 8 d OR d)"
    have j: "filled (p + (k - k mod i)) e (k mod i) (filled p e (k - k mod i) q) = filled p e k q" for p k i e q
      unfolding filled_filled by simp
    have "rt_memset s c n m = (case set_words4 (unat n) s ?w m of (n, p, m) \<Rightarrow> case set_words n p ?w m of (n, p, m) \<Rightarrow>
      filled p (word_of_int c) n m)"
      using True unfolding rt_memset_def Let_def set_bytes_filled d_def [symmetric] dc by (simp add: split_beta)
    also have "\<dots> = filled s (word_of_int c) (unat n) m"
      unfolding set_words4_filled [OF b] prod.case set_words_filled [OF b] j by (rule refl)
    finally show ?thesis .
  next
    case False
    then show ?thesis by (auto simp: rt_memset_def Let_def set_bytes_filled dc simp flip: d_def)
  qed
qed

subsection \<open>Copying\<close>

text \<open>A copy upwards is right when it does not run over its source.\<close>

definition ahead :: "addr \<Rightarrow> addr \<Rightarrow> nat \<Rightarrow> bool" where
  "ahead d s n \<longleftrightarrow> d \<le> s \<or> s + n \<le> d"

lemma copied_copied: "ahead d s (n + k) \<Longrightarrow> copied (d + n) (s + n) k (copied d s n m) = copied d s (n + k) m"
  by (auto simp: copied_def ahead_def fun_eq_iff)

lemma copied_0 [simp]: "copied d s 0 m = m"
  by (auto simp: copied_def fun_eq_iff)

lemma copy_word_copied: "copy_word d s m = copied d s 4 m"
  by (rule ext) (simp add: copy_word_at copied_def)

lemma copy_up_copied: "ahead d s n \<Longrightarrow> copy_up n d s m = copied d s n m"
proof (induction n arbitrary: d s m)
  case (Suc n)
  have "ahead (d + 1) (s + 1) n" using Suc.prems by (auto simp: ahead_def)
  moreover have "m(d := m s) = copied d s 1 m" by (auto simp: copied_def fun_eq_iff)
  ultimately show ?case using Suc.IH [of "d + 1" "s + 1"] copied_copied [of d s 1 n m] Suc.prems by simp
qed simp

lemma copy_down_copied: "s \<le> d \<Longrightarrow> copy_down n (d + n) (s + n) m = copied d s n m"
proof (induction n arbitrary: m)
  case (Suc n)
  have "copied d s n (m(d + n := m (s + n))) = copied d s (Suc n) m" using Suc.prems by (auto simp: copied_def fun_eq_iff)
  then show ?case using Suc by simp
qed simp

lemma copy_words_copied:
  "ahead d s n \<Longrightarrow> copy_words n d s m = (n mod 4, d + (n - n mod 4), s + (n - n mod 4), copied d s (n - n mod 4) m)"
proof (induction n arbitrary: d s m rule: less_induct)
  case (less n)
  show ?case
  proof (cases "4 \<le> n")
    case True
    have a: "ahead (d + 4) (s + 4) (n - 4)" "ahead d s (4 + (n - 4 - n mod 4))" using less.prems True by (auto simp: ahead_def)
    show ?thesis using True less.IH [OF _ a(1), of "copied d s 4 m"] rest_step [OF True] copied_copied [OF a(2), of m]
      by (subst copy_words.simps) (simp add: copy_word_copied add.assoc)
  next
    case False
    then show ?thesis by (subst copy_words.simps) simp
  qed
qed

lemma copy_4_words:
  assumes "ahead d s 16"
  shows "copy_word (d + 12) (s + 12) (copy_word (d + 8) (s + 8) (copy_word (d + 4) (s + 4) (copy_word d s m))) = copied d s 16 m"
proof -
  have a: "ahead d s (4 + 4)" "ahead d s (8 + 4)" "ahead d s (12 + 4)" using assms by (auto simp: ahead_def)
  show ?thesis using copied_copied [OF a(1)] copied_copied [OF a(2)] copied_copied [OF a(3)] unfolding copy_word_copied by simp
qed

lemma copy_words4_copied:
  "ahead d s n \<Longrightarrow> copy_words4 n d s m = (n mod 16, d + (n - n mod 16), s + (n - n mod 16), copied d s (n - n mod 16) m)"
proof (induction n arbitrary: d s m rule: less_induct)
  case (less n)
  show ?case
  proof (cases "16 \<le> n")
    case True
    have a: "ahead (d + 16) (s + 16) (n - 16)" "ahead d s (16 + (n - 16 - n mod 16))" using less.prems True by (auto simp: ahead_def)
    have "copy_word (d + 12) (s + 12) (copy_word (d + 8) (s + 8) (copy_word (d + 4) (s + 4) (copy_word d s m))) = copied d s 16 m"
      using less.prems True by (intro copy_4_words) (auto simp: ahead_def)
    then show ?thesis using True less.IH [OF _ a(1), of "copied d s 16 m"] rest_step [OF True] copied_copied [OF a(2), of m]
      by (subst copy_words4.simps) (simp add: add.assoc)
  next
    case False
    then show ?thesis by (subst copy_words4.simps) simp
  qed
qed

lemma rt_memcpy_copied:
  assumes "ahead d s (unat n)"
  shows "rt_memcpy d s n m = copied d s (unat n) m"
proof (cases "\<not> unat n < 16 \<and> s mod 4 = 0 \<and> d mod 4 = 0")
  case True
  have j: "copy_up (k mod 4) (d' + (k - k mod 4)) (s' + (k - k mod 4)) (copied d' s' (k - k mod 4) q) = copied d' s' k q"
    if "ahead d' s' k" for d' s' k q
  proof -
    have "ahead (d' + (k - k mod 4)) (s' + (k - k mod 4)) (k mod 4)" "ahead d' s' (k - k mod 4 + k mod 4)"
      using that by (auto simp: ahead_def)
    then show ?thesis using copied_copied [of d' s' "k - k mod 4" "k mod 4" q] by (simp add: copy_up_copied)
  qed
  let ?k = "unat n - unat n mod 16"
  have a: "ahead (d + ?k) (s + ?k) (unat n mod 16)" "ahead d s (?k + unat n mod 16)" using assms by (auto simp: ahead_def)
  have "rt_memcpy d s n m = (case copy_words4 (unat n) d s m of (n, d, s, m) \<Rightarrow> case copy_words n d s m of (n, d, s, m) \<Rightarrow> copy_up n d s m)"
    using True by (simp add: rt_memcpy_def split_beta)
  also have "\<dots> = copied d s (?k + unat n mod 16) m"
    unfolding copy_words4_copied [OF assms] prod.case copy_words_copied [OF a(1)] j [OF a(1)] copied_copied [OF a(2)] by (rule refl)
  finally show ?thesis by simp
next
  case False
  then show ?thesis using copy_up_copied [OF assms] by (auto simp: rt_memcpy_def)
qed

lemma rt_memmove_copied: "rt_memmove d s n m = copied d s (unat n) m"
  using copy_down_copied [of s d "unat n" m] copy_up_copied [of d s "unat n" m] by (auto simp: rt_memmove_def ahead_def not_less)

subsection \<open>Comparing and searching\<close>

fun memcmp_loop :: "nat \<Rightarrow> addr \<Rightarrow> addr \<Rightarrow> mem \<Rightarrow> int" where
  "memcmp_loop 0 cs ct m = 0"
| "memcmp_loop (Suc n) cs ct m =
     (let res = uint (m cs) - uint (m ct) in if res \<noteq> 0 then res else memcmp_loop n (cs + 1) (ct + 1) m)"

definition rt_memcmp :: "addr \<Rightarrow> addr \<Rightarrow> u32 \<Rightarrow> mem \<Rightarrow> int" where
  "rt_memcmp cs ct count m = memcmp_loop (unat count) cs ct m"

partial_function (option) strlen_loop :: "addr \<Rightarrow> mem \<Rightarrow> addr option" where
  "strlen_loop sc m = (if m sc \<noteq> 0 then strlen_loop (sc + 1) m else Some sc)"

definition rt_strlen :: "addr \<Rightarrow> mem \<Rightarrow> u32 option" where
  "rt_strlen s m = do { sc \<leftarrow> strlen_loop s m; Some (of_nat (sc - s)) }"

fun strnlen_loop :: "nat \<Rightarrow> addr \<Rightarrow> mem \<Rightarrow> addr" where
  "strnlen_loop 0 sc m = sc"
| "strnlen_loop (Suc n) sc m = (if m sc \<noteq> 0 then strnlen_loop n (sc + 1) m else sc)"

definition rt_strnlen :: "addr \<Rightarrow> u32 \<Rightarrow> mem \<Rightarrow> u32" where
  "rt_strnlen s maxlen m = of_nat (strnlen_loop (unat maxlen) s m - s)"

partial_function (option) rt_strcmp :: "addr \<Rightarrow> addr \<Rightarrow> mem \<Rightarrow> int option" where
  "rt_strcmp cs ct m =
     (if m cs \<noteq> 0 \<and> m cs = m ct then rt_strcmp (cs + 1) (ct + 1) m else Some (uint (m cs) - uint (m ct)))"

text \<open>The difference is kept in a \<open>signed char\<close>.\<close>

fun strncmp_loop :: "nat \<Rightarrow> addr \<Rightarrow> addr \<Rightarrow> mem \<Rightarrow> u8 \<Rightarrow> u8" where
  "strncmp_loop 0 cs ct m res = res"
| "strncmp_loop (Suc n) cs ct m res =
     (let res = m cs - m ct in if res \<noteq> 0 \<or> m cs = 0 then res else strncmp_loop n (cs + 1) (ct + 1) m res)"

definition rt_strncmp :: "addr \<Rightarrow> addr \<Rightarrow> u32 \<Rightarrow> mem \<Rightarrow> int" where
  "rt_strncmp cs ct count m = sint (strncmp_loop (unat count) cs ct m 0)"

definition to_lower :: "u8 \<Rightarrow> u8" where
  "to_lower c = (if 65 \<le> c \<and> c \<le> 90 then c + 32 else c)"

partial_function (option) rt_strcasecmp :: "addr \<Rightarrow> addr \<Rightarrow> mem \<Rightarrow> int option" where
  "rt_strcasecmp a b m =
     (let ca = to_lower (m a); cb = to_lower (m b) in
      if ca = cb \<and> ca \<noteq> 0 then rt_strcasecmp (a + 1) (b + 1) m else Some (uint ca - uint cb))"

fun strncpy_loop :: "nat \<Rightarrow> addr \<Rightarrow> addr \<Rightarrow> mem \<Rightarrow> mem" where
  "strncpy_loop 0 d s m = m"
| "strncpy_loop (Suc n) d s m =
     (let c = m s; m = m(d := c) in if c = 0 then set_bytes n (d + 1) 0 m else strncpy_loop n (d + 1) (s + 1) m)"

definition rt_strncpy :: "addr \<Rightarrow> addr \<Rightarrow> u32 \<Rightarrow> mem \<Rightarrow> mem" where
  "rt_strncpy dst src n m = strncpy_loop (unat n) dst src m"

fun strstr_loop :: "nat \<Rightarrow> nat \<Rightarrow> addr \<Rightarrow> addr \<Rightarrow> mem \<Rightarrow> addr option" where
  "strstr_loop 0 l2 s1 s2 m = None"
| "strstr_loop (Suc l1) l2 s1 s2 m =
     (if l2 \<le> Suc l1 then
        if rt_memcmp s1 s2 (of_nat l2) m = 0 then Some s1 else strstr_loop l1 l2 (s1 + 1) s2 m
      else None)"

definition rt_strstr :: "addr \<Rightarrow> addr \<Rightarrow> mem \<Rightarrow> addr option option" where
  "rt_strstr s1 s2 m = do {
     l2 \<leftarrow> rt_strlen s2 m;
     if l2 = 0 then Some (Some s1)
     else do {
       l1 \<leftarrow> rt_strlen s1 m;
       Some (strstr_loop (unat l1) (unat l2) s1 s2 m) } }"

text \<open>What is in memory: a string, and bytes without regard to a NUL.\<close>

definition bytes_at :: "addr \<Rightarrow> nat \<Rightarrow> mem \<Rightarrow> u8 list" where
  "bytes_at a n m = map (\<lambda>i. m (a + i)) [0..<n]"

definition str_at :: "addr \<Rightarrow> u8 list \<Rightarrow> mem \<Rightarrow> bool" where
  "str_at a xs m \<longleftrightarrow> bytes_at a (length xs + 1) m = xs @ [0] \<and> 0 \<notin> set xs"

lemma bytes_at_Suc: "bytes_at a (Suc n) m = m a # bytes_at (a + 1) n m"
  unfolding bytes_at_def by (subst upt_conv_Cons) (simp_all add: map_Suc_upt [symmetric] del: upt_Suc)

lemma bytes_at_0 [simp]: "bytes_at a 0 m = []"
  by (simp add: bytes_at_def)

lemma length_bytes_at [simp]: "length (bytes_at a n m) = n"
  by (simp add: bytes_at_def)

lemma bytes_at_nth: "i < n \<Longrightarrow> bytes_at a n m ! i = m (a + i)"
  by (simp add: bytes_at_def)

lemma str_at_simps: "str_at a [] m \<longleftrightarrow> m a = 0" "str_at a (x # xs) m \<longleftrightarrow> m a = x \<and> x \<noteq> 0 \<and> str_at (a + 1) xs m"
  by (auto simp: str_at_def bytes_at_Suc)

lemma str_at_drop: "str_at a xs m \<Longrightarrow> i \<le> length xs \<Longrightarrow> str_at (a + i) (drop i xs) m"
proof (induction i arbitrary: a xs)
  case (Suc i)
  then obtain x ys where "xs = x # ys" by (cases xs) auto
  then show ?case using Suc.IH [of "a + 1" ys] Suc.prems by (simp add: str_at_simps)
qed simp

lemma bytes_at_str: "str_at a xs m \<Longrightarrow> n \<le> length xs \<Longrightarrow> bytes_at a n m = take n xs"
proof (induction n arbitrary: a xs)
  case (Suc n)
  then obtain x ys where "xs = x # ys" by (cases xs) auto
  then show ?case using Suc.IH [of "a + 1" ys] Suc.prems by (simp add: str_at_simps bytes_at_Suc)
qed simp

lemma memcmp_loop_0: "memcmp_loop n cs ct m = 0 \<longleftrightarrow> bytes_at cs n m = bytes_at ct n m"
  by (induction n cs ct m rule: memcmp_loop.induct) (auto simp: Let_def bytes_at_Suc word_uint_eq_iff)

lemma memcmp_loop_less: "memcmp_loop n cs ct m < 0 \<longleftrightarrow> ord_class.lexordp (bytes_at cs n m) (bytes_at ct n m)"
  by (induction n cs ct m rule: memcmp_loop.induct) (auto simp: Let_def bytes_at_Suc word_uint_eq_iff word_less_def)

lemma strlen_loop_str: "str_at a xs m \<Longrightarrow> strlen_loop a m = Some (a + length xs)"
proof (induction xs arbitrary: a)
  case Nil
  then show ?case by (subst strlen_loop.simps) (simp add: str_at_simps)
next
  case (Cons x xs)
  then show ?case by (subst strlen_loop.simps) (simp add: str_at_simps)
qed

lemma rt_strlen_str: "str_at a xs m \<Longrightarrow> rt_strlen a m = Some (of_nat (length xs))"
  by (simp add: rt_strlen_def strlen_loop_str)

lemma strnlen_loop_str: "str_at a xs m \<Longrightarrow> strnlen_loop n a m = a + min n (length xs)"
proof (induction n arbitrary: a xs)
  case (Suc n)
  then show ?case by (cases xs) (auto simp: str_at_simps)
qed simp

lemma rt_strcmp_str:
  "str_at a xs m \<Longrightarrow> str_at b ys m \<Longrightarrow>
   \<exists>r. rt_strcmp a b m = Some r \<and> (r = 0 \<longleftrightarrow> xs = ys) \<and> (r < 0 \<longleftrightarrow> ord_class.lexordp xs ys)"
proof (induction xs arbitrary: a b ys)
  case Nil
  then show ?case by (subst rt_strcmp.simps) (cases ys; auto simp: str_at_simps word_uint_eq_iff order.not_eq_order_implies_strict)
next
  case (Cons x xs)
  show ?case
  proof (cases ys)
    case Nil
    then show ?thesis using Cons.prems by (subst rt_strcmp.simps) (auto simp: str_at_simps word_uint_eq_iff)
  next
    case (Cons y zs)
    then show ?thesis using Cons.IH [of "a + 1" "b + 1" zs] Cons.prems
      by (subst rt_strcmp.simps) (auto simp: str_at_simps word_uint_eq_iff word_less_def)
  qed
qed

lemma strstr_loop_str:
  assumes s: "str_at b ys m" "ys \<noteq> []" "length ys < 2 ^ 32"
  shows "str_at a xs m \<Longrightarrow>
    (case strstr_loop (length xs) (length ys) a b m of
       None \<Rightarrow> \<forall>i. \<not> prefix ys (drop i xs)
     | Some p \<Rightarrow> \<exists>i. p = a + i \<and> prefix ys (drop i xs) \<and> (\<forall>j < i. \<not> prefix ys (drop j xs)))"
proof (induction xs arbitrary: a)
  case Nil
  then show ?case using s(2) by simp
next
  case (Cons x xs)
  have short: "\<not> prefix ys (drop i (x # xs))" if "\<not> length ys \<le> Suc (length xs)" for i
    using that prefix_length_le [of ys "drop i (x # xs)"] by auto
  have l: "unat (of_nat (length ys) :: u32) = length ys" using s(3) by (simp add: unsigned_of_nat take_bit_nat_eq_self)
  have cmp: "rt_memcmp a b (of_nat (length ys)) m = 0 \<longleftrightarrow> prefix ys (x # xs)" if le: "length ys \<le> Suc (length xs)"
  proof -
    have "bytes_at a (length ys) m = take (length ys) (x # xs)" by (rule bytes_at_str [OF Cons.prems]) (use le in simp)
    moreover have "bytes_at b (length ys) m = take (length ys) ys" by (rule bytes_at_str [OF s(1)]) simp
    ultimately show ?thesis using le by (simp add: rt_memcmp_def memcmp_loop_0 l) (metis append_eq_conv_conj prefix_def)
  qed
  show ?case
  proof (cases "length ys \<le> Suc (length xs)")
    case False
    then show ?thesis using short by simp
  next
    case le: True
    show ?thesis
    proof (cases "prefix ys (x # xs)")
      case True
      then show ?thesis using le cmp [OF le] by (auto intro!: exI [of _ 0])
    next
      case False
      have "str_at (a + 1) xs m" using Cons.prems by (simp add: str_at_simps)
      note IH = Cons.IH [OF this]
      have run: "strstr_loop (length (x # xs)) (length ys) a b m = strstr_loop (length xs) (length ys) (a + 1) b m"
        using le cmp [OF le] False by simp
      show ?thesis
      proof (cases "strstr_loop (length xs) (length ys) (a + 1) b m")
        case None
        then show ?thesis using IH run False by (simp add: drop_Cons' del: strstr_loop.simps)
      next
        case (Some p)
        then obtain i where i: "p = a + 1 + i" "prefix ys (drop i xs)" "\<forall>j < i. \<not> prefix ys (drop j xs)" using IH by auto
        have "\<not> prefix ys (drop j (x # xs))" if "j < Suc i" for j
          using that i(3) False by (cases j) auto
        then show ?thesis using run Some i by (simp del: strstr_loop.simps)
      qed
    qed
  qed
qed

lemma rt_strstr_str:
  assumes a: "str_at a xs m" and b: "str_at b ys m" and l: "length xs < 2 ^ 32" "length ys < 2 ^ 32"
  shows "\<exists>r. rt_strstr a b m = Some r \<and>
    (case r of None \<Rightarrow> \<not> sublist ys xs
     | Some p \<Rightarrow> \<exists>i \<le> length xs. p = a + i \<and> prefix ys (drop i xs) \<and> (\<forall>j < i. \<not> prefix ys (drop j xs)))"
proof (cases "ys = []")
  case True
  then show ?thesis using rt_strlen_str [OF b] by (auto simp: rt_strstr_def)
next
  case False
  have u: "unat (of_nat (length ys) :: u32) = length ys" "unat (of_nat (length xs) :: u32) = length xs"
    using l by (simp_all add: unsigned_of_nat take_bit_nat_eq_self)
  then have "(of_nat (length ys) :: u32) \<noteq> 0" using False by (metis length_0_conv unat_0)
  then have run: "rt_strstr a b m = Some (strstr_loop (length xs) (length ys) a b m)"
    using rt_strlen_str [OF a] rt_strlen_str [OF b] u by (simp add: rt_strstr_def)
  note L = strstr_loop_str [OF b False l(2) a]
  show ?thesis
  proof (cases "strstr_loop (length xs) (length ys) a b m")
    case None
    then have "\<not> prefix ys (drop i xs)" for i using L by simp
    then have "\<not> sublist ys xs" unfolding sublist_def prefix_def by (metis append_eq_conv_conj)
    then show ?thesis using run None by simp
  next
    case (Some p)
    then obtain i where i: "p = a + i" "prefix ys (drop i xs)" "\<forall>j < i. \<not> prefix ys (drop j xs)" using L by auto
    have "i \<le> length xs" using i(2) False by (cases "i \<le> length xs") auto
    then show ?thesis using run Some i by auto
  qed
qed

text \<open>The sign of \<open>rt_strncmp\<close> is that of the difference reduced to eight bits.\<close>

lemma strncmp_loop_str:
  "str_at a xs m \<Longrightarrow> str_at b ys m \<Longrightarrow> strncmp_loop n a b m 0 = 0 \<longleftrightarrow> take n xs = take n ys"
proof (induction n arbitrary: a b xs ys)
  case (Suc n)
  then show ?case by (cases xs; cases ys) (auto simp: str_at_simps Let_def)
qed simp

lemma strncmp_loop_first:
  assumes "str_at a (xs @ x # us) m" "str_at b (xs @ y # vs) m" "x \<noteq> y" "length xs < n"
  shows "strncmp_loop n a b m 0 = x - y"
  using assms
proof (induction xs arbitrary: a b n)
  case Nil
  then show ?case by (cases n) (auto simp: str_at_simps Let_def)
next
  case (Cons z zs)
  then show ?case by (cases n) (auto simp: str_at_simps Let_def)
qed

lemma strncpy_loop_at:
  "\<lbrakk>str_at s xs m; d + n \<le> s \<or> s + length xs < d\<rbrakk> \<Longrightarrow>
   strncpy_loop n d s m c = (if d \<le> c \<and> c < d + n then (if c - d < length xs then xs ! (c - d) else 0) else m c)"
proof (induction n arbitrary: d s xs m)
  case (Suc n)
  show ?case
  proof (cases xs)
    case Nil
    then have "m s = 0" using Suc.prems by (simp add: str_at_simps)
    then show ?thesis using Nil by (auto simp: Let_def set_bytes_filled filled_def)
  next
    case (Cons x ys)
    have s: "m s = x" "x \<noteq> 0" "str_at (s + 1) ys m" using Suc.prems(1) Cons by (simp_all add: str_at_simps)
    have m1: "str_at (s + 1) ys (m(d := x))"
    proof -
      have "bytes_at (s + 1) (length ys + 1) (m(d := x)) = bytes_at (s + 1) (length ys + 1) m"
        unfolding bytes_at_def using Suc.prems(2) Cons by auto
      then show ?thesis using s(3) by (simp add: str_at_def)
    qed
    have "d + 1 + n \<le> s + 1 \<or> s + 1 + length ys < d + 1" using Suc.prems(2) Cons by auto
    note IH = Suc.IH [OF m1 this]
    have step: "strncpy_loop (Suc n) d s m c = strncpy_loop n (d + 1) (s + 1) (m(d := x)) c" using s by (simp add: Let_def)
    show ?thesis unfolding step IH Cons by (auto simp: nth_Cons')
  qed
qed auto

end
