(* ===== verification/MemHeap.thy ===== *)
theory MemHeap
  imports Semaphore MemInv KString
begin

text \<open>
  The memory heaps of \<^verbatim>\<open>src/memheap.c\<close> and the system heap on top of them (\<open>rt_malloc\<close>,
  \<open>rt_free\<close>, \<open>rt_realloc\<close>, \<open>rt_calloc\<close>). Every operation takes the semaphore of the heap, runs a
  critical section on the headers and releases the semaphore. A call that finds the semaphore taken
  blocks, and keeps where it was in its \<open>outcome\<close>.

  The headers are in \<open>hitems\<close>, the bytes of the blocks in \<open>hbytes\<close>. The invariant keeps the headers
  and the blocks apart, so as long as nobody writes outside his block the two views do not meet.
\<close>

subsection \<open>State\<close>

record heap_sys = ipc +
  hitems :: items
  heaps :: "nat \<Rightarrow> rt_memheap"
  hbytes :: mem

definition RT_Object_Class_MemHeap :: u8 where "RT_Object_Class_MemHeap = 7"

abbreviation (input) RT_WAITING_FOREVER :: int where "RT_WAITING_FOREVER \<equiv> - 1"

definition upd_heap :: "nat \<Rightarrow> rt_memheap \<Rightarrow> items \<Rightarrow> 'a heap_sys_scheme \<Rightarrow> 'a heap_sys_scheme" where
  "upd_heap h H m k = k\<lparr>heaps := (heaps k)(h := H), hitems := m\<rparr>"

definition upd_bytes :: "(mem \<Rightarrow> mem) \<Rightarrow> 'a heap_sys_scheme \<Rightarrow> 'a heap_sys_scheme" where
  "upd_bytes f k = k\<lparr>hbytes := f (hbytes k)\<rparr>"

definition rt_set_errno :: "int \<Rightarrow> 'a kernel_scheme \<Rightarrow> 'a kernel_scheme" where
  "rt_set_errno e k =
     (if rt_interrupt_get_nest k \<noteq> 0 then k
      else case rt_thread_self k of None \<Rightarrow> k | Some t \<Rightarrow> upd_thr t (set_error e) k)"

subsection \<open>Creating and removing a heap\<close>

definition rt_memheap_init ::
  "nat \<Rightarrow> string \<Rightarrow> addr \<Rightarrow> u32 \<Rightarrow> 'a heap_sys_scheme \<Rightarrow> (int \<times> 'a heap_sys_scheme) option" where
  "rt_memheap_init h name st sz k = do {
     k \<leftarrow> rt_object_init (Obj_ipc h) RT_Object_Class_MemHeap name k;
     let (H, m) = init_pool h st sz (heaps k h) (hitems k);
     let k = upd_heap h H m k;
     (_, k) \<leftarrow> rt_sem_init (heap_lock H) name 1 RT_IPC_FLAG_FIFO k;
     Some (RT_EOK, k) }"

definition rt_memheap_detach :: "nat \<Rightarrow> 'a heap_sys_scheme \<Rightarrow> (int \<times> 'a heap_sys_scheme) option" where
  "rt_memheap_detach h k = do {
     rt_assert (rt_object_get_type (Obj_ipc h) k = RT_Object_Class_MemHeap);
     rt_assert (rt_object_is_systemobject (Obj_ipc h) k);
     let k = rt_object_detach (Obj_ipc (heap_lock (heaps k h))) k;
     Some (RT_EOK, rt_object_detach (Obj_ipc h) k) }"

subsection \<open>Holding the lock\<close>

text \<open>
  \<open>locked h f k\<close>: the lock is had, \<open>f\<close> is the critical section, and the lock is released.
  \<open>lock_then\<close> takes the lock first; a failed take sets \<open>errno\<close> and gives up with \<open>r\<close>.
\<close>

definition locked ::
  "nat \<Rightarrow> (rt_memheap \<Rightarrow> items \<Rightarrow> ('r \<times> rt_memheap \<times> items) option) \<Rightarrow> 'a heap_sys_scheme \<Rightarrow>
   ('r \<times> 'a heap_sys_scheme) option" where
  "locked h f k = do {
     (r, H, m) \<leftarrow> f (heaps k h) (hitems k);
     let k = upd_heap h H m k;
     (_, k) \<leftarrow> rt_sem_release (heap_lock H) k;
     Some (r, k) }"

definition lock_then ::
  "nat \<Rightarrow> 'r \<Rightarrow> ('a heap_sys_scheme \<Rightarrow> (('r, 'w) outcome \<times> 'a heap_sys_scheme) option) \<Rightarrow> (tid \<Rightarrow> 'w) \<Rightarrow>
   'a heap_sys_scheme \<Rightarrow> (('r, 'w) outcome \<times> 'a heap_sys_scheme) option" where
  "lock_then h r f w k = do {
     (res, k) \<leftarrow> rt_sem_take (heap_lock (heaps k h)) RT_WAITING_FOREVER k;
     case res of
       Blocks t \<Rightarrow> Some (Blocks (w t), k)
     | Returns e \<Rightarrow> if e \<noteq> RT_EOK then Some (Returns r, rt_set_errno e k) else f k }"

definition lock_resumed ::
  "tid \<Rightarrow> 'r \<Rightarrow> ('a heap_sys_scheme \<Rightarrow> (('r, 'w) outcome \<times> 'a heap_sys_scheme) option) \<Rightarrow>
   'a heap_sys_scheme \<Rightarrow> (('r, 'w) outcome \<times> 'a heap_sys_scheme) option" where
  "lock_resumed t r f k =
     (let e = rt_sem_take_resumed t k in if e \<noteq> RT_EOK then Some (Returns r, rt_set_errno e k) else f k)"

subsection \<open>Allocating\<close>

definition request_size :: "u32 \<Rightarrow> u32" where
  "request_size sz = (let sz = RT_ALIGN sz RT_ALIGN_SIZE in
     if sz < RT_MEMHEAP_MINIALLOC then RT_MEMHEAP_MINIALLOC else sz)"

definition alloc_locked ::
  "nat \<Rightarrow> u32 \<Rightarrow> 'a heap_sys_scheme \<Rightarrow> ((addr option, tid \<times> u32) outcome \<times> 'a heap_sys_scheme) option" where
  "alloc_locked h sz k = do {
     (r, k) \<leftarrow> locked h (alloc_section h sz) k;
     Some (Returns r, k) }"

definition rt_memheap_alloc ::
  "nat \<Rightarrow> u32 \<Rightarrow> 'a heap_sys_scheme \<Rightarrow> ((addr option, tid \<times> u32) outcome \<times> 'a heap_sys_scheme) option" where
  "rt_memheap_alloc h sz k = do {
     rt_assert (rt_object_get_type (Obj_ipc h) k = RT_Object_Class_MemHeap);
     let sz = request_size sz;
     if sz < available_size (heaps k h)
     then lock_then h None (alloc_locked h sz) (\<lambda>t. (t, sz)) k
     else Some (Returns None, k) }"

definition rt_memheap_alloc_resumed ::
  "nat \<Rightarrow> tid \<times> u32 \<Rightarrow> 'a heap_sys_scheme \<Rightarrow> ((addr option, tid \<times> u32) outcome \<times> 'a heap_sys_scheme) option" where
  "rt_memheap_alloc_resumed h w = lock_resumed (fst w) None (alloc_locked h (snd w))"

subsection \<open>Freeing\<close>

definition header_of :: "addr \<Rightarrow> addr" where
  "header_of ptr = item_at ptr (- RT_MEMHEAP_SIZE)"

definition free_locked ::
  "nat \<Rightarrow> addr \<Rightarrow> 'a heap_sys_scheme \<Rightarrow> ((unit, tid \<times> addr) outcome \<times> 'a heap_sys_scheme) option" where
  "free_locked h p k = do {
     (_, k) \<leftarrow> locked h (\<lambda>H m. Some ((), free_section p H m)) k;
     Some (Returns (), k) }"

text \<open>The pointer is 0 for \<open>RT_NULL\<close>; the heap is the one the header names.\<close>

definition rt_memheap_free ::
  "addr \<Rightarrow> 'a heap_sys_scheme \<Rightarrow> ((unit, tid \<times> addr) outcome \<times> 'a heap_sys_scheme) option" where
  "rt_memheap_free ptr k =
     (if ptr = 0 then Some (Returns (), k)
      else let p = header_of ptr; m = hitems k in do {
        rt_assert (magic (m p) AND RT_MEMHEAP_MASK = RT_MEMHEAP_MAGIC);
        rt_assert (magic (m p) AND RT_MEMHEAP_USED \<noteq> 0);
        rt_assert (magic (m (item_next (m p))) AND RT_MEMHEAP_MASK = RT_MEMHEAP_MAGIC);
        let h = pool_ptr (m p);
        rt_assert (rt_object_get_type (Obj_ipc h) k = RT_Object_Class_MemHeap);
        lock_then h () (free_locked h p) (\<lambda>t. (t, p)) k })"

definition rt_memheap_free_resumed ::
  "tid \<times> addr \<Rightarrow> 'a heap_sys_scheme \<Rightarrow> ((unit, tid \<times> addr) outcome \<times> 'a heap_sys_scheme) option" where
  "rt_memheap_free_resumed w k = lock_resumed (fst w) () (free_locked (pool_ptr (hitems k (snd w))) (snd w)) k"

subsection \<open>Resizing\<close>

text \<open>Where a call that changes the size of a block may have to wait.\<close>

datatype realloc_stage = Grow_lock tid u32 | Shrink_lock tid | Alloc_lock tid u32 u32 | Free_lock tid addr addr

text \<open>Lines 409--416: a new block, the contents, and the old block back.\<close>

definition realloc_drop_old ::
  "addr \<Rightarrow> addr \<Rightarrow> 'a heap_sys_scheme \<Rightarrow> ((addr option, realloc_stage) outcome \<times> 'a heap_sys_scheme) option" where
  "realloc_drop_old ptr new k = do {
     (o', k) \<leftarrow> rt_memheap_free ptr k;
     case o' of
       Blocks w \<Rightarrow> Some (Blocks (Free_lock (fst w) (snd w) new), k)
     | Returns _ \<Rightarrow> Some (Returns (Some new), k) }"

definition realloc_move ::
  "addr \<Rightarrow> u32 \<Rightarrow> u32 \<Rightarrow> (addr option, tid \<times> u32) outcome \<times> 'a heap_sys_scheme \<Rightarrow>
   ((addr option, realloc_stage) outcome \<times> 'a heap_sys_scheme) option" where
  "realloc_move ptr oldsize newsize r = (case r of
     (Blocks w, k) \<Rightarrow> Some (Blocks (Alloc_lock (fst w) (snd w) oldsize), k)
   | (Returns None, k) \<Rightarrow> Some (Returns None, k)
   | (Returns (Some new), k) \<Rightarrow>
       let k = upd_bytes (rt_memcpy new ptr (if oldsize < newsize then oldsize else newsize)) k
       in realloc_drop_old ptr new k)"

definition grow_locked ::
  "nat \<Rightarrow> addr \<Rightarrow> u32 \<Rightarrow> u32 \<Rightarrow> 'a heap_sys_scheme \<Rightarrow>
   ((addr option, realloc_stage) outcome \<times> 'a heap_sys_scheme) option" where
  "grow_locked h ptr oldsize newsize k = do {
     (grown, k) \<leftarrow> locked h (grow_section h (header_of ptr) oldsize newsize) k;
     if grown then Some (Returns (Some ptr), k)
     else do {
       r \<leftarrow> rt_memheap_alloc h newsize k;
       realloc_move ptr oldsize newsize r } }"

definition shrink_locked ::
  "nat \<Rightarrow> addr \<Rightarrow> u32 \<Rightarrow> 'a heap_sys_scheme \<Rightarrow> ((addr option, realloc_stage) outcome \<times> 'a heap_sys_scheme) option" where
  "shrink_locked h ptr newsize k = do {
     (_, k) \<leftarrow> locked h (\<lambda>H m. Some ((), shrink_section h (header_of ptr) newsize H m)) k;
     Some (Returns (Some ptr), k) }"

definition rt_memheap_realloc ::
  "nat \<Rightarrow> addr \<Rightarrow> u32 \<Rightarrow> 'a heap_sys_scheme \<Rightarrow> ((addr option, realloc_stage) outcome \<times> 'a heap_sys_scheme) option" where
  "rt_memheap_realloc h ptr newsize k = do {
     rt_assert (rt_object_get_type (Obj_ipc h) k = RT_Object_Class_MemHeap);
     if newsize = 0 then do {
       (o', k) \<leftarrow> rt_memheap_free ptr k;
       case o' of
         Blocks w \<Rightarrow> Some (Blocks (Free_lock (fst w) (snd w) 0), k)
       | Returns _ \<Rightarrow> Some (Returns None, k) }
     else let newsize = request_size newsize in
       if ptr = 0 then do {
         (o', k) \<leftarrow> rt_memheap_alloc h newsize k;
         case o' of
           Blocks w \<Rightarrow> Some (Blocks (Alloc_lock (fst w) (snd w) 0), k)
         | Returns r \<Rightarrow> Some (Returns r, k) }
       else let oldsize = MEMITEM_SIZE (hitems k) (header_of ptr) in
         if oldsize < newsize then lock_then h None (grow_locked h ptr oldsize newsize) (\<lambda>t. Grow_lock t oldsize) k
         else if oldsize \<le> newsize + RT_MEMHEAP_SIZE + RT_MEMHEAP_MINIALLOC then Some (Returns (Some ptr), k)
         else lock_then h None (shrink_locked h ptr newsize) Shrink_lock k }"

definition rt_memheap_realloc_resumed ::
  "nat \<Rightarrow> addr \<Rightarrow> u32 \<Rightarrow> realloc_stage \<Rightarrow> 'a heap_sys_scheme \<Rightarrow>
   ((addr option, realloc_stage) outcome \<times> 'a heap_sys_scheme) option" where
  "rt_memheap_realloc_resumed h ptr newsize s k = (case s of
     Grow_lock t oldsize \<Rightarrow> lock_resumed t None (grow_locked h ptr oldsize (request_size newsize)) k
   | Shrink_lock t \<Rightarrow> lock_resumed t None (shrink_locked h ptr (request_size newsize)) k
   | Alloc_lock t sz oldsize \<Rightarrow> do {
       r \<leftarrow> rt_memheap_alloc_resumed h (t, sz) k;
       if ptr = 0 then (case r of
           (Blocks w, k) \<Rightarrow> Some (Blocks (Alloc_lock (fst w) (snd w) oldsize), k)
         | (Returns p, k) \<Rightarrow> Some (Returns p, k))
       else realloc_move ptr oldsize (request_size newsize) r }
   | Free_lock t p new \<Rightarrow> do {
       (_, k) \<leftarrow> rt_memheap_free_resumed (t, p) k;
       Some (Returns (if new = 0 then None else Some new), k) })"

subsection \<open>The system heap\<close>

text \<open>\<open>_heap\<close> is heap 0; the others are tried in the order of their container.\<close>

abbreviation (input) system_heap :: nat where "system_heap \<equiv> 0"

definition rt_system_heap_init :: "addr \<Rightarrow> addr \<Rightarrow> 'a heap_sys_scheme \<Rightarrow> (int \<times> 'a heap_sys_scheme) option" where
  "rt_system_heap_init begin_addr end_addr k =
     rt_memheap_init system_heap ''heap'' begin_addr (of_nat end_addr - of_nat begin_addr) k"

fun malloc_from ::
  "obj_ref list \<Rightarrow> u32 \<Rightarrow> 'a heap_sys_scheme \<Rightarrow>
   ((addr option, (tid \<times> u32) \<times> nat \<times> obj_ref list) outcome \<times> 'a heap_sys_scheme) option" where
  "malloc_from [] sz k = Some (Returns None, k)"
| "malloc_from (r # rs) sz k = (case r of
     Obj_ipc h \<Rightarrow> do {
       rt_assert (rt_object_get_type r k = RT_Object_Class_MemHeap);
       if h = system_heap then malloc_from rs sz k
       else do {
         (o', k) \<leftarrow> rt_memheap_alloc h sz k;
         case o' of
           Blocks w \<Rightarrow> Some (Blocks (w, h, rs), k)
         | Returns (Some p) \<Rightarrow> Some (Returns (Some p), k)
         | Returns None \<Rightarrow> malloc_from rs sz k } }
   | _ \<Rightarrow> None)"

definition rt_malloc ::
  "u32 \<Rightarrow> 'a heap_sys_scheme \<Rightarrow>
   ((addr option, (tid \<times> u32) \<times> nat \<times> obj_ref list) outcome \<times> 'a heap_sys_scheme) option" where
  "rt_malloc sz k = do {
     (o', k) \<leftarrow> rt_memheap_alloc system_heap sz k;
     case o' of
       Blocks w \<Rightarrow> Some (Blocks (w, system_heap, []), k)
     | Returns (Some p) \<Rightarrow> Some (Returns (Some p), k)
     | Returns None \<Rightarrow> do {
         information \<leftarrow> rt_object_get_information RT_Object_Class_MemHeap k;
         malloc_from information sz k } }"

definition rt_malloc_resumed ::
  "(tid \<times> u32) \<times> nat \<times> obj_ref list \<Rightarrow> 'a heap_sys_scheme \<Rightarrow>
   ((addr option, (tid \<times> u32) \<times> nat \<times> obj_ref list) outcome \<times> 'a heap_sys_scheme) option" where
  "rt_malloc_resumed w k = (case w of (w, h, rs) \<Rightarrow> do {
     (o', k) \<leftarrow> rt_memheap_alloc_resumed h w k;
     case o' of
       Blocks w \<Rightarrow> Some (Blocks (w, h, rs), k)
     | Returns (Some p) \<Rightarrow> Some (Returns (Some p), k)
     | Returns None \<Rightarrow> do {
         information \<leftarrow> rt_object_get_information RT_Object_Class_MemHeap k;
         malloc_from (if h = system_heap then information else rs) (snd w) k } })"

definition rt_free :: "addr \<Rightarrow> 'a heap_sys_scheme \<Rightarrow> ((unit, tid \<times> addr) outcome \<times> 'a heap_sys_scheme) option" where
  "rt_free ptr k = rt_memheap_free ptr k"

definition rt_calloc ::
  "u32 \<Rightarrow> u32 \<Rightarrow> 'a heap_sys_scheme \<Rightarrow>
   ((addr option, (tid \<times> u32) \<times> nat \<times> obj_ref list) outcome \<times> 'a heap_sys_scheme) option" where
  "rt_calloc count sz k = do {
     let total_size = count * sz;
     (o', k) \<leftarrow> rt_malloc total_size k;
     Some (o', case o' of Returns (Some p) \<Rightarrow> upd_bytes (rt_memset p 0 total_size) k | _ \<Rightarrow> k) }"

text \<open>Where a call of \<open>rt_realloc\<close> may have to wait: in its heap, in the second try, or giving the block back.\<close>

datatype sys_stage = In_heap realloc_stage | In_malloc "(tid \<times> u32) \<times> nat \<times> obj_ref list" | In_free "tid \<times> addr" addr

definition rt_realloc ::
  "addr \<Rightarrow> u32 \<Rightarrow> 'a heap_sys_scheme \<Rightarrow> ((addr option, sys_stage) outcome \<times> 'a heap_sys_scheme) option" where
  "rt_realloc rmem newsize k =
     (if rmem = 0 then do {
        (o', k) \<leftarrow> rt_malloc newsize k;
        case o' of Blocks w \<Rightarrow> Some (Blocks (In_malloc w), k) | Returns r \<Rightarrow> Some (Returns r, k) }
      else if newsize = 0 then do {
        (o', k) \<leftarrow> rt_free rmem k;
        case o' of Blocks w \<Rightarrow> Some (Blocks (In_free w 0), k) | Returns _ \<Rightarrow> Some (Returns None, k) }
      else do {
        (o', k) \<leftarrow> rt_memheap_realloc (pool_ptr (hitems k (header_of rmem))) rmem newsize k;
        case o' of
          Blocks w \<Rightarrow> Some (Blocks (In_heap w), k)
        | Returns (Some p) \<Rightarrow> Some (Returns (Some p), k)
        | Returns None \<Rightarrow> do {
            (o', k) \<leftarrow> rt_malloc newsize k;
            case o' of
              Blocks w \<Rightarrow> Some (Blocks (In_malloc w), k)
            | Returns None \<Rightarrow> Some (Returns None, k)
            | Returns (Some new) \<Rightarrow> do {
                let oldsize = MEMITEM_SIZE (hitems k) (header_of rmem);
                let k = upd_bytes (rt_memcpy new rmem (if oldsize < newsize then oldsize else newsize)) k;
                (o', k) \<leftarrow> rt_free rmem k;
                case o' of
                  Blocks w \<Rightarrow> Some (Blocks (In_free w new), k)
                | Returns _ \<Rightarrow> Some (Returns (Some new), k) } } })"

subsection \<open>A call that finds the lock free\<close>

lemma upd_heap_simps [simp]:
  "hitems (upd_heap h H m k) = m" "heaps (upd_heap h H m k) = (heaps k)(h := H)" "hbytes (upd_heap h H m k) = hbytes k"
  "sems (upd_heap h H m k) = sems k" "tlists (upd_heap h H m k) = tlists k" "thr (upd_heap h H m k) = thr k"
  "objs (upd_heap h H m k) = objs k" "objects (upd_heap h H m k) = objects k"
  "rt_current_thread (upd_heap h H m k) = rt_current_thread k"
  "rt_interrupt_nest (upd_heap h H m k) = rt_interrupt_nest k"
  "rt_object_get_type r (upd_heap h H m k) = rt_object_get_type r k" "ipc_flag n (upd_heap h H m k) = ipc_flag n k"
  by (simp_all add: upd_heap_def object_defs ipc_flag_def)

lemma upd_heap_same [simp]: "upd_heap h (heaps k h) (hitems k) k = k"
  by (simp add: upd_heap_def)

lemma upd_heap_kinv [simp]: "kinv (upd_heap h H m k) \<longleftrightarrow> kinv k"
  by (rule kinv_cong) (simp_all add: upd_heap_def)

lemma sem_ok_upd_heap [simp]: "sem_ok n (upd_heap h H m k) \<longleftrightarrow> sem_ok n k"
  by (simp add: sem_ok_def ipc_inv_def)

lemma upd_sem_heap [simp]:
  fixes k :: "'a heap_sys_scheme"
  shows "hitems (upd_sem n f k) = hitems k" "heaps (upd_sem n f k) = heaps k" "hbytes (upd_sem n f k) = hbytes k"
  by (simp_all add: upd_sem_def)

definition lock_free :: "nat \<Rightarrow> 'a heap_sys_scheme \<Rightarrow> bool" where
  "lock_free h k \<longleftrightarrow> sem_ok (heap_lock (heaps k h)) k \<and> sem_value (sems k (heap_lock (heaps k h))) = 1"

lemma lock_free_queue: "lock_free h k \<Longrightarrow> tlists k (SuspendQ (heap_lock (heaps k h))) = []"
  by (simp add: lock_free_def sem_ok_def)

lemma lock_free_upd_heap: "lock_free h k \<Longrightarrow> heap_lock H = heap_lock (heaps k h) \<Longrightarrow> lock_free h (upd_heap h H m k)"
  by (simp add: lock_free_def)

text \<open>Taking, running the section and releasing leaves the lock as it was.\<close>

lemma lock_then_free:
  assumes "lock_free h k"
  shows "lock_then h r f w k = f (upd_sem (heap_lock (heaps k h)) (\<lambda>s. s\<lparr>sem_value := sem_value s - 1\<rparr>) k)"
  using assms by (simp add: lock_then_def lock_free_def rt_sem_take_def sem_ok_def)

lemma locked_free:
  assumes l: "lock_free h k" and f: "f (heaps k h) (hitems k) = Some (r, H, m)" and H: "heap_lock H = heap_lock (heaps k h)"
  shows "locked h f (upd_sem (heap_lock (heaps k h)) (\<lambda>s. s\<lparr>sem_value := sem_value s - 1\<rparr>) k) = Some (r, upd_heap h H m k)"
proof -
  let ?n = "heap_lock (heaps k h)"
  let ?k = "upd_heap h H m (upd_sem ?n (\<lambda>s. s\<lparr>sem_value := sem_value s - 1\<rparr>) k)"
  have "rt_sem_release ?n ?k = Some (RT_EOK, upd_sem ?n (\<lambda>s. s\<lparr>sem_value := sem_value s + 1\<rparr>) ?k)"
    using l lock_free_queue [OF l] by (simp add: rt_sem_release_def lock_free_def sem_ok_def)
  moreover have "upd_sem ?n (\<lambda>s. s\<lparr>sem_value := sem_value s + 1\<rparr>) ?k = upd_heap h H m k"
    by (rule heap_sys.equality) (simp_all add: upd_sem_def upd_heap_def)
  ultimately show ?thesis using f H by (simp add: locked_def)
qed

subsection \<open>The invariant of a heap\<close>

definition heap_ok :: "nat \<Rightarrow> 'a heap_sys_scheme \<Rightarrow> addr list \<Rightarrow> addr list \<Rightarrow> bool" where
  "heap_ok h k bs fs \<longleftrightarrow> lock_free h k \<and> rt_object_get_type (Obj_ipc h) k = RT_Object_Class_MemHeap \<and>
     pool_ok h (heaps k h) (hitems k) bs fs"

definition view :: "'a heap_sys_scheme \<Rightarrow> addr list \<Rightarrow> layout" where
  "view k bs = blocks (used (hitems k)) bs"

lemma heap_okD:
  assumes "heap_ok h k bs fs"
  shows "lock_free h k" "rt_object_get_type (Obj_ipc h) k = RT_Object_Class_MemHeap" "pool_ok h (heaps k h) (hitems k) bs fs"
  using assms by (simp_all add: heap_ok_def)

lemma heap_ok_section:
  assumes "heap_ok h k bs fs" "pool_ok h H m bs' fs'" "same_pool (heaps k h) H"
  shows "heap_ok h (upd_heap h H m k) bs' fs'"
  using assms lock_free_upd_heap [of h k H m] by (simp add: heap_ok_def same_pool_def)

lemma view_upd [simp]: "view (upd_heap h H m k) bs = blocks (used m) bs"
  by (simp add: view_def)

text \<open>What a request is rounded to; a request near the end of the 32-bit range wraps to the smallest size.\<close>

lemma request_size_bounds: "12 \<le> unat (request_size sz)" "4 dvd unat (request_size sz)"
proof -
  have "12 \<le> (if RT_ALIGN sz 4 < 12 then 12 else RT_ALIGN sz 4)" by (simp add: not_less)
  then show "12 \<le> unat (request_size sz)" by (simp add: request_size_def Let_def word_le_nat_alt)
  have "RT_ALIGN sz 4 = RT_ALIGN_DOWN (sz + 4 - 1) 4" by (simp add: RT_ALIGN_def RT_ALIGN_DOWN_def)
  then have "uint (RT_ALIGN sz 4) = uint (sz + 4 - 1) div 4 * 4" using RT_ALIGN_DOWN_uint [of "sz + 4 - 1" 2] by simp
  then have "4 dvd unat (RT_ALIGN sz 4)" by (metis dvd_triv_right int_dvd_int_iff of_nat_numeral uint_nat)
  then show "4 dvd unat (request_size sz)" by (simp add: request_size_def Let_def)
qed

lemma request_size_enough: "unat sz \<le> 2 ^ 32 - 4 \<Longrightarrow> unat sz \<le> unat (request_size sz) \<and> unat (request_size sz) < max 12 (unat sz) + 4"
proof -
  assume l: "unat sz \<le> 2 ^ 32 - 4"
  then have "unat sz \<le> 4294967292" by simp
  then have "uint sz + 3 < 4294967296" using uint_nat [of sz] by linarith
  then have "uint sz + 2 ^ 2 - 1 < 2 ^ 32" by simp
  then have "uint sz \<le> uint (RT_ALIGN sz (2 ^ 2))" "uint (RT_ALIGN sz (2 ^ 2)) < uint sz + 2 ^ 2"
    using RT_ALIGN_bounds [of 2 sz] by simp_all
  then have "uint sz \<le> uint (RT_ALIGN sz 4)" "uint (RT_ALIGN sz 4) < uint sz + 4" by simp_all
  then have "unat sz \<le> unat (RT_ALIGN sz 4)" "unat (RT_ALIGN sz 4) < unat sz + 4"
    using uint_nat [of sz] uint_nat [of "RT_ALIGN sz 4"] by linarith+
  then show ?thesis by (auto simp: request_size_def Let_def word_less_nat_alt max_def)
qed

lemma request_size_wraps: "2 ^ 32 - 4 < unat sz \<Longrightarrow> request_size sz = 12"
proof -
  assume l: "2 ^ 32 - 4 < unat sz"
  have "unat sz < 2 ^ 32" using unsigned_less [where 'a = nat, of sz] by simp
  then have "unat sz \<in> {4294967293, 4294967294, 4294967295}" using l by auto
  then have "sz \<in> {4294967293, 4294967294, 4294967295}" by (auto simp: word_unat_eq_iff)
  then show ?thesis by (auto simp: request_size_def RT_ALIGN_def)
qed

subsection \<open>Allocation\<close>

lemma rt_memheap_alloc_free_lock:
  assumes ok: "heap_ok h k bs fs"
  shows "case (if request_size sz < available_size (heaps k h) then fits (hitems k) (request_size sz) fs else None) of
      None \<Rightarrow> rt_memheap_alloc h sz k = Some (Returns None, k)
    | Some p \<Rightarrow> \<exists>k' bs' fs'. rt_memheap_alloc h sz k = Some (Returns (Some (p + 24)), k') \<and> p \<in> set fs \<and>
        heap_ok h k' bs' fs' \<and> view k' bs' = take_at (unat (request_size sz)) p (view k bs) \<and> hbytes k' = hbytes k \<and>
        (\<exists>H m. k' = upd_heap h H m k \<and> same_pool (heaps k h) H)"
proof -
  note D = heap_okD [OF ok]
  let ?n = "request_size sz"
  note A = alloc_section_ok [OF D(3) request_size_bounds, of sz]
  have run: "rt_memheap_alloc h sz k = Some (Returns r, upd_heap h H m k)"
    if "?n < available_size (heaps k h)" "alloc_section h ?n (heaps k h) (hitems k) = Some (r, H, m)" "same_pool (heaps k h) H" for r H m
    using that locked_free [OF D(1), of "alloc_section h ?n" r H m] D(2)
    by (simp add: rt_memheap_alloc_def alloc_locked_def Let_def same_pool_def lock_then_free [OF D(1)])
  show ?thesis
  proof (cases "?n < available_size (heaps k h)")
    case False
    then show ?thesis using D(2) by (simp add: rt_memheap_alloc_def Let_def)
  next
    case True
    show ?thesis
    proof (cases "fits (hitems k) ?n fs")
      case None
      then show ?thesis using True A run [OF True, of None "heaps k h" "hitems k"] by simp
    next
      case (Some p)
      then obtain H m bs' fs' where s: "alloc_section h ?n (heaps k h) (hitems k) = Some (Some (p + 24), H, m)" "p \<in> set fs"
        "pool_ok h H m bs' fs'" "same_pool (heaps k h) H" "blocks (used m) bs' = take_at (unat ?n) p (blocks (used (hitems k)) bs)"
        using A by auto
      have "heap_ok h (upd_heap h H m k) bs' fs'" by (rule heap_ok_section [OF ok s(3,4)])
      then show ?thesis using True Some run [OF True s(1,4)] s(2,4,5) by (auto simp: view_def)
    qed
  qed
qed

subsection \<open>Giving back\<close>

text \<open>The block behind a pointer, and its header.\<close>

definition allocated :: "'a heap_sys_scheme \<Rightarrow> addr list \<Rightarrow> (addr \<times> nat) set" where
  "allocated k bs = {(a + 24, s) | a s. (a, s, True) \<in> set (view k bs)}"

lemma header_of_at: "p + 24 < 2 ^ 32 \<Longrightarrow> header_of (p + 24) = p"
proof -
  assume l: "p + 24 < 2 ^ 32"
  have "(of_nat (p + 24) + (- 24) :: u32) = of_nat p" by simp
  then show ?thesis using l by (simp only: header_of_def item_at_def) (simp add: unsigned_of_nat take_bit_nat_eq_self)
qed

lemma blocks_mem:
  assumes "(a, s, u) \<in> set (blocks v bs)"
  obtains pre q post where "bs = pre @ a # q # post" "s = q - a - 24" "u = v a"
  using assms
proof (induction v bs arbitrary: thesis rule: blocks.induct)
  case (1 v x y xs)
  consider "(a, s, u) = (x, y - x - 24, v x)" | "(a, s, u) \<in> set (blocks v (y # xs))" using 1(3) by auto
  then show ?case
  proof cases
    case 1
    then show ?thesis using "1.prems"(1) [of "[]" y xs] by simp
  next
    case 2
    then obtain pre q post where "y # xs = pre @ a # q # post" "s = q - a - 24" "u = v a" using "1.IH" by blast
    then show ?thesis using "1.prems"(1) [of "x # pre" q post] by simp
  qed
qed simp_all

lemma heap_ok_block:
  assumes ok: "heap_ok h k bs fs" and b: "(a, s, u) \<in> set (view k bs)"
  shows "a \<in> set bs" "a \<noteq> last bs" "used (hitems k) a = u" "unat (MEMITEM_SIZE (hitems k) a) = s" "header_of (a + 24) = a"
    "0 < a" "a + 24 + s < 2 ^ 32" "12 \<le> s"
proof -
  note D = heap_okD [OF ok] and P = pool_okD [OF heap_okD(3) [OF ok]]
  obtain pre q post where bs: "bs = pre @ a # q # post" "s = q - a - 24" "u = used (hitems k) a"
    using b unfolding view_def by (rule blocks_mem)
  note N = shape_neighbours [OF P(1) bs(1)]
  show "a \<in> set bs" "used (hitems k) a = u" "unat (MEMITEM_SIZE (hitems k) a) = s" using bs N(4) by simp_all
  show "a \<noteq> last bs" using N(9) bs(1) by (auto split: if_splits)
  show "header_of (a + 24) = a" using shape_bounds(4) [OF P(1), of a] bs(1) by (simp add: header_of_at)
  show "0 < a" using shape_bounds(1) [OF P(1), of a] shape_okD(3) [OF P(1)] bs(1) by simp
  show "a + 24 + s < 2 ^ 32" "12 \<le> s" using bs(2) N(3,7) by simp_all
qed

lemma rt_memheap_free_ok:
  assumes ok: "heap_ok h k bs fs" and b: "(a, s, True) \<in> set (view k bs)"
  shows "\<exists>k' bs' fs'. rt_memheap_free (a + 24) k = Some (Returns (), k') \<and> heap_ok h k' bs' fs' \<and>
    view k' bs' = release_at a (view k bs) \<and> hbytes k' = hbytes k \<and> (\<exists>H m. k' = upd_heap h H m k \<and> same_pool (heaps k h) H)"
proof -
  note D = heap_okD [OF ok] and P = pool_okD [OF heap_okD(3) [OF ok]] and B = heap_ok_block [OF ok b]
  obtain pre q post where bs: "bs = pre @ a # q # post" by (rule shape_split [OF B(1,2)])
  note N = shape_neighbours [OF P(1) bs]
  obtain H m where s: "free_section a (heaps k h) (hitems k) = (H, m)" by fastforce
  have u: "used (hitems k) a" using B(3) by simp
  obtain bs' fs' where f: "pool_ok h H m bs' fs'" "blocks (used m) bs' = release_at a (blocks (used (hitems k)) bs)"
    using free_section_ok(1) [OF D(3) B(1,2) u s] by blast
  have same: "same_pool (heaps k h) H" by (rule free_section_ok(2) [OF D(3) B(1,2) u s])
  have mk: "marked h (hitems k) a" "marked h (hitems k) q" using shape_okD(13) [OF P(1)] bs by auto
  have "locked h (\<lambda>H m. Some ((), free_section a H m)) (upd_sem (heap_lock (heaps k h)) (\<lambda>s. s\<lparr>sem_value := sem_value s - 1\<rparr>) k) =
    Some ((), upd_heap h H m k)"
    using locked_free [OF D(1), of "\<lambda>H m. Some ((), free_section a H m)" "()" H m] s same by (simp add: same_pool_def)
  then have "rt_memheap_free (a + 24) k = Some (Returns (), upd_heap h H m k)"
    using mk u N(1) B(5,6) D(2)
    by (simp add: rt_memheap_free_def free_locked_def marked_def RT_MEMHEAP_IS_USED_def Let_def lock_then_free [OF D(1)])
  moreover have "heap_ok h (upd_heap h H m k) bs' fs'" by (rule heap_ok_section [OF ok f(1) same])
  ultimately show ?thesis using f(2) same by (auto simp: view_def)
qed

subsection \<open>What callers see\<close>

lemma blocks_apart:
  assumes "spaced bs" "(a, s, u) \<in> set (blocks v bs)" "(b, t, w) \<in> set (blocks v bs)" "a \<noteq> b"
  shows "a + 24 + s \<le> b \<or> b + 24 + t \<le> a"
  using assms
proof (induction v bs rule: blocks.induct)
  case (1 v x y xs)
  have lower: "y \<le> c" if "(c, r, z) \<in> set (blocks v (y # xs))" for c r z
  proof -
    have "c \<in> set (butlast (y # xs))" using that by (blast dest: blocks_fst)
    then have "c \<in> set (y # xs)" by (rule in_set_butlastD)
    then show ?thesis using "1.prems"(1) by (auto simp: spaced_simps)
  qed
  have xy: "x + 36 \<le> y" "spaced (y # xs)" using "1.prems"(1) by (simp_all add: spaced_simps)
  show ?case
  proof (cases "a = x \<or> b = x")
    case True
    then show ?thesis
    proof
      assume a: "a = x"
      then have "(b, t, w) \<in> set (blocks v (y # xs))" using "1.prems"(3,4) by auto
      moreover have "s = y - x - 24"
      proof -
        have "(a, s, u) \<notin> set (blocks v (y # xs))" using lower a xy by fastforce
        then show ?thesis using "1.prems"(2) by auto
      qed
      ultimately show ?thesis using lower a xy by fastforce
    next
      assume b: "b = x"
      then have "(a, s, u) \<in> set (blocks v (y # xs))" using "1.prems"(2,4) by auto
      moreover have "t = y - x - 24"
      proof -
        have "(b, t, w) \<notin> set (blocks v (y # xs))" using lower b xy by fastforce
        then show ?thesis using "1.prems"(3) by auto
      qed
      ultimately show ?thesis using lower b xy by fastforce
    qed
  next
    case False
    then show ?thesis using "1.IH" xy(2) "1.prems"(2-4) by auto
  qed
qed simp_all

lemma view_apart:
  assumes "heap_ok h k bs fs" "(p, s) \<in> allocated k bs" "(q, t) \<in> allocated k bs" "p \<noteq> q"
  shows "p + s + 24 \<le> q \<or> q + t + 24 \<le> p"
  using blocks_apart [OF shape_okD(11) [OF pool_okD(1) [OF heap_okD(3) [OF assms(1)]]]] assms(2-4)
  by (fastforce simp: allocated_def view_def)

lemma view_inside:
  assumes "heap_ok h k bs fs" "(p, s) \<in> allocated k bs"
  shows "start_addr (heaps k h) + 24 \<le> p \<and> p + s + 24 \<le> start_addr (heaps k h) + unat (pool_size (heaps k h)) \<and>
    4 dvd p - start_addr (heaps k h)"
proof -
  note D = heap_okD [OF assms(1)] and P = pool_okD [OF heap_okD(3) [OF assms(1)]]
  obtain a where a: "p = a + 24" "(a, s, True) \<in> set (view k bs)" using assms(2) by (auto simp: allocated_def)
  obtain pre q post where bs: "bs = pre @ a # q # post" "s = q - a - 24" using a(2) unfolding view_def by (rule blocks_mem)
  have "start_addr (heaps k h) \<le> a" "q + 24 \<le> start_addr (heaps k h) + unat (pool_size (heaps k h))"
    using shape_bounds(1) [OF P(1), of a] shape_bounds(3) [OF P(1), of q] bs by auto
  moreover have "4 dvd a - start_addr (heaps k h)" using shape_okD(12) [OF P(1)] bs by simp
  then have "4 dvd (a - start_addr (heaps k h)) + 24" by (intro dvd_add) auto
  ultimately show ?thesis using a(1) bs(2) shape_neighbours(3) [OF P(1) bs(1)] by simp
qed

lemma allocated_coalesce: "{(a, s). (a, s, True) \<in> set (coalesce L)} = {(a, s). (a, s, True) \<in> set L}"
proof (induction L rule: coalesce.induct)
  case (1 a s u b t v L)
  show ?case
  proof (cases "u \<or> v")
    case True
    then show ?thesis using "1.IH"(1) by (auto simp: set_eq_iff)
  next
    case False
    then show ?thesis using "1.IH"(2) by (auto simp: set_eq_iff)
  qed
qed auto

lemma allocated_release: "{(b, s). (b, s, True) \<in> set (release_at a L)} = {(b, s). (b, s, True) \<in> set L \<and> b \<noteq> a}"
  unfolding release_at_def allocated_coalesce by force

lemma allocated_take:
  assumes "(p, s, False) \<in> set L" "distinct (map fst L)"
  shows "{(b, t). (b, t, True) \<in> set (take_at n p L)} =
    insert (p, if n + 36 \<le> s then n else s) {(b, t). (b, t, True) \<in> set L}"
proof -
  obtain K R where L: "L = K @ (p, s, False) # R" using assms(1) by (meson split_list)
  then have "p \<notin> fst ` set K" using assms(2) by auto
  then show ?thesis unfolding L by (auto simp: take_at_split)
qed

lemma blocks_distinct: "distinct bs \<Longrightarrow> distinct (map fst (blocks u bs))"
proof (induction u bs rule: blocks.induct)
  case (1 u a b xs)
  have "a \<notin> fst ` set (blocks u (b # xs))"
  proof
    assume "a \<in> fst ` set (blocks u (b # xs))"
    then obtain s v where "(a, s, v) \<in> set (blocks u (b # xs))" by force
    then have "a \<in> set (butlast (b # xs))" by (blast dest: blocks_fst)
    then have "a \<in> set (b # xs)" by (rule in_set_butlastD)
    then show False using "1.prems" by simp
  qed
  then show ?case using 1 by simp
qed auto

text \<open>Taking a free block and giving it back at once.\<close>

lemma release_take:
  assumes c: "coalesced L" and d: "distinct (map fst L)" and p: "(p, s, False) \<in> set L"
  shows "release_at p (take_at n p L) = L"
proof -
  obtain K R where L: "L = K @ (p, s, False) # R" using p by (meson split_list)
  have n: "p \<notin> fst ` set K" "p \<notin> fst ` set R" using d L by auto
  have id: "map (\<lambda>(a, s, u). (a, s, u \<and> a \<noteq> p)) M = M" if "p \<notin> fst ` set M" for M :: layout
    using that by (intro map_idI) force
  have cK: "coalesced K" "K = [] \<or> used_of (last K)" and cR: "coalesced R" "R = [] \<or> used_of (hd R)"
    using c unfolding L by (auto simp: coalesced_append coalesced_Cons)
  show ?thesis
  proof (cases "n + 36 \<le> s")
    case True
    have "release_at p (take_at n p L) = coalesce (K @ (p, n, False) # (p + 24 + n, s - n - 24, False) # R)"
      unfolding L take_at_split [OF n(1)] release_at_def using True id [OF n(1)] id [OF n(2)] by simp
    also have "\<dots> = K @ coalesce ((p, n + 24 + (s - n - 24), False) # R)"
      unfolding coalesce_prefix [OF cK] by simp
    also have "n + 24 + (s - n - 24) = s" using True by simp
    finally show ?thesis using coalesce_free_used [OF cR] L by simp
  next
    case False
    have "release_at p (take_at n p L) = coalesce L"
      unfolding L take_at_split [OF n(1)] release_at_def using False id [OF n(1)] id [OF n(2)] by simp
    then show ?thesis using coalesce_coalesced [OF c] by simp
  qed
qed

lemma allocated_view: "allocated k bs = (\<lambda>(a, s). (a + 24, s)) ` {(a, s). (a, s, True) \<in> set (view k bs)}"
  by (auto simp: allocated_def)

lemma heap_ok_view:
  assumes "heap_ok h k bs fs"
  shows "coalesced (view k bs)" "distinct (map fst (view k bs))" "unat (available_size (heaps k h)) = free_bytes (view k bs)"
proof -
  note P = pool_okD [OF heap_okD(3) [OF assms]]
  show "coalesced (view k bs)" "unat (available_size (heaps k h)) = free_bytes (view k bs)"
    using P(4,5) by (simp_all add: view_def)
  show "distinct (map fst (view k bs))"
    unfolding view_def by (rule blocks_distinct [OF spaced_distinct [OF shape_okD(11) [OF P(1)]]])
qed

lemma heap_ok_free_block:
  assumes ok: "heap_ok h k bs fs" and p: "p \<in> set fs"
  shows "(p, unat (MEMITEM_SIZE (hitems k) p), False) \<in> set (view k bs)"
proof -
  note P = pool_okD [OF heap_okD(3) [OF ok]]
  obtain pre q post f1 f2 where bs: "bs = pre @ p # q # post" and u: "\<not> used (hitems k) p"
    by (rule pool_free_split [OF heap_okD(3) [OF ok] p])
  show ?thesis
    using blocks_split [of "used (hitems k)" pre p "q # post"] bs u shape_neighbours(4) [OF P(1) bs] by (simp add: view_def)
qed

lemma fits_SomeD:
  assumes "fits m n fs = Some p"
  shows "p \<in> set fs" "n \<le> MEMITEM_SIZE m p"
  using find_SomeD [of "\<lambda>p. n \<le> MEMITEM_SIZE m p" fs p] assms by (simp_all add: fits_def)

text \<open>An allocation either adds one block that no other meets, or changes nothing.\<close>

lemma rt_memheap_alloc_adds:
  assumes ok: "heap_ok h k bs fs" and r: "rt_memheap_alloc h sz k = Some (Returns (Some p), k')"
  shows "\<exists>bs' fs' s. heap_ok h k' bs' fs' \<and> unat (request_size sz) \<le> s \<and> p \<notin> fst ` allocated k bs \<and>
    allocated k' bs' = insert (p, s) (allocated k bs) \<and> hbytes k' = hbytes k \<and> 24 < p \<and>
    view k' bs' = take_at (unat (request_size sz)) (p - 24) (view k bs) \<and> (\<exists>t. (p - 24, t, False) \<in> set (view k bs))"
proof -
  let ?n = "request_size sz"
  obtain q where q: "?n < available_size (heaps k h)" "fits (hitems k) ?n fs = Some q"
    using rt_memheap_alloc_free_lock [OF ok, of sz] r by (auto split: if_splits option.splits)
  then obtain bs' fs' where A: "p = q + 24" "heap_ok h k' bs' fs'" "view k' bs' = take_at (unat ?n) q (view k bs)" "hbytes k' = hbytes k"
    using rt_memheap_alloc_free_lock [OF ok, of sz] r by auto
  note f = fits_SomeD [OF q(2)]
  let ?s = "unat (MEMITEM_SIZE (hitems k) q)"
  have m: "(q, ?s, False) \<in> set (view k bs)" by (rule heap_ok_free_block [OF ok f(1)])
  note V = heap_ok_view [OF ok]
  let ?t = "if unat ?n + 36 \<le> ?s then unat ?n else ?s"
  have "allocated k' bs' = insert (q + 24, ?t) (allocated k bs)"
    unfolding allocated_view A(3) allocated_take [OF m V(2)] by auto
  moreover have "unat ?n \<le> ?s" using f(2) by (simp add: word_le_nat_alt)
  moreover have "p \<notin> fst ` allocated k bs"
  proof
    assume "p \<in> fst ` allocated k bs"
    then obtain t where "(q, t, True) \<in> set (view k bs)" using A(1) by (auto simp: allocated_def)
    then show False using m V(2) eq_key_imp_eq_value [OF V(2), of q "(?s, False)" "(t, True)"] by simp
  qed
  moreover have "0 < q" using heap_ok_block(6) [OF ok m] .
  ultimately show ?thesis using A m by (intro exI [of _ bs'] exI [of _ fs'] exI [of _ ?t]) auto
qed

lemma rt_memheap_alloc_none:
  assumes ok: "heap_ok h k bs fs" and r: "rt_memheap_alloc h sz k = Some (Returns None, k')"
  shows "k' = k" "request_size sz < available_size (heaps k h) \<Longrightarrow> (a, s, False) \<in> set (view k bs) \<Longrightarrow> s < unat (request_size sz)"
proof -
  let ?n = "request_size sz"
  have n: "(if ?n < available_size (heaps k h) then fits (hitems k) ?n fs else None) = None"
    using rt_memheap_alloc_free_lock [OF ok, of sz] r by (auto split: option.splits)
  then show "k' = k" using rt_memheap_alloc_free_lock [OF ok, of sz] r by auto
  assume l: "?n < available_size (heaps k h)" and b: "(a, s, False) \<in> set (view k bs)"
  note B = heap_ok_block [OF ok b]
  have "a \<in> set fs" using pool_okD(3) [OF heap_okD(3) [OF ok]] B(1,3) by auto
  moreover have "fits (hitems k) ?n fs = None" using n l by simp
  ultimately have "\<not> ?n \<le> MEMITEM_SIZE (hitems k) a" by (auto simp: fits_def find_None_iff)
  then show "s < unat ?n" using B(4) by (simp add: word_le_nat_alt)
qed

lemma rt_memheap_alloc_returns:
  assumes "heap_ok h k bs fs"
  shows "\<exists>r k'. rt_memheap_alloc h sz k = Some (Returns r, k')"
  using rt_memheap_alloc_free_lock [OF assms, of sz] by (auto split: option.splits if_splits)

lemma rt_memheap_free_removes:
  assumes ok: "heap_ok h k bs fs" and p: "(p, s) \<in> allocated k bs"
  shows "\<exists>k' bs' fs'. rt_memheap_free p k = Some (Returns (), k') \<and> heap_ok h k' bs' fs' \<and>
    allocated k' bs' = allocated k bs - {(p, s)} \<and> hbytes k' = hbytes k \<and> view k' bs' = release_at (p - 24) (view k bs)"
proof -
  obtain a where a: "p = a + 24" "(a, s, True) \<in> set (view k bs)" using p by (auto simp: allocated_def)
  obtain k' bs' fs' where f: "rt_memheap_free (a + 24) k = Some (Returns (), k')" "heap_ok h k' bs' fs'"
    "view k' bs' = release_at a (view k bs)" "hbytes k' = hbytes k"
    using rt_memheap_free_ok [OF ok a(2)] by blast
  have "allocated k' bs' = allocated k bs - {(p, s)}"
  proof -
    have "(b, t, True) \<in> set (view k bs) \<and> b \<noteq> a \<longleftrightarrow> (b, t, True) \<in> set (view k bs) \<and> (b, t) \<noteq> (a, s)" for b t
      using eq_key_imp_eq_value [OF heap_ok_view(2) [OF ok], of a "(s, True)" "(t, True)"] a(2) by auto
    then show ?thesis unfolding allocated_view f(3) allocated_release a(1) by (auto simp: image_iff)
  qed
  then show ?thesis using f a(1) by auto
qed

lemma alloc_free_roundtrip:
  assumes ok: "heap_ok h k bs fs" and r: "rt_memheap_alloc h sz k = Some (Returns (Some p), k')"
  shows "\<exists>k'' bs'' fs''. rt_memheap_free p k' = Some (Returns (), k'') \<and> heap_ok h k'' bs'' fs'' \<and>
    view k'' bs'' = view k bs \<and> available_size (heaps k'' h) = available_size (heaps k h)"
proof -
  obtain bs' fs' s where A: "heap_ok h k' bs' fs'" "allocated k' bs' = insert (p, s) (allocated k bs)"
    "view k' bs' = take_at (unat (request_size sz)) (p - 24) (view k bs)"
    "\<exists>t. (p - 24, t, False) \<in> set (view k bs)"
    using rt_memheap_alloc_adds [OF ok r] by blast
  obtain t where t: "(p - 24, t, False) \<in> set (view k bs)" using A(4) by blast
  obtain k'' bs'' fs'' where F: "rt_memheap_free p k' = Some (Returns (), k'')" "heap_ok h k'' bs'' fs''"
    "view k'' bs'' = release_at (p - 24) (view k' bs')"
    using rt_memheap_free_removes [OF A(1), of p s] A(2) by auto
  have v: "view k'' bs'' = view k bs"
    unfolding F(3) A(3) by (rule release_take [OF heap_ok_view(1,2) [OF ok] t])
  then have "available_size (heaps k'' h) = available_size (heaps k h)"
    using heap_ok_view(3) [OF ok] heap_ok_view(3) [OF F(2)] by (simp add: word_unat_eq_iff)
  then show ?thesis using F(1,2) v by blast
qed

subsection \<open>Reading the blocks off the headers\<close>

text \<open>The walk along \<open>item_next\<close>; a pool has fewer headers than bytes, so its size is enough fuel.\<close>

fun walk :: "nat \<Rightarrow> items \<Rightarrow> addr \<Rightarrow> addr \<Rightarrow> addr list" where
  "walk 0 m st a = []"
| "walk (Suc n) m st a = a # (if item_next (m a) = st then [] else walk n m st (item_next (m a)))"

definition headers :: "nat \<Rightarrow> 'a heap_sys_scheme \<Rightarrow> addr list" where
  "headers h k = walk (unat (pool_size (heaps k h))) (hitems k) (start_addr (heaps k h)) (start_addr (heaps k h))"

definition heap_inv :: "nat \<Rightarrow> 'a heap_sys_scheme \<Rightarrow> bool" where
  "heap_inv h k \<longleftrightarrow> (\<exists>bs fs. heap_ok h k bs fs)"

definition heap_view :: "nat \<Rightarrow> 'a heap_sys_scheme \<Rightarrow> layout" where
  "heap_view h k = view k (headers h k)"

definition live_blocks :: "nat \<Rightarrow> 'a heap_sys_scheme \<Rightarrow> (addr \<times> nat) set" where
  "live_blocks h k = allocated k (headers h k)"

lemma walk_path:
  "path (bl m) a xs st \<Longrightarrow> st \<notin> set xs \<Longrightarrow> length xs < n \<Longrightarrow> walk n m st a = a # xs"
proof (induction xs arbitrary: a n)
  case Nil
  then show ?case by (cases n) (simp_all add: linked_def)
next
  case (Cons x xs)
  then show ?case by (cases n) (auto simp: linked_def)
qed

lemma spaced_length: "spaced xs \<Longrightarrow> xs \<noteq> [] \<Longrightarrow> hd xs + 36 * (length xs - 1) \<le> last xs"
proof (induction xs)
  case (Cons x xs)
  then show ?case by (cases xs) (auto simp: spaced_simps)
qed simp

lemma headers_eq:
  assumes "heap_ok h k bs fs"
  shows "headers h k = bs"
proof -
  note S = shape_okD [OF pool_okD(1) [OF heap_okD(3) [OF assms]]]
  have bs: "bs = start_addr (heaps k h) # tl bs" "bs \<noteq> []" using S(6,7) by (cases bs; auto)+
  have "length (tl bs) < unat (pool_size (heaps k h))"
    using spaced_length [OF S(11) bs(2)] S(7,8) by simp
  then have "headers h k = start_addr (heaps k h) # tl bs"
    unfolding headers_def using S(10) by (intro walk_path) (simp_all add: dlist_def)
  then show ?thesis using bs(1) by simp
qed

lemma heap_invI: "heap_ok h k bs fs \<Longrightarrow> heap_inv h k \<and> heap_view h k = view k bs \<and> live_blocks h k = allocated k bs"
  using headers_eq by (auto simp: heap_inv_def heap_view_def live_blocks_def)

lemma heap_invE:
  assumes "heap_inv h k"
  obtains bs fs where "heap_ok h k bs fs" "heap_view h k = view k bs" "live_blocks h k = allocated k bs"
  using assms heap_invI unfolding heap_inv_def by blast

lemma live_apart:
  assumes "heap_inv h k" "(p, s) \<in> live_blocks h k" "(q, t) \<in> live_blocks h k" "(p, s) \<noteq> (q, t)"
  shows "p + s \<le> q \<or> q + t \<le> p"
proof -
  obtain bs fs where B: "heap_ok h k bs fs" "live_blocks h k = allocated k bs" by (rule heap_invE [OF assms(1)])
  have "p \<noteq> q"
  proof
    assume e: "p = q"
    then have "(p - 24, s, True) \<in> set (view k bs)" "(p - 24, t, True) \<in> set (view k bs)"
      using assms(2,3) B(2) by (auto simp: allocated_def)
    then show False
      using eq_key_imp_eq_value [OF heap_ok_view(2) [OF B(1)], of "p - 24" "(s, True)" "(t, True)"] assms(4) e by auto
  qed
  then show ?thesis using view_apart [OF B(1), of p s q t] assms(2,3) B(2) by auto
qed

end
