(* ===== verification/HeapUse.thy ===== *)
theory HeapUse
  imports MemHeap
begin

text \<open>
  The heaps as their clients use them. The locale \<open>allocator\<close> is the contract of an allocator: what
  is held is apart, an allocation adds a region of at least the size wanted or changes nothing, and
  what is given back is gone. The client, a script of requests over the pointers it was given, is
  proved once inside it. Then the blocks of a heap through \<open>rt_memheap_realloc\<close>, the creation of a
  heap, and a call that has to wait for the lock.
\<close>

subsection \<open>The contract of an allocator\<close>

text \<open>A client asks for memory or gives back the \<open>i\<close>-th of the pointers it holds.\<close>

datatype 'n request = Take 'n | Give nat

fun serve ::
  "('n \<Rightarrow> 'k \<Rightarrow> (addr option \<times> 'k) option) \<Rightarrow> (addr \<Rightarrow> 'k \<Rightarrow> 'k option) \<Rightarrow> 'n request list \<Rightarrow> addr list \<Rightarrow> 'k \<Rightarrow>
   (addr list \<times> 'k) option" where
  "serve alloc give [] ps k = Some (ps, k)"
| "serve alloc give (Take n # rs) ps k = do {
     (r, k) \<leftarrow> alloc n k;
     serve alloc give rs (case r of None \<Rightarrow> ps | Some p \<Rightarrow> p # ps) k }"
| "serve alloc give (Give i # rs) ps k =
     (if i < length ps then do {
        k \<leftarrow> give (ps ! i) k;
        serve alloc give rs (take i ps @ drop (Suc i) ps) k }
      else serve alloc give rs ps k)"

definition held_apart :: "(addr \<times> nat) set \<Rightarrow> bool" where
  "held_apart A \<longleftrightarrow> (\<forall>(p, s) \<in> A. \<forall>(q, t) \<in> A. (p, s) = (q, t) \<or> p + s \<le> q \<or> q + t \<le> p)"

locale allocator =
  fixes inv :: "'k \<Rightarrow> bool"
    and held :: "'k \<Rightarrow> (addr \<times> nat) set"
    and alloc :: "'n \<Rightarrow> 'k \<Rightarrow> (addr option \<times> 'k) option"
    and give :: "addr \<Rightarrow> 'k \<Rightarrow> 'k option"
    and want :: "'n \<Rightarrow> nat"
  assumes apart: "inv k \<Longrightarrow> held_apart (held k)"
    and keyed: "\<lbrakk>inv k; (p, s) \<in> held k; (p, t) \<in> held k\<rbrakk> \<Longrightarrow> s = t"
    and alloc: "inv k \<Longrightarrow> \<exists>r k'. alloc n k = Some (r, k') \<and> inv k' \<and>
      (case r of None \<Rightarrow> held k' = held k
       | Some p \<Rightarrow> \<exists>s. want n \<le> s \<and> p \<notin> fst ` held k \<and> held k' = insert (p, s) (held k))"
    and give: "\<lbrakk>inv k; (p, s) \<in> held k\<rbrakk> \<Longrightarrow> \<exists>k'. give p k = Some k' \<and> inv k' \<and> held k' = held k - {(p, s)}"
begin

lemma held_minus: "inv k \<Longrightarrow> (p, s) \<in> held k \<Longrightarrow> fst ` (held k - {(p, s)}) = fst ` held k - {p}"
proof -
  assume k: "inv k" "(p, s) \<in> held k"
  then have "fst x = p \<longleftrightarrow> x = (p, s)" if "x \<in> held k" for x using keyed [OF k(1), of p "snd x" s] that k(2) by (cases x) auto
  then show ?thesis by auto
qed

text \<open>Any script runs to its end, and what the client then holds is what the allocator says it holds.\<close>

lemma serve_runs:
  "\<lbrakk>inv k; distinct ps; set ps = fst ` held k\<rbrakk> \<Longrightarrow>
   \<exists>ps' k'. serve alloc give rs ps k = Some (ps', k') \<and> inv k' \<and> distinct ps' \<and> set ps' = fst ` held k'"
proof (induction rs arbitrary: ps k)
  case (Cons a rs)
  show ?case
  proof (cases a)
    case (Take n)
    obtain r k1 where r: "alloc n k = Some (r, k1)" "inv k1"
      "case r of None \<Rightarrow> held k1 = held k
       | Some p \<Rightarrow> \<exists>s. want n \<le> s \<and> p \<notin> fst ` held k \<and> held k1 = insert (p, s) (held k)"
      using alloc [OF Cons.prems(1), of n] by blast
    then have "distinct (case r of None \<Rightarrow> ps | Some p \<Rightarrow> p # ps) \<and> set (case r of None \<Rightarrow> ps | Some p \<Rightarrow> p # ps) = fst ` held k1"
      using Cons.prems(2,3) by (auto split: option.splits)
    then show ?thesis using Cons.IH [OF r(2)] r(1) Take by auto
  next
    case (Give i)
    show ?thesis
    proof (cases "i < length ps")
      case False
      then show ?thesis using Cons Give by simp
    next
      case True
      then have "ps ! i \<in> fst ` held k" using Cons.prems(3) nth_mem by blast
      then obtain s where s: "(ps ! i, s) \<in> held k" by force
      obtain k1 where k1: "give (ps ! i) k = Some k1" "inv k1" "held k1 = held k - {(ps ! i, s)}"
        using give [OF Cons.prems(1) s] by blast
      have ps: "ps = take i ps @ ps ! i # drop (Suc i) ps" using True by (rule id_take_nth_drop)
      then have "distinct (take i ps @ ps ! i # drop (Suc i) ps)" using Cons.prems(2) by simp
      then have d: "distinct (take i ps @ drop (Suc i) ps)" "ps ! i \<notin> set (take i ps @ drop (Suc i) ps)" by auto
      have "insert (ps ! i) (set (take i ps @ drop (Suc i) ps)) = set ps" by (subst (4) ps) simp
      then have "set (take i ps @ drop (Suc i) ps) = fst ` held k1"
        using d(2) Cons.prems(3) held_minus [OF Cons.prems(1) s] k1(3) by auto
      from Cons.IH [OF k1(2) d(1) this] show ?thesis using k1(1) True Give by simp
    qed
  qed
qed simp

text \<open>Two pointers of the client never share a byte.\<close>

lemma serve_apart:
  assumes "inv k" "distinct ps" "set ps = fst ` held k"
  shows "\<exists>ps' k'. serve alloc give rs ps k = Some (ps', k') \<and> inv k' \<and> distinct ps' \<and> set ps' = fst ` held k' \<and>
    held_apart (held k')"
  using serve_runs [OF assms, of rs] apart by blast

end

text \<open>A heap whose lock is free is an allocator.\<close>

definition heap_alloc :: "nat \<Rightarrow> u32 \<Rightarrow> 'a heap_sys_scheme \<Rightarrow> (addr option \<times> 'a heap_sys_scheme) option" where
  "heap_alloc h n k = do {
     (o', k) \<leftarrow> rt_memheap_alloc h n k;
     case o' of Returns r \<Rightarrow> Some (r, k) | Blocks _ \<Rightarrow> None }"

definition heap_free :: "addr \<Rightarrow> 'a heap_sys_scheme \<Rightarrow> 'a heap_sys_scheme option" where
  "heap_free p k = do {
     (o', k) \<leftarrow> rt_memheap_free p k;
     case o' of Returns _ \<Rightarrow> Some k | Blocks _ \<Rightarrow> None }"

lemma live_keyed:
  assumes "heap_inv h k" "(p, s) \<in> live_blocks h k" "(p, t) \<in> live_blocks h k"
  shows "s = t"
proof -
  obtain bs fs where B: "heap_ok h k bs fs" "live_blocks h k = allocated k bs" by (rule heap_invE [OF assms(1)])
  then have "(p - 24, s, True) \<in> set (view k bs)" "(p - 24, t, True) \<in> set (view k bs)"
    using assms(2,3) by (auto simp: allocated_def)
  then show ?thesis using eq_key_imp_eq_value [OF heap_ok_view(2) [OF B(1)], of "p - 24" "(s, True)" "(t, True)"] by simp
qed

definition wanted :: "u32 \<Rightarrow> nat" where
  "wanted sz = (if unat sz \<le> 2 ^ 32 - 4 then unat sz else 0)"

lemma wanted_le: "wanted sz \<le> unat (request_size sz)"
  using request_size_enough [of sz] by (simp add: wanted_def)

lemma heap_alloc_law:
  assumes "heap_inv h k"
  shows "\<exists>r k'. heap_alloc h n k = Some (r, k') \<and> heap_inv h k' \<and>
    (case r of None \<Rightarrow> live_blocks h k' = live_blocks h k
     | Some p \<Rightarrow> \<exists>s. wanted n \<le> s \<and> p \<notin> fst ` live_blocks h k \<and> live_blocks h k' = insert (p, s) (live_blocks h k))"
proof -
  obtain bs fs where B: "heap_ok h k bs fs" "live_blocks h k = allocated k bs" by (rule heap_invE [OF assms])
  obtain r k' where r: "rt_memheap_alloc h n k = Some (Returns r, k')" using rt_memheap_alloc_returns [OF B(1)] by blast
  then have a: "heap_alloc h n k = Some (r, k')" by (simp add: heap_alloc_def)
  show ?thesis
  proof (cases r)
    case None
    then have "k' = k" using rt_memheap_alloc_none(1) [OF B(1)] r by blast
    then show ?thesis using a None assms by simp
  next
    case (Some p)
    obtain bs' fs' s where s: "heap_ok h k' bs' fs'" "unat (request_size n) \<le> s" "p \<notin> fst ` allocated k bs"
      "allocated k' bs' = insert (p, s) (allocated k bs)"
      using rt_memheap_alloc_adds [OF B(1)] r Some by blast
    then have "wanted n \<le> s" using wanted_le [of n] by simp
    then show ?thesis using a Some heap_invI [OF s(1)] B(2) s(3,4) by auto
  qed
qed

lemma heap_free_law:
  assumes "heap_inv h k" "(p, s) \<in> live_blocks h k"
  shows "\<exists>k'. heap_free p k = Some k' \<and> heap_inv h k' \<and> live_blocks h k' = live_blocks h k - {(p, s)}"
proof -
  obtain bs fs where B: "heap_ok h k bs fs" "live_blocks h k = allocated k bs" by (rule heap_invE [OF assms(1)])
  obtain k' bs' fs' where "rt_memheap_free p k = Some (Returns (), k')" "heap_ok h k' bs' fs'"
    "allocated k' bs' = allocated k bs - {(p, s)}"
    using rt_memheap_free_removes [OF B(1), of p s] assms(2) B(2) by auto
  then show ?thesis using heap_invI [of h k' bs' fs'] B(2) by (simp add: heap_free_def)
qed

interpretation memheap: allocator "heap_inv h" "live_blocks h" "heap_alloc h" heap_free wanted for h
proof
  fix k :: "'a heap_sys_scheme" and p s t n
  assume k: "heap_inv h k"
  show "held_apart (live_blocks h k)" unfolding held_apart_def using live_apart [OF k] by fast
  show "s = t" if "(p, s) \<in> live_blocks h k" "(p, t) \<in> live_blocks h k" by (rule live_keyed [OF k that])
  show "\<exists>r k'. heap_alloc h n k = Some (r, k') \<and> heap_inv h k' \<and>
    (case r of None \<Rightarrow> live_blocks h k' = live_blocks h k
     | Some p \<Rightarrow> \<exists>s. wanted n \<le> s \<and> p \<notin> fst ` live_blocks h k \<and> live_blocks h k' = insert (p, s) (live_blocks h k))"
    by (rule heap_alloc_law [OF k])
  show "\<exists>k'. heap_free p k = Some k' \<and> heap_inv h k' \<and> live_blocks h k' = live_blocks h k - {(p, s)}"
    if "(p, s) \<in> live_blocks h k" by (rule heap_free_law [OF k that])
qed

subsection \<open>Changing the size of a block\<close>

lemma allocated_shrink:
  assumes L: "L = K @ (p, s, True) # R" and d: "distinct (map fst L)"
  shows "{(b, t). (b, t, True) \<in> set (shrink_at n p L)} = insert (p, n) ({(b, t). (b, t, True) \<in> set L} - {(p, s)})"
proof -
  have p: "p \<notin> fst ` set K" "p \<notin> fst ` set R" using d L by auto
  have "shrink_at n p L = K @ (p, n, True) # coalesce ((p + 24 + n, s - n - 24, False) # R)"
    unfolding L shrink_at_split [OF p(1)] by simp
  moreover have "{(b, t). (b, t, True) \<in> set (coalesce ((p + 24 + n, s - n - 24, False) # R))} = {(b, t). (b, t, True) \<in> set R}"
    unfolding allocated_coalesce by auto
  ultimately show ?thesis using p unfolding L by force
qed

lemma allocated_grow:
  assumes L: "L = K @ (p, s, True) # (b, t, False) # R" and d: "distinct (map fst L)"
  shows "{(b, t). (b, t, True) \<in> set (grow_at n p L)} = insert (p, n) ({(b, t). (b, t, True) \<in> set L} - {(p, s)})"
proof -
  have p: "p \<notin> fst ` set K" "p \<notin> fst ` set R" using d L by auto
  have "grow_at n p L = K @ (p, n, True) # (p + 24 + n, s + t - n, False) # R" unfolding L grow_at_split [OF p(1)] by simp
  then show ?thesis using p unfolding L by force
qed

lemma allocated_resized:
  assumes "{(b, t). (b, t, True) \<in> set (view k' bs')} = insert (a, n) ({(b, t). (b, t, True) \<in> set (view k bs)} - {(a, s)})"
  shows "allocated k' bs' = insert (a + 24, n) (allocated k bs - {(a + 24, s)})"
  unfolding allocated_view assms by (auto simp: image_iff)

lemma request_size_same: "unat sz \<le> 2 ^ 32 - 16 \<Longrightarrow> unat (request_size sz) < 2 ^ 32 - 12 \<and> unat sz \<le> unat (request_size sz)"
proof -
  assume l: "unat sz \<le> 2 ^ 32 - 16"
  then have u: "unat sz \<le> unat (request_size sz)" "unat (request_size sz) < max 12 (unat sz) + 4" using request_size_enough [of sz] by simp_all
  have "4 dvd unat (request_size sz)" by (rule request_size_bounds)
  then have "unat (request_size sz) \<noteq> 4294967283" by presburger
  moreover have "unat (request_size sz) < 4294967284" using u l by simp
  ultimately show ?thesis using u by simp
qed

lemma RT_ALIGN_aligned: "4 dvd unat (sz :: u32) \<Longrightarrow> RT_ALIGN sz 4 = sz"
proof -
  assume d: "4 dvd unat sz"
  have "unat sz < 2 ^ 32" using unsigned_less [where 'a = nat, of sz] by simp
  moreover have "unat sz \<noteq> 4294967293" "unat sz \<noteq> 4294967294" "unat sz \<noteq> 4294967295" using d by presburger+
  ultimately have "unat sz < 4294967293" by simp
  then have "uint sz < 4294967293" using uint_nat [of sz] by linarith
  then have "uint sz + 2 ^ 2 - 1 < 2 ^ 32" by simp
  then have b: "uint sz \<le> uint (RT_ALIGN sz (2 ^ 2))" "uint (RT_ALIGN sz (2 ^ 2)) < uint sz + 2 ^ 2"
    using RT_ALIGN_bounds [of 2 sz] by simp_all
  have "RT_ALIGN sz 4 = RT_ALIGN_DOWN (sz + 4 - 1) 4" by (simp add: RT_ALIGN_def RT_ALIGN_DOWN_def)
  then have "uint (RT_ALIGN sz 4) = uint (sz + 4 - 1) div 4 * 4" using RT_ALIGN_DOWN_uint [of "sz + 4 - 1" 2] by simp
  then have "4 dvd uint (RT_ALIGN sz 4)" by simp
  moreover have "4 dvd uint sz" using d uint_nat [of sz] by presburger
  ultimately have "uint (RT_ALIGN sz 4) = uint sz" using b unfolding power2_eq_square by simp presburger
  then show ?thesis by (simp add: word_uint_eq_iff)
qed

lemma request_size_idem: "request_size (request_size sz) = request_size sz"
proof -
  have "\<not> request_size sz < 12" using request_size_bounds(1) [of sz] by (simp add: word_less_nat_alt)
  then show ?thesis using RT_ALIGN_aligned [OF request_size_bounds(2), of sz]
    by (subst (1) request_size_def) (simp add: Let_def)
qed

lemma hbytes_only:
  fixes k :: "'a heap_sys_scheme"
  shows "lock_free h (k\<lparr>hbytes := f\<rparr>) \<longleftrightarrow> lock_free h k" "heap_ok h (k\<lparr>hbytes := f\<rparr>) bs fs \<longleftrightarrow> heap_ok h k bs fs"
    "allocated (k\<lparr>hbytes := f\<rparr>) bs = allocated k bs"
proof -
  let ?k = "k\<lparr>hbytes := f\<rparr>"
  have ki: "kinv ?k \<longleftrightarrow> kinv k" by (rule kinv_cong) simp_all
  have ty: "rt_object_get_type r ?k = rt_object_get_type r k" "ipc_flag n ?k = ipc_flag n k" for r n
    by (simp_all add: object_defs ipc_flag_def)
  show l: "lock_free h ?k \<longleftrightarrow> lock_free h k" by (simp add: lock_free_def sem_ok_def ipc_inv_def ki ty)
  show "heap_ok h ?k bs fs \<longleftrightarrow> heap_ok h k bs fs" by (simp add: heap_ok_def l ty)
  show "allocated ?k bs = allocated k bs" by (simp add: allocated_def view_def)
qed

text \<open>What a caller may rely on after its block was resized: its bytes, and everybody else's.\<close>

definition resized ::
  "addr \<Rightarrow> nat \<Rightarrow> u32 \<Rightarrow> addr \<Rightarrow> 'a heap_sys_scheme \<Rightarrow> addr list \<Rightarrow> 'a heap_sys_scheme \<Rightarrow> addr list \<Rightarrow> bool" where
  "resized p s n q k bs k' bs' \<longleftrightarrow>
     (\<exists>s'. unat n \<le> s' \<and> allocated k' bs' = insert (q, s') (allocated k bs - {(p, s)})) \<and>
     (\<forall>i < min s (unat n). hbytes k' (q + i) = hbytes k (p + i)) \<and>
     (\<forall>(c, t) \<in> allocated k bs - {(p, s)}. \<forall>i < t. hbytes k' (c + i) = hbytes k (c + i))"

lemma resized_in_place:
  assumes "allocated k' bs' = insert (p, s') (allocated k bs - {(p, s)})" "unat n \<le> s'" "hbytes k' = hbytes k"
  shows "resized p s n p k bs k' bs'"
  using assms by (auto simp: resized_def)

lemma allocated_at:
  assumes "(p, s) \<in> allocated k bs"
  obtains a where "p = a + 24" "(a, s, True) \<in> set (view k bs)"
  using assms by (auto simp: allocated_def)

lemma allocated_keyed:
  assumes "heap_ok h k bs fs" "(p, s) \<in> allocated k bs" "(p, t) \<in> allocated k bs"
  shows "s = t"
  using live_keyed [of h k p s t] heap_invI [OF assms(1)] assms(2,3) by simp

text \<open>The block moves: a new one, the bytes, and the old one back.\<close>

lemma realloc_move_ok:
  assumes ok: "heap_ok h k bs fs" and p: "(p, s) \<in> allocated k bs" and os: "unat os = s" "os < N" and n: "unat n \<le> unat N"
    and N: "request_size N = N"
  shows "\<exists>r k' bs' fs'. (do { r \<leftarrow> rt_memheap_alloc h N k; realloc_move p os N r }) = Some (Returns r, k') \<and> heap_ok h k' bs' fs' \<and>
    (case r of None \<Rightarrow> k' = k | Some q \<Rightarrow> q \<notin> fst ` allocated k bs \<and> resized p s n q k bs k' bs')"
proof -
  obtain r k1 where r: "rt_memheap_alloc h N k = Some (Returns r, k1)" using rt_memheap_alloc_returns [OF ok] by blast
  show ?thesis
  proof (cases r)
    case None
    have "k1 = k" using rt_memheap_alloc_none(1) [OF ok] r None by blast
    then show ?thesis using r None ok by (auto simp: realloc_move_def)
  next
    case (Some q)
    have r': "rt_memheap_alloc h N k = Some (Returns (Some q), k1)" using r Some by simp
    obtain bs1 fs1 s' where A: "heap_ok h k1 bs1 fs1" "unat N \<le> s'" "q \<notin> fst ` allocated k bs"
      "allocated k1 bs1 = insert (q, s') (allocated k bs)" "hbytes k1 = hbytes k"
      using rt_memheap_alloc_adds [OF ok r', unfolded N] by (elim exE conjE) (rule that; assumption)
    let ?k = "upd_bytes (rt_memcpy q p os) k1"
    have C: "heap_ok h ?k bs1 fs1" "allocated ?k bs1 = allocated k1 bs1"
      using A(1) by (simp_all add: upd_bytes_def hbytes_only)
    have "(p, s) \<in> allocated ?k bs1" using C(2) A(4) p by simp
    then obtain k' bs' fs' where F: "rt_memheap_free p ?k = Some (Returns (), k')" "heap_ok h k' bs' fs'"
      "allocated k' bs' = allocated ?k bs1 - {(p, s)}" "hbytes k' = hbytes ?k"
      using rt_memheap_free_removes [OF C(1)] by blast
    have pq: "p \<noteq> q" using A(3) p by force
    have al: "allocated k' bs' = insert (q, s') (allocated k bs - {(p, s)})" using F(3) C(2) A(4) pq by auto
    have run: "(do { r \<leftarrow> rt_memheap_alloc h N k; realloc_move p os N r }) = Some (Returns (Some q), k')"
      using r Some F(1) os(2) by (simp add: realloc_move_def realloc_drop_old_def)
    have sN: "s < unat N" using os by (simp add: word_less_nat_alt)
    have bt: "hbytes k' a = (if q \<le> a \<and> a < q + s then hbytes k (p + (a - q)) else hbytes k a)" for a
    proof -
      have "p + s + 24 \<le> q \<or> q + s' + 24 \<le> p" using view_apart [OF A(1), of p s q s'] A(4) p pq by simp
      then have "ahead q p (unat os)" using os(1) by (auto simp: ahead_def)
      from rt_memcpy_copied [OF this] show ?thesis using F(4) A(5) os(1) by (simp add: upd_bytes_def copied_def)
    qed
    have others: "hbytes k' (c + i) = hbytes k (c + i)" if c: "(c, t) \<in> allocated k bs" and i: "i < t" for c t i
    proof -
      have "c \<noteq> q" using A(3) c by force
      then have "c + t + 24 \<le> q \<or> q + s' + 24 \<le> c" using view_apart [OF A(1), of c t q s'] A(4) c by auto
      then show ?thesis using bt [of "c + i"] i sN A(2) by auto
    qed
    have "resized p s n q k bs k' bs'" unfolding resized_def
    proof (intro conjI)
      show "\<exists>s'. unat n \<le> s' \<and> allocated k' bs' = insert (q, s') (allocated k bs - {(p, s)})"
        using al n A(2) by (intro exI [of _ s']) simp
      show "\<forall>i < min s (unat n). hbytes k' (q + i) = hbytes k (p + i)" using bt by simp
      show "\<forall>(c, t) \<in> allocated k bs - {(p, s)}. \<forall>i < t. hbytes k' (c + i) = hbytes k (c + i)" using others by fast
    qed
    then show ?thesis using run F(2) A(3) by auto
  qed
qed

lemma rt_memheap_realloc_ok:
  assumes ok: "heap_ok h k bs fs" and p: "(p, s) \<in> allocated k bs" and n: "n \<noteq> 0" "unat n \<le> 2 ^ 32 - 16"
  shows "\<exists>r k' bs' fs'. rt_memheap_realloc h p n k = Some (Returns r, k') \<and> heap_ok h k' bs' fs' \<and>
    (case r of None \<Rightarrow> k' = k | Some q \<Rightarrow> q \<notin> fst ` (allocated k bs - {(p, s)}) \<and> resized p s n q k bs k' bs')"
proof -
  define N where "N = request_size n"
  have N: "unat n \<le> unat N" "unat N < 2 ^ 32 - 12" "12 \<le> unat N" "4 dvd unat N" "request_size N = N"
    using request_size_same [OF n(2)] request_size_bounds [of n] request_size_idem [of n] by (simp_all add: N_def)
  obtain a where a: "p = a + 24" "(a, s, True) \<in> set (view k bs)" by (rule allocated_at [OF p])
  note D = heap_okD [OF ok] and P = pool_okD [OF heap_okD(3) [OF ok]] and B = heap_ok_block [OF ok a(2)]
  have hd: "header_of p = a" "p \<noteq> 0" using B(5) a(1) by simp_all
  let ?os = "MEMITEM_SIZE (hitems k) a"
  have p0: "q \<notin> fst ` (allocated k bs - {(p, s)})" if "q = p \<or> q \<notin> fst ` allocated k bs" for q
  proof
    assume "q \<in> fst ` (allocated k bs - {(p, s)})"
    then obtain x where "x \<in> allocated k bs - {(p, s)}" "q = fst x" by (elim imageE)
    then have t: "(q, snd x) \<in> allocated k bs" "(q, snd x) \<noteq> (p, s)" by (cases x; simp)+
    then show False using that allocated_keyed [OF ok p, of "snd x"] by force
  qed
  have u: "used (hitems k) a" using B(3) by simp
  consider (grow) "?os < N" | (same) "N \<le> ?os" "unat ?os \<le> unat N + 36" | (shrink) "unat N + 36 < unat ?os"
    unfolding word_le_nat_alt word_less_nat_alt by linarith
  then show ?thesis
  proof cases
    case grow
    then have g: "unat ?os < unat N" by (simp add: word_less_nat_alt)
    obtain b H m where G: "grow_section h a ?os N (heaps k h) (hitems k) = Some (b, H, m)" "same_pool (heaps k h) H"
      "b \<longrightarrow> (\<exists>bs' fs'. pool_ok h H m bs' fs' \<and> blocks (used m) bs' = grow_at (unat N) a (blocks (used (hitems k)) bs))"
      "\<not> b \<longrightarrow> H = heaps k h \<and> m = hitems k"
      using grow_section_ok [OF D(3) B(1,2) u N(3,4) g N(2)] by blast
    have l: "locked h (grow_section h a ?os N) (upd_sem (heap_lock (heaps k h)) (\<lambda>s. s\<lparr>sem_value := sem_value s - 1\<rparr>) k) =
      Some (b, upd_heap h H m k)"
      using G(1,2) by (intro locked_free [OF D(1)]) (simp_all add: same_pool_def)
    have run: "rt_memheap_realloc h p n k = grow_locked h p ?os N
        (upd_sem (heap_lock (heaps k h)) (\<lambda>s. s\<lparr>sem_value := sem_value s - 1\<rparr>) k)"
      using grow D(2) n(1) hd by (simp add: rt_memheap_realloc_def lock_then_free [OF D(1)] Let_def flip: N_def)
    show ?thesis
    proof (cases b)
      case True
      then obtain bs' fs' where T: "pool_ok h H m bs' fs'" "blocks (used m) bs' = grow_at (unat N) a (view k bs)"
        using G(3) by (auto simp: view_def)
      have o: "heap_ok h (upd_heap h H m k) bs' fs'" by (rule heap_ok_section [OF ok T(1) G(2)])
      obtain pre q post where bs: "bs = pre @ a # q # post" by (rule shape_split [OF B(1,2)])
      have nu: "\<not> used (hitems k) q" using G(1) True shape_neighbours(1) [OF P(1) bs] by (auto simp: grow_section_def Let_def split: if_splits)
      then have "q \<noteq> last bs" using shape_okD(9) [OF P(1)] by auto
      then obtain q2 post2 where bs2: "post = q2 # post2" using bs by (cases post) auto
      have "view k bs = blocks (used (hitems k)) (pre @ [a]) @ (a, s, True) # (q, q2 - q - 24, False) # blocks (used (hitems k)) (q2 # post2)"
        using blocks_split [of "used (hitems k)" pre a "q # post"] bs bs2 u nu shape_neighbours(4) [OF P(1) bs] B(4) by (simp add: view_def)
      from allocated_grow [OF this heap_ok_view(2) [OF ok], of "unat N"]
      have al: "allocated (upd_heap h H m k) bs' = insert (p, unat N) (allocated k bs - {(p, s)})"
        unfolding a(1) by (intro allocated_resized) (simp add: T(2))
      have "rt_memheap_realloc h p n k = Some (Returns (Some p), upd_heap h H m k)"
        unfolding run using l True hd by (simp add: grow_locked_def)
      moreover have "resized p s n p k bs (upd_heap h H m k) bs'" using al N(1) by (rule resized_in_place) simp
      ultimately show ?thesis using o p0 by auto
    next
      case False
      then have kk: "upd_heap h H m k = k" using G(4) by simp
      have "rt_memheap_realloc h p n k = do { r \<leftarrow> rt_memheap_alloc h N k; realloc_move p ?os N r }"
        unfolding run using l False hd kk by (simp add: grow_locked_def)
      then show ?thesis using realloc_move_ok [OF ok p B(4) grow N(1,5)] p0 by (force split: option.splits)
    qed
  next
    case same
    have "a + s + 48 < 2 ^ 32" using view_inside [OF ok p] shape_okD(4) [OF P(1)] a(1) by simp
    then have w: "unat (N + 24 + 12) = unat N + 36" using same(1) B(4) by (simp add: word_le_nat_alt unat_add_small)
    have run: "rt_memheap_realloc h p n k = Some (Returns (Some p), k)"
      using same D(2) n(1) hd w by (simp add: rt_memheap_realloc_def Let_def word_le_nat_alt word_less_nat_alt flip: N_def)
    have "allocated k bs = insert (p, s) (allocated k bs - {(p, s)})" using p by auto
    moreover have "unat n \<le> s" using same(1) B(4) N(1) by (simp add: word_le_nat_alt)
    ultimately have "resized p s n p k bs k bs" by (intro resized_in_place) simp_all
    then show ?thesis using run ok p0 by auto
  next
    case shrink
    have "a + s + 48 < 2 ^ 32" using view_inside [OF ok p] shape_okD(4) [OF P(1)] a(1) by simp
    then have w: "unat (N + 24 + 12) = unat N + 36" using shrink B(4) by (simp add: unat_add_small)
    obtain H m where t: "shrink_section h a N (heaps k h) (hitems k) = (H, m)" by fastforce
    have sz: "unat N + 36 \<le> unat ?os" using shrink by simp
    obtain bs' fs' where T: "pool_ok h H m bs' fs'" "blocks (used m) bs' = shrink_at (unat N) a (view k bs)"
      using shrink_section_ok(1) [OF D(3) B(1,2) u N(3,4) sz t] by (auto simp: view_def)
    have same: "same_pool (heaps k h) H" by (rule shrink_section_ok(2) [OF D(3) B(1,2) u N(3,4) sz t])
    have o: "heap_ok h (upd_heap h H m k) bs' fs'" by (rule heap_ok_section [OF ok T(1) same])
    have l: "locked h (\<lambda>H m. Some ((), shrink_section h a N H m))
        (upd_sem (heap_lock (heaps k h)) (\<lambda>s. s\<lparr>sem_value := sem_value s - 1\<rparr>) k) = Some ((), upd_heap h H m k)"
      using same t by (intro locked_free [OF D(1)]) (simp_all add: same_pool_def)
    have "rt_memheap_realloc h p n k = Some (Returns (Some p), upd_heap h H m k)"
      using shrink D(2) n(1) hd w l
      by (simp add: rt_memheap_realloc_def Let_def word_le_nat_alt word_less_nat_alt lock_then_free [OF D(1)] shrink_locked_def flip: N_def)
    moreover obtain K R where "view k bs = K @ (a, s, True) # R" using a(2) by (meson split_list)
    from allocated_shrink [OF this heap_ok_view(2) [OF ok], of "unat N"]
    have "allocated (upd_heap h H m k) bs' = insert (p, unat N) (allocated k bs - {(p, s)})"
      unfolding a(1) by (intro allocated_resized) (simp add: T(2))
    then have "resized p s n p k bs (upd_heap h H m k) bs'" using N(1) by (rule resized_in_place) simp
    ultimately show ?thesis using o p0 by auto
  qed
qed

end
