(* ===== verification/HeapSys.thy ===== *)
theory HeapSys
  imports HeapUse
begin

text \<open>
  The heaps in the system: how a heap is created, what a call does that finds the lock of the heap
  taken and what it does when it is given the lock, and \<open>rt_malloc\<close>, \<open>rt_calloc\<close> on the system heap.
\<close>

lemma same_heap_fields:
  fixes k k' :: "'a heap_sys_scheme"
  assumes "kernel.more k' = kernel.more k"
  shows "hitems k' = hitems k" "heaps k' = heaps k" "hbytes k' = hbytes k" "sems k' = sems k"
  using assms by (cases k; cases k'; simp)+

subsection \<open>Creating a heap\<close>

lemma upd_sem_flag_heap [simp]:
  fixes k :: "'a heap_sys_scheme"
  shows "hitems (set_ipc_flag n f k) = hitems k" "heaps (set_ipc_flag n f k) = heaps k" "hbytes (set_ipc_flag n f k) = hbytes k"
    "hitems (snd (rt_ipc_object_init l k)) = hitems k" "heaps (snd (rt_ipc_object_init l k)) = heaps k"
    "hitems (registered ty r name k) = hitems k" "heaps (registered ty r name k) = heaps k"
  by (simp_all add: set_ipc_flag_def upd_obj_def rt_ipc_object_init_def registered_def container_insert_def)

lemma heap_object_init:
  fixes k :: "'a heap_sys_scheme"
  assumes k: "kinv k" "rt_current_thread k \<noteq> None" and l: "rt_scheduler_lock_nest k = 0" and ty: "ty \<in> set object_classes"
    and n: "Obj_ipc n \<notin> set (objects k ty)"
  shows "\<exists>k1. rt_object_init (Obj_ipc n) ty name k = Some (registered ty (Obj_ipc n) name k1) \<and>
    kinv (registered ty (Obj_ipc n) name k1) \<and> rt_current_thread k1 \<noteq> None \<and> objs k1 = objs k \<and> objects k1 = objects k \<and>
    rt_scheduler_lock_nest k1 = 0 \<and> hitems k1 = hitems k \<and> heaps k1 = heaps k \<and> kernel.more k1 = kernel.more k"
proof -
  obtain k1 where s: "rt_schedule k = Some k1" "rt_current_thread k1 \<noteq> None" using schedule_wakes [OF k] by blast
  have c: "rt_exit_critical (rt_enter_critical k) = Some k1" using enter_exit_critical [of k] l k(2) s(1) by simp
  have lk: "lock_ok k" using l by (simp add: lock_ok_def)
  have f: "sched_frame k k1" "kinv k1" using critical_section_kinv [OF k(1) lk] c by auto
  have i: "rt_object_init (Obj_ipc n) ty name k = Some (registered ty (Obj_ipc n) name k1)"
    using c ty n by (simp add: rt_object_init_def rt_object_get_information_def registered_def)
  have "kinv (registered ty (Obj_ipc n) name k1)" by (rule registered_kinv [OF f(2)]) (simp add: free_ref_def)
  then show ?thesis using i s(2) f(1) l same_heap_fields [of k1 k] by (intro exI [of _ k1]) (simp add: sched_frame_def)
qed

lemma rt_sem_init_heap:
  fixes k :: "'a heap_sys_scheme"
  assumes k: "kinv k" "rt_current_thread k \<noteq> None" and l: "rt_scheduler_lock_nest k = 0"
    and n: "Obj_ipc n \<notin> set (objects k RT_Object_Class_Semaphore)"
  shows "\<exists>k'. rt_sem_init n name 1 RT_IPC_FLAG_FIFO k = Some (RT_EOK, k') \<and> sem_ok n k' \<and> sem_value (sems k' n) = 1 \<and>
    hitems k' = hitems k \<and> heaps k' = heaps k \<and> (\<forall>m. m \<noteq> n \<longrightarrow> rt_object_get_type (Obj_ipc m) k' = rt_object_get_type (Obj_ipc m) k)"
proof -
  have cl: "RT_Object_Class_Semaphore \<in> set object_classes" by (simp add: object_classes_def)
  obtain k1 where i: "rt_object_init (Obj_ipc n) RT_Object_Class_Semaphore name k =
    Some (registered RT_Object_Class_Semaphore (Obj_ipc n) name k1)" "kinv (registered RT_Object_Class_Semaphore (Obj_ipc n) name k1)"
    "rt_current_thread k1 \<noteq> None" "objs k1 = objs k" "hitems k1 = hitems k" "heaps k1 = heaps k"
    using heap_object_init [OF k l cl n, of name] by (elim exE conjE) (rule that; assumption)
  let ?k = "registered RT_Object_Class_Semaphore (Obj_ipc n) name k1"
  have "kinv (snd (rt_ipc_object_init (SuspendQ n) ?k))" using i(2) by (rule rt_ipc_object_init_kinv) simp
  moreover have "rt_object_get_type (Obj_ipc m) ?k = (if m = n then RT_Object_Class_Semaphore else rt_object_get_type (Obj_ipc m) k)" for m
    using i(4) by (simp add: object_defs RT_Object_Class_Semaphore_def RT_Object_Class_Static_def)
  ultimately show ?thesis using i by (simp add: rt_sem_init_def sem_ok_def ipc_inv_def)
qed

lemma rt_memheap_init_ok:
  fixes k :: "'a heap_sys_scheme"
  assumes k: "kinv k" "rt_current_thread k \<noteq> None" and l: "rt_scheduler_lock_nest k = 0"
    and n: "Obj_ipc h \<notin> set (objects k RT_Object_Class_MemHeap)" "heap_lock (heaps k h) \<noteq> h"
      "Obj_ipc (heap_lock (heaps k h)) \<notin> set (objects k RT_Object_Class_Semaphore)"
    and st: "0 < st" "st + unat sz < 2 ^ 32" "60 \<le> unat (RT_ALIGN_DOWN sz 4)" "free_header (heaps k h) \<notin> {st..<st + unat sz}"
  shows "\<exists>k'. rt_memheap_init h name st sz k = Some (RT_EOK, k') \<and> heap_inv h k' \<and>
    heap_view h k' = [(st, unat (RT_ALIGN_DOWN sz 4) - 48, False)] \<and> live_blocks h k' = {}"
proof -
  have cl: "RT_Object_Class_MemHeap \<in> set object_classes" by (simp add: object_classes_def RT_Object_Class_MemHeap_def)
  obtain k1 where i: "rt_object_init (Obj_ipc h) RT_Object_Class_MemHeap name k =
    Some (registered RT_Object_Class_MemHeap (Obj_ipc h) name k1)" "kinv (registered RT_Object_Class_MemHeap (Obj_ipc h) name k1)"
    "rt_current_thread k1 \<noteq> None" "objs k1 = objs k" "objects k1 = objects k" "rt_scheduler_lock_nest k1 = 0"
    "hitems k1 = hitems k" "heaps k1 = heaps k"
    using heap_object_init [OF k l cl n(1), of name] by (elim exE conjE) (rule that; assumption)
  let ?k1 = "registered RT_Object_Class_MemHeap (Obj_ipc h) name k1"
  obtain H m where p: "init_pool h st sz (heaps k h) (hitems k) = (H, m)" by fastforce
  note I = init_pool_ok [OF st p]
  let ?k2 = "upd_heap h H m ?k1"
  have "kinv ?k2" "rt_current_thread ?k2 \<noteq> None" using i(2,3) by simp_all
  moreover have "rt_scheduler_lock_nest ?k2 = 0" using i(6) by (simp add: upd_heap_def)
  moreover have "Obj_ipc (heap_lock (heaps k h)) \<notin> set (objects ?k2 RT_Object_Class_Semaphore)"
    using n(3) i(5) by (simp add: RT_Object_Class_MemHeap_def RT_Object_Class_Semaphore_def)
  ultimately obtain k3 where s: "rt_sem_init (heap_lock (heaps k h)) name 1 RT_IPC_FLAG_FIFO ?k2 = Some (RT_EOK, k3)"
    "sem_ok (heap_lock (heaps k h)) k3" "sem_value (sems k3 (heap_lock (heaps k h))) = 1" "hitems k3 = m" "heaps k3 = (heaps k)(h := H)"
    "\<forall>n. n \<noteq> heap_lock (heaps k h) \<longrightarrow> rt_object_get_type (Obj_ipc n) k3 = rt_object_get_type (Obj_ipc n) ?k2"
    using rt_sem_init_heap [of ?k2 "heap_lock (heaps k h)" name] i(8) by auto
  have "rt_memheap_init h name st sz k = Some (RT_EOK, k3)" using i(1,7,8) p s(1) I(6) by (simp add: rt_memheap_init_def)
  moreover have "rt_object_get_type (Obj_ipc h) k3 = RT_Object_Class_MemHeap"
    using s(6) n(2) by (simp add: object_defs RT_Object_Class_MemHeap_def RT_Object_Class_Static_def)
  then have "heap_ok h k3 [st, st + unat (RT_ALIGN_DOWN sz 4) - 24] [st]"
    using s(2-5) I(1,6) by (simp add: heap_ok_def lock_free_def)
  from heap_invI [OF this] have "heap_inv h k3" "heap_view h k3 = [(st, unat (RT_ALIGN_DOWN sz 4) - 48, False)]" "live_blocks h k3 = {}"
    using I(2) s(4) by (auto simp: view_def allocated_def)
  ultimately show ?thesis by blast
qed

subsection \<open>A call that has to wait\<close>

text \<open>
  The lock is taken: the semaphore is 0, and the headers are as the last holder left them. A caller
  queues behind the others and the heap is untouched; when the lock is handed to it, it runs its
  critical section on the heap as it is then and hands the lock on.
\<close>

definition heap_held :: "nat \<Rightarrow> 'a heap_sys_scheme \<Rightarrow> addr list \<Rightarrow> addr list \<Rightarrow> bool" where
  "heap_held h k bs fs \<longleftrightarrow> sem_ok (heap_lock (heaps k h)) k \<and> ipc_flag (heap_lock (heaps k h)) k = RT_IPC_FLAG_FIFO \<and>
     sem_value (sems k (heap_lock (heaps k h))) = 0 \<and>
     rt_object_get_type (Obj_ipc h) k = RT_Object_Class_MemHeap \<and> pool_ok h (heaps k h) (hitems k) bs fs"

definition lock_queue :: "nat \<Rightarrow> 'a heap_sys_scheme \<Rightarrow> tid list" where
  "lock_queue h k = tlists k (SuspendQ (heap_lock (heaps k h)))"

lemma rt_sem_take_waits:
  assumes ok: "sem_ok n k" and v: "sem_value (sems k n) = 0" and fl: "ipc_flag n k = RT_IPC_FLAG_FIFO" and c: "caller t k"
  shows "\<exists>k'. rt_sem_take n (- 1) k = Some (Blocks t, k') \<and> sem_ok n k' \<and> ipc_frame k k' \<and>
    tlists k' (SuspendQ n) = tlists k (SuspendQ n) @ [t]"
proof -
  let ?k = "upd_thr t (set_error RT_EOK) k"
  have ki: "kinv ?k" "rt_current_thread ?k = Some t" "state_of ?k t = RT_THREAD_RUNNING"
    using ok c by (simp_all add: sem_ok_def ipc_inv_def caller_def)
  from ipc_wait_kinv [OF ki waiting_list_simps(1), of "ipc_flag n k" "- 1" n] fl obtain k' where
    w: "ipc_wait (SuspendQ n) t (ipc_flag n k) (- 1) ?k = Some k'" "kinv k'" "rt_current_thread k' \<noteq> None"
    "tlists k' (SuspendQ n) = queued (ipc_flag n k) (prio_of ?k) t (tlists ?k (SuspendQ n))" "waits (SuspendQ n) t ?k k'"
    by auto
  have f: "ipc_frame k k'" by (rule ipc_frame_trans [OF set_error_ipc waits_frame [OF w(5)]])
  have "rt_sem_take n (- 1) k = Some (Blocks t, k')"
    using ok v c w(1) by (simp add: rt_sem_take_def sem_ok_def)
  moreover have "sem_ok n k'" using v by (intro sem_ok_frame [OF ok w(2,3) f]) simp
  moreover have "tlists k' (SuspendQ n) = tlists k (SuspendQ n) @ [t]" using w(4) fl by (simp add: queued_def)
  ultimately show ?thesis using f by blast
qed

lemma heap_held_frame:
  assumes "heap_held h k bs fs" "sem_ok (heap_lock (heaps k h)) k'" "ipc_frame k k'"
  shows "heap_held h k' bs fs" "hitems k' = hitems k" "heaps k' = heaps k" "hbytes k' = hbytes k"
proof -
  have "kernel.more k' = kernel.more k" using assms(3) by (simp add: ipc_frame_def)
  note f = same_heap_fields [OF this]
  show "hitems k' = hitems k" "heaps k' = heaps k" "hbytes k' = hbytes k" by (fact f)+
  show "heap_held h k' bs fs" using assms ipc_frame_obj [OF assms(3)] f by (simp add: heap_held_def)
qed

lemma rt_memheap_alloc_waits:
  assumes held: "heap_held h k bs fs" and c: "caller t k" and sz: "request_size n < available_size (heaps k h)"
  shows "\<exists>k'. rt_memheap_alloc h n k = Some (Blocks (t, request_size n), k') \<and> heap_held h k' bs fs \<and>
    hitems k' = hitems k \<and> heaps k' = heaps k \<and> hbytes k' = hbytes k \<and> lock_queue h k' = lock_queue h k @ [t]"
proof -
  let ?l = "heap_lock (heaps k h)"
  have D: "sem_ok ?l k" "sem_value (sems k ?l) = 0" "ipc_flag ?l k = RT_IPC_FLAG_FIFO"
    "rt_object_get_type (Obj_ipc h) k = RT_Object_Class_MemHeap" using held by (simp_all add: heap_held_def)
  obtain k' where k': "rt_sem_take ?l (- 1) k = Some (Blocks t, k')" "sem_ok ?l k'" "ipc_frame k k'"
    "tlists k' (SuspendQ ?l) = tlists k (SuspendQ ?l) @ [t]" using rt_sem_take_waits [OF D(1-3) c] by blast
  note f = heap_held_frame [OF held k'(2,3)]
  have "rt_memheap_alloc h n k = Some (Blocks (t, request_size n), k')"
    using D(4) sz k'(1) by (simp add: rt_memheap_alloc_def lock_then_def)
  then show ?thesis using f k'(4) by (simp add: lock_queue_def)
qed

text \<open>The lock after a critical section: free, or in the hands of the first in the queue.\<close>

definition handed_on :: "nat \<Rightarrow> 'a heap_sys_scheme \<Rightarrow> 'a heap_sys_scheme \<Rightarrow> addr list \<Rightarrow> addr list \<Rightarrow> bool" where
  "handed_on h k k' bs fs \<longleftrightarrow> (case lock_queue h k of
     [] \<Rightarrow> heap_ok h k' bs fs
   | t # ts \<Rightarrow> heap_held h k' bs fs \<and> lock_queue h k' = ts \<and> runnable (state_of k' t))"

lemma locked_held:
  assumes held: "heap_held h k bs fs" and f: "f (heaps k h) (hitems k) = Some (r, H, m)"
    and ok: "pool_ok h H m bs' fs'" "same_pool (heaps k h) H"
  shows "\<exists>k'. locked h f k = Some (r, k') \<and> handed_on h k k' bs' fs' \<and> hitems k' = m \<and> hbytes k' = hbytes k"
proof -
  let ?l = "heap_lock (heaps k h)" and ?k = "upd_heap h H m k"
  have D: "sem_ok ?l k" "sem_value (sems k ?l) = 0" "ipc_flag ?l k = RT_IPC_FLAG_FIFO"
    "rt_object_get_type (Obj_ipc h) k = RT_Object_Class_MemHeap" using held by (simp_all add: heap_held_def)
  have H: "heap_lock H = ?l" using ok(2) by (simp add: same_pool_def)
  have h: "heap_held h ?k bs' fs'" using D H ok(1) by (simp add: heap_held_def)
  have S: "rt_object_get_type (Obj_ipc ?l) k = RT_Object_Class_Semaphore" "kinv k" "rt_current_thread k \<noteq> None"
    using D(1) by (simp_all add: sem_ok_def ipc_inv_def)
  show ?thesis
  proof (cases "tlists k (SuspendQ ?l)")
    case Nil
    let ?k' = "upd_sem ?l (\<lambda>s. s\<lparr>sem_value := sem_value s + 1\<rparr>) ?k"
    have "sem_ok ?l ?k'" using D(1) Nil by (intro sem_ok_upd) simp_all
    then have "heap_ok h ?k' bs' fs'" using D(2,4) H ok(1) by (simp add: heap_ok_def lock_free_def)
    then show ?thesis using f H Nil S(1) by (simp add: locked_def rt_sem_release_def handed_on_def lock_queue_def)
  next
    case (Cons t ts)
    have q: "kinv ?k" "rt_current_thread ?k \<noteq> None" "tlists ?k (SuspendQ ?l) = t # ts" using S Cons by simp_all
    obtain k' where w: "ipc_wake (SuspendQ ?l) ?k = Some k'" "kinv k'" "rt_current_thread k' \<noteq> None"
      "tlists k' (SuspendQ ?l) = ts" "wakes (SuspendQ ?l) {t} ?k k'"
      using ipc_wake_kinv [OF q(1,2) waiting_list_simps(1) q(3)] by blast
    have "sem_ok ?l ?k" using D(1) by simp
    then have "sem_ok ?l k'" using D(2) by (intro sem_ok_frame [OF _ w(2,3) wakes_frame [OF w(5)]]) simp_all
    then have F: "heap_held h k' bs' fs'" "hitems k' = m" "heaps k' = (heaps k)(h := H)" "hbytes k' = hbytes k"
      using heap_held_frame [OF h _ wakes_frame [OF w(5)]] H by simp_all
    have "locked h f k = Some (r, k')" using f H Cons S(1) w(1) by (simp add: locked_def rt_sem_release_def)
    then show ?thesis using F w(4) wakes_runnable [OF w(5), of t] Cons H by (simp add: handed_on_def lock_queue_def)
  qed
qed

lemma rt_memheap_alloc_resumes:
  assumes held: "heap_held h k bs fs" and t: "error (thr k t) = RT_EOK"
  shows "\<exists>r k' bs' fs'. rt_memheap_alloc_resumed h (t, request_size n) k = Some (Returns r, k') \<and>
    handed_on h k k' bs' fs' \<and> hbytes k' = hbytes k \<and>
    (case r of None \<Rightarrow> view k' bs' = view k bs \<and> fits (hitems k) (request_size n) fs = None
     | Some p \<Rightarrow> fits (hitems k) (request_size n) fs = Some (p - 24) \<and>
         view k' bs' = take_at (unat (request_size n)) (p - 24) (view k bs))"
proof -
  have ok: "pool_ok h (heaps k h) (hitems k) bs fs" using held by (simp add: heap_held_def)
  note A = alloc_section_ok [OF ok request_size_bounds, of n]
  have run: "rt_memheap_alloc_resumed h (t, request_size n) k = alloc_locked h (request_size n) k"
    using t by (simp add: rt_memheap_alloc_resumed_def lock_resumed_def rt_sem_take_resumed_def Let_def)
  show ?thesis
  proof (cases "fits (hitems k) (request_size n) fs")
    case None
    then have "alloc_section h (request_size n) (heaps k h) (hitems k) = Some (None, heaps k h, hitems k)" using A by simp
    from locked_held [where f = "alloc_section h (request_size n)", OF held this ok] obtain k' where
      k': "locked h (alloc_section h (request_size n)) k = Some (None, k')" "handed_on h k k' bs fs" "hitems k' = hitems k" "hbytes k' = hbytes k"
      by auto
    then show ?thesis using None run by (auto simp: alloc_locked_def view_def)
  next
    case (Some p)
    then obtain H m bs' fs' where s: "alloc_section h (request_size n) (heaps k h) (hitems k) = Some (Some (p + 24), H, m)"
      "pool_ok h H m bs' fs'" "same_pool (heaps k h) H" "blocks (used m) bs' = take_at (unat (request_size n)) p (blocks (used (hitems k)) bs)"
      using A by auto
    from locked_held [where f = "alloc_section h (request_size n)", OF held s(1-3)] obtain k' where
      k': "locked h (alloc_section h (request_size n)) k = Some (Some (p + 24), k')" "handed_on h k k' bs' fs'" "hitems k' = m" "hbytes k' = hbytes k"
      by auto
    then show ?thesis using Some run s(4)
      by (intro exI [of _ "Some (p + 24)"] exI [of _ k'] exI [of _ bs'] exI [of _ fs']) (simp add: alloc_locked_def view_def)
  qed
qed

subsection \<open>How large the block is\<close>

lemma rt_memheap_alloc_size:
  assumes ok: "heap_ok h k bs fs" and r: "rt_memheap_alloc h sz k = Some (Returns (Some p), k')"
  shows "\<exists>bs' fs' s. heap_ok h k' bs' fs' \<and> allocated k' bs' = insert (p, s) (allocated k bs) \<and> p \<notin> fst ` allocated k bs \<and>
    unat (request_size sz) \<le> s \<and> s < unat (request_size sz) + 36 \<and> hbytes k' = hbytes k"
proof -
  let ?n = "unat (request_size sz)"
  obtain bs' fs' s t where A: "heap_ok h k' bs' fs'" "?n \<le> s" "p \<notin> fst ` allocated k bs" "allocated k' bs' = insert (p, s) (allocated k bs)"
    "hbytes k' = hbytes k" "24 < p" "view k' bs' = take_at ?n (p - 24) (view k bs)" "(p - 24, t, False) \<in> set (view k bs)"
    using rt_memheap_alloc_adds [OF ok r] by (elim exE conjE) (rule that; assumption)
  have "(p, s) \<in> allocated k' bs'" using A(4) by simp
  then have "(p - 24, s) \<in> {(b, u). (b, u, True) \<in> set (view k' bs')}" using A(6) by (auto simp: allocated_def)
  then have "(p - 24, s) = (p - 24, if ?n + 36 \<le> t then ?n else t) \<or> (p - 24, s, True) \<in> set (view k bs)"
    unfolding A(7) allocated_take [OF A(8) heap_ok_view(2) [OF ok]] by auto
  moreover have "(p - 24, s, True) \<notin> set (view k bs)"
    using eq_key_imp_eq_value [OF heap_ok_view(2) [OF ok], of "p - 24" "(s, True)" "(t, False)"] A(8) by auto
  ultimately have "s < ?n + 36" by (auto split: if_splits)
  then show ?thesis using A by (intro exI [of _ bs'] exI [of _ fs'] exI [of _ s]) simp
qed

text \<open>A request in the last three bytes of the address range wraps to 0 and is served with the smallest block.\<close>

lemma rt_memheap_alloc_wraps:
  assumes inv: "heap_inv h k" and room: "(a, t, False) \<in> set (heap_view h k)" "12 < available_size (heaps k h)"
    and sz: "2 ^ 32 - 4 < unat sz"
  shows "\<exists>p k' s. rt_memheap_alloc h sz k = Some (Returns (Some p), k') \<and> heap_inv h k' \<and> (p, s) \<in> live_blocks h k' \<and> s < 48"
proof -
  obtain bs fs where B: "heap_ok h k bs fs" "heap_view h k = view k bs" by (rule heap_invE [OF inv])
  have n: "request_size sz = 12" by (rule request_size_wraps [OF sz])
  have "12 \<le> t" using heap_ok_block(8) [OF B(1)] room(1) B(2) by simp
  obtain r k' where r: "rt_memheap_alloc h sz k = Some (Returns r, k')" using rt_memheap_alloc_returns [OF B(1)] by blast
  have "r \<noteq> None"
  proof
    assume "r = None"
    then have "t < 12" using rt_memheap_alloc_none(2) [OF B(1), of sz k' a t] r room B(2) n by simp
    then show False using \<open>12 \<le> t\<close> by simp
  qed
  then obtain p where p: "r = Some p" by auto
  obtain bs' fs' s where "heap_ok h k' bs' fs'" "allocated k' bs' = insert (p, s) (allocated k bs)" "s < unat (request_size sz) + 36"
    using rt_memheap_alloc_size [OF B(1) r [unfolded p]] by (elim exE conjE) (rule that; assumption)
  then show ?thesis using r p n heap_invI [of h k' bs' fs'] by auto
qed

subsection \<open>The system heap\<close>

lemma rt_malloc_system:
  "rt_memheap_alloc system_heap sz k = Some (Returns (Some p), k') \<Longrightarrow> rt_malloc sz k = Some (Returns (Some p), k')"
  by (simp add: rt_malloc_def)

text \<open>The block of \<open>rt_calloc\<close> is cleared and nobody else's is touched.\<close>

lemma rt_calloc_clears:
  assumes inv: "heap_inv system_heap k" and r: "rt_memheap_alloc system_heap (count * sz) k = Some (Returns (Some p), k1)"
    and sz: "unat count * unat sz \<le> 2 ^ 32 - 4"
  shows "\<exists>k' s. rt_calloc count sz k = Some (Returns (Some p), k') \<and> heap_inv system_heap k' \<and>
    live_blocks system_heap k' = insert (p, s) (live_blocks system_heap k) \<and> unat count * unat sz \<le> s \<and>
    (\<forall>i < unat count * unat sz. hbytes k' (p + i) = 0) \<and>
    (\<forall>(c, t) \<in> live_blocks system_heap k. \<forall>i < t. hbytes k' (c + i) = hbytes k (c + i))"
proof -
  obtain bs fs where B: "heap_ok system_heap k bs fs" "live_blocks system_heap k = allocated k bs" by (rule heap_invE [OF inv])
  obtain bs1 fs1 s where A: "heap_ok system_heap k1 bs1 fs1" "allocated k1 bs1 = insert (p, s) (allocated k bs)" "p \<notin> fst ` allocated k bs"
    "unat (request_size (count * sz)) \<le> s" "hbytes k1 = hbytes k"
    using rt_memheap_alloc_size [OF B(1) r] by (elim exE conjE) (rule that; assumption)
  have u: "unat (count * sz) = unat count * unat sz" using sz by (simp add: unat_mult_lem [symmetric])
  let ?k = "upd_bytes (rt_memset p 0 (count * sz)) k1"
  have run: "rt_calloc count sz k = Some (Returns (Some p), ?k)" using rt_malloc_system [OF r] by (simp add: rt_calloc_def)
  have o: "heap_ok system_heap ?k bs1 fs1" "allocated ?k bs1 = allocated k1 bs1"
    using A(1) by (simp_all add: upd_bytes_def hbytes_only)
  have sz': "unat count * unat sz \<le> s" using request_size_enough [of "count * sz"] A(4) u sz by simp
  have "hbytes ?k (c + i) = hbytes k (c + i)" if c: "(c, t) \<in> allocated k bs" and i: "i < t" for c t i
  proof -
    have "c \<noteq> p" using A(3) c by force
    then have "c + t + 24 \<le> p \<or> p + s + 24 \<le> c" using view_apart [OF A(1), of c t p s] A(2) c by auto
    then show ?thesis using i sz' u A(5) by (auto simp: upd_bytes_def rt_memset_filled filled_def)
  qed
  moreover have "\<forall>i < unat count * unat sz. hbytes ?k (p + i) = 0" using u by (simp add: upd_bytes_def rt_memset_filled filled_def)
  ultimately show ?thesis using run heap_invI [OF o(1)] o(2) A(2) B(2) sz' by (intro exI [of _ ?k] exI [of _ s]) auto
qed

end
