(* ===== verification/DemoHeap.thy ===== *)
theory DemoHeap
  imports DemoIpc HeapSys
begin

text \<open>
  The small system with a heap: heap 0 of 1024 bytes at 0x1000, whose lock is the semaphore 9, before
  and after \<open>rt_memheap_init\<close>, with one block in use, and while somebody holds the lock.
\<close>

definition demo_bare_heap :: rt_memheap where
  "demo_bare_heap = \<lparr>start_addr = 0, pool_size = 0, available_size = 0, max_used_size = 0, block_list = 0, free_list = 0,
     free_header = 0x100, heap_lock = 9\<rparr>"

definition demo_bare :: heap_sys where
  "demo_bare = ipc.extend demo (heap_sys.fields
     (\<lambda>_. \<lparr>magic = 0, pool_ptr = 0, item_next = 0, item_prev = 0, next_free = 0, prev_free = 0\<rparr>)
     (\<lambda>_. demo_bare_heap) (\<lambda>_. 0))"

definition demo_heap :: heap_sys where
  "demo_heap = (let (H, m) = init_pool 0 0x1000 0x400 (heaps demo_bare 0) (hitems demo_bare) in
     upd_heap 0 H m demo_bare
       \<lparr>objs := demo_object(Obj_ipc 0 := \<lparr>oname = ''heap'', otype = 7 OR RT_Object_Class_Static, oflag = 0\<rparr>,
          Obj_ipc 9 := \<lparr>oname = ''heap'', otype = RT_Object_Class_Semaphore OR RT_Object_Class_Static, oflag = 0\<rparr>),
        sems := (\<lambda>_. \<lparr>sem_value = 1\<rparr>)\<rparr>)"

lemma demo_bare_sel [simp]:
  "objs demo_bare = demo_object" "objects demo_bare = demo_objects" "thr demo_bare = demo_thread" "tlists demo_bare = demo_lists"
  "rt_current_thread demo_bare = Some 2" "rt_interrupt_nest demo_bare = 0" "rt_scheduler_lock_nest demo_bare = 0"
  "rt_thread_ready_priority_group demo_bare = priority_mask 31 OR priority_mask 10" "rt_timer_list demo_bare = [Thread_timer 4]"
  "timers demo_bare = timers demo" "heaps demo_bare h = demo_bare_heap"
  by (simp_all add: demo_bare_def demo_def ipc.defs heap_sys.defs)

lemma kinv_demo_bare: "kinv demo_bare"
  using kinv_demo kinv_cong [of demo_bare demo] by simp

lemma demo_heap_sel [simp]:
  "thr demo_heap = demo_thread" "tlists demo_heap = demo_lists" "rt_current_thread demo_heap = Some 2" "rt_interrupt_nest demo_heap = 0"
  "objects demo_heap = demo_objects" "sems demo_heap n = \<lparr>sem_value = 1\<rparr>" "rt_scheduler_lock_nest demo_heap = 0"
  "rt_object_get_type (Obj_ipc 0) demo_heap = RT_Object_Class_MemHeap"
  "rt_object_get_type (Obj_ipc 9) demo_heap = RT_Object_Class_Semaphore"
  "ipc_flag 9 demo_heap = RT_IPC_FLAG_FIFO"
  by (simp_all add: demo_heap_def split_beta upd_heap_def object_defs ipc_flag_def RT_Object_Class_MemHeap_def
      RT_Object_Class_Static_def RT_Object_Class_Semaphore_def RT_IPC_FLAG_FIFO_def)

lemma kinv_demo_heap: "kinv demo_heap"
  by (rule objects_irrelevant_kinv [OF kinv_demo_bare]) (simp_all add: demo_heap_def split_beta upd_heap_def)

lemma demo_heap_caller: "caller 2 demo_heap"
  using demo_caller by (simp add: caller_def)

lemma demo_aligned: "RT_ALIGN_DOWN (0x400 :: u32) 4 = 0x400"
  by (simp add: RT_ALIGN_DOWN_def)

lemma demo_heap_pool:
  "pool_ok 0 (heaps demo_heap 0) (hitems demo_heap) [0x1000, 0x13e8] [0x1000]"
  "view demo_heap [0x1000, 0x13e8] = [(0x1000, 976, False)]" "heap_lock (heaps demo_heap 0) = 9"
proof -
  obtain H m where p: "init_pool 0 0x1000 0x400 demo_bare_heap (hitems demo_bare) = (H, m)" by fastforce
  note I = init_pool_ok [OF _ _ _ _ p]
  have "heaps demo_heap 0 = H" "hitems demo_heap = m" using p by (simp_all add: demo_heap_def)
  then show "pool_ok 0 (heaps demo_heap 0) (hitems demo_heap) [0x1000, 0x13e8] [0x1000]"
    "view demo_heap [0x1000, 0x13e8] = [(0x1000, 976, False)]" "heap_lock (heaps demo_heap 0) = 9"
    using I by (simp_all add: demo_aligned demo_bare_heap_def view_def)
qed

lemma demo_heap_ok: "heap_ok 0 demo_heap [0x1000, 0x13e8] [0x1000]"
  using demo_heap_pool kinv_demo_heap
  by (simp add: heap_ok_def lock_free_def sem_ok_def ipc_inv_def demo_lists_def)

lemma demo_heap_inv: "heap_inv 0 demo_heap" "heap_view 0 demo_heap = [(0x1000, 976, False)]" "live_blocks 0 demo_heap = {}"
  using heap_invI [OF demo_heap_ok] demo_heap_pool(2) by (auto simp: allocated_def)

lemma demo_heap_available: "available_size (heaps demo_heap 0) = 976"
proof -
  have "unat (available_size (heaps demo_heap 0)) = 976"
    using heap_ok_view(3) [OF demo_heap_ok] demo_heap_pool(2) by simp
  then show ?thesis by (simp add: word_unat_eq_iff)
qed

text \<open>One block of 100 bytes, at the front.\<close>

definition demo_heap_used :: heap_sys where
  "demo_heap_used = snd (the (rt_memheap_alloc 0 100 demo_heap))"

lemma demo_alloc: "rt_memheap_alloc 0 100 demo_heap = Some (Returns (Some 0x1018), demo_heap_used)"
  and demo_heap_used_inv: "heap_inv 0 demo_heap_used" "live_blocks 0 demo_heap_used = {(0x1018, 100)}"
    "heap_view 0 demo_heap_used = [(0x1000, 100, True), (0x107c, 852, False)]"
proof -
  have n: "request_size 100 = 100" by (simp add: request_size_def RT_ALIGN_def)
  obtain r k' where r: "rt_memheap_alloc 0 100 demo_heap = Some (Returns r, k')"
    using rt_memheap_alloc_returns [OF demo_heap_ok] by blast
  have "r \<noteq> None"
  proof
    assume "r = None"
    then have "976 < unat (request_size 100)"
      using rt_memheap_alloc_none(2) [OF demo_heap_ok, of 100 k' "0x1000" 976] r demo_heap_pool(2) demo_heap_available n by simp
    then show False using n by simp
  qed
  then obtain p where p: "r = Some p" by auto
  obtain bs' fs' s t where A: "heap_ok 0 k' bs' fs'" "24 < p" "view k' bs' = take_at 100 (p - 24) (view demo_heap [0x1000, 0x13e8])"
    "(p - 24, t, False) \<in> set (view demo_heap [0x1000, 0x13e8])"
    using rt_memheap_alloc_adds [OF demo_heap_ok r [unfolded p]] n by (elim exE conjE) (rule that, simp_all)
  have a: "p = 0x1018" using A(2,4) demo_heap_pool(2) by auto
  show al: "rt_memheap_alloc 0 100 demo_heap = Some (Returns (Some 0x1018), demo_heap_used)"
    using r p a by (simp add: demo_heap_used_def)
  then have k': "k' = demo_heap_used" using r p by simp
  have v: "view k' bs' = [(0x1000, 100, True), (0x107c, 852, False)]" using A(3) a demo_heap_pool(2) by simp
  show "heap_inv 0 demo_heap_used" "live_blocks 0 demo_heap_used = {(0x1018, 100)}"
    "heap_view 0 demo_heap_used = [(0x1000, 100, True), (0x107c, 852, False)]"
    using heap_invI [OF A(1)] v k' by (auto simp: allocated_def)
qed

text \<open>Somebody holds the lock.\<close>

definition demo_heap_held :: heap_sys where
  "demo_heap_held = upd_sem 9 (\<lambda>s. s\<lparr>sem_value := 0\<rparr>) demo_heap"

lemma demo_heap_held_facts:
  "heap_held 0 demo_heap_held [0x1000, 0x13e8] [0x1000]" "caller 2 demo_heap_held" "lock_queue 0 demo_heap_held = []"
  "available_size (heaps demo_heap_held 0) = 976" "error (thr demo_heap_held 2) = 0" "fits (hitems demo_heap_held) 100 [0x1000] = Some 0x1000"
proof -
  have "kinv demo_heap_held" using kinv_demo_heap by (simp add: demo_heap_held_def)
  then show "heap_held 0 demo_heap_held [0x1000, 0x13e8] [0x1000]"
    using demo_heap_pool(1,3) by (simp add: heap_held_def sem_ok_def ipc_inv_def demo_lists_def demo_heap_held_def)
  show "caller 2 demo_heap_held" using demo_heap_caller by (simp add: demo_heap_held_def caller_def)
  show "lock_queue 0 demo_heap_held = []" "available_size (heaps demo_heap_held 0) = 976" "error (thr demo_heap_held 2) = 0"
    using demo_heap_pool(3) demo_heap_available by (simp_all add: lock_queue_def demo_heap_held_def demo_lists_def demo_thread_def Let_def)
  have "unat (MEMITEM_SIZE (hitems demo_heap) 0x1000) = 976"
    using heap_ok_block(4) [OF demo_heap_ok, of "0x1000" 976 False] demo_heap_pool(2) by simp
  then show "fits (hitems demo_heap_held) 100 [0x1000] = Some 0x1000"
    by (simp add: fits_def demo_heap_held_def word_le_nat_alt)
qed

end
