(* ===== verification/HeapReach.thy ===== *)
theory HeapReach
  imports HeapSys
begin

text \<open>
  The critical sections of a heap in any order, by any number of callers: a step relation on the
  headers, and the invariant at every state it reaches. A caller may free or resize a block of the
  pool that is in use; the second half of a \<open>rt_memheap_realloc\<close> that moves a block is an
  allocation and a release like any other.
\<close>

definition pool_headers :: "rt_memheap \<Rightarrow> items \<Rightarrow> addr list" where
  "pool_headers H m = walk (unat (pool_size H)) m (start_addr H) (start_addr H)"

definition client_block :: "rt_memheap \<Rightarrow> items \<Rightarrow> addr \<Rightarrow> bool" where
  "client_block H m p \<longleftrightarrow> p \<in> set (butlast (pool_headers H m)) \<and> RT_MEMHEAP_IS_USED m p"

inductive pool_step :: "nat \<Rightarrow> rt_memheap \<times> items \<Rightarrow> rt_memheap \<times> items \<Rightarrow> bool" for h where
  allocs: "alloc_section h (request_size n) H m = Some (r, H', m') \<Longrightarrow> pool_step h (H, m) (H', m')"
| frees: "\<lbrakk>client_block H m p; free_section p H m = (H', m')\<rbrakk> \<Longrightarrow> pool_step h (H, m) (H', m')"
| grows: "\<lbrakk>client_block H m p; MEMITEM_SIZE m p < request_size n; unat n \<le> 2 ^ 32 - 16;
    grow_section h p (MEMITEM_SIZE m p) (request_size n) H m = Some (b, H', m')\<rbrakk> \<Longrightarrow> pool_step h (H, m) (H', m')"
| shrinks: "\<lbrakk>client_block H m p; request_size n + 24 + 12 < MEMITEM_SIZE m p; request_size n \<le> MEMITEM_SIZE m p;
    shrink_section h p (request_size n) H m = (H', m')\<rbrakk> \<Longrightarrow> pool_step h (H, m) (H', m')"

inductive_cases pool_stepE: "pool_step h x y"

inductive pool_reach :: "nat \<Rightarrow> rt_memheap \<times> items \<Rightarrow> bool" for h where
  created: "\<lbrakk>0 < st; st + unat sz < 2 ^ 32; 60 \<le> unat (RT_ALIGN_DOWN sz 4); free_header H \<notin> {st..<st + unat sz};
    init_pool h st sz H m = x\<rbrakk> \<Longrightarrow> pool_reach h x"
| steps: "\<lbrakk>pool_reach h x; pool_step h x y\<rbrakk> \<Longrightarrow> pool_reach h y"

lemma pool_headers_eq:
  assumes "pool_ok h H m bs fs"
  shows "pool_headers H m = bs"
proof -
  note S = shape_okD [OF pool_okD(1) [OF assms]]
  have bs: "bs = start_addr H # tl bs" "bs \<noteq> []" using S(6,7) by (cases bs; auto)+
  have "length (tl bs) < unat (pool_size H)"
    using spaced_length [OF S(11) bs(2)] S(7,8) by simp
  then have "pool_headers H m = start_addr H # tl bs"
    unfolding pool_headers_def using S(10) by (intro walk_path) (simp_all add: dlist_def)
  then show ?thesis using bs(1) by simp
qed

lemma section_of_block:
  assumes "pool_ok h H m bs fs" "client_block H m p"
  shows "p \<in> set bs" "p \<noteq> last bs" "RT_MEMHEAP_IS_USED m p"
proof -
  have p: "p \<in> set (butlast bs)" "RT_MEMHEAP_IS_USED m p" using assms pool_headers_eq [OF assms(1)] by (simp_all add: client_block_def)
  then show "p \<in> set bs" "RT_MEMHEAP_IS_USED m p" by (simp_all add: in_set_butlastD)
  have "distinct bs" by (rule spaced_distinct [OF shape_okD(11) [OF pool_okD(1) [OF assms(1)]]])
  moreover have "bs \<noteq> []" using p(1) by auto
  ultimately show "p \<noteq> last bs" using p(1) by (cases bs rule: rev_cases) auto
qed

lemma small_request: "\<lbrakk>request_size n + 24 + 12 < s; request_size n \<le> s; unat s + 48 < 2 ^ 32\<rbrakk> \<Longrightarrow> unat (request_size n) + 36 \<le> unat s"
proof -
  assume a: "request_size n + 24 + 12 < s" "request_size n \<le> s" "unat s + 48 < 2 ^ 32"
  then have "unat (request_size n + 24 + 12) = unat (request_size n) + 36" by (simp add: word_le_nat_alt unat_add_small)
  then show ?thesis using a(1) by (simp add: word_less_nat_alt)
qed

lemma pool_step_ok:
  assumes ok: "pool_ok h H m bs fs" and s: "pool_step h (H, m) (H', m')"
  shows "\<exists>bs' fs'. pool_ok h H' m' bs' fs'"
  using s
proof (cases rule: pool_step.cases)
  case (allocs n r)
  then show ?thesis using alloc_section_ok [OF ok request_size_bounds, of n] ok by (auto split: option.splits)
next
  case (frees p)
  then show ?thesis using free_section_ok(1) [OF ok section_of_block [OF ok frees(1)] frees(2)] by blast
next
  case (grows p n b)
  have "unat (request_size n) < 2 ^ 32 - 12" using request_size_same [OF grows(3)] by simp
  moreover have "unat (MEMITEM_SIZE m p) < unat (request_size n)" using grows(2) by (simp add: word_less_nat_alt)
  ultimately show ?thesis
    using grow_section_ok [OF ok section_of_block [OF ok grows(1)] request_size_bounds, of n] grows(4) ok by fastforce
next
  case (shrinks p n)
  note U = section_of_block [OF ok shrinks(1)] and S = pool_okD(1) [OF ok]
  obtain pre q post where bs: "bs = pre @ p # q # post" by (rule shape_split [OF U(1,2)])
  have "q + 24 < 2 ^ 32" "unat (MEMITEM_SIZE m p) = q - p - 24" "p + 36 \<le> q" "0 < p"
    using shape_neighbours [OF S bs] shape_bounds(1) [OF S U(1)] shape_okD(3) [OF S] by simp_all
  then have "unat (MEMITEM_SIZE m p) + 48 < 2 ^ 32" by simp
  from small_request [OF shrinks(2,3) this] show ?thesis
    using shrink_section_ok(1) [OF ok U request_size_bounds _ shrinks(4)] by blast
qed

lemma pool_reach_ok: "pool_reach h x \<Longrightarrow> \<exists>bs fs. pool_ok h (fst x) (snd x) bs fs"
proof (induction rule: pool_reach.induct)
  case (created st sz H m x)
  obtain H' m' where x: "x = (H', m')" by fastforce
  show ?case using init_pool_ok(1) [OF created(1-4)] created(5) unfolding x fst_conv snd_conv by blast
next
  case (steps x y)
  then show ?case using pool_step_ok by (cases x; cases y) fastforce
qed

text \<open>In figures: the blocks and their headers fill the pool, and the free ones add up to \<open>available_size\<close>.\<close>

definition pool_blocks :: "rt_memheap \<Rightarrow> items \<Rightarrow> layout" where
  "pool_blocks H m = blocks (RT_MEMHEAP_IS_USED m) (pool_headers H m)"

lemma blocks_fill: "spaced bs \<Longrightarrow> bs \<noteq> [] \<Longrightarrow> hd bs + (\<Sum>(a, s, u) \<leftarrow> blocks v bs. s + 24) = last bs"
proof (induction v bs rule: blocks.induct)
  case (1 v a b xs)
  have s: "a + 36 \<le> b" "spaced (b # xs)" using "1.prems"(1) by (simp_all add: spaced_simps)
  have "b + (\<Sum>(a, s, u) \<leftarrow> blocks v (b # xs). s + 24) = last (b # xs)" using "1.IH" [OF s(2)] by simp
  then show ?case using s(1) by simp
qed auto

lemma pool_reach_layout:
  assumes "pool_reach h (H, m)"
  shows "coalesced (pool_blocks H m) \<and> unat (available_size H) = free_bytes (pool_blocks H m) \<and>
    (\<Sum>(a, s, u) \<leftarrow> pool_blocks H m. s + 24) + 24 = unat (pool_size H) \<and>
    (\<exists>fs. dlist (fr m) (free_header H) fs \<and> set fs = {a. \<exists>s. (a, s, False) \<in> set (pool_blocks H m)})"
proof -
  obtain bs fs where P: "pool_ok h H m bs fs" using pool_reach_ok [OF assms] by auto
  note D = pool_okD [OF P] and S = shape_okD [OF pool_okD(1) [OF P]]
  have b: "pool_blocks H m = blocks (RT_MEMHEAP_IS_USED m) bs" by (simp add: pool_blocks_def pool_headers_eq [OF P])
  have "bs \<noteq> []" using S(6) by auto
  then have "(\<Sum>(a, s, u) \<leftarrow> pool_blocks H m. s + 24) + 24 = unat (pool_size H)"
    using blocks_fill [OF S(11), of "RT_MEMHEAP_IS_USED m"] S(7,8) b by simp
  moreover have "set fs = {a. \<exists>s. (a, s, False) \<in> set (pool_blocks H m)}"
  proof (intro set_eqI iffI)
    fix a
    assume "a \<in> set fs"
    then obtain pre q post f1 f2 where "bs = pre @ a # q # post" "\<not> RT_MEMHEAP_IS_USED m a" by (rule pool_free_split [OF P])
    then show "a \<in> {a. \<exists>s. (a, s, False) \<in> set (pool_blocks H m)}"
      using blocks_split [of "RT_MEMHEAP_IS_USED m" pre a "q # post"] unfolding b by auto
  next
    fix a
    assume "a \<in> {a. \<exists>s. (a, s, False) \<in> set (pool_blocks H m)}"
    then obtain s where "(a, s, False) \<in> set (blocks (RT_MEMHEAP_IS_USED m) bs)" unfolding b by blast
    then obtain pre q post where "bs = pre @ a # q # post" "False = RT_MEMHEAP_IS_USED m a" by (rule blocks_mem)
    then show "a \<in> set fs" using D(3) by auto
  qed
  ultimately show ?thesis using D(2,4,5) b by auto
qed

end
