(* ===== verification/HeapLib.thy ===== *)
theory HeapLib
  imports HeapSys
begin

text \<open>
  What the kernel service library (\<^verbatim>\<open>src/kservice.c\<close>) builds on the system heap: aligned
  allocation and the duplication of strings.
\<close>

subsection \<open>Operations\<close>

definition align_word :: "u32 \<Rightarrow> u32" where
  "align_word x = (x + 3) AND NOT 3"

definition align_pointer :: "addr \<Rightarrow> u32 \<Rightarrow> addr" where
  "align_pointer p al =
     (if of_nat p AND (al - 1) = 0 then unat (of_nat p + al) else unat ((of_nat p + (al - 1)) AND NOT (al - 1)))"

text \<open>The allocated block is remembered in the word in front of the aligned address.\<close>

definition rt_malloc_align ::
  "u32 \<Rightarrow> u32 \<Rightarrow> 'a heap_sys_scheme \<Rightarrow>
   ((addr option, (tid \<times> u32) \<times> nat \<times> obj_ref list) outcome \<times> 'a heap_sys_scheme) option" where
  "rt_malloc_align sz align k = do {
     let align = align_word align;
     let align_size = align_word sz + align;
     (o', k) \<leftarrow> rt_malloc align_size k;
     Some (case o' of
       Returns (Some ptr) \<Rightarrow>
         let align_ptr = align_pointer ptr align
         in (Returns (Some align_ptr), upd_bytes (put_word (align_ptr - 4) (of_nat ptr)) k)
     | _ \<Rightarrow> (o', k)) }"

definition rt_free_align :: "addr \<Rightarrow> 'a heap_sys_scheme \<Rightarrow> ((unit, tid \<times> addr) outcome \<times> 'a heap_sys_scheme) option" where
  "rt_free_align ptr k = rt_free (unat (get_word (ptr - 4) (hbytes k))) k"

definition rt_strdup ::
  "addr \<Rightarrow> 'a heap_sys_scheme \<Rightarrow>
   ((addr option, (tid \<times> u32) \<times> nat \<times> obj_ref list) outcome \<times> 'a heap_sys_scheme) option" where
  "rt_strdup s k = do {
     n \<leftarrow> rt_strlen s (hbytes k);
     let len = n + 1;
     (o', k) \<leftarrow> rt_malloc len k;
     Some (o', case o' of Returns (Some tmp) \<Rightarrow> upd_bytes (rt_memcpy tmp s len) k | _ \<Rightarrow> k) }"

subsection \<open>Aligned allocation\<close>

lemma align_word_ALIGN: "align_word x = RT_ALIGN x 4"
  by (simp add: align_word_def RT_ALIGN_def add.commute)

lemma align_pointer_bounds:
  assumes j: "2 \<le> j" "j < 32" and p: "4 dvd p" "p + 2 ^ j < 2 ^ 32"
  shows "2 ^ j dvd align_pointer p (2 ^ j)" "p + 4 \<le> align_pointer p (2 ^ j)" "align_pointer p (2 ^ j) \<le> p + 2 ^ j"
proof -
  let ?w = "of_nat p :: u32"
  have w: "unat ?w = p" using p(2) by (simp add: unsigned_of_nat take_bit_nat_eq_self)
  have four: "4 dvd (2 :: nat) ^ j" using j(1) by (metis le_imp_power_dvd power2_eq_square numeral_Bit0 mult_2 numeral_One one_add_one)
  then have "4 \<le> (2 :: nat) ^ j" by (rule dvd_imp_le) simp
  have pow: "unat (2 ^ j :: u32) = 2 ^ j"
  proof -
    have "(2 :: nat) ^ j < 2 ^ 32" using j(2) by (rule power_strict_increasing) simp
    moreover have "(2 ^ j :: u32) = of_nat (2 ^ j)" by simp
    ultimately show ?thesis by (simp only: unsigned_of_nat) (simp add: take_bit_nat_eq_self j(2))
  qed
  have "2 ^ j dvd align_pointer p (2 ^ j) \<and> p + 4 \<le> align_pointer p (2 ^ j) \<and> align_pointer p (2 ^ j) \<le> p + 2 ^ j"
  proof (cases "?w AND (2 ^ j - 1) = 0")
    case True
    then have "take_bit j ?w = 0" by (simp add: take_bit_eq_mask mask_eq_exp_minus_1)
    moreover have "unat (take_bit j ?w) = take_bit j p" unfolding unsigned_take_bit_eq w by (rule refl)
    ultimately have "take_bit j p = 0" by simp
    then have "2 ^ j dvd p" by (simp add: take_bit_eq_0_iff)
    moreover have "unat (?w + 2 ^ j) = p + 2 ^ j" using w p(2) pow by (simp add: unat_add_small)
    ultimately show ?thesis using True \<open>4 \<le> (2 :: nat) ^ j\<close> by (simp add: align_pointer_def)
  next
    case False
    have r: "align_pointer p (2 ^ j) = unat (RT_ALIGN ?w (2 ^ j))" using False by (simp add: align_pointer_def RT_ALIGN_def add_diff_eq)
    have "take_bit j ?w \<noteq> 0" using False by (simp add: take_bit_eq_mask mask_eq_exp_minus_1)
    moreover have "unat (take_bit j ?w) = take_bit j p" unfolding unsigned_take_bit_eq w by (rule refl)
    ultimately have "take_bit j p \<noteq> 0" by (metis unsigned_eq_0_iff)
    then have nd: "\<not> 2 ^ j dvd p" by (simp add: take_bit_eq_0_iff)
    have u: "uint ?w = int p" using w by (metis uint_nat)
    have "int (p + 2 ^ j) < int (2 ^ 32)" using p(2) by (simp only: of_nat_less_iff)
    then have "int p + 2 ^ j < 2 ^ 32" by (simp only: of_nat_add of_nat_power of_nat_numeral)
    then have "uint ?w + 2 ^ j - 1 < 2 ^ 32" unfolding u by linarith
    note B = RT_ALIGN_bounds [OF j(2) this]
    have n: "int (align_pointer p (2 ^ j)) = uint (RT_ALIGN ?w (2 ^ j))" unfolding r by (rule uint_nat [symmetric])
    have b: "p \<le> align_pointer p (2 ^ j)" "align_pointer p (2 ^ j) < p + 2 ^ j" "2 ^ j dvd align_pointer p (2 ^ j)"
    proof -
      have "int p \<le> int (align_pointer p (2 ^ j))" unfolding n using B(1) u by simp
      then show "p \<le> align_pointer p (2 ^ j)" by (simp only: of_nat_le_iff)
      have "int (align_pointer p (2 ^ j)) < int (p + 2 ^ j)" unfolding n using B(2) u by simp
      then show "align_pointer p (2 ^ j) < p + 2 ^ j" by (simp only: of_nat_less_iff)
      have "int (2 ^ j) dvd int (align_pointer p (2 ^ j))" unfolding n using B(3) by simp
      then show "2 ^ j dvd align_pointer p (2 ^ j)" by (simp only: int_dvd_int_iff)
    qed
    moreover have "align_pointer p (2 ^ j) \<noteq> p" using b(3) nd by auto
    moreover have "4 dvd align_pointer p (2 ^ j) - p" using dvd_trans [OF four b(3)] p(1) by (rule dvd_diff_nat)
    ultimately have "4 \<le> align_pointer p (2 ^ j) - p" by (intro dvd_imp_le) simp_all
    then show ?thesis using b by simp
  qed
  then show "2 ^ j dvd align_pointer p (2 ^ j)" "p + 4 \<le> align_pointer p (2 ^ j)" "align_pointer p (2 ^ j) \<le> p + 2 ^ j" by blast+
qed

lemma get_put_word: "get_word a (put_word a w m) = w"
proof (rule bit_word_eqI)
  fix i
  assume "i < LENGTH(32)"
  then consider "i < 8" | "8 \<le> i" "i < 16" | "16 \<le> i" "i < 24" | "24 \<le> i" "i < 32" by fastforce
  then show "bit (get_word a (put_word a w m)) i = bit w i" by cases (auto simp: get_word_def put_word_def bit_simps)
qed

lemma put_word_other: "c < a \<or> a + 4 \<le> c \<Longrightarrow> put_word a w m c = m c"
  by (auto simp: put_word_def)

lemma power_word: "j < 32 \<Longrightarrow> unat (2 ^ j :: u32) = 2 ^ j"
proof -
  assume j: "j < 32"
  have "(2 :: nat) ^ j < 2 ^ 32" using j by (rule power_strict_increasing) simp
  moreover have "(2 ^ j :: u32) = of_nat (2 ^ j)" by simp
  ultimately show ?thesis by (simp only: unsigned_of_nat) (simp add: take_bit_nat_eq_self j)
qed

lemma four_dvd_power: "2 \<le> j \<Longrightarrow> 4 dvd (2 :: nat) ^ j"
  using le_imp_power_dvd [of 2 j "2 :: nat"] by simp

lemma align_word_bounds: "unat n \<le> 2 ^ 32 - 4 \<Longrightarrow> unat n \<le> unat (align_word n) \<and> unat (align_word n) < unat n + 4"
proof -
  assume "unat n \<le> 2 ^ 32 - 4"
  then have "unat n \<le> 4294967292" by simp
  then have "uint n + 3 < 4294967296" using uint_nat [of n] by linarith
  then have "uint n + 2 ^ 2 - 1 < 2 ^ 32" by simp
  then have "uint n \<le> uint (RT_ALIGN n (2 ^ 2))" "uint (RT_ALIGN n (2 ^ 2)) < uint n + 2 ^ 2"
    using RT_ALIGN_bounds [of 2 n] by simp_all
  then have "uint n \<le> uint (RT_ALIGN n 4)" "uint (RT_ALIGN n 4) < uint n + 4" by simp_all
  then show ?thesis unfolding align_word_ALIGN using uint_nat [of n] uint_nat [of "RT_ALIGN n 4"] by linarith
qed

lemma view_first: "heap_ok h k bs fs \<Longrightarrow> view k bs \<noteq> [] \<and> fst (hd (view k bs)) = start_addr (heaps k h)"
proof -
  assume ok: "heap_ok h k bs fs"
  note S = shape_okD [OF pool_okD(1) [OF heap_okD(3) [OF ok]]]
  obtain a b xs where "bs = a # b # xs" using S(6) by (cases bs; cases "tl bs") auto
  then show ?thesis using S(7) by (simp add: view_def)
qed

lemma take_at_first: "L \<noteq> [] \<Longrightarrow> fst (hd (take_at n p L)) = fst (hd L)"
  by (cases L) (auto split: prod.splits)

lemma rt_memheap_alloc_start:
  assumes ok: "heap_ok h k bs fs" and r: "rt_memheap_alloc h sz k = Some (Returns (Some p), k')"
  shows "start_addr (heaps k' h) = start_addr (heaps k h)"
proof -
  obtain bs' fs' where "heap_ok h k' bs' fs'" "view k' bs' = take_at (unat (request_size sz)) (p - 24) (view k bs)"
    using rt_memheap_alloc_adds [OF ok r] by blast
  then show ?thesis using view_first [OF ok] view_first [of h k' bs' fs'] take_at_first [of "view k bs"] by simp
qed

lemma rt_malloc_align_ok:
  assumes inv: "heap_inv system_heap k" and st: "4 dvd start_addr (heaps k system_heap)" and j: "2 \<le> j" "j < 32"
    and sz: "unat n + 2 ^ j \<le> 2 ^ 32 - 8"
    and r: "rt_memheap_alloc system_heap (align_word n + 2 ^ j) k = Some (Returns (Some p), k1)"
  shows "\<exists>q k' s. rt_malloc_align n (2 ^ j) k = Some (Returns (Some q), k') \<and> heap_inv system_heap k' \<and>
    live_blocks system_heap k' = insert (p, s) (live_blocks system_heap k) \<and>
    2 ^ j dvd q \<and> p + 4 \<le> q \<and> q + unat n \<le> p + s \<and> unat (get_word (q - 4) (hbytes k')) = p \<and>
    (\<forall>(c, t) \<in> live_blocks system_heap k. \<forall>i < t. hbytes k' (c + i) = hbytes k (c + i))"
proof -
  let ?n = "align_word n + 2 ^ j"
  obtain bs fs where B: "heap_ok system_heap k bs fs" "live_blocks system_heap k = allocated k bs" by (rule heap_invE [OF inv])
  obtain bs1 fs1 s where A: "heap_ok system_heap k1 bs1 fs1" "allocated k1 bs1 = insert (p, s) (allocated k bs)" "p \<notin> fst ` allocated k bs"
    "unat (request_size ?n) \<le> s" "hbytes k1 = hbytes k"
    using rt_memheap_alloc_size [OF B(1) r] by (elim exE conjE) (rule that; assumption)
  have n: "unat n \<le> unat (align_word n)" "unat (align_word n) < unat n + 4" using align_word_bounds [of n] sz by simp_all
  have u: "unat ?n = unat (align_word n) + 2 ^ j" using n sz power_word [OF j(2)] by (simp add: unat_add_small)
  then have s: "unat (align_word n) + 2 ^ j \<le> s" using request_size_enough [of ?n] A(4) n sz by simp
  have ps: "(p, s) \<in> allocated k1 bs1" using A(2) by simp
  note V = view_inside [OF A(1) ps] and P = shape_okD [OF pool_okD(1) [OF heap_okD(3) [OF A(1)]]]
  have same: "start_addr (heaps k1 system_heap) = start_addr (heaps k system_heap)" by (rule rt_memheap_alloc_start [OF B(1) r])
  have p4: "4 dvd p" proof -
    let ?st = "start_addr (heaps k system_heap)"
    have "?st \<le> p" "4 dvd p - ?st" using V same by simp_all
    then have "4 dvd (p - ?st) + ?st" using st by (intro dvd_add)
    then show ?thesis using \<open>?st \<le> p\<close> by simp
  qed
  have lim: "p + s < 2 ^ 32" using V P(4) by simp
  then have pj: "p + 2 ^ j < 2 ^ 32" using s by simp
  note Q = align_pointer_bounds [OF j p4 pj]
  let ?q = "align_pointer p (2 ^ j)"
  let ?k = "upd_bytes (put_word (?q - 4) (of_nat p)) k1"
  have al: "align_word (2 ^ j) = 2 ^ j" unfolding align_word_ALIGN
    by (rule RT_ALIGN_aligned) (simp add: power_word [OF j(2)] four_dvd_power [OF j(1)])
  have run: "rt_malloc_align n (2 ^ j) k = Some (Returns (Some ?q), ?k)"
    using rt_malloc_system [OF r] by (simp add: rt_malloc_align_def al Let_def)
  have o: "heap_ok system_heap ?k bs1 fs1" "allocated ?k bs1 = allocated k1 bs1"
    using A(1) by (simp_all add: upd_bytes_def hbytes_only)
  have "unat (get_word (?q - 4) (hbytes ?k)) = p"
    using lim by (simp add: upd_bytes_def get_put_word unsigned_of_nat take_bit_nat_eq_self)
  moreover have "hbytes ?k (c + i) = hbytes k (c + i)" if c: "(c, t) \<in> allocated k bs" and i: "i < t" for c t i
  proof -
    have "c \<noteq> p" using A(3) c by force
    then have "c + t + 24 \<le> p \<or> p + s + 24 \<le> c" using view_apart [OF A(1), of c t p s] A(2) c by auto
    then have "c + i < ?q - 4 \<or> ?q - 4 + 4 \<le> c + i" using i Q(2,3) s by auto
    then show ?thesis using A(5) by (simp add: upd_bytes_def put_word_other)
  qed
  moreover have "?q + unat n \<le> p + s" using Q(3) s n(1) by simp
  ultimately show ?thesis using run heap_invI [OF o(1)] o(2) A(2) B(2) Q(1,2) by (intro exI [of _ ?q] exI [of _ ?k] exI [of _ s]) auto
qed

subsection \<open>Duplicating a string\<close>

lemma str_at_copied:
  assumes "str_at s xs m" "length xs < n"
  shows "str_at d xs (copied d s n m)"
proof -
  have "bytes_at d (length xs + 1) (copied d s n m) = bytes_at s (length xs + 1) m"
    unfolding bytes_at_def copied_def using assms(2) by simp
  then show ?thesis using assms(1) by (simp add: str_at_def)
qed

lemma rt_strdup_ok:
  assumes inv: "heap_inv system_heap k" and xs: "str_at s xs (hbytes k)" "length xs < 2 ^ 32 - 4"
    and at: "(c, t) \<in> live_blocks system_heap k" "c \<le> s" "s + length xs < c + t"
    and r: "rt_memheap_alloc system_heap (of_nat (length xs) + 1) k = Some (Returns (Some p), k1)"
  shows "\<exists>k' b. rt_strdup s k = Some (Returns (Some p), k') \<and> heap_inv system_heap k' \<and> str_at p xs (hbytes k') \<and>
    live_blocks system_heap k' = insert (p, b) (live_blocks system_heap k) \<and>
    (\<forall>(c, t) \<in> live_blocks system_heap k. \<forall>i < t. hbytes k' (c + i) = hbytes k (c + i))"
proof -
  let ?n = "of_nat (length xs) + 1 :: u32"
  obtain bs fs where B: "heap_ok system_heap k bs fs" "live_blocks system_heap k = allocated k bs" by (rule heap_invE [OF inv])
  obtain bs1 fs1 b where A: "heap_ok system_heap k1 bs1 fs1" "allocated k1 bs1 = insert (p, b) (allocated k bs)" "p \<notin> fst ` allocated k bs"
    "unat (request_size ?n) \<le> b" "hbytes k1 = hbytes k"
    using rt_memheap_alloc_size [OF B(1) r] by (elim exE conjE) (rule that; assumption)
  have "?n = of_nat (Suc (length xs))" by simp
  then have u: "unat ?n = Suc (length xs)" using xs(2) by (simp only: unsigned_of_nat) (simp add: take_bit_nat_eq_self)
  then have n: "Suc (length xs) \<le> b" using request_size_enough [of ?n] A(4) xs(2) by simp
  have far: "c + t + 24 \<le> p \<or> p + b + 24 \<le> c" if "(c, t) \<in> allocated k bs" for c t
  proof -
    have "c \<noteq> p" using A(3) that by force
    then show ?thesis using view_apart [OF A(1), of c t p b] A(2) that by auto
  qed
  have "ahead p s (unat ?n)" using far [of c t] at B(2) u n by (auto simp: ahead_def)
  note cp = rt_memcpy_copied [OF this]
  let ?k = "upd_bytes (rt_memcpy p s ?n) k1"
  have run: "rt_strdup s k = Some (Returns (Some p), ?k)"
    using rt_malloc_system [OF r] rt_strlen_str [OF xs(1)] by (simp add: rt_strdup_def Let_def)
  have o: "heap_ok system_heap ?k bs1 fs1" "allocated ?k bs1 = allocated k1 bs1"
    using A(1) by (simp_all add: upd_bytes_def hbytes_only)
  have "str_at p xs (hbytes ?k)" using str_at_copied [OF xs(1), of "unat ?n" p] cp A(5) u by (simp add: upd_bytes_def)
  moreover have "hbytes ?k (c + i) = hbytes k (c + i)" if c: "(c, t) \<in> allocated k bs" and i: "i < t" for c t i
    using far [OF c] i cp A(5) u n by (auto simp: upd_bytes_def copied_def)
  ultimately show ?thesis using run heap_invI [OF o(1)] o(2) A(2) B(2) by (intro exI [of _ ?k] exI [of _ b]) auto
qed

end
