(* ===== verification/KPrintf.thy ===== *)
theory KPrintf
  imports Prelude
begin

text \<open>
  Formatted output of the kernel service library (\<^verbatim>\<open>src/kservice.c\<close>): \<open>print_number\<close> and
  \<open>rt_vsnprintf\<close>, which write through a pointer that is checked against the end of the buffer at
  every byte. \<open>RT_PRINTF_PRECISION\<close> is defined, \<open>RT_PRINTF_LONGLONG\<close> and \<open>RT_PRINTF_SPECIAL\<close> are
  not. A field width or a precision is a number; the code keeps them in an \<open>int\<close>.
\<close>

type_synonym cbuf = "addr \<Rightarrow> char"

subsection \<open>One byte\<close>

text \<open>\<open>if (str < end) *str = c; ++ str;\<close>\<close>

definition emit :: "addr \<Rightarrow> char \<Rightarrow> addr \<times> cbuf \<Rightarrow> addr \<times> cbuf" where
  "emit e c st = (case st of (str, m) \<Rightarrow> (str + 1, if str < e then m(str := c) else m))"

fun pad :: "nat \<Rightarrow> addr \<Rightarrow> char \<Rightarrow> addr \<times> cbuf \<Rightarrow> addr \<times> cbuf" where
  "pad 0 e c st = st"
| "pad (Suc n) e c st = pad n e c (emit e c st)"

fun emit_all :: "addr \<Rightarrow> string \<Rightarrow> addr \<times> cbuf \<Rightarrow> addr \<times> cbuf" where
  "emit_all e [] st = st"
| "emit_all e (c # cs) st = emit_all e cs (emit e c st)"

subsection \<open>Numbers\<close>

definition ZEROPAD :: u8 where "ZEROPAD = 1"
definition SIGN :: u8 where "SIGN = 2"
definition PLUS :: u8 where "PLUS = 4"
definition SPACE :: u8 where "SPACE = 8"
definition LEFT :: u8 where "LEFT = 16"
definition SPECIAL :: u8 where "SPECIAL = 32"
definition LARGE :: u8 where "LARGE = 64"

definition divide :: "nat \<Rightarrow> nat \<Rightarrow> nat \<times> nat" where
  "divide n base = (if base = 10 then (n mod 10, n div 10) else (n mod 16, n div 16))"

text \<open>The digits in the temporary buffer, the last one first.\<close>

function tmp_digits :: "string \<Rightarrow> nat \<Rightarrow> nat \<Rightarrow> string" where
  "tmp_digits digits base n =
     (if n = 0 then [] else case divide n base of (d, n) \<Rightarrow> digits ! d # tmp_digits digits base n)"
  by pat_completeness auto
termination by (relation "measure (\<lambda>(_, _, n). n)") (auto simp: divide_def split: if_splits)

declare tmp_digits.simps [simp del]

text \<open>\<open>while (size-- > 0)\<close>: the bytes, and what is left in \<open>size\<close>.\<close>

definition spend :: "int \<Rightarrow> int" where
  "spend sz = min sz 0 - 1"

definition print_number ::
  "addr \<Rightarrow> u32 \<Rightarrow> nat \<Rightarrow> int \<Rightarrow> int \<Rightarrow> u8 \<Rightarrow> addr \<times> cbuf \<Rightarrow> addr \<times> cbuf" where
  "print_number e num base s precision type st =
     (let precision_bak = precision;
          digits = (if type AND LARGE \<noteq> 0 then ''0123456789ABCDEF'' else ''0123456789abcdef'');
          type = (if type AND LEFT \<noteq> 0 then type AND NOT ZEROPAD else type);
          c = (if type AND ZEROPAD \<noteq> 0 then CHR ''0'' else CHR '' '');
          (sign, num) = (if type AND SIGN \<noteq> 0 then
              if num <s 0 then (Some CHR ''-'', - num)
              else if type AND PLUS \<noteq> 0 then (Some CHR ''+'', num)
              else if type AND SPACE \<noteq> 0 then (Some CHR '' '', num) else (None, num)
            else (None, num));
          tmp = (if num = 0 then ''0'' else tmp_digits digits base (unat num));
          i = int (length tmp);
          precision = (if i > precision then i else precision);
          sz = s - precision;
          (st, sz) = (if type AND (ZEROPAD OR LEFT) = 0 then
              let sz = (if sign \<noteq> None \<and> sz > 0 then sz - 1 else sz)
              in (pad (nat sz) e CHR '' '' st, spend sz)
            else (st, sz));
          (st, sz) = (case sign of None \<Rightarrow> (st, sz) | Some ch \<Rightarrow> (emit e ch st, sz - 1));
          (st, sz) = (if type AND LEFT = 0 then (pad (nat sz) e c st, spend sz) else (st, sz));
          st = pad (nat (precision - i)) e CHR ''0'' st;
          st = (if precision_bak \<noteq> 0 then emit_all e (rev tmp) st else st)
      in pad (nat sz) e CHR '' '' st)"

subsection \<open>Directives\<close>

text \<open>The arguments: words, and the strings that pointers point to (\<open>None\<close> for a null pointer).\<close>

datatype varg = Va_word u32 | Va_str "string option"

fun va_word :: "varg list \<Rightarrow> (u32 \<times> varg list) option" where
  "va_word (Va_word w # args) = Some (w, args)"
| "va_word _ = None"

fun va_str :: "varg list \<Rightarrow> (string option \<times> varg list) option" where
  "va_str (Va_str s # args) = Some (s, args)"
| "va_str _ = None"

definition isdigit :: "char \<Rightarrow> bool" where
  "isdigit c \<longleftrightarrow> (of_char c - 48 :: u32) < 10"

fun skip_atoi :: "nat \<Rightarrow> string \<Rightarrow> nat \<times> string" where
  "skip_atoi i [] = (i, [])"
| "skip_atoi i (c # cs) = (if isdigit c then skip_atoi (i * 10 + of_char c - 48) cs else (i, c # cs))"

fun parse_flags :: "u8 \<Rightarrow> string \<Rightarrow> u8 \<times> string" where
  "parse_flags flags [] = (flags, [])"
| "parse_flags flags (c # cs) =
     (if c = CHR ''-'' then parse_flags (flags OR LEFT) cs
      else if c = CHR ''+'' then parse_flags (flags OR PLUS) cs
      else if c = CHR '' '' then parse_flags (flags OR SPACE) cs
      else if c = CHR ''#'' then parse_flags (flags OR SPECIAL) cs
      else if c = CHR ''0'' then parse_flags (flags OR ZEROPAD) cs
      else (flags, c # cs))"

definition parse_width :: "u8 \<Rightarrow> string \<Rightarrow> varg list \<Rightarrow> (int \<times> u8 \<times> string \<times> varg list) option" where
  "parse_width flags fmt args = (case fmt of
     [] \<Rightarrow> Some (- 1, flags, fmt, args)
   | c # cs \<Rightarrow>
       if isdigit c then (let (n, fmt) = skip_atoi 0 fmt in Some (int n, flags, fmt, args))
       else if c = CHR ''*'' then do {
         (w, args) \<leftarrow> va_word args;
         let fw = sint w;
         Some (if fw < 0 then (- fw, flags OR LEFT, cs, args) else (fw, flags, cs, args)) }
       else Some (- 1, flags, fmt, args))"

definition parse_precision :: "string \<Rightarrow> varg list \<Rightarrow> (int \<times> string \<times> varg list) option" where
  "parse_precision fmt args = (case fmt of
     [] \<Rightarrow> Some (- 1, fmt, args)
   | c # cs \<Rightarrow>
       if c \<noteq> CHR ''.'' then Some (- 1, fmt, args)
       else case cs of
         [] \<Rightarrow> Some (0, cs, args)
       | d # ds \<Rightarrow>
           if isdigit d then (let (n, fmt) = skip_atoi 0 cs in Some (int n, fmt, args))
           else if d = CHR ''*'' then do {
             (w, args) \<leftarrow> va_word args;
             Some (if sint w < 0 then 0 else sint w, ds, args) }
           else Some (0, cs, args))"

definition parse_qualifier :: "string \<Rightarrow> char option \<times> string" where
  "parse_qualifier fmt = (case fmt of
     c # cs \<Rightarrow> if c = CHR ''h'' \<or> c = CHR ''l'' then (Some c, cs) else (None, fmt)
   | [] \<Rightarrow> (None, fmt))"

subsection \<open>Conversions\<close>

definition print_char :: "addr \<Rightarrow> int \<Rightarrow> u8 \<Rightarrow> u32 \<Rightarrow> addr \<times> cbuf \<Rightarrow> addr \<times> cbuf" where
  "print_char e fw flags w st =
     (let (st, fw) = (if flags AND LEFT = 0 then (pad (nat (fw - 1)) e CHR '' '' st, min (fw - 1) 0) else (st, fw));
          st = emit e (char_of (unat (ucast w :: u8))) st
      in pad (nat (fw - 1)) e CHR '' '' st)"

definition print_string :: "addr \<Rightarrow> int \<Rightarrow> int \<Rightarrow> u8 \<Rightarrow> string option \<Rightarrow> addr \<times> cbuf \<Rightarrow> addr \<times> cbuf" where
  "print_string e fw precision flags s st =
     (let s = (case s of None \<Rightarrow> ''(NULL)'' | Some s \<Rightarrow> s);
          len = int (length s);
          len = (if precision > 0 \<and> len > precision then precision else len);
          (st, fw) = (if flags AND LEFT = 0 then (pad (nat (fw - len)) e CHR '' '' st, min fw len - 1) else (st, fw));
          st = emit_all e (take (nat len) s) st
      in pad (nat (fw - len)) e CHR '' '' st)"

definition number_arg :: "char option \<Rightarrow> u8 \<Rightarrow> u32 \<Rightarrow> u32" where
  "number_arg qualifier flags w =
     (if qualifier = Some CHR ''h'' then if flags AND SIGN \<noteq> 0 then scast (ucast w :: u16) else ucast (ucast w :: u16) else w)"

definition is_number :: "char \<Rightarrow> bool" where
  "is_number c \<longleftrightarrow> c \<in> set ''oXxdiu''"

definition number_base :: "char \<Rightarrow> nat" where
  "number_base c = (if c = CHR ''o'' then 8 else if c = CHR ''X'' \<or> c = CHR ''x'' then 16 else 10)"

definition number_flags :: "char \<Rightarrow> u8 \<Rightarrow> u8" where
  "number_flags c flags =
     (if c = CHR ''X'' then flags OR LARGE else if c = CHR ''d'' \<or> c = CHR ''i'' then flags OR SIGN else flags)"

definition conversion ::
  "addr \<Rightarrow> int \<Rightarrow> int \<Rightarrow> u8 \<Rightarrow> char option \<Rightarrow> string \<Rightarrow> varg list \<Rightarrow> addr \<times> cbuf \<Rightarrow> (string \<times> varg list \<times> addr \<times> cbuf) option" where
  "conversion e fw precision flags qualifier fmt args st = (case fmt of
     [] \<Rightarrow> Some ([], args, emit e CHR ''%'' st)
   | c # cs \<Rightarrow>
       if c = CHR ''c'' then do {
         (w, args) \<leftarrow> va_word args;
         Some (cs, args, print_char e fw flags w st) }
       else if c = CHR ''s'' then do {
         (s, args) \<leftarrow> va_str args;
         Some (cs, args, print_string e fw precision flags s st) }
       else if c = CHR ''p'' then do {
         (w, args) \<leftarrow> va_word args;
         let (fw, flags) = (if fw = - 1 then (8, flags OR ZEROPAD) else (fw, flags));
         Some (cs, args, print_number e w 16 fw precision flags st) }
       else if c = CHR ''%'' then Some (cs, args, emit e CHR ''%'' st)
       else if is_number c then do {
         let flags = number_flags c flags;
         (w, args) \<leftarrow> va_word args;
         Some (cs, args, print_number e (number_arg qualifier flags w) (number_base c) fw precision flags st) }
       else Some (cs, args, emit e c (emit e CHR ''%'' st)))"

definition directive ::
  "addr \<Rightarrow> string \<Rightarrow> varg list \<Rightarrow> addr \<times> cbuf \<Rightarrow> (string \<times> varg list \<times> addr \<times> cbuf) option" where
  "directive e fmt args st =
     (let (flags, fmt) = parse_flags 0 fmt in do {
        (fw, flags, fmt, args) \<leftarrow> parse_width flags fmt args;
        (precision, fmt, args) \<leftarrow> parse_precision fmt args;
        let (qualifier, fmt) = parse_qualifier fmt;
        conversion e fw precision flags qualifier fmt args st })"


lemma skip_atoi_length: "skip_atoi i cs = (n, ds) \<Longrightarrow> length ds \<le> length cs"
  by (induction i cs rule: skip_atoi.induct) (auto split: if_splits)

lemma parse_flags_length: "parse_flags fl cs = (fl', ds) \<Longrightarrow> length ds \<le> length cs"
  by (induction fl cs rule: parse_flags.induct) (auto split: if_splits)

lemma parse_width_length: "parse_width fl cs args = Some (fw, fl', ds, args') \<Longrightarrow> length ds \<le> length cs"
  by (auto simp: parse_width_def bind_eq_Some_conv Let_def dest!: skip_atoi_length split: list.splits if_splits prod.splits)

lemma parse_precision_length: "parse_precision cs args = Some (p, ds, args') \<Longrightarrow> length ds \<le> length cs"
  by (auto simp: parse_precision_def bind_eq_Some_conv Let_def dest!: skip_atoi_length split: list.splits if_splits prod.splits)

lemma parse_qualifier_length: "parse_qualifier cs = (q, ds) \<Longrightarrow> length ds \<le> length cs"
  by (auto simp: parse_qualifier_def split: list.splits if_splits)

lemma conversion_length:
  "conversion e fw p fl q cs args st = Some (ds, args', st') \<Longrightarrow> length ds \<le> length cs"
  by (cases cs) (auto simp: conversion_def bind_eq_Some_conv split_beta Let_def split: if_split_asm)

lemma directive_length:
  assumes "directive e cs args st = Some (ds, args', st')"
  shows "length ds \<le> length cs"
proof -
  obtain fl c1 where 1: "parse_flags 0 cs = (fl, c1)" by fastforce
  then obtain fw fl2 c2 a2 where 2: "parse_width fl c1 args = Some (fw, fl2, c2, a2)"
    using assms by (cases "parse_width fl c1 args") (auto simp: directive_def)
  then obtain p c3 a3 where 3: "parse_precision c2 a2 = Some (p, c3, a3)"
    using assms 1 by (cases "parse_precision c2 a2") (auto simp: directive_def)
  obtain q c4 where 4: "parse_qualifier c3 = (q, c4)" by fastforce
  have "conversion e fw p fl2 q c4 a3 st = Some (ds, args', st')" using assms 1 2 3 4 by (simp add: directive_def)
  then show ?thesis
    using parse_flags_length [OF 1] parse_width_length [OF 2] parse_precision_length [OF 3] parse_qualifier_length [OF 4]
      conversion_length by fastforce
qed

subsection \<open>The format\<close>

function format_loop :: "addr \<Rightarrow> string \<Rightarrow> varg list \<Rightarrow> addr \<times> cbuf \<Rightarrow> (addr \<times> cbuf) option" where
  "format_loop e [] args st = Some st"
| "format_loop e (c # cs) args st =
     (if c \<noteq> CHR ''%'' then format_loop e cs args (emit e c st)
      else case directive e cs args st of
        None \<Rightarrow> None
      | Some (cs, args, st) \<Rightarrow> format_loop e cs args st)"
  by pat_completeness auto
termination by (relation "measure (\<lambda>(_, cs, _, _). length cs)") (auto dest: directive_length simp: less_Suc_eq_le)

text \<open>The end of the buffer is kept in the address space.\<close>

definition rt_vsnprintf :: "addr \<Rightarrow> u32 \<Rightarrow> string \<Rightarrow> varg list \<Rightarrow> cbuf \<Rightarrow> (int \<times> cbuf) option" where
  "rt_vsnprintf buf sz fmt args m =
     (let e = unat (of_nat buf + sz);
          (e, sz) = (if e < buf then (2 ^ 32 - 1, of_nat (2 ^ 32 - 1 - buf)) else (e, sz)) in do {
        (str, m) \<leftarrow> format_loop e fmt args (buf, m);
        let m = (if 0 < sz then if str < e then m(str := CHR 0x00) else m(e - 1 := CHR 0x00) else m);
        Some (int str - int buf, m) })"

definition rt_snprintf :: "addr \<Rightarrow> u32 \<Rightarrow> string \<Rightarrow> varg list \<Rightarrow> cbuf \<Rightarrow> (int \<times> cbuf) option" where
  "rt_snprintf buf sz fmt args m = rt_vsnprintf buf sz fmt args m"

definition rt_vsprintf :: "addr \<Rightarrow> string \<Rightarrow> varg list \<Rightarrow> cbuf \<Rightarrow> (int \<times> cbuf) option" where
  "rt_vsprintf buf fmt args m = rt_vsnprintf buf (- 1) fmt args m"

definition rt_sprintf :: "addr \<Rightarrow> string \<Rightarrow> varg list \<Rightarrow> cbuf \<Rightarrow> (int \<times> cbuf) option" where
  "rt_sprintf buf fmt args m = rt_vsprintf buf fmt args m"

subsection \<open>The text of a format\<close>

text \<open>What is printed, without a buffer.\<close>

definition sign_text :: "u32 \<Rightarrow> u8 \<Rightarrow> string" where
  "sign_text num type = (if type AND SIGN = 0 then [] else if num <s 0 then ''-'' else if type AND PLUS \<noteq> 0 then ''+''
     else if type AND SPACE \<noteq> 0 then '' '' else [])"

definition magnitude :: "u32 \<Rightarrow> u8 \<Rightarrow> u32" where
  "magnitude num type = (if type AND SIGN \<noteq> 0 \<and> num <s 0 then - num else num)"

definition digits_text :: "u32 \<Rightarrow> nat \<Rightarrow> u8 \<Rightarrow> string" where
  "digits_text num base type = (if num = 0 then ''0''
     else tmp_digits (if type AND LARGE \<noteq> 0 then ''0123456789ABCDEF'' else ''0123456789abcdef'') base (unat num))"

definition number_text :: "u32 \<Rightarrow> nat \<Rightarrow> int \<Rightarrow> int \<Rightarrow> u8 \<Rightarrow> string" where
  "number_text num base s precision type =
     (let sign = sign_text num type;
          body = rev (digits_text (magnitude num type) base type);
          zeros = replicate (nat precision - length body) CHR ''0'';
          shown = (if precision = 0 then [] else body);
          room = nat s - length sign - max (length body) (nat precision)
      in if type AND LEFT \<noteq> 0 then sign @ zeros @ shown @ replicate room CHR '' ''
         else if type AND ZEROPAD \<noteq> 0 then sign @ replicate room CHR ''0'' @ zeros @ shown
         else replicate room CHR '' '' @ sign @ zeros @ shown)"

definition char_text :: "int \<Rightarrow> u8 \<Rightarrow> u32 \<Rightarrow> string" where
  "char_text fw flags w =
     (let blanks = replicate (nat (fw - 1)) CHR '' ''; ch = char_of (unat (ucast w :: u8))
      in if flags AND LEFT = 0 then blanks @ [ch] else ch # blanks)"

definition string_text :: "int \<Rightarrow> int \<Rightarrow> u8 \<Rightarrow> string option \<Rightarrow> string" where
  "string_text fw precision flags s =
     (let s = (case s of None \<Rightarrow> ''(NULL)'' | Some s \<Rightarrow> s);
          s = (if precision > 0 then take (nat precision) s else s);
          blanks = replicate (nat fw - length s) CHR '' ''
      in if flags AND LEFT = 0 then blanks @ s else s @ blanks)"

lemma emit_all_append [simp]: "emit_all e (u @ v) st = emit_all e v (emit_all e u st)"
  by (induction u arbitrary: st) simp_all

lemma pad_emit_all: "pad n e c st = emit_all e (replicate n c) st"
  by (induction n arbitrary: st) simp_all

lemma print_char_text: "print_char e fw flags w st = emit_all e (char_text fw flags w) st"
  by (auto simp: print_char_def char_text_def pad_emit_all Let_def)

lemma print_string_text: "print_string e fw precision flags s st = emit_all e (string_text fw precision flags s) st"
proof -
  define t where "t = (case s of None \<Rightarrow> ''(NULL)'' | Some s \<Rightarrow> s)"
  define n where "n = (if precision > 0 \<and> int (length t) > precision then precision else int (length t))"
  have tk: "take (nat n) t = (if precision > 0 then take (nat precision) t else t)" by (auto simp: n_def)
  have ln: "nat n = length (if precision > 0 then take (nat precision) t else t)" by (auto simp: n_def)
  have p: "nat (fw - n) = nat fw - length (if precision > 0 then take (nat precision) t else t)"
    unfolding ln [symmetric] by (auto simp: n_def)
  show ?thesis unfolding print_string_def string_text_def Let_def pad_emit_all t_def [symmetric] n_def [symmetric] tk
    by (cases "flags AND LEFT = 0") (simp_all only: if_True if_False prod.case p emit_all_append, simp add: min_def)
qed

lemma flag_bits:
  "(t AND NOT ZEROPAD) AND SIGN = t AND SIGN" "(t AND NOT ZEROPAD) AND PLUS = t AND PLUS" "(t AND NOT ZEROPAD) AND SPACE = t AND SPACE"
  "(t AND NOT ZEROPAD) AND LEFT = t AND LEFT" "(t AND NOT ZEROPAD) AND LARGE = t AND LARGE" "(t AND NOT ZEROPAD) AND ZEROPAD = 0"
  by (simp_all add: and.assoc ZEROPAD_def SIGN_def PLUS_def SPACE_def LEFT_def LARGE_def)

lemma no_padding: "t AND (ZEROPAD OR LEFT) = 0 \<longleftrightarrow> t AND ZEROPAD = 0 \<and> t AND LEFT = 0"
  unfolding bit.conj_disj_distrib or_eq_0_iff by (rule refl)

lemma tmp_digits_ne: "n \<noteq> 0 \<Longrightarrow> tmp_digits ds base n \<noteq> []"
  by (subst tmp_digits.simps) (simp split: prod.splits)

lemma digits_text_ne: "1 \<le> length (digits_text num base type)"
  using tmp_digits_ne [of "unat num"] by (auto simp: digits_text_def Suc_le_eq unat_eq_0)

text \<open>The tail of \<open>print_number\<close> once the sign and the digits are known.\<close>

definition number_tail ::
  "addr \<Rightarrow> int \<Rightarrow> int \<Rightarrow> u8 \<Rightarrow> char \<Rightarrow> char option \<Rightarrow> string \<Rightarrow> addr \<times> cbuf \<Rightarrow> addr \<times> cbuf" where
  "number_tail e s precision_bak type c sign tmp st =
     (let i = int (length tmp);
          precision = (if i > precision_bak then i else precision_bak);
          sz = s - precision;
          (st, sz) = (if type AND (ZEROPAD OR LEFT) = 0 then
              let sz = (if sign \<noteq> None \<and> sz > 0 then sz - 1 else sz)
              in (pad (nat sz) e CHR '' '' st, spend sz)
            else (st, sz));
          (st, sz) = (case sign of None \<Rightarrow> (st, sz) | Some ch \<Rightarrow> (emit e ch st, sz - 1));
          (st, sz) = (if type AND LEFT = 0 then (pad (nat sz) e c st, spend sz) else (st, sz));
          st = pad (nat (precision - i)) e CHR ''0'' st;
          st = (if precision_bak \<noteq> 0 then emit_all e (rev tmp) st else st)
      in pad (nat sz) e CHR '' '' st)"

definition sign_string :: "char option \<Rightarrow> string" where
  "sign_string sign = (case sign of None \<Rightarrow> [] | Some ch \<Rightarrow> [ch])"

lemma number_tail_text:
  assumes "1 \<le> length tmp"
  shows "number_tail e s p type c sign tmp st = emit_all e
    (let zeros = replicate (nat p - length tmp) CHR ''0'';
         shown = (if p = 0 then [] else rev tmp);
         room = nat s - length (sign_string sign) - max (length tmp) (nat p)
     in if type AND LEFT \<noteq> 0 then sign_string sign @ zeros @ shown @ replicate room CHR '' ''
        else if type AND ZEROPAD \<noteq> 0 then sign_string sign @ replicate room c @ zeros @ shown
        else replicate room CHR '' '' @ sign_string sign @ zeros @ shown) st"
proof -
  define P where "P = (if int (length tmp) > p then int (length tmp) else p)"
  have z: "nat (P - int (length tmp)) = nat p - length tmp" by (auto simp: P_def)
  have r: "nat (s - P - k) = nat s - nat k - max (length tmp) (nat p)" if "0 \<le> k" for k using that assms by (auto simp: P_def)
  have r0: "nat (s - P) = nat s - max (length tmp) (nat p)" and r1: "nat (s - P - 1) = nat s - 1 - max (length tmp) (nat p)"
    using r [of 0] r [of 1] by simp_all
  have neg: "nat (spend k) = 0" "nat (spend k - 1) = 0" for k by (simp_all add: spend_def)
  have pos: "nat (if P < s then s - P - 1 else s - P) = nat (s - P - 1)" by simp
  note unfolds = number_tail_def Let_def pad_emit_all P_def [symmetric] no_padding
  show ?thesis
  proof (cases "type AND LEFT = 0")
    case False
    then show ?thesis unfolding unfolds by (cases sign) (simp_all add: sign_string_def z r0 r1)
  next
    case left: True
    show ?thesis
    proof (cases "type AND ZEROPAD = 0")
      case True
      then show ?thesis unfolding unfolds using left by (cases sign) (simp_all add: sign_string_def z r0 r1 neg pos)
    next
      case False
      then show ?thesis unfolding unfolds using left by (cases sign) (simp_all add: sign_string_def z r0 r1 neg)
    qed
  qed
qed

lemma print_number_text: "print_number e num base s p type st = emit_all e (number_text num base s p type) st"
proof -
  let ?type = "if type AND LEFT \<noteq> 0 then type AND NOT ZEROPAD else type"
  let ?c = "if ?type AND ZEROPAD \<noteq> 0 then CHR ''0'' else CHR '' ''"
  let ?sign = "if type AND SIGN \<noteq> 0 then if num <s 0 then Some CHR ''-'' else if type AND PLUS \<noteq> 0 then Some CHR ''+''
    else if type AND SPACE \<noteq> 0 then Some CHR '' '' else None else None"
  have "print_number e num base s p type st =
    number_tail e s p ?type ?c ?sign (digits_text (magnitude num type) base type) st"
    unfolding print_number_def number_tail_def Let_def digits_text_def magnitude_def
    by (cases "type AND LEFT = 0"; cases "type AND SIGN = 0"; cases "num <s 0"; cases "type AND PLUS = 0"; cases "type AND SPACE = 0")
      (simp_all only: flag_bits if_True if_False prod.case simp_thms not_True_eq_False not_False_eq_True)
  also have "\<dots> = emit_all e (number_text num base s p type) st"
  proof -
    have "sign_string ?sign = sign_text num type" by (simp add: sign_string_def sign_text_def)
    then show ?thesis unfolding number_tail_text [OF digits_text_ne] number_text_def Let_def
      by (cases "type AND LEFT = 0") (simp_all add: flag_bits)
  qed
  finally show ?thesis .
qed

definition conversion_text ::
  "int \<Rightarrow> int \<Rightarrow> u8 \<Rightarrow> char option \<Rightarrow> string \<Rightarrow> varg list \<Rightarrow> (string \<times> varg list \<times> string) option" where
  "conversion_text fw precision flags qualifier fmt args = (case fmt of
     [] \<Rightarrow> Some ([], args, ''%'')
   | c # cs \<Rightarrow>
       if c = CHR ''c'' then map_option (\<lambda>(w, args). (cs, args, char_text fw flags w)) (va_word args)
       else if c = CHR ''s'' then map_option (\<lambda>(s, args). (cs, args, string_text fw precision flags s)) (va_str args)
       else if c = CHR ''p'' then
         (let (fw, flags) = (if fw = - 1 then (8, flags OR ZEROPAD) else (fw, flags))
          in map_option (\<lambda>(w, args). (cs, args, number_text w 16 fw precision flags)) (va_word args))
       else if c = CHR ''%'' then Some (cs, args, ''%'')
       else if is_number c then
         (let flags = number_flags c flags
          in map_option (\<lambda>(w, args). (cs, args, number_text (number_arg qualifier flags w) (number_base c) fw precision flags))
               (va_word args))
       else Some (cs, args, ''%'' @ [c]))"

definition directive_text :: "string \<Rightarrow> varg list \<Rightarrow> (string \<times> varg list \<times> string) option" where
  "directive_text fmt args =
     (let (flags, fmt) = parse_flags 0 fmt in do {
        (fw, flags, fmt, args) \<leftarrow> parse_width flags fmt args;
        (precision, fmt, args) \<leftarrow> parse_precision fmt args;
        let (qualifier, fmt) = parse_qualifier fmt;
        conversion_text fw precision flags qualifier fmt args })"

lemma conversion_emits:
  "conversion e fw p flags q fmt args st =
     map_option (\<lambda>(cs, args, w). (cs, args, emit_all e w st)) (conversion_text fw p flags q fmt args)"
proof (cases fmt)
  case (Cons c cs)
  then show ?thesis
    by (cases "va_word args"; cases "va_str args")
      (simp_all add: conversion_def conversion_text_def Let_def split_beta print_char_text print_string_text print_number_text)
qed (simp add: conversion_def conversion_text_def)

lemma directive_emits:
  "directive e fmt args st = map_option (\<lambda>(cs, args, w). (cs, args, emit_all e w st)) (directive_text fmt args)"
proof -
  obtain fl c1 where 1: "parse_flags 0 fmt = (fl, c1)" by fastforce
  show ?thesis
  proof (cases "parse_width fl c1 args")
    case None
    then show ?thesis using 1 by (simp add: directive_def directive_text_def)
  next
    case (Some y)
    obtain fw fl2 c2 a2 where 2: "y = (fw, fl2, c2, a2)" by (cases y) auto
    show ?thesis
    proof (cases "parse_precision c2 a2")
      case None
      then show ?thesis using 1 2 Some by (simp add: directive_def directive_text_def)
    next
      case (Some z)
      then show ?thesis using 1 2 \<open>parse_width fl c1 args = Some y\<close>
        by (cases z) (simp add: directive_def directive_text_def conversion_emits split: prod.splits)
    qed
  qed
qed

lemma directive_text_length:
  assumes "directive_text cs args = Some (ds, args', w)"
  shows "length ds \<le> length cs"
proof -
  have "directive 0 cs args (0, \<lambda>_. CHR 0x00) = Some (ds, args', emit_all 0 w (0, \<lambda>_. CHR 0x00))"
    unfolding directive_emits assms by simp
  then show ?thesis by (rule directive_length)
qed

function format_text :: "string \<Rightarrow> varg list \<Rightarrow> string option" where
  "format_text [] args = Some []"
| "format_text (c # cs) args =
     (if c \<noteq> CHR ''%'' then map_option (\<lambda>w. c # w) (format_text cs args)
      else case directive_text cs args of
        None \<Rightarrow> None
      | Some (cs, args, w) \<Rightarrow> map_option (\<lambda>v. w @ v) (format_text cs args))"
  by pat_completeness auto
termination by (relation "measure (\<lambda>(cs, _). length cs)") (auto dest: directive_text_length simp: less_Suc_eq_le)

lemma format_loop_emits: "format_loop e fmt args st = map_option (\<lambda>w. emit_all e w st) (format_text fmt args)"
proof (induction fmt args arbitrary: st rule: format_text.induct)
  case (2 c cs args)
  show ?case
  proof (cases "c = CHR ''%''")
    case False
    then show ?thesis using "2.IH"(1) [OF False, of "emit e c st"] by (simp add: option.map_comp comp_def)
  next
    case True
    show ?thesis
    proof (cases "directive_text cs args")
      case None
      then show ?thesis using True by (simp add: directive_emits)
    next
      case (Some y)
      obtain ds args' w where y: "y = (ds, args', w)" by (cases y)
      have IH: "format_loop e ds args' st' = map_option (\<lambda>w. emit_all e w st') (format_text ds args')" for st'
        by (rule "2.IH"(2) [OF _ Some y [symmetric] refl]) (simp add: True)
      have "format_loop e (c # cs) args st = format_loop e ds args' (emit_all e w st)"
        using True Some y by (simp add: directive_emits)
      moreover have "format_text (c # cs) args = map_option (\<lambda>v. w @ v) (format_text ds args')" using True Some y by simp
      ultimately show ?thesis unfolding IH by (simp add: option.map_comp comp_def)
    qed
  qed
qed simp

subsection \<open>What ends up in the buffer\<close>

lemma emit_all_at:
  "emit_all e w (p, m) = (p + length w, \<lambda>a. if p \<le> a \<and> a < p + length w \<and> a < e then w ! (a - p) else m a)"
proof (induction w arbitrary: p m)
  case (Cons c w)
  show ?case by (auto simp: emit_def Cons.IH fun_eq_iff nth_Cons' Suc_le_eq)
qed (auto simp: fun_eq_iff)

lemma rt_vsnprintf_text:
  assumes sz: "0 < sz" "buf + unat sz < 2 ^ 32" and w: "format_text fmt args = Some w"
  defines "n \<equiv> min (length w) (unat sz - 1)"
  shows "rt_vsnprintf buf sz fmt args m =
    Some (int (length w), \<lambda>a. if buf \<le> a \<and> a < buf + n then w ! (a - buf) else if a = buf + n then CHR 0x00 else m a)"
proof -
  have z: "0 < unat sz" using sz(1) by (simp add: unat_gt_0 word_gt_0)
  have e: "unat (of_nat buf + sz) = buf + unat sz"
  proof -
    have "of_nat buf + sz = of_nat (buf + unat sz)" by simp
    then show ?thesis using sz(2) by (simp only: unsigned_of_nat) (simp add: take_bit_nat_eq_self)
  qed
  have "rt_vsnprintf buf sz fmt args m = (let (str, m) = emit_all (buf + unat sz) w (buf, m);
      m = (if str < buf + unat sz then m(str := CHR 0x00) else m(buf + unat sz - 1 := CHR 0x00))
    in Some (int str - int buf, m))"
    using sz(1) unfolding rt_vsnprintf_def e format_loop_emits w by (simp add: split_beta Let_def)
  also have "\<dots> = Some (int (length w),
      (\<lambda>a. if buf \<le> a \<and> a < buf + length w \<and> a < buf + unat sz then w ! (a - buf) else m a)(buf + n := CHR 0x00))"
    using z unfolding emit_all_at by (cases "length w < unat sz") (simp_all add: n_def)
  also have "(\<lambda>a. if buf \<le> a \<and> a < buf + length w \<and> a < buf + unat sz then w ! (a - buf) else m a)(buf + n := CHR 0x00) =
      (\<lambda>a. if buf \<le> a \<and> a < buf + n then w ! (a - buf) else if a = buf + n then CHR 0x00 else m a)"
  proof
    fix a
    have "buf \<le> a \<and> a < buf + n \<longleftrightarrow> buf \<le> a \<and> a < buf + length w \<and> a < buf + unat sz \<and> a \<noteq> buf + n" 
      using z unfolding n_def by linarith
    then show "((\<lambda>a. if buf \<le> a \<and> a < buf + length w \<and> a < buf + unat sz then w ! (a - buf) else m a)(buf + n := CHR 0x00)) a =
      (if buf \<le> a \<and> a < buf + n then w ! (a - buf) else if a = buf + n then CHR 0x00 else m a)" by simp
  qed
  finally show ?thesis .
qed

subsection \<open>Numbers in text\<close>

lemma tmp_digits_step:
  "n \<noteq> 0 \<Longrightarrow> tmp_digits ds 10 n = ds ! (n mod 10) # tmp_digits ds 10 (n div 10)"
  by (subst tmp_digits.simps) (simp add: divide_def)

lemma tmp_digits_0 [simp]: "tmp_digits ds base 0 = []"
  by (subst tmp_digits.simps) simp

definition decimal_digits :: "string \<Rightarrow> bool" where
  "decimal_digits ds \<longleftrightarrow> (\<forall>d < 10. isdigit (ds ! d) \<and> of_char (ds ! d) = 48 + d)"

lemma decimal_digits_both: "decimal_digits ''0123456789abcdef''" "decimal_digits ''0123456789ABCDEF''"
proof -
  have ten: "d = 0 \<or> d = 1 \<or> d = 2 \<or> d = 3 \<or> d = 4 \<or> d = 5 \<or> d = 6 \<or> d = 7 \<or> d = 8 \<or> d = 9" if "d < 10" for d :: nat
    using that by presburger
  show "decimal_digits ''0123456789abcdef''" "decimal_digits ''0123456789ABCDEF''"
    unfolding decimal_digits_def isdigit_def by (intro allI impI; drule ten; elim disjE; simp)+
qed

text \<open>Reading the digits back.\<close>

lemma skip_atoi_tmp_digits:
  assumes ds: "decimal_digits ds"
  shows "skip_atoi i (rev (tmp_digits ds 10 n) @ cs) = skip_atoi (i * 10 ^ length (tmp_digits ds 10 n) + n) cs"
proof (induction n arbitrary: cs rule: less_induct)
  case (less n)
  show ?case
  proof (cases "n = 0")
    case False
    let ?d = "ds ! (n mod 10)"
    have d: "isdigit ?d" "of_char ?d = 48 + n mod 10" using ds by (simp_all add: decimal_digits_def)
    have "skip_atoi i (rev (tmp_digits ds 10 n) @ cs) = skip_atoi i (rev (tmp_digits ds 10 (n div 10)) @ ?d # cs)"
      using False by (simp add: tmp_digits_step)
    also have "\<dots> = skip_atoi (i * 10 ^ length (tmp_digits ds 10 (n div 10)) + n div 10) (?d # cs)"
      using False by (intro less.IH) simp
    also have "\<dots> = skip_atoi ((i * 10 ^ length (tmp_digits ds 10 (n div 10)) + n div 10) * 10 + n mod 10) cs" using d by simp
    also have "(i * 10 ^ length (tmp_digits ds 10 (n div 10)) + n div 10) * 10 + n mod 10 = i * 10 ^ length (tmp_digits ds 10 n) + n"
      using False by (simp add: tmp_digits_step algebra_simps)
    finally show ?thesis .
  qed simp
qed

lemma skip_atoi_digits_text: "skip_atoi 0 (rev (digits_text num 10 type)) = (unat num, [])"
proof (cases "num = 0")
  case True
  then show ?thesis by (simp add: digits_text_def isdigit_def)
next
  case False
  then show ?thesis using skip_atoi_tmp_digits [of _ 0 "unat num" "[]"] decimal_digits_both by (simp add: digits_text_def)
qed

text \<open>The temporary buffer of \<open>print_number\<close> has 16 bytes.\<close>

lemma tmp_digits_length: "n < 10 ^ k \<Longrightarrow> length (tmp_digits ds base n) \<le> k"
proof (induction k arbitrary: n)
  case (Suc k)
  show ?case
  proof (cases "n = 0")
    case False
    have "n div 10 < 10 ^ k" "n div 16 < 10 ^ k" using Suc.prems by (auto simp: less_mult_imp_div_less)
    then show ?thesis using Suc.IH [of "n div 10"] Suc.IH [of "n div 16"] False
      by (cases "base = 10") (subst tmp_digits.simps, simp add: divide_def)+
  qed simp
qed simp

lemma digits_text_length: "length (digits_text num base type) \<le> 10"
proof (cases "num = 0")
  case False
  have "unat num < 2 ^ 32" using unsigned_less [where 'a = nat, of num] by simp
  then have "unat num < 10 ^ 10" by simp
  then show ?thesis using tmp_digits_length [of "unat num" 10] by (simp add: digits_text_def)
qed (simp add: digits_text_def)


lemma number_text_plain:
  "number_text num base (- 1) (- 1) type = sign_text num type @ rev (digits_text (magnitude num type) base type)"
  by (simp add: number_text_def Let_def)

lemma format_plain:
  assumes "is_number c"
  shows "format_text [CHR ''%'', c] [Va_word w] = Some (number_text w (number_base c) (- 1) (- 1) (number_flags c 0))"
proof -
  have "c = CHR ''o'' \<or> c = CHR ''X'' \<or> c = CHR ''x'' \<or> c = CHR ''d'' \<or> c = CHR ''i'' \<or> c = CHR ''u''"
    using assms by (simp add: is_number_def)
  then have c: "\<not> isdigit c" "parse_flags 0 [c] = (0, [c])" "c \<noteq> CHR ''*''" "c \<noteq> CHR ''.''" "c \<noteq> CHR ''h''" "c \<noteq> CHR ''l''"
    "c \<noteq> CHR ''c''" "c \<noteq> CHR ''s''" "c \<noteq> CHR ''p''" "c \<noteq> CHR ''%''"
    by (elim disjE; simp add: isdigit_def)+
  then have "parse_width 0 [c] [Va_word w] = Some (- 1, 0, [c], [Va_word w])" "parse_precision [c] [Va_word w] = Some (- 1, [c], [Va_word w])"
    "parse_qualifier [c] = (None, [c])"
    by (simp_all add: parse_width_def parse_precision_def parse_qualifier_def)
  then have "directive_text [c] [Va_word w] = Some ([], [], number_text w (number_base c) (- 1) (- 1) (number_flags c 0))"
    using c assms by (simp add: directive_text_def conversion_text_def number_arg_def)
  then show ?thesis by simp
qed

lemma unat_magnitude: "int (unat (magnitude w SIGN)) = \<bar>sint w\<bar>"
proof (cases "w <s 0")
  case True
  then have neg: "sint w < 0" by (simp add: word_sless_alt)
  have lo: "- (2 ^ 31) \<le> sint w" using sint_ge [of w] by simp
  have "- w = word_of_int (- sint w)" by simp
  then have "uint (- w) = take_bit 32 (- sint w)" by (simp only: uint_word_of_int) (simp add: take_bit_eq_mod)
  also have "\<dots> = - sint w" using neg lo by (intro take_bit_int_eq_self) simp_all
  finally show ?thesis using True neg by (simp add: magnitude_def SIGN_def uint_nat [symmetric] flip: uint_nat)
next
  case False
  then have pos: "0 \<le> sint w" by (simp add: word_sless_alt)
  have hi: "sint w < 2 ^ 31" using sint_lt [of w] by simp
  have "uint w = uint (word_of_int (sint w) :: u32)" by simp
  also have "\<dots> = take_bit 32 (sint w)" by (simp only: uint_word_of_int) (simp add: take_bit_eq_mod)
  also have "\<dots> = sint w" using pos hi by (intro take_bit_int_eq_self) simp_all
  finally show ?thesis using False pos by (simp add: magnitude_def flip: uint_nat)
qed

lemma format_decimal:
  "\<exists>t. format_text ''%d'' [Va_word w] = Some ((if w <s 0 then ''-'' else []) @ t) \<and> skip_atoi 0 t = (nat \<bar>sint w\<bar>, []) \<and> length t \<le> 10"
proof -
  have u: "unat (magnitude w SIGN) = nat \<bar>sint w\<bar>" using unat_magnitude [of w] by (metis nat_int)
  have "format_text ''%d'' [Va_word w] = Some (number_text w 10 (- 1) (- 1) SIGN)"
    using format_plain [of "CHR ''d''" w] by (simp add: is_number_def number_base_def number_flags_def)
  moreover have "number_text w 10 (- 1) (- 1) SIGN = (if w <s 0 then ''-'' else []) @ rev (digits_text (magnitude w SIGN) 10 SIGN)"
    by (simp add: number_text_plain sign_text_def SIGN_def PLUS_def SPACE_def)
  ultimately show ?thesis using skip_atoi_digits_text [of "magnitude w SIGN" SIGN] digits_text_length [of "magnitude w SIGN" 10 SIGN] u by auto
qed

text \<open>There are only two bases: octal is printed like hexadecimal.\<close>

lemma tmp_digits_8: "tmp_digits ds 8 n = tmp_digits ds 16 n"
proof (induction n rule: less_induct)
  case (less n)
  show ?case
    by (subst (1 2) tmp_digits.simps) (auto simp: divide_def less.IH)
qed

lemma format_octal: "format_text ''%o'' [Va_word w] = format_text ''%x'' [Va_word w]"
  using format_plain [of "CHR ''o''" w] format_plain [of "CHR ''x''" w]
  by (simp add: is_number_def number_base_def number_flags_def number_text_plain digits_text_def tmp_digits_8)

text \<open>A buffer of twelve bytes is enough for any number.\<close>

lemma closed_text:
  "map (\<lambda>a. if b \<le> a \<and> a < b + length t then t ! (a - b) else if a = b + length t then z else m a) [b ..< b + length t + 1] = t @ [z]"
  by (rule nth_equalityI) (auto simp: nth_append)

lemma rt_snprintf_decimal:
  assumes sz: "12 \<le> sz" "buf + unat sz < 2 ^ 32"
  shows "\<exists>ds m'. rt_snprintf buf sz ''%d'' [Va_word w] m = Some (int (length ((if w <s 0 then ''-'' else []) @ ds)), m') \<and>
    map m' [buf ..< buf + length ((if w <s 0 then ''-'' else []) @ ds) + 1] = (if w <s 0 then ''-'' else []) @ ds @ [CHR 0x00] \<and>
    skip_atoi 0 ds = (nat \<bar>sint w\<bar>, [])"
proof -
  define s where "s = (if w <s 0 then ''-'' else [])"
  obtain ds where t: "format_text ''%d'' [Va_word w] = Some (s @ ds)" "skip_atoi 0 ds = (nat \<bar>sint w\<bar>, [])" "length ds \<le> 10"
    using format_decimal [of w] unfolding s_def by blast
  have z: "12 \<le> unat sz" using sz(1) by (simp add: word_le_nat_alt)
  then have z0: "0 < sz" by (simp add: word_less_nat_alt)
  have "length s \<le> 1" by (simp add: s_def)
  then have n: "min (length (s @ ds)) (unat sz - 1) = length (s @ ds)" using t(3) z by auto
  note R = rt_vsnprintf_text [OF z0 sz(2) t(1), of m, unfolded n]
  define m' where "m' = (\<lambda>a. if buf \<le> a \<and> a < buf + length (s @ ds) then (s @ ds) ! (a - buf)
    else if a = buf + length (s @ ds) then CHR 0x00 else m a)"
  have "rt_snprintf buf sz ''%d'' [Va_word w] m = Some (int (length (s @ ds)), m')" unfolding rt_snprintf_def R m'_def by (rule refl)
  moreover have "map m' [buf ..< buf + length (s @ ds) + 1] = s @ ds @ [CHR 0x00]"
    using closed_text [of buf "s @ ds" "CHR 0x00" m] unfolding m'_def append_assoc .
  ultimately show ?thesis unfolding s_def [symmetric] using t(2) by blast
qed

end
