(* ===== verification/MemPool.thy ===== *)
theory MemPool
  imports HeapLib Handover
begin

text \<open>
  Memory pools (\<^verbatim>\<open>src/mempool.c\<close>): blocks of one size, each behind a word that links the free
  blocks and, in a block that is in use, names the pool. The words are in the memory of the heaps,
  and a pool that is created takes its memory from the system heap. An address is computed in 32
  bits; 0 is the null pointer.
\<close>

subsection \<open>State\<close>

record rt_mempool =
  start_address :: addr
  mp_size :: u32
  block_size :: u32
  mp_block_list :: addr
  block_total_count :: u32
  block_free_count :: u32

record mp_sys = heap_sys +
  mempools :: "nat \<Rightarrow> rt_mempool"

definition RT_Object_Class_MemPool :: u8 where "RT_Object_Class_MemPool = 8"

definition upd_mp :: "nat \<Rightarrow> (rt_mempool \<Rightarrow> rt_mempool) \<Rightarrow> 'a mp_sys_scheme \<Rightarrow> 'a mp_sys_scheme" where
  "upd_mp n f k = k\<lparr>mempools := (mempools k)(n := f (mempools k n))\<rparr>"

subsection \<open>Creating and removing\<close>

text \<open>The address of block \<open>i\<close>, and the loop that links all of them.\<close>

definition mp_block :: "addr \<Rightarrow> u32 \<Rightarrow> u32 \<Rightarrow> addr" where
  "mp_block st bs i = unat (of_nat st + i * (bs + 4))"

fun mp_link_loop :: "nat \<Rightarrow> u32 \<Rightarrow> addr \<Rightarrow> u32 \<Rightarrow> mem \<Rightarrow> mem" where
  "mp_link_loop 0 off st bs m = m"
| "mp_link_loop (Suc c) off st bs m =
     mp_link_loop c (off + 1) st bs (put_word (mp_block st bs off) (of_nat (mp_block st bs (off + 1))) m)"

definition mp_link :: "addr \<Rightarrow> u32 \<Rightarrow> u32 \<Rightarrow> mem \<Rightarrow> mem" where
  "mp_link st bs cnt m = put_word (mp_block st bs (cnt - 1)) 0 (mp_link_loop (unat cnt) 0 st bs m)"

text \<open>A division by zero is \<open>None\<close>.\<close>

definition rt_mp_init ::
  "nat \<Rightarrow> string \<Rightarrow> addr \<Rightarrow> u32 \<Rightarrow> u32 \<Rightarrow> 'a mp_sys_scheme \<Rightarrow> (int \<times> 'a mp_sys_scheme) option" where
  "rt_mp_init n name st sz bs k = do {
     rt_assert (st \<noteq> 0);
     rt_assert (0 < sz \<and> 0 < bs);
     k \<leftarrow> rt_object_init (Obj_ipc n) RT_Object_Class_MemPool name k;
     let sz = RT_ALIGN_DOWN sz RT_ALIGN_SIZE;
     let bs = RT_ALIGN bs RT_ALIGN_SIZE;
     rt_assert (bs + 4 \<noteq> 0);
     let cnt = sz div (bs + 4);
     let k = upd_mp n (\<lambda>mp. mp\<lparr>start_address := st, mp_size := sz, block_size := bs,
       block_total_count := cnt, block_free_count := cnt\<rparr>) k;
     let k = snd (rt_ipc_object_init (SuspendQ n) k);
     let k = upd_bytes (mp_link st bs cnt) k;
     Some (RT_EOK, upd_mp n (\<lambda>mp. mp\<lparr>mp_block_list := st\<rparr>) k) }"

text \<open>The loops of detach and delete are the one that lets everybody go with an error.\<close>

definition rt_mp_detach :: "nat \<Rightarrow> 'a mp_sys_scheme \<Rightarrow> (int \<times> 'a mp_sys_scheme) option" where
  "rt_mp_detach n k = do {
     rt_assert (rt_object_get_type (Obj_ipc n) k = RT_Object_Class_MemPool);
     rt_assert (rt_object_is_systemobject (Obj_ipc n) k);
     (_, k) \<leftarrow> rt_ipc_list_resume_all (SuspendQ n) k;
     Some (RT_EOK, rt_object_detach (Obj_ipc n) k) }"

text \<open>The object is an argument, the memory of the pool comes from the heap.\<close>

definition mp_create_pool ::
  "nat \<Rightarrow> u32 \<Rightarrow> u32 \<Rightarrow> (addr option, 'w) outcome \<Rightarrow> 'a mp_sys_scheme \<Rightarrow>
   ((nat option, 'w \<times> nat \<times> u32 \<times> u32) outcome \<times> 'a mp_sys_scheme) option" where
  "mp_create_pool n count bs o' k = (case o' of
     Blocks w \<Rightarrow> Some (Blocks (w, n, count, bs), k)
   | Returns None \<Rightarrow> do {
       k \<leftarrow> rt_object_delete (Obj_ipc n) (upd_mp n (\<lambda>mp. mp\<lparr>start_address := 0\<rparr>) k);
       Some (Returns None, k) }
   | Returns (Some st) \<Rightarrow>
       let k = upd_mp n (\<lambda>mp. mp\<lparr>start_address := st, block_total_count := count, block_free_count := count\<rparr>) k;
           k = snd (rt_ipc_object_init (SuspendQ n) k);
           k = upd_bytes (mp_link st bs count) k
       in Some (Returns (Some n), upd_mp n (\<lambda>mp. mp\<lparr>mp_block_list := st\<rparr>) k))"

definition rt_mp_create ::
  "string \<Rightarrow> u32 \<Rightarrow> u32 \<Rightarrow> nat option \<Rightarrow> 'a mp_sys_scheme \<Rightarrow>
   ((nat option, ((tid \<times> u32) \<times> nat \<times> obj_ref list) \<times> nat \<times> u32 \<times> u32) outcome \<times> 'a mp_sys_scheme) option" where
  "rt_mp_create name count bs malloc k = do {
     RT_DEBUG_NOT_IN_INTERRUPT k;
     rt_assert (0 < count \<and> 0 < bs);
     (_, k) \<leftarrow> rt_object_allocate RT_Object_Class_MemPool name (map_option Obj_ipc malloc) k;
     case malloc of None \<Rightarrow> Some (Returns None, k)
     | Some n \<Rightarrow> do {
         let bs = RT_ALIGN bs RT_ALIGN_SIZE;
         let k = upd_mp n (\<lambda>mp. mp\<lparr>block_size := bs, mp_size := (bs + 4) * count\<rparr>) k;
         (o', k) \<leftarrow> rt_malloc ((bs + 4) * count) k;
         mp_create_pool n count bs o' k } }"

definition rt_mp_create_resumed ::
  "((tid \<times> u32) \<times> nat \<times> obj_ref list) \<times> nat \<times> u32 \<times> u32 \<Rightarrow> 'a mp_sys_scheme \<Rightarrow>
   ((nat option, ((tid \<times> u32) \<times> nat \<times> obj_ref list) \<times> nat \<times> u32 \<times> u32) outcome \<times> 'a mp_sys_scheme) option" where
  "rt_mp_create_resumed w k = (case w of (w, n, count, bs) \<Rightarrow> do {
     (o', k) \<leftarrow> rt_malloc_resumed w k;
     mp_create_pool n count bs o' k })"

definition mp_delete_object ::
  "nat \<Rightarrow> (unit, 'w) outcome \<Rightarrow> 'a mp_sys_scheme \<Rightarrow> ((int, 'w \<times> nat) outcome \<times> 'a mp_sys_scheme) option" where
  "mp_delete_object n o' k = (case o' of
     Blocks w \<Rightarrow> Some (Blocks (w, n), k)
   | Returns _ \<Rightarrow> do {
       k \<leftarrow> rt_object_delete (Obj_ipc n) k;
       Some (Returns RT_EOK, k) })"

definition rt_mp_delete ::
  "nat \<Rightarrow> 'a mp_sys_scheme \<Rightarrow> ((int, (tid \<times> addr) \<times> nat) outcome \<times> 'a mp_sys_scheme) option" where
  "rt_mp_delete n k = do {
     RT_DEBUG_NOT_IN_INTERRUPT k;
     rt_assert (rt_object_get_type (Obj_ipc n) k = RT_Object_Class_MemPool);
     rt_assert (\<not> rt_object_is_systemobject (Obj_ipc n) k);
     (_, k) \<leftarrow> rt_ipc_list_resume_all (SuspendQ n) k;
     (o', k) \<leftarrow> rt_free (start_address (mempools k n)) k;
     mp_delete_object n o' k }"

definition rt_mp_delete_resumed ::
  "(tid \<times> addr) \<times> nat \<Rightarrow> 'a mp_sys_scheme \<Rightarrow> ((int, (tid \<times> addr) \<times> nat) outcome \<times> 'a mp_sys_scheme) option" where
  "rt_mp_delete_resumed w k = (case w of (w, n) \<Rightarrow> do {
     (o', k) \<leftarrow> rt_memheap_free_resumed w k;
     mp_delete_object n o' k })"

subsection \<open>Allocating and freeing\<close>

text \<open>A thread that waits is put in front of those that wait already.\<close>

definition mp_wait :: "nat \<Rightarrow> tid \<Rightarrow> int \<Rightarrow> 'a kernel_scheme \<Rightarrow> 'a kernel_scheme option" where
  "mp_wait n t time k = do {
     (_, k) \<leftarrow> rt_thread_suspend t k;
     let k = k\<lparr>tlists := l_push (SuspendQ n) t (tlists k)\<rparr>;
     k \<leftarrow> (if 0 < time then arm_timer t (word_of_int time) k else Some k);
     rt_schedule k }"

definition mp_take :: "nat \<Rightarrow> 'a mp_sys_scheme \<Rightarrow> (addr \<times> 'a mp_sys_scheme) option" where
  "mp_take n k = do {
     let block_ptr = mp_block_list (mempools k n);
     rt_assert (block_ptr \<noteq> 0);
     let k = upd_mp n (\<lambda>mp. mp\<lparr>block_free_count := block_free_count mp - 1,
       mp_block_list := unat (get_word block_ptr (hbytes k))\<rparr>) k;
     Some (block_ptr + 4, upd_bytes (put_word block_ptr (of_nat n)) k) }"

text \<open>
  From the test of the \<open>while\<close> loop on. A thread that blocks keeps itself, the tick it began to wait
  at and its timeout.
\<close>

definition mp_alloc_loop ::
  "nat \<Rightarrow> tid option \<Rightarrow> tick \<Rightarrow> int \<Rightarrow> 'a mp_sys_scheme \<Rightarrow>
   ((addr option, tid \<times> tick \<times> int) outcome \<times> 'a mp_sys_scheme) option" where
  "mp_alloc_loop n thread before_sleep time k =
     (if block_free_count (mempools k n) = 0 then
        if time = 0 then Some (Returns None, rt_set_errno (- RT_ETIMEOUT) k)
        else do {
          RT_DEBUG_NOT_IN_INTERRUPT k;
          t \<leftarrow> thread;
          k' \<leftarrow> mp_wait n t time (upd_thr t (set_error RT_EOK) k);
          Some (Blocks (t, if 0 < time then rt_tick_get k else before_sleep, time), k') }
      else do {
        (p, k) \<leftarrow> mp_take n k;
        Some (Returns (Some p), k) })"

definition rt_mp_alloc ::
  "nat \<Rightarrow> int \<Rightarrow> 'a mp_sys_scheme \<Rightarrow> ((addr option, tid \<times> tick \<times> int) outcome \<times> 'a mp_sys_scheme) option" where
  "rt_mp_alloc n time k = mp_alloc_loop n (rt_thread_self k) 0 time k"

definition rt_mp_alloc_resumed ::
  "nat \<Rightarrow> tid \<times> tick \<times> int \<Rightarrow> 'a mp_sys_scheme \<Rightarrow>
   ((addr option, tid \<times> tick \<times> int) outcome \<times> 'a mp_sys_scheme) option" where
  "rt_mp_alloc_resumed n w k = (case w of (t, before_sleep, time) \<Rightarrow>
     if error (thr k t) \<noteq> RT_EOK then Some (Returns None, k)
     else mp_alloc_loop n (Some t) before_sleep (time_left time (rt_tick_get k - before_sleep)) k)"

text \<open>The pool is the one the word in front of the block names.\<close>

definition rt_mp_free :: "addr \<Rightarrow> 'a mp_sys_scheme \<Rightarrow> 'a mp_sys_scheme option" where
  "rt_mp_free block k =
     (if block = 0 then Some k
      else let block_ptr = unat (of_nat block - 4 :: u32);
               n = unat (get_word block_ptr (hbytes k));
               k = upd_bytes (put_word block_ptr (of_nat (mp_block_list (mempools k n)))) k;
               k = upd_mp n (\<lambda>mp. mp\<lparr>block_free_count := block_free_count mp + 1, mp_block_list := block_ptr\<rparr>) k
           in if tlists k (SuspendQ n) \<noteq> [] then do {
                t \<leftarrow> first_entry (SuspendQ n) k;
                ipc_wake (SuspendQ n) (upd_thr t (set_error RT_EOK) k) }
              else Some k)"

subsection \<open>What the fields see\<close>

lemma upd_mp_sel [simp]:
  "thr (upd_mp n f k) = thr k" "tlists (upd_mp n f k) = tlists k" "rt_current_thread (upd_mp n f k) = rt_current_thread k"
  "rt_interrupt_nest (upd_mp n f k) = rt_interrupt_nest k" "rt_tick (upd_mp n f k) = rt_tick k"
  "objs (upd_mp n f k) = objs k" "objects (upd_mp n f k) = objects k" "timers (upd_mp n f k) = timers k"
  "rt_timer_list (upd_mp n f k) = rt_timer_list k"
  "rt_thread_ready_priority_group (upd_mp n f k) = rt_thread_ready_priority_group k"
  "hbytes (upd_mp n f k) = hbytes k" "heaps (upd_mp n f k) = heaps k" "hitems (upd_mp n f k) = hitems k"
  "sems (upd_mp n f k) = sems k" "mempools (upd_mp n f k) = (mempools k)(n := f (mempools k n))"
  "rt_object_get_type r (upd_mp n f k) = rt_object_get_type r k" "kinv (upd_mp n f k) = kinv k" "ipc_inv (upd_mp n f k) = ipc_inv k"
proof -
  show "kinv (upd_mp n f k) = kinv k" by (rule kinv_cong) (simp_all add: upd_mp_def)
  then show "ipc_inv (upd_mp n f k) = ipc_inv k" by (simp add: ipc_inv_def upd_mp_def)
qed (simp_all add: upd_mp_def object_defs)

lemma upd_bytes_sel [simp]:
  fixes k :: "'a mp_sys_scheme"
  shows "thr (upd_bytes f k) = thr k" "tlists (upd_bytes f k) = tlists k" "rt_current_thread (upd_bytes f k) = rt_current_thread k"
    "rt_interrupt_nest (upd_bytes f k) = rt_interrupt_nest k" "rt_tick (upd_bytes f k) = rt_tick k"
    "mempools (upd_bytes f k) = mempools k" "hbytes (upd_bytes f k) = f (hbytes k)"
    "kinv (upd_bytes f k) = kinv k" "ipc_inv (upd_bytes f k) = ipc_inv k"
proof -
  show "kinv (upd_bytes f k) = kinv k" by (rule kinv_cong) (simp_all add: upd_bytes_def)
  then show "ipc_inv (upd_bytes f k) = ipc_inv k" by (simp add: ipc_inv_def upd_bytes_def)
qed (simp_all add: upd_bytes_def)

lemma same_pools:
  fixes k k' :: "'a mp_sys_scheme"
  assumes "kernel.more k' = kernel.more k"
  shows "mempools k' = mempools k" "hbytes k' = hbytes k" "heaps k' = heaps k" "hitems k' = hitems k" "sems k' = sems k"
  using assms by (cases k; cases k'; simp)+

lemma get_word_other: "a + 4 \<le> b \<or> b + 4 \<le> a \<Longrightarrow> get_word b (put_word a w m) = get_word b m"
  by (auto simp: get_word_def put_word_other)

lemma put_word_outside: "c \<notin> {a ..< a + 4} \<Longrightarrow> put_word a w m c = m c"
  by (rule put_word_other) auto

subsection \<open>The invariant\<close>

fun chain_walk :: "nat \<Rightarrow> mem \<Rightarrow> addr \<Rightarrow> addr list" where
  "chain_walk 0 m p = []"
| "chain_walk (Suc c) m p = (if p = 0 then [] else p # chain_walk c m (unat (get_word p m)))"

fun free_chain :: "mem \<Rightarrow> addr \<Rightarrow> addr list \<Rightarrow> bool" where
  "free_chain m p [] \<longleftrightarrow> p = 0"
| "free_chain m p (x # xs) \<longleftrightarrow> p = x \<and> x \<noteq> 0 \<and> free_chain m (unat (get_word x m)) xs"

definition mp_grid :: "rt_mempool \<Rightarrow> addr set" where
  "mp_grid mp = (\<lambda>i. start_address mp + i * (unat (block_size mp) + 4)) ` {..<unat (block_total_count mp)}"

definition mp_free_list :: "nat \<Rightarrow> 'a mp_sys_scheme \<Rightarrow> addr list" where
  "mp_free_list n k = chain_walk (unat (block_free_count (mempools k n))) (hbytes k) (mp_block_list (mempools k n))"

text \<open>What the client holds: the bytes behind the word of each block that is not free.\<close>

definition mp_held :: "nat \<Rightarrow> 'a mp_sys_scheme \<Rightarrow> (addr \<times> nat) set" where
  "mp_held n k = (\<lambda>x. (x + 4, unat (block_size (mempools k n)))) ` (mp_grid (mempools k n) - set (mp_free_list n k))"

definition mp_inv :: "nat \<Rightarrow> mem \<Rightarrow> rt_mempool \<Rightarrow> addr list \<Rightarrow> bool" where
  "mp_inv n m mp xs \<longleftrightarrow> n < 2 ^ 32 \<and> 0 < start_address mp \<and>
     start_address mp + unat (block_total_count mp) * (unat (block_size mp) + 4) \<le> 2 ^ 32 \<and>
     free_chain m (mp_block_list mp) xs \<and> distinct xs \<and> set xs \<subseteq> mp_grid mp \<and>
     unat (block_free_count mp) = length xs \<and> (\<forall>x \<in> mp_grid mp - set xs. get_word x m = of_nat n)"

definition mp_ok :: "nat \<Rightarrow> 'a mp_sys_scheme \<Rightarrow> bool" where
  "mp_ok n k \<longleftrightarrow> ipc_inv k \<and> mp_inv n (hbytes k) (mempools k n) (mp_free_list n k)"

lemma chain_walk_chain: "free_chain m p xs \<Longrightarrow> chain_walk (length xs) m p = xs"
  by (induction xs arbitrary: p) auto

lemma mp_invD:
  assumes "mp_inv n m mp xs"
  shows "n < 2 ^ 32" "0 < start_address mp"
    "start_address mp + unat (block_total_count mp) * (unat (block_size mp) + 4) \<le> 2 ^ 32"
    "free_chain m (mp_block_list mp) xs" "distinct xs" "set xs \<subseteq> mp_grid mp" "unat (block_free_count mp) = length xs"
    "x \<in> mp_grid mp \<Longrightarrow> x \<notin> set xs \<Longrightarrow> get_word x m = of_nat n"
  using assms by (simp_all add: mp_inv_def)

lemma mp_inv_walk: "mp_inv n m mp xs \<Longrightarrow> chain_walk (unat (block_free_count mp)) m (mp_block_list mp) = xs"
  using mp_invD(4,7) chain_walk_chain by metis

lemma mp_okI: "ipc_inv k \<Longrightarrow> mp_inv n (hbytes k) (mempools k n) xs \<Longrightarrow> mp_ok n k \<and> mp_free_list n k = xs"
  using mp_inv_walk by (fastforce simp: mp_ok_def mp_free_list_def)

text \<open>Different blocks are apart.\<close>

lemma mp_grid_apart:
  assumes "x \<in> mp_grid mp" "y \<in> mp_grid mp" "x \<noteq> y"
  shows "x + (unat (block_size mp) + 4) \<le> y \<or> y + (unat (block_size mp) + 4) \<le> x"
proof -
  obtain i j where x: "x = start_address mp + i * (unat (block_size mp) + 4)" and y: "y = start_address mp + j * (unat (block_size mp) + 4)"
    using assms by (auto simp: mp_grid_def)
  have step: "a * w + w \<le> b * w" if "a < b" for a b w :: nat
  proof -
    have "Suc a * w \<le> b * w" using that by (intro mult_le_mono1) simp
    then show ?thesis by simp
  qed
  have "i < j \<or> j < i" using assms(3) x y by auto
  then show ?thesis using step [of i j "unat (block_size mp) + 4"] step [of j i "unat (block_size mp) + 4"] unfolding x y by linarith
qed

lemma mp_grid_bounds:
  assumes i: "mp_inv n m mp xs" and x: "x \<in> mp_grid mp"
  shows "0 < x" "x + 4 + unat (block_size mp) \<le> 2 ^ 32" "unat (of_nat x :: u32) = x"
proof -
  obtain j where j: "x = start_address mp + j * (unat (block_size mp) + 4)" "j < unat (block_total_count mp)"
    using x by (auto simp: mp_grid_def)
  have "Suc j * (unat (block_size mp) + 4) \<le> unat (block_total_count mp) * (unat (block_size mp) + 4)"
    using j(2) by (intro mult_le_mono1) simp
  then show b: "x + 4 + unat (block_size mp) \<le> 2 ^ 32" using mp_invD(3) [OF i] j(1) by simp
  show "0 < x" using mp_invD(2) [OF i] j(1) by simp
  show "unat (of_nat x :: u32) = x" using b by (simp add: unsigned_of_nat take_bit_nat_eq_self)
qed

lemma free_chain_other:
  "free_chain m p xs \<Longrightarrow> \<forall>x \<in> set xs. get_word x m' = get_word x m \<Longrightarrow> free_chain m' p xs"
  by (induction xs arbitrary: p) auto

text \<open>Writing the word of one block.\<close>

lemma mp_write:
  assumes i: "mp_inv n m mp xs" and x: "x \<in> mp_grid mp" and y: "y \<in> mp_grid mp" "y \<noteq> x"
  shows "get_word y (put_word x w m) = get_word y m"
  using mp_grid_apart [OF x y(1)] y(2) by (intro get_word_other) auto

lemma mp_inv_take:
  assumes i: "mp_inv n m mp (x # xs)"
  shows "mp_inv n (put_word x (of_nat n) m) (mp\<lparr>block_free_count := block_free_count mp - 1, mp_block_list := unat (get_word x m)\<rparr>) xs"
    "x \<in> mp_grid mp" "mp_block_list mp = x" "block_free_count mp \<noteq> 0"
proof -
  note D = mp_invD [OF i]
  show x: "x \<in> mp_grid mp" and "mp_block_list mp = x" using D(4,6) by auto
  show c: "block_free_count mp \<noteq> 0" using D(7) by auto
  then have u: "unat (block_free_count mp - 1) = length xs" using D(7) by (simp add: unat_minus_one)
  have g: "mp_grid (mp\<lparr>block_free_count := c, mp_block_list := p\<rparr>) = mp_grid mp" for c p by (simp add: mp_grid_def)
  have w: "get_word y (put_word x (of_nat n) m) = get_word y m" if "y \<in> mp_grid mp" "y \<noteq> x" for y
    by (rule mp_write [OF i x that])
  have "free_chain (put_word x (of_nat n) m) (unat (get_word x m)) xs"
    by (rule free_chain_other [of m]) (use D(4,5,6) w in auto)
  moreover have "get_word y (put_word x (of_nat n) m) = of_nat n" if "y \<in> mp_grid mp" "y \<notin> set xs" for y
    using w [OF that(1)] D(8) [OF that(1)] that(2) by (cases "y = x") (simp_all add: get_put_word)
  ultimately show "mp_inv n (put_word x (of_nat n) m) (mp\<lparr>block_free_count := block_free_count mp - 1, mp_block_list := unat (get_word x m)\<rparr>) xs"
    using D u unfolding mp_inv_def g by simp
qed

lemma mp_inv_give:
  assumes i: "mp_inv n m mp xs" and x: "x \<in> mp_grid mp" "x \<notin> set xs"
  shows "mp_inv n (put_word x (of_nat (mp_block_list mp)) m) (mp\<lparr>block_free_count := block_free_count mp + 1, mp_block_list := x\<rparr>) (x # xs)"
    "get_word x m = of_nat n" "unat (of_nat n :: u32) = n"
proof -
  note D = mp_invD [OF i] and B = mp_grid_bounds [OF i x(1)]
  show "get_word x m = of_nat n" by (rule D(8) [OF x])
  show "unat (of_nat n :: u32) = n" using D(1) by (simp add: unsigned_of_nat take_bit_nat_eq_self)
  have g: "mp_grid (mp\<lparr>block_free_count := c, mp_block_list := p\<rparr>) = mp_grid mp" for c p by (simp add: mp_grid_def)
  have w: "get_word y (put_word x v m) = get_word y m" if "y \<in> mp_grid mp" "y \<noteq> x" for y v
    by (rule mp_write [OF i x(1) that])
  have "finite (mp_grid mp)" "card (mp_grid mp) \<le> unat (block_total_count mp)"
    using card_image_le [of "{..<unat (block_total_count mp)}"] by (simp_all add: mp_grid_def)
  then have "length (x # xs) \<le> unat (block_total_count mp)"
    using card_mono [of "mp_grid mp" "set (x # xs)"] distinct_card [of "x # xs"] D(5,6) x by simp
  then have "length xs < 2 ^ 32 - 1" using unsigned_less [where 'a = nat, of "block_total_count mp"] by simp
  then have u: "unat (block_free_count mp + 1) = Suc (length xs)" using D(7) by (simp add: unat_add_small)
  have h: "unat (of_nat (mp_block_list mp) :: u32) = mp_block_list mp"
  proof (cases xs)
    case Nil
    then show ?thesis using D(4) by simp
  next
    case (Cons y ys)
    then show ?thesis using D(4,6) mp_grid_bounds(3) [OF i, of y] by simp
  qed
  have "free_chain (put_word x (of_nat (mp_block_list mp)) m) (mp_block_list mp) xs"
    by (rule free_chain_other [of m]) (use D(4,6) w x(2) in auto)
  then have "free_chain (put_word x (of_nat (mp_block_list mp)) m) x (x # xs)" using B(1) h by (simp add: get_put_word)
  moreover have "get_word y (put_word x v m) = of_nat n" if "y \<in> mp_grid mp" "y \<notin> set (x # xs)" for y v
    using w [OF that(1)] D(8) [OF that(1)] that(2) by simp
  ultimately show "mp_inv n (put_word x (of_nat (mp_block_list mp)) m) (mp\<lparr>block_free_count := block_free_count mp + 1, mp_block_list := x\<rparr>) (x # xs)"
    using D u x unfolding mp_inv_def g by simp
qed

subsection \<open>Allocating\<close>

text \<open>What is held depends on the free list and the shape of the pool only.\<close>

definition same_shape :: "nat \<Rightarrow> 'a mp_sys_scheme \<Rightarrow> 'a mp_sys_scheme \<Rightarrow> bool" where
  "same_shape n k k' \<longleftrightarrow> mp_grid (mempools k' n) = mp_grid (mempools k n) \<and>
     block_size (mempools k' n) = block_size (mempools k n) \<and> block_total_count (mempools k' n) = block_total_count (mempools k n) \<and>
     heaps k' = heaps k \<and> hitems k' = hitems k \<and> (\<forall>i. i \<noteq> n \<longrightarrow> mempools k' i = mempools k i)"

lemma mp_held_free:
  assumes "x \<in> mp_grid (mempools k n)" "x \<notin> set (mp_free_list n k)" "same_shape n k k'" "mp_free_list n k' = x # mp_free_list n k"
  shows "mp_held n k' = mp_held n k - {(x + 4, unat (block_size (mempools k n)))}"
  using assms by (auto simp: mp_held_def same_shape_def)

lemma mp_held_take:
  assumes "x \<in> mp_grid (mempools k n)" "mp_free_list n k = x # xs" "same_shape n k k'" "mp_free_list n k' = xs" "x \<notin> set xs"
  shows "mp_held n k' = insert (x + 4, unat (block_size (mempools k n))) (mp_held n k)" "x + 4 \<notin> fst ` mp_held n k"
  using assms by (auto simp: mp_held_def same_shape_def)

lemma mp_take_ok:
  assumes ok: "mp_ok n k" and f: "mp_free_list n k = x # xs"
  shows "\<exists>k'. mp_take n k = Some (x + 4, k') \<and> mp_ok n k' \<and> mp_free_list n k' = xs \<and> same_shape n k k' \<and>
    thr k' = thr k \<and> tlists k' = tlists k \<and>
    mp_held n k' = insert (x + 4, unat (block_size (mempools k n))) (mp_held n k) \<and> x + 4 \<notin> fst ` mp_held n k \<and>
    (\<forall>a. a \<notin> {x ..< x + 4} \<longrightarrow> hbytes k' a = hbytes k a)"
proof -
  have i: "mp_inv n (hbytes k) (mempools k n) (x # xs)" using ok f by (simp add: mp_ok_def)
  note T = mp_inv_take [OF i]
  let ?mp = "(mempools k n)\<lparr>block_free_count := block_free_count (mempools k n) - 1, mp_block_list := unat (get_word x (hbytes k))\<rparr>"
  let ?k = "upd_bytes (put_word x (of_nat n)) (upd_mp n (\<lambda>_. ?mp) k)"
  have run: "mp_take n k = Some (x + 4, ?k)" using T(3) mp_grid_bounds(1) [OF i T(2)]
    by (simp add: mp_take_def Let_def upd_mp_def)
  have "ipc_inv ?k" using ok by (simp add: mp_ok_def)
  from mp_okI [OF this] T(1) have K: "mp_ok n ?k" "mp_free_list n ?k = xs" by simp_all
  have s: "same_shape n k ?k" by (simp add: same_shape_def mp_grid_def upd_bytes_def)
  have "x \<notin> set xs" using mp_invD(5) [OF i] by simp
  note H = mp_held_take [OF T(2) f s K(2) this]
  show ?thesis using run K s H by (intro exI [of _ ?k]) (simp add: put_word_outside del: atLeastLessThan_iff)
qed

lemma rt_mp_alloc_takes:
  assumes ok: "mp_ok n k" and f: "mp_free_list n k = x # xs"
  shows "\<exists>k'. rt_mp_alloc n time k = Some (Returns (Some (x + 4)), k') \<and> mp_ok n k' \<and> mp_free_list n k' = xs \<and> same_shape n k k' \<and>
    mp_held n k' = insert (x + 4, unat (block_size (mempools k n))) (mp_held n k) \<and> x + 4 \<notin> fst ` mp_held n k \<and>
    (\<forall>a. a \<notin> {x ..< x + 4} \<longrightarrow> hbytes k' a = hbytes k a)"
proof -
  have "mp_inv n (hbytes k) (mempools k n) (x # xs)" using ok f by (simp add: mp_ok_def)
  then have "block_free_count (mempools k n) \<noteq> 0" by (rule mp_inv_take(4))
  then show ?thesis using mp_take_ok [OF assms] by (auto simp: rt_mp_alloc_def mp_alloc_loop_def)
qed

lemma mp_free_list_count: "mp_ok n k \<Longrightarrow> length (mp_free_list n k) = unat (block_free_count (mempools k n))"
  using mp_invD(7) by (fastforce simp: mp_ok_def)

lemma mp_empty: "mp_ok n k \<Longrightarrow> mp_free_list n k = [] \<longleftrightarrow> block_free_count (mempools k n) = 0"
  using mp_free_list_count [of n k] by (auto simp: unat_eq_0)

lemma rt_set_errno_pool:
  fixes k :: "'a mp_sys_scheme"
  shows "mempools (rt_set_errno e k) = mempools k" "hbytes (rt_set_errno e k) = hbytes k" "heaps (rt_set_errno e k) = heaps k"
    "hitems (rt_set_errno e k) = hitems k"
  by (simp_all add: rt_set_errno_def upd_thr_def split: option.splits)

lemma rt_set_errno_inv: "ipc_inv k \<Longrightarrow> ipc_inv (rt_set_errno e k)"
  by (simp add: rt_set_errno_def ipc_inv_def split: option.splits)

lemma rt_mp_alloc_empty:
  assumes ok: "mp_ok n k" and f: "mp_free_list n k = []"
  shows "rt_mp_alloc n 0 k = Some (Returns None, rt_set_errno (- RT_ETIMEOUT) k)" "mp_ok n (rt_set_errno (- RT_ETIMEOUT) k)"
    "mp_free_list n (rt_set_errno (- RT_ETIMEOUT) k) = []" "same_shape n k (rt_set_errno (- RT_ETIMEOUT) k)"
    "mp_held n (rt_set_errno (- RT_ETIMEOUT) k) = mp_held n k"
  using mp_empty [OF ok] f ok
  by (simp_all add: rt_mp_alloc_def mp_alloc_loop_def mp_ok_def mp_free_list_def rt_set_errno_pool rt_set_errno_inv same_shape_def mp_held_def)

subsection \<open>Giving back\<close>

lemma mp_ok_frame:
  fixes k k' :: "'a mp_sys_scheme"
  assumes "mp_ok n k" "kernel.more k' = kernel.more k" "ipc_inv k'"
  shows "mp_ok n k'" "mp_free_list n k' = mp_free_list n k" "same_shape n k k'" "mp_held n k' = mp_held n k"
  using assms same_pools [OF assms(2)] by (simp_all add: mp_ok_def mp_free_list_def same_shape_def mp_held_def)

lemma rt_mp_free_ok:
  assumes ok: "mp_ok n k" and p: "(p, s) \<in> mp_held n k"
  shows "\<exists>k'. rt_mp_free p k = Some k' \<and> mp_ok n k' \<and> mp_free_list n k' = (p - 4) # mp_free_list n k \<and> same_shape n k k' \<and>
    mp_held n k' = mp_held n k - {(p, s)} \<and>
    tlists k' (SuspendQ n) = drop 1 (tlists k (SuspendQ n)) \<and>
    (\<forall>u. runnable (state_of k' u) \<longleftrightarrow> runnable (state_of k u) \<or> u \<in> set (take 1 (tlists k (SuspendQ n)))) \<and>
    (\<forall>u. error (thr k' u) = (if u \<in> set (take 1 (tlists k (SuspendQ n))) then RT_EOK else error (thr k u))) \<and>
    (\<forall>a. a \<notin> {p - 4 ..< p} \<longrightarrow> hbytes k' a = hbytes k a)"
proof -
  have i: "mp_inv n (hbytes k) (mempools k n) (mp_free_list n k)" "ipc_inv k" using ok by (simp_all add: mp_ok_def)
  obtain x where x: "p = x + 4" "x \<in> mp_grid (mempools k n)" "x \<notin> set (mp_free_list n k)" "s = unat (block_size (mempools k n))"
    using p by (auto simp: mp_held_def)
  note G = mp_inv_give [OF i(1) x(2,3)] and B = mp_grid_bounds [OF i(1) x(2)]
  have "of_nat p - 4 = (of_nat x :: u32)" using x(1) by simp
  then have bp: "unat (of_nat p - 4 :: u32) = x" using B(3) by simp
  let ?mp = "(mempools k n)\<lparr>block_free_count := block_free_count (mempools k n) + 1, mp_block_list := x\<rparr>"
  let ?k = "upd_mp n (\<lambda>_. ?mp) (upd_bytes (put_word x (of_nat (mp_block_list (mempools k n)))) k)"
  have K: "ipc_inv ?k" using i(2) by simp
  from mp_okI [OF this] G(1) have K': "mp_ok n ?k" "mp_free_list n ?k = x # mp_free_list n k" by simp_all
  have s: "same_shape n k ?k" by (simp add: same_shape_def mp_grid_def upd_bytes_def)
  note H = mp_held_free [OF x(2,3) s K'(2)]
  have run: "rt_mp_free p k = (if tlists k (SuspendQ n) \<noteq> [] then do {
      t \<leftarrow> first_entry (SuspendQ n) ?k;
      ipc_wake (SuspendQ n) (upd_thr t (set_error RT_EOK) ?k) } else Some ?k)"
    using x(1) bp G(2,3) by (simp add: rt_mp_free_def Let_def upd_mp_def)
  have b: "hbytes ?k a = hbytes k a" if "a \<notin> {p - 4 ..< p}" for a using that x(1) by (simp add: put_word_outside del: atLeastLessThan_iff)
  show ?thesis
  proof (cases "tlists k (SuspendQ n)")
    case Nil
    then show ?thesis using run K' s H x b by (intro exI [of _ ?k]) simp
  next
    case (Cons t ts)
    let ?k1 = "upd_thr t (set_error RT_EOK) ?k"
    have 1: "kinv ?k1" "rt_current_thread ?k1 \<noteq> None" "tlists ?k1 (SuspendQ n) = t # ts" using K Cons by (simp_all add: ipc_inv_def)
    obtain k' where w: "ipc_wake (SuspendQ n) ?k1 = Some k'" "kinv k'" "rt_current_thread k' \<noteq> None" "tlists k' (SuspendQ n) = ts"
      "wakes (SuspendQ n) {t} ?k1 k'" "\<forall>u. error (thr k' u) = error (thr ?k1 u)"
      using ipc_wake_kinv [OF 1(1,2) waiting_list_simps(1) 1(3)] by blast
    have m: "kernel.more k' = kernel.more ?k" using wakes_frame [OF w(5)] by (simp add: ipc_frame_def upd_thr_def)
    have "ipc_inv k'" using w(2,3) by (simp add: ipc_inv_def)
    note F = mp_ok_frame [OF K'(1) m this] and P = same_pools [OF m]
    have "rt_mp_free p k = Some k'" using run w(1) Cons by (simp add: first_entry_def)
    moreover have "same_shape n k k'" using s P by (simp add: same_shape_def)
    ultimately show ?thesis using F K' H x b P w(4,6) wakes_runnable [OF w(5)] Cons by (intro exI [of _ k']) simp
  qed
qed

end
