(* ===== verification/PoolUse.thy ===== *)
theory PoolUse
  imports MemPool
begin

text \<open>
  The memory pools as their clients use them: a pool is an allocator, a block given back at once
  leaves no trace, a caller that has to wait is served before those that wait already, and a pool is
  threaded through the memory it is given, which for a created pool is a block of the system heap.
\<close>

subsection \<open>A pool is an allocator\<close>

definition mp_alloc_now :: "nat \<Rightarrow> unit \<Rightarrow> 'a mp_sys_scheme \<Rightarrow> (addr option \<times> 'a mp_sys_scheme) option" where
  "mp_alloc_now n u k = do {
     (o', k) \<leftarrow> rt_mp_alloc n 0 k;
     case o' of Returns r \<Rightarrow> Some (r, k) | Blocks _ \<Rightarrow> None }"

lemma mp_held_apart: "mp_ok n k \<Longrightarrow> held_apart (mp_held n k)"
  using mp_grid_apart [of _ "mempools k n"] by (fastforce simp: held_apart_def mp_held_def)

lemma mp_alloc_now_law:
  assumes "mp_ok n k"
  shows "\<exists>r k'. mp_alloc_now n u k = Some (r, k') \<and> mp_ok n k' \<and> same_shape n k k' \<and>
    (case r of None \<Rightarrow> mp_held n k' = mp_held n k
     | Some p \<Rightarrow> p \<notin> fst ` mp_held n k \<and> mp_held n k' = insert (p, unat (block_size (mempools k n))) (mp_held n k))"
proof (cases "mp_free_list n k")
  case Nil
  from rt_mp_alloc_empty [OF assms Nil] show ?thesis by (simp add: mp_alloc_now_def)
next
  case (Cons x xs)
  from rt_mp_alloc_takes [OF assms Cons, of 0] obtain k' where "rt_mp_alloc n 0 k = Some (Returns (Some (x + 4)), k')" "mp_ok n k'"
    "same_shape n k k'" "mp_held n k' = insert (x + 4, unat (block_size (mempools k n))) (mp_held n k)" "x + 4 \<notin> fst ` mp_held n k"
    by (elim exE conjE) (rule that; assumption)
  then show ?thesis by (simp add: mp_alloc_now_def)
qed

interpretation mempool: allocator "\<lambda>k. mp_ok n k \<and> unat (block_size (mempools k n)) = s" "mp_held n" "mp_alloc_now n" rt_mp_free "\<lambda>_. s"
  for n s
proof
  fix k :: "'a mp_sys_scheme" and u
  assume k: "mp_ok n k \<and> unat (block_size (mempools k n)) = s"
  show "held_apart (mp_held n k)" using mp_held_apart k by blast
  obtain r k' where "mp_alloc_now n u k = Some (r, k')" "mp_ok n k'" "same_shape n k k'"
    "case r of None \<Rightarrow> mp_held n k' = mp_held n k
     | Some p \<Rightarrow> p \<notin> fst ` mp_held n k \<and> mp_held n k' = insert (p, unat (block_size (mempools k n))) (mp_held n k)"
    using mp_alloc_now_law [OF conjunct1 [OF k], of u] by (elim exE conjE) (rule that; assumption)
  then show "\<exists>r k'. mp_alloc_now n u k = Some (r, k') \<and> (mp_ok n k' \<and> unat (block_size (mempools k' n)) = s) \<and>
      (case r of None \<Rightarrow> mp_held n k' = mp_held n k
       | Some p \<Rightarrow> \<exists>t \<ge> s. p \<notin> fst ` mp_held n k \<and> mp_held n k' = insert (p, t) (mp_held n k))"
    using k by (auto simp: same_shape_def split: option.splits)
next
  fix k :: "'a mp_sys_scheme" and p s' t
  assume "(p, s') \<in> mp_held n k" "(p, t) \<in> mp_held n k"
  then show "s' = t" by (auto simp: mp_held_def)
next
  fix k :: "'a mp_sys_scheme" and p s'
  assume k: "mp_ok n k \<and> unat (block_size (mempools k n)) = s" and p: "(p, s') \<in> mp_held n k"
  show "\<exists>k'. rt_mp_free p k = Some k' \<and> (mp_ok n k' \<and> unat (block_size (mempools k' n)) = s) \<and> mp_held n k' = mp_held n k - {(p, s')}"
    using rt_mp_free_ok [of n k p s'] k p by (auto simp: same_shape_def)
qed

text \<open>Round trip: a block that is given back at once leaves the whole state as it was.\<close>

lemma put_get_word [simp]: "put_word a (get_word a m) m = m"
  using word_bytes [where a = a and m = m] by (auto simp: put_word_def fun_eq_iff)

lemma put_put_word [simp]: "put_word a v (put_word a w m) = put_word a v m"
  by (auto simp: put_word_def fun_eq_iff)

lemma alloc_then_free:
  assumes ok: "mp_ok n k" and r: "rt_mp_alloc n time k = Some (Returns (Some p), k')" and w: "tlists k (SuspendQ n) = []"
  shows "rt_mp_free p k' = Some k"
proof -
  have i: "mp_inv n (hbytes k) (mempools k n) (mp_free_list n k)" using ok by (simp add: mp_ok_def)
  have ne: "block_free_count (mempools k n) \<noteq> 0"
    using r by (auto simp: rt_mp_alloc_def mp_alloc_loop_def split: if_splits bind_splits)
  then obtain x xs where f: "mp_free_list n k = x # xs" using mp_empty [OF ok] by (cases "mp_free_list n k") auto
  note T = mp_inv_take [OF i [unfolded f]] and B = mp_grid_bounds [OF i, of x]
  let ?mp = "(mempools k n)\<lparr>block_free_count := block_free_count (mempools k n) - 1, mp_block_list := unat (get_word x (hbytes k))\<rparr>"
  have k': "k' = upd_bytes (put_word x (of_nat n)) (upd_mp n (\<lambda>_. ?mp) k)" "p = x + 4"
    using r T(3) ne B(1) [OF T(2)] by (simp_all add: rt_mp_alloc_def mp_alloc_loop_def mp_take_def Let_def upd_mp_def)
  have "of_nat p - 4 = (of_nat x :: u32)" using k'(2) by simp
  then have bp: "unat (of_nat p - 4 :: u32) = x" using B(3) [OF T(2)] by simp
  have n: "unat (of_nat n :: u32) = n" using mp_invD(1) [OF i] by (simp add: unsigned_of_nat take_bit_nat_eq_self)
  have same: "(mempools k n)\<lparr>mp_block_list := x\<rparr> = mempools k n" by (rule rt_mempool.equality) (simp_all add: T(3))
  have "rt_mp_free p k' = Some (k\<lparr>mempools := (mempools k)(n := (mempools k n)\<lparr>mp_block_list := x\<rparr>)\<rparr>)"
    using k' bp n w T(3) by (simp add: rt_mp_free_def Let_def upd_mp_def upd_bytes_def get_put_word)
  then show ?thesis unfolding same by simp
qed

subsection \<open>Waiting\<close>

lemma mp_wait_kinv:
  assumes k: "kinv k" and c: "rt_current_thread k = Some t" "state_of k t = RT_THREAD_RUNNING" and time: "time < 2 ^ 31 - 1"
  shows "\<exists>k'. mp_wait n t time k = Some k' \<and> kinv k' \<and> rt_current_thread k' \<noteq> None \<and>
    state_of k' t = RT_THREAD_SUSPEND \<and> tlists k' (SuspendQ n) = t # tlists k (SuspendQ n) \<and> waits (SuspendQ n) t k k' \<and>
    (Thread_timer t \<in> set (rt_timer_list k') \<longleftrightarrow> 0 < time) \<and>
    (0 < time \<longrightarrow> expiry k' (Thread_timer t) = rt_tick k + word_of_int time)"
proof -
  obtain k1 where s: "rt_thread_suspend t k = Some (RT_EOK, k1)" "kinv k1" "floating t k1" "thread_frame t k k1"
    "tlists k1 = l_unlink t (tlists k)" using rt_thread_suspend_kinv [OF k, of t] c(2) by blast
  have "t \<notin> set (tlists k (SuspendQ n))" using c(2) kinv_linked [OF k, of t "SuspendQ n"] by auto
  then have q: "tlists k1 (SuspendQ n) = tlists k (SuspendQ n)" by (simp add: s(5) unlink_notin)
  let ?k = "k1\<lparr>tlists := l_push (SuspendQ n) t (tlists k1)\<rparr>"
  have "unlinked t (tlists k1)" using s(3) by (simp add: floating_def)
  then have ki: "kinv ?k"
    using lists_ok_push [OF kinv_lists [OF s(2)]] by (intro enqueue_kinv [OF s(2,3) waiting_list_simps(1)]) (auto simp: l_push_def)
  have fr: "thread_frame t k ?k" using s(4) by (simp add: thread_frame_def)
  have st: "state_of ?k t = RT_THREAD_SUSPEND" "Thread_timer t \<notin> set (rt_timer_list ?k)" using s(3) by (simp_all add: floating_def)
  have tl: "tlists ?k = (l_unlink t (tlists k))(SuspendQ n := t # tlists k (SuspendQ n))" using s(5) q by (simp add: l_push_def)
  have "mp_wait n t time k = do { k \<leftarrow> (if 0 < time then arm_timer t (word_of_int time) ?k else Some ?k); rt_schedule k }"
    using s(1) by (simp add: mp_wait_def Let_def)
  then show ?thesis using suspended_waits [OF k c waiting_list_simps(1) time ki fr st tl] by (simp only:)
qed

lemma rt_mp_alloc_waits:
  assumes ok: "mp_ok n k" and f: "mp_free_list n k = []" and c: "caller t k" and time: "time \<noteq> 0" "time < 2 ^ 31 - 1"
  shows "\<exists>k'. rt_mp_alloc n time k = Some (Blocks (t, if 0 < time then rt_tick_get k else 0, time), k') \<and> mp_ok n k' \<and>
    mp_free_list n k' = [] \<and> mp_held n k' = mp_held n k \<and> state_of k' t = RT_THREAD_SUSPEND \<and>
    tlists k' (SuspendQ n) = t # tlists k (SuspendQ n) \<and>
    (Thread_timer t \<in> set (rt_timer_list k') \<longleftrightarrow> 0 < time) \<and>
    (0 < time \<longrightarrow> expiry k' (Thread_timer t) = rt_tick k + word_of_int time)"
proof -
  let ?k = "upd_thr t (set_error RT_EOK) k"
  have "kinv ?k" "rt_current_thread ?k = Some t" "state_of ?k t = RT_THREAD_RUNNING"
    using ok c by (simp_all add: mp_ok_def ipc_inv_def caller_def)
  from mp_wait_kinv [OF this time(2), of n] obtain k' where w: "mp_wait n t time ?k = Some k'" "kinv k'" "rt_current_thread k' \<noteq> None"
    "state_of k' t = RT_THREAD_SUSPEND" "tlists k' (SuspendQ n) = t # tlists ?k (SuspendQ n)" "waits (SuspendQ n) t ?k k'"
    "Thread_timer t \<in> set (rt_timer_list k') \<longleftrightarrow> 0 < time" "0 < time \<longrightarrow> expiry k' (Thread_timer t) = rt_tick ?k + word_of_int time"
    by (elim exE conjE) (rule that; assumption)
  have m: "kernel.more k' = kernel.more k" using waits_frame [OF w(6)] by (simp add: ipc_frame_def upd_thr_def)
  have "ipc_inv k'" using w(2,3) by (simp add: ipc_inv_def)
  note F = mp_ok_frame [OF ok m this]
  have "block_free_count (mempools k n) = 0" using mp_empty [OF ok] f by simp
  moreover have "RT_DEBUG_NOT_IN_INTERRUPT k = Some ()"
    using c by (simp add: caller_def RT_DEBUG_NOT_IN_INTERRUPT_def rt_interrupt_get_nest_def)
  ultimately have "rt_mp_alloc n time k = Some (Blocks (t, if 0 < time then rt_tick_get k else 0, time), k')"
    using w(1) time(1) c by (simp add: rt_mp_alloc_def mp_alloc_loop_def)
  then show ?thesis using F f w(4,5,7,8) by (intro exI [of _ k']) simp
qed

text \<open>The last one to come is the first one to be served.\<close>

lemma rt_mp_alloc_handover:
  assumes ok: "mp_ok n k" and f: "mp_free_list n k = []" and c: "caller t k" and time: "time \<noteq> 0" "time < 2 ^ 31 - 1"
    and p: "(p, s) \<in> mp_held n k"
  shows "\<exists>w k1 k2 k3. rt_mp_alloc n time k = Some (Blocks w, k1) \<and> rt_mp_free p k1 = Some k2 \<and> mp_ok n k2 \<and>
    runnable (state_of k2 t) \<and> tlists k2 (SuspendQ n) = tlists k (SuspendQ n) \<and>
    rt_mp_alloc_resumed n w k2 = Some (Returns (Some p), k3) \<and> mp_ok n k3 \<and> mp_held n k3 = mp_held n k"
proof -
  let ?w = "(t, if 0 < time then rt_tick_get k else 0, time)"
  obtain k1 where a: "rt_mp_alloc n time k = Some (Blocks ?w, k1)" "mp_ok n k1" "mp_free_list n k1 = []" "mp_held n k1 = mp_held n k"
    "tlists k1 (SuspendQ n) = t # tlists k (SuspendQ n)"
    using rt_mp_alloc_waits [OF ok f c time] by (elim exE conjE) (rule that; assumption)
  have p1: "(p, s) \<in> mp_held n k1" using p a(4) by simp
  obtain k2 where g: "rt_mp_free p k1 = Some k2" "mp_ok n k2" "mp_free_list n k2 = [p - 4]" "same_shape n k1 k2"
    "mp_held n k2 = mp_held n k1 - {(p, s)}" "tlists k2 (SuspendQ n) = tlists k (SuspendQ n)" "runnable (state_of k2 t)"
    "error (thr k2 t) = RT_EOK"
    using rt_mp_free_ok [OF a(2) p1] a(3,5) by auto
  obtain x where x: "p = x + 4" "s = unat (block_size (mempools k1 n))" using p1 by (auto simp: mp_held_def)
  have f2: "mp_free_list n k2 = [x]" using g(3) x(1) by simp
  from mp_take_ok [OF g(2) f2] obtain k3 where h: "mp_take n k2 = Some (p, k3)" "mp_ok n k3"
    "mp_held n k3 = insert (p, unat (block_size (mempools k2 n))) (mp_held n k2)" using x(1) by auto
  have "mp_inv n (hbytes k2) (mempools k2 n) [x]" using g(2) f2 by (simp add: mp_ok_def)
  then have "block_free_count (mempools k2 n) \<noteq> 0" by (rule mp_inv_take(4))
  then have "rt_mp_alloc_resumed n ?w k2 = Some (Returns (Some p), k3)"
    using g(8) h(1) by (simp add: rt_mp_alloc_resumed_def mp_alloc_loop_def)
  moreover have "mp_held n k3 = mp_held n k" using h(3) g(4,5) a(4) p x(2) by (auto simp: same_shape_def)
  ultimately show ?thesis using a(1) g(1,2,6,7) h(2) by blast
qed

end
