(* ===== verification/PoolInit.thy ===== *)
theory PoolInit
  imports PoolUse
begin

text \<open>
  How a pool comes to be: the loop that threads the blocks, \<open>rt_mp_init\<close> on memory of the caller and
  \<open>rt_mp_create\<close> on a block of the system heap.
\<close>

subsection \<open>Threading the blocks\<close>

lemma mp_block_word: "(of_nat (mp_block st bs (of_nat i)) :: u32) = of_nat (st + i * (unat bs + 4))"
  by (simp add: mp_block_def)

lemma mp_block_at: "st + i * (unat bs + 4) < 2 ^ 32 \<Longrightarrow> mp_block st bs (of_nat i) = st + i * (unat bs + 4)"
proof -
  assume l: "st + i * (unat bs + 4) < 2 ^ 32"
  have "mp_block st bs (of_nat i) = unat (of_nat (st + i * (unat bs + 4)) :: u32)" by (simp add: mp_block_def)
  then show ?thesis using l by (simp only: unsigned_of_nat) (simp add: take_bit_nat_eq_self)
qed

lemma block_order: "i < j \<Longrightarrow> st + i * w + w \<le> st + j * (w :: nat)"
proof -
  assume "i < j"
  then have "Suc i * w \<le> j * w" by (intro mult_le_mono1) simp
  then show ?thesis by simp
qed

lemma mp_link_loop_at:
  assumes "st + (j + c) * (unat bs + 4) \<le> 2 ^ 32"
  shows "(\<forall>i. j \<le> i \<longrightarrow> i < j + c \<longrightarrow>
      get_word (st + i * (unat bs + 4)) (mp_link_loop c (of_nat j) st bs m) = of_nat (st + Suc i * (unat bs + 4))) \<and>
    (\<forall>a. (a < st + j * (unat bs + 4) \<or> st + (j + c) * (unat bs + 4) \<le> a) \<longrightarrow> mp_link_loop c (of_nat j) st bs m a = m a)"
  using assms
proof (induction c arbitrary: j m)
  case (Suc c)
  let ?w = "unat bs + 4"
  let ?m = "put_word (st + j * ?w) (of_nat (st + Suc j * ?w)) m"
  have le: "st + j * ?w + ?w \<le> st + (j + Suc c) * ?w" by (rule block_order) simp
  then have "st + j * ?w < 2 ^ 32" using Suc.prems by linarith
  then have at: "mp_block st bs (of_nat j) = st + j * ?w" by (rule mp_block_at)
  have nx: "of_nat j + 1 = (of_nat (Suc j) :: u32)" by simp
  have run: "mp_link_loop (Suc c) (of_nat j) st bs m = mp_link_loop c (of_nat (Suc j)) st bs ?m"
    unfolding mp_link_loop.simps at nx mp_block_word ..
  have "st + (Suc j + c) * ?w \<le> 2 ^ 32" using Suc.prems by simp
  from Suc.IH [OF this, of ?m]
  have IH: "\<And>i. Suc j \<le> i \<Longrightarrow> i < Suc j + c \<Longrightarrow> get_word (st + i * ?w) (mp_link_loop c (of_nat (Suc j)) st bs ?m) = of_nat (st + Suc i * ?w)"
    "\<And>a. a < st + Suc j * ?w \<or> st + (Suc j + c) * ?w \<le> a \<Longrightarrow> mp_link_loop c (of_nat (Suc j)) st bs ?m a = ?m a" by blast+
  have first: "get_word (st + j * ?w) (mp_link_loop c (of_nat (Suc j)) st bs ?m) = of_nat (st + Suc j * ?w)"
  proof -
    have "get_word (st + j * ?w) (mp_link_loop c (of_nat (Suc j)) st bs ?m) = get_word (st + j * ?w) ?m"
      unfolding get_word_def by (subst (1 2 3 4) IH(2); simp)
    then show ?thesis by (simp add: get_put_word)
  qed
  have "get_word (st + i * ?w) (mp_link_loop (Suc c) (of_nat j) st bs m) = of_nat (st + Suc i * ?w)"
    if "j \<le> i" "i < j + Suc c" for i
    unfolding run using IH(1) [of i] first that by (cases "i = j") auto
  moreover have "mp_link_loop (Suc c) (of_nat j) st bs m a = m a" if "a < st + j * ?w \<or> st + (j + Suc c) * ?w \<le> a" for a
  proof -
    have "a < st + Suc j * ?w \<or> st + (Suc j + c) * ?w \<le> a" using that by auto
    moreover have "a < st + j * ?w \<or> st + j * ?w + 4 \<le> a" using that le by linarith
    ultimately show ?thesis unfolding run using IH(2) [of a] put_word_other by simp
  qed
  ultimately show ?case by blast
qed simp

lemma mp_link_at:
  assumes "0 < cnt" "st + unat cnt * (unat bs + 4) \<le> 2 ^ 32"
  shows "i < unat cnt \<Longrightarrow>
      get_word (st + i * (unat bs + 4)) (mp_link st bs cnt m) = (if Suc i = unat cnt then 0 else of_nat (st + Suc i * (unat bs + 4)))"
    "a < st \<or> st + unat cnt * (unat bs + 4) \<le> a \<Longrightarrow> mp_link st bs cnt m a = m a"
proof -
  let ?w = "unat bs + 4" and ?m = "mp_link_loop (unat cnt) 0 st bs m"
  have "st + (0 + unat cnt) * ?w \<le> 2 ^ 32" using assms(2) by simp
  note L = mp_link_loop_at [OF this, of m]
  have c: "0 < unat cnt" using assms(1) by (simp add: word_less_nat_alt)
  then have le: "st + (unat cnt - 1) * ?w + ?w \<le> st + unat cnt * ?w" by (intro block_order) simp
  have "cnt - 1 = of_nat (unat cnt - 1)" using c by (simp add: of_nat_diff)
  then have last: "mp_block st bs (cnt - 1) = st + (unat cnt - 1) * ?w"
    using mp_block_at [of st "unat cnt - 1" bs] le assms(2) by simp
  have run: "mp_link st bs cnt m = put_word (st + (unat cnt - 1) * ?w) 0 ?m" unfolding mp_link_def last ..
  show "get_word (st + i * ?w) (mp_link st bs cnt m) = (if Suc i = unat cnt then 0 else of_nat (st + Suc i * ?w))" if "i < unat cnt"
  proof (cases "Suc i = unat cnt")
    case True
    then have "i = unat cnt - 1" by simp
    then show ?thesis unfolding run using True by (simp add: get_put_word)
  next
    case False
    then have "st + i * ?w + ?w \<le> st + (unat cnt - 1) * ?w" using that by (intro block_order) simp
    then have "get_word (st + i * ?w) (mp_link st bs cnt m) = get_word (st + i * ?w) ?m" unfolding run by (intro get_word_other) simp
    then show ?thesis using L that False by simp
  qed
  show "mp_link st bs cnt m a = m a" if a: "a < st \<or> st + unat cnt * ?w \<le> a"
  proof -
    have "a < st + (unat cnt - 1) * ?w \<or> st + (unat cnt - 1) * ?w + 4 \<le> a" using a le by auto
    then have "mp_link st bs cnt m a = ?m a" unfolding run by (rule put_word_other)
    then show ?thesis using L a by auto
  qed
qed

definition all_blocks :: "addr \<Rightarrow> nat \<Rightarrow> nat \<Rightarrow> addr list" where
  "all_blocks st w c = map (\<lambda>i. st + i * w) [0 ..< c]"

lemma free_chain_all:
  assumes g: "\<And>i. i < c \<Longrightarrow> get_word (st + i * w) m = (if Suc i = c then 0 else of_nat (st + Suc i * w))"
    and st: "0 < st" "st + c * w \<le> 2 ^ 32" "0 < w" and j: "j \<le> c"
  shows "free_chain m (if j < c then st + j * w else 0) (map (\<lambda>i. st + i * w) [j ..< c])"
  using j
proof (induction rule: inc_induct)
  case (step i)
  have "unat (get_word (st + i * w) m) = (if Suc i < c then st + Suc i * w else 0)"
  proof (cases "Suc i < c")
    case True
    then have "st + Suc i * w + w \<le> st + c * w" by (rule block_order)
    then have "st + Suc i * w < 2 ^ 32" using st by simp
    then have "unat (of_nat (st + Suc i * w) :: u32) = st + Suc i * w" by (simp only: unsigned_of_nat) (simp add: take_bit_nat_eq_self)
    then show ?thesis using g [OF step(2)] True by simp
  next
    case False
    then show ?thesis using g [OF step(2)] step(2) by auto
  qed
  then show ?case using step st(1) by (simp add: upt_conv_Cons)
qed simp

lemma mp_inv_linked:
  assumes n: "n < 2 ^ 32" and c: "0 < cnt" and st: "0 < st" "st + unat cnt * (unat bs + 4) \<le> 2 ^ 32"
    and mp: "start_address mp = st" "block_size mp = bs" "block_total_count mp = cnt" "block_free_count mp = cnt" "mp_block_list mp = st"
  shows "mp_inv n (mp_link st bs cnt m) mp (all_blocks st (unat bs + 4) (unat cnt))" "set (all_blocks st (unat bs + 4) (unat cnt)) = mp_grid mp"
proof -
  let ?w = "unat bs + 4" and ?m = "mp_link st bs cnt m"
  have "get_word (st + i * ?w) ?m = (if Suc i = unat cnt then 0 else of_nat (st + Suc i * ?w))" if "i < unat cnt" for i
    by (rule mp_link_at(1) [OF c st(2) that])
  from free_chain_all [OF this st(1,2), of 0] have "free_chain ?m st (all_blocks st ?w (unat cnt))"
    using c by (simp add: all_blocks_def word_less_nat_alt)
  moreover show s: "set (all_blocks st ?w (unat cnt)) = mp_grid mp" using mp by (auto simp: all_blocks_def mp_grid_def)
  moreover have "distinct (all_blocks st ?w (unat cnt))" by (auto simp: all_blocks_def distinct_map inj_on_def)
  ultimately show "mp_inv n ?m mp (all_blocks st ?w (unat cnt))" using n st mp by (simp add: mp_inv_def) (simp add: all_blocks_def)
qed

subsection \<open>A pool on memory of the caller\<close>

lemma upd_mp_frame:
  "rt_object_get_type r (upd_bytes f k) = rt_object_get_type r k" "rt_object_is_systemobject r (upd_bytes f k) = rt_object_is_systemobject r k"
  "rt_object_is_systemobject r (upd_mp n g k') = rt_object_is_systemobject r k'"
  by (simp_all add: upd_bytes_def upd_mp_def object_defs)

lemma align4_bounds: "unat bs \<le> 2 ^ 32 - 8 \<Longrightarrow> unat bs \<le> unat (RT_ALIGN bs 4) \<and> unat (RT_ALIGN bs 4) < unat bs + 4 \<and> unat (RT_ALIGN bs 4) \<le> 2 ^ 32 - 8"
proof -
  assume b: "unat bs \<le> 2 ^ 32 - 8"
  then have u: "unat bs \<le> 4294967288" by simp
  have "uint bs < 4294967293" using uint_nat [of bs] u by linarith
  then have "uint bs + 2 ^ 2 - 1 < 2 ^ 32" by simp
  from RT_ALIGN_bounds [OF _ this] have B: "uint bs \<le> uint (RT_ALIGN bs 4)" "uint (RT_ALIGN bs 4) < uint bs + 4" "4 dvd uint (RT_ALIGN bs 4)"
    by simp_all
  then have "4 dvd unat (RT_ALIGN bs 4)" by (metis int_dvd_int_iff of_nat_numeral uint_nat)
  then obtain q where "unat (RT_ALIGN bs 4) = 4 * q" by (elim dvdE)
  moreover have "unat bs \<le> unat (RT_ALIGN bs 4)" "unat (RT_ALIGN bs 4) < unat bs + 4"
    using B(1,2) uint_nat [of bs] uint_nat [of "RT_ALIGN bs 4"] by linarith+
  ultimately have "unat bs \<le> unat (RT_ALIGN bs 4) \<and> unat (RT_ALIGN bs 4) < unat bs + 4 \<and> unat (RT_ALIGN bs 4) \<le> 4294967288"
    using u by presburger
  then show ?thesis by simp
qed

lemma plus4: "unat bs \<le> 2 ^ 32 - 8 \<Longrightarrow> unat (bs + 4) = unat bs + 4" for bs :: u32
  by (simp add: unat_add_small)

lemma RT_ALIGN_DOWN_le: "unat (RT_ALIGN_DOWN sz 4) \<le> unat sz"
proof -
  have "uint (RT_ALIGN_DOWN sz (2 ^ 2)) = uint sz div 2 ^ 2 * 2 ^ 2" by (rule RT_ALIGN_DOWN_uint)
  then have "uint (RT_ALIGN_DOWN sz 4) \<le> uint sz" by simp
  then show ?thesis using uint_nat [of sz] uint_nat [of "RT_ALIGN_DOWN sz 4"] by linarith
qed

text \<open>The number of blocks of a pool: as many as fit, each with its word.\<close>

definition blocks_of :: "u32 \<Rightarrow> u32 \<Rightarrow> nat" where
  "blocks_of sz bs = unat (RT_ALIGN_DOWN sz 4) div (unat (RT_ALIGN bs 4) + 4)"

lemma rt_mp_init_run:
  fixes k :: "'a mp_sys_scheme"
  assumes k: "kinv k" "rt_current_thread k \<noteq> None" and l: "rt_scheduler_lock_nest k = 0"
    and n: "Obj_ipc n \<notin> set (objects k RT_Object_Class_MemPool)"
    and st: "st \<noteq> 0" "0 < sz" "0 < bs" "unat bs \<le> 2 ^ 32 - 8"
  defines "B \<equiv> RT_ALIGN bs 4" and "c \<equiv> (of_nat (blocks_of sz bs) :: u32)"
  shows "\<exists>k'. rt_mp_init n name st sz bs k = Some (RT_EOK, k') \<and> ipc_inv k' \<and> hbytes k' = mp_link st B c (hbytes k) \<and>
    tlists k' (SuspendQ n) = [] \<and> unat c = blocks_of sz bs \<and>
    mempools k' n = (mempools k n)\<lparr>start_address := st, mp_size := RT_ALIGN_DOWN sz 4, block_size := B, mp_block_list := st,
      block_total_count := c, block_free_count := c\<rparr> \<and> heaps k' = heaps k \<and> hitems k' = hitems k"
proof -
  have cl: "RT_Object_Class_MemPool \<in> set object_classes" by (simp add: object_classes_def RT_Object_Class_MemPool_def)
  obtain k1 where i: "rt_object_init (Obj_ipc n) RT_Object_Class_MemPool name k =
    Some (registered RT_Object_Class_MemPool (Obj_ipc n) name k1)" "kinv (registered RT_Object_Class_MemPool (Obj_ipc n) name k1)"
    "rt_current_thread k1 \<noteq> None" "kernel.more k1 = kernel.more k"
    using heap_object_init [OF k l cl n, of name] by (elim exE conjE) (rule that; assumption)
  let ?k1 = "registered RT_Object_Class_MemPool (Obj_ipc n) name k1"
  have "kernel.more ?k1 = kernel.more k" using i(4) by (simp add: registered_def container_insert_def upd_obj_def)
  note P = same_pools [OF this]
  note A = align4_bounds [OF st(4)]
  have w: "unat (B + 4) = unat B + 4" using A by (simp add: B_def plus4)
  then have w0: "B + 4 \<noteq> 0" by auto
  have "RT_ALIGN_DOWN sz 4 div (B + 4) = of_nat (unat (RT_ALIGN_DOWN sz 4) div unat (B + 4))"
    by (simp only: unat_div [symmetric] of_nat_unat) simp
  then have d: "RT_ALIGN_DOWN sz 4 div (B + 4) = c" using w by (simp add: c_def blocks_of_def B_def)
  have "blocks_of sz bs \<le> unat (RT_ALIGN_DOWN sz 4)" unfolding blocks_of_def by (rule div_le_dividend)
  also have "\<dots> < 2 ^ 32" using unsigned_less [where 'a = nat, of "RT_ALIGN_DOWN sz 4"] by simp
  finally have u: "unat c = blocks_of sz bs" by (simp add: c_def unsigned_of_nat take_bit_nat_eq_self)
  let ?k2 = "upd_mp n (\<lambda>mp. mp\<lparr>start_address := st, mp_size := RT_ALIGN_DOWN sz 4, block_size := B,
       block_total_count := c, block_free_count := c\<rparr>) ?k1"
  let ?k = "upd_mp n (\<lambda>mp. mp\<lparr>mp_block_list := st\<rparr>) (upd_bytes (mp_link st B c) (snd (rt_ipc_object_init (SuspendQ n) ?k2)))"
  have "rt_mp_init n name st sz bs k = Some (RT_EOK, ?k)"
    using i(1) st(1-3) w0 d by (simp add: rt_mp_init_def Let_def flip: B_def)
  moreover have "ipc_inv ?k" using i(2,3) by (simp add: ipc_inv_def)
  moreover have "mempools (snd (rt_ipc_object_init (SuspendQ n) q)) = mempools q" "hbytes (snd (rt_ipc_object_init (SuspendQ n) q)) = hbytes q"
    "heaps (snd (rt_ipc_object_init (SuspendQ n) q)) = heaps q" "hitems (snd (rt_ipc_object_init (SuspendQ n) q)) = hitems q"
    for q :: "'a mp_sys_scheme" by (simp_all add: rt_ipc_object_init_def)
  ultimately show ?thesis using P u by (intro exI [of _ ?k]) (simp add: upd_bytes_def)
qed

lemma rt_mp_init_ok:
  fixes k :: "'a mp_sys_scheme"
  assumes k: "kinv k" "rt_current_thread k \<noteq> None" and l: "rt_scheduler_lock_nest k = 0"
    and n: "Obj_ipc n \<notin> set (objects k RT_Object_Class_MemPool)" "n < 2 ^ 32"
    and st: "st \<noteq> 0" "st + unat sz \<le> 2 ^ 32" "0 < bs" "unat bs \<le> 2 ^ 32 - 8" "unat (RT_ALIGN bs 4) + 4 \<le> unat (RT_ALIGN_DOWN sz 4)"
  shows "\<exists>k'. rt_mp_init n name st sz bs k = Some (RT_EOK, k') \<and> mp_ok n k' \<and> mp_held n k' = {} \<and>
    mp_free_list n k' = all_blocks st (unat (RT_ALIGN bs 4) + 4) (blocks_of sz bs) \<and>
    st + blocks_of sz bs * (unat (RT_ALIGN bs 4) + 4) \<le> st + unat sz \<and>
    (\<forall>a. a \<notin> {st ..< st + unat sz} \<longrightarrow> hbytes k' a = hbytes k a)"
proof -
  let ?B = "RT_ALIGN bs 4" and ?c = "of_nat (blocks_of sz bs) :: u32"
  have sz: "0 < sz" using st(5) RT_ALIGN_DOWN_le [of sz] by (auto simp: word_less_nat_alt)
  obtain k' where r: "rt_mp_init n name st sz bs k = Some (RT_EOK, k')" "ipc_inv k'" "hbytes k' = mp_link st ?B ?c (hbytes k)"
    "unat ?c = blocks_of sz bs"
    "mempools k' n = (mempools k n)\<lparr>start_address := st, mp_size := RT_ALIGN_DOWN sz 4, block_size := ?B, mp_block_list := st,
      block_total_count := ?c, block_free_count := ?c\<rparr>"
    using rt_mp_init_run [OF k l n(1) st(1) sz st(3,4), of name] by (elim exE conjE) (rule that; assumption)
  have "0 < blocks_of sz bs" using st(5) by (simp add: blocks_of_def div_greater_zero_iff)
  then have c: "0 < ?c" using r(4) by (simp add: word_less_nat_alt)
  have le: "blocks_of sz bs * (unat ?B + 4) \<le> unat sz"
    unfolding blocks_of_def by (rule order.trans [OF div_times_less_eq_dividend RT_ALIGN_DOWN_le])
  then have in32: "st + unat ?c * (unat ?B + 4) \<le> 2 ^ 32" using st(2) r(4) by simp
  have s0: "0 < st" using st(1) by simp
  have I: "mp_inv n (hbytes k') (mempools k' n) (all_blocks st (unat ?B + 4) (unat ?c))"
    unfolding r(3) by (rule mp_inv_linked(1) [OF n(2) c s0 in32]) (simp_all add: r(5))
  have S: "set (all_blocks st (unat ?B + 4) (unat ?c)) = mp_grid (mempools k' n)" by (rule mp_inv_linked(2) [OF n(2) c s0 in32]) (simp_all add: r(5))
  from mp_okI [OF r(2) I] have K: "mp_ok n k'" "mp_free_list n k' = all_blocks st (unat ?B + 4) (blocks_of sz bs)" using r(4) by simp_all
  then have "mp_held n k' = {}" using S r(4) by (simp add: mp_held_def)
  moreover have "hbytes k' a = hbytes k a" if "a \<notin> {st ..< st + unat sz}" for a
    unfolding r(3) by (rule mp_link_at(2) [OF c in32]) (use that le r(4) in auto)
  ultimately show ?thesis using r(1) K le by (intro exI [of _ k']) (simp del: atLeastLessThan_iff)
qed

text \<open>An area that is too small for one block makes an empty pool, and the closing null pointer goes in front of it.\<close>

lemma rt_mp_init_small:
  fixes k :: "'a mp_sys_scheme"
  assumes k: "kinv k" "rt_current_thread k \<noteq> None" and l: "rt_scheduler_lock_nest k = 0"
    and n: "Obj_ipc n \<notin> set (objects k RT_Object_Class_MemPool)"
    and st: "unat (RT_ALIGN bs 4) + 4 \<le> st" "st < 2 ^ 32" "0 < sz" "0 < bs" "unat bs \<le> 2 ^ 32 - 8" "unat (RT_ALIGN_DOWN sz 4) < unat (RT_ALIGN bs 4) + 4"
  shows "\<exists>k'. rt_mp_init n name st sz bs k = Some (RT_EOK, k') \<and> block_total_count (mempools k' n) = 0 \<and>
    hbytes k' = put_word (st - (unat (RT_ALIGN bs 4) + 4)) 0 (hbytes k)"
proof -
  let ?B = "RT_ALIGN bs 4" and ?c = "of_nat (blocks_of sz bs) :: u32"
  have s: "st \<noteq> 0" using st(1) by simp
  obtain k' where r: "rt_mp_init n name st sz bs k = Some (RT_EOK, k')" "hbytes k' = mp_link st ?B ?c (hbytes k)"
    "mempools k' n = (mempools k n)\<lparr>start_address := st, mp_size := RT_ALIGN_DOWN sz 4, block_size := ?B, mp_block_list := st,
      block_total_count := ?c, block_free_count := ?c\<rparr>"
    using rt_mp_init_run [OF k l n s st(3-5), of name] by (elim exE conjE) (rule that; assumption)
  have c: "?c = 0" using st(6) by (simp add: blocks_of_def)
  have "(of_nat st + (- 1) * (?B + 4) :: u32) = of_nat (st - (unat ?B + 4))"
    using st(1) by (simp add: of_nat_diff)
  then have "mp_block st ?B (0 - 1) = unat (of_nat (st - (unat ?B + 4)) :: u32)" by (simp add: mp_block_def)
  also have "\<dots> = st - (unat ?B + 4)" using st(2) by (simp add: unsigned_of_nat take_bit_nat_eq_self)
  finally have "mp_block st ?B (0 - 1) = st - (unat ?B + 4)" .
  then have "mp_link st ?B ?c (hbytes k) = put_word (st - (unat ?B + 4)) 0 (hbytes k)" unfolding mp_link_def c by simp
  then show ?thesis using r c by simp
qed

end
