(* ===== verification/PoolHeap.thy ===== *)
theory PoolHeap
  imports PoolInit
begin

text \<open>
  Pools on memory of the system heap: \<open>rt_mp_create\<close> takes one block of the heap and threads the pool
  through it, \<open>rt_mp_delete\<close> lets the waiting threads go and gives the block back.
\<close>

subsection \<open>What keeps a heap in order\<close>

lemma heap_inv_same:
  fixes k k' :: "'a heap_sys_scheme"
  assumes h: "heap_inv h k" and i: "ipc_inv k'" and same: "heaps k' = heaps k" "hitems k' = hitems k" "sems k' = sems k"
    and ty: "\<And>m. m = h \<or> m = heap_lock (heaps k h) \<Longrightarrow> rt_object_get_type (Obj_ipc m) k' = rt_object_get_type (Obj_ipc m) k \<and> ipc_flag m k' = ipc_flag m k"
    and q: "tlists k' (SuspendQ (heap_lock (heaps k h))) = []"
  shows "heap_inv h k'" "live_blocks h k' = live_blocks h k"
proof -
  obtain bs fs where B: "heap_ok h k bs fs" "live_blocks h k = allocated k bs" by (rule heap_invE [OF h])
  have "heap_ok h k' bs fs" using B(1) i same ty q by (simp add: heap_ok_def lock_free_def sem_ok_def)
  from heap_invI [OF this] show "heap_inv h k'" "live_blocks h k' = live_blocks h k"
    using B(2) same(2) by (simp_all add: allocated_def view_def)
qed

lemma heap_inv_lock:
  assumes "heap_inv h k"
  shows "ipc_inv k" "tlists k (SuspendQ (heap_lock (heaps k h))) = []" "rt_object_get_type (Obj_ipc h) k = RT_Object_Class_MemHeap"
    "rt_object_get_type (Obj_ipc (heap_lock (heaps k h))) k = RT_Object_Class_Semaphore"
proof -
  obtain bs fs where B: "heap_ok h k bs fs" by (rule heap_invE [OF assms])
  note L = heap_okD(1) [OF B]
  show "tlists k (SuspendQ (heap_lock (heaps k h))) = []" by (rule lock_free_queue [OF L])
  show "rt_object_get_type (Obj_ipc h) k = RT_Object_Class_MemHeap" by (rule heap_okD(2) [OF B])
  show "ipc_inv k" "rt_object_get_type (Obj_ipc (heap_lock (heaps k h))) k = RT_Object_Class_Semaphore"
    using L unfolding lock_free_def sem_ok_def by blast+
qed

lemma upd_mp_heap:
  assumes "heap_inv h k"
  shows "heap_inv h (upd_mp n f k)" "live_blocks h (upd_mp n f k) = live_blocks h k"
  using heap_inv_same [OF assms, of "upd_mp n f k"] heap_inv_lock [OF assms] by (simp_all add: ipc_flag_def)

subsection \<open>Creating\<close>

lemma rt_memheap_alloc_law:
  assumes "heap_inv h k"
  shows "\<exists>r k'. rt_memheap_alloc h sz k = Some (Returns r, k') \<and> heap_inv h k' \<and> hbytes k' = hbytes k \<and>
    (\<exists>H m. k' = upd_heap h H m k \<and> heap_lock H = heap_lock (heaps k h)) \<and>
    (case r of None \<Rightarrow> k' = k
     | Some p \<Rightarrow> \<exists>s. unat (request_size sz) \<le> s \<and> p \<notin> fst ` live_blocks h k \<and> live_blocks h k' = insert (p, s) (live_blocks h k) \<and>
         p + s \<le> 2 ^ 32 \<and> 0 < p)"
proof -
  obtain bs fs where B: "heap_ok h k bs fs" "live_blocks h k = allocated k bs" by (rule heap_invE [OF assms])
  obtain r k' where r: "rt_memheap_alloc h sz k = Some (Returns r, k')" using rt_memheap_alloc_returns [OF B(1)] by blast
  show ?thesis
  proof (cases r)
    case None
    have "k' = k" by (rule rt_memheap_alloc_none(1) [OF B(1)]) (use r None in simp)
    moreover have "\<exists>H m. k = upd_heap h H m k \<and> heap_lock H = heap_lock (heaps k h)"
      by (intro exI [of _ "heaps k h"] exI [of _ "hitems k"]) simp
    ultimately show ?thesis using r None assms by simp
  next
    case (Some p)
    obtain bs' fs' s where s: "heap_ok h k' bs' fs'" "unat (request_size sz) \<le> s" "p \<notin> fst ` allocated k bs"
      "allocated k' bs' = insert (p, s) (allocated k bs)" "hbytes k' = hbytes k"
      using rt_memheap_alloc_adds [OF B(1)] r Some by blast
    obtain H m where u: "k' = upd_heap h H m k" "heap_lock H = heap_lock (heaps k h)"
      using rt_memheap_alloc_free_lock [OF B(1), of sz] r Some by (auto simp: same_pool_def split: option.splits if_splits)
    have "(p, s) \<in> allocated k' bs'" using s(4) by simp
    note V = view_inside [OF s(1) this] and P = shape_okD(4) [OF pool_okD(1) [OF heap_okD(3) [OF s(1)]]]
    show ?thesis using r Some heap_invI [OF s(1)] s(2-5) B(2) u V P
      by (intro exI [of _ r] exI [of _ k']) auto
  qed
qed

text \<open>A block of the heap becomes a pool; every other byte stays.\<close>

lemma mp_create_pool_ok:
  fixes k :: "'a mp_sys_scheme"
  assumes h: "heap_inv h k" and b: "(st, s) \<in> live_blocks h k" "0 < st" "st + s \<le> 2 ^ 32"
    and c: "0 < cnt" "unat cnt * (unat bs + 4) \<le> s" and n: "n < 2 ^ 32" and bs: "block_size (mempools k n) = bs"
    and l: "n \<noteq> heap_lock (heaps k h)"
  shows "\<exists>k'. mp_create_pool n cnt bs (Returns (Some st) :: (addr option, 'w) outcome) k = Some (Returns (Some n), k') \<and> heap_inv h k' \<and>
    live_blocks h k' = live_blocks h k \<and> mp_ok n k' \<and> mp_held n k' = {} \<and> mp_free_list n k' = all_blocks st (unat bs + 4) (unat cnt) \<and>
    start_address (mempools k' n) = st \<and> heaps k' = heaps k \<and> hitems k' = hitems k \<and> objs k' = objs k \<and>
    rt_interrupt_nest k' = rt_interrupt_nest k \<and>
    (\<forall>a. a \<notin> {st ..< st + s} \<longrightarrow> hbytes k' a = hbytes k a)"
proof -
  let ?mp = "\<lambda>mp. mp\<lparr>start_address := st, block_total_count := cnt, block_free_count := cnt\<rparr>"
  let ?k1 = "snd (rt_ipc_object_init (SuspendQ n) (upd_mp n ?mp k))"
  let ?k = "upd_mp n (\<lambda>mp. mp\<lparr>mp_block_list := st\<rparr>) (upd_bytes (mp_link st bs cnt) ?k1)"
  note L = heap_inv_lock [OF h]
  have i: "ipc_inv ?k" using L(1) by (simp add: ipc_inv_def)
  have same: "heaps ?k1 = heaps k" "hitems ?k1 = hitems k" "sems ?k1 = sems k" "hbytes ?k1 = hbytes k"
    "mempools ?k1 = (mempools k)(n := ?mp (mempools k n))" "rt_interrupt_nest ?k1 = rt_interrupt_nest k"
    by (simp_all add: rt_ipc_object_init_def)
  have same': "heaps ?k = heaps k" "hitems ?k = hitems k" "sems ?k = sems k" "hbytes ?k = mp_link st bs cnt (hbytes k)" "objs ?k = objs k"
    "rt_interrupt_nest ?k = rt_interrupt_nest k"
    using same by (simp_all add: upd_bytes_def)
  have ty: "rt_object_get_type r ?k = rt_object_get_type r k" "ipc_flag m ?k = ipc_flag m k" for r m
    using same'(5) by (simp_all only: object_defs ipc_flag_def)
  have q: "tlists ?k (SuspendQ (heap_lock (heaps k h))) = []" using L(2) l by simp
  note H = heap_inv_same [OF h i same'(1-3) _ q]
  have in32: "st + unat cnt * (unat bs + 4) \<le> 2 ^ 32" using b(3) c(2) by simp
  let ?mp' = "mempools ?k n"
  have M: "start_address ?mp' = st" "block_size ?mp' = bs" "block_total_count ?mp' = cnt" "block_free_count ?mp' = cnt" "mp_block_list ?mp' = st"
    using same(5) bs by simp_all
  have "mp_inv n (hbytes ?k) ?mp' (all_blocks st (unat bs + 4) (unat cnt))"
    unfolding same'(4) by (rule mp_inv_linked(1) [OF n c(1) b(2) in32 M])
  from mp_okI [OF i this] have K: "mp_ok n ?k" "mp_free_list n ?k = all_blocks st (unat bs + 4) (unat cnt)" by simp_all
  have "mp_held n ?k = {}" unfolding mp_held_def K(2) mp_inv_linked(2) [OF n c(1) b(2) in32 M] by simp
  moreover have "hbytes ?k a = hbytes k a" if "a \<notin> {st ..< st + s}" for a
    unfolding same'(4) by (rule mp_link_at(2) [OF c(1) in32]) (use that c(2) in auto)
  moreover have "mp_create_pool n cnt bs (Returns (Some st) :: (addr option, 'w) outcome) k = Some (Returns (Some n), ?k)"
    by (simp add: mp_create_pool_def Let_def)
  ultimately show ?thesis using H ty K M(1) same' by (intro exI [of _ ?k]) (simp del: atLeastLessThan_iff)
qed

definition only_system_heap :: "'a kernel_scheme \<Rightarrow> bool" where
  "only_system_heap k \<longleftrightarrow> objects k RT_Object_Class_MemHeap = [Obj_ipc system_heap]"

lemma rt_malloc_only:
  assumes "heap_inv system_heap k" "only_system_heap k" "rt_memheap_alloc system_heap sz k = Some (Returns r, k')"
  shows "rt_malloc sz k = Some (Returns r, k')"
proof (cases r)
  case None
  obtain bs fs where B: "heap_ok system_heap k bs fs" by (rule heap_invE [OF assms(1)])
  have k': "k' = k" by (rule rt_memheap_alloc_none(1) [OF B]) (use assms(3) None in simp)
  have "RT_Object_Class_MemHeap \<in> set object_classes" by (simp add: object_classes_def RT_Object_Class_MemHeap_def)
  then show ?thesis using assms k' None heap_inv_lock(3) [OF assms(1)]
    by (simp add: rt_malloc_def rt_object_get_information_def only_system_heap_def)
next
  case (Some p)
  then show ?thesis using assms(3) by (simp add: rt_malloc_system)
qed

text \<open>The object is in the container before the heap is asked.\<close>

lemma allocate_object_heap:
  fixes k :: "'a heap_sys_scheme"
  assumes h: "heap_inv h k" and i: "rt_interrupt_nest k = 0" and ty: "ty \<in> set object_classes"
    and n: "n \<noteq> h" "n \<noteq> heap_lock (heaps k h)"
  shows "\<exists>k'. rt_object_allocate ty name (Some (Obj_ipc n)) k = Some (Some (Obj_ipc n), k') \<and> heap_inv h k' \<and>
    live_blocks h k' = live_blocks h k \<and> kernel.more k' = kernel.more k \<and> rt_interrupt_nest k' = 0 \<and>
    objs k' (Obj_ipc n) = \<lparr>oname = take RT_NAME_MAX name, otype = ty, oflag = 0\<rparr> \<and>
    objects k' = (objects k)(ty := Obj_ipc n # objects k ty)"
proof -
  let ?ob = "\<lparr>oname = take RT_NAME_MAX name, otype = ty, oflag = 0\<rparr>"
  let ?k = "container_insert ty (Obj_ipc n) (upd_obj (Obj_ipc n) (\<lambda>_. ?ob) k)"
  note L = heap_inv_lock [OF h]
  have "kinv k" using L(1) by (simp only: ipc_inv_def)
  then have "kinv ?k" by (rule objects_irrelevant_kinv) (auto simp: container_insert_def)
  then have inv: "ipc_inv ?k" using L(1) by (simp add: ipc_inv_def container_insert_def)
  have m: "kernel.more ?k = kernel.more k" by (simp add: container_insert_def)
  note P = same_heap_fields [OF m]
  have q: "tlists ?k (SuspendQ (heap_lock (heaps k h))) = []" using L(2) by (simp add: container_insert_def)
  have t: "rt_object_get_type (Obj_ipc j) ?k = rt_object_get_type (Obj_ipc j) k \<and> ipc_flag j ?k = ipc_flag j k"
    if "j = h \<or> j = heap_lock (heaps k h)" for j
  proof -
    have "j \<noteq> n" using that n by metis
    then have "objs ?k (Obj_ipc j) = objs k (Obj_ipc j)" by (simp add: container_insert_def)
    then show ?thesis by (simp only: object_defs ipc_flag_def)
  qed
  note H = heap_inv_same [OF h inv P(2,1,4) t q]
  have "rt_object_allocate ty name (Some (Obj_ipc n)) k = Some (Some (Obj_ipc n), ?k)"
    using i ty by (simp add: rt_object_allocate_def RT_DEBUG_NOT_IN_INTERRUPT_def rt_interrupt_get_nest_def
        rt_object_get_information_def clear_object_def)
  then show ?thesis using H m i by (intro exI [of _ ?k]) (simp add: container_insert_def)
qed

lemma detach_heap:
  fixes k :: "'a heap_sys_scheme"
  assumes h: "heap_inv h k" and n: "n \<noteq> h" "n \<noteq> heap_lock (heaps k h)"
  shows "heap_inv h (rt_object_detach (Obj_ipc n) k)" "live_blocks h (rt_object_detach (Obj_ipc n) k) = live_blocks h k"
proof -
  let ?k = "rt_object_detach (Obj_ipc n) k"
  note L = heap_inv_lock [OF h]
  have "kinv ?k" using L(1) by (simp add: ipc_inv_def)
  then have inv: "ipc_inv ?k" using L(1) by (simp add: ipc_inv_def)
  have "kernel.more ?k = kernel.more k" by (simp add: rt_object_detach_def container_remove_def)
  note P = same_heap_fields [OF this]
  have q: "tlists ?k (SuspendQ (heap_lock (heaps k h))) = []" using L(2) by simp
  have t: "rt_object_get_type (Obj_ipc j) ?k = rt_object_get_type (Obj_ipc j) k \<and> ipc_flag j ?k = ipc_flag j k"
    if "j = h \<or> j = heap_lock (heaps k h)" for j
  proof -
    have "j \<noteq> n" using that n by metis
    then have "objs ?k (Obj_ipc j) = objs k (Obj_ipc j)" by (simp add: rt_object_detach_def container_remove_def)
    then show ?thesis by (simp only: object_defs ipc_flag_def)
  qed
  show "heap_inv h ?k" "live_blocks h ?k = live_blocks h k" using heap_inv_same [OF h inv P(2,1,4) t q] by simp_all
qed

lemma RT_Object_Class_MemPool_distinct:
  "RT_Object_Class_MemPool \<in> set object_classes" "RT_Object_Class_MemPool AND RT_Object_Class_Static = 0"
  "RT_Object_Class_MemPool AND NOT RT_Object_Class_Static = RT_Object_Class_MemPool" "RT_Object_Class_MemPool \<noteq> RT_Object_Class_MemHeap"
  by (simp_all add: object_classes_def RT_Object_Class_MemPool_def RT_Object_Class_MemHeap_def RT_Object_Class_Static_def)

lemma product_word: "unat a * unat b < 2 ^ 32 \<Longrightarrow> unat (a * b) = unat a * unat b" for a b :: u32
proof -
  assume l: "unat a * unat b < 2 ^ 32"
  have "a * b = of_nat (unat a * unat b)" by simp
  then show ?thesis using l by (simp only: unsigned_of_nat) (simp add: take_bit_nat_eq_self)
qed

text \<open>The request as the code makes it, from the state with the object in its container.\<close>

lemma rt_mp_create_asks:
  fixes k :: "'a mp_sys_scheme"
  assumes h: "heap_inv system_heap k" and o: "only_system_heap k" and i: "rt_interrupt_nest k = 0"
    and n: "n \<noteq> system_heap" "n \<noteq> heap_lock (heaps k system_heap)" and c: "0 < cnt" "0 < bs"
  defines "B \<equiv> RT_ALIGN bs 4"
  shows "\<exists>k1 r k2. heap_inv system_heap k1 \<and> live_blocks system_heap k1 = live_blocks system_heap k \<and> hbytes k1 = hbytes k \<and>
    heaps k1 = heaps k \<and> hitems k1 = hitems k \<and> block_size (mempools k1 n) = B \<and> rt_interrupt_nest k1 = 0 \<and>
    objs k1 (Obj_ipc n) = \<lparr>oname = take RT_NAME_MAX name, otype = RT_Object_Class_MemPool, oflag = 0\<rparr> \<and>
    rt_memheap_alloc system_heap ((B + 4) * cnt) k1 = Some (Returns r, k2) \<and>
    rt_mp_create name cnt bs (Some n) k = mp_create_pool n cnt B (Returns r) k2"
proof -
  obtain k0 where a: "rt_object_allocate RT_Object_Class_MemPool name (Some (Obj_ipc n)) k = Some (Some (Obj_ipc n), k0)"
    "heap_inv system_heap k0" "live_blocks system_heap k0 = live_blocks system_heap k" "kernel.more k0 = kernel.more k"
    "rt_interrupt_nest k0 = 0" "objs k0 (Obj_ipc n) = \<lparr>oname = take RT_NAME_MAX name, otype = RT_Object_Class_MemPool, oflag = 0\<rparr>"
    "objects k0 = (objects k)(RT_Object_Class_MemPool := Obj_ipc n # objects k RT_Object_Class_MemPool)"
    using allocate_object_heap [OF h i RT_Object_Class_MemPool_distinct(1) n, of name] by (elim exE conjE) (rule that; assumption)
  note P = same_pools [OF a(4)]
  let ?k1 = "upd_mp n (\<lambda>mp. mp\<lparr>block_size := B, mp_size := (B + 4) * cnt\<rparr>) k0"
  note H = upd_mp_heap [OF a(2)]
  have o1: "only_system_heap ?k1"
    using o a(7) RT_Object_Class_MemPool_distinct(4) by (simp add: only_system_heap_def)
  obtain r k2 where m: "rt_memheap_alloc system_heap ((B + 4) * cnt) ?k1 = Some (Returns r, k2)"
    using rt_memheap_alloc_law [OF H(1)] by blast
  have "rt_malloc ((B + 4) * cnt) ?k1 = Some (Returns r, k2)" by (rule rt_malloc_only [OF H(1) o1 m])
  then have "rt_mp_create name cnt bs (Some n) k = mp_create_pool n cnt B (Returns r) k2"
    using i c a(1) by (simp add: rt_mp_create_def RT_DEBUG_NOT_IN_INTERRUPT_def rt_interrupt_get_nest_def B_def Let_def)
  then show ?thesis using H a(3,5,6) P m by (intro exI [of _ ?k1] exI [of _ r] exI [of _ k2]) simp
qed

lemma rt_mp_create_ok:
  fixes k :: "'a mp_sys_scheme"
  assumes h: "heap_inv system_heap k" and o: "only_system_heap k" and i: "rt_interrupt_nest k = 0"
    and n: "n \<noteq> system_heap" "n \<noteq> heap_lock (heaps k system_heap)" "n < 2 ^ 32" and c: "0 < cnt" "0 < bs"
    and w: "unat bs \<le> 2 ^ 32 - 8" "unat cnt * (unat (RT_ALIGN bs 4) + 4) \<le> 2 ^ 32 - 4"
  shows "\<exists>r k'. rt_mp_create name cnt bs (Some n) k = Some (Returns r, k') \<and> heap_inv system_heap k' \<and>
    (case r of None \<Rightarrow> live_blocks system_heap k' = live_blocks system_heap k \<and> hbytes k' = hbytes k
     | Some m \<Rightarrow> m = n \<and> mp_ok n k' \<and> mp_held n k' = {} \<and> rt_interrupt_nest k' = 0 \<and>
         rt_object_get_type (Obj_ipc n) k' = RT_Object_Class_MemPool \<and> \<not> rt_object_is_systemobject (Obj_ipc n) k' \<and>
         heap_lock (heaps k' system_heap) = heap_lock (heaps k system_heap) \<and>
         (\<exists>p s. live_blocks system_heap k' = insert (p, s) (live_blocks system_heap k) \<and> p \<notin> fst ` live_blocks system_heap k \<and>
            start_address (mempools k' n) = p \<and> unat cnt * (unat (RT_ALIGN bs 4) + 4) \<le> s \<and>
            mp_free_list n k' = all_blocks p (unat (RT_ALIGN bs 4) + 4) (unat cnt) \<and>
            (\<forall>a. a \<notin> {p ..< p + s} \<longrightarrow> hbytes k' a = hbytes k a)))"
proof -
  let ?B = "RT_ALIGN bs 4"
  obtain k1 r k2 where a: "heap_inv system_heap k1" "live_blocks system_heap k1 = live_blocks system_heap k" "hbytes k1 = hbytes k"
    "heaps k1 = heaps k" "hitems k1 = hitems k" "block_size (mempools k1 n) = ?B" "rt_interrupt_nest k1 = 0"
    "objs k1 (Obj_ipc n) = \<lparr>oname = take RT_NAME_MAX name, otype = RT_Object_Class_MemPool, oflag = 0\<rparr>"
    "rt_memheap_alloc system_heap ((?B + 4) * cnt) k1 = Some (Returns r, k2)"
    "rt_mp_create name cnt bs (Some n) k = mp_create_pool n cnt ?B (Returns r) k2"
    using rt_mp_create_asks [OF h o i n(1,2) c, of name] by (elim exE conjE) (rule that; assumption)
  obtain H m where A: "heap_inv system_heap k2" "hbytes k2 = hbytes k1" "k2 = upd_heap system_heap H m k1"
    "heap_lock H = heap_lock (heaps k1 system_heap)"
    "case r of None \<Rightarrow> k2 = k1
     | Some p \<Rightarrow> \<exists>s. unat (request_size ((?B + 4) * cnt)) \<le> s \<and> p \<notin> fst ` live_blocks system_heap k1 \<and>
         live_blocks system_heap k2 = insert (p, s) (live_blocks system_heap k1) \<and> p + s \<le> 2 ^ 32 \<and> 0 < p"
    using rt_memheap_alloc_law [OF a(1), of "(?B + 4) * cnt"] a(9) by auto
  have mp2: "mempools k2 = mempools k1" and o2: "objs k2 = objs k1" using A(3) by (simp_all add: upd_heap_def)
  have b4: "unat (?B + 4) = unat ?B + 4" using align4_bounds [OF w(1)] by (simp add: plus4)
  have lt: "unat (?B + 4) * unat cnt < 2 ^ 32" using w(2) unfolding b4 by (simp add: mult.commute)
  then have prod: "unat ((?B + 4) * cnt) = unat cnt * (unat ?B + 4)" using product_word [OF lt] b4 by (simp add: mult.commute)
  have sys: "\<not> rt_object_is_systemobject (Obj_ipc n) q" "rt_object_get_type (Obj_ipc n) q = RT_Object_Class_MemPool"
    if "objs q (Obj_ipc n) = \<lparr>oname = take RT_NAME_MAX name, otype = RT_Object_Class_MemPool, oflag = 0\<rparr>" for q :: "'a mp_sys_scheme"
    using that RT_Object_Class_MemPool_distinct(2,3) by (simp_all add: object_defs)
  show ?thesis
  proof (cases r)
    case None
    then have k2: "k2 = k1" using A(5) by simp
    let ?q = "upd_mp n (\<lambda>mp. mp\<lparr>start_address := 0\<rparr>) k1"
    have s: "\<not> rt_object_is_systemobject (Obj_ipc n) ?q" using sys(1) [of ?q] a(8) by simp
    have q: "heap_inv system_heap ?q" "heaps ?q = heaps k" "live_blocks system_heap ?q = live_blocks system_heap k"
      using upd_mp_heap [OF a(1)] a(2,4) by simp_all
    have nl: "n \<noteq> heap_lock (heaps ?q system_heap)" using n(2) q(2) by simp
    have "rt_mp_create name cnt bs (Some n) k = Some (Returns None, rt_object_detach (Obj_ipc n) ?q)"
      using a(10) None k2 rt_object_delete_ipc [OF s] by (simp add: mp_create_pool_def)
    moreover have "hbytes (rt_object_detach (Obj_ipc n) ?q) = hbytes k"
      using a(3) by (simp add: rt_object_detach_def container_remove_def upd_obj_def)
    ultimately show ?thesis using detach_heap [OF q(1) n(1) nl] q(3) by simp
  next
    case (Some p)
    then obtain s where s: "unat (request_size ((?B + 4) * cnt)) \<le> s" "p \<notin> fst ` live_blocks system_heap k"
      "live_blocks system_heap k2 = insert (p, s) (live_blocks system_heap k)" "p + s \<le> 2 ^ 32" "0 < p" using A(5) a(2) by auto
    have fit: "unat cnt * (unat ?B + 4) \<le> s" using request_size_enough [of "(?B + 4) * cnt"] s(1) prod w(2) by simp
    have b: "(p, s) \<in> live_blocks system_heap k2" using s(3) by simp
    have bs2: "block_size (mempools k2 n) = ?B" using a(6) mp2 by simp
    have lk: "heap_lock (heaps k2 system_heap) = heap_lock (heaps k system_heap)" using A(3,4) a(4) by simp
    have nl: "n \<noteq> heap_lock (heaps k2 system_heap)" using n(2) lk by simp
    obtain k' where C: "mp_create_pool n cnt ?B (Returns (Some p)) k2 = Some (Returns (Some n) :: (nat option, ((tid \<times> u32) \<times> nat \<times> obj_ref list) \<times> nat \<times> u32 \<times> u32) outcome, k')"
      "heap_inv system_heap k'" "live_blocks system_heap k' = live_blocks system_heap k2" "mp_ok n k'" "mp_held n k' = {}"
      "mp_free_list n k' = all_blocks p (unat ?B + 4) (unat cnt)" "start_address (mempools k' n) = p" "heaps k' = heaps k2"
      "objs k' = objs k2" "rt_interrupt_nest k' = rt_interrupt_nest k2" "\<forall>a. a \<notin> {p ..< p + s} \<longrightarrow> hbytes k' a = hbytes k2 a"
      using mp_create_pool_ok [OF A(1) b s(5,4) c(1) fit n(3) bs2 nl] by (elim exE conjE) (rule that; assumption)
    have ob: "objs k' (Obj_ipc n) = \<lparr>oname = take RT_NAME_MAX name, otype = RT_Object_Class_MemPool, oflag = 0\<rparr>"
      using C(9) o2 a(8) by simp
    have "rt_interrupt_nest k2 = 0" using a(7) A(3) by simp
    moreover have "\<exists>q t. live_blocks system_heap k' = insert (q, t) (live_blocks system_heap k) \<and> q \<notin> fst ` live_blocks system_heap k \<and>
        start_address (mempools k' n) = q \<and> unat cnt * (unat ?B + 4) \<le> t \<and>
        mp_free_list n k' = all_blocks q (unat ?B + 4) (unat cnt) \<and> (\<forall>a. a \<notin> {q ..< q + t} \<longrightarrow> hbytes k' a = hbytes k a)"
      by (intro exI [of _ p] exI [of _ s]) (use C s(2,3) fit A(2) a(3) in \<open>simp del: atLeastLessThan_iff\<close>)
    ultimately show ?thesis using a(10) Some C sys [OF ob] lk
      by (intro exI [of _ "Some n"] exI [of _ k']) (simp del: atLeastLessThan_iff)
  qed
qed

text \<open>
  The size asked for is a product in 32 bits, the number of blocks is not reduced: when the product
  wraps, the pool is threaded far beyond the block it was given.
\<close>

lemma rt_mp_create_wraps:
  fixes k :: "'a mp_sys_scheme"
  assumes h: "heap_inv system_heap k" and o: "only_system_heap k" and i: "rt_interrupt_nest k = 0"
    and n: "n \<noteq> system_heap" "n \<noteq> heap_lock (heaps k system_heap)" and c: "0 < cnt" "0 < bs"
  defines "need \<equiv> request_size ((RT_ALIGN bs 4 + 4) * cnt)"
  assumes w: "unat need + 36 \<le> unat cnt * (unat (RT_ALIGN bs 4) + 4)"
    and room: "need < available_size (heaps k system_heap)" "(a, t, False) \<in> set (heap_view system_heap k)" "unat need \<le> t"
  shows "\<exists>k' p s. rt_mp_create name cnt bs (Some n) k = Some (Returns (Some n), k') \<and>
    live_blocks system_heap k' = insert (p, s) (live_blocks system_heap k) \<and>
    start_address (mempools k' n) = p \<and> block_total_count (mempools k' n) = cnt \<and> block_free_count (mempools k' n) = cnt \<and>
    block_size (mempools k' n) = RT_ALIGN bs 4 \<and> s < unat need + 36 \<and> s < unat cnt * (unat (RT_ALIGN bs 4) + 4)"
proof -
  let ?B = "RT_ALIGN bs 4"
  obtain k1 r k2 where a: "heap_inv system_heap k1" "live_blocks system_heap k1 = live_blocks system_heap k"
    "heaps k1 = heaps k" "hitems k1 = hitems k" "block_size (mempools k1 n) = ?B"
    "rt_memheap_alloc system_heap ((?B + 4) * cnt) k1 = Some (Returns r, k2)"
    "rt_mp_create name cnt bs (Some n) k = mp_create_pool n cnt ?B (Returns r) k2"
    using rt_mp_create_asks [OF h o i n c, of name] by (elim exE conjE) (rule that; assumption)
  obtain bs1 fs1 where B: "heap_ok system_heap k1 bs1 fs1" "heap_view system_heap k1 = view k1 bs1" "live_blocks system_heap k1 = allocated k1 bs1"
    by (rule heap_invE [OF a(1)])
  have "heap_view system_heap k1 = heap_view system_heap k" using a(3,4) by (simp add: heap_view_def headers_def view_def)
  then have fr: "(a, t, False) \<in> set (view k1 bs1)" using room(2) B(2) by simp
  have "r \<noteq> None"
  proof
    assume "r = None"
    then have "t < unat need" using rt_memheap_alloc_none(2) [OF B(1) _ _ fr] a(3,6) room(1) unfolding need_def by simp
    then show False using room(3) by simp
  qed
  then obtain p where p: "r = Some p" by auto
  obtain bs2 fs2 s where A: "heap_ok system_heap k2 bs2 fs2" "allocated k2 bs2 = insert (p, s) (allocated k1 bs1)" "s < unat need + 36"
    using rt_memheap_alloc_size [OF B(1) a(6) [unfolded p]] unfolding need_def by blast
  obtain H m where u: "k2 = upd_heap system_heap H m k1" using rt_memheap_alloc_law [OF a(1), of "(?B + 4) * cnt"] a(6) by auto
  let ?k1 = "upd_mp n (\<lambda>mp. mp\<lparr>start_address := p, block_total_count := cnt, block_free_count := cnt\<rparr>) k2"
  let ?k = "upd_mp n (\<lambda>mp. mp\<lparr>mp_block_list := p\<rparr>) (upd_bytes (mp_link p ?B cnt) (snd (rt_ipc_object_init (SuspendQ n) ?k1)))"
  have "rt_mp_create name cnt bs (Some n) k = Some (Returns (Some n), ?k)" using a(7) p by (simp add: mp_create_pool_def Let_def)
  moreover have "live_blocks system_heap ?k = live_blocks system_heap k2"
    by (simp add: live_blocks_def headers_def allocated_def view_def rt_ipc_object_init_def upd_bytes_def)
  moreover have "mempools k2 = mempools k1" using u by (simp add: upd_heap_def)
  moreover have "s < unat cnt * (unat ?B + 4)" using A(3) w by linarith
  ultimately show ?thesis using heap_invI [OF A(1)] A(2,3) a(2,5) B(3)
    by (intro exI [of _ ?k] exI [of _ p] exI [of _ s]) (simp add: rt_ipc_object_init_def)
qed

subsection \<open>Deleting\<close>

lemma rt_mp_delete_ok:
  fixes k :: "'a mp_sys_scheme"
  assumes h: "heap_inv system_heap k" and i: "rt_interrupt_nest k = 0"
    and ty: "rt_object_get_type (Obj_ipc n) k = RT_Object_Class_MemPool" "\<not> rt_object_is_systemobject (Obj_ipc n) k"
    and n: "n \<noteq> system_heap" "n \<noteq> heap_lock (heaps k system_heap)" and b: "(start_address (mempools k n), s) \<in> live_blocks system_heap k"
  shows "\<exists>k'. rt_mp_delete n k = Some (Returns RT_EOK, k') \<and> heap_inv system_heap k' \<and>
    live_blocks system_heap k' = live_blocks system_heap k - {(start_address (mempools k n), s)} \<and>
    dissolved n (set (tlists k (SuspendQ n))) k k' \<and> hbytes k' = hbytes k"
proof -
  let ?st = "start_address (mempools k n)" and ?L = "heap_lock (heaps k system_heap)"
  note L = heap_inv_lock [OF h]
  have ki: "kinv k" "rt_current_thread k \<noteq> None" using L(1) by (simp_all add: ipc_inv_def)
  obtain k1 where r: "rt_ipc_list_resume_all (SuspendQ n) k = Some (RT_EOK, k1)" "kinv k1" "rt_current_thread k1 = rt_current_thread k"
    "wakes (SuspendQ n) (set (tlists k (SuspendQ n))) k k1"
    using rt_ipc_list_resume_all_kinv [OF ki(1) waiting_list_simps(1) refl, of n] by blast
  have d: "dissolved n (set (tlists k (SuspendQ n))) k (rt_object_detach (Obj_ipc n) k1)"
    using resume_all_detach [OF ki(1), of n] r(1) by auto
  note f = wakes_frame [OF r(4)]
  have m: "kernel.more k1 = kernel.more k" and int: "rt_interrupt_nest k1 = 0" using f i by (simp_all add: ipc_frame_def)
  note P = same_pools [OF m]
  have inv: "ipc_inv k1" using r(2,3) ki(2) by (simp add: ipc_inv_def)
  have "tlists k1 (SuspendQ ?L) = tlists k (SuspendQ ?L)" by (rule wakes_other [OF r(4)]) (use n in auto)
  then have q: "tlists k1 (SuspendQ ?L) = []" using L(2) by simp
  note H = heap_inv_same [OF h inv P(3,4,5) _ q]
  have H1: "heap_inv system_heap k1" "live_blocks system_heap k1 = live_blocks system_heap k"
    using H ipc_frame_obj(1,2) [OF f] by simp_all
  obtain bs fs where B: "heap_ok system_heap k1 bs fs" "live_blocks system_heap k1 = allocated k1 bs" by (rule heap_invE [OF H1(1)])
  have "(?st, s) \<in> allocated k1 bs" using b H1(2) B(2) by simp
  then obtain x where x: "?st = x + 24" "(x, s, True) \<in> set (view k1 bs)" by (auto simp: allocated_def)
  obtain H' m' where F: "rt_memheap_free ?st k1 = Some (Returns (), upd_heap system_heap H' m' k1)" "same_pool (heaps k1 system_heap) H'"
    using rt_memheap_free_ok [OF B(1) x(2)] x(1) by auto
  let ?k2 = "upd_heap system_heap H' m' k1"
  obtain bs' fs' where G: "heap_ok system_heap ?k2 bs' fs'" "allocated ?k2 bs' = allocated k1 bs - {(?st, s)}"
    using rt_memheap_free_removes [OF B(1), of ?st s] b H1(2) B(2) F(1) by auto
  note G' = heap_invI [OF G(1)]
  have lk: "heap_lock (heaps ?k2 system_heap) = ?L" using F(2) P(3) by (simp add: same_pool_def)
  have sys: "\<not> rt_object_is_systemobject (Obj_ipc n) ?k2"
    using ty(2) ipc_frame_obj(3) [OF f] by (simp add: upd_heap_def object_defs)
  have nl: "n \<noteq> heap_lock (heaps ?k2 system_heap)" using n(2) lk by simp
  note T = detach_heap [OF conjunct1 [OF G'] n(1) nl]
  have "rt_mp_delete n k = Some (Returns RT_EOK, rt_object_detach (Obj_ipc n) ?k2)"
    using i ty r(1) P(1) F(1) rt_object_delete_ipc [OF sys]
    by (simp add: rt_mp_delete_def rt_free_def mp_delete_object_def RT_DEBUG_NOT_IN_INTERRUPT_def rt_interrupt_get_nest_def)
  moreover have "dissolved n (set (tlists k (SuspendQ n))) k (rt_object_detach (Obj_ipc n) ?k2)"
    using d by (simp add: dissolved_def)
  moreover have "hbytes (rt_object_detach (Obj_ipc n) ?k2) = hbytes k"
    using P(2) by (simp add: rt_object_detach_def container_remove_def upd_obj_def)
  moreover have "live_blocks system_heap (rt_object_detach (Obj_ipc n) ?k2) = live_blocks system_heap k - {(?st, s)}"
    using T(2) G' G(2) B(2) H1(2) by simp
  ultimately show ?thesis using T(1) by blast
qed

lemma rt_mp_detach_ok:
  assumes k: "kinv k" and ty: "rt_object_get_type (Obj_ipc n) k = RT_Object_Class_MemPool" and s: "rt_object_is_systemobject (Obj_ipc n) k"
  shows "\<exists>k'. rt_mp_detach n k = Some (RT_EOK, k') \<and> kinv k' \<and> dissolved n (set (tlists k (SuspendQ n))) k k'"
  using resume_all_detach [OF k, of n] ty s by (auto simp: rt_mp_detach_def)

text \<open>What a pool took from the heap goes back to it.\<close>

lemma create_then_delete:
  fixes k :: "'a mp_sys_scheme"
  assumes h: "heap_inv system_heap k" and o: "only_system_heap k" and i: "rt_interrupt_nest k = 0"
    and n: "n \<noteq> system_heap" "n \<noteq> heap_lock (heaps k system_heap)" "n < 2 ^ 32" and c: "0 < cnt" "0 < bs"
    and w: "unat bs \<le> 2 ^ 32 - 8" "unat cnt * (unat (RT_ALIGN bs 4) + 4) \<le> 2 ^ 32 - 4"
    and r: "rt_mp_create name cnt bs (Some n) k = Some (Returns (Some n), k1)"
  shows "\<exists>k2. rt_mp_delete n k1 = Some (Returns RT_EOK, k2) \<and> heap_inv system_heap k2 \<and>
    live_blocks system_heap k2 = live_blocks system_heap k"
proof -
  have C: "heap_inv system_heap k1" "rt_interrupt_nest k1 = 0" "rt_object_get_type (Obj_ipc n) k1 = RT_Object_Class_MemPool"
    "\<not> rt_object_is_systemobject (Obj_ipc n) k1" "heap_lock (heaps k1 system_heap) = heap_lock (heaps k system_heap)"
    "\<exists>p s. live_blocks system_heap k1 = insert (p, s) (live_blocks system_heap k) \<and> p \<notin> fst ` live_blocks system_heap k \<and>
      start_address (mempools k1 n) = p"
    using rt_mp_create_ok [OF h o i n c w, of name] r by auto
  then obtain p s where p: "live_blocks system_heap k1 = insert (p, s) (live_blocks system_heap k)" "p \<notin> fst ` live_blocks system_heap k"
    "start_address (mempools k1 n) = p" by blast
  have b: "(start_address (mempools k1 n), s) \<in> live_blocks system_heap k1" using p by simp
  have nl: "n \<noteq> heap_lock (heaps k1 system_heap)" using n(2) C(5) by simp
  have "(p, s) \<notin> live_blocks system_heap k" using p(2) by force
  then show ?thesis using rt_mp_delete_ok [OF C(1-4) n(1) nl b] p by auto
qed

end
