(* ===== verification/DemoPool.thy ===== *)
theory DemoPool
  imports DemoHeap PoolHeap
begin

text \<open>
  The small system with a heap and room for memory pools: without a pool, with the pool 7 of one
  block of 12 bytes at 0x2000, and with that block in use.
\<close>

definition demo_plain :: mp_sys where
  "demo_plain = heap_sys.extend demo_heap (mp_sys.fields
     (\<lambda>_. \<lparr>start_address = 0, mp_size = 0, block_size = 0, mp_block_list = 0, block_total_count = 0, block_free_count = 0\<rparr>)) \<lparr>objects := demo_objects(RT_Object_Class_MemHeap := [Obj_ipc 0])\<rparr>"

definition demo_pool :: mp_sys where
  "demo_pool = upd_mp 7 (\<lambda>_. \<lparr>start_address = 0x2000, mp_size = 16, block_size = 12, mp_block_list = 0x2000,
     block_total_count = 1, block_free_count = 1\<rparr>) (demo_plain\<lparr>hbytes := (\<lambda>_. 0)\<rparr>)"

definition demo_pool_used :: mp_sys where
  "demo_pool_used = upd_mp 7 (\<lambda>_. \<lparr>start_address = 0x2000, mp_size = 16, block_size = 12, mp_block_list = 0,
     block_total_count = 1, block_free_count = 0\<rparr>) (demo_plain\<lparr>hbytes := put_word 0x2000 7 (\<lambda>_. 0)\<rparr>)"

lemma demo_heap_objects: "rt_scheduler_lock_nest demo_heap = 0" "objects demo_heap = demo_objects" "rt_interrupt_nest demo_heap = 0"
  by simp_all

lemma demo_plain_sel [simp]:
  "thr demo_plain = demo_thread" "tlists demo_plain = demo_lists" "rt_current_thread demo_plain = Some 2" "rt_interrupt_nest demo_plain = 0"
  "objects demo_plain = demo_objects(RT_Object_Class_MemHeap := [Obj_ipc 0])" "objs demo_plain = objs demo_heap" "rt_scheduler_lock_nest demo_plain = 0"
  "rt_thread_ready_priority_group demo_plain = rt_thread_ready_priority_group demo_heap" "rt_timer_list demo_plain = rt_timer_list demo_heap"
  "timers demo_plain = timers demo_heap" "sems demo_plain = sems demo_heap" "heaps demo_plain = heaps demo_heap"
  "hitems demo_plain = hitems demo_heap" "hbytes demo_plain = hbytes demo_heap" "rt_tick demo_plain = rt_tick demo_heap"
  by (simp_all add: demo_plain_def heap_sys.defs mp_sys.defs flip: demo_heap_sel(1-5) demo_heap_objects)

lemma kinv_demo_plain: "kinv demo_plain"
  by (rule objects_irrelevant_kinv [OF kinv_demo_heap]) (simp_all add: demo_objects_def RT_Object_Class_MemHeap_def
      RT_Object_Class_Thread_def RT_Object_Class_Timer_def)

lemma demo_plain_caller: "caller 2 demo_plain"
  using demo_heap_caller by (simp add: caller_def)

lemma demo_plain_objects: "rt_object_get_type r demo_plain = rt_object_get_type r demo_heap" "ipc_flag n demo_plain = ipc_flag n demo_heap"
  by (simp_all add: object_defs ipc_flag_def)

lemma demo_plain_heap: "heap_inv 0 demo_plain" "live_blocks 0 demo_plain = {}" "heap_view 0 demo_plain = [(0x1000, 976, False)]"
proof -
  have "heap_ok 0 demo_plain [0x1000, 0x13e8] [0x1000]"
    using demo_heap_pool kinv_demo_plain by (simp add: heap_ok_def lock_free_def sem_ok_def ipc_inv_def demo_lists_def demo_plain_objects)
  from heap_invI [OF this] show "heap_inv 0 demo_plain" "live_blocks 0 demo_plain = {}" "heap_view 0 demo_plain = [(0x1000, 976, False)]"
    using demo_heap_pool(2) by (auto simp: allocated_def view_def)
qed

lemma demo_pool_ok:
  "mp_ok 7 demo_pool" "mp_free_list 7 demo_pool = [0x2000]" "mp_held 7 demo_pool = {}" "tlists demo_pool (SuspendQ 7) = []"
  "block_size (mempools demo_pool 7) = 12"
proof -
  have k: "kinv (demo_plain\<lparr>hbytes := f\<rparr>) = kinv demo_plain" for f by (rule kinv_cong) simp_all
  then have "ipc_inv demo_pool" using kinv_demo_plain by (simp add: demo_pool_def ipc_inv_def)
  moreover have "mp_inv 7 (hbytes demo_pool) (mempools demo_pool 7) [0x2000]"
    by (simp add: mp_inv_def demo_pool_def mp_grid_def get_word_def lessThan_Suc)
  ultimately have "mp_ok 7 demo_pool \<and> mp_free_list 7 demo_pool = [0x2000]" by (rule mp_okI)
  then show "mp_ok 7 demo_pool" "mp_free_list 7 demo_pool = [0x2000]" by simp_all
  then show "mp_held 7 demo_pool = {}" by (simp add: mp_held_def mp_grid_def demo_pool_def lessThan_Suc)
  show "tlists demo_pool (SuspendQ 7) = []" by (simp add: demo_pool_def demo_lists_def)
  show "block_size (mempools demo_pool 7) = 12" by (simp add: demo_pool_def)
qed

lemma demo_pool_used_ok:
  "mp_ok 7 demo_pool_used" "mp_free_list 7 demo_pool_used = []" "mp_held 7 demo_pool_used = {(0x2004, 12)}" "caller 2 demo_pool_used"
  "block_size (mempools demo_pool_used 7) = 12"
proof -
  have k: "kinv (demo_plain\<lparr>hbytes := f\<rparr>) = kinv demo_plain" for f by (rule kinv_cong) simp_all
  then have "ipc_inv demo_pool_used" using kinv_demo_plain by (simp add: demo_pool_used_def ipc_inv_def)
  moreover have "mp_inv 7 (hbytes demo_pool_used) (mempools demo_pool_used 7) []"
    by (simp add: mp_inv_def demo_pool_used_def mp_grid_def get_put_word lessThan_Suc)
  ultimately have "mp_ok 7 demo_pool_used \<and> mp_free_list 7 demo_pool_used = []" by (rule mp_okI)
  then show "mp_ok 7 demo_pool_used" "mp_free_list 7 demo_pool_used = []" by simp_all
  then show "mp_held 7 demo_pool_used = {(0x2004, 12)}" by (simp add: mp_held_def mp_grid_def demo_pool_used_def lessThan_Suc)
  show "caller 2 demo_pool_used" using demo_plain_caller by (simp add: demo_pool_used_def caller_def)
  show "block_size (mempools demo_pool_used 7) = 12" by (simp add: demo_pool_used_def)
qed

lemma demo_plain_pool: "only_system_heap demo_plain" "Obj_ipc n \<notin> set (objects demo_plain RT_Object_Class_MemPool)"
  by (simp_all add: only_system_heap_def demo_objects_def RT_Object_Class_Thread_def RT_Object_Class_Timer_def RT_Object_Class_MemHeap_def RT_Object_Class_MemPool_def)

end
