(* ===== verification/DfsFd.thy ===== *)
theory DfsFd
  imports Mutex
begin

text \<open>
  The file descriptors of the virtual file system (\<^verbatim>\<open>components/dfs/src/dfs.c\<close>): a table of
  descriptors for every process, entries that count their users, and the mutex that protects them.
  The answers of the heap, which \<^theory_text>\<open>MemHeap\<close> models, are arguments: whether \<open>rt_realloc\<close> could
  make the table longer, and the memory \<open>rt_calloc\<close> returned. The array \<open>fds\<close> and its length \<open>maxfd\<close>
  are one list.
\<close>

subsection \<open>The state\<close>

definition DFS_FD_MAX :: nat where "DFS_FD_MAX = 16"
definition DFS_FD_OFFSET :: nat where "DFS_FD_OFFSET = 3"
definition DFS_FD_MAGIC :: u16 where "DFS_FD_MAGIC = 0xfdfd"

record dfs_fd =
  fd_magic :: u16
  fd_type :: u16
  fd_path :: "string option"
  ref_count :: int
  fd_fs :: "nat option"
  fd_fops :: "nat option"
  fd_flags :: u32
  fd_size :: u32
  fd_pos :: int
  fd_data :: "nat option"

type_synonym dfs_fdtable = "addr option list"

abbreviation maxfd :: "dfs_fdtable \<Rightarrow> nat" where "maxfd \<equiv> length"

text \<open>
  \<open>fd_tables None\<close> is the table \<open>_fdtab\<close> of the kernel, \<open>fd_tables (Some p)\<close> that of the process
  \<open>p\<close>. \<open>std_console\<close> is what the C library answers for the descriptor of the console.
\<close>

record fd_sys = ipc +
  std_console :: int
  thread_lwp :: "tid \<Rightarrow> nat option"
  fd_tables :: "nat option \<Rightarrow> dfs_fdtable"
  dfs_fds :: "addr \<Rightarrow> dfs_fd"

definition upd_fd :: "addr \<Rightarrow> (dfs_fd \<Rightarrow> dfs_fd) \<Rightarrow> 'a fd_sys_scheme \<Rightarrow> 'a fd_sys_scheme" where
  "upd_fd d f k = k\<lparr>dfs_fds := (dfs_fds k)(d := f (dfs_fds k d))\<rparr>"

definition set_fd_table :: "nat option \<Rightarrow> dfs_fdtable \<Rightarrow> 'a fd_sys_scheme \<Rightarrow> 'a fd_sys_scheme" where
  "set_fd_table p t k = k\<lparr>fd_tables := (fd_tables k)(p := t)\<rparr>"

definition dfs_fdtable_get :: "'a fd_sys_scheme \<Rightarrow> nat option option" where
  "dfs_fdtable_get k = do { t \<leftarrow> rt_thread_self k; Some (thread_lwp k t) }"

definition zero_fd :: dfs_fd where
  "zero_fd = \<lparr>fd_magic = 0, fd_type = 0, fd_path = None, ref_count = 0, fd_fs = None, fd_fops = None,
     fd_flags = 0, fd_size = 0, fd_pos = 0, fd_data = None\<rparr>"

subsection \<open>The lock\<close>

text \<open>The object \<open>fslock\<close> is a static mutex; the number that names it here is of no importance.\<close>

definition fslock :: nat where "fslock = 1000"

partial_function (option) dfs_lock :: "'a ipc_scheme \<Rightarrow> ((unit, tid) outcome \<times> 'a ipc_scheme) option" where
  "dfs_lock k = do {
     (o', k) \<leftarrow> rt_mutex_take fslock (- 1) k;
     case o' of
       Blocks t \<Rightarrow> Some (Blocks t, k)
     | Returns result \<Rightarrow>
         if result = - RT_EBUSY then dfs_lock k
         else do { rt_assert (result = RT_EOK); Some (Returns (), k) } }"

definition dfs_lock_resumed :: "tid \<Rightarrow> 'a ipc_scheme \<Rightarrow> ((unit, tid) outcome \<times> 'a ipc_scheme) option" where
  "dfs_lock_resumed t k = do {
     (o', k) \<leftarrow> rt_mutex_take_resumed fslock t (- 1) k;
     case o' of
       Blocks t \<Rightarrow> Some (Blocks t, k)
     | Returns result \<Rightarrow>
         if result = - RT_EBUSY then dfs_lock k
         else do { rt_assert (result = RT_EOK); Some (Returns (), k) } }"

definition dfs_unlock :: "'a ipc_scheme \<Rightarrow> 'a ipc_scheme option" where
  "dfs_unlock k = do { (_, k) \<leftarrow> rt_mutex_release fslock k; Some k }"

text \<open>What follows the lock in every function: its body when the lock is there, and the unlock.\<close>

definition fs_locked ::
  "('a ipc_scheme \<Rightarrow> ('v \<times> 'a ipc_scheme) option) \<Rightarrow> (unit, tid) outcome \<Rightarrow> 'a ipc_scheme \<Rightarrow>
   (('v, tid) outcome \<times> 'a ipc_scheme) option" where
  "fs_locked body o' k =
     (case o' of Blocks t \<Rightarrow> Some (Blocks t, k)
      | Returns _ \<Rightarrow> do {
          (v, k) \<leftarrow> body k;
          k \<leftarrow> dfs_unlock k;
          Some (Returns v, k) })"

definition with_lock where
  "with_lock body k = do { (o', k) \<leftarrow> dfs_lock k; fs_locked body o' k }"

definition with_lock_resumed where
  "with_lock_resumed body t k = do { (o', k) \<leftarrow> dfs_lock_resumed t k; fs_locked body o' k }"

subsection \<open>Descriptors\<close>

fun free_slot :: "(addr \<Rightarrow> dfs_fd) \<Rightarrow> dfs_fdtable \<Rightarrow> nat" where
  "free_slot h [] = 0"
| "free_slot h (e # es) =
     (if (case e of None \<Rightarrow> True | Some d \<Rightarrow> ref_count (h d) = 0) then 0 else Suc (free_slot h es))"

definition fd_grow :: "dfs_fdtable \<Rightarrow> dfs_fdtable" where
  "fd_grow t = t @ replicate (min (maxfd t + 4) DFS_FD_MAX - maxfd t) None"

text \<open>\<open>grow\<close>: \<open>rt_realloc\<close> has memory for a longer table; \<open>mem\<close>: what \<open>rt_calloc\<close> returns.\<close>

definition fd_alloc ::
  "bool \<Rightarrow> addr option \<Rightarrow> nat option \<Rightarrow> nat \<Rightarrow> 'a fd_sys_scheme \<Rightarrow> nat \<times> 'a fd_sys_scheme" where
  "fd_alloc grow mem p startfd k =
     (let t = fd_tables k p;
          idx = startfd + free_slot (dfs_fds k) (drop startfd t)
      in if idx = maxfd t \<and> maxfd t < DFS_FD_MAX \<and> \<not> grow then (idx, k)
      else
        let k = (if idx = maxfd t \<and> maxfd t < DFS_FD_MAX then set_fd_table p (fd_grow t) k else k);
            t = fd_tables k p
        in if idx < maxfd t \<and> t ! idx = None then
             (case mem of None \<Rightarrow> (maxfd t, k)
              | Some d \<Rightarrow> (idx, upd_fd d (\<lambda>_. zero_fd) (set_fd_table p (t[idx := Some d]) k)))
           else (idx, k))"

definition fd_new_body ::
  "bool \<Rightarrow> addr option \<Rightarrow> nat option \<Rightarrow> 'a fd_sys_scheme \<Rightarrow> (int \<times> 'a fd_sys_scheme) option" where
  "fd_new_body grow mem p k =
     (let (idx, k) = fd_alloc grow mem p 0 k
      in if idx = maxfd (fd_tables k p) then Some (- (1 + int DFS_FD_OFFSET) + int DFS_FD_OFFSET, k)
      else do {
        d \<leftarrow> fd_tables k p ! idx;
        let k = upd_fd d (\<lambda>f. f\<lparr>ref_count := 1\<rparr>) k;
        Some (int idx + int DFS_FD_OFFSET, upd_fd d (\<lambda>f. f\<lparr>fd_magic := DFS_FD_MAGIC\<rparr>) k) })"

definition fd_new ::
  "bool \<Rightarrow> addr option \<Rightarrow> 'a fd_sys_scheme \<Rightarrow> ((int, tid) outcome \<times> 'a fd_sys_scheme) option" where
  "fd_new grow mem k = do {
     fdt \<leftarrow> dfs_fdtable_get k;
     with_lock (fd_new_body grow mem fdt) k }"

definition fd_get_body :: "nat option \<Rightarrow> nat \<Rightarrow> 'a fd_sys_scheme \<Rightarrow> (addr option \<times> 'a fd_sys_scheme) option" where
  "fd_get_body p fd k =
     (case fd_tables k p ! fd of
        None \<Rightarrow> Some (None, k)
      | Some d \<Rightarrow>
          if fd_magic (dfs_fds k d) \<noteq> DFS_FD_MAGIC then Some (None, k)
          else Some (Some d, upd_fd d (\<lambda>f. f\<lparr>ref_count := ref_count f + 1\<rparr>) k))"

definition fd_index :: "int \<Rightarrow> 'a fd_sys_scheme \<Rightarrow> int" where
  "fd_index fd k = (if 0 \<le> fd \<and> fd \<le> 2 then std_console k else fd) - int DFS_FD_OFFSET"

definition fd_get :: "int \<Rightarrow> 'a fd_sys_scheme \<Rightarrow> ((addr option, tid) outcome \<times> 'a fd_sys_scheme) option" where
  "fd_get fd k = do {
     fdt \<leftarrow> dfs_fdtable_get k;
     let fd = fd_index fd k;
     if fd < 0 \<or> int (maxfd (fd_tables k fdt)) \<le> fd then Some (Returns None, k)
     else with_lock (fd_get_body fdt (nat fd)) k }"

fun clear_entry :: "addr \<Rightarrow> dfs_fdtable \<Rightarrow> dfs_fdtable" where
  "clear_entry d [] = []"
| "clear_entry d (e # es) = (if e = Some d then None # es else e # clear_entry d es)"

definition fd_put_body :: "addr \<Rightarrow> 'a fd_sys_scheme \<Rightarrow> (unit \<times> 'a fd_sys_scheme) option" where
  "fd_put_body d k = do {
     let k = upd_fd d (\<lambda>f. f\<lparr>ref_count := ref_count f - 1\<rparr>) k;
     if ref_count (dfs_fds k d) = 0 then do {
       fdt \<leftarrow> dfs_fdtable_get k;
       Some ((), set_fd_table fdt (clear_entry d (fd_tables k fdt)) k) }
     else Some ((), k) }"

definition fd_put :: "addr option \<Rightarrow> 'a fd_sys_scheme \<Rightarrow> ((unit, tid) outcome \<times> 'a fd_sys_scheme) option" where
  "fd_put fd k = do {
     d \<leftarrow> fd;
     with_lock (fd_put_body d) k }"

text \<open>A caller that had to wait for the lock goes on with what it has looked up before.\<close>

definition fd_new_resumed where
  "fd_new_resumed grow mem fdt t k = with_lock_resumed (fd_new_body grow mem fdt) t k"

definition fd_get_resumed where
  "fd_get_resumed fdt fd t k = with_lock_resumed (fd_get_body fdt fd) t k"

definition fd_put_resumed where
  "fd_put_resumed d t k = with_lock_resumed (fd_put_body d) t k"

subsection \<open>The state after an update\<close>

lemma upd_fd_sel [simp]:
  "thr (upd_fd d f k) = thr k" "tlists (upd_fd d f k) = tlists k"
  "rt_scheduler_lock_nest (upd_fd d f k) = rt_scheduler_lock_nest k"
  "rt_current_thread (upd_fd d f k) = rt_current_thread k"
  "rt_interrupt_nest (upd_fd d f k) = rt_interrupt_nest k" "rt_tick (upd_fd d f k) = rt_tick k"
  "timers (upd_fd d f k) = timers k" "rt_timer_list (upd_fd d f k) = rt_timer_list k"
  "objs (upd_fd d f k) = objs k" "objects (upd_fd d f k) = objects k"
  "mutexes (upd_fd d f k) = mutexes k" "thread_lwp (upd_fd d f k) = thread_lwp k"
  "std_console (upd_fd d f k) = std_console k" "fd_tables (upd_fd d f k) = fd_tables k"
  "dfs_fds (upd_fd d f k) = (dfs_fds k)(d := f (dfs_fds k d))" "kinv (upd_fd d f k) = kinv k"
  "fd_sys.more (upd_fd d f k) = fd_sys.more k"
proof -
  show "kinv (upd_fd d f k) = kinv k" by (rule kinv_cong) (simp_all add: upd_fd_def)
qed (simp_all add: upd_fd_def)

lemma set_fd_table_sel [simp]:
  "thr (set_fd_table p t k) = thr k" "tlists (set_fd_table p t k) = tlists k"
  "rt_scheduler_lock_nest (set_fd_table p t k) = rt_scheduler_lock_nest k"
  "rt_current_thread (set_fd_table p t k) = rt_current_thread k"
  "rt_interrupt_nest (set_fd_table p t k) = rt_interrupt_nest k" "rt_tick (set_fd_table p t k) = rt_tick k"
  "timers (set_fd_table p t k) = timers k" "rt_timer_list (set_fd_table p t k) = rt_timer_list k"
  "objs (set_fd_table p t k) = objs k" "objects (set_fd_table p t k) = objects k"
  "mutexes (set_fd_table p t k) = mutexes k" "thread_lwp (set_fd_table p t k) = thread_lwp k"
  "std_console (set_fd_table p t k) = std_console k" "dfs_fds (set_fd_table p t k) = dfs_fds k"
  "fd_tables (set_fd_table p t k) = (fd_tables k)(p := t)" "kinv (set_fd_table p t k) = kinv k"
  "fd_sys.more (set_fd_table p t k) = fd_sys.more k"
proof -
  show "kinv (set_fd_table p t k) = kinv k" by (rule kinv_cong) (simp_all add: set_fd_table_def)
qed (simp_all add: set_fd_table_def)

lemma upd_thr_fd_sel [simp]:
  "fd_tables (upd_thr t f k) = fd_tables k" "dfs_fds (upd_thr t f k) = dfs_fds k"
  "thread_lwp (upd_thr t f k) = thread_lwp k" "std_console (upd_thr t f k) = std_console k"
  "fd_sys.more (upd_thr t f k) = fd_sys.more k"
  by (simp_all add: upd_thr_def)

lemma upd_mutex_fd_sel [simp]:
  "fd_tables (upd_mutex n f k) = fd_tables k" "dfs_fds (upd_mutex n f k) = dfs_fds k"
  "thread_lwp (upd_mutex n f k) = thread_lwp k" "std_console (upd_mutex n f k) = std_console k"
  "fd_sys.more (upd_mutex n f k) = fd_sys.more k"
  by (simp_all add: upd_mutex_def)

lemma upd_mutex_commutes:
  "upd_fd d g (upd_mutex n f k) = upd_mutex n f (upd_fd d g k)"
  "set_fd_table p t (upd_mutex n f k) = upd_mutex n f (set_fd_table p t k)"
  by (simp_all add: upd_fd_def set_fd_table_def upd_mutex_def)

lemma upd_mutex_twice: "upd_mutex n f (upd_mutex n g k) = upd_mutex n (f \<circ> g) k"
  by (simp add: upd_mutex_def)

lemma upd_mutex_same: "f (mutexes k n) = mutexes k n \<Longrightarrow> upd_mutex n f k = k"
  by (simp add: upd_mutex_def)

subsection \<open>An uncontended lock\<close>

text \<open>
  Between \<open>dfs_lock\<close> and \<open>dfs_unlock\<close> a body neither looks at the mutexes nor changes anything the
  mutex depends on. When the lock is free the whole function does what its body does; that the
  caller's error code was cleared by \<open>rt_mutex_take\<close> stays behind.
\<close>

definition lock_blind :: "('a fd_sys_scheme \<Rightarrow> ('v \<times> 'a fd_sys_scheme) option) \<Rightarrow> bool" where
  "lock_blind body \<longleftrightarrow>
     (\<forall>n f k. body (upd_mutex n f k) = map_option (\<lambda>(v, k'). (v, upd_mutex n f k')) (body k)) \<and>
     (\<forall>k v k'. body k = Some (v, k') \<longrightarrow> mutexes k' = mutexes k \<and> thr k' = thr k \<and> tlists k' = tlists k \<and>
        objs k' = objs k \<and> rt_current_thread k' = rt_current_thread k \<and> rt_interrupt_nest k' = rt_interrupt_nest k)"

definition fs_free :: "'a ipc_scheme \<Rightarrow> bool" where
  "fs_free k \<longleftrightarrow> rt_object_get_type (Obj_ipc fslock) k = RT_Object_Class_Mutex \<and> tlists k (SuspendQ fslock) = [] \<and>
     mutexes k fslock = \<lparr>mutex_value = 1, original_priority = 0xFF, hold = 0, owner = None\<rparr>"

abbreviation cleared :: "tid \<Rightarrow> 'a kernel_scheme \<Rightarrow> 'a kernel_scheme" where
  "cleared t \<equiv> upd_thr t (set_error RT_EOK)"

lemma cleared_sel [simp]:
  "mutexes (cleared t k) = mutexes k" "tlists (cleared t k) = tlists k" "objs (cleared t k) = objs k"
  "rt_current_thread (cleared t k) = rt_current_thread k" "rt_interrupt_nest (cleared t k) = rt_interrupt_nest k"
  "prio_of (cleared t k) u = prio_of k u" "state_of (cleared t k) u = state_of k u"
  "rt_object_get_type r (cleared t k) = rt_object_get_type r k"
  by (simp_all add: upd_thr_def set_error_def object_defs th_stat_def)

lemma dfs_lock_free:
  assumes f: "fs_free k" and c: "caller t k"
  shows "dfs_lock k = Some (Returns (), upd_mutex fslock (\<lambda>_. \<lparr>mutex_value = 0,
    original_priority = prio_of k t, hold = 1, owner = Some t\<rparr>) (cleared t k))"
proof -
  have "rt_mutex_take fslock (- 1) k = Some (Returns RT_EOK, upd_mutex fslock (\<lambda>_. \<lparr>mutex_value = 0,
    original_priority = prio_of k t, hold = 1, owner = Some t\<rparr>) (cleared t k))"
    using f c by (simp add: rt_mutex_take_def mutex_again_def fs_free_def upd_mutex_def)
  then show ?thesis by (subst dfs_lock.simps) simp
qed

lemma dfs_unlock_owner:
  assumes c: "caller t k" and ty: "rt_object_get_type (Obj_ipc fslock) k = RT_Object_Class_Mutex"
    and q: "tlists k (SuspendQ fslock) = []"
    and m: "mutexes k fslock = \<lparr>mutex_value = 0, original_priority = prio_of k t, hold = 1, owner = Some t\<rparr>"
  shows "dfs_unlock k = Some (upd_mutex fslock (\<lambda>_. \<lparr>mutex_value = 1, original_priority = 0xFF, hold = 0, owner = None\<rparr>) k)"
  using assms by (simp add: dfs_unlock_def rt_mutex_release_def upd_mutex_twice) (simp add: upd_mutex_def)

lemma with_lock_free:
  assumes b: "lock_blind body" and f: "fs_free k" and c: "caller t k"
  shows "with_lock body k = map_option (\<lambda>(v, k'). (Returns v, k')) (body (cleared t k))"
proof (cases "body (cleared t k)")
  case None
  then show ?thesis using b dfs_lock_free [OF f c] by (simp add: with_lock_def fs_locked_def lock_blind_def)
next
  case (Some r)
  obtain v k' where r: "body (cleared t k) = Some (v, k')" using Some by (cases r) auto
  have same: "mutexes k' = mutexes k" "thr k' = thr (cleared t k)" "tlists k' = tlists k" "objs k' = objs k"
    "rt_current_thread k' = rt_current_thread k" "rt_interrupt_nest k' = rt_interrupt_nest k"
    using b r unfolding lock_blind_def by fastforce+
  let ?own = "\<lparr>mutex_value = 0, original_priority = prio_of k t, hold = 1, owner = Some t\<rparr>"
  have body: "body (upd_mutex fslock (\<lambda>_. ?own) (cleared t k)) = Some (v, upd_mutex fslock (\<lambda>_. ?own) k')"
    using b r by (simp add: lock_blind_def)
  have st: "th_stat (thr k' t) = th_stat (thr k t)" "prio_of k' t = prio_of k t"
    unfolding same(2) by simp_all
  have c': "caller t (upd_mutex fslock (\<lambda>_. ?own) k')"
    using c st same by (simp add: caller_def)
  have "dfs_unlock (upd_mutex fslock (\<lambda>_. ?own) k') = Some k'"
  proof -
    have idle: "upd_mutex fslock (\<lambda>_. \<lparr>mutex_value = 1, original_priority = 0xFF, hold = 0, owner = None\<rparr>) k' = k'"
      using f same(1) by (intro upd_mutex_same) (simp add: fs_free_def)
    have "rt_object_get_type (Obj_ipc fslock) (upd_mutex fslock (\<lambda>_. ?own) k') = RT_Object_Class_Mutex"
      using f same(4) by (simp add: fs_free_def object_defs)
    then show ?thesis using f same(3) st idle
      by (simp add: dfs_unlock_owner [OF c'] fs_free_def upd_mutex_twice comp_def)
  qed
  then show ?thesis using r body dfs_lock_free [OF f c] by (simp add: with_lock_def fs_locked_def)
qed

lemma fs_free_sel [simp]:
  "fs_free (upd_fd d g k) = fs_free k" "fs_free (set_fd_table p tb k) = fs_free k" "fs_free (cleared t k) = fs_free k"
  by (simp_all add: fs_free_def object_defs)

lemma caller_fd [simp]:
  "caller t (upd_fd d g k) = caller t k" "caller t (set_fd_table p tb k) = caller t k" "caller t (cleared u k) = caller t k"
  by (simp_all add: caller_def)

lemma lock_blind_get: "lock_blind (fd_get_body p fd)"
  by (auto simp: lock_blind_def fd_get_body_def upd_mutex_commutes split: option.splits if_splits)

lemma lock_blind_put: "lock_blind (fd_put_body d)"
  by (auto simp: lock_blind_def fd_put_body_def upd_mutex_commutes dfs_fdtable_get_def rt_thread_self_def Let_def
      split: if_splits bind_splits)

lemma lock_blind_new: "lock_blind (fd_new_body grow mem p)"
  by (auto simp: lock_blind_def fd_new_body_def fd_alloc_def upd_mutex_commutes Let_def
      split: if_splits bind_splits option.splits)

subsection \<open>What the functions do\<close>

definition own_table :: "tid \<Rightarrow> 'a fd_sys_scheme \<Rightarrow> dfs_fdtable" where
  "own_table t k = fd_tables k (thread_lwp k t)"

text \<open>The entry behind a descriptor number of the caller, with the numbers of the console.\<close>

definition fd_lookup :: "tid \<Rightarrow> 'a fd_sys_scheme \<Rightarrow> int \<Rightarrow> addr option" where
  "fd_lookup t k fd =
     (let i = fd_index fd k
      in if i < 0 \<or> int (maxfd (own_table t k)) \<le> i then None else own_table t k ! nat i)"

text \<open>
  The tables are in order: no longer than configured, an entry is in one place of one table, is
  marked as a descriptor and has a user.
\<close>

definition fds_ok :: "'a fd_sys_scheme \<Rightarrow> bool" where
  "fds_ok k \<longleftrightarrow>
     (\<forall>p. maxfd (fd_tables k p) \<le> DFS_FD_MAX) \<and>
     (\<forall>p q i j d. i < maxfd (fd_tables k p) \<and> j < maxfd (fd_tables k q) \<and> fd_tables k p ! i = Some d \<and>
        fd_tables k q ! j = Some d \<longrightarrow> p = q \<and> i = j) \<and>
     (\<forall>p d. Some d \<in> set (fd_tables k p) \<longrightarrow> fd_magic (dfs_fds k d) = DFS_FD_MAGIC \<and> 0 < ref_count (dfs_fds k d))"

lemma fds_ok_entry: "fds_ok k \<Longrightarrow> Some d \<in> set (fd_tables k p) \<Longrightarrow>
    fd_magic (dfs_fds k d) = DFS_FD_MAGIC \<and> 0 < ref_count (dfs_fds k d)"
  and fds_ok_max: "fds_ok k \<Longrightarrow> maxfd (fd_tables k p) \<le> DFS_FD_MAX"
  and fds_ok_once: "\<lbrakk>fds_ok k; i < maxfd (fd_tables k p); j < maxfd (fd_tables k q); fd_tables k p ! i = Some d;
    fd_tables k q ! j = Some d\<rbrakk> \<Longrightarrow> p = q \<and> i = j"
  unfolding fds_ok_def by blast+

lemma fds_okI:
  assumes "\<And>p. maxfd (fd_tables k p) \<le> DFS_FD_MAX"
    "\<And>p q i j d. \<lbrakk>i < maxfd (fd_tables k p); j < maxfd (fd_tables k q); fd_tables k p ! i = Some d;
       fd_tables k q ! j = Some d\<rbrakk> \<Longrightarrow> p = q \<and> i = j"
    "\<And>p d. Some d \<in> set (fd_tables k p) \<Longrightarrow> fd_magic (dfs_fds k d) = DFS_FD_MAGIC \<and> 0 < ref_count (dfs_fds k d)"
  shows "fds_ok k"
  unfolding fds_ok_def using assms by blast

lemma fds_ok_cong:
  "fd_tables k' = fd_tables k \<Longrightarrow> dfs_fds k' = dfs_fds k \<Longrightarrow> fds_ok k' = fds_ok k"
  by (simp add: fds_ok_def)

lemma fds_ok_cleared [simp]: "fds_ok (cleared t k) = fds_ok k"
  by (rule fds_ok_cong) simp_all

lemma own_table_sel [simp]:
  "own_table t (upd_fd d f k) = own_table t k" "own_table t (cleared u k) = own_table t k"
  by (simp_all add: own_table_def)

lemma fd_index_sel [simp]:
  "fd_index fd (upd_fd d f k) = fd_index fd k" "fd_index fd (cleared u k) = fd_index fd k"
  "fd_index fd (set_fd_table p tb k) = fd_index fd k"
  by (simp_all add: fd_index_def)

lemma fd_lookup_sel [simp]:
  "fd_lookup t (upd_fd d f k) = fd_lookup t k" "fd_lookup t (cleared u k) = fd_lookup t k"
  by (simp_all add: fd_lookup_def fun_eq_iff Let_def)

lemma fd_lookup_in: "fd_lookup t k fd = Some d \<Longrightarrow> Some d \<in> set (own_table t k)"
  by (auto simp: fd_lookup_def Let_def in_set_conv_nth split: if_splits) (metis nat_less_iff not_le)

lemma caller_table [simp]: "caller t k \<Longrightarrow> dfs_fdtable_get k = Some (thread_lwp k t)"
  by (simp add: dfs_fdtable_get_def)

subsubsection \<open>Getting and putting\<close>

lemma fd_get_free:
  assumes ok: "fds_ok k" and f: "fs_free k" and c: "caller t k"
  shows "fd_get fd k = Some (Returns (fd_lookup t k fd),
    case fd_lookup t k fd of
      Some d \<Rightarrow> upd_fd d (\<lambda>f. f\<lparr>ref_count := ref_count f + 1\<rparr>) (cleared t k)
    | None \<Rightarrow> if 0 \<le> fd_index fd k \<and> fd_index fd k < int (maxfd (own_table t k)) then cleared t k else k)"
proof (cases "fd_index fd k < 0 \<or> int (maxfd (own_table t k)) \<le> fd_index fd k")
  case True
  then show ?thesis using c by (auto simp: fd_get_def fd_lookup_def own_table_def)
next
  case False
  then have l: "fd_lookup t k fd = fd_tables k (thread_lwp k t) ! nat (fd_index fd k)"
    by (simp add: fd_lookup_def own_table_def)
  have "fd_get fd k = with_lock (fd_get_body (thread_lwp k t) (nat (fd_index fd k))) k"
    using False c by (auto simp: fd_get_def own_table_def)
  also have "\<dots> = map_option (\<lambda>(v, k'). (Returns v, k')) (fd_get_body (thread_lwp k t) (nat (fd_index fd k)) (cleared t k))"
    by (rule with_lock_free [OF lock_blind_get f c])
  also have "\<dots> = Some (Returns (fd_lookup t k fd), case fd_lookup t k fd of None \<Rightarrow> cleared t k
      | Some d \<Rightarrow> upd_fd d (\<lambda>f. f\<lparr>ref_count := ref_count f + 1\<rparr>) (cleared t k))"
  proof (cases "fd_lookup t k fd")
    case (Some d)
    have "fd_magic (dfs_fds k d) = DFS_FD_MAGIC"
      using fds_ok_entry [OF ok] fd_lookup_in [OF Some] by (simp add: own_table_def)
    then show ?thesis using Some l by (simp add: fd_get_body_def)
  qed (use l in \<open>simp add: fd_get_body_def\<close>)
  finally show ?thesis using False by (auto split: option.split)
qed

lemma fd_put_free:
  assumes f: "fs_free k" and c: "caller t k"
  shows "fd_put (Some d) k = Some (Returns (),
    let k = upd_fd d (\<lambda>f. f\<lparr>ref_count := ref_count f - 1\<rparr>) (cleared t k)
    in if ref_count (dfs_fds k d) = 0 then set_fd_table (thread_lwp k t) (clear_entry d (own_table t k)) k else k)"
  unfolding fd_put_def bind.simps with_lock_free [OF lock_blind_put f c]
  using c by (simp add: fd_put_body_def own_table_def Let_def)

lemma fds_ok_users:
  assumes ok: "fds_ok k" and n: "0 < ref_count (g (dfs_fds k d))" "fd_magic (g (dfs_fds k d)) = fd_magic (dfs_fds k d)"
  shows "fds_ok (upd_fd d g k)"
proof (rule fds_okI)
  show "fd_magic (dfs_fds (upd_fd d g k) e) = DFS_FD_MAGIC \<and> 0 < ref_count (dfs_fds (upd_fd d g k) e)"
    if "Some e \<in> set (fd_tables (upd_fd d g k) p)" for p e
    using fds_ok_entry [OF ok, of e p] that n by (cases "e = d") simp_all
qed (use fds_ok_max [OF ok] fds_ok_once [OF ok] in simp_all)

lemma clear_entry_update:
  "i < length t \<Longrightarrow> t ! i = Some d \<Longrightarrow> (\<And>j. j < length t \<Longrightarrow> t ! j = Some d \<Longrightarrow> j = i) \<Longrightarrow>
   clear_entry d t = t[i := None]"
proof (induction t arbitrary: i)
  case (Cons e es)
  show ?case
  proof (cases i)
    case 0
    then show ?thesis using Cons.prems by simp
  next
    case (Suc m)
    have "e \<noteq> Some d" using Cons.prems(3) [of 0] Suc by fastforce
    moreover have "clear_entry d es = es[m := None]"
    proof (rule Cons.IH)
      show "j = m" if "j < length es" "es ! j = Some d" for j
        using Cons.prems(3) [of "Suc j"] that Suc by simp
    qed (use Cons.prems(1,2) Suc in simp_all)
    ultimately show ?thesis using Suc by simp
  qed
qed simp

lemma fds_ok_update:
  assumes ok: "fds_ok k" and i: "i < maxfd (fd_tables k p)"
    and e: "e = None \<or> (\<exists>d. e = Some d \<and> (\<forall>q. Some d \<notin> set (fd_tables k q)) \<and> 0 < ref_count (dfs_fds k d) \<and>
      fd_magic (dfs_fds k d) = DFS_FD_MAGIC)"
  shows "fds_ok (set_fd_table p ((fd_tables k p)[i := e]) k)"
proof -
  let ?T = "(fd_tables k)(p := (fd_tables k p)[i := e])"
  have len: "maxfd (?T q) = maxfd (fd_tables k q)" for q by simp
  have at: "?T q ! j = (if q = p \<and> j = i then e else fd_tables k q ! j)" if "j < maxfd (fd_tables k q)" for q j
    using that i by (simp add: nth_list_update)
  have new: "fd_tables k q ! j \<noteq> Some d" if "e = Some d" "j < maxfd (fd_tables k q)" for q j d
    using e that by (metis nth_mem option.distinct(1) option.inject)
  show ?thesis
  proof (rule fds_okI)
    show "maxfd (fd_tables (set_fd_table p ((fd_tables k p)[i := e]) k) q) \<le> DFS_FD_MAX" for q
      using fds_ok_max [OF ok, of q] len [of q] by simp
    show "q = r \<and> a = b" if "a < maxfd (fd_tables (set_fd_table p ((fd_tables k p)[i := e]) k) q)"
      "b < maxfd (fd_tables (set_fd_table p ((fd_tables k p)[i := e]) k) r)"
      "fd_tables (set_fd_table p ((fd_tables k p)[i := e]) k) q ! a = Some d"
      "fd_tables (set_fd_table p ((fd_tables k p)[i := e]) k) r ! b = Some d" for q r a b d
    proof -
      have l: "a < maxfd (fd_tables k q)" "b < maxfd (fd_tables k r)"
        using that(1,2) len by simp_all
      show ?thesis using that(3,4) new [of d] l fds_ok_once [OF ok l, of d] unfolding set_fd_table_sel at [OF l(1)] at [OF l(2)]
        by (simp split: if_splits)
    qed
    show "fd_magic (dfs_fds (set_fd_table p ((fd_tables k p)[i := e]) k) d) = DFS_FD_MAGIC \<and>
      0 < ref_count (dfs_fds (set_fd_table p ((fd_tables k p)[i := e]) k) d)"
      if d: "Some d \<in> set (fd_tables (set_fd_table p ((fd_tables k p)[i := e]) k) q)" for q d
    proof -
      have "Some d \<in> set (fd_tables k q) \<or> Some d = e"
        using d set_update_subset_insert [of "fd_tables k p" i e] by (auto split: if_splits)
      then show ?thesis using fds_ok_entry [OF ok] e by auto
    qed
  qed
qed

subsubsection \<open>Descriptors as counters of users\<close>

text \<open>The abstract view of a table: how many users each descriptor has.\<close>

definition fd_users :: "tid \<Rightarrow> 'a fd_sys_scheme \<Rightarrow> nat \<Rightarrow> int option" where
  "fd_users t k n =
     (if n < maxfd (own_table t k) then map_option (\<lambda>d. ref_count (dfs_fds k d)) (own_table t k ! n) else None)"

definition fd_ready :: "tid \<Rightarrow> 'a fd_sys_scheme \<Rightarrow> bool" where
  "fd_ready t k \<longleftrightarrow> fds_ok k \<and> fs_free k \<and> caller t k"

lemma fd_ready_cleared [simp]: "fd_ready t (cleared t k) = fd_ready t k"
  by (simp add: fd_ready_def)

lemma fd_users_cleared [simp]: "fd_users t (cleared u k) = fd_users t k"
  by (simp add: fd_users_def fun_eq_iff)

text \<open>Descriptor \<open>fd\<close> of thread \<open>t\<close> is entry \<open>n\<close> of its table, with the structure \<open>d\<close>.\<close>

definition fd_is :: "tid \<Rightarrow> 'a fd_sys_scheme \<Rightarrow> int \<Rightarrow> nat \<Rightarrow> addr \<Rightarrow> bool" where
  "fd_is t k fd n d \<longleftrightarrow> fd_index fd k = int n \<and> n < maxfd (own_table t k) \<and> own_table t k ! n = Some d"

lemma fd_is_lookup: "fd_is t k fd n d \<Longrightarrow> fd_lookup t k fd = Some d"
  by (simp add: fd_is_def fd_lookup_def)

lemma fd_is_used: "fd_ready t k \<Longrightarrow> fd_is t k fd n d \<Longrightarrow> 0 < ref_count (dfs_fds k d)"
  using fds_ok_entry [of k d "thread_lwp k t"] fd_lookup_in [OF fd_is_lookup, of t k fd n d]
  by (simp add: fd_ready_def own_table_def)

lemma fd_is_other:
  assumes "fd_ready t k" "fd_is t k fd n d" "m < maxfd (own_table t k)" "m \<noteq> n"
  shows "own_table t k ! m \<noteq> Some d"
  using assms fds_ok_once [of k m "thread_lwp k t" n "thread_lwp k t" d]
  by (auto simp: fd_ready_def fd_is_def own_table_def)

lemma fd_users_upd:
  assumes r: "fd_ready t k" and i: "fd_is t k fd n d"
  shows "fd_users t (upd_fd d g k) = (fd_users t k)(n := Some (ref_count (g (dfs_fds k d))))"
proof
  fix m
  show "fd_users t (upd_fd d g k) m = ((fd_users t k)(n := Some (ref_count (g (dfs_fds k d))))) m"
  proof (cases "m = n \<or> \<not> m < maxfd (own_table t k)")
    case True
    then show ?thesis using i by (auto simp: fd_users_def fd_is_def)
  next
    case False
    then show ?thesis using fd_is_other [OF r i, of m]
      by (cases "own_table t k ! m") (auto simp: fd_users_def)
  qed
qed

lemma fd_get_counts:
  assumes r: "fd_ready t k" and i: "fd_is t k fd n d"
  shows "\<exists>k'. fd_get fd k = Some (Returns (Some d), k') \<and> fd_ready t k' \<and> fd_is t k' fd n d \<and>
    fd_users t k' = (fd_users t k)(n := Some (ref_count (dfs_fds k d) + 1)) \<and>
    k' = upd_fd d (\<lambda>f. f\<lparr>ref_count := ref_count f + 1\<rparr>) (cleared t k)"
proof -
  let ?k = "upd_fd d (\<lambda>f. f\<lparr>ref_count := ref_count f + 1\<rparr>) (cleared t k)"
  note p = fd_is_used [OF r i]
  have "fd_get fd k = Some (Returns (Some d), ?k)"
    using fd_get_free [of k t fd] r fd_is_lookup [OF i] by (simp add: fd_ready_def)
  moreover have "fds_ok ?k"
    using r p by (intro fds_ok_users) (simp_all add: fd_ready_def)
  moreover have "fd_users t ?k = (fd_users t k)(n := Some (ref_count (dfs_fds k d) + 1))"
    using fd_users_upd [of t "cleared t k" fd n d] r i by (simp add: fd_is_def)
  ultimately show ?thesis using r i by (auto simp: fd_ready_def fd_is_def)
qed

lemma fd_get_nobody:
  assumes r: "fd_ready t k" and n: "fd_lookup t k fd = None"
  shows "\<exists>k'. fd_get fd k = Some (Returns None, k') \<and> fd_ready t k' \<and> fd_users t k' = fd_users t k"
  using fd_get_free [of k t fd] r n by (auto simp: fd_ready_def)

lemma fd_put_counts:
  assumes r: "fd_ready t k" and i: "fd_is t k fd n d"
  shows "\<exists>k'. fd_put (Some d) k = Some (Returns (), k') \<and> fd_ready t k' \<and>
    fd_users t k' = (fd_users t k)(n := if ref_count (dfs_fds k d) = 1 then None else Some (ref_count (dfs_fds k d) - 1)) \<and>
    k' = (let k1 = upd_fd d (\<lambda>f. f\<lparr>ref_count := ref_count f - 1\<rparr>) (cleared t k)
      in if ref_count (dfs_fds k d) = 1 then set_fd_table (thread_lwp k t) ((own_table t k)[n := None]) k1 else k1)"
proof -
  let ?p = "thread_lwp k t"
  let ?k = "upd_fd d (\<lambda>f. f\<lparr>ref_count := ref_count f - 1\<rparr>) (cleared t k)"
  have ok: "fds_ok k" "fs_free k" "caller t k" using r by (simp_all add: fd_ready_def)
  have n: "n < maxfd (fd_tables k ?p)" "fd_tables k ?p ! n = Some d" using i by (simp_all add: fd_is_def own_table_def)
  note p = fd_is_used [OF r i]
  have clr: "clear_entry d (own_table t k) = (own_table t k)[n := None]"
    using i fd_is_other [OF r i] by (intro clear_entry_update) (auto simp: fd_is_def)
  have put: "fd_put (Some d) k = Some (Returns (), if ref_count (dfs_fds k d) = 1
    then set_fd_table ?p ((own_table t k)[n := None]) ?k else ?k)"
    using fd_put_free [OF ok(2,3), of d] clr by (simp add: Let_def)
  have users: "fd_users t ?k = (fd_users t k)(n := Some (ref_count (dfs_fds k d) - 1))"
    using fd_users_upd [of t "cleared t k" fd n d] r i by (simp add: fd_is_def)
  show ?thesis
  proof (cases "ref_count (dfs_fds k d) = 1")
    case False
    then have "fds_ok ?k" using ok(1) p by (intro fds_ok_users) simp_all
    then show ?thesis using put users ok False by (simp add: fd_ready_def)
  next
    case True
    let ?k' = "set_fd_table ?p ((own_table t k)[n := None]) ?k"
    let ?c = "set_fd_table ?p ((own_table t k)[n := None]) (cleared t k)"
    have c: "fds_ok ?c" using fds_ok_update [of "cleared t k" n ?p None] ok(1) n by (simp add: own_table_def)
    have gone: "Some d \<notin> set (fd_tables ?k' q)" for q
    proof
      assume "Some d \<in> set (fd_tables ?k' q)"
      then obtain j where a: "j < maxfd (fd_tables ?k' q)" "fd_tables ?k' q ! j = Some d"
        unfolding in_set_conv_nth by blast
      have j: "j < maxfd (fd_tables k q)" "fd_tables k q ! j = Some d" "\<not> (q = ?p \<and> j = n)"
        using a n by (cases "q = ?p"; cases "j = n"; simp add: own_table_def)+
      show False using fds_ok_once [OF ok(1) j(1) n(1) j(2) n(2)] j(3) by simp
    qed
    have "fds_ok ?k'"
    proof (rule fds_okI)
      show "fd_magic (dfs_fds ?k' e) = DFS_FD_MAGIC \<and> 0 < ref_count (dfs_fds ?k' e)" if "Some e \<in> set (fd_tables ?k' q)" for q e
      proof -
        have "e \<noteq> d" using gone that by blast
        then show ?thesis using fds_ok_entry [OF c, of e q] that by simp
      qed
    next
      show "maxfd (fd_tables ?k' q) \<le> DFS_FD_MAX" for q using fds_ok_max [OF c, of q] by simp
    next
      show "q = r \<and> a = b" if "a < maxfd (fd_tables ?k' q)" "b < maxfd (fd_tables ?k' r)"
        "fd_tables ?k' q ! a = Some e" "fd_tables ?k' r ! b = Some e" for q r a b e
        using fds_ok_once [OF c, of a q b r e] that by simp
    qed
    moreover have "fd_users t ?k' = (fd_users t k)(n := None)"
    proof
      fix m
      show "fd_users t ?k' m = ((fd_users t k)(n := None)) m"
        using fun_cong [OF users, of m] n by (auto simp: fd_users_def own_table_def)
    qed
    ultimately show ?thesis using put ok True by (simp add: fd_ready_def)
  qed
qed

lemma free_slot_le: "free_slot h t \<le> maxfd t"
  by (induction t) auto

lemma free_slot_none:
  assumes "\<And>d. Some d \<in> set t \<Longrightarrow> 0 < ref_count (h d)"
  shows "\<And>j. j < free_slot h t \<Longrightarrow> t ! j \<noteq> None" and "free_slot h t < maxfd t \<Longrightarrow> t ! free_slot h t = None"
  using assms
proof (induction t)
  case (Cons e es)
  { case 1
    then show ?case using Cons.IH(1) [of "j - 1"] by (cases j) (auto split: if_splits option.splits)
  next
    case 2
    have "ref_count (h d) \<noteq> 0" if "e = Some d" for d using 2(2) [of d] that by simp
    moreover have "\<And>d. Some d \<in> set es \<Longrightarrow> 0 < ref_count (h d)" using 2(2) by simp
    ultimately show ?case using 2(1) Cons.IH(2) by (cases e) auto
  }
qed auto

text \<open>
  A new descriptor is the first number without a user. It is refused when all are in use, or when
  it needs memory that the heap does not have.
\<close>

lemma fd_new_free:
  assumes f: "fs_free k" and c: "caller t k"
  shows "fd_new grow mem k = map_option (\<lambda>(v, k'). (Returns v, k')) (fd_new_body grow mem (thread_lwp k t) (cleared t k))"
  unfolding fd_new_def caller_table [OF c] bind.simps by (rule with_lock_free [OF lock_blind_new f c])

lemma nth_fd_grow: "n < maxfd t \<Longrightarrow> fd_grow t ! n = t ! n" "maxfd t \<le> n \<Longrightarrow> n < maxfd (fd_grow t) \<Longrightarrow> fd_grow t ! n = None"
  and length_fd_grow: "maxfd (fd_grow t) = maxfd t + (min (maxfd t + 4) DFS_FD_MAX - maxfd t)"
  by (auto simp: fd_grow_def nth_append)

lemma set_fd_grow: "Some d \<in> set (fd_grow t) \<longleftrightarrow> Some d \<in> set t"
  by (auto simp: fd_grow_def)

lemma fds_ok_grow:
  assumes ok: "fds_ok k"
  shows "fds_ok (set_fd_table p (fd_grow (fd_tables k p)) k)"
proof (rule fds_okI)
  let ?k = "set_fd_table p (fd_grow (fd_tables k p)) k"
  have old: "i < maxfd (fd_tables k q) \<and> fd_tables k q ! i = Some d"
    if "i < maxfd (fd_tables ?k q)" "fd_tables ?k q ! i = Some d" for i q d
    using that nth_fd_grow(1) [of i "fd_tables k p"] nth_fd_grow(2) [of "fd_tables k p" i] by (cases "i < maxfd (fd_tables k q)") (auto split: if_splits)
  show "q = r \<and> a = b" if "a < maxfd (fd_tables ?k q)" "b < maxfd (fd_tables ?k r)"
    "fd_tables ?k q ! a = Some d" "fd_tables ?k r ! b = Some d" for q r a b d
    using fds_ok_once [OF ok, of a q b r d] old [OF that(1,3)] old [OF that(2,4)] by blast
  show "maxfd (fd_tables ?k q) \<le> DFS_FD_MAX" for q
    using fds_ok_max [OF ok, of q] by (auto simp: length_fd_grow)
  show "fd_magic (dfs_fds ?k d) = DFS_FD_MAGIC \<and> 0 < ref_count (dfs_fds ?k d)" if "Some d \<in> set (fd_tables ?k q)" for q d
    using fds_ok_entry [OF ok, of d q] that by (auto simp: set_fd_grow split: if_splits)
qed

text \<open>The table after room has been made for a free entry.\<close>

definition roomy :: "bool \<Rightarrow> nat \<Rightarrow> dfs_fdtable \<Rightarrow> dfs_fdtable" where
  "roomy grow idx t = (if idx = maxfd t \<and> maxfd t < DFS_FD_MAX \<and> grow then fd_grow t else t)"

lemma set_fd_table_same [simp]: "set_fd_table p (fd_tables k p) k = k"
  "set_fd_table p t (set_fd_table p t' k) = set_fd_table p t k"
  by (simp_all add: set_fd_table_def)

lemma nth_roomy:
  "n < maxfd t \<Longrightarrow> roomy grow idx t ! n = t ! n"
  "maxfd t \<le> n \<Longrightarrow> n < maxfd (roomy grow idx t) \<Longrightarrow> roomy grow idx t ! n = None"
  "maxfd t \<le> maxfd (roomy grow idx t)" "Some d \<in> set (roomy grow idx t) \<longleftrightarrow> Some d \<in> set t"
  by (auto simp: roomy_def nth_fd_grow length_fd_grow set_fd_grow)

lemma fds_ok_roomy: "fds_ok k \<Longrightarrow> fds_ok (set_fd_table p (roomy grow idx (fd_tables k p)) k)"
  using fds_ok_grow [of k p] by (simp add: roomy_def)

lemma fd_alloc_cases:
  assumes ok: "fds_ok k" and idx: "idx = free_slot (dfs_fds k) (fd_tables k p)" and T: "T = roomy grow idx (fd_tables k p)"
  shows "fd_alloc grow mem p 0 k =
     (if idx = maxfd T then (idx, set_fd_table p T k)
      else case mem of None \<Rightarrow> (maxfd T, set_fd_table p T k)
        | Some d \<Rightarrow> (idx, upd_fd d (\<lambda>_. zero_fd) (set_fd_table p (T[idx := Some d]) k)))"
proof -
  have users: "0 < ref_count (dfs_fds k d)" if "Some d \<in> set (fd_tables k p)" for d
    using fds_ok_entry [OF ok that] by simp
  have le: "idx \<le> maxfd (fd_tables k p)" unfolding idx by (rule free_slot_le)
  have none: "fd_tables k p ! idx = None" if "idx < maxfd (fd_tables k p)"
    using free_slot_none(2) [of "fd_tables k p" "dfs_fds k"] users that unfolding idx by blast
  have g: "fd_grow (fd_tables k p) ! idx = None \<and> idx < maxfd (fd_grow (fd_tables k p))"
    if "idx = maxfd (fd_tables k p)" "maxfd (fd_tables k p) < DFS_FD_MAX"
    using that nth_fd_grow(2) [of "fd_tables k p" idx] by (simp add: length_fd_grow)
  consider "idx < maxfd (fd_tables k p)" | "idx = maxfd (fd_tables k p)" "maxfd (fd_tables k p) < DFS_FD_MAX \<and> grow"
    | "idx = maxfd (fd_tables k p)" "\<not> (maxfd (fd_tables k p) < DFS_FD_MAX \<and> grow)" using le by linarith
  then show ?thesis
  proof cases
    case 1
    then show ?thesis using none by (simp add: T fd_alloc_def idx [symmetric] roomy_def split: option.split)
  next
    case 2
    then show ?thesis using g by (simp add: T fd_alloc_def idx [symmetric] roomy_def Let_def split: option.split)
  next
    case 3
    then show ?thesis by (auto simp add: T fd_alloc_def idx [symmetric] roomy_def Let_def)
  qed
qed

lemma fd_new_counts:
  assumes r: "fd_ready t k" and mem: "\<And>d q. mem = Some d \<Longrightarrow> Some d \<notin> set (fd_tables k q)"
    and idx: "\<And>j. j < idx \<Longrightarrow> fd_users t k j \<noteq> None" "fd_users t k idx = None"
  shows "\<exists>k'. fd_ready t k' \<and>
    (case mem of
       Some d \<Rightarrow>
         if idx < DFS_FD_MAX \<and> (idx < maxfd (own_table t k) \<or> grow)
         then fd_new grow mem k = Some (Returns (int idx + int DFS_FD_OFFSET), k') \<and>
           fd_users t k' = (fd_users t k)(idx := Some 1) \<and> own_table t k' ! idx = Some d \<and> idx < maxfd (own_table t k')
         else fd_new grow mem k = Some (Returns (- 1), k') \<and> fd_users t k' = fd_users t k
     | None \<Rightarrow> fd_new grow mem k = Some (Returns (- 1), k') \<and> fd_users t k' = fd_users t k)"
proof -
  let ?p = "thread_lwp k t"
  let ?T = "fd_tables k ?p"
  let ?k0 = "cleared t k"
  have ok: "fds_ok k" "fs_free k" "caller t k" using r by (simp_all add: fd_ready_def)
  have users: "0 < ref_count (dfs_fds k d)" if "Some d \<in> set ?T" for d using fds_ok_entry [OF ok(1) that] by simp
  note fs = free_slot_none [of ?T "dfs_fds k", OF users] free_slot_le [of "dfs_fds k" ?T]
  have at: "fd_users t k j = (if j < maxfd ?T then map_option (\<lambda>d. ref_count (dfs_fds k d)) (?T ! j) else None)" for j
    by (simp add: fd_users_def own_table_def)
  have i: "idx = free_slot (dfs_fds k) ?T"
  proof (cases idx "free_slot (dfs_fds k) ?T" rule: linorder_cases)
    case less
    then show ?thesis using fs(1) [OF _ less] fs(3) idx(2) by (auto simp: at split: if_splits)
  next
    case greater
    then show ?thesis using fs(2) idx(1) [OF greater] by (auto simp: at split: if_splits)
  qed
  define T where "T = roomy grow idx ?T"
  let ?k1 = "set_fd_table ?p T ?k0"
  note T_at = nth_roomy [where grow = grow and idx = idx and t = ?T, folded T_def]
  have k1: "fds_ok ?k1" "fs_free ?k1" "caller t ?k1"
    using ok fds_ok_roomy [of ?k0 ?p grow idx] by (simp_all add: T_def)
  have u1: "fd_users t ?k1 = fd_users t k"
  proof
    fix m
    show "fd_users t ?k1 m = fd_users t k m"
      using T_at(1) [of m] T_at(2) [of m] T_at(3) by (cases "m < maxfd ?T") (simp_all add: fd_users_def own_table_def)
  qed
  have len: "maxfd T = idx \<longleftrightarrow> \<not> (idx < DFS_FD_MAX \<and> (idx < maxfd ?T \<or> grow))" "idx \<le> maxfd T"
    using fs(3) fds_ok_max [OF ok(1), of ?p] unfolding i [symmetric] T_def by (auto simp: roomy_def length_fd_grow)
  have alloc: "fd_alloc grow mem ?p 0 ?k0 = (if idx = maxfd T then (idx, ?k1)
      else case mem of None \<Rightarrow> (maxfd T, ?k1)
        | Some d \<Rightarrow> (idx, upd_fd d (\<lambda>_. zero_fd) (set_fd_table ?p (T[idx := Some d]) ?k0)))"
    by (rule fd_alloc_cases) (use ok i T_def in simp_all)
  note new = fd_new_free [OF ok(2,3), of grow mem]
  show ?thesis
  proof (cases "mem = None \<or> idx = maxfd T")
    case True
    then have "fd_new grow mem k = Some (Returns (- 1), ?k1)"
      using new alloc by (auto simp: fd_new_body_def DFS_FD_OFFSET_def)
    moreover have "fd_ready t ?k1" using k1 by (simp add: fd_ready_def)
    ultimately show ?thesis using True u1 len by (intro exI [of _ ?k1]) (auto simp: own_table_def split: option.split)
  next
    case False
    then obtain d where d: "mem = Some d" by auto
    let ?f = "zero_fd\<lparr>ref_count := 1, fd_magic := DFS_FD_MAGIC\<rparr>"
    let ?u = "upd_fd d (\<lambda>_. ?f) ?k1"
    let ?k2 = "set_fd_table ?p (T[idx := Some d]) ?u"
    have lt: "idx < maxfd T" using False len(2) by simp
    have fresh: "Some d \<notin> set (fd_tables ?k1 q)" for q
      using mem [OF d] T_at(4) by simp
    have "upd_fd d (\<lambda>f. f\<lparr>fd_magic := DFS_FD_MAGIC\<rparr>) (upd_fd d (\<lambda>f. f\<lparr>ref_count := 1\<rparr>)
      (upd_fd d (\<lambda>_. zero_fd) (set_fd_table ?p (T[idx := Some d]) ?k0))) = ?k2"
      by (simp add: upd_fd_def set_fd_table_def)
    then have "fd_new grow mem k = Some (Returns (int idx + int DFS_FD_OFFSET), ?k2)"
      using new alloc False d lt by (simp add: fd_new_body_def)
    moreover have "fds_ok ?k2"
    proof -
      have "fds_ok ?u"
      proof (rule fds_okI)
        show "fd_magic (dfs_fds ?u e) = DFS_FD_MAGIC \<and> 0 < ref_count (dfs_fds ?u e)" if "Some e \<in> set (fd_tables ?u q)" for q e
        proof -
          have "e \<noteq> d" using fresh that by auto
          then show ?thesis using fds_ok_entry [OF k1(1), of e q] that by simp
        qed
      next
        show "maxfd (fd_tables ?u q) \<le> DFS_FD_MAX" for q using fds_ok_max [OF k1(1), of q] by simp
      next
        show "q = r \<and> a = b" if "a < maxfd (fd_tables ?u q)" "b < maxfd (fd_tables ?u r)"
          "fd_tables ?u q ! a = Some e" "fd_tables ?u r ! b = Some e" for q r a b e
          using fds_ok_once [OF k1(1), of a q b r e] that by simp
      qed
      then show ?thesis
        using fds_ok_update [of ?u idx ?p "Some d"] lt fresh by simp
    qed
    moreover have "fd_users t ?k2 = (fd_users t k)(idx := Some 1)"
    proof
      fix m
      have u: "fd_users t ?k1 m = fd_users t k m" using u1 by simp
      have o: "T ! m \<noteq> Some d" if "m < maxfd T"
        using fresh [of ?p] nth_mem [OF that] by auto
      show "fd_users t ?k2 m = ((fd_users t k)(idx := Some 1)) m"
      proof (cases "m = idx")
        case True
        then show ?thesis using lt by (simp add: fd_users_def own_table_def)
      next
        case False
        then have "fd_users t ?k2 m = fd_users t ?k1 m"
          using o by (cases "T ! m") (auto simp: fd_users_def own_table_def)
        then show ?thesis using u False by simp
      qed
    qed
    moreover have "own_table t ?k2 ! idx = Some d" "idx < maxfd (own_table t ?k2)"
      using lt by (simp_all add: own_table_def)
    moreover have "fs_free ?k2 \<and> caller t ?k2" using k1 by simp
    ultimately show ?thesis using d len lt by (intro exI [of _ ?k2]) (simp add: fd_ready_def own_table_def)
  qed
qed

subsubsection \<open>A descriptor lives as long as it has users\<close>

text \<open>Users of one descriptor come (\<open>True\<close>: \<open>fd_get\<close>) and go (\<open>False\<close>: \<open>fd_put\<close>).\<close>

fun fd_script :: "int \<Rightarrow> addr \<Rightarrow> bool list \<Rightarrow> 'a fd_sys_scheme \<Rightarrow> 'a fd_sys_scheme option" where
  "fd_script fd d [] k = Some k"
| "fd_script fd d (True # ops) k =
     (case fd_get fd k of Some (Returns (Some d'), k) \<Rightarrow> if d' = d then fd_script fd d ops k else None | _ \<Rightarrow> None)"
| "fd_script fd d (False # ops) k =
     (case fd_put (Some d) k of Some (Returns _, k) \<Rightarrow> fd_script fd d ops k | _ \<Rightarrow> None)"

fun users_left :: "int \<Rightarrow> bool list \<Rightarrow> int" where
  "users_left c [] = c"
| "users_left c (g # ops) = users_left (if g then c + 1 else c - 1) ops"

text \<open>Nobody uses it again after the last user is gone.\<close>

fun in_use_until :: "int \<Rightarrow> bool list \<Rightarrow> bool" where
  "in_use_until c [] = True"
| "in_use_until c (g # ops) \<longleftrightarrow> 0 < c \<and> in_use_until (if g then c + 1 else c - 1) ops"

lemma fd_script_users:
  "\<lbrakk>fd_ready t k; fd_is t k fd n d; in_use_until (ref_count (dfs_fds k d)) ops\<rbrakk> \<Longrightarrow>
   \<exists>k'. fd_script fd d ops k = Some k' \<and> fd_ready t k' \<and>
     fd_users t k' = (let c = users_left (ref_count (dfs_fds k d)) ops
       in (fd_users t k)(n := if c = 0 then None else Some c))"
proof (induction ops arbitrary: k)
  case Nil
  have "0 < ref_count (dfs_fds k d)" by (rule fd_is_used [OF Nil(1,2)])
  moreover have "fd_users t k n = Some (ref_count (dfs_fds k d))" using Nil by (simp add: fd_users_def fd_is_def)
  ultimately show ?case using Nil by (auto simp: Let_def)
next
  case (Cons g ops)
  let ?c = "ref_count (dfs_fds k d)"
  show ?case
  proof (cases g)
    case True
    obtain k1 where k1: "fd_get fd k = Some (Returns (Some d), k1)" "fd_ready t k1" "fd_is t k1 fd n d"
      "fd_users t k1 = (fd_users t k)(n := Some (?c + 1))" "ref_count (dfs_fds k1 d) = ?c + 1"
      using fd_get_counts [OF Cons.prems(1,2)] by auto
    then show ?thesis using Cons.IH [OF k1(2,3)] Cons.prems(3) True by (auto simp: Let_def fun_eq_iff)
  next
    case False
    obtain k1 where k1: "fd_put (Some d) k = Some (Returns (), k1)" "fd_ready t k1"
      "fd_users t k1 = (fd_users t k)(n := if ?c = 1 then None else Some (?c - 1))"
      "k1 = (let k1 = upd_fd d (\<lambda>f. f\<lparr>ref_count := ref_count f - 1\<rparr>) (cleared t k)
        in if ?c = 1 then set_fd_table (thread_lwp k t) ((own_table t k)[n := None]) k1 else k1)"
      using fd_put_counts [OF Cons.prems(1,2)] by blast
    show ?thesis
    proof (cases "?c = 1")
      case True
      then have "ops = []" using Cons.prems(3) \<open>\<not> g\<close> by (cases ops) auto
      then show ?thesis using k1 True \<open>\<not> g\<close> by (simp add: fun_eq_iff)
    next
      case c: False
      have "fd_is t k1 fd n d" "ref_count (dfs_fds k1 d) = ?c - 1"
        using k1(4) c Cons.prems(2) by (simp_all add: fd_is_def Let_def)
      then show ?thesis using Cons.IH [OF k1(2)] Cons.prems(3) k1(1,3) c \<open>\<not> g\<close> by (auto simp: Let_def fun_eq_iff)
    qed
  qed
qed

end
