(* ===== verification/Channel.thy ===== *)
theory Channel
  imports DfsFd
begin

text \<open>
  Channels between processes (\<^verbatim>\<open>src/ipc.c\<close>, \<open>bin_channel_*\<close>): a channel is opened by name and used
  through a file descriptor. A message goes to every thread that waits in \<open>bin_channel_recv\<close>; when
  the sender asks for a reply it stays suspended until each of them has called \<open>bin_channel_reply\<close>.

  The waiting threads of channel \<open>c\<close> are \<open>SuspendQ c\<close>, its unused list \<open>wait_thread\<close> is \<open>SenderQ c\<close>.
  Messages are named by their index in the array \<open>ipc_msg\<close>. A null pointer that is followed and a
  failed assertion are \<open>None\<close>. A call that gives the processor away says where it goes on.
\<close>

subsection \<open>The state\<close>

definition RT_Object_Class_Channel :: u8 where "RT_Object_Class_Channel = 12"
definition IPC_MSG_SIZE :: nat where "IPC_MSG_SIZE = 100"
definition FT_USER :: u16 where "FT_USER = 3"
definition O_RDWR :: u32 where "O_RDWR = 2"

text \<open>The union \<open>u\<close> is two words: a buffer with its length, or a word in the place of the buffer.\<close>

record bin_channel_msg =
  sender :: "tid option"
  msg_type :: int
  msg_u :: "u32 \<times> u32"

record bin_channel =
  ch_value :: u16
  ch_original_priority :: u8
  ch_hold :: u8
  ch_ref :: int
  ch_reply :: "tid option"
  ch_reader_flag :: int

text \<open>The lists of messages of a channel: \<open>wait_msg\<close>, and \<open>waiting_list\<close> of its \<open>reader_queue\<close>.\<close>

datatype mlist_id = Wait_msg nat | Waiting_list nat

record chan_sys = fd_sys +
  channels :: "nat \<Rightarrow> bin_channel"
  ipc_msgs :: "nat \<Rightarrow> bin_channel_msg"
  ipc_msg_pos :: nat
  mlists :: "mlist_id \<Rightarrow> nat list"
  msg_ret :: "tid \<Rightarrow> nat option"

definition upd_chan :: "nat \<Rightarrow> (bin_channel \<Rightarrow> bin_channel) \<Rightarrow> 'a chan_sys_scheme \<Rightarrow> 'a chan_sys_scheme" where
  "upd_chan c f k = k\<lparr>channels := (channels k)(c := f (channels k c))\<rparr>"

definition upd_msg :: "nat \<Rightarrow> (bin_channel_msg \<Rightarrow> bin_channel_msg) \<Rightarrow> 'a chan_sys_scheme \<Rightarrow> 'a chan_sys_scheme" where
  "upd_msg m f k = k\<lparr>ipc_msgs := (ipc_msgs k)(m := f (ipc_msgs k m))\<rparr>"

definition set_msg_ret :: "tid \<Rightarrow> nat option \<Rightarrow> 'a chan_sys_scheme \<Rightarrow> 'a chan_sys_scheme" where
  "set_msg_ret t m k = k\<lparr>msg_ret := (msg_ret k)(t := m)\<rparr>"

definition zero_channel :: bin_channel where
  "zero_channel = \<lparr>ch_value = 0, ch_original_priority = 0, ch_hold = 0, ch_ref = 0, ch_reply = None, ch_reader_flag = 0\<rparr>"

text \<open>Where a call goes on, and what it keeps meanwhile. \<open>Fd_\<close>: it waits for the lock of the descriptors.\<close>

datatype chan_op = Op_recv int | Op_send bin_channel_msg bool bool nat | Op_reply bin_channel_msg

datatype chan_wait =
    Fd_get tid nat chan_op
  | Fd_put tid addr nat chan_op
  | Recv_resumed tid nat
  | Send_unread tid nat nat bool bool tid
  | Send_waiting tid nat
  | Send_lost tid nat
  | Open_new tid bool "addr option" nat u8
  | Open_get tid nat int nat
  | Open_put tid addr int
  | Close_get tid nat
  | Close_put tid addr
  | Close_last tid addr

text \<open>A call answers with an error code, a received message, or the descriptor it opened.\<close>

type_synonym 'a chan_result = "((int \<times> bin_channel_msg option, chan_wait) outcome \<times> 'a chan_sys_scheme) option"

abbreviation (input) answers :: "int \<Rightarrow> 'a chan_sys_scheme \<Rightarrow> 'a chan_result" where
  "answers e k \<equiv> Some (Returns (e, None), k)"

subsection \<open>Messages\<close>

definition bin_ipc_msg_init :: int where
  "bin_ipc_msg_init = - RT_ERROR"

definition ipc_msg_alloc :: "'a chan_sys_scheme \<Rightarrow> nat option \<times> 'a chan_sys_scheme" where
  "ipc_msg_alloc k =
     (if ipc_msg_pos k < IPC_MSG_SIZE then (Some (ipc_msg_pos k), k\<lparr>ipc_msg_pos := ipc_msg_pos k + 1\<rparr>)
      else (None, k))"

definition ipc_msg_free :: "nat \<Rightarrow> 'a chan_sys_scheme \<Rightarrow> int \<times> 'a chan_sys_scheme" where
  "ipc_msg_free m k = (- RT_ERROR, k)"

text \<open>
  The node of the message is in no list when this is called, so that initialising it as a list of
  its own changes no list.
\<close>

definition ipc_msg_init :: "nat \<Rightarrow> bin_channel_msg \<Rightarrow> 'a chan_sys_scheme \<Rightarrow> 'a chan_sys_scheme option" where
  "ipc_msg_init m data k = do {
     let k = upd_msg m (\<lambda>x. x\<lparr>msg_type := msg_type data, sender := rt_thread_self k\<rparr>) k;
     Some (upd_msg m (\<lambda>x. x\<lparr>msg_u := msg_u data\<rparr>) k) }"

subsection \<open>Receiving\<close>

definition recv_go :: "int \<Rightarrow> nat \<Rightarrow> 'a chan_sys_scheme \<Rightarrow> 'a chan_result" where
  "recv_go timeout c k = do {
     t \<leftarrow> rt_thread_self k;
     k \<leftarrow> ipc_wait (SuspendQ c) t (ipc_flag c k) timeout k;
     Some (Blocks (Recv_resumed t c), k) }"

definition recv_resumed :: "tid \<Rightarrow> nat \<Rightarrow> 'a chan_sys_scheme \<Rightarrow> 'a chan_result" where
  "recv_resumed t c k =
     (if error (thr k t) \<noteq> RT_EOK then answers (error (thr k t)) k
      else case msg_ret k t of
        None \<Rightarrow> answers RT_EOK k
      | Some m \<Rightarrow>
          let k' = (if ch_reply (channels k c) = None then set_msg_ret t None k else k);
              k' = (if mlists k' (Waiting_list c) = [] then upd_chan c (\<lambda>ch. ch\<lparr>ch_reader_flag := 0\<rparr>) k' else k')
          in Some (Returns (RT_EOK, Some (ipc_msgs k m)), k'))"

subsection \<open>Sending\<close>

text \<open>
  The loop over the waiting threads, the interrupts being off: \<open>ts\<close> are the threads from the cursor
  on, for \<open>rt_thread_resume\<close> takes out the thread behind the cursor only. \<open>need_schedule\<close> is the local
  variable. The loop ends, or it stops at a thread that has an unread message.
\<close>

datatype delivery = Delivered bool | Unread tid bool

fun deliver :: "nat \<Rightarrow> nat \<Rightarrow> bool \<Rightarrow> bool \<Rightarrow> tid list \<Rightarrow> 'a chan_sys_scheme \<Rightarrow> (delivery \<times> 'a chan_sys_scheme) option" where
  "deliver c m need_reply need_schedule [] k = Some (Delivered need_schedule, k)"
| "deliver c m need_reply need_schedule (t # ts) k =
     (if msg_ret k t \<noteq> None then Some (Unread t need_schedule, k)
      else do {
        let k = set_msg_ret t (Some m) k;
        (_, k) \<leftarrow> rt_thread_resume t k;
        let k = upd_chan c (\<lambda>ch. ch\<lparr>ch_reader_flag := 1\<rparr>) k;
        k \<leftarrow> (if need_reply then
            case ipc_msg_alloc k of
              (None, _) \<Rightarrow> None
            | (Some r, k) \<Rightarrow>
                let k = upd_msg r (\<lambda>x. x\<lparr>sender := Some t, msg_type := 0\<rparr>) k
                in Some (k\<lparr>mlists := l_push (Waiting_list c) r (mlists k)\<rparr>)
          else Some k);
        deliver c m need_reply True ts k })"

text \<open>One round of the loop that waits for the replies.\<close>

fun drain :: "nat list \<Rightarrow> (mlist_id \<Rightarrow> nat list) \<Rightarrow> mlist_id \<Rightarrow> nat list" where
  "drain [] L = L"
| "drain (m # ms) L = drain ms (l_unlink m L)"

definition send_collect :: "tid \<Rightarrow> nat \<Rightarrow> 'a chan_sys_scheme \<Rightarrow> 'a chan_result" where
  "send_collect t c k =
     (if mlists k (Wait_msg c) \<noteq> [] then do {
        let k = k\<lparr>mlists := drain (mlists k (Wait_msg c)) (mlists k)\<rparr>;
        if mlists k (Wait_msg c) = [] \<and> mlists k (Waiting_list c) = [] then answers RT_EOK k
        else do {
          self \<leftarrow> rt_thread_self k;
          (_, k) \<leftarrow> rt_thread_suspend self k;
          k \<leftarrow> rt_schedule k;
          Some (Blocks (Send_waiting t c), k) } }
      else do {
        k \<leftarrow> rt_thread_mdelay 1000 k;
        Some (Blocks (Send_lost t c), k) })"

definition send_lost :: "tid \<Rightarrow> nat \<Rightarrow> 'a chan_sys_scheme \<Rightarrow> 'a chan_result" where
  "send_lost t c k = do {
     let (_, k) = rt_thread_sleep_resumed t k;
     k \<leftarrow> rt_thread_mdelay 1000 k;
     Some (Blocks (Send_lost t c), k) }"

definition send_end :: "tid \<Rightarrow> nat \<Rightarrow> bool \<Rightarrow> bool \<Rightarrow> 'a chan_sys_scheme \<Rightarrow> 'a chan_result" where
  "send_end t c need_reply need_schedule k = do {
     (_, k) \<leftarrow> (if need_reply then rt_thread_suspend t k else Some (RT_EOK, k));
     k \<leftarrow> (if need_schedule then rt_schedule k else Some k);
     if \<not> need_reply then answers RT_EOK k
     else if need_schedule then Some (Blocks (Send_waiting t c), k)
     else send_collect t c k }"

definition send_loop :: "tid \<Rightarrow> nat \<Rightarrow> nat \<Rightarrow> bool \<Rightarrow> bool \<Rightarrow> tid list \<Rightarrow> 'a chan_sys_scheme \<Rightarrow> 'a chan_result" where
  "send_loop t c m need_reply need_schedule ts k = do {
     (d, k) \<leftarrow> deliver c m need_reply need_schedule ts k;
     case d of
       Delivered need_schedule \<Rightarrow> send_end t c need_reply need_schedule k
     | Unread u need_schedule \<Rightarrow> do {
         k \<leftarrow> rt_thread_mdelay 2000 k;
         Some (Blocks (Send_unread t c m need_reply need_schedule u), k) } }"

text \<open>
  After the delay the loop goes on at the node of the same thread \<open>u\<close>. When \<open>u\<close> has left the list
  meanwhile, its node links other lists and the cursor never meets the head again: \<open>None\<close>.
\<close>

definition send_unread :: "tid \<Rightarrow> nat \<Rightarrow> nat \<Rightarrow> bool \<Rightarrow> bool \<Rightarrow> tid \<Rightarrow> 'a chan_sys_scheme \<Rightarrow> 'a chan_result" where
  "send_unread t c m need_reply need_schedule u k = do {
     let (_, k) = rt_thread_sleep_resumed t k;
     if msg_ret k u \<noteq> None then do {
       k \<leftarrow> rt_thread_mdelay 2000 k;
       Some (Blocks (Send_unread t c m need_reply need_schedule u), k) }
     else if u \<in> set (tlists k (SuspendQ c)) then
       send_loop t c m need_reply need_schedule (dropWhile (\<lambda>x. x \<noteq> u) (tlists k (SuspendQ c))) k
     else None }"

text \<open>\<open>need_schedule\<close> is not initialised: whether it happens to be \<open>RT_TRUE\<close> is an argument.\<close>

definition send_go :: "bin_channel_msg \<Rightarrow> bool \<Rightarrow> bool \<Rightarrow> nat \<Rightarrow> nat \<Rightarrow> 'a chan_sys_scheme \<Rightarrow> 'a chan_result" where
  "send_go msg need_reply junk m c k = do {
     t \<leftarrow> rt_thread_self k;
     k \<leftarrow> ipc_msg_init m msg k;
     let k = (if need_reply then upd_chan c (\<lambda>ch. ch\<lparr>ch_reply := Some t\<rparr>) k else k);
     send_loop t c m need_reply junk (tlists k (SuspendQ c)) k }"

subsection \<open>Replying\<close>

fun find_reply :: "(nat \<Rightarrow> bin_channel_msg) \<Rightarrow> tid \<Rightarrow> nat list \<Rightarrow> nat option" where
  "find_reply h t [] = None"
| "find_reply h t (m # ms) = (if sender (h m) \<noteq> Some t then find_reply h t ms else Some m)"

definition reply_go :: "bin_channel_msg \<Rightarrow> nat \<Rightarrow> 'a chan_sys_scheme \<Rightarrow> 'a chan_result" where
  "reply_go msg c k = do {
     t \<leftarrow> rt_thread_self k;
     case find_reply (ipc_msgs k) t (mlists k (Waiting_list c)) of
       None \<Rightarrow> answers (- RT_ERROR) k
     | Some m \<Rightarrow> do {
         let k = k\<lparr>mlists := l_unlink m (mlists k)\<rparr>;
         k \<leftarrow> ipc_msg_init m msg k;
         let k = k\<lparr>mlists := l_push (Wait_msg c) m (mlists k)\<rparr>;
         let k = set_msg_ret t None k;
         r \<leftarrow> ch_reply (channels k c);
         (_, k) \<leftarrow> rt_thread_resume r k;
         answers RT_EOK k } }"

subsection \<open>From the descriptor to the channel\<close>

definition op_go :: "chan_op \<Rightarrow> nat \<Rightarrow> 'a chan_sys_scheme \<Rightarrow> 'a chan_result" where
  "op_go op c k =
     (case op of
        Op_recv timeout \<Rightarrow> recv_go timeout c k
      | Op_send msg need_reply junk m \<Rightarrow> send_go msg need_reply junk m c k
      | Op_reply msg \<Rightarrow> reply_go msg c k)"

definition op_put :: "addr \<Rightarrow> nat \<Rightarrow> chan_op \<Rightarrow> (unit, tid) outcome \<Rightarrow> 'a chan_sys_scheme \<Rightarrow> 'a chan_result" where
  "op_put d c op o' k = (case o' of Blocks t \<Rightarrow> Some (Blocks (Fd_put t d c op), k) | Returns _ \<Rightarrow> op_go op c k)"

definition op_got :: "nat \<Rightarrow> chan_op \<Rightarrow> (addr option, tid) outcome \<Rightarrow> 'a chan_sys_scheme \<Rightarrow> 'a chan_result" where
  "op_got i op o' k =
     (case o' of
        Blocks t \<Rightarrow> Some (Blocks (Fd_get t i op), k)
      | Returns fd \<Rightarrow> do {
          d \<leftarrow> fd;
          c \<leftarrow> fd_data (dfs_fds k d);
          (o', k) \<leftarrow> fd_put (Some d) k;
          op_put d c op o' k })"

definition op_start :: "int \<Rightarrow> chan_op \<Rightarrow> 'a chan_sys_scheme \<Rightarrow> 'a chan_result" where
  "op_start fd op k = do {
     let i = nat (fd_index fd k);
     (o', k) \<leftarrow> fd_get fd k;
     op_got i op o' k }"

definition bin_channel_recv :: "int \<Rightarrow> int \<Rightarrow> 'a chan_sys_scheme \<Rightarrow> 'a chan_result" where
  "bin_channel_recv fd timeout k = op_start fd (Op_recv timeout) k"

definition bin_channel_send :: "int \<Rightarrow> bin_channel_msg \<Rightarrow> bool \<Rightarrow> bool \<Rightarrow> 'a chan_sys_scheme \<Rightarrow> 'a chan_result" where
  "bin_channel_send fd msg need_reply junk k = do {
     RT_DEBUG_NOT_IN_INTERRUPT k;
     case ipc_msg_alloc k of
       (None, k) \<Rightarrow> answers (- RT_ENOMEM) k
     | (Some m, k) \<Rightarrow> op_start fd (Op_send msg need_reply junk m) k }"

definition bin_channel_reply :: "int \<Rightarrow> bin_channel_msg \<Rightarrow> 'a chan_sys_scheme \<Rightarrow> 'a chan_result" where
  "bin_channel_reply fd msg k = op_start fd (Op_reply msg) k"

subsection \<open>Opening and closing\<close>

text \<open>
  The search of the descriptor of a channel: it looks through every entry of the table, also where
  the entry is a null pointer.
\<close>

fun find_channel :: "(addr \<Rightarrow> dfs_fd) \<Rightarrow> nat \<Rightarrow> dfs_fdtable \<Rightarrow> nat \<Rightarrow> (nat \<times> addr) option option" where
  "find_channel h c [] fd = Some None"
| "find_channel h c (None # es) fd = None"
| "find_channel h c (Some d # es) fd =
     (if fd_data (h d) = Some c then Some (Some (fd, d)) else find_channel h c es (Suc fd))"

definition channel_init :: "nat \<Rightarrow> u8 \<Rightarrow> 'a chan_sys_scheme \<Rightarrow> 'a chan_sys_scheme" where
  "channel_init c flag k =
     (let k = snd (rt_ipc_object_init (SuspendQ c) k);
          k = upd_chan c (\<lambda>ch. ch\<lparr>ch_value := 1, ch_original_priority := 0xFF, ch_hold := 0\<rparr>) k;
          k = k\<lparr>tlists := (tlists k)(SenderQ c := [])\<rparr>;
          k = k\<lparr>mlists := (mlists k)(Wait_msg c := [])\<rparr>;
          k = k\<lparr>tlists := (tlists k)(SuspendQ c := [])\<rparr>;
          k = k\<lparr>mlists := (mlists k)(Waiting_list c := [])\<rparr>;
          k = upd_chan c (\<lambda>ch. ch\<lparr>ch_ref := 1\<rparr>) k
      in set_ipc_flag c flag k)"

definition open_put :: "addr \<Rightarrow> int \<Rightarrow> (unit, tid) outcome \<Rightarrow> 'a chan_sys_scheme \<Rightarrow> 'a chan_result" where
  "open_put d fd o' k = (case o' of Blocks t \<Rightarrow> Some (Blocks (Open_put t d fd), k) | Returns _ \<Rightarrow> answers fd k)"

text \<open>The operations of the descriptor, all null, are a static table: any number names it.\<close>

definition dfs_channel_file_ops :: nat where "dfs_channel_file_ops = 0"

definition open_got :: "nat \<Rightarrow> int \<Rightarrow> nat \<Rightarrow> (addr option, tid) outcome \<Rightarrow> 'a chan_sys_scheme \<Rightarrow> 'a chan_result" where
  "open_got i fd c o' k =
     (case o' of
        Blocks t \<Rightarrow> Some (Blocks (Open_get t i fd c), k)
      | Returns entry \<Rightarrow> do {
          d \<leftarrow> entry;
          let k = upd_fd d (\<lambda>f. f\<lparr>fd_type := FT_USER, fd_path := None, fd_flags := O_RDWR, fd_size := 0,
            fd_pos := 0, fd_data := Some c, fd_fops := Some dfs_channel_file_ops\<rparr>) k;
          (o', k) \<leftarrow> fd_put (Some d) k;
          open_put d fd o' k })"

definition open_new ::
  "bool \<Rightarrow> addr option \<Rightarrow> nat \<Rightarrow> u8 \<Rightarrow> (int, tid) outcome \<Rightarrow> 'a chan_sys_scheme \<Rightarrow> 'a chan_result" where
  "open_new grow mem c flag o' k =
     (case o' of
        Blocks t \<Rightarrow> Some (Blocks (Open_new t grow mem c flag), k)
      | Returns fd \<Rightarrow>
          if 0 \<le> fd then do {
            let k = channel_init c flag k;
            let i = nat (fd_index fd k);
            (o', k) \<leftarrow> fd_get fd k;
            open_got i fd c o' k }
          else answers fd k)"

text \<open>
  \<open>malloc\<close> is the memory of the channel, \<open>grow\<close> and \<open>mem\<close> are what the heap answers to \<open>fd_new\<close>. A
  channel that is known but has no descriptor in the table of the caller is created a second time.
\<close>

definition known_channel :: "string \<Rightarrow> 'a chan_sys_scheme \<Rightarrow> (nat \<times> addr) option option" where
  "known_channel name k = do {
     information \<leftarrow> rt_object_get_information RT_Object_Class_Channel k;
     case find_by_name (objs k) name information of
       Some (Obj_ipc c) \<Rightarrow> do {
         fdt \<leftarrow> dfs_fdtable_get k;
         find_channel (dfs_fds k) c (fd_tables k fdt) 0 }
     | _ \<Rightarrow> Some None }"

definition bin_channel_open ::
  "string \<Rightarrow> u8 \<Rightarrow> nat option \<Rightarrow> bool \<Rightarrow> addr option \<Rightarrow> 'a chan_sys_scheme \<Rightarrow> 'a chan_result" where
  "bin_channel_open name flag malloc grow mem k = do {
     RT_DEBUG_NOT_IN_INTERRUPT k;
     known \<leftarrow> known_channel name k;
     case known of
       Some (fd, d) \<Rightarrow>
         answers (int fd + int DFS_FD_OFFSET) (upd_fd d (\<lambda>f. f\<lparr>ref_count := ref_count f + 1\<rparr>) k)
     | None \<Rightarrow> do {
         (_, k) \<leftarrow> rt_object_allocate RT_Object_Class_Channel name (map_option Obj_ipc malloc) k;
         case malloc of
           None \<Rightarrow> answers (- RT_ERROR) k
         | Some c \<Rightarrow> do {
             let k = upd_chan c (\<lambda>_. zero_channel) k;
             (o', k) \<leftarrow> fd_new grow mem k;
             open_new grow mem c flag o' k } } }"

definition close_last :: "addr \<Rightarrow> (unit, tid) outcome \<Rightarrow> 'a chan_sys_scheme \<Rightarrow> 'a chan_result" where
  "close_last d o' k = (case o' of Blocks t \<Rightarrow> Some (Blocks (Close_last t d), k) | Returns _ \<Rightarrow> answers RT_EOK k)"

definition close_put :: "addr \<Rightarrow> (unit, tid) outcome \<Rightarrow> 'a chan_sys_scheme \<Rightarrow> 'a chan_result" where
  "close_put d o' k =
     (case o' of
        Blocks t \<Rightarrow> Some (Blocks (Close_put t d), k)
      | Returns _ \<Rightarrow> do {
          k \<leftarrow> (if ref_count (dfs_fds k d) = 1 then do {
              c \<leftarrow> fd_data (dfs_fds k d);
              rt_assert (rt_object_get_type (Obj_ipc c) k = RT_Object_Class_Channel);
              rt_assert (\<not> rt_object_is_systemobject (Obj_ipc c) k);
              (_, k) \<leftarrow> rt_ipc_list_resume_all (SuspendQ c) k;
              rt_object_delete (Obj_ipc c) k }
            else Some k);
          (o', k) \<leftarrow> fd_put (Some d) k;
          close_last d o' k })"

definition close_got :: "nat \<Rightarrow> (addr option, tid) outcome \<Rightarrow> 'a chan_sys_scheme \<Rightarrow> 'a chan_result" where
  "close_got i o' k =
     (case o' of
        Blocks t \<Rightarrow> Some (Blocks (Close_get t i), k)
      | Returns fd \<Rightarrow> do {
          d \<leftarrow> fd;
          (o', k) \<leftarrow> fd_put (Some d) k;
          close_put d o' k })"

definition bin_channel_close :: "int \<Rightarrow> 'a chan_sys_scheme \<Rightarrow> 'a chan_result" where
  "bin_channel_close fd k = do {
     RT_DEBUG_NOT_IN_INTERRUPT k;
     let i = nat (fd_index fd k);
     (o', k) \<leftarrow> fd_get fd k;
     close_got i o' k }"

subsection \<open>Going on\<close>

definition chan_resume :: "chan_wait \<Rightarrow> 'a chan_sys_scheme \<Rightarrow> 'a chan_result" where
  "chan_resume w k =
     (case w of
        Fd_get t i op \<Rightarrow> do { (o', k) \<leftarrow> fd_get_resumed (thread_lwp k t) i t k; op_got i op o' k }
      | Fd_put t d c op \<Rightarrow> do { (o', k) \<leftarrow> fd_put_resumed d t k; op_put d c op o' k }
      | Recv_resumed t c \<Rightarrow> recv_resumed t c k
      | Send_unread t c m need_reply need_schedule u \<Rightarrow> send_unread t c m need_reply need_schedule u k
      | Send_waiting t c \<Rightarrow> send_collect t c k
      | Send_lost t c \<Rightarrow> send_lost t c k
      | Open_new t grow mem c flag \<Rightarrow> do {
          (o', k) \<leftarrow> fd_new_resumed grow mem (thread_lwp k t) t k;
          open_new grow mem c flag o' k }
      | Open_get t i fd c \<Rightarrow> do { (o', k) \<leftarrow> fd_get_resumed (thread_lwp k t) i t k; open_got i fd c o' k }
      | Open_put t d fd \<Rightarrow> do { (o', k) \<leftarrow> fd_put_resumed d t k; open_put d fd o' k }
      | Close_get t i \<Rightarrow> do { (o', k) \<leftarrow> fd_get_resumed (thread_lwp k t) i t k; close_got i o' k }
      | Close_put t d \<Rightarrow> do { (o', k) \<leftarrow> fd_put_resumed d t k; close_put d o' k }
      | Close_last t d \<Rightarrow> do { (o', k) \<leftarrow> fd_put_resumed d t k; close_last d o' k })"

end
