(* ===== verification/ChanUse.thy ===== *)
theory ChanUse
  imports Channel
begin

text \<open>
  What channels do: every waiting thread gets the message, a sender that asks for replies goes on
  when each of them has replied and not before, the array of messages is used up, and a channel
  lives as long as its descriptor has users.
\<close>

subsection \<open>Fields of the channels\<close>

lemma more_chan:
  assumes "kernel.more k' = kernel.more k"
  shows "channels k' = channels k" "ipc_msgs k' = ipc_msgs k" "ipc_msg_pos k' = ipc_msg_pos k"
    "mlists k' = mlists k" "msg_ret k' = msg_ret k" "fd_tables k' = fd_tables k" "dfs_fds k' = dfs_fds k"
    "thread_lwp k' = thread_lwp k" "mutexes k' = mutexes k" "std_console k' = std_console k"
  using assms by (cases k; cases k'; simp)+

lemma kinv_chan [simp]:
  "kinv (k\<lparr>channels := x1\<rparr>) = kinv k" "kinv (k\<lparr>ipc_msgs := x2\<rparr>) = kinv k"
  "kinv (k\<lparr>ipc_msg_pos := x3\<rparr>) = kinv k" "kinv (k\<lparr>mlists := x4\<rparr>) = kinv k" "kinv (k\<lparr>msg_ret := x5\<rparr>) = kinv k"
  by (rule kinv_cong; simp)+

lemma truncate_sel [simp]:
  "thr (kernel.truncate k) = thr k" "tlists (kernel.truncate k) = tlists k" "objs (kernel.truncate k) = objs k"
  "objects (kernel.truncate k) = objects k" "rt_current_thread (kernel.truncate k) = rt_current_thread k"
  "rt_scheduler_lock_nest (kernel.truncate k) = rt_scheduler_lock_nest k"
  "rt_interrupt_nest (kernel.truncate k) = rt_interrupt_nest k" "rt_tick (kernel.truncate k) = rt_tick k"
  "kernel.more (kernel.truncate k) = ()"
  by (simp_all add: kernel.truncate_def)

text \<open>\<open>wakes\<close>, whatever happens to the fields of the IPC objects and channels.\<close>

definition wakes_only :: "list_id \<Rightarrow> tid set \<Rightarrow> 'a kernel_scheme \<Rightarrow> 'a kernel_scheme \<Rightarrow> bool" where
  "wakes_only l T k k' \<longleftrightarrow> wakes l T (kernel.truncate k) (kernel.truncate k')"

lemma wakes_wakes_only: "wakes l T k k' \<Longrightarrow> wakes_only l T k k'"
  unfolding wakes_only_def wakes_def ipc_frame_def truncate_sel by blast

lemma wakes_only_trans: "wakes_only l T a b \<Longrightarrow> wakes_only l U b c \<Longrightarrow> wakes_only l (T \<union> U) a c"
  unfolding wakes_only_def by (rule wakes_trans)

lemma wakes_only_same:
  "kernel.truncate a = kernel.truncate b \<Longrightarrow> wakes_only l {} a b"
  by (simp add: wakes_only_def)

lemma wakes_only_sel:
  assumes "wakes_only l T k k'"
  shows "runnable (state_of k' u) \<longleftrightarrow> runnable (state_of k u) \<or> u \<in> T" "rt_interrupt_nest k' = rt_interrupt_nest k"
    "rt_object_get_type r k' = rt_object_get_type r k" "ipc_flag n k' = ipc_flag n k"
    "rt_scheduler_lock_nest k' = rt_scheduler_lock_nest k" "objects k' = objects k" "rt_tick k' = rt_tick k"
    "prio_of k' u = prio_of k u"
    "waiting_list l' \<Longrightarrow> l' \<noteq> l \<Longrightarrow> tlists k' l' = tlists k l'"
  using assms unfolding wakes_only_def wakes_def ipc_frame_def object_defs ipc_flag_def truncate_sel
  by simp_all

lemma truncate_chan [simp]:
  "kernel.truncate (k\<lparr>channels := x1\<rparr>) = kernel.truncate k" "kernel.truncate (k\<lparr>ipc_msgs := x2\<rparr>) = kernel.truncate k"
  "kernel.truncate (k\<lparr>ipc_msg_pos := x3\<rparr>) = kernel.truncate k" "kernel.truncate (k\<lparr>mlists := x4\<rparr>) = kernel.truncate k"
  "kernel.truncate (k\<lparr>msg_ret := x5\<rparr>) = kernel.truncate k"
  by (simp_all add: kernel.truncate_def)

subsection \<open>The message reaches everybody who waits\<close>

text \<open>
  The fields of the channels after a delivery of message \<open>m\<close> to \<open>ts\<close>, the threads that waited: with
  replies asked for, every one of them has a slot for its reply.
\<close>

definition slots :: "nat \<Rightarrow> tid list \<Rightarrow> (nat \<Rightarrow> bin_channel_msg) \<Rightarrow> nat \<Rightarrow> bin_channel_msg" where
  "slots p ts h = (\<lambda>i. if p \<le> i \<and> i < p + length ts then (h i)\<lparr>sender := Some (ts ! (i - p)), msg_type := 0\<rparr> else h i)"

definition delivered :: "nat \<Rightarrow> nat \<Rightarrow> bool \<Rightarrow> tid list \<Rightarrow> 'a chan_sys_scheme \<Rightarrow> 'a chan_sys_scheme \<Rightarrow> bool" where
  "delivered c m need_reply ts k k' \<longleftrightarrow>
     msg_ret k' = (\<lambda>u. if u \<in> set ts then Some m else msg_ret k u) \<and>
     channels k' = (if ts = [] then channels k else (channels k)(c := (channels k c)\<lparr>ch_reader_flag := 1\<rparr>)) \<and>
     ipc_msg_pos k' = ipc_msg_pos k + (if need_reply then length ts else 0) \<and>
     ipc_msgs k' = (if need_reply then slots (ipc_msg_pos k) ts (ipc_msgs k) else ipc_msgs k) \<and>
     mlists k' = (if need_reply then (mlists k)(Waiting_list c := rev [ipc_msg_pos k..<ipc_msg_pos k + length ts] @ mlists k (Waiting_list c))
       else mlists k) \<and>
     fd_tables k' = fd_tables k \<and> dfs_fds k' = dfs_fds k \<and> thread_lwp k' = thread_lwp k \<and> mutexes k' = mutexes k"

lemma slots_Cons: "slots p (t # ts) h = slots (Suc p) ts (h(p := (h p)\<lparr>sender := Some t, msg_type := 0\<rparr>))"
proof
  fix i
  show "slots p (t # ts) h i = slots (Suc p) ts (h(p := (h p)\<lparr>sender := Some t, msg_type := 0\<rparr>)) i"
  proof (cases "Suc p \<le> i \<and> i < Suc p + length ts")
    case True
    then have "i - p = Suc (i - Suc p)" by linarith
    then show ?thesis using True by (simp add: slots_def)
  qed (auto simp: slots_def)
qed

lemma rev_upt_Cons: "rev [p..<Suc (p + n)] = rev [Suc p..<Suc (p + n)] @ [p]"
  by (simp add: upt_conv_Cons del: upt_Suc)

lemma upt_single: "[p..<Suc p] = [p]"
  by simp

lemma deliver_all:
  assumes "kinv k" "tlists k (SuspendQ c) = ts" "\<forall>t \<in> set ts. msg_ret k t = None"
    "need_reply \<Longrightarrow> ipc_msg_pos k + length ts \<le> IPC_MSG_SIZE"
  shows "\<exists>k'. deliver c m need_reply need_schedule ts k = Some (Delivered (need_schedule \<or> ts \<noteq> []), k') \<and> kinv k' \<and>
    tlists k' (SuspendQ c) = [] \<and> wakes_only (SuspendQ c) (set ts) k k' \<and> delivered c m need_reply ts k k' \<and>
    rt_current_thread k' = rt_current_thread k \<and> (\<forall>u. error (thr k' u) = error (thr k u))"
  using assms
proof (induction ts arbitrary: k need_schedule)
  case Nil
  then show ?case by (auto simp: wakes_only_same delivered_def slots_def fun_eq_iff)
next
  case (Cons t ts)
  have dist: "t \<notin> set ts" "distinct ts" using kinv_lists [OF Cons.prems(1)] Cons.prems(2)
    by (auto simp: lists_ok_def dest: spec [of _ "SuspendQ c"])
  let ?k0 = "set_msg_ret t (Some m) k"
  have k0: "kinv ?k0" "tlists ?k0 (SuspendQ c) = t # ts" using Cons.prems(1,2) by (simp_all add: set_msg_ret_def)
  obtain k1 where k1: "rt_thread_resume t ?k0 = Some (RT_EOK, k1)" "kinv k1" "tlists k1 (SuspendQ c) = ts"
    "wakes (SuspendQ c) {t} ?k0 k1" "thread_frame t ?k0 k1"
    using rt_thread_resume_waiter [OF k0(1), of "SuspendQ c" t] k0(2) by auto
  have more: "kernel.more k1 = kernel.more ?k0" using k1(5) by (simp add: thread_frame_def)
  note f1 = more_chan [OF more]
  let ?k2 = "upd_chan c (\<lambda>ch. ch\<lparr>ch_reader_flag := 1\<rparr>) k1"
  let ?p = "ipc_msg_pos k"
  let ?k3 = "if need_reply then (upd_msg ?p (\<lambda>x. x\<lparr>sender := Some t, msg_type := 0\<rparr>) (?k2\<lparr>ipc_msg_pos := ?p + 1\<rparr>))
    \<lparr>mlists := l_push (Waiting_list c) ?p (mlists k1)\<rparr> else ?k2"
  have step: "deliver c m need_reply need_schedule (t # ts) k = deliver c m need_reply True ts ?k3"
  proof (cases need_reply)
    case True
    then have "?p < IPC_MSG_SIZE" using Cons.prems(4) by simp
    then show ?thesis using Cons.prems(3) k1(1) f1 True
      by (simp add: ipc_msg_alloc_def upd_chan_def upd_msg_def set_msg_ret_def Let_def)
  next
    case False
    then show ?thesis using Cons.prems(3) k1(1) f1 by (simp add: upd_chan_def set_msg_ret_def Let_def)
  qed
  have k3: "kinv ?k3" "tlists ?k3 (SuspendQ c) = ts" using k1(2,3) by (simp_all add: upd_chan_def upd_msg_def)
  have none: "\<forall>u \<in> set ts. msg_ret ?k3 u = None"
    using Cons.prems(3) dist f1 by (auto simp: upd_chan_def upd_msg_def set_msg_ret_def)
  have room: "need_reply \<Longrightarrow> ipc_msg_pos ?k3 + length ts \<le> IPC_MSG_SIZE"
    using Cons.prems(4) by (simp add: upd_chan_def upd_msg_def)
  obtain k' where k': "deliver c m need_reply True ts ?k3 = Some (Delivered True, k')" "kinv k'"
    "tlists k' (SuspendQ c) = []" "wakes_only (SuspendQ c) (set ts) ?k3 k'" "delivered c m need_reply ts ?k3 k'"
    "rt_current_thread k' = rt_current_thread ?k3" "\<forall>u. error (thr k' u) = error (thr ?k3 u)"
    using Cons.IH [OF k3 none room, of True] by auto
  have w: "wakes_only (SuspendQ c) {t} k ?k3"
    using wakes_wakes_only [OF k1(4)] by (simp add: wakes_only_def set_msg_ret_def upd_chan_def upd_msg_def)
  have "wakes_only (SuspendQ c) (set (t # ts)) k k'" using wakes_only_trans [OF w k'(4)] by simp
  moreover have "rt_current_thread k' = rt_current_thread k" "\<forall>u. error (thr k' u) = error (thr k u)"
    using k'(6,7) k1(5) thread_frame_error [OF k1(5)]
    by (simp_all add: thread_frame_def set_msg_ret_def upd_chan_def upd_msg_def)
  moreover have "delivered c m need_reply (t # ts) k k'"
    using k'(5) f1 dist by (auto simp: delivered_def upd_chan_def upd_msg_def set_msg_ret_def slots_Cons rev_upt_Cons upt_single l_push_def
        simp del: upt_Suc)
  ultimately show ?case using step k'(1-3) by (intro exI [of _ k']) simp
qed

subsection \<open>From the descriptor to the channel\<close>

definition chan_at :: "tid \<Rightarrow> 'a chan_sys_scheme \<Rightarrow> int \<Rightarrow> nat \<Rightarrow> bool" where
  "chan_at t k fd c \<longleftrightarrow> fd_ready t k \<and> (\<exists>n d. fd_is t k fd n d \<and> fd_data (dfs_fds k d) = Some c)"

lemma chan_at_caller: "chan_at t k fd c \<Longrightarrow> caller t k"
  by (simp add: chan_at_def fd_ready_def)

lemma cleared_twice: "cleared t (upd_fd d g (cleared t k)) = upd_fd d g (cleared t k)"
  by (simp add: upd_fd_def upd_thr_def set_error_def)

lemma upd_fd_twice: "upd_fd d f (upd_fd d g k) = upd_fd d (f \<circ> g) k"
  by (simp add: upd_fd_def)

lemma upd_fd_same: "f (dfs_fds k d) = dfs_fds k d \<Longrightarrow> upd_fd d f k = k"
  by (simp add: upd_fd_def)

text \<open>Getting the descriptor and putting it again leaves nothing but the caller's cleared error.\<close>

lemma get_put_entry:
  assumes r: "fd_ready t k" and i: "fd_is t k fd n d"
  shows "\<exists>k1. fd_get fd k = Some (Returns (Some d), k1) \<and> fd_data (dfs_fds k1 d) = fd_data (dfs_fds k d) \<and>
    fd_put (Some d) k1 = Some (Returns (), cleared t k)"
proof -
  let ?k1 = "upd_fd d (\<lambda>f. f\<lparr>ref_count := ref_count f + 1\<rparr>) (cleared t k)"
  have k1: "fd_get fd k = Some (Returns (Some d), ?k1)" "fd_ready t ?k1" "fd_is t ?k1 fd n d"
    using fd_get_counts [OF r i] by auto
  have "ref_count (dfs_fds ?k1 d) \<noteq> 1" using fd_is_used [OF r i] by simp
  then have "fd_put (Some d) ?k1 = Some (Returns (), upd_fd d (\<lambda>f. f\<lparr>ref_count := ref_count f - 1\<rparr>) (cleared t ?k1))"
    using fd_put_counts [OF k1(2,3)] by auto
  also have "upd_fd d (\<lambda>f. f\<lparr>ref_count := ref_count f - 1\<rparr>) (cleared t ?k1) = cleared t k"
    unfolding cleared_twice upd_fd_twice by (rule upd_fd_same) simp
  finally show ?thesis using k1(1) by (intro exI [of _ ?k1]) simp
qed

lemma op_start_free:
  assumes "chan_at t k fd c"
  shows "op_start fd op k = op_go op c (cleared t k)"
proof -
  obtain n d where i: "fd_ready t k" "fd_is t k fd n d" "fd_data (dfs_fds k d) = Some c"
    using assms unfolding chan_at_def by blast
  show ?thesis using get_put_entry [OF i(1,2)] i(3) by (auto simp: op_start_def op_got_def op_put_def)
qed

lemma chan_at_sel [simp]:
  "chan_at t (k\<lparr>ipc_msg_pos := x\<rparr>) fd c = chan_at t k fd c"
  by (simp add: chan_at_def fd_ready_def fd_is_def fds_ok_def fs_free_def object_defs caller_def own_table_def fd_index_def)

lemma cleared_chan [simp]:
  "channels (cleared t k) = channels k" "ipc_msgs (cleared t k) = ipc_msgs k" "ipc_msg_pos (cleared t k) = ipc_msg_pos k"
  "mlists (cleared t k) = mlists k" "msg_ret (cleared t k) = msg_ret k"
  by (simp_all add: upd_thr_def)

subsection \<open>Sending\<close>

text \<open>Nobody who waits has a message that was not taken yet.\<close>

definition all_read :: "nat \<Rightarrow> 'a chan_sys_scheme \<Rightarrow> bool" where
  "all_read c k \<longleftrightarrow> (\<forall>u \<in> set (tlists k (SuspendQ c)). msg_ret k u = None)"

text \<open>The message that a call of \<open>t\<close> sends.\<close>

definition message_of :: "tid \<Rightarrow> bin_channel_msg \<Rightarrow> bin_channel_msg" where
  "message_of t msg = \<lparr>sender = Some t, msg_type = msg_type msg, msg_u = msg_u msg\<rparr>"

lemma ipc_msg_init_self:
  assumes "rt_thread_self k = Some t"
  shows "ipc_msg_init m msg k = Some (upd_msg m (\<lambda>_. message_of t msg) k)"
proof -
  have "x\<lparr>msg_type := msg_type msg, sender := Some t, msg_u := msg_u msg\<rparr> = message_of t msg" for x :: bin_channel_msg
    by (cases x) (simp add: message_of_def)
  then show ?thesis using assms by (simp add: ipc_msg_init_def upd_msg_def)
qed

text \<open>The state in which the loop over the waiting threads starts.\<close>

definition sending :: "tid \<Rightarrow> nat \<Rightarrow> bin_channel_msg \<Rightarrow> bool \<Rightarrow> 'a chan_sys_scheme \<Rightarrow> 'a chan_sys_scheme" where
  "sending t c msg need_reply k =
     (let k1 = upd_msg (ipc_msg_pos k) (\<lambda>_. message_of t msg) (cleared t (k\<lparr>ipc_msg_pos := ipc_msg_pos k + 1\<rparr>))
      in if need_reply then upd_chan c (\<lambda>ch. ch\<lparr>ch_reply := Some t\<rparr>) k1 else k1)"

lemma bin_channel_send_start:
  assumes c: "chan_at t k fd c" and p: "ipc_msg_pos k < IPC_MSG_SIZE"
  shows "bin_channel_send fd msg need_reply junk k =
    send_loop t c (ipc_msg_pos k) need_reply junk (tlists k (SuspendQ c)) (sending t c msg need_reply k)"
proof -
  have "caller t k" by (rule chan_at_caller [OF c])
  then have s: "rt_thread_self (cleared t (k\<lparr>ipc_msg_pos := Suc (ipc_msg_pos k)\<rparr>)) = Some t" "RT_DEBUG_NOT_IN_INTERRUPT k = Some ()"
    by (simp_all add: caller_def rt_thread_self_def RT_DEBUG_NOT_IN_INTERRUPT_def rt_interrupt_get_nest_def)
  have "chan_at t (k\<lparr>ipc_msg_pos := Suc (ipc_msg_pos k)\<rparr>) fd c" using c by simp
  note st = op_start_free [OF this]
  show ?thesis using p s
    by (simp add: bin_channel_send_def ipc_msg_alloc_def st op_go_def send_go_def ipc_msg_init_self sending_def Let_def)
      (simp add: upd_msg_def upd_chan_def upd_thr_def)
qed

lemma sending_sel [simp]:
  "kinv (sending t c msg r k) = kinv (cleared t k)" "tlists (sending t c msg r k) = tlists k"
  "msg_ret (sending t c msg r k) = msg_ret k" "ipc_msg_pos (sending t c msg r k) = Suc (ipc_msg_pos k)"
  "rt_current_thread (sending t c msg r k) = rt_current_thread k" "mlists (sending t c msg r k) = mlists k"
  "ipc_msgs (sending t c msg r k) = (ipc_msgs k)(ipc_msg_pos k := message_of t msg)"
  "channels (sending t c msg r k) = (if r then (channels k)(c := (channels k c)\<lparr>ch_reply := Some t\<rparr>) else channels k)"
  "kernel.truncate (sending t c msg r k) = kernel.truncate (cleared t k)"
  "thr (sending t c msg r k) = thr (cleared t k)"
proof -
  show "kinv (sending t c msg r k) = kinv (cleared t k)"
    by (rule kinv_cong) (simp_all add: sending_def Let_def upd_msg_def upd_chan_def upd_thr_def)
qed (simp_all add: sending_def Let_def upd_msg_def upd_chan_def upd_thr_def kernel.truncate_def)

lemma deliver_sending:
  assumes k: "kinv k" and read: "all_read c k"
    and p: "ipc_msg_pos k + (if need_reply then length (tlists k (SuspendQ c)) else 0) < IPC_MSG_SIZE"
  shows "\<exists>k'. deliver c (ipc_msg_pos k) need_reply junk (tlists k (SuspendQ c)) (sending t c msg need_reply k) =
      Some (Delivered (junk \<or> tlists k (SuspendQ c) \<noteq> []), k') \<and> kinv k' \<and> tlists k' (SuspendQ c) = [] \<and>
    wakes_only (SuspendQ c) (set (tlists k (SuspendQ c))) (cleared t k) k' \<and>
    delivered c (ipc_msg_pos k) need_reply (tlists k (SuspendQ c)) (sending t c msg need_reply k) k' \<and>
    rt_current_thread k' = rt_current_thread k \<and> (\<forall>u. error (thr k' u) = error (thr (cleared t k) u))"
proof -
  have "\<exists>k'. deliver c (ipc_msg_pos k) need_reply junk (tlists k (SuspendQ c)) (sending t c msg need_reply k) =
      Some (Delivered (junk \<or> tlists k (SuspendQ c) \<noteq> []), k') \<and> kinv k' \<and> tlists k' (SuspendQ c) = [] \<and>
    wakes_only (SuspendQ c) (set (tlists k (SuspendQ c))) (sending t c msg need_reply k) k' \<and>
    delivered c (ipc_msg_pos k) need_reply (tlists k (SuspendQ c)) (sending t c msg need_reply k) k' \<and>
    rt_current_thread k' = rt_current_thread (sending t c msg need_reply k) \<and>
    (\<forall>u. error (thr k' u) = error (thr (sending t c msg need_reply k) u))"
    by (rule deliver_all) (use k read p in \<open>auto simp: all_read_def\<close>)
  then show ?thesis by (auto simp: wakes_only_def)
qed

text \<open>The message and the state of everybody who waited when a delivery is over.\<close>

definition got_message :: "tid \<Rightarrow> nat \<Rightarrow> bin_channel_msg \<Rightarrow> tid set \<Rightarrow> 'a chan_sys_scheme \<Rightarrow> 'a chan_sys_scheme \<Rightarrow> bool" where
  "got_message t c msg T k k' \<longleftrightarrow>
     ipc_msgs k' (ipc_msg_pos k) = message_of t msg \<and>
     (\<forall>u \<in> T. runnable (state_of k' u) \<and> msg_ret k' u = Some (ipc_msg_pos k)) \<and>
     (\<forall>u. u \<notin> T \<longrightarrow> msg_ret k' u = msg_ret k u) \<and>
     (\<forall>u. u \<noteq> t \<longrightarrow> error (thr k' u) = error (thr k u)) \<and> tlists k' (SuspendQ c) = []"

lemma set_error_other: "u \<noteq> t \<Longrightarrow> error (thr (cleared t k) u) = error (thr k u)"
  by (simp add: upd_thr_def)

lemma bin_channel_send_ok:
  assumes c: "chan_at t k fd c" and k: "kinv k" and read: "all_read c k" and p: "ipc_msg_pos k < IPC_MSG_SIZE"
  shows "\<exists>k'. bin_channel_send fd msg False junk k = Some (Returns (RT_EOK, None), k') \<and> kinv k' \<and>
    got_message t c msg (set (tlists k (SuspendQ c))) k k' \<and> channels k' = (if tlists k (SuspendQ c) = [] then channels k
      else (channels k)(c := (channels k c)\<lparr>ch_reader_flag := 1\<rparr>)) \<and> mlists k' = mlists k \<and>
    ipc_msg_pos k' = Suc (ipc_msg_pos k)"
proof -
  let ?ts = "tlists k (SuspendQ c)"
  obtain k1 where k1: "deliver c (ipc_msg_pos k) False junk ?ts (sending t c msg False k) = Some (Delivered (junk \<or> ?ts \<noteq> []), k1)"
    "kinv k1" "tlists k1 (SuspendQ c) = []" "wakes_only (SuspendQ c) (set ?ts) (cleared t k) k1"
    "delivered c (ipc_msg_pos k) False ?ts (sending t c msg False k) k1"
    "rt_current_thread k1 = rt_current_thread k" "\<forall>u. error (thr k1 u) = error (thr (cleared t k) u)"
    using deliver_sending [OF k read, of False junk t msg] p by auto
  have cur: "rt_current_thread k1 \<noteq> None" using chan_at_caller [OF c] k1(6) by (simp add: caller_def)
  obtain k2 where k2: "(if junk \<or> ?ts \<noteq> [] then rt_schedule k1 else Some k1) = Some k2" "kinv k2"
    "wakes (SuspendQ c) {} k1 k2" "tlists k2 (SuspendQ c) = []" "\<forall>u. error (thr k2 u) = error (thr k1 u)"
  proof (cases "junk \<or> ?ts \<noteq> []")
    case True
    obtain k2 where "rt_schedule k1 = Some k2" "kinv k2" "wakes (SuspendQ c) {} k1 k2"
      "\<forall>l'. waiting_list l' \<longrightarrow> tlists k2 l' = tlists k1 l'" "\<forall>u. error (thr k2 u) = error (thr k1 u)"
      using schedule_wakes [OF k1(2) cur, of "SuspendQ c"] by blast
    then show ?thesis using that [of k2] True k1(3) by simp
  next
    case False
    then show ?thesis using that [of k1] k1(2,3) by simp
  qed
  have w: "wakes_only (SuspendQ c) (set ?ts) (cleared t k) k2"
    using wakes_only_trans [OF k1(4) wakes_wakes_only [OF k2(3)]] by simp
  have more: "kernel.more k2 = kernel.more k1" using k2(3) by (simp add: wakes_def ipc_frame_def)
  have "bin_channel_send fd msg False junk k = Some (Returns (RT_EOK, None), k2)"
    using bin_channel_send_start [OF c p, of msg False junk] k1(1) k2(1)
    by (simp add: send_loop_def send_end_def)
  moreover have "got_message t c msg (set ?ts) k k2"
    using wakes_only_sel(1) [OF w] k1(5,7) k2(4,5) more_chan [OF more] set_error_other [of _ t k]
    by (auto simp: got_message_def delivered_def)
  ultimately show ?thesis using k2(2) k1(5) more_chan [OF more] by (auto simp: delivered_def)
qed

subsection \<open>Sending and waiting for replies\<close>

text \<open>
  The sender \<open>t\<close> waits for \<open>P\<close>: \<open>ms\<close> are the free slots, one for each of \<open>P\<close>; \<open>ans\<close> are the replies
  that wait to be collected.
\<close>

definition awaiting :: "tid \<Rightarrow> nat \<Rightarrow> tid set \<Rightarrow> nat list \<Rightarrow> 'a chan_sys_scheme \<Rightarrow> bool" where
  "awaiting t c P ans k \<longleftrightarrow>
     (\<exists>ms ps. mlists k (Waiting_list c) = ms \<and> map (\<lambda>m. sender (ipc_msgs k m)) ms = map Some ps \<and>
        set ps = P \<and> distinct ps \<and> distinct ms \<and> set ms \<inter> set ans = {}) \<and>
     mlists k (Wait_msg c) = ans \<and> distinct ans \<and> ch_reply (channels k c) = Some t"

text \<open>A channel without replies that are out: both lists of messages are empty.\<close>

definition idle_channel :: "nat \<Rightarrow> 'a chan_sys_scheme \<Rightarrow> bool" where
  "idle_channel c k \<longleftrightarrow> mlists k (Wait_msg c) = [] \<and> mlists k (Waiting_list c) = []"

lemma suspend_self:
  assumes k: "kinv k" and c: "rt_current_thread k = Some t" and r: "runnable (state_of k t)"
  shows "\<exists>k1 k2. rt_thread_suspend t k = Some (RT_EOK, k1) \<and> rt_schedule k1 = Some k2 \<and> kinv k2 \<and>
    state_of k2 t = RT_THREAD_SUSPEND \<and> (\<forall>u. u \<noteq> t \<longrightarrow> runnable (state_of k2 u) = runnable (state_of k u)) \<and>
    kernel.more k2 = kernel.more k \<and> (\<forall>l. waiting_list l \<longrightarrow> tlists k2 l = remove1 t (tlists k l)) \<and>
    (\<forall>u. error (thr k2 u) = error (thr k u))"
proof -
  obtain k1 where k1: "rt_thread_suspend t k = Some (RT_EOK, k1)" "kinv k1" "floating t k1" "thread_frame t k k1"
    "tlists k1 = l_unlink t (tlists k)"
    using rt_thread_suspend_kinv [OF k] r by (auto simp: runnable_def)
  have cur: "rt_current_thread k1 \<noteq> None" using k1(4) c by (simp add: thread_frame_def)
  obtain k2 where k2: "rt_schedule k1 = Some k2" "kinv k2" "wakes (SuspendQ 0) {} k1 k2"
    "\<forall>l'. waiting_list l' \<longrightarrow> tlists k2 l' = tlists k1 l'" "\<forall>u. error (thr k2 u) = error (thr k1 u)"
    using schedule_wakes [OF k1(2) cur, of "SuspendQ 0"] by blast
  have s1: "state_of k1 t = RT_THREAD_SUSPEND" using k1(3) by (simp add: floating_def)
  have nr: "\<not> runnable (state_of k2 t)" using wakes_runnable [OF k2(3), of t] s1 by simp
  have "state_of k2 t = RT_THREAD_SUSPEND" using wakes_thr [OF k2(3) nr] s1 by simp
  moreover have "runnable (state_of k2 u) = runnable (state_of k u)" if "u \<noteq> t" for u
    using wakes_runnable [OF k2(3), of u] k1(4) that by (simp add: thread_frame_def)
  moreover have "kernel.more k2 = kernel.more k"
    using k1(4) k2(3) by (simp add: thread_frame_def wakes_def ipc_frame_def)
  ultimately show ?thesis using k1(1,5) k2 thread_frame_error [OF k1(4)] by (auto simp: l_unlink_def)
qed

lemma map_upt_nth: "map (\<lambda>i. ts ! (i - p)) [p..<p + length ts] = ts"
  by (rule nth_equalityI) simp_all

lemma bin_channel_send_reply:
  assumes c: "chan_at t k fd c" and k: "kinv k" and read: "all_read c k" and idle: "idle_channel c k"
    and p: "ipc_msg_pos k + length (tlists k (SuspendQ c)) < IPC_MSG_SIZE" and some: "tlists k (SuspendQ c) \<noteq> []"
  shows "\<exists>k'. bin_channel_send fd msg True junk k = Some (Blocks (Send_waiting t c), k') \<and> kinv k' \<and>
    got_message t c msg (set (tlists k (SuspendQ c))) k k' \<and> state_of k' t = RT_THREAD_SUSPEND \<and>
    awaiting t c (set (tlists k (SuspendQ c))) [] k'"
proof -
  let ?ts = "tlists k (SuspendQ c)" and ?p = "ipc_msg_pos k"
  have cal: "caller t k" by (rule chan_at_caller [OF c])
  obtain k1 where k1: "deliver c ?p True junk ?ts (sending t c msg True k) = Some (Delivered True, k1)"
    "kinv k1" "tlists k1 (SuspendQ c) = []" "wakes_only (SuspendQ c) (set ?ts) (cleared t k) k1"
    "delivered c ?p True ?ts (sending t c msg True k) k1"
    "rt_current_thread k1 = rt_current_thread k" "\<forall>u. error (thr k1 u) = error (thr (cleared t k) u)"
    using deliver_sending [OF k read, of True junk t msg] p some by auto
  have self: "rt_current_thread k1 = Some t" "runnable (state_of k1 t)"
    using cal k1(6) wakes_only_sel(1) [OF k1(4), of t] by (simp_all add: caller_def)
  obtain k2 k3 where k3: "rt_thread_suspend t k1 = Some (RT_EOK, k2)" "rt_schedule k2 = Some k3" "kinv k3"
    "state_of k3 t = RT_THREAD_SUSPEND" "\<forall>u. u \<noteq> t \<longrightarrow> runnable (state_of k3 u) = runnable (state_of k1 u)"
    "kernel.more k3 = kernel.more k1" "\<forall>l. waiting_list l \<longrightarrow> tlists k3 l = remove1 t (tlists k1 l)"
    "\<forall>u. error (thr k3 u) = error (thr k1 u)"
    using suspend_self [OF k1(2) self] by blast
  note f = more_chan [OF k3(6)]
  have nt: "t \<notin> set ?ts"
    using kinv_linked [OF k, of t "SuspendQ c"] cal by (auto simp: caller_def)
  have d: "distinct ?ts" using kinv_lists [OF k] by (simp add: lists_ok_def)
  have "bin_channel_send fd msg True junk k = Some (Blocks (Send_waiting t c), k3)"
    using bin_channel_send_start [OF c, of msg True junk] p k1(1) k3(1,2) by (simp add: send_loop_def send_end_def)
  moreover have "got_message t c msg (set ?ts) k k3"
  proof -
    have "runnable (state_of k3 u)" if "u \<in> set ?ts" for u
      using k3(5) wakes_only_sel(1) [OF k1(4), of u] that nt by (metis)
    then show ?thesis using k1(3,5,7) k3(7,8) f set_error_other [of _ t k]
      by (auto simp: got_message_def delivered_def slots_def)
  qed
  moreover have "awaiting t c (set ?ts) [] k3"
  proof -
    let ?ms = "[Suc ?p..<Suc ?p + length ?ts]"
    have ml: "mlists k3 (Waiting_list c) = rev ?ms" "mlists k3 (Wait_msg c) = []"
      using k1(5) f idle by (simp_all add: delivered_def idle_channel_def del: upt_Suc)
    have "map (\<lambda>m. sender (ipc_msgs k3 m)) ?ms = map (\<lambda>m. Some (?ts ! (m - Suc ?p))) ?ms"
    proof (rule map_cong [OF refl])
      fix i
      assume "i \<in> set ?ms"
      then have "Suc ?p \<le> i" "i < Suc ?p + length ?ts" by (simp_all del: upt_Suc)
      then show "sender (ipc_msgs k3 i) = Some (?ts ! (i - Suc ?p))"
        using k1(5) unfolding f(2) by (simp add: delivered_def slots_def)
    qed
    also have "\<dots> = map Some (map (\<lambda>m. ?ts ! (m - Suc ?p)) ?ms)" by simp
    also have "\<dots> = map Some ?ts" by (simp only: map_upt_nth)
    finally have "map (\<lambda>m. sender (ipc_msgs k3 m)) (rev ?ms) = map Some (rev ?ts)" by (simp only: rev_map [symmetric])
    moreover have "ch_reply (channels k3 c) = Some t" using k1(5) f by (auto simp: delivered_def)
    ultimately show ?thesis unfolding awaiting_def ml using d by (intro conjI exI [of _ "rev ?ms"] exI [of _ "rev ?ts"]) simp_all
  qed
  ultimately show ?thesis using k3(3,4) by blast
qed

subsection \<open>Replying and collecting\<close>

lemma find_reply_slot:
  assumes "map (\<lambda>m. sender (h m)) ms = map Some ps" "u \<in> set ps" "distinct ps" "distinct ms"
  shows "\<exists>m. find_reply h u ms = Some m \<and> m \<in> set ms \<and>
    map (\<lambda>m. sender (h m)) (remove1 m ms) = map Some (remove1 u ps)"
  using assms
proof (induction ms arbitrary: ps)
  case (Cons m ms)
  then obtain p qs where ps: "ps = p # qs" by (cases ps) auto
  show ?case
  proof (cases "p = u")
    case True
    then show ?thesis using Cons.prems ps by simp
  next
    case False
    then obtain m' where m': "find_reply h u ms = Some m'" "m' \<in> set ms"
      "map (\<lambda>m. sender (h m)) (remove1 m' ms) = map Some (remove1 u qs)"
      using Cons.IH [of qs] Cons.prems ps by auto
    moreover have "m' \<noteq> m" using m'(2) Cons.prems(4) by auto
    ultimately show ?thesis using False Cons.prems ps by auto
  qed
qed simp

lemma find_reply_none:
  "map (\<lambda>m. sender (h m)) ms = map Some ps \<Longrightarrow> u \<notin> set ps \<Longrightarrow> find_reply h u ms = None"
  by (induction ms arbitrary: ps) auto

lemma awaiting_cleared [simp]: "awaiting t c P ans (cleared u k) = awaiting t c P ans k"
  by (simp add: awaiting_def)

text \<open>A thread the sender waits for hands in its reply; nobody else can.\<close>

lemma reply_go_stranger:
  assumes a: "awaiting t c P ans k" and u: "caller u k" "u \<notin> P"
  shows "reply_go msg c k = Some (Returns (- RT_ERROR, None), k)"
proof -
  obtain ps where "map (\<lambda>m. sender (ipc_msgs k m)) (mlists k (Waiting_list c)) = map Some ps" "set ps = P"
    using a unfolding awaiting_def by blast
  then have "find_reply (ipc_msgs k) u (mlists k (Waiting_list c)) = None" using u(2) by (intro find_reply_none) auto
  then show ?thesis using u(1) by (simp add: reply_go_def)
qed

lemma resume_live:
  assumes k: "kinv k" and lv: "live (state_of k t)"
  shows "\<exists>e k'. rt_thread_resume t k = Some (e, k') \<and> kinv k' \<and> runnable (state_of k' t) \<and> kernel.more k' = kernel.more k \<and>
    rt_current_thread k' = rt_current_thread k \<and> (\<forall>u. u \<noteq> t \<longrightarrow> thr k' u = thr k u)"
proof (cases "state_of k t = RT_THREAD_SUSPEND")
  case True
  obtain k' where "rt_thread_resume t k = Some (RT_EOK, k')" "kinv k'" "thread_frame t k k'"
    "state_of k' t = (if rt_current_thread k = Some t then RT_THREAD_RUNNING else RT_THREAD_READY)"
    using rt_thread_resume_kinv [OF k True] by blast
  then show ?thesis by (auto simp: thread_frame_def)
next
  case False
  then have "rt_thread_resume t k = Some (- RT_ERROR, k)" using kinv_live(3) [OF k lv] by (simp add: rt_thread_resume_def)
  then show ?thesis using k lv False by (auto simp: live_def)
qed

lemma reply_go_awaited:
  assumes k: "kinv k" and a: "awaiting t c P ans k" and u: "caller u k" "u \<in> P" and lv: "live (state_of k t)"
  shows "\<exists>m k'. reply_go msg c k = Some (Returns (RT_EOK, None), k') \<and> kinv k' \<and> awaiting t c (P - {u}) (m # ans) k' \<and>
    ipc_msgs k' m = message_of u msg \<and> msg_ret k' u = None \<and> runnable (state_of k' t)"
proof -
  let ?ms = "mlists k (Waiting_list c)"
  obtain ps where ps: "map (\<lambda>m. sender (ipc_msgs k m)) ?ms = map Some ps" "set ps = P" "distinct ps" "distinct ?ms"
    "set ?ms \<inter> set ans = {}" and ans: "mlists k (Wait_msg c) = ans" "distinct ans" "ch_reply (channels k c) = Some t"
    using a unfolding awaiting_def by blast
  obtain m where m: "find_reply (ipc_msgs k) u ?ms = Some m" "m \<in> set ?ms"
    "map (\<lambda>m. sender (ipc_msgs k m)) (remove1 m ?ms) = map Some (remove1 u ps)"
    using find_reply_slot [OF ps(1) _ ps(3,4), of u] u(2) ps(2) by auto
  let ?k1 = "(upd_msg m (\<lambda>_. message_of u msg) (k\<lparr>mlists := l_unlink m (mlists k)\<rparr>))"
  let ?k2 = "set_msg_ret u None (?k1\<lparr>mlists := l_push (Wait_msg c) m (mlists ?k1)\<rparr>)"
  have i: "ipc_msg_init m msg (k\<lparr>mlists := l_unlink m (mlists k)\<rparr>) = Some ?k1"
    using u(1) by (intro ipc_msg_init_self) (simp add: rt_thread_self_def caller_def)
  have k2: "kinv ?k2" "live (state_of ?k2 t)" using k lv by (simp_all add: set_msg_ret_def upd_msg_def)
  obtain e k3 where k3: "rt_thread_resume t ?k2 = Some (e, k3)" "kinv k3" "runnable (state_of k3 t)" "kernel.more k3 = kernel.more ?k2"
    using resume_live [OF k2] by blast
  have r2: "ch_reply (channels ?k2 c) = Some t" using ans(3) by (simp add: set_msg_ret_def upd_msg_def)
  have "reply_go msg c k = Some (Returns (RT_EOK, None), k3)"
    using u(1) m(1) i r2 k3(1) by (simp add: reply_go_def)
  moreover have "awaiting t c (P - {u}) (m # ans) k3"
  proof -
    have mn: "m \<notin> set ans" using m(2) ps(5) by blast
    have w: "mlists k3 (Waiting_list c) = remove1 m ?ms" "mlists k3 (Wait_msg c) = m # ans"
      using more_chan(4) [OF k3(4)] ans mn by (simp_all add: set_msg_ret_def upd_msg_def l_push_def l_unlink_def remove1_idem)
    have h: "ipc_msgs k3 = (ipc_msgs k)(m := message_of u msg)" "channels k3 = channels k"
      using more_chan(1,2) [OF k3(4)] by (simp_all add: set_msg_ret_def upd_msg_def)
    have "m \<notin> set (remove1 m ?ms)" using ps(4) by simp
    then have "map (\<lambda>i. sender (ipc_msgs k3 i)) (remove1 m ?ms) = map Some (remove1 u ps)"
      unfolding m(3) [symmetric] h by (intro map_cong) auto
    then show ?thesis unfolding awaiting_def w h(2)
      using ps ans mn notin_set_remove1 [of _ ?ms m] by (intro conjI exI [of _ "remove1 m ?ms"] exI [of _ "remove1 u ps"]) auto
  qed
  moreover have "ipc_msgs k3 m = message_of u msg" "msg_ret k3 u = None"
    using more_chan [OF k3(4)] by (simp_all add: set_msg_ret_def upd_msg_def)
  ultimately show ?thesis using k3(2,3) by blast
qed

lemma drain_lists:
  "drain ms L l = foldl (\<lambda>xs m. remove1 m xs) (L l) ms"
  by (induction ms arbitrary: L) (simp_all add: l_unlink_def)

lemma drain_own: "drain (L l) L l = []"
proof -
  have "foldl (\<lambda>xs m. remove1 m xs) xs xs = []" for xs :: "nat list" by (induction xs) simp_all
  then show ?thesis by (simp add: drain_lists)
qed

lemma drain_disjoint: "set (L l) \<inter> set ms = {} \<Longrightarrow> drain ms L l = L l"
proof -
  have "set xs \<inter> set ms = {} \<Longrightarrow> foldl (\<lambda>xs m. remove1 m xs) xs ms = xs" for xs :: "nat list"
    by (induction ms) (simp_all add: remove1_idem)
  then show "set (L l) \<inter> set ms = {} \<Longrightarrow> drain ms L l = L l" by (simp add: drain_lists)
qed

text \<open>
  The sender collects: it is done when nobody is left to reply, it waits again when somebody is,
  and when it finds no reply at all it never leaves the loop that reports the error.
\<close>

lemma send_collect_cases:
  assumes k: "kinv k" and a: "awaiting t c P ans k" and t: "caller t k"
  shows "ans \<noteq> [] \<Longrightarrow> P = {} \<Longrightarrow> \<exists>k'. send_collect t c k = Some (Returns (RT_EOK, None), k') \<and> kinv k' \<and> idle_channel c k'"
    "ans \<noteq> [] \<Longrightarrow> P \<noteq> {} \<Longrightarrow> \<exists>k'. send_collect t c k = Some (Blocks (Send_waiting t c), k') \<and> kinv k' \<and>
       awaiting t c P [] k' \<and> state_of k' t = RT_THREAD_SUSPEND"
    "ans = [] \<Longrightarrow> send_collect t c k = Some (o', k') \<Longrightarrow> o' = Blocks (Send_lost t c)"
proof -
  let ?ms = "mlists k (Waiting_list c)"
  obtain ps where ps: "map (\<lambda>m. sender (ipc_msgs k m)) ?ms = map Some ps" "set ps = P" "distinct ps" "distinct ?ms"
    "set ?ms \<inter> set ans = {}" and ans: "mlists k (Wait_msg c) = ans" "distinct ans" "ch_reply (channels k c) = Some t"
    using a unfolding awaiting_def by blast
  have empty: "?ms = [] \<longleftrightarrow> P = {}" using ps(1,2) by (cases ps) auto
  let ?k1 = "k\<lparr>mlists := drain ans (mlists k)\<rparr>"
  have l: "mlists ?k1 (Wait_msg c) = []" "mlists ?k1 (Waiting_list c) = ?ms"
    using drain_own [of "mlists k" "Wait_msg c"] drain_disjoint [of "mlists k" "Waiting_list c" ans] ans(1) ps(5) by simp_all
  show "\<exists>k'. send_collect t c k = Some (Returns (RT_EOK, None), k') \<and> kinv k' \<and> idle_channel c k'" if "ans \<noteq> []" "P = {}"
    using that l empty ans k by (intro exI [of _ ?k1]) (simp add: send_collect_def idle_channel_def)
  show "\<exists>k'. send_collect t c k = Some (Blocks (Send_waiting t c), k') \<and> kinv k' \<and>
       awaiting t c P [] k' \<and> state_of k' t = RT_THREAD_SUSPEND" if ne: "ans \<noteq> []" "P \<noteq> {}"
  proof -
    have k1: "kinv ?k1" "rt_current_thread ?k1 = Some t" "runnable (state_of ?k1 t)"
      using k t by (simp_all add: caller_def)
    obtain k2 k3 where k3: "rt_thread_suspend t ?k1 = Some (RT_EOK, k2)" "rt_schedule k2 = Some k3" "kinv k3"
      "state_of k3 t = RT_THREAD_SUSPEND" "kernel.more k3 = kernel.more ?k1"
      using suspend_self [OF k1] by blast
    have "send_collect t c k = Some (Blocks (Send_waiting t c), k3)"
      using ne l empty ans k3(1,2) t by (simp add: send_collect_def rt_thread_self_def caller_def)
    moreover have "awaiting t c P [] k3"
      unfolding awaiting_def using more_chan [OF k3(5)] l ps ans(3) by simp
    ultimately show ?thesis using k3(3,4) by blast
  qed
  show "o' = Blocks (Send_lost t c)" if "ans = []" "send_collect t c k = Some (o', k')" for o' k'
    using that ans(1) by (auto simp: send_collect_def split: bind_splits)
qed

subsection \<open>The rendezvous of a sender with its receivers\<close>

text \<open>
  What can happen while \<open>t\<close> waits on channel \<open>c\<close>: anything that leaves the messages of the channel
  alone (ticks, interrupts, switches, receivers that run, other channels), a call of
  \<open>bin_channel_reply\<close> by anybody who has the channel open, and \<open>t\<close> running and waiting again. The list
  names those whose reply was accepted.
\<close>

definition same_channel :: "nat \<Rightarrow> 'a chan_sys_scheme \<Rightarrow> 'a chan_sys_scheme \<Rightarrow> bool" where
  "same_channel c k k' \<longleftrightarrow>
     mlists k' (Waiting_list c) = mlists k (Waiting_list c) \<and> mlists k' (Wait_msg c) = mlists k (Wait_msg c) \<and>
     ch_reply (channels k' c) = ch_reply (channels k c) \<and>
     (\<forall>m \<in> set (mlists k (Waiting_list c)). sender (ipc_msgs k' m) = sender (ipc_msgs k m))"

inductive session :: "tid \<Rightarrow> nat \<Rightarrow> 'a chan_sys_scheme \<Rightarrow> tid list \<Rightarrow> 'a chan_sys_scheme \<Rightarrow> bool"
  for t c k0 where
  start: "session t c k0 [] k0"
| other: "\<lbrakk>session t c k0 log k; same_channel c k k'; kinv k'; live (state_of k' t)\<rbrakk> \<Longrightarrow> session t c k0 log k'"
| reply: "\<lbrakk>session t c k0 log k; chan_at u k fd c; bin_channel_reply fd msg k = Some (Returns (e, x), k')\<rbrakk> \<Longrightarrow>
    session t c k0 (if e = RT_EOK then u # log else log) k'"
| wait: "\<lbrakk>session t c k0 log k; caller t k; chan_resume (Send_waiting t c) k = Some (Blocks (Send_waiting t c), k')\<rbrakk> \<Longrightarrow>
    session t c k0 log k'"

definition accounted :: "tid \<Rightarrow> nat \<Rightarrow> tid set \<Rightarrow> tid list \<Rightarrow> 'a chan_sys_scheme \<Rightarrow> bool" where
  "accounted t c T log k \<longleftrightarrow> kinv k \<and> live (state_of k t) \<and> distinct log \<and> set log \<subseteq> T \<and>
     (\<exists>ans. awaiting t c (T - set log) ans k \<and> (set log = T \<longrightarrow> ans \<noteq> []))"

lemma awaiting_same:
  assumes a: "awaiting t c P ans k" and s: "same_channel c k k'"
  shows "awaiting t c P ans k'"
proof -
  obtain ps where ps: "map (\<lambda>m. sender (ipc_msgs k m)) (mlists k (Waiting_list c)) = map Some ps" "set ps = P" "distinct ps"
    "distinct (mlists k (Waiting_list c))" "set (mlists k (Waiting_list c)) \<inter> set ans = {}"
    and ans: "mlists k (Wait_msg c) = ans" "distinct ans" "ch_reply (channels k c) = Some t"
    using a unfolding awaiting_def by blast
  have e: "mlists k' (Waiting_list c) = mlists k (Waiting_list c)" "mlists k' (Wait_msg c) = mlists k (Wait_msg c)"
    "ch_reply (channels k' c) = ch_reply (channels k c)"
    using s by (simp_all add: same_channel_def)
  have "map (\<lambda>m. sender (ipc_msgs k' m)) (mlists k (Waiting_list c)) = map Some ps"
    unfolding ps(1) [symmetric] using s by (intro map_cong) (simp_all add: same_channel_def)
  then show ?thesis unfolding awaiting_def e using ps ans by blast
qed

lemma bin_channel_reply_free: "chan_at u k fd c \<Longrightarrow> bin_channel_reply fd msg k = reply_go msg c (cleared u k)"
  by (simp add: bin_channel_reply_def op_start_free op_go_def)

lemma caller_cleared_kinv: "kinv k \<Longrightarrow> caller u k \<Longrightarrow> kinv (cleared u k) \<and> caller u (cleared u k)"
  by simp

lemma accounted_reply:
  assumes a: "accounted t c T log k" and u: "chan_at u k fd c"
    and r: "bin_channel_reply fd msg k = Some (Returns (e, x), k')"
  shows "accounted t c T (if e = RT_EOK then u # log else log) k'"
proof -
  have c: "caller u k" by (rule chan_at_caller [OF u])
  obtain ans where ans: "awaiting t c (T - set log) ans (cleared u k)" "set log = T \<longrightarrow> ans \<noteq> []"
    using a by (auto simp: accounted_def)
  have k: "kinv (cleared u k)" "caller u (cleared u k)" "live (state_of (cleared u k) t)"
    using a c by (simp_all add: accounted_def live_def caller_def)
  have rg: "reply_go msg c (cleared u k) = Some (Returns (e, x), k')"
    using r bin_channel_reply_free [OF u, of msg] by simp
  show ?thesis
  proof (cases "u \<in> T - set log")
    case False
    then have "e = - RT_ERROR" "k' = cleared u k" using reply_go_stranger [OF ans(1) k(2) False, of msg] rg by simp_all
    then show ?thesis using a ans k unfolding accounted_def by auto
  next
    case True
    obtain m k2 where k2: "reply_go msg c (cleared u k) = Some (Returns (RT_EOK, None), k2)" "kinv k2"
      "awaiting t c (T - set log - {u}) (m # ans) k2" "runnable (state_of k2 t)"
      using reply_go_awaited [OF k(1) ans(1) k(2) True k(3), of msg] by blast
    have e: "e = RT_EOK" "k' = k2" using k2(1) rg by simp_all
    have P: "T - set log - {u} = T - set (u # log)" by auto
    have "live (state_of k2 t)" using k2(4) by (auto simp: runnable_def)
    moreover have "\<exists>ans. awaiting t c (T - set (u # log)) ans k2 \<and> (set (u # log) = T \<longrightarrow> ans \<noteq> [])"
      using k2(3) unfolding P by blast
    moreover have "distinct (u # log)" "set (u # log) \<subseteq> T" using a True by (auto simp: accounted_def)
    ultimately show ?thesis using k2(2) unfolding accounted_def e by simp
  qed
qed

lemma session_accounted:
  "session t c k0 log k \<Longrightarrow> accounted t c T [] k0 \<Longrightarrow> accounted t c T log k"
proof (induction rule: session.induct)
  case (other log k k')
  then obtain ans where "awaiting t c (T - set log) ans k" "set log = T \<longrightarrow> ans \<noteq> []" by (auto simp: accounted_def)
  then show ?case using other awaiting_same [of t c "T - set log" ans k k'] unfolding accounted_def by blast
next
  case (reply log k u fd msg e x k')
  then show ?case using accounted_reply by blast
next
  case (wait log k k')
  then have a: "accounted t c T log k" by blast
  then obtain ans where ans: "awaiting t c (T - set log) ans k" "set log = T \<longrightarrow> ans \<noteq> []" "kinv k"
    by (auto simp: accounted_def)
  note cases = send_collect_cases [OF ans(3,1) wait.hyps(2)]
  have w: "send_collect t c k = Some (Blocks (Send_waiting t c), k')"
    using wait.hyps(3) by (simp add: chan_resume_def)
  have ne: "ans \<noteq> []" using cases(3) [OF _ w] by auto
  have P: "T - set log \<noteq> {}" using cases(1) [OF ne] w by auto
  show ?case using cases(2) [OF ne P] w a P unfolding accounted_def by auto
qed

text \<open>The sender returns when every receiver has replied, and only then.\<close>

lemma session_returns:
  assumes s: "session t c k0 log k" and a: "accounted t c T [] k0" and t: "caller t k"
  shows "chan_resume (Send_waiting t c) k = Some (Returns r, k') \<Longrightarrow> r = (RT_EOK, None) \<and> set log = T \<and> distinct log \<and> idle_channel c k'"
    "set log = T \<Longrightarrow> \<exists>k'. chan_resume (Send_waiting t c) k = Some (Returns (RT_EOK, None), k') \<and> kinv k' \<and> idle_channel c k'"
proof -
  have acc: "accounted t c T log k" by (rule session_accounted [OF s a])
  then obtain ans where ans: "awaiting t c (T - set log) ans k" "set log = T \<longrightarrow> ans \<noteq> []" "kinv k" "distinct log" "set log \<subseteq> T"
    by (auto simp: accounted_def)
  note cases = send_collect_cases [OF ans(3,1) t]
  show "r = (RT_EOK, None) \<and> set log = T \<and> distinct log \<and> idle_channel c k'"
    if "chan_resume (Send_waiting t c) k = Some (Returns r, k')"
  proof -
    have w: "send_collect t c k = Some (Returns r, k')" using that by (simp add: chan_resume_def)
    have ne: "ans \<noteq> []" using cases(3) [OF _ w] by auto
    have P: "T - set log = {}" using cases(2) [OF ne] w by auto
    show ?thesis using cases(1) [OF ne P] w P ans(4,5) by auto
  qed
  show "\<exists>k'. chan_resume (Send_waiting t c) k = Some (Returns (RT_EOK, None), k') \<and> kinv k' \<and> idle_channel c k'" if "set log = T"
    using cases(1) ans(2) that by (simp add: chan_resume_def)
qed

lemma send_accounted:
  assumes "chan_at t k fd c" "kinv k" "all_read c k" "idle_channel c k"
    "ipc_msg_pos k + length (tlists k (SuspendQ c)) < IPC_MSG_SIZE" "tlists k (SuspendQ c) \<noteq> []"
  shows "\<exists>k0. bin_channel_send fd msg True junk k = Some (Blocks (Send_waiting t c), k0) \<and>
    got_message t c msg (set (tlists k (SuspendQ c))) k k0 \<and> accounted t c (set (tlists k (SuspendQ c))) [] k0"
  using bin_channel_send_reply [OF assms, of msg junk] assms(6) by (fastforce simp: accounted_def)

subsection \<open>Receiving\<close>

lemma bin_channel_recv_waits:
  assumes c: "chan_at u k fd c" and k: "kinv k" and fl: "ipc_flag c k = RT_IPC_FLAG_FIFO \<or> ipc_flag c k = RT_IPC_FLAG_PRIO"
    and time: "timeout < 2 ^ 31 - 1"
  shows "\<exists>k'. bin_channel_recv fd timeout k = Some (Blocks (Recv_resumed u c), k') \<and> kinv k' \<and>
    tlists k' (SuspendQ c) = queued (ipc_flag c k) (prio_of k) u (tlists k (SuspendQ c)) \<and> error (thr k' u) = RT_EOK \<and>
    channels k' = channels k \<and> msg_ret k' = msg_ret k \<and> mlists k' = mlists k \<and> ipc_msgs k' = ipc_msgs k \<and>
    (Thread_timer u \<in> set (rt_timer_list k') \<longleftrightarrow> 0 < timeout)"
proof -
  let ?k = "cleared u k"
  have cal: "rt_current_thread ?k = Some u" "state_of ?k u = RT_THREAD_RUNNING"
    using chan_at_caller [OF c] by (simp_all add: caller_def)
  have k1: "kinv ?k" "ipc_flag c ?k = ipc_flag c k" using k by simp_all
  obtain k' where k': "ipc_wait (SuspendQ c) u (ipc_flag c k) timeout ?k = Some k'" "kinv k'"
    "tlists k' (SuspendQ c) = queued (ipc_flag c k) (prio_of ?k) u (tlists ?k (SuspendQ c))" "waits (SuspendQ c) u ?k k'"
    "Thread_timer u \<in> set (rt_timer_list k') \<longleftrightarrow> 0 < timeout"
    using ipc_wait_kinv [OF k1(1) cal, of "SuspendQ c" "ipc_flag c k" timeout] fl time by auto
  have more: "kernel.more k' = kernel.more ?k" using waits_frame [OF k'(4)] by (simp add: ipc_frame_def)
  have "error (thr k' u) = RT_EOK" using waits_error [OF k'(4), of u] by (simp add: upd_thr_def set_error_def)
  moreover have "bin_channel_recv fd timeout k = Some (Blocks (Recv_resumed u c), k')"
    using k'(1) cal(1) by (simp add: bin_channel_recv_def op_start_free [OF c] op_go_def recv_go_def rt_thread_self_def)
  moreover have "tlists k' (SuspendQ c) = queued (ipc_flag c k) (prio_of k) u (tlists k (SuspendQ c))"
    using k'(3) unfolding prio_set_error by simp
  ultimately show ?thesis using k'(2,5) more_chan [OF more] by simp
qed

lemma recv_resumed_message:
  assumes "error (thr k u) = RT_EOK" "msg_ret k u = Some m"
  shows "\<exists>k'. chan_resume (Recv_resumed u c) k = Some (Returns (RT_EOK, Some (ipc_msgs k m)), k') \<and>
    msg_ret k' u = (if ch_reply (channels k c) = None then None else Some m)"
  using assms by (auto simp: chan_resume_def recv_resumed_def Let_def set_msg_ret_def upd_chan_def)

subsection \<open>What goes wrong\<close>

text \<open>The array of messages only ever fills up; then nothing can be sent any more.\<close>

lemma send_exhausted:
  assumes "\<not> ipc_msg_pos k < IPC_MSG_SIZE" "rt_interrupt_nest k = 0"
  shows "bin_channel_send fd msg need_reply junk k = Some (Returns (- RT_ENOMEM, None), k)"
  using assms by (simp add: bin_channel_send_def ipc_msg_alloc_def RT_DEBUG_NOT_IN_INTERRUPT_def rt_interrupt_get_nest_def)

lemma send_lost_forever:
  "chan_resume (Send_lost t c) k = Some (o', k') \<Longrightarrow> o' = Blocks (Send_lost t c)"
  by (auto simp: chan_resume_def send_lost_def Let_def split: bind_splits prod.splits)

lemma fd_ready_cong:
  fixes k k' :: "'a chan_sys_scheme"
  assumes r: "fd_ready t k" and c: "caller t k'"
    and e: "fd_tables k' = fd_tables k" "dfs_fds k' = dfs_fds k" "thread_lwp k' = thread_lwp k" "std_console k' = std_console k"
      "mutexes k' = mutexes k"
    and f: "rt_object_get_type (Obj_ipc fslock) k' = rt_object_get_type (Obj_ipc fslock) k"
      "tlists k' (SuspendQ fslock) = tlists k (SuspendQ fslock)"
  shows "fd_ready t k'" "fd_users t k' = fd_users t k" "fd_is t k' fd n d = fd_is t k fd n d" "own_table t k' = own_table t k"
proof -
  show "own_table t k' = own_table t k" by (simp add: own_table_def e)
  then show "fd_users t k' = fd_users t k" "fd_is t k' fd n d = fd_is t k fd n d"
    by (simp_all add: fd_users_def fun_eq_iff fd_is_def fd_index_def e)
  have "fds_ok k'" using r fds_ok_cong [OF e(1,2)] by (simp add: fd_ready_def)
  moreover have "fs_free k'" using r f by (simp add: fd_ready_def fs_free_def e)
  ultimately show "fd_ready t k'" using c by (simp add: fd_ready_def)
qed

lemma send_unheard:
  assumes c: "chan_at t k fd c" and q: "tlists k (SuspendQ c) = []" and p: "ipc_msg_pos k < IPC_MSG_SIZE"
  shows "bin_channel_send fd msg False False k = Some (Returns (RT_EOK, None), sending t c msg False k)"
    "chan_at t (sending t c msg False k) fd c"
proof -
  show "bin_channel_send fd msg False False k = Some (Returns (RT_EOK, None), sending t c msg False k)"
    using bin_channel_send_start [OF c p, of msg False False] q by (simp add: send_loop_def send_end_def)
  have r: "fd_ready t k" using c by (simp add: chan_at_def)
  have "fd_ready t (sending t c msg False k)" "fd_is t (sending t c msg False k) fd n d = fd_is t k fd n d" for n d
    by (rule fd_ready_cong [OF r]; use chan_at_caller [OF c] in
        \<open>simp add: sending_def upd_msg_def caller_def object_defs upd_thr_def set_error_def th_stat_def\<close>)+
  moreover have "dfs_fds (sending t c msg False k) = dfs_fds k" by (simp add: sending_def upd_msg_def upd_thr_def)
  ultimately show "chan_at t (sending t c msg False k) fd c" using c by (simp add: chan_at_def)
qed

definition send_once :: "int \<Rightarrow> bin_channel_msg \<Rightarrow> 'a chan_sys_scheme \<Rightarrow> 'a chan_sys_scheme option" where
  "send_once fd msg k =
     (case bin_channel_send fd msg False False k of
        Some (Returns (e, _), k') \<Rightarrow> if e = RT_EOK then Some k' else None
      | _ \<Rightarrow> None)"

lemma send_many:
  "\<lbrakk>chan_at t k fd c; tlists k (SuspendQ c) = []; ipc_msg_pos k + n \<le> IPC_MSG_SIZE\<rbrakk> \<Longrightarrow>
   \<exists>k'. iter_opt (send_once fd msg) n k = Some k' \<and> chan_at t k' fd c \<and> ipc_msg_pos k' = ipc_msg_pos k + n"
proof (induction n arbitrary: k)
  case (Suc n)
  let ?k = "sending t c msg False k"
  have p: "ipc_msg_pos k < IPC_MSG_SIZE" using Suc.prems(3) by simp
  note s = send_unheard [OF Suc.prems(1,2) p, of msg]
  obtain k' where "iter_opt (send_once fd msg) n ?k = Some k'" "chan_at t k' fd c" "ipc_msg_pos k' = ipc_msg_pos ?k + n"
    using Suc.IH [OF s(2)] Suc.prems(2,3) by auto
  moreover have "send_once fd msg k = Some ?k" using s(1) by (simp add: send_once_def)
  ultimately show ?case by simp
qed simp

lemma messages_run_out:
  assumes c: "chan_at t k fd c" and q: "tlists k (SuspendQ c) = []" and p: "ipc_msg_pos k \<le> IPC_MSG_SIZE"
  shows "\<exists>k'. iter_opt (send_once fd msg) (IPC_MSG_SIZE - ipc_msg_pos k) k = Some k' \<and>
    bin_channel_send fd' msg' need_reply junk k' = Some (Returns (- RT_ENOMEM, None), k')"
proof -
  obtain k' where k': "iter_opt (send_once fd msg) (IPC_MSG_SIZE - ipc_msg_pos k) k = Some k'" "chan_at t k' fd c"
    "ipc_msg_pos k' = IPC_MSG_SIZE" using send_many [OF c q, of "IPC_MSG_SIZE - ipc_msg_pos k" msg] p by auto
  have "rt_interrupt_nest k' = 0" using chan_at_caller [OF k'(2)] by (simp add: caller_def)
  then show ?thesis using send_exhausted [of k' fd' msg' need_reply junk] k'(1,3) by simp
qed

end
