(* ===== verification/ChanOpen.thy ===== *)
theory ChanOpen
  imports ChanUse
begin

text \<open>
  The life of a channel: it is created when it is opened first, found again by its name, and
  deleted when its descriptor loses the last user.
\<close>

subsection \<open>Closing\<close>

definition channel_object :: "nat \<Rightarrow> 'a kernel_scheme \<Rightarrow> bool" where
  "channel_object c k \<longleftrightarrow> rt_object_get_type (Obj_ipc c) k = RT_Object_Class_Channel \<and> \<not> rt_object_is_systemobject (Obj_ipc c) k"

lemma bin_channel_close_shared:
  assumes r: "fd_ready t k" and i: "fd_is t k fd n d" and u: "1 < ref_count (dfs_fds k d)" and k: "kinv k"
  shows "\<exists>k'. bin_channel_close fd k = Some (Returns (RT_EOK, None), k') \<and> kinv k' \<and> fd_ready t k' \<and>
    fd_users t k' = (fd_users t k)(n := Some (ref_count (dfs_fds k d) - 1)) \<and> tlists k' = tlists k"
proof -
  obtain k1 where k1: "fd_get fd k = Some (Returns (Some d), k1)" "fd_put (Some d) k1 = Some (Returns (), cleared t k)"
    using get_put_entry [OF r i] by blast
  have c: "fd_ready t (cleared t k)" "fd_is t (cleared t k) fd n d" using r i by (simp_all add: fd_is_def)
  let ?k = "upd_fd d (\<lambda>f. f\<lparr>ref_count := ref_count f - 1\<rparr>) (cleared t (cleared t k))"
  have p: "fd_put (Some d) (cleared t k) = Some (Returns (), ?k)" "fd_ready t ?k"
    "fd_users t ?k = (fd_users t k)(n := Some (ref_count (dfs_fds k d) - 1))"
    using fd_put_counts [OF c] u by auto
  have "RT_DEBUG_NOT_IN_INTERRUPT k = Some ()"
    using r by (simp add: fd_ready_def caller_def RT_DEBUG_NOT_IN_INTERRUPT_def rt_interrupt_get_nest_def)
  then have "bin_channel_close fd k = Some (Returns (RT_EOK, None), ?k)"
    using k1 p(1) u by (simp add: bin_channel_close_def close_got_def close_put_def close_last_def)
  then show ?thesis using p(2,3) k by (intro exI [of _ ?k]) simp
qed

lemma bin_channel_close_last:
  assumes r: "fd_ready t k" and i: "fd_is t k fd n d" "fd_data (dfs_fds k d) = Some c" and u: "ref_count (dfs_fds k d) = 1"
    and k: "kinv k" and ob: "channel_object c k"
  shows "\<exists>k'. bin_channel_close fd k = Some (Returns (RT_EOK, None), k') \<and> kinv k' \<and> fd_ready t k' \<and>
    fd_users t k' = (fd_users t k)(n := None) \<and> tlists k' (SuspendQ c) = [] \<and>
    (\<forall>w \<in> set (tlists k (SuspendQ c)). runnable (state_of k' w) \<and> error (thr k' w) = - RT_ERROR) \<and>
    objects k' = (\<lambda>ty. remove1 (Obj_ipc c) (objects k ty))"
proof -
  obtain k1 where k1: "fd_get fd k = Some (Returns (Some d), k1)" "fd_put (Some d) k1 = Some (Returns (), cleared t k)"
    using get_put_entry [OF r i(1)] by blast
  have c: "fd_ready t (cleared t k)" "fd_is t (cleared t k) fd n d" using r i by (simp_all add: fd_is_def)
  have cal: "caller t k" using r by (simp add: fd_ready_def)
  let ?ts = "tlists k (SuspendQ c)"
  obtain k2 where k2: "rt_ipc_list_resume_all (SuspendQ c) (cleared t k) = Some (RT_EOK, k2)" "kinv k2"
    "rt_current_thread k2 = rt_current_thread (cleared t k)" "tlists k2 (SuspendQ c) = []"
    "wakes (SuspendQ c) (set ?ts) (cleared t k) k2"
    "\<forall>u. error (thr k2 u) = (if u \<in> set ?ts then - RT_ERROR else error (thr (cleared t k) u))"
    using rt_ipc_list_resume_all_kinv [of "cleared t k" "SuspendQ c" ?ts] k by auto
  have fr: "ipc_frame (cleared t k) k2" by (rule wakes_frame [OF k2(5)])
  let ?k3 = "rt_object_detach (Obj_ipc c) k2"
  have ob2: "rt_object_get_type (Obj_ipc c) (cleared t k) = RT_Object_Class_Channel"
    "\<not> rt_object_is_systemobject (Obj_ipc c) (cleared t k)"
    using ob by (simp_all add: channel_object_def object_defs)
  have "\<not> rt_object_is_systemobject (Obj_ipc c) k2"
    using ob2(2) ipc_frame_obj(3) [OF fr] by simp
  then have del: "rt_object_delete (Obj_ipc c) k2 = Some ?k3"
    by (simp add: rt_object_delete_def rt_object_is_systemobject_def)
  have ne: "c \<noteq> fslock" using r ob by (auto simp: fd_ready_def fs_free_def channel_object_def
    RT_Object_Class_Mutex_def RT_Object_Class_Channel_def)
  have m3: "kernel.more ?k3 = kernel.more (cleared t k)"
    using ipc_frame_obj(4) [OF fr] by (simp add: rt_object_detach_def container_remove_def upd_obj_def)
  have sel3: "thr ?k3 = thr k2" "tlists ?k3 = tlists k2" "rt_current_thread ?k3 = rt_current_thread k2"
    "rt_interrupt_nest ?k3 = rt_interrupt_nest k2" "objects ?k3 = (\<lambda>ty. remove1 (Obj_ipc c) (objects k2 ty))"
    by (simp_all add: rt_object_detach_def container_remove_def upd_obj_def)
  have nw: "t \<notin> set ?ts" using kinv_linked [OF k, of t "SuspendQ c"] cal by (auto simp: caller_def)
  have run: "state_of k2 t = RT_THREAD_RUNNING"
  proof -
    have "runnable (state_of k2 t)" using wakes_runnable [OF k2(5), of t] cal by (simp add: caller_def)
    moreover have "state_of k2 t \<noteq> RT_THREAD_READY" using kinv_current [OF k2(2)] k2(3) cal by (simp add: caller_def)
    ultimately show ?thesis by (simp add: runnable_def)
  qed
  have cal3: "caller t ?k3"
    using cal run sel3 k2(3) ipc_frame_obj(6) [OF fr] by (simp add: caller_def)
  have ty3: "rt_object_get_type (Obj_ipc fslock) ?k3 = rt_object_get_type (Obj_ipc fslock) (cleared t k)"
    using ne ipc_frame_obj(1) [OF fr, of "Obj_ipc fslock"]
    by (simp add: rt_object_detach_def container_remove_def upd_obj_def object_defs)
  have q3: "tlists ?k3 (SuspendQ fslock) = tlists (cleared t k) (SuspendQ fslock)"
    using ne wakes_other [OF k2(5), of "SuspendQ fslock"] sel3 by simp
  note r3 = fd_ready_cong [OF c(1) cal3 more_chan(6,7,8,10,9) [OF m3] ty3 q3]
  have is3: "fd_is t ?k3 fd n d" "ref_count (dfs_fds ?k3 d) = 1" using c(2) u more_chan(7) [OF m3] by (simp_all add: r3)
  obtain k4 where k4: "fd_put (Some d) ?k3 = Some (Returns (), k4)" "fd_ready t k4"
    "fd_users t k4 = (fd_users t ?k3)(n := None)"
    "k4 = set_fd_table (thread_lwp ?k3 t) ((own_table t ?k3)[n := None])
      (upd_fd d (\<lambda>f. f\<lparr>ref_count := ref_count f - 1\<rparr>) (cleared t ?k3))"
    using fd_put_counts [OF r3(1) is3(1)] is3(2) by (auto simp: Let_def)
  have "RT_DEBUG_NOT_IN_INTERRUPT k = Some ()"
    using cal by (simp add: caller_def RT_DEBUG_NOT_IN_INTERRUPT_def rt_interrupt_get_nest_def)
  then have "bin_channel_close fd k = Some (Returns (RT_EOK, None), k4)"
    using k1 u i(2) ob2 k2(1) del k4(1) by (simp add: bin_channel_close_def close_got_def close_put_def close_last_def)
  moreover have "kinv k4" using k2(2) by (simp add: k4(4))
  moreover have "fd_users t k4 = (fd_users t k)(n := None)" using k4(3) r3(2) by simp
  moreover have "runnable (state_of k4 w) \<and> error (thr k4 w) = - RT_ERROR" if w: "w \<in> set ?ts" for w
  proof -
    have "w \<noteq> t" using w nw by auto
    then show ?thesis using wakes_runnable [OF k2(5), of w] k2(6) w sel3 by (simp add: k4(4) set_error_other)
  qed
  moreover have "tlists k4 (SuspendQ c) = []" using k2(4) sel3 by (simp add: k4(4))
  moreover have "objects k4 = (\<lambda>ty. remove1 (Obj_ipc c) (objects k ty))"
    using sel3 fr by (simp add: k4(4) ipc_frame_def upd_thr_def)
  ultimately show ?thesis using k4(2) by blast
qed

subsection \<open>Opening\<close>

text \<open>The descriptor functions change nothing but descriptors.\<close>

definition fd_only :: "'a fd_sys_scheme \<Rightarrow> 'a fd_sys_scheme \<Rightarrow> bool" where
  "fd_only k k' \<longleftrightarrow> k' = k\<lparr>fd_tables := fd_tables k', dfs_fds := dfs_fds k'\<rparr>"

lemma fd_only_refl [simp]: "fd_only k k"
  by (simp add: fd_only_def)

lemma fd_only_upd [simp]: "fd_only k (upd_fd d f k)" "fd_only k (set_fd_table p t k)"
  by (simp_all add: fd_only_def upd_fd_def set_fd_table_def)

lemma fd_only_trans:
  assumes "fd_only a b" "fd_only b c"
  shows "fd_only a c"
proof -
  have b: "b = a\<lparr>fd_tables := fd_tables b, dfs_fds := dfs_fds b\<rparr>" using assms(1) by (simp add: fd_only_def)
  have "c = b\<lparr>fd_tables := fd_tables c, dfs_fds := dfs_fds c\<rparr>" using assms(2) by (simp add: fd_only_def)
  also have "\<dots> = a\<lparr>fd_tables := fd_tables c, dfs_fds := dfs_fds c\<rparr>" by (subst b) simp
  finally show ?thesis by (simp add: fd_only_def)
qed

lemma fd_only_upd_trans: "fd_only a b \<Longrightarrow> fd_only a (upd_fd d f b)"
  by (rule fd_only_trans [OF _ fd_only_upd(1)])

lemma fd_alloc_only: "fd_only k (snd (fd_alloc grow mem p s k))"
  by (auto simp: fd_alloc_def Let_def split: option.split intro: fd_only_upd_trans fd_only_trans [OF fd_only_upd(2) fd_only_upd(2)])

lemma fd_new_body_only: "fd_new_body grow mem p k = Some (v, k') \<Longrightarrow> fd_only k k'"
  using fd_alloc_only [of k grow mem p 0]
  by (auto simp: fd_new_body_def Let_def split: if_splits bind_splits prod.splits intro!: fd_only_upd_trans)

lemma fd_new_only:
  assumes "fs_free k" "caller t k" "fd_new grow mem k = Some (o', k')"
  shows "fd_only (cleared t k) k'"
  using fd_new_free [OF assms(1,2), of grow mem] assms(3) fd_new_body_only [of grow mem "thread_lwp k t" "cleared t k"]
  by (cases "fd_new_body grow mem (thread_lwp k t) (cleared t k)") auto

lemma fd_only_sel:
  fixes k k' :: "'a chan_sys_scheme"
  assumes "fd_only k k'"
  shows "kernel.truncate k' = kernel.truncate k" "channels k' = channels k" "mlists k' = mlists k" "msg_ret k' = msg_ret k"
    "ipc_msgs k' = ipc_msgs k" "ipc_msg_pos k' = ipc_msg_pos k" "thread_lwp k' = thread_lwp k" "mutexes k' = mutexes k"
    "std_console k' = std_console k" "kinv k' = kinv k" "tlists k' = tlists k" "objs k' = objs k" "objects k' = objects k"
    "thr k' = thr k"
proof -
  have e: "k' = k\<lparr>fd_tables := fd_tables k', dfs_fds := dfs_fds k'\<rparr>" using assms by (simp add: fd_only_def)
  show "kinv k' = kinv k" by (subst e, rule kinv_cong) simp_all
  show "kernel.truncate k' = kernel.truncate k" by (subst e) (simp add: kernel.truncate_def)
  show "channels k' = channels k" "mlists k' = mlists k" "msg_ret k' = msg_ret k" "ipc_msgs k' = ipc_msgs k"
    "ipc_msg_pos k' = ipc_msg_pos k" "thread_lwp k' = thread_lwp k" "mutexes k' = mutexes k"
    "std_console k' = std_console k" "tlists k' = tlists k" "objs k' = objs k" "objects k' = objects k" "thr k' = thr k"
    by (subst e, simp)+
qed

text \<open>The state in which \<open>bin_channel_open\<close> has a descriptor for the new object \<open>c\<close>.\<close>

definition new_channel :: "nat \<Rightarrow> string \<Rightarrow> 'a chan_sys_scheme \<Rightarrow> 'a chan_sys_scheme" where
  "new_channel c name k = upd_chan c (\<lambda>_. zero_channel) (container_insert RT_Object_Class_Channel (Obj_ipc c)
     (upd_obj (Obj_ipc c) (\<lambda>_. \<lparr>oname = take RT_NAME_MAX name, otype = RT_Object_Class_Channel, oflag = 0\<rparr>) k))"

lemma new_channel_sel [simp]:
  "thr (new_channel c name k) = thr k" "tlists (new_channel c name k) = tlists k"
  "rt_current_thread (new_channel c name k) = rt_current_thread k" "rt_interrupt_nest (new_channel c name k) = rt_interrupt_nest k"
  "fd_tables (new_channel c name k) = fd_tables k" "dfs_fds (new_channel c name k) = dfs_fds k"
  "thread_lwp (new_channel c name k) = thread_lwp k" "std_console (new_channel c name k) = std_console k"
  "mutexes (new_channel c name k) = mutexes k" "caller t (new_channel c name k) = caller t k"
  "objects (new_channel c name k) = (objects k)(RT_Object_Class_Channel := Obj_ipc c # objects k RT_Object_Class_Channel)"
  "channel_object c (new_channel c name k)"
  "n \<noteq> c \<Longrightarrow> rt_object_get_type (Obj_ipc n) (new_channel c name k) = rt_object_get_type (Obj_ipc n) k"
  by (simp_all add: new_channel_def upd_chan_def container_insert_def upd_obj_def caller_def channel_object_def object_defs
      RT_Object_Class_Channel_def RT_Object_Class_Static_def)

lemma new_channel_kinv: "kinv k \<Longrightarrow> kinv (new_channel c name k)"
  unfolding new_channel_def upd_chan_def kinv_chan
  by (rule objects_irrelevant_kinv) (auto simp: container_insert_def upd_obj_def)

lemma channel_init_sel [simp]:
  "thr (channel_init c flag k) = thr k" "rt_current_thread (channel_init c flag k) = rt_current_thread k"
  "rt_interrupt_nest (channel_init c flag k) = rt_interrupt_nest k"
  "fd_tables (channel_init c flag k) = fd_tables k" "dfs_fds (channel_init c flag k) = dfs_fds k"
  "thread_lwp (channel_init c flag k) = thread_lwp k" "std_console (channel_init c flag k) = std_console k"
  "mutexes (channel_init c flag k) = mutexes k" "objects (channel_init c flag k) = objects k"
  "caller t (channel_init c flag k) = caller t k"
  "tlists (channel_init c flag k) = (tlists k)(SuspendQ c := [], SenderQ c := [])"
  "rt_object_get_type r (channel_init c flag k) = rt_object_get_type r k"
  "channel_object n (channel_init c flag k) = channel_object n k"
  "idle_channel c (channel_init c flag k)" "ipc_flag c (channel_init c flag k) = flag"
  by (auto simp: channel_init_def Let_def rt_ipc_object_init_def upd_chan_def set_ipc_flag_def upd_obj_def caller_def
      object_defs channel_object_def idle_channel_def ipc_flag_def)

lemma channel_init_kinv: "kinv k \<Longrightarrow> kinv (channel_init c flag k)"
proof -
  assume k: "kinv k"
  have "kinv (k\<lparr>tlists := (tlists k)(SuspendQ c := [], SenderQ c := [])\<rparr>)"
    using kinv_lists [OF k] by (intro relist_kinv [OF k]) (auto simp: lists_ok_def split: if_splits)
  then have "kinv (set_ipc_flag c flag (k\<lparr>tlists := (tlists k)(SuspendQ c := [], SenderQ c := [])\<rparr>))" by simp
  then show ?thesis
    by (rule kinv_cong [THEN iffD1, rotated -1]) (simp_all add: channel_init_def Let_def rt_ipc_object_init_def upd_chan_def set_ipc_flag_def upd_obj_def fun_upd_twist)
qed

lemma bin_channel_open_new:
  assumes r: "fd_ready t k" and k: "kinv k" and name: "known_channel name k = Some None"
    and c: "c \<noteq> fslock" and mem: "\<And>q. Some d \<notin> set (fd_tables k q)"
    and idx: "\<And>j. j < idx \<Longrightarrow> fd_users t k j \<noteq> None" "fd_users t k idx = None" "idx < DFS_FD_MAX"
  shows "\<exists>k'. bin_channel_open name flag (Some c) True (Some d) k = Some (Returns (int idx + int DFS_FD_OFFSET, None), k') \<and>
    kinv k' \<and> fd_ready t k' \<and> fd_is t k' (int idx + int DFS_FD_OFFSET) idx d \<and> fd_data (dfs_fds k' d) = Some c \<and>
    ref_count (dfs_fds k' d) = 1 \<and> fd_users t k' = (fd_users t k)(idx := Some 1) \<and> channel_object c k' \<and> idle_channel c k' \<and>
    tlists k' (SuspendQ c) = [] \<and> ipc_flag c k' = flag \<and>
    objects k' = (objects k)(RT_Object_Class_Channel := Obj_ipc c # objects k RT_Object_Class_Channel)"
proof -
  let ?fd = "int idx + int DFS_FD_OFFSET"
  have cal: "caller t k" using r by (simp add: fd_ready_def)
  have ctx: "RT_DEBUG_NOT_IN_INTERRUPT k = Some ()"
    using cal by (simp add: caller_def RT_DEBUG_NOT_IN_INTERRUPT_def rt_interrupt_get_nest_def)
  have info: "rt_object_get_information RT_Object_Class_Channel k = Some (objects k RT_Object_Class_Channel)"
    by (simp add: rt_object_get_information_def object_classes_def RT_Object_Class_Channel_def)
  let ?k1 = "new_channel c name k"
  have k1: "kinv ?k1" "rt_object_allocate RT_Object_Class_Channel name (Some (Obj_ipc c)) k = Some (Some (Obj_ipc c),
      container_insert RT_Object_Class_Channel (Obj_ipc c) (upd_obj (Obj_ipc c)
        (\<lambda>_. \<lparr>oname = take RT_NAME_MAX name, otype = RT_Object_Class_Channel, oflag = 0\<rparr>) k))"
    using new_channel_kinv [OF k] ctx info by (simp_all add: rt_object_allocate_def clear_object_def)
  have r1: "fd_ready t ?k1" "fd_users t ?k1 = fd_users t k"
    by (rule fd_ready_cong [OF r]; use cal c in simp)+
  obtain k2 where k2: "fd_new True (Some d) ?k1 = Some (Returns ?fd, k2)" "fd_ready t k2"
    "fd_users t k2 = (fd_users t k)(idx := Some 1)" "own_table t k2 ! idx = Some d" "idx < maxfd (own_table t k2)"
    using fd_new_counts [of t ?k1 "Some d" idx True] r1 mem idx by auto
  have o2: "fd_only (cleared t ?k1) k2"
    using fd_new_only [OF _ _ k2(1), of t] r1(1) by (simp add: fd_ready_def)
  note s2 = fd_only_sel [OF o2]
  let ?k3 = "channel_init c flag k2"
  have r3: "fd_ready t ?k3" "fd_users t ?k3 = fd_users t k2" "own_table t ?k3 = own_table t k2"
    by (rule fd_ready_cong [OF k2(2)]; use k2(2) c in \<open>simp add: fd_ready_def\<close>)+
  have i3: "fd_is t ?k3 ?fd idx d"
    using k2(4,5) r3(3) by (simp add: fd_is_def fd_index_def DFS_FD_OFFSET_def)
  have u3: "ref_count (dfs_fds ?k3 d) = 1"
    using fun_cong [OF k2(3), of idx] k2(4,5) by (simp add: fd_users_def)
  let ?k4 = "upd_fd d (\<lambda>f. f\<lparr>ref_count := ref_count f + 1\<rparr>) (cleared t ?k3)"
  have k4: "fd_get ?fd ?k3 = Some (Returns (Some d), ?k4)" "fd_ready t ?k4" "fd_is t ?k4 ?fd idx d"
    "fd_users t ?k4 = (fd_users t ?k3)(idx := Some (ref_count (dfs_fds ?k3 d) + 1))"
    using fd_get_counts [OF r3(1) i3] by auto
  let ?g = "\<lambda>f. f\<lparr>fd_type := FT_USER, fd_path := None, fd_flags := O_RDWR, fd_size := 0,
            fd_pos := 0, fd_data := Some c, fd_fops := Some dfs_channel_file_ops\<rparr>"
  let ?k5 = "upd_fd d ?g ?k4"
  have i5: "fd_is t ?k5 ?fd idx d" using k4(3) by (simp add: fd_is_def)
  have r5: "fd_ready t ?k5" "fd_users t ?k5 = fd_users t ?k4"
  proof -
    have "fds_ok ?k5" by (rule fds_ok_users) (use k4(2) u3 in \<open>simp_all add: fd_ready_def\<close>)
    then show "fd_ready t ?k5" using k4(2) by (simp add: fd_ready_def)
    have "fd_users t ?k5 = (fd_users t ?k4)(idx := Some (ref_count (dfs_fds ?k4 d)))"
      using fd_users_upd [OF k4(2,3), of ?g] by simp
    then show "fd_users t ?k5 = fd_users t ?k4" using k4(4) by (simp add: fun_eq_iff)
  qed
  let ?k6 = "upd_fd d (\<lambda>f. f\<lparr>ref_count := ref_count f - 1\<rparr>) (cleared t ?k5)"
  have u5: "ref_count (dfs_fds ?k5 d) = 2" using u3 by simp
  have k6: "fd_put (Some d) ?k5 = Some (Returns (), ?k6)" "fd_ready t ?k6"
    "fd_users t ?k6 = (fd_users t ?k5)(idx := Some 1)"
    using fd_put_counts [OF r5(1) i5] u5 by (auto simp: Let_def)
  have "bin_channel_open name flag (Some c) True (Some d) k = Some (Returns (?fd, None), ?k6)"
    using ctx name k1(2) k2(1) k4(1) k6(1)
    by (simp add: bin_channel_open_def new_channel_def open_new_def open_got_def open_put_def)
  moreover have "fd_users t ?k6 = (fd_users t k)(idx := Some 1)"
    using k6(3) r5(2) k4(4) r3(2) k2(3) by (simp add: fun_eq_iff)
  moreover have "kinv ?k6" using channel_init_kinv [of k2 c flag] s2(10) k1(1) by simp
  moreover have "fd_is t ?k6 ?fd idx d" using i5 by (simp add: fd_is_def)
  moreover have "channel_object c ?k6" "ipc_flag c ?k6 = flag" "idle_channel c ?k6"
  proof -
    have "channel_object c (new_channel c name k)" by simp
    then have "channel_object c k2" using s2(12) by (simp add: channel_object_def object_defs)
    then have "channel_object c ?k3" by simp
    then show "channel_object c ?k6" by (simp add: channel_object_def object_defs)
    have "ipc_flag c ?k3 = flag" "idle_channel c ?k3" by simp_all
    then show "ipc_flag c ?k6 = flag" by (simp add: ipc_flag_def)
    show "idle_channel c ?k6" using \<open>idle_channel c ?k3\<close> by (simp add: idle_channel_def upd_fd_def)
  qed
  moreover have "objects ?k6 = (objects k)(RT_Object_Class_Channel := Obj_ipc c # objects k RT_Object_Class_Channel)"
    using s2(13) by (simp add: upd_thr_def)
  ultimately show ?thesis using k6(2) u5 by (intro exI [of _ ?k6]) simp
qed

text \<open>
  A name that no channel has is not known; neither is a channel that others opened to a caller
  whose own table, without gaps, has no descriptor of it.
\<close>

lemma known_channel_cases:
  assumes c: "caller t k"
  shows "find_by_name (objs k) name (objects k RT_Object_Class_Channel) = None \<Longrightarrow> known_channel name k = Some None"
    "find_by_name (objs k) name (objects k RT_Object_Class_Channel) = Some (Obj_ipc n) \<Longrightarrow>
     known_channel name k = find_channel (dfs_fds k) n (own_table t k) 0"
  using c by (simp_all add: known_channel_def rt_object_get_information_def object_classes_def RT_Object_Class_Channel_def own_table_def)

lemma find_channel_none:
  "(\<And>e. e \<in> set es \<Longrightarrow> \<exists>d. e = Some d \<and> fd_data (h d) \<noteq> Some n) \<Longrightarrow> find_channel h n es i = Some None"
  by (induction h n es i rule: find_channel.induct) auto

lemma find_channel_some:
  "\<lbrakk>j < length es; es ! j = Some d; fd_data (h d) = Some n;
    \<And>i. i < j \<Longrightarrow> \<exists>e. es ! i = Some e \<and> fd_data (h e) \<noteq> Some n\<rbrakk> \<Longrightarrow>
   find_channel h n es i = Some (Some (i + j, d))"
proof (induction es arbitrary: i j)
  case (Cons e es)
  show ?case
  proof (cases j)
    case 0
    then show ?thesis using Cons.prems by simp
  next
    case (Suc m)
    obtain x where x: "e = Some x" "fd_data (h x) \<noteq> Some n" using Cons.prems(4) [of 0] Suc by auto
    have "find_channel h n es (Suc i) = Some (Some (Suc i + m, d))"
    proof (rule Cons.IH)
      show "\<exists>e. es ! l = Some e \<and> fd_data (h e) \<noteq> Some n" if "l < m" for l
        using Cons.prems(4) [of "Suc l"] that Suc by simp
    qed (use Cons.prems(1-3) Suc in simp_all)
    then show ?thesis using x Suc by simp
  qed
qed simp

lemma bin_channel_open_known:
  assumes r: "fd_ready t k" and k: "kinv k"
    and name: "find_by_name (objs k) name (objects k RT_Object_Class_Channel) = Some (Obj_ipc c)"
    and i: "fd_is t k (int n + int DFS_FD_OFFSET) n d" "fd_data (dfs_fds k d) = Some c"
    and first: "\<And>j. j < n \<Longrightarrow> \<exists>e. own_table t k ! j = Some e \<and> fd_data (dfs_fds k e) \<noteq> Some c"
  shows "\<exists>k'. bin_channel_open name flag malloc grow mem k = Some (Returns (int n + int DFS_FD_OFFSET, None), k') \<and>
    kinv k' \<and> fd_ready t k' \<and> fd_users t k' = (fd_users t k)(n := Some (ref_count (dfs_fds k d) + 1))"
proof -
  let ?k = "upd_fd d (\<lambda>f. f\<lparr>ref_count := ref_count f + 1\<rparr>) k"
  have cal: "caller t k" using r by (simp add: fd_ready_def)
  have "find_channel (dfs_fds k) c (own_table t k) 0 = Some (Some (0 + n, d))"
    by (rule find_channel_some) (use i first in \<open>simp_all add: fd_is_def\<close>)
  then have "known_channel name k = Some (Some (n, d))" using known_channel_cases(2) [OF cal name] by simp
  moreover have "RT_DEBUG_NOT_IN_INTERRUPT k = Some ()"
    using cal by (simp add: caller_def RT_DEBUG_NOT_IN_INTERRUPT_def rt_interrupt_get_nest_def)
  ultimately have "bin_channel_open name flag malloc grow mem k = Some (Returns (int n + int DFS_FD_OFFSET, None), ?k)"
    by (simp add: bin_channel_open_def)
  moreover have "fds_ok ?k"
    by (rule fds_ok_users) (use r fd_is_used [OF r i(1)] in \<open>simp_all add: fd_ready_def\<close>)
  ultimately show ?thesis using r k fd_users_upd [OF r i(1)] by (intro exI [of _ ?k]) (simp add: fd_ready_def)
qed

text \<open>Opening a new channel and closing it again leaves the table and the containers as they were.\<close>

lemma open_then_close:
  assumes r: "fd_ready t k" and k: "kinv k" and name: "known_channel name k = Some None"
    and c: "c \<noteq> fslock" "\<And>ty. Obj_ipc c \<notin> set (objects k ty)" and mem: "\<And>q. Some d \<notin> set (fd_tables k q)"
    and idx: "\<And>j. j < idx \<Longrightarrow> fd_users t k j \<noteq> None" "fd_users t k idx = None" "idx < DFS_FD_MAX"
  shows "\<exists>fd k1 k2. bin_channel_open name flag (Some c) True (Some d) k = Some (Returns (fd, None), k1) \<and> 0 \<le> fd \<and>
    chan_at t k1 fd c \<and> idle_channel c k1 \<and>
    bin_channel_close fd k1 = Some (Returns (RT_EOK, None), k2) \<and> kinv k2 \<and> fd_ready t k2 \<and>
    fd_users t k2 = fd_users t k \<and> objects k2 = objects k"
proof -
  let ?fd = "int idx + int DFS_FD_OFFSET"
  obtain k1 where k1: "bin_channel_open name flag (Some c) True (Some d) k = Some (Returns (?fd, None), k1)"
    "kinv k1" "fd_ready t k1" "fd_is t k1 ?fd idx d" "fd_data (dfs_fds k1 d) = Some c" "ref_count (dfs_fds k1 d) = 1"
    "fd_users t k1 = (fd_users t k)(idx := Some 1)" "channel_object c k1" "idle_channel c k1"
    "objects k1 = (objects k)(RT_Object_Class_Channel := Obj_ipc c # objects k RT_Object_Class_Channel)"
    using bin_channel_open_new [OF r k name c(1) mem idx, of flag] by blast
  obtain k2 where k2: "bin_channel_close ?fd k1 = Some (Returns (RT_EOK, None), k2)" "kinv k2" "fd_ready t k2"
    "fd_users t k2 = (fd_users t k1)(idx := None)" "objects k2 = (\<lambda>ty. remove1 (Obj_ipc c) (objects k1 ty))"
    using bin_channel_close_last [OF k1(3-6,2,8)] by blast
  have "objects k2 = objects k" using c(2) by (simp add: k2(5) k1(10) fun_eq_iff remove1_idem)
  moreover have "fd_users t k2 = fd_users t k" using idx(2) by (simp add: k2(4) k1(7) fun_eq_iff)
  moreover have "chan_at t k1 ?fd c" using k1(3-5) unfolding chan_at_def by blast
  ultimately show ?thesis using k1(1,9) k2(1-3) by (intro exI [of _ ?fd] exI [of _ k1] exI [of _ k2]) simp
qed

end
