(* ===== verification/DemoChan.thy ===== *)
theory DemoChan
  imports Demo ChanOpen
begin

text \<open>
  The small system with a channel: thread 4 waits for a message of channel 1, which thread 2 has
  open as descriptor 3. In \<open>demo_asked\<close> thread 4 runs and owes a reply to thread 2, which is
  suspended.
\<close>

definition demo_chan_object :: "obj_ref \<Rightarrow> rt_object" where
  "demo_chan_object = demo_object(Obj_ipc 1 := \<lparr>oname = ''ch'', otype = RT_Object_Class_Channel, oflag = 0\<rparr>,
     Obj_ipc fslock := \<lparr>oname = ''fslock'', otype = RT_Object_Class_Mutex OR RT_Object_Class_Static, oflag = 0\<rparr>)"

definition demo_chan_objects :: "u8 \<Rightarrow> obj_ref list" where
  "demo_chan_objects = demo_objects(RT_Object_Class_Channel := [Obj_ipc 1], RT_Object_Class_Semaphore := [])"

definition demo_fd :: dfs_fd where
  "demo_fd = zero_fd\<lparr>fd_magic := DFS_FD_MAGIC, ref_count := 1, fd_data := Some 1\<rparr>"

definition demo_fds :: fd_sys where
  "demo_fds = ipc.extend (demo\<lparr>objs := demo_chan_object, objects := demo_chan_objects\<rparr>)
     (fd_sys.fields (- 1) (\<lambda>_. None) (\<lambda>p. if p = None then [Some 0x500, None] else []) (\<lambda>_. demo_fd))"

definition demo_chan :: chan_sys where
  "demo_chan = fd_sys.extend demo_fds (chan_sys.fields
     (\<lambda>_. \<lparr>ch_value = 1, ch_original_priority = 0xFF, ch_hold = 0, ch_ref = 1, ch_reply = None, ch_reader_flag = 0\<rparr>)
     (\<lambda>_. \<lparr>sender = None, msg_type = 0, msg_u = (0, 0)\<rparr>) 0 (\<lambda>_. []) (\<lambda>_. None))"

lemma demo_chan_sel [simp]:
  "thr demo_chan = demo_thread" "tlists demo_chan = demo_lists" "rt_current_thread demo_chan = Some 2"
  "rt_interrupt_nest demo_chan = 0" "objs demo_chan = demo_chan_object" "objects demo_chan = demo_chan_objects"
  "rt_timer_list demo_chan = rt_timer_list demo" "timers demo_chan = timers demo"
  "rt_thread_ready_priority_group demo_chan = rt_thread_ready_priority_group demo"
  "mutexes demo_chan = mutexes demo" "std_console demo_chan = - 1" "thread_lwp demo_chan t = None"
  "fd_tables demo_chan p = (if p = None then [Some 0x500, None] else [])" "dfs_fds demo_chan d = demo_fd"
  "channels demo_chan c = \<lparr>ch_value = 1, ch_original_priority = 0xFF, ch_hold = 0, ch_ref = 1, ch_reply = None, ch_reader_flag = 0\<rparr>"
  "ipc_msg_pos demo_chan = 0" "mlists demo_chan = (\<lambda>_. [])" "msg_ret demo_chan t = None"
  by (simp_all add: demo_chan_def demo_fds_def ipc.defs fd_sys.defs chan_sys.defs flip: demo_sel)

lemma kinv_demo_chan: "kinv demo_chan"
  by (rule objects_irrelevant_kinv [OF kinv_demo]) (simp_all add: demo_chan_objects_def demo_objects_def demo_chan_object_def
      RT_Object_Class_Semaphore_def RT_Object_Class_Thread_def RT_Object_Class_Timer_def RT_Object_Class_Channel_def)

lemma demo_chan_caller: "caller 2 demo_chan"
  using demo_state [of 2] by (simp add: caller_def)

lemma demo_chan_ready: "fd_ready 2 demo_chan" "fd_is 2 demo_chan 3 0 0x500"
proof -
  have "fds_ok demo_chan"
    by (rule fds_okI) (auto simp: DFS_FD_MAX_def demo_fd_def less_Suc_eq nth_Cons' split: if_splits)
  moreover have "fs_free demo_chan"
    by (simp add: fs_free_def demo_lists_def demo_chan_object_def object_defs fslock_def)
      (simp add: demo_def RT_Object_Class_Mutex_def RT_Object_Class_Static_def)
  ultimately show "fd_ready 2 demo_chan" using demo_chan_caller by (simp add: fd_ready_def)
  show "fd_is 2 demo_chan 3 0 0x500" by (simp add: fd_is_def own_table_def fd_index_def DFS_FD_OFFSET_def)
qed

lemma demo_chan_at: "chan_at 2 demo_chan 3 1"
  using demo_chan_ready unfolding chan_at_def by (intro conjI exI [of _ 0] exI [of _ "0x500"]) (simp_all add: demo_fd_def)

text \<open>Thread 3 waits for the reply of thread 2, which runs.\<close>

definition demo_asked :: chan_sys where
  "demo_asked = upd_msg 5 (\<lambda>x. x\<lparr>sender := Some 2\<rparr>) (upd_chan 1 (\<lambda>ch. ch\<lparr>ch_reply := Some 3\<rparr>)
     (demo_chan\<lparr>mlists := (\<lambda>l. if l = Waiting_list 1 then [5] else [])\<rparr>))"

lemma demo_asked_at: "chan_at 2 demo_asked 3 1"
proof -
  have "fd_ready 2 demo_asked" "fd_is 2 demo_asked 3 0 0x500"
    using fd_ready_cong [OF demo_chan_ready(1), of demo_asked] demo_chan_ready(2) demo_chan_caller
    by (simp_all add: demo_asked_def upd_msg_def upd_chan_def caller_def object_defs)
  then show ?thesis unfolding chan_at_def
    by (intro conjI exI [of _ 0] exI [of _ "0x500"]) (simp_all add: demo_asked_def upd_msg_def upd_chan_def demo_fd_def)
qed

lemma demo_asked_awaiting: "awaiting 3 1 {2} [] demo_asked"
  unfolding awaiting_def by (intro conjI exI [of _ "[5]"] exI [of _ "[2]"])
    (simp_all add: demo_asked_def upd_msg_def upd_chan_def)

lemma demo_asked_accounted: "accounted 3 1 {2} [] demo_asked"
proof -
  have "kinv demo_asked" using kinv_demo_chan by (simp add: demo_asked_def upd_msg_def upd_chan_def)
  moreover have "live (state_of demo_asked 3)"
    using demo_live [of 3] by (simp add: demo_asked_def upd_msg_def upd_chan_def)
  ultimately show ?thesis using demo_asked_awaiting by (auto simp: accounted_def)
qed

lemma demo_thread_3_runs:
  "\<exists>y. kinv (y :: ipc) \<and> rt_current_thread y = Some 3 \<and> state_of y 3 = RT_THREAD_RUNNING \<and> rt_interrupt_nest y = 0"
proof -
  obtain y where y: "rt_schedule demo_yield = Some y" "rt_current_thread y = Some 3"
    using rt_schedule_round_robin [OF kinv_demo_yield demo_yield_facts(1-4), of 3 "[]"] demo_yield_facts(5-7) by auto
  obtain y' where k: "rt_schedule demo_yield = Some y'" "kinv y'" "sched_frame demo_yield y'"
    using rt_schedule_kinv [OF kinv_demo_yield demo_yield_facts(1)] by blast
  have "state_of y 3 = RT_THREAD_RUNNING"
    using rt_schedule_highest [OF kinv_demo_yield demo_yield_facts(1,4) _ y(1)] demo_yield_facts(2) y(2) by auto
  moreover have "rt_interrupt_nest y = 0" using k y(1) by (simp add: sched_frame_def demo_yield_def upd_thr_def)
  ultimately show ?thesis using y k by auto
qed

lemma demo_replied: "\<exists>k. session 3 1 demo_asked [2] k \<and> caller 3 k"
proof -
  let ?msg = "\<lparr>sender = None, msg_type = 0, msg_u = (1, 0)\<rparr>"
  have cal: "caller 2 (cleared 2 demo_asked)" using chan_at_caller [OF demo_asked_at] by simp
  have a: "kinv (cleared 2 demo_asked)" "awaiting 3 1 {2} [] (cleared 2 demo_asked)" "live (state_of (cleared 2 demo_asked) 3)"
    using demo_asked_accounted demo_asked_awaiting by (auto simp: accounted_def)
  obtain m k1 where k1: "reply_go ?msg 1 (cleared 2 demo_asked) = Some (Returns (RT_EOK, None), k1)" "kinv k1"
    using reply_go_awaited [OF a(1,2) cal _ a(3), of ?msg] by auto
  have "session 3 1 demo_asked [2] k1"
    using session.reply [OF session.start demo_asked_at, of ?msg RT_EOK None k1 3] k1(1) bin_channel_reply_free [OF demo_asked_at, of ?msg] by simp
  moreover obtain y :: ipc where y: "kinv y" "rt_current_thread y = Some 3" "state_of y 3 = RT_THREAD_RUNNING" "rt_interrupt_nest y = 0"
    using demo_thread_3_runs by blast
  define k2 where "k2 = kernel.extend (kernel.truncate y) (kernel.more k1)"
  have sel: "thr k2 = thr y" "tlists k2 = tlists y" "rt_current_thread k2 = rt_current_thread y" "objs k2 = objs y"
    "objects k2 = objects y" "rt_thread_ready_priority_group k2 = rt_thread_ready_priority_group y"
    "rt_timer_list k2 = rt_timer_list y" "timers k2 = timers y" "rt_interrupt_nest k2 = rt_interrupt_nest y"
    "kernel.more k2 = kernel.more k1"
    by (simp_all add: k2_def kernel.defs)
  have "kinv k2 = kinv y" by (rule kinv_cong) (simp_all add: sel)
  moreover have "same_channel 1 k1 k2" using more_chan [OF sel(10)] by (simp add: same_channel_def)
  ultimately have "session 3 1 demo_asked [2] k2"
    using y by (intro session.other [of 3 1 demo_asked "[2]" k1 k2]) (simp_all add: sel)
  moreover have "caller 3 k2" using y by (simp add: caller_def sel)
  ultimately show ?thesis by blast
qed

text \<open>The channel with nobody waiting, and what a new channel needs.\<close>

definition demo_quiet :: chan_sys where
  "demo_quiet = demo_chan\<lparr>tlists := demo_lists(SuspendQ 1 := [])\<rparr>"

lemma demo_quiet_at: "chan_at 2 demo_quiet 3 1"
proof -
  have "fd_ready 2 demo_quiet" "fd_is 2 demo_quiet 3 0 0x500"
    using fd_ready_cong [OF demo_chan_ready(1), of demo_quiet] demo_chan_ready(2) demo_chan_caller
    by (simp_all add: demo_quiet_def caller_def object_defs fslock_def)
  then show ?thesis unfolding chan_at_def
    by (intro conjI exI [of _ 0] exI [of _ "0x500"]) (simp_all add: demo_quiet_def demo_fd_def)
qed

lemma demo_chan_unknown: "known_channel ''new'' demo_chan = Some None"
  using known_channel_cases(1) [OF demo_chan_caller, of "''new''"]
  by (simp add: demo_chan_objects_def demo_chan_object_def name_matches_def RT_NAME_MAX_def fslock_def)

lemma demo_chan_fresh: "Obj_ipc 7 \<notin> set (objects demo_chan ty)" "Some 0x700 \<notin> set (fd_tables demo_chan q)"
proof -
  have "unat ty - 1 \<noteq> 7" if "ty \<in> {2, 3, 4, 5, 6}" using that by auto
  then show "Obj_ipc 7 \<notin> set (objects demo_chan ty)" by (auto simp: demo_chan_objects_def demo_objects_def)
qed simp

end
