(* ===== verification/DfsPath.thy ===== *)
theory DfsPath
  imports Prelude "HOL-Library.Sublist"
begin

text \<open>
  Path names of the virtual file system (\<^verbatim>\<open>components/dfs/src/dfs.c\<close>): \<open>dfs_normalize_path\<close> rewrites
  a path in place, in a buffer on the heap, and \<open>dfs_subdir\<close> finds what follows a directory. The
  buffer is a list of characters with the final null character; a read or a write outside of it is
  \<open>None\<close>. The loops follow the two pointers of the code, \<open>src\<close> and \<open>dst\<close>, as indices. What the
  code computes is stated on the components of the path, with a stack of names.
\<close>

subsection \<open>The buffer\<close>

abbreviation NUL :: char where "NUL \<equiv> CHR 0x00"
abbreviation slash :: char where "slash \<equiv> CHR ''/''"
abbreviation dot :: char where "dot \<equiv> CHR ''.''"

definition rd :: "char list \<Rightarrow> nat \<Rightarrow> char option" where
  "rd b i = (if i < length b then Some (b ! i) else None)"

definition wr :: "char list \<Rightarrow> nat \<Rightarrow> char \<Rightarrow> char list option" where
  "wr b i c = (if i < length b then Some (b[i := c]) else None)"

text \<open>\<open>while (*src == '/') src++\<close>.\<close>

partial_function (option) skip_slashes :: "char list \<Rightarrow> nat \<Rightarrow> nat option" where
  "skip_slashes b src = do {
     c \<leftarrow> rd b src;
     if c = slash then skip_slashes b (Suc src) else Some src }"

text \<open>\<open>while ((c = *src++) != '\0' \<and> c != '/') *dst++ = c\<close>; the character it stops at comes first.\<close>

partial_function (option) copy_name :: "char list \<Rightarrow> nat \<Rightarrow> nat \<Rightarrow> (char \<times> char list \<times> nat \<times> nat) option" where
  "copy_name b src dst = do {
     c \<leftarrow> rd b src;
     if c \<noteq> NUL \<and> c \<noteq> slash then do {
       b \<leftarrow> wr b dst c;
       copy_name b (Suc src) (Suc dst) }
     else Some (c, b, Suc src, dst) }"

text \<open>\<open>while (dst0 < dst \<and> dst[-1] != '/') dst--\<close>.\<close>

fun back_to_slash :: "char list \<Rightarrow> nat \<Rightarrow> nat" where
  "back_to_slash b 0 = 0"
| "back_to_slash b (Suc dst) = (if b ! dst \<noteq> slash then back_to_slash b dst else Suc dst)"

text \<open>What the dots at \<open>src\<close> ask for: copy from an index on, go on at one, or one up and go on.\<close>

datatype dots = Copy nat | Again nat | Up_one nat

definition look_at_dots :: "char list \<Rightarrow> nat \<Rightarrow> dots option" where
  "look_at_dots b src = do {
     c \<leftarrow> rd b src;
     if c \<noteq> dot then Some (Copy src)
     else do {
       c1 \<leftarrow> rd b (src + 1);
       if c1 = NUL then Some (Copy (src + 1))
       else if c1 = slash then do { s \<leftarrow> skip_slashes b (src + 2); Some (Again s) }
       else if c1 = dot then do {
         c2 \<leftarrow> rd b (src + 2);
         if c2 = NUL then Some (Up_one (src + 2))
         else if c2 = slash then do { s \<leftarrow> skip_slashes b (src + 3); Some (Up_one s) }
         else Some (Copy src) }
       else Some (Copy src) } }"

text \<open>The main loop. Its result is \<open>None\<close> inside when the path leads above its start.\<close>

partial_function (option) normalize_loop :: "char list \<Rightarrow> nat \<Rightarrow> nat \<Rightarrow> (char list \<times> nat) option option" where
  "normalize_loop b src dst = do {
     d \<leftarrow> look_at_dots b src;
     case d of
       Copy src \<Rightarrow> do {
         (c, b, src, dst) \<leftarrow> copy_name b src dst;
         if c = slash then do {
           b \<leftarrow> wr b dst slash;
           src \<leftarrow> skip_slashes b src;
           normalize_loop b src (Suc dst) }
         else Some (Some (b, dst)) }
     | Again src \<Rightarrow> normalize_loop b src dst
     | Up_one src \<Rightarrow>
         if dst = 0 then Some None
         else normalize_loop b src (back_to_slash b (dst - 1)) }"

text \<open>
  After the loop \<open>dst\<close> is one back; at the start of the buffer that is the byte in front of it,
  \<open>before\<close>, which belongs to somebody else.
\<close>

definition normalize_end :: "char \<Rightarrow> char list \<Rightarrow> nat \<Rightarrow> (char \<times> char list) option" where
  "normalize_end before b dst = do {
     b \<leftarrow> wr b dst NUL;
     (before, b) \<leftarrow>
       (if dst = 0 then Some (if before = slash then NUL else before, b)
        else do {
          c \<leftarrow> rd b (dst - 1);
          if dst - 1 \<noteq> 0 \<and> c = slash then do { b \<leftarrow> wr b (dst - 1) NUL; Some (before, b) }
          else Some (before, b) });
     c \<leftarrow> rd b 0;
     if c = NUL then do {
       b \<leftarrow> wr b 0 slash;
       b \<leftarrow> wr b 1 NUL;
       Some (before, b) }
     else Some (before, b) }"

text \<open>
  \<open>rt_snprintf\<close> writes directory, slash and name into a buffer of just this size, \<open>rt_strdup\<close> copies
  the name. \<open>mem\<close>: there is memory for the buffer. The result is the byte before and the buffer, if
  there is one.
\<close>

definition full_path :: "string \<Rightarrow> string option \<Rightarrow> string \<Rightarrow> char list" where
  "full_path working_directory directory filename =
     (let directory = (case directory of None \<Rightarrow> working_directory | Some d \<Rightarrow> d)
      in if filename = [] \<or> hd filename \<noteq> slash then directory @ [slash] @ filename @ [NUL] else filename @ [NUL])"

definition dfs_normalize_path ::
  "bool \<Rightarrow> char \<Rightarrow> string \<Rightarrow> string option \<Rightarrow> string \<Rightarrow> (char \<times> char list option) option" where
  "dfs_normalize_path mem before working_directory directory filename =
     (if \<not> mem then Some (before, None)
      else do {
        r \<leftarrow> normalize_loop (full_path working_directory directory filename) 0 0;
        case r of
          None \<Rightarrow> Some (before, None)
        | Some (b, dst) \<Rightarrow> do {
            (before, b) \<leftarrow> normalize_end before b dst;
            Some (before, Some b) } })"

text \<open>The string in a buffer.\<close>

definition c_string :: "char list \<Rightarrow> string" where
  "c_string b = takeWhile (\<lambda>c. c \<noteq> NUL) b"

text \<open>Only a directory no longer than the name can be asked about; the result may be a null pointer.\<close>

definition dfs_subdir :: "string \<Rightarrow> string \<Rightarrow> string option option" where
  "dfs_subdir directory filename =
     (if length directory = length filename then Some None
      else do {
        let dir = length directory;
        c \<leftarrow> rd (filename @ [NUL]) dir;
        Some (Some (drop (if c \<noteq> slash \<and> dir \<noteq> 0 then dir - 1 else dir) filename)) })"

subsection \<open>What is computed\<close>

fun split_path :: "string \<Rightarrow> string list" where
  "split_path [] = [[]]"
| "split_path (c # cs) =
     (if c = slash then [] # split_path cs
      else case split_path cs of [] \<Rightarrow> [[c]] | s # ss \<Rightarrow> (c # s) # ss)"

fun join_path :: "string list \<Rightarrow> string" where
  "join_path [] = []"
| "join_path [s] = s"
| "join_path (s # ss) = s @ slash # join_path ss"

text \<open>The names of the path in their order, on a stack; the root is the empty name at its bottom.\<close>

fun walk :: "string list \<Rightarrow> string list \<Rightarrow> string list option" where
  "walk st [] = Some st"
| "walk st (s # ss) =
     (if s = [] \<or> s = [dot] then walk st ss
      else if s = [dot, dot] then (case st of [] \<Rightarrow> None | _ # st \<Rightarrow> walk st ss)
      else walk (s # st) ss)"

definition resolve :: "string \<Rightarrow> string list option" where
  "resolve p = (case split_path p of [] # s # ss \<Rightarrow> walk [[]] (s # ss) | ss \<Rightarrow> walk [] ss)"

definition show_path :: "string list \<Rightarrow> string" where
  "show_path st = (let p = join_path (rev st) in if p = [] then [slash] else p)"

subsection \<open>Lemmas on names\<close>

definition name_ok :: "string \<Rightarrow> bool" where
  "name_ok s \<longleftrightarrow> slash \<notin> set s \<and> NUL \<notin> set s"

lemma name_ok_simps [simp]: "name_ok []" "name_ok (c # s) \<longleftrightarrow> c \<noteq> slash \<and> c \<noteq> NUL \<and> name_ok s"
  by (auto simp: name_ok_def)

lemma split_path_ne [simp]: "split_path p \<noteq> []"
  by (induction p) (auto split: list.splits)

lemma join_Cons: "ss \<noteq> [] \<Longrightarrow> join_path (s # ss) = s @ slash # join_path ss"
  by (cases ss) auto

lemma join_split: "join_path (split_path p) = p"
proof (induction p)
  case (Cons c cs)
  show ?case
  proof (cases "c = slash")
    case True
    then show ?thesis using Cons by (simp add: join_Cons)
  next
    case False
    obtain s ss where s: "split_path cs = s # ss" by (cases "split_path cs") auto
    then show ?thesis using Cons False by (cases ss) auto
  qed
qed simp

lemma split_names: "NUL \<notin> set p \<Longrightarrow> \<forall>s \<in> set (split_path p). name_ok s"
proof (induction p)
  case (Cons c cs)
  then show ?case by (cases "split_path cs") auto
qed simp

text \<open>The names from the first that is not empty on; the last one stays.\<close>

fun trim :: "string list \<Rightarrow> string list" where
  "trim [] = []"
| "trim [s] = [s]"
| "trim (s # t # ss) = (if s = [] then trim (t # ss) else s # t # ss)"

lemma trim_ne [simp]: "trim ss = [] \<longleftrightarrow> ss = []"
  by (induction ss rule: trim.induct) auto

lemma trim_set: "set (trim ss) \<subseteq> set ss"
  by (induction ss rule: trim.induct) auto

lemma trim_length: "length (trim ss) \<le> length ss"
  by (induction ss rule: trim.induct) auto

lemma walk_trim: "walk st (trim ss) = walk st ss"
  by (induction ss rule: trim.induct) auto

definition head_ok :: "string list \<Rightarrow> bool" where
  "head_ok ss \<longleftrightarrow> ss \<noteq> [] \<and> (hd ss = [] \<longrightarrow> ss = [[]])"

lemma trim_head: "ss \<noteq> [] \<Longrightarrow> head_ok (trim ss)"
  by (induction ss rule: trim.induct) (auto simp: head_ok_def)

subsection \<open>The loops\<close>

lemma rd_drop: "drop i b = c # r \<Longrightarrow> rd b i = Some c"
proof -
  assume d: "drop i b = c # r"
  then have i: "i < length b" by (cases "i < length b") auto
  then have "b ! i = c" using hd_drop_conv_nth [OF i] d by simp
  then show ?thesis using i by (simp add: rd_def)
qed

lemma drop_next: "drop i b = c # r \<Longrightarrow> drop (Suc i) b = r"
  by (metis drop_Suc list.sel(3) tl_drop)

lemma skip_slashes_names:
  "\<lbrakk>ss \<noteq> []; \<forall>s \<in> set ss. name_ok s; drop src b = join_path ss @ [NUL]\<rbrakk> \<Longrightarrow>
   \<exists>src'. skip_slashes b src = Some src' \<and> src \<le> src' \<and> drop src' b = join_path (trim ss) @ [NUL]"
proof (induction ss arbitrary: src rule: trim.induct)
  case (2 v)
  then show ?case
  proof (cases v)
    case Nil
    then have d: "drop src b = NUL # []" using 2 by simp
    then show ?thesis using rd_drop [OF d] 2 by (subst skip_slashes.simps) simp
  next
    case (Cons c s)
    then have d: "drop src b = c # (s @ [NUL])" "c \<noteq> slash" using 2 by simp_all
    then show ?thesis using rd_drop [OF d(1)] 2 by (subst skip_slashes.simps) simp
  qed
next
  case (3 s t ss)
  show ?case
  proof (cases "s = []")
    case True
    then have d: "drop src b = slash # join_path (t # ss) @ [NUL]" using 3(4) by simp
    obtain src' where "skip_slashes b (Suc src) = Some src'" "Suc src \<le> src'" "drop src' b = join_path (trim (t # ss)) @ [NUL]"
      using 3(1) [OF True _ _ drop_next [OF d]] 3(3) by auto
    then show ?thesis using True rd_drop [OF d] by (subst skip_slashes.simps) simp
  next
    case False
    then obtain c s' where s: "s = c # s'" by (cases s) auto
    then have d: "drop src b = c # (s' @ slash # join_path (t # ss) @ [NUL])" using 3(4) by simp
    have "c \<noteq> slash" using 3(3) s by simp
    then show ?thesis using rd_drop [OF d] False 3(4) by (subst skip_slashes.simps) simp
  qed
qed simp

lemma copy_name_names:
  "\<lbrakk>name_ok s; c = NUL \<or> c = slash; drop src b = s @ c # r; dst \<le> src\<rbrakk> \<Longrightarrow>
   \<exists>b'. copy_name b src dst = Some (c, b', Suc (src + length s), dst + length s) \<and> length b' = length b \<and>
     take (dst + length s) b' = take dst b @ s \<and> drop (src + length s) b' = c # r"
proof (induction s arbitrary: b src dst)
  case Nil
  then show ?case using rd_drop [of src b c r] by (subst copy_name.simps) auto
next
  case (Cons x s)
  have d: "drop src b = x # (s @ c # r)" using Cons.prems(3) by simp
  have l: "dst < length b" using Cons.prems(4) d by (cases "src < length b") auto
  let ?b = "b[dst := x]"
  have d': "drop (Suc src) ?b = s @ c # r" using drop_next [OF d] Cons.prems(4) by simp
  obtain b' where b': "copy_name ?b (Suc src) (Suc dst) = Some (c, b', Suc (Suc src + length s), Suc dst + length s)"
    "length b' = length ?b" "take (Suc dst + length s) b' = take (Suc dst) ?b @ s" "drop (Suc src + length s) b' = c # r"
    using Cons.IH [of "Suc src" ?b "Suc dst"] Cons.prems d' by auto
  have "take (Suc dst) ?b = take dst b @ [x]" using l by (simp add: take_Suc_conv_app_nth)
  then show ?case using b' rd_drop [OF d] Cons.prems(1) l
    by (subst copy_name.simps) (simp add: wr_def)
qed

text \<open>The text of a stack: every name with its slash.\<close>

definition closed :: "string list \<Rightarrow> string" where
  "closed st = concat (map (\<lambda>s. s @ [slash]) (rev st))"

lemma closed_simps [simp]: "closed [] = []" "closed (s # st) = closed st @ s @ [slash]"
  by (simp_all add: closed_def)

lemma back_to_slash_name:
  "\<lbrakk>take dst b = t @ s; name_ok s; dst \<le> length b; t = [] \<or> last t = slash\<rbrakk> \<Longrightarrow> back_to_slash b dst = length t"
proof (induction s arbitrary: dst rule: rev_induct)
  case Nil
  then have l: "dst = length t" by (metis append_Nil2 length_take min.absorb2)
  show ?case
  proof (cases dst)
    case (Suc n)
    then have "last t = b ! n" "t \<noteq> []" using Nil l by (auto simp: take_Suc_conv_app_nth)
    then show ?thesis using Nil(4) Suc l by simp
  qed (use l in simp)
next
  case (snoc x s)
  then have "dst = length (t @ s @ [x])" by (metis append.assoc length_take min.absorb2)
  then obtain n where n: "dst = Suc n" "n = length (t @ s)" by simp
  have "take n b @ [b ! n] = (t @ s) @ [x]" using snoc.prems(1,3) n by (simp add: take_Suc_conv_app_nth)
  then have "take n b = t @ s" "b ! n = x" by simp_all
  moreover have "x \<noteq> slash" "name_ok s" using snoc.prems(2) by (auto simp: name_ok_def)
  ultimately show ?case using snoc.IH [of n] snoc.prems(3,4) n by simp
qed

lemma look_at_dots_names:
  assumes ok: "\<forall>s \<in> set (s # ss). name_ok s" and d: "drop src b = join_path (s # ss) @ [NUL]"
  shows "s \<noteq> [dot] \<Longrightarrow> s \<noteq> [dot, dot] \<Longrightarrow> look_at_dots b src = Some (Copy src)"
    "s = [dot] \<Longrightarrow> ss = [] \<Longrightarrow> look_at_dots b src = Some (Copy (src + 1)) \<and> drop (src + 1) b = [NUL]"
    "s = [dot] \<Longrightarrow> ss \<noteq> [] \<Longrightarrow> \<exists>src'. look_at_dots b src = Some (Again src') \<and> src \<le> src' \<and>
       drop src' b = join_path (trim ss) @ [NUL]"
    "s = [dot, dot] \<Longrightarrow> \<exists>src'. look_at_dots b src = Some (Up_one src') \<and> src \<le> src' \<and>
       drop src' b = join_path (if ss = [] then [[]] else trim ss) @ [NUL]"
proof -
  have at: "drop src b = c # r \<Longrightarrow> rd b src = Some c \<and> drop (src + 1) b = r" for c r
    using rd_drop [of src b c r] drop_next [of src b c r] by simp
  have at1: "drop src b = c # c1 # r \<Longrightarrow> rd b (src + 1) = Some c1 \<and> drop (src + 2) b = r" for c c1 r
    using rd_drop [of "src + 1" b c1 r] drop_next [of "src + 1" b c1 r] at [of c "c1 # r"] by simp
  have at2: "drop src b = c # c1 # c2 # r \<Longrightarrow> rd b (src + 2) = Some c2 \<and> drop (src + 3) b = r" for c c1 c2 r
    using rd_drop [of "src + 2" b c2 r] drop_next [of "src + 2" b c2 r] at1 [of c c1 "c2 # r"] by (simp add: numeral_3_eq_3)
  have okss: "\<forall>s \<in> set ss. name_ok s" using ok by simp
  show "look_at_dots b src = Some (Copy (src + 1)) \<and> drop (src + 1) b = [NUL]" if "s = [dot]" "ss = []"
  proof -
    have "drop src b = dot # NUL # []" using d that by simp
    then show ?thesis using at at1 by (simp add: look_at_dots_def)
  qed
  show "\<exists>src'. look_at_dots b src = Some (Again src') \<and> src \<le> src' \<and> drop src' b = join_path (trim ss) @ [NUL]"
    if s: "s = [dot]" "ss \<noteq> []"
  proof -
    have e: "drop src b = dot # slash # (join_path ss @ [NUL])" using d s by (simp add: join_Cons)
    obtain src' where "skip_slashes b (src + 2) = Some src'" "src + 2 \<le> src'" "drop src' b = join_path (trim ss) @ [NUL]"
      using skip_slashes_names [OF s(2) okss, of "src + 2" b] at1 [OF e] by auto
    then show ?thesis using at [OF e] at1 [OF e] by (simp add: look_at_dots_def)
  qed
  show "\<exists>src'. look_at_dots b src = Some (Up_one src') \<and> src \<le> src' \<and>
       drop src' b = join_path (if ss = [] then [[]] else trim ss) @ [NUL]" if s: "s = [dot, dot]"
  proof (cases "ss = []")
    case True
    then have e: "drop src b = dot # dot # NUL # []" using d s by simp
    then show ?thesis using at [OF e] at1 [OF e] at2 [OF e] True by (simp add: look_at_dots_def)
  next
    case False
    then have e: "drop src b = dot # dot # slash # (join_path ss @ [NUL])" using d s by (simp add: join_Cons)
    obtain src' where "skip_slashes b (src + 3) = Some src'" "src + 3 \<le> src'" "drop src' b = join_path (trim ss) @ [NUL]"
      using skip_slashes_names [OF False okss, of "src + 3" b] at2 [OF e] by auto
    then show ?thesis using at [OF e] at1 [OF e] at2 [OF e] False by (simp add: look_at_dots_def)
  qed
  show "look_at_dots b src = Some (Copy src)" if ne: "s \<noteq> [dot]" "s \<noteq> [dot, dot]"
  proof -
    have "\<exists>c r. drop src b = c # r" using d by (cases "join_path (s # ss)") auto
    then obtain c r where e: "drop src b = c # r" by blast
    show ?thesis
    proof (cases "c = dot")
      case False
      then show ?thesis using at [OF e] by (simp add: look_at_dots_def)
    next
      case True
      then obtain s1 where s1: "s = dot # s1" using d e by (cases s; cases ss) auto
      then obtain c1 s2 where s2: "s1 = c1 # s2" using ne(1) by (cases s1) auto
      have c1: "c1 \<noteq> slash" "c1 \<noteq> NUL" using ok s1 s2 by simp_all
      have "\<exists>r. drop src b = dot # c1 # r" using d s1 s2 by (cases ss) auto
      then obtain r1 where e1: "drop src b = dot # c1 # r1" by blast
      show ?thesis
      proof (cases "c1 = dot")
        case False
        then show ?thesis using at [OF e1] at1 [OF e1] c1 by (simp add: look_at_dots_def)
      next
        case True
        then obtain c2 s3 where s3: "s2 = c2 # s3" using ne(2) s1 s2 by (cases s2) auto
        have c2: "c2 \<noteq> slash" "c2 \<noteq> NUL" using ok s1 s2 s3 by simp_all
        have "\<exists>r. drop src b = dot # c1 # c2 # r" using d s1 s2 s3 by (cases ss) auto
        then obtain r2 where e2: "drop src b = dot # c1 # c2 # r2" by blast
        show ?thesis using at [OF e2] at1 [OF e2] at2 [OF e2] c1 c2 by (simp add: look_at_dots_def)
      qed
    qed
  qed
qed

subsection \<open>The main loop follows the walk\<close>

text \<open>Names on the stack: only the one at the bottom may be empty.\<close>

definition stack_ok :: "string list \<Rightarrow> bool" where
  "stack_ok st \<longleftrightarrow> (\<forall>s \<in> set st. name_ok s) \<and> (\<forall>s \<in> set (butlast st). s \<noteq> [])"

lemma stack_ok_Nil [simp]: "stack_ok []"
  by (simp add: stack_ok_def)

lemma stack_ok_tl: "stack_ok (s # st) \<Longrightarrow> stack_ok st"
  by (cases st) (auto simp: stack_ok_def)

lemma stack_ok_push: "stack_ok st \<Longrightarrow> name_ok s \<Longrightarrow> s \<noteq> [] \<Longrightarrow> stack_ok (s # st)"
  by (auto simp: stack_ok_def)

text \<open>When the loop is over the last name may still be without its slash.\<close>

definition written :: "string list \<Rightarrow> char list \<Rightarrow> nat \<Rightarrow> bool" where
  "written st b dst \<longleftrightarrow> stack_ok st \<and> dst < length b \<and>
     (take dst b = closed st \<or> (\<exists>s st0. st = s # st0 \<and> s \<noteq> [] \<and> take dst b = closed st0 @ s))"

lemma last_closed: "closed st = [] \<or> last (closed st) = slash"
  by (cases st) simp_all

lemma take_length_eq: "take n b = t \<Longrightarrow> n \<le> length b \<Longrightarrow> n = length t"
  by (metis length_take min.absorb2)

lemma normalize_loop_walk:
  "\<lbrakk>head_ok ss; \<forall>s \<in> set ss. name_ok s; stack_ok st; dst \<le> src; take dst b = closed st; drop src b = join_path ss @ [NUL]\<rbrakk> \<Longrightarrow>
   \<exists>r. normalize_loop b src dst = Some r \<and>
     (case walk st ss of
        None \<Rightarrow> r = None
      | Some st' \<Rightarrow> \<exists>b' dst'. r = Some (b', dst') \<and> length b' = length b \<and> written st' b' dst')"
proof (induction "length ss" arbitrary: ss st b src dst rule: less_induct)
  case less
  obtain s ss' where ss: "ss = s # ss'" using less.prems(1) by (cases ss) (auto simp: head_ok_def)
  have ok: "name_ok s" "\<forall>s \<in> set ss'. name_ok s" "\<forall>x \<in> set (s # ss'). name_ok x" using less.prems(2) ss by simp_all
  have d: "drop src b = join_path (s # ss') @ [NUL]" using less.prems(6) ss by simp
  have srcl: "src < length b" using d by (cases "src < length b") auto
  note dots = look_at_dots_names [OF ok(3) d]
  have trim: "head_ok (trim ss')" "\<forall>s \<in> set (trim ss'). name_ok s" "length (trim ss') < length ss" if "ss' \<noteq> []"
    using trim_head [OF that] trim_set [of ss'] trim_length [of ss'] ok(2) ss by auto
  consider "s = [dot]" "ss' = []" | "s = [dot]" "ss' \<noteq> []" | "s = [dot, dot]" | "s \<noteq> [dot]" "s \<noteq> [dot, dot]" by blast
  then show ?case
  proof cases
    case 1
    note l = dots(2) [OF 1]
    obtain b' where b': "copy_name b (src + 1) dst = Some (NUL, b', Suc (src + 1), dst)" "length b' = length b" "take dst b' = take dst b"
      using copy_name_names [of "[]" NUL "src + 1" b "[]" dst] l less.prems(4) by auto
    have "normalize_loop b src dst = Some (Some (b', dst))"
      using l b'(1) by (subst normalize_loop.simps) simp
    moreover have "written st b' dst" using less.prems(3-5) b' srcl by (simp add: written_def)
    ultimately show ?thesis using 1 ss b'(2) by simp
  next
    case 2
    obtain src' where l: "look_at_dots b src = Some (Again src')" "src \<le> src'" "drop src' b = join_path (trim ss') @ [NUL]"
      using dots(3) [OF 2] by blast
    have "normalize_loop b src dst = normalize_loop b src' dst" using l(1) by (subst normalize_loop.simps) simp
    then show ?thesis
      using less.hyps [OF trim(3) trim(1,2) less.prems(3) _ less.prems(5) l(3)] 2 less.prems(4) l(2) ss walk_trim [of st ss'] by simp
  next
    case 3
    obtain src' where l: "look_at_dots b src = Some (Up_one src')" "src \<le> src'"
      "drop src' b = join_path (if ss' = [] then [[]] else trim ss') @ [NUL]" using dots(4) [OF 3] by blast
    show ?thesis
    proof (cases st)
      case Nil
      then have "dst = 0" using less.prems(4,5) take_length_eq [of dst b "[]"] srcl by simp
      then show ?thesis using l(1) Nil ss 3 by (subst normalize_loop.simps) simp
    next
      case (Cons x st0)
      have t: "take dst b = closed st0 @ x @ [slash]" using less.prems(5) Cons by simp
      have "dst \<le> length b" using less.prems(4) srcl by simp
      from take_length_eq [OF t this] have dl: "dst = Suc (length (closed st0 @ x))" by simp
      have "take (dst - 1) b = closed st0 @ x"
      proof -
        have "take (dst - 1) b = take (dst - 1) (take dst b)" by simp
        then show ?thesis unfolding t using dl by simp
      qed
      moreover have "name_ok x" using less.prems(3) Cons by (simp add: stack_ok_def)
      ultimately have bk: "back_to_slash b (dst - 1) = length (closed st0)"
        using back_to_slash_name [of "dst - 1" b "closed st0" x] last_closed [of st0] less.prems(4) srcl by simp
      have step: "normalize_loop b src dst = normalize_loop b src' (length (closed st0))"
        using l(1) bk dl by (subst normalize_loop.simps) simp
      have tk: "take (length (closed st0)) b = closed st0"
      proof -
        have "take (length (closed st0)) b = take (length (closed st0)) (take dst b)" using dl by simp
        then show ?thesis unfolding t by simp
      qed
      have lt: "length (closed st0) \<le> src'" using dl less.prems(4) l(2) by simp
      show ?thesis
      proof (cases "ss' = []")
        case True
        have sd: "stack_ok st0" using less.prems(3) stack_ok_tl Cons by blast
        have nd: "drop src' b = [NUL]" using l(3) True by simp
        have lk: "look_at_dots b src' = Some (Copy src')" using rd_drop [OF nd] by (simp add: look_at_dots_def)
        obtain b' where b': "copy_name b src' (length (closed st0)) = Some (NUL, b', Suc src', length (closed st0))" "length b' = length b"
          "take (length (closed st0)) b' = closed st0"
          using copy_name_names [of "[]" NUL src' b "[]" "length (closed st0)"] nd lt tk by auto
        have "normalize_loop b src' (length (closed st0)) = Some (Some (b', length (closed st0)))"
          using lk b'(1) by (subst normalize_loop.simps) simp
        moreover have "written st0 b' (length (closed st0))" using sd b' dl less.prems(4) srcl by (simp add: written_def)
        ultimately show ?thesis using step Cons ss 3 True b'(2) by simp
      next
        case False
        have "drop src' b = join_path (trim ss') @ [NUL]" using l(3) False by simp
        then show ?thesis
          using less.hyps [OF trim(3) [OF False] trim(1,2) [OF False] stack_ok_tl lt tk] less.prems(3) Cons step ss 3 walk_trim [of st0 ss'] by simp
      qed
    qed
  next
    case 4
    note lk = dots(1) [OF 4]
    show ?thesis
    proof (cases "ss' = []")
      case True
      have "drop src b = s @ NUL # []" using d True by simp
      then obtain b' where b': "copy_name b src dst = Some (NUL, b', Suc (src + length s), dst + length s)" "length b' = length b"
        "take (dst + length s) b' = take dst b @ s" "drop (src + length s) b' = [NUL]"
        using copy_name_names [OF ok(1), of NUL src b "[]" dst] less.prems(4) by auto
      have lp: "normalize_loop b src dst = Some (Some (b', dst + length s))" using lk b'(1) by (subst normalize_loop.simps) simp
      have len: "dst + length s < length b'"
        using b'(4) less.prems(4) by (cases "src + length s < length b'") auto
      show ?thesis
      proof (cases "s = []")
        case True
        have "written st b' dst" using len b'(3) less.prems(3,5) True by (simp add: written_def)
        then show ?thesis using lp b'(2) ss \<open>ss' = []\<close> True by simp
      next
        case False
        then have "stack_ok (s # st)" using stack_ok_push less.prems(3) ok(1) by blast
        then have "written (s # st) b' (dst + length s)" using len b'(3) less.prems(5) False by (simp add: written_def)
        then show ?thesis using lp b'(2) ss \<open>ss' = []\<close> False 4 by simp
      qed
    next
      case False
      have sn: "s \<noteq> []" using less.prems(1) ss False by (auto simp: head_ok_def)
      have "drop src b = s @ slash # (join_path ss' @ [NUL])" using d False by (simp add: join_Cons)
      then obtain b' where b': "copy_name b src dst = Some (slash, b', Suc (src + length s), dst + length s)" "length b' = length b"
        "take (dst + length s) b' = take dst b @ s" "drop (src + length s) b' = slash # (join_path ss' @ [NUL])"
        using copy_name_names [OF ok(1), of slash src b "join_path ss' @ [NUL]" dst] less.prems(4) by auto
      let ?b = "b'[dst + length s := slash]"
      have len: "dst + length s < length b'" using b'(4) less.prems(4) by (cases "src + length s < length b'") auto
      have d2: "drop (Suc (src + length s)) ?b = join_path ss' @ [NUL]"
        using drop_next [OF b'(4)] less.prems(4) by simp
      obtain src' where sk: "skip_slashes ?b (Suc (src + length s)) = Some src'" "Suc (src + length s) \<le> src'"
        "drop src' ?b = join_path (trim ss') @ [NUL]" using skip_slashes_names [OF False ok(2) d2] by blast
      have step: "normalize_loop b src dst = normalize_loop ?b src' (Suc (dst + length s))"
        using lk b'(1) len sk(1) by (subst normalize_loop.simps) (simp add: wr_def)
      have tk: "take (Suc (dst + length s)) ?b = closed (s # st)"
        using len b'(3) less.prems(5) by (simp add: take_Suc_conv_app_nth)
      have lb: "length ?b = length b" using b'(2) by simp
      have "Suc (dst + length s) \<le> src'" using sk(2) less.prems(4) by simp
      from less.hyps [OF trim(3) [OF False] trim(1,2) [OF False] stack_ok_push [OF less.prems(3) ok(1) sn] this tk sk(3)]
      show ?thesis unfolding lb step walk_trim using ss 4 sn by (simp only: walk.simps if_False simp_thms)
    qed
  qed
qed

subsection \<open>The end of the function\<close>

text \<open>What is left when the last slash is taken away; a slash that is the whole text stays.\<close>

lemma join_snoc: "ss \<noteq> [] \<Longrightarrow> join_path (ss @ [s]) = join_path ss @ slash # s"
proof (induction ss)
  case (Cons x ss)
  then show ?case by (cases "ss = []") (simp_all add: join_Cons)
qed simp

lemma closed_join: "st \<noteq> [] \<Longrightarrow> closed st = join_path (rev st) @ [slash]"
proof (induction st)
  case (Cons s st)
  then show ?case by (cases "st = []") (simp_all add: join_snoc)
qed simp

lemma closed_no_nul: "stack_ok st \<Longrightarrow> NUL \<notin> set (closed st)"
  by (auto simp: stack_ok_def name_ok_def closed_def)

lemma c_string_prefix:
  assumes "take n b = t" "n < length b" "b ! n = NUL" "NUL \<notin> set t"
  shows "c_string b = t"
proof -
  have b: "b = t @ NUL # drop (Suc n) b" using assms(1-3) id_take_nth_drop [of n b] by simp
  have "takeWhile (\<lambda>c. c \<noteq> NUL) (t @ NUL # drop (Suc n) b) = t"
    using assms(4) by (subst takeWhile_append2) auto
  then show ?thesis unfolding c_string_def using b by simp
qed

text \<open>The written text, as the stack shows it: with a slash at its end or without.\<close>

lemma written_cases:
  assumes "written st b dst"
  shows "(st = [] \<and> dst = 0) \<or> (st \<noteq> [] \<and> dst \<noteq> 0 \<and> NUL \<notin> set (join_path (rev st)) \<and>
     (take dst b = join_path (rev st) @ [slash] \<or> (take dst b = join_path (rev st) \<and> b ! (dst - 1) \<noteq> slash)))"
proof -
  have ok: "stack_ok st" and l: "dst < length b" using assms by (simp_all add: written_def)
  show ?thesis
  proof (cases st)
    case Nil
    then show ?thesis using assms l by (auto simp: written_def)
  next
    case (Cons s st0)
    then have "st \<noteq> []" by simp
    then have j: "closed st = join_path (rev st) @ [slash]" by (rule closed_join)
    then have nn: "NUL \<notin> set (join_path (rev st))" using closed_no_nul [OF ok] by simp
    show ?thesis
    proof (cases "take dst b = closed st")
      case True
      then show ?thesis using Cons j nn l by (cases dst) auto
    next
      case False
      then have s: "s \<noteq> []" "take dst b = closed st0 @ s" using assms Cons by (auto simp: written_def)
      have "join_path (rev st) = closed st0 @ s"
        using Cons closed_join [of st0] by (cases "st0 = []") (simp_all add: join_snoc)
      moreover have "dst \<noteq> 0" using s by (cases dst) auto
      moreover have "b ! (dst - 1) = last s"
      proof -
        have "last (take dst b) = b ! (dst - 1)" using l calculation(2) by (cases dst) (simp_all add: take_Suc_conv_app_nth)
        then show ?thesis using s by simp
      qed
      moreover have "last s \<noteq> slash" 
      proof -
        have "slash \<notin> set s" using ok Cons by (simp add: stack_ok_def name_ok_def)
        then show ?thesis using last_in_set [OF s(1)] by metis
      qed
      ultimately show ?thesis using Cons nn s(2) by simp
    qed
  qed
qed

lemma normalize_end_shows:
  assumes w: "written st b dst" and b: "2 \<le> length b"
  shows "\<exists>b'. normalize_end before b dst = Some (if st = [] \<and> before = slash then NUL else before, b') \<and>
     length b' = length b \<and> c_string b' = show_path st"
proof -
  have ok: "stack_ok st" and l: "dst < length b" using w by (simp_all add: written_def)
  have root: "\<exists>b'. normalize_end before b 0 = Some (if before = slash then NUL else before, b') \<and> length b' = length b \<and> c_string b' = [slash]"
    using b by (cases b; cases "tl b") (auto simp: normalize_end_def wr_def rd_def c_string_def)
  from written_cases [OF w] show ?thesis
  proof (elim disjE conjE)
    assume s: "st = []" "dst = 0"
    show ?thesis using root s by (simp add: show_path_def)
  next
    assume s: "st \<noteq> []" "dst \<noteq> 0" "NUL \<notin> set (join_path (rev st))" and t: "take dst b = join_path (rev st) @ [slash]"
    have dl: "dst = Suc (length (join_path (rev st)))" using take_length_eq [OF t] l by simp
    have at: "b ! (dst - 1) = slash" "take (dst - 1) b = join_path (rev st)"
      using t l dl by (simp_all add: take_Suc_conv_app_nth)
    show ?thesis
    proof (cases "join_path (rev st) = []")
      case True
      then have "c_string (b[dst := NUL]) = [slash]" using c_string_prefix [of dst "b[dst := NUL]" "[slash]"] t l by simp
      moreover have "b ! 0 = slash" "b \<noteq> []" using at(1) dl True l by auto
      ultimately show ?thesis using True s l dl b by (simp add: normalize_end_def wr_def rd_def show_path_def)
    next
      case False
      let ?b = "b[dst := NUL, dst - 1 := NUL]"
      have "c_string ?b = join_path (rev st)" using c_string_prefix [of "dst - 1" ?b "join_path (rev st)"] at l s by simp
      moreover have "?b ! 0 \<noteq> NUL" using at(2) False dl s(3) by (cases "join_path (rev st)"; cases b) auto
      moreover have "dst - 1 \<noteq> 0" "dst - 1 < length b" "b \<noteq> []" using dl False l by auto
      ultimately show ?thesis using False s l b at(1) by (simp add: normalize_end_def wr_def rd_def show_path_def)
    qed
  next
    assume s: "st \<noteq> []" "dst \<noteq> 0" "NUL \<notin> set (join_path (rev st))" and t: "take dst b = join_path (rev st)" and n: "b ! (dst - 1) \<noteq> slash"
    let ?b = "b[dst := NUL]"
    have ne: "join_path (rev st) \<noteq> []" using t s(2) l by auto
    have "c_string ?b = join_path (rev st)" using c_string_prefix [of dst ?b "join_path (rev st)"] t l s by simp
    moreover have "?b ! 0 \<noteq> NUL" using t ne s(2,3) by (cases "join_path (rev st)"; cases b; cases dst) auto
    moreover have "dst - 1 < length b" "b \<noteq> []" using l by auto
    ultimately show ?thesis using ne s l b n by (simp add: normalize_end_def wr_def rd_def show_path_def)
  qed
qed

subsection \<open>The function\<close>

lemma split_head: "p \<noteq> [] \<Longrightarrow> hd p \<noteq> slash \<Longrightarrow> head_ok (split_path p)"
  by (cases p; cases "split_path (tl p)") (auto simp: head_ok_def)

lemma normalize_buffer:
  assumes "p \<noteq> []" "NUL \<notin> set p"
  shows "\<exists>r. normalize_loop (p @ [NUL]) 0 0 = Some r \<and>
     (case resolve p of
        None \<Rightarrow> r = None
      | Some st \<Rightarrow> \<exists>b dst. r = Some (b, dst) \<and> length b = Suc (length p) \<and> written st b dst)"
proof (cases "hd p = slash")
  case False
  have h: "head_ok (split_path p)" using split_head [OF assms(1) False] .
  have r: "resolve p = walk [] (split_path p)"
  proof (cases "split_path p = [[]]")
    case True
    then show ?thesis by (simp add: resolve_def)
  next
    case ne: False
    then obtain s ss where "split_path p = s # ss" "s \<noteq> []" using h by (cases "split_path p") (auto simp: head_ok_def)
    then show ?thesis by (cases s) (simp_all add: resolve_def)
  qed
  have "take 0 (p @ [NUL]) = closed []" "drop 0 (p @ [NUL]) = join_path (split_path p) @ [NUL]" by (simp_all add: join_split)
  from normalize_loop_walk [OF h split_names [OF assms(2)] stack_ok_Nil le_refl this]
  show ?thesis unfolding r length_append_singleton .
next
  case True
  then obtain q where p: "p = slash # q" using assms(1) by (cases p) auto
  let ?b = "slash # q @ [NUL]"
  have q: "NUL \<notin> set q" using assms(2) p by simp
  have ne: "split_path q \<noteq> []" by simp
  have r: "resolve p = walk [[]] (split_path q)" using p by (cases "split_path q") (auto simp: resolve_def)
  have d: "drop 1 ?b = join_path (split_path q) @ [NUL]" by (simp add: join_split)
  obtain src where sk: "skip_slashes ?b 1 = Some src" "1 \<le> src" "drop src ?b = join_path (trim (split_path q)) @ [NUL]"
    using skip_slashes_names [OF ne split_names [OF q] d] by blast
  have look: "look_at_dots ?b 0 = Some (Copy 0)" by (simp add: look_at_dots_def rd_def)
  have copy: "copy_name ?b 0 0 = Some (slash, ?b, 1, 0)" by (subst copy_name.simps) (simp add: rd_def)
  have step: "normalize_loop ?b 0 0 = normalize_loop ?b src 1"
    using look copy sk(1) by (subst normalize_loop.simps) (simp add: wr_def)
  have ok: "\<forall>s \<in> set (trim (split_path q)). name_ok s" using split_names [OF q] trim_set by blast
  have "stack_ok [[]]" by (simp add: stack_ok_def)
  from normalize_loop_walk [OF trim_head [OF ne] ok this sk(2) _ sk(3)]
  moreover have "p @ [NUL] = ?b" "length ?b = Suc (length p)" using p by simp_all
  ultimately show ?thesis unfolding r step walk_trim by (simp only: step) simp
qed

text \<open>The name the code works on.\<close>

definition asked_path :: "string \<Rightarrow> string option \<Rightarrow> string \<Rightarrow> string" where
  "asked_path wd dir f = butlast (full_path wd dir f)"

lemma asked_path_simps:
  "asked_path wd dir f = (if f = [] \<or> hd f \<noteq> slash then (case dir of None \<Rightarrow> wd | Some d \<Rightarrow> d) @ slash # f else f)"
  by (simp add: asked_path_def full_path_def Let_def butlast_append)

lemma full_path_asked: "full_path wd dir f = asked_path wd dir f @ [NUL]"
  by (simp add: asked_path_simps full_path_def Let_def)

lemma asked_path_ne: "asked_path wd dir f \<noteq> []"
  by (auto simp: asked_path_simps)

theorem dfs_normalize_path_resolves:
  assumes "NUL \<notin> set wd" "\<forall>d. dir = Some d \<longrightarrow> NUL \<notin> set d" "NUL \<notin> set f"
  shows "case resolve (asked_path wd dir f) of
     None \<Rightarrow> dfs_normalize_path True before wd dir f = Some (before, None)
   | Some st \<Rightarrow> \<exists>b. dfs_normalize_path True before wd dir f = Some (if st = [] \<and> before = slash then NUL else before, Some b) \<and>
       length b = Suc (length (asked_path wd dir f)) \<and> c_string b = show_path st"
proof -
  let ?p = "asked_path wd dir f"
  have n: "NUL \<notin> set ?p" using assms by (auto simp: asked_path_simps split: option.splits)
  have l: "0 < length ?p" using asked_path_ne by simp
  obtain r where r: "normalize_loop (?p @ [NUL]) 0 0 = Some r"
    "case resolve ?p of None \<Rightarrow> r = None
       | Some st \<Rightarrow> \<exists>b dst. r = Some (b, dst) \<and> length b = Suc (length ?p) \<and> written st b dst"
    using normalize_buffer [OF asked_path_ne n] by blast
  show ?thesis
  proof (cases "resolve ?p")
    case None
    then show ?thesis using r by (simp add: dfs_normalize_path_def full_path_asked)
  next
    case (Some st)
    then obtain b dst where b: "r = Some (b, dst)" "length b = Suc (length ?p)" "written st b dst" using r(2) by auto
    have "2 \<le> length b" using b(2) l by linarith
    from normalize_end_shows [OF b(3) this, of before] obtain b' where
      "normalize_end before b dst = Some (if st = [] \<and> before = slash then NUL else before, b')"
      "length b' = length b" "c_string b' = show_path st" by blast
    then show ?thesis using r(1) b(1,2) Some by (simp add: dfs_normalize_path_def full_path_asked)
  qed
qed

lemma dfs_normalize_path_no_memory: "dfs_normalize_path False before wd dir f = Some (before, None)"
  by (simp add: dfs_normalize_path_def)

subsection \<open>What the names are afterwards\<close>

text \<open>A stack the walk can have made from nothing or from the root.\<close>

definition clean :: "string list \<Rightarrow> bool" where
  "clean st \<longleftrightarrow> (\<forall>s \<in> set st. s \<noteq> [dot] \<and> s \<noteq> [dot, dot]) \<and> stack_ok st"

lemma walk_clean: "\<lbrakk>walk st ss = Some st'; clean st; \<forall>s \<in> set ss. name_ok s\<rbrakk> \<Longrightarrow> clean st'"
proof (induction st ss rule: walk.induct)
  case (2 st s ss)
  show ?case
  proof (cases "s = [] \<or> s = [dot]")
    case True
    then show ?thesis using 2 by auto
  next
    case nd: False
    show ?thesis
    proof (cases "s = [dot, dot]")
      case True
      then obtain x st0 where st: "st = x # st0" using 2(4) nd by (cases st) auto
      then have "clean st0" using 2(5) stack_ok_tl by (auto simp: clean_def)
      then show ?thesis using 2(2) [OF nd True st] 2(4,6) nd True st by simp
    next
      case False
      then have "clean (s # st)" using 2(5,6) nd stack_ok_push [of st s] by (auto simp: clean_def)
      then show ?thesis using 2(3) [OF nd False] 2(4,6) nd False by simp
    qed
  qed
qed simp

lemma resolve_clean: "resolve p = Some st \<Longrightarrow> NUL \<notin> set p \<Longrightarrow> clean st"
proof -
  assume r: "resolve p = Some st" and n: "NUL \<notin> set p"
  note ok = split_names [OF n]
  have root: "clean []" "clean [[]]" by (simp_all add: clean_def stack_ok_def)
  show ?thesis
  proof (cases "split_path p")
    case (Cons a l)
    show ?thesis
    proof (cases "a = [] \<and> l \<noteq> []")
      case True
      then have "resolve p = walk [[]] l" using Cons by (cases l) (simp_all add: resolve_def)
      then show ?thesis using r walk_clean [of "[[]]" l st] root ok Cons by auto
    next
      case False
      then have "resolve p = walk [] (a # l)" using Cons by (cases a; cases l) (simp_all add: resolve_def)
      then show ?thesis using r walk_clean [of "[]" "a # l" st] root ok Cons by auto
    qed
  qed (use n in simp)
qed

lemma split_append: "name_ok s \<Longrightarrow> split_path (s @ slash # r) = s # split_path r" "name_ok s \<Longrightarrow> split_path s = [s]"
  by (induction s) auto

lemma split_join: "\<lbrakk>ss \<noteq> []; \<forall>s \<in> set ss. name_ok s\<rbrakk> \<Longrightarrow> split_path (join_path ss) = ss"
  by (induction ss rule: join_path.induct) (simp_all add: split_append)

lemma walk_names: "\<forall>s \<in> set ss. s \<noteq> [] \<and> s \<noteq> [dot] \<and> s \<noteq> [dot, dot] \<Longrightarrow> walk st ss = Some (rev ss @ st)"
  by (induction ss arbitrary: st) auto

text \<open>The names of an absolute result are those on the stack, and normalising them again changes nothing.\<close>

lemma resolve_show:
  assumes "clean st" "st \<noteq> []" "last st = []"
  shows "resolve (show_path st) = Some st" "hd (show_path st) = slash"
proof -
  obtain ts where st: "st = ts @ [[]]" using assms(2,3) by (metis append_butlast_last_id)
  have ts: "\<forall>s \<in> set (rev ts). name_ok s \<and> s \<noteq> [] \<and> s \<noteq> [dot] \<and> s \<noteq> [dot, dot]"
    using assms(1) st by (auto simp: clean_def stack_ok_def)
  show "resolve (show_path st) = Some st" "hd (show_path st) = slash"
  proof -
    show "resolve (show_path st) = Some st"
    proof (cases "ts = []")
      case True
      then show ?thesis using st by (simp add: show_path_def resolve_def)
    next
      case False
      then have sp: "show_path st = slash # join_path (rev ts)" using st by (simp add: show_path_def join_Cons)
      have "split_path (show_path st) = [] # rev ts" using split_join [of "rev ts"] ts False unfolding sp by simp
      moreover obtain a l where al: "rev ts = a # l" using False by (cases "rev ts") auto
      moreover have "walk [[]] (rev ts) = Some st" using walk_names [of "rev ts" "[[]]"] ts st by auto
      ultimately show ?thesis by (simp add: resolve_def)
    qed
    show "hd (show_path st) = slash" using st by (cases "ts = []") (simp_all add: show_path_def join_Cons)
  qed
qed

lemma normalize_absolute:
  "f \<noteq> [] \<Longrightarrow> hd f = slash \<Longrightarrow> dfs_normalize_path mem x wd dir f = dfs_normalize_path mem x [] None f \<and> asked_path wd dir f = f"
  by (simp add: dfs_normalize_path_def full_path_def asked_path_simps)

lemma c_string_no_nul: "NUL \<notin> set (c_string b)"
  using set_takeWhileD [of NUL _ b] by (auto simp: c_string_def)

theorem dfs_normalize_path_twice:
  assumes n: "NUL \<notin> set wd" "\<forall>d. dir = Some d \<longrightarrow> NUL \<notin> set d" "NUL \<notin> set f"
    and r: "resolve (asked_path wd dir f) = Some st" "st \<noteq> []" "last st = []"
  shows "\<exists>b b'. dfs_normalize_path True x wd dir f = Some (x, Some b) \<and>
     dfs_normalize_path True y wd dir' (c_string b) = Some (y, Some b') \<and> c_string b' = c_string b"
proof -
  obtain b where b: "dfs_normalize_path True x wd dir f = Some (x, Some b)" "c_string b = show_path st"
    using dfs_normalize_path_resolves [OF n, of x] r by auto
  have "NUL \<notin> set (asked_path wd dir f)" using n by (auto simp: asked_path_simps split: option.splits)
  from resolve_show [OF resolve_clean [OF r(1) this] r(2,3)]
  have s: "resolve (show_path st) = Some st" "hd (show_path st) = slash" "show_path st \<noteq> []"
    by (simp_all add: show_path_def Let_def)
  have "NUL \<notin> set (show_path st)" using c_string_no_nul [of b] b(2) by simp
  from dfs_normalize_path_resolves [of "[]" None, OF _ _ this, of y] s r(2) normalize_absolute [OF s(3,2), of True y wd dir']
    normalize_absolute [OF s(3,2), of True y "[]" None]
  obtain b' where "dfs_normalize_path True y wd dir' (show_path st) = Some (y, Some b')" "c_string b' = show_path st" by auto
  then show ?thesis using b by auto
qed

subsection \<open>Two names that leave the root\<close>

text \<open>
  The root is a name like the others: \<open>..\<close> takes it away, and what follows is not an absolute
  path any more. When nothing follows, the byte before the buffer is looked at, and a slash there is
  overwritten.
\<close>

lemma normalize_above_root:
  "\<exists>b. dfs_normalize_path True x wd dir ''/../a'' = Some (x, Some b) \<and> c_string b = ''a''"
  "\<exists>b. dfs_normalize_path True slash wd dir ''/..'' = Some (NUL, Some b) \<and> c_string b = ''/''"
proof -
  have r: "resolve ''/../a'' = Some [''a'']" "resolve ''/..'' = Some []" by (simp_all add: resolve_def)
  have "asked_path [] None ''/../a'' = ''/../a''" "asked_path [] None ''/..'' = ''/..''" by (simp_all add: asked_path_simps)
  then show "\<exists>b. dfs_normalize_path True x wd dir ''/../a'' = Some (x, Some b) \<and> c_string b = ''a''"
    "\<exists>b. dfs_normalize_path True slash wd dir ''/..'' = Some (NUL, Some b) \<and> c_string b = ''/''"
    using dfs_normalize_path_resolves [of "[]" None "''/../a''" x] dfs_normalize_path_resolves [of "[]" None "''/..''" slash]
      normalize_absolute [of "''/../a''" True x wd dir] normalize_absolute [of "''/..''" True slash wd dir] r
    by (simp_all add: show_path_def) blast+
qed

subsection \<open>Below a directory\<close>

text \<open>What is handed to a file system begins with a slash, for a mounted directory and for the root.\<close>

lemma dfs_subdir_below:
  "dfs_subdir d (d @ slash # r) = Some (Some (slash # r))"
  "r \<noteq> [] \<Longrightarrow> hd r \<noteq> slash \<Longrightarrow> dfs_subdir (d @ [slash]) (d @ slash # r) = Some (Some (slash # r))"
proof -
  show "dfs_subdir d (d @ slash # r) = Some (Some (slash # r))"
    by (simp add: dfs_subdir_def rd_def nth_append)
  assume "r \<noteq> []" "hd r \<noteq> slash"
  then show "dfs_subdir (d @ [slash]) (d @ slash # r) = Some (Some (slash # r))"
    by (cases r) (simp_all add: dfs_subdir_def rd_def nth_append)
qed

end
