(* ===== verification/ShmTab.thy ===== *)
theory ShmTab
  imports Bmem
begin

text \<open>
  Shared memory of applications (\<^verbatim>\<open>extends/bin-core/lwt_shm.c\<close>, \<open>lwt_shm_*\<close>): tables of applications,
  of pieces of memory and of relations between them, and in every application an array with the
  references it holds. A piece of memory is given back to \<open>bmem\<close> when its last relation goes.

  A table is named by the address \<open>rt_calloc\<close> gave for it, a slot by its table and its index. The
  two lists a relation is in are kept at their heads, as the relations in their order; a head in
  memory that is still zero is \<open>None\<close>. What the heap answers is an argument of the operations. A
  read or write through a null pointer is \<open>None\<close>.
\<close>

subsection \<open>State\<close>

type_synonym slot = "nat \<times> nat"

record shm_mem =
  m_app_node :: "slot list option"
  m_addr :: u32
  m_size :: u32

record shm_mem_ref =
  ref_addr :: u32
  ref_ref :: u32

record shm_app =
  a_mem_node :: "slot list option"
  lwp_addr :: u32
  ref_tab :: "shm_mem_ref list"
  ref_tab_size :: u16
  use_num :: u16

record shm_relation =
  r_app :: "slot option"
  r_mem :: "slot option"
  r_linked :: bool

record lwt_shm =
  shm_bmem :: bmem
  shm_addr :: u32
  shm_size :: u32
  relation_tab :: "nat list"
  relation_used :: "nat \<Rightarrow> u32"
  relations :: "slot \<Rightarrow> shm_relation"
  app_tab :: "nat list"
  app_used :: "nat \<Rightarrow> u32"
  apps :: "slot \<Rightarrow> shm_app"
  mem_tab :: "nat list"
  mem_used :: "nat \<Rightarrow> u32"
  mems :: "slot \<Rightarrow> shm_mem"

abbreviation (input) SHM_TAB_SIZE :: nat where "SHM_TAB_SIZE \<equiv> 8"
abbreviation (input) SHM_MEM_REF_APPEND_NUM :: nat where "SHM_MEM_REF_APPEND_NUM \<equiv> 8"
abbreviation LWT_SHM_SIZE :: u32 where "LWT_SHM_SIZE \<equiv> 0x4000"

definition zero_app :: shm_app where
  "zero_app = \<lparr>a_mem_node = None, lwp_addr = 0, ref_tab = [], ref_tab_size = 0, use_num = 0\<rparr>"

definition zero_mem :: shm_mem where
  "zero_mem = \<lparr>m_app_node = None, m_addr = 0, m_size = 0\<rparr>"

definition zero_ref :: shm_mem_ref where
  "zero_ref = \<lparr>ref_addr = 0, ref_ref = 0\<rparr>"

definition zero_relation :: shm_relation where
  "zero_relation = \<lparr>r_app = None, r_mem = None, r_linked = False\<rparr>"

definition upd_app :: "slot \<Rightarrow> (shm_app \<Rightarrow> shm_app) \<Rightarrow> lwt_shm \<Rightarrow> lwt_shm" where
  "upd_app a f s = s\<lparr>apps := (apps s)(a := f (apps s a))\<rparr>"

definition upd_mem :: "slot \<Rightarrow> (shm_mem \<Rightarrow> shm_mem) \<Rightarrow> lwt_shm \<Rightarrow> lwt_shm" where
  "upd_mem m f s = s\<lparr>mems := (mems s)(m := f (mems s m))\<rparr>"

definition upd_ref :: "slot \<Rightarrow> nat \<Rightarrow> (shm_mem_ref \<Rightarrow> shm_mem_ref) \<Rightarrow> lwt_shm \<Rightarrow> lwt_shm" where
  "upd_ref a i f = upd_app a (\<lambda>x. x\<lparr>ref_tab := (ref_tab x)[i := f (ref_tab x ! i)]\<rparr>)"

subsection \<open>Tables\<close>

text \<open>The slots a search comes to, table after table; the test on the counter leaves tables out.\<close>

definition tab_slots :: "(u32 \<Rightarrow> bool) \<Rightarrow> (nat \<Rightarrow> u32) \<Rightarrow> nat list \<Rightarrow> slot list" where
  "tab_slots skip used tabs = concat (map (\<lambda>t. if skip (used t) then [] else map (Pair t) [0..<SHM_TAB_SIZE]) tabs)"

definition is_full :: "u32 \<Rightarrow> bool" where "is_full n \<longleftrightarrow> n = of_nat SHM_TAB_SIZE"
definition is_unused :: "u32 \<Rightarrow> bool" where "is_unused n \<longleftrightarrow> n = 0"

text \<open>
  The \<open>while(1)\<close> loops of the three \<open>get\<close> functions: a search, and when it finds nothing a zeroed
  table in front and another round.
\<close>

definition free_app :: "lwt_shm \<Rightarrow> slot option" where
  "free_app s = find (\<lambda>a. use_num (apps s a) = 0) (tab_slots is_full (app_used s) (app_tab s))"

definition take_app :: "slot \<Rightarrow> lwt_shm \<Rightarrow> lwt_shm" where
  "take_app a s = (upd_app a (\<lambda>x. x\<lparr>a_mem_node := Some []\<rparr>) s)\<lparr>app_used := (app_used s)(fst a := app_used s (fst a) + 1)\<rparr>"

definition add_app_tab :: "nat \<Rightarrow> lwt_shm \<Rightarrow> lwt_shm" where
  "add_app_tab t s = s\<lparr>app_tab := t # app_tab s, app_used := (app_used s)(t := 0),
     apps := (\<lambda>a. if fst a = t then zero_app else apps s a)\<rparr>"

definition get_shm_app :: "nat option \<Rightarrow> lwt_shm \<Rightarrow> slot option \<times> lwt_shm" where
  "get_shm_app tab s = (case free_app s of
     Some a \<Rightarrow> (Some a, take_app a s)
   | None \<Rightarrow> (case tab of None \<Rightarrow> (None, s)
       | Some t \<Rightarrow> (case free_app (add_app_tab t s) of
            Some a \<Rightarrow> (Some a, take_app a (add_app_tab t s))
          | None \<Rightarrow> (None, add_app_tab t s))))"

definition find_shm_app :: "u32 \<Rightarrow> lwt_shm \<Rightarrow> slot option" where
  "find_shm_app lwp s = find (\<lambda>a. lwp_addr (apps s a) = lwp) (tab_slots is_unused (app_used s) (app_tab s))"

definition put_shm_app :: "slot \<Rightarrow> lwt_shm \<Rightarrow> (int \<times> lwt_shm) option" where
  "put_shm_app a s =
     (if a \<in> set (tab_slots is_unused (app_used s) (app_tab s))
      then case a_mem_node (apps s a) of None \<Rightarrow> None | Some _ \<Rightarrow> Some (RT_EOK, upd_app a (\<lambda>_. zero_app) s)
      else Some (- RT_ERROR, s))"

definition free_mem :: "lwt_shm \<Rightarrow> slot option" where
  "free_mem s = find (\<lambda>m. m_size (mems s m) = 0) (tab_slots is_full (mem_used s) (mem_tab s))"

definition take_mem :: "slot \<Rightarrow> lwt_shm \<Rightarrow> lwt_shm" where
  "take_mem m s = (upd_mem m (\<lambda>x. x\<lparr>m_app_node := Some []\<rparr>) s)\<lparr>mem_used := (mem_used s)(fst m := mem_used s (fst m) + 1)\<rparr>"

definition add_mem_tab :: "nat \<Rightarrow> lwt_shm \<Rightarrow> lwt_shm" where
  "add_mem_tab t s = s\<lparr>mem_tab := t # mem_tab s, mem_used := (mem_used s)(t := 0),
     mems := (\<lambda>m. if fst m = t then zero_mem else mems s m)\<rparr>"

definition get_shm_mem :: "nat option \<Rightarrow> lwt_shm \<Rightarrow> slot option \<times> lwt_shm" where
  "get_shm_mem tab s = (case free_mem s of
     Some m \<Rightarrow> (Some m, take_mem m s)
   | None \<Rightarrow> (case tab of None \<Rightarrow> (None, s)
       | Some t \<Rightarrow> (case free_mem (add_mem_tab t s) of
            Some m \<Rightarrow> (Some m, take_mem m (add_mem_tab t s))
          | None \<Rightarrow> (None, add_mem_tab t s))))"

definition find_shm_mem :: "u32 \<Rightarrow> lwt_shm \<Rightarrow> slot option" where
  "find_shm_mem a s = find (\<lambda>m. m_addr (mems s m) = a) (tab_slots is_unused (mem_used s) (mem_tab s))"

definition put_shm_mem :: "slot \<Rightarrow> lwt_shm \<Rightarrow> int \<times> lwt_shm" where
  "put_shm_mem m s =
     (let s = (if m \<in> set (tab_slots (\<lambda>_. False) (mem_used s) (mem_tab s))
               then (upd_mem m (\<lambda>x. x\<lparr>m_size := 0\<rparr>) s)\<lparr>mem_used := (mem_used s)(fst m := mem_used s (fst m) - 1)\<rparr>
               else s)
      in (if m_size (mems s m) > 0 then - RT_ERROR else RT_EOK, s))"

definition free_relation :: "lwt_shm \<Rightarrow> slot option" where
  "free_relation s = find (\<lambda>r. r_app (relations s r) = None \<or> \<not> r_linked (relations s r))
     (tab_slots is_full (relation_used s) (relation_tab s))"

definition add_relation_tab :: "nat \<Rightarrow> lwt_shm \<Rightarrow> lwt_shm" where
  "add_relation_tab t s = s\<lparr>relation_tab := t # relation_tab s, relation_used := (relation_used s)(t := 0),
     relations := (\<lambda>r. if fst r = t then zero_relation else relations s r)\<rparr>"

definition get_shm_relation :: "nat option \<Rightarrow> lwt_shm \<Rightarrow> slot option \<times> lwt_shm" where
  "get_shm_relation tab s = (case free_relation s of
     Some r \<Rightarrow> (Some r, s)
   | None \<Rightarrow> (case tab of None \<Rightarrow> (None, s)
       | Some t \<Rightarrow> (free_relation (add_relation_tab t s), add_relation_tab t s)))"

definition put_shm_relation :: "slot \<Rightarrow> lwt_shm \<Rightarrow> int \<times> lwt_shm" where
  "put_shm_relation r s = (- RT_ERROR, s)"

subsection \<open>The references of an application\<close>

fun ref_loop :: "u32 \<Rightarrow> shm_mem_ref list \<Rightarrow> nat \<Rightarrow> nat option \<Rightarrow> nat option" where
  "ref_loop a [] i last_empty = last_empty"
| "ref_loop a (r # rs) i last_empty =
     (if ref_addr r \<noteq> 0 then (if ref_addr r = a then Some i else ref_loop a rs (Suc i) last_empty)
      else if a = 0 then Some i
      else ref_loop a rs (Suc i) (if last_empty = None then Some i else last_empty))"

text \<open>
  \<open>mem\<close>: there is memory for a longer array. The result is an index, or \<open>None\<close> inside for a null
  pointer. The counter of the array has 16 bits; when it wraps the pointer is in front of the array.
\<close>

definition get_shm_mem_ref :: "bool \<Rightarrow> slot \<Rightarrow> u32 \<Rightarrow> lwt_shm \<Rightarrow> (nat option \<times> lwt_shm) option" where
  "get_shm_mem_ref mem a addr s =
     (let app = apps s a in
      case ref_loop addr (take (unat (ref_tab_size app)) (ref_tab app)) 0 None of
        Some i \<Rightarrow> Some (Some i, s)
      | None \<Rightarrow>
          if \<not> mem then Some (None, s)
          else let refs = take (unat (ref_tab_size app)) (ref_tab app) @ replicate SHM_MEM_REF_APPEND_NUM zero_ref;
                   n = ref_tab_size app + of_nat SHM_MEM_REF_APPEND_NUM;
                   s = upd_app a (\<lambda>x. x\<lparr>ref_tab := refs, ref_tab_size := n\<rparr>) s
               in if unat n < SHM_MEM_REF_APPEND_NUM then None else Some (Some (unat n - SHM_MEM_REF_APPEND_NUM), s))"

subsection \<open>The calls\<close>

text \<open>What the heap answers in one call: tables of the four kinds, and an array of references.\<close>

record answers =
  for_app :: "nat option"
  for_refs :: bool
  for_mem :: "nat option"
  for_relation :: "nat option"
  for_block :: "nat option"

datatype shm_result = Done int | Hangs

definition lwt_shm_init :: "bool \<Rightarrow> u32 \<Rightarrow> int \<times> lwt_shm option" where
  "lwt_shm_init mem shm =
     (if \<not> mem then (- RT_ERROR, None)
      else (RT_EOK, Some \<lparr>shm_bmem = bmem_create shm LWT_SHM_SIZE, shm_addr = shm, shm_size = LWT_SHM_SIZE,
        relation_tab = [], relation_used = (\<lambda>_. 0), relations = (\<lambda>_. zero_relation),
        app_tab = [], app_used = (\<lambda>_. 0), apps = (\<lambda>_. zero_app),
        mem_tab = [], mem_used = (\<lambda>_. 0), mems = (\<lambda>_. zero_mem)\<rparr>))"

text \<open>The application of the caller: found by the process, entered as the thread.\<close>

definition app_of_caller :: "answers \<Rightarrow> u32 \<Rightarrow> u32 \<Rightarrow> lwt_shm \<Rightarrow> slot option \<times> lwt_shm" where
  "app_of_caller h self lwp s = (case find_shm_app lwp s of
     Some a \<Rightarrow> (Some a, s)
   | None \<Rightarrow> (case get_shm_app (for_app h) s of
        (None, s) \<Rightarrow> (None, s)
      | (Some a, s) \<Rightarrow> (Some a, upd_app a (\<lambda>x. x\<lparr>lwp_addr := self\<rparr>) s)))"

text \<open>\<open>rt_list_insert_after\<close> of the two nodes of a relation.\<close>

definition relate :: "slot \<Rightarrow> slot \<Rightarrow> slot \<Rightarrow> lwt_shm \<Rightarrow> lwt_shm option" where
  "relate r a m s = do {
     rs \<leftarrow> m_app_node (mems s m);
     rs' \<leftarrow> a_mem_node (apps s a);
     Some ((upd_app a (\<lambda>x. x\<lparr>a_mem_node := Some (r # rs')\<rparr>) (upd_mem m (\<lambda>x. x\<lparr>m_app_node := Some (r # rs)\<rparr>) s))
       \<lparr>relations := (relations s)(r := \<lparr>r_app = Some a, r_mem = Some m, r_linked = True\<rparr>)\<rparr>) }"

definition lwt_shm_alloc :: "answers \<Rightarrow> u32 \<Rightarrow> u32 \<Rightarrow> u32 \<Rightarrow> lwt_shm \<Rightarrow> (u32 \<times> lwt_shm) option" where
  "lwt_shm_alloc h self lwp sz s =
     (case app_of_caller h self lwp s of
        (None, s) \<Rightarrow> Some (0, s)
      | (Some a, s) \<Rightarrow> do {
          (i, s) \<leftarrow> get_shm_mem_ref (for_refs h) a 0 s;
          let (m, s) = get_shm_mem (for_mem h) s;
          let (r, s) = get_shm_relation (for_relation h) s;
          case (m, r) of
            (Some m, Some r) \<Rightarrow>
              (let (p, b) = bmem_malloc (for_block h) sz (shm_bmem s);
                   p = (case p of None \<Rightarrow> 0 | Some p \<Rightarrow> p);
                   s = upd_mem m (\<lambda>x. x\<lparr>m_addr := p\<rparr>) (s\<lparr>shm_bmem := b\<rparr>)
               in if p = 0 then Some (0, s)
                  else do {
                    let s = upd_app a (\<lambda>x. x\<lparr>use_num := use_num x + 1\<rparr>) (upd_mem m (\<lambda>x. x\<lparr>m_size := sz\<rparr>) s);
                    i \<leftarrow> i;
                    s \<leftarrow> relate r a m (upd_ref a i (\<lambda>_. \<lparr>ref_addr = p, ref_ref = 1\<rparr>) s);
                    Some (p, s) })
          | _ \<Rightarrow> Some (0, s) })"

definition lwt_shm_retain :: "answers \<Rightarrow> u32 \<Rightarrow> u32 \<Rightarrow> u32 \<Rightarrow> lwt_shm \<Rightarrow> (shm_result \<times> lwt_shm) option" where
  "lwt_shm_retain h self lwp addr s =
     (case find_shm_mem addr s of
        None \<Rightarrow> Some (Hangs, s)
      | Some m \<Rightarrow>
          (case app_of_caller h self lwp s of
             (None, s) \<Rightarrow> None
           | (Some a, s) \<Rightarrow> do {
               (i, s) \<leftarrow> get_shm_mem_ref (for_refs h) a addr s;
               case i of
                 None \<Rightarrow> Some (Hangs, s)
               | Some i \<Rightarrow>
                   (let s = upd_ref a i (\<lambda>x. x\<lparr>ref_ref := ref_ref x + 1\<rparr>) s
                    in if ref_addr (ref_tab (apps s a) ! i) \<noteq> 0 then Some (Done RT_EOK, s)
                       else let s = upd_ref a i (\<lambda>x. x\<lparr>ref_addr := addr\<rparr>) s;
                                (r, s) = get_shm_relation (for_relation h) s
                            in case r of
                                 None \<Rightarrow> Some (Hangs, s)
                               | Some r \<Rightarrow> do {
                                   s \<leftarrow> relate r a m (upd_app a (\<lambda>x. x\<lparr>use_num := use_num x + 1\<rparr>) s);
                                   Some (Done RT_EOK, s) }) }))"

text \<open>\<open>rt_list_remove\<close> of the two nodes of a relation.\<close>

definition unrelate :: "slot \<Rightarrow> lwt_shm \<Rightarrow> lwt_shm" where
  "unrelate r s = s\<lparr>mems := (\<lambda>m. (mems s m)\<lparr>m_app_node := map_option (remove1 r) (m_app_node (mems s m))\<rparr>),
     apps := (\<lambda>a. (apps s a)\<lparr>a_mem_node := map_option (remove1 r) (a_mem_node (apps s a))\<rparr>),
     relations := (relations s)(r := (relations s r)\<lparr>r_linked := False\<rparr>)\<rparr>"

text \<open>The relation of the calling thread in the list of the memory: the loop of \<open>lwt_shm_free\<close>.\<close>

definition relation_of_caller :: "u32 \<Rightarrow> slot list \<Rightarrow> lwt_shm \<Rightarrow> (slot \<times> slot) option" where
  "relation_of_caller self rs s =
     (case find (\<lambda>r. case r_app (relations s r) of None \<Rightarrow> False | Some a \<Rightarrow> lwp_addr (apps s a) = self) rs of
        None \<Rightarrow> None
      | Some r \<Rightarrow> (case r_app (relations s r) of None \<Rightarrow> None | Some a \<Rightarrow> Some (r, a)))"

definition drop_ref :: "slot \<Rightarrow> slot \<Rightarrow> nat \<Rightarrow> lwt_shm \<Rightarrow> lwt_shm" where
  "drop_ref r a i s =
     (if ref_ref (ref_tab (apps s a) ! i) > 0
      then let s = upd_ref a i (\<lambda>x. x\<lparr>ref_ref := ref_ref x - 1\<rparr>) s
           in if ref_ref (ref_tab (apps s a) ! i) = 0
              then upd_app a (\<lambda>x. x\<lparr>use_num := use_num x - 1\<rparr>)
                     (upd_ref a i (\<lambda>x. x\<lparr>ref_addr := 0\<rparr>) (snd (put_shm_relation r (unrelate r s))))
              else s
      else s)"

text \<open>\<open>probe\<close>: what \<open>put_mem_block\<close> reads through the pointer it has not set.\<close>

definition lwt_shm_free :: "bool \<Rightarrow> answers \<Rightarrow> u32 \<Rightarrow> u32 \<Rightarrow> lwt_shm \<Rightarrow> (shm_result \<times> lwt_shm) option" where
  "lwt_shm_free probe h self addr s =
     (case find_shm_mem addr s of
        None \<Rightarrow> Some (Hangs, s)
      | Some m \<Rightarrow> do {
          rs \<leftarrow> m_app_node (mems s m);
          (r, a) \<leftarrow> relation_of_caller self rs s;
          (i, s) \<leftarrow> get_shm_mem_ref (for_refs h) a addr s;
          i \<leftarrow> i;
          if ref_addr (ref_tab (apps s a) ! i) = 0 then Some (Hangs, s)
          else let s = drop_ref r a i s
               in Some (Done RT_EOK,
                    if m_app_node (mems s m) = Some []
                    then snd (put_shm_mem m (s\<lparr>shm_bmem := snd (bmem_free probe (m_addr (mems s m)) (shm_bmem s))\<rparr>))
                    else s) })"

definition shm_free_app_by_threadAddr :: "u32 \<Rightarrow> lwt_shm \<Rightarrow> int" where
  "shm_free_app_by_threadAddr thread s = (if find_shm_app thread s \<noteq> None then RT_EOK else - RT_ERROR)"

text \<open>\<open>offset\<close>: where the process is in the control block of a thread.\<close>

definition shm_free_app_by_lwtAddr :: "u32 \<Rightarrow> u32 \<Rightarrow> lwt_shm \<Rightarrow> int" where
  "shm_free_app_by_lwtAddr offset lwt s = shm_free_app_by_threadAddr (lwt - offset) s"

end
