(* ===== verification/ShmUse.thy ===== *)
theory ShmUse
  imports ShmTab "HOL-Library.Multiset"
begin

text \<open>
  The references to shared memory: which threads hold a piece of memory, counted as often as they
  asked for it, and that the piece goes back to the allocator when the last of them gives it up.
\<close>

subsection \<open>The invariant\<close>

definition app_slots :: "lwt_shm \<Rightarrow> slot set" where "app_slots s = set (app_tab s) \<times> {..<SHM_TAB_SIZE}"
definition mem_slots :: "lwt_shm \<Rightarrow> slot set" where "mem_slots s = set (mem_tab s) \<times> {..<SHM_TAB_SIZE}"
definition relation_slots :: "lwt_shm \<Rightarrow> slot set" where "relation_slots s = set (relation_tab s) \<times> {..<SHM_TAB_SIZE}"

definition rels_of :: "lwt_shm \<Rightarrow> slot \<Rightarrow> slot list" where
  "rels_of s m = (case m_app_node (mems s m) of None \<Rightarrow> [] | Some rs \<Rightarrow> rs)"

definition live_mems :: "lwt_shm \<Rightarrow> slot set" where
  "live_mems s = {m \<in> mem_slots s. m_size (mems s m) \<noteq> 0}"

text \<open>The array of an application that holds nothing, and of one that holds one piece.\<close>

definition no_refs :: "shm_app \<Rightarrow> bool" where
  "no_refs x \<longleftrightarrow> ref_tab x = [] \<and> ref_tab_size x = 0 \<or> ref_tab x = replicate 8 zero_ref \<and> ref_tab_size x = 8"

definition one_ref :: "u32 \<Rightarrow> shm_app \<Rightarrow> bool" where
  "one_ref addr x \<longleftrightarrow> ref_tab x = \<lparr>ref_addr = addr, ref_ref = 1\<rparr> # replicate 7 zero_ref \<and> ref_tab_size x = 8"

definition holds :: "lwt_shm \<Rightarrow> slot \<Rightarrow> slot \<Rightarrow> slot \<Rightarrow> bool" where
  "holds s a r m \<longleftrightarrow> a \<in> app_slots s \<and> use_num (apps s a) = 1 \<and> a_mem_node (apps s a) = Some [r] \<and> one_ref (m_addr (mems s m)) (apps s a)"

definition relation_ok :: "lwt_shm \<Rightarrow> slot \<Rightarrow> slot \<Rightarrow> bool" where
  "relation_ok s m r \<longleftrightarrow> r \<in> relation_slots s \<and> r_linked (relations s r) \<and> r_mem (relations s r) = Some m \<and>
     (\<exists>a. r_app (relations s r) = Some a \<and> holds s a r m)"

definition first_at :: "lwt_shm \<Rightarrow> u32 \<Rightarrow> slot option" where
  "first_at s addr = find (\<lambda>x. m_addr (mems s x) = addr) (tab_slots (\<lambda>_. False) (mem_used s) (mem_tab s))"

definition mem_ok :: "lwt_shm \<Rightarrow> slot \<Rightarrow> bool" where
  "mem_ok s m \<longleftrightarrow> distinct (rels_of s m) \<and> (\<forall>r \<in> set (rels_of s m). relation_ok s m r) \<and>
     (if m_size (mems s m) = 0 then rels_of s m = []
      else rels_of s m \<noteq> [] \<and> m_addr (mems s m) \<noteq> 0 \<and> first_at s (m_addr (mems s m)) = Some m)"

text \<open>\<open>D\<close>: slots that are taken and not filled yet. \<open>T\<close>: the threads that may call.\<close>

definition taken_in :: "slot set \<Rightarrow> lwt_shm \<Rightarrow> nat \<Rightarrow> nat set" where
  "taken_in D s t = {i. i < 8 \<and> (m_size (mems s (t, i)) \<noteq> 0 \<or> (t, i) \<in> D)}"

definition used_ok :: "slot set \<Rightarrow> lwt_shm \<Rightarrow> bool" where
  "used_ok D s \<longleftrightarrow> (\<forall>t \<in> set (mem_tab s). mem_used s t = of_nat (card (taken_in D s t)))"

definition app_ok :: "u32 set \<Rightarrow> shm_app \<Rightarrow> bool" where
  "app_ok T x \<longleftrightarrow> lwp_addr x \<in> insert 0 T \<and> (use_num x = 0 \<longrightarrow> no_refs x)"

definition shm_ok :: "u32 set \<Rightarrow> slot set \<Rightarrow> lwt_shm \<Rightarrow> bool" where
  "shm_ok T D s \<longleftrightarrow> used_ok D s \<and> (\<forall>m \<in> mem_slots s. mem_ok s m) \<and> (\<forall>a \<in> app_slots s. app_ok T (apps s a)) \<and>
     (\<forall>t \<in> set (relation_tab s). relation_used s t = 0)"

text \<open>Who holds an address, each thread as often as it does.\<close>

definition holder :: "lwt_shm \<Rightarrow> slot \<Rightarrow> u32" where
  "holder s r = (case r_app (relations s r) of None \<Rightarrow> 0 | Some a \<Rightarrow> lwp_addr (apps s a))"

definition holders :: "lwt_shm \<Rightarrow> u32 \<Rightarrow> u32 multiset" where
  "holders s addr = (case find_shm_mem addr s of None \<Rightarrow> {#} | Some m \<Rightarrow> mset (map (holder s) (rels_of s m)))"

subsection \<open>Searching\<close>

lemma slots_iff: "(t, i) \<in> set (tab_slots skip used tabs) \<longleftrightarrow> t \<in> set tabs \<and> \<not> skip (used t) \<and> i < 8"
  by (force simp: tab_slots_def)

lemma slots_mem: "x \<in> set (tab_slots skip used tabs) \<longleftrightarrow> fst x \<in> set tabs \<and> \<not> skip (used (fst x)) \<and> snd x < 8"
  using slots_iff [of "fst x" "snd x"] by simp

lemma mem_slots_mem: "m \<in> mem_slots s \<longleftrightarrow> m \<in> set (tab_slots (\<lambda>_. False) used (mem_tab s))"
  by (cases m) (simp add: slots_iff mem_slots_def)

lemma tab_slots_Cons: "tab_slots skip used (t # ts) = (if skip (used t) then [] else map (Pair t) [0..<8]) @ tab_slots skip used ts"
  by (simp add: tab_slots_def)

lemma slots_filter: "tab_slots skip used tabs = filter (\<lambda>x. \<not> skip (used (fst x))) (tab_slots (\<lambda>_. False) used' tabs)"
proof (induction tabs)
  case (Cons t ts)
  have "filter (\<lambda>x. \<not> skip (used (fst x))) (map (Pair t) [0..<8]) = (if skip (used t) then [] else map (Pair t) [0..<8])"
    by (auto simp: filter_empty_conv)
  then show ?case using Cons by (simp add: tab_slots_Cons)
qed (simp add: tab_slots_def)

lemma find_filter: "find P (filter Q xs) = find (\<lambda>x. Q x \<and> P x) xs"
  by (induction xs) auto

lemma find_fewer: "find P xs = Some x \<Longrightarrow> P' x \<Longrightarrow> (\<And>y. y \<in> set xs \<Longrightarrow> P' y \<Longrightarrow> P y) \<Longrightarrow> find P' xs = Some x"
  by (induction xs) (auto split: if_splits)

lemma find_head: "P x \<Longrightarrow> find P (x # xs) = Some x"
  by simp

lemma upt8: "[0..<8] = [0, 1, 2, 3, 4, 5, 6, 7 :: nat]"
  by (simp add: upt_rec)

lemma slots_new: "\<not> skip (used t) \<Longrightarrow> tab_slots skip used (t # ts) = (t, 0) # map (Pair t) [1..<8] @ tab_slots skip used ts"
  by (simp add: tab_slots_Cons upt8 upt_rec)

lemma slots_cong: "(\<And>t. t \<in> set tabs \<Longrightarrow> used' t = used t) \<Longrightarrow> tab_slots skip used' tabs = tab_slots skip used tabs"
  by (simp add: tab_slots_def cong: map_cong)

lemma small_count: "n \<le> 8 \<Longrightarrow> (of_nat n :: u32) = 0 \<longleftrightarrow> n = 0" "n \<le> 8 \<Longrightarrow> (of_nat n :: u32) = 8 \<longleftrightarrow> n = 8"
  by (simp_all add: word_unat_eq_iff unsigned_of_nat take_bit_nat_eq_self)

lemma taken_in_le: "card (taken_in D s t) \<le> 8" "finite (taken_in D s t)"
proof -
  have "taken_in D s t \<subseteq> {..<8}" by (auto simp: taken_in_def)
  then show "card (taken_in D s t) \<le> 8" "finite (taken_in D s t)" using card_mono [of "{..<8::nat}"] finite_subset by auto
qed

lemma used_nonzero:
  assumes "used_ok D s" "t \<in> set (mem_tab s)" "i \<in> taken_in D s t"
  shows "mem_used s t \<noteq> 0"
proof -
  have "mem_used s t = of_nat (card (taken_in D s t))" using assms(1,2) by (simp add: used_ok_def)
  moreover have "card (taken_in D s t) \<noteq> 0" using assms(3) taken_in_le(2) [of D s t] by auto
  ultimately show ?thesis using small_count(1) [OF taken_in_le(1)] by metis
qed

lemma find_shm_mem_live:
  assumes "shm_ok T D s" "m \<in> live_mems s"
  shows "find_shm_mem (m_addr (mems s m)) s = Some m"
proof -
  have m: "m \<in> mem_slots s" "m_size (mems s m) \<noteq> 0" using assms(2) by (simp_all add: live_mems_def)
  then have f: "first_at s (m_addr (mems s m)) = Some m" using assms(1) by (auto simp: shm_ok_def mem_ok_def)
  obtain t i where ti: "m = (t, i)" "t \<in> set (mem_tab s)" "i < 8" using m(1) by (auto simp: mem_slots_def)
  have "mem_used s t \<noteq> 0"
    by (rule used_nonzero [of D s t i]) (use assms(1) ti m(2) in \<open>simp_all add: shm_ok_def taken_in_def\<close>)
  then have nu: "\<not> is_unused (mem_used s (fst m))" using ti(1) by (simp add: is_unused_def)
  show ?thesis
    unfolding find_shm_mem_def slots_filter [of is_unused "mem_used s" "mem_tab s" "mem_used s"]
      find_filter
    by (rule find_fewer [OF f [unfolded first_at_def]]) (use nu in simp_all)
qed

text \<open>A slot taken for a piece of memory: every slot before it is in use.\<close>

lemma free_mem_first:
  assumes "used_ok {} s" "free_mem s = Some m"
  shows "m \<in> mem_slots s \<and> m_size (mems s m) = 0 \<and>
     find (\<lambda>x. m_size (mems s x) = 0) (tab_slots (\<lambda>_. False) (mem_used s) (mem_tab s)) = Some m"
proof -
  have full: "m_size (mems s (t, i)) \<noteq> 0" if t: "t \<in> set (mem_tab s)" "is_full (mem_used s t)" "i < 8" for t i
  proof -
    have "of_nat (card (taken_in {} s t)) = (8 :: u32)" using assms(1) t(1,2) by (simp add: used_ok_def is_full_def)
    then have "card (taken_in {} s t) = card {..<8 :: nat}" using small_count(2) [OF taken_in_le(1)] by simp
    moreover have "taken_in {} s t \<subseteq> {..<8}" by (auto simp: taken_in_def)
    ultimately have "taken_in {} s t = {..<8}" using card_subset_eq by blast
    then show ?thesis using t(3) by (auto simp: taken_in_def)
  qed
  have "free_mem s = find (\<lambda>x. \<not> is_full (mem_used s (fst x)) \<and> m_size (mems s x) = 0) (tab_slots (\<lambda>_. False) (mem_used s) (mem_tab s))"
    unfolding free_mem_def slots_filter [of is_full "mem_used s" "mem_tab s" "mem_used s"] find_filter ..
  also have "\<dots> = find (\<lambda>x. m_size (mems s x) = 0) (tab_slots (\<lambda>_. False) (mem_used s) (mem_tab s))"
  proof (rule find_cong [OF refl])
    fix x assume "x \<in> set (tab_slots (\<lambda>_. False) (mem_used s) (mem_tab s))"
    then have x: "fst x \<in> set (mem_tab s)" "snd x < 8" by (simp_all add: slots_mem)
    show "(\<not> is_full (mem_used s (fst x)) \<and> m_size (mems s x) = 0) = (m_size (mems s x) = 0)"
      using full [OF x(1) _ x(2)] by auto
  qed
  finally have f: "find (\<lambda>x. m_size (mems s x) = 0) (tab_slots (\<lambda>_. False) (mem_used s) (mem_tab s)) = Some m" using assms(2) by simp
  then have "m \<in> mem_slots s" "m_size (mems s m) = 0"
    using find_SomeD [OF f] mem_slots_mem by auto
  then show ?thesis using f by blast
qed

subsection \<open>What a call leaves alone\<close>

definition keeps :: "lwt_shm \<Rightarrow> lwt_shm \<Rightarrow> bool" where
  "keeps s s' \<longleftrightarrow>
     relation_slots s \<subseteq> relation_slots s' \<and> app_slots s \<subseteq> app_slots s' \<and> live_mems s \<subseteq> live_mems s' \<and>
     (\<forall>r \<in> relation_slots s. r_linked (relations s r) \<and> r_app (relations s r) \<noteq> None \<longrightarrow> relations s' r = relations s r) \<and>
     (\<forall>a \<in> app_slots s. use_num (apps s a) = 1 \<longrightarrow> apps s' a = apps s a) \<and>
     (\<forall>m \<in> live_mems s. mems s' m = mems s m \<and> first_at s' (m_addr (mems s m)) = first_at s (m_addr (mems s m)))"

lemma keeps_refl [simp]: "keeps s s"
  by (simp add: keeps_def)

lemma keeps_trans: "keeps s s' \<Longrightarrow> keeps s' s'' \<Longrightarrow> keeps s s''"
proof -
  assume k: "keeps s s'" "keeps s' s''"
  have "relations s'' x = relations s x" if "x \<in> relation_slots s" "r_linked (relations s x) \<and> r_app (relations s x) \<noteq> None" for x
    using k that by (auto simp: keeps_def)
  moreover have "apps s'' a = apps s a" if "a \<in> app_slots s" "use_num (apps s a) = 1" for a
    using k that by (auto simp: keeps_def)
  moreover have "mems s'' m = mems s m \<and> first_at s'' (m_addr (mems s m)) = first_at s (m_addr (mems s m))" if m: "m \<in> live_mems s" for m
  proof -
    have m': "m \<in> live_mems s'" "mems s' m = mems s m" "first_at s' (m_addr (mems s m)) = first_at s (m_addr (mems s m))"
      using k(1) m by (auto simp: keeps_def)
    have "mems s'' m = mems s' m \<and> first_at s'' (m_addr (mems s' m)) = first_at s' (m_addr (mems s' m))"
      using k(2) m'(1) unfolding keeps_def by blast
    then show ?thesis unfolding m'(2,3) .
  qed
  moreover have "relation_slots s \<subseteq> relation_slots s''" "app_slots s \<subseteq> app_slots s''" "live_mems s \<subseteq> live_mems s''"
    using k unfolding keeps_def by (meson subset_trans)+
  ultimately show "keeps s s''" unfolding keeps_def by simp
qed

lemma relation_ok_keeps:
  assumes "keeps s s'" "relation_ok s m r" "m \<in> live_mems s"
  shows "relation_ok s' m r \<and> holder s' r = holder s r"
proof -
  obtain a where a: "r \<in> relation_slots s" "r_linked (relations s r)" "r_mem (relations s r) = Some m"
    "r_app (relations s r) = Some a" "holds s a r m" using assms(2) by (auto simp: relation_ok_def)
  have r: "relations s' r = relations s r" "r \<in> relation_slots s'" using assms(1) a by (auto simp: keeps_def)
  have "a \<in> app_slots s" "use_num (apps s a) = 1" using a(5) by (simp_all add: holds_def)
  then have ap: "apps s' a = apps s a" "a \<in> app_slots s'" using assms(1) by (auto simp: keeps_def)
  have "mems s' m = mems s m" using assms(1,3) by (simp add: keeps_def)
  then show ?thesis using a r ap by (simp add: relation_ok_def holds_def holder_def)
qed

lemma mem_ok_keeps:
  assumes "keeps s s'" "mem_ok s m" "m \<in> live_mems s"
  shows "mem_ok s' m \<and> rels_of s' m = rels_of s m \<and> map (holder s') (rels_of s m) = map (holder s) (rels_of s m)"
proof -
  have m: "mems s' m = mems s m" "first_at s' (m_addr (mems s m)) = first_at s (m_addr (mems s m))"
    using assms(1,3) by (simp_all add: keeps_def)
  have rels: "rels_of s' m = rels_of s m" using m(1) by (simp add: rels_of_def)
  have "\<forall>r \<in> set (rels_of s m). relation_ok s m r" using assms(2) by (simp add: mem_ok_def)
  then have "\<forall>r \<in> set (rels_of s m). relation_ok s' m r \<and> holder s' r = holder s r"
    using relation_ok_keeps [OF assms(1) _ assms(3)] by blast
  then show ?thesis using assms(2) m rels by (simp add: mem_ok_def)
qed

lemma shm_ok_mem: "shm_ok T D s \<Longrightarrow> m \<in> live_mems s \<Longrightarrow> mem_ok s m"
  by (simp add: shm_ok_def live_mems_def)

lemma shm_ok_empty: "shm_ok T D s \<Longrightarrow> m \<in> mem_slots s \<Longrightarrow> m_size (mems s m) = 0 \<Longrightarrow> rels_of s m = []"
  by (simp add: shm_ok_def mem_ok_def)

lemma shm_ok_app: "shm_ok T D s \<Longrightarrow> fst a \<in> set (app_tab s) \<Longrightarrow> snd a < 8 \<Longrightarrow> app_ok T (apps s a)"
  by (cases a) (simp add: shm_ok_def app_slots_def)

lemma app_slots_mem: "a \<in> app_slots s \<longleftrightarrow> fst a \<in> set (app_tab s) \<and> snd a < 8"
  by (cases a) (simp add: app_slots_def)

text \<open>A step that changes neither what is in use nor who holds it.\<close>

definition calm :: "u32 set \<Rightarrow> slot set \<Rightarrow> lwt_shm \<Rightarrow> slot set \<Rightarrow> lwt_shm \<Rightarrow> bool" where
  "calm T D s D' s' \<longleftrightarrow> shm_ok T D' s' \<and> keeps s s' \<and> live_mems s' = live_mems s \<and> shm_bmem s' = shm_bmem s"

lemma calmI:
  assumes "shm_ok T D s" "keeps s s'" "live_mems s' = live_mems s" "shm_bmem s' = shm_bmem s" "used_ok D' s'"
    and "\<And>m. m \<in> mem_slots s' \<Longrightarrow> m_size (mems s' m) = 0 \<Longrightarrow> rels_of s' m = []"
    and "\<And>a. a \<in> app_slots s' \<Longrightarrow> app_ok T (apps s' a)" "\<And>t. t \<in> set (relation_tab s') \<Longrightarrow> relation_used s' t = 0"
  shows "calm T D s D' s'"
proof -
  have "mem_ok s' m" if m: "m \<in> mem_slots s'" for m
  proof (cases "m_size (mems s' m) = 0")
    case True
    then show ?thesis using assms(6) [OF m] by (simp add: mem_ok_def)
  next
    case False
    then have "m \<in> live_mems s" using m assms(3) by (auto simp: live_mems_def)
    then show ?thesis using mem_ok_keeps [OF assms(2) shm_ok_mem [OF assms(1)]] by blast
  qed
  then show ?thesis using assms by (simp add: calm_def shm_ok_def)
qed

lemma calm_trans: "calm T D s D' s' \<Longrightarrow> calm T D' s' D'' s'' \<Longrightarrow> calm T D s D'' s''"
  using keeps_trans by (auto simp: calm_def)

subsection \<open>The application of the caller\<close>

lemma add_app_tab_calm:
  assumes "shm_ok T D s" "t \<notin> set (app_tab s)"
  shows "calm T D s D (add_app_tab t s)"
proof -
  let ?s = "add_app_tab t s"
  have fr: "fst a \<noteq> t" if "a \<in> app_slots s" for a using that assms(2) by (auto simp: app_slots_def)
  have fi: "first_at ?s = first_at s" by (rule ext) (simp add: first_at_def add_app_tab_def)
  have ke: "keeps s ?s" unfolding keeps_def fi
    using fr by (auto simp: add_app_tab_def app_slots_def relation_slots_def live_mems_def mem_slots_def)
  show ?thesis
  proof (rule calmI [OF assms(1) ke])
    show "app_ok T (apps ?s a)" if "a \<in> app_slots ?s" for a
      using that assms(1) by (cases a) (auto simp: add_app_tab_def app_slots_def app_ok_def shm_ok_def zero_app_def no_refs_def)
    show "used_ok D ?s" using assms(1) by (simp add: shm_ok_def used_ok_def taken_in_def add_app_tab_def)
    show "rels_of ?s m = []" if "m \<in> mem_slots ?s" "m_size (mems ?s m) = 0" for m
      using shm_ok_empty [OF assms(1), of m] that by (simp add: mem_slots_def rels_of_def add_app_tab_def)
  qed (use assms(1) in \<open>simp_all add: add_app_tab_def shm_ok_def live_mems_def mem_slots_def\<close>)
qed

lemma change_idle_app:
  assumes "shm_ok T D s" "use_num (apps s a) = 0" "app_ok T (f (apps s a))"
    and "mems s' = mems s" "mem_tab s' = mem_tab s" "mem_used s' = mem_used s" "relations s' = relations s"
      "relation_tab s' = relation_tab s" "relation_used s' = relation_used s" "shm_bmem s' = shm_bmem s"
      "apps s' = (apps s)(a := f (apps s a))" "app_tab s' = app_tab s"
  shows "calm T D s D s'"
proof -
  have ke: "keeps s s'" unfolding keeps_def
    using assms(2,4-) by (auto simp: app_slots_def relation_slots_def live_mems_def mem_slots_def first_at_def)
  show ?thesis
  proof (rule calmI [OF assms(1) ke])
    show "app_ok T (apps s' b)" if "b \<in> app_slots s'" for b
      using that assms(1,3,4-) by (auto simp: app_slots_def shm_ok_def)
    show "used_ok D s'" using assms(1,4-) by (simp add: shm_ok_def used_ok_def taken_in_def)
    show "rels_of s' m = []" if "m \<in> mem_slots s'" "m_size (mems s' m) = 0" for m
      using shm_ok_empty [OF assms(1), of m] that assms(4,5) by (simp add: mem_slots_def rels_of_def)
  qed (use assms(1,4-) in \<open>simp_all add: shm_ok_def live_mems_def mem_slots_def\<close>)
qed

lemma app_slotsI: "a \<in> set (tab_slots skip used (app_tab s)) \<Longrightarrow> a \<in> app_slots s"
  by (simp add: slots_mem app_slots_def mem_Times_iff)

lemma free_app_idle:
  assumes "free_app s = Some a"
  shows "a \<in> app_slots s \<and> use_num (apps s a) = 0"
proof -
  note f = find_SomeD [OF assms [unfolded free_app_def]]
  show ?thesis using app_slotsI [OF conjunct1 [OF f]] conjunct2 [OF f] by (rule conjI)
qed

lemma free_app_new: "free_app (add_app_tab t s) = Some (t, 0)"
proof -
  let ?s = "add_app_tab t s"
  have t: "app_tab ?s = t # app_tab s" "\<not> is_full (app_used ?s t)" "use_num (apps ?s (t, 0)) = 0"
    by (simp_all add: add_app_tab_def is_full_def zero_app_def)
  show ?thesis unfolding free_app_def t(1) slots_new [of is_full "app_used ?s" t "app_tab s", OF t(2)] by (rule find_head) (rule t(3))
qed

text \<open>An application with nothing, entered for the thread: its list is empty.\<close>

definition idle_app :: "lwt_shm \<Rightarrow> u32 \<Rightarrow> slot \<Rightarrow> bool" where
  "idle_app s self a \<longleftrightarrow> a \<in> app_slots s \<and> use_num (apps s a) = 0 \<and> a_mem_node (apps s a) = Some [] \<and> lwp_addr (apps s a) = self"

lemma take_app_calm:
  assumes "shm_ok T D s" "free_app s = Some a" "self \<in> T"
  shows "calm T D s D (upd_app a (\<lambda>x. x\<lparr>lwp_addr := self\<rparr>) (take_app a s)) \<and>
    idle_app (upd_app a (\<lambda>x. x\<lparr>lwp_addr := self\<rparr>) (take_app a s)) self a"
proof -
  let ?s = "upd_app a (\<lambda>x. x\<lparr>lwp_addr := self\<rparr>) (take_app a s)"
  note a = free_app_idle [OF assms(2)]
  have "app_ok T (apps s a)" using assms(1) a by (simp add: shm_ok_def)
  then have "calm T D s D ?s"
    by (intro change_idle_app [where f = "\<lambda>x. x\<lparr>a_mem_node := Some [], lwp_addr := self\<rparr>" and a = a])
      (use assms a in \<open>simp_all add: upd_app_def take_app_def app_ok_def no_refs_def\<close>)
  moreover have "idle_app ?s self a" using a by (simp add: idle_app_def upd_app_def take_app_def app_slots_def)
  ultimately show ?thesis by blast
qed

lemma caller_unknown:
  assumes "shm_ok T D s" "lwp \<notin> insert 0 T"
  shows "find_shm_app lwp s = None"
proof -
  have "lwp_addr (apps s a) \<noteq> lwp" if "a \<in> set (tab_slots is_unused (app_used s) (app_tab s))" for a
  proof -
    have "a \<in> app_slots s" using app_slotsI [OF that] .
    then show ?thesis using assms(1,2) by (auto simp: shm_ok_def app_ok_def)
  qed
  then show ?thesis unfolding find_shm_app_def find_None_iff by blast
qed

lemma app_of_caller_new:
  assumes "shm_ok T D s" "lwp \<notin> insert 0 T" "self \<in> T" "for_app h = Some t" "t \<notin> set (app_tab s)"
  shows "\<exists>a s'. app_of_caller h self lwp s = (Some a, s') \<and> calm T D s D s' \<and> idle_app s' self a \<and>
    relation_tab s' = relation_tab s \<and> mem_tab s' = mem_tab s"
proof -
  have "find_shm_app lwp s = None" by (rule caller_unknown [OF assms(1,2)])
  moreover note new = free_app_new [of t s]
  ultimately show ?thesis
  proof (cases "free_app s")
    case None
    note c = add_app_tab_calm [OF assms(1,5)]
    have "shm_ok T D (add_app_tab t s)" using c by (simp add: calm_def)
    from take_app_calm [OF this new assms(3)] calm_trans [OF c] show ?thesis
      using None new \<open>find_shm_app lwp s = None\<close> assms(4)
      by (auto simp: app_of_caller_def get_shm_app_def upd_app_def take_app_def add_app_tab_def)
  next
    case (Some a)
    then show ?thesis using take_app_calm [OF assms(1) Some assms(3)] \<open>find_shm_app lwp s = None\<close>
      by (auto simp: app_of_caller_def get_shm_app_def upd_app_def take_app_def)
  qed
qed

subsection \<open>The reference, the relation and the piece of memory\<close>

lemma ref_loop_zero: "rs = zero_ref # rs' \<Longrightarrow> addr = 0 \<Longrightarrow> ref_loop addr rs i e = Some i"
  by (simp add: zero_ref_def)

lemma ref_loop_zeros: "ref_loop addr (replicate n zero_ref) i (Some e) = (if addr = 0 \<and> n \<noteq> 0 then Some i else Some e)"
  by (induction n arbitrary: i) (auto simp: zero_ref_def)

lemma ref_loop_none: "ref_loop addr (replicate 8 zero_ref) 0 None = Some 0"
proof -
  have "replicate 8 zero_ref = zero_ref # replicate 7 zero_ref" by (simp add: numeral_eq_Suc)
  then show ?thesis by (simp add: ref_loop_zeros) (simp add: zero_ref_def ref_loop_zeros)
qed

lemma ref_of_idle:
  assumes "shm_ok T D s" "idle_app s self a"
  shows "\<exists>s'. get_shm_mem_ref True a addr s = Some (Some 0, s') \<and> calm T D s D s' \<and> idle_app s' self a \<and>
    ref_tab (apps s' a) = replicate 8 zero_ref \<and> ref_tab_size (apps s' a) = 8 \<and>
    relation_tab s' = relation_tab s \<and> mem_tab s' = mem_tab s"
proof -
  have ok: "app_ok T (apps s a)" and u: "use_num (apps s a) = 0" using assms by (simp_all add: idle_app_def shm_ok_def)
  then have "no_refs (apps s a)" by (simp add: app_ok_def)
  then consider "ref_tab (apps s a) = []" "ref_tab_size (apps s a) = 0" | "ref_tab (apps s a) = replicate 8 zero_ref" "ref_tab_size (apps s a) = 8"
    by (auto simp: no_refs_def)
  then show ?thesis
  proof cases
    case 1
    let ?s = "upd_app a (\<lambda>x. x\<lparr>ref_tab := replicate 8 zero_ref, ref_tab_size := 8\<rparr>) s"
    have "get_shm_mem_ref True a addr s = Some (Some 0, ?s)" using 1 by (simp add: get_shm_mem_ref_def)
    moreover have "calm T D s D ?s"
      by (rule change_idle_app [OF assms(1) u, where f = "\<lambda>x. x\<lparr>ref_tab := replicate 8 zero_ref, ref_tab_size := 8\<rparr>"])
        (use ok in \<open>simp_all add: upd_app_def app_ok_def no_refs_def\<close>)
    ultimately show ?thesis using assms(2) by (simp add: idle_app_def upd_app_def app_slots_def)
  next
    case 2
    then have "get_shm_mem_ref True a addr s = Some (Some 0, s)" by (simp add: get_shm_mem_ref_def ref_loop_none)
    moreover have "calm T D s D s" using assms(1) by (simp add: calm_def)
    ultimately show ?thesis using 2 assms(2) by blast
  qed
qed

lemma ref_of_holder:
  assumes "one_ref addr (apps s a)" "addr \<noteq> 0"
  shows "get_shm_mem_ref mem a addr s = Some (Some 0, s)"
  using assms by (simp add: get_shm_mem_ref_def one_ref_def)

text \<open>A relation that is free is in no list.\<close>

definition free_rel :: "lwt_shm \<Rightarrow> slot \<Rightarrow> bool" where
  "free_rel s r \<longleftrightarrow> r \<in> relation_slots s \<and> (r_app (relations s r) = None \<or> \<not> r_linked (relations s r))"

lemma calm_same_mems:
  assumes "shm_ok T D s" "keeps s s'" "mems s' = mems s" "mem_tab s' = mem_tab s" "mem_used s' = mem_used s"
    "apps s' = apps s" "app_tab s' = app_tab s" "shm_bmem s' = shm_bmem s"
    "\<And>t. t \<in> set (relation_tab s') \<Longrightarrow> relation_used s' t = 0"
  shows "calm T D s D s'"
proof (rule calmI [OF assms(1,2)])
  show "used_ok D s'" using assms(1,3-5) by (simp add: shm_ok_def used_ok_def taken_in_def)
  show "rels_of s' m = []" if "m \<in> mem_slots s'" "m_size (mems s' m) = 0" for m
    using shm_ok_empty [OF assms(1), of m] that assms(3,4) by (simp add: mem_slots_def rels_of_def)
  show "app_ok T (apps s' a)" if "a \<in> app_slots s'" for a
    using that shm_ok_app [OF assms(1)] assms(6,7) by (simp add: app_slots_mem)
qed (use assms in \<open>simp_all add: live_mems_def mem_slots_def\<close>)

lemma free_relation_free:
  assumes "free_relation s = Some r"
  shows "free_rel s r"
proof -
  note f = find_SomeD [OF assms [unfolded free_relation_def]]
  show ?thesis using f by (simp add: free_rel_def slots_mem relation_slots_def mem_Times_iff)
qed

lemma get_shm_relation_free:
  assumes "shm_ok T D s" "tab = Some t" "t \<notin> set (relation_tab s)"
  shows "\<exists>r s'. get_shm_relation tab s = (Some r, s') \<and> calm T D s D s' \<and> free_rel s' r \<and>
    apps s' = apps s \<and> app_tab s' = app_tab s \<and> mems s' = mems s \<and> mem_tab s' = mem_tab s \<and> mem_used s' = mem_used s"
proof (cases "free_relation s")
  case (Some r)
  then show ?thesis using assms(1) free_relation_free [OF Some] by (simp add: get_shm_relation_def calm_def)
next
  case None
  let ?s = "add_relation_tab t s"
  have fr: "fst r \<noteq> t" if "r \<in> relation_slots s" for r using that assms(3) by (auto simp: relation_slots_def)
  have fi: "first_at ?s = first_at s" by (rule ext) (simp add: first_at_def add_relation_tab_def)
  have t: "relation_tab ?s = t # relation_tab s" "\<not> is_full (relation_used ?s t)" "r_app (relations ?s (t, 0)) = None"
    by (simp_all add: add_relation_tab_def is_full_def zero_relation_def)
  have f: "free_relation ?s = Some (t, 0)"
    unfolding free_relation_def t(1) slots_new [of is_full "relation_used ?s" t "relation_tab s", OF t(2)]
    by (rule find_head) (simp add: t(3))
  have "keeps s ?s" unfolding keeps_def fi
    using fr by (auto simp: add_relation_tab_def app_slots_def relation_slots_def live_mems_def mem_slots_def)
  then have "calm T D s D ?s"
    by (rule calm_same_mems [OF assms(1)]) (use assms(1) in \<open>auto simp: add_relation_tab_def shm_ok_def\<close>)
  then show ?thesis using None assms(2) f free_relation_free [OF f]
    by (simp add: get_shm_relation_def) (simp add: add_relation_tab_def)
qed

text \<open>A new piece of memory is the first free one, so no stale address is in front of it.\<close>

definition all_slots :: "lwt_shm \<Rightarrow> slot list" where
  "all_slots s = tab_slots (\<lambda>_. False) (mem_used s) (mem_tab s)"

definition taken_mem :: "lwt_shm \<Rightarrow> slot \<Rightarrow> bool" where
  "taken_mem s m \<longleftrightarrow> m \<in> mem_slots s \<and> m_size (mems s m) = 0 \<and> m_app_node (mems s m) = Some [] \<and>
     find (\<lambda>x. m_size (mems s x) = 0) (all_slots s) = Some m"

lemma first_at_all: "first_at s addr = find (\<lambda>x. m_addr (mems s x) = addr) (all_slots s)"
  by (simp add: first_at_def all_slots_def)

lemma all_slots_cong: "mem_tab s' = mem_tab s \<Longrightarrow> all_slots s' = all_slots s"
  by (simp add: all_slots_def tab_slots_def)

lemma find_cong2: "(\<And>x. x \<in> set xs \<Longrightarrow> P x = Q x) \<Longrightarrow> find P xs = find Q xs"
  by (rule find_cong [OF refl])

lemma add_mem_tab_calm:
  assumes "shm_ok T {} s" "t \<notin> set (mem_tab s)"
  shows "calm T {} s {} (add_mem_tab t s)"
proof -
  let ?s = "add_mem_tab t s"
  have fr: "fst m \<noteq> t" if "m \<in> mem_slots s" for m using that assms(2) by (auto simp: mem_slots_def)
  have live_mems: "live_mems ?s = live_mems s"
    using fr by (auto simp: live_mems_def mem_slots_def add_mem_tab_def zero_mem_def split: if_splits)
  have all: "all_slots ?s = map (Pair t) [0..<8] @ all_slots s"
    by (simp add: all_slots_def add_mem_tab_def tab_slots_Cons) (simp add: tab_slots_def)
  have fi: "first_at ?s (m_addr (mems s m)) = first_at s (m_addr (mems s m))" if m: "m \<in> live_mems s" for m
  proof -
    have "m_addr (mems s m) \<noteq> 0" using shm_ok_mem [OF assms(1) m] m by (auto simp: mem_ok_def live_mems_def split: if_splits)
    then have "find (\<lambda>x. m_addr (mems ?s x) = m_addr (mems s m)) (map (Pair t) [0..<8]) = None"
      by (auto simp: find_None_iff add_mem_tab_def zero_mem_def)
    moreover have "find P (xs @ ys) = find P ys" if "find P xs = None" for P and xs ys :: "slot list"
      using that by (induction xs) (auto split: if_splits)
    ultimately have "first_at ?s (m_addr (mems s m)) = find (\<lambda>x. m_addr (mems ?s x) = m_addr (mems s m)) (all_slots s)"
      unfolding first_at_all all by blast
    also have "\<dots> = first_at s (m_addr (mems s m))"
      unfolding first_at_all
      by (rule find_cong2) (use assms(2) in \<open>auto simp: all_slots_def slots_mem add_mem_tab_def\<close>)
    finally show ?thesis .
  qed
  have old: "mems ?s m = mems s m" if "m \<in> mem_slots s" for m using fr [OF that] by (simp add: add_mem_tab_def)
  have "keeps s ?s" unfolding keeps_def
    using fi live_mems old by (auto simp: app_slots_def relation_slots_def live_mems_def) (auto simp: add_mem_tab_def)
  then show ?thesis
  proof (rule calmI [OF assms(1)])
    show "used_ok {} ?s"
    proof -
      have "taken_in {} ?s t = {}" by (auto simp: taken_in_def add_mem_tab_def zero_mem_def)
      moreover have "taken_in {} ?s u = taken_in {} s u" if "u \<noteq> t" for u using that by (simp add: taken_in_def add_mem_tab_def)
      ultimately show ?thesis using assms by (auto simp: shm_ok_def used_ok_def add_mem_tab_def)
    qed
    show "rels_of ?s m = []" if m: "m \<in> mem_slots ?s" "m_size (mems ?s m) = 0" for m
    proof (cases "fst m = t")
      case True
      then show ?thesis by (simp add: rels_of_def add_mem_tab_def zero_mem_def)
    next
      case False
      then have "m \<in> mem_slots s" "mems ?s m = mems s m" using m(1) by (auto simp: mem_slots_def add_mem_tab_def)
      then show ?thesis using shm_ok_empty [OF assms(1)] m(2) by (simp add: rels_of_def)
    qed
    show "app_ok T (apps ?s a)" if "a \<in> app_slots ?s" for a
      using that shm_ok_app [OF assms(1)] by (simp add: app_slots_mem add_mem_tab_def)
  qed (use assms(1) live_mems in \<open>auto simp: add_mem_tab_def shm_ok_def\<close>)
qed

lemma free_mem_new: "free_mem (add_mem_tab t s) = Some (t, 0)"
proof -
  let ?s = "add_mem_tab t s"
  have t: "mem_tab ?s = t # mem_tab s" "\<not> is_full (mem_used ?s t)" "m_size (mems ?s (t, 0)) = 0"
    by (simp_all add: add_mem_tab_def is_full_def zero_mem_def)
  show ?thesis unfolding free_mem_def t(1) slots_new [of is_full "mem_used ?s" t "mem_tab s", OF t(2)]
    by (rule find_head) (rule t(3))
qed

lemma take_mem_calm:
  assumes "shm_ok T {} s" "free_mem s = Some m"
  shows "calm T {} s {m} (take_mem m s) \<and> taken_mem (take_mem m s) m"
proof -
  let ?s = "take_mem m s"
  have u: "used_ok {} s" using assms(1) by (simp add: shm_ok_def)
  note m = free_mem_first [OF u assms(2)]
  have sz: "m_size (mems ?s x) = m_size (mems s x)" "m_addr (mems ?s x) = m_addr (mems s x)" for x
    by (simp_all add: take_mem_def upd_mem_def)
  have tb: "mem_tab ?s = mem_tab s" by (simp add: take_mem_def upd_mem_def)
  have ms: "mem_slots ?s = mem_slots s" by (simp add: mem_slots_def tb)
  have live_mems: "live_mems ?s = live_mems s" by (simp add: live_mems_def ms sz)
  have fi: "first_at ?s = first_at s" by (rule ext) (simp add: first_at_all all_slots_cong [OF tb] sz)
  have "m \<notin> live_mems s" using m by (simp add: live_mems_def)
  then have "keeps s ?s" unfolding keeps_def fi live_mems
    by (auto simp: take_mem_def upd_mem_def app_slots_def relation_slots_def)
  then have "calm T {} s {m} ?s"
  proof (rule calmI [OF assms(1)])
    show "used_ok {m} ?s" unfolding used_ok_def tb
    proof
      fix t assume t: "t \<in> set (mem_tab s)"
      show "mem_used ?s t = of_nat (card (taken_in {m} ?s t))"
      proof (cases "t = fst m")
        case True
        then have "taken_in {m} ?s t = insert (snd m) (taken_in {} s t)" "snd m \<notin> taken_in {} s t"
          using m by (auto simp: taken_in_def sz mem_slots_def)
        then show ?thesis using u t True taken_in_le(2) [of "{}" s t]
          by (simp add: used_ok_def take_mem_def upd_mem_def)
      next
        case False
        then have "taken_in {m} ?s t = taken_in {} s t" by (auto simp: taken_in_def sz)
        then show ?thesis using u t False by (simp add: used_ok_def take_mem_def upd_mem_def)
      qed
    qed
    show "rels_of ?s x = []" if "x \<in> mem_slots ?s" "m_size (mems ?s x) = 0" for x
      using shm_ok_empty [OF assms(1), of x] that unfolding ms sz
      by (cases "x = m") (simp_all add: rels_of_def take_mem_def upd_mem_def)
    show "app_ok T (apps ?s a)" if "a \<in> app_slots ?s" for a
      using that shm_ok_app [OF assms(1)] by (simp add: app_slots_mem take_mem_def upd_mem_def)
  qed (use assms(1) live_mems in \<open>simp_all add: take_mem_def upd_mem_def shm_ok_def\<close>)
  moreover have "taken_mem ?s m" unfolding taken_mem_def ms sz all_slots_cong [OF tb]
    using m by (simp add: all_slots_def) (simp add: take_mem_def upd_mem_def)
  ultimately show ?thesis by blast
qed

lemma get_shm_mem_taken:
  assumes "shm_ok T {} s" "tab = Some t" "t \<notin> set (mem_tab s)"
  shows "\<exists>m s'. get_shm_mem tab s = (Some m, s') \<and> calm T {} s {m} s' \<and> taken_mem s' m \<and>
    apps s' = apps s \<and> app_tab s' = app_tab s \<and> relation_tab s' = relation_tab s"
proof (cases "free_mem s")
  case (Some m)
  then show ?thesis using take_mem_calm [OF assms(1) Some] by (simp add: get_shm_mem_def) (simp add: take_mem_def upd_mem_def)
next
  case None
  note c = add_mem_tab_calm [OF assms(1,3)]
  have "shm_ok T {} (add_mem_tab t s)" using c by (simp add: calm_def)
  from take_mem_calm [OF this free_mem_new] have t: "calm T {} (add_mem_tab t s) {(t, 0)} (take_mem (t, 0) (add_mem_tab t s))"
    "taken_mem (take_mem (t, 0) (add_mem_tab t s)) (t, 0)" by simp_all
  show ?thesis using None assms(2) free_mem_new [of t s] calm_trans [OF c t(1)] t(2)
    by (simp add: get_shm_mem_def) (simp add: take_mem_def upd_mem_def add_mem_tab_def)
qed

subsection \<open>Allocating\<close>

definition mem_addrs :: "lwt_shm \<Rightarrow> u32 set" where
  "mem_addrs s = (\<lambda>m. m_addr (mems s m)) ` live_mems s"

lemma free_rel_not_listed: "shm_ok T D s \<Longrightarrow> m \<in> live_mems s \<Longrightarrow> free_rel s r \<Longrightarrow> r \<notin> set (rels_of s m)"
  using shm_ok_mem [of T D s m] by (auto simp: mem_ok_def relation_ok_def free_rel_def)

lemma all_slots_mem: "x \<in> set (all_slots s) \<longleftrightarrow> x \<in> mem_slots s"
  unfolding all_slots_def by (rule mem_slots_mem [symmetric])

lemma fill_slot:
  assumes ok: "shm_ok T {m} s" and tm: "taken_mem s m" and ia: "idle_app s self a" and fr: "free_rel s r"
    and refs: "ref_tab (apps s a) = replicate 8 zero_ref" "ref_tab_size (apps s a) = 8"
    and p: "p \<noteq> 0" "p \<notin> mem_addrs s" "sz \<noteq> 0"
    and s': "relations s' = (relations s)(r := \<lparr>r_app = Some a, r_mem = Some m, r_linked = True\<rparr>)"
      "mems s' = (mems s)(m := \<lparr>m_app_node = Some [r], m_addr = p, m_size = sz\<rparr>)"
      "apps s' = (apps s)(a := (apps s a)\<lparr>a_mem_node := Some [r], use_num := 1, ref_tab := (ref_tab (apps s a))[0 := \<lparr>ref_addr = p, ref_ref = 1\<rparr>]\<rparr>)"
      "mem_tab s' = mem_tab s" "mem_used s' = mem_used s" "app_tab s' = app_tab s"
      "relation_tab s' = relation_tab s" "relation_used s' = relation_used s"
  shows "shm_ok T {} s' \<and> keeps s s' \<and> live_mems s' = insert m (live_mems s) \<and> m \<notin> live_mems s \<and> rels_of s' m = [r] \<and> holder s' r = self \<and>
    m_addr (mems s' m) = p"
proof -
  have m: "m \<in> mem_slots s" "m_size (mems s m) = 0" "find (\<lambda>x. m_size (mems s x) = 0) (all_slots s) = Some m"
    using tm by (simp_all add: taken_mem_def)
  have a: "a \<in> app_slots s" "use_num (apps s a) = 0" "lwp_addr (apps s a) = self" using ia by (simp_all add: idle_app_def)
  have sl: "mem_slots s' = mem_slots s" "app_slots s' = app_slots s" "relation_slots s' = relation_slots s" "all_slots s' = all_slots s"
    using all_slots_cong [OF s'(4)] by (simp_all add: mem_slots_def app_slots_def relation_slots_def s'(4,6,7))
  have ml: "m \<notin> live_mems s" using m by (simp add: live_mems_def)
  have live_mems: "live_mems s' = insert m (live_mems s)" using m(1) p(3) sl(1) by (auto simp: live_mems_def s'(2) split: if_splits)
  have old: "mems s' x = mems s x" if "x \<in> live_mems s" for x using that ml s'(2) by auto
  have fold: "first_at s' (m_addr (mems s x)) = first_at s (m_addr (mems s x))" if x: "x \<in> live_mems s" for x
  proof -
    have f: "first_at s (m_addr (mems s x)) = Some x"
      using shm_ok_mem [OF ok x] x by (auto simp: mem_ok_def live_mems_def split: if_splits)
    have np: "m_addr (mems s x) \<noteq> p" using p(2) x by (auto simp: mem_addrs_def)
    have "first_at s' (m_addr (mems s x)) = Some x"
      unfolding first_at_all sl(4)
    proof (rule find_fewer [OF f [unfolded first_at_all]])
      show "m_addr (mems s' x) = m_addr (mems s x)" using old [OF x] by simp
      show "m_addr (mems s y) = m_addr (mems s x)" if "m_addr (mems s' y) = m_addr (mems s x)" for y
        using that np by (cases "y = m") (simp_all add: s'(2))
    qed
    then show ?thesis using f by simp
  qed
  have fnew: "first_at s' p = Some m"
    unfolding first_at_all sl(4)
  proof (rule find_fewer [OF m(3)])
    show "m_addr (mems s' m) = p" by (simp add: s'(2))
    show "m_size (mems s y) = 0" if y: "y \<in> set (all_slots s)" "m_addr (mems s' y) = p" for y
    proof (cases "y = m")
      case False
      then have "m_addr (mems s y) = p" using y(2) by (simp add: s'(2))
      then have "y \<notin> live_mems s" using p(2) unfolding mem_addrs_def by blast
      then show ?thesis using y(1) by (simp add: live_mems_def all_slots_mem)
    qed (use m in simp)
  qed
  have ke: "keeps s s'"
  proof -
    have "relations s' x = relations s x" if "r_linked (relations s x) \<and> r_app (relations s x) \<noteq> None" for x
      using that fr s'(1) by (auto simp: free_rel_def)
    moreover have "apps s' x = apps s x" if "use_num (apps s x) = 1" for x using that a(2) s'(3) by auto
    ultimately show ?thesis unfolding keeps_def sl live_mems using fold old by (simp add: subset_insertI)
  qed
  have r8: "replicate 8 zero_ref = zero_ref # replicate 7 zero_ref" by (simp add: numeral_eq_Suc)
  have hm: "holds s' a r m" using a(1) refs by (simp add: holds_def sl one_ref_def s'(2,3) r8)
  have new: "mem_ok s' m"
    using hm fr p(1,3) fnew by (simp add: mem_ok_def rels_of_def relation_ok_def sl free_rel_def s'(1,2))
  have mems: "mem_ok s' x" if x: "x \<in> mem_slots s'" for x
  proof (cases "x = m")
    case False
    show ?thesis
    proof (cases "m_size (mems s x) = 0")
      case True
      then show ?thesis using shm_ok_empty [OF ok _ True] x False by (simp add: mem_ok_def rels_of_def sl s'(2))
    next
      case l: False
      then have "x \<in> live_mems s" using x by (simp add: live_mems_def sl)
      then show ?thesis using mem_ok_keeps [OF ke shm_ok_mem [OF ok]] by blast
    qed
  qed (use new in simp)
  have used: "used_ok {} s'" unfolding used_ok_def s'(4,5)
  proof
    fix t assume t: "t \<in> set (mem_tab s)"
    have "taken_in {} s' t = taken_in {m} s t" using p(3) m(2) by (auto simp: taken_in_def s'(2))
    then show "mem_used s t = of_nat (card (taken_in {} s' t))" using ok t by (simp add: shm_ok_def used_ok_def)
  qed
  have "app_ok T (apps s' b)" if "b \<in> app_slots s'" for b
    using that shm_ok_app [OF ok, of b] by (cases "b = a") (simp_all add: s'(3) app_ok_def app_slots_mem s'(6))
  then have "shm_ok T {} s'" using used mems ok by (simp add: shm_ok_def s'(7,8))
  then show ?thesis using ke live_mems ml a(3) by (simp add: rels_of_def holder_def s'(1-3))
qed

text \<open>Holders after a step that keeps what is in use.\<close>

lemma holders_live:
  assumes "shm_ok T D s" "m \<in> live_mems s"
  shows "holders s (m_addr (mems s m)) = mset (map (holder s) (rels_of s m))"
  by (simp add: holders_def find_shm_mem_live [OF assms])

lemma holders_dead:
  assumes "shm_ok T D s" "addr \<notin> mem_addrs s"
  shows "holders s addr = {#}"
proof (cases "find_shm_mem addr s")
  case (Some m)
  note f = find_SomeD [OF Some [unfolded find_shm_mem_def]]
  have "m \<in> mem_slots s" using f mem_slots_mem [of m s "mem_used s"] by (simp add: slots_mem)
  moreover have "m \<notin> live_mems s" using f assms(2) by (auto simp: mem_addrs_def)
  ultimately show ?thesis using shm_ok_empty [OF assms(1)] Some by (simp add: holders_def live_mems_def)
qed (simp add: holders_def)

lemma holders_keeps:
  assumes "shm_ok T D s" "shm_ok T D' s'" "keeps s s'" "m \<in> live_mems s"
  shows "holders s' (m_addr (mems s m)) = holders s (m_addr (mems s m))"
proof -
  have "m \<in> live_mems s'" "mems s' m = mems s m" using assms(3,4) by (auto simp: keeps_def)
  then show ?thesis
    using holders_live [OF assms(1,4)] holders_live [OF assms(2), of m] mem_ok_keeps [OF assms(3) shm_ok_mem [OF assms(1,4)] assms(4)] by simp
qed

lemma mem_addrs_keeps: "keeps s s' \<Longrightarrow> live_mems s' = live_mems s \<Longrightarrow> mem_addrs s' = mem_addrs s"
  by (auto simp: mem_addrs_def keeps_def)

lemma holders_calm:
  assumes "shm_ok T D s" "calm T D s D' s'"
  shows "holders s' = holders s \<and> mem_addrs s' = mem_addrs s"
proof -
  have c: "shm_ok T D' s'" "keeps s s'" "live_mems s' = live_mems s" using assms(2) by (simp_all add: calm_def)
  note addrs = mem_addrs_keeps [OF c(2,3)]
  have "holders s' addr = holders s addr" for addr
  proof (cases "addr \<in> mem_addrs s")
    case True
    then show ?thesis using holders_keeps [OF assms(1) c(1,2)] by (auto simp: mem_addrs_def)
  next
    case False
    then show ?thesis using holders_dead [OF assms(1) False] holders_dead [OF c(1)] addrs by simp
  qed
  then show ?thesis using addrs by blast
qed

text \<open>The heap has memory for whatever a call may need.\<close>

definition shm_roomy :: "answers \<Rightarrow> lwt_shm \<Rightarrow> bool" where
  "shm_roomy h s \<longleftrightarrow> for_refs h \<and> (\<exists>t. for_app h = Some t \<and> t \<notin> set (app_tab s)) \<and>
     (\<exists>t. for_mem h = Some t \<and> t \<notin> set (mem_tab s)) \<and> (\<exists>t. for_relation h = Some t \<and> t \<notin> set (relation_tab s))"

lemma idle_app_cong: "apps s' = apps s \<Longrightarrow> app_tab s' = app_tab s \<Longrightarrow> idle_app s' self a = idle_app s self a"
  by (simp add: idle_app_def app_slots_def)

lemma taken_mem_cong: "mems s' = mems s \<Longrightarrow> mem_tab s' = mem_tab s \<Longrightarrow> taken_mem s' m = taken_mem s m"
  using all_slots_cong [of s' s] by (simp add: taken_mem_def mem_slots_def)

lemma caller_ready:
  assumes "shm_ok T D s" "lwp \<notin> insert 0 T" "self \<in> T" "shm_roomy h s"
  shows "\<exists>a s1 s2. app_of_caller h self lwp s = (Some a, s1) \<and> get_shm_mem_ref (for_refs h) a addr s1 = Some (Some 0, s2) \<and>
    calm T D s D s2 \<and> idle_app s2 self a \<and> ref_tab (apps s2 a) = replicate 8 zero_ref \<and> ref_tab_size (apps s2 a) = 8 \<and>
    relation_tab s2 = relation_tab s \<and> mem_tab s2 = mem_tab s"
proof -
  obtain t where t: "for_app h = Some t" "t \<notin> set (app_tab s)" using assms(4) by (auto simp: shm_roomy_def)
  obtain a s1 where 1: "app_of_caller h self lwp s = (Some a, s1)" "calm T D s D s1" "idle_app s1 self a"
    "relation_tab s1 = relation_tab s" "mem_tab s1 = mem_tab s"
    using app_of_caller_new [OF assms(1-3) t] by blast
  have ok: "shm_ok T D s1" using 1(2) by (simp add: calm_def)
  obtain s2 where 2: "get_shm_mem_ref True a addr s1 = Some (Some 0, s2)" "calm T D s1 D s2" "idle_app s2 self a"
    "ref_tab (apps s2 a) = replicate 8 zero_ref" "ref_tab_size (apps s2 a) = 8" "relation_tab s2 = relation_tab s1" "mem_tab s2 = mem_tab s1"
    using ref_of_idle [OF ok 1(3)] by blast
  have "for_refs h" using assms(4) by (simp add: shm_roomy_def)
  then show ?thesis using 1 2 calm_trans [OF 1(2) 2(2)] by auto
qed

lemma lwt_shm_alloc_ok:
  assumes "shm_ok T {} s" "lwp \<notin> insert 0 T" "self \<in> T" "shm_roomy h s"
    and b: "bmem_malloc (for_block h) sz (shm_bmem s) = (Some p, b)" and p: "p \<noteq> 0" "p \<notin> mem_addrs s" "sz \<noteq> 0"
  shows "\<exists>s'. lwt_shm_alloc h self lwp sz s = Some (p, s') \<and> shm_ok T {} s' \<and>
    holders s' = (holders s)(p := {#self#}) \<and> mem_addrs s' = insert p (mem_addrs s) \<and> shm_bmem s' = b"
proof -
  obtain a s1 s2 where 2: "app_of_caller h self lwp s = (Some a, s1)" "get_shm_mem_ref (for_refs h) a 0 s1 = Some (Some 0, s2)"
    "calm T {} s {} s2" "idle_app s2 self a" "ref_tab (apps s2 a) = replicate 8 zero_ref" "ref_tab_size (apps s2 a) = 8"
    "relation_tab s2 = relation_tab s" "mem_tab s2 = mem_tab s" using caller_ready [OF assms(1-4)] by blast
  obtain t u where t: "for_mem h = Some t" "t \<notin> set (mem_tab s2)" and u: "for_relation h = Some u" "u \<notin> set (relation_tab s2)"
    using assms(4) 2(7,8) by (auto simp: shm_roomy_def)
  have ok2: "shm_ok T {} s2" using 2(3) by (simp add: calm_def)
  obtain m s3 where 3: "get_shm_mem (for_mem h) s2 = (Some m, s3)" "calm T {} s2 {m} s3" "taken_mem s3 m"
    "apps s3 = apps s2" "app_tab s3 = app_tab s2" "relation_tab s3 = relation_tab s2"
    using get_shm_mem_taken [OF ok2 t] by blast
  have ok3: "shm_ok T {m} s3" using 3(2) by (simp add: calm_def)
  have u3: "u \<notin> set (relation_tab s3)" using u(2) 3(6) by simp
  obtain r s4 where 4: "get_shm_relation (for_relation h) s3 = (Some r, s4)" "calm T {m} s3 {m} s4" "free_rel s4 r"
    "apps s4 = apps s3" "app_tab s4 = app_tab s3" "mems s4 = mems s3" "mem_tab s4 = mem_tab s3"
    using get_shm_relation_free [OF ok3 u(1) u3] by blast
  have c: "calm T {} s {m} s4" using calm_trans [OF calm_trans [OF 2(3) 3(2)] 4(2)] .
  have s4: "shm_ok T {m} s4" "shm_bmem s4 = shm_bmem s" "taken_mem s4 m" "idle_app s4 self a"
    "ref_tab (apps s4 a) = replicate 8 zero_ref" "ref_tab_size (apps s4 a) = 8" "p \<notin> mem_addrs s4"
    using c 2(4-6) 3(3-5) 4 p(2) holders_calm [OF assms(1) c] idle_app_cong [of s4 s2 self a] taken_mem_cong [of s4 s3 m]
    by (simp_all add: calm_def)
  define s5 where "s5 = upd_app a (\<lambda>x. x\<lparr>use_num := use_num x + 1\<rparr>) (upd_mem m (\<lambda>x. x\<lparr>m_size := sz\<rparr>)
    (upd_mem m (\<lambda>x. x\<lparr>m_addr := p\<rparr>) (s4\<lparr>shm_bmem := b\<rparr>)))"
  define s6 where "s6 = upd_ref a 0 (\<lambda>_. \<lparr>ref_addr = p, ref_ref = 1\<rparr>) s5"
  have n: "m_app_node (mems s4 m) = Some []" "a_mem_node (apps s4 a) = Some []" "use_num (apps s4 a) = 0"
    using s4(3,4) by (simp_all add: taken_mem_def idle_app_def)
  have n6: "m_app_node (mems s6 m) = Some []" "a_mem_node (apps s6 a) = Some []"
    using n by (simp_all add: s6_def s5_def upd_ref_def upd_app_def upd_mem_def)
  define s7 where "s7 = (upd_app a (\<lambda>x. x\<lparr>a_mem_node := Some [r]\<rparr>) (upd_mem m (\<lambda>x. x\<lparr>m_app_node := Some [r]\<rparr>) s6))
    \<lparr>relations := (relations s6)(r := \<lparr>r_app = Some a, r_mem = Some m, r_linked = True\<rparr>)\<rparr>"
  have rel: "relate r a m s6 = Some s7" using n6 by (simp add: relate_def s7_def)
  have run: "lwt_shm_alloc h self lwp sz s = Some (p, s7)"
    using 2(1,2) 3(1) 4(1) b p(1) rel s4(2) by (simp add: lwt_shm_alloc_def Let_def s6_def s5_def)
  note defs = s7_def s6_def s5_def upd_ref_def upd_app_def upd_mem_def
  have f: "shm_ok T {} s7 \<and> keeps s4 s7 \<and> live_mems s7 = insert m (live_mems s4) \<and> m \<notin> live_mems s4 \<and> rels_of s7 m = [r] \<and> holder s7 r = self \<and>
    m_addr (mems s7 m) = p"
  proof (rule fill_slot [OF s4(1,3,4) 4(3) s4(5,6) p(1) s4(7) p(3)])
    show "mems s7 = (mems s4)(m := \<lparr>m_app_node = Some [r], m_addr = p, m_size = sz\<rparr>)"
      by (cases "mems s4 m") (simp add: defs)
    show "apps s7 = (apps s4)(a := (apps s4 a)\<lparr>a_mem_node := Some [r], use_num := 1,
        ref_tab := (ref_tab (apps s4 a))[0 := \<lparr>ref_addr = p, ref_ref = 1\<rparr>]\<rparr>)"
      using n(3) by (cases "apps s4 a") (simp add: defs)
  qed (simp_all add: defs)
  have hp: "holders s7 p = {#self#}" using holders_live [of T "{}" s7 m] f by simp
  have addrs: "mem_addrs s7 = insert p (mem_addrs s4)" using f by (auto simp: mem_addrs_def keeps_def)
  have "holders s7 x = holders s4 x" if "x \<noteq> p" for x
  proof (cases "x \<in> mem_addrs s4")
    case True
    then show ?thesis using holders_keeps [OF s4(1), of "{}" s7] f by (auto simp: mem_addrs_def)
  next
    case False
    then show ?thesis using holders_dead [OF s4(1) False] holders_dead [of T "{}" s7 x] f addrs that by simp
  qed
  then have "holders s7 = (holders s4)(p := {#self#})" using hp by auto
  moreover have "shm_bmem s7 = b" by (simp add: defs)
  ultimately show ?thesis using run f addrs holders_calm [OF assms(1) c] by simp
qed

subsection \<open>Changing who holds a piece\<close>

text \<open>A relation that stays, with its application.\<close>

definition untouched :: "lwt_shm \<Rightarrow> lwt_shm \<Rightarrow> slot \<Rightarrow> bool" where
  "untouched s s' r \<longleftrightarrow> relations s' r = relations s r \<and> (\<forall>a. r_app (relations s r) = Some a \<longrightarrow> apps s' a = apps s a)"

lemma relation_ok_untouched:
  assumes "relation_tab s' = relation_tab s" "app_tab s' = app_tab s" "relation_ok s m r" "untouched s s' r"
    "m_addr (mems s' m) = m_addr (mems s m)"
  shows "relation_ok s' m r \<and> holder s' r = holder s r"
proof -
  obtain a where a: "r_app (relations s r) = Some a" "holds s a r m" using assms(3) by (auto simp: relation_ok_def)
  have "relations s' r = relations s r" "apps s' a = apps s a" using assms(4) a(1) unfolding untouched_def by blast+
  then show ?thesis using assms(1-3,5) a
    by (simp add: relation_ok_def holds_def holder_def app_slots_def relation_slots_def)
qed

lemma relink:
  assumes ok: "shm_ok T {} s" and m: "m \<in> live_mems s"
    and tabs: "relation_tab s' = relation_tab s" "app_tab s' = app_tab s" "mem_tab s' = mem_tab s" "relation_used s' = relation_used s"
    and s': "mems s' m = (mems s m)\<lparr>m_app_node := Some rs, m_size := sz\<rparr>"
      "\<And>x. x \<in> mem_slots s \<Longrightarrow> x \<noteq> m \<Longrightarrow> mems s' x = mems s x"
    and rs: "distinct rs" "\<forall>r \<in> set rs. relation_ok s' m r" "sz = 0 \<longleftrightarrow> rs = []"
    and others: "\<And>x r. x \<in> live_mems s \<Longrightarrow> x \<noteq> m \<Longrightarrow> r \<in> set (rels_of s x) \<Longrightarrow> untouched s s' r"
    and aok: "\<And>a. a \<in> app_slots s \<Longrightarrow> app_ok T (apps s' a)" and used: "used_ok {} s'"
  shows "shm_ok T {} s' \<and> holders s' = (holders s)(m_addr (mems s m) := mset (map (holder s') rs)) \<and>
    mem_addrs s' = (if sz = 0 then mem_addrs s - {m_addr (mems s m)} else mem_addrs s)"
proof -
  have ms: "mem_slots s' = mem_slots s" by (simp add: mem_slots_def tabs)
  have mm: "m \<in> mem_slots s" using m by (simp add: live_mems_def)
  have addr: "m_addr (mems s' x) = m_addr (mems s x)" if "x \<in> mem_slots s" for x
    using that s' by (cases "x = m") simp_all
  have fi: "first_at s' y = first_at s y" for y
    unfolding first_at_all all_slots_cong [OF tabs(3)] by (rule find_cong2) (simp add: addr all_slots_mem)
  have in_slots: "x \<in> mem_slots s" if "x \<in> live_mems s" for x using that by (simp add: live_mems_def)
  have size: "m_size (mems s' x) = (if x = m then sz else m_size (mems s x))" if "x \<in> mem_slots s" for x
    using that s' by simp
  have live_mems: "live_mems s' = (if sz = 0 then live_mems s - {m} else live_mems s)"
    using m size by (auto simp: live_mems_def ms split: if_splits)
  have mok: "mem_ok s m" by (rule shm_ok_mem [OF ok m])
  have old: "mem_ok s' x \<and> rels_of s' x = rels_of s x \<and> map (holder s') (rels_of s x) = map (holder s) (rels_of s x)" if x: "x \<in> live_mems s" "x \<noteq> m" for x
  proof -
    have xo: "mem_ok s x" by (rule shm_ok_mem [OF ok x(1)])
    have same: "mems s' x = mems s x" by (rule s'(2) [OF in_slots [OF x(1)] x(2)])
    have re: "rels_of s' x = rels_of s x" by (simp add: rels_of_def same)
    have "relation_ok s' x r \<and> holder s' r = holder s r" if r: "r \<in> set (rels_of s x)" for r
    proof (rule relation_ok_untouched [OF tabs(1,2) _ others [OF x r]])
      show "relation_ok s x r" using xo r by (simp add: mem_ok_def)
    qed (simp add: same)
    then show ?thesis using xo by (simp add: mem_ok_def re fi same)
  qed
  have "mem_ok s' m"
    using rs mok m by (simp add: mem_ok_def fi addr [OF mm]) (simp add: rels_of_def s'(1) live_mems_def)
  moreover have "mem_ok s' x" if x: "x \<in> mem_slots s" "x \<notin> live_mems s" for x
  proof -
    have z: "x \<noteq> m" "m_size (mems s x) = 0" using x m by (auto simp: live_mems_def)
    have "rels_of s' x = rels_of s x" "m_size (mems s' x) = 0" using z s'(2) [OF x(1) z(1)] by (simp_all add: rels_of_def)
    then show ?thesis using shm_ok_empty [OF ok x(1) z(2)] by (simp add: mem_ok_def)
  qed
  ultimately have mems: "\<forall>x \<in> mem_slots s'. mem_ok s' x" using old ms by blast
  have "app_ok T (apps s' a)" if "a \<in> app_slots s'" for a using that aok by (simp add: app_slots_def tabs)
  then have ok': "shm_ok T {} s'" using mems used ok by (simp add: shm_ok_def tabs)
  have single: "m_addr (mems s x) \<noteq> m_addr (mems s m)" if x: "x \<in> live_mems s" "x \<noteq> m" for x
    using find_shm_mem_live [OF ok x(1)] find_shm_mem_live [OF ok m] x(2) by auto
  have addrs: "mem_addrs s' = (if sz = 0 then mem_addrs s - {m_addr (mems s m)} else mem_addrs s)"
  proof -
    have "mem_addrs s' = (\<lambda>x. m_addr (mems s x)) ` live_mems s'"
      unfolding mem_addrs_def by (rule image_cong [OF refl]) (simp add: addr live_mems_def ms)
    also have "\<dots> = (if sz = 0 then mem_addrs s - {m_addr (mems s m)} else mem_addrs s)"
      using single m by (auto simp: mem_addrs_def live_mems)
    finally show ?thesis .
  qed
  have "holders s' y = ((holders s)(m_addr (mems s m) := mset (map (holder s') rs))) y" for y
  proof (cases "y = m_addr (mems s m)")
    case True
    show ?thesis
    proof (cases "sz = 0")
      case z: True
      then show ?thesis using holders_dead [OF ok', of y] addrs rs(3) True by simp
    next
      case False
      then have "m \<in> live_mems s'" using live_mems m by simp
      from holders_live [OF ok' this] show ?thesis using True by (simp add: addr [OF mm]) (simp add: rels_of_def s'(1))
    qed
  next
    case False
    show ?thesis
    proof (cases "y \<in> mem_addrs s")
      case True
      then obtain x where x: "x \<in> live_mems s" "y = m_addr (mems s x)" by (auto simp: mem_addrs_def)
      then have xm: "x \<noteq> m" using False by auto
      have "x \<in> live_mems s'" using live_mems x xm by simp
      from holders_live [OF ok' this] holders_live [OF ok x(1)] old [OF x(1) xm] show ?thesis
        unfolding addr [OF in_slots [OF x(1)]] x(2) using x(2) False by simp
    next
      case n: False
      then show ?thesis using holders_dead [OF ok n] holders_dead [OF ok', of y] addrs False by simp
    qed
  qed
  then show ?thesis using ok' addrs by blast
qed

subsection \<open>Retaining\<close>

lemma idle_not_holding:
  assumes "shm_ok T D s" "x \<in> live_mems s" "r \<in> set (rels_of s x)" "use_num (apps s a) = 0" "free_rel s q"
  shows "r \<noteq> q \<and> r_app (relations s r) \<noteq> Some a"
proof -
  have "relation_ok s x r" using shm_ok_mem [OF assms(1,2)] assms(3) by (simp add: mem_ok_def)
  then show ?thesis using assms(4) free_rel_not_listed [OF assms(1,2,5)] assms(3)
    by (auto simp: relation_ok_def holds_def)
qed

text \<open>The search for a relation does not look at applications.\<close>

lemma get_shm_relation_upd_app:
  "get_shm_relation tab (upd_app a f s) = (fst (get_shm_relation tab s), upd_app a f (snd (get_shm_relation tab s)))"
proof -
  have f: "free_relation (upd_app a f x) = free_relation x" for x by (simp add: free_relation_def upd_app_def)
  have "add_relation_tab t (upd_app a f x) = upd_app a f (add_relation_tab t x)" for t x
    by (cases x) (simp add: upd_app_def add_relation_tab_def fun_eq_iff)
  then show ?thesis by (simp add: get_shm_relation_def f split: option.split)
qed

lemma lwt_shm_retain_ok:
  assumes "shm_ok T {} s" "lwp \<notin> insert 0 T" "self \<in> T" "shm_roomy h s" "addr \<in> mem_addrs s"
  shows "\<exists>s'. lwt_shm_retain h self lwp addr s = Some (Done RT_EOK, s') \<and> shm_ok T {} s' \<and>
    holders s' = (holders s)(addr := add_mset self (holders s addr)) \<and> mem_addrs s' = mem_addrs s \<and> shm_bmem s' = shm_bmem s"
proof -
  obtain m where m: "m \<in> live_mems s" "addr = m_addr (mems s m)" using assms(5) by (auto simp: mem_addrs_def)
  have fm: "find_shm_mem addr s = Some m" using find_shm_mem_live [OF assms(1) m(1)] m(2) by simp
  obtain a s1 s2 where 2: "app_of_caller h self lwp s = (Some a, s1)" "get_shm_mem_ref (for_refs h) a addr s1 = Some (Some 0, s2)"
    "calm T {} s {} s2" "idle_app s2 self a" "ref_tab (apps s2 a) = replicate 8 zero_ref" "ref_tab_size (apps s2 a) = 8"
    "relation_tab s2 = relation_tab s" "mem_tab s2 = mem_tab s" using caller_ready [OF assms(1-4)] by blast
  have c2: "shm_ok T {} s2" "keeps s s2" "live_mems s2 = live_mems s" using 2(3) by (simp_all add: calm_def)
  obtain u where u: "for_relation h = Some u" "u \<notin> set (relation_tab s2)" using assms(4) 2(7) by (auto simp: shm_roomy_def)
  obtain r s4 where 4: "get_shm_relation (for_relation h) s2 = (Some r, s4)" "calm T {} s2 {} s4" "free_rel s4 r"
    "apps s4 = apps s2" "app_tab s4 = app_tab s2" "mems s4 = mems s2" "mem_tab s4 = mem_tab s2" "mem_used s4 = mem_used s2"
    using get_shm_relation_free [OF c2(1) u] by blast
  have c: "calm T {} s {} s4" using calm_trans [OF 2(3) 4(2)] .
  then have s4: "shm_ok T {} s4" "keeps s s4" "live_mems s4 = live_mems s" "shm_bmem s4 = shm_bmem s" by (simp_all add: calm_def)
  have m4: "m \<in> live_mems s4" "mems s4 m = mems s m" using m(1) s4(2,3) by (auto simp: keeps_def)
  have mo: "mem_ok s4 m" by (rule shm_ok_mem [OF s4(1) m4(1)])
  then obtain rs where rs: "m_app_node (mems s4 m) = Some rs" "rels_of s4 m = rs"
    using m4(1) by (cases "m_app_node (mems s4 m)") (auto simp: mem_ok_def live_mems_def rels_of_def split: if_splits)
  have ia: "idle_app s4 self a" using 2(4) idle_app_cong [OF 4(4,5)] by simp
  have r8: "replicate 8 zero_ref = zero_ref # replicate 7 zero_ref" by (simp add: numeral_eq_Suc)
  define inc where "inc = upd_ref a 0 (\<lambda>x. x\<lparr>ref_ref := ref_ref x + 1\<rparr>)"
  define set_it where "set_it = upd_ref a 0 (\<lambda>x. x\<lparr>ref_addr := addr\<rparr>)"
  define s5 where "s5 = upd_app a (\<lambda>x. x\<lparr>use_num := use_num x + 1\<rparr>) (set_it (inc s4))"
  define s6 where "s6 = (upd_app a (\<lambda>x. x\<lparr>a_mem_node := Some [r]\<rparr>) (upd_mem m (\<lambda>x. x\<lparr>m_app_node := Some (r # rs)\<rparr>) s5))
    \<lparr>relations := (relations s5)(r := \<lparr>r_app = Some a, r_mem = Some m, r_linked = True\<rparr>)\<rparr>"
  note defs = s6_def s5_def set_it_def inc_def upd_ref_def upd_app_def upd_mem_def
  have zero: "ref_addr (ref_tab (apps (inc s2) a) ! 0) = 0"
    using 2(5) by (simp add: inc_def upd_ref_def upd_app_def r8 zero_ref_def)
  have gr: "get_shm_relation (for_relation h) (set_it (inc s2)) = (Some r, set_it (inc s4))"
    using 4(1) by (simp add: set_it_def inc_def upd_ref_def get_shm_relation_upd_app)
  have rel: "relate r a m s5 = Some s6"
    using rs(1) ia by (simp add: relate_def idle_app_def defs)
  have run: "lwt_shm_retain h self lwp addr s = Some (Done RT_EOK, s6)"
    using fm 2(1,2) zero gr rel
    by (simp add: lwt_shm_retain_def inc_def [symmetric] set_it_def [symmetric] s5_def [symmetric])
  have apps6: "apps s6 = (apps s4)(a := \<lparr>a_mem_node = Some [r], lwp_addr = self,
      ref_tab = \<lparr>ref_addr = addr, ref_ref = 1\<rparr> # replicate 7 zero_ref, ref_tab_size = 8, use_num = 1\<rparr>)"
    using ia 2(5) [unfolded r8] 2(6) 4(4) by (cases "apps s4 a") (simp add: defs idle_app_def zero_ref_def)
  have other6: "relations s6 = (relations s4)(r := \<lparr>r_app = Some a, r_mem = Some m, r_linked = True\<rparr>)"
    "mems s6 = (mems s4)(m := (mems s4 m)\<lparr>m_app_node := Some (r # rs), m_size := m_size (mems s4 m)\<rparr>)"
    "mem_tab s6 = mem_tab s4" "mem_used s6 = mem_used s4" "relation_tab s6 = relation_tab s4" "relation_used s6 = relation_used s4"
    "app_tab s6 = app_tab s4" "shm_bmem s6 = shm_bmem s4"
    by (simp_all add: defs)
  have use0: "use_num (apps s4 a) = 0" using ia by (simp add: idle_app_def)
  have apart: "untouched s4 s6 q" if "x \<in> live_mems s4" "q \<in> set (rels_of s4 x)" for x q
    using idle_not_holding [OF s4(1) that use0 4(3)] by (auto simp: untouched_def apps6 other6)
  have addr6: "m_addr (mems s6 x) = m_addr (mems s4 x)" for x by (simp add: other6(2))
  have old: "relation_ok s6 m q \<and> holder s6 q = holder s4 q" if q: "q \<in> set rs" for q
  proof (rule relation_ok_untouched [OF other6(5,7)])
    show "relation_ok s4 m q" using mo q rs(2) by (simp add: mem_ok_def)
    show "untouched s4 s6 q" using apart [OF m4(1)] q rs(2) by simp
  qed (rule addr6)
  have new: "relation_ok s6 m r" "holder s6 r = self"
    using 4(3) ia m(2) m4(2)
    by (simp_all add: relation_ok_def holds_def one_ref_def holder_def apps6 other6 free_rel_def relation_slots_def app_slots_mem idle_app_def)
  have fresh: "r \<notin> set rs" using free_rel_not_listed [OF s4(1) m4(1) 4(3)] rs(2) by simp
  have "shm_ok T {} s6 \<and> holders s6 = (holders s4)(m_addr (mems s4 m) := mset (map (holder s6) (r # rs))) \<and>
    mem_addrs s6 = (if m_size (mems s4 m) = 0 then mem_addrs s4 - {m_addr (mems s4 m)} else mem_addrs s4)"
  proof (rule relink [OF s4(1) m4(1) other6(5,7,3,6)])
    show "distinct (r # rs)" using mo rs(2) fresh by (simp add: mem_ok_def)
    show "\<forall>q \<in> set (r # rs). relation_ok s6 m q" using old new by simp
    show "m_size (mems s4 m) = 0 \<longleftrightarrow> r # rs = []" using m4(1) by (simp add: live_mems_def)
    show "app_ok T (apps s6 b)" if "b \<in> app_slots s4" for b
      using that assms(3) shm_ok_app [OF s4(1), of b] by (cases "b = a") (simp_all add: apps6 app_ok_def app_slots_mem)
    show "used_ok {} s6"
    proof -
      have "taken_in {} s6 = taken_in {} s4" by (rule ext) (auto simp: taken_in_def other6(2))
      then show ?thesis using s4(1) by (simp add: shm_ok_def used_ok_def other6)
    qed
  qed (use apart in \<open>simp_all add: other6(2)\<close>)
  moreover have "map (holder s6) rs = map (holder s4) rs" using old by simp
  moreover have "holders s4 addr = mset (map (holder s4) rs)" using holders_live [OF s4(1) m4(1)] rs(2) m(2) m4(2) by simp
  moreover have "m_size (mems s4 m) \<noteq> 0" using m4(1) by (simp add: live_mems_def)
  ultimately show ?thesis
    using run new(2) holders_calm [OF assms(1) c] m(2) m4(2) s4(4) other6(8) by auto
qed

subsection \<open>Freeing\<close>

lemma relation_of_caller_finds:
  assumes "shm_ok T D s" "m \<in> live_mems s" "self \<in># holders s (m_addr (mems s m))"
  shows "\<exists>r a. relation_of_caller self (rels_of s m) s = Some (r, a) \<and> r \<in> set (rels_of s m) \<and> r_app (relations s r) = Some a \<and>
    holds s a r m \<and> holder s r = self"
proof -
  have mo: "mem_ok s m" by (rule shm_ok_mem [OF assms(1,2)])
  define P where "P = (\<lambda>r. case r_app (relations s r) of None \<Rightarrow> False | Some a \<Rightarrow> lwp_addr (apps s a) = self)"
  obtain r where r: "r \<in> set (rels_of s m)" "holder s r = self"
    using assms(3) by (auto simp: holders_live [OF assms(1,2)])
  have ro: "relation_ok s m q" if "q \<in> set (rels_of s m)" for q using mo that by (simp add: mem_ok_def)
  have "P r" using ro [OF r(1)] r(2) by (auto simp: P_def relation_ok_def holder_def)
  then have "find P (rels_of s m) \<noteq> None" using r(1) unfolding find_None_iff by blast
  then obtain q where q: "find P (rels_of s m) = Some q" by blast
  note f = find_SomeD [OF q]
  obtain a where a: "r_app (relations s q) = Some a" "holds s a q m" using ro [OF conjunct1 [OF f]] by (auto simp: relation_ok_def)
  have "holder s q = self" using conjunct2 [OF f] a(1) by (simp add: P_def holder_def)
  then show ?thesis using f q a by (simp add: relation_of_caller_def P_def)
qed

text \<open>The state after the relation is taken out.\<close>

lemma drop_ref_state:
  assumes "holds s a r m" "m_addr (mems s m) = addr"
  shows "drop_ref r a 0 s = s\<lparr>mems := (\<lambda>x. (mems s x)\<lparr>m_app_node := map_option (remove1 r) (m_app_node (mems s x))\<rparr>),
     apps := (\<lambda>b. (apps s b)\<lparr>a_mem_node := map_option (remove1 r) (a_mem_node (apps s b))\<rparr>)(a := (apps s a)\<lparr>a_mem_node := Some [],
       ref_tab := replicate 8 zero_ref, use_num := 0\<rparr>),
     relations := (relations s)(r := (relations s r)\<lparr>r_linked := False\<rparr>)\<rparr>"
proof -
  have h: "use_num (apps s a) = 1" "a_mem_node (apps s a) = Some [r]"
    "ref_tab (apps s a) = \<lparr>ref_addr = addr, ref_ref = 1\<rparr> # replicate 7 zero_ref"
    using assms by (simp_all add: holds_def one_ref_def)
  have r8: "replicate 8 zero_ref = zero_ref # replicate 7 zero_ref" by (simp add: numeral_eq_Suc)
  have r0: "ref_tab (apps (upd_ref a 0 (\<lambda>x. x\<lparr>ref_ref := ref_ref x - 1\<rparr>) s) a) ! 0 = \<lparr>ref_addr = addr, ref_ref = 0\<rparr>"
    using h(3) by (simp add: upd_ref_def upd_app_def)
  have "drop_ref r a 0 s = upd_app a (\<lambda>x. x\<lparr>use_num := use_num x - 1\<rparr>) (upd_ref a 0 (\<lambda>x. x\<lparr>ref_addr := 0\<rparr>)
      (unrelate r (upd_ref a 0 (\<lambda>x. x\<lparr>ref_ref := ref_ref x - 1\<rparr>) s)))"
    using h(3) r0 by (simp add: drop_ref_def put_shm_relation_def)
  also have "\<dots> = s\<lparr>mems := (\<lambda>x. (mems s x)\<lparr>m_app_node := map_option (remove1 r) (m_app_node (mems s x))\<rparr>),
     apps := (\<lambda>b. (apps s b)\<lparr>a_mem_node := map_option (remove1 r) (a_mem_node (apps s b))\<rparr>)(a := (apps s a)\<lparr>a_mem_node := Some [],
       ref_tab := replicate 8 zero_ref, use_num := 0\<rparr>),
     relations := (relations s)(r := (relations s r)\<lparr>r_linked := False\<rparr>)\<rparr>"
    using h unfolding r8
    by (cases s; cases "apps s a") (simp add: unrelate_def upd_ref_def upd_app_def zero_ref_def fun_eq_iff)
  finally show ?thesis .
qed

lemma used_ok_same:
  assumes "used_ok {} s" "mem_tab s' = mem_tab s" "mem_used s' = mem_used s" "\<And>x. x \<in> mem_slots s \<Longrightarrow> m_size (mems s' x) = m_size (mems s x)"
  shows "used_ok {} s'"
proof -
  have "taken_in {} s' t = taken_in {} s t" if "t \<in> set (mem_tab s)" for t
    using that assms(4) by (auto simp: taken_in_def mem_slots_def)
  then show ?thesis using assms(1-3) by (simp add: used_ok_def)
qed

lemma used_ok_less:
  assumes "used_ok {} s" "m \<in> live_mems s" "mem_tab s' = mem_tab s" "mem_used s' = (mem_used s)(fst m := mem_used s (fst m) - 1)"
    "\<And>x. x \<in> mem_slots s \<Longrightarrow> m_size (mems s' x) = (if x = m then 0 else m_size (mems s x))"
  shows "used_ok {} s'"
  unfolding used_ok_def assms(3)
proof
  fix t assume t: "t \<in> set (mem_tab s)"
  have sz: "m_size (mems s' (t, i)) = (if (t, i) = m then 0 else m_size (mems s (t, i)))" if "i < 8" for i
    using assms(5) [of "(t, i)"] that t by (simp add: mem_slots_def)
  have u: "mem_used s t = of_nat (card (taken_in {} s t))" using assms(1) t by (simp add: used_ok_def)
  show "mem_used s' t = of_nat (card (taken_in {} s' t))"
  proof (cases "t = fst m")
    case True
    have mi: "snd m \<in> taken_in {} s t" using assms(2) True by (auto simp: taken_in_def live_mems_def mem_slots_def)
    have "taken_in {} s' t = taken_in {} s t - {snd m}" using sz True by (cases m) (auto simp: taken_in_def split: if_splits)
    then have "card (taken_in {} s t) = Suc (card (taken_in {} s' t))"
      using mi taken_in_le(2) [of "{}" s t] by (metis card.remove)
    then show ?thesis using u True assms(4) by simp
  next
    case False
    then have "(t, i) \<noteq> m" for i by auto
    then have "taken_in {} s' t = taken_in {} s t" using sz by (auto simp: taken_in_def)
    then show ?thesis using u False assms(4) by simp
  qed
qed

lemma lwt_shm_free_ok:
  assumes ok: "shm_ok T {} s" and addr: "addr \<in> mem_addrs s" and self: "self \<in># holders s addr"
  shows "\<exists>s'. lwt_shm_free probe h self addr s = Some (Done RT_EOK, s') \<and> shm_ok T {} s' \<and>
    holders s' = (holders s)(addr := holders s addr - {#self#}) \<and>
    mem_addrs s' = (if holders s addr = {#self#} then mem_addrs s - {addr} else mem_addrs s) \<and>
    shm_bmem s' = (if holders s addr = {#self#} then snd (bmem_free probe addr (shm_bmem s)) else shm_bmem s)"
proof -
  obtain m where m: "m \<in> live_mems s" "addr = m_addr (mems s m)" using addr by (auto simp: mem_addrs_def)
  have fm: "find_shm_mem addr s = Some m" using find_shm_mem_live [OF ok m(1)] m(2) by simp
  have mo: "mem_ok s m" and mm: "m \<in> mem_slots s" using shm_ok_mem [OF ok m(1)] m(1) by (simp_all add: live_mems_def)
  define rs where "rs = rels_of s m"
  have node: "m_app_node (mems s m) = Some rs"
    using mo m(1) by (cases "m_app_node (mems s m)") (auto simp: mem_ok_def live_mems_def rs_def rels_of_def split: if_splits)
  obtain r a where r: "relation_of_caller self rs s = Some (r, a)" "r \<in> set rs" "r_app (relations s r) = Some a" "holds s a r m" "holder s r = self"
    using relation_of_caller_finds [OF ok m(1)] self m(2) unfolding rs_def by blast
  have a0: "addr \<noteq> 0" using mo m by (auto simp: mem_ok_def live_mems_def split: if_splits)
  have one: "one_ref addr (apps s a)" using r(4) m(2) by (simp add: holds_def)
  have ra: "ref_addr (ref_tab (apps s a) ! 0) = addr" using one by (simp add: one_ref_def)
  define s1 where "s1 = drop_ref r a 0 s"
  note s1 = s1_def [unfolded drop_ref_state [OF r(4) m(2) [symmetric]]]
  have node1: "m_app_node (mems s1 m) = Some (remove1 r rs)" "m_addr (mems s1 m) = addr" using node m(2) by (simp_all add: s1)
  define s2 where "s2 = (if remove1 r rs = [] then snd (put_shm_mem m (s1\<lparr>shm_bmem := snd (bmem_free probe addr (shm_bmem s1))\<rparr>)) else s1)"
  have run: "lwt_shm_free probe h self addr s = Some (Done RT_EOK, s2)"
    using fm node r(1) ref_of_holder [OF one a0] ra a0 node1
    by (simp add: lwt_shm_free_def s1_def [symmetric] s2_def Let_def)
  define z where "z = (if remove1 r rs = [] then 0 else m_size (mems s m))"
  have rels_other: "r \<notin> set (rels_of s x)" if "x \<in> mem_slots s" "x \<noteq> m" for x
  proof
    assume "r \<in> set (rels_of s x)"
    moreover have "mem_ok s x" using ok that(1) by (simp add: shm_ok_def)
    moreover have "relation_ok s m r" using mo r(2) by (simp add: mem_ok_def rs_def)
    ultimately show False using that(2) by (auto simp: mem_ok_def relation_ok_def)
  qed
  have slot: "m \<in> set (tab_slots (\<lambda>_. False) u (mem_tab s))" for u using mm mem_slots_mem by blast
  have same: "mems s2 x = mems s x" if x: "x \<in> mem_slots s" "x \<noteq> m" for x
  proof -
    have "map_option (remove1 r) (m_app_node (mems s x)) = m_app_node (mems s x)"
      using rels_other [OF x] by (cases "m_app_node (mems s x)") (simp_all add: rels_of_def remove1_idem)
    then have "mems s1 x = mems s x" by (simp add: s1)
    then show ?thesis using x(2) by (simp add: s2_def put_shm_mem_def Let_def upd_mem_def)
  qed
  have at_m: "mems s2 m = (mems s m)\<lparr>m_app_node := Some (remove1 r rs), m_size := z\<rparr>"
    using node slot by (simp add: s2_def z_def put_shm_mem_def Let_def upd_mem_def s1)
  have tabs: "relation_tab s2 = relation_tab s" "app_tab s2 = app_tab s" "mem_tab s2 = mem_tab s" "relation_used s2 = relation_used s"
    "apps s2 = apps s1" "relations s2 = relations s1"
    by (simp_all add: s2_def put_shm_mem_def Let_def upd_mem_def s1)
  have un: "untouched s s2 q" if q: "relation_ok s x q" "q \<noteq> r" for x q
  proof -
    obtain b where b: "r_app (relations s q) = Some b" "holds s b q x" using q(1) by (auto simp: relation_ok_def)
    have "b \<noteq> a" using b(2) r(4) q(2) by (auto simp: holds_def)
    then have "apps s2 b = apps s b" using b(2) q(2) unfolding tabs(5) s1 by (simp add: holds_def)
    then show ?thesis using b(1) q(2) by (simp add: untouched_def tabs(6) s1)
  qed
  have listed: "relation_ok s x q" if "x \<in> live_mems s" "q \<in> set (rels_of s x)" for x q
    using shm_ok_mem [OF ok that(1)] that(2) by (simp add: mem_ok_def)
  have dist: "distinct rs" using mo by (simp add: mem_ok_def rs_def)
  have kept: "relation_ok s2 m q \<and> holder s2 q = holder s q" if q: "q \<in> set (remove1 r rs)" for q
  proof (rule relation_ok_untouched [OF tabs(1,2)])
    have "q \<noteq> r" "q \<in> set rs" using q dist by auto
    then show "relation_ok s m q" "untouched s s2 q" using listed [OF m(1), of q] un [of m q] by (simp_all add: rs_def)
  qed (simp add: at_m)
  have used: "used_ok {} s2"
  proof (cases "remove1 r rs = []")
    case True
    show ?thesis
    proof (rule used_ok_less [OF _ m(1) tabs(3)])
      show "used_ok {} s" using ok by (simp add: shm_ok_def)
      show "mem_used s2 = (mem_used s)(fst m := mem_used s (fst m) - 1)"
        using True slot by (simp add: s2_def put_shm_mem_def Let_def upd_mem_def s1)
      show "m_size (mems s2 x) = (if x = m then 0 else m_size (mems s x))" if "x \<in> mem_slots s" for x
        using True same [OF that] at_m by (simp add: z_def)
    qed
  next
    case False
    show ?thesis
    proof (rule used_ok_same [OF _ tabs(3)])
      show "used_ok {} s" using ok by (simp add: shm_ok_def)
      show "mem_used s2 = mem_used s" using False by (simp add: s2_def s1)
      show "m_size (mems s2 x) = m_size (mems s x)" if "x \<in> mem_slots s" for x
        using False same [OF that] at_m by (cases "x = m") (simp_all add: z_def)
    qed
  qed
  have "shm_ok T {} s2 \<and> holders s2 = (holders s)(m_addr (mems s m) := mset (map (holder s2) (remove1 r rs))) \<and>
    mem_addrs s2 = (if z = 0 then mem_addrs s - {m_addr (mems s m)} else mem_addrs s)"
  proof (rule relink [OF ok m(1) tabs(1-4) at_m same])
    show "distinct (remove1 r rs)" using dist by simp
    show "\<forall>q \<in> set (remove1 r rs). relation_ok s2 m q" using kept by blast
    show "z = 0 \<longleftrightarrow> remove1 r rs = []" using m(1) by (simp add: z_def live_mems_def)
    show "untouched s s2 q" if "x \<in> live_mems s" "x \<noteq> m" "q \<in> set (rels_of s x)" for x q
      using un [OF listed [OF that(1,3)]] rels_other [of x] that by (auto simp: live_mems_def)
    show "app_ok T (apps s2 b)" if b: "b \<in> app_slots s" for b
      using shm_ok_app [OF ok, of b] b r(4)
      by (cases "b = a") (simp_all add: tabs(5) s1 app_ok_def app_slots_mem no_refs_def holds_def one_ref_def)
  qed (use used in simp_all)
  moreover have "mset (map (holder s2) (remove1 r rs)) = holders s addr - {#self#}"
  proof -
    have e1: "map (holder s2) (remove1 r rs) = map (holder s) (remove1 r rs)" using kept by simp
    have e2: "holders s addr = mset (map (holder s) rs)" using holders_live [OF ok m(1)] m(2) by (simp add: rs_def)
    have e3: "mset (map (holder s) rs) = add_mset self (mset (map (holder s) (remove1 r rs)))"
    proof -
      have "mset rs = add_mset r (mset (remove1 r rs))" using r(2) by simp
      then have "image_mset (holder s) (mset rs) = add_mset self (image_mset (holder s) (mset (remove1 r rs)))"
        by (metis image_mset_add_mset r(5))
      then show ?thesis by (simp only: mset_map)
    qed
    show ?thesis unfolding e1 e2 e3 by simp
  qed
  moreover have "remove1 r rs = [] \<longleftrightarrow> holders s addr = {#self#}"
  proof -
    have "holders s addr = mset (map (holder s) rs)" using holders_live [OF ok m(1)] m(2) by (simp add: rs_def)
    then show ?thesis using r(2,5) by (cases rs; cases "tl rs") auto
  qed
  moreover have "z = 0 \<longleftrightarrow> remove1 r rs = []" using m(1) by (simp add: z_def live_mems_def)
  moreover have "shm_bmem s2 = (if remove1 r rs = [] then snd (bmem_free probe addr (shm_bmem s)) else shm_bmem s)"
    by (simp add: s2_def put_shm_mem_def Let_def upd_mem_def s1)
  ultimately show ?thesis using run m(2) by simp
qed

end
