(* ===== verification/ShmRun.thy ===== *)
theory ShmRun
  imports ShmUse
begin

text \<open>
  Any sequence of calls on the shared memory: who holds an address is what one gets by counting the
  calls; the tables of applications grow with the calls and are never used again; a thread without a
  process may allocate once. At the end a small run.
\<close>

subsection \<open>Any sequence of calls\<close>

datatype shm_op = Alloc u32 u32 | Retain u32 u32 | Free u32 u32

text \<open>What the calls do to the holders of an address: the first to ask, one more, one less.\<close>

fun count_op :: "shm_op \<Rightarrow> (u32 \<Rightarrow> u32 multiset) \<Rightarrow> u32 \<Rightarrow> u32 multiset" where
  "count_op (Alloc t p) c = c(p := {#t#})"
| "count_op (Retain t p) c = c(p := add_mset t (c p))"
| "count_op (Free t p) c = c(p := c p - {#t#})"

text \<open>
  Calls of the threads \<open>T\<close> of processes, in any order; the allocator hands out no address that is in
  use, and a thread gives up only what it holds.
\<close>

inductive shm_run :: "u32 set \<Rightarrow> lwt_shm \<Rightarrow> shm_op list \<Rightarrow> lwt_shm \<Rightarrow> bool" for T s0 where
  start: "shm_run T s0 [] s0"
| alloc: "\<lbrakk>shm_run T s0 ops s; t \<in> T; lwp \<notin> insert 0 T; shm_roomy h s; sz \<noteq> 0;
    bmem_malloc (for_block h) sz (shm_bmem s) = (Some p, b); p \<noteq> 0; p \<notin> mem_addrs s;
    lwt_shm_alloc h t lwp sz s = Some (p, s')\<rbrakk> \<Longrightarrow> shm_run T s0 (ops @ [Alloc t p]) s'"
| retain: "\<lbrakk>shm_run T s0 ops s; t \<in> T; lwp \<notin> insert 0 T; shm_roomy h s; p \<in> mem_addrs s;
    lwt_shm_retain h t lwp p s = Some (Done RT_EOK, s')\<rbrakk> \<Longrightarrow> shm_run T s0 (ops @ [Retain t p]) s'"
| free: "\<lbrakk>shm_run T s0 ops s; p \<in> mem_addrs s; t \<in># holders s p;
    lwt_shm_free probe h t p s = Some (Done RT_EOK, s')\<rbrakk> \<Longrightarrow> shm_run T s0 (ops @ [Free t p]) s'"

lemma mem_addrs_held: "shm_ok T D s \<Longrightarrow> p \<in> mem_addrs s \<longleftrightarrow> holders s p \<noteq> {#}"
proof
  assume ok: "shm_ok T D s" and "p \<in> mem_addrs s"
  then obtain m where m: "m \<in> live_mems s" "p = m_addr (mems s m)" by (auto simp: mem_addrs_def)
  have "rels_of s m \<noteq> []" using shm_ok_mem [OF ok m(1)] m(1) by (auto simp: mem_ok_def live_mems_def split: if_splits)
  then show "holders s p \<noteq> {#}" using holders_live [OF ok m(1)] m(2) by simp
next
  assume "shm_ok T D s" "holders s p \<noteq> {#}"
  then show "p \<in> mem_addrs s" using holders_dead by blast
qed

lemma shm_run_counts:
  assumes "shm_run T s0 ops s" "shm_ok T {} s0"
  shows "shm_ok T {} s \<and> holders s = fold count_op ops (holders s0)"
  using assms
proof induction
  case (alloc ops s t lwp h sz p b s')
  then show ?case using lwt_shm_alloc_ok [of T s lwp t h sz p b] by auto
next
  case (retain ops s t lwp h p s')
  then show ?case using lwt_shm_retain_ok [of T s lwp t h p] by auto
next
  case (free ops s p t probe h s')
  then show ?case using lwt_shm_free_ok [of T s p t probe h] by auto
qed simp

lemma holder_frees:
  assumes "shm_ok T {} s" "t \<in># holders s p"
  shows "\<exists>s'. lwt_shm_free probe h t p s = Some (Done RT_EOK, s') \<and> holders s' = (holders s)(p := holders s p - {#t#}) \<and>
    shm_bmem s' = (if holders s p = {#t#} then snd (bmem_free probe p (shm_bmem s)) else shm_bmem s)"
proof -
  have "holders s p \<noteq> {#}" using assms(2) by auto
  then have "p \<in> mem_addrs s" using mem_addrs_held [OF assms(1)] by simp
  from lwt_shm_free_ok [OF assms(1) this assms(2)] show ?thesis by blast
qed

lemma holder_joined:
  assumes "shm_ok T {} s" "holders s p \<noteq> {#}" "t \<in> T" "lwp \<notin> insert 0 T" "shm_roomy h s"
  shows "\<exists>s'. lwt_shm_retain h t lwp p s = Some (Done RT_EOK, s') \<and> holders s' = (holders s)(p := add_mset t (holders s p)) \<and>
    shm_bmem s' = shm_bmem s"
proof -
  have "p \<in> mem_addrs s" using mem_addrs_held [OF assms(1)] assms(2) by simp
  from lwt_shm_retain_ok [OF assms(1,4,3,5) this] show ?thesis by blast
qed

lemma lwt_shm_init_ok: "lwt_shm_init True shm = (RT_EOK, Some s) \<Longrightarrow> shm_ok T {} s \<and> holders s = (\<lambda>_. {#})"
  by (auto simp: lwt_shm_init_def shm_ok_def used_ok_def mem_slots_def app_slots_def holders_def find_shm_mem_def tab_slots_def)

subsection \<open>The tables of applications only grow\<close>

definition apps_counted :: "nat \<Rightarrow> lwt_shm \<Rightarrow> bool" where
  "apps_counted n s \<longleftrightarrow> distinct (app_tab s) \<and> (\<forall>t \<in> set (app_tab s). unat (app_used s t) \<le> 8) \<and>
     sum_list (map (\<lambda>t. unat (app_used s t)) (app_tab s)) = n"

lemma apps_counted_tables: "apps_counted n s \<Longrightarrow> n \<le> 8 * length (app_tab s)"
proof -
  have "sum_list (map f xs) \<le> 8 * length xs" if "\<forall>t \<in> set xs. f t \<le> 8" for f :: "nat \<Rightarrow> nat" and xs
    using that by (induction xs) auto
  then show "apps_counted n s \<Longrightarrow> n \<le> 8 * length (app_tab s)" by (auto simp: apps_counted_def)
qed

lemma sum_list_upd:
  "distinct xs \<Longrightarrow> t \<in> set xs \<Longrightarrow> sum_list (map (f(t := Suc (f t))) xs) = Suc (sum_list (map f xs))" for f :: "'a \<Rightarrow> nat"
proof (induction xs)
  case (Cons x xs)
  then show ?case by (cases "t = x") (simp_all del: fun_upd_apply add: fun_upd_same fun_upd_other)
qed simp

lemma get_shm_app_counted:
  assumes "apps_counted n s" "t \<notin> set (app_tab s)" "get_shm_app (Some t) s = (Some a, s')"
  shows "apps_counted (Suc n) s'"
proof -
  have take: "apps_counted (Suc n) (take_app b x)" if x: "apps_counted n x" "free_app x = Some b" for x b
  proof -
    note f = find_SomeD [OF x(2) [unfolded free_app_def]]
    have b: "fst b \<in> set (app_tab x)" "app_used x (fst b) \<noteq> 8" using f by (simp_all add: slots_mem is_full_def)
    have "unat (app_used x (fst b)) \<noteq> 8" using b(2) by (auto simp: word_unat_eq_iff)
    moreover have "unat (app_used x (fst b)) \<le> 8" using x(1) b(1) by (simp add: apps_counted_def)
    ultimately have lt: "unat (app_used x (fst b)) < 8" by simp
    then have u: "unat (app_used x (fst b) + 1) = Suc (unat (app_used x (fst b)))"
      by (subst unat_add_lem [THEN iffD1]) simp_all
    let ?f = "\<lambda>t. unat (app_used x t)"
    have "(\<lambda>t. unat (app_used (take_app b x) t)) = ?f(fst b := Suc (?f (fst b)))"
      using u by (auto simp: take_app_def upd_app_def)
    then have "sum_list (map (\<lambda>t. unat (app_used (take_app b x) t)) (app_tab x)) = Suc n"
      using sum_list_upd [of "app_tab x" "fst b" ?f] x(1) b(1) by (simp add: apps_counted_def)
    moreover have "app_tab (take_app b x) = app_tab x" "unat (app_used (take_app b x) t) \<le> 8" if "t \<in> set (app_tab x)" for t
      using that x(1) u lt by (auto simp: take_app_def upd_app_def apps_counted_def)
    moreover have "app_tab (take_app b x) = app_tab x" by (simp add: take_app_def upd_app_def)
    ultimately show ?thesis using x(1) by (simp add: apps_counted_def)
  qed
  show ?thesis
  proof (cases "free_app s")
    case (Some b)
    then have "b = a" "s' = take_app a s" using assms(3) by (auto simp: get_shm_app_def)
    then show ?thesis using take [OF assms(1)] Some by simp
  next
    case None
    have "app_used (add_app_tab t s) u = app_used s u" if "u \<in> set (app_tab s)" for u
      using that assms(2) by (auto simp: add_app_tab_def)
    then have "apps_counted n (add_app_tab t s)"
      using assms(1,2) by (simp add: apps_counted_def add_app_tab_def cong: map_cong)
    then show ?thesis using take [OF _ free_app_new] None assms(3) free_app_new [of t s] by (auto simp: get_shm_app_def)
  qed
qed

text \<open>Nothing else in the calls touches these tables.\<close>

lemma ref_app_tables: "get_shm_mem_ref mem a addr s = Some (i, s') \<Longrightarrow> app_tab s' = app_tab s \<and> app_used s' = app_used s"
  by (auto simp: get_shm_mem_ref_def Let_def upd_app_def split: option.splits if_splits)

lemma mem_app_tables: "get_shm_mem tab s = (m, s') \<Longrightarrow> app_tab s' = app_tab s \<and> app_used s' = app_used s"
  by (auto simp: get_shm_mem_def take_mem_def add_mem_tab_def upd_mem_def split: option.splits)

lemma relation_app_tables: "get_shm_relation tab s = (r, s') \<Longrightarrow> app_tab s' = app_tab s \<and> app_used s' = app_used s"
  by (auto simp: get_shm_relation_def add_relation_tab_def split: option.splits)

lemma relate_app_tables: "relate r a m s = Some s' \<Longrightarrow> app_tab s' = app_tab s \<and> app_used s' = app_used s"
  by (auto simp: relate_def upd_app_def upd_mem_def split: bind_splits)

lemma apps_counted_cong: "app_tab s' = app_tab s \<Longrightarrow> app_used s' = app_used s \<Longrightarrow> apps_counted n s' = apps_counted n s"
  by (simp add: apps_counted_def)

lemma caller_counted:
  assumes "shm_ok T D s" "lwp \<notin> insert 0 T" "self \<in> T" "shm_roomy h s" "apps_counted n s" "app_of_caller h self lwp s = (a, s')"
  shows "apps_counted (Suc n) s'"
proof -
  obtain t where t: "for_app h = Some t" "t \<notin> set (app_tab s)" using assms(4) by (auto simp: shm_roomy_def)
  have "find_shm_app lwp s = None" using caller_unknown [OF assms(1,2)] .
  then obtain b s1 where g: "get_shm_app (Some t) s = (b, s1)" "apps_counted (Suc n) s1 \<longrightarrow> apps_counted (Suc n) s'" "b \<noteq> None"
    using assms(6) t(1) app_of_caller_new [OF assms(1-3) t]
    by (auto simp: app_of_caller_def apps_counted_def upd_app_def split: prod.splits option.splits)
  then show ?thesis using get_shm_app_counted [OF assms(5) t(2)] by auto
qed

lemma alloc_app_tables:
  assumes "lwt_shm_alloc h self lwp sz s = Some (p, s')" "app_of_caller h self lwp s = (Some a, s1)"
  shows "app_tab s' = app_tab s1 \<and> app_used s' = app_used s1"
proof -
  obtain i s2 where 2: "get_shm_mem_ref (for_refs h) a 0 s1 = Some (i, s2)"
    using assms by (auto simp: lwt_shm_alloc_def split: bind_splits)
  obtain m s3 where 3: "get_shm_mem (for_mem h) s2 = (m, s3)" by fastforce
  obtain r s4 where 4: "get_shm_relation (for_relation h) s3 = (r, s4)" by fastforce
  have "app_tab s' = app_tab s4 \<and> app_used s' = app_used s4"
    using assms 2 3 4
    by (auto simp: lwt_shm_alloc_def Let_def upd_app_def upd_mem_def upd_ref_def dest!: relate_app_tables
      split: option.splits prod.splits if_splits bind_splits)
  then show ?thesis using ref_app_tables [OF 2] mem_app_tables [OF 3] relation_app_tables [OF 4] by simp
qed

lemma retain_app_tables:
  assumes "lwt_shm_retain h self lwp p s = Some (Done e, s')" "app_of_caller h self lwp s = (Some a, s1)"
  shows "app_tab s' = app_tab s1 \<and> app_used s' = app_used s1"
proof -
  obtain i s2 where 2: "get_shm_mem_ref (for_refs h) a p s1 = Some (Some i, s2)"
    using assms by (auto simp: lwt_shm_retain_def split: bind_splits option.splits)
  define s3 where "s3 = upd_ref a i (\<lambda>x. x\<lparr>ref_ref := ref_ref x + 1\<rparr>) s2"
  obtain r s4 where 4: "get_shm_relation (for_relation h) (upd_ref a i (\<lambda>x. x\<lparr>ref_addr := p\<rparr>) s3) = (r, s4)" by fastforce
  have u: "app_tab (upd_ref a i f x) = app_tab x \<and> app_used (upd_ref a i f x) = app_used x" for f x
    by (simp add: upd_ref_def upd_app_def)
  have u3: "app_tab s3 = app_tab s2" "app_used s3 = app_used s2" by (simp_all add: s3_def u)
  show ?thesis
    using assms 2 4 ref_app_tables [OF 2] relation_app_tables [OF 4] u u3
    by (auto simp: lwt_shm_retain_def Let_def s3_def [symmetric] dest!: relate_app_tables split: option.splits if_splits bind_splits)
      (simp_all add: upd_app_def)
qed

lemma free_app_tables:
  assumes "lwt_shm_free probe h self p s = Some (e, s')"
  shows "app_tab s' = app_tab s \<and> app_used s' = app_used s"
proof -
  have d: "app_tab (drop_ref r a i x) = app_tab x \<and> app_used (drop_ref r a i x) = app_used x" for r a i x
    by (simp add: drop_ref_def Let_def upd_ref_def upd_app_def put_shm_relation_def unrelate_def)
  have q: "app_tab (snd (put_shm_mem m x)) = app_tab x \<and> app_used (snd (put_shm_mem m x)) = app_used x" for m x
    by (simp add: put_shm_mem_def Let_def upd_mem_def)
  show ?thesis using assms
    by (auto simp: lwt_shm_free_def Let_def d q dest!: ref_app_tables split: option.splits if_splits bind_splits)
qed

fun asks :: "shm_op \<Rightarrow> bool" where
  "asks (Free t p) = False"
| "asks _ = True"

lemma shm_run_tables:
  assumes "shm_run T s0 ops s" "shm_ok T {} s0" "apps_counted 0 s0"
  shows "apps_counted (length (filter asks ops)) s"
  using assms
proof induction
  case (alloc ops s t lwp h sz p b s')
  note h = alloc.hyps(2-4) and ih = alloc.IH [OF alloc.prems]
  have ok: "shm_ok T {} s" using shm_run_counts [OF alloc.hyps(1) alloc.prems(1)] by blast
  obtain a s1 where a: "app_of_caller h t lwp s = (Some a, s1)" using caller_ready [OF ok h(2,1,3)] by blast
  from caller_counted [OF ok h(2,1,3) ih a] alloc_app_tables [OF alloc.hyps(9) a]
  show ?case by (simp add: apps_counted_cong [of s' s1])
next
  case (retain ops s t lwp h p s')
  note h = retain.hyps(2-4) and ih = retain.IH [OF retain.prems]
  have ok: "shm_ok T {} s" using shm_run_counts [OF retain.hyps(1) retain.prems(1)] by blast
  obtain a s1 where a: "app_of_caller h t lwp s = (Some a, s1)" using caller_ready [OF ok h(2,1,3)] by blast
  from caller_counted [OF ok h(2,1,3) ih a] retain_app_tables [OF retain.hyps(6) a]
  show ?case by (simp add: apps_counted_cong [of s' s1])
next
  case (free ops s p t probe h s')
  then show ?case using free_app_tables [OF free.hyps(4)] apps_counted_cong [of s' s] by simp
qed simp

subsection \<open>Threads without a process\<close>

text \<open>
  A thread of the kernel has no process: its application is looked up under 0 and found in the first
  slot of a used table that was never used, whose list is still zero. The second allocation of such
  a thread writes through a null pointer.
\<close>

definition plenty :: answers where
  "plenty = \<lparr>for_app = Some 1, for_refs = True, for_mem = Some 2, for_relation = Some 3, for_block = Some 4\<rparr>"

definition fresh_shm :: lwt_shm where
  "fresh_shm = the (snd (lwt_shm_init True 0x1000))"

lemma kernel_thread_faults:
  "fst (the (lwt_shm_alloc plenty 0x20000100 0 100 fresh_shm)) = 0x1000"
  "Option.is_none (lwt_shm_alloc plenty 0x20000100 0 100 (snd (the (lwt_shm_alloc plenty 0x20000100 0 100 fresh_shm))))"
  by code_simp+

subsection \<open>A run\<close>

text \<open>Room can always be made: names of tables do not run out.\<close>

lemma roomy_exists: "\<exists>h. shm_roomy h s \<and> for_block h = b"
proof -
  obtain t u v where "t \<notin> set (app_tab s)" "u \<notin> set (mem_tab s)" "v \<notin> set (relation_tab s)"
    using ex_new_if_finite [OF infinite_UNIV_nat finite_set] by metis
  then show ?thesis
    by (intro exI [of _ "\<lparr>for_app = Some t, for_refs = True, for_mem = Some u, for_relation = Some v, for_block = b\<rparr>"])
      (simp add: shm_roomy_def)
qed

text \<open>A thread allocates, another one retains, and the first one frees.\<close>

lemma fresh_shm_init: "lwt_shm_init True 0x1000 = (RT_EOK, Some fresh_shm)"
  by (simp add: fresh_shm_def lwt_shm_init_def)

lemma fresh_shm_malloc: "\<exists>b. bmem_malloc (Some 4) 100 (shm_bmem fresh_shm) = (Some 0x1000, b)"
proof -
  have "fst (bmem_malloc (Some 4) 100 (shm_bmem fresh_shm)) = Some 0x1000" by code_simp
  then show ?thesis by (metis prod.collapse)
qed

lemma shm_demo_run:
  "\<exists>s. shm_run {0x20000100, 0x20000200} fresh_shm [Alloc 0x20000100 0x1000, Retain 0x20000200 0x1000, Free 0x20000100 0x1000] s"
proof -
  let ?T = "{0x20000100, 0x20000200} :: u32 set"
  note ok = lwt_shm_init_ok [OF fresh_shm_init, of ?T]
  obtain h where h: "shm_roomy h fresh_shm" "for_block h = Some 4" using roomy_exists by blast
  obtain b where b: "bmem_malloc (for_block h) 100 (shm_bmem fresh_shm) = (Some 0x1000, b)" using fresh_shm_malloc h(2) by auto
  have n: "0x1000 \<notin> mem_addrs fresh_shm" using mem_addrs_held [of ?T "{}" fresh_shm] ok by simp
  obtain s1 where 1: "lwt_shm_alloc h 0x20000100 0x20010000 100 fresh_shm = Some (0x1000, s1)"
    "shm_ok ?T {} s1" "holders s1 = (holders fresh_shm)(0x1000 := {#0x20000100#})" "mem_addrs s1 = insert 0x1000 (mem_addrs fresh_shm)"
    using lwt_shm_alloc_ok [OF conjunct1 [OF ok] _ _ h(1) b _ n, of "0x20010000" "0x20000100"] by auto
  have r1: "shm_run ?T fresh_shm ([] @ [Alloc 0x20000100 0x1000]) s1"
    by (rule shm_run.alloc [OF shm_run.start _ _ h(1) _ b _ n 1(1)]) simp_all
  obtain h' where h': "shm_roomy h' s1" using roomy_exists by blast
  obtain s2 where 2: "lwt_shm_retain h' 0x20000200 0x20010000 0x1000 s1 = Some (Done RT_EOK, s2)"
    "shm_ok ?T {} s2" "holders s2 = (holders s1)(0x1000 := add_mset 0x20000200 (holders s1 0x1000))" "mem_addrs s2 = mem_addrs s1"
    using lwt_shm_retain_ok [OF 1(2) _ _ h', of "0x20010000" "0x20000200" "0x1000"] 1(4) by auto
  have r2: "shm_run ?T fresh_shm (([] @ [Alloc 0x20000100 0x1000]) @ [Retain 0x20000200 0x1000]) s2"
    by (rule shm_run.retain [OF r1 _ _ h' _ 2(1)]) (simp_all add: 1(4))
  have m2: "0x1000 \<in> mem_addrs s2" "0x20000100 \<in># holders s2 0x1000" using 1(3,4) 2(3,4) by simp_all
  obtain s3 where "lwt_shm_free True h' 0x20000100 0x1000 s2 = Some (Done RT_EOK, s3)"
    using lwt_shm_free_ok [OF 2(2) m2] by blast
  then have "shm_run ?T fresh_shm ((([] @ [Alloc 0x20000100 0x1000]) @ [Retain 0x20000200 0x1000]) @ [Free 0x20000100 0x1000]) s3"
    by (rule shm_run.free [OF r2 m2])
  then show ?thesis by auto
qed

end
