(* ===== verification/Spec2Isabelle.thy ===== *)
theory Spec2Isabelle
  imports DemoIpc Bmem DemoHeap HeapReach HeapLib KPrintf DemoPool DemoChan DfsPath ShmRun
begin

text \<open>
  A model of the kernel of tuduOS, a real-time operating system that extends RT-Thread, and of the
  parts of it that are built on the kernel. The configuration is the one of
  \<^verbatim>\<open>bsp/stm32/stm32f429-fire-challenger/rtconfig.h\<close>: one processor, 32 priorities, hard timers in one
  list, \<open>memheap\<close> as the system heap, names of eight characters. Paths are relative to \<^verbatim>\<open>src/\<close>.

  \<^bold>\<open>The program.\<close> Threads are in the ready list of their priority, or suspended in the queue of the
  object they wait for. The scheduler (\<^verbatim>\<open>src/scheduler.c\<close>) runs the first thread of the most urgent
  list, which it finds with \<open>__rt_ffs\<close> (\<^verbatim>\<open>src/kservice.c\<close>). The tick interrupt (\<^verbatim>\<open>src/clock.c\<close>) ends
  time slices and fires timers (\<^verbatim>\<open>src/timer.c\<close>), whose timeout functions wake threads
  (\<^verbatim>\<open>src/thread.c\<close>); the idle thread (\<^verbatim>\<open>src/idle.c\<close>) reclaims closed ones. Every object has a name in a
  container of its class (\<^verbatim>\<open>src/object.c\<close>), and all lists are the intrusive lists of
  \<^verbatim>\<open>include/rtservice.h\<close>. On this stand semaphores, mutexes, events, mailboxes, message queues and
  channels (\<^verbatim>\<open>src/ipc.c\<close>), the heaps (\<^verbatim>\<open>src/memheap.c\<close>), whose lock is a semaphore, the pools
  (\<^verbatim>\<open>src/mempool.c\<close>), the descriptors and path names of the file system
  (\<^verbatim>\<open>components/dfs/src/dfs.c\<close>), whose lock is a mutex, and the shared memory of applications
  (\<^verbatim>\<open>extends/bin-core/lwt_shm.c\<close>).

  \<^bold>\<open>The theories\<close>, in the order of their imports:

    \<^item> \<open>Prelude\<close>: the integer types as words, assertions as options, lemma collections.
    \<^item> \<open>RtList\<close>: the intrusive lists on a store of pointers. The locale \<open>list_provider\<close> is the contract
      a client of doubly linked lists relies on; its interpretation \<open>ptr\<close> is the pointer code, so the
      later theories keep a list as the sequence of its nodes.
    \<^item> \<open>Ffs\<close>, \<open>RingBuffer\<close>: the bit search with its table; the byte ring buffer of
      \<^verbatim>\<open>components/drivers/src/ringbuffer.c\<close>, with the locale \<open>byte_fifo\<close> and its interpretation \<open>rbq\<close>.
    \<^item> \<open>Kernel\<close>: the state of the kernel as one record: control blocks by thread, lists by head, the
      ready group, timers, nesting counters. \<open>Scheduler\<close>, \<open>KObject\<close>, \<open>RtTimer\<close>, \<open>KThread\<close>, \<open>Clock\<close>: its
      operations, named as in the sources. \<open>Demo\<close>: a small running system for witnesses.
    \<^item> \<open>IpcBase\<close>: the record extended by the objects of \<^verbatim>\<open>src/ipc.c\<close>, suspending and resuming; the
      locales \<open>waiting_room\<close> and, extending it, \<open>counting_semaphore\<close>, with the interpretations \<open>room\<close>
      here and \<open>semq\<close> in \<open>Semaphore\<close>. \<open>IpcState\<close>: reading the state, and the life cycle all objects share.
    \<^item> \<open>Semaphore\<close>, \<open>Mutex\<close>, \<open>Event\<close>; \<open>Handover\<close>, with the locale \<open>bounded_queue\<close>, interpreted as \<open>mbq\<close>
      in \<open>Mailbox\<close> and \<open>mqq\<close> in \<open>MsgQueue\<close>; \<open>MsgPool\<close>: the slots of a message queue, and its critical
      sections as a step relation. \<open>Align\<close>: \<open>RT_ALIGN\<close>. \<open>DemoIpc\<close>: the small system with objects.
    \<^item> \<open>Bmem\<close>: the allocator behind the shared memory; \<open>ShmTab\<close>: the tables of applications, memory and
      relations and the calls on them; \<open>ShmUse\<close>, \<open>ShmRun\<close>: who holds an address after any calls.
    \<^item> \<open>MemItems\<close>, \<open>MemInv\<close>: the headers of a heap and its invariant; \<open>MemHeap\<close>: the operations;
      \<open>HeapUse\<close>: the locale \<open>allocator\<close>, interpreted as \<open>memheap\<close> here and as \<open>mempool\<close> in \<open>PoolUse\<close>;
      \<open>HeapSys\<close>: the heap in the system; \<open>HeapReach\<close>: its critical sections in any order; \<open>DemoHeap\<close>.
    \<^item> \<open>KString\<close>, \<open>KPrintf\<close>, \<open>HeapLib\<close>: memory and strings, formatted output, and aligned allocation of
      \<^verbatim>\<open>src/kservice.c\<close>.
    \<^item> \<open>MemPool\<close>, \<open>PoolUse\<close>, \<open>PoolInit\<close>, \<open>PoolHeap\<close>, \<open>DemoPool\<close>: the pools, how they come to be, and pools
      on memory of a heap.
    \<^item> \<open>DfsFd\<close>, \<open>Channel\<close>, \<open>ChanUse\<close>, \<open>ChanOpen\<close>, \<open>DemoChan\<close>: descriptors and the channels behind them.
      \<open>DfsPath\<close>: normalising path names.

  \<^bold>\<open>How the code is read.\<close> Integers are words of their C type and wrap. A failed assertion, an access
  outside of a buffer and a write through a null pointer are \<open>None\<close>; error codes are results. A call
  that gives the processor away returns \<open>Blocks\<close> with the place to go on from, and going on is a
  definition of its own, so that anything may happen in between. What comes from outside is an
  argument: what the heap answers when an object, a table or a descriptor is created, the names and
  addresses of things, what a callback of a timer or of the idle thread does, an uninitialised local.
  Some fields whose value no operation modelled here reads are left out: stacks, entry points, hooks.

  \<^bold>\<open>What is proved.\<close> The scheduler keeps its invariant and runs the most urgent thread; ticks wake
  sleepers in time; timers fire in order; closed threads are reaped (C1 to C8 with the operations of
  threads). Lists, the ring buffer, semaphores, mutexes, mailboxes and message queues do what an
  abstract list, counter, owner or queue does; a mutex hands its owner the priority of a waiter; a
  wait ends with its deadline, and detaching an object releases whoever waits. The heap and the pools
  keep blocks apart under any script of calls, any interleaving of critical sections keeps the heap
  well formed, and the lock of the heap is handed on. The text that \<open>rt_vsnprintf\<close> writes is the text
  of the format, cut at the size, and numbers read back. A message on a channel reaches every thread
  that waits, and a sender goes on when each of them has replied. Descriptors and shared memory go
  exactly with their last user. A normalised path is what walking its names gives. The theorem of a
  property carries its id; below them are further facts of the same kind, among them the wrap-arounds
  and other defects the model has shown, for instance a 16-bit counter that loses 65536 units, a
  product that wraps in \<open>rt_mp_create\<close>, octal numbers printed as hexadecimal.

  \<^bold>\<open>Bounds and loops.\<close> Loops over a list are recursive on it. Loops that end at a null character or
  may not end at all are \<open>partial_function\<close>s, and that they return is proved where it is claimed. The
  walks over the headers of a heap have the size of the pool as fuel, which is enough since a header
  takes at least 24 bytes; the walk over the free list of a pool has its counter as fuel, which the
  invariant says is its length.

  \<^bold>\<open>What the assumptions are.\<close> The kernel invariant \<open>kinv\<close> and the invariants on top of it hold in the
  small systems of the \<open>Demo\<close> theories, which are the witnesses. For shared memory the allocator is
  assumed to hand out no address that is in use: \<open>bmem_free\<close> can break this, as a finding says.

  \<^bold>\<open>Not modelled.\<close> Code that is compiled out: several processors, soft timers, \<^verbatim>\<open>mem.c\<close>, \<^verbatim>\<open>slab.c\<close>,
  modules. Hooks. Signals (\<^verbatim>\<open>src/signal.c\<close>) change the stack and the context of a thread below the
  level of this state; only their flags in the status of a thread are here. Devices, drivers, the
  port to the processor and the board support packages are hardware. The console, the shell and the
  commands that print tables are output. The files, mounts and file systems of DFS, the loader of
  applications (\<^verbatim>\<open>lwt.c\<close>), \<^verbatim>\<open>xipfs.c\<close>, \<^verbatim>\<open>mpu.c\<close>, \<^verbatim>\<open>server.c\<close>, the network and the C library are left out;
  the calls of applications into the kernel reach the operations modelled here.
\<close>


text \<open>C1. The scheduler returns, keeps the kernel invariant and leaves running a thread that no ready thread is more urgent than, whatever the state it is called in, as long as somebody can run and the scheduler is not locked.\<close>

theorem scheduler_runs_most_urgent:
  assumes k: "kinv k" and c: "rt_current_thread k = Some c" and l: "rt_scheduler_lock_nest k = 0"
    and r: "state_of k c = RT_THREAD_RUNNING \<or> rt_thread_ready_priority_group k \<noteq> 0"
  shows "\<exists>k' d. rt_schedule k = Some k' \<and> kinv k' \<and> rt_current_thread k' = Some d \<and>
    state_of k' d = RT_THREAD_RUNNING \<and>
    (\<forall>u. state_of k' u = RT_THREAD_READY \<longrightarrow> prio_of k' d \<le> prio_of k' u)"
proof -
  obtain k' where "rt_schedule k = Some k'" "kinv k'" using rt_schedule_kinv [OF k c] by blast
  then show ?thesis using rt_schedule_highest [OF k c l r] by blast
qed

theorem scheduler_runs_most_urgent_witness:
  "\<exists>k' d. rt_schedule demo = Some k' \<and> kinv k' \<and> rt_current_thread k' = Some d \<and>
    state_of k' d = RT_THREAD_RUNNING"
proof -
  have "state_of demo 2 = RT_THREAD_RUNNING" unfolding demo_state by simp
  with scheduler_runs_most_urgent [OF kinv_demo demo_sel(5) demo_sel(9)] show ?thesis by blast
qed

text \<open>C2. Round robin: when the time slice of the running thread is used up and threads of its priority are ready, the first of them gets the processor and the thread goes to the end of their queue.\<close>

theorem scheduler_round_robin:
  assumes "kinv k" "rt_current_thread k = Some c" "state_of k c = RT_THREAD_RUNNING"
    and "stat (thr k c) AND RT_THREAD_STAT_YIELD \<noteq> 0" "rt_scheduler_lock_nest k = 0"
    and "tlists k (ReadyQ (prio_of k c)) = t # ts" "\<forall>p < prio_of k c. tlists k (ReadyQ p) = []"
  shows "\<exists>k'. rt_schedule k = Some k' \<and> rt_current_thread k' = Some t \<and>
    tlists k' (ReadyQ (prio_of k c)) = ts @ [c] \<and> stat (thr k' c) AND RT_THREAD_STAT_YIELD = 0"
  by (rule rt_schedule_round_robin) fact+

theorem scheduler_round_robin_witness:
  "\<exists>k'. rt_schedule demo_yield = Some k' \<and> rt_current_thread k' = Some 3 \<and>
    tlists k' (ReadyQ (prio_of demo_yield 2)) = [] @ [2] \<and> stat (thr k' 2) AND RT_THREAD_STAT_YIELD = 0"
  by (rule scheduler_round_robin [OF kinv_demo_yield]) (simp_all add: demo_yield_facts)

text \<open>C3. The tick interrupt terminates, keeps the invariant and misses nobody: after it no timer in the list has expired, and every thread whose timer expired at this tick can run again and finds the timeout error.\<close>

theorem tick_wakes_sleepers:
  assumes "tick_ok k" "callbacks_ok cb" "check_inv base (k\<lparr>rt_tick := rt_tick k + 1\<rparr>)"
  shows "\<exists>k'. rt_tick_increase cb k = Some k' \<and> tick_ok k' \<and> rt_tick k' = rt_tick k + 1 \<and>
    (\<forall>i \<in> set (rt_timer_list k'). \<not> expired (rt_tick k') i k') \<and>
    (\<forall>t. Thread_timer t \<in> set (rt_timer_list k) \<and> expired (rt_tick k + 1) (Thread_timer t) k \<longrightarrow>
       runnable (state_of k' t) \<and> error (thr k' t) = - RT_ETIMEOUT)"
  by (rule rt_tick_increase_wakes) fact+

theorem tick_wakes_sleepers_witness:
  "\<exists>k'. rt_tick_increase (\<lambda>_ k. Some k) demo_late = Some k' \<and> runnable (state_of k' 4) \<and> error (thr k' 4) = - RT_ETIMEOUT"
proof -
  have "expired (rt_tick demo_late + 1) (Thread_timer 4) demo_late" "Thread_timer 4 \<in> set (rt_timer_list demo_late)"
    by (simp_all add: demo_late_def expired_def RT_TICK_HALF_def RT_TICK_MAX_def)
  then show ?thesis using tick_wakes_sleepers [OF demo_late_ok demo_callbacks_ok demo_late_check_inv] by blast
qed

text \<open>C4. The list walk of the timer check is the fold of the timeout functions over the timers that have expired, in the order of expiry, for every timeout function that leaves the timers alone; when the fold returns, no timer of the list has expired.\<close>

theorem timer_check_fires_in_order:
  assumes "timer_passive fire" "check_inv base k"
  shows "rt_timer_check fire k = fire_seq fire (filter (\<lambda>j. expired (rt_tick k) j k) (rt_timer_list k)) k \<and>
    (\<forall>k'. rt_timer_check fire k = Some k' \<longrightarrow> check_inv base k' \<and>
       (\<forall>j \<in> set (rt_timer_list k'). \<not> expired (rt_tick k) j k'))"
proof -
  note f = rt_timer_check_loop_fold [OF assms refl]
  show ?thesis unfolding rt_timer_check_def rt_tick_get_def conjunct1 [OF f] using conjunct2 [OF f] by blast
qed

theorem timer_check_fires_in_order_witness:
  "rt_timer_check (\<lambda>_ k. Some k) demo = fire_seq (\<lambda>_ k. Some k) [] demo"
proof -
  have "timer_passive (\<lambda>_ k :: ipc. Some k)" by (simp add: timer_passive_def)
  from timer_check_fires_in_order [OF this demo_check_inv] show ?thesis
    by (simp add: expired_def RT_TICK_HALF_def RT_TICK_MAX_def)
qed

text \<open>C5. Starting a timer succeeds, keeps the kernel invariant, links the timer exactly once and keeps the list in the order of expiry, where times are compared as offsets from a base tick so that the wrap-around of the tick counter is covered.\<close>

theorem timer_start_keeps_order:
  assumes k: "kinv k" and ty: "rt_object_get_type (Obj_timer i) k = RT_Object_Class_Timer"
    and reg: "Obj_timer i \<in> set (objects k RT_Object_Class_Timer)"
    and susp: "\<forall>t. i = Thread_timer t \<longrightarrow> state_of k t = RT_THREAD_SUSPEND"
    and s: "timers_sorted base (expiry k) (rt_timer_list k)"
    and o: "offset base (rt_tick k) + unat (timer_init_tick (timers k i)) < 2 ^ 31 - 1"
  shows "\<exists>k'. rt_timer_start i k = Some (RT_EOK, k') \<and> kinv k' \<and> timers_sorted base (expiry k') (rt_timer_list k') \<and>
    distinct (rt_timer_list k') \<and> set (rt_timer_list k') = insert i (set (rt_timer_list k)) \<and>
    expiry k' i = rt_tick k + timer_init_tick (timers k i)"
proof -
  have init: "timer_init_tick (timers k i) < RT_TICK_HALF" using o by (simp add: word_less_nat_alt half)
  have o': "offset base (rt_tick k + timer_init_tick (timers k i)) < 2 ^ 31 - 1" using offset_add [OF o] o by simp
  note st = rt_timer_start_kinv [OF k ty reg init] and so = restarted_sorted [OF k s o']
  have "kinv (restarted i k)" using st(2) susp by blast
  moreover have "set (rt_timer_list (restarted i k)) = insert i (set (rt_timer_list k))"
    unfolding restarted_sel(2) using kinv_timers_distinct [OF k] by auto
  ultimately show ?thesis
    using st(1) susp so kinv_timers_distinct [of "restarted i k"] by (auto simp: restarted_sel(1))
qed

theorem timer_start_keeps_order_witness:
  "\<exists>k'. rt_timer_start (Thread_timer 4) demo = Some (RT_EOK, k') \<and> kinv k' \<and> expiry k' (Thread_timer 4) = 90 + 50"
proof -
  have t: "timer_init_tick (timers demo (Thread_timer 4)) = 50" by (simp add: demo_def)
  have ok: "thread_object_ok 4 demo" by (rule demo_object_ok) simp
  have "state_of demo 4 = RT_THREAD_SUSPEND" unfolding demo_state by simp
  then have "\<exists>k'. rt_timer_start (Thread_timer 4) demo = Some (RT_EOK, k') \<and> kinv k' \<and>
    timers_sorted 50 (expiry k') (rt_timer_list k') \<and> distinct (rt_timer_list k') \<and>
    set (rt_timer_list k') = insert (Thread_timer 4) (set (rt_timer_list demo)) \<and>
    expiry k' (Thread_timer 4) = rt_tick demo + timer_init_tick (timers demo (Thread_timer 4))"
    using ok by (intro timer_start_keeps_order [OF kinv_demo])
      (simp_all add: thread_object_ok_def timers_sorted_def offset_def t del: demo_sel(3))
  then show ?thesis by (auto simp: t)
qed

text \<open>C6. Suspending a ready thread and resuming it again succeed and keep the invariant; the thread is ready again, at the end of the queue of its priority, its timer is not running and no other thread has changed.\<close>

theorem thread_suspend_resume:
  assumes k: "kinv k" and r: "state_of k t = RT_THREAD_READY"
  shows "\<exists>k1 k2. rt_thread_suspend t k = Some (RT_EOK, k1) \<and> kinv k1 \<and> state_of k1 t = RT_THREAD_SUSPEND \<and>
    rt_thread_resume t k1 = Some (RT_EOK, k2) \<and> kinv k2 \<and> state_of k2 t = RT_THREAD_READY \<and>
    tlists k2 (ReadyQ (prio_of k t)) = remove1 t (tlists k (ReadyQ (prio_of k t))) @ [t] \<and>
    Thread_timer t \<notin> set (rt_timer_list k2) \<and> (\<forall>u. u \<noteq> t \<longrightarrow> thr k2 u = thr k u)"
proof -
  obtain k1 where s: "rt_thread_suspend t k = Some (RT_EOK, k1)" "kinv k1" "floating t k1" "thread_frame t k k1"
    "tlists k1 = l_unlink t (tlists k)" using rt_thread_suspend_kinv [OF k] r by blast
  have st: "state_of k1 t = RT_THREAD_SUSPEND" "Thread_timer t \<notin> set (rt_timer_list k1)" "unlinked t (tlists k1)"
    using s(3) by (simp_all add: floating_def)
  have c: "rt_current_thread k1 \<noteq> Some t"
    using s(4) kinv_current [OF k, of t] r by (auto simp: thread_frame_def)
  obtain k2 where q: "rt_thread_resume t k1 = Some (RT_EOK, k2)" "kinv k2" "thread_frame t k1 k2"
    "state_of k2 t = (if rt_current_thread k1 = Some t then RT_THREAD_RUNNING else RT_THREAD_READY)"
    "tlists k2 = (if rt_current_thread k1 = Some t then l_unlink t (tlists k1)
      else l_append (ReadyQ (prio_of k1 t)) t (l_unlink t (tlists k1)))"
    using rt_thread_resume_kinv [OF s(2) st(1)] by blast
  have p: "prio_of k1 t = prio_of k t" by (rule ipc_frame_obj(7) [OF thread_frame_ipc [OF s(4)]])
  have "tlists k2 (ReadyQ (prio_of k t)) = remove1 t (tlists k (ReadyQ (prio_of k t))) @ [t]"
    using q(5) c st(3) s(5) p by (simp add: l_append_def unlink_notin unlinked_def) (simp add: l_unlink_def)
  moreover have "Thread_timer t \<notin> set (rt_timer_list k2)"
    using q(3) st(2) by (metis notin_set_remove1 thread_frame_def)
  ultimately show ?thesis using s(1,2,4) q(1-4) st(1) c by (auto simp: thread_frame_def)
qed

theorem thread_suspend_resume_witness:
  "\<exists>k1 k2. rt_thread_suspend 3 demo = Some (RT_EOK, k1) \<and> rt_thread_resume 3 k1 = Some (RT_EOK, k2) \<and>
    tlists k2 (ReadyQ 10) = [3]"
proof -
  have "state_of demo 3 = RT_THREAD_READY" unfolding demo_state by simp
  from thread_suspend_resume [OF kinv_demo this] have "\<exists>k1 k2. rt_thread_suspend 3 demo = Some (RT_EOK, k1) \<and>
    rt_thread_resume 3 k1 = Some (RT_EOK, k2) \<and>
    tlists k2 (ReadyQ (prio_of demo 3)) = remove1 3 (tlists demo (ReadyQ (prio_of demo 3))) @ [3]" by blast
  then show ?thesis unfolding demo_prio by (simp add: demo_lists_def)
qed



text \<open>C8. The intrusive circular lists implement the abstract lists of the kernel model: on a store that holds the lists, linking a node at the front, at the end or in front of another node, and unlinking it from wherever it is, give a store that holds the updated lists.\<close>

theorem intrusive_list_refinement:
  assumes "lists_rel H N h L" "l \<in> H" "n \<in> N" "unlinked n L" "x \<in> set (L l)"
  shows "lists_rel H N (rt_list_insert_after l n h) (l_push l n L) \<and>
    lists_rel H N (rt_list_insert_before l n h) (l_append l n L) \<and>
    lists_rel H N (rt_list_insert_before x n h) (l_insert_before x n L) \<and>
    lists_rel H N (rt_list_remove x h) (l_unlink x L)"
  using assms lists_rel_sub [of H N h L l]
  by (auto intro: lists_rel_push lists_rel_append lists_rel_insert_before lists_rel_unlink)

theorem intrusive_list_refinement_witness:
  "lists_rel {10} {1, 2} (rt_list_insert_before 1 2 (rt_list_insert_after 10 1 demo_store)) ((\<lambda>_. [])(10 := [2, 1]))"
proof -
  have s: "lists_rel {10} {1, 2} (rt_list_insert_after 10 1 demo_store) ((\<lambda>_. [])(10 := [1]))"
    by (auto simp: lists_rel_def demo_store_def dlist_def linked_def rt_list_insert_after_def Let_def set_next_def
        set_prev_def unlinked_def)
  have "l_insert_before 1 2 ((\<lambda>_. [])(10 :: nat := [1])) = (\<lambda>_. [])(10 := [2, 1])"
    by (simp add: l_insert_before_def fun_eq_iff)
  then show ?thesis using intrusive_list_refinement [OF s, of 10 2 1] by (simp add: unlinked_def)
qed

text \<open>C9. A ring buffer is a byte queue: every sequence of puts and gets succeeds and what was held at the start followed by what was accepted is what was delivered followed by what is held at the end.\<close>

theorem ringbuffer_is_fifo:
  assumes "rb_wf rb" "list_all fifo_op_ok ops"
  shows "\<exists>acc del rb'. fifo_run rt_ringbuffer_put rt_ringbuffer_get rb ops = Some (acc, del, rb') \<and> rb_wf rb' \<and>
    buffer_size rb' = buffer_size rb \<and> contents rb @ acc = del @ contents rb'"
  by (rule rbq.run_fifo) fact+

theorem ringbuffer_is_fifo_witness:
  "\<exists>acc del rb'. fifo_run rt_ringbuffer_put rt_ringbuffer_get demo_rb [Put [1, 2, 3] 3, Get [0, 0] 2] = Some (acc, del, rb') \<and>
    contents demo_rb @ acc = del @ contents rb'"
  using ringbuffer_is_fifo [OF demo_rb_wf, of "[Put [1, 2, 3] 3, Get [0, 0] 2]"] by auto

text \<open>C10. A semaphore implements a counter with a queue. Taking it decrements a positive counter, and otherwise queues the caller (at the end, or by priority) or refuses when the timeout is 0; releasing it lets the first waiter go, and increments the counter when nobody waits. Both keep the kernel invariant and that nobody waits for a semaphore that could be had.\<close>

theorem semaphore_refines_counter:
  assumes ok: "sem_ok n k" and c: "caller t k" and time: "time < 2 ^ 31 - 1"
    and room: "tlists k (SuspendQ n) = [] \<Longrightarrow> sem_value (sems k n) \<noteq> 0xffff"
  shows "(\<exists>r k'. rt_sem_take n time k = Some (r, k') \<and> sem_ok n k' \<and>
      (answer_of r, sem_abs n k') = asem_take (queued (ipc_flag n k) (prio_of k) t) (time \<noteq> 0) (sem_abs n k)) \<and>
    (\<exists>k'. rt_sem_release n k = Some (RT_EOK, k') \<and> sem_ok n k' \<and> sem_abs n k' = asem_release (sem_abs n k) \<and>
      (\<forall>u. runnable (state_of k' u) \<longleftrightarrow> runnable (state_of k u) \<or> u \<in> set (take 1 (tlists k (SuspendQ n)))))"
  using rt_sem_take_refines [OF ok _ time, of t] rt_sem_release_refines [OF ok room] c by (simp add: caller_def)

theorem semaphore_refines_counter_witness:
  "(\<exists>r k'. rt_sem_take 1 7 demo = Some (r, k') \<and> sem_abs 1 k' = (0, [4, 2])) \<and>
   (\<exists>k'. rt_sem_release 1 demo = Some (RT_EOK, k') \<and> sem_abs 1 k' = (0, []) \<and> runnable (state_of k' 4))"
proof -
  have "sem_abs 1 demo = (0, [4])" by (simp add: sem_abs_def demo_lists_def)
  moreover have "tlists demo (SuspendQ 1) = [4]" by (simp add: demo_lists_def)
  ultimately show ?thesis
    using semaphore_refines_counter [OF demo_sem_ok demo_caller, of 7] demo_flag
    by (fastforce simp: asem_take_def asem_release_def queued_def)
qed

text \<open>C11. Nobody waits longer than it asked for. A take with a timeout on a semaphore that cannot be had blocks with the timer of the thread set to expire after that many ticks, and when that timer fires the thread is out of the queue, can run again, and the call returns -RT_ETIMEOUT.\<close>

theorem semaphore_take_times_out:
  assumes ok: "sem_ok n k" and c: "caller t k" and v: "sem_value (sems k n) = 0" and time: "0 < time" "time < 2 ^ 31 - 1"
  shows "\<exists>k1. rt_sem_take n time k = Some (Blocks t, k1) \<and> Thread_timer t \<in> set (rt_timer_list k1) \<and>
    expiry k1 (Thread_timer t) = rt_tick k + word_of_int time \<and>
    (one_shot k1 \<longrightarrow> (\<exists>k2. fire_timer (fire_timeout cb) (Thread_timer t) k1 = Some k2 \<and> kinv k2 \<and>
       runnable (state_of k2 t) \<and> t \<notin> set (tlists k2 (SuspendQ n)) \<and> rt_sem_take_resumed t k2 = - RT_ETIMEOUT))"
proof -
  have d: "kinv k" "ipc_flag n k = RT_IPC_FLAG_FIFO \<or> ipc_flag n k = RT_IPC_FLAG_PRIO"
    "rt_object_get_type (Obj_ipc n) k = RT_Object_Class_Semaphore" using ok by (auto simp: sem_ok_def ipc_inv_def)
  obtain k1 where w: "ipc_wait (SuspendQ n) t (ipc_flag n k) time (upd_thr t (set_error RT_EOK) k) = Some k1" "kinv k1"
    "rt_current_thread k1 \<noteq> None" "Thread_timer t \<in> set (rt_timer_list k1)"
    "expiry k1 (Thread_timer t) = rt_tick k + word_of_int time"
    using block_self [OF d(1,2) c waiting_list_simps(1) time(2), of n] time(1) by blast
  have "rt_sem_take n time k = Some (Blocks t, k1)" using v time(1) c d(3) w(1) by (simp add: rt_sem_take_def)
  moreover have "\<exists>k2. fire_timer (fire_timeout cb) (Thread_timer t) k1 = Some k2 \<and> kinv k2 \<and> runnable (state_of k2 t) \<and>
    t \<notin> set (tlists k2 (SuspendQ n)) \<and> rt_sem_take_resumed t k2 = - RT_ETIMEOUT" if o: "one_shot k1"
  proof -
    obtain k2 where f: "fire_timer (fire_timeout cb) (Thread_timer t) k1 = Some k2" "kinv k2" "runnable (state_of k2 t)"
      "error (thr k2 t) = - RT_ETIMEOUT" using fire_timer_thread [OF w(2,3) o w(4), of cb] by blast
    have "t \<notin> set (tlists k2 (SuspendQ n))" using kinv_suspendq [OF f(2), of t n] f(3) by (auto simp: runnable_def)
    then show ?thesis using f by (simp add: rt_sem_take_resumed_def)
  qed
  ultimately show ?thesis using w(4,5) by blast
qed

theorem semaphore_take_times_out_witness:
  "\<exists>k1. rt_sem_take 1 20 demo = Some (Blocks 2, k1) \<and> expiry k1 (Thread_timer 2) = 110"
  using semaphore_take_times_out [OF demo_sem_ok demo_caller, of 20] by auto

text \<open>C12. A mutex implements an owner, the depth of its locking and a queue. The owner may take it again, a free mutex is given to the caller, otherwise the caller queues or is refused; only the owner can release it, the last release hands it to the first waiter, which then can run, and restores the priority the owner had when it took the mutex. Both operations keep the kernel invariant and that of the mutex.\<close>

theorem mutex_refines_owner:
  assumes ok: "mutex_ok n k" and c: "caller t k" and time: "time < 2 ^ 31 - 1"
    and deep: "owner (mutexes k n) = Some t \<Longrightarrow> hold (mutexes k n) \<noteq> 0xff"
  shows "(\<exists>r k'. rt_mutex_take n time k = Some (r, k') \<and> mutex_ok n k' \<and>
      (mutex_answer_of r, mutex_abs n k') =
        amutex_take (queued (ipc_flag n k) (\<lambda>u. if owner (mutexes k n) = Some u then min (prio_of k u) (prio_of k t)
          else prio_of k u) t) t (time \<noteq> 0) (mutex_abs n k)) \<and>
    (\<exists>e k'. rt_mutex_release n k = Some (e, k') \<and> mutex_ok n k' \<and>
      (e = RT_EOK, mutex_abs n k') = amutex_release t (mutex_abs n k) \<and>
      (owner (mutexes k n) = Some t \<and> hold (mutexes k n) = 1 \<longrightarrow> prio_of k' t = original_priority (mutexes k n)) \<and>
      (\<forall>w. owner (mutexes k n) = Some t \<and> owner (mutexes k' n) = Some w \<and> w \<noteq> t \<longrightarrow> runnable (state_of k' w)))"
  using rt_mutex_take_refines [OF ok c time deep] rt_mutex_release_refines [OF ok c] by blast

theorem mutex_refines_owner_witness:
  "(\<exists>r k'. rt_mutex_take 2 5 demo = Some (r, k') \<and> mutex_abs 2 k' = (Some (2, 1), [])) \<and>
   (\<exists>e k'. rt_mutex_release 2 demo = Some (e, k') \<and> e \<noteq> RT_EOK)"
proof -
  have "mutex_abs 2 demo = (None, [])" by (simp add: mutex_abs_def demo_lists_def)
  then show ?thesis using mutex_refines_owner [OF demo_mutex_ok demo_caller, of 5] by fastforce
qed

text \<open>C13. Priority inheritance: a thread that has to wait for a mutex passes its priority on to an owner that is less urgent, so the owner is at least as urgent as the caller while it is waited for; the priority of no other thread changes and the mutex keeps its owner.\<close>

theorem mutex_inherits_priority:
  assumes ok: "mutex_ok n k" and c: "caller t k" and ow: "owner (mutexes k n) = Some ow" "ow \<noteq> t"
    and time: "time \<noteq> 0" "time < 2 ^ 31 - 1"
  shows "\<exists>k'. mutex_again n t time k = Some (Blocks t, k') \<and> mutex_ok n k' \<and> mutexes k' n = mutexes k n \<and>
    t \<in> set (tlists k' (SuspendQ n)) \<and> prio_of k' ow = min (prio_of k ow) (prio_of k t) \<and>
    (\<forall>u. u \<noteq> ow \<longrightarrow> prio_of k' u = prio_of k u)"
  using mutex_again_contended [OF ok c ow time] by fastforce

theorem mutex_inherits_priority_witness:
  "\<exists>k'. mutex_again 2 2 9 (demo_owned 1 1) = Some (Blocks 2, k') \<and> prio_of k' 1 = 10"
proof -
  have "mutex_ok 2 (demo_owned 1 1)" by (rule demo_owned_ok) simp_all
  from mutex_inherits_priority [OF this demo_owned_caller, of 1 9] obtain k' where
    k': "mutex_again 2 2 9 (demo_owned 1 1) = Some (Blocks 2, k')"
      "prio_of k' 1 = min (prio_of (demo_owned 1 1) 1) (prio_of (demo_owned 1 1) 2)"
    by (auto simp: demo_owned_def)
  have "prio_of (demo_owned 1 1) u = prio_of demo u" for u by (simp add: demo_owned_def)
  then have "prio_of k' 1 = 10" using k'(2) demo_prio [of 1] demo_prio [of 2] by simp
  with k'(1) show ?thesis by blast
qed

text \<open>C14. Sending bits to an event set walks the waiting threads in order: each whose wish is satisfied by the bits that are then set can run again with exactly the bits it gets, the bits of a clearing receiver are taken out before the next is looked at, the others stay in order, and afterwards no thread waits for bits that are there.\<close>

theorem event_send_walks_queue:
  assumes ok: "event_ok n k" and s: "s \<noteq> 0"
    and w: "event_walk (wish_of k) (tlists k (SuspendQ n)) (events (event_objs k n) OR s) = (woken, stay, s')"
  shows "\<exists>k'. rt_event_send n s k = Some (RT_EOK, k') \<and> event_ok n k' \<and> tlists k' (SuspendQ n) = stay \<and>
    events (event_objs k' n) = s' \<and> (\<forall>u. error (thr k' u) = error (thr k u)) \<and>
    (\<forall>(u, g) \<in> set woken. runnable (state_of k' u) \<and> event_set (thr k' u) = g)"
  by (rule rt_event_send_walk) fact+

theorem event_send_walks_queue_witness:
  "\<exists>k'. rt_event_send 3 5 (demo_wish 1 6) = Some (RT_EOK, k') \<and> tlists k' (SuspendQ 3) = [4] \<and> events (event_objs k' 3) = 5"
proof -
  have "event_walk (wish_of (demo_wish 1 6)) (tlists (demo_wish 1 6) (SuspendQ 3)) (events (event_objs (demo_wish 1 6) 3) OR 5) =
    ([], [4], 5)"
    by (simp add: demo_wish_def wish_of_def event_match_def RT_EVENT_FLAG_AND_def)
  from event_send_walks_queue [OF demo_wish_ok _ this] show ?thesis by auto
qed



text \<open>C16. A letter sent while a thread waits for mail is handed over: the first waiting thread can run, its receive returns that letter, and the mailbox is empty again with the other receivers still waiting.\<close>

theorem mailbox_hands_over:
  assumes "mb_ok n k" "mb_mail n k = []" "tlists k (SuspendQ n) = r # rs" "error (thr k r) = RT_EOK"
  shows "\<exists>k1 k2. rt_mb_send n v k = Some (Returns RT_EOK, k1) \<and> runnable (state_of k1 r) \<and>
    rt_mb_recv_resumed n (r, began, timeout) k1 = Some (Returns (RT_EOK, Some v), k2) \<and> mb_ok n k2 \<and> mb_mail n k2 = [] \<and>
    tlists k2 (SuspendQ n) = rs"
  by (rule mb_handover) fact+

theorem mailbox_hands_over_witness:
  "\<exists>k1 k2. rt_mb_send 4 77 (demo_waiting 4) = Some (Returns RT_EOK, k1) \<and> runnable (state_of k1 4) \<and>
    rt_mb_recv_resumed 4 (4, 90, 10) k1 = Some (Returns (RT_EOK, Some 77), k2) \<and> mb_mail 4 k2 = []"
  using mailbox_hands_over [OF demo_waiting_ok(3,5), of 4 "[]" 77 90 10] demo_waiting_error [of 4 4] by auto

text \<open>C17. A thread that is resumed while sending and finds the mailbox full again waits again only for the time it has left: its timer expires at the tick it would have expired at the first time, also when the tick counter wraps in between.\<close>

theorem mailbox_keeps_deadline:
  assumes "mb_ok n k" "caller t k" "length (mb_mail n k) = mb_room n k" "error (thr k t) = RT_EOK"
    and "0 < timeout" "timeout < 2 ^ 31 - 1" "uint (rt_tick k - began) < timeout"
  shows "\<exists>w k'. rt_mb_send_wait_resumed n v (t, began, timeout) k = Some (Blocks w, k') \<and> mb_ok n k' \<and>
    mb_mail n k' = mb_mail n k \<and> t \<in> set (tlists k' (SenderQ n)) \<and> Thread_timer t \<in> set (rt_timer_list k') \<and>
    expiry k' (Thread_timer t) = began + word_of_int timeout"
  by (rule rt_mb_send_wait_resumed_again) fact+

theorem mailbox_keeps_deadline_witness:
  "\<exists>w k'. rt_mb_send_wait_resumed 4 9 (2, 85, 20) demo_mb_full = Some (Blocks w, k') \<and>
    expiry k' (Thread_timer 2) = 105"
  using mailbox_keeps_deadline [OF demo_mb_full_ok, of 2 20 85 9] demo_mb_full_facts by auto



text \<open>C19. The message queue opens its critical section while it copies a message. Whatever the interleaving of senders, urgent senders, receivers and resets at that granularity, no slot is ever lost or in two places: those of the messages, the free ones and those in the hands of a thread add up to the pool, and the counter of messages is exact.\<close>

theorem message_pool_interleaving:
  assumes "\<forall>m < unat (max_msgs mq0). length (mq_data mq0 m) = unat (msg_size mq0)"
    and "mq_step\<^sup>*\<^sup>* (mq_thread mq0, Map.empty) (mq, F)"
  shows "card (dom F) + length (mq_used mq) + length (mq_unused mq) = unat (max_msgs mq) \<and>
    distinct (mq_used mq @ mq_unused mq) \<and> dom F \<inter> (set (mq_used mq) \<union> set (mq_unused mq)) = {} \<and>
    dom F \<union> set (mq_used mq) \<union> set (mq_unused mq) = {0..<unat (max_msgs mq)} \<and>
    unat (mq_entry mq) = length (mq_used mq)"
proof -
  have "pool_inv (mq_thread mq0, Map.empty)" using mq_thread_wf(1) [OF assms(1)] by (intro pool_invI) auto
  from pool_inv_reachable [OF assms(2) this] obtain us fs where wf: "mq_wf mq us fs (dom F)" by (auto simp: pool_inv_def)
  show ?thesis using mq_wfD [OF wf] mq_wf_count(1) [OF wf] mq_wf_used [OF wf] by auto
qed

theorem message_pool_interleaving_witness:
  "\<exists>mq F. mq_step\<^sup>*\<^sup>* (mq_thread (mqs demo 5), Map.empty) (mq, F) \<and> dom F = {1} \<and>
    card (dom F) + length (mq_used mq) + length (mq_unused mq) = unat (max_msgs mq)"
proof -
  have m: "\<forall>m < unat (max_msgs (mqs demo 5)). length (mq_data (mqs demo 5) m) = unat (msg_size (mqs demo 5))" by simp
  have "[0..<2] = [0, 1 :: nat]" by (simp add: upt_rec)
  then have "\<exists>mq. mq_grab (mq_thread (mqs demo 5)) = Some (1, mq)"
    by (simp add: mq_thread_def mq_give_back_def set_next_def mq_grab_def)
  then obtain mq where "mq_grab (mq_thread (mqs demo 5)) = Some (1, mq)" by blast
  then have r: "mq_step\<^sup>*\<^sup>* (mq_thread (mqs demo 5), Map.empty) (mq, [1 \<mapsto> Grabbed])"
    by (intro r_into_rtranclp mq_step.grab)
  show ?thesis using message_pool_interleaving [OF m r] r by (intro exI [of _ mq] exI [of _ "[1 \<mapsto> Grabbed]"]) simp
qed

text \<open>C20. Detaching a static mailbox or message queue never leaves a thread behind: every thread that waits to send or to receive can run again and finds -RT_ERROR, no other thread is affected, the object is out of its container and the kernel invariant holds.\<close>

theorem ipc_detach_releases_all:
  assumes k: "kinv k" and s: "rt_object_is_systemobject (Obj_ipc n) k"
  shows "(rt_object_get_type (Obj_ipc n) k = RT_Object_Class_MailBox \<longrightarrow>
      (\<exists>k'. rt_mb_detach n k = Some (RT_EOK, k') \<and> kinv k' \<and> dissolved n (waiters n k) k k')) \<and>
    (rt_object_get_type (Obj_ipc n) k = RT_Object_Class_MessageQueue \<longrightarrow>
      (\<exists>k'. rt_mq_detach n k = Some (RT_EOK, k') \<and> kinv k' \<and> dissolved n (waiters n k) k k'))"
  using rt_mb_detach_kinv [OF k _ s] rt_mq_detach_kinv [OF k _ s] by blast

theorem ipc_detach_releases_all_witness:
  "\<exists>k'. rt_mb_detach 4 (demo_waiting 4) = Some (RT_EOK, k') \<and> runnable (state_of k' 4) \<and> error (thr k' 4) = - RT_ERROR"
proof -
  have "rt_object_is_systemobject (Obj_ipc 4) (demo_waiting 4)"
    by (simp add: demo_object_def object_defs RT_Object_Class_Static_def)
  moreover have "4 \<in> waiters 4 (demo_waiting 4)" by (simp add: waiters_def)
  ultimately show ?thesis
    using ipc_detach_releases_all [OF kinv_demo_waiting, of 4 4] demo_types(4) by (auto simp: dissolved_def)
qed



text \<open>C22. A client that asks a heap for memory and gives back only what it was given can do so in any order: every request returns, the heap stays in order, the pointers the client holds are exactly the blocks in use, and no two of them share a byte.\<close>

theorem heap_scripts_stay_apart:
  assumes "heap_inv h k" "distinct ps" "set ps = fst ` live_blocks h k"
  shows "\<exists>ps' k'. serve (heap_alloc h) heap_free rs ps k = Some (ps', k') \<and> heap_inv h k' \<and>
    distinct ps' \<and> set ps' = fst ` live_blocks h k' \<and> held_apart (live_blocks h k')"
  by (rule memheap.serve_apart [OF assms])

theorem heap_scripts_stay_apart_witness:
  "\<exists>ps' k'. serve (heap_alloc 0) heap_free [Take 100, Take 8, Give 1] [0x1018] demo_heap_used = Some (ps', k') \<and> heap_inv 0 k' \<and>
    held_apart (live_blocks 0 k')"
proof -
  have "set [0x1018] = fst ` live_blocks 0 demo_heap_used" unfolding demo_heap_used_inv(2) by simp
  from heap_scripts_stay_apart [OF demo_heap_used_inv(1) _ this, of "[Take 100, Take 8, Give 1]"] show ?thesis by (simp only: distinct_singleton) blast
qed

text \<open>C23. However the critical sections of allocations, releases and resizings of a heap follow each other, the headers are well formed: blocks and headers fill the pool, no two free blocks are neighbours, the list of free blocks holds exactly the free blocks, and the available size is the sum of their sizes.\<close>

theorem heap_sections_in_any_order:
  assumes "pool_reach h (H, m)"
  shows "coalesced (pool_blocks H m) \<and> unat (available_size H) = free_bytes (pool_blocks H m) \<and>
    (\<Sum>(a, s, u) \<leftarrow> pool_blocks H m. s + 24) + 24 = unat (pool_size H) \<and>
    (\<exists>fs. dlist (fr m) (free_header H) fs \<and> set fs = {a. \<exists>s. (a, s, False) \<in> set (pool_blocks H m)})"
  by (rule pool_reach_layout [OF assms])

theorem heap_sections_in_any_order_witness:
  "coalesced (pool_blocks (fst (init_pool 0 0x1000 0x400 demo_bare_heap (hitems demo_bare))) (snd (init_pool 0 0x1000 0x400 demo_bare_heap (hitems demo_bare))))"
proof -
  have "pool_reach 0 (init_pool 0 0x1000 0x400 demo_bare_heap (hitems demo_bare))"
    by (rule created [of "0x1000" "0x400" demo_bare_heap]) (simp_all add: demo_aligned demo_bare_heap_def)
  then show ?thesis using heap_sections_in_any_order [of 0] by (metis prod.collapse)
qed

text \<open>C24. A block that is allocated and given back at once leaves the heap as it was: the same blocks, free and in use, with the same sizes, and the same available size; a split block is joined again.\<close>

theorem heap_alloc_free_roundtrip:
  assumes "heap_inv h k" "rt_memheap_alloc h sz k = Some (Returns (Some p), k1)"
  shows "\<exists>k2. rt_memheap_free p k1 = Some (Returns (), k2) \<and> heap_inv h k2 \<and> heap_view h k2 = heap_view h k \<and>
    available_size (heaps k2 h) = available_size (heaps k h)"
proof -
  obtain bs fs where B: "heap_ok h k bs fs" "heap_view h k = view k bs" by (rule heap_invE [OF assms(1)])
  show ?thesis using alloc_free_roundtrip [OF B(1) assms(2)] heap_invI B(2) by fastforce
qed

theorem heap_alloc_free_roundtrip_witness:
  "\<exists>k2. rt_memheap_free 0x1018 demo_heap_used = Some (Returns (), k2) \<and> heap_view 0 k2 = [(0x1000, 976, False)]"
  using heap_alloc_free_roundtrip [OF demo_heap_inv(1) demo_alloc] demo_heap_inv(2) by auto

text \<open>C25. Resizing a block, whether in place, by taking over the free block behind, by splitting or by moving, either fails and changes nothing, or yields a block of at least the new size that holds the bytes of the old block up to the smaller of the two sizes, while every other block keeps its address, its size and its bytes.\<close>

theorem heap_realloc_keeps_contents:
  assumes "heap_inv h k" "(p, s) \<in> live_blocks h k" "n \<noteq> 0" "unat n \<le> 2 ^ 32 - 16"
  shows "\<exists>r k'. rt_memheap_realloc h p n k = Some (Returns r, k') \<and> heap_inv h k' \<and>
    (case r of None \<Rightarrow> k' = k
     | Some q \<Rightarrow> (\<exists>s'. unat n \<le> s' \<and> live_blocks h k' = insert (q, s') (live_blocks h k - {(p, s)})) \<and>
         (\<forall>i < min s (unat n). hbytes k' (q + i) = hbytes k (p + i)) \<and>
         (\<forall>(c, t) \<in> live_blocks h k - {(p, s)}. \<forall>i < t. hbytes k' (c + i) = hbytes k (c + i)))"
proof -
  obtain bs fs where B: "heap_ok h k bs fs" "live_blocks h k = allocated k bs" by (rule heap_invE [OF assms(1)])
  then obtain r k' bs' fs' where R: "rt_memheap_realloc h p n k = Some (Returns r, k')" "heap_ok h k' bs' fs'"
    "case r of None \<Rightarrow> k' = k | Some q \<Rightarrow> q \<notin> fst ` (allocated k bs - {(p, s)}) \<and> resized p s n q k bs k' bs'"
    using rt_memheap_realloc_ok [of h k bs fs p s n] assms(2-4) by auto
  have "heap_inv h k'" "live_blocks h k' = allocated k' bs'" using heap_invI [OF R(2)] by simp_all
  then show ?thesis using R(1,3) unfolding B(2) resized_def
    by (intro exI [of _ r] exI [of _ k']) (simp split: option.splits)
qed

theorem heap_realloc_keeps_contents_witness:
  "\<exists>r k'. rt_memheap_realloc 0 0x1018 300 demo_heap_used = Some (Returns r, k') \<and> heap_inv 0 k'"
  using heap_realloc_keeps_contents [OF demo_heap_used_inv(1), of "0x1018" 100 300] demo_heap_used_inv(2) by auto

text \<open>C26. While the lock of a heap is held, a caller queues behind those who wait already and the heap is untouched. A thread that is given the lock takes the first block that fits from the heap as it finds it, and then the lock is free or in the hands of the first of the queue, who can run.\<close>

theorem heap_lock_is_handed_on:
  assumes "heap_held h k bs fs" "caller t k" "request_size n < available_size (heaps k h)" "error (thr k u) = RT_EOK"
  shows "(\<exists>k'. rt_memheap_alloc h n k = Some (Blocks (t, request_size n), k') \<and> heap_held h k' bs fs \<and>
      hitems k' = hitems k \<and> heaps k' = heaps k \<and> hbytes k' = hbytes k \<and> lock_queue h k' = lock_queue h k @ [t]) \<and>
    (\<exists>r k' bs' fs'. rt_memheap_alloc_resumed h (u, request_size n) k = Some (Returns r, k') \<and>
      handed_on h k k' bs' fs' \<and> hbytes k' = hbytes k \<and>
      (case r of None \<Rightarrow> view k' bs' = view k bs \<and> fits (hitems k) (request_size n) fs = None
       | Some p \<Rightarrow> fits (hitems k) (request_size n) fs = Some (p - 24) \<and>
           view k' bs' = take_at (unat (request_size n)) (p - 24) (view k bs)))"
  using rt_memheap_alloc_waits [OF assms(1-3)] rt_memheap_alloc_resumes [OF assms(1,4)] by blast

theorem heap_lock_is_handed_on_witness:
  "\<exists>k'. rt_memheap_alloc 0 100 demo_heap_held = Some (Blocks (2, 100), k') \<and> lock_queue 0 k' = [2]"
proof -
  have n: "request_size 100 = 100" by (simp add: request_size_def RT_ALIGN_def)
  note F = demo_heap_held_facts
  have a: "request_size 100 < available_size (heaps demo_heap_held 0)" unfolding n F(4) by simp
  show ?thesis using conjunct1 [OF heap_lock_is_handed_on [OF F(1,2) a F(5)]] n F(3) by auto
qed





text \<open>C29. A client that takes blocks from a memory pool without waiting and gives back only what it was given can do so in any order: every call returns, the free list and the words in front of the blocks stay in order, and no two blocks the client holds share a byte.\<close>

theorem pool_scripts_stay_apart:
  assumes "mp_ok n k" "distinct ps" "set ps = fst ` mp_held n k"
  shows "\<exists>ps' k'. serve (mp_alloc_now n) rt_mp_free rs ps k = Some (ps', k') \<and> mp_ok n k' \<and>
    distinct ps' \<and> set ps' = fst ` mp_held n k' \<and> held_apart (mp_held n k')"
  using mempool.serve_apart [of n k "unat (block_size (mempools k n))" ps rs] assms by blast

theorem pool_scripts_stay_apart_witness:
  "\<exists>ps' k'. serve (mp_alloc_now 7) rt_mp_free [Take (), Take (), Give 0] [] demo_pool = Some (ps', k') \<and> mp_ok 7 k'"
proof -
  have "set [] = fst ` mp_held 7 demo_pool" unfolding demo_pool_ok(3) by simp
  from pool_scripts_stay_apart [OF demo_pool_ok(1) distinct.simps(1) [THEN iffD2, OF TrueI] this, of "[Take (), Take (), Give 0]"]
  show ?thesis by blast
qed

text \<open>C30. Taking a block from a pool and giving it back at once, with nobody waiting for one, restores the state of the whole kernel exactly: the counters, the free list and every byte of memory.\<close>

theorem pool_alloc_free_identity:
  assumes "mp_ok n k" "rt_mp_alloc n time k = Some (Returns (Some p), k')" "tlists k (SuspendQ n) = []"
  shows "rt_mp_free p k' = Some k"
  by (rule alloc_then_free [OF assms])

theorem pool_alloc_free_identity_witness:
  "\<exists>k'. rt_mp_alloc 7 (- 1) demo_pool = Some (Returns (Some 0x2004), k') \<and> rt_mp_free 0x2004 k' = Some demo_pool"
  using rt_mp_alloc_takes [OF demo_pool_ok(1,2), of "- 1"] pool_alloc_free_identity [OF demo_pool_ok(1) _ demo_pool_ok(4), of "- 1" "0x2004"] by auto

text \<open>C31. A thread that finds the pool empty blocks, is put in front of all threads that wait already, is woken by the next block that is given back, and gets exactly that block; the others wait on.\<close>

theorem pool_last_come_first_served:
  assumes "mp_ok n k" "mp_free_list n k = []" "caller t k" "time \<noteq> 0" "time < 2 ^ 31 - 1" "(p, s) \<in> mp_held n k"
  shows "\<exists>w k1 k2 k3. rt_mp_alloc n time k = Some (Blocks w, k1) \<and> rt_mp_free p k1 = Some k2 \<and> mp_ok n k2 \<and>
    runnable (state_of k2 t) \<and> tlists k2 (SuspendQ n) = tlists k (SuspendQ n) \<and>
    rt_mp_alloc_resumed n w k2 = Some (Returns (Some p), k3) \<and> mp_ok n k3 \<and> mp_held n k3 = mp_held n k"
  by (rule rt_mp_alloc_handover [OF assms])

theorem pool_last_come_first_served_witness:
  "\<exists>w k1 k2 k3. rt_mp_alloc 7 100 demo_pool_used = Some (Blocks w, k1) \<and> rt_mp_free 0x2004 k1 = Some k2 \<and>
    runnable (state_of k2 2) \<and> rt_mp_alloc_resumed 7 w k2 = Some (Returns (Some 0x2004), k3) \<and> mp_held 7 k3 = {(0x2004, 12)}"
proof -
  have "(0x2004, 12) \<in> mp_held 7 demo_pool_used" unfolding demo_pool_used_ok(3) by simp
  from pool_last_come_first_served [OF demo_pool_used_ok(1,2,4) _ _ this, of 100] show ?thesis
    unfolding demo_pool_used_ok(3) by simp blast
qed

text \<open>C32. A message sent on a channel reaches every thread that waits in bin_channel_recv: the sender returns, the queue is empty, each of the receivers can run, and when it does its call returns the message, with the sending thread as sender.\<close>

theorem channel_message_arrives:
  assumes "chan_at t k fd c" "kinv k" "all_read c k" "ipc_msg_pos k < IPC_MSG_SIZE"
    and "\<forall>u \<in> set (tlists k (SuspendQ c)). error (thr k u) = RT_EOK"
  shows "\<exists>k'. bin_channel_send fd msg False junk k = Some (Returns (RT_EOK, None), k') \<and> kinv k' \<and>
    tlists k' (SuspendQ c) = [] \<and>
    (\<forall>u \<in> set (tlists k (SuspendQ c)). runnable (state_of k' u) \<and>
       (\<exists>k''. chan_resume (Recv_resumed u c) k' = Some (Returns (RT_EOK, Some (message_of t msg)), k'')))"
proof -
  obtain k' where k': "bin_channel_send fd msg False junk k = Some (Returns (RT_EOK, None), k')" "kinv k'"
    "got_message t c msg (set (tlists k (SuspendQ c))) k k'"
    using bin_channel_send_ok [OF assms(1-4), of msg junk] by blast
  have "\<exists>k''. chan_resume (Recv_resumed u c) k' = Some (Returns (RT_EOK, Some (message_of t msg)), k'')"
    if u: "u \<in> set (tlists k (SuspendQ c))" for u
  proof -
    have "u \<noteq> t" using kinv_linked [OF assms(2) u] chan_at_caller [OF assms(1)] by (auto simp: caller_def)
    then show ?thesis using recv_resumed_message [of k' u "ipc_msg_pos k" c] k'(3) assms(5) u by (auto simp: got_message_def)
  qed
  then show ?thesis using k' by (auto simp: got_message_def)
qed

theorem channel_message_arrives_witness:
  "\<exists>k' k''. bin_channel_send 3 \<lparr>sender = None, msg_type = 7, msg_u = (1, 2)\<rparr> False False demo_chan = Some (Returns (RT_EOK, None), k') \<and>
    chan_resume (Recv_resumed 4 1) k' = Some (Returns (RT_EOK, Some \<lparr>sender = Some 2, msg_type = 7, msg_u = (1, 2)\<rparr>), k'')"
proof -
  have q: "set (tlists demo_chan (SuspendQ 1)) = {4}" by (simp add: demo_lists_def)
  have "\<forall>u \<in> set (tlists demo_chan (SuspendQ 1)). error (thr demo_chan u) = RT_EOK" unfolding q by (simp add: demo_thread_def Let_def)
  from channel_message_arrives [OF demo_chan_at kinv_demo_chan _ _ this, of "\<lparr>sender = None, msg_type = 7, msg_u = (1, 2)\<rparr>" False]
  show ?thesis unfolding q by (auto simp: all_read_def IPC_MSG_SIZE_def message_of_def)
qed







text \<open>C36. Opening a channel that the caller does not know creates it and returns a descriptor of it, ready for use; closing that descriptor deletes the channel and leaves the descriptor table and the object containers as they were before.\<close>

theorem channel_open_close:
  assumes "fd_ready t k" "kinv k" "known_channel name k = Some None" "c \<noteq> fslock" "\<And>ty. Obj_ipc c \<notin> set (objects k ty)"
    "\<And>q. Some d \<notin> set (fd_tables k q)" "\<And>j. j < idx \<Longrightarrow> fd_users t k j \<noteq> None" "fd_users t k idx = None" "idx < DFS_FD_MAX"
  shows "\<exists>fd k1 k2. bin_channel_open name flag (Some c) True (Some d) k = Some (Returns (fd, None), k1) \<and> 0 \<le> fd \<and>
    chan_at t k1 fd c \<and> idle_channel c k1 \<and>
    bin_channel_close fd k1 = Some (Returns (RT_EOK, None), k2) \<and> kinv k2 \<and> fd_ready t k2 \<and>
    fd_users t k2 = fd_users t k \<and> objects k2 = objects k"
  by (rule open_then_close [OF assms])

theorem channel_open_close_witness:
  "\<exists>fd k1 k2. bin_channel_open ''new'' 0 (Some 7) True (Some 0x700) demo_chan = Some (Returns (fd, None), k1) \<and>
    chan_at 2 k1 fd 7 \<and> bin_channel_close fd k1 = Some (Returns (RT_EOK, None), k2) \<and> objects k2 = demo_chan_objects"
proof -
  have "fd_users 2 demo_chan j \<noteq> None" if "j < 1" for j using that by (simp add: fd_users_def own_table_def)
  moreover have "fd_users 2 demo_chan 1 = None" by (simp add: fd_users_def own_table_def)
  ultimately show ?thesis
    using channel_open_close [OF demo_chan_ready(1) kinv_demo_chan demo_chan_unknown, of 7 "0x700" 1 0] demo_chan_fresh
    by (auto simp: DFS_FD_MAX_def fslock_def)
qed

text \<open>C37. A file descriptor lives exactly as long as it has users: after any sequence of fd_get and fd_put on it that does not go on after the last user has left, the number of users is the initial one plus the gets minus the puts, the entry is free when that is zero, and no other descriptor of the process has changed.\<close>

theorem descriptor_users:
  assumes "fd_ready t k" "fd_is t k fd n d" "in_use_until (ref_count (dfs_fds k d)) ops"
  shows "\<exists>k'. fd_script fd d ops k = Some k' \<and> fd_ready t k' \<and>
     fd_users t k' = (let c = users_left (ref_count (dfs_fds k d)) ops
       in (fd_users t k)(n := if c = 0 then None else Some c))"
  by (rule fd_script_users [OF assms])

theorem descriptor_users_witness:
  "\<exists>k'. fd_script 3 0x500 [True, True, False, False, False] demo_chan = Some k' \<and> fd_users 2 k' 0 = None"
  using descriptor_users [OF demo_chan_ready, of "[True, True, False, False, False]"] by (auto simp: demo_fd_def)







subsection \<open>Further facts\<close>

text \<open>A thread that sleeps is suspended with its timer in the timer list, to expire exactly that many ticks from now, and the kernel invariant holds again.\<close>

theorem thread_sleep_arms_timer:
  assumes "kinv k" "rt_current_thread k = Some t" "state_of k t = RT_THREAD_RUNNING" "tick < RT_TICK_HALF"
  shows "\<exists>k'. rt_thread_sleep tick k = Some k' \<and> kinv k' \<and> state_of k' t = RT_THREAD_SUSPEND \<and>
    Thread_timer t \<in> set (rt_timer_list k') \<and> expiry k' (Thread_timer t) = rt_tick k + tick"
  by (rule rt_thread_sleep_kinv) fact+

theorem thread_sleep_arms_timer_witness:
  "\<exists>k'. rt_thread_sleep 20 demo = Some k' \<and> kinv k' \<and> state_of k' 2 = RT_THREAD_SUSPEND \<and>
    Thread_timer 2 \<in> set (rt_timer_list k') \<and> expiry k' (Thread_timer 2) = rt_tick demo + 20"
  by (rule thread_sleep_arms_timer [OF kinv_demo demo_sel(5)])
    (unfold demo_state, simp_all add: RT_TICK_HALF_def RT_TICK_MAX_def)

text \<open>What \<open>rt_thread_delay_until\<close> does when it is called some ticks after its reference time: the timer expires at the reference time plus the increment plus twice that delay, although the function is documented to wake the thread at the reference time plus the increment.\<close>

theorem delay_until_oversleeps:
  assumes "kinv k" "rt_current_thread k = Some t" "state_of k t = RT_THREAD_RUNNING"
    and "rt_tick k - tick < inc" "rt_tick k - tick + inc < RT_TICK_HALF"
  shows "\<exists>k'. rt_thread_delay_until tick inc k = Some (True, rt_tick k - tick + inc, k') \<and> kinv k' \<and>
    expiry k' (Thread_timer t) = (tick + inc) + 2 * (rt_tick k - tick)"
  by (rule rt_thread_delay_until_wakes_at) fact+

theorem delay_until_oversleeps_witness:
  "\<exists>k'. rt_thread_delay_until 80 30 demo = Some (True, 40, k') \<and> kinv k' \<and> expiry k' (Thread_timer 2) = 130"
proof -
  have "state_of demo 2 = RT_THREAD_RUNNING" unfolding demo_state by simp
  then have "\<exists>k'. rt_thread_delay_until 80 30 demo = Some (True, rt_tick demo - 80 + 30, k') \<and> kinv k' \<and>
    expiry k' (Thread_timer 2) = (80 + 30) + 2 * (rt_tick demo - 80)"
    by (intro delay_until_oversleeps [OF kinv_demo demo_sel(5)])
      (simp_all add: RT_TICK_HALF_def RT_TICK_MAX_def del: demo_sel(3))
  then show ?thesis by simp
qed

text \<open>A thread object that is not in use can be initialised and started: both calls succeed, keep the kernel invariant, and the thread can then run with the priority it was given.\<close>

theorem thread_init_then_startup:
  assumes k: "kinv k" and l: "lock_ok k" and u: "unused t k" and p: "priority < RT_THREAD_PRIORITY_MAX"
    and n: "Obj_thread t \<notin> set (objects k RT_Object_Class_Thread)"
    "Obj_timer (Thread_timer t) \<notin> set (objects k RT_Object_Class_Timer)"
  shows "\<exists>k1 k2. rt_thread_init t name priority tick k = Some (RT_EOK, k1) \<and> kinv k1 \<and>
    state_of k1 t = RT_THREAD_INIT \<and> rt_thread_startup t k1 = Some (RT_EOK, k2) \<and> kinv k2 \<and>
    runnable (state_of k2 t) \<and> prio_of k2 t = priority"
proof -
  obtain k1 where i: "rt_thread_init t name priority tick k = Some (RT_EOK, k1)" "kinv k1" "unused t k1"
    "state_of k1 t = RT_THREAD_INIT" "init_priority (thr k1 t) = priority" "thread_object_ok t k1"
    using rt_thread_init_kinv [OF k l u p n] by blast
  show ?thesis using rt_thread_startup_kinv [OF i(2,4,3,6)] i p by auto
qed

theorem thread_init_then_startup_witness:
  "\<exists>k1 k2. rt_thread_init 9 ''new'' 3 10 demo = Some (RT_EOK, k1) \<and> rt_thread_startup 9 k1 = Some (RT_EOK, k2) \<and>
    runnable (state_of k2 9) \<and> prio_of k2 9 = 3"
proof -
  have "\<not> live (state_of demo 9)" unfolding demo_live by simp
  then have u: "unused 9 demo" by (simp add: unused_def unlinked_def demo_lists_def)
  have "lock_ok demo" by (simp add: lock_ok_def)
  from thread_init_then_startup [OF kinv_demo this u, of 3 "''new''" 10] show ?thesis
    by (auto simp: demo_objects_def RT_THREAD_PRIORITY_MAX_def RT_Object_Class_Thread_def RT_Object_Class_Timer_def)
qed

text \<open>Changing the priority of a thread keeps the kernel invariant: a ready thread moves to the end of the queue of its new priority, any other keeps its place, and no state changes.\<close>

theorem thread_change_priority:
  assumes "kinv k" "rt_object_get_type (Obj_thread t) k = RT_Object_Class_Thread" "p < RT_THREAD_PRIORITY_MAX"
  shows "\<exists>k'. rt_thread_control t (THREAD_CTRL_CHANGE_PRIORITY p) k = Some (RT_EOK, k') \<and> kinv k' \<and>
    prio_of k' t = p \<and> state_of k' t = state_of k t \<and>
    (state_of k t = RT_THREAD_READY \<longrightarrow> tlists k' = l_append (ReadyQ p) t (l_unlink t (tlists k))) \<and>
    (state_of k t \<noteq> RT_THREAD_READY \<longrightarrow> k' = upd_thr t (set_priority p) k)"
  by (rule rt_thread_control_priority_kinv) fact+

theorem thread_change_priority_witness:
  "\<exists>k'. rt_thread_control 3 (THREAD_CTRL_CHANGE_PRIORITY 7) demo = Some (RT_EOK, k') \<and> kinv k' \<and>
    tlists k' (ReadyQ 7) = [3]"
proof -
  have "state_of demo 3 = RT_THREAD_READY" unfolding demo_state by simp
  moreover have "rt_object_get_type (Obj_thread 3) demo = RT_Object_Class_Thread"
    using demo_object_ok [of 3] by (simp add: thread_object_ok_def)
  ultimately show ?thesis using thread_change_priority [OF kinv_demo, of 3 7]
    by (auto simp: RT_THREAD_PRIORITY_MAX_def l_append_def l_unlink_def demo_lists_def)
qed

text \<open>Detaching a live static thread closes it wherever it was, running, ready, asleep or waiting for an object: it is in no ready and no waiting queue any more, its timer is stopped, and the kernel invariant holds.\<close>

theorem thread_detach_closes:
  assumes k: "kinv k" and v: "live (state_of k t)" and st: "rt_object_is_systemobject (Obj_thread t) k"
  shows "\<exists>k'. rt_thread_detach t k = Some (RT_EOK, k') \<and> kinv k' \<and> state_of k' t = RT_THREAD_CLOSE \<and>
    (\<forall>p. t \<notin> set (tlists k' (ReadyQ p))) \<and> (\<forall>n. t \<notin> set (tlists k' (SuspendQ n)) \<and> t \<notin> set (tlists k' (SenderQ n))) \<and>
    Thread_timer t \<notin> set (rt_timer_list k')"
proof -
  have n: "state_of k t \<noteq> RT_THREAD_CLOSE" "state_of k t \<noteq> RT_THREAD_INIT" using v by auto
  obtain k' where d: "rt_thread_detach t k = Some (RT_EOK, k')" "kinv k'" "state_of k' t = RT_THREAD_CLOSE"
    using rt_thread_detach_kinv [OF k kinv_live(6) [OF k v] st n(1)] n(2) v by blast
  then show ?thesis
    using kinv_ready [OF d(2), of t] kinv_suspendq [OF d(2), of t] kinv_senderq [OF d(2), of t]
      kinv_timer_suspended [OF d(2), of t] by auto
qed

theorem thread_detach_closes_witness:
  "\<exists>k'. rt_thread_detach 4 demo = Some (RT_EOK, k') \<and> kinv k' \<and> state_of k' 4 = RT_THREAD_CLOSE \<and>
    Thread_timer 4 \<notin> set (rt_timer_list k')"
proof -
  have "live (state_of demo 4)" unfolding demo_live by simp
  from thread_detach_closes [OF kinv_demo this] show ?thesis using demo_static by auto
qed

text \<open>A critical section is transparent: from every nesting depth the 16-bit counter can hold, entering and leaving it gives the state back, but for one run of the scheduler when the outermost section is left.\<close>

theorem critical_section_schedules:
  assumes "0 \<le> rt_scheduler_lock_nest k" "rt_scheduler_lock_nest k < 32767"
  shows "rt_exit_critical (rt_enter_critical k) =
    (if rt_scheduler_lock_nest k = 0 \<and> rt_current_thread k \<noteq> None then rt_schedule k else Some k)"
  by (rule enter_exit_critical) fact+

theorem critical_section_schedules_witness:
  "rt_exit_critical (rt_enter_critical demo) = rt_schedule demo"
  using critical_section_schedules [of demo] by simp

text \<open>Looking an object up by name returns the first object of its class whose name agrees on the first \<open>RT_NAME_MAX\<close> characters, and \<open>RT_NULL\<close> for a missing name or a class that is not configured.\<close>

theorem object_find_first:
  "find_by_name h name rs = List.find (\<lambda>r. take RT_NAME_MAX (oname (h r)) = take RT_NAME_MAX name) rs"
  by (simp add: find_by_name_correct name_matches_def)

text \<open>The table lookup of \<open>__rt_ffs\<close> finds the lowest set bit of every non-zero 32-bit word.\<close>

theorem ffs_finds_lowest_bit:
  assumes "w \<noteq> 0"
  shows "0 < rt_ffs w \<and> rt_ffs w \<le> 32 \<and> bit w (rt_ffs w - 1) \<and> (\<forall>j < rt_ffs w - 1. \<not> bit w j)"
  using rt_ffs_lowest [OF assms] rt_ffs_less [OF assms] by auto

theorem ffs_finds_lowest_bit_witness:
  "bit (0x00280000 :: u32) (rt_ffs 0x00280000 - 1) \<and> rt_ffs 0x00280000 \<le> 32"
  using ffs_finds_lowest_bit [of "0x00280000"] by simp

text \<open>A forced put that overruns the buffer keeps the newest bytes, as many as the buffer holds, provided the two indices are in different mirrors.\<close>

theorem ringbuffer_put_force_keeps_newest:
  assumes "rb_wf rb" "n \<le> length ptr" "read_mirror rb \<noteq> write_mirror rb" "buffer_size rb < length (contents rb) + n"
  shows "\<exists>rb'. rt_ringbuffer_put_force rb ptr n = Some (min n (buffer_size rb), rb') \<and> rb_wf rb' \<and>
    buffer_size rb' = buffer_size rb \<and>
    contents rb' = drop (length (contents rb @ take n ptr) - buffer_size rb) (contents rb @ take n ptr)"
  by (rule put_force_over) fact+

theorem ringbuffer_put_force_keeps_newest_witness:
  "\<exists>rb'. rt_ringbuffer_put_force demo_rb_full [9] 1 = Some (1, rb') \<and>
    contents rb' = drop (length (contents demo_rb_full @ [9]) - 4) (contents demo_rb_full @ [9])"
  using ringbuffer_put_force_keeps_newest [of demo_rb_full 1 "[9]"] demo_rb_full_facts by auto

text \<open>When both indices are in the same mirror the same call reports success and leaves the buffer empty: the read index is moved onto the write index and its mirror is flipped as well.\<close>

theorem ringbuffer_put_force_loses_all:
  assumes "rb_wf rb" "n \<le> length ptr" "read_mirror rb = write_mirror rb"
    and "contents rb \<noteq> []" "buffer_size rb < length (contents rb) + n"
  shows "\<exists>rb'. rt_ringbuffer_put_force rb ptr n = Some (min n (buffer_size rb), rb') \<and> contents rb' = []"
  by (rule put_force_loses) fact+

theorem ringbuffer_put_force_loses_all_witness:
  "\<exists>rb'. rt_ringbuffer_put_force demo_rb [7, 8, 9] 3 = Some (3, rb') \<and> contents rb' = []"
  using ringbuffer_put_force_loses_all [OF demo_rb_wf, of 3 "[7, 8, 9]"] demo_rb_facts by auto

text \<open>Releasing a semaphore several times in a row lets as many waiters go, the first ones of the queue, and what is left over is added to the counter; nobody else is woken.\<close>

theorem semaphore_many_releases:
  assumes "ipc_inv k" "rt_object_get_type (Obj_ipc n) k = RT_Object_Class_Semaphore"
    and "unat (sem_value (sems k n)) + (c - length (tlists k (SuspendQ n))) \<le> 65535"
  shows "\<exists>k'. iter_opt (sem_give n) c k = Some k' \<and> tlists k' (SuspendQ n) = drop c (tlists k (SuspendQ n)) \<and>
    unat (sem_value (sems k' n)) = unat (sem_value (sems k n)) + (c - length (tlists k (SuspendQ n))) \<and>
    (\<forall>u. runnable (state_of k' u) \<longleftrightarrow> runnable (state_of k u) \<or> u \<in> set (take c (tlists k (SuspendQ n))))"
  using semq.give_many [of k n c] assms by blast

theorem semaphore_many_releases_witness:
  "\<exists>k'. iter_opt (sem_give 1) 3 demo = Some k' \<and> tlists k' (SuspendQ 1) = [] \<and> unat (sem_value (sems k' 1)) = 2 \<and>
    runnable (state_of k' 4)"
  using semaphore_many_releases [OF ipc_inv_demo demo_types(1), of 3] by (auto simp: demo_lists_def)

text \<open>The counter of a semaphore wraps: a release at 65535 without waiters reports success and leaves 0, so all the releases so far are lost.\<close>

theorem semaphore_release_wraps:
  assumes "sem_ok n k" "tlists k (SuspendQ n) = []" "sem_value (sems k n) = 0xffff"
  shows "\<exists>k'. rt_sem_release n k = Some (RT_EOK, k') \<and> sem_abs n k' = (0, [])"
  by (rule rt_sem_release_wraps) fact+

theorem semaphore_release_wraps_witness:
  "\<exists>k'. rt_sem_release 1 (upd_sem 1 (\<lambda>s. s\<lparr>sem_value := 0xffff\<rparr>) (demo_waiting 3)) = Some (RT_EOK, k') \<and> sem_abs 1 k' = (0, [])"
proof (rule semaphore_release_wraps)
  have "ipc_inv (demo_waiting 3)" by (simp add: ipc_inv_def kinv_demo_waiting)
  moreover have "tlists (demo_waiting 3) (SuspendQ 1) = []" by (simp add: demo_waiting_def)
  ultimately show "sem_ok 1 (upd_sem 1 (\<lambda>s. s\<lparr>sem_value := 0xffff\<rparr>) (demo_waiting 3))"
    using demo_sem_ok by (simp add: sem_ok_def)
qed (simp_all add: demo_waiting_def)

text \<open>The depth of a mutex wraps: the owner that takes it once more at depth 255 succeeds, but the depth is 0 afterwards.\<close>

theorem mutex_take_wraps:
  assumes "mutex_ok n k" "caller t k" "owner (mutexes k n) = Some t" "hold (mutexes k n) = 0xff"
  shows "\<exists>k'. rt_mutex_take n time k = Some (Returns RT_EOK, k') \<and> mutex_abs n k' = (Some (t, 0), tlists k (SuspendQ n))"
  by (rule rt_mutex_take_wraps) fact+

theorem mutex_take_wraps_witness:
  "\<exists>k'. rt_mutex_take 2 0 (demo_owned 2 0xff) = Some (Returns RT_EOK, k') \<and> mutex_abs 2 k' = (Some (2, 0), [])"
proof -
  have "mutex_ok 2 (demo_owned 2 0xff)" by (rule demo_owned_ok) simp_all
  from mutex_take_wraps [OF this demo_owned_caller, of 0] show ?thesis by (simp add: demo_owned_def demo_lists_def)
qed

text \<open>Receiving from an event set: when the wish is satisfied the call returns the bits of it that are set, and clears the wanted bits if the clear option is given; otherwise, with a timeout, the caller is queued with its wish recorded and the set is untouched.\<close>

theorem event_receive_cases:
  assumes ok: "event_ok n k" and c: "caller t k" and s: "s \<noteq> 0"
    and o: "option AND RT_EVENT_FLAG_AND \<noteq> 0 \<or> option AND RT_EVENT_FLAG_OR \<noteq> 0"
    and time: "timeout \<noteq> 0" "timeout < 2 ^ 31 - 1"
  shows "if wish_met option s (events (event_objs k n))
    then \<exists>k'. rt_event_recv n s option timeout k = Some (Returns (RT_EOK, Some (events (event_objs k n) AND s)), k') \<and>
      event_ok n k' \<and> events (event_objs k' n) =
        (if option AND RT_EVENT_FLAG_CLEAR \<noteq> 0 then events (event_objs k n) AND NOT s else events (event_objs k n))
    else \<exists>k'. rt_event_recv n s option timeout k = Some (Blocks t, k') \<and> event_ok n k' \<and>
      tlists k' (SuspendQ n) = queued (ipc_flag n k) (prio_of k) t (tlists k (SuspendQ n)) \<and>
      wish_of k' t = (option, s) \<and> event_objs k' n = event_objs k n"
  using rt_event_recv_ready [OF ok c s, of option timeout] rt_event_recv_waits [OF ok c s o _ time]
  unfolding event_match_met by auto

theorem event_receive_cases_witness:
  "\<exists>k'. rt_event_recv 3 6 2 9 demo = Some (Blocks 2, k') \<and> tlists k' (SuspendQ 3) = [2] \<and> wish_of k' 2 = (2, 6)"
  using event_receive_cases [OF demo_event_ok demo_caller, of 6 2 9] demo_flag
  by (simp add: event_match_def RT_EVENT_FLAG_AND_def RT_EVENT_FLAG_OR_def queued_def demo_lists_def flip: event_match_met) blast

text \<open>An urgent message that fits overtakes: it is the first that will be received, all others keep their order, and the first waiting receiver can run; when no slot is free the call returns -RT_EFULL and changes nothing.\<close>

theorem message_queue_urgent:
  assumes ok: "mq_ok n k" and b: "buf \<noteq> []" "length buf \<le> mq_width n k"
  shows "if length (mq_mail n k) = mq_room n k then rt_mq_urgent n buf k = Some (- RT_EFULL, k)
    else \<exists>k' pad. rt_mq_urgent n buf k = Some (RT_EOK, k') \<and> mq_ok n k' \<and>
      mq_mail n k' = (buf @ pad) # mq_mail n k \<and> length (buf @ pad) = mq_width n k \<and>
      (\<forall>u. runnable (state_of k' u) \<longleftrightarrow> runnable (state_of k u) \<or> u \<in> set (take 1 (tlists k (SuspendQ n))))"
  using rt_mq_urgent_full [OF ok _ b] rt_mq_urgent_first [OF ok _ b] mq_bounded [OF ok]
  by (cases "length (mq_mail n k) = mq_room n k") auto

theorem message_queue_urgent_witness:
  "\<exists>k' pad. rt_mq_urgent 5 [3, 1] demo = Some (RT_EOK, k') \<and> mq_mail 5 k' = [[3, 1] @ pad] \<and> length pad = 2"
  using message_queue_urgent [OF demo_mq_ok, of "[3, 1]"] by (auto simp: demo_mq_mail)

text \<open>Freeing a block gives no memory back: the block leaves the list, what the allocator can still account for shrinks by its length, and every block behind it is taken to lie that much lower than the address its owner has. In the example the address of a block that is still in use is handed out a second time.\<close>

theorem shared_memory_free_moves:
  assumes "bmem_ok m" "block_node m = pre @ Slot t i # ys" "\<And>x. x \<in> set pre \<Longrightarrow> 0 < blen m x"
    and "bmem_free True (start m + of_nat (total m pre)) m = (e, m')"
  shows "e = RT_EOK \<and> total m' (block_node m') = unat (mem_size m) - blen m (Slot t i) \<and>
    held m = in_use m pre 0 \<union> {(total m pre, blen m (Slot t i))} \<union> in_use m ys (total m pre + blen m (Slot t i)) \<and>
    held m' = in_use m pre 0 \<union> in_use m ys (total m pre)"
  using bmem_free_at [OF assms(1-3)] assms by (auto simp: held_def bmem_ok_def)

theorem shared_memory_free_moves_witness:
  "bmem_free True 0x1000 shm_two = (RT_EOK, snd (bmem_free True 0x1000 shm_two)) \<and>
   held (snd (bmem_free True 0x1000 shm_two)) = {(0, 0x100)} \<and>
   fst (bmem_malloc (Some 6) 0x100 shm_one) = Some 0x1100 \<and>
   fst (bmem_malloc (Some 6) 0x100 (snd (bmem_free True 0x1000 shm_two))) = Some 0x1100"
  using shared_memory_free_moves [OF shm_two_ok, of "[]" 5 0 "[Slot 5 1, First]", OF _ _ prod.collapse [symmetric]]
    shm_two_addresses(2) shm_reuse
  by (simp add: shm_two_simps blen_def prod_eq_iff)

text \<open>A request in the last bytes of the 32-bit range is not refused: aligning it wraps to zero, the request becomes the smallest one, and any heap with free memory answers it with a block of fewer than 48 bytes.\<close>

theorem heap_request_wraps:
  assumes "heap_inv h k" "(a, t, False) \<in> set (heap_view h k)" "12 < available_size (heaps k h)" "2 ^ 32 - 4 < unat sz"
  shows "\<exists>p k' s. rt_memheap_alloc h sz k = Some (Returns (Some p), k') \<and> heap_inv h k' \<and> (p, s) \<in> live_blocks h k' \<and> s < 48"
  by (rule rt_memheap_alloc_wraps [OF assms])

theorem heap_request_wraps_witness:
  "\<exists>p k' s. rt_memheap_alloc 0 0xfffffffe demo_heap = Some (Returns (Some p), k') \<and> (p, s) \<in> live_blocks 0 k' \<and> s < 48"
proof -
  have "(0x1000, 976, False) \<in> set (heap_view 0 demo_heap)" "12 < available_size (heaps demo_heap 0)"
    unfolding demo_heap_inv(2) demo_heap_available by simp_all
  from heap_request_wraps [OF demo_heap_inv(1) this, of "0xfffffffe"] show ?thesis by auto
qed

text \<open>When the product does not overflow and the system heap has room, rt_calloc hands out a block of at least count times size bytes that are all zero, and changes no byte of another block.\<close>

theorem calloc_clears_its_block:
  assumes "heap_inv 0 k" "rt_memheap_alloc 0 (n * sz) k = Some (Returns (Some p), k1)" "unat n * unat sz \<le> 2 ^ 32 - 4"
  shows "\<exists>k' s. rt_calloc n sz k = Some (Returns (Some p), k') \<and> heap_inv 0 k' \<and>
    live_blocks 0 k' = insert (p, s) (live_blocks 0 k) \<and> unat n * unat sz \<le> s \<and>
    (\<forall>i < unat n * unat sz. hbytes k' (p + i) = 0) \<and>
    (\<forall>(c, t) \<in> live_blocks 0 k. \<forall>i < t. hbytes k' (c + i) = hbytes k (c + i))"
  by (rule rt_calloc_clears [OF assms])

theorem calloc_clears_its_block_witness:
  "\<exists>k' s. rt_calloc 25 4 demo_heap = Some (Returns (Some 0x1018), k') \<and> heap_inv 0 k' \<and> 100 \<le> s \<and>
    live_blocks 0 k' = insert (0x1018, s) (live_blocks 0 demo_heap)"
  using calloc_clears_its_block [OF demo_heap_inv(1), of 25 4 "0x1018" demo_heap_used] demo_alloc by auto

text \<open>rt_memmove is right for every overlap: each byte of the target gets the byte of the source as it was before the call and nothing else changes. rt_memcpy, which copies four words at a time, then words, then bytes, agrees with it whenever its target does not start inside its source.\<close>

theorem copy_routines_agree:
  assumes "ahead d s (unat n)"
  shows "rt_memmove d s n m = (\<lambda>a. if d \<le> a \<and> a < d + unat n then m (s + (a - d)) else m a) \<and>
    rt_memcpy d s n m = rt_memmove d s n m"
  using rt_memmove_copied [of d s n m] rt_memcpy_copied [OF assms, of m] by (simp add: copied_def)

theorem copy_routines_agree_witness:
  "rt_memcpy 0x100 0x104 38 (\<lambda>a. of_nat a) = rt_memmove 0x100 0x104 38 (\<lambda>a. of_nat a)"
  using copy_routines_agree [of "0x100" "0x104" 38] by (simp add: ahead_def)

text \<open>rt_strstr returns for every two strings: it gives the first address in the first string where the second one occurs, and a null pointer exactly when the second string is no part of the first.\<close>

theorem strstr_first_occurrence:
  assumes "str_at a xs m" "str_at b ys m" "length xs < 2 ^ 32" "length ys < 2 ^ 32"
  shows "\<exists>r. rt_strstr a b m = Some r \<and>
    (case r of None \<Rightarrow> \<not> sublist ys xs
     | Some p \<Rightarrow> \<exists>i \<le> length xs. p = a + i \<and> prefix ys (drop i xs) \<and> (\<forall>j < i. \<not> prefix ys (drop j xs)))"
  by (rule rt_strstr_str [OF assms])

theorem strstr_first_occurrence_witness:
  "\<exists>r. rt_strstr 10 20 ((\<lambda>_. 0)(10 := 97, 11 := 98, 12 := 98, 20 := 98)) = Some r \<and>
    (case r of None \<Rightarrow> \<not> sublist [98] [97, 98, 98 :: u8]
     | Some p \<Rightarrow> \<exists>i \<le> length [97, 98, 98 :: u8]. p = 10 + i \<and> prefix [98] (drop i [97, 98, 98 :: u8]) \<and> (\<forall>j < i. \<not> prefix [98] (drop j [97, 98, 98 :: u8])))"
  by (rule strstr_first_occurrence) (simp_all add: str_at_simps)

text \<open>There are only two bases: divide takes every base but ten for sixteen, so that the conversion %o prints the number in hexadecimal, whatever the buffer.\<close>

theorem octal_prints_hex:
  "rt_vsnprintf buf sz ''%o'' [Va_word w] m = rt_vsnprintf buf sz ''%x'' [Va_word w] m"
  unfolding rt_vsnprintf_def format_loop_emits format_octal by (rule refl)

text \<open>When the heap has a block of the size it asks for, rt_malloc_align gives an address that is a multiple of the alignment, with room for the bytes asked for, inside a new block whose address is in the word in front of it, where rt_free_align looks for it; every other block keeps its bytes.\<close>

theorem malloc_align_is_aligned:
  assumes "heap_inv system_heap k" "4 dvd start_addr (heaps k system_heap)" "2 \<le> j" "j < 32" "unat n + 2 ^ j \<le> 2 ^ 32 - 8"
    and "rt_memheap_alloc system_heap (align_word n + 2 ^ j) k = Some (Returns (Some p), k1)"
  shows "\<exists>q k' s. rt_malloc_align n (2 ^ j) k = Some (Returns (Some q), k') \<and> heap_inv system_heap k' \<and>
    live_blocks system_heap k' = insert (p, s) (live_blocks system_heap k) \<and>
    2 ^ j dvd q \<and> p + 4 \<le> q \<and> q + unat n \<le> p + s \<and> unat (get_word (q - 4) (hbytes k')) = p \<and>
    (\<forall>(c, t) \<in> live_blocks system_heap k. \<forall>i < t. hbytes k' (c + i) = hbytes k (c + i))"
  by (rule rt_malloc_align_ok [OF assms])

theorem malloc_align_is_aligned_witness:
  "\<exists>q k' s. rt_malloc_align 36 64 demo_heap = Some (Returns (Some q), k') \<and> heap_inv 0 k' \<and> live_blocks 0 k' = {(0x1018, s)} \<and>
    64 dvd q \<and> q + 36 \<le> 0x1018 + s"
proof -
  have "start_addr (heaps demo_heap 0) = 0x1000" using view_first [OF demo_heap_ok] demo_heap_pool(2) by simp
  moreover have "rt_memheap_alloc system_heap (align_word 36 + 2 ^ 6) demo_heap = Some (Returns (Some 0x1018), demo_heap_used)"
    using demo_alloc by (simp add: align_word_def)
  ultimately show ?thesis
    using malloc_align_is_aligned [of demo_heap 6 36 "0x1018" demo_heap_used] demo_heap_inv by simp blast
qed

text \<open>rt_mp_init on an area with room for at least one block returns and makes a well-formed pool: as many blocks as fit, each with its word in front, all of them free and linked in the order of their addresses, all inside the area, with no byte outside of it changed.\<close>

theorem pool_init_threads_blocks:
  assumes "kinv k" "rt_current_thread k \<noteq> None" "rt_scheduler_lock_nest k = 0"
    and "Obj_ipc n \<notin> set (objects k RT_Object_Class_MemPool)" "n < 2 ^ 32"
    and "st \<noteq> 0" "st + unat sz \<le> 2 ^ 32" "0 < bs" "unat bs \<le> 2 ^ 32 - 8" "unat (RT_ALIGN bs 4) + 4 \<le> unat (RT_ALIGN_DOWN sz 4)"
  shows "\<exists>k'. rt_mp_init n name st sz bs k = Some (RT_EOK, k') \<and> mp_ok n k' \<and> mp_held n k' = {} \<and>
    mp_free_list n k' = all_blocks st (unat (RT_ALIGN bs 4) + 4) (blocks_of sz bs) \<and>
    st + blocks_of sz bs * (unat (RT_ALIGN bs 4) + 4) \<le> st + unat sz \<and>
    (\<forall>a. a \<notin> {st ..< st + unat sz} \<longrightarrow> hbytes k' a = hbytes k a)"
  by (rule rt_mp_init_ok [OF assms])

theorem pool_init_threads_blocks_witness:
  "\<exists>k'. rt_mp_init 7 ''mp'' 0x2000 64 10 demo_plain = Some (RT_EOK, k') \<and> mp_ok 7 k' \<and> mp_free_list 7 k' = [0x2000, 0x2010, 0x2020, 0x2030]"
proof -
  have n: "RT_ALIGN (10 :: u32) 4 = 12" "RT_ALIGN_DOWN (64 :: u32) 4 = 64" by (simp_all add: RT_ALIGN_def RT_ALIGN_DOWN_def)
  have "all_blocks 0x2000 (unat (RT_ALIGN (10 :: u32) 4) + 4) (blocks_of 64 10) = [0x2000, 0x2010, 0x2020, 0x2030]"
    unfolding all_blocks_def blocks_of_def n by (simp add: upt_rec)
  then show ?thesis
    using pool_init_threads_blocks [OF kinv_demo_plain _ _ demo_plain_pool(2), of 7 "0x2000" 64 10 "''mp''"] n by auto
qed

text \<open>When the area is too small for one block, rt_mp_init succeeds with no block, and the null pointer that is to close the list goes to the word at the place of block number minus one, in front of the area.\<close>

theorem pool_init_small_writes_before:
  assumes "kinv k" "rt_current_thread k \<noteq> None" "rt_scheduler_lock_nest k = 0"
    and "Obj_ipc n \<notin> set (objects k RT_Object_Class_MemPool)"
    and "unat (RT_ALIGN bs 4) + 4 \<le> st" "st < 2 ^ 32" "0 < sz" "0 < bs" "unat bs \<le> 2 ^ 32 - 8"
      "unat (RT_ALIGN_DOWN sz 4) < unat (RT_ALIGN bs 4) + 4"
  shows "\<exists>k'. rt_mp_init n name st sz bs k = Some (RT_EOK, k') \<and> block_total_count (mempools k' n) = 0 \<and>
    hbytes k' = put_word (st - (unat (RT_ALIGN bs 4) + 4)) 0 (hbytes k)"
  by (rule rt_mp_init_small [OF assms])

theorem pool_init_small_writes_before_witness:
  "\<exists>k'. rt_mp_init 7 ''mp'' 0x2000 8 12 demo_plain = Some (RT_EOK, k') \<and> hbytes k' = put_word 0x1ff0 0 (hbytes demo_plain)"
proof -
  have n: "RT_ALIGN (12 :: u32) 4 = 12" "RT_ALIGN_DOWN (8 :: u32) 4 = 8" by (simp_all add: RT_ALIGN_def RT_ALIGN_DOWN_def)
  then show ?thesis
    using pool_init_small_writes_before [OF kinv_demo_plain _ _ demo_plain_pool(2), of 12 "0x2000" 8 7 "''mp''"] by auto
qed

text \<open>Pools and heap together: rt_mp_create takes one block of the system heap and makes of it a well-formed pool with all blocks free, writing nowhere else, or fails and leaves the heap as it was; deleting the pool gives the heap back exactly what was taken.\<close>

theorem pool_create_delete_roundtrip:
  assumes "heap_inv 0 k" "only_system_heap k" "rt_interrupt_nest k = 0" "n \<noteq> 0" "n \<noteq> heap_lock (heaps k 0)" "n < 2 ^ 32"
    and "0 < cnt" "0 < bs" "unat bs \<le> 2 ^ 32 - 8" "unat cnt * (unat (RT_ALIGN bs 4) + 4) \<le> 2 ^ 32 - 4"
  shows "\<exists>r k1. rt_mp_create name cnt bs (Some n) k = Some (Returns r, k1) \<and> heap_inv 0 k1 \<and>
    (case r of None \<Rightarrow> live_blocks 0 k1 = live_blocks 0 k \<and> hbytes k1 = hbytes k
     | Some m \<Rightarrow> m = n \<and> mp_ok n k1 \<and> mp_held n k1 = {} \<and>
        (\<exists>p s k2. live_blocks 0 k1 = insert (p, s) (live_blocks 0 k) \<and>
           mp_free_list n k1 = all_blocks p (unat (RT_ALIGN bs 4) + 4) (unat cnt) \<and> unat cnt * (unat (RT_ALIGN bs 4) + 4) \<le> s \<and>
           (\<forall>a. a \<notin> {p ..< p + s} \<longrightarrow> hbytes k1 a = hbytes k a) \<and>
           rt_mp_delete n k1 = Some (Returns RT_EOK, k2) \<and> heap_inv 0 k2 \<and> live_blocks 0 k2 = live_blocks 0 k))"
proof -
  obtain r k1 where r: "rt_mp_create name cnt bs (Some n) k = Some (Returns r, k1)"
    using rt_mp_create_ok [OF assms, of name] by blast
  then show ?thesis using rt_mp_create_ok [OF assms, of name] create_then_delete [OF assms, of name k1]
    by (intro exI [of _ r] exI [of _ k1]) (auto split: option.splits simp del: atLeastLessThan_iff)
qed

theorem pool_create_delete_roundtrip_witness:
  "\<exists>r k1. rt_mp_create ''mp'' 4 10 (Some 7) demo_plain = Some (Returns r, k1) \<and> heap_inv 0 k1"
proof -
  have n: "RT_ALIGN (10 :: u32) 4 = 12" by (simp add: RT_ALIGN_def)
  show ?thesis
    using pool_create_delete_roundtrip [OF demo_plain_heap(1) demo_plain_pool(1), of 7 4 10 "''mp''"] demo_heap_pool(3) n by auto
qed

text \<open>The size rt_mp_create asks the heap for is a product in 32 bits and the count is not reduced: when the product wraps and the heap has a block of the small size, the pool claims all its blocks on a piece of memory that cannot hold them.\<close>

theorem pool_create_wraps:
  assumes "heap_inv 0 k" "only_system_heap k" "rt_interrupt_nest k = 0" "n \<noteq> 0" "n \<noteq> heap_lock (heaps k 0)" "0 < cnt" "0 < bs"
    and "unat (request_size ((RT_ALIGN bs 4 + 4) * cnt)) + 36 \<le> unat cnt * (unat (RT_ALIGN bs 4) + 4)"
    and "request_size ((RT_ALIGN bs 4 + 4) * cnt) < available_size (heaps k 0)"
    and "(a, t, False) \<in> set (heap_view 0 k)" "unat (request_size ((RT_ALIGN bs 4 + 4) * cnt)) \<le> t"
  shows "\<exists>k' p s. rt_mp_create name cnt bs (Some n) k = Some (Returns (Some n), k') \<and>
    live_blocks 0 k' = insert (p, s) (live_blocks 0 k) \<and> start_address (mempools k' n) = p \<and>
    block_total_count (mempools k' n) = cnt \<and> block_free_count (mempools k' n) = cnt \<and> block_size (mempools k' n) = RT_ALIGN bs 4 \<and>
    s < unat (request_size ((RT_ALIGN bs 4 + 4) * cnt)) + 36 \<and> s < unat cnt * (unat (RT_ALIGN bs 4) + 4)"
  by (rule rt_mp_create_wraps [OF assms])

theorem pool_create_wraps_witness:
  "\<exists>k' p s. rt_mp_create ''mp'' 0x10000001 12 (Some 7) demo_plain = Some (Returns (Some 7), k') \<and>
    live_blocks 0 k' = insert (p, s) (live_blocks 0 demo_plain) \<and> block_free_count (mempools k' 7) = 0x10000001 \<and> s < 52"
proof -
  have n: "RT_ALIGN (12 :: u32) 4 = 12" "request_size ((12 + 4) * 0x10000001 :: u32) = 16" by (simp_all add: RT_ALIGN_def request_size_def)
  have "(0x1000, 976, False) \<in> set (heap_view 0 demo_plain)" unfolding demo_plain_heap(3) by simp
  from pool_create_wraps [OF demo_plain_heap(1) demo_plain_pool(1) _ _ _ _ _ _ _ this, of 7 "0x10000001" 12 "''mp''", unfolded n]
  show ?thesis using demo_heap_pool(3) demo_heap_available by auto
qed

end
